(* ===== verification/Adg_Prelude.thy ===== *)
theory Adg_Prelude
  imports Main "HOL-Library.Word" "HOL-Library.Char_ord" "HOL-Library.List_Lexorder"
begin

unbundle bit_operations_syntax

section \<open>Prelude: errors, strings, numbers as text, and masks\<close>

text \<open>
  What every component shares: the exceptions of \<open>app/domain/errors.py\<close> as values of
  a sum type, the text operations of Python that the modelled code uses (strip, split, join,
  decimal and hexadecimal formatting), and the order of bit masks. A Python string is a list of
  characters with codes below 256; masks are 32-bit words.
\<close>

named_theorems mask_simps \<open>bitwise facts that decide a mask equation position by position\<close>
named_theorems result_simps \<open>rewriting of computations in the error sum\<close>

subsection \<open>Exceptions as values\<close>

text \<open>
  The exception classes of the domain layer, each with the \<open>field\<close> its message names. The
  message text itself is for the operator and is not modelled. \<open>RightsLayerError\<close> is a
  \<open>RightsError\<close>, which is a \<open>DomainValidationError\<close>, as the predicates below say.
  \<open>KeyError\<close> is the failure of a Python dictionary subscript, \<open>ValueError\<close> that of reading an
  enumeration from a text that is none of its values, \<open>AssertionError\<close> that of an \<open>assert\<close>. The remediation and governance
  services raise their own three: not found, a state that does not permit the request, and a
  caller without the authority; \<open>IntegrityError\<close> is the database refusing a duplicate key. \<open>RemediationValidationError\<close> is a \<open>DomainValidationError\<close>.
\<close>

datatype adg_error =
    DomainValidationError string
  | RightsError string
  | RightsLayerError string
  | RemediationValidationError string
  | KeyError
  | ValueError
  | AssertionError
  | RemediationNotFound
  | RemediationConflict
  | RemediationForbidden
  | IntegrityError

fun error_field :: "adg_error \<Rightarrow> string option" where
  "error_field (DomainValidationError f) = Some f"
| "error_field (RightsError f) = Some f"
| "error_field (RightsLayerError f) = Some f"
| "error_field (RemediationValidationError f) = Some f"
| "error_field _ = None"

fun is_domain_validation_error :: "adg_error \<Rightarrow> bool" where
  "is_domain_validation_error (DomainValidationError _) = True"
| "is_domain_validation_error (RightsError _) = True"
| "is_domain_validation_error (RightsLayerError _) = True"
| "is_domain_validation_error (RemediationValidationError _) = True"
| "is_domain_validation_error _ = False"

fun is_rights_error :: "adg_error \<Rightarrow> bool" where
  "is_rights_error (RightsError _) = True"
| "is_rights_error (RightsLayerError _) = True"
| "is_rights_error _ = False"

type_synonym 'a result = "adg_error + 'a"

fun res_bind :: "'a result \<Rightarrow> ('a \<Rightarrow> 'b result) \<Rightarrow> 'b result" where
  "res_bind (Inl e) f = Inl e"
| "res_bind (Inr x) f = f x"

definition returns :: "'a result \<Rightarrow> bool" where
  "returns r \<longleftrightarrow> (\<exists>x. r = Inr x)"

lemma returns_Inr [simp]: "returns (Inr x)" and returns_Inl [simp]: "\<not> returns (Inl e)"
  by (auto simp: returns_def)

lemma res_bind_eq_Inr [result_simps]:
  "res_bind r f = Inr y \<longleftrightarrow> (\<exists>x. r = Inr x \<and> f x = Inr y)"
  by (cases r) auto

lemma res_bind_eq_Inl [result_simps]:
  "res_bind r f = Inl e \<longleftrightarrow> r = Inl e \<or> (\<exists>x. r = Inr x \<and> f x = Inl e)"
  by (cases r) auto

lemma returns_bind [result_simps]:
  "returns (res_bind r f) \<longleftrightarrow> (\<exists>x. r = Inr x \<and> returns (f x))"
  by (cases r) auto

text \<open>A loop whose body may raise: the first error stops it.\<close>

fun res_map :: "('a \<Rightarrow> 'b result) \<Rightarrow> 'a list \<Rightarrow> 'b list result" where
  "res_map f [] = Inr []"
| "res_map f (x # xs) = res_bind (f x) (\<lambda>y. res_bind (res_map f xs) (\<lambda>ys. Inr (y # ys)))"

lemma res_map_all: "(\<And>x. x \<in> set xs \<Longrightarrow> f x = Inr (g x)) \<Longrightarrow> res_map f xs = Inr (map g xs)"
  by (induction xs) auto

subsection \<open>Characters and text\<close>

abbreviation code :: "char \<Rightarrow> nat" where
  "code c \<equiv> of_char c"

definition is_py_space :: "char \<Rightarrow> bool" where
  "is_py_space c \<longleftrightarrow> code c \<in> {9, 10, 11, 12, 13, 28, 29, 30, 31, 32, 133, 160}"

definition py_strip :: "string \<Rightarrow> string" where
  "py_strip s = rev (dropWhile is_py_space (rev (dropWhile is_py_space s)))"

fun split_on :: "char \<Rightarrow> string \<Rightarrow> string list" where
  "split_on c [] = [[]]"
| "split_on c (x # xs) =
     (if x = c then [] # split_on c xs
      else (case split_on c xs of [] \<Rightarrow> [[x]] | y # ys \<Rightarrow> (x # y) # ys))"

fun join_with :: "string \<Rightarrow> string list \<Rightarrow> string" where
  "join_with sep [] = []"
| "join_with sep [x] = x"
| "join_with sep (x # y # ys) = x @ sep @ join_with sep (y # ys)"

definition is_prefix_of :: "string \<Rightarrow> string \<Rightarrow> bool" where
  "is_prefix_of p s \<longleftrightarrow> take (length p) s = p"

definition em_dash :: string where
  "em_dash = [CHR 0xE2, CHR 0x80, CHR 0x94]"

definition backslash :: string where
  "backslash = [CHR 0x5C]"

lemma split_on_nonempty [simp]: "split_on c s \<noteq> []"
  by (cases s) (auto split: list.splits)

lemma split_on_no_sep: "c \<notin> set s \<Longrightarrow> split_on c s = [s]"
  by (induction s) auto

lemma split_on_append: "c \<notin> set s \<Longrightarrow> split_on c (s @ c # t) = s # split_on c t"
  by (induction s) (auto split: list.splits)

lemma split_on_join:
  "xs \<noteq> [] \<Longrightarrow> \<forall>x \<in> set xs. c \<notin> set x \<Longrightarrow> split_on c (join_with [c] xs) = xs"
proof (induction xs)
  case (Cons x xs)
  then show ?case
    by (cases xs) (auto simp: split_on_no_sep split_on_append)
qed simp

lemma join_split_on: "join_with [c] (split_on c s) = s"
proof (induction s)
  case (Cons x s)
  obtain y ys where "split_on c s = y # ys"
    by (cases "split_on c s") auto
  with Cons show ?case
    by (cases ys) auto
qed simp

lemma py_strip_id:
  assumes "s \<noteq> []" "\<not> is_py_space (hd s)" "\<not> is_py_space (last s)"
  shows "py_strip s = s"
proof -
  have "dropWhile is_py_space s = s"
    using assms by (cases s) auto
  moreover have "dropWhile is_py_space (rev s) = rev s"
    using assms by (cases s rule: rev_cases) auto
  ultimately show ?thesis
    by (simp add: py_strip_def)
qed

subsection \<open>Decimal and hexadecimal text\<close>

definition digit_char :: "nat \<Rightarrow> char" where
  "digit_char d = char_of (48 + d)"

definition is_digit :: "char \<Rightarrow> bool" where
  "is_digit c \<longleftrightarrow> 48 \<le> code c \<and> code c \<le> 57"

definition digit_val :: "char \<Rightarrow> nat" where
  "digit_val c = code c - 48"

fun dec_string :: "nat \<Rightarrow> string" where
  "dec_string n = (if n < 10 then [digit_char n] else dec_string (n div 10) @ [digit_char (n mod 10)])"

declare dec_string.simps [simp del]

definition dec_value :: "string \<Rightarrow> nat" where
  "dec_value s = foldl (\<lambda>n c. 10 * n + digit_val c) 0 s"

definition hex_char :: "nat \<Rightarrow> char" where
  "hex_char d = (if d < 10 then char_of (48 + d) else char_of (55 + d))"

definition is_hex_digit :: "char \<Rightarrow> bool" where
  "is_hex_digit c \<longleftrightarrow> is_digit c \<or> 65 \<le> code c \<and> code c \<le> 70 \<or> 97 \<le> code c \<and> code c \<le> 102"

definition hex_val :: "char \<Rightarrow> nat" where
  "hex_val c = (if is_digit c then code c - 48
     else if 97 \<le> code c then code c - 87 else code c - 55)"

definition hex_value :: "string \<Rightarrow> nat" where
  "hex_value s = foldl (\<lambda>n c. 16 * n + hex_val c) 0 s"

text \<open>\<open>hex_pad w n\<close> is Python's \<open>f"{n:0wX}"\<close> for a number of at most \<open>w\<close> hex digits.\<close>

fun hex_pad :: "nat \<Rightarrow> nat \<Rightarrow> string" where
  "hex_pad 0 n = []"
| "hex_pad (Suc w) n = hex_pad w (n div 16) @ [hex_char (n mod 16)]"

definition hex_mask :: "32 word \<Rightarrow> string" where
  "hex_mask m = ''0x'' @ hex_pad 8 (unat m)"

definition lower_hex_char :: "nat \<Rightarrow> char" where
  "lower_hex_char d = (if d < 10 then char_of (48 + d) else char_of (87 + d))"

fun lower_hex_pad :: "nat \<Rightarrow> nat \<Rightarrow> string" where
  "lower_hex_pad 0 n = []"
| "lower_hex_pad (Suc w) n = lower_hex_pad w (n div 16) @ [lower_hex_char (n mod 16)]"

lemma code_digit_char: "d < 10 \<Longrightarrow> code (digit_char d) = 48 + d"
  by (simp add: digit_char_def)

lemma is_digit_digit_char: "d < 10 \<Longrightarrow> is_digit (digit_char d)"
  by (simp add: is_digit_def code_digit_char)

lemma digit_val_digit_char: "d < 10 \<Longrightarrow> digit_val (digit_char d) = d"
  by (simp add: digit_val_def code_digit_char)

lemma dec_value_snoc: "dec_value (s @ [c]) = 10 * dec_value s + digit_val c"
  by (simp add: dec_value_def)

lemma dec_value_dec_string [simp]: "dec_value (dec_string n) = n"
proof (induction n rule: dec_string.induct)
  case (1 n)
  show ?case
  proof (cases "n < 10")
    case True
    then show ?thesis
      by (simp add: dec_string.simps [of n] dec_value_def digit_val_digit_char)
  next
    case False
    with "1.IH" show ?thesis
      by (simp add: dec_string.simps [of n] dec_value_snoc digit_val_digit_char)
  qed
qed

lemma dec_string_digits: "\<forall>c \<in> set (dec_string n). is_digit c"
proof (induction n rule: dec_string.induct)
  case (1 n)
  show ?case
    by (subst dec_string.simps) (use 1 in \<open>auto simp: is_digit_digit_char\<close>)
qed

lemma dec_string_nonempty [simp]: "dec_string n \<noteq> []"
  by (subst dec_string.simps) simp

lemma length_dec_string: "n < 10 ^ k \<Longrightarrow> 0 < k \<Longrightarrow> length (dec_string n) \<le> k"
proof (induction n arbitrary: k rule: dec_string.induct)
  case (1 n)
  show ?case
  proof (cases "n < 10")
    case True
    with "1.prems" show ?thesis
      by (subst dec_string.simps) simp
  next
    case False
    obtain j where k: "k = Suc j"
      using "1.prems" by (cases k) auto
    have "0 < j"
      using False "1.prems" k by (cases j) auto
    moreover have "n div 10 < 10 ^ j"
      using "1.prems" k by (simp add: less_mult_imp_div_less mult.commute)
    ultimately have "length (dec_string (n div 10)) \<le> j"
      using "1.IH" False by blast
    with False k show ?thesis
      by (subst dec_string.simps) simp
  qed
qed

lemma code_hex_char: "d < 16 \<Longrightarrow> code (hex_char d) = (if d < 10 then 48 + d else 55 + d)"
  by (simp add: hex_char_def)

lemma is_hex_digit_hex_char: "d < 16 \<Longrightarrow> is_hex_digit (hex_char d)"
  by (auto simp: is_hex_digit_def is_digit_def code_hex_char)

lemma hex_val_hex_char: "d < 16 \<Longrightarrow> hex_val (hex_char d) = d"
  by (auto simp: hex_val_def is_digit_def code_hex_char)

lemma hex_value_snoc: "hex_value (s @ [c]) = 16 * hex_value s + hex_val c"
  by (simp add: hex_value_def)

lemma length_hex_pad [simp]: "length (hex_pad w n) = w"
  by (induction w arbitrary: n) auto

lemma hex_pad_digits: "\<forall>c \<in> set (hex_pad w n). is_hex_digit c"
  by (induction w arbitrary: n) (auto simp: is_hex_digit_hex_char)

lemma hex_value_hex_pad: "n < 16 ^ w \<Longrightarrow> hex_value (hex_pad w n) = n"
proof (induction w arbitrary: n)
  case 0
  then show ?case by (simp add: hex_value_def)
next
  case (Suc w)
  then have "n div 16 < 16 ^ w"
    by (simp add: less_mult_imp_div_less mult.commute)
  with Suc show ?case
    by (simp add: hex_value_snoc hex_val_hex_char)
qed

lemma hex_mask_inject: "hex_mask a = hex_mask b \<longleftrightarrow> a = b"
proof
  assume "hex_mask a = hex_mask b"
  then have "hex_value (hex_pad 8 (unat a)) = hex_value (hex_pad 8 (unat b))"
    by (simp add: hex_mask_def)
  moreover have "unat a < 16 ^ 8" "unat b < 16 ^ 8"
    using unsigned_less [of a] unsigned_less [of b] by simp_all
  ultimately have "unat a = unat b"
    by (simp add: hex_value_hex_pad)
  then show "a = b"
    by (rule unsigned_word_eqI)
qed simp

subsection \<open>Masks, bit by bit\<close>

text \<open>\<open>submask a b\<close>: every bit of \<open>a\<close> is in \<open>b\<close>, in the form the code tests it.\<close>

definition submask :: "32 word \<Rightarrow> 32 word \<Rightarrow> bool" where
  "submask a b \<longleftrightarrow> a AND b = a"

lemma mask_eq_iff [mask_simps]: "(a :: 32 word) = b \<longleftrightarrow> (\<forall>n < 32. bit a n \<longleftrightarrow> bit b n)"
  by (auto intro: bit_word_eqI)

lemma mask_ext_iff: "(a :: 32 word) = b \<longleftrightarrow> (\<forall>n. bit a n \<longleftrightarrow> bit b n)"
  by (auto intro: bit_word_eqI)

lemma mask_bit_bound: "bit (a :: 32 word) n \<Longrightarrow> n < 32"
  using bit_imp_le_length [of a n] by simp

lemma submask_iff: "submask a b \<longleftrightarrow> (\<forall>n. bit a n \<longrightarrow> bit b n)"
  by (auto simp: submask_def mask_simps bit_simps dest: mask_bit_bound)

lemma submaskD: "submask a b \<Longrightarrow> bit a n \<Longrightarrow> bit b n"
  by (simp add: submask_iff)

lemma submask_refl [simp]: "submask a a"
  and submask_zero [simp]: "submask 0 a"
  by (simp_all add: submask_def)

lemma submask_trans: "submask a b \<Longrightarrow> submask b c \<Longrightarrow> submask a c"
  by (simp add: submask_iff)

lemma submask_antisym: "submask a b \<Longrightarrow> submask b a \<Longrightarrow> a = b"
  by (auto simp: submask_iff mask_simps)

lemma submask_or_least: "submask a c \<Longrightarrow> submask b c \<Longrightarrow> submask (a OR b) c"
  by (auto simp: submask_iff bit_simps)

lemma submask_orI1: "submask a b \<Longrightarrow> submask a (b OR c)"
  and submask_orI2: "submask a c \<Longrightarrow> submask a (b OR c)"
  by (auto simp: submask_iff bit_simps)

lemma mask_zero_iff: "(a :: 32 word) = 0 \<longleftrightarrow> (\<forall>n. \<not> bit a n)"
  by (auto simp: mask_simps dest: mask_bit_bound)

lemma bit_mask_not: "bit (NOT (a :: 32 word)) n \<longleftrightarrow> n < 32 \<and> \<not> bit a n"
  by (simp add: bit_simps)

lemma bit_diff: "bit ((a :: 32 word) AND NOT b) n \<longleftrightarrow> bit a n \<and> \<not> bit b n"
  by (auto simp: bit_simps dest: mask_bit_bound)

lemma bit_foldr_or: "bit (foldr (OR) ms (0 :: 32 word)) n \<longleftrightarrow> (\<exists>m \<in> set ms. bit m n)"
  by (induction ms) (auto simp: bit_simps)

subsection \<open>Keys in first-seen order\<close>

text \<open>\<open>list(dict.fromkeys(xs))\<close>: each element once, at its first position.\<close>

fun dict_fromkeys :: "'a list \<Rightarrow> 'a list" where
  "dict_fromkeys [] = []"
| "dict_fromkeys (x # xs) = x # filter (\<lambda>y. y \<noteq> x) (dict_fromkeys xs)"

lemma set_dict_fromkeys [simp]: "set (dict_fromkeys xs) = set xs"
  by (induction xs) auto

lemma distinct_dict_fromkeys [simp]: "distinct (dict_fromkeys xs)"
  by (induction xs) auto

end
