(* ===== verification/Adg_Identity.thy ===== *)
theory Adg_Identity
  imports Adg_Prelude
begin

section \<open>Identity: canonical SIDs and principal kinds (app/domain/identity.py)\<close>

text \<open>
  A security identifier is canonicalised when it is built, so that one SID observed through two
  Windows interfaces has one storage key. The parser is the code's: the regular expression as a
  split at the dashes with one test per field, then the range checks in the code's order. The
  lemmas show that canonicalisation is idempotent, that its result has exactly the components
  it was parsed from, and that two texts have the same canonical form exactly when they denote
  the same components.
\<close>

subsection \<open>Parsing and rendering\<close>

definition MAX_SUB_AUTHORITIES :: nat where
  "MAX_SUB_AUTHORITIES = 15"

definition MAX_UINT32 :: nat where
  "MAX_UINT32 = 4294967295"

definition MAX_AUTHORITY :: nat where
  "MAX_AUTHORITY = 281474976710655"

definition SID_REVISION :: nat where
  "SID_REVISION = 1"

text \<open>\<open>\d{1,k}\<close>, and the identifier authority: \<open>0[xX][0-9a-fA-F]{1,12}|\d{1,20}\<close>.\<close>

definition is_dec_field :: "nat \<Rightarrow> string \<Rightarrow> bool" where
  "is_dec_field k s \<longleftrightarrow> 1 \<le> length s \<and> length s \<le> k \<and> list_all is_digit s"

definition is_hex_field :: "string \<Rightarrow> bool" where
  "is_hex_field s \<longleftrightarrow>
     (case s of z # x # ds \<Rightarrow>
        z = CHR ''0'' \<and> (x = CHR ''x'' \<or> x = CHR ''X'')
        \<and> 1 \<le> length ds \<and> length ds \<le> 12 \<and> list_all is_hex_digit ds
      | _ \<Rightarrow> False)"

definition is_authority_field :: "string \<Rightarrow> bool" where
  "is_authority_field s \<longleftrightarrow> is_hex_field s \<or> is_dec_field 20 s"

definition authority_value :: "string \<Rightarrow> nat" where
  "authority_value s = (if is_hex_field s then hex_value (drop 2 s) else dec_value s)"

definition match_sid :: "string \<Rightarrow> (string \<times> string \<times> string list) option" where
  "match_sid text =
     (case split_on (CHR ''-'') text of
        s # r # a # subs \<Rightarrow>
          if s = ''S'' \<and> is_dec_field 10 r \<and> is_authority_field a
             \<and> list_all (is_dec_field 10) subs
          then Some (r, a, subs) else None
      | _ \<Rightarrow> None)"

definition render_authority :: "nat \<Rightarrow> string" where
  "render_authority a = (if MAX_UINT32 < a then ''0x'' @ hex_pad 12 a else dec_string a)"

definition render_sid :: "nat \<Rightarrow> nat \<Rightarrow> nat list \<Rightarrow> string" where
  "render_sid rv a subs =
     join_with ''-'' (''S'' # dec_string rv # render_authority a # map dec_string subs)"

definition canonicalize_sid :: "string \<Rightarrow> string result" where
  "canonicalize_sid raw =
     (let text = py_strip raw in
      if text = [] then Inl (DomainValidationError ''sid'')
      else case match_sid (if take 1 text = ''s'' then ''S'' @ drop 1 text else text) of
        None \<Rightarrow> Inl (DomainValidationError ''sid'')
      | Some (r, a, sub_texts) \<Rightarrow>
          if dec_value r \<noteq> SID_REVISION then Inl (DomainValidationError ''sid'')
          else if MAX_AUTHORITY < authority_value a then Inl (DomainValidationError ''sid'')
          else if MAX_SUB_AUTHORITIES < length sub_texts then Inl (DomainValidationError ''sid'')
          else if list_ex (\<lambda>s. MAX_UINT32 < s) (map dec_value sub_texts)
            then Inl (DomainValidationError ''sid'')
          else Inr (render_sid (dec_value r) (authority_value a) (map dec_value sub_texts)))"

datatype sid = Sid (sid_value: string)

definition parse_sid :: "string \<Rightarrow> sid result" where
  "parse_sid s = res_bind (canonicalize_sid s) (\<lambda>v. Inr (Sid v))"

definition try_parse_sid :: "string \<Rightarrow> sid option" where
  "try_parse_sid s = (case parse_sid s of Inl _ \<Rightarrow> None | Inr v \<Rightarrow> Some v)"

subsection \<open>Reading a SID's components\<close>

definition sid_fields :: "sid \<Rightarrow> string list" where
  "sid_fields s = split_on (CHR ''-'') (sid_value s)"

definition sid_revision :: "sid \<Rightarrow> nat" where
  "sid_revision s = dec_value (sid_fields s ! 1)"

definition identifier_authority :: "sid \<Rightarrow> nat" where
  "identifier_authority s = authority_value (sid_fields s ! 2)"

definition sub_authorities :: "sid \<Rightarrow> nat list" where
  "sub_authorities s = map dec_value (drop 3 (sid_fields s))"

definition sid_rid :: "sid \<Rightarrow> nat option" where
  "sid_rid s = (let subs = sub_authorities s in if subs \<noteq> [] then Some (last subs) else None)"

definition is_domain_relative :: "sid \<Rightarrow> bool" where
  "is_domain_relative s \<longleftrightarrow>
     (let subs = sub_authorities s in
      identifier_authority s = 5 \<and> 4 < length subs \<and> subs ! 0 = 21)"

definition is_domain_sid :: "sid \<Rightarrow> bool" where
  "is_domain_sid s \<longleftrightarrow>
     (let subs = sub_authorities s in
      identifier_authority s = 5 \<and> length subs = 4 \<and> subs ! 0 = 21)"

text \<open>\<open>rsplit("-", 1)[0]\<close> is the text of every field but the last.\<close>

definition domain_sid_of :: "sid \<Rightarrow> sid option result" where
  "domain_sid_of s =
     (if \<not> is_domain_relative s then Inr None
      else res_bind (parse_sid (join_with ''-'' (butlast (sid_fields s)))) (\<lambda>d. Inr (Some d)))"

definition is_builtin_sid :: "sid \<Rightarrow> bool" where
  "is_builtin_sid s \<longleftrightarrow> is_prefix_of ''S-1-5-32-'' (sid_value s)"

definition WELL_KNOWN_SID_NAMES :: "(string \<times> string) list" where
  "WELL_KNOWN_SID_NAMES =
    [(''S-1-0-0'', ''NULL SID''),
     (''S-1-1-0'', ''Everyone''),
     (''S-1-2-0'', ''LOCAL''),
     (''S-1-2-1'', ''CONSOLE LOGON''),
     (''S-1-3-0'', ''CREATOR OWNER''),
     (''S-1-3-1'', ''CREATOR GROUP''),
     (''S-1-3-4'', ''OWNER RIGHTS''),
     (''S-1-5-1'', ''DIALUP''),
     (''S-1-5-2'', ''NETWORK''),
     (''S-1-5-3'', ''BATCH''),
     (''S-1-5-4'', ''INTERACTIVE''),
     (''S-1-5-6'', ''SERVICE''),
     (''S-1-5-7'', ''ANONYMOUS LOGON''),
     (''S-1-5-9'', ''ENTERPRISE DOMAIN CONTROLLERS''),
     (''S-1-5-11'', ''Authenticated Users''),
     (''S-1-5-13'', ''TERMINAL SERVER USER''),
     (''S-1-5-15'', ''This Organization''),
     (''S-1-5-18'', ''SYSTEM''),
     (''S-1-5-19'', ''LOCAL SERVICE''),
     (''S-1-5-20'', ''NETWORK SERVICE''),
     (''S-1-5-32-544'', ''BUILTIN'' @ backslash @ ''Administrators''),
     (''S-1-5-32-545'', ''BUILTIN'' @ backslash @ ''Users''),
     (''S-1-5-32-546'', ''BUILTIN'' @ backslash @ ''Guests''),
     (''S-1-5-32-547'', ''BUILTIN'' @ backslash @ ''Power Users''),
     (''S-1-5-32-551'', ''BUILTIN'' @ backslash @ ''Backup Operators''),
     (''S-1-5-32-555'', ''BUILTIN'' @ backslash @ ''Remote Desktop Users''),
     (''S-1-5-32-559'', ''BUILTIN'' @ backslash @ ''Performance Log Users''),
     (''S-1-5-32-562'', ''BUILTIN'' @ backslash @ ''Distributed COM Users''),
     (''S-1-5-33'', ''WRITE RESTRICTED''),
     (''S-1-5-113'', ''Local account''),
     (''S-1-5-114'', ''Local account and member of Administrators group''),
     (''S-1-15-2-1'', ''ALL APPLICATION PACKAGES'')]"

definition WELL_KNOWN_RID_NAMES :: "(nat \<times> string) list" where
  "WELL_KNOWN_RID_NAMES =
    [(500, ''Administrator''),
     (501, ''Guest''),
     (502, ''krbtgt''),
     (512, ''Domain Admins''),
     (513, ''Domain Users''),
     (514, ''Domain Guests''),
     (515, ''Domain Computers''),
     (516, ''Domain Controllers''),
     (517, ''Cert Publishers''),
     (518, ''Schema Admins''),
     (519, ''Enterprise Admins''),
     (520, ''Group Policy Creator Owners''),
     (525, ''Protected Users''),
     (526, ''Key Admins''),
     (527, ''Enterprise Key Admins''),
     (553, ''RAS and IAS Servers'')]"

definition well_known_name :: "sid \<Rightarrow> string option" where
  "well_known_name s = map_of WELL_KNOWN_SID_NAMES (sid_value s)"

definition is_well_known_sid :: "sid \<Rightarrow> bool" where
  "is_well_known_sid s \<longleftrightarrow> well_known_name s \<noteq> None \<or> is_builtin_sid s"

subsection \<open>Principals\<close>

datatype principal_kind =
    PK_USER
  | PK_DOMAIN_GROUP
  | PK_LOCAL_GROUP
  | PK_COMPUTER
  | PK_MANAGED_SERVICE_ACCOUNT
  | PK_WELL_KNOWN
  | PK_FOREIGN_SECURITY_PRINCIPAL
  | PK_UNRESOLVED

fun principal_kind_value :: "principal_kind \<Rightarrow> string" where
  "principal_kind_value PK_USER = ''user''"
| "principal_kind_value PK_DOMAIN_GROUP = ''domain_group''"
| "principal_kind_value PK_LOCAL_GROUP = ''local_group''"
| "principal_kind_value PK_COMPUTER = ''computer''"
| "principal_kind_value PK_MANAGED_SERVICE_ACCOUNT = ''managed_service_account''"
| "principal_kind_value PK_WELL_KNOWN = ''well_known''"
| "principal_kind_value PK_FOREIGN_SECURITY_PRINCIPAL = ''foreign_security_principal''"
| "principal_kind_value PK_UNRESOLVED = ''unresolved''"

text \<open>The order of \<open>Sid\<close> (\<open>order=True\<close>): that of the canonical text.\<close>

instantiation sid :: linorder
begin

definition less_eq_sid :: "sid \<Rightarrow> sid \<Rightarrow> bool" where
  "less_eq_sid a b \<longleftrightarrow> sid_value a \<le> sid_value b"

definition less_sid :: "sid \<Rightarrow> sid \<Rightarrow> bool" where
  "less_sid a b \<longleftrightarrow> sid_value a < sid_value b"

instance
  by standard (auto simp: less_eq_sid_def less_sid_def intro: sid.expand)

end

subsection \<open>Canonicalisation is a projection\<close>

lemma is_digit_not_special:
  "is_digit c \<Longrightarrow> c \<noteq> CHR ''-'' \<and> \<not> is_py_space c \<and> c \<noteq> CHR ''x'' \<and> c \<noteq> CHR ''X''"
  by (auto simp: is_digit_def is_py_space_def)

lemma is_hex_digit_not_special: "is_hex_digit c \<Longrightarrow> c \<noteq> CHR ''-'' \<and> \<not> is_py_space c"
  by (auto simp: is_hex_digit_def is_digit_def is_py_space_def)

lemma dec_field_not_hex: "is_dec_field k s \<Longrightarrow> \<not> is_hex_field s"
  by (auto simp: is_dec_field_def is_hex_field_def dest: is_digit_not_special split: list.splits)

lemma is_dec_field_dec_string: "n < 10 ^ k \<Longrightarrow> 0 < k \<Longrightarrow> is_dec_field k (dec_string n)"
  using dec_string_digits [of n] length_dec_string [of n k] dec_string_nonempty [of n]
  by (cases "dec_string n") (auto simp: is_dec_field_def list_all_iff)

lemma dash_notin_dec_string [simp]: "CHR ''-'' \<notin> set (dec_string n)"
  using dec_string_digits [of n] is_digit_not_special by blast

lemma dash_notin_hex_pad [simp]: "CHR ''-'' \<notin> set (hex_pad w n)"
  using hex_pad_digits [of w n] is_hex_digit_not_special by blast

lemma dash_notin_render_authority [simp]: "CHR ''-'' \<notin> set (render_authority a)"
  by (simp add: render_authority_def)

lemma authority_field_render:
  assumes "a \<le> MAX_AUTHORITY"
  shows "is_authority_field (render_authority a) \<and> authority_value (render_authority a) = a"
proof (cases "MAX_UINT32 < a")
  case True
  have "is_hex_field (''0x'' @ hex_pad 12 a)"
    using hex_pad_digits [of 12 a] by (simp add: is_hex_field_def list_all_iff)
  moreover have "a < 16 ^ 12"
    using assms by (simp add: MAX_AUTHORITY_def)
  ultimately show ?thesis
    using True by (simp add: render_authority_def is_authority_field_def authority_value_def
        hex_value_hex_pad)
next
  case False
  have "a < 10 ^ 20"
    using assms by (simp add: MAX_AUTHORITY_def)
  then have "is_dec_field 20 (dec_string a)"
    by (simp add: is_dec_field_dec_string)
  with False show ?thesis
    by (auto simp: render_authority_def is_authority_field_def authority_value_def
        dest: dec_field_not_hex)
qed

lemma split_render_sid:
  "split_on (CHR ''-'') (render_sid rv a subs)
     = ''S'' # dec_string rv # render_authority a # map dec_string subs"
  unfolding render_sid_def
  by (rule split_on_join) auto

lemma match_render_sid:
  assumes "rv < 10 ^ 10" "a \<le> MAX_AUTHORITY" "\<forall>s \<in> set subs. s \<le> MAX_UINT32"
  shows "match_sid (render_sid rv a subs) = Some (dec_string rv, render_authority a, map dec_string subs)"
proof -
  have "is_dec_field 10 (dec_string rv)"
    using assms(1) by (simp add: is_dec_field_dec_string)
  moreover have "list_all (is_dec_field 10) (map dec_string subs)"
    using assms(3) by (auto simp: list_all_iff MAX_UINT32_def intro!: is_dec_field_dec_string)
  ultimately show ?thesis
    using authority_field_render [OF assms(2)]
    by (simp add: match_sid_def split_render_sid)
qed

lemma join_with_ends:
  assumes "xs \<noteq> []" "\<forall>x \<in> set xs. x \<noteq> []"
  shows "join_with sep xs \<noteq> [] \<and> hd (join_with sep xs) = hd (hd xs)
    \<and> last (join_with sep xs) = last (last xs)"
  using assms
proof (induction sep xs rule: join_with.induct)
  case (3 sep x y ys)
  then show ?case by auto
qed auto

lemma render_authority_nonempty [simp]: "render_authority a \<noteq> []"
  by (simp add: render_authority_def)

lemma render_authority_last: "\<not> is_py_space (last (render_authority a))"
proof (cases "MAX_UINT32 < a")
  case True
  have "hex_pad 12 a \<noteq> []"
    using length_hex_pad [of 12 a] by (metis length_0_conv zero_neq_numeral)
  with True show ?thesis
    using hex_pad_digits [of 12 a] is_hex_digit_not_special last_in_set [of "hex_pad 12 a"]
    by (auto simp: render_authority_def)
next
  case False
  then show ?thesis
    using dec_string_digits [of a] is_digit_not_special last_in_set [of "dec_string a"]
    by (auto simp: render_authority_def)
qed

lemma dec_string_last: "\<not> is_py_space (last (dec_string n))"
  using dec_string_digits [of n] is_digit_not_special last_in_set [of "dec_string n"] by auto

lemma strip_render_sid: "py_strip (render_sid rv a subs) = render_sid rv a subs"
proof (rule py_strip_id)
  let ?fs = "''S'' # dec_string rv # render_authority a # map dec_string subs"
  have *: "render_sid rv a subs \<noteq> [] \<and> hd (render_sid rv a subs) = hd (hd ?fs)
      \<and> last (render_sid rv a subs) = last (last ?fs)"
    unfolding render_sid_def by (rule join_with_ends) auto
  then show "render_sid rv a subs \<noteq> []" and "\<not> is_py_space (hd (render_sid rv a subs))"
    by (auto simp: is_py_space_def)
  show "\<not> is_py_space (last (render_sid rv a subs))"
    using * render_authority_last [of a] dec_string_last
    by (cases subs rule: rev_cases) auto
qed

lemma render_sid_head: "take 1 (render_sid rv a subs) = ''S''"
  by (cases subs) (simp_all add: render_sid_def)

lemma canonicalize_render_sid:
  assumes "a \<le> MAX_AUTHORITY" "length subs \<le> MAX_SUB_AUTHORITIES" "\<forall>s \<in> set subs. s \<le> MAX_UINT32"
  shows "canonicalize_sid (render_sid SID_REVISION a subs) = Inr (render_sid SID_REVISION a subs)"
proof -
  have "render_sid SID_REVISION a subs \<noteq> []"
    using render_sid_head [of SID_REVISION a subs] by auto
  moreover have "match_sid (render_sid SID_REVISION a subs)
      = Some (dec_string SID_REVISION, render_authority a, map dec_string subs)"
    using assms by (intro match_render_sid) (auto simp: SID_REVISION_def)
  moreover have "map (dec_value \<circ> dec_string) subs = subs"
    by (simp add: comp_def)
  ultimately show ?thesis
    using assms authority_field_render [OF assms(1)] render_sid_head [of SID_REVISION a subs]
    by (auto simp: canonicalize_sid_def strip_render_sid Let_def list_ex_iff)
qed

lemma canonicalize_sid_form:
  assumes "canonicalize_sid raw = Inr v"
  obtains a subs where "v = render_sid SID_REVISION a subs" "a \<le> MAX_AUTHORITY"
    "length subs \<le> MAX_SUB_AUTHORITIES" "\<forall>s \<in> set subs. s \<le> MAX_UINT32"
proof -
  from assms obtain r a ts where
    "v = render_sid SID_REVISION (authority_value a) (map dec_value ts)"
    "authority_value a \<le> MAX_AUTHORITY" "length ts \<le> MAX_SUB_AUTHORITIES"
    "\<not> list_ex (\<lambda>s. MAX_UINT32 < s) (map dec_value ts)"
    by (auto simp: canonicalize_sid_def Let_def split: if_splits option.splits)
  then show thesis
    by (intro that [of "authority_value a" "map dec_value ts"])
      (auto simp: list_ex_iff not_less)
qed

lemma render_sid_inject:
  assumes "a \<le> MAX_AUTHORITY" "b \<le> MAX_AUTHORITY"
    and "render_sid rv a subs = render_sid rw b tubs"
  shows "a = b \<and> subs = tubs"
proof -
  from assms(3) have "split_on (CHR ''-'') (render_sid rv a subs) = split_on (CHR ''-'') (render_sid rw b tubs)"
    by simp
  then have ra: "render_authority a = render_authority b" and rs: "map dec_string subs = map dec_string tubs"
    by (simp_all add: split_render_sid)
  from ra authority_field_render [OF assms(1)] authority_field_render [OF assms(2)]
  have "a = b" by metis
  moreover from arg_cong [OF rs, of "map dec_value"] have "subs = tubs"
    by (simp add: comp_def)
  ultimately show ?thesis ..
qed

lemma sid_components_render:
  assumes "a \<le> MAX_AUTHORITY"
  shows "identifier_authority (Sid (render_sid rv a subs)) = a"
    and "sub_authorities (Sid (render_sid rv a subs)) = subs"
  using authority_field_render [OF assms]
  by (simp_all add: identifier_authority_def sub_authorities_def sid_fields_def split_render_sid
      comp_def)

lemma parse_sid_form:
  assumes "parse_sid raw = Inr s"
  obtains a subs where "s = Sid (render_sid SID_REVISION a subs)" "a \<le> MAX_AUTHORITY"
    "length subs \<le> MAX_SUB_AUTHORITIES" "\<forall>x \<in> set subs. x \<le> MAX_UINT32"
proof -
  from assms obtain v where v: "canonicalize_sid raw = Inr v" "s = Sid v"
    by (auto simp: parse_sid_def result_simps)
  show thesis
    by (rule canonicalize_sid_form [OF v(1)]) (use v(2) that in blast)
qed

lemma sid_fields_render: "sid_fields (Sid (render_sid rv a subs))
    = ''S'' # dec_string rv # render_authority a # map dec_string subs"
  by (simp add: sid_fields_def split_render_sid)

lemma render_butlast:
  "subs \<noteq> [] \<Longrightarrow> join_with ''-'' (butlast (sid_fields (Sid (render_sid rv a subs))))
     = render_sid rv a (butlast subs)"
  unfolding sid_fields_render
  by (cases subs rule: rev_cases) (simp_all add: render_sid_def butlast_append)

lemma parse_render_sid:
  assumes "a \<le> MAX_AUTHORITY" "length subs \<le> MAX_SUB_AUTHORITIES" "\<forall>s \<in> set subs. s \<le> MAX_UINT32"
  shows "parse_sid (render_sid SID_REVISION a subs) = Inr (Sid (render_sid SID_REVISION a subs))"
  using canonicalize_render_sid [OF assms] by (simp add: parse_sid_def)

lemma sample_sid_text: "render_sid SID_REVISION 5 [21, 7] = ''S-1-5-21-7''"
  by (simp add: render_sid_def render_authority_def SID_REVISION_def MAX_UINT32_def
      dec_string.simps digit_char_def char_of_def bit_0)

lemma sample_sid_parses: "parse_sid ''S-1-5-21-7'' = Inr (Sid ''S-1-5-21-7'')"
  unfolding sample_sid_text [symmetric]
  by (rule parse_render_sid) (simp_all add: MAX_AUTHORITY_def MAX_UINT32_def MAX_SUB_AUTHORITIES_def)

subsection \<open>Properties\<close>

text \<open>
  Canonicalisation is idempotent: the text it produces is accepted and is its own canonical form,
  so a stored SID can be parsed again without ever changing.
\<close>

theorem canonicalize_sid_idempotent:
  assumes "canonicalize_sid raw = Inr v"
  shows "canonicalize_sid v = Inr v"
  using assms by (elim canonicalize_sid_form) (simp add: canonicalize_render_sid)

lemma canonicalize_sid_idempotent_witness:
  "canonicalize_sid (render_sid SID_REVISION 5 [21, 7]) = Inr (render_sid SID_REVISION 5 [21, 7])
   \<and> render_sid SID_REVISION 5 [21, 7] = ''S-1-5-21-7''"
proof -
  have "canonicalize_sid (render_sid SID_REVISION 5 [21, 7]) = Inr (render_sid SID_REVISION 5 [21, 7])"
    by (rule canonicalize_render_sid) (simp_all add: MAX_AUTHORITY_def MAX_UINT32_def MAX_SUB_AUTHORITIES_def)
  from canonicalize_sid_idempotent [OF this] show ?thesis
    by (simp add: sample_sid_text)
qed

text \<open>
  A parsed SID is its components: its text is the rendering of its authority and
  sub-authorities, all in range, and two parsed SIDs are equal exactly when those agree, however the
  two texts were spelled.
\<close>

theorem sid_is_its_components:
  assumes "parse_sid raw = Inr s" and "parse_sid raw' = Inr t"
  shows "sid_value s = render_sid 1 (identifier_authority s) (sub_authorities s)
    \<and> identifier_authority s < 2 ^ 48 \<and> length (sub_authorities s) \<le> 15
    \<and> (\<forall>x \<in> set (sub_authorities s). x < 2 ^ 32)
    \<and> (s = t \<longleftrightarrow> identifier_authority s = identifier_authority t
               \<and> sub_authorities s = sub_authorities t)"
proof (rule parse_sid_form [OF assms(1)], rule parse_sid_form [OF assms(2)])
  fix a subs b tubs
  assume "s = Sid (render_sid SID_REVISION a subs)" "a \<le> MAX_AUTHORITY"
    "length subs \<le> MAX_SUB_AUTHORITIES" "\<forall>x \<in> set subs. x \<le> MAX_UINT32"
    and "t = Sid (render_sid SID_REVISION b tubs)" "b \<le> MAX_AUTHORITY"
  then show ?thesis
    using render_sid_inject [of a b SID_REVISION subs SID_REVISION tubs]
    by (auto simp: sid_components_render SID_REVISION_def MAX_AUTHORITY_def MAX_SUB_AUTHORITIES_def
        MAX_UINT32_def le_simps)
qed

lemma sid_is_its_components_witness:
  "sid_value (Sid ''S-1-5-21-7'') = render_sid 1 (identifier_authority (Sid ''S-1-5-21-7''))
      (sub_authorities (Sid ''S-1-5-21-7''))"
  using sid_is_its_components [OF sample_sid_parses sample_sid_parses] by simp

text \<open>
  Attribution to a domain never fails: for a parsed SID that is domain-relative the issuing SID
  parses, and it is the SID with the last sub-authority dropped. It is a domain SID exactly when the
  original had five sub-authorities; a longer one is accepted and gives another domain-relative SID.
\<close>

theorem domain_sid_spec:
  assumes "parse_sid raw = Inr s"
  shows "if is_domain_relative s
    then (\<exists>d. domain_sid_of s = Inr (Some d) \<and> identifier_authority d = 5
        \<and> sub_authorities d = butlast (sub_authorities s)
        \<and> (is_domain_sid d \<longleftrightarrow> length (sub_authorities s) = 5)
        \<and> (is_domain_relative d \<longleftrightarrow> 5 < length (sub_authorities s)))
    else domain_sid_of s = Inr None"
proof (rule parse_sid_form [OF assms])
  fix a subs
  assume s: "s = Sid (render_sid SID_REVISION a subs)" and a: "a \<le> MAX_AUTHORITY"
    and len: "length subs \<le> MAX_SUB_AUTHORITIES" and ub: "\<forall>x \<in> set subs. x \<le> MAX_UINT32"
  note parts = sid_components_render [OF a]
  have "5 \<le> MAX_AUTHORITY" by (simp add: MAX_AUTHORITY_def)
  note parts5 = sid_components_render [OF this]
  show ?thesis
  proof (cases "is_domain_relative s")
    case True
    then have rel: "a = 5" "4 < length subs" "subs ! 0 = 21"
      by (simp_all add: s is_domain_relative_def Let_def parts)
    let ?d = "Sid (render_sid SID_REVISION a (butlast subs))"
    have "\<forall>x \<in> set (butlast subs). x \<le> MAX_UINT32" using ub by (meson in_set_butlastD)
    then have "canonicalize_sid (render_sid SID_REVISION a (butlast subs))
        = Inr (render_sid SID_REVISION a (butlast subs))"
      using a len by (intro canonicalize_render_sid) simp_all
    then have "domain_sid_of s = Inr (Some ?d)"
    proof -
      have "subs \<noteq> []" using rel by auto
      then have "join_with ''-'' (butlast (sid_fields s)) = render_sid SID_REVISION a (butlast subs)"
        by (simp add: s render_butlast)
      with True \<open>canonicalize_sid (render_sid SID_REVISION a (butlast subs))
        = Inr (render_sid SID_REVISION a (butlast subs))\<close> show ?thesis
        by (simp add: domain_sid_of_def parse_sid_def)
    qed
    moreover have "butlast subs ! 0 = 21" using rel by (simp add: nth_butlast)
    ultimately show ?thesis
      using True rel by (auto simp: s is_domain_sid_def is_domain_relative_def Let_def parts5)
  next
    case False
    then show ?thesis by (simp add: domain_sid_of_def)
  qed
qed

lemma domain_sid_spec_witness:
  "\<exists>d. parse_sid (render_sid SID_REVISION 5 [21, 1, 2, 3, 1000])
      = Inr (Sid (render_sid SID_REVISION 5 [21, 1, 2, 3, 1000]))
    \<and> domain_sid_of (Sid (render_sid SID_REVISION 5 [21, 1, 2, 3, 1000])) = Inr (Some d)
    \<and> is_domain_sid d"
proof -
  have p: "parse_sid (render_sid SID_REVISION 5 [21, 1, 2, 3, 1000])
      = Inr (Sid (render_sid SID_REVISION 5 [21, 1, 2, 3, 1000]))"
    by (rule parse_render_sid) (simp_all add: MAX_AUTHORITY_def MAX_UINT32_def MAX_SUB_AUTHORITIES_def)
  have "sub_authorities (Sid (render_sid SID_REVISION 5 [21, 1, 2, 3, 1000])) = [21, 1, 2, 3, 1000]"
    "identifier_authority (Sid (render_sid SID_REVISION 5 [21, 1, 2, 3, 1000])) = 5"
    by (simp_all add: sid_components_render MAX_AUTHORITY_def)
  with p domain_sid_spec [OF p] show ?thesis
    by (auto simp: is_domain_relative_def)
qed

end
