(* ===== verification/Adg_Access.thy ===== *)
theory Adg_Access
  imports Adg_Identity
begin

section \<open>Raw permission facts (app/domain/access.py)\<close>

text \<open>
  The vocabulary of observed access control entries: the two ACL layers, allow and deny, explicit
  and inherited, the flag bits of an ACE header and the bits of an NTFS access mask, and the
  dataclasses \<open>NtfsAce\<close>, \<open>SmbShareAce\<close> and \<open>SecurityDescriptorFacts\<close> with their
  constructors' checks. A flag word is a natural number; a mask is a 32-bit word, built from a
  Python integer by \<open>validate_access_mask\<close>.
\<close>

subsection \<open>Enumerations\<close>

datatype acl_layer = ACL_SMB_SHARE | ACL_NTFS

datatype ace_type = ALLOW | DENY

fun ace_type_value :: "ace_type \<Rightarrow> string" where
  "ace_type_value ALLOW = ''allow''"
| "ace_type_value DENY = ''deny''"

datatype ace_source = EXPLICIT | INHERITED

definition AF_NONE :: nat where "AF_NONE = 0x00"
definition AF_OBJECT_INHERIT :: nat where "AF_OBJECT_INHERIT = 0x01"
definition AF_CONTAINER_INHERIT :: nat where "AF_CONTAINER_INHERIT = 0x02"
definition AF_NO_PROPAGATE_INHERIT :: nat where "AF_NO_PROPAGATE_INHERIT = 0x04"
definition AF_INHERIT_ONLY :: nat where "AF_INHERIT_ONLY = 0x08"
definition AF_INHERITED :: nat where "AF_INHERITED = 0x10"

lemmas ace_flag_defs =
  AF_NONE_def AF_OBJECT_INHERIT_def AF_CONTAINER_INHERIT_def AF_NO_PROPAGATE_INHERIT_def
  AF_INHERIT_ONLY_def AF_INHERITED_def

text \<open>\<open>bool(flags & bit)\<close>\<close>

definition has_flag :: "nat \<Rightarrow> nat \<Rightarrow> bool" where
  "has_flag flags b \<longleftrightarrow> flags AND b \<noteq> 0"

definition READ_DATA :: "32 word" where "READ_DATA = 0x00000001"
definition WRITE_DATA :: "32 word" where "WRITE_DATA = 0x00000002"
definition APPEND_DATA :: "32 word" where "APPEND_DATA = 0x00000004"
definition READ_EA :: "32 word" where "READ_EA = 0x00000008"
definition WRITE_EA :: "32 word" where "WRITE_EA = 0x00000010"
definition EXECUTE :: "32 word" where "EXECUTE = 0x00000020"
definition DELETE_CHILD :: "32 word" where "DELETE_CHILD = 0x00000040"
definition READ_ATTRIBUTES :: "32 word" where "READ_ATTRIBUTES = 0x00000080"
definition WRITE_ATTRIBUTES :: "32 word" where "WRITE_ATTRIBUTES = 0x00000100"
definition DELETE :: "32 word" where "DELETE = 0x00010000"
definition READ_CONTROL :: "32 word" where "READ_CONTROL = 0x00020000"
definition WRITE_DAC :: "32 word" where "WRITE_DAC = 0x00040000"
definition WRITE_OWNER :: "32 word" where "WRITE_OWNER = 0x00080000"
definition SYNCHRONIZE :: "32 word" where "SYNCHRONIZE = 0x00100000"
definition GENERIC_ALL :: "32 word" where "GENERIC_ALL = 0x10000000"
definition GENERIC_EXECUTE :: "32 word" where "GENERIC_EXECUTE = 0x20000000"
definition GENERIC_WRITE :: "32 word" where "GENERIC_WRITE = 0x40000000"
definition GENERIC_READ :: "32 word" where "GENERIC_READ = 0x80000000"

text \<open>The members \<open>for right in NtfsRight\<close> visits, in declaration order.\<close>

definition NTFS_RIGHT_MEMBERS :: "32 word list" where
  "NTFS_RIGHT_MEMBERS =
     [READ_DATA, WRITE_DATA, APPEND_DATA, READ_EA, WRITE_EA, EXECUTE, DELETE_CHILD,
      READ_ATTRIBUTES, WRITE_ATTRIBUTES, DELETE, READ_CONTROL, WRITE_DAC, WRITE_OWNER,
      SYNCHRONIZE, GENERIC_ALL, GENERIC_EXECUTE, GENERIC_WRITE, GENERIC_READ]"

lemmas ntfs_right_defs =
  READ_DATA_def WRITE_DATA_def APPEND_DATA_def READ_EA_def WRITE_EA_def EXECUTE_def
  DELETE_CHILD_def READ_ATTRIBUTES_def WRITE_ATTRIBUTES_def DELETE_def READ_CONTROL_def
  WRITE_DAC_def WRITE_OWNER_def SYNCHRONIZE_def GENERIC_ALL_def GENERIC_EXECUTE_def
  GENERIC_WRITE_def GENERIC_READ_def

definition GENERIC_RIGHT_BITS :: "32 word" where
  "GENERIC_RIGHT_BITS = GENERIC_ALL OR GENERIC_EXECUTE OR GENERIC_WRITE OR GENERIC_READ"

definition MAX_ACCESS_MASK :: int where
  "MAX_ACCESS_MASK = 0xFFFFFFFF"

datatype share_permission = SP_READ | SP_CHANGE | SP_FULL

fun share_permission_value :: "share_permission \<Rightarrow> string" where
  "share_permission_value SP_READ = ''read''"
| "share_permission_value SP_CHANGE = ''change''"
| "share_permission_value SP_FULL = ''full''"

fun SHARE_PERMISSION_MASKS :: "share_permission \<Rightarrow> 32 word" where
  "SHARE_PERMISSION_MASKS SP_READ = 0x001200A9"
| "SHARE_PERMISSION_MASKS SP_CHANGE = 0x001301BF"
| "SHARE_PERMISSION_MASKS SP_FULL = 0x001F01FF"

definition validate_access_mask :: "int \<Rightarrow> 32 word result" where
  "validate_access_mask m =
     (if m < 0 \<or> MAX_ACCESS_MASK < m then Inl (DomainValidationError ''access_mask'')
      else Inr (word_of_int m))"

subsection \<open>One NTFS entry\<close>

record ntfs_ace =
  na_trustee_sid :: sid
  na_ace_type :: ace_type
  na_access_mask :: "32 word"
  na_flags :: nat
  na_source :: ace_source
  na_inherited_from :: "string option"
  na_order_index :: "int option"

definition negative_index :: "int option \<Rightarrow> bool" where
  "negative_index i \<longleftrightarrow> (case i of None \<Rightarrow> False | Some k \<Rightarrow> k < 0)"

definition mk_ntfs_ace ::
  "sid \<Rightarrow> ace_type \<Rightarrow> int \<Rightarrow> nat \<Rightarrow> ace_source \<Rightarrow> string option \<Rightarrow> int option \<Rightarrow> ntfs_ace result" where
  "mk_ntfs_ace trustee ty am flags src from idx =
     res_bind (validate_access_mask am) (\<lambda>m.
       if has_flag flags AF_INHERITED \<noteq> (src = INHERITED)
         then Inl (DomainValidationError ''source'')
       else if from \<noteq> None \<and> src = EXPLICIT
         then Inl (DomainValidationError ''inherited_from'')
       else if negative_index idx
         then Inl (DomainValidationError ''order_index'')
       else Inr \<lparr>na_trustee_sid = trustee, na_ace_type = ty, na_access_mask = m, na_flags = flags,
                 na_source = src, na_inherited_from = from, na_order_index = idx\<rparr>)"

text \<open>The loop both \<open>rights\<close> properties of the code run: keep every known bit that is set.\<close>

definition known_rights :: "32 word list \<Rightarrow> 32 word \<Rightarrow> 32 word" where
  "known_rights members m =
     foldl (\<lambda>known r. if r \<noteq> 0 \<and> m AND r = r then known OR r else known) 0 members"

definition ntfs_ace_rights :: "ntfs_ace \<Rightarrow> 32 word" where
  "ntfs_ace_rights a = known_rights NTFS_RIGHT_MEMBERS (na_access_mask a)"

definition ntfs_ace_unrecognized_bits :: "ntfs_ace \<Rightarrow> 32 word" where
  "ntfs_ace_unrecognized_bits a = na_access_mask a AND NOT (ntfs_ace_rights a)"

definition ntfs_ace_is_inherited :: "ntfs_ace \<Rightarrow> bool" where
  "ntfs_ace_is_inherited a \<longleftrightarrow> na_source a = INHERITED"

definition ntfs_ace_uses_generic_rights :: "ntfs_ace \<Rightarrow> bool" where
  "ntfs_ace_uses_generic_rights a \<longleftrightarrow> na_access_mask a AND GENERIC_RIGHT_BITS \<noteq> 0"

definition ntfs_ace_applies_to_this_object :: "ntfs_ace \<Rightarrow> bool" where
  "ntfs_ace_applies_to_this_object a \<longleftrightarrow> \<not> has_flag (na_flags a) AF_INHERIT_ONLY"

definition ntfs_ace_is_inheritable :: "ntfs_ace \<Rightarrow> bool" where
  "ntfs_ace_is_inheritable a \<longleftrightarrow> has_flag (na_flags a) (AF_OBJECT_INHERIT OR AF_CONTAINER_INHERIT)"

subsection \<open>Identity keys\<close>

text \<open>
  \<open>casefold\<close> is Python's full Unicode case folding, a parameter here. \<open>f"{n:0wx}"\<close> pads
  to at least \<open>w\<close> digits.
\<close>

fun lower_hex :: "nat \<Rightarrow> string" where
  "lower_hex n =
     (if n < 16 then [lower_hex_char n] else lower_hex (n div 16) @ [lower_hex_char (n mod 16)])"

declare lower_hex.simps [simp del]

definition lower_hex_min :: "nat \<Rightarrow> nat \<Rightarrow> string" where
  "lower_hex_min w n = replicate (w - length (lower_hex n)) (CHR ''0'') @ lower_hex n"

definition py_hex8 :: "int \<Rightarrow> string" where
  "py_hex8 m = (if m < 0 then ''-'' @ lower_hex_min 7 (nat (- m)) else lower_hex_min 8 (nat m))"

definition ntfs_ace_identity_key ::
  "(string \<Rightarrow> string) \<Rightarrow> string \<Rightarrow> sid \<Rightarrow> ace_type \<Rightarrow> int \<Rightarrow> nat \<Rightarrow> string result" where
  "ntfs_ace_identity_key casefold resource_key trustee ty am flags =
     res_bind (validate_access_mask am) (\<lambda>m.
       Inr (casefold resource_key @ ''|'' @ sid_value trustee @ ''|'' @ ace_type_value ty
            @ ''|0x'' @ lower_hex_min 8 (unat m) @ ''|0x'' @ lower_hex_min 2 flags))"

definition share_ace_right_token :: "int option \<Rightarrow> share_permission option \<Rightarrow> string" where
  "share_ace_right_token am perm =
     (case perm of
        Some p \<Rightarrow> share_permission_value p
      | None \<Rightarrow> ''0x'' @ py_hex8 (case am of None \<Rightarrow> 0 | Some m \<Rightarrow> m))"

definition share_ace_identity_key ::
  "(string \<Rightarrow> string) \<Rightarrow> string \<Rightarrow> sid \<Rightarrow> ace_type \<Rightarrow> string \<Rightarrow> string" where
  "share_ace_identity_key casefold share_key trustee ty token =
     casefold share_key @ ''|'' @ sid_value trustee @ ''|'' @ ace_type_value ty @ ''|'' @ token"

subsection \<open>One share entry, and a descriptor\<close>

record smb_share_ace =
  sa_trustee_sid :: sid
  sa_ace_type :: ace_type
  sa_access_mask :: "32 word option"
  sa_permission :: "share_permission option"
  sa_order_index :: "int option"

definition mk_smb_share_ace ::
  "sid \<Rightarrow> ace_type \<Rightarrow> int option \<Rightarrow> share_permission option \<Rightarrow> int option \<Rightarrow> smb_share_ace result" where
  "mk_smb_share_ace trustee ty am perm idx =
     (if (am = None) = (perm = None) then Inl (DomainValidationError ''access_mask'')
      else res_bind
        (case am of None \<Rightarrow> Inr None
         | Some m \<Rightarrow> res_bind (validate_access_mask m) (\<lambda>w. Inr (Some w)))
        (\<lambda>mo. if negative_index idx then Inl (DomainValidationError ''order_index'')
              else Inr \<lparr>sa_trustee_sid = trustee, sa_ace_type = ty, sa_access_mask = mo,
                        sa_permission = perm, sa_order_index = idx\<rparr>))"

record security_descriptor_facts =
  sd_owner_sid :: "sid option"
  sd_group_sid :: "sid option"
  sd_dacl_present :: bool
  sd_dacl_protected :: bool
  sd_ace_count :: int

definition mk_security_descriptor_facts ::
  "sid option \<Rightarrow> sid option \<Rightarrow> bool \<Rightarrow> bool \<Rightarrow> int \<Rightarrow> security_descriptor_facts result" where
  "mk_security_descriptor_facts owner grp present protected count =
     (if count < 0 then Inl (DomainValidationError ''ace_count'')
      else if \<not> present \<and> count \<noteq> 0 then Inl (DomainValidationError ''dacl_present'')
      else Inr \<lparr>sd_owner_sid = owner, sd_group_sid = grp, sd_dacl_present = present,
                sd_dacl_protected = protected, sd_ace_count = count\<rparr>)"

definition grants_everyone_full_access :: "security_descriptor_facts \<Rightarrow> bool" where
  "grants_everyone_full_access d \<longleftrightarrow> \<not> sd_dacl_present d"

definition denies_everyone :: "security_descriptor_facts \<Rightarrow> bool" where
  "denies_everyone d \<longleftrightarrow> sd_dacl_present d \<and> sd_ace_count d = 0"

subsection \<open>The loop over known rights is a mask\<close>

definition single_bit :: "32 word \<Rightarrow> bool" where
  "single_bit r \<longleftrightarrow> (\<exists>i < 32. r = 2 ^ i)"

lemma single_bitI: "i < 32 \<Longrightarrow> r = 2 ^ i \<Longrightarrow> single_bit r"
  by (auto simp: single_bit_def)

lemma bit_single: "i < 32 \<Longrightarrow> bit (2 ^ i :: 32 word) n \<longleftrightarrow> n = i"
  by (auto simp: bit_simps)

lemma single_bit_test:
  assumes "single_bit r"
  shows "(if r \<noteq> 0 \<and> m AND r = r then k OR r else k) = k OR (m AND r)"
proof -
  obtain i where i: "i < 32" "r = 2 ^ i"
    using assms by (auto simp: single_bit_def)
  then have b: "bit r n \<longleftrightarrow> n = i" for n
    by (simp add: bit_single)
  have "r \<noteq> 0"
    using b [of i] by (auto simp: mask_zero_iff)
  moreover have "m AND r = r \<longleftrightarrow> bit m i"
    using i(1) by (auto simp: mask_simps bit_simps b)
  ultimately show ?thesis
    using i(1) by (auto simp: mask_simps bit_simps b)
qed

lemma known_rights_single_bits:
  assumes "list_all single_bit members"
  shows "known_rights members m = m AND foldr (OR) members 0"
proof -
  have "foldl (\<lambda>known r. if r \<noteq> 0 \<and> m AND r = r then known OR r else known) k members
      = k OR (m AND foldr (OR) members 0)" for k
    using assms
  proof (induction members arbitrary: k)
    case (Cons r rs)
    then show ?case
      by (simp add: single_bit_test) (simp add: mask_simps bit_simps, blast)
  qed simp
  then show ?thesis
    by (simp add: known_rights_def)
qed

lemma single_bits_map: "list_all (\<lambda>i. i < 32) is \<Longrightarrow> list_all single_bit (map (\<lambda>i. 2 ^ i) is)"
  by (auto simp: list_all_iff intro: single_bitI)

lemma ntfs_members_single: "list_all single_bit NTFS_RIGHT_MEMBERS"
proof -
  have *: "NTFS_RIGHT_MEMBERS
      = map (\<lambda>i. 2 ^ i) [0, 1, 2, 3, 4, 5, 6, 7, 8, 16, 17, 18, 19, 20, 28, 29, 30, 31]"
    by (simp add: NTFS_RIGHT_MEMBERS_def ntfs_right_defs)
  show ?thesis
    unfolding * by (rule single_bits_map) simp
qed

lemma known_ntfs_rights: "known_rights NTFS_RIGHT_MEMBERS m = m AND 0xF01F01FF"
proof -
  have "foldr (OR) NTFS_RIGHT_MEMBERS 0 = (0xF01F01FF :: 32 word)"
    by (simp add: NTFS_RIGHT_MEMBERS_def ntfs_right_defs)
  then show ?thesis
    by (simp add: known_rights_single_bits [OF ntfs_members_single])
qed

lemma validate_access_mask_eq_Inr:
  "validate_access_mask m = Inr w \<longleftrightarrow> 0 \<le> m \<and> m \<le> MAX_ACCESS_MASK \<and> w = word_of_int m"
  by (auto simp: validate_access_mask_def)

lemma validate_access_mask_uint: "validate_access_mask (uint w) = Inr w"
  using unsigned_less [of w, where ?'a = int]
  by (simp add: validate_access_mask_def MAX_ACCESS_MASK_def)

end
