(* ===== verification/Adg_Rights.thy ===== *)
theory Adg_Rights
  imports Adg_Access "HOL-Library.Multiset"
begin

section \<open>The rights algebra (app/access_engine/rights.py)\<close>

text \<open>
  Access masks tagged with the layer they belong to, and every operation on them: expansion of
  generic bits, union, intersection and difference (which refuse to mix layers), folds over many
  masks, the canonical Allow-minus-Deny model, the crossing of the share layer with the NTFS
  layer, and the display categories. A Python \<open>RightsMask\<close> holds an integer its constructor
  checks to be unsigned 32 bit, so its value is a 32-bit word here; \<open>mk_rights_mask\<close> is that
  constructor, and \<open>uint_or_closed\<close>, \<open>uint_and_closed\<close> and \<open>uint_diff_closed\<close> show
  that the integer arithmetic of the operations never leaves the range it accepts.
\<close>

subsection \<open>Bits and tables\<close>

definition ACCESS_SYSTEM_SECURITY :: "32 word" where "ACCESS_SYSTEM_SECURITY = 0x01000000"
definition MAXIMUM_ALLOWED :: "32 word" where "MAXIMUM_ALLOWED = 0x02000000"

definition EXTENDED_RIGHT_MEMBERS :: "32 word list" where
  "EXTENDED_RIGHT_MEMBERS = [ACCESS_SYSTEM_SECURITY, MAXIMUM_ALLOWED]"

definition FILE_GENERIC_READ :: "32 word" where "FILE_GENERIC_READ = 0x00120089"
definition FILE_GENERIC_WRITE :: "32 word" where "FILE_GENERIC_WRITE = 0x00120116"
definition FILE_GENERIC_EXECUTE :: "32 word" where "FILE_GENERIC_EXECUTE = 0x001200A0"
definition FILE_ALL_ACCESS :: "32 word" where "FILE_ALL_ACCESS = 0x001F01FF"

definition FILE_SYSTEM_GENERIC_MAPPING :: "(32 word \<times> 32 word) list" where
  "FILE_SYSTEM_GENERIC_MAPPING =
     [(GENERIC_READ, FILE_GENERIC_READ), (GENERIC_WRITE, FILE_GENERIC_WRITE),
      (GENERIC_EXECUTE, FILE_GENERIC_EXECUTE), (GENERIC_ALL, FILE_ALL_ACCESS)]"

definition SYNCHRONIZE_BIT :: "32 word" where "SYNCHRONIZE_BIT = SYNCHRONIZE"
definition ESCALATION_RIGHTS :: "32 word" where "ESCALATION_RIGHTS = WRITE_DAC OR WRITE_OWNER"

definition KNOWN_BITS :: "32 word" where
  "KNOWN_BITS =
     (READ_DATA OR WRITE_DATA OR APPEND_DATA OR READ_EA OR WRITE_EA OR EXECUTE OR DELETE_CHILD
      OR READ_ATTRIBUTES OR WRITE_ATTRIBUTES OR DELETE OR READ_CONTROL OR WRITE_DAC OR WRITE_OWNER
      OR SYNCHRONIZE OR GENERIC_ALL OR GENERIC_EXECUTE OR GENERIC_WRITE OR GENERIC_READ)
     OR (ACCESS_SYSTEM_SECURITY OR MAXIMUM_ALLOWED)"

lemmas rights_bit_defs =
  ntfs_right_defs ACCESS_SYSTEM_SECURITY_def MAXIMUM_ALLOWED_def FILE_GENERIC_READ_def
  FILE_GENERIC_WRITE_def FILE_GENERIC_EXECUTE_def FILE_ALL_ACCESS_def SYNCHRONIZE_BIT_def
  ESCALATION_RIGHTS_def KNOWN_BITS_def GENERIC_RIGHT_BITS_def

datatype rights_layer = SMB_SHARE | NTFS | EFFECTIVE

fun rights_layer_value :: "rights_layer \<Rightarrow> string" where
  "rights_layer_value SMB_SHARE = ''smb_share''"
| "rights_layer_value NTFS = ''ntfs''"
| "rights_layer_value EFFECTIVE = ''effective''"

definition from_acl_layer :: "acl_layer \<Rightarrow> rights_layer" where
  "from_acl_layer l = (if l = ACL_SMB_SHARE then SMB_SHARE else NTFS)"

datatype access_path = REMOTE_SMB | LOCAL

fun access_path_value :: "access_path \<Rightarrow> string" where
  "access_path_value REMOTE_SMB = ''remote_smb''"
| "access_path_value LOCAL = ''local''"

subsection \<open>The mask value object\<close>

record rights_mask =
  mask_value :: "32 word"
  mask_layer :: rights_layer

definition validate_mask_value :: "int \<Rightarrow> 32 word result" where
  "validate_mask_value v =
     (if v < 0 \<or> MAX_ACCESS_MASK < v then Inl (RightsError ''value'') else Inr (word_of_int v))"

definition mk_rights_mask :: "int \<Rightarrow> rights_layer \<Rightarrow> rights_mask result" where
  "mk_rights_mask v l =
     res_bind (validate_mask_value v) (\<lambda>w. Inr \<lparr>mask_value = w, mask_layer = l\<rparr>)"

definition ntfs_mask :: "int \<Rightarrow> rights_mask result" where "ntfs_mask v = mk_rights_mask v NTFS"
definition smb_mask :: "int \<Rightarrow> rights_mask result" where "smb_mask v = mk_rights_mask v SMB_SHARE"
definition effective_mask :: "int \<Rightarrow> rights_mask result" where
  "effective_mask v = mk_rights_mask v EFFECTIVE"
definition empty_mask :: "rights_layer \<Rightarrow> rights_mask" where
  "empty_mask l = \<lparr>mask_value = 0, mask_layer = l\<rparr>"

text \<open>A mask of an already validated value, as the operations below build it.\<close>

abbreviation rmask :: "32 word \<Rightarrow> rights_layer \<Rightarrow> rights_mask" where
  "rmask v l \<equiv> \<lparr>mask_value = v, mask_layer = l\<rparr>"

definition mask_rights :: "rights_mask \<Rightarrow> 32 word" where
  "mask_rights m = known_rights NTFS_RIGHT_MEMBERS (mask_value m)"

definition mask_extended :: "rights_mask \<Rightarrow> 32 word" where
  "mask_extended m = known_rights EXTENDED_RIGHT_MEMBERS (mask_value m)"

definition mask_unrecognized_bits :: "rights_mask \<Rightarrow> 32 word" where
  "mask_unrecognized_bits m = mask_value m AND NOT KNOWN_BITS"

definition mask_is_empty :: "rights_mask \<Rightarrow> bool" where
  "mask_is_empty m \<longleftrightarrow> mask_value m = 0"

definition has_generic_rights :: "rights_mask \<Rightarrow> bool" where
  "has_generic_rights m \<longleftrightarrow> mask_value m AND GENERIC_RIGHT_BITS \<noteq> 0"

definition mask_is_indeterminate :: "rights_mask \<Rightarrow> bool" where
  "mask_is_indeterminate m \<longleftrightarrow> mask_value m AND MAXIMUM_ALLOWED \<noteq> 0"

definition mask_escalation_rights :: "rights_mask \<Rightarrow> 32 word" where
  "mask_escalation_rights m = mask_rights m AND ESCALATION_RIGHTS"

definition expand_generics :: "rights_mask \<Rightarrow> rights_mask" where
  "expand_generics m =
     (if \<not> has_generic_rights m then m
      else rmask
        (foldl (\<lambda>expanded (generic, concrete).
             if mask_value m AND generic \<noteq> 0 then expanded OR concrete else expanded)
           (mask_value m AND NOT GENERIC_RIGHT_BITS) FILE_SYSTEM_GENERIC_MAPPING)
        (mask_layer m))"

definition require_same_layer :: "rights_mask \<Rightarrow> rights_mask \<Rightarrow> unit result" where
  "require_same_layer a b =
     (if mask_layer a \<noteq> mask_layer b then Inl (RightsLayerError ''layer'') else Inr ())"

definition mask_union :: "rights_mask \<Rightarrow> rights_mask \<Rightarrow> rights_mask result" where
  "mask_union a b = res_bind (require_same_layer a b)
     (\<lambda>_. Inr (rmask (mask_value a OR mask_value b) (mask_layer a)))"

definition mask_intersection :: "rights_mask \<Rightarrow> rights_mask \<Rightarrow> rights_mask result" where
  "mask_intersection a b = res_bind (require_same_layer a b)
     (\<lambda>_. Inr (rmask (mask_value a AND mask_value b) (mask_layer a)))"

definition mask_difference :: "rights_mask \<Rightarrow> rights_mask \<Rightarrow> rights_mask result" where
  "mask_difference a b = res_bind (require_same_layer a b)
     (\<lambda>_. Inr (rmask (mask_value a AND NOT (mask_value b)) (mask_layer a)))"

definition mask_issubset :: "rights_mask \<Rightarrow> rights_mask \<Rightarrow> bool result" where
  "mask_issubset a b = res_bind (require_same_layer a b)
     (\<lambda>_. Inr (mask_value a AND mask_value b = mask_value a))"

definition mask_issuperset :: "rights_mask \<Rightarrow> rights_mask \<Rightarrow> bool result" where
  "mask_issuperset a b = res_bind (require_same_layer a b)
     (\<lambda>_. Inr (mask_value a AND mask_value b = mask_value b))"

definition mask_isdisjoint :: "rights_mask \<Rightarrow> rights_mask \<Rightarrow> bool result" where
  "mask_isdisjoint a b = res_bind (require_same_layer a b)
     (\<lambda>_. Inr (mask_value a AND mask_value b = 0))"

definition mask_grants :: "rights_mask \<Rightarrow> int \<Rightarrow> bool result" where
  "mask_grants m bits = res_bind (validate_mask_value bits) (\<lambda>b. Inr (mask_value m AND b = b))"

text \<open>The operand of \<open>in\<close>: a mask, a right or plain integer, or any other object.\<close>

datatype membership_operand = MaskOperand rights_mask | BitsOperand int | OtherOperand

fun mask_contains :: "rights_mask \<Rightarrow> membership_operand \<Rightarrow> bool result" where
  "mask_contains m (MaskOperand _) = Inl (RightsError ''right'')"
| "mask_contains m (BitsOperand b) = mask_grants m b"
| "mask_contains m OtherOperand = Inl (RightsError ''right'')"

subsection \<open>Normalization\<close>

record normalized_rights =
  nr_raw :: rights_mask
  nr_normalized :: rights_mask
  nr_expanded_generics :: "32 word"
  nr_unrecognized_bits :: "32 word"
  nr_indeterminate :: bool

definition nr_was_generic :: "normalized_rights \<Rightarrow> bool" where
  "nr_was_generic n \<longleftrightarrow> nr_expanded_generics n \<noteq> 0"

definition nr_is_fully_understood :: "normalized_rights \<Rightarrow> bool" where
  "nr_is_fully_understood n \<longleftrightarrow> nr_unrecognized_bits n = 0 \<and> \<not> nr_indeterminate n"

definition normalize_mask :: "rights_mask \<Rightarrow> normalized_rights" where
  "normalize_mask m =
     \<lparr>nr_raw = m, nr_normalized = expand_generics m,
      nr_expanded_generics = mask_rights m AND GENERIC_RIGHT_BITS,
      nr_unrecognized_bits = mask_unrecognized_bits m,
      nr_indeterminate = mask_is_indeterminate m\<rparr>"

definition normalize_ntfs_mask :: "int \<Rightarrow> normalized_rights result" where
  "normalize_ntfs_mask v = res_bind (ntfs_mask v) (\<lambda>m. Inr (normalize_mask m))"

definition normalize_share_mask :: "int \<Rightarrow> normalized_rights result" where
  "normalize_share_mask v = res_bind (smb_mask v) (\<lambda>m. Inr (normalize_mask m))"

fun SHARE_LEVEL_MASKS :: "share_permission \<Rightarrow> 32 word" where
  "SHARE_LEVEL_MASKS SP_READ = 0x001200A9"
| "SHARE_LEVEL_MASKS SP_CHANGE = 0x001301BF"
| "SHARE_LEVEL_MASKS SP_FULL = FILE_ALL_ACCESS"

definition normalize_share_permission :: "share_permission \<Rightarrow> rights_mask" where
  "normalize_share_permission level = rmask (SHARE_LEVEL_MASKS level) SMB_SHARE"

definition normalize_share_ace :: "smb_share_ace \<Rightarrow> normalized_rights result" where
  "normalize_share_ace ace =
     (case sa_access_mask ace of
        Some m \<Rightarrow> normalize_share_mask (uint m)
      | None \<Rightarrow> (case sa_permission ace of
          Some p \<Rightarrow> Inr (normalize_mask (normalize_share_permission p))
        | None \<Rightarrow> Inl (RightsError ''access_mask'')))"

subsection \<open>Folds over many masks\<close>

fun fold_masks ::
  "rights_layer option \<Rightarrow> (rights_mask \<Rightarrow> rights_mask \<Rightarrow> rights_mask result)
   \<Rightarrow> rights_mask option \<Rightarrow> rights_mask list \<Rightarrow> rights_mask option result" where
  "fold_masks layer combine acc [] = Inr acc"
| "fold_masks layer combine acc (m # ms) =
     (if (case layer of None \<Rightarrow> False | Some l \<Rightarrow> mask_layer m \<noteq> l)
      then Inl (RightsLayerError ''layer'')
      else res_bind (case acc of None \<Rightarrow> Inr m | Some a \<Rightarrow> combine a m)
        (\<lambda>a. fold_masks layer combine (Some a) ms))"

definition mask_fold ::
  "rights_mask list \<Rightarrow> rights_layer option
   \<Rightarrow> (rights_mask \<Rightarrow> rights_mask \<Rightarrow> rights_mask result) \<Rightarrow> 32 word \<Rightarrow> rights_mask result" where
  "mask_fold masks layer combine identity =
     res_bind (fold_masks layer combine None masks) (\<lambda>acc.
       case acc of
         Some a \<Rightarrow> Inr a
       | None \<Rightarrow> (case layer of
           None \<Rightarrow> Inl (RightsError ''layer'')
         | Some l \<Rightarrow> Inr (rmask identity l)))"

definition union_all :: "rights_mask list \<Rightarrow> rights_layer option \<Rightarrow> rights_mask result" where
  "union_all masks layer = mask_fold masks layer mask_union 0"

definition intersect_all :: "rights_mask list \<Rightarrow> rights_layer option \<Rightarrow> rights_mask result" where
  "intersect_all masks layer = mask_fold masks layer mask_intersection 0xFFFFFFFF"

definition apply_deny :: "rights_mask \<Rightarrow> rights_mask \<Rightarrow> rights_mask result" where
  "apply_deny allowed denied = mask_difference allowed denied"

definition resolve_canonical ::
  "rights_mask list \<Rightarrow> rights_mask list \<Rightarrow> rights_layer \<Rightarrow> rights_mask result" where
  "resolve_canonical allow_masks deny_masks layer =
     res_bind (union_all allow_masks (Some layer)) (\<lambda>allowed.
     res_bind (union_all deny_masks (Some layer)) (\<lambda>denied. apply_deny allowed denied))"

subsection \<open>Crossing the layers\<close>

record effective_rights_rec =
  er_path :: access_path
  er_rights :: rights_mask
  er_ntfs_rights :: rights_mask
  er_share_rights :: "rights_mask option"

definition mk_effective_rights ::
  "access_path \<Rightarrow> rights_mask \<Rightarrow> rights_mask \<Rightarrow> rights_mask option \<Rightarrow> effective_rights_rec result" where
  "mk_effective_rights path rights ntfs share =
     (if mask_layer rights \<noteq> EFFECTIVE then Inl (RightsError ''rights'')
      else if mask_layer ntfs \<noteq> NTFS then Inl (RightsLayerError ''ntfs_rights'')
      else if (case share of None \<Rightarrow> False | Some s \<Rightarrow> mask_layer s \<noteq> SMB_SHARE)
        then Inl (RightsLayerError ''share_rights'')
      else if (path = REMOTE_SMB) \<noteq> (share \<noteq> None) then Inl (RightsError ''share_rights'')
      else Inr \<lparr>er_path = path, er_rights = rights, er_ntfs_rights = ntfs, er_share_rights = share\<rparr>)"

definition limited_by_share :: "effective_rights_rec \<Rightarrow> bool" where
  "limited_by_share e \<longleftrightarrow>
     (case er_share_rights e of None \<Rightarrow> False
      | Some s \<Rightarrow> mask_value (er_ntfs_rights e) AND NOT (mask_value s) \<noteq> 0)"

definition limited_by_ntfs :: "effective_rights_rec \<Rightarrow> bool" where
  "limited_by_ntfs e \<longleftrightarrow>
     (case er_share_rights e of None \<Rightarrow> False
      | Some s \<Rightarrow> mask_value s AND NOT (mask_value (er_ntfs_rights e)) \<noteq> 0)"

definition er_is_indeterminate :: "effective_rights_rec \<Rightarrow> bool" where
  "er_is_indeterminate e \<longleftrightarrow>
     mask_is_indeterminate (er_ntfs_rights e)
     \<or> (case er_share_rights e of None \<Rightarrow> False | Some s \<Rightarrow> mask_is_indeterminate s)"

definition effective_rights ::
  "rights_mask \<Rightarrow> access_path \<Rightarrow> rights_mask option \<Rightarrow> effective_rights_rec result" where
  "effective_rights ntfs path share =
     (if mask_layer ntfs \<noteq> NTFS then Inl (RightsLayerError ''ntfs'')
      else if path = LOCAL then
        (if share \<noteq> None then Inl (RightsError ''share'')
         else mk_effective_rights path (rmask (mask_value (expand_generics ntfs)) EFFECTIVE) ntfs None)
      else (case share of
          None \<Rightarrow> Inl (RightsError ''share'')
        | Some s \<Rightarrow>
            if mask_layer s \<noteq> SMB_SHARE then Inl (RightsLayerError ''share'')
            else mk_effective_rights path
              (rmask (mask_value (expand_generics s) AND mask_value (expand_generics ntfs)) EFFECTIVE)
              ntfs (Some s)))"

subsection \<open>Display categories\<close>

datatype rights_category =
  CAT_NONE | CAT_TRAVERSE | CAT_READ | CAT_WRITE | CAT_READ_EXECUTE | CAT_MODIFY
  | CAT_FULL_CONTROL | CAT_SPECIAL

text \<open>The dictionary in insertion order, which is the ladder: broadest first.\<close>

definition CATEGORY_REQUIRED_MASKS :: "(rights_category \<times> 32 word) list" where
  "CATEGORY_REQUIRED_MASKS =
     [(CAT_FULL_CONTROL, 0x000F01FF), (CAT_MODIFY, 0x000301BF), (CAT_READ_EXECUTE, 0x000200A9),
      (CAT_WRITE, 0x00000116), (CAT_READ, 0x00020089), (CAT_TRAVERSE, 0x00000020)]"

fun category_display_name :: "rights_category \<Rightarrow> string" where
  "category_display_name CAT_NONE = ''No access''"
| "category_display_name CAT_TRAVERSE = ''Traverse''"
| "category_display_name CAT_READ = ''Read''"
| "category_display_name CAT_WRITE = ''Write''"
| "category_display_name CAT_READ_EXECUTE = ''Read & Execute''"
| "category_display_name CAT_MODIFY = ''Modify''"
| "category_display_name CAT_FULL_CONTROL = ''Full Control''"
| "category_display_name CAT_SPECIAL = ''Special permissions''"

record rights_summary =
  rs_raw :: rights_mask
  rs_normalized :: rights_mask
  rs_primary :: rights_category
  rs_categories :: "rights_category list"
  rs_covered_mask :: "32 word"
  rs_extra_bits :: "32 word"
  rs_unrecognized_bits :: "32 word"
  rs_indeterminate :: bool

definition rs_is_exact :: "rights_summary \<Rightarrow> bool" where
  "rs_is_exact s \<longleftrightarrow> rs_extra_bits s = 0 \<and> \<not> rs_indeterminate s"

definition rs_extra_rights :: "rights_summary \<Rightarrow> 32 word" where
  "rs_extra_rights s = mask_rights (rmask (rs_extra_bits s) (mask_layer (rs_normalized s)))"

definition rs_escalation_rights :: "rights_summary \<Rightarrow> 32 word" where
  "rs_escalation_rights s = mask_escalation_rights (rs_normalized s)"

definition rs_was_generic :: "rights_summary \<Rightarrow> bool" where
  "rs_was_generic s \<longleftrightarrow> has_generic_rights (rs_raw s)"

definition special_permission_bits :: "rights_summary \<Rightarrow> 32 word" where
  "special_permission_bits s = rs_extra_bits s AND NOT MAXIMUM_ALLOWED"

definition rs_label :: "rights_summary \<Rightarrow> string" where
  "rs_label s =
     (if rs_primary s = CAT_NONE then category_display_name CAT_NONE
      else
        (let base =
           (if rs_primary s = CAT_SPECIAL then category_display_name CAT_SPECIAL
            else
              (let named = join_with '', '' (map category_display_name (rs_categories s))
               in if special_permission_bits s \<noteq> 0 then named @ '' (plus special permissions)''
                  else named))
         in if rs_indeterminate s then base @ '' (indeterminate: MAXIMUM_ALLOWED)'' else base))"

text \<open>A category travels with its required mask, the entry of the dictionary it came from.\<close>

definition contained_categories :: "32 word \<Rightarrow> (rights_category \<times> 32 word) list" where
  "contained_categories v =
     (let contained = filter (\<lambda>(c, required). v AND required = required) CATEGORY_REQUIRED_MASKS
      in filter (\<lambda>(c, required).
           \<not> list_ex (\<lambda>(c', required'). c' \<noteq> c \<and> required AND required' = required) contained)
         contained)"

definition summarize :: "rights_mask \<Rightarrow> rights_summary" where
  "summarize m =
     (let normalized = expand_generics m;
          categories = contained_categories (mask_value normalized);
          covered = foldl (\<lambda>acc (c, required). acc OR required) 0 categories;
          extra = mask_value normalized AND NOT covered AND NOT SYNCHRONIZE_BIT;
          primary = (case categories of
              (c, _) # _ \<Rightarrow> c
            | [] \<Rightarrow> if mask_value normalized AND NOT SYNCHRONIZE_BIT \<noteq> 0 then CAT_SPECIAL
                    else CAT_NONE)
      in \<lparr>rs_raw = m, rs_normalized = normalized, rs_primary = primary,
          rs_categories = map fst categories, rs_covered_mask = covered, rs_extra_bits = extra,
          rs_unrecognized_bits = mask_unrecognized_bits normalized,
          rs_indeterminate = mask_is_indeterminate normalized\<rparr>)"

definition classify_share_mask :: "rights_mask \<Rightarrow> share_permission option result" where
  "classify_share_mask m =
     (if mask_layer m \<noteq> SMB_SHARE then Inl (RightsLayerError ''mask'')
      else Inr (find
        (\<lambda>level. let required = SHARE_LEVEL_MASKS level AND NOT SYNCHRONIZE_BIT
                 in mask_value (expand_generics m) AND required = required)
        [SP_FULL, SP_CHANGE, SP_READ]))"

subsection \<open>The integer arithmetic stays in range\<close>

lemma uint_or_closed: "mk_rights_mask (uint a OR uint b) l = Inr (rmask (a OR b) l)"
  and uint_and_closed: "mk_rights_mask (uint a AND uint b) l = Inr (rmask (a AND b) l)"
  and uint_diff_closed: "mk_rights_mask (uint a AND NOT (uint b)) l = Inr (rmask (a AND NOT b) l)"
proof -
  have in_range: "mk_rights_mask (uint w) l = Inr (rmask w l)" for w :: "32 word"
    using unsigned_less [of w, where ?'a = int]
    by (simp add: mk_rights_mask_def validate_mask_value_def MAX_ACCESS_MASK_def)
  show "mk_rights_mask (uint a OR uint b) l = Inr (rmask (a OR b) l)"
    using in_range [of "a OR b"] by (simp add: unsigned_or_eq)
  show "mk_rights_mask (uint a AND uint b) l = Inr (rmask (a AND b) l)"
    using in_range [of "a AND b"] by (simp add: unsigned_and_eq)
  have "uint a AND NOT (uint b) = uint (a AND NOT b)"
    by (rule bit_eqI) (auto simp: bit_simps dest: bit_imp_le_length)
  then show "mk_rights_mask (uint a AND NOT (uint b)) l = Inr (rmask (a AND NOT b) l)"
    using in_range [of "a AND NOT b"] by simp
qed

subsection \<open>Expansion of generic bits\<close>

text \<open>The value the expansion computes, as one expression without the early return.\<close>

definition expand_value :: "32 word \<Rightarrow> 32 word" where
  "expand_value v =
     (v AND NOT GENERIC_RIGHT_BITS)
     OR (if v AND GENERIC_READ \<noteq> 0 then FILE_GENERIC_READ else 0)
     OR (if v AND GENERIC_WRITE \<noteq> 0 then FILE_GENERIC_WRITE else 0)
     OR (if v AND GENERIC_EXECUTE \<noteq> 0 then FILE_GENERIC_EXECUTE else 0)
     OR (if v AND GENERIC_ALL \<noteq> 0 then FILE_ALL_ACCESS else 0)"

lemma and_single_nonzero: "i < 32 \<Longrightarrow> v AND 2 ^ i \<noteq> (0 :: 32 word) \<longleftrightarrow> bit v i"
  by (auto simp: mask_zero_iff bit_simps)

lemma generic_tests:
  "v AND GENERIC_READ \<noteq> 0 \<longleftrightarrow> bit v 31" "v AND GENERIC_WRITE \<noteq> 0 \<longleftrightarrow> bit v 30"
  "v AND GENERIC_EXECUTE \<noteq> 0 \<longleftrightarrow> bit v 29" "v AND GENERIC_ALL \<noteq> 0 \<longleftrightarrow> bit v 28"
  "v AND MAXIMUM_ALLOWED \<noteq> 0 \<longleftrightarrow> bit v 25"
  using and_single_nonzero [of 31 v] and_single_nonzero [of 30 v] and_single_nonzero [of 29 v]
    and_single_nonzero [of 28 v] and_single_nonzero [of 25 v]
  by (simp_all add: rights_bit_defs)

lemma generic_bits_value: "GENERIC_RIGHT_BITS = 0xF0000000"
  by (simp add: rights_bit_defs)

lemma bit_or4: "bit (a OR b OR c OR d) n \<longleftrightarrow> bit a n \<or> bit b n \<or> bit c n \<or> bit (d :: 32 word) n"
  by (simp add: bit_or_iff)

lemma bit_generic_bits: "bit GENERIC_RIGHT_BITS n \<longleftrightarrow> n \<in> {28, 29, 30, 31}"
proof -
  have *: "GENERIC_RIGHT_BITS = 2 ^ 28 OR 2 ^ 29 OR 2 ^ 30 OR 2 ^ 31"
    by (simp add: rights_bit_defs)
  show ?thesis
    unfolding * bit_or4
    using bit_single [of 28 n] bit_single [of 29 n] bit_single [of 30 n] bit_single [of 31 n]
    by auto
qed

lemma no_generic_iff: "v AND GENERIC_RIGHT_BITS = 0 \<longleftrightarrow> (\<forall>n \<in> {28, 29, 30, 31}. \<not> bit v n)"
  by (auto simp: mask_zero_iff bit_simps bit_generic_bits)

lemma expand_generics_eq:
  "expand_generics m = rmask (expand_value (mask_value m)) (mask_layer m)"
proof (cases "has_generic_rights m")
  case True
  then show ?thesis
    by (simp add: expand_generics_def expand_value_def FILE_SYSTEM_GENERIC_MAPPING_def or.assoc)
next
  case False
  then have none: "\<forall>n \<in> {28, 29, 30, 31}. \<not> bit (mask_value m) n"
    by (simp add: has_generic_rights_def no_generic_iff)
  then have "mask_value m AND NOT GENERIC_RIGHT_BITS = mask_value m"
    by (auto simp: mask_simps bit_diff bit_generic_bits)
  with none have "expand_value (mask_value m) = mask_value m"
    by (simp add: expand_value_def generic_tests)
  with False show ?thesis
    by (simp add: expand_generics_def)
qed

lemma mask_layer_expand [simp]: "mask_layer (expand_generics m) = mask_layer m"
  and mask_value_expand: "mask_value (expand_generics m) = expand_value (mask_value m)"
  by (simp_all add: expand_generics_eq)

lemma concrete_mask_bits:
  "\<not> bit FILE_GENERIC_READ n" "\<not> bit FILE_GENERIC_WRITE n"
  "\<not> bit FILE_GENERIC_EXECUTE n" "\<not> bit FILE_ALL_ACCESS n" if "21 \<le> n"
proof -
  have small: "\<not> bit w n" if "drop_bit 21 w = 0" for w :: "32 word"
  proof -
    have "bit (drop_bit 21 w) (n - 21) \<longleftrightarrow> bit w n"
      using \<open>21 \<le> n\<close> by (simp add: bit_drop_bit_eq)
    with that show ?thesis by simp
  qed
  show "\<not> bit FILE_GENERIC_READ n" "\<not> bit FILE_GENERIC_WRITE n"
    "\<not> bit FILE_GENERIC_EXECUTE n" "\<not> bit FILE_ALL_ACCESS n"
    by (rule small; simp add: rights_bit_defs)+
qed

lemma bit_expand_value:
  "bit (expand_value v) n \<longleftrightarrow>
     bit v n \<and> n \<notin> {28, 29, 30, 31}
     \<or> bit v 31 \<and> bit FILE_GENERIC_READ n \<or> bit v 30 \<and> bit FILE_GENERIC_WRITE n
     \<or> bit v 29 \<and> bit FILE_GENERIC_EXECUTE n \<or> bit v 28 \<and> bit FILE_ALL_ACCESS n"
  by (auto simp: expand_value_def generic_tests bit_or_iff bit_diff bit_generic_bits)

lemma expand_value_mono: "submask a b \<Longrightarrow> submask (expand_value a) (expand_value b)"
  by (auto simp: submask_iff bit_expand_value)

lemma expand_value_or: "expand_value (a OR b) = expand_value a OR expand_value b"
  by (auto simp: mask_simps bit_expand_value bit_or_iff)

lemma bit_expand_value_high: "n \<in> {28, 29, 30, 31} \<Longrightarrow> \<not> bit (expand_value v) n"
  using concrete_mask_bits [of n] by (auto simp: bit_expand_value)

lemma expand_value_no_generic: "expand_value v AND GENERIC_RIGHT_BITS = 0"
  unfolding no_generic_iff using bit_expand_value_high by blast

lemma expand_value_id:
  assumes "v AND GENERIC_RIGHT_BITS = 0"
  shows "expand_value v = v"
proof -
  from assms have "\<forall>n \<in> {28, 29, 30, 31}. \<not> bit v n"
    by (simp only: no_generic_iff)
  then show ?thesis
    by (auto simp: mask_simps bit_expand_value)
qed

lemma expand_value_idem [simp]: "expand_value (expand_value v) = expand_value v"
  by (rule expand_value_id) (rule expand_value_no_generic)

subsection \<open>The interface of a fold: one operation on masks of one layer\<close>

text \<open>
  \<open>_fold\<close> takes the combining method and its identity as arguments. What it relies on is the
  contract below; \<open>union_all\<close> and \<open>intersect_all\<close> are its two clients.
\<close>

locale layered_combine =
  fixes combine :: "rights_mask \<Rightarrow> rights_mask \<Rightarrow> rights_mask result"
    and wop :: "32 word \<Rightarrow> 32 word \<Rightarrow> 32 word"
    and ident :: "32 word"
  assumes combine_same: "mask_layer a = mask_layer b \<Longrightarrow>
      combine a b = Inr (rmask (wop (mask_value a) (mask_value b)) (mask_layer a))"
    and combine_diff: "mask_layer a \<noteq> mask_layer b \<Longrightarrow> combine a b = Inl (RightsLayerError ''layer'')"
    and wop_assoc: "wop (wop x y) z = wop x (wop y z)"
    and wop_commute: "wop x y = wop y x"
    and wop_ident: "wop x ident = x"
begin

lemma foldl_wop: "foldl wop x vs = wop x (foldr wop vs ident)"
  by (induction vs arbitrary: x) (simp_all add: wop_ident wop_assoc)

lemma fold_masks_same:
  assumes "\<forall>m \<in> set ms. mask_layer m = l" "lo = None \<or> lo = Some l"
  shows "fold_masks lo combine (Some (rmask v l)) ms
    = Inr (Some (rmask (wop v (foldr wop (map mask_value ms) ident)) l))"
  using assms by (induction ms arbitrary: v) (auto simp: wop_ident wop_assoc combine_same)

lemma mask_fold_same:
  assumes "\<forall>m \<in> set ms. mask_layer m = l"
  shows "mask_fold ms (Some l) combine ident = Inr (rmask (foldr wop (map mask_value ms) ident) l)"
proof (cases ms)
  case Nil
  then show ?thesis by (simp add: mask_fold_def)
next
  case (Cons m ns)
  then obtain v where "m = rmask v l"
    using assms by (cases m) auto
  moreover have "fold_masks (Some l) combine (Some (rmask v l)) ns
      = Inr (Some (rmask (wop v (foldr wop (map mask_value ns) ident)) l))"
    using assms Cons by (intro fold_masks_same) auto
  ultimately show ?thesis
    using Cons by (simp add: mask_fold_def)
qed

lemma fold_masks_other_layer:
  assumes "\<exists>m \<in> set ms. mask_layer m \<noteq> l" "case acc of None \<Rightarrow> True | Some a \<Rightarrow> mask_layer a = l"
  shows "fold_masks (Some l) combine acc ms = Inl (RightsLayerError ''layer'')"
  using assms
proof (induction ms arbitrary: acc)
  case (Cons m ms)
  then show ?case
    by (cases acc) (auto simp: combine_same)
qed simp

lemma mask_fold_spec:
  "mask_fold ms (Some l) combine ident =
     (if list_all (\<lambda>m. mask_layer m = l) ms
      then Inr (rmask (foldr wop (map mask_value ms) ident) l)
      else Inl (RightsLayerError ''layer''))"
  using mask_fold_same [of ms l] fold_masks_other_layer [of ms l None]
  by (auto simp: list_all_iff mask_fold_def)

lemma foldr_wop_perm:
  assumes "mset vs = mset ws"
  shows "foldr wop vs ident = foldr wop ws ident"
proof -
  have comm: "wop x \<circ> wop y = wop y \<circ> wop x" for x y
    by (rule ext) (simp, metis wop_assoc wop_commute)
  have "fold wop (rev vs) = fold wop (rev ws)"
    using assms by (intro fold_multiset_equiv comm) simp
  then show ?thesis by (simp add: foldr_conv_fold)
qed

lemma mask_fold_perm:
  assumes "mset ms = mset ns"
  shows "mask_fold ms (Some l) combine ident = mask_fold ns (Some l) combine ident"
proof -
  have "mset (map mask_value ms) = mset (map mask_value ns)"
    using assms by simp
  then have "foldr wop (map mask_value ms) ident = foldr wop (map mask_value ns) ident"
    by (rule foldr_wop_perm)
  moreover have "set ms = set ns"
    using assms by (metis set_mset_mset)
  ultimately show ?thesis
    by (simp add: mask_fold_spec list_all_iff)
qed

end

interpretation unions: layered_combine mask_union "(OR)" 0
  by unfold_locales
    (auto simp: mask_union_def require_same_layer_def or.assoc or.commute or.left_commute)

interpretation intersections: layered_combine mask_intersection "(AND)" "0xFFFFFFFF"
proof unfold_locales
  fix x :: "32 word"
  have "(0xFFFFFFFF :: 32 word) = - 1" by simp
  then show "x AND 0xFFFFFFFF = x" by (metis and.right_neutral)
qed (auto simp: mask_intersection_def require_same_layer_def and.assoc and.commute and.left_commute)

lemma union_all_spec:
  "union_all ms (Some l) =
     (if list_all (\<lambda>m. mask_layer m = l) ms
      then Inr (rmask (foldr (OR) (map mask_value ms) 0) l)
      else Inl (RightsLayerError ''layer''))"
  unfolding union_all_def by (rule unions.mask_fold_spec)

subsection \<open>Properties of the algebra\<close>

text \<open>Expanding generic bits is idempotent, leaves no generic bit, keeps the layer, and gives
  exactly the specific bits the mask had together with the bits the file-system mapping gives
  each generic bit it had.\<close>

theorem expand_generics_spec:
  "expand_generics (expand_generics m) = expand_generics m
   \<and> \<not> has_generic_rights (expand_generics m)
   \<and> mask_layer (expand_generics m) = mask_layer m
   \<and> (\<forall>n. bit (mask_value (expand_generics m)) n \<longleftrightarrow>
        bit (mask_value m) n \<and> n \<notin> {28, 29, 30, 31}
        \<or> bit (mask_value m) 31 \<and> bit FILE_GENERIC_READ n
        \<or> bit (mask_value m) 30 \<and> bit FILE_GENERIC_WRITE n
        \<or> bit (mask_value m) 29 \<and> bit FILE_GENERIC_EXECUTE n
        \<or> bit (mask_value m) 28 \<and> bit FILE_ALL_ACCESS n)"
  by (simp add: expand_generics_eq has_generic_rights_def expand_value_no_generic bit_expand_value)

lemma extended_rights_value: "mask_extended m = mask_value m AND 0x03000000"
proof -
  have *: "EXTENDED_RIGHT_MEMBERS = map (\<lambda>i. 2 ^ i) [24, 25]"
    by (simp add: EXTENDED_RIGHT_MEMBERS_def rights_bit_defs)
  have "list_all single_bit EXTENDED_RIGHT_MEMBERS"
    unfolding * by (rule single_bits_map) simp
  then show ?thesis
    by (simp add: mask_extended_def known_rights_single_bits)
      (simp add: EXTENDED_RIGHT_MEMBERS_def rights_bit_defs)
qed

lemma mask_split3:
  fixes v a b :: "32 word"
  assumes "a AND b = 0"
  shows "(v AND a) OR (v AND b) OR (v AND NOT (a OR b)) = v
    \<and> (v AND a) AND (v AND b) = 0 \<and> (v AND a) AND (v AND NOT (a OR b)) = 0
    \<and> (v AND b) AND (v AND NOT (a OR b)) = 0"
proof -
  have "\<not> (bit a n \<and> bit b n)" for n
    using assms by (auto simp: mask_zero_iff bit_simps)
  then show ?thesis
    by (auto simp: mask_simps bit_simps)
qed

text \<open>Reading a mask drops nothing: its known rights, its extended bits and its unrecognized
  bits together are the mask, and no bit is in two of them.\<close>

theorem mask_reading_is_partition:
  "mask_rights m OR mask_extended m OR mask_unrecognized_bits m = mask_value m
   \<and> mask_rights m AND mask_extended m = 0
   \<and> mask_rights m AND mask_unrecognized_bits m = 0
   \<and> mask_extended m AND mask_unrecognized_bits m = 0"
proof -
  have "KNOWN_BITS = 0xF01F01FF OR 0x03000000"
    by (simp add: rights_bit_defs)
  then show ?thesis
    using mask_split3 [of "0xF01F01FF" "0x03000000" "mask_value m"]
    by (simp add: mask_rights_def known_ntfs_rights extended_rights_value mask_unrecognized_bits_def)
qed

text \<open>The canonical model: it raises exactly when some mask is of another layer, and otherwise
  a right is in the result exactly when some Allow mask has it and no Deny mask has it.\<close>

theorem resolve_canonical_spec:
  "resolve_canonical allows denies l = Inr r \<longleftrightarrow>
     list_all (\<lambda>m. mask_layer m = l) (allows @ denies) \<and> mask_layer r = l
     \<and> (\<forall>n. bit (mask_value r) n \<longleftrightarrow>
           list_ex (\<lambda>m. bit (mask_value m) n) allows \<and> \<not> list_ex (\<lambda>m. bit (mask_value m) n) denies)"
proof -
  have bits: "bit (foldr (OR) (map mask_value ms) 0) n \<longleftrightarrow> list_ex (\<lambda>m. bit (mask_value m) n) ms" for ms n
    by (auto simp: bit_foldr_or list_ex_iff)
  show ?thesis
  proof (cases "list_all (\<lambda>m. mask_layer m = l) allows \<and> list_all (\<lambda>m. mask_layer m = l) denies")
    case True
    let ?v = "foldr (OR) (map mask_value allows) 0 AND NOT (foldr (OR) (map mask_value denies) 0)"
    have "resolve_canonical allows denies l = Inr (rmask ?v l)"
      using True by (simp add: resolve_canonical_def union_all_spec apply_deny_def
          mask_difference_def require_same_layer_def)
    moreover have "r = rmask ?v l \<longleftrightarrow> mask_layer r = l \<and> mask_value r = ?v"
      by (cases r) auto
    moreover have "mask_value r = ?v \<longleftrightarrow> (\<forall>n. bit (mask_value r) n \<longleftrightarrow> bit ?v n)"
      by (rule mask_ext_iff)
    ultimately show ?thesis
      using True by (auto simp: bit_diff bits)
  next
    case False
    then show ?thesis
      by (auto simp: resolve_canonical_def union_all_spec)
  qed
qed

text \<open>The canonical model does not depend on the order of the entries: any permutation of the
  Allow masks and of the Deny masks gives the same answer, error or not.\<close>

theorem resolve_canonical_order_irrelevant:
  assumes "mset allows = mset allows'" and "mset denies = mset denies'"
  shows "resolve_canonical allows denies l = resolve_canonical allows' denies' l"
  using unions.mask_fold_perm [OF assms(1), of l] unions.mask_fold_perm [OF assms(2), of l]
  by (simp add: resolve_canonical_def union_all_def)

theorem resolve_canonical_order_irrelevant_witness:
  "resolve_canonical [rmask 1 NTFS, rmask 6 NTFS] [rmask 2 NTFS] NTFS
     = resolve_canonical [rmask 6 NTFS, rmask 1 NTFS] [rmask 2 NTFS] NTFS
   \<and> resolve_canonical [rmask 1 NTFS, rmask 6 NTFS] [rmask 2 NTFS] NTFS = Inr (rmask 5 NTFS)"
proof
  show "resolve_canonical [rmask 1 NTFS, rmask 6 NTFS] [rmask 2 NTFS] NTFS
      = resolve_canonical [rmask 6 NTFS, rmask 1 NTFS] [rmask 2 NTFS] NTFS"
    by (rule resolve_canonical_order_irrelevant) simp_all
  show "resolve_canonical [rmask 1 NTFS, rmask 6 NTFS] [rmask 2 NTFS] NTFS = Inr (rmask 5 NTFS)"
    by (simp add: resolve_canonical_def union_all_def mask_fold_def mask_union_def apply_deny_def
        mask_difference_def require_same_layer_def)
qed

subsection \<open>Crossing the layers\<close>

text \<open>Crossing the layers returns exactly when the NTFS mask is an NTFS mask and the share mask
  is present for a remote path and absent for a local one; the right it returns for a remote path
  are those both layers grant after expansion, for a local path those NTFS grants, and the result
  satisfies every check of its own constructor.\<close>

theorem effective_rights_spec:
  "effective_rights ntfs path share = Inr e \<longleftrightarrow>
     mask_layer ntfs = NTFS
     \<and> (case share of None \<Rightarrow> path = LOCAL | Some s \<Rightarrow> path = REMOTE_SMB \<and> mask_layer s = SMB_SHARE)
     \<and> er_path e = path \<and> er_ntfs_rights e = ntfs \<and> er_share_rights e = share
     \<and> mask_layer (er_rights e) = EFFECTIVE
     \<and> (\<forall>n. bit (mask_value (er_rights e)) n \<longleftrightarrow>
           bit (mask_value (expand_generics ntfs)) n
           \<and> (case share of None \<Rightarrow> True | Some s \<Rightarrow> bit (mask_value (expand_generics s)) n))"
proof -
  have eq: "\<lparr>er_path = p, er_rights = rmask v EFFECTIVE, er_ntfs_rights = t, er_share_rights = so\<rparr> = e
      \<longleftrightarrow> er_path e = p \<and> er_ntfs_rights e = t \<and> er_share_rights e = so
        \<and> mask_layer (er_rights e) = EFFECTIVE \<and> (\<forall>n. bit (mask_value (er_rights e)) n \<longleftrightarrow> bit v n)"
    for p v t so
    by (cases e; cases "er_rights e") (auto simp: mask_ext_iff)
  show ?thesis
  proof (cases share)
    case None
    then show ?thesis
      by (cases path) (auto simp: effective_rights_def mk_effective_rights_def eq)
  next
    case (Some s)
    then show ?thesis
      by (cases path) (auto simp: effective_rights_def mk_effective_rights_def eq bit_and_iff)
  qed
qed

text \<open>What the crossing returns, as one equation for the callers.\<close>

lemma effective_rights_local:
  "mask_layer n = NTFS \<Longrightarrow> effective_rights n LOCAL None =
     Inr \<lparr>er_path = LOCAL, er_rights = rmask (expand_value (mask_value n)) EFFECTIVE,
          er_ntfs_rights = n, er_share_rights = None\<rparr>"
  by (simp add: effective_rights_def mk_effective_rights_def mask_value_expand)

lemma effective_rights_remote:
  "mask_layer n = NTFS \<Longrightarrow> mask_layer s = SMB_SHARE \<Longrightarrow> effective_rights n REMOTE_SMB (Some s) =
     Inr \<lparr>er_path = REMOTE_SMB,
          er_rights = rmask (expand_value (mask_value s) AND expand_value (mask_value n)) EFFECTIVE,
          er_ntfs_rights = n, er_share_rights = Some s\<rparr>"
  by (simp add: effective_rights_def mk_effective_rights_def mask_value_expand)

subsection \<open>Display categories never overstate\<close>

lemma covered_fold:
  "foldl (\<lambda>acc (c, required). acc OR required) v cs = v OR foldr (OR) (map snd cs) 0"
  by (induction cs arbitrary: v) (auto simp: or.assoc)

lemma contained_categories_sub:
  "(c, r) \<in> set (contained_categories v) \<Longrightarrow> submask r v \<and> (c, r) \<in> set CATEGORY_REQUIRED_MASKS"
  by (auto simp: contained_categories_def Let_def submask_def and.commute)

lemma covered_sub: "submask (foldr (OR) (map snd (contained_categories v)) 0) v"
  unfolding submask_iff bit_foldr_or
  by (auto dest!: contained_categories_sub submaskD)

lemma required_no_sync: "(c, r) \<in> set CATEGORY_REQUIRED_MASKS \<Longrightarrow> r AND SYNCHRONIZE_BIT = 0"
  by (auto simp: CATEGORY_REQUIRED_MASKS_def rights_bit_defs)

lemma covered_no_sync: "foldr (OR) (map snd (contained_categories v)) 0 AND SYNCHRONIZE_BIT = 0"
proof -
  have "\<not> (bit r n \<and> bit SYNCHRONIZE_BIT n)" if "(c, r) \<in> set (contained_categories v)" for c r n
  proof -
    have "r AND SYNCHRONIZE_BIT = 0"
      using contained_categories_sub [OF that] required_no_sync by blast
    then show ?thesis
      by (metis bit_and_iff mask_zero_iff)
  qed
  then show ?thesis
    unfolding mask_zero_iff bit_and_iff bit_foldr_or by auto
qed

lemma summary_fields:
  "rs_normalized (summarize m) = expand_generics m"
  "rs_categories (summarize m) = map fst (contained_categories (mask_value (expand_generics m)))"
  "rs_covered_mask (summarize m)
     = foldr (OR) (map snd (contained_categories (mask_value (expand_generics m)))) 0"
  "rs_extra_bits (summarize m) = mask_value (expand_generics m)
     AND NOT (rs_covered_mask (summarize m)) AND NOT SYNCHRONIZE_BIT"
  by (simp_all add: summarize_def Let_def covered_fold)

text \<open>A summary never overstates and never drops a right: the categories cover only rights of
  the expanded mask, and that mask is exactly what they cover, the extra bits reported beside
  them, and \<open>SYNCHRONIZE\<close> where it was set; covered and extra bits are disjoint.\<close>

theorem summary_is_exact_partition:
  "submask (rs_covered_mask (summarize m)) (mask_value (expand_generics m))
   \<and> rs_covered_mask (summarize m) OR rs_extra_bits (summarize m)
       OR (mask_value (expand_generics m) AND SYNCHRONIZE_BIT) = mask_value (expand_generics m)
   \<and> rs_covered_mask (summarize m) AND rs_extra_bits (summarize m) = 0"
proof -
  let ?v = "mask_value (expand_generics m)" and ?c = "rs_covered_mask (summarize m)"
  have sub: "submask ?c ?v"
    by (simp add: summary_fields covered_sub)
  moreover have "?c OR (?v AND NOT ?c AND NOT SYNCHRONIZE_BIT) OR (?v AND SYNCHRONIZE_BIT) = ?v"
    using submaskD [OF sub] by (auto simp: mask_ext_iff bit_or_iff bit_and_iff bit_mask_not
        dest: mask_bit_bound)
  moreover have "?c AND (?v AND NOT ?c AND NOT SYNCHRONIZE_BIT) = 0"
    by (auto simp: mask_zero_iff bit_and_iff bit_mask_not)
  ultimately show ?thesis
    by (simp add: summary_fields(4))
qed

text \<open>The reported categories are exactly the contained ones that no other contained category
  implies: each is contained in the mask, none implies another, and every contained category is
  implied by a reported one.\<close>

theorem summary_categories_maximal:
  "(c, r) \<in> set (contained_categories v) \<longleftrightarrow>
     (c, r) \<in> set CATEGORY_REQUIRED_MASKS \<and> submask r v
     \<and> \<not> list_ex (\<lambda>(c', r'). c' \<noteq> c \<and> submask r' v \<and> submask r r') CATEGORY_REQUIRED_MASKS"
  by (auto simp: contained_categories_def Let_def list_ex_iff submask_def and.commute)

lemma write_dac_category:
  "(c, r) \<in> set CATEGORY_REQUIRED_MASKS \<Longrightarrow> bit r 18 \<or> bit r 19 \<Longrightarrow> c = CAT_FULL_CONTROL"
  by (auto simp: CATEGORY_REQUIRED_MASKS_def bit_numeral_rec)

lemma full_control_first:
  assumes "(CAT_FULL_CONTROL, r) \<in> set (contained_categories v)"
  shows "contained_categories v = [(CAT_FULL_CONTROL, r)]"
proof -
  have r: "r = 0x000F01FF" and sub: "submask r v"
    using contained_categories_sub [OF assms] by (auto simp: CATEGORY_REQUIRED_MASKS_def)
  have all: "filter (\<lambda>(c, required). v AND required = required) CATEGORY_REQUIRED_MASKS
      = CATEGORY_REQUIRED_MASKS"
  proof (rule filter_True, clarify)
    fix c q assume "(c, q) \<in> set CATEGORY_REQUIRED_MASKS"
    then have "submask q r"
      unfolding r by (auto simp: CATEGORY_REQUIRED_MASKS_def submask_def)
    then have "submask q v" using sub by (rule submask_trans)
    then show "v AND q = q" by (simp add: submask_def and.commute)
  qed
  show ?thesis
    by (simp add: contained_categories_def all Let_def r) (simp add: CATEGORY_REQUIRED_MASKS_def)
qed

text \<open>A self-grant right is never hidden behind a friendlier label: a mask that has
  \<open>WRITE_DAC\<close> or \<open>WRITE_OWNER\<close> is either summarized as Full Control alone, or the
  right is among the extra bits and the summary says it is not exact.\<close>

theorem escalation_never_hidden:
  assumes "n \<in> {18, 19}" and "bit (mask_value (expand_generics m)) n"
  shows "rs_categories (summarize m) = [CAT_FULL_CONTROL]
    \<or> bit (rs_extra_bits (summarize m)) n \<and> \<not> rs_is_exact (summarize m)"
proof (cases "bit (rs_covered_mask (summarize m)) n")
  case True
  then obtain c r where cr: "(c, r) \<in> set (contained_categories (mask_value (expand_generics m)))" "bit r n"
    by (auto simp: summary_fields bit_foldr_or)
  then have "c = CAT_FULL_CONTROL"
    using assms(1) contained_categories_sub [OF cr(1)] write_dac_category [of c r] by blast
  then show ?thesis
    using cr full_control_first [of r "mask_value (expand_generics m)"]
    by (simp add: summary_fields)
next
  case False
  have "\<not> bit SYNCHRONIZE_BIT n"
    using assms(1) by (auto simp: rights_bit_defs bit_numeral_rec)
  then have "bit (rs_extra_bits (summarize m)) n"
    using assms(2) False mask_bit_bound [OF assms(2)]
    by (simp add: summary_fields(4) bit_and_iff bit_mask_not)
  then show ?thesis
    by (auto simp: rs_is_exact_def)
qed

theorem escalation_never_hidden_witness:
  "bit (rs_extra_bits (summarize (rmask 0x000701BF NTFS))) 18
   \<and> \<not> rs_is_exact (summarize (rmask 0x000701BF NTFS))"
proof -
  have cats: "rs_categories (summarize (rmask 0x000701BF NTFS)) \<noteq> [CAT_FULL_CONTROL]"
    by (simp add: summary_fields mask_value_expand expand_value_id generic_bits_value
        contained_categories_def CATEGORY_REQUIRED_MASKS_def)
  have "bit (mask_value (expand_generics (rmask 0x000701BF NTFS))) 18"
    by (simp add: mask_value_expand expand_value_id generic_bits_value bit_numeral_rec)
  then show ?thesis
    using escalation_never_hidden [of 18 "rmask 0x000701BF NTFS"] cats by simp
qed

text \<open>A share mask is classified by the highest of the three levels it fully contains,
  \<open>SYNCHRONIZE\<close> aside, and by none when it does not even contain Read; any other mask is
  refused.\<close>

theorem classify_share_mask_spec:
  "classify_share_mask m = Inr lo \<longleftrightarrow>
     mask_layer m = SMB_SHARE
     \<and> (let holds = (\<lambda>l. submask (SHARE_LEVEL_MASKS l AND NOT SYNCHRONIZE_BIT)
                        (mask_value (expand_generics m)))
        in lo = (if holds SP_FULL then Some SP_FULL else if holds SP_CHANGE then Some SP_CHANGE
                 else if holds SP_READ then Some SP_READ else None))"
  by (auto simp: classify_share_mask_def Let_def submask_def and.commute)

end
