(* ===== verification/Adg_Conditions.thy ===== *)
theory Adg_Conditions
  imports Adg_Rights
begin

section \<open>Conditions and findings (app/access_engine/conditions.py)\<close>

text \<open>
  The closed vocabulary of what a resolution assumed or could not see, the two sets that say in
  which direction each condition can make an answer wrong, and a finding: one occurrence of a
  condition with its evidence. The evidence is a free-form JSON dictionary in the code; here it
  is an association list over \<open>detail_val\<close>, in the order the code writes the keys.
\<close>

datatype access_condition =
    AC_NULL_DACL
  | AC_EMPTY_DACL
  | AC_PROTECTED_DACL
  | AC_NON_CANONICAL_DACL
  | AC_ORDER_DEPENDENT_RESULT
  | AC_ACE_COUNT_MISMATCH
  | AC_ACL_TRUNCATED
  | AC_OWNER_IMPLICIT_RIGHTS
  | AC_OWNER_RIGHTS_ACE
  | AC_CREATOR_OWNER_ACE
  | AC_LOGON_TYPE_TRUSTEE
  | AC_UNRESOLVED_TRUSTEE
  | AC_TRUSTEE_MEMBERSHIP_UNOBSERVED
  | AC_SUBJECT_UNRESOLVED
  | AC_SUBJECT_IS_A_GROUP
  | AC_SUBJECT_DISABLED
  | AC_MEMBERSHIP_TRUNCATED
  | AC_MEMBERSHIP_CYCLE
  | AC_ASSUMED_TOKEN_SIDS
  | AC_SYSTEM_MAPPING_CONFIRMED
  | AC_SYSTEM_MAPPING_AMBIGUOUS
  | AC_SYSTEM_MAPPING_MISSING
  | AC_SYSTEM_MAPPING_CONFLICTING
  | AC_SHARE_ACL_NOT_OBSERVED
  | AC_NTFS_ACL_NOT_OBSERVED
  | AC_NTFS_ACL_DERIVED
  | AC_INTERMEDIATE_PATH_UNOBSERVED
  | AC_RESOURCE_NOT_UNDER_SHARE
  | AC_INDETERMINATE_RIGHTS
  | AC_UNRECOGNIZED_RIGHTS_BITS
  | AC_GENERIC_RIGHTS_EXPANDED
  | AC_ESCALATION_RIGHTS

primrec access_condition_value :: "access_condition \<Rightarrow> string" where
  "access_condition_value AC_NULL_DACL = ''null_dacl''"
| "access_condition_value AC_EMPTY_DACL = ''empty_dacl''"
| "access_condition_value AC_PROTECTED_DACL = ''protected_dacl''"
| "access_condition_value AC_NON_CANONICAL_DACL = ''non_canonical_dacl''"
| "access_condition_value AC_ORDER_DEPENDENT_RESULT = ''order_dependent_result''"
| "access_condition_value AC_ACE_COUNT_MISMATCH = ''ace_count_mismatch''"
| "access_condition_value AC_ACL_TRUNCATED = ''acl_truncated''"
| "access_condition_value AC_OWNER_IMPLICIT_RIGHTS = ''owner_implicit_rights''"
| "access_condition_value AC_OWNER_RIGHTS_ACE = ''owner_rights_ace''"
| "access_condition_value AC_CREATOR_OWNER_ACE = ''creator_owner_ace''"
| "access_condition_value AC_LOGON_TYPE_TRUSTEE = ''logon_type_trustee''"
| "access_condition_value AC_UNRESOLVED_TRUSTEE = ''unresolved_trustee''"
| "access_condition_value AC_TRUSTEE_MEMBERSHIP_UNOBSERVED = ''trustee_membership_unobserved''"
| "access_condition_value AC_SUBJECT_UNRESOLVED = ''subject_unresolved''"
| "access_condition_value AC_SUBJECT_IS_A_GROUP = ''subject_is_a_group''"
| "access_condition_value AC_SUBJECT_DISABLED = ''subject_disabled''"
| "access_condition_value AC_MEMBERSHIP_TRUNCATED = ''membership_truncated''"
| "access_condition_value AC_MEMBERSHIP_CYCLE = ''membership_cycle''"
| "access_condition_value AC_ASSUMED_TOKEN_SIDS = ''assumed_token_sids''"
| "access_condition_value AC_SYSTEM_MAPPING_CONFIRMED = ''system_mapping_confirmed''"
| "access_condition_value AC_SYSTEM_MAPPING_AMBIGUOUS = ''system_mapping_ambiguous''"
| "access_condition_value AC_SYSTEM_MAPPING_MISSING = ''system_mapping_missing''"
| "access_condition_value AC_SYSTEM_MAPPING_CONFLICTING = ''system_mapping_conflicting''"
| "access_condition_value AC_SHARE_ACL_NOT_OBSERVED = ''share_acl_not_observed''"
| "access_condition_value AC_NTFS_ACL_NOT_OBSERVED = ''ntfs_acl_not_observed''"
| "access_condition_value AC_NTFS_ACL_DERIVED = ''ntfs_acl_derived''"
| "access_condition_value AC_INTERMEDIATE_PATH_UNOBSERVED = ''intermediate_path_unobserved''"
| "access_condition_value AC_RESOURCE_NOT_UNDER_SHARE = ''resource_not_under_share''"
| "access_condition_value AC_INDETERMINATE_RIGHTS = ''indeterminate_rights''"
| "access_condition_value AC_UNRECOGNIZED_RIGHTS_BITS = ''unrecognized_rights_bits''"
| "access_condition_value AC_GENERIC_RIGHTS_EXPANDED = ''generic_rights_expanded''"
| "access_condition_value AC_ESCALATION_RIGHTS = ''escalation_rights''"

primrec describe_condition :: "access_condition \<Rightarrow> string" where
  "describe_condition AC_NULL_DACL =
     ''This object has no DACL. Windows grants every principal full access to an object with a NULL DACL, whatever the share permissions say.''"
| "describe_condition AC_EMPTY_DACL =
     ''This object's DACL is present and empty, so it grants nobody anything. Only the owner's implicit rights remain.''"
| "describe_condition AC_PROTECTED_DACL =
     ''This object blocks inherited permissions (SE_DACL_PROTECTED), so grants made on its parents do not reach it.''"
| "describe_condition AC_NON_CANONICAL_DACL =
     ''The entries are not in canonical order. Windows evaluates them in the order stored, so what the ACL editor shows and what the access check does can differ.''"
| "describe_condition AC_ORDER_DEPENDENT_RESULT =
     ''An Allow entry precedes a Deny entry that would otherwise have removed these rights, so this identity's access depends on the order of the entries.''"
| "describe_condition AC_ACE_COUNT_MISMATCH =
     ''The descriptor declared a different number of entries than ADG holds, so this evaluation ran over an incomplete DACL.''"
| "describe_condition AC_ACL_TRUNCATED =
     ''The DACL is larger than the evaluator's entry ceiling and was not evaluated in full.''"
| "describe_condition AC_OWNER_IMPLICIT_RIGHTS =
     ''The subject owns this object, so Windows grants READ_CONTROL and WRITE_DAC regardless of the DACL. The owner can therefore grant themselves anything.''"
| "describe_condition AC_OWNER_RIGHTS_ACE =
     ''An OWNER RIGHTS (S-1-3-4) entry is present. It replaces the owner's implicit rights rather than adding to them.''"
| "describe_condition AC_CREATOR_OWNER_ACE =
     ''A CREATOR OWNER or CREATOR GROUP entry applies to this object. No access token contains those SIDs, so it grants nothing here even though an ACL viewer shows it.''"
| "describe_condition AC_LOGON_TYPE_TRUSTEE =
     ''An entry names a SID whose presence in a token depends on how the session was established. ADG models one logon type per access path and cannot decide the rest.''"
| "describe_condition AC_UNRESOLVED_TRUSTEE =
     ''An entry names a SID no run has described. The grant is real; who holds it is not known.''"
| "describe_condition AC_TRUSTEE_MEMBERSHIP_UNOBSERVED =
     ''An entry names a group whose membership ADG has never collected, or a SID nothing has identified, so nobody can be ruled out of it.''"
| "describe_condition AC_SUBJECT_UNRESOLVED =
     ''No run has described this identity, so its memberships may be incomplete and its token had to be assumed.''"
| "describe_condition AC_SUBJECT_IS_A_GROUP =
     ''The subject is a group. Groups do not hold access tokens; these are the rights an authenticated member of the group would have.''"
| "describe_condition AC_SUBJECT_DISABLED =
     ''This account is disabled. The rights shown are what the ACL grants it; no logon can exercise them until the account is re-enabled.''"
| "describe_condition AC_MEMBERSHIP_TRUNCATED =
     ''The membership traversal stopped at a limit, so the token is a lower bound and the rights may be wider than reported.''"
| "describe_condition AC_MEMBERSHIP_CYCLE =
     ''A group cycle was traversed while building the token. Expansion terminated; the cycle itself is worth fixing.''"
| "describe_condition AC_ASSUMED_TOKEN_SIDS =
     ''Well-known SIDs that Windows places in every token of this kind were added to the subject's token. They are listed so the assumption can be checked.''"
| "describe_condition AC_SYSTEM_MAPPING_CONFIRMED =
     ''SYSTEM (S-1-5-18) is confirmed: a collector described it as the well-known SYSTEM principal, and on local access it is the LocalSystem account of the host that holds this ACL '' @ em_dash @ '' the identity an entry naming SYSTEM here grants to. Its real token also carries groups, BUILTIN'' @ backslash @ ''Administrators among them, that this answer does not apply, so its rights may be wider than reported.''"
| "describe_condition AC_SYSTEM_MAPPING_AMBIGUOUS =
     ''SYSTEM (S-1-5-18) is ambiguous over a share. No network logon carries S-1-5-18: a SYSTEM process arrives as the computer account of the machine it runs on, and nothing in this question says which machine. Entries naming SYSTEM were not applied; ask about that computer account instead.''"
| "describe_condition AC_SYSTEM_MAPPING_MISSING =
     ''SYSTEM (S-1-5-18) is unconfirmed: no collector has described it, so which identity it stands for is unknown. Entries naming the SID were matched literally and nothing else about it was assumed.''"
| "describe_condition AC_SYSTEM_MAPPING_CONFLICTING =
     ''SYSTEM (S-1-5-18) is disputed: a collector described it as something other than the well-known SYSTEM principal, which Windows defines it to be. The disagreement and where it came from are kept in the detail; no conclusion is drawn from either side.''"
| "describe_condition AC_SHARE_ACL_NOT_OBSERVED =
     ''No run has read this share's permissions, so the share layer could not restrict the result. The real access cannot be wider than what is reported.''"
| "describe_condition AC_NTFS_ACL_NOT_OBSERVED =
     ''No run has read this path's security descriptor and no ancestor was available to derive one from.''"
| "describe_condition AC_NTFS_ACL_DERIVED =
     ''This path's own descriptor was never read. The DACL was projected from the nearest ancestor that was, which is correct only if nothing in between breaks inheritance.''"
| "describe_condition AC_INTERMEDIATE_PATH_UNOBSERVED =
     ''The directories between this path and the ancestor its DACL was derived from were not read. Any of them could set its own permissions.''"
| "describe_condition AC_RESOURCE_NOT_UNDER_SHARE =
     ''ADG cannot identify the share publishing this path, so the share layer could not be applied to a remote calculation.''"
| "describe_condition AC_INDETERMINATE_RIGHTS =
     ''An entry carried MAXIMUM_ALLOWED, which Windows resolves per open against the calling token. The rights set has no fixed value.''"
| "describe_condition AC_UNRECOGNIZED_RIGHTS_BITS =
     ''An evaluated mask carried bits matching no right ADG knows. They are retained in the result and excluded from every label.''"
| "describe_condition AC_GENERIC_RIGHTS_EXPANDED =
     ''An entry carried generic rights, resolved through the file-system generic mapping before evaluation.''"
| "describe_condition AC_ESCALATION_RIGHTS =
     ''The result includes WRITE_DAC or WRITE_OWNER. Whatever the label reads, the holder can grant themselves any other right.''"

definition OVERSTATING_CONDITIONS :: "access_condition set" where
  "OVERSTATING_CONDITIONS =
     {AC_SHARE_ACL_NOT_OBSERVED, AC_NTFS_ACL_DERIVED, AC_INTERMEDIATE_PATH_UNOBSERVED,
      AC_RESOURCE_NOT_UNDER_SHARE, AC_ACE_COUNT_MISMATCH, AC_ACL_TRUNCATED,
      AC_SUBJECT_IS_A_GROUP, AC_SUBJECT_UNRESOLVED, AC_SUBJECT_DISABLED,
      AC_SYSTEM_MAPPING_AMBIGUOUS, AC_SYSTEM_MAPPING_MISSING, AC_SYSTEM_MAPPING_CONFLICTING}"

definition UNDERSTATING_CONDITIONS :: "access_condition set" where
  "UNDERSTATING_CONDITIONS =
     {AC_MEMBERSHIP_TRUNCATED, AC_TRUSTEE_MEMBERSHIP_UNOBSERVED, AC_LOGON_TYPE_TRUSTEE,
      AC_SUBJECT_UNRESOLVED, AC_ACE_COUNT_MISMATCH, AC_ACL_TRUNCATED,
      AC_NTFS_ACL_NOT_OBSERVED, AC_SYSTEM_MAPPING_CONFIRMED, AC_SYSTEM_MAPPING_AMBIGUOUS,
      AC_SYSTEM_MAPPING_MISSING, AC_SYSTEM_MAPPING_CONFLICTING}"

datatype detail_val =
    DNull
  | DStr string
  | DInt int
  | DBool bool
  | DList "detail_val list"
  | DDict "(string \<times> detail_val) list"

definition opt_str :: "string option \<Rightarrow> detail_val" where
  "opt_str s = (case s of None \<Rightarrow> DNull | Some t \<Rightarrow> DStr t)"

definition opt_int :: "int option \<Rightarrow> detail_val" where
  "opt_int i = (case i of None \<Rightarrow> DNull | Some k \<Rightarrow> DInt k)"

record access_finding =
  fi_condition :: access_condition
  fi_detail :: "(string \<times> detail_val) list"

abbreviation finding :: "access_condition \<Rightarrow> (string \<times> detail_val) list \<Rightarrow> access_finding" where
  "finding c d \<equiv> \<lparr>fi_condition = c, fi_detail = d\<rparr>"

definition finding_message :: "access_finding \<Rightarrow> string" where
  "finding_message f = describe_condition (fi_condition f)"

definition finding_may_overstate :: "access_finding \<Rightarrow> bool" where
  "finding_may_overstate f \<longleftrightarrow> fi_condition f \<in> OVERSTATING_CONDITIONS"

definition finding_may_understate :: "access_finding \<Rightarrow> bool" where
  "finding_may_understate f \<longleftrightarrow> fi_condition f \<in> UNDERSTATING_CONDITIONS"

definition finding_str :: "access_finding \<Rightarrow> string" where
  "finding_str f = access_condition_value (fi_condition f) @ '': '' @ finding_message f"

definition conditions_of :: "access_finding list \<Rightarrow> access_condition set" where
  "conditions_of fs = fi_condition ` set fs"

lemma conditions_of_simps [simp]:
  "conditions_of [] = {}"
  "conditions_of (f # fs) = insert (fi_condition f) (conditions_of fs)"
  "conditions_of (fs @ gs) = conditions_of fs \<union> conditions_of gs"
  by (auto simp: conditions_of_def)

lemma conditions_of_concat: "conditions_of (concat fss) = \<Union> (conditions_of ` set fss)"
  by (auto simp: conditions_of_def)

end
