(* ===== verification/Adg_Subjects.thy ===== *)
theory Adg_Subjects
  imports Adg_Conditions
begin

section \<open>Access tokens (app/access_engine/subjects.py)\<close>

text \<open>
  The token an access check matches entries against: the subject's own SID, the groups a
  membership traversal found, and the well-known and logon SIDs one named assumption adds. SYSTEM
  is the one subject whose identity depends on the access path; \<open>system_mapping_of\<close> assesses it
  once and \<open>build_token\<close> reports it. \<open>last_observed_at\<close> is kept as the ISO text the code
  renders it to.
\<close>

definition EVERYONE_SID :: string where "EVERYONE_SID = ''S-1-1-0''"
definition AUTHENTICATED_USERS_SID :: string where "AUTHENTICATED_USERS_SID = ''S-1-5-11''"
definition ANONYMOUS_LOGON_SID :: string where "ANONYMOUS_LOGON_SID = ''S-1-5-7''"
definition NETWORK_SID :: string where "NETWORK_SID = ''S-1-5-2''"
definition INTERACTIVE_SID :: string where "INTERACTIVE_SID = ''S-1-5-4''"
definition SYSTEM_SID :: string where "SYSTEM_SID = ''S-1-5-18''"
definition CREATOR_OWNER_SID :: string where "CREATOR_OWNER_SID = ''S-1-3-0''"
definition CREATOR_GROUP_SID :: string where "CREATOR_GROUP_SID = ''S-1-3-1''"
definition OWNER_RIGHTS_SID :: string where "OWNER_RIGHTS_SID = ''S-1-3-4''"

lemmas sid_constant_defs =
  EVERYONE_SID_def AUTHENTICATED_USERS_SID_def ANONYMOUS_LOGON_SID_def NETWORK_SID_def
  INTERACTIVE_SID_def SYSTEM_SID_def CREATOR_OWNER_SID_def CREATOR_GROUP_SID_def OWNER_RIGHTS_SID_def

definition LOGON_SESSION_SIDS :: "string set" where
  "LOGON_SESSION_SIDS =
     {''S-1-5-1'', ''S-1-5-2'', ''S-1-5-3'', ''S-1-5-4'', ''S-1-5-6'', ''S-1-5-13'', ''S-1-5-14'',
      ''S-1-2-0'', ''S-1-2-1'', ''S-1-5-64-10'', ''S-1-5-64-14'', ''S-1-5-64-21'', ''S-1-5-113'',
      ''S-1-5-114''}"

datatype sid_origin =
  ORIGIN_SUBJECT | ORIGIN_GROUP_MEMBERSHIP | ORIGIN_WELL_KNOWN | ORIGIN_LOGON_TYPE

datatype token_assumption = TA_AUTHENTICATED_USER | TA_ANONYMOUS | TA_SIDS_ONLY

primrec token_assumption_value :: "token_assumption \<Rightarrow> string" where
  "token_assumption_value TA_AUTHENTICATED_USER = ''authenticated_user''"
| "token_assumption_value TA_ANONYMOUS = ''anonymous''"
| "token_assumption_value TA_SIDS_ONLY = ''sids_only''"

datatype system_mapping = SM_CONFIRMED | SM_AMBIGUOUS | SM_MISSING | SM_CONFLICTING

primrec system_mapping_value :: "system_mapping \<Rightarrow> string" where
  "system_mapping_value SM_CONFIRMED = ''confirmed''"
| "system_mapping_value SM_AMBIGUOUS = ''ambiguous''"
| "system_mapping_value SM_MISSING = ''missing''"
| "system_mapping_value SM_CONFLICTING = ''conflicting''"

primrec SYSTEM_MAPPING_CONDITIONS :: "system_mapping \<Rightarrow> access_condition" where
  "SYSTEM_MAPPING_CONDITIONS SM_CONFIRMED = AC_SYSTEM_MAPPING_CONFIRMED"
| "SYSTEM_MAPPING_CONDITIONS SM_AMBIGUOUS = AC_SYSTEM_MAPPING_AMBIGUOUS"
| "SYSTEM_MAPPING_CONDITIONS SM_MISSING = AC_SYSTEM_MAPPING_MISSING"
| "SYSTEM_MAPPING_CONDITIONS SM_CONFLICTING = AC_SYSTEM_MAPPING_CONFLICTING"

subsection \<open>Token entries and subjects\<close>

record token_sid =
  tok_key :: string
  tok_sid :: string
  tok_origin :: sid_origin
  tok_depth :: int
  tok_path :: "string list"
  tok_display_name :: "string option"

definition mk_token_sid ::
  "string \<Rightarrow> string \<Rightarrow> sid_origin \<Rightarrow> int \<Rightarrow> string list \<Rightarrow> string option \<Rightarrow> token_sid result" where
  "mk_token_sid key sid origin depth path name =
     (if key = [] then Inl (DomainValidationError ''key'')
      else if depth < 0 then Inl (DomainValidationError ''depth'')
      else Inr \<lparr>tok_key = key, tok_sid = sid, tok_origin = origin, tok_depth = depth,
                tok_path = path, tok_display_name = name\<rparr>)"

definition tok_is_assumed :: "token_sid \<Rightarrow> bool" where
  "tok_is_assumed t \<longleftrightarrow> tok_origin t \<in> {ORIGIN_WELL_KNOWN, ORIGIN_LOGON_TYPE}"

definition tok_is_direct :: "token_sid \<Rightarrow> bool" where
  "tok_is_direct t \<longleftrightarrow> tok_origin t = ORIGIN_SUBJECT \<or> tok_depth t = 1"

record subject_facts =
  subj_key :: string
  subj_sid :: string
  subj_kind :: "principal_kind option"
  subj_display_name :: "string option"
  subj_enabled :: "bool option"
  subj_last_observed_run_id :: "string option"
  subj_last_observed_at :: "string option"

definition mk_subject_facts ::
  "string \<Rightarrow> string \<Rightarrow> principal_kind option \<Rightarrow> string option \<Rightarrow> bool option \<Rightarrow> string option
   \<Rightarrow> string option \<Rightarrow> subject_facts result" where
  "mk_subject_facts key sid kind name enabled run at =
     (if key = [] then Inl (DomainValidationError ''key'')
      else res_bind (parse_sid sid) (\<lambda>_.
        Inr \<lparr>subj_key = key, subj_sid = sid, subj_kind = kind, subj_display_name = name,
             subj_enabled = enabled, subj_last_observed_run_id = run, subj_last_observed_at = at\<rparr>))"

definition subj_is_group :: "subject_facts \<Rightarrow> bool" where
  "subj_is_group s \<longleftrightarrow> subj_kind s \<in> {Some PK_DOMAIN_GROUP, Some PK_LOCAL_GROUP}"

definition subj_is_well_known :: "subject_facts \<Rightarrow> bool" where
  "subj_is_well_known s \<longleftrightarrow> subj_kind s = Some PK_WELL_KNOWN"

definition subj_resolved :: "subject_facts \<Rightarrow> bool" where
  "subj_resolved s \<longleftrightarrow> subj_kind s \<noteq> None \<and> subj_kind s \<noteq> Some PK_UNRESOLVED"

definition default_assumption :: "subject_facts \<Rightarrow> token_assumption" where
  "default_assumption s =
     (if subj_sid s = ANONYMOUS_LOGON_SID then TA_ANONYMOUS
      else if subj_sid s = SYSTEM_SID \<or> subj_is_well_known s then TA_SIDS_ONLY
      else TA_AUTHENTICATED_USER)"

definition system_mapping_of :: "subject_facts \<Rightarrow> access_path \<Rightarrow> system_mapping option" where
  "system_mapping_of s path =
     (if subj_sid s \<noteq> SYSTEM_SID then None
      else if subj_kind s \<noteq> None \<and> subj_kind s \<notin> {Some PK_WELL_KNOWN, Some PK_UNRESOLVED}
        then Some SM_CONFLICTING
      else if path = REMOTE_SMB then Some SM_AMBIGUOUS
      else if \<not> subj_resolved s then Some SM_MISSING
      else Some SM_CONFIRMED)"

definition presents_subject :: "subject_facts \<Rightarrow> access_path \<Rightarrow> bool" where
  "presents_subject s path \<longleftrightarrow> \<not> (subj_sid s = SYSTEM_SID \<and> path = REMOTE_SMB)"

subsection \<open>The token\<close>

record subject_token =
  st_subject :: subject_facts
  st_assumption :: token_assumption
  st_access_path :: access_path
  st_entries :: "token_sid list"
  st_membership_complete :: bool
  st_findings :: "access_finding list"
  st_system_mapping :: "system_mapping option"
  st_subject_presented :: bool

definition mk_subject_token :: "subject_token \<Rightarrow> subject_token result" where
  "mk_subject_token t =
     (if st_entries t = [] then Inl (DomainValidationError ''entries'')
      else if card (tok_key ` set (st_entries t)) \<noteq> length (st_entries t)
        then Inl (DomainValidationError ''entries'')
      else Inr t)"

definition token_keys :: "subject_token \<Rightarrow> string set" where
  "token_keys t = tok_key ` set (st_entries t)"

definition token_sids :: "subject_token \<Rightarrow> string set" where
  "token_sids t = tok_sid ` set (st_entries t)"

definition token_group_keys :: "subject_token \<Rightarrow> string list" where
  "token_group_keys t =
     map tok_key (filter (\<lambda>e. tok_origin e = ORIGIN_GROUP_MEMBERSHIP) (st_entries t))"

definition token_assumed :: "subject_token \<Rightarrow> token_sid list" where
  "token_assumed t = filter tok_is_assumed (st_entries t)"

definition token_entry :: "subject_token \<Rightarrow> string \<Rightarrow> token_sid option" where
  "token_entry t key =
     (case find (\<lambda>c. tok_key c = key) (st_entries t) of
        None \<Rightarrow> None
      | Some c \<Rightarrow> if tok_origin c = ORIGIN_SUBJECT \<and> \<not> st_subject_presented t then None else Some c)"

definition token_contains :: "subject_token \<Rightarrow> string \<Rightarrow> bool" where
  "token_contains t key \<longleftrightarrow> token_entry t key \<noteq> None"

definition assumed_sids :: "token_assumption \<Rightarrow> access_path \<Rightarrow> (string \<times> sid_origin) list" where
  "assumed_sids a path =
     (if a = TA_SIDS_ONLY then []
      else [(EVERYONE_SID, ORIGIN_WELL_KNOWN),
            (if a = TA_AUTHENTICATED_USER then AUTHENTICATED_USERS_SID else ANONYMOUS_LOGON_SID,
             ORIGIN_WELL_KNOWN),
            (if path = REMOTE_SMB then NETWORK_SID else INTERACTIVE_SID, ORIGIN_LOGON_TYPE)])"

definition system_mapping_finding ::
  "subject_facts \<Rightarrow> access_path \<Rightarrow> system_mapping \<Rightarrow> bool \<Rightarrow> string list \<Rightarrow> access_finding" where
  "system_mapping_finding s path mapping presented withheld =
     finding (SYSTEM_MAPPING_CONDITIONS mapping)
       [(''state'', DStr (system_mapping_value mapping)),
        (''subject_sid'', DStr (subj_sid s)),
        (''subject_key'', DStr (subj_key s)),
        (''access_path'', DStr (access_path_value path)),
        (''presented'', DBool presented),
        (''described_as'', opt_str (map_option principal_kind_value (subj_kind s))),
        (''described_name'', opt_str (subj_display_name s)),
        (''expected_kind'', DStr (principal_kind_value PK_WELL_KNOWN)),
        (''last_observed_run_id'', opt_str (subj_last_observed_run_id s)),
        (''last_observed_at'', opt_str (subj_last_observed_at s)),
        (''withheld_groups'', DList (map DStr withheld))]"

text \<open>The loop over the observed groups: keys seen, entries collected, keys withheld.\<close>

fun collect_groups ::
  "bool \<Rightarrow> token_sid list \<Rightarrow> string list \<Rightarrow> token_sid list \<Rightarrow> string list
   \<Rightarrow> string list \<times> token_sid list \<times> string list" where
  "collect_groups presented [] seen collected withheld = (seen, collected, withheld)"
| "collect_groups presented (g # gs) seen collected withheld =
     (if tok_key g \<in> set seen \<or> tok_key g \<in> set withheld
        then collect_groups presented gs seen collected withheld
      else if \<not> presented
        then collect_groups presented gs seen collected (withheld @ [tok_key g])
      else collect_groups presented gs (seen @ [tok_key g]) (collected @ [g]) withheld)"

text \<open>The loop over the assumed SIDs; they are literals, so building their entries cannot raise.\<close>

fun add_assumed ::
  "(string \<times> sid_origin) list \<Rightarrow> string list \<Rightarrow> string list \<Rightarrow> token_sid list
   \<Rightarrow> string list \<times> string list \<times> token_sid list" where
  "add_assumed [] seen added collected = (seen, added, collected)"
| "add_assumed ((sid, origin) # rest) seen added collected =
     (if sid \<in> set seen then add_assumed rest seen added collected
      else add_assumed rest (seen @ [sid]) (added @ [sid])
        (collected @ [\<lparr>tok_key = sid, tok_sid = sid, tok_origin = origin, tok_depth = 0,
                       tok_path = [], tok_display_name = None\<rparr>]))"

definition token_notes ::
  "subject_facts \<Rightarrow> access_path \<Rightarrow> bool \<Rightarrow> string list \<Rightarrow> bool \<Rightarrow> access_finding list" where
  "token_notes s path presented withheld complete =
     (if subj_resolved s then []
      else [finding AC_SUBJECT_UNRESOLVED
             [(''subject_sid'', DStr (subj_sid s)), (''subject_key'', DStr (subj_key s))]])
     @ (case system_mapping_of s path of None \<Rightarrow> []
        | Some m \<Rightarrow> [system_mapping_finding s path m presented withheld])
     @ (if \<not> subj_is_group s then []
        else [finding AC_SUBJECT_IS_A_GROUP
               [(''subject_sid'', DStr (subj_sid s)),
                (''kind'', opt_str (map_option principal_kind_value (subj_kind s)))]])
     @ (if subj_enabled s \<noteq> Some False then []
        else [finding AC_SUBJECT_DISABLED
               [(''subject_sid'', DStr (subj_sid s)), (''subject_key'', DStr (subj_key s))]])
     @ (if complete then []
        else [finding AC_MEMBERSHIP_TRUNCATED [(''subject_key'', DStr (subj_key s))]])"

definition build_token ::
  "subject_facts \<Rightarrow> token_sid list \<Rightarrow> access_path \<Rightarrow> token_assumption option \<Rightarrow> bool
   \<Rightarrow> access_finding list \<Rightarrow> subject_token result" where
  "build_token s groups path assumption complete findings =
     (let resolved = (case assumption of None \<Rightarrow> default_assumption s | Some a \<Rightarrow> a);
          presented = presents_subject s path
      in res_bind (mk_token_sid (subj_key s) (subj_sid s) ORIGIN_SUBJECT 0 [] (subj_display_name s))
        (\<lambda>own.
          let (seen, collected, withheld) = collect_groups presented groups [subj_key s] [own] [];
              notes = findings @ token_notes s path presented withheld complete;
              (_, added, entries) = add_assumed (assumed_sids resolved path) seen [] collected;
              notes' = notes @ (if added = [] then []
                else [finding AC_ASSUMED_TOKEN_SIDS
                       [(''assumption'', DStr (token_assumption_value resolved)),
                        (''access_path'', DStr (access_path_value path)),
                        (''sids'', DList (map DStr added))]])
          in mk_subject_token
               \<lparr>st_subject = s, st_assumption = resolved, st_access_path = path, st_entries = entries,
                st_membership_complete = complete, st_findings = notes',
                st_system_mapping = system_mapping_of s path, st_subject_presented = presented\<rparr>))"

subsection \<open>What the two loops keep\<close>

lemma collect_groups_aligned:
  assumes "collect_groups p gs seen collected withheld = (seen', collected', withheld')"
    and "map tok_key collected = seen" and "distinct seen"
  shows "map tok_key collected' = seen' \<and> distinct seen'"
  using assms
  by (induction p gs seen collected withheld rule: collect_groups.induct) (auto split: if_splits)

lemma collect_groups_withheld:
  "collect_groups False gs seen collected withheld = (seen', collected', withheld')
     \<Longrightarrow> collected' = collected \<and> seen' = seen"
  by (induction "False" gs seen collected withheld rule: collect_groups.induct)
     (auto split: if_splits)

lemma collect_groups_presented:
  "collect_groups True gs seen collected [] = (seen', collected', withheld')
     \<Longrightarrow> withheld' = [] \<and> set seen' = set seen \<union> tok_key ` set gs"
  by (induction gs arbitrary: seen collected) (auto split: if_splits)

lemma collect_groups_extends:
  "collect_groups p gs seen collected withheld = (seen', collected', withheld')
     \<Longrightarrow> \<exists>rest. collected' = collected @ rest \<and> set rest \<subseteq> set gs"
proof (induction gs arbitrary: seen collected withheld)
  case (Cons g gs)
  consider (same) w where "collect_groups p gs seen collected w = (seen', collected', withheld')"
    | (more) "collect_groups p gs (seen @ [tok_key g]) (collected @ [g]) withheld
        = (seen', collected', withheld')"
    using Cons.prems by (simp split: if_splits)
  then show ?case
  proof cases
    case same
    from Cons.IH [OF this] show ?thesis by auto
  next
    case more
    from Cons.IH [OF this] show ?thesis by auto
  qed
qed simp

lemma collect_groups_keys:
  assumes "collect_groups p gs seen collected [] = (seen', collected', withheld')"
  shows "set seen' = set seen \<union> (if p then tok_key ` set gs else {})"
  using assms collect_groups_presented collect_groups_withheld by (cases p) fastforce+

lemma add_assumed_aligned:
  assumes "add_assumed as seen added collected = (seen', added', collected')"
    and "map tok_key collected = seen" and "distinct seen"
  shows "map tok_key collected' = seen' \<and> distinct seen'"
  using assms
  by (induction as seen added collected rule: add_assumed.induct) (auto split: if_splits)

lemma add_assumed_keys:
  "add_assumed as seen added collected = (seen', added', collected')
     \<Longrightarrow> set seen' = set seen \<union> fst ` set as"
  by (induction as seen added collected rule: add_assumed.induct) (auto split: if_splits)

lemma add_assumed_extends:
  "add_assumed as seen added collected = (seen', added', collected')
     \<Longrightarrow> \<exists>rest. collected' = collected @ rest
           \<and> (\<forall>e \<in> set rest. (tok_key e, tok_origin e) \<in> set as)"
proof (induction as arbitrary: seen added collected)
  case (Cons a as)
  obtain sid origin where a: "a = (sid, origin)" by (cases a)
  show ?case
  proof (cases "sid \<in> set seen")
    case True
    with Cons.prems a have "add_assumed as seen added collected = (seen', added', collected')"
      by simp
    from Cons.IH [OF this] show ?thesis by auto
  next
    case False
    let ?e = "\<lparr>tok_key = sid, tok_sid = sid, tok_origin = origin, tok_depth = 0,
               tok_path = [], tok_display_name = None\<rparr>"
    from False Cons.prems a
    have "add_assumed as (seen @ [sid]) (added @ [sid]) (collected @ [?e])
      = (seen', added', collected')"
      by simp
    from Cons.IH [OF this] obtain rest where rest: "collected' = (collected @ [?e]) @ rest"
      and "\<forall>e \<in> set rest. (tok_key e, tok_origin e) \<in> set as"
      by blast
    then have "collected' = collected @ (?e # rest)
        \<and> (\<forall>e \<in> set (?e # rest). (tok_key e, tok_origin e) \<in> set (a # as))"
      by (simp add: a)
    then show ?thesis by blast
  qed
qed simp

subsection \<open>What a built token holds\<close>

lemma mk_subject_token_distinct:
  "st_entries t \<noteq> [] \<Longrightarrow> distinct (map tok_key (st_entries t)) \<Longrightarrow> mk_subject_token t = Inr t"
  using distinct_card [of "map tok_key (st_entries t)"] by (simp add: mk_subject_token_def)

lemma mk_subject_token_Inr:
  "mk_subject_token t = Inr t' \<Longrightarrow> t' = t \<and> st_entries t \<noteq> [] \<and> distinct (map tok_key (st_entries t))"
  using card_distinct [of "map tok_key (st_entries t)"]
  by (simp add: mk_subject_token_def split: if_splits)

definition own_entry :: "subject_facts \<Rightarrow> token_sid" where
  "own_entry s = \<lparr>tok_key = subj_key s, tok_sid = subj_sid s, tok_origin = ORIGIN_SUBJECT,
                  tok_depth = 0, tok_path = [], tok_display_name = subj_display_name s\<rparr>"

lemma own_entry_simps [simp]:
  "tok_key (own_entry s) = subj_key s" "tok_origin (own_entry s) = ORIGIN_SUBJECT"
  "tok_sid (own_entry s) = subj_sid s"
  by (simp_all add: own_entry_def)

definition resolved_assumption :: "subject_facts \<Rightarrow> token_assumption option \<Rightarrow> token_assumption" where
  "resolved_assumption s assumption =
     (case assumption of None \<Rightarrow> default_assumption s | Some a \<Rightarrow> a)"

lemma build_token_no_key:
  "subj_key s = [] \<Longrightarrow> build_token s groups path assumption complete fs = Inl (DomainValidationError ''key'')"
  by (simp add: build_token_def mk_token_sid_def)

text \<open>Everything the later theorems need about a token that was built.\<close>

lemma build_token_facts:
  assumes key: "subj_key s \<noteq> []"
  obtains t withheld added rest extra where
    "build_token s groups path assumption complete fs = Inr t"
    and "st_subject t = s" and "st_access_path t = path"
    and "st_assumption t = resolved_assumption s assumption"
    and "st_membership_complete t = complete"
    and "st_system_mapping t = system_mapping_of s path"
    and "st_subject_presented t = presents_subject s path"
    and "st_entries t = own_entry s # rest @ extra"
    and "set rest \<subseteq> (if presents_subject s path then set groups else {})"
    and "\<forall>e \<in> set extra.
           (tok_key e, tok_origin e) \<in> set (assumed_sids (resolved_assumption s assumption) path)"
    and "distinct (map tok_key (st_entries t))"
    and "token_keys t = insert (subj_key s)
           ((if presents_subject s path then tok_key ` set groups else {})
            \<union> fst ` set (assumed_sids (resolved_assumption s assumption) path))"
    and "st_findings t = fs @ token_notes s path (presents_subject s path) withheld complete
           @ (if added = [] then []
              else [finding AC_ASSUMED_TOKEN_SIDS
                     [(''assumption'', DStr (token_assumption_value (st_assumption t))),
                      (''access_path'', DStr (access_path_value path)),
                      (''sids'', DList (map DStr added))]])"
proof -
  let ?p = "presents_subject s path"
  let ?r = "resolved_assumption s assumption"
  obtain seen collected withheld where
    cg: "collect_groups ?p groups [subj_key s] [own_entry s] [] = (seen, collected, withheld)"
    by (rule prod_cases3)
  obtain seen' added entries where
    aa: "add_assumed (assumed_sids ?r path) seen [] collected = (seen', added, entries)"
    by (rule prod_cases3)
  let ?t = "\<lparr>st_subject = s, st_assumption = ?r, st_access_path = path, st_entries = entries,
             st_membership_complete = complete,
             st_findings = fs @ token_notes s path ?p withheld complete
               @ (if added = [] then []
                  else [finding AC_ASSUMED_TOKEN_SIDS
                     [(''assumption'', DStr (token_assumption_value ?r)),
                      (''access_path'', DStr (access_path_value path)),
                      (''sids'', DList (map DStr added))]]),
             st_system_mapping = system_mapping_of s path, st_subject_presented = ?p\<rparr>"
  have al: "map tok_key collected = seen" "distinct seen"
    using collect_groups_aligned [OF cg] by simp_all
  have al': "map tok_key entries = seen'" "distinct seen'"
    using add_assumed_aligned [OF aa al] by simp_all
  obtain rest where rest: "collected = own_entry s # rest" "set rest \<subseteq> set groups"
    using collect_groups_extends [OF cg] by auto
  obtain extra where extra: "entries = collected @ extra"
    "\<forall>e \<in> set extra. (tok_key e, tok_origin e) \<in> set (assumed_sids ?r path)"
    using add_assumed_extends [OF aa] by auto
  have rest_p: "set rest \<subseteq> (if ?p then set groups else {})"
    using collect_groups_withheld cg rest by (cases ?p) (auto dest: collect_groups_withheld)
  have keys: "set seen' = insert (subj_key s) ((if ?p then tok_key ` set groups else {})
      \<union> fst ` set (assumed_sids ?r path))"
    using collect_groups_keys [OF cg] add_assumed_keys [OF aa] by auto
  have "entries \<noteq> []" using extra rest by simp
  then have mk: "mk_subject_token ?t = Inr ?t"
    using al' by (simp add: mk_subject_token_distinct)
  have own: "mk_token_sid (subj_key s) (subj_sid s) ORIGIN_SUBJECT 0 [] (subj_display_name s)
      = Inr (own_entry s)"
    using key by (simp add: mk_token_sid_def own_entry_def)
  have "build_token s groups path assumption complete fs = mk_subject_token ?t"
    unfolding build_token_def Let_def own res_bind.simps resolved_assumption_def [symmetric]
    by (simp add: cg aa)
  with mk have bt: "build_token s groups path assumption complete fs = Inr ?t" by simp
  have "tok_key ` set entries = set seen'" using al'(1) by (metis set_map)
  with keys have tk: "token_keys ?t = insert (subj_key s)
      ((if ?p then tok_key ` set groups else {}) \<union> fst ` set (assumed_sids ?r path))"
    by (simp add: token_keys_def)
  have dist: "distinct (map tok_key (st_entries ?t))" using al' by simp
  show thesis
    by (rule that [OF bt _ _ _ _ _ _ _ rest_p extra(2) dist tk, of withheld added])
       (simp_all add: rest extra(1) [unfolded rest] del: append_assoc)
qed

lemma build_token_keyed:
  "build_token s groups path assumption complete fs = Inr t \<Longrightarrow> subj_key s \<noteq> []"
  using build_token_no_key [of s groups path assumption complete fs] by auto

lemma find_distinct_key:
  "distinct (map tok_key es) \<Longrightarrow> e \<in> set es \<Longrightarrow> find (\<lambda>c. tok_key c = tok_key e) es = Some e"
  by (induction es) auto

lemma token_entry_some:
  "token_entry t key = Some e \<Longrightarrow> e \<in> set (st_entries t) \<and> tok_key e = key
     \<and> (tok_origin e = ORIGIN_SUBJECT \<longrightarrow> st_subject_presented t)"
  by (auto simp: token_entry_def find_Some_iff split: option.splits if_splits)

lemma token_entry_iff:
  assumes "distinct (map tok_key (st_entries t))"
  shows "token_entry t key = Some e \<longleftrightarrow> e \<in> set (st_entries t) \<and> tok_key e = key
     \<and> (tok_origin e = ORIGIN_SUBJECT \<longrightarrow> st_subject_presented t)"
proof
  assume "e \<in> set (st_entries t) \<and> tok_key e = key
     \<and> (tok_origin e = ORIGIN_SUBJECT \<longrightarrow> st_subject_presented t)"
  then show "token_entry t key = Some e"
    using find_distinct_key [OF assms, of e] by (auto simp: token_entry_def)
qed (rule token_entry_some)

lemma assumed_sids_assumed:
  "(k, origin) \<in> set (assumed_sids a path) \<Longrightarrow> origin \<in> {ORIGIN_WELL_KNOWN, ORIGIN_LOGON_TYPE}"
  by (auto simp: assumed_sids_def split: if_splits)

lemma token_contains_iff:
  assumes "distinct (map tok_key (st_entries t))"
  shows "token_contains t key \<longleftrightarrow> (\<exists>e \<in> set (st_entries t). tok_key e = key
     \<and> (tok_origin e = ORIGIN_SUBJECT \<longrightarrow> st_subject_presented t))"
  by (auto simp: token_contains_def token_entry_iff [OF assms])

subsection \<open>Properties\<close>

text \<open>
  C38. Building a token succeeds for every subject that has a storage key, whatever groups were
  observed: the duplicate check of the token constructor can never fire. The token's keys are the
  subject, every observed group when the session presents the subject (and none otherwise), and the
  SIDs the assumption names for this access path; the entry for the subject comes first.
\<close>

theorem build_token_well_formed:
  assumes "subj_key s \<noteq> []"
  shows "\<exists>t. build_token s groups path assumption complete fs = Inr t
    \<and> mk_subject_token t = Inr t
    \<and> tok_key (hd (st_entries t)) = subj_key s \<and> tok_origin (hd (st_entries t)) = ORIGIN_SUBJECT
    \<and> token_keys t = {subj_key s}
        \<union> (if presents_subject s path then tok_key ` set groups else {})
        \<union> fst ` set (assumed_sids (case assumption of None \<Rightarrow> default_assumption s | Some a \<Rightarrow> a) path)
    \<and> take (length fs) (st_findings t) = fs"
proof (rule build_token_facts [OF assms, of groups path assumption complete fs])
  fix t withheld added rest extra
  assume bt: "build_token s groups path assumption complete fs = Inr t"
    and en: "st_entries t = own_entry s # rest @ extra"
    and di: "distinct (map tok_key (st_entries t))"
    and ks: "token_keys t = insert (subj_key s)
           ((if presents_subject s path then tok_key ` set groups else {})
            \<union> fst ` set (assumed_sids (resolved_assumption s assumption) path))"
    and fi: "st_findings t = fs @ token_notes s path (presents_subject s path) withheld complete
           @ (if added = [] then []
              else [finding AC_ASSUMED_TOKEN_SIDS
                     [(''assumption'', DStr (token_assumption_value (st_assumption t))),
                      (''access_path'', DStr (access_path_value path)),
                      (''sids'', DList (map DStr added))]])"
  have "mk_subject_token t = Inr t" using di en by (intro mk_subject_token_distinct) simp_all
  with bt en ks fi show ?thesis by (simp add: resolved_assumption_def)
qed

lemma build_token_well_formed_witness:
  "\<exists>t. build_token
      \<lparr>subj_key = ''S-1-5-18'', subj_sid = ''S-1-5-18'', subj_kind = Some PK_WELL_KNOWN,
       subj_display_name = None, subj_enabled = None, subj_last_observed_run_id = None,
       subj_last_observed_at = None\<rparr> [] LOCAL None True [] = Inr t \<and> token_keys t = {''S-1-5-18''}"
  using build_token_well_formed
    [of "\<lparr>subj_key = ''S-1-5-18'', subj_sid = ''S-1-5-18'', subj_kind = Some PK_WELL_KNOWN,
          subj_display_name = None, subj_enabled = None, subj_last_observed_run_id = None,
          subj_last_observed_at = None\<rparr>" "[]" LOCAL None True "[]"]
  by (auto simp: default_assumption_def assumed_sids_def sid_constant_defs)

text \<open>
  SYSTEM over a share is nobody: no observed group and not even its own SID can be matched by an
  entry or by ownership. What the token offers is only what the assumption added, and with the
  default assumption that is nothing at all.
\<close>

theorem system_over_smb_matches_nothing_observed:
  assumes "build_token s groups REMOTE_SMB assumption complete fs = Inr t"
    and "subj_sid s = SYSTEM_SID"
  shows "(\<forall>key e. token_entry t key = Some e \<longrightarrow> tok_is_assumed e)
    \<and> (assumption = None \<longrightarrow> (\<forall>key. \<not> token_contains t key))
    \<and> \<not> token_contains t (subj_key s)"
proof (rule build_token_facts
    [OF build_token_keyed [OF assms(1)], of groups REMOTE_SMB assumption complete fs])
  fix t' withheld added rest extra
  assume bt: "build_token s groups REMOTE_SMB assumption complete fs = Inr t'"
    and en: "st_entries t' = own_entry s # rest @ extra"
    and pr: "st_subject_presented t' = presents_subject s REMOTE_SMB"
    and re: "set rest \<subseteq> (if presents_subject s REMOTE_SMB then set groups else {})"
    and ex: "\<forall>e \<in> set extra. (tok_key e, tok_origin e)
       \<in> set (assumed_sids (resolved_assumption s assumption) REMOTE_SMB)"
    and di: "distinct (map tok_key (st_entries t'))"
  have [simp]: "t' = t" using bt assms(1) by simp
  have np: "\<not> presents_subject s REMOTE_SMB" by (simp add: presents_subject_def assms(2))
  have rest: "rest = []" using re np by simp
  have matched: "e \<in> set extra" if "token_entry t key = Some e" for key e
    using token_entry_some [OF that] en pr np rest by auto
  have "tok_is_assumed e" if "token_entry t key = Some e" for key e
    using ex matched [OF that] assumed_sids_assumed unfolding tok_is_assumed_def by blast
  moreover have "\<not> token_contains t key" if "assumption = None" for key
  proof -
    have "resolved_assumption s assumption = TA_SIDS_ONLY"
      by (simp add: that resolved_assumption_def default_assumption_def assms(2) sid_constant_defs)
    then have "set extra = {}" using ex by (simp add: assumed_sids_def)
    then show ?thesis using matched by (cases "token_entry t key") (auto simp: token_contains_def)
  qed
  moreover have "\<not> token_contains t (subj_key s)"
  proof
    assume "token_contains t (subj_key s)"
    then obtain e where e: "token_entry t (subj_key s) = Some e" by (auto simp: token_contains_def)
    have "e \<in> set extra" by (rule matched [OF e])
    moreover have "tok_key e = subj_key s" using token_entry_some [OF e] by simp
    moreover have "subj_key s \<notin> tok_key ` set extra" using di en by simp
    ultimately show False by (metis image_eqI)
  qed
  ultimately show ?thesis by blast
qed

lemma system_over_smb_matches_nothing_observed_witness:
  "\<exists>t. build_token
      \<lparr>subj_key = ''S-1-5-18'', subj_sid = ''S-1-5-18'', subj_kind = None, subj_display_name = None,
       subj_enabled = None, subj_last_observed_run_id = None, subj_last_observed_at = None\<rparr>
      [] REMOTE_SMB None True [] = Inr t \<and> \<not> token_contains t ''S-1-1-0''"
proof (rule build_token_facts [of "\<lparr>subj_key = ''S-1-5-18'', subj_sid = ''S-1-5-18'',
     subj_kind = None, subj_display_name = None, subj_enabled = None,
     subj_last_observed_run_id = None, subj_last_observed_at = None\<rparr>" "[]" REMOTE_SMB None True "[]"])
  fix t
  assume "build_token
      \<lparr>subj_key = ''S-1-5-18'', subj_sid = ''S-1-5-18'', subj_kind = None, subj_display_name = None,
       subj_enabled = None, subj_last_observed_run_id = None, subj_last_observed_at = None\<rparr>
      [] REMOTE_SMB None True [] = Inr t"
  from this system_over_smb_matches_nothing_observed [OF this] show ?thesis
    by (auto simp: SYSTEM_SID_def)
qed simp

definition is_mapping_finding :: "access_finding \<Rightarrow> bool" where
  "is_mapping_finding f \<longleftrightarrow> (\<exists>m \<in> {SM_CONFIRMED, SM_AMBIGUOUS, SM_MISSING, SM_CONFLICTING}.
     fi_condition f = SYSTEM_MAPPING_CONDITIONS m)"

lemma mapping_finding_condition [simp]:
  "is_mapping_finding (finding (SYSTEM_MAPPING_CONDITIONS m) d)"
  by (cases m) (simp_all add: is_mapping_finding_def)

lemma not_mapping_finding [simp]:
  "c \<notin> {AC_SYSTEM_MAPPING_CONFIRMED, AC_SYSTEM_MAPPING_AMBIGUOUS, AC_SYSTEM_MAPPING_MISSING,
        AC_SYSTEM_MAPPING_CONFLICTING} \<Longrightarrow> \<not> is_mapping_finding (finding c d)"
  by (simp add: is_mapping_finding_def)

lemma filter_mapping_token_notes:
  "filter is_mapping_finding (token_notes s path presented withheld complete)
   = (case system_mapping_of s path of None \<Rightarrow> []
      | Some m \<Rightarrow> [system_mapping_finding s path m presented withheld])"
  by (simp add: token_notes_def system_mapping_finding_def split: option.splits)

text \<open>
  Every token built for SYSTEM carries one mapping state and exactly one finding that reports
  it, the one the state's condition names; a token for any other subject carries neither.
\<close>

theorem one_system_mapping_finding:
  assumes "build_token s groups path assumption complete [] = Inr t"
  shows "case st_system_mapping t of
      None \<Rightarrow> subj_sid s \<noteq> SYSTEM_SID \<and> filter is_mapping_finding (st_findings t) = []
    | Some m \<Rightarrow> subj_sid s = SYSTEM_SID
        \<and> map fi_condition (filter is_mapping_finding (st_findings t)) = [SYSTEM_MAPPING_CONDITIONS m]"
proof (rule build_token_facts
    [OF build_token_keyed [OF assms], of groups path assumption complete "[]"])
  fix t' withheld and added :: "string list"
  assume bt: "build_token s groups path assumption complete [] = Inr t'"
    and sm: "st_system_mapping t' = system_mapping_of s path"
    and fi: "st_findings t' = [] @ token_notes s path (presents_subject s path) withheld complete
           @ (if added = [] then []
              else [finding AC_ASSUMED_TOKEN_SIDS
                     [(''assumption'', DStr (token_assumption_value (st_assumption t'))),
                      (''access_path'', DStr (access_path_value path)),
                      (''sids'', DList (map DStr added))]])"
  have [simp]: "t' = t" using bt assms by simp
  have "filter is_mapping_finding (st_findings t)
      = (case system_mapping_of s path of None \<Rightarrow> []
         | Some m \<Rightarrow> [system_mapping_finding s path m (presents_subject s path) withheld])"
    using fi by (simp add: filter_mapping_token_notes)
  moreover have "system_mapping_of s path = None \<longleftrightarrow> subj_sid s \<noteq> SYSTEM_SID"
    by (simp add: system_mapping_of_def)
  ultimately show ?thesis
    using sm by (auto simp: system_mapping_finding_def split: option.splits)
qed

lemma one_system_mapping_finding_witness:
  "\<exists>t. build_token
      \<lparr>subj_key = ''S-1-5-18'', subj_sid = ''S-1-5-18'', subj_kind = None, subj_display_name = None,
       subj_enabled = None, subj_last_observed_run_id = None, subj_last_observed_at = None\<rparr>
      [] REMOTE_SMB None True [] = Inr t
     \<and> map fi_condition (filter is_mapping_finding (st_findings t)) = [AC_SYSTEM_MAPPING_AMBIGUOUS]"
proof (rule build_token_facts [of "\<lparr>subj_key = ''S-1-5-18'', subj_sid = ''S-1-5-18'',
     subj_kind = None, subj_display_name = None, subj_enabled = None,
     subj_last_observed_run_id = None, subj_last_observed_at = None\<rparr>" "[]" REMOTE_SMB None True "[]"])
  fix t
  assume bt: "build_token
      \<lparr>subj_key = ''S-1-5-18'', subj_sid = ''S-1-5-18'', subj_kind = None, subj_display_name = None,
       subj_enabled = None, subj_last_observed_run_id = None, subj_last_observed_at = None\<rparr>
      [] REMOTE_SMB None True [] = Inr t"
    and "st_system_mapping t = system_mapping_of
      \<lparr>subj_key = ''S-1-5-18'', subj_sid = ''S-1-5-18'', subj_kind = None, subj_display_name = None,
       subj_enabled = None, subj_last_observed_run_id = None, subj_last_observed_at = None\<rparr> REMOTE_SMB"
  then have "st_system_mapping t = Some SM_AMBIGUOUS"
    by (simp add: system_mapping_of_def SYSTEM_SID_def)
  with bt one_system_mapping_finding [OF bt] show ?thesis by auto
qed simp

end
