(* ===== verification/Adg_Evaluation.thy ===== *)
theory Adg_Evaluation
  imports Adg_Subjects
begin

unbundle bit_operations_syntax

section \<open>The access check over one DACL (app/access_engine/evaluation.py)\<close>

text \<open>
  The walk \<open>evaluate_acl\<close> makes over one ACL for one token: the entries and descriptor facts, the
  canonical-order scan, the mutable accumulator \<open>_Walk\<close> as a record that every step returns
  updated, one definition per helper, and the whole evaluation as a result. What the walk computes is
  stated against \<open>decided\<close>, the rule of a Windows access check: the first entry that applies to the
  token and names a right decides it.
\<close>

definition MAX_ACL_ENTRIES :: nat where "MAX_ACL_ENTRIES = 4096"

definition OWNER_IMPLICIT_RIGHTS :: rights_mask where
  "OWNER_IMPLICIT_RIGHTS = rmask (READ_CONTROL OR WRITE_DAC) NTFS"

definition SUBSTITUTION_PLACEHOLDERS :: "string set" where
  "SUBSTITUTION_PLACEHOLDERS = {CREATOR_OWNER_SID, CREATOR_GROUP_SID}"

subsection \<open>Entries\<close>

record acl_entry =
  ae_trustee_key :: string
  ae_trustee_sid :: string
  ae_ace_type :: ace_type
  ae_mask :: rights_mask
  ae_flags :: nat
  ae_source :: ace_source
  ae_order_index :: "int option"
  ae_ace_key :: "string option"
  ae_inherited_from :: "string option"
  ae_trustee_name :: "string option"

definition mk_acl_entry :: "acl_entry \<Rightarrow> acl_entry result" where
  "mk_acl_entry e =
     (if ae_trustee_key e = [] then Inl (DomainValidationError ''trustee_key'')
      else if mask_layer (ae_mask e) = EFFECTIVE then Inl (DomainValidationError ''mask'')
      else Inr e)"

definition ae_layer :: "acl_entry \<Rightarrow> rights_layer" where
  "ae_layer e = mask_layer (ae_mask e)"

definition ae_is_allow :: "acl_entry \<Rightarrow> bool" where
  "ae_is_allow e \<longleftrightarrow> ae_ace_type e = ALLOW"

definition ae_is_inherited :: "acl_entry \<Rightarrow> bool" where
  "ae_is_inherited e \<longleftrightarrow> ae_source e = INHERITED"

definition ae_applies_to_this_object :: "acl_entry \<Rightarrow> bool" where
  "ae_applies_to_this_object e \<longleftrightarrow> \<not> has_flag (ae_flags e) AF_INHERIT_ONLY"

definition ae_normalized :: "acl_entry \<Rightarrow> normalized_rights" where
  "ae_normalized e = normalize_mask (ae_mask e)"

definition ae_names_substitution_placeholder :: "acl_entry \<Rightarrow> bool" where
  "ae_names_substitution_placeholder e \<longleftrightarrow> ae_trustee_sid e \<in> SUBSTITUTION_PLACEHOLDERS"

definition ae_names_owner_rights :: "acl_entry \<Rightarrow> bool" where
  "ae_names_owner_rights e \<longleftrightarrow> ae_trustee_sid e = OWNER_RIGHTS_SID"

definition ntfs_entry ::
  "string \<Rightarrow> string \<Rightarrow> ace_type \<Rightarrow> int \<Rightarrow> nat \<Rightarrow> ace_source \<Rightarrow> int option \<Rightarrow> string option
   \<Rightarrow> string option \<Rightarrow> string option \<Rightarrow> acl_entry result" where
  "ntfs_entry key sid kind access flags source index ace_key from name =
     res_bind (ntfs_mask access) (\<lambda>m. mk_acl_entry
       \<lparr>ae_trustee_key = key, ae_trustee_sid = sid, ae_ace_type = kind, ae_mask = m,
        ae_flags = flags, ae_source = source, ae_order_index = index, ae_ace_key = ace_key,
        ae_inherited_from = from, ae_trustee_name = name\<rparr>)"

definition share_entry ::
  "string \<Rightarrow> string \<Rightarrow> ace_type \<Rightarrow> int option \<Rightarrow> share_permission option \<Rightarrow> int option
   \<Rightarrow> string option \<Rightarrow> string option \<Rightarrow> acl_entry result" where
  "share_entry key sid kind access permission index ace_key name =
     (if (access = None) = (permission = None) then Inl (DomainValidationError ''access_mask'')
      else res_bind
        (case permission of
           Some p \<Rightarrow> Inr (normalize_share_permission p)
         | None \<Rightarrow> smb_mask (case access of None \<Rightarrow> 0 | Some v \<Rightarrow> v))
        (\<lambda>m. mk_acl_entry
           \<lparr>ae_trustee_key = key, ae_trustee_sid = sid, ae_ace_type = kind, ae_mask = m,
            ae_flags = AF_NONE, ae_source = EXPLICIT, ae_order_index = index,
            ae_ace_key = ace_key, ae_inherited_from = None, ae_trustee_name = name\<rparr>))"

subsection \<open>Canonical ordering\<close>

datatype order_violation_kind = INHERITED_BEFORE_EXPLICIT | ALLOW_BEFORE_DENY

primrec order_violation_kind_value :: "order_violation_kind \<Rightarrow> string" where
  "order_violation_kind_value INHERITED_BEFORE_EXPLICIT = ''inherited_before_explicit''"
| "order_violation_kind_value ALLOW_BEFORE_DENY = ''allow_before_deny''"

record order_violation =
  ov_kind :: order_violation_kind
  ov_position :: nat
  ov_entry :: acl_entry
  ov_earlier_position :: nat
  ov_earlier_entry :: acl_entry

text \<open>The loop, with its position counter and its two "first seen" variables.\<close>

fun order_scan ::
  "nat \<Rightarrow> (nat \<times> acl_entry) option \<Rightarrow> (nat \<times> acl_entry) option \<Rightarrow> acl_entry list
   \<Rightarrow> order_violation list" where
  "order_scan pos inh allow [] = []"
| "order_scan pos inh allow (e # es) =
     (if ae_is_inherited e then
        order_scan (Suc pos) (case inh of None \<Rightarrow> Some (pos, e) | Some i \<Rightarrow> Some i) allow es
      else
        (case inh of
           None \<Rightarrow> []
         | Some (p, x) \<Rightarrow> [\<lparr>ov_kind = INHERITED_BEFORE_EXPLICIT, ov_position = pos, ov_entry = e,
                           ov_earlier_position = p, ov_earlier_entry = x\<rparr>])
        @ (if ae_is_allow e then
             order_scan (Suc pos) inh (case allow of None \<Rightarrow> Some (pos, e) | Some a \<Rightarrow> Some a) es
           else
             (case allow of
                None \<Rightarrow> []
              | Some (p, x) \<Rightarrow> [\<lparr>ov_kind = ALLOW_BEFORE_DENY, ov_position = pos, ov_entry = e,
                                ov_earlier_position = p, ov_earlier_entry = x\<rparr>])
             @ order_scan (Suc pos) inh allow es))"

definition canonical_order_violations :: "acl_entry list \<Rightarrow> order_violation list" where
  "canonical_order_violations entries = order_scan 0 None None entries"

subsection \<open>Descriptor facts and results\<close>

record dacl_facts =
  df_dacl_present :: bool
  df_dacl_protected :: bool
  df_owner_sid :: "string option"
  df_owner_key :: "string option"
  df_declared_ace_count :: "int option"

definition mk_dacl_facts ::
  "bool \<Rightarrow> bool \<Rightarrow> string option \<Rightarrow> string option \<Rightarrow> int option \<Rightarrow> dacl_facts" where
  "mk_dacl_facts present protected owner_sid owner_key declared =
     \<lparr>df_dacl_present = present, df_dacl_protected = protected, df_owner_sid = owner_sid,
      df_owner_key = (if owner_key = None \<and> owner_sid \<noteq> None then owner_sid else owner_key),
      df_declared_ace_count = declared\<rparr>"

definition UNOWNED_PRESENT_DACL :: dacl_facts where
  "UNOWNED_PRESENT_DACL = mk_dacl_facts True False None None None"

record applied_ace =
  aa_entry :: acl_entry
  aa_matched :: token_sid
  aa_position :: nat
  aa_considered :: rights_mask
  aa_contributed :: rights_mask

definition aa_is_allow :: "applied_ace \<Rightarrow> bool" where
  "aa_is_allow a \<longleftrightarrow> ae_is_allow (aa_entry a)"

definition aa_via_group :: "applied_ace \<Rightarrow> bool" where
  "aa_via_group a \<longleftrightarrow> tok_depth (aa_matched a) > 0 \<or> tok_is_assumed (aa_matched a)"

record acl_evaluation =
  ev_layer :: rights_layer
  ev_rights :: rights_mask
  ev_granted_by :: "applied_ace list"
  ev_denied_by :: "applied_ace list"
  ev_superseded :: "applied_ace list"
  ev_owner_rights :: "rights_mask option"
  ev_canonical_rights :: "rights_mask option"
  ev_order_violations :: "order_violation list"
  ev_entries_evaluated :: nat
  ev_entries_supplied :: nat
  ev_findings :: "access_finding list"

definition ev_order_dependent :: "acl_evaluation \<Rightarrow> bool" where
  "ev_order_dependent ev \<longleftrightarrow>
     ev_canonical_rights ev \<noteq> None \<and> ev_canonical_rights ev \<noteq> Some (ev_rights ev)"

definition ev_is_empty :: "acl_evaluation \<Rightarrow> bool" where
  "ev_is_empty ev \<longleftrightarrow> mask_is_empty (ev_rights ev)"

definition ev_escalation_rights :: "acl_evaluation \<Rightarrow> 32 word" where
  "ev_escalation_rights ev = mask_escalation_rights (ev_rights ev)"

definition ev_conditions :: "acl_evaluation \<Rightarrow> access_condition set" where
  "ev_conditions ev = conditions_of (ev_findings ev)"

subsection \<open>The walk\<close>

record acl_walk =
  w_layer :: rights_layer
  w_granted :: "32 word"
  w_denied :: "32 word"
  w_allow_union :: "32 word"
  w_deny_union :: "32 word"
  w_granted_by :: "applied_ace list"
  w_denied_by :: "applied_ace list"
  w_superseded :: "applied_ace list"
  w_findings :: "access_finding list"
  w_evaluated :: nat

definition empty_walk :: "rights_layer \<Rightarrow> acl_walk" where
  "empty_walk layer =
     \<lparr>w_layer = layer, w_granted = 0, w_denied = 0, w_allow_union = 0, w_deny_union = 0,
      w_granted_by = [], w_denied_by = [], w_superseded = [], w_findings = [], w_evaluated = 0\<rparr>"

definition note_finding :: "access_finding \<Rightarrow> acl_walk \<Rightarrow> acl_walk" where
  "note_finding f w = w\<lparr>w_findings := w_findings w @ [f]\<rparr>"

definition match_entry :: "acl_entry \<Rightarrow> subject_token \<Rightarrow> token_sid option \<Rightarrow> token_sid option" where
  "match_entry e token owner_token_sid =
     (if ae_names_owner_rights e then owner_token_sid else token_entry token (ae_trustee_key e))"

text \<open>The last part of \<open>_apply\<close>: an entry that matched settles what is still open.\<close>

definition settle_entry :: "acl_entry \<Rightarrow> nat \<Rightarrow> token_sid \<Rightarrow> acl_walk \<Rightarrow> acl_walk" where
  "settle_entry e position matched w =
     (let normalized = nr_normalized (ae_normalized e);
          value = mask_value normalized
      in if ae_is_allow e then
           let contributed = value AND NOT (w_denied w);
               w1 = w\<lparr>w_allow_union := w_allow_union w OR value\<rparr>;
               applied = \<lparr>aa_entry = e, aa_matched = matched, aa_position = position,
                          aa_considered = normalized, aa_contributed = rmask contributed (w_layer w)\<rparr>
           in if contributed \<noteq> 0
              then w1\<lparr>w_granted := w_granted w1 OR contributed,
                      w_granted_by := w_granted_by w1 @ [applied]\<rparr>
              else w1\<lparr>w_superseded := w_superseded w1 @ [applied]\<rparr>
         else
           let contributed = value AND NOT (w_granted w);
               w1 = w\<lparr>w_deny_union := w_deny_union w OR value\<rparr>;
               applied = \<lparr>aa_entry = e, aa_matched = matched, aa_position = position,
                          aa_considered = normalized, aa_contributed = rmask contributed (w_layer w)\<rparr>
           in if contributed \<noteq> 0
              then w1\<lparr>w_denied := w_denied w1 OR contributed,
                      w_denied_by := w_denied_by w1 @ [applied]\<rparr>
              else w1\<lparr>w_superseded := w_superseded w1 @ [applied]\<rparr>)"

definition apply_entry ::
  "acl_entry \<Rightarrow> nat \<Rightarrow> subject_token \<Rightarrow> token_sid option \<Rightarrow> acl_walk \<Rightarrow> acl_walk" where
  "apply_entry e position token owner_token_sid w =
     (if \<not> ae_applies_to_this_object e then w
      else if ae_names_substitution_placeholder e then
        note_finding (finding AC_CREATOR_OWNER_ACE
          [(''trustee_sid'', DStr (ae_trustee_sid e)),
           (''ace_type'', DStr (ace_type_value (ae_ace_type e))),
           (''position'', DInt (int position))]) w
      else (case match_entry e token owner_token_sid of
          None \<Rightarrow>
            (if ae_trustee_sid e \<in> LOGON_SESSION_SIDS then
               note_finding (finding AC_LOGON_TYPE_TRUSTEE
                 [(''trustee_sid'', DStr (ae_trustee_sid e)),
                  (''ace_type'', DStr (ace_type_value (ae_ace_type e))),
                  (''access_path'', DStr (access_path_value (st_access_path token))),
                  (''position'', DInt (int position))]) w
             else w)
        | Some matched \<Rightarrow>
            (let w1 = w\<lparr>w_evaluated := w_evaluated w + 1\<rparr>;
                 n = ae_normalized e;
                 w2 = (if nr_was_generic n then
                         note_finding (finding AC_GENERIC_RIGHTS_EXPANDED
                           [(''trustee_sid'', DStr (ae_trustee_sid e)),
                            (''raw'', DStr (hex_mask (mask_value (nr_raw n)))),
                            (''expanded'', DStr (hex_mask (mask_value (nr_normalized n))))]) w1
                       else w1)
             in settle_entry e position matched w2)))"

definition walk_entries ::
  "acl_entry list \<Rightarrow> subject_token \<Rightarrow> token_sid option \<Rightarrow> acl_walk \<Rightarrow> acl_walk" where
  "walk_entries entries token owner_token_sid w =
     fold (\<lambda>(position, e). apply_entry e position token owner_token_sid) (List.enumerate 0 entries) w"

definition owner_rights ::
  "token_sid option \<Rightarrow> dacl_facts \<Rightarrow> acl_entry list \<Rightarrow> acl_walk \<Rightarrow> rights_mask option \<times> acl_walk" where
  "owner_rights owner_token_sid facts entries w =
     (case (df_owner_sid facts, owner_token_sid) of
        (Some owner, Some _) \<Rightarrow>
          (if list_ex (\<lambda>e. ae_names_owner_rights e \<and> ae_applies_to_this_object e) entries
           then (None, note_finding (finding AC_OWNER_RIGHTS_ACE [(''owner_sid'', DStr owner)]) w)
           else (Some OWNER_IMPLICIT_RIGHTS,
                 note_finding (finding AC_OWNER_IMPLICIT_RIGHTS
                   [(''owner_sid'', DStr owner), (''owner_key'', opt_str (df_owner_key facts)),
                    (''rights'', DStr (hex_mask (mask_value OWNER_IMPLICIT_RIGHTS)))]) w))
      | _ \<Rightarrow> (None, w))"

definition null_dacl :: "rights_layer \<Rightarrow> dacl_facts \<Rightarrow> nat \<Rightarrow> acl_evaluation" where
  "null_dacl layer facts supplied =
     \<lparr>ev_layer = layer, ev_rights = rmask FILE_ALL_ACCESS layer, ev_granted_by = [],
      ev_denied_by = [], ev_superseded = [], ev_owner_rights = None, ev_canonical_rights = None,
      ev_order_violations = [], ev_entries_evaluated = 0, ev_entries_supplied = supplied,
      ev_findings =
        finding AC_NULL_DACL [(''owner_sid'', opt_str (df_owner_sid facts))]
        # (if supplied = 0 then []
           else [finding AC_ACE_COUNT_MISMATCH
                  [(''declared'', DInt 0), (''held'', DInt (int supplied)),
                   (''reason'', DStr ''null_dacl'')]])\<rparr>"

definition note_rights_conditions :: "rights_mask \<Rightarrow> acl_walk \<Rightarrow> acl_walk" where
  "note_rights_conditions rights w =
     (let w1 = (if mask_is_indeterminate rights then
                  note_finding (finding AC_INDETERMINATE_RIGHTS
                    [(''rights'', DStr (hex_mask (mask_value rights)))]) w
                else w)
      in if mask_unrecognized_bits rights \<noteq> 0 then
           note_finding (finding AC_UNRECOGNIZED_RIGHTS_BITS
             [(''bits'', DStr (hex_mask (mask_unrecognized_bits rights)))]) w1
         else w1)"

text \<open>The descriptor findings \<open>evaluate_acl\<close> appends between the walk and its result.\<close>

definition violation_detail :: "order_violation \<Rightarrow> detail_val" where
  "violation_detail v = DDict
     [(''kind'', DStr (order_violation_kind_value (ov_kind v))),
      (''position'', DInt (int (ov_position v))),
      (''trustee_sid'', DStr (ae_trustee_sid (ov_entry v))),
      (''earlier_position'', DInt (int (ov_earlier_position v))),
      (''earlier_trustee_sid'', DStr (ae_trustee_sid (ov_earlier_entry v)))]"

definition descriptor_findings ::
  "acl_entry list \<Rightarrow> acl_entry list \<Rightarrow> dacl_facts \<Rightarrow> order_violation list \<Rightarrow> rights_mask
   \<Rightarrow> rights_mask \<Rightarrow> access_finding list" where
  "descriptor_findings supplied considered facts violations rights canonical =
     (if considered = [] then [finding AC_EMPTY_DACL []] else [])
     @ (if df_dacl_protected facts then [finding AC_PROTECTED_DACL []] else [])
     @ (if length supplied > MAX_ACL_ENTRIES
        then [finding AC_ACL_TRUNCATED
               [(''supplied'', DInt (int (length supplied))),
                (''evaluated'', DInt (int MAX_ACL_ENTRIES))]]
        else [])
     @ (case df_declared_ace_count facts of
          None \<Rightarrow> []
        | Some n \<Rightarrow> if n \<noteq> int (length supplied)
            then [finding AC_ACE_COUNT_MISMATCH
                   [(''declared'', DInt n), (''held'', DInt (int (length supplied)))]]
            else [])
     @ (if violations \<noteq> []
        then [finding AC_NON_CANONICAL_DACL
               [(''violations'', DList (map violation_detail violations))]]
        else [])
     @ (if canonical \<noteq> rights
        then [finding AC_ORDER_DEPENDENT_RESULT
               [(''evaluated'', DStr (hex_mask (mask_value rights))),
                (''canonical'', DStr (hex_mask (mask_value canonical)))]]
        else [])"

definition with_owner :: "rights_mask option \<Rightarrow> rights_layer \<Rightarrow> rights_mask \<Rightarrow> rights_mask result" where
  "with_owner owner layer rights =
     (case owner of
        None \<Rightarrow> Inr rights
      | Some o_rights \<Rightarrow> mask_union rights (rmask (mask_value o_rights) layer))"

definition evaluate_acl ::
  "acl_entry list \<Rightarrow> subject_token \<Rightarrow> rights_layer \<Rightarrow> dacl_facts \<Rightarrow> acl_evaluation result" where
  "evaluate_acl supplied token layer facts =
     (if layer = EFFECTIVE then Inl (DomainValidationError ''layer'')
      else if list_ex (\<lambda>e. ae_layer e \<noteq> layer) supplied
        then Inl (DomainValidationError ''entries'')
      else if \<not> df_dacl_present facts then Inr (null_dacl layer facts (length supplied))
      else
        (let considered = take MAX_ACL_ENTRIES supplied;
             owner_token_sid = (case df_owner_key facts of None \<Rightarrow> None
                                | Some key \<Rightarrow> token_entry token key);
             (owner, w0) = owner_rights owner_token_sid facts considered (empty_walk layer);
             w = walk_entries considered token owner_token_sid w0;
             violations = canonical_order_violations considered
         in res_bind (with_owner owner layer (rmask (w_granted w) layer)) (\<lambda>rights.
            res_bind (with_owner owner layer
                (rmask (w_allow_union w AND NOT (w_deny_union w)) layer)) (\<lambda>canonical.
              let w1 = w\<lparr>w_findings := w_findings w
                    @ descriptor_findings supplied considered facts violations rights canonical\<rparr>;
                  w2 = note_rights_conditions rights w1
              in Inr \<lparr>ev_layer = layer, ev_rights = rights, ev_granted_by = w_granted_by w2,
                      ev_denied_by = w_denied_by w2, ev_superseded = w_superseded w2,
                      ev_owner_rights = owner, ev_canonical_rights = Some canonical,
                      ev_order_violations = violations, ev_entries_evaluated = w_evaluated w2,
                      ev_entries_supplied = length supplied, ev_findings = w_findings w2\<rparr>))))"

subsection \<open>The rule the walk implements\<close>

text \<open>
  A list of rulings is what applies to the token, in stored order. A right is decided by the first
  ruling that names it.
\<close>

type_synonym ruling = "ace_type \<times> 32 word"

inductive decided :: "ruling list \<Rightarrow> nat \<Rightarrow> ace_type \<Rightarrow> bool" where
  decided_here: "bit m n \<Longrightarrow> decided ((t, m) # rs) n t"
| decided_later: "\<not> bit m n \<Longrightarrow> decided rs n t \<Longrightarrow> decided ((t', m) # rs) n t"

inductive_simps decided_nil [simp]: "decided [] n t"
inductive_simps decided_cons [simp]: "decided ((t', m) # rs) n t"

lemma decided_unique: "decided rs n t \<Longrightarrow> decided rs n t' \<Longrightarrow> t = t'"
  by (induction rule: decided.induct) auto

lemma decided_member: "decided rs n t \<Longrightarrow> \<exists>m. (t, m) \<in> set rs \<and> bit m n"
  by (induction rule: decided.induct) auto

lemma named_decided: "(t, m) \<in> set rs \<Longrightarrow> bit m n \<Longrightarrow> \<exists>t'. decided rs n t'"
proof (induction rs)
  case (Cons r rs)
  obtain t1 m1 where r: "r = (t1, m1)" by (cases r)
  show ?case
  proof (cases "bit m1 n")
    case True
    then show ?thesis by (auto simp: r)
  next
    case False
    with Cons r have "\<exists>t'. decided rs n t'" by auto
    with False r show ?thesis by auto
  qed
qed simp

lemma decided_allow_if_no_deny:
  assumes "(ALLOW, m) \<in> set rs" "bit m n" "\<forall>d. (DENY, d) \<in> set rs \<longrightarrow> \<not> bit d n"
  shows "decided rs n ALLOW"
proof -
  obtain t where t: "decided rs n t" using named_decided assms(1,2) by blast
  then obtain m' where "(t, m') \<in> set rs" "bit m' n" using decided_member by blast
  with assms(3) have "t = ALLOW" by (cases t) auto
  with t show ?thesis by simp
qed

lemma decided_append:
  "decided (rs @ qs) n t \<longleftrightarrow> decided rs n t \<or> (\<forall>r \<in> set rs. \<not> bit (snd r) n) \<and> decided qs n t"
proof (induction rs)
  case (Cons r rs)
  then show ?case by (cases r) auto
qed simp

lemma decided_all_allow:
  "\<forall>r \<in> set rs. fst r = ALLOW \<Longrightarrow> decided rs n t \<longleftrightarrow> t = ALLOW \<and> (\<exists>r \<in> set rs. bit (snd r) n)"
proof (induction rs)
  case (Cons r rs)
  then show ?case by (cases r) auto
qed simp

lemma decided_all_deny:
  "\<forall>r \<in> set rs. fst r = DENY \<Longrightarrow> decided rs n t \<longleftrightarrow> t = DENY \<and> (\<exists>r \<in> set rs. bit (snd r) n)"
proof (induction rs)
  case (Cons r rs)
  then show ?case by (cases r) auto
qed simp

text \<open>
  The contract between a walk that accumulates two masks and the rulings it walks over: what one
  step does to the masks when the entry applies, as an Allow and as a Deny, and when it does not.
\<close>

locale first_match_walk =
  fixes applies :: "'e \<Rightarrow> bool"
    and kind :: "'e \<Rightarrow> ace_type"
    and bits :: "'e \<Rightarrow> 32 word"
    and step :: "'e \<Rightarrow> 's \<Rightarrow> 's"
    and granted denied allow_union deny_union :: "'s \<Rightarrow> 32 word"
  assumes step_skip: "\<not> applies e \<Longrightarrow> granted (step e s) = granted s \<and> denied (step e s) = denied s
      \<and> allow_union (step e s) = allow_union s \<and> deny_union (step e s) = deny_union s"
    and step_allow: "applies e \<Longrightarrow> kind e = ALLOW \<Longrightarrow>
      granted (step e s) = granted s OR (bits e AND NOT (denied s)) \<and> denied (step e s) = denied s
      \<and> allow_union (step e s) = allow_union s OR bits e \<and> deny_union (step e s) = deny_union s"
    and step_deny: "applies e \<Longrightarrow> kind e = DENY \<Longrightarrow>
      granted (step e s) = granted s \<and> denied (step e s) = denied s OR (bits e AND NOT (granted s))
      \<and> allow_union (step e s) = allow_union s \<and> deny_union (step e s) = deny_union s OR bits e"
begin

definition rulings :: "'e list \<Rightarrow> ruling list" where
  "rulings es = map (\<lambda>e. (kind e, bits e)) (filter applies es)"

lemma rulings_simps [simp]:
  "rulings [] = []"
  "applies e \<Longrightarrow> rulings (e # es) = (kind e, bits e) # rulings es"
  "\<not> applies e \<Longrightarrow> rulings (e # es) = rulings es"
  by (simp_all add: rulings_def)

lemma run_first_match:
  "(bit (granted (fold step es s)) n
      \<longleftrightarrow> bit (granted s) n \<or> \<not> bit (denied s) n \<and> decided (rulings es) n ALLOW)
   \<and> (bit (denied (fold step es s)) n
      \<longleftrightarrow> bit (denied s) n \<or> \<not> bit (granted s) n \<and> decided (rulings es) n DENY)"
proof (induction es arbitrary: s)
  case (Cons e es)
  consider "\<not> applies e" | "applies e" "kind e = ALLOW" | "applies e" "kind e = DENY"
    by (cases "kind e") auto
  then show ?case
  proof cases
    case 1
    with Cons step_skip [OF 1] show ?thesis by simp
  next
    case 2
    with Cons [of "step e s"] step_allow [OF 2, of s] show ?thesis
      by (auto simp: bit_or_iff bit_diff)
  next
    case 3
    with Cons [of "step e s"] step_deny [OF 3, of s] show ?thesis
      by (auto simp: bit_or_iff bit_diff)
  qed
qed simp

lemma run_unions:
  "(bit (allow_union (fold step es s)) n
      \<longleftrightarrow> bit (allow_union s) n \<or> (\<exists>m. (ALLOW, m) \<in> set (rulings es) \<and> bit m n))
   \<and> (bit (deny_union (fold step es s)) n
      \<longleftrightarrow> bit (deny_union s) n \<or> (\<exists>m. (DENY, m) \<in> set (rulings es) \<and> bit m n))"
proof (induction es arbitrary: s)
  case (Cons e es)
  consider "\<not> applies e" | "applies e" "kind e = ALLOW" | "applies e" "kind e = DENY"
    by (cases "kind e") auto
  then show ?case
  proof cases
    case 1
    with Cons step_skip [OF 1] show ?thesis by simp
  next
    case 2
    with Cons [of "step e s"] step_allow [OF 2, of s] show ?thesis
      by (auto simp: bit_or_iff)
  next
    case 3
    with Cons [of "step e s"] step_deny [OF 3, of s] show ?thesis
      by (auto simp: bit_or_iff)
  qed
qed simp

lemma run_disjoint:
  assumes "\<not> (bit (granted s) n \<and> bit (denied s) n)"
  shows "\<not> (bit (granted (fold step es s)) n \<and> bit (denied (fold step es s)) n)"
  using assms run_first_match [of es s n] decided_unique by blast

lemma canonical_below_run:
  assumes "granted s = 0" "denied s = 0" "allow_union s = 0" "deny_union s = 0"
    and "bit (allow_union (fold step es s) AND NOT (deny_union (fold step es s))) n"
  shows "bit (granted (fold step es s)) n"
proof -
  have "\<exists>m. (ALLOW, m) \<in> set (rulings es) \<and> bit m n"
    "\<forall>m. (DENY, m) \<in> set (rulings es) \<longrightarrow> \<not> bit m n"
    using assms run_unions [of es s n] by (auto simp: bit_diff)
  then have "decided (rulings es) n ALLOW" using decided_allow_if_no_deny by blast
  with assms run_first_match [of es s n] show ?thesis by simp
qed

lemma run_canonical_when_denies_first:
  assumes "granted s = 0" "denied s = 0" "allow_union s = 0" "deny_union s = 0"
    and "rulings es = ds @ as" "\<forall>r \<in> set ds. fst r = DENY" "\<forall>r \<in> set as. fst r = ALLOW"
  shows "granted (fold step es s) = allow_union (fold step es s) AND NOT (deny_union (fold step es s))"
proof (rule bit_word_eqI)
  fix n
  have "decided (rulings es) n ALLOW
      \<longleftrightarrow> (\<forall>r \<in> set ds. \<not> bit (snd r) n) \<and> (\<exists>r \<in> set as. bit (snd r) n)"
    using assms(5-7) by (auto simp: decided_append decided_all_allow decided_all_deny)
  moreover have "(\<exists>m. (ALLOW, m) \<in> set (rulings es) \<and> bit m n) \<longleftrightarrow> (\<exists>r \<in> set as. bit (snd r) n)"
    using assms(5-7) by force
  moreover have "(\<exists>m. (DENY, m) \<in> set (rulings es) \<and> bit m n) \<longleftrightarrow> (\<exists>r \<in> set ds. bit (snd r) n)"
    using assms(5-7) by force
  ultimately show "bit (granted (fold step es s)) n
      \<longleftrightarrow> bit (allow_union (fold step es s) AND NOT (deny_union (fold step es s))) n"
    using assms(1-4) run_first_match [of es s n] run_unions [of es s n] by (auto simp: bit_diff)
qed

end

subsection \<open>The model keeps the contract\<close>

definition applicable :: "subject_token \<Rightarrow> token_sid option \<Rightarrow> acl_entry \<Rightarrow> bool" where
  "applicable token owner e \<longleftrightarrow> ae_applies_to_this_object e
     \<and> \<not> ae_names_substitution_placeholder e \<and> match_entry e token owner \<noteq> None"

definition entry_bits :: "acl_entry \<Rightarrow> 32 word" where
  "entry_bits e = expand_value (mask_value (ae_mask e))"

definition rulings_for :: "subject_token \<Rightarrow> token_sid option \<Rightarrow> acl_entry list \<Rightarrow> ruling list" where
  "rulings_for token owner es =
     map (\<lambda>e. (ae_ace_type e, entry_bits e)) (filter (applicable token owner) es)"

lemma note_finding_simps [simp]:
  "w_layer (note_finding f w) = w_layer w" "w_granted (note_finding f w) = w_granted w"
  "w_denied (note_finding f w) = w_denied w" "w_allow_union (note_finding f w) = w_allow_union w"
  "w_deny_union (note_finding f w) = w_deny_union w"
  "w_granted_by (note_finding f w) = w_granted_by w"
  "w_denied_by (note_finding f w) = w_denied_by w"
  "w_superseded (note_finding f w) = w_superseded w"
  "w_evaluated (note_finding f w) = w_evaluated w"
  "w_findings (note_finding f w) = w_findings w @ [f]"
  by (simp_all add: note_finding_def)

lemma normalized_value: "mask_value (nr_normalized (ae_normalized e)) = entry_bits e"
  by (simp add: ae_normalized_def normalize_mask_def entry_bits_def mask_value_expand)

lemma apply_entry_skip:
  assumes "\<not> applicable token owner e"
  obtains "apply_entry e p token owner w = w"
  | f where "apply_entry e p token owner w = note_finding f w"
proof -
  consider "\<not> ae_applies_to_this_object e"
    | "ae_applies_to_this_object e" "ae_names_substitution_placeholder e"
    | "ae_applies_to_this_object e" "\<not> ae_names_substitution_placeholder e"
      "match_entry e token owner = None"
    using assms by (auto simp: applicable_def)
  then have "apply_entry e p token owner w = w \<or> (\<exists>f. apply_entry e p token owner w = note_finding f w)"
    by cases (auto simp: apply_entry_def)
  then show thesis using that by blast
qed

text \<open>An applicable entry counts, perhaps notes a generic expansion, and settles.\<close>

lemma apply_entry_settles:
  assumes "applicable token owner e"
  obtains m w' where "match_entry e token owner = Some m"
    and "apply_entry e p token owner w = settle_entry e p m w'"
    and "w_granted w' = w_granted w" "w_denied w' = w_denied w" "w_allow_union w' = w_allow_union w"
    and "w_deny_union w' = w_deny_union w" "w_granted_by w' = w_granted_by w"
    and "w_denied_by w' = w_denied_by w" "w_superseded w' = w_superseded w"
    and "w_layer w' = w_layer w" "w_evaluated w' = w_evaluated w + 1"
proof -
  obtain m where m: "match_entry e token owner = Some m"
    using assms by (auto simp: applicable_def)
  let ?w1 = "w\<lparr>w_evaluated := w_evaluated w + 1\<rparr>"
  let ?n = "ae_normalized e"
  let ?w2 = "if nr_was_generic ?n then
       note_finding (finding AC_GENERIC_RIGHTS_EXPANDED
         [(''trustee_sid'', DStr (ae_trustee_sid e)),
          (''raw'', DStr (hex_mask (mask_value (nr_raw ?n)))),
          (''expanded'', DStr (hex_mask (mask_value (nr_normalized ?n))))]) ?w1
     else ?w1"
  have "apply_entry e p token owner w = settle_entry e p m ?w2"
    using assms m by (simp add: applicable_def apply_entry_def Let_def)
  with m show thesis by (rule that) auto
qed

lemma settle_entry_masks:
  "w_layer (settle_entry e p m w) = w_layer w"
  "w_evaluated (settle_entry e p m w) = w_evaluated w"
  "ae_ace_type e = ALLOW \<Longrightarrow> w_granted (settle_entry e p m w)
     = w_granted w OR (entry_bits e AND NOT (w_denied w))"
  "ae_ace_type e = ALLOW \<Longrightarrow> w_denied (settle_entry e p m w) = w_denied w"
  "ae_ace_type e = ALLOW \<Longrightarrow> w_allow_union (settle_entry e p m w) = w_allow_union w OR entry_bits e"
  "ae_ace_type e = ALLOW \<Longrightarrow> w_deny_union (settle_entry e p m w) = w_deny_union w"
  "ae_ace_type e = DENY \<Longrightarrow> w_granted (settle_entry e p m w) = w_granted w"
  "ae_ace_type e = DENY \<Longrightarrow> w_denied (settle_entry e p m w)
     = w_denied w OR (entry_bits e AND NOT (w_granted w))"
  "ae_ace_type e = DENY \<Longrightarrow> w_allow_union (settle_entry e p m w) = w_allow_union w"
  "ae_ace_type e = DENY \<Longrightarrow> w_deny_union (settle_entry e p m w) = w_deny_union w OR entry_bits e"
  by (simp_all add: settle_entry_def Let_def normalized_value ae_is_allow_def)

interpretation dacl: first_match_walk
  "\<lambda>(p, e). applicable token owner e" "\<lambda>(p, e). ae_ace_type e" "\<lambda>(p, e). entry_bits e"
  "\<lambda>(p, e). apply_entry e p token owner" w_granted w_denied w_allow_union w_deny_union
  for token owner
proof (unfold_locales, goal_cases)
  case (1 pe w)
  obtain p e where pe: "pe = (p, e)" by (cases pe)
  from 1 have "\<not> applicable token owner e" by (simp add: pe)
  then show ?case by (rule apply_entry_skip [where p = p and w = w]) (simp_all add: pe)
next
  case (2 pe w)
  obtain p e where pe: "pe = (p, e)" by (cases pe)
  from 2 have "applicable token owner e" "ae_ace_type e = ALLOW" by (simp_all add: pe)
  then show ?case
    by (elim apply_entry_settles [where p = p and w = w]) (simp add: pe settle_entry_masks)
next
  case (3 pe w)
  obtain p e where pe: "pe = (p, e)" by (cases pe)
  from 3 have "applicable token owner e" "ae_ace_type e = DENY" by (simp_all add: pe)
  then show ?case
    by (elim apply_entry_settles [where p = p and w = w]) (simp add: pe settle_entry_masks)
qed

lemma enumerate_filter_map:
  "map (\<lambda>(p, e). g e) (filter (\<lambda>(p, e). P e) (List.enumerate n es)) = map g (filter P es)"
  by (induction es arbitrary: n) auto

lemma dacl_rulings: "dacl.rulings token owner (List.enumerate n es) = rulings_for token owner es"
proof -
  have "(\<lambda>pe. (case pe of (p, e) \<Rightarrow> ae_ace_type e, case pe of (p, e) \<Rightarrow> entry_bits e))
      = (\<lambda>(p :: nat, e). (ae_ace_type e, entry_bits e))"
    by auto
  then show ?thesis
    by (simp add: dacl.rulings_def rulings_for_def enumerate_filter_map)
qed

subsection \<open>What an evaluation is made of\<close>

definition owner_token_sid_of :: "subject_token \<Rightarrow> dacl_facts \<Rightarrow> token_sid option" where
  "owner_token_sid_of token facts =
     (case df_owner_key facts of None \<Rightarrow> None | Some key \<Rightarrow> token_entry token key)"

text \<open>When the subject's ownership gives implicit rights.\<close>

definition owner_implicit :: "subject_token \<Rightarrow> dacl_facts \<Rightarrow> acl_entry list \<Rightarrow> bool" where
  "owner_implicit token facts considered \<longleftrightarrow>
     df_owner_sid facts \<noteq> None \<and> owner_token_sid_of token facts \<noteq> None
     \<and> \<not> (\<exists>e \<in> set considered. ae_names_owner_rights e \<and> ae_applies_to_this_object e)"

definition owner_bits :: "subject_token \<Rightarrow> dacl_facts \<Rightarrow> acl_entry list \<Rightarrow> 32 word" where
  "owner_bits token facts considered =
     (if owner_implicit token facts considered then READ_CONTROL OR WRITE_DAC else 0)"

definition start_walk :: "subject_token \<Rightarrow> rights_layer \<Rightarrow> dacl_facts \<Rightarrow> acl_entry list \<Rightarrow> acl_walk" where
  "start_walk token layer facts considered =
     snd (owner_rights (owner_token_sid_of token facts) facts considered (empty_walk layer))"

definition walked :: "subject_token \<Rightarrow> rights_layer \<Rightarrow> dacl_facts \<Rightarrow> acl_entry list \<Rightarrow> acl_walk" where
  "walked token layer facts considered =
     walk_entries considered token (owner_token_sid_of token facts)
       (start_walk token layer facts considered)"

lemma owner_rights_fst:
  "fst (owner_rights (owner_token_sid_of token facts) facts considered w)
   = (if owner_implicit token facts considered then Some OWNER_IMPLICIT_RIGHTS else None)"
  by (auto simp: owner_rights_def owner_implicit_def list_ex_iff split: option.splits)

lemma start_walk_masks [simp]:
  "w_granted (start_walk token layer facts es) = 0" "w_denied (start_walk token layer facts es) = 0"
  "w_allow_union (start_walk token layer facts es) = 0"
  "w_deny_union (start_walk token layer facts es) = 0"
  "w_granted_by (start_walk token layer facts es) = []"
  "w_denied_by (start_walk token layer facts es) = []"
  "w_superseded (start_walk token layer facts es) = []"
  "w_layer (start_walk token layer facts es) = layer"
  "w_evaluated (start_walk token layer facts es) = 0"
  by (simp_all add: start_walk_def owner_rights_def empty_walk_def split: option.splits)

lemma with_owner_value:
  "with_owner (if owner_implicit token facts es then Some OWNER_IMPLICIT_RIGHTS else None) layer
     (rmask v layer) = Inr (rmask (v OR owner_bits token facts es) layer)"
  by (simp add: with_owner_def owner_bits_def mask_union_def require_same_layer_def
      OWNER_IMPLICIT_RIGHTS_def uint_or_closed)

lemma note_rights_conditions_simps [simp]:
  "w_granted_by (note_rights_conditions r w) = w_granted_by w"
  "w_denied_by (note_rights_conditions r w) = w_denied_by w"
  "w_superseded (note_rights_conditions r w) = w_superseded w"
  "w_evaluated (note_rights_conditions r w) = w_evaluated w"
  by (simp_all add: note_rights_conditions_def Let_def)

definition rights_condition_findings :: "rights_mask \<Rightarrow> access_finding list" where
  "rights_condition_findings rights =
     (if mask_is_indeterminate rights
      then [finding AC_INDETERMINATE_RIGHTS [(''rights'', DStr (hex_mask (mask_value rights)))]] else [])
     @ (if mask_unrecognized_bits rights \<noteq> 0
        then [finding AC_UNRECOGNIZED_RIGHTS_BITS
               [(''bits'', DStr (hex_mask (mask_unrecognized_bits rights)))]] else [])"

lemma note_rights_conditions_findings:
  "w_findings (note_rights_conditions r w) = w_findings w @ rights_condition_findings r"
  by (simp add: note_rights_conditions_def rights_condition_findings_def Let_def)

lemma evaluate_acl_errors_iff:
  "evaluate_acl supplied token layer facts = Inl err \<longleftrightarrow>
     layer = EFFECTIVE \<and> err = DomainValidationError ''layer''
     \<or> layer \<noteq> EFFECTIVE \<and> (\<exists>e \<in> set supplied. ae_layer e \<noteq> layer)
       \<and> err = DomainValidationError ''entries''"
  (is "?lhs \<longleftrightarrow> ?rhs")
proof (cases "layer = EFFECTIVE \<or> (\<exists>e \<in> set supplied. ae_layer e \<noteq> layer)")
  case True
  then show ?thesis by (auto simp: evaluate_acl_def list_ex_iff)
next
  case False
  obtain owner w where ow: "owner_rights (owner_token_sid_of token facts) facts
      (take MAX_ACL_ENTRIES supplied) (empty_walk layer) = (owner, w)"
    by (cases "owner_rights (owner_token_sid_of token facts) facts
      (take MAX_ACL_ENTRIES supplied) (empty_walk layer)")
  have "owner = (if owner_implicit token facts (take MAX_ACL_ENTRIES supplied)
      then Some OWNER_IMPLICIT_RIGHTS else None)"
    using owner_rights_fst [of token facts "take MAX_ACL_ENTRIES supplied" "empty_walk layer"]
    by (simp add: ow)
  then have wo: "with_owner owner layer (rmask v layer)
      = Inr (rmask (v OR owner_bits token facts (take MAX_ACL_ENTRIES supplied)) layer)" for v
    by (simp only: with_owner_value)
  have "\<not> ?lhs"
    using False ow
    by (auto simp: evaluate_acl_def list_ex_iff Let_def owner_token_sid_of_def [symmetric] wo)
  with False show ?thesis by blast
qed

lemma evaluate_acl_present:
  fixes token layer facts supplied
  defines "es \<equiv> take MAX_ACL_ENTRIES supplied"
  defines "w \<equiv> walked token layer facts es"
  defines "ob \<equiv> owner_bits token facts es"
  assumes ev: "evaluate_acl supplied token layer facts = Inr ev" and "df_dacl_present facts"
  shows "layer \<noteq> EFFECTIVE" "\<forall>e \<in> set supplied. ae_layer e = layer" "ev_layer ev = layer"
    and "ev_rights ev = rmask (w_granted w OR ob) layer"
    and "ev_canonical_rights ev = Some (rmask ((w_allow_union w AND NOT (w_deny_union w)) OR ob) layer)"
    and "ev_owner_rights ev
           = (if owner_implicit token facts es then Some OWNER_IMPLICIT_RIGHTS else None)"
    and "ev_granted_by ev = w_granted_by w" "ev_denied_by ev = w_denied_by w"
    and "ev_superseded ev = w_superseded w" "ev_entries_evaluated ev = w_evaluated w"
    and "ev_order_violations ev = canonical_order_violations es"
    and "ev_findings ev = w_findings w
           @ descriptor_findings supplied es facts (canonical_order_violations es) (ev_rights ev)
               (rmask ((w_allow_union w AND NOT (w_deny_union w)) OR ob) layer)
           @ rights_condition_findings (ev_rights ev)"
proof -
  show L: "layer \<noteq> EFFECTIVE" and E: "\<forall>e \<in> set supplied. ae_layer e = layer"
    using ev by (auto simp: evaluate_acl_def list_ex_iff split: if_splits)
  obtain owner w0 where ow: "owner_rights (owner_token_sid_of token facts) facts es (empty_walk layer)
      = (owner, w0)"
    by (cases "owner_rights (owner_token_sid_of token facts) facts es (empty_walk layer)")
  have o: "owner = (if owner_implicit token facts es then Some OWNER_IMPLICIT_RIGHTS else None)"
    using owner_rights_fst [of token facts es "empty_walk layer"] by (simp add: ow)
  have w: "walk_entries es token (owner_token_sid_of token facts) w0 = w"
    by (simp add: w_def walked_def start_walk_def ow)
  have wo: "with_owner owner layer (rmask v layer) = Inr (rmask (v OR ob) layer)" for v
    unfolding o ob_def by (rule with_owner_value)
  let ?r = "rmask (w_granted w OR ob) layer"
  let ?c = "rmask ((w_allow_union w AND NOT (w_deny_union w)) OR ob) layer"
  let ?w1 = "w\<lparr>w_findings := w_findings w
      @ descriptor_findings supplied es facts (canonical_order_violations es) ?r ?c\<rparr>"
  have "\<not> list_ex (\<lambda>e. ae_layer e \<noteq> layer) supplied" using E by (auto simp: list_ex_iff)
  then have "evaluate_acl supplied token layer facts = Inr \<lparr>ev_layer = layer, ev_rights = ?r,
      ev_granted_by = w_granted_by w, ev_denied_by = w_denied_by w, ev_superseded = w_superseded w,
      ev_owner_rights = owner, ev_canonical_rights = Some ?c,
      ev_order_violations = canonical_order_violations es, ev_entries_evaluated = w_evaluated w,
      ev_entries_supplied = length supplied, ev_findings = w_findings (note_rights_conditions ?r ?w1)\<rparr>"
    using L assms(5)
    by (simp add: evaluate_acl_def Let_def owner_token_sid_of_def [symmetric] es_def [symmetric]
        ow w wo)
  with ev have ev': "ev = \<lparr>ev_layer = layer, ev_rights = ?r,
      ev_granted_by = w_granted_by w, ev_denied_by = w_denied_by w, ev_superseded = w_superseded w,
      ev_owner_rights = owner, ev_canonical_rights = Some ?c,
      ev_order_violations = canonical_order_violations es, ev_entries_evaluated = w_evaluated w,
      ev_entries_supplied = length supplied, ev_findings = w_findings (note_rights_conditions ?r ?w1)\<rparr>"
    by simp
  show "ev_layer ev = layer" "ev_rights ev = ?r" "ev_canonical_rights ev = Some ?c"
    "ev_owner_rights ev = (if owner_implicit token facts es then Some OWNER_IMPLICIT_RIGHTS else None)"
    "ev_granted_by ev = w_granted_by w" "ev_denied_by ev = w_denied_by w"
    "ev_superseded ev = w_superseded w" "ev_entries_evaluated ev = w_evaluated w"
    "ev_order_violations ev = canonical_order_violations es"
    "ev_findings ev = w_findings w
           @ descriptor_findings supplied es facts (canonical_order_violations es) (ev_rights ev) ?c
           @ rights_condition_findings (ev_rights ev)"
    by (simp_all add: ev' o note_rights_conditions_findings)
qed

lemma walked_masks:
  fixes token facts es
  defines "rs \<equiv> rulings_for token (owner_token_sid_of token facts) es"
  shows "bit (w_granted (walked token layer facts es)) n \<longleftrightarrow> decided rs n ALLOW"
    and "bit (w_denied (walked token layer facts es)) n \<longleftrightarrow> decided rs n DENY"
    and "bit (w_allow_union (walked token layer facts es)) n \<longleftrightarrow> (\<exists>m. (ALLOW, m) \<in> set rs \<and> bit m n)"
    and "bit (w_deny_union (walked token layer facts es)) n \<longleftrightarrow> (\<exists>m. (DENY, m) \<in> set rs \<and> bit m n)"
  using dacl.run_first_match [of token "owner_token_sid_of token facts" "List.enumerate 0 es"
      "start_walk token layer facts es" n]
    dacl.run_unions [of token "owner_token_sid_of token facts" "List.enumerate 0 es"
      "start_walk token layer facts es" n]
  by (simp_all add: walked_def walk_entries_def rs_def dacl_rulings)

subsection \<open>The evidence the walk keeps\<close>

definition contributions :: "applied_ace list \<Rightarrow> 32 word" where
  "contributions as = foldr (OR) (map (\<lambda>a. mask_value (aa_contributed a)) as) 0"

lemma bit_contributions: "bit (contributions as) n \<longleftrightarrow> (\<exists>a \<in> set as. bit (mask_value (aa_contributed a)) n)"
  by (simp add: contributions_def bit_foldr_or)

lemma contributions_snoc: "contributions (as @ [a]) = contributions as OR mask_value (aa_contributed a)"
  by (auto simp: mask_ext_iff bit_contributions bit_or_iff)

definition applied_ok :: "subject_token \<Rightarrow> token_sid option \<Rightarrow> acl_entry list \<Rightarrow> applied_ace \<Rightarrow> bool" where
  "applied_ok token owner es a \<longleftrightarrow> aa_position a < length es \<and> es ! aa_position a = aa_entry a
     \<and> applicable token owner (aa_entry a) \<and> match_entry (aa_entry a) token owner = Some (aa_matched a)
     \<and> mask_value (aa_considered a) = entry_bits (aa_entry a)
     \<and> submask (mask_value (aa_contributed a)) (mask_value (aa_considered a))"

definition evidence_ok :: "subject_token \<Rightarrow> token_sid option \<Rightarrow> acl_entry list \<Rightarrow> acl_walk \<Rightarrow> bool" where
  "evidence_ok token owner es w \<longleftrightarrow>
     (\<forall>a \<in> set (w_granted_by w @ w_denied_by w @ w_superseded w). applied_ok token owner es a)
     \<and> (\<forall>a \<in> set (w_granted_by w). aa_is_allow a \<and> mask_value (aa_contributed a) \<noteq> 0)
     \<and> (\<forall>a \<in> set (w_denied_by w). \<not> aa_is_allow a \<and> mask_value (aa_contributed a) \<noteq> 0)
     \<and> (\<forall>a \<in> set (w_superseded w). mask_value (aa_contributed a) = 0)
     \<and> w_granted w = contributions (w_granted_by w) \<and> w_denied w = contributions (w_denied_by w)
     \<and> w_evaluated w = length (w_granted_by w) + length (w_denied_by w) + length (w_superseded w)"

lemma evidence_ok_settle:
  assumes ok: "evidence_ok token owner es w0" and pos: "p < length es" "es ! p = e"
    and app: "applicable token owner e" and m: "match_entry e token owner = Some m"
    and same: "w_granted w = w_granted w0" "w_denied w = w_denied w0"
      "w_granted_by w = w_granted_by w0" "w_denied_by w = w_denied_by w0"
      "w_superseded w = w_superseded w0" "w_evaluated w = w_evaluated w0 + 1"
  shows "evidence_ok token owner es (settle_entry e p m w)"
proof -
  let ?a = "\<lambda>c. \<lparr>aa_entry = e, aa_matched = m, aa_position = p,
      aa_considered = nr_normalized (ae_normalized e), aa_contributed = rmask c (w_layer w)\<rparr>"
  have ap: "applied_ok token owner es (?a (entry_bits e AND NOT x))" for x
    using pos app m by (auto simp: applied_ok_def normalized_value submask_iff bit_diff)
  have al: "aa_is_allow (?a c) \<longleftrightarrow> ae_is_allow e" for c by (simp add: aa_is_allow_def)
  show ?thesis
  proof (cases "ae_is_allow e")
    case True
    show ?thesis
    proof (cases "entry_bits e AND NOT (w_denied w) = 0")
      case zero: True
      have "settle_entry e p m w = w\<lparr>w_allow_union := w_allow_union w OR entry_bits e,
          w_superseded := w_superseded w @ [?a 0]\<rparr>"
        using True zero by (simp add: settle_entry_def Let_def normalized_value)
      then show ?thesis using ok ap [of "w_denied w"] same zero by (auto simp: evidence_ok_def)
    next
      case False
      let ?c = "entry_bits e AND NOT (w_denied w)"
      have "settle_entry e p m w = w\<lparr>w_allow_union := w_allow_union w OR entry_bits e,
          w_granted := w_granted w OR ?c, w_granted_by := w_granted_by w @ [?a ?c]\<rparr>"
        using True False by (simp add: settle_entry_def Let_def normalized_value)
      then show ?thesis
        using ok ap [of "w_denied w"] al True False same
        by (simp add: evidence_ok_def contributions_snoc)
    qed
  next
    case deny: False
    show ?thesis
    proof (cases "entry_bits e AND NOT (w_granted w) = 0")
      case zero: True
      have "settle_entry e p m w = w\<lparr>w_deny_union := w_deny_union w OR entry_bits e,
          w_superseded := w_superseded w @ [?a 0]\<rparr>"
        using deny zero by (simp add: settle_entry_def Let_def normalized_value)
      then show ?thesis using ok ap [of "w_granted w"] same zero by (auto simp: evidence_ok_def)
    next
      case False
      let ?c = "entry_bits e AND NOT (w_granted w)"
      have "settle_entry e p m w = w\<lparr>w_deny_union := w_deny_union w OR entry_bits e,
          w_denied := w_denied w OR ?c, w_denied_by := w_denied_by w @ [?a ?c]\<rparr>"
        using deny False by (simp add: settle_entry_def Let_def normalized_value)
      then show ?thesis
        using ok ap [of "w_granted w"] al deny False same
        by (simp add: evidence_ok_def contributions_snoc)
    qed
  qed
qed

lemma evidence_ok_apply:
  assumes "evidence_ok token owner es w" and "p < length es" "es ! p = e"
  shows "evidence_ok token owner es (apply_entry e p token owner w)"
proof (cases "applicable token owner e")
  case True
  then show ?thesis
    by (rule apply_entry_settles [where p = p and w = w]) (use assms True in \<open>auto intro: evidence_ok_settle\<close>)
next
  case False
  then show ?thesis
    by (rule apply_entry_skip [where p = p and w = w]) (use assms in \<open>simp_all add: evidence_ok_def\<close>)
qed

lemma walk_entries_invariant:
  assumes "P w" and "\<And>p e w. p < length es \<Longrightarrow> es ! p = e \<Longrightarrow> P w \<Longrightarrow> P (apply_entry e p token owner w)"
  shows "P (walk_entries es token owner w)"
  unfolding walk_entries_def
proof (rule fold_invariant [where Q = "\<lambda>(p, e). p < length es \<and> es ! p = e"])
  fix x assume "x \<in> set (List.enumerate 0 es)"
  then show "case x of (p, e) \<Rightarrow> p < length es \<and> es ! p = e" by (auto simp: in_set_enumerate_eq)
qed (use assms in auto)

lemma walked_evidence:
  "evidence_ok token (owner_token_sid_of token facts) es (walked token layer facts es)"
  unfolding walked_def
proof (rule walk_entries_invariant)
  show "evidence_ok token (owner_token_sid_of token facts) es (start_walk token layer facts es)"
    by (simp add: evidence_ok_def contributions_def)
qed (rule evidence_ok_apply)

text \<open>The conditions the walk itself can raise.\<close>

definition walk_conditions :: "access_condition set" where
  "walk_conditions = {AC_OWNER_RIGHTS_ACE, AC_OWNER_IMPLICIT_RIGHTS, AC_CREATOR_OWNER_ACE,
     AC_LOGON_TYPE_TRUSTEE, AC_GENERIC_RIGHTS_EXPANDED}"

lemma settle_entry_findings [simp]: "w_findings (settle_entry e p m w) = w_findings w"
  by (simp add: settle_entry_def Let_def)

lemma apply_entry_conditions:
  "\<forall>f \<in> set (w_findings w). fi_condition f \<in> walk_conditions
   \<Longrightarrow> \<forall>f \<in> set (w_findings (apply_entry e p token owner w)). fi_condition f \<in> walk_conditions"
  by (auto simp: apply_entry_def Let_def walk_conditions_def split: option.splits)

lemma start_walk_conditions:
  "\<forall>f \<in> set (w_findings (start_walk token layer facts es)). fi_condition f \<in> walk_conditions"
  by (auto simp: start_walk_def owner_rights_def empty_walk_def walk_conditions_def split: option.splits)

lemma walked_conditions:
  "\<forall>f \<in> set (w_findings (walked token layer facts es)). fi_condition f \<in> walk_conditions"
  unfolding walked_def
  by (rule walk_entries_invariant) (use start_walk_conditions apply_entry_conditions in auto)

subsection \<open>Canonical order, declaratively\<close>

definition first_pos :: "(acl_entry \<Rightarrow> bool) \<Rightarrow> acl_entry list \<Rightarrow> (nat \<times> acl_entry) option" where
  "first_pos P es = find (\<lambda>(q, x). P x) (List.enumerate 0 es)"

lemma find_append: "find P (xs @ ys) = (case find P xs of None \<Rightarrow> find P ys | Some x \<Rightarrow> Some x)"
  by (induction xs) auto

lemma first_pos_snoc:
  "first_pos P (es @ [e]) = (case first_pos P es of
     None \<Rightarrow> if P e then Some (length es, e) else None | Some x \<Rightarrow> Some x)"
  by (simp add: first_pos_def enumerate_append_eq find_append split: option.split)

lemma first_pos_nil [simp]: "first_pos P [] = None"
  by (simp add: first_pos_def)

lemma first_pos_Some_iff:
  "first_pos P es = Some (q, x) \<longleftrightarrow> q < length es \<and> x = es ! q \<and> P x \<and> (\<forall>r < q. \<not> P (es ! r))"
  by (auto simp: first_pos_def find_Some_iff nth_enumerate_eq)

definition explicit_allow :: "acl_entry \<Rightarrow> bool" where
  "explicit_allow e \<longleftrightarrow> \<not> ae_is_inherited e \<and> ae_is_allow e"

text \<open>The violations at one position, from the first inherited and first explicit Allow before it.\<close>

definition violations_at :: "nat \<Rightarrow> (nat \<times> acl_entry) option \<Rightarrow> (nat \<times> acl_entry) option \<Rightarrow> acl_entry
    \<Rightarrow> order_violation set" where
  "violations_at p inh al e =
     {v. ov_position v = p \<and> ov_entry v = e \<and> \<not> ae_is_inherited e
       \<and> (case ov_kind v of
            INHERITED_BEFORE_EXPLICIT \<Rightarrow> inh = Some (ov_earlier_position v, ov_earlier_entry v)
          | ALLOW_BEFORE_DENY \<Rightarrow> \<not> ae_is_allow e \<and> al = Some (ov_earlier_position v, ov_earlier_entry v))}"

lemma order_scan_cons:
  "set (order_scan p inh al (e # es)) = violations_at p inh al e
     \<union> set (order_scan (Suc p)
         (case inh of None \<Rightarrow> if ae_is_inherited e then Some (p, e) else None | Some i \<Rightarrow> Some i)
         (case al of None \<Rightarrow> if explicit_allow e then Some (p, e) else None | Some a \<Rightarrow> Some a) es)"
proof -
  have at: "violations_at p inh al e = (if ae_is_inherited e then {} else
      (case inh of None \<Rightarrow> {} | Some (q, x) \<Rightarrow> {\<lparr>ov_kind = INHERITED_BEFORE_EXPLICIT, ov_position = p,
          ov_entry = e, ov_earlier_position = q, ov_earlier_entry = x\<rparr>})
      \<union> (if ae_is_allow e then {} else
      (case al of None \<Rightarrow> {} | Some (q, x) \<Rightarrow> {\<lparr>ov_kind = ALLOW_BEFORE_DENY, ov_position = p,
          ov_entry = e, ov_earlier_position = q, ov_earlier_entry = x\<rparr>})))"
  proof (rule set_eqI)
    fix v :: order_violation
    obtain k q f r x where v: "v = \<lparr>ov_kind = k, ov_position = q, ov_entry = f,
        ov_earlier_position = r, ov_earlier_entry = x\<rparr>"
      by (cases v)
    show "v \<in> violations_at p inh al e \<longleftrightarrow> v \<in> (if ae_is_inherited e then {} else
      (case inh of None \<Rightarrow> {} | Some (q, x) \<Rightarrow> {\<lparr>ov_kind = INHERITED_BEFORE_EXPLICIT, ov_position = p,
          ov_entry = e, ov_earlier_position = q, ov_earlier_entry = x\<rparr>})
      \<union> (if ae_is_allow e then {} else
      (case al of None \<Rightarrow> {} | Some (q, x) \<Rightarrow> {\<lparr>ov_kind = ALLOW_BEFORE_DENY, ov_position = p,
          ov_entry = e, ov_earlier_position = q, ov_earlier_entry = x\<rparr>})))"
      unfolding v violations_at_def by (cases k; cases inh; cases al) auto
  qed
  show ?thesis
    unfolding at by (cases inh; cases al) (auto simp: explicit_allow_def)
qed

lemma order_scan_from:
  "set (order_scan (length pre) (first_pos ae_is_inherited pre) (first_pos explicit_allow pre) es)
   = (\<Union>p \<in> {length pre ..< length pre + length es}.
        violations_at p (first_pos ae_is_inherited (take p (pre @ es)))
          (first_pos explicit_allow (take p (pre @ es))) ((pre @ es) ! p))"
proof (induction es arbitrary: pre)
  case (Cons e es)
  have rng: "{length pre ..< length pre + length (e # es)}
      = insert (length pre) {length (pre @ [e]) ..< length (pre @ [e]) + length es}"
    by auto
  have "set (order_scan (Suc (length pre)) (first_pos ae_is_inherited (pre @ [e]))
        (first_pos explicit_allow (pre @ [e])) es)
      = (\<Union>p \<in> {length (pre @ [e]) ..< length (pre @ [e]) + length es}.
        violations_at p (first_pos ae_is_inherited (take p (pre @ e # es)))
          (first_pos explicit_allow (take p (pre @ e # es))) ((pre @ e # es) ! p))"
    using Cons.IH [of "pre @ [e]"] by simp
  then show ?case
    unfolding order_scan_cons rng by (simp add: first_pos_snoc)
qed simp

text \<open>A list with no violation and no inherited Deny is Denies followed by Allows.\<close>

lemma order_scan_rest_allow:
  "order_scan p inh al es = [] \<Longrightarrow> inh \<noteq> None \<or> al \<noteq> None
   \<Longrightarrow> \<forall>e \<in> set es. ae_is_inherited e \<longrightarrow> ae_is_allow e \<Longrightarrow> \<forall>e \<in> set es. ae_is_allow e"
proof (induction es arbitrary: p inh al)
  case (Cons e es)
  let ?inh = "case inh of None \<Rightarrow> if ae_is_inherited e then Some (p, e) else None | Some i \<Rightarrow> Some i"
  let ?al = "case al of None \<Rightarrow> if explicit_allow e then Some (p, e) else None | Some a \<Rightarrow> Some a"
  have none: "violations_at p inh al e = {}" and rest: "order_scan (Suc p) ?inh ?al es = []"
    using Cons.prems(1) order_scan_cons [of p inh al e es] by simp_all
  have "ae_is_allow e"
    using Cons.prems by (auto split: if_splits option.splits)
  moreover have "?inh \<noteq> None \<or> ?al \<noteq> None"
    using Cons.prems(2) by (auto split: option.splits)
  ultimately show ?case
    using Cons.IH [OF rest] Cons.prems(3) by simp
qed simp

lemma order_scan_split:
  "order_scan p None None es = [] \<Longrightarrow> \<forall>e \<in> set es. ae_is_inherited e \<longrightarrow> ae_is_allow e
   \<Longrightarrow> \<exists>ds as. es = ds @ as \<and> (\<forall>e \<in> set ds. \<not> ae_is_allow e) \<and> (\<forall>e \<in> set as. ae_is_allow e)"
proof (induction es arbitrary: p)
  case (Cons e es)
  show ?case
  proof (cases "ae_is_allow e")
    case True
    have "\<forall>x \<in> set es. ae_is_allow x"
    proof (cases "ae_is_inherited e")
      case inh: True
      then have "order_scan (Suc p) (Some (p, e)) None es = []" using Cons.prems(1) by simp
      from order_scan_rest_allow [OF this] show ?thesis using Cons.prems(2) by simp
    next
      case False
      then have "order_scan (Suc p) None (Some (p, e)) es = []" using Cons.prems(1) True by simp
      from order_scan_rest_allow [OF this] show ?thesis using Cons.prems(2) by simp
    qed
    with True have "e # es = [] @ (e # es) \<and> (\<forall>x \<in> set []. \<not> ae_is_allow x)
        \<and> (\<forall>x \<in> set (e # es). ae_is_allow x)"
      by simp
    then show ?thesis by blast
  next
    case False
    then have "order_scan (Suc p) None None es = []"
      using Cons.prems by (auto split: if_splits)
    then obtain ds as where "es = ds @ as" "\<forall>e \<in> set ds. \<not> ae_is_allow e" "\<forall>e \<in> set as. ae_is_allow e"
      using Cons.IH Cons.prems(2) by (meson list.set_intros(2))
    with False have "e # es = (e # ds) @ as \<and> (\<forall>x \<in> set (e # ds). \<not> ae_is_allow x)
        \<and> (\<forall>x \<in> set as. ae_is_allow x)"
      by simp
    then show ?thesis by blast
  qed
qed simp

lemma walked_canonical:
  assumes "canonical_order_violations es = []" "\<forall>e \<in> set es. ae_is_inherited e \<longrightarrow> ae_is_allow e"
  shows "w_granted (walked token layer facts es)
    = w_allow_union (walked token layer facts es) AND NOT (w_deny_union (walked token layer facts es))"
proof -
  obtain ds as where es: "es = ds @ as" "\<forall>e \<in> set ds. \<not> ae_is_allow e" "\<forall>e \<in> set as. ae_is_allow e"
    using order_scan_split [OF _ assms(2), of 0] assms(1) by (auto simp: canonical_order_violations_def)
  let ?o = "owner_token_sid_of token facts"
  have kinds: "ae_ace_type e = DENY \<longleftrightarrow> \<not> ae_is_allow e" for e
    by (cases "ae_ace_type e") (simp_all add: ae_is_allow_def)
  have "dacl.rulings token ?o (List.enumerate 0 es)
      = rulings_for token ?o ds @ rulings_for token ?o as"
    by (simp add: dacl_rulings es rulings_for_def)
  moreover have "\<forall>r \<in> set (rulings_for token ?o ds). fst r = DENY"
    using es(2) kinds by (auto simp: rulings_for_def)
  moreover have "\<forall>r \<in> set (rulings_for token ?o as). fst r = ALLOW"
    using es(3) by (auto simp: rulings_for_def ae_is_allow_def)
  ultimately show ?thesis
    unfolding walked_def walk_entries_def
    by (intro dacl.run_canonical_when_denies_first) simp_all
qed

lemma evaluate_acl_returns:
  assumes "layer \<noteq> EFFECTIVE" and "\<forall>e \<in> set supplied. ae_layer e = layer"
  obtains ev where "evaluate_acl supplied token layer facts = Inr ev"
  using assms evaluate_acl_errors_iff [of supplied token layer facts]
  by (cases "evaluate_acl supplied token layer facts") auto

lemma evaluate_acl_null:
  assumes "layer \<noteq> EFFECTIVE" and "\<forall>e \<in> set supplied. ae_layer e = layer" and "\<not> df_dacl_present facts"
  shows "evaluate_acl supplied token layer facts = Inr (null_dacl layer facts (length supplied))"
  using assms by (auto simp: evaluate_acl_def list_ex_iff)

lemma evaluate_acl_layers:
  "evaluate_acl supplied token layer facts = Inr ev
     \<Longrightarrow> layer \<noteq> EFFECTIVE \<and> (\<forall>e \<in> set supplied. ae_layer e = layer)"
  by (auto simp: evaluate_acl_def list_ex_iff split: if_splits)

lemma walked_conditions_of: "conditions_of (w_findings (walked token layer facts es)) \<subseteq> walk_conditions"
  using walked_conditions by (auto simp: conditions_of_def)

lemma rights_conditions_of:
  "conditions_of (rights_condition_findings r) \<subseteq> {AC_INDETERMINATE_RIGHTS, AC_UNRECOGNIZED_RIGHTS_BITS}"
  by (simp add: rights_condition_findings_def)

lemma order_dependent_condition:
  "AC_ORDER_DEPENDENT_RESULT \<in> conditions_of (descriptor_findings supplied es facts vs r c) \<longleftrightarrow> c \<noteq> r"
  by (simp add: descriptor_findings_def split: option.split)

lemma empty_dacl_condition:
  "AC_EMPTY_DACL \<in> conditions_of (descriptor_findings supplied es facts vs r c) \<longleftrightarrow> es = []"
  by (simp add: descriptor_findings_def split: option.split)

lemma non_canonical_condition:
  "AC_NON_CANONICAL_DACL \<in> conditions_of (descriptor_findings supplied es facts vs r c) \<longleftrightarrow> vs \<noteq> []"
  by (simp add: descriptor_findings_def split: option.split)

lemma null_dacl_condition:
  "AC_NULL_DACL \<notin> conditions_of (descriptor_findings supplied es facts vs r c)"
  by (simp add: descriptor_findings_def split: option.split)

lemma present_condition_iff:
  assumes "evaluate_acl supplied token layer facts = Inr ev" "df_dacl_present facts"
    and "c \<notin> walk_conditions \<union> {AC_INDETERMINATE_RIGHTS, AC_UNRECOGNIZED_RIGHTS_BITS}"
  shows "c \<in> ev_conditions ev \<longleftrightarrow> c \<in> conditions_of (descriptor_findings supplied
      (take MAX_ACL_ENTRIES supplied) facts (ev_order_violations ev) (ev_rights ev)
      (the (ev_canonical_rights ev)))"
proof -
  have "c \<notin> conditions_of (w_findings (walked token layer facts (take MAX_ACL_ENTRIES supplied)))"
    using assms(3) walked_conditions_of by blast
  moreover have "c \<notin> conditions_of (rights_condition_findings (ev_rights ev))"
    using assms(3) rights_conditions_of by blast
  ultimately show ?thesis
    unfolding ev_conditions_def evaluate_acl_present(12) [OF assms(1,2)]
    by (simp add: evaluate_acl_present(5,11) [OF assms(1,2)])
qed

subsection \<open>A small concrete evaluation\<close>

definition sample_subject :: subject_facts where
  "sample_subject = \<lparr>subj_key = ''S-1-5-21-1'', subj_sid = ''S-1-5-21-1'', subj_kind = Some PK_USER,
     subj_display_name = None, subj_enabled = None, subj_last_observed_run_id = None,
     subj_last_observed_at = None\<rparr>"

definition sample_token :: "access_path \<Rightarrow> subject_token" where
  "sample_token path = \<lparr>st_subject = sample_subject, st_assumption = TA_SIDS_ONLY,
     st_access_path = path, st_entries = [own_entry sample_subject], st_membership_complete = True,
     st_findings = [], st_system_mapping = None, st_subject_presented = True\<rparr>"

definition sample_entry :: "ace_type \<Rightarrow> ace_source \<Rightarrow> 32 word \<Rightarrow> rights_layer \<Rightarrow> acl_entry" where
  "sample_entry kind source bits layer =
     \<lparr>ae_trustee_key = ''S-1-5-21-1'', ae_trustee_sid = ''S-1-5-21-1'', ae_ace_type = kind,
      ae_mask = rmask bits layer, ae_flags = AF_NONE, ae_source = source, ae_order_index = None,
      ae_ace_key = None, ae_inherited_from = None, ae_trustee_name = None\<rparr>"

lemma sample_entry_simps [simp]:
  "ae_layer (sample_entry k src b l) = l" "ae_mask (sample_entry k src b l) = rmask b l"
  "ae_is_inherited (sample_entry k src b l) \<longleftrightarrow> src = INHERITED"
  "ae_is_allow (sample_entry k src b l) \<longleftrightarrow> k = ALLOW" "ae_ace_type (sample_entry k src b l) = k"
  "entry_bits (sample_entry k src b l) = expand_value b"
  "\<not> ae_names_owner_rights (sample_entry k src b l)"
  by (simp_all add: sample_entry_def ae_layer_def ae_is_inherited_def ae_is_allow_def entry_bits_def
      ae_names_owner_rights_def OWNER_RIGHTS_SID_def)

lemma sample_applicable [simp]: "applicable (sample_token path) owner (sample_entry k src b l)"
  by (simp add: applicable_def sample_entry_def sample_token_def sample_subject_def own_entry_def
      ae_applies_to_this_object_def ae_names_substitution_placeholder_def ae_names_owner_rights_def
      SUBSTITUTION_PLACEHOLDERS_def sid_constant_defs match_entry_def token_entry_def has_flag_def
      ace_flag_defs)

lemma unowned_present [simp]:
  "df_dacl_present UNOWNED_PRESENT_DACL" "df_owner_sid UNOWNED_PRESENT_DACL = None"
  "owner_token_sid_of t UNOWNED_PRESENT_DACL = None" "\<not> owner_implicit t UNOWNED_PRESENT_DACL es"
  by (simp_all add: UNOWNED_PRESENT_DACL_def mk_dacl_facts_def owner_token_sid_of_def owner_implicit_def)

lemma sample_rulings:
  "rulings_for (sample_token path) owner (sample_entry k src b l # es)
   = (k, expand_value b) # rulings_for (sample_token path) owner es"
  "rulings_for (sample_token path) owner [] = []"
  by (simp_all add: rulings_for_def)

lemma expand_value_small [simp]: "expand_value 1 = 1" "expand_value 2 = 2"
  by (simp_all add: expand_value_id generic_bits_value)

subsection \<open>Properties\<close>

text \<open>
  C1. The rights an evaluation reports are exactly what the access check means: a right is held when
  the first applicable entry that names it (after generic expansion, in stored order, among the
  first 4096 entries) is an Allow, or when the subject owns the object, no OWNER RIGHTS entry applies
  and the right is READ_CONTROL or WRITE_DAC; so a Deny never takes the owner's implicit rights.
\<close>

theorem access_check_first_match:
  assumes "evaluate_acl supplied token layer facts = Inr ev" and "df_dacl_present facts"
  shows "mask_layer (ev_rights ev) = layer
    \<and> (\<forall>n. bit (mask_value (ev_rights ev)) n \<longleftrightarrow>
        decided (rulings_for token (owner_token_sid_of token facts) (take 4096 supplied)) n ALLOW
        \<or> owner_implicit token facts (take 4096 supplied) \<and> bit (READ_CONTROL OR WRITE_DAC) n)"
  by (simp add: evaluate_acl_present(4) [OF assms] bit_or_iff walked_masks owner_bits_def
      MAX_ACL_ENTRIES_def)

lemma access_check_first_match_witness:
  "\<exists>ev. evaluate_acl [sample_entry DENY INHERITED 2 NTFS, sample_entry ALLOW EXPLICIT 1 NTFS]
      (sample_token LOCAL) NTFS UNOWNED_PRESENT_DACL = Inr ev \<and> bit (mask_value (ev_rights ev)) 0"
proof (rule evaluate_acl_returns)
  fix ev
  assume ev: "evaluate_acl [sample_entry DENY INHERITED 2 NTFS, sample_entry ALLOW EXPLICIT 1 NTFS]
      (sample_token LOCAL) NTFS UNOWNED_PRESENT_DACL = Inr ev"
  with access_check_first_match [OF ev, simplified] show ?thesis
    by (simp add: sample_rulings)
qed simp_all

text \<open>
  \<open>evaluate_acl\<close> fails in two ways only, and checks them in this order: the EFFECTIVE layer is
  refused, and so is any entry of another layer, truncated or not; every other call returns.
\<close>

theorem evaluate_acl_errors:
  "evaluate_acl supplied token layer facts = Inl err \<longleftrightarrow>
     layer = EFFECTIVE \<and> err = DomainValidationError ''layer''
     \<or> layer \<noteq> EFFECTIVE \<and> (\<exists>e \<in> set supplied. ae_layer e \<noteq> layer)
       \<and> err = DomainValidationError ''entries''"
  by (rule evaluate_acl_errors_iff)

text \<open>
  A NULL DACL is not an empty one. Without a DACL every token gets full access whatever entries
  were supplied, and the first finding says so; an empty DACL that is present grants at most the
  owner's implicit rights, and is reported as empty.
\<close>

theorem null_dacl_is_not_empty_dacl:
  assumes "evaluate_acl supplied token layer facts = Inr ev"
  shows "(\<not> df_dacl_present facts \<longrightarrow> ev_rights ev = rmask FILE_ALL_ACCESS layer
        \<and> fi_condition (hd (ev_findings ev)) = AC_NULL_DACL \<and> AC_EMPTY_DACL \<notin> ev_conditions ev)
    \<and> (df_dacl_present facts \<and> supplied = [] \<longrightarrow>
        mask_value (ev_rights ev)
          = (if owner_implicit token facts [] then READ_CONTROL OR WRITE_DAC else 0)
        \<and> AC_EMPTY_DACL \<in> ev_conditions ev \<and> AC_NULL_DACL \<notin> ev_conditions ev)"
proof (cases "df_dacl_present facts")
  case True
  show ?thesis
  proof (cases "supplied = []")
    case sup: True
    have "walked token layer facts [] = start_walk token layer facts []"
      by (simp add: walked_def walk_entries_def)
    then have "mask_value (ev_rights ev)
        = (if owner_implicit token facts [] then READ_CONTROL OR WRITE_DAC else 0)"
      using evaluate_acl_present(4) [OF assms True] by (simp add: sup owner_bits_def)
    moreover have "AC_EMPTY_DACL \<in> ev_conditions ev"
      by (subst present_condition_iff [OF assms True]) (simp_all add: sup empty_dacl_condition walk_conditions_def)
    moreover have "AC_NULL_DACL \<notin> ev_conditions ev"
      by (subst present_condition_iff [OF assms True]) (simp_all add: null_dacl_condition walk_conditions_def)
    ultimately show ?thesis using True by simp
  next
    case False
    with True show ?thesis by simp
  qed
next
  case False
  then have "ev = null_dacl layer facts (length supplied)"
    using assms evaluate_acl_layers [OF assms] evaluate_acl_null by force
  with False show ?thesis by (simp add: null_dacl_def ev_conditions_def)
qed

lemma null_dacl_is_not_empty_dacl_witness:
  "\<exists>ev. evaluate_acl [] (sample_token LOCAL) NTFS UNOWNED_PRESENT_DACL = Inr ev
     \<and> mask_value (ev_rights ev) = 0"
proof (rule evaluate_acl_returns)
  fix ev
  assume ev: "evaluate_acl [] (sample_token LOCAL) NTFS UNOWNED_PRESENT_DACL = Inr ev"
  with null_dacl_is_not_empty_dacl [OF ev] show ?thesis by simp
qed simp_all

text \<open>
  The canonical model (all Allows minus all Denies) never reports a right the faithful walk does
  not: reordering an ACL away from canonical order can only add rights. A right is granted and
  denied to the same token by no ACL.
\<close>

theorem canonical_never_exceeds_rights:
  assumes "evaluate_acl supplied token layer facts = Inr ev" and "df_dacl_present facts"
  shows "(\<exists>c. ev_canonical_rights ev = Some c \<and> mask_layer c = layer
      \<and> submask (mask_value c) (mask_value (ev_rights ev)))
    \<and> contributions (ev_granted_by ev) AND contributions (ev_denied_by ev) = 0"
proof
  let ?w = "walked token layer facts (take MAX_ACL_ENTRIES supplied)"
  let ?o = "owner_token_sid_of token facts"
  have "bit (w_granted ?w) n" if "bit (w_allow_union ?w AND NOT (w_deny_union ?w)) n" for n
    using dacl.canonical_below_run [of "start_walk token layer facts (take MAX_ACL_ENTRIES supplied)"
        token ?o "List.enumerate 0 (take MAX_ACL_ENTRIES supplied)" n] that
    by (simp add: walked_def walk_entries_def)
  then show "\<exists>c. ev_canonical_rights ev = Some c \<and> mask_layer c = layer
      \<and> submask (mask_value c) (mask_value (ev_rights ev))"
    by (auto simp: evaluate_acl_present(4,5) [OF assms] submask_iff bit_or_iff)
  have "w_granted ?w AND w_denied ?w = 0"
    using decided_unique by (fastforce simp: mask_zero_iff bit_and_iff walked_masks)
  then show "contributions (ev_granted_by ev) AND contributions (ev_denied_by ev) = 0"
    using walked_evidence [of token facts "take MAX_ACL_ENTRIES supplied" layer]
    by (simp add: evaluate_acl_present(7,8) [OF assms] evidence_ok_def)
qed

lemma canonical_never_exceeds_rights_witness:
  "\<exists>ev c. evaluate_acl [sample_entry ALLOW EXPLICIT 1 NTFS, sample_entry DENY EXPLICIT 1 NTFS]
      (sample_token LOCAL) NTFS UNOWNED_PRESENT_DACL = Inr ev
     \<and> ev_canonical_rights ev = Some c \<and> submask (mask_value c) (mask_value (ev_rights ev))"
proof (rule evaluate_acl_returns)
  fix ev
  assume ev: "evaluate_acl [sample_entry ALLOW EXPLICIT 1 NTFS, sample_entry DENY EXPLICIT 1 NTFS]
      (sample_token LOCAL) NTFS UNOWNED_PRESENT_DACL = Inr ev"
  with canonical_never_exceeds_rights [OF ev] show ?thesis by auto
qed simp_all

text \<open>
  C19. A DACL with no reported order violation and no inherited Deny gives the canonical answer: every
  effective Deny precedes every effective Allow, so the faithful walk and the canonical model agree
  and no order-dependent finding is raised.
\<close>

theorem canonical_order_agrees:
  assumes "evaluate_acl supplied token layer facts = Inr ev" and "df_dacl_present facts"
    and "ev_order_violations ev = []"
    and "\<forall>e \<in> set (take 4096 supplied). ae_is_inherited e \<longrightarrow> ae_is_allow e"
  shows "ev_canonical_rights ev = Some (ev_rights ev)
    \<and> AC_ORDER_DEPENDENT_RESULT \<notin> ev_conditions ev \<and> AC_NON_CANONICAL_DACL \<notin> ev_conditions ev"
proof -
  have none: "canonical_order_violations (take MAX_ACL_ENTRIES supplied) = []"
    using assms(3) by (simp add: evaluate_acl_present(11) [OF assms(1,2)])
  have "ev_canonical_rights ev = Some (ev_rights ev)"
    using walked_canonical [OF none] assms(4)
    by (simp add: evaluate_acl_present(4,5) [OF assms(1,2)] MAX_ACL_ENTRIES_def)
  moreover have "AC_ORDER_DEPENDENT_RESULT \<notin> ev_conditions ev"
    using calculation
    by (subst present_condition_iff [OF assms(1,2)]) (simp_all add: order_dependent_condition walk_conditions_def)
  moreover have "AC_NON_CANONICAL_DACL \<notin> ev_conditions ev"
    using assms(3)
    by (subst present_condition_iff [OF assms(1,2)]) (simp_all add: non_canonical_condition walk_conditions_def)
  ultimately show ?thesis by blast
qed

lemma canonical_order_agrees_witness:
  "\<exists>ev. evaluate_acl [sample_entry DENY EXPLICIT 1 NTFS, sample_entry ALLOW EXPLICIT 1 NTFS]
      (sample_token LOCAL) NTFS UNOWNED_PRESENT_DACL = Inr ev
     \<and> ev_canonical_rights ev = Some (ev_rights ev)"
proof (rule evaluate_acl_returns)
  fix ev
  assume ev: "evaluate_acl [sample_entry DENY EXPLICIT 1 NTFS, sample_entry ALLOW EXPLICIT 1 NTFS]
      (sample_token LOCAL) NTFS UNOWNED_PRESENT_DACL = Inr ev"
  then have "ev_order_violations ev = []"
    by (simp add: evaluate_acl_present(11) MAX_ACL_ENTRIES_def canonical_order_violations_def)
  with canonical_order_agrees [OF ev] ev show ?thesis by simp
qed simp_all

text \<open>
  The order-dependent condition is on the evaluation exactly when its property says the two models
  differ, and the non-canonical condition exactly when it lists a violation.
\<close>

theorem order_findings_exact:
  assumes "evaluate_acl supplied token layer facts = Inr ev"
  shows "(AC_ORDER_DEPENDENT_RESULT \<in> ev_conditions ev \<longleftrightarrow> ev_order_dependent ev)
    \<and> (AC_NON_CANONICAL_DACL \<in> ev_conditions ev \<longleftrightarrow> ev_order_violations ev \<noteq> [])"
proof (cases "df_dacl_present facts")
  case True
  show ?thesis
    using present_condition_iff [OF assms True, of AC_ORDER_DEPENDENT_RESULT]
      present_condition_iff [OF assms True, of AC_NON_CANONICAL_DACL]
    by (auto simp: order_dependent_condition non_canonical_condition walk_conditions_def
        ev_order_dependent_def evaluate_acl_present(5) [OF assms True])
next
  case False
  then have "ev = null_dacl layer facts (length supplied)"
    using assms evaluate_acl_layers [OF assms] evaluate_acl_null by force
  then show ?thesis by (simp add: null_dacl_def ev_conditions_def ev_order_dependent_def)
qed

lemma order_findings_exact_witness:
  "\<exists>ev. evaluate_acl [sample_entry ALLOW EXPLICIT 1 NTFS, sample_entry DENY EXPLICIT 1 NTFS]
      (sample_token LOCAL) NTFS UNOWNED_PRESENT_DACL = Inr ev
     \<and> AC_NON_CANONICAL_DACL \<in> ev_conditions ev"
proof (rule evaluate_acl_returns)
  fix ev
  assume ev: "evaluate_acl [sample_entry ALLOW EXPLICIT 1 NTFS, sample_entry DENY EXPLICIT 1 NTFS]
      (sample_token LOCAL) NTFS UNOWNED_PRESENT_DACL = Inr ev"
  then have "ev_order_violations ev \<noteq> []"
    by (simp add: evaluate_acl_present(11) MAX_ACL_ENTRIES_def canonical_order_violations_def)
  with order_findings_exact [OF ev] ev show ?thesis by simp
qed simp_all

text \<open>
  C18. The evidence accounts for the answer over a DACL that is there (a NULL DACL grants everything and
  records no entry). Every applied entry is the one at its position, applies to
  the object, names a token entry and contributes only rights of its expanded mask; contributing
  Allows are in \<open>granted_by\<close>, contributing Denies in \<open>denied_by\<close>, the rest in \<open>superseded\<close>; the
  contributions of \<open>granted_by\<close> with the owner's implicit rights are the rights reported, and every
  entry that was evaluated is in exactly one of the three lists.
\<close>

theorem evidence_accounts_for_rights:
  assumes "evaluate_acl supplied token layer facts = Inr ev" and "df_dacl_present facts"
  shows "(\<forall>a \<in> set (ev_granted_by ev @ ev_denied_by ev @ ev_superseded ev).
        aa_position a < length supplied \<and> supplied ! aa_position a = aa_entry a
        \<and> ae_applies_to_this_object (aa_entry a) \<and> \<not> ae_names_substitution_placeholder (aa_entry a)
        \<and> match_entry (aa_entry a) token (owner_token_sid_of token facts) = Some (aa_matched a)
        \<and> submask (mask_value (aa_contributed a)) (expand_value (mask_value (ae_mask (aa_entry a)))))
    \<and> (\<forall>a \<in> set (ev_granted_by ev). aa_is_allow a \<and> mask_value (aa_contributed a) \<noteq> 0)
    \<and> (\<forall>a \<in> set (ev_denied_by ev). \<not> aa_is_allow a \<and> mask_value (aa_contributed a) \<noteq> 0)
    \<and> (\<forall>a \<in> set (ev_superseded ev). mask_value (aa_contributed a) = 0)
    \<and> mask_value (ev_rights ev) = contributions (ev_granted_by ev)
        OR (case ev_owner_rights ev of None \<Rightarrow> 0 | Some r \<Rightarrow> mask_value r)
    \<and> ev_entries_evaluated ev
        = length (ev_granted_by ev) + length (ev_denied_by ev) + length (ev_superseded ev)"
proof -
  let ?es = "take MAX_ACL_ENTRIES supplied"
  let ?w = "walked token layer facts ?es"
  note ok = walked_evidence [of token facts ?es layer, unfolded evidence_ok_def]
  note fields = evaluate_acl_present [OF assms]
  have ap: "applied_ok token (owner_token_sid_of token facts) ?es a"
    if "a \<in> set (ev_granted_by ev @ ev_denied_by ev @ ev_superseded ev)" for a
    using ok that fields(7-9) by simp
  have 1: "\<forall>a \<in> set (ev_granted_by ev @ ev_denied_by ev @ ev_superseded ev).
        aa_position a < length supplied \<and> supplied ! aa_position a = aa_entry a
        \<and> ae_applies_to_this_object (aa_entry a) \<and> \<not> ae_names_substitution_placeholder (aa_entry a)
        \<and> match_entry (aa_entry a) token (owner_token_sid_of token facts) = Some (aa_matched a)
        \<and> submask (mask_value (aa_contributed a)) (expand_value (mask_value (ae_mask (aa_entry a))))"
    by (intro ballI, drule ap) (auto simp: applied_ok_def applicable_def entry_bits_def)
  have 2: "mask_value (ev_rights ev) = contributions (ev_granted_by ev)
        OR (case ev_owner_rights ev of None \<Rightarrow> 0 | Some r \<Rightarrow> mask_value r)"
    using ok fields(4,6,7) by (simp add: owner_bits_def OWNER_IMPLICIT_RIGHTS_def)
  show ?thesis
    using 1 2 ok fields(7-10) by simp
qed

lemma evidence_accounts_for_rights_witness:
  "\<exists>ev. evaluate_acl [sample_entry ALLOW EXPLICIT 1 NTFS] (sample_token LOCAL) NTFS
      UNOWNED_PRESENT_DACL = Inr ev
     \<and> mask_value (ev_rights ev) = contributions (ev_granted_by ev)"
proof (rule evaluate_acl_returns)
  fix ev
  assume ev: "evaluate_acl [sample_entry ALLOW EXPLICIT 1 NTFS] (sample_token LOCAL) NTFS
      UNOWNED_PRESENT_DACL = Inr ev"
  have "ev_owner_rights ev = None" using evaluate_acl_present(6) [OF ev] by simp
  with evidence_accounts_for_rights [OF ev] ev show ?thesis by simp
qed simp_all

text \<open>
  \<open>canonical_order_violations\<close> reports exactly the departures visible in stored facts: an explicit
  entry behind an inherited one, paired with the first inherited entry, and an explicit Deny behind an
  explicit Allow, paired with the first explicit Allow. An inherited entry is never reported.
\<close>

theorem canonical_order_violations_spec:
  "v \<in> set (canonical_order_violations es) \<longleftrightarrow>
     ov_position v < length es \<and> ov_entry v = es ! ov_position v \<and> \<not> ae_is_inherited (ov_entry v)
     \<and> ov_earlier_position v < ov_position v \<and> ov_earlier_entry v = es ! ov_earlier_position v
     \<and> (case ov_kind v of
          INHERITED_BEFORE_EXPLICIT \<Rightarrow> ae_is_inherited (ov_earlier_entry v)
            \<and> (\<forall>q < ov_earlier_position v. \<not> ae_is_inherited (es ! q))
        | ALLOW_BEFORE_DENY \<Rightarrow> \<not> ae_is_allow (ov_entry v) \<and> explicit_allow (ov_earlier_entry v)
            \<and> (\<forall>q < ov_earlier_position v. \<not> explicit_allow (es ! q)))"
proof -
  have "set (canonical_order_violations es) = (\<Union>p \<in> {0 ..< length es}.
        violations_at p (first_pos ae_is_inherited (take p es))
          (first_pos explicit_allow (take p es)) (es ! p))"
    using order_scan_from [of "[]" es] by (simp add: canonical_order_violations_def)
  then show ?thesis
    by (cases "ov_kind v") (auto simp: violations_at_def first_pos_Some_iff)
qed

lemma canonical_order_violations_spec_witness:
  "\<lparr>ov_kind = ALLOW_BEFORE_DENY, ov_position = 1,
     ov_entry = sample_entry DENY EXPLICIT 1 NTFS, ov_earlier_position = 0,
     ov_earlier_entry = sample_entry ALLOW EXPLICIT 1 NTFS\<rparr>
   \<in> set (canonical_order_violations
       [sample_entry ALLOW EXPLICIT 1 NTFS, sample_entry DENY EXPLICIT 1 NTFS])"
  by (subst canonical_order_violations_spec) (simp add: explicit_allow_def)

text \<open>
  Canonical order alone does not make the canonical model exact: an explicit Allow followed by an
  inherited Deny of the same trustee is the order Windows maintains, no violation is reported, and
  yet the walk grants the right while the canonical model withholds it.
\<close>

theorem canonical_order_is_not_enough:
  "\<exists>ev. evaluate_acl [sample_entry ALLOW EXPLICIT 1 NTFS, sample_entry DENY INHERITED 1 NTFS]
      (sample_token LOCAL) NTFS UNOWNED_PRESENT_DACL = Inr ev
    \<and> ev_order_violations ev = [] \<and> ev_rights ev = rmask 1 NTFS
    \<and> ev_canonical_rights ev = Some (rmask 0 NTFS)
    \<and> AC_ORDER_DEPENDENT_RESULT \<in> ev_conditions ev \<and> AC_NON_CANONICAL_DACL \<notin> ev_conditions ev"
proof (rule evaluate_acl_returns)
  let ?es = "[sample_entry ALLOW EXPLICIT 1 NTFS, sample_entry DENY INHERITED 1 NTFS]"
  let ?w = "walked (sample_token LOCAL) NTFS UNOWNED_PRESENT_DACL ?es"
  fix ev
  assume ev: "evaluate_acl ?es (sample_token LOCAL) NTFS UNOWNED_PRESENT_DACL = Inr ev"
  have take: "take MAX_ACL_ENTRIES ?es = ?es" by (simp add: MAX_ACL_ENTRIES_def)
  note fields = evaluate_acl_present [OF ev unowned_present(1), unfolded take]
  have g: "w_granted ?w = 1" and c: "w_allow_union ?w AND NOT (w_deny_union ?w) = 0"
    by (rule bit_word_eqI; simp add: walked_masks sample_rulings bit_diff)+
  have v: "ev_order_violations ev = []"
    using fields(11) by (simp add: canonical_order_violations_def)
  have r: "ev_rights ev = rmask 1 NTFS" "ev_canonical_rights ev = Some (rmask 0 NTFS)"
    using fields(4,5) by (simp_all add: g c owner_bits_def)
  have "AC_ORDER_DEPENDENT_RESULT \<in> ev_conditions ev" "AC_NON_CANONICAL_DACL \<notin> ev_conditions ev"
    using present_condition_iff [OF ev unowned_present(1), of AC_ORDER_DEPENDENT_RESULT]
      present_condition_iff [OF ev unowned_present(1), of AC_NON_CANONICAL_DACL]
    by (simp_all add: walk_conditions_def order_dependent_condition non_canonical_condition r v)
  with ev v r show ?thesis by blast
qed simp_all

end
