(* ===== verification/Adg_Resolver.thy ===== *)
theory Adg_Resolver
  imports Adg_Evaluation
begin

unbundle bit_operations_syntax

section \<open>Effective access (app/access_engine/resolver.py)\<close>

text \<open>
  Crossing the NTFS evaluation with the share evaluation for the path the token was built for: the
  two ACL sides with the checks of their constructors, the direction an answer may be wrong in as a
  bounded semilattice, the findings each side adds, and \<open>resolve_access\<close> as a result.
\<close>

datatype acl_provenance = OBSERVED | DERIVED | UNOBSERVED

datatype limiting_layer = LL_NONE | LL_SMB_SHARE | LL_NTFS | LL_BOTH | LL_UNKNOWN

datatype access_certainty = CERTAIN | AT_MOST | AT_LEAST | UNCERTAIN

record resource_dacl =
  rd_resource_key :: string
  rd_entries :: "acl_entry list"
  rd_dacl_present :: bool
  rd_dacl_protected :: bool
  rd_owner_sid :: "string option"
  rd_owner_key :: "string option"
  rd_declared_ace_count :: "int option"
  rd_provenance :: acl_provenance
  rd_derived_from :: "string option"
  rd_derived_distance :: "int option"

definition mk_resource_dacl :: "resource_dacl \<Rightarrow> resource_dacl result" where
  "mk_resource_dacl r =
     (if rd_resource_key r = [] then Inl (DomainValidationError ''resource_key'')
      else if (rd_provenance r = DERIVED) \<noteq> (rd_derived_from r \<noteq> None)
        then Inl (DomainValidationError ''derived_from'')
      else if \<not> rd_dacl_present r \<and> rd_provenance r = UNOBSERVED
        then Inl (DomainValidationError ''dacl_present'')
      else Inr (if rd_owner_key r = None \<and> rd_owner_sid r \<noteq> None
                then r\<lparr>rd_owner_key := rd_owner_sid r\<rparr> else r))"

definition rd_facts :: "resource_dacl \<Rightarrow> dacl_facts" where
  "rd_facts r = mk_dacl_facts (rd_dacl_present r) (rd_dacl_protected r) (rd_owner_sid r)
     (rd_owner_key r) (rd_declared_ace_count r)"

record share_dacl =
  sh_share_key :: string
  sh_entries :: "acl_entry list"
  sh_observed :: bool

definition mk_share_dacl :: "share_dacl \<Rightarrow> share_dacl result" where
  "mk_share_dacl s =
     (if sh_share_key s = [] then Inl (DomainValidationError ''share_key'')
      else if \<not> sh_observed s \<and> sh_entries s \<noteq> [] then Inl (DomainValidationError ''entries'')
      else Inr s)"

subsection \<open>Certainty\<close>

definition certainty_of :: "access_finding list \<Rightarrow> access_certainty" where
  "certainty_of findings =
     (let conditions = conditions_of findings;
          overstates = (conditions \<inter> OVERSTATING_CONDITIONS \<noteq> {});
          understates = (conditions \<inter> UNDERSTATING_CONDITIONS \<noteq> {})
      in if AC_INDETERMINATE_RIGHTS \<in> conditions then UNCERTAIN
         else if overstates \<and> understates then UNCERTAIN
         else if overstates then AT_MOST
         else if understates then AT_LEAST
         else CERTAIN)"

text \<open>The two directions a certainty leaves open; an order, with UNCERTAIN at the top.\<close>

definition may_overstate :: "access_certainty \<Rightarrow> bool" where
  "may_overstate c \<longleftrightarrow> c \<in> {AT_MOST, UNCERTAIN}"

definition may_understate :: "access_certainty \<Rightarrow> bool" where
  "may_understate c \<longleftrightarrow> c \<in> {AT_LEAST, UNCERTAIN}"

lemma certainty_eqI:
  "may_overstate a = may_overstate b \<Longrightarrow> may_understate a = may_understate b \<Longrightarrow> a = b"
  by (cases a; cases b) (simp_all add: may_overstate_def may_understate_def)

instantiation access_certainty :: "{bounded_semilattice_sup_bot, order_top}"
begin

definition less_eq_access_certainty :: "access_certainty \<Rightarrow> access_certainty \<Rightarrow> bool" where
  "a \<le> b \<longleftrightarrow> (may_overstate a \<longrightarrow> may_overstate b) \<and> (may_understate a \<longrightarrow> may_understate b)"

definition less_access_certainty :: "access_certainty \<Rightarrow> access_certainty \<Rightarrow> bool" where
  "a < b \<longleftrightarrow> a \<le> b \<and> \<not> b \<le> (a :: access_certainty)"

definition sup_access_certainty :: "access_certainty \<Rightarrow> access_certainty \<Rightarrow> access_certainty" where
  "sup a b =
     (if (may_overstate a \<or> may_overstate b) \<and> (may_understate a \<or> may_understate b) then UNCERTAIN
      else if may_overstate a \<or> may_overstate b then AT_MOST
      else if may_understate a \<or> may_understate b then AT_LEAST
      else CERTAIN)"

definition bot_access_certainty :: access_certainty where "bot = CERTAIN"
definition top_access_certainty :: access_certainty where "top = UNCERTAIN"

instance
proof
  fix a b c :: access_certainty
  show "(a < b) = (a \<le> b \<and> \<not> b \<le> a)" by (rule less_access_certainty_def)
  show "a \<le> a" by (simp add: less_eq_access_certainty_def)
  show "a \<le> b \<Longrightarrow> b \<le> c \<Longrightarrow> a \<le> c" by (simp add: less_eq_access_certainty_def)
  show "a \<le> b \<Longrightarrow> b \<le> a \<Longrightarrow> a = b"
    by (rule certainty_eqI) (auto simp: less_eq_access_certainty_def)
  show "a \<le> sup a b" "b \<le> sup a b"
    by (simp_all add: less_eq_access_certainty_def sup_access_certainty_def may_overstate_def
        may_understate_def)
  show "b \<le> a \<Longrightarrow> c \<le> a \<Longrightarrow> sup b c \<le> a"
    by (cases a; cases b; cases c)
       (simp_all add: less_eq_access_certainty_def sup_access_certainty_def may_overstate_def
        may_understate_def)
  show "bot \<le> a"
    by (simp add: bot_access_certainty_def less_eq_access_certainty_def may_overstate_def
        may_understate_def)
  show "a \<le> top"
    by (simp add: top_access_certainty_def less_eq_access_certainty_def may_overstate_def
        may_understate_def)
qed

end

lemma certainty_directions:
  "may_overstate (certainty_of fs) \<longleftrightarrow>
     AC_INDETERMINATE_RIGHTS \<in> conditions_of fs \<or> conditions_of fs \<inter> OVERSTATING_CONDITIONS \<noteq> {}"
  "may_understate (certainty_of fs) \<longleftrightarrow>
     AC_INDETERMINATE_RIGHTS \<in> conditions_of fs \<or> conditions_of fs \<inter> UNDERSTATING_CONDITIONS \<noteq> {}"
  by (simp_all add: certainty_of_def Let_def may_overstate_def may_understate_def)

lemma sup_directions:
  "may_overstate (sup a b) \<longleftrightarrow> may_overstate a \<or> may_overstate b"
  "may_understate (sup a b) \<longleftrightarrow> may_understate a \<or> may_understate b"
  by (cases a; cases b; simp add: sup_access_certainty_def may_overstate_def may_understate_def)+

lemma certainty_append: "certainty_of (fs @ gs) = sup (certainty_of fs) (certainty_of gs)"
  by (rule certainty_eqI) (auto simp: certainty_directions sup_directions)

lemma certainty_nil [simp]: "certainty_of [] = bot"
  by (simp add: certainty_of_def bot_access_certainty_def)

subsection \<open>The result\<close>

record effective_access =
  ea_token :: subject_token
  ea_resource_key :: string
  ea_share_key :: "string option"
  ea_path :: access_path
  ea_rights :: rights_mask
  ea_ntfs :: acl_evaluation
  ea_share :: "acl_evaluation option"
  ea_crossed :: "effective_rights_rec option"
  ea_provenance :: acl_provenance
  ea_limiting_layer :: limiting_layer
  ea_certainty :: access_certainty
  ea_findings :: "access_finding list"

definition ea_has_access :: "effective_access \<Rightarrow> bool" where
  "ea_has_access a \<longleftrightarrow> \<not> mask_is_empty (ea_rights a)"

definition ea_ntfs_rights :: "effective_access \<Rightarrow> rights_mask" where
  "ea_ntfs_rights a = ev_rights (ea_ntfs a)"

definition ea_share_rights :: "effective_access \<Rightarrow> rights_mask option" where
  "ea_share_rights a = map_option ev_rights (ea_share a)"

definition ea_grant_entries :: "effective_access \<Rightarrow> acl_entry list" where
  "ea_grant_entries a = map aa_entry (ev_granted_by (ea_ntfs a))
     @ (case ea_share a of None \<Rightarrow> [] | Some s \<Rightarrow> map aa_entry (ev_granted_by s))"

definition ea_deny_entries :: "effective_access \<Rightarrow> acl_entry list" where
  "ea_deny_entries a = map aa_entry (ev_denied_by (ea_ntfs a))
     @ (case ea_share a of None \<Rightarrow> [] | Some s \<Rightarrow> map aa_entry (ev_denied_by s))"

definition ea_conditions :: "effective_access \<Rightarrow> access_condition list" where
  "ea_conditions a = dict_fromkeys (map fi_condition (ea_findings a))"

definition ea_summary :: "effective_access \<Rightarrow> rights_summary" where
  "ea_summary a = summarize (ea_rights a)"

subsection \<open>Resolving\<close>

definition limiting_layer_of :: "effective_rights_rec \<Rightarrow> limiting_layer" where
  "limiting_layer_of crossed =
     (if limited_by_share crossed \<and> limited_by_ntfs crossed then LL_BOTH
      else if limited_by_share crossed then LL_SMB_SHARE
      else if limited_by_ntfs crossed then LL_NTFS
      else LL_NONE)"

definition ntfs_findings :: "acl_evaluation \<Rightarrow> resource_dacl \<Rightarrow> access_finding list" where
  "ntfs_findings ntfs resource =
     (if rd_provenance resource \<noteq> UNOBSERVED then ev_findings ntfs
      else filter (\<lambda>f. fi_condition f \<noteq> AC_EMPTY_DACL) (ev_findings ntfs))"

definition provenance_findings :: "resource_dacl \<Rightarrow> access_finding list" where
  "provenance_findings r =
     (case rd_provenance r of
        OBSERVED \<Rightarrow> []
      | UNOBSERVED \<Rightarrow>
          [finding AC_NTFS_ACL_NOT_OBSERVED [(''resource_key'', DStr (rd_resource_key r))]]
      | DERIVED \<Rightarrow>
          finding AC_NTFS_ACL_DERIVED
            [(''resource_key'', DStr (rd_resource_key r)),
             (''derived_from'', opt_str (rd_derived_from r)),
             (''distance'', opt_int (rd_derived_distance r))]
          # (case rd_derived_distance r of
               None \<Rightarrow> []
             | Some d \<Rightarrow> if d > 1 then
                 [finding AC_INTERMEDIATE_PATH_UNOBSERVED
                   [(''resource_key'', DStr (rd_resource_key r)),
                    (''derived_from'', opt_str (rd_derived_from r)),
                    (''unobserved_levels'', DInt (d - 1))]]
               else []))"

definition unobserved_trustee_findings :: "string list \<Rightarrow> string list \<Rightarrow> access_finding list" where
  "unobserved_trustee_findings trustee_keys known =
     map (\<lambda>key. finding AC_TRUSTEE_MEMBERSHIP_UNOBSERVED [(''trustee_key'', DStr key)])
       (filter (\<lambda>key. key \<notin> set known) (dict_fromkeys trustee_keys))"

text \<open>The escalation finding; the code renders the two-bit flag value as a decimal number.\<close>

definition escalation_findings :: "rights_mask \<Rightarrow> access_finding list" where
  "escalation_findings rights =
     (if mask_escalation_rights rights \<noteq> 0
      then [finding AC_ESCALATION_RIGHTS
             [(''rights'', DStr (dec_string (unat (mask_escalation_rights rights)))),
              (''mask'', DStr (hex_mask (mask_value rights)))]]
      else [])"

text \<open>
  The three ways the share side is settled: no share layer, an observed ACL, one never read. Each
  gives the share evaluation, the crossing, the rights, the limiting layer and the findings it adds.
\<close>

type_synonym crossing =
  "acl_evaluation option \<times> effective_rights_rec option \<times> rights_mask \<times> limiting_layer
   \<times> access_finding list"

definition cross_share :: "subject_token \<Rightarrow> acl_evaluation \<Rightarrow> share_dacl option \<Rightarrow> crossing result" where
  "cross_share token ntfs share =
     (case share of
        None \<Rightarrow>
          res_bind (effective_rights (ev_rights ntfs) (st_access_path token) None) (\<lambda>crossed.
            Inr (None, Some crossed, er_rights crossed, LL_NTFS, []))
      | Some s \<Rightarrow>
          if sh_observed s then
            res_bind (evaluate_acl (sh_entries s) token SMB_SHARE UNOWNED_PRESENT_DACL) (\<lambda>ev.
            res_bind (effective_rights (ev_rights ntfs) (st_access_path token) (Some (ev_rights ev)))
              (\<lambda>crossed. Inr (Some ev, Some crossed, er_rights crossed, limiting_layer_of crossed,
                              ev_findings ev)))
          else
            Inr (None, None, rmask (mask_value (expand_generics (ev_rights ntfs))) EFFECTIVE,
                 LL_UNKNOWN,
                 [finding AC_SHARE_ACL_NOT_OBSERVED [(''share_key'', DStr (sh_share_key s))]]))"

definition resolve_access ::
  "subject_token \<Rightarrow> resource_dacl \<Rightarrow> share_dacl option \<Rightarrow> access_finding list
   \<Rightarrow> effective_access result" where
  "resolve_access token resource share findings =
     (let path = st_access_path token in
      if path = REMOTE_SMB \<and> share = None then Inl (DomainValidationError ''share'')
      else if path = LOCAL \<and> share \<noteq> None then Inl (DomainValidationError ''share'')
      else
        res_bind (evaluate_acl (rd_entries resource) token NTFS (rd_facts resource)) (\<lambda>ntfs.
        res_bind (cross_share token ntfs share) (\<lambda>(share_ev, crossed, rights, limiting, added).
          let collected = st_findings token @ ntfs_findings ntfs resource
                @ provenance_findings resource @ added @ escalation_findings rights @ findings
          in Inr \<lparr>ea_token = token, ea_resource_key = rd_resource_key resource,
                  ea_share_key = map_option sh_share_key share, ea_path = path,
                  ea_rights = rights, ea_ntfs = ntfs, ea_share = share_ev, ea_crossed = crossed,
                  ea_provenance = rd_provenance resource, ea_limiting_layer = limiting,
                  ea_certainty = certainty_of collected, ea_findings = collected\<rparr>)))"

subsection \<open>What one layer grants\<close>

definition layer_grants :: "subject_token \<Rightarrow> dacl_facts \<Rightarrow> acl_entry list \<Rightarrow> nat \<Rightarrow> bool" where
  "layer_grants token facts es n \<longleftrightarrow>
     (if \<not> df_dacl_present facts then bit FILE_ALL_ACCESS n
      else decided (rulings_for token (owner_token_sid_of token facts) (take MAX_ACL_ENTRIES es)) n ALLOW
        \<or> owner_implicit token facts (take MAX_ACL_ENTRIES es) \<and> bit (READ_CONTROL OR WRITE_DAC) n)"

lemma evaluation_grants:
  assumes "evaluate_acl es token layer facts = Inr ev"
  shows "mask_layer (ev_rights ev) = layer"
    and "bit (mask_value (ev_rights ev)) n \<longleftrightarrow> layer_grants token facts es n"
proof -
  have "mask_layer (ev_rights ev) = layer
      \<and> (bit (mask_value (ev_rights ev)) n \<longleftrightarrow> layer_grants token facts es n)"
  proof (cases "df_dacl_present facts")
    case True
    then show ?thesis
      by (simp add: evaluate_acl_present(4) [OF assms True] layer_grants_def bit_or_iff walked_masks
          owner_bits_def)
  next
    case False
    then have "ev = null_dacl layer facts (length es)"
      using assms evaluate_acl_layers [OF assms] evaluate_acl_null by force
    with False show ?thesis by (simp add: null_dacl_def layer_grants_def)
  qed
  then show "mask_layer (ev_rights ev) = layer"
    and "bit (mask_value (ev_rights ev)) n \<longleftrightarrow> layer_grants token facts es n"
    by simp_all
qed

lemma layer_grants_no_generic:
  assumes "n \<in> {28, 29, 30, 31}"
  shows "\<not> layer_grants token facts es n"
proof -
  have "\<not> bit FILE_ALL_ACCESS n" "\<not> bit (READ_CONTROL OR WRITE_DAC) n"
    using assms by (auto simp: FILE_ALL_ACCESS_def READ_CONTROL_def WRITE_DAC_def bit_iff_and_drop_bit_eq_1)
  moreover have "\<not> decided (rulings_for token owner es') n ALLOW" for owner es'
  proof
    assume "decided (rulings_for token owner es') n ALLOW"
    then obtain m where "(ALLOW, m) \<in> set (rulings_for token owner es')" "bit m n"
      using decided_member by blast
    then show False
      using bit_expand_value_high [OF assms] by (auto simp: rulings_for_def entry_bits_def)
  qed
  ultimately show ?thesis by (simp add: layer_grants_def)
qed

lemma evaluation_expanded:
  assumes "evaluate_acl es token layer facts = Inr ev"
  shows "expand_value (mask_value (ev_rights ev)) = mask_value (ev_rights ev)"
  using layer_grants_no_generic
  by (intro expand_value_id) (simp add: no_generic_iff evaluation_grants [OF assms])

text \<open>The crossing, case by case.\<close>

lemma cross_share_none:
  assumes "evaluate_acl es token NTFS facts = Inr ntfs" "st_access_path token = LOCAL"
  shows "cross_share token ntfs None = Inr (None,
      Some \<lparr>er_path = LOCAL, er_rights = rmask (mask_value (ev_rights ntfs)) EFFECTIVE,
            er_ntfs_rights = ev_rights ntfs, er_share_rights = None\<rparr>,
      rmask (mask_value (ev_rights ntfs)) EFFECTIVE, LL_NTFS, [])"
  using assms
  by (simp add: cross_share_def effective_rights_local evaluation_grants evaluation_expanded)

lemma cross_share_unread:
  assumes "evaluate_acl es token NTFS facts = Inr ntfs" "\<not> sh_observed s"
  shows "cross_share token ntfs (Some s) = Inr (None, None,
      rmask (mask_value (ev_rights ntfs)) EFFECTIVE, LL_UNKNOWN,
      [finding AC_SHARE_ACL_NOT_OBSERVED [(''share_key'', DStr (sh_share_key s))]])"
  using assms by (simp add: cross_share_def expand_generics_eq evaluation_expanded)

lemma cross_share_read:
  assumes "evaluate_acl es token NTFS facts = Inr ntfs" "st_access_path token = REMOTE_SMB"
    and "sh_observed s" "evaluate_acl (sh_entries s) token SMB_SHARE UNOWNED_PRESENT_DACL = Inr sev"
  shows "cross_share token ntfs (Some s) =
    (let crossed = \<lparr>er_path = REMOTE_SMB,
            er_rights = rmask (mask_value (ev_rights sev) AND mask_value (ev_rights ntfs)) EFFECTIVE,
            er_ntfs_rights = ev_rights ntfs, er_share_rights = Some (ev_rights sev)\<rparr>
     in Inr (Some sev, Some crossed, er_rights crossed, limiting_layer_of crossed, ev_findings sev))"
  using assms
  by (simp add: cross_share_def effective_rights_remote evaluation_grants evaluation_expanded Let_def)

text \<open>When a call returns, and what it then returns.\<close>

definition layers_fit :: "subject_token \<Rightarrow> resource_dacl \<Rightarrow> share_dacl option \<Rightarrow> bool" where
  "layers_fit token resource share \<longleftrightarrow>
     (st_access_path token = REMOTE_SMB \<longleftrightarrow> share \<noteq> None)
     \<and> (\<forall>e \<in> set (rd_entries resource). ae_layer e = NTFS)
     \<and> (case share of None \<Rightarrow> True
        | Some s \<Rightarrow> sh_observed s \<longrightarrow> (\<forall>e \<in> set (sh_entries s). ae_layer e = SMB_SHARE))"

lemma path_cases: "st_access_path token = LOCAL \<longleftrightarrow> st_access_path token \<noteq> REMOTE_SMB"
  by (cases "st_access_path token") simp_all

lemma resolve_access_returns:
  assumes "layers_fit token resource share"
  obtains ea ntfs rights limiting added where
    "resolve_access token resource share fs = Inr ea"
    and "evaluate_acl (rd_entries resource) token NTFS (rd_facts resource) = Inr ntfs"
    and "ea_ntfs ea = ntfs" and "ea_rights ea = rights" and "ea_limiting_layer ea = limiting"
    and "cross_share token ntfs share = Inr (ea_share ea, ea_crossed ea, rights, limiting, added)"
    and "ea_findings ea = st_findings token @ ntfs_findings ntfs resource
           @ provenance_findings resource @ added @ escalation_findings rights @ fs"
    and "ea_certainty ea = certainty_of (ea_findings ea)"
    and "ea_token ea = token" and "ea_path ea = st_access_path token"
    and "ea_provenance ea = rd_provenance resource"
proof -
  obtain ntfs where ntfs: "evaluate_acl (rd_entries resource) token NTFS (rd_facts resource) = Inr ntfs"
    using assms by (auto simp: layers_fit_def intro: evaluate_acl_returns)
  have "\<exists>x. cross_share token ntfs share = Inr x"
  proof (cases share)
    case None
    then show ?thesis
      using assms cross_share_none [OF ntfs] by (simp add: layers_fit_def path_cases)
  next
    case (Some s)
    show ?thesis
    proof (cases "sh_observed s")
      case True
      then obtain sev where "evaluate_acl (sh_entries s) token SMB_SHARE UNOWNED_PRESENT_DACL = Inr sev"
        using assms Some by (auto simp: layers_fit_def intro: evaluate_acl_returns)
      then show ?thesis
        using assms Some True cross_share_read [OF ntfs] by (simp add: layers_fit_def Let_def)
    next
      case False
      then show ?thesis using Some cross_share_unread [OF ntfs] by simp
    qed
  qed
  then obtain sev crossed rights limiting added where
    cross: "cross_share token ntfs share = Inr (sev, crossed, rights, limiting, added)"
    by (metis prod_cases5)
  show thesis
    using assms ntfs cross
    by (intro that [of "\<lparr>ea_token = token, ea_resource_key = rd_resource_key resource,
          ea_share_key = map_option sh_share_key share, ea_path = st_access_path token,
          ea_rights = rights, ea_ntfs = ntfs, ea_share = sev, ea_crossed = crossed,
          ea_provenance = rd_provenance resource, ea_limiting_layer = limiting,
          ea_certainty = certainty_of (st_findings token @ ntfs_findings ntfs resource
             @ provenance_findings resource @ added @ escalation_findings rights @ fs),
          ea_findings = st_findings token @ ntfs_findings ntfs resource
             @ provenance_findings resource @ added @ escalation_findings rights @ fs\<rparr>"
          ntfs rights limiting added])
       (auto simp: resolve_access_def layers_fit_def path_cases Let_def)
qed

lemma resolve_access_errors_iff:
  "resolve_access token resource share fs = Inl err \<longleftrightarrow>
     (st_access_path token = REMOTE_SMB) \<noteq> (share \<noteq> None) \<and> err = DomainValidationError ''share''
     \<or> (st_access_path token = REMOTE_SMB) = (share \<noteq> None) \<and> \<not> layers_fit token resource share
       \<and> err = DomainValidationError ''entries''"
proof (cases "layers_fit token resource share")
  case True
  then obtain ea where "resolve_access token resource share fs = Inr ea"
    by (rule resolve_access_returns)
  with True show ?thesis by (simp add: layers_fit_def)
next
  case unfit: False
  show ?thesis
  proof (cases "(st_access_path token = REMOTE_SMB) = (share \<noteq> None)")
    case False
    then show ?thesis by (cases share) (auto simp: resolve_access_def path_cases Let_def)
  next
    case fits: True
    show ?thesis
    proof (cases "\<exists>e \<in> set (rd_entries resource). ae_layer e \<noteq> NTFS")
      case True
      then have "evaluate_acl (rd_entries resource) token NTFS (rd_facts resource)
          = Inl (DomainValidationError ''entries'')"
        by (simp add: evaluate_acl_errors_iff)
      with fits unfit show ?thesis
        by (cases share) (auto simp: resolve_access_def path_cases Let_def)
    next
      case False
      with unfit fits obtain s where s: "share = Some s" "sh_observed s"
        "\<exists>e \<in> set (sh_entries s). ae_layer e \<noteq> SMB_SHARE"
        by (auto simp: layers_fit_def split: option.splits)
      then have sev: "evaluate_acl (sh_entries s) token SMB_SHARE UNOWNED_PRESENT_DACL
          = Inl (DomainValidationError ''entries'')"
        by (simp add: evaluate_acl_errors_iff)
      obtain ntfs where "evaluate_acl (rd_entries resource) token NTFS (rd_facts resource) = Inr ntfs"
        using False by (auto intro: evaluate_acl_returns)
      with fits unfit s sev show ?thesis
        by (auto simp: resolve_access_def cross_share_def path_cases Let_def)
    qed
  qed
qed

lemma resolve_access_fits:
  assumes "resolve_access token resource share fs = Inr ea"
  shows "layers_fit token resource share"
proof (rule ccontr)
  assume unfit: "\<not> layers_fit token resource share"
  let ?err = "if (st_access_path token = REMOTE_SMB) = (share \<noteq> None)
    then DomainValidationError ''entries'' else DomainValidationError ''share''"
  have "resolve_access token resource share fs = Inl ?err"
    unfolding resolve_access_errors_iff using unfit by simp
  with assms show False by simp
qed

lemma cross_share_rights:
  assumes "evaluate_acl es token NTFS facts = Inr ntfs"
    and "st_access_path token = REMOTE_SMB \<longleftrightarrow> share \<noteq> None"
    and "cross_share token ntfs share = Inr (sev, crossed, rights, limiting, added)"
  shows "mask_layer rights = EFFECTIVE"
    and "bit (mask_value rights) n \<longleftrightarrow> layer_grants token facts es n
      \<and> (case share of None \<Rightarrow> True
         | Some s \<Rightarrow> sh_observed s \<longrightarrow> layer_grants token UNOWNED_PRESENT_DACL (sh_entries s) n)"
proof -
  have "mask_layer rights = EFFECTIVE \<and> (bit (mask_value rights) n \<longleftrightarrow> layer_grants token facts es n
      \<and> (case share of None \<Rightarrow> True
         | Some s \<Rightarrow> sh_observed s \<longrightarrow> layer_grants token UNOWNED_PRESENT_DACL (sh_entries s) n))"
  proof (cases share)
    case None
    then show ?thesis
      using assms(2,3) cross_share_none [OF assms(1)]
      by (auto simp: path_cases evaluation_grants [OF assms(1)])
  next
    case (Some s)
    show ?thesis
    proof (cases "sh_observed s")
      case True
      obtain sv where sv: "evaluate_acl (sh_entries s) token SMB_SHARE UNOWNED_PRESENT_DACL = Inr sv"
        using assms(3) Some True
        by (cases "evaluate_acl (sh_entries s) token SMB_SHARE UNOWNED_PRESENT_DACL")
           (auto simp: cross_share_def)
      then show ?thesis
        using assms(2,3) Some True cross_share_read [OF assms(1) _ True sv]
        by (auto simp: Let_def bit_and_iff evaluation_grants [OF assms(1)] evaluation_grants [OF sv])
    next
      case False
      then show ?thesis
        using assms(3) Some cross_share_unread [OF assms(1) False]
        by (auto simp: evaluation_grants [OF assms(1)])
    qed
  qed
  then show "mask_layer rights = EFFECTIVE"
    and "bit (mask_value rights) n \<longleftrightarrow> layer_grants token facts es n
      \<and> (case share of None \<Rightarrow> True
         | Some s \<Rightarrow> sh_observed s \<longrightarrow> layer_grants token UNOWNED_PRESENT_DACL (sh_entries s) n)"
    by simp_all
qed

text \<open>The parts of a call that returned.\<close>

lemma resolve_access_parts:
  assumes "resolve_access token resource share fs = Inr ea"
  obtains added where
    "evaluate_acl (rd_entries resource) token NTFS (rd_facts resource) = Inr (ea_ntfs ea)"
    and "cross_share token (ea_ntfs ea) share
           = Inr (ea_share ea, ea_crossed ea, ea_rights ea, ea_limiting_layer ea, added)"
    and "ea_findings ea = st_findings token @ ntfs_findings (ea_ntfs ea) resource
           @ provenance_findings resource @ added @ escalation_findings (ea_rights ea) @ fs"
    and "ea_certainty ea = certainty_of (ea_findings ea)"
    and "ea_token ea = token"
    and "st_access_path token = REMOTE_SMB \<longleftrightarrow> share \<noteq> None"
proof (rule resolve_access_returns [OF resolve_access_fits [OF assms], of fs])
  fix ea' ntfs rights limiting added
  assume "resolve_access token resource share fs = Inr ea'"
    and "evaluate_acl (rd_entries resource) token NTFS (rd_facts resource) = Inr ntfs"
    and "ea_ntfs ea' = ntfs" "ea_rights ea' = rights" "ea_limiting_layer ea' = limiting"
    and "cross_share token ntfs share = Inr (ea_share ea', ea_crossed ea', rights, limiting, added)"
    and "ea_findings ea' = st_findings token @ ntfs_findings ntfs resource
           @ provenance_findings resource @ added @ escalation_findings rights @ fs"
    and "ea_certainty ea' = certainty_of (ea_findings ea')" "ea_token ea' = token"
  moreover have "st_access_path token = REMOTE_SMB \<longleftrightarrow> share \<noteq> None"
    using resolve_access_fits [OF assms] by (simp add: layers_fit_def)
  ultimately show thesis
    using assms by (intro that [of added]) auto
qed

lemma escalation_condition:
  "conditions_of (escalation_findings r)
     = (if mask_value r AND (WRITE_DAC OR WRITE_OWNER) = 0 then {} else {AC_ESCALATION_RIGHTS})"
proof -
  have "mask_escalation_rights r = mask_value r AND (WRITE_DAC OR WRITE_OWNER)"
    by (simp add: mask_escalation_rights_def mask_rights_def known_ntfs_rights ESCALATION_RIGHTS_def
        WRITE_DAC_def WRITE_OWNER_def and.assoc)
  then show ?thesis by (simp add: escalation_findings_def)
qed

lemma escalation_bits: "v AND (WRITE_DAC OR WRITE_OWNER) \<noteq> 0 \<longleftrightarrow> bit v 18 \<or> bit v 19"
proof -
  have "v AND (WRITE_DAC OR WRITE_OWNER) = 0 \<longleftrightarrow> v AND WRITE_DAC = 0 \<and> v AND WRITE_OWNER = 0"
    by (auto simp: mask_zero_iff bit_and_iff bit_or_iff)
  moreover have "v AND WRITE_DAC \<noteq> 0 \<longleftrightarrow> bit v 18"
    using and_single_nonzero [of 18 v] by (simp add: WRITE_DAC_def)
  moreover have "v AND WRITE_OWNER \<noteq> 0 \<longleftrightarrow> bit v 19"
    using and_single_nonzero [of 19 v] by (simp add: WRITE_OWNER_def)
  ultimately show ?thesis by blast
qed

lemma evaluation_no_resolver_condition:
  assumes "evaluate_acl es token layer facts = Inr ev"
    and "c \<in> {AC_ESCALATION_RIGHTS, AC_NTFS_ACL_NOT_OBSERVED, AC_NTFS_ACL_DERIVED,
      AC_INTERMEDIATE_PATH_UNOBSERVED, AC_SHARE_ACL_NOT_OBSERVED}"
  shows "c \<notin> ev_conditions ev"
proof (cases "df_dacl_present facts")
  case True
  have "c \<notin> conditions_of (descriptor_findings supplied es' facts vs r d)" for supplied es' vs r d
    using assms(2) by (auto simp: descriptor_findings_def split: option.splits)
  moreover have "c \<notin> walk_conditions \<union> {AC_INDETERMINATE_RIGHTS, AC_UNRECOGNIZED_RIGHTS_BITS}"
    using assms(2) by (auto simp: walk_conditions_def)
  ultimately show ?thesis by (simp add: present_condition_iff [OF assms(1) True])
next
  case False
  then have "ev = null_dacl layer facts (length es)"
    using assms(1) evaluate_acl_layers [OF assms(1)] evaluate_acl_null by force
  with assms(2) show ?thesis by (auto simp: null_dacl_def ev_conditions_def)
qed

lemma conditions_of_ntfs_findings:
  "conditions_of (ntfs_findings ev resource)
     = ev_conditions ev - (if rd_provenance resource = UNOBSERVED then {AC_EMPTY_DACL} else {})"
  by (auto simp: ntfs_findings_def ev_conditions_def conditions_of_def)

lemma conditions_of_provenance_findings:
  "conditions_of (provenance_findings r)
     = (case rd_provenance r of OBSERVED \<Rightarrow> {} | UNOBSERVED \<Rightarrow> {AC_NTFS_ACL_NOT_OBSERVED}
        | DERIVED \<Rightarrow> insert AC_NTFS_ACL_DERIVED
            (case rd_derived_distance r of None \<Rightarrow> {}
             | Some d \<Rightarrow> if d > 1 then {AC_INTERMEDIATE_PATH_UNOBSERVED} else {}))"
  by (simp add: provenance_findings_def split: acl_provenance.splits option.splits)

lemma cross_share_added:
  assumes "cross_share token ntfs share = Inr (sev, crossed, rights, limiting, added)"
  shows "case share of None \<Rightarrow> added = [] \<and> sev = None \<and> limiting = LL_NTFS
    | Some s \<Rightarrow>
        if sh_observed s
        then (\<exists>ev c. evaluate_acl (sh_entries s) token SMB_SHARE UNOWNED_PRESENT_DACL = Inr ev
          \<and> sev = Some ev \<and> added = ev_findings ev \<and> crossed = Some c \<and> limiting = limiting_layer_of c
          \<and> effective_rights (ev_rights ntfs) (st_access_path token) (Some (ev_rights ev)) = Inr c)
        else sev = None \<and> limiting = LL_UNKNOWN \<and> conditions_of added = {AC_SHARE_ACL_NOT_OBSERVED}"
  using assms
  by (auto simp: cross_share_def result_simps split: option.splits if_splits)

lemma no_escalation_added:
  assumes "cross_share token ntfs share = Inr (sev, crossed, rights, limiting, added)"
  shows "AC_ESCALATION_RIGHTS \<notin> conditions_of added"
proof (cases share)
  case None
  then show ?thesis using cross_share_added [OF assms] by simp
next
  case (Some s)
  show ?thesis
  proof (cases "sh_observed s")
    case True
    then obtain ev where "evaluate_acl (sh_entries s) token SMB_SHARE UNOWNED_PRESENT_DACL = Inr ev"
      and "added = ev_findings ev"
      using cross_share_added [OF assms] Some by auto
    then show ?thesis
      using evaluation_no_resolver_condition [of _ _ _ _ ev AC_ESCALATION_RIGHTS]
      by (simp add: ev_conditions_def)
  next
    case False
    then show ?thesis using cross_share_added [OF assms] Some by simp
  qed
qed

subsection \<open>A small concrete resolution\<close>

definition sample_resource :: "32 word \<Rightarrow> acl_provenance \<Rightarrow> resource_dacl" where
  "sample_resource bits provenance =
     \<lparr>rd_resource_key = ''r'', rd_entries = [sample_entry ALLOW EXPLICIT bits NTFS],
      rd_dacl_present = True, rd_dacl_protected = False, rd_owner_sid = None, rd_owner_key = None,
      rd_declared_ace_count = None, rd_provenance = provenance,
      rd_derived_from = (if provenance = DERIVED then Some ''p'' else None), rd_derived_distance = None\<rparr>"

definition sample_share :: "ace_type \<Rightarrow> 32 word \<Rightarrow> bool \<Rightarrow> share_dacl" where
  "sample_share kind bits observed = \<lparr>sh_share_key = ''s'',
     sh_entries = (if observed then [sample_entry kind EXPLICIT bits SMB_SHARE] else []),
     sh_observed = observed\<rparr>"

lemma sample_resource_simps [simp]:
  "rd_entries (sample_resource b p) = [sample_entry ALLOW EXPLICIT b NTFS]"
  "rd_facts (sample_resource b p) = UNOWNED_PRESENT_DACL" "rd_provenance (sample_resource b p) = p"
  by (simp_all add: sample_resource_def rd_facts_def UNOWNED_PRESENT_DACL_def)

lemma sample_share_simps [simp]:
  "sh_observed (sample_share k b ob) = ob"
  "sh_entries (sample_share k b True) = [sample_entry k EXPLICIT b SMB_SHARE]"
  "sh_entries (sample_share k b False) = []"
  by (simp_all add: sample_share_def)

lemma sample_path [simp]: "st_access_path (sample_token path) = path" "st_findings (sample_token path) = []"
  by (simp_all add: sample_token_def)

lemma sample_resolves:
  obtains ea where "resolve_access (sample_token REMOTE_SMB) (sample_resource b p)
    (Some (sample_share k c ob)) [] = Inr ea"
proof (rule resolve_access_returns)
  show "layers_fit (sample_token REMOTE_SMB) (sample_resource b p) (Some (sample_share k c ob))"
    by (cases ob) (simp_all add: layers_fit_def)
qed

lemma sample_grants:
  "layer_grants (sample_token path) UNOWNED_PRESENT_DACL [sample_entry k src b l] n
     \<longleftrightarrow> k = ALLOW \<and> bit (expand_value b) n"
  by (simp add: layer_grants_def MAX_ACL_ENTRIES_def sample_rulings) blast

subsection \<open>Properties\<close>

text \<open>
  C2. End to end: the rights a resolution reports are exactly the rights that the file-system DACL
  grants the token and, for a share whose ACL was read, that the share ACL grants it too. An unread
  share narrows nothing, and a local question never consults one.
\<close>

theorem effective_access_is_intersection:
  assumes "resolve_access token resource share fs = Inr ea"
  shows "mask_layer (ea_rights ea) = EFFECTIVE
    \<and> (\<forall>n. bit (mask_value (ea_rights ea)) n \<longleftrightarrow>
        layer_grants token (rd_facts resource) (rd_entries resource) n
        \<and> (case share of None \<Rightarrow> True
           | Some s \<Rightarrow> sh_observed s \<longrightarrow> layer_grants token UNOWNED_PRESENT_DACL (sh_entries s) n))"
proof (rule resolve_access_parts [OF assms])
  fix added
  assume ntfs: "evaluate_acl (rd_entries resource) token NTFS (rd_facts resource) = Inr (ea_ntfs ea)"
    and cross: "cross_share token (ea_ntfs ea) share
      = Inr (ea_share ea, ea_crossed ea, ea_rights ea, ea_limiting_layer ea, added)"
    and path: "st_access_path token = REMOTE_SMB \<longleftrightarrow> share \<noteq> None"
  from cross_share_rights [OF ntfs path cross] show ?thesis by simp
qed

lemma effective_access_is_intersection_witness:
  "\<exists>ea. resolve_access (sample_token REMOTE_SMB) (sample_resource 1 OBSERVED) (Some (sample_share ALLOW 1 True)) [] = Inr ea
     \<and> bit (mask_value (ea_rights ea)) 0"
proof (rule sample_resolves)
  fix ea
  assume ea: "resolve_access (sample_token REMOTE_SMB) (sample_resource 1 OBSERVED) (Some (sample_share ALLOW 1 True)) [] = Inr ea"
  with effective_access_is_intersection [OF ea] show ?thesis
    by (simp add: sample_grants)
qed

text \<open>
  C40. A resolution fails exactly when the share side does not fit the path (required for a remote
  question, refused for a local one) or when an entry sits on the wrong layer; an entry on an unread
  share cannot make it fail.
\<close>

theorem resolve_access_errors:
  "resolve_access token resource share fs = Inl err \<longleftrightarrow>
     (st_access_path token = REMOTE_SMB) \<noteq> (share \<noteq> None) \<and> err = DomainValidationError ''share''
     \<or> (st_access_path token = REMOTE_SMB) = (share \<noteq> None)
       \<and> ((\<exists>e \<in> set (rd_entries resource). ae_layer e \<noteq> NTFS)
          \<or> (\<exists>s. share = Some s \<and> sh_observed s \<and> (\<exists>e \<in> set (sh_entries s). ae_layer e \<noteq> SMB_SHARE)))
       \<and> err = DomainValidationError ''entries''"
  by (cases share) (auto simp: resolve_access_errors_iff layers_fit_def)

text \<open>
  Ability to change permissions is never silent: the escalation condition is on a resolution, in
  either access path, exactly when WRITE_DAC or WRITE_OWNER survived both layers. A layer alone does
  not raise it.
\<close>

theorem escalation_reported_iff_effective:
  assumes "resolve_access token resource share fs = Inr ea"
    and "AC_ESCALATION_RIGHTS \<notin> conditions_of (st_findings token @ fs)"
  shows "AC_ESCALATION_RIGHTS \<in> set (ea_conditions ea)
    \<longleftrightarrow> bit (mask_value (ea_rights ea)) 18 \<or> bit (mask_value (ea_rights ea)) 19"
proof (rule resolve_access_parts [OF assms(1)])
  fix added
  assume ntfs: "evaluate_acl (rd_entries resource) token NTFS (rd_facts resource) = Inr (ea_ntfs ea)"
    and cross: "cross_share token (ea_ntfs ea) share
      = Inr (ea_share ea, ea_crossed ea, ea_rights ea, ea_limiting_layer ea, added)"
    and found: "ea_findings ea = st_findings token @ ntfs_findings (ea_ntfs ea) resource
           @ provenance_findings resource @ added @ escalation_findings (ea_rights ea) @ fs"
  have "AC_ESCALATION_RIGHTS \<notin> conditions_of (ntfs_findings (ea_ntfs ea) resource)"
    using evaluation_no_resolver_condition [OF ntfs, of AC_ESCALATION_RIGHTS]
    by (simp add: conditions_of_ntfs_findings)
  moreover have "AC_ESCALATION_RIGHTS \<notin> conditions_of (provenance_findings resource)"
    by (simp add: conditions_of_provenance_findings split: acl_provenance.splits option.splits)
  ultimately have "AC_ESCALATION_RIGHTS \<in> conditions_of (ea_findings ea)
      \<longleftrightarrow> mask_value (ea_rights ea) AND (WRITE_DAC OR WRITE_OWNER) \<noteq> 0"
    using assms(2) no_escalation_added [OF cross] by (simp add: found escalation_condition)
  then show ?thesis by (simp add: ea_conditions_def conditions_of_def escalation_bits)
qed

lemma escalation_reported_iff_effective_witness:
  "\<exists>ea. resolve_access (sample_token REMOTE_SMB) (sample_resource 1 OBSERVED)
        (Some (sample_share ALLOW 1 True)) [] = Inr ea
     \<and> (AC_ESCALATION_RIGHTS \<in> set (ea_conditions ea)
        \<longleftrightarrow> bit (mask_value (ea_rights ea)) 18 \<or> bit (mask_value (ea_rights ea)) 19)"
proof (rule sample_resolves)
  fix ea
  assume ea: "resolve_access (sample_token REMOTE_SMB) (sample_resource 1 OBSERVED)
        (Some (sample_share ALLOW 1 True)) [] = Inr ea"
  with escalation_reported_iff_effective [OF ea] show ?thesis by simp
qed

lemma unread_widens:
  assumes "resolve_access token resource share fs = Inr ea"
  shows "(rd_provenance resource = UNOBSERVED \<longrightarrow> may_understate (ea_certainty ea)
        \<and> AC_EMPTY_DACL \<notin> conditions_of (ntfs_findings (ea_ntfs ea) resource))
    \<and> (rd_provenance resource = DERIVED \<longrightarrow> may_overstate (ea_certainty ea))
    \<and> (\<forall>s. share = Some s \<and> \<not> sh_observed s \<longrightarrow> may_overstate (ea_certainty ea)
        \<and> ea_limiting_layer ea = LL_UNKNOWN \<and> ea_share ea = None)"
proof (rule resolve_access_parts [OF assms])
  fix added
  assume cross: "cross_share token (ea_ntfs ea) share
      = Inr (ea_share ea, ea_crossed ea, ea_rights ea, ea_limiting_layer ea, added)"
    and found: "ea_findings ea = st_findings token @ ntfs_findings (ea_ntfs ea) resource
           @ provenance_findings resource @ added @ escalation_findings (ea_rights ea) @ fs"
    and cert: "ea_certainty ea = certainty_of (ea_findings ea)"
  have in_prov: "c \<in> conditions_of (ea_findings ea)"
    if "c \<in> conditions_of (provenance_findings resource)" for c
    using that by (simp add: found)
  have in_added: "c \<in> conditions_of (ea_findings ea)" if "c \<in> conditions_of added" for c
    using that by (simp add: found)
  have "may_understate (ea_certainty ea)" if "rd_provenance resource = UNOBSERVED"
    using in_prov [of AC_NTFS_ACL_NOT_OBSERVED] that
    by (auto simp: cert certainty_directions conditions_of_provenance_findings UNDERSTATING_CONDITIONS_def)
  moreover have "may_overstate (ea_certainty ea)" if "rd_provenance resource = DERIVED"
    using in_prov [of AC_NTFS_ACL_DERIVED] that
    by (auto simp: cert certainty_directions conditions_of_provenance_findings OVERSTATING_CONDITIONS_def)
  moreover have "may_overstate (ea_certainty ea) \<and> ea_limiting_layer ea = LL_UNKNOWN \<and> ea_share ea = None"
    if "share = Some s" "\<not> sh_observed s" for s
    using in_added [of AC_SHARE_ACL_NOT_OBSERVED] cross_share_added [OF cross] that
    by (auto simp: cert certainty_directions OVERSTATING_CONDITIONS_def)
  ultimately show ?thesis by (simp add: conditions_of_ntfs_findings)
qed

text \<open>
  What was not read is never a conclusion. A descriptor nobody read leaves a lower bound and is
  not reported as empty; a share ACL nobody read, or a projected descriptor, leaves an upper bound;
  and the limiting layer of an unread share is unknown.
\<close>

theorem unread_is_never_conclusive:
  assumes "resolve_access token resource share fs = Inr ea"
  shows "(rd_provenance resource = UNOBSERVED \<longrightarrow> may_understate (ea_certainty ea)
        \<and> AC_EMPTY_DACL \<notin> conditions_of (ntfs_findings (ea_ntfs ea) resource))
    \<and> (rd_provenance resource = DERIVED \<longrightarrow> may_overstate (ea_certainty ea))
    \<and> (\<forall>s. share = Some s \<and> \<not> sh_observed s \<longrightarrow> may_overstate (ea_certainty ea)
        \<and> ea_limiting_layer ea = LL_UNKNOWN \<and> ea_share ea = None)"
  using unread_widens [OF assms] .

lemma unread_is_never_conclusive_witness:
  "\<exists>ea. resolve_access (sample_token REMOTE_SMB) (sample_resource 1 UNOBSERVED) (Some (sample_share ALLOW 1 False)) [] = Inr ea
     \<and> may_understate (ea_certainty ea) \<and> may_overstate (ea_certainty ea)"
proof (rule sample_resolves)
  fix ea
  assume ea: "resolve_access (sample_token REMOTE_SMB) (sample_resource 1 UNOBSERVED) (Some (sample_share ALLOW 1 False)) [] = Inr ea"
  with unread_is_never_conclusive [OF ea] show ?thesis
    by (simp add: sample_grants)
qed

text \<open>
  Findings the caller adds never change the rights and never make an answer more certain: the
  certainty of the longer list is the join of the two, in the order where UNCERTAIN is the top.
\<close>

theorem caller_findings_only_widen:
  assumes "resolve_access token resource share fs = Inr ea"
  shows "\<exists>ea'. resolve_access token resource share (fs @ gs) = Inr ea' \<and> ea_rights ea' = ea_rights ea
    \<and> ea_certainty ea' = sup (ea_certainty ea) (certainty_of gs) \<and> ea_certainty ea \<le> ea_certainty ea'"
proof (rule resolve_access_parts [OF assms])
  fix added
  assume ntfs: "evaluate_acl (rd_entries resource) token NTFS (rd_facts resource) = Inr (ea_ntfs ea)"
    and cross: "cross_share token (ea_ntfs ea) share
      = Inr (ea_share ea, ea_crossed ea, ea_rights ea, ea_limiting_layer ea, added)"
    and found: "ea_findings ea = st_findings token @ ntfs_findings (ea_ntfs ea) resource
           @ provenance_findings resource @ added @ escalation_findings (ea_rights ea) @ fs"
    and cert: "ea_certainty ea = certainty_of (ea_findings ea)"
  show ?thesis
  proof (rule resolve_access_returns [OF resolve_access_fits [OF assms], of "fs @ gs"])
    fix ea' ntfs' rights' limiting' added'
    assume ea': "resolve_access token resource share (fs @ gs) = Inr ea'"
      and "evaluate_acl (rd_entries resource) token NTFS (rd_facts resource) = Inr ntfs'"
      and "cross_share token ntfs' share = Inr (ea_share ea', ea_crossed ea', rights', limiting', added')"
      and r: "ea_rights ea' = rights'"
      and f: "ea_findings ea' = st_findings token @ ntfs_findings ntfs' resource
           @ provenance_findings resource @ added' @ escalation_findings rights' @ fs @ gs"
      and c: "ea_certainty ea' = certainty_of (ea_findings ea')"
    with ntfs cross have same: "rights' = ea_rights ea" "added' = added" "ntfs' = ea_ntfs ea"
      by auto
    have "ea_findings ea' = ea_findings ea @ gs" unfolding f found same by simp
    then have "ea_certainty ea' = sup (ea_certainty ea) (certainty_of gs)"
      unfolding c cert by (simp only: certainty_append)
    with ea' r same show ?thesis by simp
  qed
qed

lemma caller_findings_only_widen_witness:
  "\<exists>ea ea'. resolve_access (sample_token REMOTE_SMB) (sample_resource 1 OBSERVED)
        (Some (sample_share ALLOW 1 True)) [] = Inr ea
     \<and> resolve_access (sample_token REMOTE_SMB) (sample_resource 1 OBSERVED)
        (Some (sample_share ALLOW 1 True)) [finding AC_MEMBERSHIP_TRUNCATED []] = Inr ea'
     \<and> ea_certainty ea' = sup (ea_certainty ea) AT_LEAST"
proof (rule sample_resolves)
  fix ea
  assume ea: "resolve_access (sample_token REMOTE_SMB) (sample_resource 1 OBSERVED)
        (Some (sample_share ALLOW 1 True)) [] = Inr ea"
  have "certainty_of [finding AC_MEMBERSHIP_TRUNCATED []] = AT_LEAST"
    by (simp add: certainty_of_def OVERSTATING_CONDITIONS_def UNDERSTATING_CONDITIONS_def)
  with ea caller_findings_only_widen [OF ea, of "[finding AC_MEMBERSHIP_TRUNCATED []]"] show ?thesis
    by auto
qed

text \<open>
  The limiting layer of a remote question over two ACLs that were read compares the rights each
  grants: NONE when they are equal, the layer that grants strictly less when they are nested, BOTH
  when each withholds something; so NTFS or NONE means the answer is the NTFS rights.
\<close>

theorem limiting_layer_spec:
  assumes "resolve_access token resource (Some s) fs = Inr ea" and "sh_observed s"
  shows "\<exists>sh. ea_share_rights ea = Some sh \<and>
     (let n = mask_value (ea_ntfs_rights ea); v = mask_value sh in
       ea_limiting_layer ea =
         (if n = v then LL_NONE else if submask v n then LL_SMB_SHARE
          else if submask n v then LL_NTFS else LL_BOTH)
       \<and> (ea_limiting_layer ea \<in> {LL_NONE, LL_NTFS} \<longrightarrow> mask_value (ea_rights ea) = n))"
proof (rule resolve_access_parts [OF assms(1)])
  fix added
  assume ntfs: "evaluate_acl (rd_entries resource) token NTFS (rd_facts resource) = Inr (ea_ntfs ea)"
    and cross: "cross_share token (ea_ntfs ea) (Some s)
      = Inr (ea_share ea, ea_crossed ea, ea_rights ea, ea_limiting_layer ea, added)"
    and "st_access_path token = REMOTE_SMB \<longleftrightarrow> Some s \<noteq> None"
  then have path: "st_access_path token = REMOTE_SMB" by simp
  obtain sev where sev: "evaluate_acl (sh_entries s) token SMB_SHARE UNOWNED_PRESENT_DACL = Inr sev"
    using cross_share_added [OF cross] assms(2) by auto
  let ?n = "mask_value (ev_rights (ea_ntfs ea))"
  let ?v = "mask_value (ev_rights sev)"
  have diff: "a AND NOT b = 0 \<longleftrightarrow> submask a b" for a b :: "32 word"
    by (auto simp: mask_zero_iff bit_diff submask_iff)
  let ?c = "\<lparr>er_path = REMOTE_SMB, er_rights = rmask (?v AND ?n) EFFECTIVE,
      er_ntfs_rights = ev_rights (ea_ntfs ea), er_share_rights = Some (ev_rights sev)\<rparr>"
  have "Inr (ea_share ea, ea_crossed ea, ea_rights ea, ea_limiting_layer ea, added)
      = (Inr (Some sev, Some ?c, er_rights ?c, limiting_layer_of ?c, ev_findings sev) :: crossing result)"
    using cross cross_share_read [OF ntfs path assms(2) sev] unfolding Let_def by metis
  then have share: "ea_share ea = Some sev" and rights: "mask_value (ea_rights ea) = ?v AND ?n"
    and "ea_limiting_layer ea = limiting_layer_of ?c"
    by simp_all
  then have lim: "ea_limiting_layer ea = (if \<not> submask ?n ?v \<and> \<not> submask ?v ?n then LL_BOTH
      else if \<not> submask ?n ?v then LL_SMB_SHARE else if \<not> submask ?v ?n then LL_NTFS else LL_NONE)"
    by (simp only: limiting_layer_of_def limited_by_share_def limited_by_ntfs_def diff option.case
        effective_rights_rec.simps)
  have "mask_value (ea_rights ea) = ?n" if "submask ?n ?v"
    using that by (simp add: rights submask_def and.commute)
  then show ?thesis
    using lim share submask_antisym
    by (auto simp: ea_share_rights_def ea_ntfs_rights_def Let_def split: if_splits)
qed

lemma limiting_layer_spec_witness:
  "\<exists>ea sh. resolve_access (sample_token REMOTE_SMB) (sample_resource 1 OBSERVED)
        (Some (sample_share ALLOW 1 True)) [] = Inr ea
     \<and> ea_share_rights ea = Some sh
     \<and> (mask_value (ea_ntfs_rights ea) = mask_value sh \<longrightarrow> ea_limiting_layer ea = LL_NONE)"
proof (rule sample_resolves)
  fix ea
  assume ea: "resolve_access (sample_token REMOTE_SMB) (sample_resource 1 OBSERVED)
        (Some (sample_share ALLOW 1 True)) [] = Inr ea"
  from limiting_layer_spec [OF ea] obtain sh where "ea_share_rights ea = Some sh"
    "mask_value (ea_ntfs_rights ea) = mask_value sh \<longrightarrow> ea_limiting_layer ea = LL_NONE"
    by (auto simp: Let_def)
  with ea show ?thesis by blast
qed

end
