(* ===== verification/Adg_Verdict.thy ===== *)
theory Adg_Verdict
  imports Adg_Resolver
begin

unbundle bit_operations_syntax

section \<open>Verdicts (app/access_engine/verdict.py)\<close>

text \<open>
  The reduction of one resolved answer to one of four outcomes, with the sentence that goes with it
  on this evidence. The sentence tables are the source's; the lookup that could raise a
  \<open>KeyError\<close> returns an option, and \<open>describe_verdict\<close> is a result.
\<close>

datatype access_outcome = OUT_GRANTED | OUT_DENIED | OUT_NO_GRANT | OUT_INDETERMINATE

definition UNDERSTATING_CERTAINTIES :: "access_certainty set" where
  "UNDERSTATING_CERTAINTIES = {AT_LEAST, UNCERTAIN}"

primrec OUTCOME_DESCRIPTIONS :: "access_outcome \<Rightarrow> string" where
  "OUTCOME_DESCRIPTIONS OUT_GRANTED =
     ''This identity holds rights on this object.''"
| "OUTCOME_DESCRIPTIONS OUT_DENIED =
     ''This identity holds no rights here because a Deny entry withheld them. The Deny is on an ACL and can be found, changed, or relied upon.''"
| "OUTCOME_DESCRIPTIONS OUT_NO_GRANT =
     ''This identity holds no rights here and nothing denied any. No entry on either ACL names it with anything to give.''"
| "OUTCOME_DESCRIPTIONS OUT_INDETERMINATE =
     ''No rights were established, and what ADG has collected is incomplete in a way that could hide a grant. This is not a finding of no access; it is a gap in collection, and the answer must not be read as a negative.''"

text \<open>Keyed by (NTFS granted, share granted); the missing key would be a \<open>KeyError\<close>.\<close>

fun NO_GRANT_BETWEEN_LAYERS :: "bool \<times> bool \<Rightarrow> string option" where
  "NO_GRANT_BETWEEN_LAYERS (True, False) = Some
     (''This identity holds no rights here and nothing denied any. The NTFS permissions grant it rights, but the share permissions give it none, so nothing survives both layers.'')"
| "NO_GRANT_BETWEEN_LAYERS (False, True) = Some
     (''This identity holds no rights here and nothing denied any. The share permissions grant it rights, but the NTFS permissions give it none, so nothing survives both layers.'')"
| "NO_GRANT_BETWEEN_LAYERS (True, True) = Some
     (''This identity holds no rights here and nothing denied any. The NTFS and share permissions each grant it rights, but no right is granted by both, so nothing survives the intersection.'')"
| "NO_GRANT_BETWEEN_LAYERS (False, False) = None"

definition UNSETTLED_SYSTEM :: "access_outcome \<Rightarrow> system_mapping \<Rightarrow> string option" where
  "UNSETTLED_SYSTEM outcome mapping =
     (case (outcome, mapping) of
        (OUT_GRANTED, SM_AMBIGUOUS) \<Rightarrow> Some
          (''Rights survive, but only through SIDs every network session is assumed to carry. Over a share SYSTEM is the computer account of whichever machine it runs on, and nothing in this question says which.'')
      | (OUT_GRANTED, SM_MISSING) \<Rightarrow> Some
          (''Rights survive, but no collector has described S-1-5-18, so which identity holds them is not confirmed.'')
      | (OUT_GRANTED, SM_CONFLICTING) \<Rightarrow> Some
          (''Rights survive, but a collector's description of S-1-5-18 contradicts what Windows defines it to be, so which identity holds them is disputed.'')
      | (OUT_INDETERMINATE, SM_CONFIRMED) \<Rightarrow> Some
          (''No rights were established, and this is not a finding of no access. This is the host's own LocalSystem account, and its token carries groups, BUILTIN'' @ backslash @ ''Administrators among them, that this answer does not apply.'')
      | (OUT_INDETERMINATE, SM_AMBIGUOUS) \<Rightarrow> Some
          (''No rights were established, and this is not a finding of no access. Over a share SYSTEM is the computer account of whichever machine it runs on, and nothing in this question says which.'')
      | (OUT_INDETERMINATE, SM_MISSING) \<Rightarrow> Some
          (''No rights were established, and this is not a finding of no access. No collector has described S-1-5-18, so which identity this question is about is unknown.'')
      | (OUT_INDETERMINATE, SM_CONFLICTING) \<Rightarrow> Some
          (''No rights were established, and this is not a finding of no access. A collector's description of S-1-5-18 contradicts what Windows defines it to be.'')
      | _ \<Rightarrow> None)"


definition describe_outcome :: "access_outcome \<Rightarrow> string" where
  "describe_outcome outcome = OUTCOME_DESCRIPTIONS outcome"

definition describe_verdict :: "access_outcome \<Rightarrow> effective_access \<Rightarrow> string result" where
  "describe_verdict outcome access =
     (let general =
        (if outcome = OUT_NO_GRANT then
           let ntfs = \<not> mask_is_empty (ev_rights (ea_ntfs access));
               share = (case ea_share access of None \<Rightarrow> False | Some s \<Rightarrow> \<not> mask_is_empty (ev_rights s))
           in if ntfs \<or> share then
                (case NO_GRANT_BETWEEN_LAYERS (ntfs, share) of
                   None \<Rightarrow> Inl KeyError
                 | Some sentence \<Rightarrow> Inr sentence)
              else Inr (describe_outcome outcome)
         else Inr (describe_outcome outcome))
      in case st_system_mapping (ea_token access) of
           None \<Rightarrow> general
         | Some mapping \<Rightarrow>
             (case UNSETTLED_SYSTEM outcome mapping of
                Some specific \<Rightarrow> Inr specific
              | None \<Rightarrow> general))"

record access_verdict =
  vd_outcome :: access_outcome
  vd_certainty :: access_certainty
  vd_reason :: string
  vd_denials :: "applied_ace list"

definition vd_may_understate :: "access_verdict \<Rightarrow> bool" where
  "vd_may_understate v \<longleftrightarrow> vd_certainty v \<in> UNDERSTATING_CERTAINTIES"

definition vd_may_overstate :: "access_verdict \<Rightarrow> bool" where
  "vd_may_overstate v \<longleftrightarrow> vd_certainty v \<in> {AT_MOST, UNCERTAIN}"

definition vd_is_conclusive :: "access_verdict \<Rightarrow> bool" where
  "vd_is_conclusive v \<longleftrightarrow> vd_outcome v \<noteq> OUT_INDETERMINATE"

definition vd_has_access :: "access_verdict \<Rightarrow> bool" where
  "vd_has_access v \<longleftrightarrow> vd_outcome v = OUT_GRANTED"

definition denials_of :: "effective_access \<Rightarrow> applied_ace list" where
  "denials_of access = ev_denied_by (ea_ntfs access)
     @ (case ea_share access of None \<Rightarrow> [] | Some s \<Rightarrow> ev_denied_by s)"

definition classify_access :: "effective_access \<Rightarrow> access_verdict result" where
  "classify_access access =
     (let denials = denials_of access;
          certainty = ea_certainty access;
          outcome =
            (if ea_has_access access then OUT_GRANTED
             else if certainty \<in> UNDERSTATING_CERTAINTIES then OUT_INDETERMINATE
             else if denials \<noteq> [] then OUT_DENIED
             else OUT_NO_GRANT)
      in res_bind (describe_verdict outcome access) (\<lambda>reason.
           Inr \<lparr>vd_outcome = outcome, vd_certainty = certainty, vd_reason = reason,
                vd_denials = denials\<rparr>))"

subsection \<open>Every outcome has its sentence\<close>

lemma no_grant_key: "ntfs \<or> share \<Longrightarrow> \<exists>t. NO_GRANT_BETWEEN_LAYERS (ntfs, share) = Some t"
  by (cases ntfs; cases share) simp_all

lemma describe_verdict_returns: "\<exists>t. describe_verdict outcome access = Inr t"
proof -
  let ?ntfs = "\<not> mask_is_empty (ev_rights (ea_ntfs access))"
  let ?share = "case ea_share access of None \<Rightarrow> False | Some s \<Rightarrow> \<not> mask_is_empty (ev_rights s)"
  have key: "?ntfs \<or> ?share \<Longrightarrow> \<exists>t. NO_GRANT_BETWEEN_LAYERS (?ntfs, ?share) = Some t"
    by (rule no_grant_key)
  show ?thesis
    unfolding describe_verdict_def Let_def
    using key by (auto split: option.split simp del: NO_GRANT_BETWEEN_LAYERS.simps)
qed

definition outcome_of :: "effective_access \<Rightarrow> access_outcome" where
  "outcome_of access =
     (if ea_has_access access then OUT_GRANTED
      else if may_understate (ea_certainty access) then OUT_INDETERMINATE
      else if denials_of access \<noteq> [] then OUT_DENIED else OUT_NO_GRANT)"

lemma understating_iff: "c \<in> UNDERSTATING_CERTAINTIES \<longleftrightarrow> may_understate c"
  by (simp add: UNDERSTATING_CERTAINTIES_def may_understate_def)

lemma classify_access_eq:
  "classify_access access = res_bind (describe_verdict (outcome_of access) access) (\<lambda>reason.
     Inr \<lparr>vd_outcome = outcome_of access, vd_certainty = ea_certainty access, vd_reason = reason,
          vd_denials = denials_of access\<rparr>)"
  by (simp only: classify_access_def Let_def outcome_of_def understating_iff)

lemma classify_access_returns:
  obtains v where "classify_access access = Inr v" "vd_outcome v = outcome_of access"
    "vd_certainty v = ea_certainty access" "vd_denials v = denials_of access"
    "describe_verdict (outcome_of access) access = Inr (vd_reason v)"
proof -
  obtain t where "describe_verdict (outcome_of access) access = Inr t"
    using describe_verdict_returns by blast
  then show thesis
    by (intro that [of "\<lparr>vd_outcome = outcome_of access, vd_certainty = ea_certainty access,
          vd_reason = t, vd_denials = denials_of access\<rparr>"]) (simp_all add: classify_access_eq)
qed

lemma classify_access_outcome: "classify_access access = Inr v \<Longrightarrow> vd_outcome v = outcome_of access"
  by (metis classify_access_returns sum.inject(2))

lemma no_understating_condition:
  "\<not> may_understate (certainty_of fs) \<Longrightarrow> f \<in> set fs \<Longrightarrow> \<not> finding_may_understate f"
  by (auto simp: certainty_directions finding_may_understate_def conditions_of_def)

text \<open>The findings of a token that would understate, one per gap.\<close>

lemma token_notes_understate:
  assumes "\<forall>f \<in> set (token_notes s path presented withheld complete). \<not> finding_may_understate f"
  shows "subj_resolved s \<and> complete \<and> subj_sid s \<noteq> SYSTEM_SID"
proof -
  have "subj_resolved s"
    using assms by (rule contrapos_pp)
      (auto simp: token_notes_def finding_may_understate_def UNDERSTATING_CONDITIONS_def)
  moreover have complete
    using assms by (rule contrapos_pp)
      (auto simp: token_notes_def finding_may_understate_def UNDERSTATING_CONDITIONS_def)
  moreover have "system_mapping_of s path = None"
  proof (cases "system_mapping_of s path")
    case (Some m)
    then have "system_mapping_finding s path m presented withheld
        \<in> set (token_notes s path presented withheld complete)"
      by (simp add: token_notes_def)
    with assms have "\<not> finding_may_understate (system_mapping_finding s path m presented withheld)"
      by blast
    then show ?thesis
      by (cases m) (simp_all add: system_mapping_finding_def finding_may_understate_def
          UNDERSTATING_CONDITIONS_def)
  qed
  then have "subj_sid s \<noteq> SYSTEM_SID" by (auto simp: system_mapping_of_def split: if_splits)
  ultimately show ?thesis by blast
qed

text \<open>A Deny is in the evidence exactly when it decides a right.\<close>

lemma evaluation_denied_by:
  assumes "evaluate_acl es token layer facts = Inr ev"
  shows "ev_denied_by ev \<noteq> [] \<longleftrightarrow> df_dacl_present facts
    \<and> (\<exists>n. decided (rulings_for token (owner_token_sid_of token facts) (take 4096 es)) n DENY)"
proof (cases "df_dacl_present facts")
  case True
  let ?w = "walked token layer facts (take MAX_ACL_ENTRIES es)"
  have ok: "w_denied ?w = contributions (w_denied_by ?w)"
    "\<forall>a \<in> set (w_denied_by ?w). mask_value (aa_contributed a) \<noteq> 0"
    using walked_evidence [of token facts "take MAX_ACL_ENTRIES es" layer]
    by (simp_all add: evidence_ok_def)
  have "w_denied_by ?w \<noteq> [] \<longleftrightarrow> w_denied ?w \<noteq> 0"
    using ok by (cases "w_denied_by ?w") (auto simp: mask_zero_iff bit_contributions)
  also have "\<dots> \<longleftrightarrow> (\<exists>n. decided (rulings_for token (owner_token_sid_of token facts)
      (take MAX_ACL_ENTRIES es)) n DENY)"
    by (simp add: mask_zero_iff walked_masks)
  finally show ?thesis
    using True by (simp add: evaluate_acl_present(8) [OF assms True] MAX_ACL_ENTRIES_def)
next
  case False
  then have "ev = null_dacl layer facts (length es)"
    using assms evaluate_acl_layers [OF assms] evaluate_acl_null by force
  with False show ?thesis by (simp add: null_dacl_def)
qed

definition deny_only_resource :: resource_dacl where
  "deny_only_resource =
     (sample_resource 1 OBSERVED)\<lparr>rd_entries := [sample_entry DENY EXPLICIT 1 NTFS]\<rparr>"

lemma deny_only_simps [simp]:
  "rd_entries deny_only_resource = [sample_entry DENY EXPLICIT 1 NTFS]"
  "rd_facts deny_only_resource = UNOWNED_PRESENT_DACL"
  "rd_provenance deny_only_resource = OBSERVED"
  "filter ae_is_allow (rd_entries deny_only_resource) = []"
  by (simp_all add: deny_only_resource_def sample_resource_def rd_facts_def UNOWNED_PRESENT_DACL_def)

lemma deny_only_findings:
  assumes "evaluate_acl [sample_entry DENY EXPLICIT 1 NTFS] (sample_token LOCAL) NTFS
      UNOWNED_PRESENT_DACL = Inr ev"
  shows "ev_findings ev = []"
proof -
  let ?e = "sample_entry DENY EXPLICIT 1 NTFS"
  let ?w = "walked (sample_token LOCAL) NTFS UNOWNED_PRESENT_DACL [?e]"
  have "\<not> nr_was_generic (ae_normalized ?e)"
    by (simp add: nr_was_generic_def ae_normalized_def normalize_mask_def mask_rights_def
        known_ntfs_rights generic_bits_value)
  moreover have "ae_applies_to_this_object ?e" "\<not> ae_names_substitution_placeholder ?e"
    "match_entry ?e (sample_token LOCAL) None \<noteq> None"
    using sample_applicable [of LOCAL None DENY EXPLICIT 1 NTFS] by (simp_all add: applicable_def)
  ultimately have "w_findings ?w = []"
    by (auto simp: walked_def walk_entries_def start_walk_def owner_rights_def empty_walk_def
        apply_entry_def)
  moreover have "mask_value (ev_rights ev) = 0" "mask_layer (ev_rights ev) = NTFS"
    using evaluation_grants [OF assms] by (simp_all add: mask_zero_iff sample_grants)
  moreover have "w_allow_union ?w AND NOT (w_deny_union ?w) = 0"
    by (auto simp: mask_zero_iff bit_diff walked_masks sample_rulings)
  moreover have "canonical_order_violations [?e] = []"
    by (simp add: canonical_order_violations_def)
  moreover have "\<not> df_dacl_protected UNOWNED_PRESENT_DACL"
    "df_declared_ace_count UNOWNED_PRESENT_DACL = None"
    by (simp_all add: UNOWNED_PRESENT_DACL_def mk_dacl_facts_def)
  moreover have "owner_bits (sample_token LOCAL) UNOWNED_PRESENT_DACL [?e] = 0"
    by (simp add: owner_bits_def)
  ultimately show ?thesis
    using evaluate_acl_present(4,12) [OF assms unowned_present(1)]
    by (simp add: MAX_ACL_ENTRIES_def descriptor_findings_def rights_condition_findings_def
        mask_is_indeterminate_def mask_unrecognized_bits_def)
qed

lemma deny_only_denied:
  "\<exists>access v. resolve_access (sample_token LOCAL) deny_only_resource None [] = Inr access
     \<and> classify_access access = Inr v \<and> vd_outcome v = OUT_DENIED"
proof (rule resolve_access_returns)
  fix access
  assume ra: "resolve_access (sample_token LOCAL) deny_only_resource None [] = Inr access"
  show ?thesis
  proof (rule resolve_access_parts [OF ra])
    fix added
    assume ntfs: "evaluate_acl (rd_entries deny_only_resource) (sample_token LOCAL) NTFS
        (rd_facts deny_only_resource) = Inr (ea_ntfs access)"
      and cross: "cross_share (sample_token LOCAL) (ea_ntfs access) None
        = Inr (ea_share access, ea_crossed access, ea_rights access, ea_limiting_layer access, added)"
      and found: "ea_findings access = st_findings (sample_token LOCAL)
           @ ntfs_findings (ea_ntfs access) deny_only_resource
           @ provenance_findings deny_only_resource @ added @ escalation_findings (ea_rights access) @ []"
      and cert: "ea_certainty access = certainty_of (ea_findings access)"
    have n: "\<not> bit (mask_value (ea_rights access)) n" for n
      using cross_share_rights(2) [OF ntfs _ cross, of n] by (simp add: sample_grants)
    then have zero: "mask_value (ea_rights access) = 0" by (simp add: mask_zero_iff)
    have "ev_denied_by (ea_ntfs access) \<noteq> []"
      using evaluation_denied_by [OF ntfs] by (auto simp: sample_rulings intro!: exI [of _ 0])
    moreover have "ev_findings (ea_ntfs access) = []"
      using deny_only_findings ntfs by simp
    then have "ea_certainty access = CERTAIN"
      using cross_share_added [OF cross] zero
      by (simp add: cert found ntfs_findings_def provenance_findings_def escalation_findings_def
          mask_escalation_rights_def mask_rights_def known_ntfs_rights bot_access_certainty_def)
    ultimately have "outcome_of access = OUT_DENIED"
      using zero by (simp add: outcome_of_def ea_has_access_def mask_is_empty_def may_understate_def
          denials_of_def)
    then show ?thesis using ra by (metis classify_access_returns)
  qed
qed (simp add: layers_fit_def)

lemma sample_token_built:
  "build_token sample_subject [] LOCAL (Some TA_SIDS_ONLY) True [] = Inr (sample_token LOCAL)"
  by (simp add: build_token_def sample_subject_def mk_token_sid_def assumed_sids_def token_notes_def
      subj_resolved_def system_mapping_of_def SYSTEM_SID_def subj_is_group_def mk_subject_token_def
      sample_token_def own_entry_def presents_subject_def)

subsection \<open>Properties\<close>

text \<open>
  Classification returns for every resolved answer: the sentence lookup keyed by the two layers
  never misses. The outcome follows the stated precedence: rights survive; else the answer may
  understate; else a Deny contributed; else nothing was granted.
\<close>

theorem classify_access_total:
  "\<exists>v. classify_access access = Inr v \<and> vd_denials v = denials_of access
     \<and> (vd_outcome v = OUT_GRANTED \<longleftrightarrow> mask_value (ea_rights access) \<noteq> 0)
     \<and> (vd_outcome v = OUT_INDETERMINATE \<longleftrightarrow>
          mask_value (ea_rights access) = 0 \<and> ea_certainty access \<in> {AT_LEAST, UNCERTAIN})
     \<and> (vd_outcome v = OUT_DENIED \<longleftrightarrow> mask_value (ea_rights access) = 0
          \<and> ea_certainty access \<in> {CERTAIN, AT_MOST} \<and> denials_of access \<noteq> [])
     \<and> (vd_outcome v = OUT_NO_GRANT \<longleftrightarrow> mask_value (ea_rights access) = 0
          \<and> ea_certainty access \<in> {CERTAIN, AT_MOST} \<and> denials_of access = [])"
proof -
  obtain v where "classify_access access = Inr v" "vd_outcome v = outcome_of access"
    "vd_denials v = denials_of access"
    by (rule classify_access_returns)
  then show ?thesis
    by (cases "ea_certainty access")
       (auto simp: outcome_of_def ea_has_access_def mask_is_empty_def may_understate_def)
qed

text \<open>
  C5. A conclusive negative is earned. Through the whole chain (token, resolution, verdict), DENIED
  or NO_GRANT means: no right survived, the membership traversal completed, the subject is resolved
  and is not SYSTEM, the descriptor was read or projected from one that was, and no finding anyone
  supplied says the answer may be too small.
\<close>

theorem conclusive_negative_is_earned:
  assumes "build_token s groups path assumption complete ts = Inr token"
    and "resolve_access token resource share fs = Inr access"
    and "classify_access access = Inr v"
    and "vd_outcome v \<in> {OUT_DENIED, OUT_NO_GRANT}"
  shows "mask_value (ea_rights access) = 0 \<and> complete \<and> subj_resolved s \<and> subj_sid s \<noteq> SYSTEM_SID
    \<and> rd_provenance resource \<noteq> UNOBSERVED \<and> (\<forall>f \<in> set (ts @ fs). \<not> finding_may_understate f)"
proof (rule build_token_facts
    [OF build_token_keyed [OF assms(1)], of groups path assumption complete ts])
  fix t withheld and added :: "string list"
  assume bt: "build_token s groups path assumption complete ts = Inr t"
    and tf: "st_findings t = ts @ token_notes s path (presents_subject s path) withheld complete
           @ (if added = [] then []
              else [finding AC_ASSUMED_TOKEN_SIDS
                     [(''assumption'', DStr (token_assumption_value (st_assumption t))),
                      (''access_path'', DStr (access_path_value path)),
                      (''sids'', DList (map DStr added))]])"
  have t: "t = token" using bt assms(1) by simp
  have out: "mask_value (ea_rights access) = 0" "\<not> may_understate (ea_certainty access)"
    using assms(4) classify_access_outcome [OF assms(3)]
    by (auto simp: outcome_of_def ea_has_access_def mask_is_empty_def split: if_splits)
  show ?thesis
  proof (rule resolve_access_parts [OF assms(2)])
    fix more
    assume found: "ea_findings access = st_findings token @ ntfs_findings (ea_ntfs access) resource
           @ provenance_findings resource @ more @ escalation_findings (ea_rights access) @ fs"
      and cert: "ea_certainty access = certainty_of (ea_findings access)"
    have none: "\<not> finding_may_understate f" if "f \<in> set (ea_findings access)" for f
      using no_understating_condition [OF out(2) [unfolded cert] that] .
    have "\<forall>f \<in> set (token_notes s path (presents_subject s path) withheld complete).
        \<not> finding_may_understate f"
      using none by (simp add: found tf [unfolded t])
    then have "subj_resolved s \<and> complete \<and> subj_sid s \<noteq> SYSTEM_SID"
      by (rule token_notes_understate)
    moreover have "rd_provenance resource \<noteq> UNOBSERVED"
    proof
      assume "rd_provenance resource = UNOBSERVED"
      then have "finding AC_NTFS_ACL_NOT_OBSERVED [(''resource_key'', DStr (rd_resource_key resource))]
          \<in> set (ea_findings access)"
        by (simp add: found provenance_findings_def)
      from none [OF this] show False
        by (simp add: finding_may_understate_def UNDERSTATING_CONDITIONS_def)
    qed
    ultimately show ?thesis using out(1) none by (auto simp: found tf [unfolded t])
  qed
qed

lemma conclusive_negative_is_earned_witness:
  "\<exists>access v. resolve_access (sample_token LOCAL) deny_only_resource None [] = Inr access
     \<and> classify_access access = Inr v \<and> mask_value (ea_rights access) = 0"
proof -
  obtain access v where "resolve_access (sample_token LOCAL) deny_only_resource None [] = Inr access"
    and "classify_access access = Inr v" and "vd_outcome v = OUT_DENIED"
    using deny_only_denied by blast
  with conclusive_negative_is_earned [OF sample_token_built] show ?thesis by blast
qed

text \<open>
  A Deny is reported as the reason exactly when it decides some right for the token, on the
  file-system DACL or on a share ACL that was read: whether any Allow named that right plays no part.
\<close>

theorem denials_iff_a_deny_decides:
  assumes "resolve_access token resource share fs = Inr access"
  shows "denials_of access \<noteq> [] \<longleftrightarrow>
    df_dacl_present (rd_facts resource)
      \<and> (\<exists>n. decided (rulings_for token (owner_token_sid_of token (rd_facts resource))
                (take 4096 (rd_entries resource))) n DENY)
    \<or> (\<exists>s. share = Some s \<and> sh_observed s
        \<and> (\<exists>n. decided (rulings_for token None (take 4096 (sh_entries s))) n DENY))"
proof (rule resolve_access_parts [OF assms])
  fix added
  assume ntfs: "evaluate_acl (rd_entries resource) token NTFS (rd_facts resource) = Inr (ea_ntfs access)"
    and cross: "cross_share token (ea_ntfs access) share
      = Inr (ea_share access, ea_crossed access, ea_rights access, ea_limiting_layer access, added)"
  have "(case ea_share access of None \<Rightarrow> [] | Some s \<Rightarrow> ev_denied_by s) \<noteq> []
      \<longleftrightarrow> (\<exists>s. share = Some s \<and> sh_observed s
        \<and> (\<exists>n. decided (rulings_for token None (take 4096 (sh_entries s))) n DENY))"
  proof (cases "\<exists>s. share = Some s \<and> sh_observed s")
    case True
    then obtain s where s: "share = Some s" "sh_observed s" by blast
    then obtain ev where ev: "evaluate_acl (sh_entries s) token SMB_SHARE UNOWNED_PRESENT_DACL = Inr ev"
      and "ea_share access = Some ev"
      using cross_share_added [OF cross] by auto
    with s evaluation_denied_by [OF ev] show ?thesis by simp
  next
    case False
    then have "ea_share access = None"
      using cross_share_added [OF cross] by (auto split: option.splits)
    with False show ?thesis by auto
  qed
  then show ?thesis
    unfolding denials_of_def using evaluation_denied_by [OF ntfs] by simp
qed

lemma denials_iff_a_deny_decides_witness:
  "\<exists>access. resolve_access (sample_token REMOTE_SMB) (sample_resource 1 OBSERVED)
        (Some (sample_share DENY 1 True)) [] = Inr access \<and> denials_of access \<noteq> []"
proof (rule sample_resolves)
  fix access
  assume ea: "resolve_access (sample_token REMOTE_SMB) (sample_resource 1 OBSERVED)
        (Some (sample_share DENY 1 True)) [] = Inr access"
  have "decided [(DENY, 1)] 0 DENY" by simp
  with ea denials_iff_a_deny_decides [OF ea] show ?thesis
    by (auto simp: sample_rulings simp del: decided_cons)
qed

text \<open>
  DENIED needs no withheld Allow: a local question over an ACL whose one entry denies the token a
  right is classified DENIED, although no Allow exists and removing the entry grants nothing.
\<close>

theorem denied_without_any_allow:
  "\<exists>access v. resolve_access (sample_token LOCAL) deny_only_resource None [] = Inr access
     \<and> classify_access access = Inr v \<and> vd_outcome v = OUT_DENIED
     \<and> filter ae_is_allow (rd_entries deny_only_resource) = []"
  using deny_only_denied by simp

end
