(* ===== verification/Adg_Graph.thy ===== *)
theory Adg_Graph
  imports Adg_Identity "HOL-Library.Product_Lexorder" "HOL-Library.Multiset"
begin

section \<open>Membership traversal (app/domain/graph.py, app/repositories/membership.py)\<close>

text \<open>
  The bounded breadth-first walk over membership edges and the repository that feeds it. A provider
  is a function from a batch of keys and its own state to the edges of each key and the next state,
  so a repository that counts the rows it has read is modelled with that count as its state. The
  database is a table of rows with a primary key; one statement returns at most the rows asked for.
  This theory holds the walk, its limits and its truncation reasons; cycle analysis and the
  enumeration of chains are in \<open>Adg_Cycles\<close> and \<open>Adg_Membership_Paths\<close>.
\<close>

subsection \<open>Edges and limits\<close>

datatype direction = DOWN | UP

primrec direction_inverse :: "direction \<Rightarrow> direction" where
  "direction_inverse UP = DOWN"
| "direction_inverse DOWN = UP"

datatype membership_edge_kind =
  MK_DIRECTORY_GROUP_MEMBER | MK_PRIMARY_GROUP | MK_LOCAL_GROUP_MEMBER | MK_WELL_KNOWN_IMPLICIT

record graph_edge =
  ge_edge_key :: string
  ge_group_key :: string
  ge_member_key :: string
  ge_kind :: membership_edge_kind
  ge_host_key :: "string option"
  ge_member_kind :: "principal_kind option"
  ge_is_foreign :: bool

definition mk_graph_edge :: "graph_edge \<Rightarrow> graph_edge result" where
  "mk_graph_edge e =
     (if ge_group_key e = [] \<or> ge_member_key e = []
        then Inl (DomainValidationError (if ge_group_key e = [] then ''group_key'' else ''member_key''))
      else if ge_group_key e = ge_member_key e then Inl (DomainValidationError ''member_key'')
      else Inr e)"

definition ge_endpoint :: "direction \<Rightarrow> graph_edge \<Rightarrow> string" where
  "ge_endpoint d e = (if d = DOWN then ge_member_key e else ge_group_key e)"

definition ge_origin :: "direction \<Rightarrow> graph_edge \<Rightarrow> string" where
  "ge_origin d e = (if d = DOWN then ge_group_key e else ge_member_key e)"

datatype truncation_reason = TR_MAX_DEPTH | TR_MAX_NODES | TR_MAX_EDGES | TR_MAX_PATHS

definition MAX_DEPTH_CEILING :: int where "MAX_DEPTH_CEILING = 128"
definition MAX_NODES_CEILING :: int where "MAX_NODES_CEILING = 250000"
definition MAX_EDGES_CEILING :: int where "MAX_EDGES_CEILING = 1000000"
definition MAX_PATHS_CEILING :: int where "MAX_PATHS_CEILING = 1000"

record traversal_limits =
  tl_max_depth :: nat
  tl_max_nodes :: nat
  tl_max_edges :: nat
  tl_max_paths :: nat

text \<open>The constructor checks each bound in order, below 1 first and above its ceiling second.\<close>

definition check_limit :: "string \<Rightarrow> int \<Rightarrow> int \<Rightarrow> nat result" where
  "check_limit name ceiling v =
     (if v < 1 then Inl (DomainValidationError name)
      else if ceiling < v then Inl (DomainValidationError name)
      else Inr (nat v))"

definition mk_traversal_limits :: "int \<Rightarrow> int \<Rightarrow> int \<Rightarrow> int \<Rightarrow> traversal_limits result" where
  "mk_traversal_limits d n e p =
     res_bind (check_limit ''max_depth'' MAX_DEPTH_CEILING d) (\<lambda>d'.
     res_bind (check_limit ''max_nodes'' MAX_NODES_CEILING n) (\<lambda>n'.
     res_bind (check_limit ''max_edges'' MAX_EDGES_CEILING e) (\<lambda>e'.
     res_bind (check_limit ''max_paths'' MAX_PATHS_CEILING p) (\<lambda>p'.
       Inr \<lparr>tl_max_depth = d', tl_max_nodes = n', tl_max_edges = e', tl_max_paths = p'\<rparr>))))"

definition DEFAULT_LIMITS :: traversal_limits where
  "DEFAULT_LIMITS =
     \<lparr>tl_max_depth = 32, tl_max_nodes = 50000, tl_max_edges = 200000, tl_max_paths = 100\<rparr>"

definition clamp_value :: "nat \<Rightarrow> int \<Rightarrow> int option \<Rightarrow> int" where
  "clamp_value current ceiling override =
     (case override of None \<Rightarrow> int current | Some v \<Rightarrow> max 1 (min v ceiling))"

definition clamped ::
  "traversal_limits \<Rightarrow> int option \<Rightarrow> int option \<Rightarrow> int option \<Rightarrow> int option
   \<Rightarrow> traversal_limits result" where
  "clamped l d n e p = mk_traversal_limits
     (clamp_value (tl_max_depth l) MAX_DEPTH_CEILING d)
     (clamp_value (tl_max_nodes l) MAX_NODES_CEILING n)
     (clamp_value (tl_max_edges l) MAX_EDGES_CEILING e)
     (clamp_value (tl_max_paths l) MAX_PATHS_CEILING p)"

subsection \<open>The walk\<close>

record reached_node =
  rn_key :: string
  rn_depth :: nat
  rn_path :: "string list"
  rn_edge_keys :: "string list"
  rn_edge_kinds :: "membership_edge_kind list"
  rn_reported_kind :: "principal_kind option"
  rn_via_foreign :: bool

text \<open>
  The loop's variables: \<open>visited\<close> in insertion order (\<open>paths\<close> is the root's node and these),
  \<open>edges_seen\<close> in insertion order, the truncation set and \<open>next_frontier\<close>.
\<close>

record walk_state =
  gw_visited :: "reached_node list"
  gw_edges :: "graph_edge list"
  gw_trunc :: "truncation_reason set"
  gw_next :: "string list"

definition start_state :: walk_state where
  "start_state = \<lparr>gw_visited = [], gw_edges = [], gw_trunc = {}, gw_next = []\<rparr>"

definition root_node :: "string \<Rightarrow> reached_node" where
  "root_node root = \<lparr>rn_key = root, rn_depth = 0, rn_path = [root], rn_edge_keys = [],
     rn_edge_kinds = [], rn_reported_kind = None, rn_via_foreign = False\<rparr>"

definition path_to :: "string \<Rightarrow> walk_state \<Rightarrow> string \<Rightarrow> reached_node option" where
  "path_to root st key = find (\<lambda>n. rn_key n = key) (root_node root # gw_visited st)"

definition edge_seen :: "walk_state \<Rightarrow> graph_edge \<Rightarrow> bool" where
  "edge_seen st e \<longleftrightarrow> ge_edge_key e \<in> ge_edge_key ` set (gw_edges st)"

definition record_edge :: "walk_state \<Rightarrow> graph_edge \<Rightarrow> walk_state" where
  "record_edge st e = (if edge_seen st e then st else st\<lparr>gw_edges := gw_edges st @ [e]\<rparr>)"

definition reach :: "direction \<Rightarrow> nat \<Rightarrow> reached_node \<Rightarrow> graph_edge \<Rightarrow> reached_node" where
  "reach d depth origin e =
     \<lparr>rn_key = ge_endpoint d e, rn_depth = depth, rn_path = rn_path origin @ [ge_endpoint d e],
      rn_edge_keys = rn_edge_keys origin @ [ge_edge_key e],
      rn_edge_kinds = rn_edge_kinds origin @ [ge_kind e],
      rn_reported_kind = (if d = DOWN then ge_member_kind e else None),
      rn_via_foreign = (rn_via_foreign origin \<or> ge_is_foreign e)\<rparr>"

fun visit_edges ::
  "string \<Rightarrow> direction \<Rightarrow> traversal_limits \<Rightarrow> nat \<Rightarrow> string \<Rightarrow> graph_edge list \<Rightarrow> walk_state
   \<Rightarrow> walk_state result" where
  "visit_edges root d lim depth key [] st = Inr st"
| "visit_edges root d lim depth key (e # es) st =
     (if ge_origin d e \<noteq> key then Inl (DomainValidationError ''edge_key'')
      else if \<not> edge_seen st e \<and> tl_max_edges lim \<le> length (gw_edges st)
        then Inr (st\<lparr>gw_trunc := insert TR_MAX_EDGES (gw_trunc st)\<rparr>)
      else
        (let st1 = record_edge st e; far = ge_endpoint d e
         in if path_to root st1 far \<noteq> None then visit_edges root d lim depth key es st1
            else if tl_max_nodes lim \<le> length (gw_visited st1)
              then Inr (st1\<lparr>gw_trunc := insert TR_MAX_NODES (gw_trunc st1)\<rparr>)
            else (case path_to root st1 key of
                None \<Rightarrow> Inl KeyError
              | Some origin \<Rightarrow>
                  visit_edges root d lim depth key es
                    (st1\<lparr>gw_visited := gw_visited st1 @ [reach d depth origin e],
                         gw_next := gw_next st1 @ [far]\<rparr>))))"

fun visit_frontier ::
  "string \<Rightarrow> direction \<Rightarrow> traversal_limits \<Rightarrow> nat \<Rightarrow> string list \<Rightarrow> (string \<Rightarrow> graph_edge list)
   \<Rightarrow> walk_state \<Rightarrow> walk_state result" where
  "visit_frontier root d lim depth [] m st = Inr st"
| "visit_frontier root d lim depth (k # ks) m st =
     res_bind (visit_edges root d lim depth k (m k) st) (\<lambda>st'.
       if gw_trunc st' \<noteq> {} then Inr st' else visit_frontier root d lim depth ks m st')"

type_synonym 's provider =
  "direction \<Rightarrow> string list \<Rightarrow> 's \<Rightarrow> (string \<Rightarrow> graph_edge list) \<times> 's"

text \<open>The level loop, by the number of levels the depth limit still allows.\<close>

fun expand_levels ::
  "string \<Rightarrow> direction \<Rightarrow> traversal_limits \<Rightarrow> 's provider \<Rightarrow> nat \<Rightarrow> nat \<Rightarrow> string list \<Rightarrow> walk_state
   \<Rightarrow> 's \<Rightarrow> (string list \<times> walk_state \<times> 's) result" where
  "expand_levels root d lim nbrs 0 depth frontier st s = Inr (frontier, st, s)"
| "expand_levels root d lim nbrs (Suc r) depth frontier st s =
     (if frontier = [] \<or> gw_trunc st \<noteq> {} then Inr (frontier, st, s)
      else (let (m, s') = nbrs d frontier s
            in res_bind (visit_frontier root d lim (Suc depth) frontier m (st\<lparr>gw_next := []\<rparr>))
                 (\<lambda>st'. expand_levels root d lim nbrs r (Suc depth) (gw_next st') st' s')))"

text \<open>The boundary probe when the depth limit stopped the walk.\<close>

fun probe_edges ::
  "string \<Rightarrow> direction \<Rightarrow> traversal_limits \<Rightarrow> string \<Rightarrow> graph_edge list \<Rightarrow> walk_state
   \<Rightarrow> walk_state result" where
  "probe_edges root d lim key [] st = Inr st"
| "probe_edges root d lim key (e # es) st =
     (if ge_origin d e \<noteq> key then Inl (DomainValidationError ''edge_key'')
      else
        (let st1 = (if edge_seen st e then st
                    else if tl_max_edges lim \<le> length (gw_edges st)
                      then st\<lparr>gw_trunc := insert TR_MAX_EDGES (gw_trunc st)\<rparr>
                    else record_edge st e);
             st2 = (if path_to root st1 (ge_endpoint d e) = None
                    then st1\<lparr>gw_trunc := insert TR_MAX_DEPTH (gw_trunc st1)\<rparr> else st1)
         in probe_edges root d lim key es st2))"

fun probe_frontier ::
  "string \<Rightarrow> direction \<Rightarrow> traversal_limits \<Rightarrow> string list \<Rightarrow> (string \<Rightarrow> graph_edge list) \<Rightarrow> walk_state
   \<Rightarrow> walk_state result" where
  "probe_frontier root d lim [] m st = Inr st"
| "probe_frontier root d lim (k # ks) m st =
     res_bind (probe_edges root d lim k (m k) st) (\<lambda>st'. probe_frontier root d lim ks m st')"

definition expand_walk ::
  "string \<Rightarrow> direction \<Rightarrow> traversal_limits \<Rightarrow> 's provider \<Rightarrow> 's \<Rightarrow> (walk_state \<times> 's) result" where
  "expand_walk root d lim nbrs s =
     (if root = [] then Inl (DomainValidationError ''root'')
      else res_bind (expand_levels root d lim nbrs (tl_max_depth lim) 0 [root] start_state s)
        (\<lambda>(frontier, st, s').
           if frontier \<noteq> [] \<and> gw_trunc st = {} then
             (let (m, s'') = nbrs d frontier s'
              in res_bind (probe_frontier root d lim frontier m st) (\<lambda>st'. Inr (st', s'')))
           else Inr (st, s')))"

text \<open>What \<open>expand\<close> reports from the walk.\<close>

definition expansion_nodes :: "walk_state \<Rightarrow> reached_node list" where
  "expansion_nodes st = sort_key (\<lambda>n. (rn_depth n, rn_key n)) (gw_visited st)"

definition expansion_edges :: "walk_state \<Rightarrow> graph_edge list" where
  "expansion_edges st = sort_key ge_edge_key (gw_edges st)"

definition depth_reached :: "walk_state \<Rightarrow> nat" where
  "depth_reached st = fold max (map rn_depth (gw_visited st)) 0"

definition expansion_truncation :: "walk_state \<Rightarrow> truncation_reason list" where
  "expansion_truncation st =
     filter (\<lambda>r. r \<in> gw_trunc st) [TR_MAX_DEPTH, TR_MAX_EDGES, TR_MAX_NODES, TR_MAX_PATHS]"

definition expansion_complete :: "walk_state \<Rightarrow> bool" where
  "expansion_complete st \<longleftrightarrow> expansion_truncation st = []"

subsection \<open>What one batch of edges does\<close>

definition known :: "string \<Rightarrow> walk_state \<Rightarrow> string set" where
  "known root st = insert root (rn_key ` set (gw_visited st))"

lemma path_to_None: "path_to root st k = None \<longleftrightarrow> k \<notin> known root st"
  by (auto simp: path_to_def known_def root_node_def find_None_iff)

lemma path_to_Some:
  "path_to root st k = Some n \<Longrightarrow> rn_key n = k \<and> (n = root_node root \<or> n \<in> set (gw_visited st))"
  by (auto simp: path_to_def find_Some_iff nth_Cons split: nat.splits if_splits)

lemma path_to_extend:
  "path_to root st k = Some n \<Longrightarrow> gw_visited st' = gw_visited st @ new \<Longrightarrow> path_to root st' k = Some n"
proof -
  have "find P (xs @ ys) = Some n" if "find P xs = Some n" for P and xs ys :: "reached_node list"
    using that by (induction xs) auto
  then show "path_to root st k = Some n \<Longrightarrow> gw_visited st' = gw_visited st @ new \<Longrightarrow> path_to root st' k = Some n"
    unfolding path_to_def by (metis append_Cons)
qed

lemma record_edge_simps [simp]:
  "gw_visited (record_edge st e) = gw_visited st" "gw_trunc (record_edge st e) = gw_trunc st"
  "gw_next (record_edge st e) = gw_next st" "path_to root (record_edge st e) k = path_to root st k"
  "known root (record_edge st e) = known root st"
  by (simp_all add: record_edge_def path_to_def known_def)

lemma record_edge_set:
  "set (gw_edges (record_edge st e)) \<subseteq> insert e (set (gw_edges st))"
  "set (gw_edges st) \<subseteq> set (gw_edges (record_edge st e))"
  by (auto simp: record_edge_def)

text \<open>One edge, when the walk goes on past it.\<close>

lemma visit_edges_step:
  assumes "visit_edges root d lim depth key (e # es) st = Inr st'"
  obtains (edges) "gw_trunc st' = insert TR_MAX_EDGES (gw_trunc st)" "gw_visited st' = gw_visited st"
      "gw_edges st' = gw_edges st" "gw_next st' = gw_next st" "ge_origin d e = key"
    | (nodes) "gw_trunc st' = insert TR_MAX_NODES (gw_trunc st)" "gw_visited st' = gw_visited st"
      "gw_edges st' = gw_edges (record_edge st e)" "gw_next st' = gw_next st" "ge_origin d e = key"
    | (old) "visit_edges root d lim depth key es (record_edge st e) = Inr st'" "ge_origin d e = key"
      "ge_endpoint d e \<in> known root st"
      "edge_seen st e \<or> length (gw_edges st) < tl_max_edges lim"
    | (new) o_node where "visit_edges root d lim depth key es ((record_edge st e)
          \<lparr>gw_visited := gw_visited st @ [reach d depth o_node e],
           gw_next := gw_next st @ [ge_endpoint d e]\<rparr>) = Inr st'" "ge_origin d e = key"
      "ge_endpoint d e \<notin> known root st" "path_to root st key = Some o_node"
      "edge_seen st e \<or> length (gw_edges st) < tl_max_edges lim"
proof -
  have origin: "ge_origin d e = key" using assms by (simp split: if_splits)
  show thesis
  proof (cases "\<not> edge_seen st e \<and> tl_max_edges lim \<le> length (gw_edges st)")
    case True
    with assms origin have "st' = st\<lparr>gw_trunc := insert TR_MAX_EDGES (gw_trunc st)\<rparr>" by simp
    then show thesis using edges origin by simp
  next
    case room: False
    then have rm: "edge_seen st e \<or> length (gw_edges st) < tl_max_edges lim" by auto
    show thesis
    proof (cases "ge_endpoint d e \<in> known root st")
      case True
      then have "path_to root st (ge_endpoint d e) \<noteq> None" by (simp add: path_to_None)
      with assms origin room show thesis
        by (intro old [OF _ origin True rm]) (simp only: visit_edges.simps Let_def record_edge_simps if_True if_False not_not simp_thms)
    next
      case False
      then have unseen: "path_to root st (ge_endpoint d e) = None" by (simp add: path_to_None)
      show thesis
      proof (cases "tl_max_nodes lim \<le> length (gw_visited st)")
        case True
        with assms origin room unseen
        have "st' = (record_edge st e)\<lparr>gw_trunc := insert TR_MAX_NODES (gw_trunc st)\<rparr>"
          by (simp add: Let_def)
        then show thesis using nodes origin by simp
      next
        case few: False
        with assms origin room unseen obtain o_node where "path_to root st key = Some o_node"
          and "visit_edges root d lim depth key es ((record_edge st e)
            \<lparr>gw_visited := gw_visited st @ [reach d depth o_node e],
             gw_next := gw_next st @ [ge_endpoint d e]\<rparr>) = Inr st'"
          by (auto simp: Let_def split: option.splits)
        then show thesis using new origin False rm by blast
      qed
    qed
  qed
qed

text \<open>A walk of edges from a key, and the node a walk leads to.\<close>

fun edge_walk :: "direction \<Rightarrow> string \<Rightarrow> graph_edge list \<Rightarrow> bool" where
  "edge_walk d k [] = True"
| "edge_walk d k (e # es) \<longleftrightarrow> ge_origin d e = k \<and> edge_walk d (ge_endpoint d e) es"

definition walk_end :: "direction \<Rightarrow> string \<Rightarrow> graph_edge list \<Rightarrow> string" where
  "walk_end d k es = last (k # map (ge_endpoint d) es)"

lemma walk_end_snoc: "walk_end d k (es @ [e]) = ge_endpoint d e"
  by (simp add: walk_end_def)

lemma edge_walk_snoc: "edge_walk d k (es @ [e]) \<longleftrightarrow> edge_walk d k es \<and> ge_origin d e = walk_end d k es"
  by (induction d k es rule: edge_walk.induct) (auto simp: walk_end_def)

definition node_explained :: "direction \<Rightarrow> string \<Rightarrow> graph_edge set \<Rightarrow> reached_node \<Rightarrow> bool" where
  "node_explained d root E n \<longleftrightarrow> (\<exists>es. set es \<subseteq> E \<and> edge_walk d root es \<and> walk_end d root es = rn_key n
     \<and> rn_path n = root # map (ge_endpoint d) es \<and> rn_edge_keys n = map ge_edge_key es
     \<and> rn_edge_kinds n = map ge_kind es \<and> rn_via_foreign n = list_ex ge_is_foreign es
     \<and> rn_depth n = length es)"

lemma root_explained: "node_explained d root E (root_node root)"
  unfolding node_explained_def by (rule exI [of _ "[]"]) (simp add: root_node_def walk_end_def)

lemma reach_explained:
  assumes "node_explained d root E n" "rn_depth n + 1 = depth" "ge_origin d e = rn_key n" "e \<in> E"
  shows "node_explained d root E (reach d depth n e)"
proof -
  obtain es where "set es \<subseteq> E" "edge_walk d root es" "walk_end d root es = rn_key n"
    "rn_path n = root # map (ge_endpoint d) es" "rn_edge_keys n = map ge_edge_key es"
    "rn_edge_kinds n = map ge_kind es" "rn_via_foreign n = list_ex ge_is_foreign es"
    "rn_depth n = length es"
    using assms(1) by (auto simp: node_explained_def)
  with assms(2-4) show ?thesis
    unfolding node_explained_def
    by (intro exI [of _ "es @ [e]"]) (auto simp: reach_def edge_walk_snoc walk_end_snoc)
qed

text \<open>What holds of the nodes during a level at \<open>depth\<close>, whether or not it is cut short.\<close>

definition nodes_ok :: "string \<Rightarrow> direction \<Rightarrow> graph_edge set \<Rightarrow> nat \<Rightarrow> walk_state \<Rightarrow> bool" where
  "nodes_ok root d E depth st \<longleftrightarrow>
     (\<forall>n \<in> set (gw_visited st). node_explained d root E n \<and> rn_depth n \<le> depth)
     \<and> (\<forall>k \<in> set (gw_next st). \<exists>n. path_to root st k = Some n \<and> rn_depth n = depth)"

lemma path_explained:
  "nodes_ok root d E depth st \<Longrightarrow> path_to root st k = Some n \<Longrightarrow> node_explained d root E n"
  using path_to_Some [of root st k n] root_explained by (auto simp: nodes_ok_def)

lemma visit_edges_nodes:
  assumes "visit_edges root d lim depth key es st = Inr st'" "set es \<subseteq> E"
    and "nodes_ok root d E depth st"
    and "\<exists>n. path_to root st key = Some n \<and> rn_depth n + 1 = depth"
  shows "nodes_ok root d E depth st' \<and> (\<exists>new. gw_visited st' = gw_visited st @ new)"
  using assms
proof (induction es arbitrary: st)
  case (Cons e es)
  from Cons.prems(1) show ?case
  proof (cases rule: visit_edges_step)
    case edges
    then show ?thesis using Cons.prems(3) by (simp add: nodes_ok_def path_to_def)
  next
    case nodes
    then show ?thesis using Cons.prems(3) by (simp add: nodes_ok_def path_to_def)
  next
    case old
    have "nodes_ok root d E depth (record_edge st e)"
      using Cons.prems(3) by (simp add: nodes_ok_def)
    with Cons.IH [OF old(1)] Cons.prems show ?thesis by simp
  next
    case (new o_node)
    let ?st = "(record_edge st e)\<lparr>gw_visited := gw_visited st @ [reach d depth o_node e],
           gw_next := gw_next st @ [ge_endpoint d e]\<rparr>"
    have vis: "gw_visited ?st = gw_visited st @ [reach d depth o_node e]" by simp
    have key: "rn_depth o_node + 1 = depth" "rn_key o_node = key"
      using Cons.prems(4) new(4) path_to_Some by auto
    have "node_explained d root E (reach d depth o_node e)"
      using path_explained [OF Cons.prems(3) new(4)] key new(2) Cons.prems(2)
      by (intro reach_explained) simp_all
    moreover have "path_to root ?st (ge_endpoint d e) = Some (reach d depth o_node e)"
    proof -
      have "find (\<lambda>n. rn_key n = k) xs = None" if "k \<notin> rn_key ` set xs" for k and xs :: "reached_node list"
        using that by (auto simp: find_None_iff)
      moreover have "find P (xs @ ys) = find P ys" if "find P xs = None" for P and xs ys :: "reached_node list"
        using that by (induction xs) (auto split: if_splits)
      ultimately show ?thesis
        using new(3) by (auto simp: path_to_def known_def root_node_def reach_def)
    qed
    ultimately have "nodes_ok root d E depth ?st"
      using Cons.prems(3) path_to_extend [OF _ vis]
      by (fastforce simp: nodes_ok_def reach_def)
    moreover have "\<exists>n. path_to root ?st key = Some n \<and> rn_depth n + 1 = depth"
      using path_to_extend [OF new(4) vis] key by blast
    ultimately show ?thesis
      using Cons.IH [OF new(1)] Cons.prems(2) by auto
  qed
qed simp

lemma visit_frontier_step:
  assumes "visit_frontier root d lim depth (k # ks) m st = Inr st'"
  obtains st1 where "visit_edges root d lim depth k (m k) st = Inr st1"
    and "gw_trunc st1 \<noteq> {} \<and> st' = st1
      \<or> gw_trunc st1 = {} \<and> visit_frontier root d lim depth ks m st1 = Inr st'"
proof -
  from assms obtain st1 where st1: "visit_edges root d lim depth k (m k) st = Inr st1"
    and rest: "(if gw_trunc st1 \<noteq> {} then Inr st1 else visit_frontier root d lim depth ks m st1) = Inr st'"
    by (auto simp: result_simps)
  show thesis by (rule that [OF st1]) (use rest in \<open>simp split: if_splits\<close>)
qed

lemma visit_frontier_nodes:
  assumes "visit_frontier root d lim depth ks m st = Inr st'" "\<forall>k \<in> set ks. set (m k) \<subseteq> E"
    and "nodes_ok root d E depth st"
    and "\<forall>k \<in> set ks. \<exists>n. path_to root st k = Some n \<and> rn_depth n + 1 = depth"
  shows "nodes_ok root d E depth st'"
  using assms
proof (induction ks arbitrary: st)
  case (Cons k ks)
  from Cons.prems(1) obtain st1 where st1: "visit_edges root d lim depth k (m k) st = Inr st1"
    and rest: "gw_trunc st1 \<noteq> {} \<and> st' = st1
      \<or> gw_trunc st1 = {} \<and> visit_frontier root d lim depth ks m st1 = Inr st'"
    by (rule visit_frontier_step)
  obtain new where ok: "nodes_ok root d E depth st1" and ext: "gw_visited st1 = gw_visited st @ new"
    using visit_edges_nodes [OF st1 _ Cons.prems(3)] Cons.prems(2,4) by auto
  have "\<forall>k \<in> set ks. \<exists>n. path_to root st1 k = Some n \<and> rn_depth n + 1 = depth"
    using Cons.prems(4) path_to_extend [OF _ ext] by fastforce
  then show ?case using rest ok Cons.IH [of st1] Cons.prems(2) by auto
qed simp

text \<open>A batch that was walked to its end without truncation.\<close>

lemma visit_edges_trunc: "visit_edges root d lim depth key es st = Inr st' \<Longrightarrow> gw_trunc st \<subseteq> gw_trunc st'"
proof (induction es arbitrary: st)
  case (Cons e es)
  from Cons.prems show ?case
  proof (cases rule: visit_edges_step)
    case old
    then show ?thesis using Cons.IH [OF old(1)] by simp
  next
    case (new o_node)
    then show ?thesis using Cons.IH [OF new(1)] by simp
  qed auto
qed simp

lemma visit_edges_clean:
  assumes "visit_edges root d lim depth key es st = Inr st'" "gw_trunc st' = {}"
  shows "known root st' = known root st \<union> ge_endpoint d ` set es
    \<and> set (gw_next st') = set (gw_next st) \<union> (ge_endpoint d ` set es - known root st)
    \<and> (\<forall>e \<in> set es. ge_origin d e = key)
    \<and> (distinct (gw_next st) \<and> set (gw_next st) \<subseteq> known root st \<longrightarrow> distinct (gw_next st'))
    \<and> (length (gw_edges st) \<le> tl_max_edges lim \<longrightarrow> length (gw_edges st') \<le> tl_max_edges lim)
    \<and> (distinct (map ge_edge_key es) \<and> (\<forall>e \<in> set es. \<not> edge_seen st e)
       \<longrightarrow> gw_edges st' = gw_edges st @ es)"
  using assms
proof (induction es arbitrary: st)
  case (Cons e es)
  have shift: "gw_edges st' = gw_edges st @ e # es"
    if "gw_edges st2 = gw_edges (record_edge st e)" "distinct (map ge_edge_key (e # es))"
      "\<forall>x \<in> set (e # es). \<not> edge_seen st x"
      "distinct (map ge_edge_key es) \<and> (\<forall>x \<in> set es. \<not> edge_seen st2 x) \<longrightarrow> gw_edges st' = gw_edges st2 @ es"
    for st2
  proof -
    have "gw_edges st2 = gw_edges st @ [e]" using that by (simp add: record_edge_def)
    moreover have "\<forall>x \<in> set es. \<not> edge_seen st2 x"
      using that(2,3) calculation by (auto simp: edge_seen_def) (metis image_eqI)
    ultimately show ?thesis using that(2,4) by simp
  qed
  have room: "length (gw_edges (record_edge st e)) \<le> tl_max_edges lim"
    if "edge_seen st e \<or> length (gw_edges st) < tl_max_edges lim" "length (gw_edges st) \<le> tl_max_edges lim"
    using that by (auto simp: record_edge_def)
  from Cons.prems(1) show ?case
  proof (cases rule: visit_edges_step)
    case edges
    then show ?thesis using Cons.prems(2) by simp
  next
    case nodes
    then show ?thesis using Cons.prems(2) by simp
  next
    case old
    have IH: "known root st' = known root st \<union> ge_endpoint d ` set es"
      "set (gw_next st') = set (gw_next st) \<union> (ge_endpoint d ` set es - known root st)"
      "\<forall>e \<in> set es. ge_origin d e = key"
      "distinct (gw_next st) \<and> set (gw_next st) \<subseteq> known root st \<longrightarrow> distinct (gw_next st')"
      "length (gw_edges (record_edge st e)) \<le> tl_max_edges lim \<longrightarrow> length (gw_edges st') \<le> tl_max_edges lim"
      "distinct (map ge_edge_key es) \<and> (\<forall>x \<in> set es. \<not> edge_seen (record_edge st e) x)
        \<longrightarrow> gw_edges st' = gw_edges (record_edge st e) @ es"
      using Cons.IH [OF old(1) Cons.prems(2)] by simp_all
    have "set (gw_next st') = set (gw_next st) \<union> (ge_endpoint d ` set (e # es) - known root st)"
      "known root st' = known root st \<union> ge_endpoint d ` set (e # es)"
      using IH(1,2) old(3) by auto
    then show ?thesis
      using IH(3-6) old(2,4) room shift [of "record_edge st e"] by simp
  next
    case (new o_node)
    let ?st = "(record_edge st e)\<lparr>gw_visited := gw_visited st @ [reach d depth o_node e],
           gw_next := gw_next st @ [ge_endpoint d e]\<rparr>"
    have kn: "known root ?st = insert (ge_endpoint d e) (known root st)"
      by (auto simp: known_def reach_def)
    have IH: "known root st' = known root ?st \<union> ge_endpoint d ` set es"
      "set (gw_next st') = set (gw_next ?st) \<union> (ge_endpoint d ` set es - known root ?st)"
      "\<forall>e \<in> set es. ge_origin d e = key"
      "distinct (gw_next ?st) \<and> set (gw_next ?st) \<subseteq> known root ?st \<longrightarrow> distinct (gw_next st')"
      "length (gw_edges ?st) \<le> tl_max_edges lim \<longrightarrow> length (gw_edges st') \<le> tl_max_edges lim"
      "distinct (map ge_edge_key es) \<and> (\<forall>x \<in> set es. \<not> edge_seen ?st x)
        \<longrightarrow> gw_edges st' = gw_edges ?st @ es"
      using Cons.IH [OF new(1) Cons.prems(2)] by blast+
    have "set (gw_next st') = set (gw_next st) \<union> (ge_endpoint d ` set (e # es) - known root st)"
      "known root st' = known root st \<union> ge_endpoint d ` set (e # es)"
      using IH(1,2) kn new(3) by auto
    moreover have "distinct (gw_next st')"
      if "distinct (gw_next st)" "set (gw_next st) \<subseteq> known root st"
      using IH(4) kn that new(3) by auto
    ultimately show ?thesis
      using IH(3,5,6) new(2,5) room shift [of ?st] by simp
  qed
qed simp

lemma unseen_after:
  assumes "distinct (map ge_edge_key (es @ fs))" "\<forall>e \<in> set (es @ fs). \<not> edge_seen st e"
    and "gw_edges st1 = gw_edges st @ es"
  shows "\<forall>e \<in> set fs. \<not> edge_seen st1 e"
proof
  fix e assume "e \<in> set fs"
  then have "ge_edge_key e \<notin> ge_edge_key ` set es" "ge_edge_key e \<notin> ge_edge_key ` set (gw_edges st)"
    using assms(1,2) by (auto simp: edge_seen_def)
  then show "\<not> edge_seen st1 e" by (simp add: edge_seen_def assms(3) image_Un)
qed

lemma visit_frontier_clean:
  assumes "visit_frontier root d lim depth ks m st = Inr st'" "gw_trunc st' = {}"
  shows "known root st' = known root st \<union> ge_endpoint d ` set (concat (map m ks))
    \<and> set (gw_next st') = set (gw_next st) \<union> (ge_endpoint d ` set (concat (map m ks)) - known root st)
    \<and> (distinct (gw_next st) \<and> set (gw_next st) \<subseteq> known root st \<longrightarrow> distinct (gw_next st'))
    \<and> (length (gw_edges st) \<le> tl_max_edges lim \<longrightarrow> length (gw_edges st') \<le> tl_max_edges lim)
    \<and> (distinct (map ge_edge_key (concat (map m ks)))
        \<and> (\<forall>e \<in> set (concat (map m ks)). \<not> edge_seen st e)
       \<longrightarrow> gw_edges st' = gw_edges st @ concat (map m ks))"
  using assms
proof (induction ks arbitrary: st)
  case (Cons k ks)
  from Cons.prems(1) obtain st1 where st1: "visit_edges root d lim depth k (m k) st = Inr st1"
    and rest: "gw_trunc st1 \<noteq> {} \<and> st' = st1
      \<or> gw_trunc st1 = {} \<and> visit_frontier root d lim depth ks m st1 = Inr st'"
    by (rule visit_frontier_step)
  with Cons.prems(2) have t1: "gw_trunc st1 = {}"
    and go: "visit_frontier root d lim depth ks m st1 = Inr st'" by auto
  note A = visit_edges_clean [OF st1 t1] and B = Cons.IH [OF go Cons.prems(2)]
  have kn: "known root st1 = known root st \<union> ge_endpoint d ` set (m k)"
    and nx: "set (gw_next st1) = set (gw_next st) \<union> (ge_endpoint d ` set (m k) - known root st)"
    using A by blast+
  have "known root st' = known root st \<union> ge_endpoint d ` set (concat (map m (k # ks)))"
    using B kn by auto
  moreover have "set (gw_next st') = set (gw_next st)
      \<union> (ge_endpoint d ` set (concat (map m (k # ks))) - known root st)"
    using B kn nx by auto
  moreover have "distinct (gw_next st')"
    if "distinct (gw_next st)" "set (gw_next st) \<subseteq> known root st"
    using A B that kn nx by auto
  moreover have "length (gw_edges st') \<le> tl_max_edges lim" if "length (gw_edges st) \<le> tl_max_edges lim"
    using A B that by blast
  moreover have "gw_edges st' = gw_edges st @ concat (map m (k # ks))"
    if d: "distinct (map ge_edge_key (concat (map m (k # ks))))"
      and u: "\<forall>e \<in> set (concat (map m (k # ks))). \<not> edge_seen st e"
  proof -
    have e1: "gw_edges st1 = gw_edges st @ m k" using A d u by auto
    moreover have "\<forall>e \<in> set (concat (map m ks)). \<not> edge_seen st1 e"
      by (rule unseen_after [OF _ _ e1]) (use d u in simp_all)
    ultimately show ?thesis using B d by auto
  qed
  ultimately show ?case by blast
qed simp

lemma probe_edges_clean:
  assumes "probe_edges root d lim key es st = Inr st'" "gw_trunc st' = {}"
  shows "gw_trunc st = {} \<and> gw_visited st' = gw_visited st \<and> ge_endpoint d ` set es \<subseteq> known root st
    \<and> (\<forall>e \<in> set es. ge_origin d e = key)
    \<and> (length (gw_edges st) \<le> tl_max_edges lim \<longrightarrow> length (gw_edges st') \<le> tl_max_edges lim)
    \<and> (distinct (map ge_edge_key es) \<and> (\<forall>e \<in> set es. \<not> edge_seen st e)
       \<longrightarrow> gw_edges st' = gw_edges st @ es)"
  using assms
proof (induction es arbitrary: st)
  case (Cons e es)
  define st1 where "st1 = (if edge_seen st e then st
      else if tl_max_edges lim \<le> length (gw_edges st)
        then st\<lparr>gw_trunc := insert TR_MAX_EDGES (gw_trunc st)\<rparr>
      else record_edge st e)"
  define st2 where "st2 = (if path_to root st1 (ge_endpoint d e) = None
      then st1\<lparr>gw_trunc := insert TR_MAX_DEPTH (gw_trunc st1)\<rparr> else st1)"
  have o: "ge_origin d e = key" and step: "probe_edges root d lim key es st2 = Inr st'"
    using Cons.prems(1) unfolding probe_edges.simps Let_def st1_def st2_def by (meson sum.distinct)+
  note IH = Cons.IH [OF step Cons.prems(2)]
  have t2: "gw_trunc st2 = {}" using IH by blast
  then have known_far: "path_to root st1 (ge_endpoint d e) \<noteq> None"
    by (auto simp: st2_def split: if_splits)
  then have st2: "st2 = st1" unfolding st2_def by (rule if_not_P)
  have r: "st1 = record_edge st e" "edge_seen st e \<or> length (gw_edges st) < tl_max_edges lim"
    using t2 unfolding st2 by (auto simp: st1_def record_edge_def split: if_splits)
  note IH' = IH [unfolded st2 r(1)]
  have far: "ge_endpoint d e \<in> known root st"
    using known_far unfolding r(1) by (simp add: path_to_None)
  have "gw_edges st' = gw_edges st @ e # es"
    if d: "distinct (map ge_edge_key (e # es))" and u: "\<forall>x \<in> set (e # es). \<not> edge_seen st x"
  proof -
    have e1: "gw_edges (record_edge st e) = gw_edges st @ [e]" using u by (simp add: record_edge_def)
    moreover have "\<forall>x \<in> set es. \<not> edge_seen (record_edge st e) x"
      by (rule unseen_after [OF _ _ e1]) (use d u in simp_all)
    ultimately show ?thesis using IH' d by auto
  qed
  moreover have "length (gw_edges st') \<le> tl_max_edges lim" if "length (gw_edges st) \<le> tl_max_edges lim"
    using IH' r(2) that by (auto simp: record_edge_def split: if_splits)
  ultimately show ?case using IH' o far by simp
qed simp

lemma probe_frontier_clean:
  assumes "probe_frontier root d lim ks m st = Inr st'" "gw_trunc st' = {}"
  shows "gw_trunc st = {} \<and> gw_visited st' = gw_visited st
    \<and> ge_endpoint d ` set (concat (map m ks)) \<subseteq> known root st
    \<and> (length (gw_edges st) \<le> tl_max_edges lim \<longrightarrow> length (gw_edges st') \<le> tl_max_edges lim)
    \<and> (distinct (map ge_edge_key (concat (map m ks)))
        \<and> (\<forall>e \<in> set (concat (map m ks)). \<not> edge_seen st e)
       \<longrightarrow> gw_edges st' = gw_edges st @ concat (map m ks))"
  using assms
proof (induction ks arbitrary: st)
  case (Cons k ks)
  then obtain st1 where st1: "probe_edges root d lim k (m k) st = Inr st1"
    and go: "probe_frontier root d lim ks m st1 = Inr st'"
    by (auto simp: result_simps)
  note B = Cons.IH [OF go Cons.prems(2)]
  then have t1: "gw_trunc st1 = {}" by blast
  note A = probe_edges_clean [OF st1 t1]
  have kn: "known root st1 = known root st" using A by (simp add: known_def)
  have "gw_edges st' = gw_edges st @ concat (map m (k # ks))"
    if d: "distinct (map ge_edge_key (concat (map m (k # ks))))"
      and u: "\<forall>e \<in> set (concat (map m (k # ks))). \<not> edge_seen st e"
  proof -
    have e1: "gw_edges st1 = gw_edges st @ m k" using A d u by auto
    moreover have "\<forall>e \<in> set (concat (map m ks)). \<not> edge_seen st1 e"
      by (rule unseen_after [OF _ _ e1]) (use d u in simp_all)
    ultimately show ?thesis using B d by auto
  qed
  with A B kn show ?case by (simp add: image_Un)
qed simp

lemma visit_edges_fresh:
  assumes "visit_edges root d lim depth key es st = Inr st'"
  shows "\<exists>new. gw_visited st' = gw_visited st @ new
    \<and> (\<forall>n \<in> set new. rn_depth n = depth \<and> rn_key n \<notin> known root st)
    \<and> distinct (map rn_key new)"
  using assms
proof (induction es arbitrary: st)
  case (Cons e es)
  from Cons.prems show ?case
  proof (cases rule: visit_edges_step)
    case old
    then show ?thesis using Cons.IH [OF old(1)] by simp
  next
    case (new o_node)
    let ?st = "(record_edge st e)\<lparr>gw_visited := gw_visited st @ [reach d depth o_node e],
           gw_next := gw_next st @ [ge_endpoint d e]\<rparr>"
    from Cons.IH [OF new(1)] obtain more where
      more: "gw_visited st' = gw_visited ?st @ more" "distinct (map rn_key more)"
      "\<forall>n \<in> set more. rn_depth n = depth \<and> rn_key n \<notin> known root ?st" by blast
    have "known root ?st = insert (ge_endpoint d e) (known root st)"
      by (auto simp: known_def reach_def)
    with more new(3) show ?thesis
      by (intro exI [of _ "reach d depth o_node e # more"]) (auto simp: reach_def)
  qed auto
qed simp

lemma visit_frontier_fresh:
  assumes "visit_frontier root d lim depth ks m st = Inr st'"
  shows "\<exists>new. gw_visited st' = gw_visited st @ new
    \<and> (\<forall>n \<in> set new. rn_depth n = depth \<and> rn_key n \<notin> known root st)
    \<and> distinct (map rn_key new)"
  using assms
proof (induction ks arbitrary: st)
  case (Cons k ks)
  from Cons.prems(1) obtain st1 where st1: "visit_edges root d lim depth k (m k) st = Inr st1"
    and rest: "gw_trunc st1 \<noteq> {} \<and> st' = st1
      \<or> gw_trunc st1 = {} \<and> visit_frontier root d lim depth ks m st1 = Inr st'"
    by (rule visit_frontier_step)
  obtain new where new: "gw_visited st1 = gw_visited st @ new" "distinct (map rn_key new)"
    "\<forall>n \<in> set new. rn_depth n = depth \<and> rn_key n \<notin> known root st"
    using visit_edges_fresh [OF st1] by blast
  show ?case
  proof (cases "gw_trunc st1 = {}")
    case False
    with rest new show ?thesis by auto
  next
    case True
    with rest Cons.IH obtain more where more: "gw_visited st' = gw_visited st1 @ more"
      "distinct (map rn_key more)" "\<forall>n \<in> set more. rn_depth n = depth \<and> rn_key n \<notin> known root st1"
      by blast
    have "known root st1 = known root st \<union> rn_key ` set new"
      using new(1) by (auto simp: known_def)
    with more have "x \<notin> rn_key ` set new" if "x \<in> rn_key ` set more" for x
      using that by auto
    then have "rn_key ` set new \<inter> rn_key ` set more = {}" by blast
    then have "distinct (map rn_key (new @ more))" using more(2) new(2) by simp
    then show ?thesis
      using more new \<open>known root st1 = _\<close> by (intro exI [of _ "new @ more"]) auto
  qed
qed simp

lemma probe_edges_visited:
  "probe_edges root d lim key es st = Inr st' \<Longrightarrow> gw_visited st' = gw_visited st"
proof (induction es arbitrary: st)
  case (Cons e es)
  define st2 where "st2 = (let st1 = (if edge_seen st e then st
                    else if tl_max_edges lim \<le> length (gw_edges st)
                      then st\<lparr>gw_trunc := insert TR_MAX_EDGES (gw_trunc st)\<rparr>
                    else record_edge st e)
         in if path_to root st1 (ge_endpoint d e) = None
            then st1\<lparr>gw_trunc := insert TR_MAX_DEPTH (gw_trunc st1)\<rparr> else st1)"
  have "gw_visited st2 = gw_visited st" by (simp add: st2_def Let_def)
  moreover have "probe_edges root d lim key es st2 = Inr st'"
    using Cons.prems unfolding probe_edges.simps Let_def st2_def by (meson sum.distinct)
  ultimately show ?case using Cons.IH by simp
qed simp

lemma probe_frontier_visited:
  "probe_frontier root d lim ks m st = Inr st' \<Longrightarrow> gw_visited st' = gw_visited st"
  by (induction ks arbitrary: st) (auto simp: result_simps dest: probe_edges_visited)

text \<open>How a walk ends: at an empty frontier or a limit, or by probing what the depth limit left.\<close>

lemma expand_walk_cases:
  assumes "expand_walk root d lim nbrs s = Inr (st, s')"
  obtains (ended) fr where
      "expand_levels root d lim nbrs (tl_max_depth lim) 0 [root] start_state s = Inr (fr, st, s')"
      "fr = [] \<or> gw_trunc st \<noteq> {}" "root \<noteq> []"
    | (probed) fr st1 s1 m where
      "expand_levels root d lim nbrs (tl_max_depth lim) 0 [root] start_state s = Inr (fr, st1, s1)"
      "gw_trunc st1 = {}" "nbrs d fr s1 = (m, s')" "probe_frontier root d lim fr m st1 = Inr st"
      "root \<noteq> []"
proof -
  from assms have root: "root \<noteq> []" by (auto simp: expand_walk_def)
  with assms obtain x
    where x: "expand_levels root d lim nbrs (tl_max_depth lim) 0 [root] start_state s = Inr x"
    unfolding expand_walk_def by (auto simp: result_simps simp del: split_paired_Ex)
  obtain fr st1 s1 where [simp]: "x = (fr, st1, s1)" by (cases x) auto
  have fin: "(if fr \<noteq> [] \<and> gw_trunc st1 = {} then
             (let (m, s2) = nbrs d fr s1
              in res_bind (probe_frontier root d lim fr m st1) (\<lambda>st'. Inr (st', s2)))
           else Inr (st1, s1)) = Inr (st, s')"
    using assms root x by (simp add: expand_walk_def)
  show thesis
  proof (cases "fr \<noteq> [] \<and> gw_trunc st1 = {}")
    case False
    with fin have "st = st1" "s' = s1" by simp_all
    with False x root show thesis by (intro ended [of fr]) auto
  next
    case True
    obtain m s2 where nb: "nbrs d fr s1 = (m, s2)" by fastforce
    with fin True have "probe_frontier root d lim fr m st1 = Inr st" "s' = s2"
      by (auto simp: result_simps)
    with True x nb root show thesis by (intro probed [of fr st1 s1 m]) auto
  qed
qed

subsection \<open>The provider's contract, and what the walk makes of it\<close>

text \<open>
  What \<open>expand\<close> relies on: a provider serves real edges out of the keys it was asked about,
  counts every row it serves, and leaves an edge out only when its row budget is used up.
\<close>

inductive reaches :: "direction \<Rightarrow> (string \<Rightarrow> graph_edge set) \<Rightarrow> string \<Rightarrow> string \<Rightarrow> bool"
  for d out root where
  reaches_root: "reaches d out root root"
| reaches_step: "reaches d out root k \<Longrightarrow> e \<in> out k \<Longrightarrow> reaches d out root (ge_endpoint d e)"

primrec within :: "direction \<Rightarrow> (string \<Rightarrow> graph_edge set) \<Rightarrow> string \<Rightarrow> nat \<Rightarrow> string set" where
  "within d out root 0 = {root}"
| "within d out root (Suc n) =
     within d out root n \<union> (\<Union>k \<in> within d out root n. ge_endpoint d ` out k)"

lemma within_reaches: "k \<in> within d out root n \<Longrightarrow> reaches d out root k"
  by (induction n arbitrary: k) (auto intro: reaches.intros)

lemma within_closed:
  assumes "\<And>k. k \<in> within d out root n \<Longrightarrow> ge_endpoint d ` out k \<subseteq> within d out root n"
  shows "reaches d out root k \<longleftrightarrow> k \<in> within d out root n"
proof
  assume "reaches d out root k"
  then show "k \<in> within d out root n"
  proof induction
    case reaches_root
    show ?case by (induction n) auto
  next
    case (reaches_step k e)
    then show ?case using assms by blast
  qed
qed (rule within_reaches)

lemma within_mono: "m \<le> n \<Longrightarrow> within d out root m \<subseteq> within d out root n"
  by (rule lift_Suc_mono_le) auto

lemma walk_within:
  assumes "edge_walk d root es" "\<forall>e \<in> set es. e \<in> out (ge_origin d e)"
  shows "walk_end d root es \<in> within d out root (length es)"
  using assms
proof (induction es rule: rev_induct)
  case Nil
  then show ?case by (simp add: walk_end_def)
next
  case (snoc e es)
  then show ?case by (auto simp: edge_walk_snoc walk_end_snoc)
qed

locale budgeted_provider =
  fixes nbrs :: "'s provider" and out :: "direction \<Rightarrow> string \<Rightarrow> graph_edge set"
    and spent :: "'s \<Rightarrow> nat" and budget :: nat
  assumes served_sound: "nbrs d ks s = (m, s') \<Longrightarrow> k \<in> set ks \<Longrightarrow> set (m k) \<subseteq> out d k"
    and served_once: "nbrs d ks s = (m, s') \<Longrightarrow> distinct ks
      \<Longrightarrow> distinct (map ge_edge_key (concat (map m ks)))"
    and served_counted: "nbrs d ks s = (m, s') \<Longrightarrow> distinct ks
      \<Longrightarrow> spent s' = spent s + length (concat (map m ks))"
    and served_all: "nbrs d ks s = (m, s') \<Longrightarrow> spent s' < budget \<Longrightarrow> k \<in> set ks \<Longrightarrow> out d k \<subseteq> set (m k)"
    and out_origin: "e \<in> out d k \<Longrightarrow> ge_origin d e = k"
    and out_key: "e \<in> out d k \<Longrightarrow> f \<in> out d j \<Longrightarrow> ge_edge_key e = ge_edge_key f \<Longrightarrow> e = f"
begin

text \<open>The invariant of the level loop; \<open>s0\<close> is the provider's state when the walk began.\<close>

definition level_ok ::
  "string \<Rightarrow> direction \<Rightarrow> traversal_limits \<Rightarrow> 's \<Rightarrow> nat \<Rightarrow> string list \<Rightarrow> walk_state \<Rightarrow> 's \<Rightarrow> bool" where
  "level_ok root d lim s0 depth frontier st s \<longleftrightarrow>
     known root st = within d (out d) root depth
     \<and> distinct frontier \<and> set frontier \<subseteq> known root st
     \<and> (\<forall>k \<in> known root st - set frontier. ge_endpoint d ` out d k \<subseteq> known root st \<and> out d k \<subseteq> set (gw_edges st))
     \<and> (\<forall>e \<in> set (gw_edges st). e \<in> out d (ge_origin d e)
          \<and> ge_origin d e \<in> known root st - set frontier)
     \<and> distinct (map ge_edge_key (gw_edges st))
     \<and> spent s = spent s0 + length (gw_edges st) \<and> length (gw_edges st) \<le> tl_max_edges lim
     \<and> (\<forall>n \<in> set (gw_visited st). \<forall>j. rn_key n \<in> within d (out d) root j \<longrightarrow> rn_depth n \<le> j)"

lemma batch_unseen:
  assumes "level_ok root d lim s0 depth frontier st s" "nbrs d frontier s = (m, s')"
  shows "\<forall>e \<in> set (concat (map m frontier)). \<not> edge_seen st e"
proof
  fix e assume "e \<in> set (concat (map m frontier))"
  then obtain k where k: "k \<in> set frontier" "e \<in> set (m k)" by auto
  then have e: "e \<in> out d k" using served_sound [OF assms(2)] by auto
  show "\<not> edge_seen st e"
  proof
    assume "edge_seen st e"
    then obtain f where f: "f \<in> set (gw_edges st)" "ge_edge_key f = ge_edge_key e"
      by (auto simp: edge_seen_def)
    then have "f \<in> out d (ge_origin d f)" "ge_origin d f \<notin> set frontier"
      using assms(1) by (auto simp: level_ok_def)
    with f(2) e out_key out_origin k(1) show False by metis
  qed
qed

lemma batch_distinct:
  assumes "\<forall>e \<in> set es. \<not> edge_seen st e" "distinct (map ge_edge_key (gw_edges st))" "distinct (map ge_edge_key es)"
  shows "distinct (map ge_edge_key (gw_edges st @ es))"
  using assms by (auto simp: edge_seen_def image_iff) metis

lemma batch_all:
  assumes "nbrs d frontier s = (m, s')" "spent s' < budget"
  shows "ge_endpoint d ` set (concat (map m frontier)) = (\<Union>k \<in> set frontier. ge_endpoint d ` out d k)"
  using served_sound [OF assms(1)] served_all [OF assms] by (auto; blast)

lemma level_ok_closed:
  "level_ok root d lim s0 depth frontier st s \<Longrightarrow> k \<in> known root st \<Longrightarrow> k \<notin> set frontier
    \<Longrightarrow> ge_endpoint d ` out d k \<subseteq> known root st"
  unfolding level_ok_def by blast

lemma level_ok_edges:
  "level_ok root d lim s0 depth frontier st s \<Longrightarrow> k \<in> known root st \<Longrightarrow> k \<notin> set frontier
    \<Longrightarrow> out d k \<subseteq> set (gw_edges st)"
  unfolding level_ok_def by blast

lemma level_ok_served:
  "level_ok root d lim s0 depth frontier st s \<Longrightarrow> set (gw_edges st) \<subseteq> (\<Union>k \<in> known root st. out d k)"
  unfolding level_ok_def by blast

lemma batch_edges:
  assumes "nbrs d frontier s = (m, s')" "spent s' < budget" "k \<in> set frontier"
  shows "out d k \<subseteq> set (concat (map m frontier))"
  using served_all [OF assms] assms(3) by auto

lemma level_step:
  assumes ok: "level_ok root d lim s0 depth frontier st s" and nb: "nbrs d frontier s = (m, s')"
    and go: "visit_frontier root d lim (Suc depth) frontier m (st\<lparr>gw_next := []\<rparr>) = Inr st'"
    and clean: "gw_trunc st' = {}" and room: "spent s0 + tl_max_edges lim < budget"
  shows "level_ok root d lim s0 (Suc depth) (gw_next st') st' s'"
proof -
  let ?es = "concat (map m frontier)" and ?st = "st\<lparr>gw_next := []\<rparr>"
  have kn0: "known root ?st = known root st" and seen0: "edge_seen ?st = edge_seen st"
    by (simp_all add: known_def edge_seen_def fun_eq_iff)
  note C = visit_frontier_clean [OF go clean, unfolded kn0 seen0]
  have d: "distinct frontier" and dk: "distinct (map ge_edge_key ?es)"
    using ok served_once [OF nb] by (auto simp: level_ok_def)
  have edges: "gw_edges st' = gw_edges st @ ?es"
    using C dk batch_unseen [OF ok nb] by simp
  have once: "distinct (map ge_edge_key (gw_edges st'))"
    using ok dk batch_distinct [OF batch_unseen [OF ok nb]] by (simp add: edges level_ok_def)
  have few: "length (gw_edges st') \<le> tl_max_edges lim"
    using C ok by (simp add: level_ok_def)
  have count: "spent s' = spent s0 + length (gw_edges st')"
    using served_counted [OF nb d] ok edges by (simp add: level_ok_def)
  then have "spent s' < budget" using few room by simp
  note all = batch_all [OF nb this]
  have kn: "known root st' = known root st \<union> (\<Union>k \<in> set frontier. ge_endpoint d ` out d k)"
    and nx: "set (gw_next st') = (\<Union>k \<in> set frontier. ge_endpoint d ` out d k) - known root st"
    using C all by simp_all
  have closed: "ge_endpoint d ` out d k \<subseteq> known root st'" if "k \<in> known root st" for k
  proof (cases "k \<in> set frontier")
    case True
    then show ?thesis using kn by blast
  next
    case False
    then have "ge_endpoint d ` out d k \<subseteq> known root st" using level_ok_closed [OF ok that] by simp
    then show ?thesis using kn by blast
  qed
  have kept: "out d k \<subseteq> set (gw_edges st')" if "k \<in> known root st" for k
    using level_ok_edges [OF ok that] batch_edges [OF nb \<open>spent s' < budget\<close>] unfolding edges by (cases "k \<in> set frontier") auto
  have prev: "known root st = within d (out d) root depth" "set frontier \<subseteq> known root st"
    using ok unfolding level_ok_def by blast+
  have at_depth: "known root st' = within d (out d) root (Suc depth)"
  proof
    show "known root st' \<subseteq> within d (out d) root (Suc depth)" using kn prev by auto
    show "within d (out d) root (Suc depth) \<subseteq> known root st'"
      unfolding within.simps prev(1) [symmetric] by (intro Un_least UN_least closed) (use kn in blast)+
  qed
  have dn: "distinct (gw_next st')" using C by simp
  have rest: "known root st' - set (gw_next st') = known root st" using kn nx by blast
  have origins: "e \<in> out d (ge_origin d e) \<and> ge_origin d e \<in> known root st" if "e \<in> set (gw_edges st')" for e
  proof (cases "e \<in> set (gw_edges st)")
    case True
    then show ?thesis using ok unfolding level_ok_def by blast
  next
    case False
    with that edges obtain k where k: "k \<in> set frontier" "e \<in> set (m k)" by auto
    then have "e \<in> out d k" using served_sound [OF nb] by blast
    then show ?thesis using out_origin k(1) prev(2) by blast
  qed
  have shortest: "rn_depth n \<le> j" if n: "n \<in> set (gw_visited st')" "rn_key n \<in> within d (out d) root j" for n j
  proof -
    obtain new where new: "gw_visited st' = gw_visited st @ new"
      "\<forall>n \<in> set new. rn_depth n = Suc depth \<and> rn_key n \<notin> known root st"
      using visit_frontier_fresh [OF go] kn0 by auto
    show ?thesis
    proof (cases "n \<in> set (gw_visited st)")
      case True
      then show ?thesis using ok n(2) by (simp add: level_ok_def)
    next
      case False
      with n(1) new(1) have "n \<in> set new" by simp
      then have fresh: "rn_depth n = Suc depth" "rn_key n \<notin> within d (out d) root depth"
        using new(2) prev(1) by simp_all
      have "\<not> j \<le> depth" using subsetD [OF within_mono n(2)] fresh(2) by metis
      then show ?thesis using fresh(1) by simp
    qed
  qed
  have "set (gw_next st') \<subseteq> known root st'"
    unfolding nx kn by (rule le_supI2) (rule Diff_subset)
  then show ?thesis
    unfolding level_ok_def rest
    by (intro conjI ballI allI impI at_depth dn count few shortest closed kept once) (simp_all add: origins)
qed

lemma levels_clean:
  assumes "expand_levels root d lim nbrs r depth frontier st s = Inr (frontier', st', s')"
    and "gw_trunc st' = {}" "spent s0 + tl_max_edges lim < budget"
    and "level_ok root d lim s0 depth frontier st s"
  shows "\<exists>depth'. level_ok root d lim s0 depth' frontier' st' s'"
  using assms(1,4)
proof (induction r arbitrary: depth frontier st s)
  case 0
  then show ?case by auto
next
  case (Suc r)
  show ?case
  proof (cases "frontier = [] \<or> gw_trunc st \<noteq> {}")
    case True
    with Suc.prems show ?thesis by auto
  next
    case False
    obtain m s1 where nb: "nbrs d frontier s = (m, s1)" by fastforce
    with Suc.prems(1) False obtain st1
      where go: "visit_frontier root d lim (Suc depth) frontier m (st\<lparr>gw_next := []\<rparr>) = Inr st1"
      and more: "expand_levels root d lim nbrs r (Suc depth) (gw_next st1) st1 s1 = Inr (frontier', st', s')"
      by (auto simp: result_simps)
    have "gw_trunc st1 = {}"
      using more assms(2) by (cases r) (auto split: if_splits)
    then show ?thesis
      using Suc.IH [OF more] level_step [OF Suc.prems(2) nb go] assms(3) by simp
  qed
qed

text \<open>A walk that reports nothing cut short knows exactly the reachable keys.\<close>

lemma walk_clean:
  assumes "expand_walk root d lim nbrs s0 = Inr (st, s')" "gw_trunc st = {}"
    and room: "spent s0 + tl_max_edges lim < budget"
  shows "known root st = {k. reaches d (out d) root k}
    \<and> (\<forall>n \<in> set (gw_visited st). \<forall>j. rn_key n \<in> within d (out d) root j \<longrightarrow> rn_depth n \<le> j)
    \<and> spent s' = spent s0 + length (gw_edges st) \<and> set (gw_edges st) = (\<Union>k \<in> known root st. out d k)
    \<and> distinct (map ge_edge_key (gw_edges st))"
proof -
  have start: "level_ok root d lim s0 0 [root] start_state s0"
    by (simp add: level_ok_def start_state_def known_def)
  from assms(1) show ?thesis
  proof (cases rule: expand_walk_cases)
    case (ended fr)
    with assms(2) have "fr = []" by simp
    with levels_clean [OF ended(1) assms(2) room start] obtain depth
      where ok: "level_ok root d lim s0 depth [] st s'" by auto
    then have "known root st = within d (out d) root depth" by (simp add: level_ok_def)
    moreover have "ge_endpoint d ` out d k \<subseteq> known root st" if "k \<in> known root st" for k
      using level_ok_closed [OF ok that] by simp
    ultimately have "known root st = {k. reaches d (out d) root k}"
      using within_closed [of d "out d" root depth] by auto
    moreover have "set (gw_edges st) = (\<Union>k \<in> known root st. out d k)"
    proof
      show "set (gw_edges st) \<subseteq> (\<Union>k \<in> known root st. out d k)" using level_ok_served [OF ok] .
      show "(\<Union>k \<in> known root st. out d k) \<subseteq> set (gw_edges st)" using level_ok_edges [OF ok] by (intro UN_least) simp
    qed
    ultimately show ?thesis using ok by (simp add: level_ok_def)
  next
    case (probed fr st1 s1 m)
    note nb = probed(3) and pr = probed(4)
    obtain depth where ok: "level_ok root d lim s0 depth fr st1 s1"
      using levels_clean [OF probed(1,2) room start] by auto
    let ?es = "concat (map m fr)"
    note C = probe_frontier_clean [OF pr assms(2)]
    have dk: "distinct fr" "distinct (map ge_edge_key ?es)"
      using ok served_once [OF nb] by (auto simp: level_ok_def)
    have edges: "gw_edges st = gw_edges st1 @ ?es"
      using C dk(2) batch_unseen [OF ok nb] by simp
    have few: "length (gw_edges st) \<le> tl_max_edges lim"
      using C ok by (simp add: level_ok_def)
    have count: "spent s' = spent s0 + length (gw_edges st)"
      using served_counted [OF nb dk(1)] ok edges by (simp add: level_ok_def)
    then have "spent s' < budget" using few room by simp
    note all = batch_all [OF nb this]
    have vis: "gw_visited st = gw_visited st1" and kn: "known root st = known root st1"
      using C by (simp_all add: known_def)
    have depth: "known root st = within d (out d) root depth"
      using ok kn by (simp add: level_ok_def)
    have "ge_endpoint d ` set ?es \<subseteq> known root st" using C kn by blast
    then have "ge_endpoint d ` out d k \<subseteq> known root st" if k: "k \<in> known root st" for k
      using level_ok_closed [OF ok] k unfolding all kn by blast
    then have "known root st = {k. reaches d (out d) root k}"
      using within_closed [of d "out d" root depth] depth by auto
    moreover have "set (gw_edges st) = (\<Union>k \<in> known root st. out d k)"
    proof
      have "set fr \<subseteq> known root st" using ok unfolding kn level_ok_def by blast
      then have "set ?es \<subseteq> (\<Union>k \<in> known root st. out d k)" using served_sound [OF nb] by fastforce
      moreover have "set (gw_edges st1) \<subseteq> (\<Union>k \<in> known root st. out d k)" using level_ok_served [OF ok] unfolding kn .
      ultimately show "set (gw_edges st) \<subseteq> (\<Union>k \<in> known root st. out d k)" unfolding edges by simp
      show "(\<Union>k \<in> known root st. out d k) \<subseteq> set (gw_edges st)"
        using level_ok_edges [OF ok] batch_edges [OF nb \<open>spent s' < budget\<close>] unfolding edges kn set_append by blast
    qed
    moreover have "distinct (map ge_edge_key (gw_edges st))"
      using ok dk(2) batch_distinct [OF batch_unseen [OF ok nb]] by (simp add: edges level_ok_def)
    ultimately show ?thesis using ok vis count by (simp add: level_ok_def)
  qed
qed

text \<open>Whatever was cut short, the nodes of a walk are explained by edges served.\<close>

lemma levels_nodes:
  assumes "expand_levels root d lim nbrs r depth frontier st s = Inr (frontier', st', s')"
    and "nodes_ok root d (\<Union>k. out d k) depth st"
    and "\<forall>k \<in> set frontier. \<exists>n. path_to root st k = Some n \<and> rn_depth n = depth"
  shows "\<exists>depth' \<le> depth + r. nodes_ok root d (\<Union>k. out d k) depth' st'"
  using assms
proof (induction r arbitrary: depth frontier st s)
  case 0
  then show ?case by auto
next
  case (Suc r)
  show ?case
  proof (cases "frontier = [] \<or> gw_trunc st \<noteq> {}")
    case True
    with Suc.prems have "st' = st" by auto
    with Suc.prems(2) show ?thesis by (intro exI [of _ depth]) simp
  next
    case False
    obtain m s1 where nb: "nbrs d frontier s = (m, s1)" by fastforce
    with Suc.prems(1) False obtain st1
      where go: "visit_frontier root d lim (Suc depth) frontier m (st\<lparr>gw_next := []\<rparr>) = Inr st1"
      and more: "expand_levels root d lim nbrs r (Suc depth) (gw_next st1) st1 s1 = Inr (frontier', st', s')"
      by (auto simp: result_simps)
    have p: "path_to root (st\<lparr>gw_next := []\<rparr>) = path_to root st" by (simp add: path_to_def fun_eq_iff)
    have "nodes_ok root d (\<Union>k. out d k) (Suc depth) st1"
      by (rule visit_frontier_nodes [OF go])
        (use served_sound [OF nb] Suc.prems(2,3) in \<open>fastforce simp: nodes_ok_def p\<close>)+
    then show ?thesis
      using Suc.IH [OF more] by (fastforce simp: nodes_ok_def)
  qed
qed

lemma walk_nodes:
  assumes "expand_walk root d lim nbrs s0 = Inr (st, s')" "n \<in> set (gw_visited st)"
  shows "node_explained d root (\<Union>k. out d k) n \<and> rn_depth n \<le> tl_max_depth lim"
proof -
  have start: "nodes_ok root d (\<Union>k. out d k) 0 start_state"
    "\<forall>k \<in> set [root]. \<exists>n. path_to root start_state k = Some n \<and> rn_depth n = 0"
    by (simp_all add: nodes_ok_def start_state_def path_to_def root_node_def)
  from assms(1) show ?thesis
  proof (cases rule: expand_walk_cases)
    case (ended fr)
    from levels_nodes [OF ended(1) start] show ?thesis
      using assms(2) by (fastforce simp: nodes_ok_def)
  next
    case (probed fr st1 s1 m)
    from levels_nodes [OF probed(1) start] probe_frontier_visited [OF probed(4)] show ?thesis
      using assms(2) by (fastforce simp: nodes_ok_def)
  qed
qed

end

subsection \<open>The repository\<close>

text \<open>
  The rows the row reader accepts, with the primary key of the table they come from. A statement
  returns the rows out of a chunk of keys, ordered, at most \<open>remaining\<close> of them. The order of text
  in the database is its collation, the parameter \<open>coll\<close>.
\<close>

typedef edge_table =
  "{t :: graph_edge list. distinct (map ge_edge_key t) \<and> (\<forall>e \<in> set t. mk_graph_edge e = Inr e)}"
  morphisms edge_rows Edge_Table
  by (rule exI [of _ "[]"]) simp

definition EDGE_FETCH_CEILING :: int where "EDGE_FETCH_CEILING = MAX_EDGES_CEILING + 1"

definition KEY_CHUNK :: nat where "KEY_CHUNK = 5000"

definition edge_fetch_limit :: "int \<Rightarrow> nat" where
  "edge_fetch_limit n = nat (max 1 (min n EDGE_FETCH_CEILING))"

function chunks_of :: "'a list \<Rightarrow> nat \<Rightarrow> 'a list list" where
  "chunks_of values n =
     (if values = [] \<or> n = 0 then [] else take n values # chunks_of (drop n values) n)"
  by pat_completeness auto
termination by (relation "measure (length \<circ> fst)") auto

declare chunks_of.simps [simp del]

definition select_edges ::
  "(string \<Rightarrow> 'c::linorder) \<Rightarrow> graph_edge list \<Rightarrow> direction \<Rightarrow> string list \<Rightarrow> nat \<Rightarrow> graph_edge list" where
  "select_edges coll table d chunk remaining =
     take remaining
       (sort_key (\<lambda>e. (coll (ge_origin d e), coll (ge_endpoint d e), coll (ge_edge_key e)))
         (filter (\<lambda>e. ge_origin d e \<in> set chunk) table))"

fun fetch_chunks ::
  "(string \<Rightarrow> 'c::linorder) \<Rightarrow> graph_edge list \<Rightarrow> nat \<Rightarrow> direction \<Rightarrow> string list list \<Rightarrow> graph_edge list
   \<Rightarrow> nat \<Rightarrow> graph_edge list \<times> nat" where
  "fetch_chunks coll table limit d [] rows fetched = (rows, fetched)"
| "fetch_chunks coll table limit d (c # cs) rows fetched =
     (if limit \<le> fetched then (rows, fetched)
      else (let new = select_edges coll table d c (limit - fetched)
            in fetch_chunks coll table limit d cs (rows @ new) (fetched + length new)))"

text \<open>The repository's state is \<open>_edges_fetched\<close>.\<close>

definition neighbors ::
  "(string \<Rightarrow> 'c::linorder) \<Rightarrow> graph_edge list \<Rightarrow> nat \<Rightarrow> nat provider" where
  "neighbors coll table limit d ks fetched =
     (if ks = [] then (\<lambda>_. [], fetched)
      else (let (rows, fetched') = fetch_chunks coll table limit d (chunks_of (dict_fromkeys ks) KEY_CHUNK) [] fetched
            in (\<lambda>k. filter (\<lambda>e. ge_origin d e = k) rows, fetched')))"

definition edges_out :: "graph_edge list \<Rightarrow> direction \<Rightarrow> string \<Rightarrow> graph_edge set" where
  "edges_out table d k = {e \<in> set table. ge_origin d e = k}"

lemma concat_chunks_of: "0 < n \<Longrightarrow> concat (chunks_of xs n) = xs"
proof (induction xs n rule: chunks_of.induct)
  case (1 xs n)
  then show ?case by (subst chunks_of.simps) auto
qed

lemma edge_rows_key:
  "e \<in> set (edge_rows tb) \<Longrightarrow> f \<in> set (edge_rows tb) \<Longrightarrow> ge_edge_key e = ge_edge_key f \<Longrightarrow> e = f"
  using edge_rows [of tb] by (auto simp: distinct_map inj_on_def)

lemma distinct_edge_rows: "distinct (map ge_edge_key (edge_rows tb))"
  using edge_rows [of tb] by simp

lemma select_edges_spec:
  fixes coll :: "string \<Rightarrow> 'c::linorder"
  shows "set (select_edges coll (edge_rows tb) d c r) \<subseteq> {e \<in> set (edge_rows tb). ge_origin d e \<in> set c}"
    and "distinct (map ge_edge_key (select_edges coll (edge_rows tb) d c r))"
    and "length (select_edges coll (edge_rows tb) d c r) < r
      \<Longrightarrow> set (select_edges coll (edge_rows tb) d c r) = {e \<in> set (edge_rows tb). ge_origin d e \<in> set c}"
proof -
  define ys where "ys = sort_key (\<lambda>e. (coll (ge_origin d e), coll (ge_endpoint d e), coll (ge_edge_key e)))
         (filter (\<lambda>e. ge_origin d e \<in> set c) (edge_rows tb))"
  have eq: "select_edges coll (edge_rows tb) d c r = take r ys" by (simp add: select_edges_def ys_def)
  have ys: "set ys = {e \<in> set (edge_rows tb). ge_origin d e \<in> set c}" by (auto simp: ys_def)
  have "distinct ys" "inj_on ge_edge_key (set ys)"
    using distinct_edge_rows [of tb] by (auto simp: ys_def distinct_map inj_on_def)
  then have dys: "distinct (map ge_edge_key ys)" by (simp add: distinct_map)
  show "set (select_edges coll (edge_rows tb) d c r) \<subseteq> {e \<in> set (edge_rows tb). ge_origin d e \<in> set c}"
    using set_take_subset [of r ys] by (simp add: eq ys)
  show "distinct (map ge_edge_key (select_edges coll (edge_rows tb) d c r))"
    using dys by (simp add: eq take_map [symmetric] distinct_take)
  show "set (select_edges coll (edge_rows tb) d c r) = {e \<in> set (edge_rows tb). ge_origin d e \<in> set c}"
    if "length (select_edges coll (edge_rows tb) d c r) < r"
    using that ys by (simp add: eq)
qed

lemma fetch_chunks_spec:
  assumes "fetch_chunks coll (edge_rows tb) limit d cs rows s = (rows', s')" "distinct (concat cs)"
  shows "\<exists>new. rows' = rows @ new \<and> s' = s + length new
    \<and> set new \<subseteq> {e \<in> set (edge_rows tb). ge_origin d e \<in> set (concat cs)}
    \<and> distinct (map ge_edge_key new)
    \<and> (s' < limit \<longrightarrow> set new = {e \<in> set (edge_rows tb). ge_origin d e \<in> set (concat cs)})"
  using assms
proof (induction cs arbitrary: rows s)
  case Nil
  then show ?case by auto
next
  case (Cons c cs)
  show ?case
  proof (cases "limit \<le> s")
    case True
    with Cons.prems show ?thesis by auto
  next
    case False
    define a where "a = select_edges coll (edge_rows tb) d c (limit - s)"
    have "fetch_chunks coll (edge_rows tb) limit d cs (rows @ a) (s + length a) = (rows', s')"
      using Cons.prems(1) False by (simp add: a_def Let_def)
    from Cons.IH [OF this] Cons.prems(2) obtain b where
      b: "rows' = rows @ a @ b" "s' = s + length a + length b" "distinct (map ge_edge_key b)"
      "set b \<subseteq> {e \<in> set (edge_rows tb). ge_origin d e \<in> set (concat cs)}"
      "s' < limit \<longrightarrow> set b = {e \<in> set (edge_rows tb). ge_origin d e \<in> set (concat cs)}"
      by auto
    note A = select_edges_spec [of coll tb d c "limit - s", folded a_def]
    have "ge_edge_key ` set a \<inter> ge_edge_key ` set b = {}"
    proof (rule ccontr)
      assume "ge_edge_key ` set a \<inter> ge_edge_key ` set b \<noteq> {}"
      then obtain e f where "e \<in> set a" "f \<in> set b" "ge_edge_key e = ge_edge_key f" by auto
      moreover from this have "e = f" using A(1) b(4) edge_rows_key by blast
      ultimately show False using A(1) b(4) Cons.prems(2) by auto
    qed
    with A b show ?thesis by (intro exI [of _ "a @ b"]) auto
  qed
qed

lemma mset_by_key:
  "distinct ks \<Longrightarrow> mset (concat (map (\<lambda>k. filter (\<lambda>x. f x = k) xs) ks)) = mset (filter (\<lambda>x. f x \<in> set ks) xs)"
proof (induction ks)
  case (Cons k ks)
  have "mset (filter (\<lambda>x. f x \<in> set (k # ks)) xs)
      = mset (filter (\<lambda>x. f x = k) xs) + mset (filter (\<lambda>x. f x \<in> set ks) xs)"
    using Cons.prems by (induction xs) auto
  with Cons show ?case by simp
qed simp

lemma neighbors_spec:
  assumes "neighbors coll (edge_rows tb) limit d ks s = (m, s')"
  shows "\<exists>rows. m = (\<lambda>k. filter (\<lambda>e. ge_origin d e = k) rows) \<and> s' = s + length rows
    \<and> set rows \<subseteq> {e \<in> set (edge_rows tb). ge_origin d e \<in> set ks} \<and> distinct (map ge_edge_key rows)
    \<and> (s' < limit \<longrightarrow> set rows = {e \<in> set (edge_rows tb). ge_origin d e \<in> set ks})"
proof (cases "ks = []")
  case True
  with assms show ?thesis by (intro exI [of _ "[]"]) (auto simp: neighbors_def)
next
  case False
  obtain rows t where f: "fetch_chunks coll (edge_rows tb) limit d (chunks_of (dict_fromkeys ks) KEY_CHUNK) [] s = (rows, t)"
    by fastforce
  have c: "concat (chunks_of (dict_fromkeys ks) KEY_CHUNK) = dict_fromkeys ks"
    by (rule concat_chunks_of) (simp add: KEY_CHUNK_def)
  from fetch_chunks_spec [OF f] assms False f show ?thesis
    unfolding c by (intro exI [of _ rows]) (auto simp: neighbors_def)
qed

interpretation repository: budgeted_provider "neighbors coll (edge_rows tb) limit" "edges_out (edge_rows tb)" "\<lambda>s. s" limit
  for coll :: "string \<Rightarrow> 'c::linorder" and tb limit
proof (unfold_locales, goal_cases)
  case (1 d ks s m s' k)
  then show ?case using neighbors_spec [OF 1(1)] by (auto simp: edges_out_def)
next
  case (2 d ks s m s')
  obtain rows where r: "m = (\<lambda>k. filter (\<lambda>e. ge_origin d e = k) rows)" "distinct (map ge_edge_key rows)"
    using neighbors_spec [OF 2(1)] by blast
  have "mset (map ge_edge_key (concat (map m ks)))
      = mset (map ge_edge_key (filter (\<lambda>e. ge_origin d e \<in> set ks) rows))"
    unfolding r(1) mset_map mset_by_key [OF 2(2)] ..
  then show ?case
    using r(2) by (metis distinct_map_filter mset_eq_imp_distinct_iff)
next
  case (3 d ks s m s')
  obtain rows where r: "m = (\<lambda>k. filter (\<lambda>e. ge_origin d e = k) rows)" "s' = s + length rows"
    "set rows \<subseteq> {e \<in> set (edge_rows tb). ge_origin d e \<in> set ks}"
    using neighbors_spec [OF 3(1)] by blast
  have "filter (\<lambda>e. ge_origin d e \<in> set ks) rows = rows"
    using r(3) by (intro filter_True) auto
  then have "mset (concat (map m ks)) = mset rows"
    unfolding r(1) mset_by_key [OF 3(2)] by simp
  then show ?case using r(2) mset_eq_length by metis
next
  case (4 d ks s m s' k)
  then show ?case using neighbors_spec [OF 4(1)] by (auto simp: edges_out_def)
next
  case (5 e d k)
  then show ?case by (simp add: edges_out_def)
next
  case (6 e d k f j)
  then show ?case using edge_rows_key by (auto simp: edges_out_def)
qed

subsection \<open>Limits and totality of the walk\<close>

definition within_limits :: "traversal_limits \<Rightarrow> walk_state \<Rightarrow> bool" where
  "within_limits lim st \<longleftrightarrow>
     length (gw_visited st) \<le> tl_max_nodes lim \<and> length (gw_edges st) \<le> tl_max_edges lim"

text \<open>An operation on the loop's variables that keeps the limits, the known keys and their order.\<close>

definition walk_kept :: "string \<Rightarrow> traversal_limits \<Rightarrow> walk_state \<Rightarrow> walk_state \<Rightarrow> bool" where
  "walk_kept root lim st st' \<longleftrightarrow>
     (within_limits lim st \<longrightarrow> within_limits lim st')
     \<and> known root st \<subseteq> known root st'
     \<and> (set (gw_next st) \<subseteq> known root st \<longrightarrow> set (gw_next st') \<subseteq> known root st')
     \<and> (distinct (root # map rn_key (gw_visited st)) \<longrightarrow> distinct (root # map rn_key (gw_visited st')))"

lemma walk_kept_refl [simp]: "walk_kept root lim st st"
  by (simp add: walk_kept_def)

lemma walk_kept_trans:
  "walk_kept root lim a b \<Longrightarrow> walk_kept root lim b c \<Longrightarrow> walk_kept root lim a c"
  unfolding walk_kept_def by blast

lemma record_edge_kept:
  "edge_seen st e \<or> length (gw_edges st) < tl_max_edges lim \<Longrightarrow> walk_kept root lim st (record_edge st e)"
  by (auto simp: walk_kept_def within_limits_def record_edge_def known_def)

lemma trunc_kept [simp]: "walk_kept root lim st (st\<lparr>gw_trunc := t\<rparr>)"
  by (simp add: walk_kept_def within_limits_def known_def)

lemma visit_edges_total:
  assumes "\<forall>e \<in> set es. ge_origin d e = key" "key \<in> known root st"
  shows "\<exists>st'. visit_edges root d lim depth key es st = Inr st' \<and> walk_kept root lim st st'"
  using assms
proof (induction es arbitrary: st)
  case (Cons e es)
  have origin: "ge_origin d e = key" using Cons.prems by simp
  show ?case
  proof (cases "\<not> edge_seen st e \<and> tl_max_edges lim \<le> length (gw_edges st)")
    case True
    then show ?thesis using origin by simp
  next
    case False
    then have k1: "walk_kept root lim st (record_edge st e)" by (intro record_edge_kept) auto
    consider (old) "ge_endpoint d e \<in> known root st"
      | (full) "ge_endpoint d e \<notin> known root st" "tl_max_nodes lim \<le> length (gw_visited st)"
      | (new) "ge_endpoint d e \<notin> known root st" "length (gw_visited st) < tl_max_nodes lim"
      by linarith
    then show ?thesis
    proof cases
      case old
      then have "visit_edges root d lim depth key (e # es) st = visit_edges root d lim depth key es (record_edge st e)"
        using origin False path_to_None [of root st "ge_endpoint d e"] by (auto simp: Let_def)
      then show ?thesis using Cons.IH [of "record_edge st e"] Cons.prems walk_kept_trans [OF k1] by auto
    next
      case full
      then have "visit_edges root d lim depth key (e # es) st
          = Inr ((record_edge st e)\<lparr>gw_trunc := insert TR_MAX_NODES (gw_trunc st)\<rparr>)"
        using origin False path_to_None [of root st "ge_endpoint d e"] by (auto simp: Let_def)
      then show ?thesis using walk_kept_trans [OF k1 trunc_kept] by simp
    next
      case new
      obtain n where n: "path_to root st key = Some n"
        using Cons.prems(2) path_to_None [of root st key] by auto
      let ?st = "(record_edge st e)\<lparr>gw_visited := gw_visited st @ [reach d depth n e],
           gw_next := gw_next st @ [ge_endpoint d e]\<rparr>"
      have kn: "known root ?st = insert (ge_endpoint d e) (known root st)"
        by (auto simp: known_def reach_def)
      have "walk_kept root lim (record_edge st e) ?st"
        using new kn by (auto simp: walk_kept_def within_limits_def known_def reach_def)
      moreover have "visit_edges root d lim depth key (e # es) st = visit_edges root d lim depth key es ?st"
        using origin False new path_to_None [of root st "ge_endpoint d e"] n by (auto simp: Let_def)
      moreover have "key \<in> known root ?st" using Cons.prems(2) kn by simp
      ultimately show ?thesis
        using Cons.IH [of ?st] Cons.prems(1) walk_kept_trans [OF k1 walk_kept_trans] by auto
    qed
  qed
qed simp

lemma visit_frontier_total:
  assumes "\<forall>k \<in> set ks. \<forall>e \<in> set (m k). ge_origin d e = k" "set ks \<subseteq> known root st"
  shows "\<exists>st'. visit_frontier root d lim depth ks m st = Inr st' \<and> walk_kept root lim st st'"
  using assms
proof (induction ks arbitrary: st)
  case (Cons k ks)
  obtain st1 where st1: "visit_edges root d lim depth k (m k) st = Inr st1" "walk_kept root lim st st1"
    using visit_edges_total [of "m k" d k root st lim depth] Cons.prems by auto
  moreover have "set ks \<subseteq> known root st1"
    using Cons.prems(2) st1(2) by (auto simp: walk_kept_def)
  ultimately show ?case
    using Cons.IH [of st1] Cons.prems(1) walk_kept_trans [OF st1(2)] by auto
qed simp

lemma probe_edges_total:
  assumes "\<forall>e \<in> set es. ge_origin d e = key"
  shows "\<exists>st'. probe_edges root d lim key es st = Inr st' \<and> walk_kept root lim st st'"
  using assms
proof (induction es arbitrary: st)
  case (Cons e es)
  define st1 where "st1 = (if edge_seen st e then st
      else if tl_max_edges lim \<le> length (gw_edges st)
        then st\<lparr>gw_trunc := insert TR_MAX_EDGES (gw_trunc st)\<rparr>
      else record_edge st e)"
  define st2 where "st2 = (if path_to root st1 (ge_endpoint d e) = None
      then st1\<lparr>gw_trunc := insert TR_MAX_DEPTH (gw_trunc st1)\<rparr> else st1)"
  have "walk_kept root lim st st1"
    using record_edge_kept [of st e lim root] by (simp add: st1_def)
  moreover have "walk_kept root lim st1 st2" by (simp add: st2_def)
  ultimately have k2: "walk_kept root lim st st2" by (rule walk_kept_trans)
  have "probe_edges root d lim key (e # es) st = probe_edges root d lim key es st2"
    using Cons.prems unfolding probe_edges.simps Let_def st1_def st2_def by simp
  then show ?case using Cons.IH [of st2] Cons.prems walk_kept_trans [OF k2] by auto
qed simp

lemma probe_frontier_total:
  assumes "\<forall>k \<in> set ks. \<forall>e \<in> set (m k). ge_origin d e = k"
  shows "\<exists>st'. probe_frontier root d lim ks m st = Inr st' \<and> walk_kept root lim st st'"
  using assms
proof (induction ks arbitrary: st)
  case (Cons k ks)
  obtain st1 where st1: "probe_edges root d lim k (m k) st = Inr st1" "walk_kept root lim st st1"
    using probe_edges_total [of "m k" d k root lim st] Cons.prems by auto
  then show ?case
    using Cons.IH [of st1] Cons.prems(1) walk_kept_trans [OF st1(2)] by auto
qed simp

context budgeted_provider begin

lemma served_origin:
  "nbrs d ks s = (m, s') \<Longrightarrow> \<forall>k \<in> set ks. \<forall>e \<in> set (m k). ge_origin d e = k"
  using served_sound out_origin by blast

lemma levels_total:
  assumes "set frontier \<subseteq> known root st"
  shows "\<exists>fr st' s'. expand_levels root d lim nbrs r depth frontier st s = Inr (fr, st', s')
    \<and> walk_kept root lim (st\<lparr>gw_next := []\<rparr>) (st'\<lparr>gw_next := []\<rparr>)"
  using assms
proof (induction r arbitrary: depth frontier st s)
  case (Suc r)
  show ?case
  proof (cases "frontier = [] \<or> gw_trunc st \<noteq> {}")
    case False
    obtain m s1 where nb: "nbrs d frontier s = (m, s1)" by fastforce
    have kn: "known root (st\<lparr>gw_next := []\<rparr>) = known root st" by (simp add: known_def)
    obtain st1 where st1: "visit_frontier root d lim (Suc depth) frontier m (st\<lparr>gw_next := []\<rparr>) = Inr st1"
      "walk_kept root lim (st\<lparr>gw_next := []\<rparr>) st1"
      using visit_frontier_total [OF served_origin [OF nb], of root "st\<lparr>gw_next := []\<rparr>" lim "Suc depth"] Suc.prems kn
      by auto
    have "walk_kept root lim st1 (st1\<lparr>gw_next := []\<rparr>)"
      by (simp add: walk_kept_def within_limits_def known_def)
    then have "walk_kept root lim (st\<lparr>gw_next := []\<rparr>) (st1\<lparr>gw_next := []\<rparr>)"
      by (rule walk_kept_trans [OF st1(2)])
    moreover have "set (gw_next st1) \<subseteq> known root st1"
      using st1(2) by (simp add: walk_kept_def)
    ultimately show ?thesis
      using Suc.IH [of "gw_next st1" st1 "Suc depth" s1] False nb st1(1) walk_kept_trans by auto
  qed auto
qed auto

lemma walk_total:
  assumes "root \<noteq> []"
  shows "\<exists>st s'. expand_walk root d lim nbrs s = Inr (st, s') \<and> within_limits lim st
    \<and> distinct (root # map rn_key (gw_visited st))"
proof -
  have start: "within_limits lim (start_state\<lparr>gw_next := []\<rparr>)"
    "distinct (root # map rn_key (gw_visited (start_state\<lparr>gw_next := []\<rparr>)))"
    by (simp_all add: within_limits_def start_state_def)
  obtain fr st s1 where lv: "expand_levels root d lim nbrs (tl_max_depth lim) 0 [root] start_state s = Inr (fr, st, s1)"
    and k: "walk_kept root lim (start_state\<lparr>gw_next := []\<rparr>) (st\<lparr>gw_next := []\<rparr>)"
    using levels_total [of "[root]" root start_state d lim "tl_max_depth lim" 0 s] by (auto simp: known_def)
  from k start have ok: "within_limits lim st" "distinct (root # map rn_key (gw_visited st))"
    by (simp_all add: walk_kept_def within_limits_def)
  obtain m s2 where nb: "nbrs d fr s1 = (m, s2)" by fastforce
  obtain st' where "probe_frontier root d lim fr m st = Inr st'" "walk_kept root lim st st'"
    using probe_frontier_total [OF served_origin [OF nb]] by blast
  with ok lv nb assms show ?thesis
    by (auto simp: expand_walk_def walk_kept_def)
qed

end

subsection \<open>The properties of an expansion\<close>

lemma limits_pairing:
  "mk_traversal_limits dd n e p = Inr lim \<Longrightarrow> edge_fetch_limit (int (tl_max_edges lim) + 1) = Suc (tl_max_edges lim)"
  by (auto simp: mk_traversal_limits_def check_limit_def result_simps edge_fetch_limit_def
      EDGE_FETCH_CEILING_def nat_add_distrib split: if_splits)

lemma expansion_complete_trunc: "expansion_complete st \<longleftrightarrow> gw_trunc st = {}"
proof
  assume c: "expansion_complete st"
  have "r \<notin> gw_trunc st" for r
    using c by (cases r) (simp_all add: expansion_complete_def expansion_truncation_def split: if_splits)
  then show "gw_trunc st = {}" by blast
qed (simp add: expansion_complete_def expansion_truncation_def)

lemma set_expansion_nodes: "set (expansion_nodes st) = set (gw_visited st)"
  by (simp add: expansion_nodes_def)

lemma edges_out_UN: "(\<Union>k. edges_out (edge_rows tb) d k) = set (edge_rows tb)"
  by (auto simp: edges_out_def)

lemmas expansion_simps = expansion_complete_trunc set_expansion_nodes edges_out_UN

definition sample_edge :: "string \<Rightarrow> string \<Rightarrow> string \<Rightarrow> graph_edge" where
  "sample_edge key grp member =
     \<lparr>ge_edge_key = key, ge_group_key = grp, ge_member_key = member, ge_kind = MK_DIRECTORY_GROUP_MEMBER,
      ge_host_key = None, ge_member_kind = None, ge_is_foreign = False\<rparr>"

text \<open>A group with a member and a nested group, which has a member and names the first as its own.\<close>

definition sample_table :: edge_table where
  "sample_table = Edge_Table
     [sample_edge ''1'' ''A'' ''a'', sample_edge ''2'' ''A'' ''B'', sample_edge ''3'' ''B'' ''b'',
      sample_edge ''4'' ''B'' ''A'']"

lemma sample_rows: "edge_rows sample_table =
  [sample_edge ''1'' ''A'' ''a'', sample_edge ''2'' ''A'' ''B'', sample_edge ''3'' ''B'' ''b'',
   sample_edge ''4'' ''B'' ''A'']"
  unfolding sample_table_def
  by (rule Edge_Table_inverse) (simp add: sample_edge_def mk_graph_edge_def)

definition no_collation :: "string \<Rightarrow> nat" where "no_collation x = 0"

definition sample_limits :: traversal_limits where
  "sample_limits = \<lparr>tl_max_depth = 32, tl_max_nodes = 10, tl_max_edges = 6, tl_max_paths = 1\<rparr>"

definition sample_walk :: "(walk_state \<times> nat) result" where
  "sample_walk = expand_walk ''A'' DOWN sample_limits
     (neighbors no_collation (edge_rows sample_table) (edge_fetch_limit 7)) 0"

lemma sample_limits_ok: "mk_traversal_limits 32 10 6 1 = Inr sample_limits"
  by (simp add: mk_traversal_limits_def check_limit_def sample_limits_def MAX_DEPTH_CEILING_def
      MAX_NODES_CEILING_def MAX_EDGES_CEILING_def MAX_PATHS_CEILING_def result_simps)

lemma sample_walk_result:
  "case sample_walk of Inl e \<Rightarrow> False
   | Inr (st, n) \<Rightarrow> n = 4 \<and> expansion_complete st
       \<and> map rn_key (expansion_nodes st) = [''B'', ''a'', ''b''] \<and> map rn_depth (gw_visited st) = [1, 1, 2]"
  unfolding sample_walk_def sample_rows by code_simp

lemma expansion_reaches_all:
  fixes coll :: "string \<Rightarrow> 'c::linorder"
  assumes "mk_traversal_limits max_depth max_nodes max_edges max_paths = Inr lim"
    and walk: "expand_walk root d lim
      (neighbors coll (edge_rows tb) (edge_fetch_limit (int (tl_max_edges lim) + 1))) 0 = Inr (st, fetched)"
    and complete: "expansion_complete st"
  shows "rn_key ` set (expansion_nodes st) = {k. reaches d (edges_out (edge_rows tb) d) root k} - {root}
    \<and> (\<forall>n \<in> set (expansion_nodes st). \<forall>es. set es \<subseteq> set (edge_rows tb) \<and> edge_walk d root es
      \<and> walk_end d root es = rn_key n \<longrightarrow> rn_depth n \<le> length es)"
proof
  let ?out = "edges_out (edge_rows tb) d"
  note pair = limits_pairing [OF assms(1)]
  have root: "root \<noteq> []" using walk by (auto simp: expand_walk_def)
  have known: "known root st = {k. reaches d (edges_out (edge_rows tb) d) root k}"
    and short: "\<forall>n \<in> set (gw_visited st). \<forall>j. rn_key n \<in> within d (edges_out (edge_rows tb) d) root j
      \<longrightarrow> rn_depth n \<le> j"
    using repository.walk_clean [OF walk [unfolded pair]] complete by (simp_all add: expansion_simps)
  have "distinct (root # map rn_key (gw_visited st))"
    using repository.walk_total [OF root] walk by (metis Inr_inject Pair_inject)
  then show "rn_key ` set (expansion_nodes st) = {k. reaches d (edges_out (edge_rows tb) d) root k} - {root}"
    unfolding known [symmetric] by (auto simp: known_def expansion_simps)
  show "\<forall>n \<in> set (expansion_nodes st). \<forall>es. set es \<subseteq> set (edge_rows tb) \<and> edge_walk d root es
      \<and> walk_end d root es = rn_key n \<longrightarrow> rn_depth n \<le> length es"
  proof (intro ballI allI impI)
    fix n es
    assume n: "n \<in> set (expansion_nodes st)"
      and es: "set es \<subseteq> set (edge_rows tb) \<and> edge_walk d root es \<and> walk_end d root es = rn_key n"
    then have "\<forall>e \<in> set es. e \<in> ?out (ge_origin d e)" by (auto simp: edges_out_def)
    then have "rn_key n \<in> within d ?out root (length es)"
      using walk_within [of d root es ?out] es by simp
    then show "rn_depth n \<le> length es" using short n by (simp add: expansion_simps)
  qed
qed

text \<open>
  C10. An expansion that reports itself complete is complete: over a repository paired with the
  traversal (one row more than \<open>max_edges\<close>, nothing read yet), its nodes are exactly the keys
  reachable from the root along the stored edges, the root excluded, whatever the collation, and
  a node's depth is its distance: the length of the chain of stored edges its path shows, and no
  chain of stored edges to it is shorter.
\<close>

theorem expand_complete_reaches_all:
  fixes coll :: "string \<Rightarrow> 'c::linorder"
  assumes "mk_traversal_limits max_depth max_nodes max_edges max_paths = Inr lim"
    and walk: "expand_walk root d lim
      (neighbors coll (edge_rows tb) (edge_fetch_limit (int (tl_max_edges lim) + 1))) 0 = Inr (st, fetched)"
    and complete: "expansion_complete st"
  shows "rn_key ` set (expansion_nodes st) = {k. reaches d (edges_out (edge_rows tb) d) root k} - {root}
    \<and> (\<forall>n \<in> set (expansion_nodes st).
      (\<exists>es. set es \<subseteq> set (edge_rows tb) \<and> edge_walk d root es \<and> walk_end d root es = rn_key n
        \<and> rn_path n = root # map (ge_endpoint d) es \<and> rn_depth n = length es)
      \<and> (\<forall>es. set es \<subseteq> set (edge_rows tb) \<and> edge_walk d root es
        \<and> walk_end d root es = rn_key n \<longrightarrow> rn_depth n \<le> length es))"
proof -
  have "\<exists>es. set es \<subseteq> set (edge_rows tb) \<and> edge_walk d root es \<and> walk_end d root es = rn_key n
      \<and> rn_path n = root # map (ge_endpoint d) es \<and> rn_depth n = length es" if "n \<in> set (expansion_nodes st)" for n
    using repository.walk_nodes [OF walk] that by (auto simp: expansion_simps node_explained_def)
  then show ?thesis using expansion_reaches_all [OF assms] by blast
qed

theorem expand_complete_reaches_all_witness:
  "{''B'', ''a'', ''b''} = {k. reaches DOWN (edges_out (edge_rows sample_table) DOWN) ''A'' k} - {''A''}"
proof -
  obtain st where st: "sample_walk = Inr (st, 4)" "expansion_complete st"
    "map rn_key (expansion_nodes st) = [''B'', ''a'', ''b'']"
    using sample_walk_result by (auto split: sum.splits prod.splits)
  have edges: "int (tl_max_edges sample_limits) + 1 = 7" by (simp add: sample_limits_def)
  have "rn_key ` set (expansion_nodes st) = set [''B'', ''a'', ''b'']"
    using st(3) by (metis set_map)
  then show ?thesis
    using expand_complete_reaches_all
      [OF sample_limits_ok st(1) [unfolded sample_walk_def edges [symmetric]] st(2)] by simp
qed

text \<open>
  Every node of an expansion, complete or cut short, over a repository in any state, is
  explained: its path, edge keys, edge kinds and foreign-principal mark are those of a chain of
  stored edges from the root to it, whose length is its depth, at most \<open>max_depth\<close>.
\<close>

theorem expand_paths_are_walks:
  fixes coll :: "string \<Rightarrow> 'c::linorder"
  assumes "expand_walk root d lim (neighbors coll (edge_rows tb) limit) fetched = Inr (st, fetched')"
    and "n \<in> set (expansion_nodes st)"
  shows "rn_depth n \<le> tl_max_depth lim \<and> (\<exists>es. set es \<subseteq> set (edge_rows tb) \<and> edge_walk d root es
    \<and> walk_end d root es = rn_key n \<and> rn_path n = root # map (ge_endpoint d) es
    \<and> rn_edge_keys n = map ge_edge_key es \<and> rn_edge_kinds n = map ge_kind es
    \<and> rn_via_foreign n = list_ex ge_is_foreign es \<and> rn_depth n = length es)"
  using repository.walk_nodes [OF assms(1)] assms(2)
  by (simp add: expansion_simps node_explained_def)

theorem expand_paths_are_walks_witness:
  "\<exists>st. sample_walk = Inr (st, 4) \<and> rn_depth (expansion_nodes st ! 2) \<le> 32"
proof -
  obtain st where st: "sample_walk = Inr (st, 4)"
    "map rn_key (expansion_nodes st) = [''B'', ''a'', ''b'']"
    using sample_walk_result by (auto split: sum.splits prod.splits)
  from arg_cong [OF st(2), of length] have "expansion_nodes st ! 2 \<in> set (expansion_nodes st)"
    by (intro nth_mem) simp
  with expand_paths_are_walks [OF st(1) [unfolded sample_walk_def]] st(1) show ?thesis
    by (auto simp: sample_limits_def)
qed

text \<open>
  C23. A traversal over the repository never fails once it has a root, however the edges lie
  (cycles included), reaches each key once, never the root again, and keeps to its node and edge
  limits.
\<close>

theorem expand_total_within_limits:
  fixes coll :: "string \<Rightarrow> 'c::linorder"
  shows "root \<noteq> [] \<longleftrightarrow> (\<exists>st fetched'.
    expand_walk root d lim (neighbors coll (edge_rows tb) limit) fetched = Inr (st, fetched')
    \<and> length (expansion_nodes st) \<le> tl_max_nodes lim \<and> length (expansion_edges st) \<le> tl_max_edges lim
    \<and> distinct (root # map rn_key (expansion_nodes st)))"
proof
  assume "root \<noteq> []"
  from repository.walk_total [OF this, of d lim coll tb limit fetched] obtain st fetched'
    where w: "expand_walk root d lim (neighbors coll (edge_rows tb) limit) fetched = Inr (st, fetched')"
    and l: "within_limits lim st" "distinct (root # map rn_key (gw_visited st))" by blast
  have "mset (map rn_key (expansion_nodes st)) = mset (map rn_key (gw_visited st))"
    by (simp add: expansion_nodes_def)
  with l(2) have "distinct (root # map rn_key (expansion_nodes st))"
    by (metis distinct.simps(2) mset_eq_imp_distinct_iff mset_eq_setD)
  with w l(1) show "\<exists>st fetched'.
    expand_walk root d lim (neighbors coll (edge_rows tb) limit) fetched = Inr (st, fetched')
    \<and> length (expansion_nodes st) \<le> tl_max_nodes lim \<and> length (expansion_edges st) \<le> tl_max_edges lim
    \<and> distinct (root # map rn_key (expansion_nodes st))"
    by (auto simp: within_limits_def expansion_nodes_def expansion_edges_def)
qed (auto simp: expand_walk_def)

text \<open>
  The row budget is the repository's and not the traversal's: once a repository has read as
  many rows as its limit, every later expansion over it reports itself complete and empty.
\<close>

theorem exhausted_repository_reports_complete:
  fixes coll :: "string \<Rightarrow> 'c::linorder"
  assumes "root \<noteq> []" and "limit \<le> fetched"
  shows "\<exists>st. expand_walk root d lim (neighbors coll table limit) fetched = Inr (st, fetched)
    \<and> expansion_complete st \<and> expansion_nodes st = []"
proof -
  have none: "\<exists>m. neighbors coll table limit d ks fetched = (m, fetched) \<and> (\<forall>k. m k = [])" for ks
    using assms(2) by (cases "chunks_of (dict_fromkeys ks) KEY_CHUNK") (simp_all add: neighbors_def)
  obtain m where m: "neighbors coll table limit d [root] fetched = (m, fetched)" "\<forall>k. m k = []"
    using none by blast
  have same: "start_state\<lparr>gw_next := []\<rparr> = start_state" by (simp add: start_state_def)
  have "expand_levels root d lim (neighbors coll table limit) r 1 [] start_state fetched
      = Inr ([], start_state, fetched)" for r
    by (cases r) simp_all
  then have "expand_levels root d lim (neighbors coll table limit) (tl_max_depth lim) 0 [root] start_state fetched
      = (if tl_max_depth lim = 0 then Inr ([root], start_state, fetched) else Inr ([], start_state, fetched))"
    using m same by (cases "tl_max_depth lim") (simp_all add: start_state_def)
  then have "expand_walk root d lim (neighbors coll table limit) fetched = Inr (start_state, fetched)"
    using assms(1) m by (simp add: expand_walk_def start_state_def)
  then show ?thesis
    by (simp add: expansion_simps expansion_nodes_def start_state_def)
qed

text \<open>A group with two members, expanded after another expansion used the budget of five rows.\<close>

theorem exhausted_repository_reports_complete_witness:
  "(\<exists>st. expand_walk ''B'' DOWN sample_limits (neighbors no_collation (edge_rows sample_table) 5) 5 = Inr (st, 5)
      \<and> expansion_complete st \<and> expansion_nodes st = [])
   \<and> reaches DOWN (edges_out (edge_rows sample_table) DOWN) ''B'' ''b''"
proof
  show "\<exists>st. expand_walk ''B'' DOWN sample_limits (neighbors no_collation (edge_rows sample_table) 5) 5 = Inr (st, 5)
      \<and> expansion_complete st \<and> expansion_nodes st = []"
    by (rule exhausted_repository_reports_complete) simp_all
  have "sample_edge ''3'' ''B'' ''b'' \<in> edges_out (edge_rows sample_table) DOWN ''B''"
    by (simp add: edges_out_def sample_rows ge_origin_def) (simp add: sample_edge_def)
  from reaches_step [of DOWN "edges_out (edge_rows sample_table) DOWN", OF reaches_root this]
  show "reaches DOWN (edges_out (edge_rows sample_table) DOWN) ''B'' ''b''"
    by (simp add: ge_endpoint_def sample_edge_def)
qed

end
