(* ===== verification/Adg_Cycles.thy ===== *)
theory Adg_Cycles
  imports Adg_Graph "HOL-Library.Sublist"
begin

section \<open>Membership cycles (find_cycles of app/domain/graph.py)\<close>

text \<open>
  Tarjan's algorithm over the edges of a traversal, written with an explicit work list as the code
  has it, and the shortest loop through each component. The two dictionaries of the search are
  \<open>tj_index\<close>, a map, and \<open>tj_low\<close>, total because the code reads it only where it has written it. The
  component stack has its top first. The work loop has fuel; twice the number of nodes and one more
  is enough for any graph, which is proved.
\<close>

subsection \<open>The graph\<close>

definition usable_edge :: "direction \<Rightarrow> string set option \<Rightarrow> graph_edge \<Rightarrow> bool" where
  "usable_edge d restrict e \<longleftrightarrow>
     (case restrict of None \<Rightarrow> True | Some r \<Rightarrow> ge_origin d e \<in> r \<and> ge_endpoint d e \<in> r)"

text \<open>The keys of \<open>adjacency\<close> in the order they were set, and each one's sorted list.\<close>

definition adjacency_keys :: "direction \<Rightarrow> graph_edge list \<Rightarrow> string list" where
  "adjacency_keys d es = dict_fromkeys (concat (map (\<lambda>e. [ge_origin d e, ge_endpoint d e]) es))"

definition adjacency :: "direction \<Rightarrow> graph_edge list \<Rightarrow> string \<Rightarrow> string list" where
  "adjacency d es k = sort (map (ge_endpoint d) (filter (\<lambda>e. ge_origin d e = k) es))"

subsection \<open>Tarjan's search\<close>

record tarjan =
  tj_index :: "string \<rightharpoonup> nat"
  tj_low :: "string \<Rightarrow> nat"
  tj_stack :: "string list"
  tj_counter :: nat
  tj_components :: "string list list"

definition tarjan_start :: tarjan where
  "tarjan_start = \<lparr>tj_index = Map.empty, tj_low = (\<lambda>_. 0), tj_stack = [], tj_counter = 0, tj_components = []\<rparr>"

text \<open>\<open>on_stack\<close> is the set of the stack's members; the two change together.\<close>

definition enter_node :: "string \<Rightarrow> tarjan \<Rightarrow> tarjan" where
  "enter_node v st = st\<lparr>tj_index := (tj_index st)(v \<mapsto> tj_counter st), tj_low := (tj_low st)(v := tj_counter st),
     tj_counter := Suc (tj_counter st), tj_stack := v # tj_stack st\<rparr>"

text \<open>The neighbour loop: the first unvisited neighbour with the index after it, if there is one.\<close>

fun scan_neighbors :: "string \<Rightarrow> string list \<Rightarrow> nat \<Rightarrow> tarjan \<Rightarrow> tarjan \<times> (string \<times> nat) option" where
  "scan_neighbors v [] i st = (st, None)"
| "scan_neighbors v (w # ws) i st =
     (case tj_index st w of
        None \<Rightarrow> (st, Some (w, Suc i))
      | Some k \<Rightarrow> scan_neighbors v ws (Suc i)
          (if w \<in> set (tj_stack st) then st\<lparr>tj_low := (tj_low st)(v := min (tj_low st v) k)\<rparr> else st))"

text \<open>\<open>while True: member = component_stack.pop() ... if member == node: break\<close>\<close>

fun pop_component :: "string \<Rightarrow> string list \<Rightarrow> string list \<times> string list" where
  "pop_component v [] = ([], [])"
| "pop_component v (w # ws) =
     (if w = v then ([w], ws) else (let (c, rest) = pop_component v ws in (w # c, rest)))"

definition close_node :: "string \<Rightarrow> tarjan \<Rightarrow> tarjan" where
  "close_node v st =
     (if tj_index st v = Some (tj_low st v)
        then (let (c, rest) = pop_component v (tj_stack st)
              in st\<lparr>tj_stack := rest, tj_components := tj_components st @ [c]\<rparr>)
      else st)"

definition pass_low :: "(string \<times> nat) list \<Rightarrow> string \<Rightarrow> tarjan \<Rightarrow> tarjan" where
  "pass_low work v st = (case work of [] \<Rightarrow> st
     | (p, _) # _ \<Rightarrow> st\<lparr>tj_low := (tj_low st)(p := min (tj_low st p) (tj_low st v))\<rparr>)"

text \<open>One turn of the work loop; the top of the work list is its head.\<close>

definition tarjan_step ::
  "(string \<Rightarrow> string list) \<Rightarrow> string \<times> nat \<Rightarrow> (string \<times> nat) list \<Rightarrow> tarjan \<Rightarrow> (string \<times> nat) list \<times> tarjan" where
  "tarjan_step adj vi work st =
     (let (v, i) = vi;
          st1 = (if i = 0 then enter_node v st else st);
          (st2, next) = scan_neighbors v (drop i (adj v)) i st1
      in case next of
           Some (w, j) \<Rightarrow> ((w, 0) # (v, j) # work, st2)
         | None \<Rightarrow> (work, pass_low work v (close_node v st2)))"

fun tarjan_work :: "(string \<Rightarrow> string list) \<Rightarrow> nat \<Rightarrow> (string \<times> nat) list \<Rightarrow> tarjan \<Rightarrow> tarjan option" where
  "tarjan_work adj fuel [] st = Some st"
| "tarjan_work adj 0 (vi # work) st = None"
| "tarjan_work adj (Suc fuel) (vi # work) st =
     (let (work', st') = tarjan_step adj vi work st in tarjan_work adj fuel work' st')"

fun tarjan_starts :: "(string \<Rightarrow> string list) \<Rightarrow> nat \<Rightarrow> string list \<Rightarrow> tarjan \<Rightarrow> tarjan option" where
  "tarjan_starts adj fuel [] st = Some st"
| "tarjan_starts adj fuel (s # ss) st =
     (if tj_index st s \<noteq> None then tarjan_starts adj fuel ss st
      else (case tarjan_work adj fuel [(s, 0)] st of None \<Rightarrow> None | Some st' \<Rightarrow> tarjan_starts adj fuel ss st'))"

definition components_of :: "direction \<Rightarrow> graph_edge list \<Rightarrow> string list list option" where
  "components_of d es = map_option tj_components
     (tarjan_starts (adjacency d es) (Suc (2 * length (adjacency_keys d es))) (sort (adjacency_keys d es)) tarjan_start)"

subsection \<open>A loop through a component\<close>

text \<open>
  Breadth-first from \<open>start\<close>: one node's neighbours, with \<open>seen\<close>, \<open>parents\<close> and \<open>queue\<close>; the flag
  says that the loop closed.
\<close>

record loop_state =
  lp_seen :: "string list"
  lp_parents :: "(string \<times> string) list"
  lp_queue :: "string list"

fun loop_neighbors :: "string \<Rightarrow> string list \<Rightarrow> string \<Rightarrow> string list \<Rightarrow> loop_state \<Rightarrow> loop_state \<times> bool" where
  "loop_neighbors start members v [] st = (st, False)"
| "loop_neighbors start members v (w # ws) st =
     (if w \<notin> set members then loop_neighbors start members v ws st
      else if w = start then (st, True)
      else if w \<in> set (lp_seen st) then loop_neighbors start members v ws st
      else loop_neighbors start members v ws (st\<lparr>lp_seen := w # lp_seen st, lp_parents := (w, v) # lp_parents st,
        lp_queue := lp_queue st @ [w]\<rparr>))"

text \<open>
  Following \<open>parents\<close> from a node back to the start. The list has the newest entry first and a
  node's parent was entered before it, so the rest of the list suffices.
\<close>

fun parent_chain :: "string \<Rightarrow> (string \<times> string) list \<Rightarrow> string \<Rightarrow> string list" where
  "parent_chain start [] v = []"
| "parent_chain start ((w, p) # ps) v =
     (if v = start then [] else if w = v then v # parent_chain start ps p else parent_chain start ps v)"

lemma loop_neighbors_measure:
  "loop_neighbors start members v ws st = (st', b) \<Longrightarrow>
     card (set members - set (lp_seen st')) + length (lp_queue st') \<le> card (set members - set (lp_seen st)) + length (lp_queue st)"
proof (induction start members v ws st rule: loop_neighbors.induct)
  case (2 start members v w ws st)
  show ?case
  proof (cases "w \<in> set members \<and> w \<noteq> start \<and> w \<notin> set (lp_seen st)")
    case True
    have "card (set members - insert w (set (lp_seen st))) < card (set members - set (lp_seen st))"
      using True by (intro psubset_card_mono) auto
    with True "2.IH"(3) "2.prems" show ?thesis by fastforce
  next
    case False
    with "2.IH" "2.prems" show ?thesis by (auto split: if_splits)
  qed
qed simp

function loop_search :: "(string \<Rightarrow> string list) \<Rightarrow> string \<Rightarrow> string list \<Rightarrow> loop_state \<Rightarrow> string list" where
  "loop_search adj start members st =
     (case lp_queue st of
        [] \<Rightarrow> [start]
      | v # queue \<Rightarrow>
          let (st', closed) = loop_neighbors start members v (adj v) (st\<lparr>lp_queue := queue\<rparr>)
          in if closed then start # rev (parent_chain start (lp_parents st') v) @ [start]
             else loop_search adj start members st')"
  by pat_completeness auto

termination loop_search
proof (relation "measure (\<lambda>(adj, start, members, st). card (set members - set (lp_seen st)) + length (lp_queue st))",
    goal_cases)
  case (2 adj start members st v queue x st' closed)
  then show ?case using loop_neighbors_measure [of start members v "adj v" "st\<lparr>lp_queue := queue\<rparr>" st' closed]
    by (cases x) auto
qed simp

declare loop_search.simps [simp del]

definition representative_loop :: "(string \<Rightarrow> string list) \<Rightarrow> string list \<Rightarrow> string \<Rightarrow> string list" where
  "representative_loop adj members start = loop_search adj start members \<lparr>lp_seen = [start], lp_parents = [], lp_queue = [start]\<rparr>"

record graph_cycle =
  gc_members :: "string list"
  gc_representative_path :: "string list"

definition cycles_from :: "(string \<Rightarrow> string list) \<Rightarrow> string list list \<Rightarrow> graph_cycle list" where
  "cycles_from adj comps = sort_key gc_members
     (map (\<lambda>c. \<lparr>gc_members = sort c, gc_representative_path = representative_loop adj c (hd (sort c))\<rparr>)
       (filter (\<lambda>c. 2 \<le> length c) comps))"

definition find_cycles :: "graph_edge list \<Rightarrow> direction \<Rightarrow> string set option \<Rightarrow> graph_cycle list option" where
  "find_cycles es d restrict =
     (let used = filter (usable_edge d restrict) es
      in map_option (cycles_from (adjacency d used)) (components_of d used))"


subsection \<open>The work loop ends\<close>

lemma scan_neighbors_keeps:
  "scan_neighbors v ws i st = (st', r) \<Longrightarrow> tj_index st' = tj_index st \<and> tj_stack st' = tj_stack st
     \<and> tj_components st' = tj_components st \<and> tj_counter st' = tj_counter st \<and> (\<forall>u. u \<noteq> v \<longrightarrow> tj_low st' u = tj_low st u)"
proof (induction v ws i st rule: scan_neighbors.induct)
  case (2 v w ws i st)
  show ?case
  proof (cases "tj_index st w")
    case (Some k)
    have "scan_neighbors v ws (Suc i)
        (if w \<in> set (tj_stack st) then st\<lparr>tj_low := (tj_low st)(v := min (tj_low st v) k)\<rparr> else st) = (st', r)"
      using "2.prems" Some by simp
    from "2.IH" [OF Some this] show ?thesis by (cases "w \<in> set (tj_stack st)") simp_all
  qed (use "2.prems" in auto)
qed auto

lemma scan_neighbors_next:
  "scan_neighbors v ws i st = (st', Some (w, j)) \<Longrightarrow> w \<in> set ws \<and> tj_index st w = None \<and> 0 < j"
proof (induction v ws i st rule: scan_neighbors.induct)
  case (2 v x ws i st)
  show ?case
  proof (cases "tj_index st x")
    case (Some k)
    have "scan_neighbors v ws (Suc i)
        (if x \<in> set (tj_stack st) then st\<lparr>tj_low := (tj_low st)(v := min (tj_low st v) k)\<rparr> else st) = (st', Some (w, j))"
      using "2.prems" Some by simp
    from "2.IH" [OF Some this] show ?thesis by (cases "x \<in> set (tj_stack st)") simp_all
  qed (use "2.prems" in auto)
qed simp

lemma close_node_index [simp]: "tj_index (close_node v st) = tj_index st" "tj_low (close_node v st) = tj_low st"
  "tj_counter (close_node v st) = tj_counter st"
  by (simp_all add: close_node_def Let_def split: prod.split)

lemma pass_low_simps [simp]: "tj_index (pass_low work v st) = tj_index st" "tj_stack (pass_low work v st) = tj_stack st"
  "tj_components (pass_low work v st) = tj_components st" "tj_counter (pass_low work v st) = tj_counter st"
  by (auto simp: pass_low_def split: list.split)

text \<open>Only the top of the work list may be new, and it is new when its index is 0.\<close>

definition work_ok :: "string set \<Rightarrow> (string \<times> nat) list \<Rightarrow> tarjan \<Rightarrow> bool" where
  "work_ok K work st \<longleftrightarrow> fst ` set work \<subseteq> K \<and> (\<forall>vi \<in> set (tl work). fst vi \<in> dom (tj_index st) \<and> 0 < snd vi)
     \<and> (work \<noteq> [] \<longrightarrow> (snd (hd work) = 0 \<longleftrightarrow> fst (hd work) \<notin> dom (tj_index st)))"

definition work_left :: "string set \<Rightarrow> (string \<times> nat) list \<Rightarrow> tarjan \<Rightarrow> nat" where
  "work_left K work st = 2 * card (K - dom (tj_index st) - fst ` set work) + length work"

lemma tarjan_step_cases:
  assumes "tarjan_step adj (v, i) work st = (work', st')"
  obtains (deeper) w j st2 where "work' = (w, 0) # (v, j) # work" "st' = st2" "0 < j" "w \<in> set (adj v)"
      "tj_index (if i = 0 then enter_node v st else st) w = None"
      "scan_neighbors v (drop i (adj v)) i (if i = 0 then enter_node v st else st) = (st2, Some (w, j))"
    | (closing) st2 where "work' = work" "st' = pass_low work v (close_node v st2)"
      "scan_neighbors v (drop i (adj v)) i (if i = 0 then enter_node v st else st) = (st2, None)"
proof -
  obtain st2 r where scan: "scan_neighbors v (drop i (adj v)) i (if i = 0 then enter_node v st else st) = (st2, r)"
    by fastforce
  show thesis
  proof (cases r)
    case None
    with assms scan show thesis by (intro closing [of st2]) (auto simp: tarjan_step_def Let_def)
  next
    case (Some wj)
    obtain w j where wj: "wj = (w, j)" by fastforce
    have "w \<in> set (adj v)" using scan_neighbors_next [of v "drop i (adj v)"] scan Some wj by (blast dest: in_set_dropD)
    moreover have "tj_index (if i = 0 then enter_node v st else st) w = None \<and> 0 < j"
      using scan_neighbors_next [of v "drop i (adj v)"] scan Some wj by blast
    ultimately show thesis using assms scan Some wj by (intro deeper [of w j st2]) (simp_all add: tarjan_step_def Let_def)
  qed
qed

lemma tarjan_step_progress:
  assumes "work_ok K ((v, i) # work) st" "\<forall>u \<in> K. set (adj u) \<subseteq> K" "finite K"
    and "tarjan_step adj (v, i) work st = (work', st')"
  shows "work_ok K work' st' \<and> work_left K work' st' < work_left K ((v, i) # work) st
    \<and> dom (tj_index st') = insert v (dom (tj_index st))"
proof -
  let ?st1 = "if i = 0 then enter_node v st else st"
  have dom1: "dom (tj_index ?st1) = insert v (dom (tj_index st))"
    using assms(1) by (auto simp: enter_node_def work_ok_def)
  have v: "v \<in> K" and below: "fst ` set work \<subseteq> K" "fst ` set work \<subseteq> dom (tj_index st)" "\<forall>x \<in> set work. 0 < snd x"
    using assms(1) by (auto simp: work_ok_def)
  from assms(4) show ?thesis
  proof (cases rule: tarjan_step_cases)
    case (deeper w j st2)
    have d: "dom (tj_index st') = insert v (dom (tj_index st))"
      using scan_neighbors_keeps [OF deeper(6)] deeper(2) dom1 by simp
    have w: "w \<in> K" "w \<notin> insert v (dom (tj_index st))" using deeper(4,5) assms(2) v dom1 by auto
    let ?U = "K - dom (tj_index st) - fst ` set ((v, i) # work)"
    have "K - dom (tj_index st') - fst ` set work' = ?U - {w}" using d deeper(1) by auto
    moreover have "w \<in> ?U" using w below by auto
    moreover have "0 < card ?U" using assms(3) \<open>w \<in> ?U\<close> by (auto simp: card_gt_0_iff)
    ultimately have "work_left K work' st' < work_left K ((v, i) # work) st"
      by (simp add: work_left_def deeper(1))
    moreover have "work_ok K work' st'" using deeper(1,3) w v below d by (auto simp: work_ok_def)
    ultimately show ?thesis using d by simp
  next
    case (closing st2)
    have d: "dom (tj_index st') = insert v (dom (tj_index st))"
      using scan_neighbors_keeps [OF closing(3)] closing(2) dom1 by simp
    have "K - dom (tj_index st') - fst ` set work' = K - dom (tj_index st) - fst ` set ((v, i) # work)"
      using d closing(1) by auto
    then have "work_left K work' st' < work_left K ((v, i) # work) st" by (simp add: work_left_def closing(1))
    moreover have "work_ok K work' st'"
    proof (cases work)
      case (Cons x xs)
      then show ?thesis using closing(1) below d by (auto simp: work_ok_def)
    qed (simp add: work_ok_def closing(1))
    ultimately show ?thesis using d by simp
  qed
qed

text \<open>Enough fuel reaches the end, and an invariant of one turn holds there.\<close>

lemma tarjan_work_run:
  assumes "work_ok K work st" "\<forall>u \<in> K. set (adj u) \<subseteq> K" "finite K" "work_left K work st \<le> fuel" "P work st"
    and step: "\<And>v i work st work' st'. P ((v, i) # work) st \<Longrightarrow> work_ok K ((v, i) # work) st
      \<Longrightarrow> tarjan_step adj (v, i) work st = (work', st') \<Longrightarrow> P work' st'"
  shows "\<exists>st'. tarjan_work adj fuel work st = Some st' \<and> P [] st' \<and> dom (tj_index st) \<union> fst ` set work \<subseteq> dom (tj_index st')
    \<and> (dom (tj_index st) \<subseteq> K \<longrightarrow> dom (tj_index st') \<subseteq> K)"
  using assms(1,4,5)
proof (induction fuel arbitrary: work st)
  case 0
  then show ?case by (cases work) (auto simp: work_left_def)
next
  case (Suc fuel)
  show ?case
  proof (cases work)
    case Nil
    then show ?thesis using Suc.prems by auto
  next
    case (Cons vi rest)
    obtain v i where vi: "vi = (v, i)" by fastforce
    obtain work' st' where s: "tarjan_step adj (v, i) rest st = (work', st')" by fastforce
    note pr = tarjan_step_progress [OF Suc.prems(1) [unfolded Cons vi] assms(2,3) s]
    have P': "P work' st'" using step [OF _ _ s] Suc.prems(1,3) Cons vi by simp
    obtain fin where fin: "tarjan_work adj fuel work' st' = Some fin" "P [] fin"
        "dom (tj_index st') \<union> fst ` set work' \<subseteq> dom (tj_index fin)" "dom (tj_index st') \<subseteq> K \<longrightarrow> dom (tj_index fin) \<subseteq> K"
      using Suc.IH [OF conjunct1 [OF pr] _ P'] pr Suc.prems(2) Cons vi by auto
    have "fst ` set rest \<subseteq> dom (tj_index st)" "v \<in> K" using Suc.prems(1) Cons vi by (auto simp: work_ok_def)
    with fin pr Cons vi s show ?thesis by auto
  qed
qed

subsection \<open>The components partition the graph\<close>

lemma pop_component_at: "v \<notin> set a \<Longrightarrow> pop_component v (a @ v # b) = (a @ [v], b)"
  by (induction a) auto

definition parts_ok :: "tarjan \<Rightarrow> bool" where
  "parts_ok st \<longleftrightarrow> distinct (tj_stack st @ concat (tj_components st))
     \<and> set (tj_stack st) \<union> set (concat (tj_components st)) = dom (tj_index st) \<and> [] \<notin> set (tj_components st)
     \<and> (\<forall>x k. tj_index st x = Some k \<longrightarrow> k < tj_counter st \<and> tj_low st x \<le> k)"

text \<open>During the search from \<open>s\<close>: its node is the bottom of the stack and the last of the work list.\<close>

definition search_ok :: "string \<Rightarrow> (string \<times> nat) list \<Rightarrow> tarjan \<Rightarrow> bool" where
  "search_ok s work st \<longleftrightarrow> parts_ok st \<and> subseq (map fst (filter (\<lambda>vi. 0 < snd vi) work)) (tj_stack st)
     \<and> (work \<noteq> [] \<longrightarrow> fst (last work) = s)
     \<and> (tj_index st s = None \<longrightarrow> tj_stack st = [] \<and> work = [(s, 0)])
     \<and> (\<forall>k. tj_index st s = Some k \<longrightarrow> (if work = [] then tj_stack st = []
            else tj_stack st \<noteq> [] \<and> last (tj_stack st) = s)
          \<and> (\<forall>x \<in> set (tj_stack st). k \<le> the (tj_index st x) \<and> k \<le> tj_low st x))"

lemma scan_neighbors_low:
  assumes "scan_neighbors v ws i st = (st', r)" "\<forall>x \<in> set (tj_stack st). k \<le> the (tj_index st x)" "k \<le> tj_low st v"
  shows "k \<le> tj_low st' v \<and> tj_low st' v \<le> tj_low st v"
  using assms
proof (induction v ws i st rule: scan_neighbors.induct)
  case (2 v w ws i st)
  show ?case
  proof (cases "tj_index st w")
    case (Some m)
    let ?st = "if w \<in> set (tj_stack st) then st\<lparr>tj_low := (tj_low st)(v := min (tj_low st v) m)\<rparr> else st"
    have scan: "scan_neighbors v ws (Suc i) ?st = (st', r)" using "2.prems"(1) Some by simp
    have "k \<le> m" if "w \<in> set (tj_stack st)" using "2.prems"(2) that Some by force
    then have "\<forall>x \<in> set (tj_stack ?st). k \<le> the (tj_index ?st x)" "k \<le> tj_low ?st v" "tj_low ?st v \<le> tj_low st v"
      using "2.prems"(2,3) by simp_all
    with "2.IH" [OF Some scan] show ?thesis by linarith
  qed (use "2.prems" in auto)
qed auto

lemma enter_node_simps [simp]:
  "tj_stack (enter_node v st) = v # tj_stack st" "tj_components (enter_node v st) = tj_components st"
  "tj_index (enter_node v st) = (tj_index st)(v \<mapsto> tj_counter st)" "tj_counter (enter_node v st) = Suc (tj_counter st)"
  "tj_low (enter_node v st) = (tj_low st)(v := tj_counter st)"
  by (simp_all add: enter_node_def)

text \<open>After entering, the top of the work list is on the stack like the rest.\<close>

definition entered_ok :: "string \<Rightarrow> string \<Rightarrow> (string \<times> nat) list \<Rightarrow> tarjan \<Rightarrow> bool" where
  "entered_ok s v work st \<longleftrightarrow> parts_ok st \<and> subseq (v # map fst work) (tj_stack st)
     \<and> (if work = [] then v = s else fst (last work) = s)
     \<and> (\<exists>k. tj_index st s = Some k \<and> last (tj_stack st) = s
          \<and> (\<forall>x \<in> set (tj_stack st). k \<le> the (tj_index st x) \<and> k \<le> tj_low st x))"

lemma enter_ok:
  assumes "search_ok s ((v, i) # work) st" "work_ok K ((v, i) # work) st"
  shows "entered_ok s v work (if i = 0 then enter_node v st else st)"
proof -
  have rest: "filter (\<lambda>vi. 0 < snd vi) work = work" using assms(2) by (auto simp: work_ok_def filter_id_conv)
  have ps: "parts_ok st" using assms(1) by (simp add: search_ok_def)
  have lst: "if work = [] then v = s else fst (last work) = s" using assms(1) by (auto simp: search_ok_def)
  show ?thesis
  proof (cases "i = 0")
    case False
    then obtain k where "tj_index st s = Some k" using assms(1) by (cases "tj_index st s") (auto simp: search_ok_def)
    with False assms(1) rest ps lst show ?thesis by (auto simp: search_ok_def entered_ok_def)
  next
    case True
    then have new: "v \<notin> dom (tj_index st)" using assms(2) by (simp add: work_ok_def)
    then have "v \<notin> set (tj_stack st)" "v \<notin> set (concat (tj_components st))" using ps by (auto simp: parts_ok_def)
    with ps new have ps': "parts_ok (enter_node v st)" by (auto simp: parts_ok_def less_Suc_eq)
    have sub: "subseq (v # map fst work) (v # tj_stack st)"
      using assms(1) True rest by (simp add: search_ok_def)
    show ?thesis
    proof (cases "tj_index st s")
      case None
      then have "v = s" "work = []" "tj_stack st = []" using assms(1) by (auto simp: search_ok_def)
      with True ps' sub show ?thesis by (auto simp: entered_ok_def)
    next
      case (Some k)
      then have old: "tj_stack st \<noteq> []" "last (tj_stack st) = s"
          "\<forall>x \<in> set (tj_stack st). k \<le> the (tj_index st x) \<and> k \<le> tj_low st x"
        using assms(1) by (auto simp: search_ok_def)
      have "k < tj_counter st" "v \<noteq> s" using ps Some new by (auto simp: parts_ok_def)
      then show ?thesis using True ps' sub lst old Some \<open>v \<notin> set (tj_stack st)\<close> by (auto simp: entered_ok_def)
    qed
  qed
qed

lemma subseq_set: "subseq xs ys \<Longrightarrow> set xs \<subseteq> set ys"
  by (induction rule: list_emb.induct) auto

lemma scan_entered:
  assumes "entered_ok s v work st" "scan_neighbors v ws i st = (st', r)"
  shows "entered_ok s v work st'"
proof -
  obtain k where k: "tj_index st s = Some k" "last (tj_stack st) = s"
      "\<forall>x \<in> set (tj_stack st). k \<le> the (tj_index st x) \<and> k \<le> tj_low st x"
    using assms(1) by (auto simp: entered_ok_def)
  have v: "v \<in> set (tj_stack st)" using assms(1) subseq_set [of "v # map fst work"] by (simp add: entered_ok_def)
  note low = scan_neighbors_low [OF assms(2), of k] and keeps = scan_neighbors_keeps [OF assms(2)]
  have lv: "k \<le> tj_low st' v" "tj_low st' v \<le> tj_low st v" using low k(3) v by auto
  have "tj_low st' x \<le> tj_low st x" for x using lv keeps by (cases "x = v") auto
  then have "tj_low st' x \<le> m" if "tj_low st x \<le> m" for x m using that le_trans by blast
  moreover have "parts_ok st" using assms(1) by (simp add: entered_ok_def)
  ultimately have "parts_ok st'" unfolding parts_ok_def using keeps by simp
  moreover have "\<forall>x \<in> set (tj_stack st). k \<le> tj_low st' x" using k(3) lv keeps by metis
  ultimately show ?thesis using assms(1) keeps k by (auto simp: entered_ok_def)
qed

lemma subseq_below:
  assumes "subseq (v # ws) (a @ v # b)" "v \<notin> set a"
  shows "subseq ws b"
  using assms by (induction a) (auto simp: subseq_Cons2_iff split: if_splits)

lemma close_ok:
  assumes "entered_ok s v work st" "\<forall>vi \<in> set work. 0 < snd vi"
  shows "search_ok s work (pass_low work v (close_node v st))"
proof -
  obtain k where k: "tj_index st s = Some k" "last (tj_stack st) = s"
      "\<forall>x \<in> set (tj_stack st). k \<le> the (tj_index st x) \<and> k \<le> tj_low st x"
    using assms(1) by (auto simp: entered_ok_def)
  have ps: "parts_ok st" and sub: "subseq (v # map fst work) (tj_stack st)"
    and lst: "if work = [] then v = s else fst (last work) = s" using assms(1) by (auto simp: entered_ok_def)
  have v: "v \<in> set (tj_stack st)" using subseq_set [OF sub] by simp
  have all: "filter (\<lambda>vi. 0 < snd vi) work = work" using assms(2) by (simp add: filter_id_conv)
  have "v \<in> dom (tj_index st)" using ps v unfolding parts_ok_def by blast
  then obtain m where m: "tj_index st v = Some m" "tj_low st v \<le> m" using ps unfolding parts_ok_def by blast
  have kv: "k \<le> tj_low st v" using k(3) v by blast
  let ?c = "close_node v st"
  have closed: "parts_ok ?c \<and> subseq (map fst work) (tj_stack ?c) \<and> set (tj_stack ?c) \<subseteq> set (tj_stack st)
      \<and> (if work = [] then tj_stack ?c = [] else tj_stack ?c \<noteq> [] \<and> last (tj_stack ?c) = s)"
  proof (cases "tj_index st v = Some (tj_low st v)")
    case True
    obtain a b where ab: "tj_stack st = a @ v # b" "v \<notin> set a" using v split_list_first by metis
    have c: "tj_stack ?c = b" "tj_components ?c = tj_components st @ [a @ [v]]"
      using True ab pop_component_at [of v a b] by (simp_all add: close_node_def)
    have "parts_ok ?c" using ps c ab(1) by (auto simp: parts_ok_def)
    moreover have below: "subseq (map fst work) b" using subseq_below sub ab by metis
    moreover have "if work = [] then b = [] else b \<noteq> [] \<and> last b = s"
    proof (cases "work = []")
      case True
      then have "v = s" using lst by simp
      have "b = []"
      proof (rule ccontr)
        assume "b \<noteq> []"
        then have "s \<in> set b" using k(2) ab(1) last_in_set [of b] by simp
        moreover have "distinct (tj_stack st)" using ps by (simp add: parts_ok_def)
        ultimately show False using ab(1) \<open>v = s\<close> by simp
      qed
      with True show ?thesis by simp
    next
      case False
      then have "b \<noteq> []" using below by auto
      then show ?thesis using False k(2) ab(1) by simp
    qed
    ultimately show ?thesis using c ab(1) by auto
  next
    case False
    then have c: "?c = st" by (simp add: close_node_def)
    have "work \<noteq> []"
    proof
      assume "work = []"
      then have "v = s" using lst by simp
      then show False using False m k(1) kv by simp
    qed
    moreover have "subseq (map fst work) (tj_stack st)" using sub by (rule subseq_Cons')
    moreover have "tj_stack st \<noteq> []" using v by auto
    ultimately show ?thesis using c ps k(2) by simp
  qed
  have lows: "k \<le> tj_low (pass_low work v ?c) x" if "x \<in> set (tj_stack ?c)" for x
    using that closed k(3) kv by (cases work) (auto simp: pass_low_def)
  have "parts_ok (pass_low work v ?c)"
  proof -
    have "tj_low (pass_low work v ?c) x \<le> tj_low ?c x" for x by (cases work) (auto simp: pass_low_def)
    then have "tj_low ?c x \<le> n \<Longrightarrow> tj_low (pass_low work v ?c) x \<le> n" for x n using le_trans by blast
    with closed show ?thesis unfolding parts_ok_def by simp
  qed
  moreover have "\<forall>x \<in> set (tj_stack ?c). k \<le> the (tj_index st x)" using closed k(3) by blast
  ultimately show ?thesis using closed all lst lows k(1) by (auto simp: search_ok_def)
qed

lemma search_step:
  assumes "search_ok s ((v, i) # work) st" "work_ok K ((v, i) # work) st" "tarjan_step adj (v, i) work st = (work', st')"
  shows "search_ok s work' st'"
  using assms(3)
proof (cases rule: tarjan_step_cases)
  case (deeper w j st2)
  note en = scan_entered [OF enter_ok [OF assms(1,2)] deeper(6)]
  have pos: "filter (\<lambda>vi. 0 < snd vi) work = work" using assms(2) by (auto simp: work_ok_def filter_id_conv)
  obtain k where k: "tj_index st2 s = Some k" "last (tj_stack st2) = s"
      "\<forall>x \<in> set (tj_stack st2). k \<le> the (tj_index st2 x) \<and> k \<le> tj_low st2 x"
    using en by (auto simp: entered_ok_def)
  have "tj_stack st2 \<noteq> []" using en by (auto simp: entered_ok_def)
  with en k deeper(1-3) pos show ?thesis by (auto simp: search_ok_def entered_ok_def split: if_splits)
next
  case (closing st2)
  have "\<forall>vi \<in> set work. 0 < snd vi" using assms(2) by (auto simp: work_ok_def)
  with close_ok [OF scan_entered [OF enter_ok [OF assms(1,2)] closing(3)]] closing(1,2) show ?thesis by simp
qed

lemma tarjan_starts_run:
  assumes "\<forall>u \<in> set keys. set (adj u) \<subseteq> set keys" "set ss \<subseteq> set keys"
    and "parts_ok st" "tj_stack st = []" "dom (tj_index st) \<subseteq> set keys"
  shows "\<exists>st'. tarjan_starts adj (Suc (2 * length keys)) ss st = Some st' \<and> parts_ok st' \<and> tj_stack st' = []
    \<and> dom (tj_index st) \<union> set ss \<subseteq> dom (tj_index st') \<and> dom (tj_index st') \<subseteq> set keys"
  using assms(2-)
proof (induction ss arbitrary: st)
  case (Cons s ss)
  show ?case
  proof (cases "tj_index st s")
    case (Some k)
    then have "s \<in> dom (tj_index st)" by auto
    with Cons.IH [of st] Cons.prems Some show ?thesis by (simp add: subset_iff) blast
  next
    case None
    have ok: "work_ok (set keys) [(s, 0)] st" using Cons.prems(1) None by (auto simp: work_ok_def)
    have "card (set keys - dom (tj_index st) - {s}) \<le> length keys"
      using card_mono [of "set keys" "set keys - dom (tj_index st) - {s}"] card_length [of keys] by (meson Diff_subset List.finite_set order_trans)
    then have fuel: "work_left (set keys) [(s, 0)] st \<le> Suc (2 * length keys)" by (simp add: work_left_def)
    have "search_ok s [(s, 0)] st" using Cons.prems(2,3) None by (simp add: search_ok_def)
    from tarjan_work_run [where P = "search_ok s", OF ok assms(1) _ fuel this] search_step
    obtain st1 where st1: "tarjan_work adj (Suc (2 * length keys)) [(s, 0)] st = Some st1" "search_ok s [] st1"
        "dom (tj_index st) \<union> {s} \<subseteq> dom (tj_index st1)" "dom (tj_index st1) \<subseteq> set keys"
      using Cons.prems(4) by auto
    have "parts_ok st1" "tj_stack st1 = []" using st1(2,3) by (auto simp: search_ok_def)
    with Cons.IH [of st1] Cons.prems(1) st1(4) obtain st' where st':
        "tarjan_starts adj (Suc (2 * length keys)) ss st1 = Some st'" "parts_ok st'" "tj_stack st' = []"
        "dom (tj_index st1) \<union> set ss \<subseteq> dom (tj_index st')" "dom (tj_index st') \<subseteq> set keys" by auto
    have "tarjan_starts adj (Suc (2 * length keys)) (s # ss) st = Some st'" using None st1(1) st'(1) by (simp del: tarjan_work.simps)
    moreover have "dom (tj_index st) \<union> set (s # ss) \<subseteq> dom (tj_index st')" unfolding list.set using st1(3) st'(4) by blast
    ultimately show ?thesis using st' by blast
  qed
qed simp

lemma components_parts:
  "\<exists>comps. components_of d es = Some comps \<and> distinct (concat comps) \<and> [] \<notin> set comps
     \<and> set (concat comps) = (\<Union>e \<in> set es. {ge_origin d e, ge_endpoint d e})"
proof -
  let ?keys = "adjacency_keys d es"
  have keys: "set ?keys = (\<Union>e \<in> set es. {ge_origin d e, ge_endpoint d e})" by (auto simp: adjacency_keys_def)
  have "\<forall>u \<in> set ?keys. set (adjacency d es u) \<subseteq> set ?keys" by (auto simp: adjacency_def keys)
  moreover have "parts_ok tarjan_start" by (simp add: parts_ok_def tarjan_start_def)
  ultimately obtain st where st: "tarjan_starts (adjacency d es) (Suc (2 * length ?keys)) (sort ?keys) tarjan_start = Some st"
      "parts_ok st" "tj_stack st = []" "set ?keys \<subseteq> dom (tj_index st)" "dom (tj_index st) \<subseteq> set ?keys"
    using tarjan_starts_run [of ?keys "adjacency d es" "sort ?keys" tarjan_start] by (auto simp: tarjan_start_def)
  then show ?thesis using keys by (auto simp: components_of_def parts_ok_def)
qed

text \<open>
  C36. The iterative search always ends within its fuel, and the components it finds partition the
  graph: they are not empty, no key is in two of them or twice in one, and together they hold
  exactly the keys the edges mention.
\<close>

theorem components_partition_keys:
  "\<exists>comps. components_of d es = Some comps \<and> distinct (concat comps) \<and> [] \<notin> set comps
     \<and> set (concat comps) = (\<Union>e \<in> set es. {ge_origin d e, ge_endpoint d e})"
  by (rule components_parts)

subsection \<open>Reported loops are walks\<close>

text \<open>A walk: each node is followed by one of its neighbours.\<close>

fun walk_along :: "(string \<Rightarrow> string list) \<Rightarrow> string list \<Rightarrow> bool" where
  "walk_along adj (a # b # ws) \<longleftrightarrow> b \<in> set (adj a) \<and> walk_along adj (b # ws)"
| "walk_along adj ws \<longleftrightarrow> True"

lemma walk_along_snoc: "walk_along adj (ws @ [a, b]) \<longleftrightarrow> walk_along adj (ws @ [a]) \<and> b \<in> set (adj a)"
  by (induction ws rule: walk_along.induct) auto

text \<open>The parent entries, newest first: each one's parent is the start or an older entry.\<close>

fun parents_ok :: "(string \<Rightarrow> string list) \<Rightarrow> string \<Rightarrow> string list \<Rightarrow> (string \<times> string) list \<Rightarrow> bool" where
  "parents_ok adj start members [] \<longleftrightarrow> True"
| "parents_ok adj start members ((w, p) # ps) \<longleftrightarrow> w \<in> set members \<and> w \<noteq> start \<and> w \<notin> fst ` set ps \<and> w \<in> set (adj p)
     \<and> (p = start \<or> p \<in> fst ` set ps) \<and> parents_ok adj start members ps"

lemma parents_members: "parents_ok adj start members ps \<Longrightarrow> fst ` set ps \<subseteq> set members"
  by (induction adj start members ps rule: parents_ok.induct) auto

lemma parent_chain_walk:
  "parents_ok adj start members ps \<Longrightarrow> v = start \<or> v \<in> fst ` set ps \<Longrightarrow>
     walk_along adj (start # rev (parent_chain start ps v)) \<and> last (start # rev (parent_chain start ps v)) = v
     \<and> set (parent_chain start ps v) \<subseteq> fst ` set ps \<and> distinct (parent_chain start ps v)
     \<and> start \<notin> set (parent_chain start ps v)"
proof (induction start ps v rule: parent_chain.induct)
  case (2 start w p ps v)
  show ?case
  proof (cases "v = start \<or> w \<noteq> v")
    case True
    then consider (start) "v = start" | (older) "v \<noteq> start" "w \<noteq> v" by blast
    then show ?thesis
    proof cases
      case older
      then have same: "parent_chain start ((w, p) # ps) v = parent_chain start ps v" by simp
      have "parents_ok adj start members ps" "v \<in> fst ` set ps" using "2.prems" older by auto
      with "2.IH"(2) [OF older] show ?thesis unfolding same by (auto simp del: last.simps)
    qed simp
  next
    case False
    let ?c = "parent_chain start ps p"
    have ps: "parents_ok adj start members ps" "p = start \<or> p \<in> fst ` set ps" "v \<in> set (adj p)" "v \<notin> fst ` set ps"
      using "2.prems"(1) False by auto
    have ih: "walk_along adj (start # rev ?c)" "last (start # rev ?c) = p" "set ?c \<subseteq> fst ` set ps" "distinct ?c" "start \<notin> set ?c"
      using "2.IH"(1) ps(1,2) False by auto
    obtain us where us: "start # rev ?c = us @ [p]" using ih(2) by (metis append_butlast_last_id list.distinct(1))
    have "walk_along adj (us @ [p, v])" using ih(1) ps(3) us walk_along_snoc [of adj us p v] by simp
    moreover have "start # rev (v # ?c) = (start # rev ?c) @ [v]" by simp
    then have "start # rev (v # ?c) = us @ [p, v]" unfolding us by simp
    ultimately have "walk_along adj (start # rev (v # ?c))" by (simp only:)
    with ih ps False show ?thesis by auto
  qed
qed auto

definition loop_ok :: "(string \<Rightarrow> string list) \<Rightarrow> string \<Rightarrow> string list \<Rightarrow> loop_state \<Rightarrow> bool" where
  "loop_ok adj start members st \<longleftrightarrow> parents_ok adj start members (lp_parents st)
     \<and> set (lp_seen st) = insert start (fst ` set (lp_parents st))
     \<and> set (lp_queue st) \<subseteq> insert start (fst ` set (lp_parents st))"

lemma loop_neighbors_ok:
  assumes "loop_neighbors start members v ws st = (st', closed)" "loop_ok adj start members st"
    and "set ws \<subseteq> set (adj v)" "v = start \<or> v \<in> fst ` set (lp_parents st)"
  shows "loop_ok adj start members st' \<and> (v = start \<or> v \<in> fst ` set (lp_parents st')) \<and> (closed \<longrightarrow> start \<in> set ws)"
  using assms
proof (induction start members v ws st rule: loop_neighbors.induct)
  case (2 start members v w ws st)
  let ?new = "st\<lparr>lp_seen := w # lp_seen st, lp_parents := (w, v) # lp_parents st, lp_queue := lp_queue st @ [w]\<rparr>"
  consider (skip) "w \<notin> set members \<or> w \<noteq> start \<and> w \<in> set (lp_seen st)" | (close) "w \<in> set members" "w = start"
    | (new) "w \<in> set members" "w \<noteq> start" "w \<notin> set (lp_seen st)" by blast
  then show ?case
  proof cases
    case skip
    with 2 show ?thesis by (auto split: if_splits)
  next
    case close
    with 2 show ?thesis by auto
  next
    case new
    have "w \<notin> fst ` set (lp_parents st)" "w \<in> set (adj v)" using "2.prems"(2,3) new by (auto simp: loop_ok_def)
    then have "loop_ok adj start members ?new" using "2.prems"(2,4) new by (auto simp: loop_ok_def)
    moreover have "v = start \<or> v \<in> fst ` set (lp_parents ?new)" using "2.prems"(4) by auto
    ultimately have "loop_ok adj start members st' \<and> (v = start \<or> v \<in> fst ` set (lp_parents st')) \<and> (closed \<longrightarrow> start \<in> set ws)"
      using "2.IH"(3) new "2.prems"(1,3) by simp
    then show ?thesis by auto
  qed
qed simp

lemma loop_search_walk:
  assumes "loop_ok adj start members st"
  shows "loop_search adj start members st = [start]
    \<or> (\<exists>ws. loop_search adj start members st = start # ws @ [start] \<and> walk_along adj (start # ws @ [start])
        \<and> set ws \<subseteq> set members \<and> distinct (start # ws))"
  using assms
proof (induction adj start members st rule: loop_search.induct)
  case (1 adj start members st)
  show ?case
  proof (cases "lp_queue st")
    case Nil
    then show ?thesis by (simp add: loop_search.simps)
  next
    case (Cons v queue)
    obtain st' closed where nb: "loop_neighbors start members v (adj v) (st\<lparr>lp_queue := queue\<rparr>) = (st', closed)" by fastforce
    have "loop_ok adj start members (st\<lparr>lp_queue := queue\<rparr>)" "v = start \<or> v \<in> fst ` set (lp_parents st)"
      using "1.prems" Cons by (auto simp: loop_ok_def)
    then have st': "loop_ok adj start members st'" "v = start \<or> v \<in> fst ` set (lp_parents st')" "closed \<longrightarrow> start \<in> set (adj v)"
      using loop_neighbors_ok [OF nb] by auto
    show ?thesis
    proof (cases closed)
      case False
      then have "loop_search adj start members st = loop_search adj start members st'"
        using nb Cons by (simp add: loop_search.simps [of adj start members st])
      then show ?thesis using "1.IH" [OF Cons nb [symmetric] refl False st'(1)] by simp
    next
      case True
      let ?c = "parent_chain start (lp_parents st') v"
      have ps: "parents_ok adj start members (lp_parents st')" using st'(1) by (simp add: loop_ok_def)
      note ch = parent_chain_walk [OF ps st'(2)]
      obtain us where us: "start # rev ?c = us @ [v]" using ch by (metis append_butlast_last_id list.distinct(1))
      have "walk_along adj ((us @ [v]) @ [start])" using ch us True st'(3) walk_along_snoc [of adj us v start] by simp
      then have "walk_along adj (start # rev ?c @ [start])" unfolding us [symmetric] by simp
      moreover have "fst ` set (lp_parents st') \<subseteq> set members" using ps by (rule parents_members)
      moreover have "loop_search adj start members st = start # rev ?c @ [start]"
        using nb Cons True by (simp add: loop_search.simps)
      ultimately show ?thesis using ch by auto
    qed
  qed
qed

lemma representative_loop_walk:
  "representative_loop adj members start = [start]
    \<or> (\<exists>ws. representative_loop adj members start = start # ws @ [start] \<and> walk_along adj (start # ws @ [start])
        \<and> set ws \<subseteq> set members \<and> distinct (start # ws))"
  unfolding representative_loop_def by (rule loop_search_walk) (simp add: loop_ok_def)

lemma mset_concat_map: "mset (concat (map f xs)) = \<Sum>\<^sub># (image_mset (\<lambda>x. mset (f x)) (mset xs))"
  by (induction xs) auto

lemma cycles_from_distinct:
  assumes "distinct (concat comps)"
  shows "distinct (concat (map gc_members (cycles_from adj comps)))"
proof -
  let ?f = "\<lambda>c. \<lparr>gc_members = sort c, gc_representative_path = representative_loop adj c (hd (sort c))\<rparr>"
  let ?ks = "filter (\<lambda>c. 2 \<le> length c) comps"
  have members: "mset (concat (map gc_members (map ?f ks))) = mset (concat ks)" for ks by (induction ks) auto
  have "distinct (concat (filter P comps))" for P using assms by (induction comps) auto
  then have "distinct (concat ?ks)" .
  then have "distinct (concat (map gc_members (map ?f ?ks)))"
    by (rule iffD2 [OF mset_eq_imp_distinct_iff [OF members]])
  moreover have "mset (concat (map gc_members (cycles_from adj comps))) = mset (concat (map gc_members (map ?f ?ks)))"
    unfolding cycles_from_def mset_concat_map mset_sort ..
  ultimately show ?thesis by (rule iffD2 [OF mset_eq_imp_distinct_iff, rotated])
qed

text \<open>
  Finding the cycles of any set of edges always returns. Every reported cycle has its members
  sorted, without repetition and at least two of them, all of them keys of the edges that were
  used; no key is in two cycles; the cycles come in the order of their members. The path that
  stands for a cycle starts at its first member and, unless no loop closes, is a walk along stored
  edges inside the cycle that returns to its start and meets no other node twice.
\<close>

theorem find_cycles_report:
  "\<exists>cs. find_cycles es d restrict = Some cs \<and> distinct (concat (map gc_members cs)) \<and> sorted (map gc_members cs)
     \<and> (\<forall>c \<in> set cs. sorted (gc_members c) \<and> 2 \<le> length (gc_members c)
          \<and> set (gc_members c) \<subseteq> (\<Union>e \<in> set (filter (usable_edge d restrict) es). {ge_origin d e, ge_endpoint d e})
          \<and> (gc_representative_path c = [hd (gc_members c)]
              \<or> (\<exists>ws. gc_representative_path c = hd (gc_members c) # ws @ [hd (gc_members c)]
                   \<and> walk_along (adjacency d (filter (usable_edge d restrict) es)) (gc_representative_path c)
                   \<and> set ws \<subseteq> set (gc_members c) \<and> distinct (hd (gc_members c) # ws))))"
proof -
  let ?used = "filter (usable_edge d restrict) es"
  let ?adj = "adjacency d ?used"
  obtain comps where comps: "components_of d ?used = Some comps" "distinct (concat comps)" "[] \<notin> set comps"
      "set (concat comps) = (\<Union>e \<in> set ?used. {ge_origin d e, ge_endpoint d e})"
    using components_parts [of d ?used] by blast
  let ?cs = "cycles_from ?adj comps"
  have "find_cycles es d restrict = Some ?cs" using comps(1) by (simp add: find_cycles_def Let_def)
  moreover have "distinct (concat (map gc_members ?cs))" by (rule cycles_from_distinct [OF comps(2)])
  moreover have "sorted (map gc_members ?cs)" by (simp add: cycles_from_def)
  moreover have "\<forall>c \<in> set ?cs. \<exists>k \<in> set comps. gc_members c = sort k \<and> 2 \<le> length k
      \<and> gc_representative_path c = representative_loop ?adj k (hd (sort k))" by (auto simp: cycles_from_def)
  moreover have "sorted (gc_members c) \<and> 2 \<le> length (gc_members c) \<and> set (gc_members c) \<subseteq> set (concat comps)
      \<and> (gc_representative_path c = [hd (gc_members c)]
          \<or> (\<exists>ws. gc_representative_path c = hd (gc_members c) # ws @ [hd (gc_members c)]
               \<and> walk_along ?adj (gc_representative_path c)
               \<and> set ws \<subseteq> set (gc_members c) \<and> distinct (hd (gc_members c) # ws)))"
    if "k \<in> set comps" "gc_members c = sort k" "2 \<le> length k"
      "gc_representative_path c = representative_loop ?adj k (hd (sort k))" for c k
    using representative_loop_walk [of ?adj k "hd (sort k)"] that by auto
  ultimately show ?thesis unfolding comps(4) by blast
qed

end
