(* ===== verification/Adg_Membership_Paths.thy ===== *)
theory Adg_Membership_Paths
  imports Adg_Cycles
begin

section \<open>Simple paths between two identities (simple_paths, find_paths and expand of app/domain/graph.py)\<close>

text \<open>
  The iterative depth-first enumeration with its explicit stack, a reference enumeration by
  structural recursion, and the proof that the loop computes it, cut at the path limit. With the
  cycle report the whole result of \<open>expand\<close> is assembled here, and \<open>find_paths\<close> on top of it.
\<close>

subsection \<open>The enumeration\<close>

text \<open>\<open>outgoing\<close>: the edges a member is on, by group and then by edge key.\<close>

definition outgoing :: "graph_edge list \<Rightarrow> string \<Rightarrow> graph_edge list" where
  "outgoing es m = sort_key (\<lambda>e. (ge_group_key e, ge_edge_key e)) (filter (\<lambda>e. ge_member_key e = m) es)"

record membership_path =
  mp_nodes :: "string list"
  mp_edges :: "graph_edge list"

definition mp_length :: "membership_path \<Rightarrow> nat" where
  "mp_length p = length (mp_nodes p) - 1"

definition path_of :: "string \<Rightarrow> graph_edge list \<Rightarrow> membership_path" where
  "path_of member taken = \<lparr>mp_nodes = member # map ge_group_key taken, mp_edges = taken\<rparr>"

type_synonym frame = "string \<times> graph_edge list \<times> nat"

record path_walk =
  pw_stack :: "frame list"
  pw_on_path :: "string set"
  pw_found :: "membership_path list"
  pw_trunc :: "truncation_reason set"

text \<open>One turn of \<open>while stack\<close>; the flag is the \<open>break\<close> at the path limit.\<close>

definition paths_step ::
  "(string \<Rightarrow> graph_edge list) \<Rightarrow> string \<Rightarrow> string \<Rightarrow> traversal_limits \<Rightarrow> frame \<Rightarrow> path_walk \<Rightarrow> path_walk \<times> bool" where
  "paths_step out member target lim fr w =
     (let (node, taken, index) = fr;
          candidates = out node
      in if length candidates \<le> index
           then (if node \<noteq> member then w\<lparr>pw_on_path := pw_on_path w - {node}\<rparr> else w, False)
         else
           (let w1 = w\<lparr>pw_stack := (node, taken, Suc index) # pw_stack w\<rparr>;
                edge = candidates ! index;
                far = ge_group_key edge;
                next_taken = taken @ [edge]
            in if far \<in> pw_on_path w1 then (w1, False)
               else if far = target then
                 (let w2 = w1\<lparr>pw_found := pw_found w1 @ [path_of member next_taken]\<rparr>
                  in if tl_max_paths lim \<le> length (pw_found w2)
                       then (w2\<lparr>pw_trunc := insert TR_MAX_PATHS (pw_trunc w2)\<rparr>, True)
                     else (w2, False))
               else if tl_max_depth lim \<le> length next_taken then
                 (if out far \<noteq> [] then w1\<lparr>pw_trunc := insert TR_MAX_DEPTH (pw_trunc w1)\<rparr> else w1, False)
               else (w1\<lparr>pw_on_path := insert far (pw_on_path w1), pw_stack := (far, next_taken, 0) # pw_stack w1\<rparr>, False)))"

text \<open>
  A frame is replaced by itself with one candidate fewer and at most one frame that is one edge
  deeper, so the stack decreases as a multiset of pairs of the depth left and the candidates left.
\<close>

definition frame_size :: "(string \<Rightarrow> graph_edge list) \<Rightarrow> traversal_limits \<Rightarrow> frame \<Rightarrow> nat \<times> nat" where
  "frame_size out lim fr = (case fr of (node, taken, index) \<Rightarrow>
     (tl_max_depth lim - length taken, Suc (length (out node)) - index))"

definition frame_order :: "((nat \<times> nat) \<times> (nat \<times> nat)) set" where
  "frame_order = less_than <*lex*> less_than"

lemma wf_frame_order: "wf (mult frame_order)"
  unfolding frame_order_def by (intro wf_mult wf_lex_prod wf_less_than)

lemma paths_step_smaller:
  assumes "paths_step out member target lim fr (w\<lparr>pw_stack := rest\<rparr>) = (w', b)"
  shows "(mset (map (frame_size out lim) (pw_stack w')), mset (map (frame_size out lim) (fr # rest))) \<in> mult frame_order"
proof -
  obtain node taken index where fr: "fr = (node, taken, index)" by (cases fr)
  let ?s = "frame_size out lim"
  let ?R = "image_mset ?s (mset rest)"
  have tr: "trans frame_order" by (auto simp: frame_order_def trans_def)
  have one: "(?R + K, ?R + {#?s fr#}) \<in> mult frame_order" if "\<forall>k \<in># K. (k, ?s fr) \<in> frame_order" for K
    by (rule one_step_implies_mult) (use that in auto)
  show ?thesis
  proof (cases "length (out node) \<le> index")
    case True
    then have "pw_stack w' = rest" using assms by (auto simp: paths_step_def fr split: if_splits)
    with one [of "{#}"] show ?thesis by simp
  next
    case False
    let ?e = "out node ! index"
    have "(?s (node, taken, Suc index), ?s fr) \<in> frame_order"
      using False by (simp add: fr frame_size_def frame_order_def)
    moreover have "(?s (ge_group_key ?e, taken @ [?e], 0), ?s fr) \<in> frame_order" if "length taken + 1 < tl_max_depth lim"
      using that by (auto simp: fr frame_size_def frame_order_def intro: diff_less_mono2)
    moreover have "pw_stack w' = (node, taken, Suc index) # rest
       \<or> length taken + 1 < tl_max_depth lim \<and> pw_stack w' = (ge_group_key ?e, taken @ [?e], 0) # (node, taken, Suc index) # rest"
      using assms False by (auto simp: paths_step_def fr Let_def split: if_splits)
    ultimately show ?thesis
      using one [of "{#?s (node, taken, Suc index)#}"]
        one [of "{#?s (node, taken, Suc index), ?s (ge_group_key ?e, taken @ [?e], 0)#}"]
      by (auto simp: add_mset_commute)
  qed
qed

function paths_loop ::
  "(string \<Rightarrow> graph_edge list) \<Rightarrow> string \<Rightarrow> string \<Rightarrow> traversal_limits \<Rightarrow> path_walk \<Rightarrow> path_walk" where
  "paths_loop out member target lim w =
     (case pw_stack w of
        [] \<Rightarrow> w
      | fr # rest \<Rightarrow>
          (let (w', stop) = paths_step out member target lim fr (w\<lparr>pw_stack := rest\<rparr>)
           in if stop then w' else paths_loop out member target lim w'))"
  by pat_completeness auto

termination paths_loop
proof (relation "inv_image (mult frame_order) (\<lambda>(out, member, group, lim, w). mset (map (frame_size out lim) (pw_stack w)))",
    goal_cases)
  case 1
  show ?case by (rule wf_inv_image [OF wf_frame_order])
next
  case (2 out member target lim w fr rest x w' stop)
  then have "paths_step out member target lim fr (w\<lparr>pw_stack := rest\<rparr>) = (w', stop)" by simp
  from paths_step_smaller [OF this] 2(1) show ?case by simp
qed

declare paths_loop.simps [simp del]

definition paths_start :: "string \<Rightarrow> path_walk" where
  "paths_start member = \<lparr>pw_stack = [(member, [], 0)], pw_on_path = {member}, pw_found = [], pw_trunc = {}\<rparr>"

definition sorted_reasons :: "truncation_reason set \<Rightarrow> truncation_reason list" where
  "sorted_reasons rs = filter (\<lambda>r. r \<in> rs) [TR_MAX_DEPTH, TR_MAX_EDGES, TR_MAX_NODES, TR_MAX_PATHS]"

record path_enumeration =
  pe_paths :: "membership_path list"
  pe_truncation :: "truncation_reason list"

definition simple_paths ::
  "graph_edge list \<Rightarrow> string \<Rightarrow> string \<Rightarrow> traversal_limits \<Rightarrow> path_enumeration result" where
  "simple_paths es member target lim =
     (if member = target then Inl (DomainValidationError ''group_key'')
      else
        (let w = paths_loop (outgoing es) member target lim (paths_start member)
         in Inr \<lparr>pe_paths = sort_key (\<lambda>p. (mp_length p, mp_nodes p)) (pw_found w),
                 pe_truncation = sorted_reasons (pw_trunc w)\<rparr>))"


subsection \<open>A reference enumeration\<close>

text \<open>
  What the search meets, in order: a path that reached the target, or a node the depth limit left
  unexplored. The recursion is on the candidate edges and on the depth left.
\<close>

datatype path_event = PathFound "graph_edge list" | DepthCut

definition nodes_on :: "string \<Rightarrow> graph_edge list \<Rightarrow> string list" where
  "nodes_on member taken = member # map ge_group_key taken"

function path_events ::
  "(string \<Rightarrow> graph_edge list) \<Rightarrow> string \<Rightarrow> string \<Rightarrow> nat \<Rightarrow> graph_edge list \<Rightarrow> graph_edge list \<Rightarrow> path_event list" where
  "path_events out member target depth taken [] = []"
| "path_events out member target depth taken (e # es) =
     (if ge_group_key e \<in> set (nodes_on member taken) then []
      else if ge_group_key e = target then [PathFound (taken @ [e])]
      else if depth \<le> Suc (length taken) then (if out (ge_group_key e) \<noteq> [] then [DepthCut] else [])
      else path_events out member target depth (taken @ [e]) (out (ge_group_key e)))
     @ path_events out member target depth taken es"
  by pat_completeness auto

termination path_events
  by (relation "measures [\<lambda>(out, member, target, depth, taken, es). depth - length taken, \<lambda>(out, member, target, depth, taken, es). length es]") auto

text \<open>The paths are kept until there are \<open>max_paths\<close> of them.\<close>

fun keep_events ::
  "string \<Rightarrow> nat \<Rightarrow> path_event list \<Rightarrow> membership_path list \<Rightarrow> truncation_reason set \<Rightarrow> membership_path list \<times> truncation_reason set" where
  "keep_events member limit [] found trunc = (found, trunc)"
| "keep_events member limit (DepthCut # evs) found trunc = keep_events member limit evs found (insert TR_MAX_DEPTH trunc)"
| "keep_events member limit (PathFound p # evs) found trunc =
     (if limit \<le> Suc (length found) then (found @ [path_of member p], insert TR_MAX_PATHS trunc)
      else keep_events member limit evs (found @ [path_of member p]) trunc)"

text \<open>The frames of the stack are prefixes of one another, and \<open>on_path\<close> is the top frame's chain.\<close>

fun stack_ok :: "string \<Rightarrow> string set \<Rightarrow> frame list \<Rightarrow> bool" where
  "stack_ok member on_path [] \<longleftrightarrow> True"
| "stack_ok member on_path ((node, taken, index) # rest) \<longleftrightarrow>
     node = last (nodes_on member taken) \<and> on_path = set (nodes_on member taken) \<and> distinct (nodes_on member taken)
     \<and> (if taken = [] then rest = [] else stack_ok member (on_path - {node}) rest)"

definition frame_events ::
  "(string \<Rightarrow> graph_edge list) \<Rightarrow> string \<Rightarrow> string \<Rightarrow> nat \<Rightarrow> frame \<Rightarrow> path_event list" where
  "frame_events out member target depth fr = (case fr of (node, taken, index) \<Rightarrow>
     path_events out member target depth taken (drop index (out node)))"

lemma nodes_on_simps [simp]:
  "nodes_on member [] = [member]" "nodes_on member (taken @ [e]) = nodes_on member taken @ [ge_group_key e]"
  "nodes_on member taken \<noteq> []" "member \<in> set (nodes_on member taken)"
  by (simp_all add: nodes_on_def)

lemma last_nodes_on: "distinct (nodes_on member taken) \<Longrightarrow> last (nodes_on member taken) = member \<longleftrightarrow> taken = []"
  by (cases taken rule: rev_cases) (auto simp: nodes_on_def)

lemma paths_step_events:
  assumes "stack_ok member (pw_on_path w) (fr # rest)"
    and "paths_step out member target lim fr (w\<lparr>pw_stack := rest\<rparr>) = (w', stop)"
  shows "(if stop then (pw_found w', pw_trunc w')
          else keep_events member (tl_max_paths lim)
            (concat (map (frame_events out member target (tl_max_depth lim)) (pw_stack w'))) (pw_found w') (pw_trunc w'))
        = keep_events member (tl_max_paths lim)
            (concat (map (frame_events out member target (tl_max_depth lim)) (fr # rest))) (pw_found w) (pw_trunc w)
      \<and> (\<not> stop \<longrightarrow> stack_ok member (pw_on_path w') (pw_stack w'))"
proof -
  obtain node taken index where fr: "fr = (node, taken, index)" by (cases fr)
  have ok: "node = last (nodes_on member taken)" "pw_on_path w = set (nodes_on member taken)" "distinct (nodes_on member taken)"
      "if taken = [] then rest = [] else stack_ok member (pw_on_path w - {node}) rest"
    using assms(1) unfolding fr stack_ok.simps by blast+
  show ?thesis
  proof (cases "length (out node) \<le> index")
    case True
    then have "frame_events out member target (tl_max_depth lim) fr = []" by (simp add: frame_events_def fr)
    moreover have "w' = (if node \<noteq> member then w\<lparr>pw_stack := rest, pw_on_path := pw_on_path w - {node}\<rparr> else w\<lparr>pw_stack := rest\<rparr>)"
        "\<not> stop" using assms(2) True by (auto simp: paths_step_def fr)
    moreover have "node \<noteq> member \<longleftrightarrow> taken \<noteq> []" using last_nodes_on [OF ok(3)] ok(1) by simp
    ultimately show ?thesis using ok(4) by simp
  next
    case False
    let ?e = "out node ! index"
    have "drop index (out node) = ?e # drop (Suc index) (out node)" using False by (simp add: Cons_nth_drop_Suc)
    then have ev: "frame_events out member target (tl_max_depth lim) fr =
        (if ge_group_key ?e \<in> pw_on_path w then []
         else if ge_group_key ?e = target then [PathFound (taken @ [?e])]
         else if tl_max_depth lim \<le> Suc (length taken) then (if out (ge_group_key ?e) \<noteq> [] then [DepthCut] else [])
         else frame_events out member target (tl_max_depth lim) (ge_group_key ?e, taken @ [?e], 0))
        @ frame_events out member target (tl_max_depth lim) (node, taken, Suc index)"
      by (simp add: frame_events_def fr ok(2))
    let ?w = "w\<lparr>pw_stack := (node, taken, Suc index) # rest\<rparr>"
    have step: "paths_step out member target lim fr (w\<lparr>pw_stack := rest\<rparr>) =
        (if ge_group_key ?e \<in> pw_on_path w then (?w, False)
         else if ge_group_key ?e = target then
           (if tl_max_paths lim \<le> Suc (length (pw_found w))
              then (?w\<lparr>pw_found := pw_found w @ [path_of member (taken @ [?e])], pw_trunc := insert TR_MAX_PATHS (pw_trunc w)\<rparr>, True)
            else (?w\<lparr>pw_found := pw_found w @ [path_of member (taken @ [?e])]\<rparr>, False))
         else if tl_max_depth lim \<le> Suc (length taken) then
           (if out (ge_group_key ?e) \<noteq> [] then ?w\<lparr>pw_trunc := insert TR_MAX_DEPTH (pw_trunc w)\<rparr> else ?w, False)
         else (?w\<lparr>pw_on_path := insert (ge_group_key ?e) (pw_on_path w),
                 pw_stack := (ge_group_key ?e, taken @ [?e], 0) # (node, taken, Suc index) # rest\<rparr>, False))"
      using False by (simp add: paths_step_def fr Let_def)
    have top: "stack_ok member (pw_on_path w) ((node, taken, Suc index) # rest)" using assms(1) unfolding fr stack_ok.simps .
    consider (cycle) "ge_group_key ?e \<in> pw_on_path w" | (hit) "ge_group_key ?e \<notin> pw_on_path w" "ge_group_key ?e = target"
      | (cut) "ge_group_key ?e \<notin> pw_on_path w" "ge_group_key ?e \<noteq> target" "tl_max_depth lim \<le> Suc (length taken)"
      | (deeper) "ge_group_key ?e \<notin> pw_on_path w" "ge_group_key ?e \<noteq> target" "\<not> tl_max_depth lim \<le> Suc (length taken)" by blast
    then show ?thesis
    proof cases
      case cycle
      then have "w' = ?w" "stop = False" using assms(2) unfolding step by simp_all
      then show ?thesis using top cycle by (simp add: ev del: stack_ok.simps)
    next
      case hit
      then have "stop = (tl_max_paths lim \<le> Suc (length (pw_found w)))"
          "w' = (if stop then ?w\<lparr>pw_found := pw_found w @ [path_of member (taken @ [?e])], pw_trunc := insert TR_MAX_PATHS (pw_trunc w)\<rparr>
                 else ?w\<lparr>pw_found := pw_found w @ [path_of member (taken @ [?e])]\<rparr>)"
        using assms(2) unfolding step by (simp_all split: if_splits)
      then show ?thesis using top hit by (simp add: ev del: stack_ok.simps)
    next
      case cut
      then have "stop = False" "w' = (if out (ge_group_key ?e) \<noteq> [] then ?w\<lparr>pw_trunc := insert TR_MAX_DEPTH (pw_trunc w)\<rparr> else ?w)"
        using assms(2) unfolding step by simp_all
      then show ?thesis using top cut by (simp add: ev del: stack_ok.simps)
    next
      case deeper
      have "insert (ge_group_key ?e) (pw_on_path w) - {ge_group_key ?e} = pw_on_path w" using deeper(1) by blast
      then have "stack_ok member (insert (ge_group_key ?e) (pw_on_path w)) ((ge_group_key ?e, taken @ [?e], 0) # (node, taken, Suc index) # rest)"
        unfolding stack_ok.simps(2) [of _ _ "ge_group_key ?e"] using top deeper(1) ok(2,3) by (simp del: stack_ok.simps)
      moreover have "stop = False" "w' = ?w\<lparr>pw_on_path := insert (ge_group_key ?e) (pw_on_path w),
          pw_stack := (ge_group_key ?e, taken @ [?e], 0) # (node, taken, Suc index) # rest\<rparr>"
        using assms(2) deeper unfolding step by simp_all
      ultimately show ?thesis using deeper by (simp add: ev del: stack_ok.simps)
    qed
  qed
qed

lemma paths_loop_events:
  "stack_ok member (pw_on_path w) (pw_stack w) \<Longrightarrow>
     (pw_found (paths_loop out member target lim w), pw_trunc (paths_loop out member target lim w)) =
       keep_events member (tl_max_paths lim)
         (concat (map (frame_events out member target (tl_max_depth lim)) (pw_stack w))) (pw_found w) (pw_trunc w)"
proof (induction out member target lim w rule: paths_loop.induct)
  case (1 out member target lim w)
  show ?case
  proof (cases "pw_stack w")
    case Nil
    then show ?thesis by (simp add: paths_loop.simps)
  next
    case (Cons fr rest)
    obtain w' stop where st: "paths_step out member target lim fr (w\<lparr>pw_stack := rest\<rparr>) = (w', stop)" by fastforce
    note step = paths_step_events [OF "1.prems" [unfolded Cons] st]
    have loop: "paths_loop out member target lim w = (if stop then w' else paths_loop out member target lim w')"
      using Cons st by (simp add: paths_loop.simps [of out member target lim w])
    show ?thesis
    proof (cases stop)
      case True
      then show ?thesis using step loop Cons by simp
    next
      case False
      with "1.IH" [OF Cons st [symmetric] refl False] step loop Cons show ?thesis by simp
    qed
  qed
qed


subsection \<open>What the reference enumeration lists\<close>

text \<open>A simple chain: stored edges from the member upwards, ending at the target, no node twice.\<close>

definition simple_chain :: "graph_edge list \<Rightarrow> string \<Rightarrow> string \<Rightarrow> graph_edge list \<Rightarrow> bool" where
  "simple_chain es member target p \<longleftrightarrow> p \<noteq> [] \<and> set p \<subseteq> set es \<and> edge_walk UP member p
     \<and> walk_end UP member p = target \<and> distinct (nodes_on member p)"

lemma up_ends [simp]: "ge_endpoint UP = ge_group_key" "ge_origin UP = ge_member_key"
  by (simp_all add: ge_endpoint_def ge_origin_def fun_eq_iff)

lemma set_outgoing [simp]: "set (outgoing es m) = {e \<in> set es. ge_member_key e = m}"
  by (auto simp: outgoing_def)

lemma edge_walk_append: "edge_walk d k (p @ q) \<longleftrightarrow> edge_walk d k p \<and> edge_walk d (walk_end d k p) q"
  by (induction d k p rule: edge_walk.induct) (auto simp: walk_end_def)

lemma path_events_sound:
  assumes "PathFound p \<in> set (path_events (outgoing es) member target depth taken cands)"
    and "set taken \<subseteq> set es" "edge_walk UP member taken" "distinct (nodes_on member taken)"
    and "\<forall>e \<in> set cands. e \<in> set es \<and> ge_member_key e = walk_end UP member taken"
  shows "simple_chain es member target p \<and> length p \<le> max (Suc (length taken)) depth"
  using assms
proof (induction "outgoing es" member target depth taken cands rule: path_events.induct)
  case (2 member target depth taken e cands)
  let ?far = "ge_group_key e"
  consider (later) "PathFound p \<in> set (path_events (outgoing es) member target depth taken cands)"
    | (hit) "p = taken @ [e]" "?far = target" "?far \<notin> set (nodes_on member taken)"
    | (deeper) "?far \<notin> set (nodes_on member taken)" "?far \<noteq> target" "\<not> depth \<le> Suc (length taken)"
        "PathFound p \<in> set (path_events (outgoing es) member target depth (taken @ [e]) (outgoing es ?far))"
    using "2.prems"(1) by (auto split: if_splits)
  then show ?case
  proof cases
    case later
    then show ?thesis using "2.hyps"(2) "2.prems" by simp
  next
    case hit
    then show ?thesis using "2.prems" by (auto simp: simple_chain_def edge_walk_snoc walk_end_snoc)
  next
    case deeper
    then have "simple_chain es member target p \<and> length p \<le> max (Suc (length (taken @ [e]))) depth"
      by (intro "2.hyps"(1)) (use deeper "2.prems" in \<open>auto simp: edge_walk_snoc walk_end_snoc\<close>)
    then show ?thesis using deeper(3) by auto
  qed
qed simp

lemma path_events_complete:
  assumes "simple_chain es member target (taken @ e # q)" "e \<in> set cands"
  shows "PathFound (taken @ e # q) \<in> set (path_events (outgoing es) member target depth taken cands)
    \<or> DepthCut \<in> set (path_events (outgoing es) member target depth taken cands) \<and> depth < length (taken @ e # q)"
  using assms
proof (induction "outgoing es" member target depth taken cands arbitrary: e q rule: path_events.induct)
  case (2 member target depth taken e' cands)
  show ?case
  proof (cases "e \<in> set cands")
    case True
    then show ?thesis using "2.hyps"(2) [OF "2.prems"(1)] by auto
  next
    case False
    then have e: "e = e'" using "2.prems"(2) by simp
    let ?far = "ge_group_key e"
    have chain: "distinct (nodes_on member (taken @ e # q))" "set q \<subseteq> set es" "edge_walk UP ?far q" "walk_end UP ?far q = target"
      using "2.prems"(1) by (auto simp: simple_chain_def edge_walk_append walk_end_def)
    have new: "?far \<notin> set (nodes_on member taken)" "?far \<notin> ge_group_key ` set q" using chain(1) by (auto simp: nodes_on_def)
    show ?thesis
    proof (cases q)
      case Nil
      then show ?thesis using new(1) chain(4) e by (simp add: walk_end_def)
    next
      case (Cons e2 q2)
      then have "target \<in> ge_group_key ` set q" using chain(4) last_in_set [of "map ge_group_key q"] by (auto simp: walk_end_def)
      then have far: "?far \<noteq> target" using new(2) by blast
      have e2: "e2 \<in> set (outgoing es ?far)" using Cons chain(2,3) by auto
      show ?thesis
      proof (cases "depth \<le> Suc (length taken)")
        case True
        moreover have "outgoing es ?far \<noteq> []" using e2 by (metis empty_iff empty_set)
        ultimately show ?thesis using new(1) far e Cons by simp
      next
        case deep: False
        have "simple_chain es member target ((taken @ [e]) @ e2 # q2)" using "2.prems"(1) Cons by simp
        from "2.hyps"(1) [OF _ _ _ this [unfolded e], unfolded e [symmetric], OF new(1) far deep e2]
        show ?thesis using new(1) far deep e Cons by auto
      qed
    qed
  qed
qed simp

fun found_paths :: "path_event list \<Rightarrow> graph_edge list list" where
  "found_paths [] = []"
| "found_paths (PathFound p # evs) = p # found_paths evs"
| "found_paths (DepthCut # evs) = found_paths evs"

lemma set_found_paths: "set (found_paths evs) = {p. PathFound p \<in> set evs}"
  by (induction evs rule: found_paths.induct) auto

lemma found_paths_append [simp]: "found_paths (xs @ ys) = found_paths xs @ found_paths ys"
  by (induction xs rule: found_paths.induct) auto

lemma path_events_extend:
  "PathFound p \<in> set (path_events out member target depth taken cands) \<Longrightarrow> \<exists>e q. e \<in> set cands \<and> p = taken @ e # q"
proof (induction out member target depth taken cands rule: path_events.induct)
  case (2 out member target depth taken e es)
  then show ?case by (fastforce split: if_splits)
qed simp

lemma path_events_distinct:
  assumes "\<forall>m. distinct (out m)" "distinct cands"
  shows "distinct (found_paths (path_events out member target depth taken cands))"
  using assms
proof (induction out member target depth taken cands rule: path_events.induct)
  case (2 out member target depth taken e es)
  let ?head = "path_events out member target depth taken [e]"
  have split: "path_events out member target depth taken (e # es) = ?head @ path_events out member target depth taken es" by simp
  have "distinct (found_paths ?head)" using "2.IH"(1) "2.prems"(1) by auto
  moreover have "distinct (found_paths (path_events out member target depth taken es))" using "2.IH"(2) "2.prems" by simp
  moreover have "set (found_paths ?head) \<inter> set (found_paths (path_events out member target depth taken es)) = {}"
  proof -
    have "False" if "PathFound p \<in> set ?head" "PathFound p \<in> set (path_events out member target depth taken es)" for p
      using path_events_extend [OF that(1)] path_events_extend [OF that(2)] "2.prems"(2) by auto
    then show ?thesis unfolding set_found_paths by blast
  qed
  ultimately show ?case unfolding split by simp
qed simp

lemma keep_events_result:
  assumes "keep_events member limit evs found trunc = (found', trunc')" "TR_MAX_PATHS \<notin> trunc"
  shows "\<exists>k. found' = found @ map (path_of member) (take k (found_paths evs))
    \<and> (length found < limit \<longrightarrow> length found' \<le> limit)
    \<and> (TR_MAX_PATHS \<notin> trunc' \<longrightarrow> found' = found @ map (path_of member) (found_paths evs)
        \<and> trunc' = (if DepthCut \<in> set evs then insert TR_MAX_DEPTH trunc else trunc))"
  using assms
proof (induction member limit evs found trunc rule: keep_events.induct)
  case (3 member limit p evs found trunc)
  show ?case
  proof (cases "limit \<le> Suc (length found)")
    case True
    then have "found' = found @ map (path_of member) (take 1 (found_paths (PathFound p # evs)))" "trunc' = insert TR_MAX_PATHS trunc"
      using "3.prems"(1) by auto
    then show ?thesis using True by (intro exI [of _ 1]) auto
  next
    case False
    have "keep_events member limit evs (found @ [path_of member p]) trunc = (found', trunc')" using "3.prems"(1) False by simp
    from "3.IH" [OF False this "3.prems"(2)] obtain k where k: "found' = (found @ [path_of member p]) @ map (path_of member) (take k (found_paths evs))"
      "length (found @ [path_of member p]) < limit \<longrightarrow> length found' \<le> limit"
      "TR_MAX_PATHS \<notin> trunc' \<longrightarrow> found' = (found @ [path_of member p]) @ map (path_of member) (found_paths evs)
        \<and> trunc' = (if DepthCut \<in> set evs then insert TR_MAX_DEPTH trunc else trunc)" by blast
    then show ?thesis using False by (intro exI [of _ "Suc k"]) auto
  qed
next
  case (2 member limit evs found trunc)
  have "keep_events member limit evs found (insert TR_MAX_DEPTH trunc) = (found', trunc')" "TR_MAX_PATHS \<notin> insert TR_MAX_DEPTH trunc"
    using "2.prems" by simp_all
  from "2.IH" [OF this] obtain k where k: "found' = found @ map (path_of member) (take k (found_paths evs))"
      "length found < limit \<longrightarrow> length found' \<le> limit"
      "TR_MAX_PATHS \<notin> trunc' \<longrightarrow> found' = found @ map (path_of member) (found_paths evs) \<and> trunc' = insert TR_MAX_DEPTH trunc"
    by (metis insert_absorb2)
  then show ?case by (intro exI [of _ k]) simp
qed (auto intro: exI [of _ 0])


lemma sorted_reasons_simps:
  "sorted_reasons rs = [] \<longleftrightarrow> rs = {}" "set (sorted_reasons rs) = rs"
proof -
  have "r \<in> set [TR_MAX_DEPTH, TR_MAX_EDGES, TR_MAX_NODES, TR_MAX_PATHS]" for r by (cases r) simp_all
  then show "set (sorted_reasons rs) = rs" unfolding sorted_reasons_def set_filter by blast
  then show "sorted_reasons rs = [] \<longleftrightarrow> rs = {}" by (metis empty_set set_empty)
qed

lemma path_of_inject: "path_of member p = path_of member q \<longleftrightarrow> p = q"
  by (auto simp: path_of_def)

lemma keep_events_zero: "length (fst (keep_events member 0 evs found trunc)) \<le> Suc (length found)"
  by (induction member "0 :: nat" evs found trunc rule: keep_events.induct) auto

lemma simple_paths_of:
  assumes "member \<noteq> target" "distinct es"
  shows "\<exists>r. simple_paths es member target lim = Inr r
    \<and> (\<forall>p \<in> set (pe_paths r). \<exists>q. p = path_of member q \<and> simple_chain es member target q \<and> length q \<le> max 1 (tl_max_depth lim))
    \<and> length (pe_paths r) \<le> max 1 (tl_max_paths lim) \<and> distinct (pe_paths r)
    \<and> sorted (map (\<lambda>p. (mp_length p, mp_nodes p)) (pe_paths r))
    \<and> (TR_MAX_PATHS \<notin> set (pe_truncation r) \<longrightarrow>
         (\<forall>q. simple_chain es member target q \<and> length q \<le> tl_max_depth lim \<longrightarrow> path_of member q \<in> set (pe_paths r)))
    \<and> (pe_truncation r = [] \<longrightarrow> (\<forall>q. simple_chain es member target q \<longrightarrow> path_of member q \<in> set (pe_paths r)))"
proof -
  let ?w = "paths_loop (outgoing es) member target lim (paths_start member)"
  let ?evs = "path_events (outgoing es) member target (tl_max_depth lim) [] (outgoing es member)"
  have "(pw_found ?w, pw_trunc ?w) = keep_events member (tl_max_paths lim) ?evs [] {}"
    using paths_loop_events [of member "paths_start member"] by (simp add: paths_start_def frame_events_def)
  from keep_events_result [OF this [symmetric]] obtain k where
    k: "pw_found ?w = [] @ map (path_of member) (take k (found_paths ?evs))"
    and len: "length ([] :: membership_path list) < tl_max_paths lim \<longrightarrow> length (pw_found ?w) \<le> tl_max_paths lim"
    and all: "TR_MAX_PATHS \<notin> pw_trunc ?w \<longrightarrow> pw_found ?w = [] @ map (path_of member) (found_paths ?evs)
        \<and> pw_trunc ?w = (if DepthCut \<in> set ?evs then {TR_MAX_DEPTH} else {})" by blast
  have none: "tl_max_paths lim = 0 \<longrightarrow> length (pw_found ?w) \<le> 1"
    using \<open>_ = keep_events member (tl_max_paths lim) ?evs [] {}\<close> keep_events_zero [of member ?evs "[]" "{}"] by (metis fst_conv list.size(3) plus_1_eq_Suc add.right_neutral)
  have sound: "simple_chain es member target q \<and> length q \<le> max 1 (tl_max_depth lim)" if "q \<in> set (found_paths ?evs)" for q
    using path_events_sound [of q es member target "tl_max_depth lim" "[]" "outgoing es member"] that
    by (auto simp: set_found_paths walk_end_def)
  have "distinct (found_paths ?evs)"
    using assms(2) by (intro path_events_distinct) (simp_all add: outgoing_def)
  then have dist: "distinct (pw_found ?w)" by (simp add: k distinct_map inj_on_def path_of_inject)
  have comp: "PathFound q \<in> set ?evs \<or> DepthCut \<in> set ?evs \<and> tl_max_depth lim < length q" if q: "simple_chain es member target q" for q
  proof -
    obtain e q' where "q = e # q'" using q by (cases q) (simp_all add: simple_chain_def)
    then show ?thesis using path_events_complete [of es member target "[]" e q' "outgoing es member"] q by (auto simp: simple_chain_def)
  qed
  have listed: "path_of member q \<in> set (pw_found ?w)" if "simple_chain es member target q" "TR_MAX_PATHS \<notin> pw_trunc ?w"
      "length q \<le> tl_max_depth lim \<or> DepthCut \<notin> set ?evs" for q
  proof -
    have "q \<in> set (found_paths ?evs)" using comp [OF that(1)] that(3) unfolding set_found_paths by auto
    moreover have "pw_found ?w = map (path_of member) (found_paths ?evs)" using all that(2) by simp
    ultimately show ?thesis by simp
  qed
  let ?r = "\<lparr>pe_paths = sort_key (\<lambda>p. (mp_length p, mp_nodes p)) (pw_found ?w), pe_truncation = sorted_reasons (pw_trunc ?w)\<rparr>"
  have "simple_paths es member target lim = Inr ?r" using assms(1) by (simp add: simple_paths_def Let_def)
  moreover have "\<forall>p \<in> set (pe_paths ?r). \<exists>q. p = path_of member q \<and> simple_chain es member target q \<and> length q \<le> max 1 (tl_max_depth lim)"
    using sound by (auto simp: k dest: in_set_takeD)
  moreover have "length (pe_paths ?r) \<le> max 1 (tl_max_paths lim)" using len none by auto
  moreover have "TR_MAX_PATHS \<notin> set (pe_truncation ?r) \<longrightarrow>
      (\<forall>q. simple_chain es member target q \<and> length q \<le> tl_max_depth lim \<longrightarrow> path_of member q \<in> set (pe_paths ?r))"
    using listed by (simp add: sorted_reasons_simps)
  moreover have "pe_truncation ?r = [] \<longrightarrow> (\<forall>q. simple_chain es member target q \<longrightarrow> path_of member q \<in> set (pe_paths ?r))"
  proof (intro impI allI)
    fix q
    assume "pe_truncation ?r = []" "simple_chain es member target q"
    then have none: "pw_trunc ?w = {}" by (simp add: sorted_reasons_simps)
    then have "DepthCut \<notin> set ?evs" using all by (metis empty_iff insert_not_empty)
    then show "path_of member q \<in> set (pe_paths ?r)" using listed [of q] none \<open>simple_chain es member target q\<close> by simp
  qed
  ultimately show ?thesis using dist by (intro exI [of _ ?r]) simp
qed

text \<open>
  Enumerating the paths between two different identities always returns. Every path reported is
  a simple chain of the given edges from the member to the group, within the depth limit; their
  number is within the path limit; they come shortest first and then in the order of their nodes,
  and none twice. When nothing was cut short they are all the simple chains there are, of any length;
  when only the path limit was not hit they are all the chains within the depth limit.
\<close>

theorem simple_paths_complete:
  assumes "member \<noteq> target" "distinct es"
  shows "\<exists>r. simple_paths es member target lim = Inr r
    \<and> (\<forall>p \<in> set (pe_paths r). \<exists>q. p = path_of member q \<and> simple_chain es member target q \<and> length q \<le> max 1 (tl_max_depth lim))
    \<and> length (pe_paths r) \<le> max 1 (tl_max_paths lim) \<and> distinct (pe_paths r)
    \<and> sorted (map (\<lambda>p. (mp_length p, mp_nodes p)) (pe_paths r))
    \<and> (TR_MAX_PATHS \<notin> set (pe_truncation r) \<longrightarrow>
         (\<forall>q. simple_chain es member target q \<and> length q \<le> tl_max_depth lim \<longrightarrow> path_of member q \<in> set (pe_paths r)))
    \<and> (pe_truncation r = [] \<longrightarrow> (\<forall>q. simple_chain es member target q \<longrightarrow> path_of member q \<in> set (pe_paths r)))"
  by (rule simple_paths_of [OF assms])

subsection \<open>The whole expansion, and the search between two identities\<close>

record expansion =
  ex_root :: string
  ex_direction :: direction
  ex_nodes :: "reached_node list"
  ex_edges :: "graph_edge list"
  ex_cycles :: "graph_cycle list"
  ex_depth_reached :: nat
  ex_limits :: traversal_limits
  ex_truncation :: "truncation_reason list"

text \<open>
  \<open>cycles = find_cycles(edges_seen.values(), direction, restrict_to=set(paths))\<close>. The search for
  cycles always returns (\<open>find_cycles_report\<close>), so the value at \<open>None\<close> is never used.
\<close>

definition cycles_found :: "graph_edge list \<Rightarrow> direction \<Rightarrow> string set option \<Rightarrow> graph_cycle list" where
  "cycles_found es d restrict = (case find_cycles es d restrict of Some cs \<Rightarrow> cs | None \<Rightarrow> [])"

definition expand :: "string \<Rightarrow> direction \<Rightarrow> traversal_limits \<Rightarrow> 's provider \<Rightarrow> 's \<Rightarrow> (expansion \<times> 's) result" where
  "expand root d lim nbrs s = res_bind (expand_walk root d lim nbrs s) (\<lambda>(st, s').
     Inr (\<lparr>ex_root = root, ex_direction = d, ex_nodes = expansion_nodes st, ex_edges = expansion_edges st,
            ex_cycles = cycles_found (gw_edges st) d (Some (known root st)), ex_depth_reached = depth_reached st,
            ex_limits = lim, ex_truncation = expansion_truncation st\<rparr>, s'))"

record path_search =
  sr_member_key :: string
  sr_group_key :: string
  sr_paths :: "membership_path list"
  sr_cycles :: "graph_cycle list"
  sr_limits :: traversal_limits
  sr_truncation :: "truncation_reason list"

definition ps_complete :: "path_search \<Rightarrow> bool" where "ps_complete r \<longleftrightarrow> sr_truncation r = []"
definition is_member :: "path_search \<Rightarrow> bool" where "is_member r \<longleftrightarrow> sr_paths r \<noteq> []"

definition find_paths :: "string \<Rightarrow> string \<Rightarrow> traversal_limits \<Rightarrow> 's provider \<Rightarrow> 's \<Rightarrow> (path_search \<times> 's) result" where
  "find_paths member target lim nbrs s =
     (if member = target then Inl (DomainValidationError ''group_key'')
      else res_bind (expand member UP lim nbrs s) (\<lambda>(ex, s').
        res_bind (simple_paths (ex_edges ex) member target lim) (\<lambda>en.
          Inr (\<lparr>sr_member_key = member, sr_group_key = target, sr_paths = pe_paths en, sr_cycles = ex_cycles ex,
                 sr_limits = lim, sr_truncation = sorted_reasons (set (ex_truncation ex) \<union> set (pe_truncation en))\<rparr>, s'))))"


text \<open>A chain of stored edges stays within what the member reaches.\<close>

lemma walk_reaches:
  assumes "edge_walk UP k p" "set p \<subseteq> set rows" "reaches UP (edges_out rows UP) root k" "e \<in> set p"
  shows "reaches UP (edges_out rows UP) root (ge_origin UP e)"
  using assms
proof (induction p arbitrary: k)
  case (Cons f p)
  have "f \<in> edges_out rows UP k" using Cons.prems by (auto simp: edges_out_def)
  then have "reaches UP (edges_out rows UP) root (ge_endpoint UP f)" using Cons.prems(3) by (rule reaches_step [rotated])
  then show ?case using Cons by auto
qed simp

lemma complete_expansion_edges:
  fixes coll :: "string \<Rightarrow> 'c::linorder"
  assumes "mk_traversal_limits dd nn ee pp = Inr lim"
    and "expand_walk root UP lim (neighbors coll (edge_rows tb) (edge_fetch_limit (int (tl_max_edges lim) + 1))) 0 = Inr (st, fetched)"
    and "expansion_complete st"
  shows "distinct (expansion_edges st)"
    and "simple_chain (expansion_edges st) root target p \<longleftrightarrow> simple_chain (edge_rows tb) root target p"
proof -
  note pair = limits_pairing [OF assms(1)]
  have trunc: "gw_trunc st = {}" using assms(3) by (simp add: expansion_simps)
  have known: "known root st = {k. reaches UP (edges_out (edge_rows tb) UP) root k}"
    and es: "set (gw_edges st) = (\<Union>k \<in> known root st. edges_out (edge_rows tb) UP k)"
    and once: "distinct (map ge_edge_key (gw_edges st))"
    using repository.walk_clean [OF assms(2) [unfolded pair] trunc] by simp_all
  have set_es: "set (expansion_edges st) = set (gw_edges st)" by (simp add: expansion_edges_def)
  show "distinct (expansion_edges st)" using once by (simp add: expansion_edges_def distinct_map)
  have sub: "set (expansion_edges st) \<subseteq> set (edge_rows tb)" unfolding set_es es by (auto simp: edges_out_def)
  show "simple_chain (expansion_edges st) root target p \<longleftrightarrow> simple_chain (edge_rows tb) root target p"
  proof
    assume p: "simple_chain (edge_rows tb) root target p"
    have "e \<in> set (expansion_edges st)" if "e \<in> set p" for e
    proof -
      have "reaches UP (edges_out (edge_rows tb) UP) root (ge_origin UP e)"
        using walk_reaches [of root p "edge_rows tb" root e] p that by (auto simp: simple_chain_def intro: reaches.intros)
      moreover have "e \<in> edges_out (edge_rows tb) UP (ge_origin UP e)" using p that by (auto simp: simple_chain_def edges_out_def)
      ultimately show ?thesis unfolding set_es es known by blast
    qed
    then show "simple_chain (expansion_edges st) root target p" using p by (auto simp: simple_chain_def)
  qed (use sub in \<open>auto simp: simple_chain_def\<close>)
qed

text \<open>
  C11. A search between two identities that reports itself complete is exact: over a repository
  paired with the traversal, the paths it returns are all the simple chains of stored edges from the
  member up to the group and no others, whatever the collation. In particular it says the identity
  is a member exactly when such a chain is stored.
\<close>

theorem find_paths_exact:
  fixes coll :: "string \<Rightarrow> 'c::linorder"
  assumes "mk_traversal_limits max_depth max_nodes max_edges max_paths = Inr lim"
    and search: "find_paths member target lim
      (neighbors coll (edge_rows tb) (edge_fetch_limit (int (tl_max_edges lim) + 1))) 0 = Inr (r, fetched)"
    and complete: "ps_complete r"
  shows "set (sr_paths r) = path_of member ` {p. simple_chain (edge_rows tb) member target p}
    \<and> (is_member r \<longleftrightarrow> (\<exists>p. simple_chain (edge_rows tb) member target p)) \<and> distinct (sr_paths r)"
proof -
  have ne: "member \<noteq> target" using search by (auto simp: find_paths_def)
  with search obtain st en where walk: "expand_walk member UP lim
      (neighbors coll (edge_rows tb) (edge_fetch_limit (int (tl_max_edges lim) + 1))) 0 = Inr (st, fetched)"
    and en: "simple_paths (expansion_edges st) member target lim = Inr en"
    and r: "sr_paths r = pe_paths en" "sr_truncation r = sorted_reasons (set (expansion_truncation st) \<union> set (pe_truncation en))"
    by (auto simp: find_paths_def expand_def result_simps)
  have whole: "expansion_complete st" "pe_truncation en = []"
    using complete r(2) by (simp_all add: ps_complete_def sorted_reasons_simps expansion_complete_def)
  note edges = complete_expansion_edges [OF assms(1) walk whole(1)]
  from simple_paths_of [OF ne edges(1), of lim] en whole(2)
  have "\<forall>p \<in> set (pe_paths en). \<exists>q. p = path_of member q \<and> simple_chain (expansion_edges st) member target q"
      "\<forall>q. simple_chain (expansion_edges st) member target q \<longrightarrow> path_of member q \<in> set (pe_paths en)" "distinct (pe_paths en)"
    by auto
  then have "set (sr_paths r) = path_of member ` {p. simple_chain (edge_rows tb) member target p}" "distinct (sr_paths r)"
    unfolding r(1) edges(2) by blast+
  moreover have "is_member r \<longleftrightarrow> set (sr_paths r) \<noteq> {}" by (simp add: is_member_def)
  ultimately show ?thesis by simp
qed

definition search_limits :: traversal_limits where
  "search_limits = \<lparr>tl_max_depth = 32, tl_max_nodes = 10, tl_max_edges = 6, tl_max_paths = 5\<rparr>"

lemma search_limits_ok: "mk_traversal_limits 32 10 6 5 = Inr search_limits"
  by (simp add: mk_traversal_limits_def check_limit_def search_limits_def MAX_DEPTH_CEILING_def
      MAX_NODES_CEILING_def MAX_EDGES_CEILING_def MAX_PATHS_CEILING_def result_simps)

definition sample_search :: "(path_search \<times> nat) result" where
  "sample_search = find_paths ''b'' ''A'' search_limits
     (neighbors no_collation (edge_rows sample_table) (edge_fetch_limit 7)) 0"

lemma sample_search_result:
  "case sample_search of Inl e \<Rightarrow> False
   | Inr (r, n) \<Rightarrow> ps_complete r \<and> map mp_nodes (sr_paths r) = [[''b'', ''B'', ''A'']]
       \<and> map gc_representative_path (sr_cycles r) = [[''A'', ''B'', ''A'']]"
  unfolding sample_search_def sample_rows by code_simp

theorem simple_paths_complete_witness:
  "\<exists>r. simple_paths [sample_edge ''1'' ''A'' ''a''] ''a'' ''A'' search_limits = Inr r \<and> length (pe_paths r) \<le> 5"
  using simple_paths_complete [of "''a''" "''A''" "[sample_edge ''1'' ''A'' ''a'']" search_limits]
  by (auto simp: search_limits_def)

theorem find_paths_exact_witness:
  "\<exists>p. simple_chain (edge_rows sample_table) ''b'' ''A'' p"
proof -
  obtain r n where r: "sample_search = Inr (r, n)" "ps_complete r" "map mp_nodes (sr_paths r) = [[''b'', ''B'', ''A'']]"
    using sample_search_result by (auto split: sum.splits prod.splits)
  have edges: "int (tl_max_edges search_limits) + 1 = 7" by (simp add: search_limits_def)
  have "is_member r" using r(3) by (auto simp: is_member_def)
  then show ?thesis
    using find_paths_exact [OF search_limits_ok r(1) [unfolded sample_search_def edges [symmetric]] r(2)] by simp
qed

end
