(* ===== verification/Adg_Paths.thy ===== *)
theory Adg_Paths
  imports Adg_Prelude
begin

section \<open>Path identity (app/domain/paths.py, parse_share_identifier of app/domain/resources.py)\<close>

text \<open>
  UNC and drive-letter paths: separators, extended prefixes, components, and the share identifiers
  built on them. \<open>casefold\<close> is Python's Unicode case folding, a parameter; \<open>upper\<close> is needed on ASCII
  letters only (the prefixes and a drive letter). An error raised without a field has the empty field.
\<close>

abbreviation sep :: char where "sep \<equiv> CHR 0x5C"

definition UNC_PREFIX :: string where "UNC_PREFIX = [sep, sep]"

definition EXTENDED_PREFIXES :: "string list" where
  "EXTENDED_PREFIXES = [[sep, sep, CHR ''?'', sep] @ ''UNC'' @ [sep], [sep, sep, CHR ''.'', sep] @ ''UNC'' @ [sep],
     [sep, sep, CHR ''?'', sep], [sep, sep, CHR ''.'', sep]]"

definition ascii_upper :: "char \<Rightarrow> char" where
  "ascii_upper c = (if 97 \<le> code c \<and> code c \<le> 122 then char_of (code c - 32) else c)"

definition invalid_component_char :: "char \<Rightarrow> bool" where
  "invalid_component_char c \<longleftrightarrow> code c < 0x20 \<or> c \<in> {CHR ''<'', CHR ''>'', CHR '':'', CHR 0x22, CHR ''/'', sep, CHR ''|'', CHR ''?'', CHR ''*''}"

definition validate_component :: "string \<Rightarrow> string \<Rightarrow> unit result" where
  "validate_component s field =
     (if s = [] then Inl (DomainValidationError field)
      else if s = ''.'' \<or> s = ''..'' then Inl (DomainValidationError field)
      else if list_ex invalid_component_char s then Inl (DomainValidationError field)
      else Inr ())"

text \<open>\<open>tuple(part for part in relative.split(SEPARATOR) if part)\<close>\<close>

definition path_segments :: "string \<Rightarrow> string list" where
  "path_segments rel = filter (\<lambda>s. s \<noteq> []) (split_on sep rel)"

subsection \<open>UNC paths\<close>

record unc_path =
  unc_server :: string
  unc_share :: string
  unc_relative :: string

definition mk_unc_path :: "string \<Rightarrow> string \<Rightarrow> string \<Rightarrow> unc_path result" where
  "mk_unc_path server share rel =
     (if server = [] then Inl (DomainValidationError ''server'')
      else if share = [] then Inl (DomainValidationError ''share'')
      else res_bind (validate_component server ''server'') (\<lambda>_.
        res_bind (validate_component share ''share'') (\<lambda>_.
        res_bind (res_map (\<lambda>s. validate_component s ''path segment'') (path_segments rel)) (\<lambda>_.
        Inr \<lparr>unc_server = server, unc_share = share, unc_relative = rel\<rparr>))))"

definition unc_value :: "unc_path \<Rightarrow> string" where
  "unc_value p = (let base = UNC_PREFIX @ unc_server p @ [sep] @ unc_share p
     in if unc_relative p = [] then base else base @ [sep] @ unc_relative p)"

definition unc_is_share_root :: "unc_path \<Rightarrow> bool" where "unc_is_share_root p \<longleftrightarrow> unc_relative p = []"

definition unc_comparison_key :: "(string \<Rightarrow> string) \<Rightarrow> unc_path \<Rightarrow> string" where
  "unc_comparison_key casefold p = casefold (unc_value p)"

definition unc_parent :: "unc_path \<Rightarrow> unc_path result option" where
  "unc_parent p = (if unc_is_share_root p then None
     else Some (mk_unc_path (unc_server p) (unc_share p) (join_with [sep] (butlast (path_segments (unc_relative p))))))"

definition unc_child :: "unc_path \<Rightarrow> string \<Rightarrow> unc_path result" where
  "unc_child p name = res_bind (validate_component name ''path segment'') (\<lambda>_.
     mk_unc_path (unc_server p) (unc_share p) (if unc_relative p = [] then name else unc_relative p @ [sep] @ name))"

subsection \<open>Normalizing text\<close>

definition slashes_to_sep :: "string \<Rightarrow> string" where
  "slashes_to_sep s = map (\<lambda>c. if c = CHR ''/'' then sep else c) s"

text \<open>One round of \<open>body.replace(SEPARATOR * 2, SEPARATOR)\<close>, and the loop around it.\<close>

fun halve_pairs :: "string \<Rightarrow> string" where
  "halve_pairs (a # b # s) = (if a = sep \<and> b = sep then sep # halve_pairs s else a # halve_pairs (b # s))"
| "halve_pairs s = s"

fun has_pair :: "string \<Rightarrow> bool" where
  "has_pair (a # b # s) \<longleftrightarrow> a = sep \<and> b = sep \<or> has_pair (b # s)"
| "has_pair s \<longleftrightarrow> False"

lemma halve_pairs_shorter: "has_pair s \<Longrightarrow> length (halve_pairs s) < length s"
proof (induction s rule: halve_pairs.induct)
  case (1 a b s)
  have le: "length (halve_pairs t) \<le> length t" for t
    by (induction t rule: halve_pairs.induct) auto
  show ?case
  proof (cases "a = sep \<and> b = sep")
    case True
    then show ?thesis using le [of s] by simp
  next
    case False
    then have "has_pair (b # s)" using "1.prems" by auto
    then show ?thesis using "1.IH"(2) [OF False] False by auto
  qed
qed simp_all

function collapse_separators :: "string \<Rightarrow> string" where
  "collapse_separators body = (if has_pair body then collapse_separators (halve_pairs body) else body)"
  by pat_completeness auto

termination collapse_separators
  by (relation "measure length") (auto intro: halve_pairs_shorter)

declare collapse_separators.simps [simp del]

definition normalize_separators :: "string \<Rightarrow> string" where
  "normalize_separators text =
     (let collapsed = slashes_to_sep text;
          leading = (if is_prefix_of UNC_PREFIX collapsed then UNC_PREFIX else [])
      in leading @ collapse_separators (drop (length leading) collapsed))"

fun strip_prefixes :: "string list \<Rightarrow> string \<Rightarrow> string \<times> bool" where
  "strip_prefixes [] text = (text, False)"
| "strip_prefixes (p # ps) text =
     (if is_prefix_of p (map ascii_upper text)
        then (let remainder = drop (length p) text; is_unc = (is_prefix_of (rev (''UNC'' @ [sep])) (rev p))
              in (if is_unc then UNC_PREFIX @ remainder else remainder, is_unc))
      else strip_prefixes ps text)"

definition strip_extended_prefix :: "string \<Rightarrow> string \<times> bool" where
  "strip_extended_prefix text = strip_prefixes EXTENDED_PREFIXES text"

fun clean_segments :: "string list \<Rightarrow> string list result" where
  "clean_segments [] = Inr []"
| "clean_segments (s # ss) =
     (if s = [] \<or> s = ''.'' then clean_segments ss
      else if s = ''..'' then Inl (DomainValidationError ''path'')
      else res_bind (clean_segments ss) (\<lambda>rest. Inr (s # rest)))"

definition parse_unc_path :: "string \<Rightarrow> unc_path result" where
  "parse_unc_path raw =
     (if py_strip raw = [] then Inl (DomainValidationError [])
      else let text = normalize_separators (fst (strip_extended_prefix (normalize_separators (py_strip raw))))
        in if \<not> is_prefix_of UNC_PREFIX text then Inl (DomainValidationError ''path'')
           else res_bind (clean_segments (split_on sep (drop (length UNC_PREFIX) text))) (\<lambda>parts.
             case parts of server # share # rest \<Rightarrow> mk_unc_path server share (join_with [sep] rest)
             | _ \<Rightarrow> Inl (DomainValidationError ''path'')))"

subsection \<open>Drive-letter paths\<close>

record local_path =
  loc_drive :: string
  loc_relative :: string

definition is_letter :: "char \<Rightarrow> bool" where
  "is_letter c \<longleftrightarrow> 65 \<le> code c \<and> code c \<le> 90 \<or> 97 \<le> code c \<and> code c \<le> 122"

text \<open>\<open>^[A-Za-z]:$\<close>: the dollar also matches before a final newline.\<close>

definition is_drive :: "string \<Rightarrow> bool" where
  "is_drive s \<longleftrightarrow> (length s = 2 \<or> (length s = 3 \<and> s ! 2 = CHR 0x0A)) \<and> is_letter (s ! 0) \<and> s ! 1 = CHR '':''"

definition mk_local_path :: "string \<Rightarrow> string \<Rightarrow> local_path result" where
  "mk_local_path drive rel =
     (let up = map ascii_upper drive
      in if \<not> is_drive up then Inl (DomainValidationError ''drive'')
         else res_bind (res_map (\<lambda>s. validate_component s ''path segment'') (path_segments rel)) (\<lambda>_.
           Inr \<lparr>loc_drive = up, loc_relative = rel\<rparr>))"

definition local_value :: "local_path \<Rightarrow> string" where
  "local_value p = (if loc_relative p = [] then loc_drive p @ [sep] else loc_drive p @ [sep] @ loc_relative p)"

definition local_to_unc :: "local_path \<Rightarrow> string \<Rightarrow> unc_path result" where
  "local_to_unc p server = mk_unc_path server (take 1 (loc_drive p) @ ''$'') (loc_relative p)"

definition parse_local_path :: "string \<Rightarrow> local_path result" where
  "parse_local_path raw =
     (if py_strip raw = [] then Inl (DomainValidationError [])
      else let (stripped, was_unc) = strip_extended_prefix (normalize_separators (py_strip raw))
        in if was_unc then Inl (DomainValidationError ''path'')
           else let text = normalize_separators stripped;
                    drive = takeWhile (\<lambda>c. c \<noteq> sep) text;
                    remainder = drop (Suc (length drive)) text
             in if \<not> is_drive drive \<or> sep \<notin> set text then Inl (DomainValidationError ''path'')
                else res_bind (clean_segments (split_on sep remainder)) (\<lambda>segments.
                  mk_local_path drive (join_with [sep] segments)))"

datatype windows_path = WinUnc unc_path | WinLocal local_path

definition parse_windows_path :: "string \<Rightarrow> windows_path result" where
  "parse_windows_path raw =
     (if py_strip raw = [] then Inl (DomainValidationError [])
      else let (stripped, was_unc) = strip_extended_prefix (normalize_separators (py_strip raw))
        in if was_unc \<or> is_prefix_of UNC_PREFIX (normalize_separators stripped)
             then res_bind (parse_unc_path raw) (\<lambda>p. Inr (WinUnc p))
           else res_bind (parse_local_path raw) (\<lambda>p. Inr (WinLocal p)))"

subsection \<open>Share identifiers\<close>

record share_identity =
  shi_server :: string
  shi_name :: string

definition share_identity_key :: "(string \<Rightarrow> string) \<Rightarrow> share_identity \<Rightarrow> string" where
  "share_identity_key casefold s = casefold (shi_server s) @ ''|'' @ casefold (shi_name s)"

definition parse_share_identifier :: "string \<Rightarrow> share_identity result" where
  "parse_share_identifier raw =
     (if py_strip raw = [] then Inl (DomainValidationError ''share'')
      else let text = py_strip raw
        in if CHR ''|'' \<in> set text then
             (case split_on (CHR ''|'') text of
                [a, b] \<Rightarrow>
                  if py_strip a = [] \<or> py_strip b = [] then Inl (DomainValidationError ''share'')
                  else if sep \<in> set (py_strip a @ py_strip b) \<or> CHR ''/'' \<in> set (py_strip a @ py_strip b)
                    then Inl (DomainValidationError ''share'')
                  else Inr \<lparr>shi_server = py_strip a, shi_name = py_strip b\<rparr>
              | _ \<Rightarrow> Inl (DomainValidationError ''share''))
           else res_bind (parse_unc_path text) (\<lambda>p.
             if unc_is_share_root p then Inr \<lparr>shi_server = unc_server p, shi_name = unc_share p\<rparr>
             else Inl (DomainValidationError ''share'')))"

subsection \<open>Collapsing separators\<close>

text \<open>What the loop computes: every run of separators becomes one.\<close>

fun squeeze :: "string \<Rightarrow> string" where
  "squeeze (a # b # s) = (if a = sep \<and> b = sep then squeeze (b # s) else a # squeeze (b # s))"
| "squeeze s = s"

lemma squeeze_no_pair: "\<not> has_pair s \<Longrightarrow> squeeze s = s"
  by (induction s rule: squeeze.induct) auto

lemma squeeze_Cons: "squeeze (c # t) = (if c = sep \<and> t \<noteq> [] \<and> hd t = sep then squeeze t else c # squeeze t)"
  by (cases t) auto

lemma halve_pairs_hd: "(halve_pairs s = [] \<longleftrightarrow> s = []) \<and> hd (halve_pairs s) = hd s"
  by (cases s rule: halve_pairs.cases) auto

lemma squeeze_halve: "squeeze (halve_pairs s) = squeeze s"
proof (induction s rule: halve_pairs.induct)
  case (1 a b s)
  show ?case
  proof (cases "a = sep \<and> b = sep")
    case True
    then show ?thesis using "1.IH"(1) halve_pairs_hd [of s] by (simp add: squeeze_Cons)
  next
    case False
    then show ?thesis using "1.IH"(2) halve_pairs_hd [of "b # s"] by (auto simp: squeeze_Cons)
  qed
qed simp_all

lemma collapse_squeeze: "collapse_separators s = squeeze s"
proof (induction s rule: collapse_separators.induct)
  case (1 s)
  then show ?case by (subst collapse_separators.simps) (simp add: squeeze_halve squeeze_no_pair)
qed

lemma squeeze_pairless: "\<not> has_pair (squeeze s)"
proof (induction s rule: squeeze.induct)
  case (1 a b s)
  have "squeeze (b # s) \<noteq> [] \<and> hd (squeeze (b # s)) = b" by (induction s arbitrary: b) auto
  then obtain t where "squeeze (b # s) = b # t" by (cases "squeeze (b # s)") auto
  with 1 show ?case by (cases "a = sep \<and> b = sep") auto
qed simp_all

text \<open>
  The loop that replaces doubled separators until none is left ends, and what it leaves is the
  text with every run of separators replaced by one, with no doubled separator in it.
\<close>

theorem collapse_is_squeeze: "collapse_separators s = squeeze s \<and> \<not> has_pair (collapse_separators s)"
  using squeeze_pairless by (simp add: collapse_squeeze)

subsection \<open>Canonical paths\<close>

definition good_component :: "string \<Rightarrow> bool" where
  "good_component s \<longleftrightarrow> s \<noteq> [] \<and> s \<noteq> ''.'' \<and> s \<noteq> ''..'' \<and> \<not> list_ex invalid_component_char s"

definition unc_canonical :: "unc_path \<Rightarrow> bool" where
  "unc_canonical p \<longleftrightarrow> good_component (unc_server p) \<and> good_component (unc_share p)
     \<and> list_all good_component (path_segments (unc_relative p))
     \<and> unc_relative p = join_with [sep] (path_segments (unc_relative p))"

lemma validate_component_iff: "validate_component s f = Inr () \<longleftrightarrow> good_component s"
  by (auto simp: validate_component_def good_component_def)

lemma good_component_chars: "good_component s \<Longrightarrow> c \<in> set s \<Longrightarrow> c \<noteq> sep \<and> c \<noteq> CHR ''/'' \<and> c \<noteq> CHR ''?'' \<and> c \<noteq> CHR ''|''"
  by (auto simp: good_component_def list_ex_iff invalid_component_char_def)

lemma validate_all: "returns (res_map (\<lambda>s. validate_component s f) ss) \<longleftrightarrow> list_all good_component ss"
proof (induction ss)
  case (Cons s ss)
  have "validate_component s f = Inr () \<or> (\<exists>e. validate_component s f = Inl e)" by (cases "validate_component s f") auto
  with Cons show ?case by (auto simp: result_simps returns_def validate_component_iff)
qed simp

lemma mk_unc_path_iff:
  "mk_unc_path server share rel = Inr p \<longleftrightarrow> p = \<lparr>unc_server = server, unc_share = share, unc_relative = rel\<rparr>
     \<and> good_component server \<and> good_component share \<and> list_all good_component (path_segments rel)"
  using validate_all [of "''path segment''" "path_segments rel"]
  by (auto simp: mk_unc_path_def result_simps validate_component_iff returns_def good_component_def)

lemma clean_segments_iff:
  "clean_segments ss = Inr ts \<longleftrightarrow> ts = filter (\<lambda>s. s \<noteq> [] \<and> s \<noteq> ''.'') ss \<and> ''..'' \<notin> set ss"
  by (induction ss arbitrary: ts) (auto simp: result_simps)

lemma clean_segments_good: "\<forall>s \<in> set ss. good_component s \<Longrightarrow> clean_segments ss = Inr ss"
  by (induction ss) (auto simp: good_component_def result_simps)

lemma split_parts_no_sep: "s \<in> set (split_on c t) \<Longrightarrow> c \<notin> set s"
  by (induction t arbitrary: s) (auto split: if_splits list.splits)

lemma path_segments_join:
  assumes "\<forall>s \<in> set ss. s \<noteq> [] \<and> sep \<notin> set s"
  shows "path_segments (join_with [sep] ss) = ss"
proof (cases "ss = []")
  case True
  then show ?thesis by (simp add: path_segments_def)
next
  case False
  then have "split_on sep (join_with [sep] ss) = ss" using assms by (intro split_on_join) auto
  then show ?thesis using assms by (simp add: path_segments_def filter_id_conv)
qed

lemma parse_unc_canonical: "parse_unc_path raw = Inr p \<Longrightarrow> unc_canonical p"
proof -
  assume "parse_unc_path raw = Inr p"
  then obtain whole parts where parts: "clean_segments (split_on sep whole) = Inr parts"
      "(case parts of server # share # rest \<Rightarrow> mk_unc_path server share (join_with [sep] rest)
        | _ \<Rightarrow> Inl (DomainValidationError ''path'')) = Inr p"
    by (auto simp: parse_unc_path_def Let_def result_simps split: if_splits)
  then obtain server share rest where p: "clean_segments (split_on sep whole) = Inr parts"
      "parts = server # share # rest" "mk_unc_path server share (join_with [sep] rest) = Inr p"
    by (auto split: list.splits)
  have "\<forall>s \<in> set rest. s \<noteq> [] \<and> sep \<notin> set s"
  proof
    fix s assume "s \<in> set rest"
    moreover have "set parts \<subseteq> {s \<in> set (split_on sep whole). s \<noteq> []}" using p(1) by (auto simp: clean_segments_iff)
    ultimately have "s \<in> set (split_on sep whole)" "s \<noteq> []" using p(2) by auto
    then show "s \<noteq> [] \<and> sep \<notin> set s" using split_parts_no_sep by blast
  qed
  then have "path_segments (join_with [sep] rest) = rest" by (rule path_segments_join)
  then show ?thesis using p(3) by (auto simp: mk_unc_path_iff unc_canonical_def)
qed

lemma no_pair_append: "sep \<notin> set u \<Longrightarrow> \<not> has_pair v \<Longrightarrow> v \<noteq> [] \<Longrightarrow> hd v \<noteq> sep \<Longrightarrow> \<not> has_pair (u @ sep # v)"
proof (induction u)
  case Nil
  then show ?case by (cases v) auto
next
  case (Cons c u)
  then show ?case by (cases u) auto
qed

lemma join_no_pair:
  assumes "ss \<noteq> []" "\<forall>s \<in> set ss. s \<noteq> [] \<and> sep \<notin> set s"
  shows "\<not> has_pair (join_with [sep] ss) \<and> hd (join_with [sep] ss) \<noteq> sep"
  using assms
proof (induction ss rule: induct_list012)
  case (2 s)
  have "\<not> has_pair s" if "sep \<notin> set s" for s using that by (induction s rule: has_pair.induct) auto
  with 2 show ?case by (cases s) auto
next
  case (3 s t ts)
  let ?r = "join_with [sep] (t # ts)"
  have r: "\<not> has_pair ?r" "hd ?r \<noteq> sep" "?r \<noteq> []" using 3 by (auto) (cases ts; cases t; auto)+
  have "s \<noteq> []" "sep \<notin> set s" using 3 by auto
  with no_pair_append [of s ?r] r show ?case by (cases s) auto
qed simp

lemma unc_value_join: "unc_canonical p \<Longrightarrow> unc_value p = UNC_PREFIX @ join_with [sep] (unc_server p # unc_share p # path_segments (unc_relative p))"
proof -
  assume c: "unc_canonical p"
  let ?ss = "path_segments (unc_relative p)"
  have "unc_relative p = [] \<longleftrightarrow> ?ss = []"
  proof
    assume "?ss = []"
    then show "unc_relative p = []" using c by (simp add: unc_canonical_def)
  qed (simp add: path_segments_def)
  moreover have "unc_relative p = join_with [sep] ?ss" using c by (simp add: unc_canonical_def)
  ultimately show ?thesis by (cases ?ss) (auto simp: unc_value_def Let_def)
qed

lemma ascii_upper_other:
  assumes "ascii_upper c = d" "\<not> (65 \<le> code d \<and> code d \<le> 90)"
  shows "c = d"
proof -
  have "code (ascii_upper c) = (if 97 \<le> code c \<and> code c \<le> 122 then code c - 32 else code c)"
    by (auto simp: ascii_upper_def)
  with assms have "code c = code d" by (auto split: if_splits)
  then show ?thesis by (simp only: of_char_eq_iff)
qed

lemma parse_unc_value:
  assumes c: "unc_canonical p" and last: "\<not> is_py_space (last (unc_value p))"
  shows "parse_unc_path (unc_value p) = Inr p"
proof -
  let ?ss = "unc_server p # unc_share p # path_segments (unc_relative p)"
  let ?body = "join_with [sep] ?ss"
  have good: "\<forall>s \<in> set ?ss. good_component s" using c by (auto simp: unc_canonical_def list_all_iff)
  then have nosep: "\<forall>s \<in> set ?ss. s \<noteq> [] \<and> sep \<notin> set s" using good_component_chars by (fastforce simp: good_component_def)
  have val: "unc_value p = sep # sep # ?body" unfolding unc_value_join [OF c] by (simp add: UNC_PREFIX_def)
  have strip: "py_strip (unc_value p) = unc_value p"
    by (rule py_strip_id) (use last val in \<open>simp_all add: is_py_space_def\<close>)
  have joined: "set (join_with [sep] ts) \<subseteq> insert sep (\<Union> (set ` set ts))" for ts
    by (induction ts rule: induct_list012) auto
  have noslash: "CHR ''/'' \<notin> set ?body"
    using joined [of ?ss] good good_component_chars by fastforce
  have slash: "slashes_to_sep (sep # sep # ?body) = sep # sep # ?body"
    using noslash by (auto simp: slashes_to_sep_def intro!: map_idI)
  have pair: "\<not> has_pair ?body" using join_no_pair [of ?ss] nosep by simp
  have norm: "normalize_separators (sep # sep # ?body) = sep # sep # ?body"
    unfolding normalize_separators_def slash Let_def
    by (simp add: is_prefix_of_def UNC_PREFIX_def collapse_squeeze squeeze_no_pair [OF pair] del: join_with.simps)
  obtain a u where srv: "unc_server p = a # u" using nosep by (cases "unc_server p") auto
  have body: "?body = a # u @ sep # join_with [sep] (unc_share p # path_segments (unc_relative p))" by (simp add: srv)
  have ne: "ascii_upper a \<noteq> CHR ''?''" "sep \<notin> set (a # u)" "unc_server p \<noteq> ''.''"
  proof -
    have good_s: "good_component (a # u)" using c srv by (simp add: unc_canonical_def)
    show "sep \<notin> set (a # u)" using good_component_chars [OF good_s] by auto
    show "unc_server p \<noteq> ''.''" using good_s srv by (auto simp: good_component_def)
    have "ascii_upper a = CHR ''?'' \<Longrightarrow> a = CHR ''?''" by (rule ascii_upper_other) simp_all
    then show "ascii_upper a \<noteq> CHR ''?''" using good_component_chars [OF good_s, of a] by auto
  qed
  have rest: "u @ sep # t \<noteq> [] \<and> (hd (map ascii_upper (u @ sep # t)) = sep \<longrightarrow> u = [])" for t
  proof (cases u)
    case (Cons b u')
    then have "b \<noteq> sep" using ne(2) by auto
    then have "ascii_upper b \<noteq> sep" using ascii_upper_other [of b sep] by auto
    then show ?thesis using Cons by simp
  qed simp
  have "\<not> is_prefix_of q (map ascii_upper (sep # sep # ?body))" if q: "q \<in> set EXTENDED_PREFIXES" for q
  proof
    assume pre: "is_prefix_of q (map ascii_upper (sep # sep # ?body))"
    obtain c t where ct: "q = sep # sep # c # sep # t" "c = CHR ''?'' \<or> c = CHR ''.''"
      using q by (auto simp: EXTENDED_PREFIXES_def)
    let ?t = "join_with [sep] (unc_share p # path_segments (unc_relative p))"
    have "ascii_upper a = c" "hd (map ascii_upper (u @ sep # ?t)) = sep"
      using pre rest [of ?t] unfolding is_prefix_of_def ct(1) body by (cases "u @ sep # ?t"; auto)+
    then have "u = []" "ascii_upper a = CHR ''.''" using rest [of ?t] ct(2) ne(1) by auto
    then have "unc_server p = ''.''" using ascii_upper_other [of a "CHR ''.''"] srv by simp
    with ne(3) show False by simp
  qed
  then have nostrip: "strip_extended_prefix (sep # sep # ?body) = (sep # sep # ?body, False)"
    unfolding strip_extended_prefix_def EXTENDED_PREFIXES_def by (simp del: join_with.simps list.map)
  have split: "split_on sep ?body = ?ss"
    by (rule split_on_join) (use nosep in auto)
  have clean: "clean_segments ?ss = Inr ?ss" by (rule clean_segments_good [OF good])
  have mk: "mk_unc_path (unc_server p) (unc_share p) (join_with [sep] (path_segments (unc_relative p))) = Inr p"
    using c by (cases p) (simp add: mk_unc_path_iff unc_canonical_def)
  have pre: "is_prefix_of UNC_PREFIX (sep # sep # ?body)" "drop (length UNC_PREFIX) (sep # sep # ?body) = ?body"
    by (simp_all add: is_prefix_of_def UNC_PREFIX_def del: join_with.simps)
  have "parse_unc_path (unc_value p) = res_bind (clean_segments (split_on sep ?body)) (\<lambda>parts.
      case parts of server # share # rest \<Rightarrow> mk_unc_path server share (join_with [sep] rest)
      | _ \<Rightarrow> Inl (DomainValidationError ''path''))"
    unfolding parse_unc_path_def strip unfolding val Let_def norm nostrip fst_conv norm using pre by (simp del: join_with.simps)
  then show ?thesis unfolding split clean by (simp add: mk)
qed

text \<open>
  C39. Parsing a UNC path is a projection. Whatever was accepted is canonical (no empty, \<open>.\<close> or
  \<open>..\<close> component, none with a character Windows forbids, segments joined by single separators), and
  its displayed value parses back to exactly it, unless that value ends in white space.
\<close>

theorem parsed_unc_path_is_canonical:
  assumes "parse_unc_path raw = Inr p"
  shows "unc_canonical p \<and> (\<not> is_py_space (last (unc_value p)) \<longrightarrow> parse_unc_path (unc_value p) = Inr p)"
  using parse_unc_canonical [OF assms] parse_unc_value by blast

lemma parsed_unc_path_is_canonical_witness:
  "unc_canonical \<lparr>unc_server = ''FS01'', unc_share = ''Finance'', unc_relative = ''Reports''\<rparr>"
proof -
  have "parse_unc_path (''  '' @ [sep, sep, CHR ''?'', sep] @ ''unc'' @ [sep] @ ''FS01/Finance//./Reports/'')
      = Inr \<lparr>unc_server = ''FS01'', unc_share = ''Finance'', unc_relative = ''Reports''\<rparr>" by code_simp
  from parsed_unc_path_is_canonical [OF this] show ?thesis by blast
qed

text \<open>
  The exception is real: a directory whose last component ends in a space is accepted behind a
  closing separator, and the value ADG then displays for it names another directory when it is parsed.
\<close>

theorem trailing_space_changes_identity:
  "\<exists>raw p q. parse_unc_path raw = Inr p \<and> parse_unc_path (unc_value p) = Inr q \<and> q \<noteq> p \<and> unc_value q \<noteq> unc_value p"
proof (intro exI conjI)
  show "parse_unc_path ([sep, sep] @ ''fs01/data/a /'') = Inr \<lparr>unc_server = ''fs01'', unc_share = ''data'', unc_relative = ''a ''\<rparr>"
    by code_simp
  show "parse_unc_path (unc_value \<lparr>unc_server = ''fs01'', unc_share = ''data'', unc_relative = ''a ''\<rparr>)
      = Inr \<lparr>unc_server = ''fs01'', unc_share = ''data'', unc_relative = ''a''\<rparr>" by code_simp
  show "unc_value \<lparr>unc_server = ''fs01'', unc_share = ''data'', unc_relative = ''a''\<rparr>
      \<noteq> unc_value \<lparr>unc_server = ''fs01'', unc_share = ''data'', unc_relative = ''a ''\<rparr>" by code_simp
qed simp

text \<open>A directory's child has it as its parent.\<close>

lemma unc_parent_child:
  assumes "unc_canonical p" "unc_child p name = Inr q"
  shows "unc_parent q = Some (Inr p)"
proof -
  let ?ss = "path_segments (unc_relative p)"
  have name: "good_component name" and q: "q = \<lparr>unc_server = unc_server p, unc_share = unc_share p,
      unc_relative = (if unc_relative p = [] then name else unc_relative p @ [sep] @ name)\<rparr>"
    using assms(2) by (auto simp: unc_child_def result_simps validate_component_iff mk_unc_path_iff)
  have part: "s \<noteq> [] \<and> sep \<notin> set s" if "good_component s" for s
    using good_component_chars [OF that] that by (auto simp: good_component_def)
  have good: "\<forall>s \<in> set ?ss. s \<noteq> [] \<and> sep \<notin> set s" "name \<noteq> []" "sep \<notin> set name"
    using assms(1) part name by (auto simp: unc_canonical_def list_all_iff)
  have rel: "unc_relative p = join_with [sep] ?ss" using assms(1) by (simp add: unc_canonical_def)
  have snoc: "join_with [sep] (ss @ [x]) = (if ss = [] then x else join_with [sep] ss @ [sep] @ x)" for ss and x :: string
    by (induction ss rule: induct_list012) auto
  have "unc_relative p = [] \<longleftrightarrow> ?ss = []" using rel by (cases ?ss) (auto simp: path_segments_def)
  then have "unc_relative q = join_with [sep] (?ss @ [name])" using rel snoc [of ?ss name] q by auto
  moreover have "path_segments (join_with [sep] (?ss @ [name])) = ?ss @ [name]"
    by (rule path_segments_join) (use good in auto)
  ultimately have segs: "path_segments (unc_relative q) = ?ss @ [name]" by simp
  have "\<not> unc_is_share_root q" using segs by (auto simp: unc_is_share_root_def path_segments_def)
  moreover have "mk_unc_path (unc_server p) (unc_share p) (join_with [sep] ?ss) = Inr p"
    using assms(1) by (cases p) (simp add: mk_unc_path_iff unc_canonical_def)
  ultimately show ?thesis using q segs by (simp add: unc_parent_def)
qed

text \<open>
  A share's storage key and its UNC path name the same share: parsing either gives the same
  identity, provided its two names carry no white space around them.
\<close>

theorem share_spellings_agree:
  assumes "unc_canonical p" "unc_is_share_root p" "py_strip (unc_server p) = unc_server p" "py_strip (unc_share p) = unc_share p"
    and "\<not> is_py_space (hd (unc_server p))" "\<not> is_py_space (last (unc_share p))"
  shows "parse_share_identifier (unc_value p) = Inr \<lparr>shi_server = unc_server p, shi_name = unc_share p\<rparr>
    \<and> parse_share_identifier (unc_server p @ ''|'' @ unc_share p) = Inr \<lparr>shi_server = unc_server p, shi_name = unc_share p\<rparr>"
proof
  have good: "good_component (unc_server p)" "good_component (unc_share p)" using assms(1) by (simp_all add: unc_canonical_def)
  have ne: "unc_server p \<noteq> []" "unc_share p \<noteq> []" using good by (simp_all add: good_component_def)
  have chars: "c \<in> set (unc_server p) \<union> set (unc_share p) \<Longrightarrow> c \<noteq> CHR ''|'' \<and> c \<noteq> CHR ''/'' \<and> c \<noteq> sep" for c
    using good_component_chars good by blast
  have val: "unc_value p = sep # sep # unc_server p @ sep # unc_share p"
    using assms(2) by (simp add: unc_value_def unc_is_share_root_def UNC_PREFIX_def Let_def)
  have strip: "py_strip (unc_value p) = unc_value p"
    by (rule py_strip_id) (use assms(6) val ne in \<open>simp_all add: is_py_space_def\<close>)
  have "CHR ''|'' \<notin> set (unc_value p)" using val chars by auto
  moreover have "parse_unc_path (unc_value p) = Inr p"
    by (rule parse_unc_value [OF assms(1)]) (use assms(6) val ne in simp)
  ultimately show "parse_share_identifier (unc_value p) = Inr \<lparr>shi_server = unc_server p, shi_name = unc_share p\<rparr>"
    using strip val assms(2) by (simp add: parse_share_identifier_def)
  let ?key = "unc_server p @ ''|'' @ unc_share p"
  have kstrip: "py_strip ?key = ?key" by (rule py_strip_id) (use assms(5,6) ne in simp_all)
  have bar: "CHR ''|'' \<notin> set (unc_server p)" "CHR ''|'' \<notin> set (unc_share p)" using chars by blast+
  have split: "split_on (CHR ''|'') ?key = [unc_server p, unc_share p]"
    by (simp add: split_on_append bar split_on_no_sep)
  show "parse_share_identifier ?key = Inr \<lparr>shi_server = unc_server p, shi_name = unc_share p\<rparr>"
    using kstrip split assms(3,4) ne chars by (auto simp: parse_share_identifier_def)
qed

lemma share_spellings_agree_witness:
  "parse_share_identifier (''FS01'' @ ''|'' @ ''Finance'') = Inr \<lparr>shi_server = ''FS01'', shi_name = ''Finance''\<rparr>"
proof -
  let ?p = "\<lparr>unc_server = ''FS01'', unc_share = ''Finance'', unc_relative = []\<rparr>"
  have "unc_canonical ?p" "unc_is_share_root ?p" "py_strip (unc_server ?p) = unc_server ?p" "py_strip (unc_share ?p) = unc_share ?p"
    "\<not> is_py_space (hd (unc_server ?p))" "\<not> is_py_space (last (unc_share ?p))" by code_simp+
  from share_spellings_agree [OF this] show ?thesis by simp
qed

text \<open>
  A drive specification may hold a line break: the pattern's end anchor matches before a final
  newline, so a local path is accepted whose drive is three characters long.
\<close>

theorem drive_may_hold_a_newline:
  "\<exists>raw p. parse_local_path raw = Inr p \<and> CHR 0x0A \<in> set (loc_drive p) \<and> loc_relative p = ''x''"
proof (intro exI conjI)
  show "parse_local_path (''d:'' @ [CHR 0x0A] @ ''/x'') = Inr \<lparr>loc_drive = ''D:'' @ [CHR 0x0A], loc_relative = ''x''\<rparr>"
    by code_simp
qed simp_all


end
