(* ===== verification/Adg_Acl_Hash.thy ===== *)
theory Adg_Acl_Hash
  imports Adg_Access "HOL-Library.Multiset"
begin

section \<open>The normalized form of a DACL (app/domain/acl_hash.py)\<close>

text \<open>
  The canonical text document of a DACL and the digest taken over it. SHA-256 comes from
  Python's \<open>hashlib\<close> and is the parameter \<open>sha\<close>, a function from text to text. The lemmas
  show that the document does not depend on the order in which entries are supplied, that it
  determines the DACL it was made from, and that only the rank of a position enters it.
\<close>

subsection \<open>The facts of one entry\<close>

definition ACL_NORMAL_FORM_VERSION :: string where "ACL_NORMAL_FORM_VERSION = ''adg-acl/1''"

definition ACL_HASH_LENGTH :: nat where "ACL_HASH_LENGTH = 64"

definition MAX_ACE_FLAGS :: int where "MAX_ACE_FLAGS = 0xFF"

record acl_ace_facts =
  af_trustee_sid :: string
  af_ace_type :: ace_type
  af_access_mask :: "32 word"
  af_ace_flags :: nat
  af_order_index :: "int option"

definition mk_acl_ace_facts ::
  "string \<Rightarrow> ace_type \<Rightarrow> int \<Rightarrow> int \<Rightarrow> int option \<Rightarrow> acl_ace_facts result" where
  "mk_acl_ace_facts trustee ty am flags idx =
     (if am < 0 \<or> MAX_ACCESS_MASK < am then Inl (DomainValidationError ''access_mask'')
      else if flags < 0 \<or> MAX_ACE_FLAGS < flags then Inl (DomainValidationError ''ace_flags'')
      else if negative_index idx then Inl (DomainValidationError ''order_index'')
      else res_bind (parse_sid trustee) (\<lambda>s.
        Inr \<lparr>af_trustee_sid = sid_value s, af_ace_type = ty, af_access_mask = word_of_int am,
             af_ace_flags = nat flags, af_order_index = idx\<rparr>))"

definition facts_from_ace :: "ntfs_ace \<Rightarrow> acl_ace_facts result" where
  "facts_from_ace a = mk_acl_ace_facts (sid_value (na_trustee_sid a)) (na_ace_type a)
     (uint (na_access_mask a)) (int (na_flags a)) (na_order_index a)"

definition content_line :: "acl_ace_facts \<Rightarrow> string" where
  "content_line e = af_trustee_sid e @ ''|'' @ ace_type_value (af_ace_type e)
     @ ''|0x'' @ lower_hex_min 8 (unat (af_access_mask e)) @ ''|0x'' @ lower_hex_min 2 (af_ace_flags e)"

text \<open>The arguments \<open>AclAceFacts | NtfsAce\<close>: a domain ACE is reduced to its facts first.\<close>

definition as_facts :: "acl_ace_facts + ntfs_ace \<Rightarrow> acl_ace_facts result" where
  "as_facts item = (case item of Inl e \<Rightarrow> Inr e | Inr a \<Rightarrow> facts_from_ace a)"

subsection \<open>The document\<close>

text \<open>\<open>f"{n:0wd}"\<close>\<close>

definition dec_min :: "nat \<Rightarrow> nat \<Rightarrow> string" where
  "dec_min w n = replicate (w - length (dec_string n)) (CHR ''0'') @ dec_string n"

definition position_of :: "acl_ace_facts \<Rightarrow> nat" where
  "position_of e = (case af_order_index e of None \<Rightarrow> 0 | Some i \<Rightarrow> nat i)"

definition position_key :: "acl_ace_facts \<Rightarrow> string" where
  "position_key e = dec_min 10 (position_of e) @ ''|'' @ content_line e"

definition ace_lines :: "acl_ace_facts list \<Rightarrow> bool \<Rightarrow> string list result" where
  "ace_lines entries ordered =
     (if \<not> ordered then Inr (map (\<lambda>l. ''ace=-|'' @ l) (sort (map content_line entries)))
      else if \<not> distinct (map af_order_index (filter (\<lambda>e. af_order_index e \<noteq> None) entries))
        then Inl (DomainValidationError ''order_index'')
      else Inr (map (\<lambda>(rank, e). ''ace='' @ dec_string rank @ ''|'' @ content_line e)
             (enumerate 0 (sort_key position_key entries))))"

definition text_flag :: "bool \<Rightarrow> string" where
  "text_flag b = (if b then ''true'' else ''false'')"

definition newline :: char where "newline = CHR 0x0A"

record normalized_acl =
  no_text :: string
  no_digest :: string
  no_ordered :: bool
  no_ace_count :: nat

definition is_ordered :: "acl_ace_facts list \<Rightarrow> bool" where
  "is_ordered entries \<longleftrightarrow> list_all (\<lambda>e. af_order_index e \<noteq> None) entries"

definition document :: "string list \<Rightarrow> string" where
  "document ls = concat (map (\<lambda>l. l @ [newline]) ls)"

definition header_lines :: "bool \<Rightarrow> bool \<Rightarrow> bool \<Rightarrow> string list" where
  "header_lines present prot ordered =
     [ACL_NORMAL_FORM_VERSION, ''dacl_present='' @ text_flag present,
      ''dacl_protected='' @ text_flag prot,
      ''order='' @ (if ordered then ''observed'' else ''unordered'')]"

definition normalize_acl ::
  "(string \<Rightarrow> string) \<Rightarrow> bool \<Rightarrow> bool \<Rightarrow> (acl_ace_facts + ntfs_ace) list \<Rightarrow> normalized_acl result" where
  "normalize_acl sha present prot aces =
     res_bind (res_map as_facts aces) (\<lambda>entries.
       if \<not> present \<and> entries \<noteq> [] then Inl (DomainValidationError ''dacl_present'')
       else res_bind (ace_lines entries (is_ordered entries)) (\<lambda>ls.
         let text = document (header_lines present prot (is_ordered entries) @ ls)
         in Inr \<lparr>no_text = text, no_digest = sha text, no_ordered = is_ordered entries,
                 no_ace_count = length entries\<rparr>))"

definition acl_hash ::
  "(string \<Rightarrow> string) \<Rightarrow> bool \<Rightarrow> bool \<Rightarrow> (acl_ace_facts + ntfs_ace) list \<Rightarrow> string result" where
  "acl_hash sha present prot aces =
     res_bind (normalize_acl sha present prot aces) (\<lambda>n. Inr (no_digest n))"

definition is_acl_hash :: "string \<Rightarrow> bool" where
  "is_acl_hash v \<longleftrightarrow> length v = ACL_HASH_LENGTH \<and> list_all (\<lambda>c. c \<in> set ''0123456789abcdef'') v"

subsection \<open>Text fields\<close>

lemma code_lower_hex_char: "d < 16 \<Longrightarrow> code (lower_hex_char d) = (if d < 10 then 48 + d else 87 + d)"
  by (simp add: lower_hex_char_def)

lemma hex_val_lower: "d < 16 \<Longrightarrow> hex_val (lower_hex_char d) = d"
  by (simp add: hex_val_def is_digit_def code_lower_hex_char)

lemma hex_value_lower_hex [simp]: "hex_value (lower_hex n) = n"
proof (induction n rule: lower_hex.induct)
  case (1 n)
  show ?case
  proof (cases "n < 16")
    case True
    then show ?thesis
      by (subst lower_hex.simps) (simp add: hex_value_def hex_val_lower)
  next
    case False
    then show ?thesis
      using 1 by (subst lower_hex.simps) (simp add: hex_value_snoc hex_val_lower)
  qed
qed

lemma value_zeros: "hex_value (replicate k (CHR ''0'') @ s) = hex_value s"
  "dec_value (replicate k (CHR ''0'') @ s) = dec_value s"
  by (induction k) (simp_all add: hex_value_def dec_value_def hex_val_def is_digit_def digit_val_def)

lemma lower_hex_min_inject: "lower_hex_min w n = lower_hex_min w m \<longleftrightarrow> n = m"
  by (metis hex_value_lower_hex lower_hex_min_def value_zeros(1))

lemma dec_min_inject: "dec_min w n = dec_min w m \<longleftrightarrow> n = m"
  by (metis dec_min_def dec_value_dec_string value_zeros(2))

text \<open>The characters a rendered field may hold.\<close>

definition plain :: "string \<Rightarrow> bool" where
  "plain s \<longleftrightarrow> CHR ''|'' \<notin> set s \<and> newline \<notin> set s"

lemma plain_append [simp]: "plain (s @ t) \<longleftrightarrow> plain s \<and> plain t"
  by (auto simp: plain_def)

lemma plain_Cons [simp]: "plain (c # s) \<longleftrightarrow> c \<noteq> CHR ''|'' \<and> c \<noteq> newline \<and> plain s"
  by (auto simp: plain_def)

lemma plain_Nil [simp]: "plain []" by (simp add: plain_def)

lemma plain_hex: "\<forall>c \<in> set s. is_hex_digit c \<Longrightarrow> plain s"
  by (auto simp: plain_def newline_def is_hex_digit_def is_digit_def)

lemma plain_digits: "\<forall>c \<in> set s. is_digit c \<Longrightarrow> plain s"
  by (auto simp: plain_def newline_def is_digit_def)

lemma lower_hex_digits: "\<forall>c \<in> set (lower_hex n). is_hex_digit c"
proof (induction n rule: lower_hex.induct)
  case (1 n)
  have "n mod 16 < 16" by simp
  then have "is_hex_digit (lower_hex_char (n mod 16))"
    by (auto simp: is_hex_digit_def is_digit_def code_lower_hex_char simp del: mod_less_divisor)
  with 1 show ?case by (subst lower_hex.simps) auto
qed

lemma plain_zeros: "plain (replicate k (CHR ''0''))"
  by (auto simp: plain_def newline_def)

lemma plain_fields [simp]: "plain (lower_hex_min w n)" "plain (dec_string n)" "plain (dec_min w n)"
  "plain (ace_type_value ty)"
  using plain_hex [OF lower_hex_digits] plain_digits [OF dec_string_digits] plain_zeros
  by (simp_all add: lower_hex_min_def dec_min_def) (cases ty; simp add: newline_def)

lemma plainD: "plain s \<Longrightarrow> CHR ''|'' \<notin> set s" "plain s \<Longrightarrow> newline \<notin> set s"
  by (simp_all add: plain_def)

text \<open>A separator that a field does not hold splits it off.\<close>

lemma sep_split:
  assumes "c \<notin> set a" "c \<notin> set a'" "a @ c # b = a' @ c # b'"
  shows "a = a' \<and> b = b'"
  using assms
proof (induction a arbitrary: a')
  case Nil
  then show ?case by (cases a') auto
next
  case (Cons x a)
  then show ?case by (cases a') auto
qed

lemma document_inject:
  assumes "\<forall>l \<in> set xs \<union> set ys. newline \<notin> set l" "document xs = document ys"
  shows "xs = ys"
proof -
  have "split_on newline (document zs) = zs @ [[]]" if "\<forall>l \<in> set zs. newline \<notin> set l" for zs
    using that by (induction zs) (simp_all add: document_def split_on_append)
  then show ?thesis using assms by (metis UnCI append_same_eq)
qed

text \<open>What the constructor establishes of an entry.\<close>

definition facts_ok :: "acl_ace_facts \<Rightarrow> bool" where
  "facts_ok e \<longleftrightarrow> (\<exists>a subs. af_trustee_sid e = render_sid SID_REVISION a subs \<and> a \<le> MAX_AUTHORITY
       \<and> length subs \<le> MAX_SUB_AUTHORITIES \<and> (\<forall>x \<in> set subs. x \<le> MAX_UINT32))
     \<and> int (af_ace_flags e) \<le> MAX_ACE_FLAGS \<and> \<not> negative_index (af_order_index e)"

lemma mk_acl_ace_facts_ok:
  assumes "mk_acl_ace_facts trustee ty am flags idx = Inr e"
  shows "facts_ok e"
proof -
  from assms obtain s where s: "parse_sid trustee = Inr s" and e: "e = \<lparr>af_trustee_sid = sid_value s,
    af_ace_type = ty, af_access_mask = word_of_int am, af_ace_flags = nat flags, af_order_index = idx\<rparr>"
    and b: "0 \<le> flags" "flags \<le> MAX_ACE_FLAGS" "\<not> negative_index idx"
    by (auto simp: mk_acl_ace_facts_def result_simps split: if_splits)
  show ?thesis
    by (rule parse_sid_form [OF s]) (use e b in \<open>auto simp: facts_ok_def\<close>)
qed

lemma facts_rebuild:
  assumes "facts_ok e" "\<not> negative_index idx" "flags \<le> 255"
  shows "mk_acl_ace_facts (af_trustee_sid e) (af_ace_type e) (uint m) (int flags) idx
    = Inr (e\<lparr>af_access_mask := m, af_ace_flags := flags, af_order_index := idx\<rparr>)"
proof -
  have "parse_sid (af_trustee_sid e) = Inr (Sid (af_trustee_sid e))"
    using assms(1) parse_render_sid by (auto simp: facts_ok_def)
  moreover have "uint m \<le> MAX_ACCESS_MASK"
    using uint_lt2p [of m] by (simp add: MAX_ACCESS_MASK_def)
  ultimately show ?thesis
    using assms(2,3) by (simp add: mk_acl_ace_facts_def MAX_ACE_FLAGS_def)
qed

lemma plain_render_authority: "plain (render_authority a)"
  using plain_hex [OF hex_pad_digits] by (simp add: render_authority_def newline_def)

lemma set_join_with: "set (join_with sep xs) \<subseteq> set sep \<union> \<Union>(set ` set xs)"
  by (induction sep xs rule: join_with.induct) auto

lemma plain_join_with: "plain sep \<Longrightarrow> \<forall>x \<in> set xs. plain x \<Longrightarrow> plain (join_with sep xs)"
  using set_join_with [of sep xs] by (fastforce simp: plain_def)

lemma plain_trustee: "facts_ok e \<Longrightarrow> plain (af_trustee_sid e)"
  by (auto simp: facts_ok_def render_sid_def plain_render_authority newline_def
      intro!: plain_join_with)

definition ace_content :: "acl_ace_facts \<Rightarrow> string \<times> ace_type \<times> 32 word \<times> nat" where
  "ace_content e = (af_trustee_sid e, af_ace_type e, af_access_mask e, af_ace_flags e)"

lemma content_line_inject:
  assumes "facts_ok d" "facts_ok e"
  shows "content_line d = content_line e \<longleftrightarrow> ace_content d = ace_content e"
proof
  let ?f = "\<lambda>e. [af_trustee_sid e, ace_type_value (af_ace_type e),
     ''0x'' @ lower_hex_min 8 (unat (af_access_mask e)), ''0x'' @ lower_hex_min 2 (af_ace_flags e)]"
  have split: "split_on (CHR ''|'') (content_line x) = ?f x" if "facts_ok x" for x
  proof -
    have "content_line x = join_with [CHR ''|''] (?f x)" by (simp add: content_line_def)
    moreover have "\<forall>s \<in> set (?f x). plain s"
      using plain_trustee [OF that] by (simp add: newline_def)
    ultimately show ?thesis
      using split_on_join [of "?f x" "CHR ''|''"] by (simp add: plain_def)
  qed
  assume "content_line d = content_line e"
  then have "?f d = ?f e" using split [OF assms(1)] split [OF assms(2)] by simp
  moreover have "ace_type_value t = ace_type_value u \<longleftrightarrow> t = u" for t u
    by (cases t; cases u) simp_all
  ultimately show "ace_content d = ace_content e"
    by (auto simp: ace_content_def lower_hex_min_inject word_unat_eq_iff)
qed (simp add: content_line_def ace_content_def)

lemma content_line_no_newline: "facts_ok e \<Longrightarrow> newline \<notin> set (content_line e)"
  using plainD(2) [OF plain_trustee] plainD(2) [OF plain_fields(1)] plainD(2) [OF plain_fields(4)]
  by (simp add: content_line_def newline_def)

subsection \<open>Positions as text\<close>

lemma dec_value_Cons: "dec_value (c # s) = digit_val c * 10 ^ length s + dec_value s"
proof (induction s rule: rev_induct)
  case Nil
  then show ?case by (simp add: dec_value_def)
next
  case (snoc d s)
  have "dec_value ((c # s) @ [d]) = 10 * dec_value (c # s) + digit_val d" by (rule dec_value_snoc)
  with snoc show ?case by (simp add: dec_value_snoc)
qed

lemma dec_value_bound: "\<forall>c \<in> set s. is_digit c \<Longrightarrow> dec_value s < 10 ^ length s"
proof (induction s)
  case (Cons c s)
  then have "digit_val c \<le> 9" "dec_value s < 10 ^ length s" by (auto simp: digit_val_def is_digit_def)
  moreover from this(1) have "digit_val c * 10 ^ length s \<le> 9 * 10 ^ length s" by (rule mult_right_mono) simp
  moreover have "(10::nat) ^ length (c # s) = 9 * 10 ^ length s + 10 ^ length s" by simp
  ultimately show ?case unfolding dec_value_Cons by linarith
qed (simp add: dec_value_def)

lemma digit_order: "is_digit c \<Longrightarrow> is_digit d \<Longrightarrow> c < d \<longleftrightarrow> digit_val c < digit_val d"
  by (auto simp: less_char_def is_digit_def digit_val_def)

text \<open>Digit strings of one length compare as the numbers they denote.\<close>

lemma digits_less:
  assumes "length s = length t" "\<forall>c \<in> set (s @ t). is_digit c"
  shows "s < t \<longleftrightarrow> dec_value s < dec_value t"
  using assms
proof (induction s t rule: list_induct2)
  case (Cons c s d t)
  let ?p = "10 ^ length t :: nat"
  have IH: "s < t \<longleftrightarrow> dec_value s < dec_value t" and b: "dec_value s < ?p" "dec_value t < ?p"
    using Cons dec_value_bound [of s] dec_value_bound [of t] by auto
  have eq: "c = d \<longleftrightarrow> digit_val c = digit_val d"
    using Cons.prems by (auto simp: is_digit_def digit_val_def dest!: eq_diff_iff [THEN iffD1, rotated 2])
  have "digit_val c < digit_val d \<Longrightarrow> digit_val c * ?p + ?p \<le> digit_val d * ?p" for c d
    by (metis Suc_leI mult_Suc mult_le_mono1 add.commute)
  from this [of c d] this [of d c] show ?case
    using Cons.hyps b IH eq digit_order [of c d] Cons.prems
    by (auto simp: Cons_less_Cons dec_value_Cons)
qed (simp add: dec_value_def)

lemma dec_min_digits: "\<forall>c \<in> set (dec_min w n). is_digit c"
  using dec_string_digits [of n] by (auto simp: dec_min_def is_digit_def)

lemma length_dec_min: "n < 10 ^ w \<Longrightarrow> 0 < w \<Longrightarrow> length (dec_min w n) = w"
  using length_dec_string [of n w] by (simp add: dec_min_def)

lemma dec_min_less:
  assumes "n < 10 ^ w" "m < 10 ^ w" "0 < w"
  shows "dec_min w n @ a < dec_min w m @ b \<longleftrightarrow> n < m \<or> n = m \<and> a < b"
proof -
  have less: "s @ a < t @ b \<longleftrightarrow> s < t \<or> s = t \<and> a < b" if "length s = length t" for s t :: string
    using that by (induction s t rule: list_induct2) (auto simp: Cons_less_Cons)
  have "dec_value (dec_min w k) = k" for k by (simp add: dec_min_def value_zeros)
  moreover have "length (dec_min w n) = length (dec_min w m)"
    using assms by (simp add: length_dec_min)
  ultimately show ?thesis
    using digits_less [of "dec_min w n" "dec_min w m"] dec_min_digits
    by (simp add: less dec_min_inject ball_Un)
qed

text \<open>The text of the entries in the order the document lists them.\<close>

definition after_bar :: "string \<Rightarrow> string" where
  "after_bar k = tl (dropWhile (\<lambda>c. c \<noteq> CHR ''|'') k)"

lemma map_after_bar: "map after_bar (map position_key es) = map content_line es"
proof -
  have "after_bar (s @ CHR ''|'' # t) = t" if "CHR ''|'' \<notin> set s" for s t
    using that by (induction s) (auto simp: after_bar_def)
  then have "after_bar (position_key e) = content_line e" for e
    using plainD(1) [OF plain_fields(3), of 10 "position_of e"] by (simp add: position_key_def)
  then show ?thesis by simp
qed

definition keyed_contents :: "acl_ace_facts list \<Rightarrow> string list" where
  "keyed_contents es = map content_line (sort_key position_key es)"

lemma keyed_contents_sort:
  "keyed_contents es = map after_bar (sort (map position_key es))"
proof -
  have "map position_key (sort_key position_key es) = sort (map position_key es)"
    by (rule properties_for_sort [symmetric]) simp_all
  then show ?thesis
    by (metis keyed_contents_def map_after_bar)
qed

lemma ace_lines_contents:
  "ace_lines es True = (if \<not> distinct (map af_order_index (filter (\<lambda>e. af_order_index e \<noteq> None) es))
     then Inl (DomainValidationError ''order_index'')
     else Inr (map (\<lambda>(rank, c). ''ace='' @ dec_string rank @ ''|'' @ c) (enumerate 0 (keyed_contents es))))"
proof -
  have "map (\<lambda>(rank, e). ''ace='' @ dec_string rank @ ''|'' @ content_line e) (enumerate n xs)
    = map (\<lambda>(rank, c). ''ace='' @ dec_string rank @ ''|'' @ c) (enumerate n (map content_line xs))" for n xs
    by (induction xs arbitrary: n) simp_all
  then show ?thesis by (simp add: ace_lines_def keyed_contents_def)
qed

lemma sort_perm: "mset xs = mset ys \<Longrightarrow> sort xs = sort ys"
  by (rule properties_for_sort) simp_all

lemma ace_lines_perm:
  assumes "mset es = mset fs"
  shows "ace_lines es ordered = ace_lines fs ordered"
proof (cases ordered)
  case True
  have "distinct (map af_order_index (filter P es)) = distinct (map af_order_index (filter P fs))" for P
    using assms by (intro mset_eq_imp_distinct_iff) simp
  moreover have "sort (map position_key es) = sort (map position_key fs)"
    using assms by (intro sort_perm) simp
  then have "keyed_contents es = keyed_contents fs" by (simp add: keyed_contents_sort)
  ultimately show ?thesis using True by (simp add: ace_lines_contents)
next
  case False
  have "sort (map content_line es) = sort (map content_line fs)"
    using assms by (intro sort_perm) simp
  with False show ?thesis by (simp add: ace_lines_def)
qed

lemma sorted_keys:
  assumes "sorted (map position_of xs)" "distinct (map position_of xs)" "\<forall>e \<in> set xs. position_of e < 10 ^ 10"
  shows "sorted (map position_key xs)"
  using assms
proof (induction xs)
  case (Cons x xs)
  have "position_key x \<le> position_key y" if y: "y \<in> set xs" for y
  proof -
    have "position_of x < position_of y"
      using Cons.prems(1,2) y by (auto simp: order_le_less)
    then show ?thesis
      using dec_min_less [of "position_of x" 10 "position_of y"] Cons.prems(3) y
      by (auto simp: position_key_def intro!: less_imp_le)
  qed
  with Cons show ?case by simp
qed simp

text \<open>In the range a position's ten digits hold, text order is position order.\<close>

lemma keyed_contents_positions:
  assumes "\<forall>e \<in> set es. position_of e < 10 ^ 10" "distinct (map position_of es)"
  shows "keyed_contents es = map content_line (sort_key position_of es)"
proof -
  let ?s = "sort_key position_of es"
  have "sorted (map position_of ?s)" "distinct (map position_of ?s)"
    using assms(2) by (simp_all add: mset_eq_imp_distinct_iff [of "map position_of ?s" "map position_of es"])
  then have "sorted (map position_key ?s)"
    using assms(1) sorted_keys [of ?s] by simp
  then have "map position_key ?s = sort (map position_key es)"
    by (intro properties_for_sort [symmetric]) simp_all
  moreover have "map position_key (sort_key position_key es) = sort (map position_key es)"
    by (rule properties_for_sort [symmetric]) simp_all
  ultimately have "map position_key (sort_key position_key es) = map position_key ?s" by simp
  then show ?thesis unfolding keyed_contents_def by (metis map_after_bar)
qed

subsection \<open>What the document says\<close>

text \<open>
  A DACL as the normal form means it: the entries in evaluation order when every one came with a
  position, a multiset of entries otherwise.
\<close>

definition acl_meaning ::
  "acl_ace_facts list \<Rightarrow> (string \<times> ace_type \<times> 32 word \<times> nat) list
    + (string \<times> ace_type \<times> 32 word \<times> nat) multiset" where
  "acl_meaning es = (if is_ordered es then Inl (map ace_content (sort_key position_of es))
     else Inr (mset (map ace_content es)))"

lemma content_line_fun: "content_line e = (\<lambda>(t, ty, m, f). t @ ''|'' @ ace_type_value ty
     @ ''|0x'' @ lower_hex_min 8 (unat m) @ ''|0x'' @ lower_hex_min 2 f) (ace_content e)"
  by (simp add: content_line_def ace_content_def)

lemma ace_content_fun:
  "\<exists>g. \<forall>e. facts_ok e \<longrightarrow> ace_content e = g (content_line e)"
proof (intro exI allI impI)
  fix e assume e: "facts_ok e"
  then have "facts_ok (SOME x. facts_ok x \<and> content_line x = content_line e)
    \<and> content_line (SOME x. facts_ok x \<and> content_line x = content_line e) = content_line e"
    by (intro someI [of "\<lambda>x. facts_ok x \<and> content_line x = content_line e" e]) simp
  then show "ace_content e = (\<lambda>l. ace_content (SOME x. facts_ok x \<and> content_line x = l)) (content_line e)"
    using content_line_inject [OF e] by metis
qed

lemma contents_iff:
  assumes "\<forall>e \<in> set (xs @ ys). facts_ok e"
  shows "map content_line xs = map content_line ys \<longleftrightarrow> map ace_content xs = map ace_content ys"
    and "mset (map content_line xs) = mset (map content_line ys)
      \<longleftrightarrow> mset (map ace_content xs) = mset (map ace_content ys)"
proof -
  obtain g where g: "facts_ok e \<Longrightarrow> ace_content e = g (content_line e)" for e
    using ace_content_fun by blast
  obtain h where h: "content_line e = h (ace_content e)" for e using content_line_fun by blast
  have ac: "map ace_content zs = map g (map content_line zs)" if "set zs \<subseteq> set (xs @ ys)" for zs
    using that assms g by (auto simp: subset_iff)
  have cl: "map content_line zs = map h (map ace_content zs)" for zs using h by simp
  have sub: "set xs \<subseteq> set (xs @ ys)" "set ys \<subseteq> set (xs @ ys)" by auto
  show "map content_line xs = map content_line ys \<longleftrightarrow> map ace_content xs = map ace_content ys"
    using ac [OF sub(1)] ac [OF sub(2)] cl [of xs] cl [of ys] by metis
  show "mset (map content_line xs) = mset (map content_line ys)
      \<longleftrightarrow> mset (map ace_content xs) = mset (map ace_content ys)"
    using ac [OF sub(1)] ac [OF sub(2)] cl [of xs] cl [of ys] by (metis mset_map)
qed

lemma ranked_inject:
  "map (\<lambda>(rank, c). ''ace='' @ dec_string rank @ ''|'' @ c) (enumerate n cs)
   = map (\<lambda>(rank, c). ''ace='' @ dec_string rank @ ''|'' @ c) (enumerate n ds) \<longleftrightarrow> cs = ds"
proof (induction cs arbitrary: n ds)
  case Nil
  then show ?case by (cases ds) auto
next
  case (Cons c cs)
  then show ?case by (cases ds) auto
qed

lemma sort_mset: "sort xs = sort ys \<longleftrightarrow> mset xs = mset ys"
  using sort_perm by (metis mset_sort)

lemma normalize_acl_facts:
  "normalize_acl sha p q (map Inl es) = Inr n \<longleftrightarrow> (p \<or> es = []) \<and> (\<exists>ls. ace_lines es (is_ordered es) = Inr ls
     \<and> n = \<lparr>no_text = document (header_lines p q (is_ordered es) @ ls),
            no_digest = sha (document (header_lines p q (is_ordered es) @ ls)),
            no_ordered = is_ordered es, no_ace_count = length es\<rparr>)"
proof -
  have "res_map as_facts (map Inl es) = Inr es"
    by (induction es) (simp_all add: as_facts_def)
  then show ?thesis
    by (auto simp: normalize_acl_def result_simps Let_def)
qed

lemma ace_lines_clean:
  assumes "ace_lines es ordered = Inr ls" "\<forall>e \<in> set es. facts_ok e"
  shows "\<forall>l \<in> set ls. newline \<notin> set l"
proof -
  have num: "newline \<notin> set (dec_string n)" for n using plainD(2) plain_fields(2) by blast
  have "set (keyed_contents es) = content_line ` set es" by (simp add: keyed_contents_def)
  then have c: "\<forall>l \<in> set (keyed_contents es). newline \<notin> set l"
    using assms(2) content_line_no_newline by auto
  have ranked: "\<forall>l \<in> set (map (\<lambda>(rank, c). ''ace='' @ dec_string rank @ ''|'' @ c) (enumerate k cs)). newline \<notin> set l"
    if "\<forall>l \<in> set cs. newline \<notin> set l" for cs k
    using that
  proof (induction cs arbitrary: k)
    case (Cons c cs)
    have "newline \<notin> set (''ace='' @ dec_string k @ ''|'' @ c)"
      using num [of k] Cons.prems by (simp add: newline_def)
    with Cons show ?case by simp
  qed simp
  show ?thesis
  proof (cases ordered)
    case True
    with assms(1) have "ls = map (\<lambda>(rank, c). ''ace='' @ dec_string rank @ ''|'' @ c) (enumerate 0 (keyed_contents es))"
      by (simp add: ace_lines_contents split: if_splits)
    then show ?thesis using ranked [OF c, of 0] by simp
  next
    case False
    with assms content_line_no_newline show ?thesis
      by (auto simp: ace_lines_def newline_def)
  qed
qed

lemma header_clean: "\<forall>l \<in> set (header_lines p q r). newline \<notin> set l"
  unfolding header_lines_def text_flag_def ACL_NORMAL_FORM_VERSION_def newline_def
  by (cases p; cases q; cases r; simp)

lemma text_flag_inject: "text_flag a = text_flag b \<longleftrightarrow> a = b"
  by (cases a; cases b) (simp_all add: text_flag_def)

lemma order_text_inject:
  "(if r then ''observed'' else ''unordered'') = (if r' then ''observed'' else ''unordered'') \<longleftrightarrow> r = r'"
  by (cases r; cases r') simp_all

lemma header_inject: "header_lines p q r @ ls = header_lines p' q' r' @ ls' \<longleftrightarrow> p = p' \<and> q = q' \<and> r = r' \<and> ls = ls'"
  unfolding header_lines_def append_Cons append_Nil list.inject same_append_eq text_flag_inject order_text_inject
  by blast

text \<open>Distinct positions, as the constructor's and the renderer's checks leave them.\<close>

lemma ordered_positions:
  assumes "ace_lines es True = Inr ls" "is_ordered es" "\<forall>e \<in> set es. facts_ok e"
  shows "distinct (map position_of es)"
proof -
  have some: "\<exists>i \<ge> 0. af_order_index e = Some i" if "e \<in> set es" for e
    using assms(2,3) that by (fastforce simp: is_ordered_def list_all_iff facts_ok_def negative_index_def)
  then have "filter (\<lambda>e. af_order_index e \<noteq> None) es = es"
    by (intro filter_True) fastforce
  with assms(1) have dist: "distinct (map af_order_index es)"
    by (simp add: ace_lines_def split: if_splits)
  have "d = e" if de: "d \<in> set es" "e \<in> set es" "position_of d = position_of e" for d e
  proof -
    obtain i j where "af_order_index d = Some i" "af_order_index e = Some j" "0 \<le> i" "0 \<le> j"
      using some de(1,2) by metis
    with de dist show ?thesis by (simp add: position_of_def distinct_map inj_on_def)
  qed
  with dist show ?thesis by (simp add: distinct_map inj_on_def)
qed

subsection \<open>Properties\<close>

definition sample_facts :: "string \<Rightarrow> ace_type \<Rightarrow> 32 word \<Rightarrow> nat \<Rightarrow> int option \<Rightarrow> acl_ace_facts" where
  "sample_facts t ty m f i = \<lparr>af_trustee_sid = t, af_ace_type = ty, af_access_mask = m, af_ace_flags = f,
     af_order_index = i\<rparr>"

lemma sample_facts_ok: "0 \<le> i \<Longrightarrow> f \<le> 255 \<Longrightarrow> facts_ok (sample_facts ''S-1-5-21-7'' ty m f (Some i))"
  unfolding facts_ok_def sample_facts_def
  by (auto simp: negative_index_def MAX_ACE_FLAGS_def MAX_AUTHORITY_def MAX_SUB_AUTHORITIES_def
      MAX_UINT32_def sample_sid_text [symmetric] intro!: exI [of _ 5] exI [of _ "[21, 7]"])

lemma normal_text_iff:
  assumes "normalize_acl sha p q (map Inl xs) = Inr m" "normalize_acl sha p' q' (map Inl ys) = Inr n"
    and "\<forall>e \<in> set (xs @ ys). facts_ok e" "\<forall>e \<in> set (xs @ ys). position_of e < 10 ^ 10"
  shows "no_text m = no_text n \<longleftrightarrow> p = p' \<and> q = q' \<and> acl_meaning xs = acl_meaning ys"
proof -
  from assms(1,2) obtain ls ks where ls: "ace_lines xs (is_ordered xs) = Inr ls"
    "no_text m = document (header_lines p q (is_ordered xs) @ ls)"
    and ks: "ace_lines ys (is_ordered ys) = Inr ks"
    "no_text n = document (header_lines p' q' (is_ordered ys) @ ks)"
    by (auto simp: normalize_acl_facts)
  have ok: "\<forall>e \<in> set xs. facts_ok e" "\<forall>e \<in> set ys. facts_ok e" using assms(3) by auto
  have "no_text m = no_text n \<longleftrightarrow> p = p' \<and> q = q' \<and> is_ordered xs = is_ordered ys \<and> ls = ks"
  proof -
    have "\<forall>l \<in> set (header_lines p q (is_ordered xs) @ ls) \<union> set (header_lines p' q' (is_ordered ys) @ ks).
        newline \<notin> set l"
      using header_clean ace_lines_clean [OF ls(1) ok(1)] ace_lines_clean [OF ks(1) ok(2)] by auto
    from document_inject [OF this] show ?thesis
      unfolding ls(2) ks(2) header_inject [symmetric] by metis
  qed
  moreover have "ls = ks \<longleftrightarrow> acl_meaning xs = acl_meaning ys" if o: "is_ordered xs = is_ordered ys"
  proof (cases "is_ordered xs")
    case True
    with o have oy: "is_ordered ys" by simp
    have lines: "zs = map (\<lambda>(rank, c). ''ace='' @ dec_string rank @ ''|'' @ c) (enumerate 0 (keyed_contents es))"
      if "ace_lines es True = Inr zs" for es zs using that by (simp add: ace_lines_contents split: if_splits)
    have kc: "keyed_contents es = map content_line (sort_key position_of es)"
      if "ace_lines es True = Inr zs" "is_ordered es" "set es \<subseteq> set (xs @ ys)" for es zs
      using that assms(3,4) ordered_positions [OF that(1,2)] by (intro keyed_contents_positions) auto
    have lt: "ace_lines xs True = Inr ls" "ace_lines ys True = Inr ks" using ls(1) ks(1) True oy by simp_all
    have "ls = ks \<longleftrightarrow> keyed_contents xs = keyed_contents ys"
      unfolding lines [OF lt(1)] lines [OF lt(2)] ranked_inject ..
    also have "\<dots> \<longleftrightarrow> map ace_content (sort_key position_of xs) = map ace_content (sort_key position_of ys)"
      using kc ls(1) ks(1) True oy contents_iff(1) [of "sort_key position_of xs" "sort_key position_of ys"] assms(3)
      by simp
    finally show ?thesis using True oy by (simp add: acl_meaning_def)
  next
    case False
    with o ls(1) ks(1) have "ls = map ((@) ''ace=-|'') (sort (map content_line xs))"
      "ks = map ((@) ''ace=-|'') (sort (map content_line ys))" by (auto simp: ace_lines_def)
    then have "ls = ks \<longleftrightarrow> sort (map content_line xs) = sort (map content_line ys)"
      by (simp add: inj_map_eq_map inj_on_def)
    then show ?thesis
      using False o contents_iff(2) [OF assms(3)] by (simp add: acl_meaning_def sort_mset)
  qed
  moreover have "acl_meaning xs = acl_meaning ys \<Longrightarrow> is_ordered xs = is_ordered ys"
    by (simp add: acl_meaning_def split: if_splits)
  ultimately show ?thesis by blast
qed

text \<open>
  C20. Two DACLs have the same normalized document exactly when they agree on whether a DACL is
  present, on protection, and on the entries as the normal form means them: trustee, type, mask
  and flags in evaluation order when every entry has a position, as a multiset otherwise. So the
  document does not depend on the order in which entries are supplied, nor on how positions are
  numbered, an unordered reading never equals an ordered one, and nothing the DACL says is lost.
\<close>

theorem normalized_document_exact:
  assumes "normalize_acl sha p q (map Inl xs) = Inr m" "normalize_acl sha p' q' (map Inl ys) = Inr n"
    and "\<forall>e \<in> set (xs @ ys). facts_ok e" "\<forall>e \<in> set (xs @ ys). position_of e < 10 ^ 10"
  shows "no_text m = no_text n \<longleftrightarrow> p = p' \<and> q = q' \<and> acl_meaning xs = acl_meaning ys"
  by (rule normal_text_iff [OF assms])

text \<open>One DACL, numbered with gaps and read back in the other order.\<close>

theorem normalized_document_exact_witness:
  "\<exists>m n. normalize_acl id True False (map Inl [sample_facts ''S-1-5-21-7'' DENY 2 0 (Some 0),
        sample_facts ''S-1-5-21-7'' ALLOW 3 0x10 (Some 1)]) = Inr m
     \<and> normalize_acl id True False (map Inl [sample_facts ''S-1-5-21-7'' ALLOW 3 0x10 (Some 9),
        sample_facts ''S-1-5-21-7'' DENY 2 0 (Some 4)]) = Inr n
     \<and> no_text m = no_text n"
proof -
  let ?xs = "[sample_facts ''S-1-5-21-7'' DENY 2 0 (Some 0), sample_facts ''S-1-5-21-7'' ALLOW 3 0x10 (Some 1)]"
  let ?ys = "[sample_facts ''S-1-5-21-7'' ALLOW 3 0x10 (Some 9), sample_facts ''S-1-5-21-7'' DENY 2 0 (Some 4)]"
  have "\<exists>ls. ace_lines ?xs (is_ordered ?xs) = Inr ls" "\<exists>ls. ace_lines ?ys (is_ordered ?ys) = Inr ls"
    by (simp_all add: ace_lines_def is_ordered_def sample_facts_def)
  then obtain m n where mn: "normalize_acl id True False (map Inl ?xs) = Inr m"
    "normalize_acl id True False (map Inl ?ys) = Inr n"
    unfolding normalize_acl_facts by blast
  have "\<forall>e \<in> set (?xs @ ?ys). facts_ok e" using sample_facts_ok by simp
  moreover have "\<forall>e \<in> set (?xs @ ?ys). position_of e < 10 ^ 10"
    by (simp add: position_of_def sample_facts_def)
  ultimately have "no_text m = no_text n \<longleftrightarrow> acl_meaning ?xs = acl_meaning ?ys"
    using normalized_document_exact [OF mn] by simp
  also have "acl_meaning ?xs = acl_meaning ?ys"
    by (simp add: acl_meaning_def is_ordered_def position_of_def ace_content_def sample_facts_def)
  finally show ?thesis using mn by blast
qed

end
