(* ===== verification/Adg_Inheritance.thy ===== *)
theory Adg_Inheritance
  imports Adg_Acl_Hash Adg_Rights "HOL-Library.Product_Lexorder"
begin

section \<open>ACE inheritance projection (app/domain/inheritance.py)\<close>

text \<open>
  Which entries of a parent's DACL descend to a child, carrying which flags and which mask, and
  the boundary verdict made by comparing a child's digest with the projection's. The lemmas show
  that the flag rule is the measured table of the module, that projecting twice adds nothing, so
  a tree that only inherits looks the same at every depth, and that a directory carrying exactly
  what its parent hands down is not reported as a boundary.
\<close>

definition SUBSTITUTED_TRUSTEES :: "string set" where
  "SUBSTITUTED_TRUSTEES = {''S-1-3-0'', ''S-1-3-1''}"

definition AF_PROPAGATING :: nat where
  "AF_PROPAGATING = AF_OBJECT_INHERIT OR AF_CONTAINER_INHERIT"

definition INH_FILE_GENERIC_READ :: "32 word" where "INH_FILE_GENERIC_READ = 0x00120089"
definition INH_FILE_GENERIC_WRITE :: "32 word" where "INH_FILE_GENERIC_WRITE = 0x00120116"
definition INH_FILE_GENERIC_EXECUTE :: "32 word" where "INH_FILE_GENERIC_EXECUTE = 0x001200A0"
definition INH_FILE_ALL_ACCESS :: "32 word" where "INH_FILE_ALL_ACCESS = 0x001F01FF"

datatype acl_boundary_reason =
  BR_SHARE_ROOT | BR_SCAN_ROOT | BR_PROTECTED_DACL | BR_NULL_DACL | BR_PARENT_NULL_DACL
| BR_PARENT_UNREADABLE | BR_ACL_DIFFERS_FROM_PARENT

definition map_generic_rights :: "32 word \<Rightarrow> 32 word" where
  "map_generic_rights m =
     (let s0 = m AND NOT GENERIC_RIGHT_BITS;
          s1 = (if m AND GENERIC_READ \<noteq> 0 then s0 OR INH_FILE_GENERIC_READ else s0);
          s2 = (if m AND GENERIC_WRITE \<noteq> 0 then s1 OR INH_FILE_GENERIC_WRITE else s1);
          s3 = (if m AND GENERIC_EXECUTE \<noteq> 0 then s2 OR INH_FILE_GENERIC_EXECUTE else s2)
      in if m AND GENERIC_ALL \<noteq> 0 then s3 OR INH_FILE_ALL_ACCESS else s3)"

definition project_inherited_ace_flags :: "nat \<Rightarrow> bool \<Rightarrow> nat option" where
  "project_inherited_ace_flags flags for_container =
     (let parent = flags AND 0xFF;
          no_propagate = has_flag parent AF_NO_PROPAGATE_INHERIT
      in if \<not> for_container then
           (if has_flag parent AF_OBJECT_INHERIT then Some AF_INHERITED else None)
         else if has_flag parent AF_CONTAINER_INHERIT then
           (if no_propagate then Some AF_INHERITED
            else Some (AF_INHERITED OR (parent AND AF_PROPAGATING)))
         else if has_flag parent AF_OBJECT_INHERIT then
           (if no_propagate then None
            else Some (AF_INHERITED OR AF_OBJECT_INHERIT OR AF_INHERIT_ONLY))
         else None)"

text \<open>The inner function \<open>copy\<close>: the same trustee and type, no position.\<close>

definition ace_copy :: "acl_ace_facts \<Rightarrow> nat \<Rightarrow> 32 word \<Rightarrow> acl_ace_facts result" where
  "ace_copy entry flags m =
     mk_acl_ace_facts (af_trustee_sid entry) (af_ace_type entry) (uint m) (int flags) None"

definition project_inherited_ace :: "acl_ace_facts \<Rightarrow> bool \<Rightarrow> acl_ace_facts list result" where
  "project_inherited_ace entry for_container =
     (let parent = af_ace_flags entry AND 0xFF;
          container_inherit = has_flag parent AF_CONTAINER_INHERIT;
          object_inherit = has_flag parent AF_OBJECT_INHERIT;
          no_propagate = has_flag parent AF_NO_PROPAGATE_INHERIT;
          generic = af_access_mask entry AND GENERIC_RIGHT_BITS \<noteq> 0;
          substituted = af_trustee_sid entry \<in> SUBSTITUTED_TRUSTEES
      in if \<not> for_container then
           (if substituted \<or> \<not> object_inherit then Inr []
            else res_map (\<lambda>(f, m). ace_copy entry f m) [(AF_INHERITED, map_generic_rights (af_access_mask entry))])
         else if \<not> (generic \<or> substituted) then
           (case project_inherited_ace_flags (af_ace_flags entry) True of
              None \<Rightarrow> Inr []
            | Some f \<Rightarrow> res_map (\<lambda>(f, m). ace_copy entry f m) [(f, af_access_mask entry)])
         else res_map (\<lambda>(f, m). ace_copy entry f m)
           ((if container_inherit \<and> \<not> substituted
               then [(AF_INHERITED, map_generic_rights (af_access_mask entry))] else [])
            @ (if (container_inherit \<or> object_inherit) \<and> \<not> no_propagate
               then [(AF_INHERITED OR AF_INHERIT_ONLY OR (parent AND AF_PROPAGATING), af_access_mask entry)]
               else [])))"

text \<open>\<open>replace(child, order_index=i)\<close> runs the constructor again.\<close>

definition replace_order_index :: "acl_ace_facts \<Rightarrow> nat \<Rightarrow> acl_ace_facts result" where
  "replace_order_index e i = mk_acl_ace_facts (af_trustee_sid e) (af_ace_type e)
     (uint (af_access_mask e)) (int (af_ace_flags e)) (Some (int i))"

fun renumber :: "nat \<Rightarrow> acl_ace_facts list \<Rightarrow> acl_ace_facts list result" where
  "renumber i [] = Inr []"
| "renumber i (e # es) =
     res_bind (replace_order_index e i) (\<lambda>e'. res_bind (renumber (Suc i) es) (\<lambda>es'. Inr (e' # es')))"

definition projection_order :: "acl_ace_facts \<Rightarrow> bool \<times> nat \<times> string" where
  "projection_order e = (af_order_index e = None, position_of e, content_line e)"

definition project_inherited_acl ::
  "(acl_ace_facts + ntfs_ace) list \<Rightarrow> bool \<Rightarrow> acl_ace_facts list result" where
  "project_inherited_acl aces for_container =
     res_bind (res_map as_facts aces) (\<lambda>entries.
     res_bind (res_map (\<lambda>e. project_inherited_ace e for_container) (sort_key projection_order entries))
       (\<lambda>children. renumber 0 (concat children)))"

definition projected_child_acl ::
  "(string \<Rightarrow> string) \<Rightarrow> bool \<Rightarrow> (acl_ace_facts + ntfs_ace) list \<Rightarrow> bool \<Rightarrow> normalized_acl option result" where
  "projected_child_acl sha present aces for_container =
     (if \<not> present then Inr None
      else res_bind (project_inherited_acl aces for_container) (\<lambda>entries.
        res_bind (normalize_acl sha True False (map Inl entries)) (\<lambda>n. Inr (Some n))))"

definition inherited_child_acl_hash ::
  "(string \<Rightarrow> string) \<Rightarrow> bool \<Rightarrow> (acl_ace_facts + ntfs_ace) list \<Rightarrow> bool \<Rightarrow> string option result" where
  "inherited_child_acl_hash sha present aces for_container =
     res_bind (projected_child_acl sha present aces for_container)
       (\<lambda>projection. Inr (map_option no_digest projection))"

definition boundary_reason_for ::
  "bool \<Rightarrow> bool \<Rightarrow> bool \<Rightarrow> bool \<Rightarrow> string option \<Rightarrow> bool option \<Rightarrow> string option
   \<Rightarrow> acl_boundary_reason option" where
  "boundary_reason_for is_share_root is_scan_root present prot own parent_present parent_projection =
     (if prot then Some BR_PROTECTED_DACL
      else if \<not> present then Some BR_NULL_DACL
      else if is_share_root then Some BR_SHARE_ROOT
      else if is_scan_root then Some BR_SCAN_ROOT
      else case parent_present of
        None \<Rightarrow> Some BR_PARENT_UNREADABLE
      | Some pp \<Rightarrow>
          if \<not> pp then Some BR_PARENT_NULL_DACL
          else (case (parent_projection, own) of
              (Some pr, Some h) \<Rightarrow> if h \<noteq> pr then Some BR_ACL_DIFFERS_FROM_PARENT else None
            | _ \<Rightarrow> Some BR_PARENT_UNREADABLE))"

subsection \<open>Flags\<close>

lemma has_flag_simps [simp]:
  "has_flag f AF_OBJECT_INHERIT \<longleftrightarrow> bit f 0" "has_flag f AF_CONTAINER_INHERIT \<longleftrightarrow> bit f 1"
  "has_flag f AF_NO_PROPAGATE_INHERIT \<longleftrightarrow> bit f 2" "has_flag f AF_INHERIT_ONLY \<longleftrightarrow> bit f 3"
  "has_flag f AF_INHERITED \<longleftrightarrow> bit f 4"
  using and_exp_eq_0_iff_not_bit [of f 0] and_exp_eq_0_iff_not_bit [of f 1] and_exp_eq_0_iff_not_bit [of f 2]
    and_exp_eq_0_iff_not_bit [of f 3] and_exp_eq_0_iff_not_bit [of f 4]
  by (auto simp: has_flag_def ace_flag_defs)

lemma AF_PROPAGATING_value: "AF_PROPAGATING = 3"
  by (simp add: AF_PROPAGATING_def ace_flag_defs)

text \<open>The reach of an entry, its two propagation bits.\<close>

lemma low_byte: "f AND 0xFF = take_bit 8 f" "f AND 0x0F = take_bit 4 f" "f AND 3 = take_bit 2 f" for f :: nat
proof -
  have "(0xFF::nat) = mask 8" "(0x0F::nat) = mask 4" "(3::nat) = mask 2"
    by (simp_all add: mask_eq_exp_minus_1)
  then show "f AND 0xFF = take_bit 8 f" "f AND 0x0F = take_bit 4 f" "f AND 3 = take_bit 2 f"
    by (simp_all only: take_bit_eq_mask)
qed

lemma reach_cases:
  "f AND AF_PROPAGATING = (if bit f 1 then if bit f 0 then 3 else 2 else if bit f 0 then 1 else 0)"
proof -
  have "f AND AF_PROPAGATING = f mod 4" by (simp add: AF_PROPAGATING_value low_byte take_bit_eq_mod)
  also have "f mod 4 = f mod 2 + 2 * ((f div 2) mod 2)" using mod_mult2_eq [of f 2 2] by simp
  also have "f mod 2 = (if bit f 0 then 1 else 0)" by (simp add: bit_0 mod_2_eq_odd)
  also have "(f div 2) mod 2 = (if bit f 1 then 1 else 0)" by (simp add: bit_iff_odd mod_2_eq_odd)
  finally show ?thesis by simp
qed

lemma byte_bits [simp]: "k < 8 \<Longrightarrow> bit (f AND 0xFF) k \<longleftrightarrow> bit f k" for f :: nat
  by (simp add: low_byte bit_take_bit_iff)

lemma byte_reach [simp]: "(f AND 0xFF) AND AF_PROPAGATING = f AND AF_PROPAGATING" for f :: nat
proof -
  have "take_bit 2 (take_bit 8 f) = take_bit 2 f" by simp
  then show ?thesis by (simp only: AF_PROPAGATING_value low_byte)
qed

lemma inherited_or:
  "AF_INHERITED OR (if a then if b then 3 else 2 else if b then 1 else 0)
    = (if a then if b then 0x13 else 0x12 else if b then 0x11 else 0x10)"
  "AF_INHERITED OR AF_INHERIT_ONLY OR (if a then if b then 3 else 2 else if b then 1 else 0)
    = (if a then if b then 0x1B else 0x1A else if b then 0x19 else 0x18)"
  "AF_INHERITED OR AF_OBJECT_INHERIT OR AF_INHERIT_ONLY = 0x19"
  by (simp_all add: ace_flag_defs)

lemma project_flags_eq:
  "project_inherited_ace_flags f fc =
     (if \<not> fc then (if bit f 0 then Some 0x10 else None)
      else if bit f 1 then (if bit f 2 then Some 0x10 else Some (if bit f 0 then 0x13 else 0x12))
      else if bit f 0 then (if bit f 2 then None else Some 0x19) else None)"
  unfolding project_inherited_ace_flags_def Let_def has_flag_simps byte_reach reach_cases inherited_or
  by (simp add: AF_INHERITED_def)

text \<open>The table of the module: parent flags, what a child container and a child file receive.\<close>

definition measured_table :: "(nat \<times> nat option \<times> nat option) list" where
  "measured_table =
     [(0x02, Some 0x12, None), (0x01, Some 0x19, Some 0x10), (0x03, Some 0x13, Some 0x10),
      (0x0A, Some 0x12, None), (0x09, Some 0x19, Some 0x10), (0x0B, Some 0x13, Some 0x10),
      (0x06, Some 0x10, None), (0x05, None, Some 0x10), (0x07, Some 0x10, Some 0x10),
      (0x0F, Some 0x10, Some 0x10), (0x00, None, None)]"

lemma low_bits [simp]: "k < 4 \<Longrightarrow> bit (f AND 0x0F) k \<longleftrightarrow> bit f k" for f :: nat
  by (simp add: low_byte bit_take_bit_iff)

lemma project_flags_low: "project_inherited_ace_flags (f AND 0x0F) fc = project_inherited_ace_flags f fc"
  by (simp add: project_flags_eq)

subsection \<open>What one entry becomes\<close>

definition child_of :: "acl_ace_facts \<Rightarrow> nat \<Rightarrow> 32 word \<Rightarrow> acl_ace_facts" where
  "child_of e f m = e\<lparr>af_access_mask := m, af_ace_flags := f, af_order_index := None\<rparr>"

definition splits :: "acl_ace_facts \<Rightarrow> bool" where
  "splits e \<longleftrightarrow> af_access_mask e AND GENERIC_RIGHT_BITS \<noteq> 0 \<or> af_trustee_sid e \<in> SUBSTITUTED_TRUSTEES"

text \<open>The projection of an entry the constructor has checked; building the copies cannot fail.\<close>

definition projected :: "acl_ace_facts \<Rightarrow> bool \<Rightarrow> acl_ace_facts list" where
  "projected e fc =
     (let f = af_ace_flags e; m = af_access_mask e; subst = af_trustee_sid e \<in> SUBSTITUTED_TRUSTEES
      in if \<not> fc then (if subst \<or> \<not> bit f 0 then [] else [child_of e 0x10 (map_generic_rights m)])
         else if \<not> splits e then
           (if bit f 1 then [child_of e (if bit f 2 then 0x10 else if bit f 0 then 0x13 else 0x12) m]
            else if bit f 0 \<and> \<not> bit f 2 then [child_of e 0x19 m] else [])
         else (if bit f 1 \<and> \<not> subst then [child_of e 0x10 (map_generic_rights m)] else [])
           @ (if (bit f 1 \<or> bit f 0) \<and> \<not> bit f 2
              then [child_of e (if bit f 1 then if bit f 0 then 0x1B else 0x1A else 0x19) m] else []))"

lemma ace_copy_ok: "facts_ok e \<Longrightarrow> f \<le> 255 \<Longrightarrow> ace_copy e f m = Inr (child_of e f m)"
  by (simp add: ace_copy_def child_of_def facts_rebuild negative_index_def)

lemma facts_ok_child: "facts_ok e \<Longrightarrow> f \<le> 255 \<Longrightarrow> facts_ok (child_of e f m)"
  by (simp add: facts_ok_def child_of_def negative_index_def MAX_ACE_FLAGS_def)

lemma child_of_simps [simp]:
  "af_ace_flags (child_of e f m) = f" "af_access_mask (child_of e f m) = m"
  "af_trustee_sid (child_of e f m) = af_trustee_sid e" "child_of (child_of e f m) f' m' = child_of e f' m'"
  "child_of (e\<lparr>af_order_index := i\<rparr>) f m = child_of e f m"
  by (simp_all add: child_of_def)

lemma project_ok:
  assumes "facts_ok e"
  shows "project_inherited_ace e fc = Inr (projected e fc)" "\<forall>c \<in> set (projected e fc). facts_ok c"
proof -
  show "project_inherited_ace e fc = Inr (projected e fc)"
    unfolding project_inherited_ace_def Let_def has_flag_simps byte_reach reach_cases inherited_or
      project_flags_eq projected_def splits_def
    using ace_copy_ok [OF assms] by (simp add: AF_INHERITED_def)
  show "\<forall>c \<in> set (projected e fc). facts_ok c"
    using facts_ok_child [OF assms] by (auto simp: projected_def Let_def)
qed

lemma projected_order [simp]: "projected (e\<lparr>af_order_index := i\<rparr>) fc = projected e fc"
  by (simp add: projected_def splits_def Let_def)

lemma splits_child [simp]: "splits (child_of e f (af_access_mask e)) = splits e"
  by (simp add: splits_def)

lemma projected_again:
  "concat (map (\<lambda>c. projected c True) (projected e True)) = (if bit (af_ace_flags e) 2 then [] else projected e True)"
proof (cases "splits e")
  case False
  then show ?thesis by (simp add: projected_def Let_def)
next
  case True
  moreover have "projected (child_of e 0x10 m) True = []" for m
    by (simp add: projected_def Let_def)
  moreover have "projected (child_of e (if bit (af_ace_flags e) 1 then if bit (af_ace_flags e) 0 then 0x1B else 0x1A else 0x19)
      (af_access_mask e)) True = projected e True"
    if "bit (af_ace_flags e) 1 \<or> bit (af_ace_flags e) 0" "\<not> bit (af_ace_flags e) 2"
    using that True by (auto simp: projected_def Let_def)
  ultimately show ?thesis
    by (auto simp: projected_def [of e] Let_def)
qed

subsection \<open>What a DACL becomes\<close>

definition numbered :: "nat \<Rightarrow> acl_ace_facts list \<Rightarrow> acl_ace_facts list" where
  "numbered i es = map (\<lambda>(k, e). e\<lparr>af_order_index := Some (int k)\<rparr>) (enumerate i es)"

lemma numbered_simps [simp]: "numbered i [] = []"
  "numbered i (e # es) = e\<lparr>af_order_index := Some (int i)\<rparr> # numbered (Suc i) es"
  by (simp_all add: numbered_def)

lemma renumber_ok: "\<forall>e \<in> set es. facts_ok e \<Longrightarrow> renumber i es = Inr (numbered i es)"
proof (induction es arbitrary: i)
  case (Cons e es)
  have "af_ace_flags e \<le> 255" using Cons.prems by (simp add: facts_ok_def MAX_ACE_FLAGS_def)
  then have "replace_order_index e i = Inr (e\<lparr>af_order_index := Some (int i)\<rparr>)"
    using Cons.prems facts_rebuild [of e "Some (int i)" "af_ace_flags e" "af_access_mask e"]
    by (simp add: replace_order_index_def negative_index_def)
  with Cons show ?case by simp
qed simp

lemma res_map_Inl_facts: "res_map as_facts (map Inl es) = Inr es"
  by (induction es) (simp_all add: as_facts_def)

definition handed_down :: "acl_ace_facts list \<Rightarrow> bool \<Rightarrow> acl_ace_facts list" where
  "handed_down es fc = numbered 0 (concat (map (\<lambda>e. projected e fc) (sort_key projection_order es)))"

lemma project_acl_ok:
  assumes "\<forall>e \<in> set es. facts_ok e"
  shows "project_inherited_acl (map Inl es) fc = Inr (handed_down es fc)"
proof -
  have "res_map (\<lambda>e. project_inherited_ace e fc) (sort_key projection_order es)
      = Inr (map (\<lambda>e. projected e fc) (sort_key projection_order es))"
    by (rule res_map_all) (use assms project_ok(1) in simp)
  moreover have "\<forall>c \<in> set (concat (map (\<lambda>e. projected e fc) (sort_key projection_order es))). facts_ok c"
    using assms project_ok(2) by auto
  ultimately show ?thesis
    by (simp add: project_inherited_acl_def res_map_Inl_facts renumber_ok handed_down_def)
qed

lemma facts_ok_position: "facts_ok e \<Longrightarrow> facts_ok (e\<lparr>af_order_index := Some (int i)\<rparr>)"
  by (simp add: facts_ok_def negative_index_def)

lemma numbered_facts_ok: "\<forall>e \<in> set es. facts_ok e \<Longrightarrow> \<forall>e \<in> set (numbered i es). facts_ok e"
  by (induction es arbitrary: i) (simp_all add: facts_ok_position)

lemma handed_down_ok: "\<forall>e \<in> set es. facts_ok e \<Longrightarrow> \<forall>c \<in> set (handed_down es fc). facts_ok c"
  unfolding handed_down_def using project_ok(2) by (intro numbered_facts_ok) auto

lemma numbered_positions:
  "e \<in> set (numbered i es) \<Longrightarrow> \<exists>k. i \<le> k \<and> k < i + length es \<and> af_order_index e = Some (int k)"
proof (induction es arbitrary: i)
  case (Cons x es)
  from Cons.prems consider "e = x\<lparr>af_order_index := Some (int i)\<rparr>" | "e \<in> set (numbered (Suc i) es)" by auto
  then show ?case
  proof cases
    case 2
    from Cons.IH [OF this] show ?thesis by auto
  qed auto
qed simp

lemma numbered_sorted: "sort_key projection_order (numbered i es) = numbered i es"
proof (rule sort_key_id_if_sorted)
  show "sorted (map projection_order (numbered i es))"
  proof (induction es arbitrary: i)
    case (Cons x es)
    have "projection_order (x\<lparr>af_order_index := Some (int i)\<rparr>) \<le> projection_order e"
      if "e \<in> set (numbered (Suc i) es)" for e
      using numbered_positions [OF that] by (auto simp: projection_order_def position_of_def)
    with Cons show ?case by simp
  qed simp
qed

lemma projected_numbered: "map (\<lambda>e. projected e fc) (numbered i es) = map (\<lambda>e. projected e fc) es"
  by (induction es arbitrary: i) simp_all

lemma handed_down_again:
  "handed_down (handed_down es True) True = handed_down (filter (\<lambda>e. \<not> bit (af_ace_flags e) 2) es) True"
proof -
  have filtered: "concat (map (\<lambda>e. if P e then [] else g e) xs) = concat (map g (filter (\<lambda>e. \<not> P e) xs))"
    for P and g :: "acl_ace_facts \<Rightarrow> acl_ace_facts list" and xs
    by (induction xs) simp_all
  have "concat (map (\<lambda>e. projected e True) (concat (map (\<lambda>e. projected e True) xs)))
      = concat (map (\<lambda>e. if bit (af_ace_flags e) 2 then [] else projected e True) xs)" for xs
  proof (induction xs)
    case (Cons a xs)
    then show ?case using projected_again [of a] by (simp del: concat_eq_Nil_conv)
  qed simp
  then show ?thesis
    by (simp add: handed_down_def numbered_sorted projected_numbered filtered filter_sort)
qed

subsection \<open>The two generic mappings\<close>

lemma generic_mapping_eq: "map_generic_rights m = expand_value m"
  by (simp add: map_generic_rights_def expand_value_def Let_def or.assoc
      INH_FILE_GENERIC_READ_def INH_FILE_GENERIC_WRITE_def INH_FILE_GENERIC_EXECUTE_def
      INH_FILE_ALL_ACCESS_def FILE_GENERIC_READ_def FILE_GENERIC_WRITE_def
      FILE_GENERIC_EXECUTE_def FILE_ALL_ACCESS_def)

subsection \<open>Properties\<close>

text \<open>
  The flag rule is the measured Windows table: for every flag byte whose propagation bits are
  a row of it, whatever its other bits, a child container and a child file receive the flags the
  row gives, and always with the inherited bit.
\<close>

theorem projection_matches_table:
  assumes "map_of measured_table (f AND 0x0F) = Some (c, o_file)"
  shows "project_inherited_ace_flags f True = c \<and> project_inherited_ace_flags f False = o_file
    \<and> (\<forall>fc g. project_inherited_ace_flags f fc = Some g \<longrightarrow> bit g 4)"
proof -
  let ?ok = "\<lambda>(r, c, o_file). project_inherited_ace_flags r True = c \<and> project_inherited_ace_flags r False = o_file"
  have "list_all ?ok measured_table"
    by (simp add: measured_table_def project_flags_eq bit_0)
  with map_of_SomeD [OF assms] have "?ok (f AND 0x0F, c, o_file)" by (auto simp: list_all_iff)
  then show ?thesis
    unfolding project_flags_low split by (auto simp: project_flags_eq bit_0 split: if_splits)
qed

theorem projection_matches_table_witness:
  "project_inherited_ace_flags 0x1B True = Some 0x13 \<and> project_inherited_ace_flags 0x1B False = Some 0x10"
  using projection_matches_table [of "0x1B" "Some 0x13" "Some 0x10"]
  by (simp add: measured_table_def)

text \<open>
  C22. Inheritance alone is a fixed point. Projecting a DACL onto a container never fails on
  entries the constructor has checked, and projecting the result again yields what the parent's
  entries other than the NO_PROPAGATE_INHERIT ones hand down: split entries do not multiply with
  depth, and a tree nobody touched looks the same at every level below the first.
\<close>

theorem projection_is_a_fixed_point:
  assumes "\<forall>e \<in> set es. facts_ok e"
  shows "\<exists>cs. project_inherited_acl (map Inl es) True = Inr cs
    \<and> project_inherited_acl (map Inl cs) True
      = project_inherited_acl (map Inl (filter (\<lambda>e. \<not> has_flag (af_ace_flags e) AF_NO_PROPAGATE_INHERIT) es)) True"
  using assms project_acl_ok [OF assms] handed_down_ok [OF assms]
  by (simp add: project_acl_ok handed_down_again)

theorem projection_is_a_fixed_point_witness:
  "\<exists>cs. project_inherited_acl (map Inl [sample_facts ''S-1-5-21-7'' ALLOW 0xE0010000 3 (Some 0)]) True = Inr cs
    \<and> project_inherited_acl (map Inl cs) True = Inr cs"
proof -
  let ?e = "sample_facts ''S-1-5-21-7'' ALLOW 0xE0010000 3 (Some 0)"
  have np: "filter (\<lambda>e. \<not> has_flag (af_ace_flags e) AF_NO_PROPAGATE_INHERIT) [?e] = [?e]"
    by (simp add: sample_facts_def)
  from projection_is_a_fixed_point [of "[?e]", unfolded np] show ?thesis
    by (auto simp: sample_facts_ok)
qed

text \<open>
  C21. The boundary verdict over the digests a scan compares. A directory whose own DACL, unprotected
  and below the scan root, was read under a parent that was read is reported as no boundary exactly
  when its entries mean the same as what the parent hands down (for a digest that does not collide
  on these two documents), however its positions are numbered.
\<close>

theorem boundary_iff_not_inherited:
  assumes "\<forall>e \<in> set parent. facts_ok e" "\<forall>e \<in> set own. facts_ok e \<and> position_of e < 10 ^ 10"
    and "project_inherited_acl (map Inl parent) fc = Inr cs" "length cs < 10 ^ 10"
    and "normalize_acl sha True False (map Inl own) = Inr n"
    and no_collision: "\<forall>m. normalize_acl sha True False (map Inl cs) = Inr m \<longrightarrow> sha (no_text n) = sha (no_text m)
      \<longrightarrow> no_text n = no_text m"
  shows "\<exists>h. inherited_child_acl_hash sha True (map Inl parent) fc = Inr (Some h)
    \<and> (boundary_reason_for False False True False (Some (no_digest n)) (Some True) (Some h) = None
       \<longleftrightarrow> acl_meaning own = acl_meaning cs)"
proof -
  have cs: "cs = handed_down parent fc" using assms(3) project_acl_ok [OF assms(1)] by simp
  have ok: "\<forall>e \<in> set cs. facts_ok e" unfolding cs by (rule handed_down_ok [OF assms(1)])
  have pos: "\<forall>e \<in> set cs. position_of e < 10 ^ 10" and ord: "is_ordered cs"
    using assms(4) unfolding cs handed_down_def
    by (auto dest!: numbered_positions simp: position_of_def is_ordered_def list_all_iff handed_down_def)
      (fastforce simp: numbered_def)
  have "distinct (map af_order_index (numbered i xs))" for i xs
    by (induction xs arbitrary: i) (auto dest!: numbered_positions)
  then have "distinct (map af_order_index (filter P cs))" for P
    unfolding cs handed_down_def by (simp add: distinct_map_filter)
  then have "\<exists>ls. ace_lines cs (is_ordered cs) = Inr ls" using ord by (simp add: ace_lines_def)
  then obtain m where m: "normalize_acl sha True False (map Inl cs) = Inr m"
    unfolding normalize_acl_facts by blast
  have h: "inherited_child_acl_hash sha True (map Inl parent) fc = Inr (Some (no_digest m))"
    using m assms(3) by (simp add: inherited_child_acl_hash_def projected_child_acl_def)
  have dig: "no_digest n = sha (no_text n)" "no_digest m = sha (no_text m)"
    using assms(5) m by (auto simp: normalize_acl_facts)
  have "no_digest n = no_digest m \<longleftrightarrow> acl_meaning own = acl_meaning cs"
  proof -
    have "no_text n = no_text m \<longleftrightarrow> acl_meaning own = acl_meaning cs"
      using normal_text_iff [OF assms(5) m] ok pos assms(2) by (simp add: ball_Un)
    then show ?thesis unfolding dig using no_collision m by auto
  qed
  then show ?thesis using h by (auto simp: boundary_reason_for_def)
qed

text \<open>An untouched folder under a grant of Read to a group, and its entry numbered from seven.\<close>

theorem boundary_iff_not_inherited_witness:
  "\<exists>h n. inherited_child_acl_hash id True (map Inl [sample_facts ''S-1-5-21-7'' ALLOW 1 3 (Some 0)]) True = Inr (Some h)
    \<and> normalize_acl id True False (map Inl [sample_facts ''S-1-5-21-7'' ALLOW 1 0x13 (Some 7)]) = Inr n
    \<and> boundary_reason_for False False True False (Some (no_digest n)) (Some True) (Some h) = None"
proof -
  let ?p = "[sample_facts ''S-1-5-21-7'' ALLOW 1 3 (Some 0)]"
  let ?o = "[sample_facts ''S-1-5-21-7'' ALLOW 1 0x13 (Some 7)]"
  let ?c = "[sample_facts ''S-1-5-21-7'' ALLOW 1 0x13 (Some 0)]"
  have ok: "\<forall>e \<in> set ?p. facts_ok e" "\<forall>e \<in> set ?o. facts_ok e \<and> position_of e < 10 ^ 10"
    using sample_facts_ok [of 0 3 ALLOW 1] sample_facts_ok [of 7 "0x13" ALLOW 1]
    by (simp_all add: position_of_def sample_facts_def)
  have gen: "(1 :: 32 word) AND GENERIC_RIGHT_BITS = 0"
    by (simp add: GENERIC_RIGHT_BITS_def ntfs_right_defs)
  have "bit (3::nat) 1" "bit (3::nat) 0" "\<not> bit (3::nat) 2" by (simp_all add: bit_iff_odd)
  then have "handed_down ?p True = ?c"
    by (simp add: handed_down_def projected_def splits_def Let_def sample_facts_def child_of_def
        SUBSTITUTED_TRUSTEES_def gen)
  then have cs: "project_inherited_acl (map Inl ?p) True = Inr ?c"
    using project_acl_ok [OF ok(1)] by simp
  have "ace_lines ?o (is_ordered ?o) = Inr (map (\<lambda>(rank, e). ''ace='' @ dec_string rank @ ''|'' @ content_line e)
      (enumerate 0 (sort_key position_key ?o)))"
    by (simp add: ace_lines_def is_ordered_def sample_facts_def)
  then obtain n where n: "normalize_acl id True False (map Inl ?o) = Inr n"
    unfolding normalize_acl_facts by blast
  have "acl_meaning ?o = acl_meaning ?c"
    by (simp add: acl_meaning_def is_ordered_def position_of_def ace_content_def sample_facts_def)
  with boundary_iff_not_inherited [OF ok cs _ n] n show ?thesis by auto
qed

text \<open>
  Only a comparison that was made, and came out equal, says a directory is not a boundary: an
  unread parent, a NULL DACL on either side, a missing digest, a protected DACL, a share root and
  a scan root are all reported as boundaries.
\<close>

theorem unknown_is_a_boundary:
  "boundary_reason_for share_root scan_root present prot own parent_present projection = None
   \<longleftrightarrow> \<not> prot \<and> present \<and> \<not> share_root \<and> \<not> scan_root \<and> parent_present = Some True
       \<and> (\<exists>h. own = Some h \<and> projection = Some h)"
  by (auto simp: boundary_reason_for_def split: option.splits)

text \<open>
  The two expansions of generic rights in the code agree: the comparison value of the
  inheritance projection and the expansion the access check evaluates give one mask.
\<close>

theorem generic_mappings_agree:
  "map_generic_rights (mask_value m) = mask_value (expand_generics m)"
  by (simp add: mask_value_expand generic_mapping_eq)

end
