(* ===== verification/Adg_Resources.thy ===== *)
theory Adg_Resources
  imports Adg_Paths Adg_Inheritance
begin

section \<open>Servers, shares, directories and their stored entries (app/domain/resources.py, app/repositories/resources.py)\<close>

text \<open>
  The resource types of the domain with their constructor checks, the records the repository
  returns, what is derived from a record, and the two judgements the repository makes itself: the
  digest it recomputes from the entries it holds, and the boundary verdict it redoes from the
  parent's entries. Unicode case folding and upper casing are parameters; a moment is a number.
\<close>

subsection \<open>Domain types\<close>

datatype share_type = ST_DISK | ST_PRINT | ST_IPC | ST_DEVICE | ST_UNKNOWN
datatype resource_kind = RK_DIRECTORY | RK_FILE

record server =
  srv_name :: string
  srv_dns_host_name :: "string option"
  srv_netbios_name :: "string option"
  srv_computer_sid :: "sid option"
  srv_domain_sid :: "sid option"
  srv_is_domain_member :: "bool option"

definition blank :: "string \<Rightarrow> bool" where "blank s \<longleftrightarrow> s = [] \<or> py_strip s = []"

definition names_a_path :: "string \<Rightarrow> bool" where "names_a_path s \<longleftrightarrow> sep \<in> set s \<or> CHR ''/'' \<in> set s"

definition mk_server :: "server \<Rightarrow> server result" where
  "mk_server s =
     (if blank (srv_name s) then Inl (DomainValidationError ''name'')
      else if names_a_path (srv_name s) then Inl (DomainValidationError ''name'')
      else if (case srv_domain_sid s of None \<Rightarrow> False | Some d \<Rightarrow> \<not> is_domain_sid d) then Inl (DomainValidationError ''domain_sid'')
      else Inr s)"

definition server_identity_key :: "(string \<Rightarrow> string) \<Rightarrow> server \<Rightarrow> string" where
  "server_identity_key casefold s = casefold (srv_name s)"

definition local_domain_sid :: "server \<Rightarrow> sid option result" where
  "local_domain_sid s = (case srv_computer_sid s of None \<Rightarrow> Inr None | Some c \<Rightarrow> domain_sid_of c)"

record smb_share =
  sms_server_key :: string
  sms_name :: string
  sms_local_path :: "local_path option"
  sms_share_type :: share_type
  sms_description :: "string option"
  sms_concurrent_user_limit :: "int option"

definition mk_smb_share :: "smb_share \<Rightarrow> smb_share result" where
  "mk_smb_share s =
     (if blank (sms_server_key s) then Inl (DomainValidationError ''server_key'')
      else if blank (sms_name s) then Inl (DomainValidationError ''name'')
      else if names_a_path (sms_name s) then Inl (DomainValidationError ''name'')
      else Inr s)"

definition smb_share_identity_key :: "(string \<Rightarrow> string) \<Rightarrow> smb_share \<Rightarrow> string" where
  "smb_share_identity_key casefold s = casefold (sms_server_key s) @ ''|'' @ casefold (sms_name s)"

definition smb_unc_path :: "smb_share \<Rightarrow> unc_path result" where
  "smb_unc_path s = mk_unc_path (sms_server_key s) (sms_name s) []"

definition is_hidden :: "smb_share \<Rightarrow> bool" where
  "is_hidden s \<longleftrightarrow> sms_name s \<noteq> [] \<and> last (sms_name s) = CHR ''$''"

text \<open>\<open>str.isalpha\<close> is a parameter: it is Unicode's, like \<open>upper\<close>.\<close>

definition is_administrative :: "(string \<Rightarrow> string) \<Rightarrow> (char \<Rightarrow> bool) \<Rightarrow> smb_share \<Rightarrow> bool" where
  "is_administrative upper isalpha s \<longleftrightarrow>
     (let u = upper (sms_name s)
      in u = ''ADMIN$'' \<or> u = ''IPC$'' \<or> length u = 2 \<and> isalpha (u ! 0) \<and> u ! 1 = CHR ''$'')"

definition carries_file_permissions :: "smb_share \<Rightarrow> bool" where
  "carries_file_permissions s \<longleftrightarrow> sms_share_type s = ST_DISK"

record directory_resource =
  dr_path :: unc_path
  dr_local_path :: "local_path option"
  dr_share_key :: "string option"
  dr_is_acl_boundary :: bool
  dr_inheritance_enabled :: bool
  dr_depth_from_share_root :: "int option"
  dr_resource_kind :: resource_kind

definition mk_directory_resource :: "directory_resource \<Rightarrow> directory_resource result" where
  "mk_directory_resource r =
     (if (case dr_depth_from_share_root r of None \<Rightarrow> False | Some d \<Rightarrow> d < 0)
        then Inl (DomainValidationError ''depth_from_share_root'')
      else if \<not> dr_is_acl_boundary r \<and> \<not> dr_inheritance_enabled r then Inl (DomainValidationError ''is_acl_boundary'')
      else if dr_resource_kind r = RK_FILE \<and> unc_is_share_root (dr_path r) then Inl (DomainValidationError ''resource_kind'')
      else Inr r)"

definition directory_identity_key :: "(string \<Rightarrow> string) \<Rightarrow> directory_resource \<Rightarrow> string" where
  "directory_identity_key casefold r = unc_comparison_key casefold (dr_path r)"

text \<open>\<open>referenced_principal_key\<close>: only a BUILTIN SID is scoped to the machine that names it.\<close>

definition referenced_principal_key :: "(string \<Rightarrow> string) \<Rightarrow> sid \<Rightarrow> string option \<Rightarrow> string" where
  "referenced_principal_key casefold s host = (case host of
       None \<Rightarrow> sid_value s
     | Some h \<Rightarrow> if h \<noteq> [] \<and> is_builtin_sid s then casefold h @ ''|'' @ sid_value s else sid_value s)"

subsection \<open>Stored records\<close>

text \<open>When and by which run an object was first and last seen, and the source that reported it.\<close>

record provenance =
  pv_source_key :: string
  pv_first_observed_at :: int
  pv_first_observed_run_id :: string
  pv_last_observed_at :: int
  pv_last_observed_run_id :: string

record server_record = provenance +
  svr_server_key :: string
  svr_name :: string
  svr_dns_host_name :: "string option"
  svr_netbios_name :: "string option"
  svr_computer_sid :: "string option"
  svr_domain_sid :: "string option"
  svr_is_domain_member :: "bool option"
  svr_operating_system :: "string option"
  svr_share_count :: nat

record share_record = provenance +
  shr_share_key :: string
  shr_server_key :: string
  shr_name :: string
  shr_local_path :: "string option"
  shr_share_type :: share_type
  shr_description :: "string option"
  shr_concurrent_user_limit :: "int option"
  shr_caching_mode :: "string option"
  shr_is_special :: "bool option"

record share_ace_record = provenance +
  sar_ace_key :: string
  sar_share_key :: string
  sar_trustee_sid :: string
  sar_trustee_key :: string
  sar_ace_type :: ace_type
  sar_access_mask :: "int option"
  sar_permission :: "share_permission option"
  sar_right_token :: string
  sar_order_index :: "int option"

record ntfs_resource_record = provenance +
  nrr_resource_key :: string
  nrr_path :: string
  nrr_server_key :: string
  nrr_share_key :: string
  nrr_local_path :: "string option"
  nrr_owner_sid :: "string option"
  nrr_group_sid :: "string option"
  nrr_dacl_present :: bool
  nrr_dacl_protected :: bool
  nrr_inheritance_enabled :: bool
  nrr_is_acl_boundary :: bool
  nrr_ace_count :: int
  nrr_depth_from_share_root :: "int option"
  nrr_resource_kind :: resource_kind
  nrr_boundary_reason :: "acl_boundary_reason option"
  nrr_acl_hash :: "string option"
  nrr_parent_acl_hash :: "string option"

record ntfs_ace_record = provenance +
  nar_ace_key :: string
  nar_resource_key :: string
  nar_trustee_sid :: string
  nar_trustee_key :: string
  nar_ace_type :: ace_type
  nar_access_mask :: int
  nar_ace_flags :: nat
  nar_source :: ace_source
  nar_inherited_from :: "string option"
  nar_order_index :: "int option"


subsection \<open>What is derived from a record\<close>

definition share_domain :: "share_record \<Rightarrow> smb_share result" where
  "share_domain r = res_bind
     (case shr_local_path r of None \<Rightarrow> Inr None
      | Some t \<Rightarrow> if t = [] then Inr None else res_bind (parse_local_path t) (\<lambda>p. Inr (Some p)))
     (\<lambda>path. mk_smb_share \<lparr>sms_server_key = shr_server_key r, sms_name = shr_name r, sms_local_path = path,
        sms_share_type = shr_share_type r, sms_description = shr_description r,
        sms_concurrent_user_limit = shr_concurrent_user_limit r\<rparr>)"

definition share_unc_path :: "share_record \<Rightarrow> unc_path result" where
  "share_unc_path r = res_bind (share_domain r) smb_unc_path"

definition share_is_hidden :: "share_record \<Rightarrow> bool result" where
  "share_is_hidden r = res_bind (share_domain r) (\<lambda>s. Inr (is_hidden s))"

definition share_is_administrative :: "(string \<Rightarrow> string) \<Rightarrow> (char \<Rightarrow> bool) \<Rightarrow> share_record \<Rightarrow> bool result" where
  "share_is_administrative upper isalpha r = res_bind (share_domain r) (\<lambda>s. Inr (is_administrative upper isalpha s))"

definition share_carries_file_permissions :: "share_record \<Rightarrow> bool result" where
  "share_carries_file_permissions r = res_bind (share_domain r) (\<lambda>s. Inr (carries_file_permissions s))"

definition nrr_unc_path :: "ntfs_resource_record \<Rightarrow> unc_path result" where
  "nrr_unc_path r = parse_unc_path (nrr_path r)"

definition nrr_is_share_root :: "ntfs_resource_record \<Rightarrow> bool result" where
  "nrr_is_share_root r = res_bind (nrr_unc_path r) (\<lambda>p. Inr (unc_is_share_root p))"

definition nrr_parent_key :: "(string \<Rightarrow> string) \<Rightarrow> ntfs_resource_record \<Rightarrow> string option result" where
  "nrr_parent_key casefold r = res_bind (nrr_unc_path r) (\<lambda>p.
     case unc_parent p of None \<Rightarrow> Inr None
     | Some parent \<Rightarrow> res_bind parent (\<lambda>q. Inr (Some (unc_comparison_key casefold q))))"

definition nrr_is_container :: "ntfs_resource_record \<Rightarrow> bool" where
  "nrr_is_container r \<longleftrightarrow> nrr_resource_kind r = RK_DIRECTORY"

definition grants_everyone_full_access :: "ntfs_resource_record \<Rightarrow> bool" where
  "grants_everyone_full_access r \<longleftrightarrow> \<not> nrr_dacl_present r"

definition denies_everyone :: "ntfs_resource_record \<Rightarrow> bool" where
  "denies_everyone r \<longleftrightarrow> nrr_dacl_present r \<and> nrr_ace_count r = 0"

definition nar_is_inherited :: "ntfs_ace_record \<Rightarrow> bool" where
  "nar_is_inherited r \<longleftrightarrow> nar_source r = INHERITED"

definition nar_is_inheritable :: "ntfs_ace_record \<Rightarrow> bool" where
  "nar_is_inheritable r \<longleftrightarrow> has_flag (nar_ace_flags r) (AF_OBJECT_INHERIT OR AF_CONTAINER_INHERIT)"

definition nar_applies_to_this_object :: "ntfs_ace_record \<Rightarrow> bool" where
  "nar_applies_to_this_object r \<longleftrightarrow> \<not> has_flag (nar_ace_flags r) AF_INHERIT_ONLY"

definition acl_facts :: "ntfs_ace_record \<Rightarrow> acl_ace_facts result" where
  "acl_facts r = mk_acl_ace_facts (nar_trustee_sid r) (nar_ace_type r) (nar_access_mask r) (int (nar_ace_flags r)) (nar_order_index r)"

subsection \<open>The recomputed digest\<close>

record ntfs_acl_recomputation =
  rc_reported :: "string option"
  rc_normalized :: normalized_acl
  rc_stored_ace_count :: nat
  rc_declared_ace_count :: int
  rc_hashed_entries :: "acl_ace_facts list"

definition rc_computed :: "ntfs_acl_recomputation \<Rightarrow> string" where
  "rc_computed r = no_digest (rc_normalized r)"

definition rc_agrees :: "ntfs_acl_recomputation \<Rightarrow> bool option" where
  "rc_agrees r = map_option (\<lambda>h. h = rc_computed r) (rc_reported r)"

definition rc_ace_count_agrees :: "ntfs_acl_recomputation \<Rightarrow> bool" where
  "rc_ace_count_agrees r \<longleftrightarrow> int (rc_stored_ace_count r) = rc_declared_ace_count r"

text \<open>
  \<open>rows\<close> are the entries stored for the resource's own key, in ACL order. The second document is made
  when the first is refused, with every position dropped.
\<close>

definition recompute_acl_hash ::
  "(string \<Rightarrow> string) \<Rightarrow> ntfs_ace_record list \<Rightarrow> ntfs_resource_record \<Rightarrow> ntfs_acl_recomputation result" where
  "recompute_acl_hash sha rows resource =
     res_bind (res_map acl_facts rows) (\<lambda>entries.
       let hashed = (if \<not> nrr_dacl_present resource then [] else entries);
           present = nrr_dacl_present resource;
           prot = nrr_dacl_protected resource
       in res_bind
            (case normalize_acl sha present prot (map Inl hashed) of
               Inl (DomainValidationError f) \<Rightarrow> normalize_acl sha present prot (map (\<lambda>e. Inl (e\<lparr>af_order_index := None\<rparr>)) hashed)
             | r \<Rightarrow> r)
            (\<lambda>normalized. Inr \<lparr>rc_reported = nrr_acl_hash resource, rc_normalized = normalized,
               rc_stored_ace_count = length entries, rc_declared_ace_count = nrr_ace_count resource,
               rc_hashed_entries = hashed\<rparr>))"

subsection \<open>The boundary verdict\<close>

definition UNCOMPARED_BOUNDARY_REASONS :: "acl_boundary_reason set" where
  "UNCOMPARED_BOUNDARY_REASONS = {BR_SHARE_ROOT, BR_SCAN_ROOT, BR_PARENT_UNREADABLE, BR_PARENT_NULL_DACL}"

definition SETTLED_WITHOUT_A_PARENT :: "acl_boundary_reason set" where
  "SETTLED_WITHOUT_A_PARENT = {BR_PROTECTED_DACL, BR_NULL_DACL, BR_SHARE_ROOT}"

record ntfs_boundary_verification =
  bv_resource_key :: string
  bv_parent_key :: "string option"
  bv_parent_observed :: bool
  bv_parent :: "ntfs_resource_record option"
  bv_reported :: bool
  bv_reported_reason :: "acl_boundary_reason option"
  bv_reported_parent_acl_hash :: "string option"
  bv_resource_acl_hash :: string
  bv_parent_acl_hash :: "string option"
  bv_projected_child_acl_hash :: "string option"
  bv_computed_reason :: "acl_boundary_reason option"

definition projection_available :: "ntfs_boundary_verification \<Rightarrow> bool" where
  "projection_available v \<longleftrightarrow> bv_projected_child_acl_hash v \<noteq> None"

definition settled_without_the_parent :: "ntfs_boundary_verification \<Rightarrow> bool" where
  "settled_without_the_parent v \<longleftrightarrow> (\<exists>r \<in> SETTLED_WITHOUT_A_PARENT. bv_computed_reason v = Some r)"

definition bv_computed :: "ntfs_boundary_verification \<Rightarrow> bool option" where
  "bv_computed v =
     (if settled_without_the_parent v then Some True
      else if projection_available v then Some (bv_computed_reason v \<noteq> None) else None)"

definition bv_agrees :: "ntfs_boundary_verification \<Rightarrow> bool option" where
  "bv_agrees v = (case bv_computed v of None \<Rightarrow> None
     | Some c \<Rightarrow> if (\<exists>r \<in> UNCOMPARED_BOUNDARY_REASONS. bv_reported_reason v = Some r) then None else Some (bv_reported v = c))"

definition parent_acl_hash_agrees :: "ntfs_boundary_verification \<Rightarrow> bool option" where
  "parent_acl_hash_agrees v = (case (bv_reported_parent_acl_hash v, bv_parent_acl_hash v) of
     (Some a, Some b) \<Rightarrow> Some (a = b) | _ \<Rightarrow> None)"

text \<open>\<open>aces_of\<close> and \<open>get_resource\<close> are the two reads the verification makes.\<close>

definition verify_boundary ::
  "(string \<Rightarrow> string) \<Rightarrow> (string \<Rightarrow> string) \<Rightarrow> (string \<Rightarrow> ntfs_ace_record list)
   \<Rightarrow> (string \<Rightarrow> ntfs_resource_record option) \<Rightarrow> ntfs_resource_record \<Rightarrow> ntfs_boundary_verification result" where
  "verify_boundary sha casefold aces_of get_resource resource =
     res_bind (recompute_acl_hash sha (aces_of (nrr_resource_key resource)) resource) (\<lambda>own.
     res_bind (nrr_parent_key casefold resource) (\<lambda>parent_key.
       let parent = (case parent_key of None \<Rightarrow> None | Some k \<Rightarrow> get_resource k)
       in res_bind
            (case parent of None \<Rightarrow> Inr (None, None)
             | Some p \<Rightarrow> res_bind (recompute_acl_hash sha (aces_of (nrr_resource_key p)) p) (\<lambda>pa.
                 res_bind (inherited_child_acl_hash sha (nrr_dacl_present p) (map Inl (rc_hashed_entries pa)) (nrr_is_container resource))
                   (\<lambda>projection. Inr (Some (rc_computed pa), projection))))
            (\<lambda>(parent_digest, projection).
          res_bind (nrr_is_share_root resource) (\<lambda>root.
            Inr \<lparr>bv_resource_key = nrr_resource_key resource, bv_parent_key = parent_key,
                 bv_parent_observed = (parent \<noteq> None), bv_parent = parent,
                 bv_reported = nrr_is_acl_boundary resource, bv_reported_reason = nrr_boundary_reason resource,
                 bv_reported_parent_acl_hash = nrr_parent_acl_hash resource,
                 bv_resource_acl_hash = rc_computed own, bv_parent_acl_hash = parent_digest,
                 bv_projected_child_acl_hash = projection,
                 bv_computed_reason = boundary_reason_for root False (nrr_dacl_present resource)
                   (nrr_dacl_protected resource) (Some (rc_computed own)) (map_option nrr_dacl_present parent) projection\<rparr>))))"


subsection \<open>Both judgements always return\<close>

lemma ace_lines_unplaced: "\<exists>ls. ace_lines (map (\<lambda>e. e\<lparr>af_order_index := None\<rparr>) es) ordered = Inr ls"
  by (simp add: ace_lines_def filter_map comp_def)

lemma res_map_length: "res_map f xs = Inr ys \<Longrightarrow> length ys = length xs"
  by (induction xs arbitrary: ys) (auto simp: result_simps)

lemma normalize_failure:
  assumes "\<nexists>n. normalize_acl sha p q (map Inl es) = Inr n"
  shows "\<exists>f. normalize_acl sha p q (map Inl es) = Inl (DomainValidationError f)"
proof -
  have "res_map as_facts (map Inl es) = Inr es" by (induction es) (simp_all add: as_facts_def)
  with assms show ?thesis by (auto simp: normalize_acl_def ace_lines_def Let_def split: if_splits)
qed

definition normalized_stored :: "(string \<Rightarrow> string) \<Rightarrow> bool \<Rightarrow> bool \<Rightarrow> acl_ace_facts list \<Rightarrow> normalized_acl result" where
  "normalized_stored sha present prot es = (case normalize_acl sha present prot (map Inl es) of
     Inl (DomainValidationError f) \<Rightarrow> normalize_acl sha present prot (map (\<lambda>e. Inl (e\<lparr>af_order_index := None\<rparr>)) es)
   | r \<Rightarrow> r)"

lemma normalized_stored_total:
  assumes "present \<or> es = []"
  shows "\<exists>n. normalized_stored sha present prot es = Inr n \<and> no_digest n = sha (no_text n)
    \<and> (no_ordered n \<longrightarrow> distinct (map af_order_index es) \<and> is_ordered es)"
proof (cases "\<exists>n. normalize_acl sha present prot (map Inl es) = Inr n")
  case True
  then obtain n where n: "normalize_acl sha present prot (map Inl es) = Inr n" by blast
  then obtain ls where "ace_lines es (is_ordered es) = Inr ls" "no_digest n = sha (no_text n)" "no_ordered n = is_ordered es"
    unfolding normalize_acl_facts by auto
  moreover have "is_ordered es \<Longrightarrow> filter (\<lambda>e. af_order_index e \<noteq> None) es = es"
    by (auto simp: is_ordered_def list_all_iff filter_id_conv)
  ultimately show ?thesis using n by (auto simp: normalized_stored_def ace_lines_def split: if_splits)
next
  case False
  let ?es = "map (\<lambda>e. e\<lparr>af_order_index := None\<rparr>) es"
  obtain f where f: "normalize_acl sha present prot (map Inl es) = Inl (DomainValidationError f)"
    using normalize_failure [OF False] by blast
  obtain n where n: "normalize_acl sha present prot (map Inl ?es) = Inr n"
    using assms ace_lines_unplaced [of es "is_ordered ?es"] unfolding normalize_acl_facts by auto
  have "es \<noteq> []"
    using f by (auto simp: normalize_acl_def ace_lines_def is_ordered_def Let_def)
  then have "\<not> is_ordered ?es" by (cases es) (simp_all add: is_ordered_def)
  then have "no_digest n = sha (no_text n)" "\<not> no_ordered n" using n unfolding normalize_acl_facts by auto
  with n f show ?thesis by (auto simp: normalized_stored_def comp_def)
qed

lemma recompute_cases:
  assumes "res_map acl_facts rows = Inr entries"
  shows "\<exists>c. recompute_acl_hash sha rows r = Inr c \<and> rc_reported c = nrr_acl_hash r
    \<and> rc_stored_ace_count c = length rows \<and> rc_declared_ace_count c = nrr_ace_count r
    \<and> rc_hashed_entries c = (if nrr_dacl_present r then entries else [])
    \<and> normalized_stored sha (nrr_dacl_present r) (nrr_dacl_protected r) (rc_hashed_entries c) = Inr (rc_normalized c)"
proof -
  let ?h = "if nrr_dacl_present r then entries else []"
  have "nrr_dacl_present r \<or> ?h = []" by simp
  from normalized_stored_total [OF this, of sha "nrr_dacl_protected r"]
  obtain n where n: "normalized_stored sha (nrr_dacl_present r) (nrr_dacl_protected r) ?h = Inr n" by blast
  have "recompute_acl_hash sha rows r = res_bind (res_map acl_facts rows) (\<lambda>entries.
      let hashed = (if \<not> nrr_dacl_present r then [] else entries)
      in res_bind (normalized_stored sha (nrr_dacl_present r) (nrr_dacl_protected r) hashed) (\<lambda>normalized.
        Inr \<lparr>rc_reported = nrr_acl_hash r, rc_normalized = normalized, rc_stored_ace_count = length entries,
              rc_declared_ace_count = nrr_ace_count r, rc_hashed_entries = hashed\<rparr>))"
    by (simp add: recompute_acl_hash_def normalized_stored_def Let_def)
  then have "recompute_acl_hash sha rows r = Inr \<lparr>rc_reported = nrr_acl_hash r, rc_normalized = n,
      rc_stored_ace_count = length entries, rc_declared_ace_count = nrr_ace_count r, rc_hashed_entries = ?h\<rparr>"
    using assms n by (auto simp: Let_def)
  then show ?thesis using n res_map_length [OF assms] by simp
qed

text \<open>
  The server's digest of a directory's stored entries is always computed when each row is a
  valid entry, however the positions of the rows contradict each other. It counts every stored row;
  it is the digest of its own document; and a document that claims an order was made from entries
  that all have a position and no position twice.
\<close>

theorem recompute_always_returns:
  assumes "res_map acl_facts rows = Inr entries"
  shows "\<exists>c. recompute_acl_hash sha rows r = Inr c \<and> rc_stored_ace_count c = length rows
    \<and> rc_computed c = sha (no_text (rc_normalized c))
    \<and> (rc_agrees c = None \<longleftrightarrow> nrr_acl_hash r = None)
    \<and> (no_ordered (rc_normalized c) \<longrightarrow> distinct (map af_order_index (rc_hashed_entries c)) \<and> is_ordered (rc_hashed_entries c))"
proof -
  obtain c where c: "recompute_acl_hash sha rows r = Inr c" "rc_reported c = nrr_acl_hash r" "rc_stored_ace_count c = length rows"
      "rc_hashed_entries c = (if nrr_dacl_present r then entries else [])"
      "normalized_stored sha (nrr_dacl_present r) (nrr_dacl_protected r) (rc_hashed_entries c) = Inr (rc_normalized c)"
    using recompute_cases [OF assms] by blast
  with normalized_stored_total [of "nrr_dacl_present r" "rc_hashed_entries c" sha "nrr_dacl_protected r"]
  show ?thesis by (auto simp: rc_computed_def rc_agrees_def)
qed

definition sample_provenance :: provenance where
  "sample_provenance = \<lparr>pv_source_key = ''c'', pv_first_observed_at = 0, pv_first_observed_run_id = ''r'',
     pv_last_observed_at = 0, pv_last_observed_run_id = ''r''\<rparr>"

definition sample_ace :: "string \<Rightarrow> string \<Rightarrow> ace_type \<Rightarrow> int \<Rightarrow> int option \<Rightarrow> ntfs_ace_record" where
  "sample_ace key who kind access index = provenance.extend sample_provenance
     (ntfs_ace_record.fields key ''fs|d'' who who kind access 0 EXPLICIT None index)"

definition sample_dir :: "string \<Rightarrow> bool \<Rightarrow> bool \<Rightarrow> ntfs_resource_record" where
  "sample_dir path present prot = provenance.extend sample_provenance
     (ntfs_resource_record.fields path path ''fs'' ''fs|d'' None None None present prot True False 0 None RK_DIRECTORY None None None)"

text \<open>Two rows that both claim position 0.\<close>

theorem recompute_always_returns_witness:
  "\<exists>c. recompute_acl_hash id [sample_ace ''1'' ''S-1-5-21-7'' ALLOW 1 (Some 0), sample_ace ''2'' ''S-1-5-21-7'' DENY 1 (Some 0)]
      (sample_dir ''x'' True False) = Inr c \<and> rc_stored_ace_count c = 2"
proof -
  let ?rows = "[sample_ace ''1'' ''S-1-5-21-7'' ALLOW 1 (Some 0), sample_ace ''2'' ''S-1-5-21-7'' DENY 1 (Some 0)]"
  have one: "\<exists>e. acl_facts (sample_ace key ''S-1-5-21-7'' kind 1 (Some 0)) = Inr e" for key kind
    by (simp add: acl_facts_def sample_ace_def sample_provenance_def provenance.defs ntfs_ace_record.defs
        mk_acl_ace_facts_def sample_sid_parses MAX_ACCESS_MASK_def MAX_ACE_FLAGS_def negative_index_def)
  obtain e f where "acl_facts (sample_ace ''1'' ''S-1-5-21-7'' ALLOW 1 (Some 0)) = Inr e"
      "acl_facts (sample_ace ''2'' ''S-1-5-21-7'' DENY 1 (Some 0)) = Inr f" using one by blast
  then have "res_map acl_facts ?rows = Inr [e, f]" by simp
  from recompute_always_returns [OF this, of id "sample_dir ''x'' True False"] show ?thesis
    by (auto simp: numeral_2_eq_2)
qed

text \<open>The digest of what the stored entries of \<open>p\<close> hand down to a child, in the entries' own terms.\<close>

definition hands_down ::
  "(string \<Rightarrow> string) \<Rightarrow> (string \<Rightarrow> ntfs_ace_record list) \<Rightarrow> ntfs_resource_record \<Rightarrow> bool \<Rightarrow> string \<Rightarrow> bool" where
  "hands_down sha aces_of p container h \<longleftrightarrow> nrr_dacl_present p
     \<and> (\<exists>facts children n. res_map acl_facts (aces_of (nrr_resource_key p)) = Inr facts
          \<and> project_inherited_acl (map Inl facts) container = Inr children
          \<and> normalize_acl sha True False (map Inl children) = Inr n \<and> h = no_digest n)"

lemma inherited_hash_hands_down:
  assumes "recompute_acl_hash sha (aces_of (nrr_resource_key p)) p = Inr pa"
    and "inherited_child_acl_hash sha (nrr_dacl_present p) (map Inl (rc_hashed_entries pa)) container = Inr projection"
  shows "projection = Some h \<longleftrightarrow> hands_down sha aces_of p container h" "projection = None \<longleftrightarrow> \<not> nrr_dacl_present p"
proof -
  obtain facts where facts: "res_map acl_facts (aces_of (nrr_resource_key p)) = Inr facts"
      "rc_hashed_entries pa = (if \<not> nrr_dacl_present p then [] else facts)"
    using assms(1) by (auto simp: recompute_acl_hash_def Let_def result_simps)
  show "projection = Some h \<longleftrightarrow> hands_down sha aces_of p container h" "projection = None \<longleftrightarrow> \<not> nrr_dacl_present p"
    using assms(2) facts
    by (auto simp: hands_down_def inherited_child_acl_hash_def projected_child_acl_def result_simps split: if_splits)
qed

lemma verify_boundary_cases:
  assumes "verify_boundary sha casefold aces_of get_resource r = Inr v"
  obtains own root parent parent_digest where
    "recompute_acl_hash sha (aces_of (nrr_resource_key r)) r = Inr own" "bv_resource_acl_hash v = rc_computed own"
    "nrr_is_share_root r = Inr root" "nrr_parent_key casefold r = Inr (bv_parent_key v)"
    "bv_parent v = Option.bind (bv_parent_key v) get_resource"
    "bv_parent_observed v = (bv_parent v \<noteq> None)"
    "bv_computed_reason v = boundary_reason_for root False (nrr_dacl_present r) (nrr_dacl_protected r)
       (Some (rc_computed own)) (map_option nrr_dacl_present (bv_parent v)) (bv_projected_child_acl_hash v)"
    "\<And>h. bv_projected_child_acl_hash v = Some h \<longleftrightarrow> (\<exists>p. bv_parent v = Some p \<and> hands_down sha aces_of p (nrr_is_container r) h)"
    "bv_projected_child_acl_hash v = None \<longleftrightarrow> (\<forall>p. bv_parent v = Some p \<longrightarrow> \<not> nrr_dacl_present p)"
proof -
  from assms obtain own parent_key where own: "recompute_acl_hash sha (aces_of (nrr_resource_key r)) r = Inr own"
    and pk: "nrr_parent_key casefold r = Inr parent_key" by (auto simp: verify_boundary_def result_simps)
  let ?parent = "Option.bind parent_key get_resource"
  have parent: "(case parent_key of None \<Rightarrow> None | Some k \<Rightarrow> get_resource k) = ?parent" by (cases parent_key) auto
  from assms own pk obtain digest projection root where
      dp: "(case ?parent of None \<Rightarrow> Inr (None, None)
             | Some p \<Rightarrow> res_bind (recompute_acl_hash sha (aces_of (nrr_resource_key p)) p) (\<lambda>pa.
                 res_bind (inherited_child_acl_hash sha (nrr_dacl_present p) (map Inl (rc_hashed_entries pa)) (nrr_is_container r))
                   (\<lambda>projection. Inr (Some (rc_computed pa), projection)))) = Inr (digest, projection)"
    and root: "nrr_is_share_root r = Inr root"
    and v: "v = \<lparr>bv_resource_key = nrr_resource_key r, bv_parent_key = parent_key,
                 bv_parent_observed = (?parent \<noteq> None), bv_parent = ?parent,
                 bv_reported = nrr_is_acl_boundary r, bv_reported_reason = nrr_boundary_reason r,
                 bv_reported_parent_acl_hash = nrr_parent_acl_hash r,
                 bv_resource_acl_hash = rc_computed own, bv_parent_acl_hash = digest,
                 bv_projected_child_acl_hash = projection,
                 bv_computed_reason = boundary_reason_for root False (nrr_dacl_present r)
                   (nrr_dacl_protected r) (Some (rc_computed own)) (map_option nrr_dacl_present ?parent) projection\<rparr>"
    unfolding verify_boundary_def Let_def parent [symmetric] by (auto simp: result_simps)
  have "projection = Some h \<longleftrightarrow> (\<exists>p. ?parent = Some p \<and> hands_down sha aces_of p (nrr_is_container r) h)"
    "projection = None \<longleftrightarrow> (\<forall>p. ?parent = Some p \<longrightarrow> \<not> nrr_dacl_present p)" for h
  proof (atomize (full), cases ?parent)
    case None
    then show "(projection = Some h \<longleftrightarrow> (\<exists>p. ?parent = Some p \<and> hands_down sha aces_of p (nrr_is_container r) h))
      \<and> (projection = None \<longleftrightarrow> (\<forall>p. ?parent = Some p \<longrightarrow> \<not> nrr_dacl_present p))" using dp by auto
  next
    case (Some p)
    then obtain pa where pa: "recompute_acl_hash sha (aces_of (nrr_resource_key p)) p = Inr pa"
      "inherited_child_acl_hash sha (nrr_dacl_present p) (map Inl (rc_hashed_entries pa)) (nrr_is_container r) = Inr projection"
      using dp by (auto simp: result_simps)
    from inherited_hash_hands_down [of sha aces_of p pa "nrr_is_container r" projection, OF this] Some
    show "(projection = Some h \<longleftrightarrow> (\<exists>p. ?parent = Some p \<and> hands_down sha aces_of p (nrr_is_container r) h))
      \<and> (projection = None \<longleftrightarrow> (\<forall>p. ?parent = Some p \<longrightarrow> \<not> nrr_dacl_present p))" by simp
  qed
  then show thesis using that [OF own] own root pk v by simp
qed

lemma unknown_is_a_boundary_rule:
  "boundary_reason_for share_root scan_root present prot own parent_present projection = None
   \<longleftrightarrow> \<not> prot \<and> present \<and> \<not> share_root \<and> \<not> scan_root \<and> parent_present = Some True
       \<and> (\<exists>h. own = Some h \<and> projection = Some h)"
  by (auto simp: boundary_reason_for_def split: option.splits)

text \<open>
  C24. The boundary verdict the server redoes. The digest it compares is that of the directory's own
  stored entries, and the projected one is the digest of what the stored entries of the stored parent
  hand down to a child of the directory's kind, there exactly when that parent was read and has a
  DACL. It says that a directory is no boundary exactly when the directory lies below its share's
  root, its DACL is present and unprotected, and the two digests are there and equal; it withholds a
  verdict exactly when the directory lies below its root with a present, unprotected DACL and its
  parent was not read or has a NULL DACL; and it contradicts a collector only where the collector's
  own reason says that a comparison was made.
\<close>

theorem server_boundary_verdict:
  assumes "verify_boundary sha casefold aces_of get_resource r = Inr v"
  shows "(\<exists>own. recompute_acl_hash sha (aces_of (nrr_resource_key r)) r = Inr own \<and> bv_resource_acl_hash v = rc_computed own)
    \<and> nrr_parent_key casefold r = Inr (bv_parent_key v) \<and> bv_parent v = Option.bind (bv_parent_key v) get_resource
    \<and> (\<forall>h. bv_projected_child_acl_hash v = Some h \<longleftrightarrow> (\<exists>p. bv_parent v = Some p \<and> hands_down sha aces_of p (nrr_is_container r) h))
    \<and> (bv_computed v = Some False \<longleftrightarrow> nrr_is_share_root r = Inr False \<and> nrr_dacl_present r \<and> \<not> nrr_dacl_protected r
        \<and> (\<exists>p. bv_parent v = Some p \<and> nrr_dacl_present p) \<and> bv_projected_child_acl_hash v = Some (bv_resource_acl_hash v))
    \<and> (bv_computed v = None \<longleftrightarrow> nrr_is_share_root r = Inr False \<and> nrr_dacl_present r \<and> \<not> nrr_dacl_protected r
        \<and> (\<forall>p. bv_parent v = Some p \<longrightarrow> \<not> nrr_dacl_present p))
    \<and> (bv_agrees v = Some False \<longrightarrow> bv_computed v \<noteq> None
        \<and> (nrr_boundary_reason r = None \<or> (\<exists>b. nrr_boundary_reason r = Some b \<and> b \<notin> UNCOMPARED_BOUNDARY_REASONS)))"
proof -
  obtain own root where own: "recompute_acl_hash sha (aces_of (nrr_resource_key r)) r = Inr own"
    and c: "bv_resource_acl_hash v = rc_computed own" "nrr_is_share_root r = Inr root"
      "bv_computed_reason v = boundary_reason_for root False (nrr_dacl_present r) (nrr_dacl_protected r)
         (Some (rc_computed own)) (map_option nrr_dacl_present (bv_parent v)) (bv_projected_child_acl_hash v)"
    and parent: "nrr_parent_key casefold r = Inr (bv_parent_key v)" "bv_parent v = Option.bind (bv_parent_key v) get_resource"
    and projection: "\<And>h. bv_projected_child_acl_hash v = Some h \<longleftrightarrow> (\<exists>p. bv_parent v = Some p \<and> hands_down sha aces_of p (nrr_is_container r) h)"
      "bv_projected_child_acl_hash v = None \<longleftrightarrow> (\<forall>p. bv_parent v = Some p \<longrightarrow> \<not> nrr_dacl_present p)"
    by (rule verify_boundary_cases [OF assms]) (rule that, assumption+)
  have reported: "bv_reported_reason v = nrr_boundary_reason r"
    using assms by (auto simp: verify_boundary_def result_simps Let_def split: option.splits)
  have settled: "settled_without_the_parent v \<longleftrightarrow> nrr_dacl_protected r \<or> \<not> nrr_dacl_present r \<or> root"
    by (auto simp: settled_without_the_parent_def SETTLED_WITHOUT_A_PARENT_def c(3) boundary_reason_for_def split: option.splits)
  have "bv_computed_reason v = None \<longleftrightarrow> \<not> nrr_dacl_protected r \<and> nrr_dacl_present r \<and> \<not> root
      \<and> (\<exists>p. bv_parent v = Some p \<and> nrr_dacl_present p) \<and> bv_projected_child_acl_hash v = Some (bv_resource_acl_hash v)"
    unfolding c(1,3) unknown_is_a_boundary_rule by auto
  then have verdict: "(bv_computed v = Some False \<longleftrightarrow> \<not> root \<and> nrr_dacl_present r \<and> \<not> nrr_dacl_protected r
        \<and> (\<exists>p. bv_parent v = Some p \<and> nrr_dacl_present p) \<and> bv_projected_child_acl_hash v = Some (bv_resource_acl_hash v))"
    "bv_computed v = None \<longleftrightarrow> \<not> root \<and> nrr_dacl_present r \<and> \<not> nrr_dacl_protected r \<and> bv_projected_child_acl_hash v = None"
    unfolding bv_computed_def settled projection_available_def by auto
  have "bv_agrees v = Some False \<Longrightarrow> bv_computed v \<noteq> None
      \<and> (nrr_boundary_reason r = None \<or> (\<exists>b. nrr_boundary_reason r = Some b \<and> b \<notin> UNCOMPARED_BOUNDARY_REASONS))"
    unfolding bv_agrees_def reported by (cases "nrr_boundary_reason r") (auto split: option.splits if_splits)
  then show ?thesis using verdict(2) unfolding verdict(1) projection(2) using own c(1,2) parent projection(1) by auto
qed


text \<open>A directory whose parent nobody read.\<close>

theorem server_boundary_verdict_witness:
  "\<exists>v. verify_boundary id id (\<lambda>_. []) (\<lambda>_. None) (sample_dir [sep, sep, CHR ''s'', sep, CHR ''d'', sep, CHR ''a''] True False) = Inr v
     \<and> bv_computed v = None"
proof -
  let ?r = "sample_dir [sep, sep, CHR ''s'', sep, CHR ''d'', sep, CHR ''a''] True False"
  have "case verify_boundary id id (\<lambda>_. []) (\<lambda>_. None) ?r of Inl e \<Rightarrow> False
      | Inr v \<Rightarrow> bv_projected_child_acl_hash v = None \<and> nrr_is_share_root ?r = Inr False \<and> nrr_dacl_present ?r \<and> \<not> nrr_dacl_protected ?r"
    by code_simp
  then obtain v where "verify_boundary id id (\<lambda>_. []) (\<lambda>_. None) ?r = Inr v" "bv_projected_child_acl_hash v = None"
      "nrr_is_share_root ?r = Inr False" "nrr_dacl_present ?r" "\<not> nrr_dacl_protected ?r" by (auto split: sum.splits)
  then show ?thesis using server_boundary_verdict [of id id "\<lambda>_. []" "\<lambda>_. None" ?r v] by auto
qed

end
