(* ===== verification/Adg_Store.thy ===== *)
theory Adg_Store
  imports Adg_Resources Adg_Graph
begin

section \<open>The read side of the database (app/repositories/resources.py, app/repositories/membership.py)\<close>

text \<open>
  The tables as lists of the records their rows become, and the queries over them. Text in the
  database is ordered by its collation, and texts the collation does not separate by their bytes
  (what PostgreSQL does for a deterministic collation), so the order key is a pair; \<open>coll\<close> is a
  parameter. A dictionary of a query is a map.
\<close>

subsection \<open>Tables\<close>

record principal_record =
  pn_principal_key :: string
  pn_sid :: string
  pn_principal_kind :: principal_kind
  pn_host_key :: "string option"
  pn_domain_sid :: "string option"
  pn_display_name :: "string option"
  pn_sam_account_name :: "string option"
  pn_user_principal_name :: "string option"
  pn_distinguished_name :: "string option"
  pn_group_scope :: "string option"
  pn_group_type :: "string option"
  pn_enabled :: "bool option"
  pn_is_deleted :: bool
  pn_unresolved_reason :: "string option"
  pn_last_known_name :: "string option"
  pn_first_observed_at :: int
  pn_first_observed_run_id :: string
  pn_last_observed_at :: int
  pn_last_observed_run_id :: string

definition pn_is_group :: "principal_record \<Rightarrow> bool" where
  "pn_is_group r \<longleftrightarrow> pn_principal_kind r \<in> {PK_DOMAIN_GROUP, PK_LOCAL_GROUP}"

text \<open>One row of the membership table: the edge and when it was seen.\<close>

record membership_row =
  mr_edge :: graph_edge
  mr_first_observed_at :: int
  mr_last_observed_at :: int
  mr_last_observed_run_id :: string

datatype reference_kind = RF_SMB_ACE | RF_NTFS_ACE

record principal_reference =
  pf_principal_key :: string
  pf_reference_kind :: reference_kind
  pf_reference_key :: string

record store =
  st_servers :: "server_record list"
  st_shares :: "share_record list"
  st_share_aces :: "share_ace_record list"
  st_resources :: "ntfs_resource_record list"
  st_ntfs_aces :: "ntfs_ace_record list"
  st_references :: "principal_reference list"
  st_principals :: "principal_record list"
  st_memberships :: "membership_row list"

subsection \<open>Order, limits and pages\<close>

definition db_order :: "(string \<Rightarrow> 'c) \<Rightarrow> string \<Rightarrow> 'c \<times> string" where
  "db_order coll s = (coll s, s)"

definition MAX_PAGE_SIZE :: int where "MAX_PAGE_SIZE = 500"
definition DEFAULT_PAGE_SIZE :: int where "DEFAULT_PAGE_SIZE = 100"
definition MAX_ACL_FETCH :: nat where "MAX_ACL_FETCH = 4096"

definition page_size :: "int \<Rightarrow> nat" where
  "page_size limit = nat (max 1 (min limit MAX_PAGE_SIZE))"

record 'a page =
  pg_items :: "'a list"
  pg_has_more :: bool
  pg_next_key :: "string option"

definition mk_page :: "'a list \<Rightarrow> nat \<Rightarrow> ('a \<Rightarrow> string) \<Rightarrow> 'a page" where
  "mk_page rows n key_of =
     (let has_more = n < length rows; items = take n rows
      in \<lparr>pg_items = items, pg_has_more = has_more,
          pg_next_key = (if has_more \<and> items \<noteq> [] then Some (key_of (last items)) else None)\<rparr>)"

text \<open>\<open>select(...).where(key > after).order_by(key).limit(size + 1)\<close>\<close>

definition after_key :: "(string \<Rightarrow> 'c::linorder) \<Rightarrow> string option \<Rightarrow> string \<Rightarrow> bool" where
  "after_key coll after k \<longleftrightarrow> (case after of None \<Rightarrow> True | Some a \<Rightarrow> db_order coll a < db_order coll k)"

definition keyset_rows :: "(string \<Rightarrow> 'c::linorder) \<Rightarrow> ('a \<Rightarrow> string) \<Rightarrow> string option \<Rightarrow> nat \<Rightarrow> 'a list \<Rightarrow> 'a list" where
  "keyset_rows coll key after n rows =
     take (Suc n) (sort_key (\<lambda>r. db_order coll (key r)) (filter (\<lambda>r. after_key coll after (key r)) rows))"

text \<open>The entries of one ACL: position first, entries without one last, ties by the entry's key.\<close>

definition acl_position :: "int option \<Rightarrow> bool \<times> int" where
  "acl_position index = (case index of None \<Rightarrow> (True, 0) | Some i \<Rightarrow> (False, i))"

definition ntfs_acl_order :: "(string \<Rightarrow> 'c::linorder) \<Rightarrow> ntfs_ace_record \<Rightarrow> (bool \<times> int) \<times> 'c \<times> string" where
  "ntfs_acl_order coll r = (acl_position (nar_order_index r), db_order coll (nar_ace_key r))"

definition share_acl_order :: "(string \<Rightarrow> 'c::linorder) \<Rightarrow> share_ace_record \<Rightarrow> (bool \<times> int) \<times> 'c \<times> string" where
  "share_acl_order coll r = (acl_position (sar_order_index r), db_order coll (sar_ace_key r))"

definition ntfs_acl_rows :: "(string \<Rightarrow> 'c::linorder) \<Rightarrow> store \<Rightarrow> string \<Rightarrow> ntfs_ace_record list" where
  "ntfs_acl_rows coll db key = sort_key (ntfs_acl_order coll) (filter (\<lambda>r. nar_resource_key r = key) (st_ntfs_aces db))"

definition share_acl_rows :: "(string \<Rightarrow> 'c::linorder) \<Rightarrow> store \<Rightarrow> string \<Rightarrow> share_ace_record list" where
  "share_acl_rows coll db key = sort_key (share_acl_order coll) (filter (\<lambda>r. sar_share_key r = key) (st_share_aces db))"

subsection \<open>Servers and shares\<close>

definition with_share_count :: "store \<Rightarrow> server_record \<Rightarrow> server_record" where
  "with_share_count db s = s\<lparr>svr_share_count := length (filter (\<lambda>h. shr_server_key h = svr_server_key s) (st_shares db))\<rparr>"

definition list_servers :: "(string \<Rightarrow> 'c::linorder) \<Rightarrow> store \<Rightarrow> int \<Rightarrow> string option \<Rightarrow> server_record page" where
  "list_servers coll db limit after =
     mk_page (map (with_share_count db) (keyset_rows coll svr_server_key after (page_size limit) (st_servers db)))
       (page_size limit) svr_server_key"

definition get_server :: "(string \<Rightarrow> string) \<Rightarrow> store \<Rightarrow> string \<Rightarrow> server_record option" where
  "get_server cf db key = map_option (with_share_count db) (find (\<lambda>s. svr_server_key s = cf key) (st_servers db))"

definition count_servers :: "store \<Rightarrow> nat" where "count_servers db = length (st_servers db)"

definition by_keys :: "('a \<Rightarrow> string) \<Rightarrow> 'a list \<Rightarrow> string list \<Rightarrow> string \<rightharpoonup> 'a" where
  "by_keys key rows keys = map_of (map (\<lambda>r. (key r, r)) (filter (\<lambda>r. key r \<in> set keys) rows))"

definition servers_by_keys :: "store \<Rightarrow> string list \<Rightarrow> string \<rightharpoonup> server_record" where
  "servers_by_keys db keys = by_keys svr_server_key (map (with_share_count db) (st_servers db)) keys"

definition list_shares :: "(string \<Rightarrow> string) \<Rightarrow> (string \<Rightarrow> 'c::linorder) \<Rightarrow> store \<Rightarrow> string \<Rightarrow> int \<Rightarrow> string option \<Rightarrow> share_record page" where
  "list_shares cf coll db server limit after =
     mk_page (keyset_rows coll shr_share_key after (page_size limit) (filter (\<lambda>h. shr_server_key h = cf server) (st_shares db)))
       (page_size limit) shr_share_key"

definition count_shares :: "(string \<Rightarrow> string) \<Rightarrow> store \<Rightarrow> string \<Rightarrow> nat" where
  "count_shares cf db server = length (filter (\<lambda>h. shr_server_key h = cf server) (st_shares db))"

definition get_share :: "(string \<Rightarrow> string) \<Rightarrow> store \<Rightarrow> string \<Rightarrow> share_record option" where
  "get_share cf db key = find (\<lambda>h. shr_share_key h = cf key) (st_shares db)"

definition shares_by_keys :: "store \<Rightarrow> string list \<Rightarrow> string \<rightharpoonup> share_record" where
  "shares_by_keys db keys = by_keys shr_share_key (st_shares db) keys"

definition has_aces :: "(string \<Rightarrow> string) \<Rightarrow> store \<Rightarrow> string \<Rightarrow> bool" where
  "has_aces cf db key \<longleftrightarrow> list_ex (\<lambda>r. sar_share_key r = cf key) (st_share_aces db)"

text \<open>Offset pages of one ACL; the flag says that more entries follow.\<close>

definition offset_page :: "int \<Rightarrow> int \<Rightarrow> 'a list \<Rightarrow> 'a list \<times> bool" where
  "offset_page limit offset rows =
     (let n = page_size limit; got = take (Suc n) (drop (nat (max 0 offset)) rows)
      in (take n got, n < length got))"

definition share_acl :: "(string \<Rightarrow> string) \<Rightarrow> (string \<Rightarrow> 'c::linorder) \<Rightarrow> store \<Rightarrow> string \<Rightarrow> int \<Rightarrow> int \<Rightarrow> share_ace_record list \<times> bool" where
  "share_acl cf coll db key limit offset = offset_page limit offset (share_acl_rows coll db (cf key))"

definition count_acl :: "(string \<Rightarrow> string) \<Rightarrow> store \<Rightarrow> string \<Rightarrow> nat" where
  "count_acl cf db key = length (filter (\<lambda>r. sar_share_key r = cf key) (st_share_aces db))"

subsection \<open>Directories and their entries\<close>

definition get_ntfs_resource :: "(string \<Rightarrow> string) \<Rightarrow> store \<Rightarrow> string \<Rightarrow> ntfs_resource_record option" where
  "get_ntfs_resource cf db key = find (\<lambda>r. nrr_resource_key r = cf key) (st_resources db)"

definition share_root_key :: "(string \<Rightarrow> string) \<Rightarrow> string \<Rightarrow> string result" where
  "share_root_key cf key =
     (let server = takeWhile (\<lambda>c. c \<noteq> CHR ''|'') key; rest = dropWhile (\<lambda>c. c \<noteq> CHR ''|'') key
      in if rest = [] \<or> server = [] \<or> tl rest = [] then Inl ValueError
         else res_bind (mk_unc_path server (tl rest) []) (\<lambda>p. Inr (unc_comparison_key cf p)))"

definition get_share_root_resource :: "(string \<Rightarrow> string) \<Rightarrow> store \<Rightarrow> string \<Rightarrow> ntfs_resource_record option result" where
  "get_share_root_resource cf db key = res_bind (share_root_key cf key) (\<lambda>k. Inr (get_ntfs_resource cf db k))"

definition ntfs_resources_by_keys :: "(string \<Rightarrow> string) \<Rightarrow> store \<Rightarrow> string list \<Rightarrow> string \<rightharpoonup> ntfs_resource_record" where
  "ntfs_resources_by_keys cf db keys = by_keys nrr_resource_key (st_resources db) (map cf keys)"

definition has_ntfs_aces :: "(string \<Rightarrow> string) \<Rightarrow> store \<Rightarrow> string \<Rightarrow> bool" where
  "has_ntfs_aces cf db key \<longleftrightarrow> list_ex (\<lambda>r. nar_resource_key r = cf key) (st_ntfs_aces db)"

definition ntfs_acl :: "(string \<Rightarrow> string) \<Rightarrow> (string \<Rightarrow> 'c::linorder) \<Rightarrow> store \<Rightarrow> string \<Rightarrow> int \<Rightarrow> int \<Rightarrow> ntfs_ace_record list \<times> bool" where
  "ntfs_acl cf coll db key limit offset = offset_page limit offset (ntfs_acl_rows coll db (cf key))"

definition count_ntfs_acl :: "(string \<Rightarrow> string) \<Rightarrow> store \<Rightarrow> string \<Rightarrow> nat" where
  "count_ntfs_acl cf db key = length (filter (\<lambda>r. nar_resource_key r = cf key) (st_ntfs_aces db))"

definition stored_recompute :: "(string \<Rightarrow> string) \<Rightarrow> (string \<Rightarrow> 'c::linorder) \<Rightarrow> store \<Rightarrow> ntfs_resource_record \<Rightarrow> ntfs_acl_recomputation result" where
  "stored_recompute sha coll db r = recompute_acl_hash sha (ntfs_acl_rows coll db (nrr_resource_key r)) r"

definition stored_verify :: "(string \<Rightarrow> string) \<Rightarrow> (string \<Rightarrow> string) \<Rightarrow> (string \<Rightarrow> 'c::linorder) \<Rightarrow> store \<Rightarrow> ntfs_resource_record \<Rightarrow> ntfs_boundary_verification result" where
  "stored_verify sha cf coll db r = verify_boundary sha cf (ntfs_acl_rows coll db) (get_ntfs_resource cf db) r"


subsection \<open>Who is named where\<close>

datatype trustee_query = By_key string | By_sid string

text \<open>\<open>_trustee_predicate\<close>: a key is asked for before a SID; neither is a programming error.\<close>

definition trustee_query :: "string option \<Rightarrow> sid option \<Rightarrow> trustee_query result" where
  "trustee_query key sid = (case key of Some k \<Rightarrow> Inr (By_key k)
     | None \<Rightarrow> (case sid of Some s \<Rightarrow> Inr (By_sid (sid_value s)) | None \<Rightarrow> Inl ValueError))"

definition trustee_predicate :: "trustee_query \<Rightarrow> share_ace_record \<Rightarrow> bool" where
  "trustee_predicate q r \<longleftrightarrow> (case q of By_key k \<Rightarrow> sar_trustee_key r = k | By_sid s \<Rightarrow> sar_trustee_sid r = s)"

record share_reference_record =
  shf_share_key :: string
  shf_share :: "share_record option"
  shf_aces :: "share_ace_record list"

definition referencing_keys :: "store \<Rightarrow> trustee_query \<Rightarrow> string list" where
  "referencing_keys db q = dict_fromkeys (map sar_share_key (filter (trustee_predicate q) (st_share_aces db)))"

definition shares_referencing ::
  "(string \<Rightarrow> 'c::linorder) \<Rightarrow> store \<Rightarrow> string option \<Rightarrow> sid option \<Rightarrow> int \<Rightarrow> string option \<Rightarrow> share_reference_record page result" where
  "shares_referencing coll db key sid limit after = res_bind (trustee_query key sid) (\<lambda>q.
     let n = page_size limit;
         keys = keyset_rows coll (\<lambda>k. k) after n (referencing_keys db q);
         visible = take n keys;
         items = map (\<lambda>k. \<lparr>shf_share_key = k, shf_share = shares_by_keys db visible k,
                   shf_aces = filter (trustee_predicate q) (share_acl_rows coll db k)\<rparr>) visible;
         has_more = n < length keys
     in if visible = [] then Inr \<lparr>pg_items = [], pg_has_more = False, pg_next_key = None\<rparr>
        else Inr \<lparr>pg_items = items, pg_has_more = has_more,
                  pg_next_key = (if has_more then Some (shf_share_key (last items)) else None)\<rparr>)"

definition count_shares_referencing :: "store \<Rightarrow> string option \<Rightarrow> sid option \<Rightarrow> nat result" where
  "count_shares_referencing db key sid = res_bind (trustee_query key sid) (\<lambda>q. Inr (length (referencing_keys db q)))"

definition reference_keys_for :: "(string \<Rightarrow> 'c::linorder) \<Rightarrow> store \<Rightarrow> string \<Rightarrow> string list" where
  "reference_keys_for coll db key = sort_key (db_order coll)
     (map pf_reference_key (filter (\<lambda>f. pf_principal_key f = key \<and> pf_reference_kind f = RF_SMB_ACE) (st_references db)))"

subsection \<open>Whole ACLs\<close>

definition full_ntfs_acl :: "(string \<Rightarrow> string) \<Rightarrow> (string \<Rightarrow> 'c::linorder) \<Rightarrow> store \<Rightarrow> string \<Rightarrow> nat \<Rightarrow> ntfs_ace_record list" where
  "full_ntfs_acl cf coll db key limit = take (Suc (max 1 limit)) (ntfs_acl_rows coll db (cf key))"

definition full_share_acl :: "(string \<Rightarrow> string) \<Rightarrow> (string \<Rightarrow> 'c::linorder) \<Rightarrow> store \<Rightarrow> string \<Rightarrow> nat \<Rightarrow> share_ace_record list" where
  "full_share_acl cf coll db key limit = take (Suc (max 1 limit)) (share_acl_rows coll db (cf key))"

text \<open>\<open>_group_by_key\<close>: one row past the limit is kept for each key.\<close>

fun group_rows :: "('a \<Rightarrow> string) \<Rightarrow> nat \<Rightarrow> 'a list \<Rightarrow> (string \<rightharpoonup> 'a list) \<Rightarrow> string \<rightharpoonup> 'a list" where
  "group_rows key limit [] grouped = grouped"
| "group_rows key limit (r # rs) grouped =
     (let bucket = (case grouped (key r) of None \<Rightarrow> [] | Some b \<Rightarrow> b)
      in group_rows key limit rs (grouped(key r \<mapsto> (if length bucket \<le> limit then bucket @ [r] else bucket))))"

definition ntfs_acls_for :: "(string \<Rightarrow> string) \<Rightarrow> (string \<Rightarrow> 'c::linorder) \<Rightarrow> store \<Rightarrow> string list \<Rightarrow> nat \<Rightarrow> string \<rightharpoonup> ntfs_ace_record list" where
  "ntfs_acls_for cf coll db keys limit = group_rows nar_resource_key limit
     (sort_key (\<lambda>r. (db_order coll (nar_resource_key r), ntfs_acl_order coll r))
       (filter (\<lambda>r. nar_resource_key r \<in> cf ` set keys) (st_ntfs_aces db))) Map.empty"

definition share_acls_for :: "(string \<Rightarrow> string) \<Rightarrow> (string \<Rightarrow> 'c::linorder) \<Rightarrow> store \<Rightarrow> string list \<Rightarrow> nat \<Rightarrow> string \<rightharpoonup> share_ace_record list" where
  "share_acls_for cf coll db keys limit = group_rows sar_share_key limit
     (sort_key (\<lambda>r. (db_order coll (sar_share_key r), share_acl_order coll r))
       (filter (\<lambda>r. sar_share_key r \<in> cf ` set keys) (st_share_aces db))) Map.empty"

subsection \<open>Candidates for one principal\<close>

text \<open>\<open>_still_named\<close>: a reference counts while an entry it stands for is stored. \<open>union\<close> removes duplicates.\<close>

definition still_named_ntfs :: "store \<Rightarrow> principal_reference \<Rightarrow> bool" where
  "still_named_ntfs db f \<longleftrightarrow>
     list_ex (\<lambda>r. nar_resource_key r = pf_reference_key f \<and> nar_trustee_key r = pf_principal_key f) (st_ntfs_aces db)"

definition still_named_share :: "store \<Rightarrow> principal_reference \<Rightarrow> bool" where
  "still_named_share db f \<longleftrightarrow>
     list_ex (\<lambda>r. sar_share_key r = pf_reference_key f \<and> sar_trustee_key r = pf_principal_key f) (st_share_aces db)"

definition resource_candidates :: "store \<Rightarrow> string list \<Rightarrow> string list" where
  "resource_candidates db keys = dict_fromkeys
     (map pf_reference_key (filter (\<lambda>f. pf_principal_key f \<in> set keys \<and> pf_reference_kind f = RF_NTFS_ACE \<and> still_named_ntfs db f)
        (st_references db))
      @ map nrr_resource_key (filter (\<lambda>r. \<not> nrr_dacl_present r) (st_resources db)))"

text \<open>The share query has no \<open>union\<close> and no \<open>distinct\<close>: one row for each reference.\<close>

definition share_candidates :: "store \<Rightarrow> string list \<Rightarrow> string list" where
  "share_candidates db keys =
     map pf_reference_key (filter (\<lambda>f. pf_principal_key f \<in> set keys \<and> pf_reference_kind f = RF_SMB_ACE \<and> still_named_share db f)
       (st_references db))"

definition candidate_page :: "(string \<Rightarrow> 'c::linorder) \<Rightarrow> string list \<Rightarrow> nat \<Rightarrow> string option \<Rightarrow> string page" where
  "candidate_page coll source n after = mk_page (keyset_rows coll (\<lambda>k. k) after n source) n (\<lambda>k. k)"

definition resources_named_by :: "(string \<Rightarrow> 'c::linorder) \<Rightarrow> store \<Rightarrow> string list \<Rightarrow> int \<Rightarrow> string option \<Rightarrow> string page" where
  "resources_named_by coll db keys limit after =
     (if keys = [] then \<lparr>pg_items = [], pg_has_more = False, pg_next_key = None\<rparr>
      else candidate_page coll (resource_candidates db keys) (page_size limit) after)"

definition shares_named_by :: "(string \<Rightarrow> 'c::linorder) \<Rightarrow> store \<Rightarrow> string list \<Rightarrow> int \<Rightarrow> string option \<Rightarrow> string page" where
  "shares_named_by coll db keys limit after =
     (if keys = [] then \<lparr>pg_items = [], pg_has_more = False, pg_next_key = None\<rparr>
      else candidate_page coll (share_candidates db keys) (page_size limit) after)"


subsection \<open>Keyset pages\<close>

text \<open>What a listing promises when two rows with one key are one row: nothing is skipped between pages.\<close>

lemma sorted_map_last: "sorted (map f xs) \<Longrightarrow> r \<in> set xs \<Longrightarrow> f r \<le> f (last xs)"
  by (induction xs rule: rev_induct) (auto simp: sorted_append)

locale keyset_source =
  fixes key :: "'a \<Rightarrow> string" and rows :: "'a list"
  assumes one_per_key: "inj_on key (set rows)"
begin

lemma page_continues:
  fixes coll :: "string \<Rightarrow> 'c::linorder"
  assumes "0 < n" "p = mk_page (keyset_rows coll key after n rows) n key"
  shows "{r \<in> set rows. after_key coll after (key r)}
      = set (pg_items p) \<union> (case pg_next_key p of None \<Rightarrow> {} | Some k \<Rightarrow> {r \<in> set rows. after_key coll (Some k) (key r)})"
    and "pg_has_more p \<longleftrightarrow> pg_next_key p \<noteq> None" "length (pg_items p) \<le> n"
    and "sorted (map (\<lambda>r. db_order coll (key r)) (pg_items p))"
    and "r \<in> set (pg_items p) \<Longrightarrow> pg_next_key p = Some k \<Longrightarrow> \<not> after_key coll (Some k) (key r)"
proof -
  let ?f = "\<lambda>r. db_order coll (key r)"
  define after_rows where "after_rows = {r \<in> set rows. after_key coll after (key r)}"
  define S where "S = sort_key ?f (filter (\<lambda>r. after_key coll after (key r)) rows)"
  have S: "set S = after_rows" "sorted (map ?f S)" by (auto simp: S_def after_rows_def)
  have p: "p = mk_page (take (Suc n) S) n key" by (simp add: assms(2) keyset_rows_def S_def)
  have items: "pg_items p = take n S" by (simp add: p mk_page_def Let_def)
  have next_key: "pg_next_key p = (if n < length S then Some (key (last (take n S))) else None)"
    using assms(1) by (auto simp: p mk_page_def Let_def)
  show more: "pg_has_more p \<longleftrightarrow> pg_next_key p \<noteq> None"
    using assms(1) by (auto simp: p mk_page_def Let_def)
  show "length (pg_items p) \<le> n" by (simp add: items)
  show sorted_items: "sorted (map ?f (pg_items p))" unfolding items take_map [symmetric] using S(2) by (rule sorted_wrt_take)
  have split: "sorted (map ?f (take n S @ drop n S))" using S(2) by simp
  have "after_rows = set (pg_items p) \<union> (case pg_next_key p of None \<Rightarrow> {} | Some k \<Rightarrow> {r \<in> set rows. after_key coll (Some k) (key r)})"
  proof (cases "n < length S")
    case False
    then show ?thesis using S(1) by (simp add: items next_key)
  next
    case True
    let ?l = "last (take n S)" and ?rest = "{r \<in> set rows. after_key coll (Some (key (last (take n S)))) (key r)}"
    have l: "?l \<in> set (take n S)" using assms(1) True by (intro last_in_set) auto
    then have ll: "?l \<in> set rows" "after_key coll after (key ?l)" using S(1) in_set_takeD unfolding after_rows_def by fastforce+
    have "r \<in> set (take n S) \<or> after_key coll (Some (key ?l)) (key r)" if r: "r \<in> set S" for r
    proof (cases "r \<in> set (drop n S)")
      case True
      then have "?f ?l \<le> ?f r" using split l unfolding map_append sorted_append by auto
      moreover have "r = ?l" if "?f ?l = ?f r"
      proof -
        have "key ?l = key r" using that by (simp add: db_order_def)
        then show ?thesis using one_per_key ll(1) r S(1) unfolding after_rows_def by (auto dest: inj_onD)
      qed
      ultimately show ?thesis using l by (auto simp: after_key_def order.order_iff_strict)
    next
      case False
      then show ?thesis using r append_take_drop_id [of n S] by (metis UnE set_append)
    qed
    then have "after_rows \<subseteq> set (take n S) \<union> ?rest" using S(1) unfolding after_rows_def by blast
    moreover have "set (take n S) \<subseteq> after_rows" using S(1) in_set_takeD by fastforce
    moreover have "after_key coll after (key r)" if "after_key coll (Some (key ?l)) (key r)" for r
      using that ll(2) by (auto simp: after_key_def split: option.splits)
    then have "?rest \<subseteq> after_rows" unfolding after_rows_def by blast
    ultimately show ?thesis using True by (simp add: items next_key) blast
  qed
  then show "{r \<in> set rows. after_key coll after (key r)}
      = set (pg_items p) \<union> (case pg_next_key p of None \<Rightarrow> {} | Some k \<Rightarrow> {r \<in> set rows. after_key coll (Some k) (key r)})"
    unfolding after_rows_def .
  assume r: "r \<in> set (pg_items p)" and k: "pg_next_key p = Some k"
  then have k: "k = key (last (pg_items p))" by (auto simp: items next_key split: if_splits)
  have "?f r \<le> ?f (last (pg_items p))" using sorted_items r by (rule sorted_map_last)
  then show "\<not> after_key coll (Some k) (key r)" using k by (simp add: after_key_def not_less)
qed

end

interpretation candidates: keyset_source "\<lambda>k. k" source for source :: "string list"
  by unfold_locales simp


subsection \<open>Principals\<close>

definition get_principal :: "store \<Rightarrow> string \<Rightarrow> principal_record option" where
  "get_principal db key = find (\<lambda>p. pn_principal_key p = key) (st_principals db)"

record principal_resolution =
  ps_record :: "principal_record option"
  ps_candidates :: "principal_record list"

definition is_ambiguous :: "principal_resolution \<Rightarrow> bool" where
  "is_ambiguous r \<longleftrightarrow> ps_record r = None \<and> 1 < length (ps_candidates r)"

definition ps_found :: "principal_resolution \<Rightarrow> bool" where "ps_found r \<longleftrightarrow> ps_record r \<noteq> None"

definition sid_candidates :: "(string \<Rightarrow> 'c::linorder) \<Rightarrow> store \<Rightarrow> sid \<Rightarrow> string option \<Rightarrow> principal_record list" where
  "sid_candidates coll db s host = sort_key (\<lambda>p. db_order coll (pn_principal_key p))
     (filter (\<lambda>p. pn_sid p = sid_value s \<and> (host \<noteq> None \<longrightarrow> pn_host_key p = None)) (st_principals db))"

definition resolve :: "(string \<Rightarrow> string) \<Rightarrow> (string \<Rightarrow> 'c::linorder) \<Rightarrow> store \<Rightarrow> string \<Rightarrow> string option \<Rightarrow> principal_resolution" where
  "resolve cf coll db identifier host =
     (let s = try_parse_sid identifier;
          scoped = (case (host, s) of (Some h, Some v) \<Rightarrow> get_principal db (cf h @ ''|'' @ sid_value v) | _ \<Rightarrow> None)
      in case scoped of Some r \<Rightarrow> \<lparr>ps_record = Some r, ps_candidates = []\<rparr>
       | None \<Rightarrow> (case get_principal db identifier of Some r \<Rightarrow> \<lparr>ps_record = Some r, ps_candidates = []\<rparr>
         | None \<Rightarrow> (case s of None \<Rightarrow> \<lparr>ps_record = None, ps_candidates = []\<rparr>
           | Some v \<Rightarrow> (case sid_candidates coll db v host of
                [r] \<Rightarrow> \<lparr>ps_record = Some r, ps_candidates = []\<rparr>
              | rs \<Rightarrow> \<lparr>ps_record = None, ps_candidates = rs\<rparr>))))"

text \<open>The chunks of a lookup cover the distinct keys, so they are one lookup.\<close>

definition principals_by_keys :: "store \<Rightarrow> string list \<Rightarrow> string \<rightharpoonup> principal_record" where
  "principals_by_keys db keys = by_keys pn_principal_key (st_principals db) keys"

record listed_principal =
  lp_record :: principal_record
  lp_direct_member_count :: nat
  lp_direct_group_count :: nat

definition edges_of :: "store \<Rightarrow> graph_edge list" where "edges_of db = map mr_edge (st_memberships db)"

definition with_degrees :: "store \<Rightarrow> principal_record \<Rightarrow> listed_principal" where
  "with_degrees db p = \<lparr>lp_record = p,
     lp_direct_member_count = length (filter (\<lambda>e. ge_group_key e = pn_principal_key p) (edges_of db)),
     lp_direct_group_count = length (filter (\<lambda>e. ge_member_key e = pn_principal_key p) (edges_of db))\<rparr>"

text \<open>
  \<open>_listing_filter\<close>. The wildcards of a term are escaped, so a \<open>LIKE\<close> with a trailing \<open>%\<close> is a prefix
  test; \<open>starts_ci\<close> is the case-insensitive one (\<open>ILIKE\<close>), \<open>upper\<close> the upper case of a text.
\<close>

definition listing_filter ::
  "(string \<Rightarrow> string) \<Rightarrow> (string \<Rightarrow> string \<Rightarrow> bool) \<Rightarrow> principal_kind list \<Rightarrow> string option \<Rightarrow> principal_record \<Rightarrow> bool" where
  "listing_filter upper starts_ci kinds term p \<longleftrightarrow> pn_principal_kind p \<in> set kinds
     \<and> (let text = py_strip (case term of None \<Rightarrow> [] | Some t \<Rightarrow> t)
        in if is_prefix_of ''S-1-'' (upper text) then is_prefix_of (upper text) (pn_sid p)
           else if text \<noteq> [] then
             list_ex (\<lambda>name. case name of None \<Rightarrow> False | Some n \<Rightarrow> starts_ci (last (split_on (CHR 0x5C) text)) n)
               [pn_display_name p, pn_sam_account_name p, pn_user_principal_name p, pn_last_known_name p]
           else True)"

definition list_principals ::
  "(string \<Rightarrow> string) \<Rightarrow> (string \<Rightarrow> string \<Rightarrow> bool) \<Rightarrow> (string \<Rightarrow> 'c::linorder) \<Rightarrow> store \<Rightarrow> principal_kind list \<Rightarrow> string option
   \<Rightarrow> int \<Rightarrow> string option \<Rightarrow> listed_principal page" where
  "list_principals upper starts_ci coll db kinds term limit after =
     mk_page (map (with_degrees db) (keyset_rows coll pn_principal_key after (page_size limit)
         (filter (listing_filter upper starts_ci kinds term) (st_principals db))))
       (page_size limit) (\<lambda>l. pn_principal_key (lp_record l))"

definition count_principals ::
  "(string \<Rightarrow> string) \<Rightarrow> (string \<Rightarrow> string \<Rightarrow> bool) \<Rightarrow> store \<Rightarrow> principal_kind list \<Rightarrow> string option \<Rightarrow> nat" where
  "count_principals upper starts_ci db kinds term = length (filter (listing_filter upper starts_ci kinds term) (st_principals db))"

definition is_known :: "store \<Rightarrow> string \<Rightarrow> bool" where
  "is_known db key \<longleftrightarrow> list_ex (\<lambda>p. pn_principal_key p = key) (st_principals db)
     \<or> list_ex (\<lambda>e. ge_group_key e = key \<or> ge_member_key e = key) (edges_of db)"

definition keys_with_members :: "store \<Rightarrow> string list \<Rightarrow> string list" where
  "keys_with_members db keys = filter (\<lambda>k. list_ex (\<lambda>e. ge_group_key e = k) (edges_of db)) (dict_fromkeys keys)"

subsection \<open>Direct memberships\<close>

record direct_edge_record =
  de_edge :: graph_edge
  de_counterpart_key :: string
  de_counterpart :: "principal_record option"
  de_first_observed_at :: int
  de_last_observed_at :: int
  de_last_observed_run_id :: string

text \<open>
  \<open>_direct\<close>: the rows with the anchor, by counterpart and then by edge key; the cursor compares
  the counterpart alone.
\<close>

definition direct_rows ::
  "(string \<Rightarrow> 'c::linorder) \<Rightarrow> store \<Rightarrow> (graph_edge \<Rightarrow> string) \<Rightarrow> string \<Rightarrow> (graph_edge \<Rightarrow> string) \<Rightarrow> nat \<Rightarrow> string option \<Rightarrow> membership_row list" where
  "direct_rows coll db anchor anchor_value counterpart n after = take (Suc n)
     (sort_key (\<lambda>r. (db_order coll (counterpart (mr_edge r)), db_order coll (ge_edge_key (mr_edge r))))
       (filter (\<lambda>r. anchor (mr_edge r) = anchor_value \<and> after_key coll after (counterpart (mr_edge r))) (st_memberships db)))"

definition direct ::
  "(string \<Rightarrow> 'c::linorder) \<Rightarrow> store \<Rightarrow> (graph_edge \<Rightarrow> string) \<Rightarrow> string \<Rightarrow> (graph_edge \<Rightarrow> string) \<Rightarrow> int \<Rightarrow> string option \<Rightarrow> direct_edge_record page" where
  "direct coll db anchor anchor_value counterpart limit after =
     (let n = page_size limit;
          rows = direct_rows coll db anchor anchor_value counterpart n after;
          labels = principals_by_keys db (map (\<lambda>r. counterpart (mr_edge r)) (take n rows))
      in mk_page (map (\<lambda>r. \<lparr>de_edge = mr_edge r, de_counterpart_key = counterpart (mr_edge r),
                      de_counterpart = labels (counterpart (mr_edge r)), de_first_observed_at = mr_first_observed_at r,
                      de_last_observed_at = mr_last_observed_at r, de_last_observed_run_id = mr_last_observed_run_id r\<rparr>) rows)
           n de_counterpart_key)"

definition direct_members :: "(string \<Rightarrow> 'c::linorder) \<Rightarrow> store \<Rightarrow> string \<Rightarrow> int \<Rightarrow> string option \<Rightarrow> direct_edge_record page" where
  "direct_members coll db grp limit after = direct coll db ge_group_key grp ge_member_key limit after"

definition direct_groups :: "(string \<Rightarrow> 'c::linorder) \<Rightarrow> store \<Rightarrow> string \<Rightarrow> int \<Rightarrow> string option \<Rightarrow> direct_edge_record page" where
  "direct_groups coll db member limit after = direct coll db ge_member_key member ge_group_key limit after"

definition count_direct :: "store \<Rightarrow> string option \<Rightarrow> string option \<Rightarrow> nat result" where
  "count_direct db grp member =
     (case (grp, member) of
        (Some g, None) \<Rightarrow> Inr (length (filter (\<lambda>e. ge_group_key e = g) (edges_of db)))
      | (None, Some m) \<Rightarrow> Inr (length (filter (\<lambda>e. ge_member_key e = m) (edges_of db)))
      | _ \<Rightarrow> Inl ValueError)"


subsection \<open>Properties of the reads\<close>

lemma insort_key_cong:
  "\<forall>y \<in> set ys. f x \<le> f y \<longleftrightarrow> g x \<le> g y \<Longrightarrow> insort_key f x ys = insort_key g x ys"
  by (induction ys) auto

lemma sort_key_order_cong:
  "\<forall>x \<in> set xs. \<forall>y \<in> set xs. f x \<le> f y \<longleftrightarrow> g x \<le> g y \<Longrightarrow> sort_key f xs = sort_key g xs"
proof (induction xs)
  case (Cons x xs)
  then have "sort_key f xs = sort_key g xs" by simp
  moreover have "insort_key f x (sort_key g xs) = insort_key g x (sort_key g xs)" by (rule insort_key_cong) (use Cons.prems in auto)
  ultimately show ?case by simp
qed simp

lemma group_rows_bucket:
  "(\<forall>b. grouped k = Some b \<longrightarrow> length b \<le> Suc limit) \<Longrightarrow>
     group_rows key limit rs grouped k =
       (let new = filter (\<lambda>r. key r = k) rs
        in case grouped k of None \<Rightarrow> if new = [] then None else Some (take (Suc limit) new)
           | Some b \<Rightarrow> Some (b @ take (Suc limit - length b) new))"
proof (induction key limit rs grouped rule: group_rows.induct)
  case (2 key limit r rs grouped)
  let ?b = "case grouped (key r) of None \<Rightarrow> [] | Some b \<Rightarrow> b"
  let ?g = "grouped(key r \<mapsto> (if length ?b \<le> limit then ?b @ [r] else ?b))"
  have ok: "\<forall>b. ?g k = Some b \<longrightarrow> length b \<le> Suc limit" using "2.prems" by (auto split: option.splits)
  have ih: "group_rows key limit (r # rs) grouped k = (let new = filter (\<lambda>r. key r = k) rs
        in case ?g k of None \<Rightarrow> if new = [] then None else Some (take (Suc limit) new)
           | Some b \<Rightarrow> Some (b @ take (Suc limit - length b) new))"
    unfolding group_rows.simps Let_def by (rule "2.IH" [OF refl ok, unfolded Let_def])
  show ?case
  proof (cases "key r = k")
    case False
    then show ?thesis unfolding ih by (simp add: Let_def)
  next
    case True
    then show ?thesis
      using "2.prems" unfolding ih by (cases "grouped k") (auto simp: Let_def Suc_diff_le le_Suc_eq)
  qed
qed (simp split: option.splits)

lemma bucket_rows:
  assumes "k \<in> A"
  shows "filter (\<lambda>r. key r = k) (sort_key (\<lambda>r. (db_order coll (key r), ord r)) (filter (\<lambda>r. key r \<in> A) rows))
    = sort_key ord (filter (\<lambda>r. key r = k) rows)"
proof -
  have "filter (\<lambda>r. key r = k) (filter (\<lambda>r. key r \<in> A) rows) = filter (\<lambda>r. key r = k) rows"
    using assms by (induction rows) auto
  moreover have "sort_key (\<lambda>r. (db_order coll (key r), ord r)) (filter (\<lambda>r. key r = k) rows) = sort_key ord (filter (\<lambda>r. key r = k) rows)"
    by (rule sort_key_order_cong) auto
  ultimately show ?thesis by (simp add: filter_sort)
qed

text \<open>
  Reading many ACLs in one statement gives each of them exactly as reading it alone does: the
  same entries in the same order, cut at the same place, and no entry in the dictionary for an ACL
  nothing is stored for. This holds for the directories and for the shares.
\<close>

theorem bulk_reads_agree:
  assumes "cf k = k" "k \<in> set keys" "1 \<le> limit"
  shows "ntfs_acls_for cf coll db keys limit k =
      (if ntfs_acl_rows coll db k = [] then None else Some (full_ntfs_acl cf coll db k limit))
    \<and> share_acls_for cf coll db keys limit k =
      (if share_acl_rows coll db k = [] then None else Some (full_share_acl cf coll db k limit))"
proof -
  have k: "k \<in> cf ` set keys" using assms(1,2) by force
  have limit: "max (Suc 0) limit = limit" using assms(3) by simp
  show ?thesis
    unfolding ntfs_acls_for_def share_acls_for_def full_ntfs_acl_def full_share_acl_def
    by (subst (1 2) group_rows_bucket) (simp_all add: bucket_rows [OF k] Let_def assms(1) limit ntfs_acl_rows_def share_acl_rows_def)
qed

text \<open>
  C25. Paging through the directories that may involve a token never skips or repeats one: a page
  holds the first candidates after the cursor, in order and without repetition; it says there are
  more exactly when it gives a cursor; and what remains after that cursor is what the page did not
  hold.
\<close>

theorem candidate_pages_cover:
  fixes coll :: "string \<Rightarrow> 'c::linorder"
  assumes "keys \<noteq> []" "p = resources_named_by coll db keys limit after"
  shows "{k \<in> set (resource_candidates db keys). after_key coll after k}
      = set (pg_items p) \<union> (case pg_next_key p of None \<Rightarrow> {} | Some n \<Rightarrow> {k \<in> set (resource_candidates db keys). after_key coll (Some n) k})
    \<and> (case pg_next_key p of None \<Rightarrow> True | Some n \<Rightarrow> \<forall>k \<in> set (pg_items p). \<not> after_key coll (Some n) k)
    \<and> (pg_has_more p \<longleftrightarrow> pg_next_key p \<noteq> None) \<and> distinct (pg_items p) \<and> length (pg_items p) \<le> page_size limit"
proof -
  have n: "0 < page_size limit" by (simp add: page_size_def)
  have p: "p = mk_page (keyset_rows coll (\<lambda>k. k) after (page_size limit) (resource_candidates db keys)) (page_size limit) (\<lambda>k. k)"
    using assms by (simp add: resources_named_by_def candidate_page_def)
  note cont = candidates.page_continues [OF n p]
  have "distinct (pg_items p)"
    by (simp add: p mk_page_def keyset_rows_def Let_def resource_candidates_def)
  then show ?thesis using cont(1,2,3) cont(5) by (auto split: option.splits)
qed

text \<open>
  The listing of direct members resumes after the last member's key, but a group may hold one
  member through edges of two kinds. No page after a cursor holds an edge whose member is that
  cursor, so the second edge of a member whose first edge ended a page is on no page.
\<close>

theorem direct_paging_skips_ties:
  fixes coll :: "string \<Rightarrow> 'c::linorder"
  assumes "pg_next_key (direct_members coll db grp limit after) = Some k"
  shows "(\<exists>d \<in> set (pg_items (direct_members coll db grp limit after)). de_counterpart_key d = k)
    \<and> (\<forall>d \<in> set (pg_items (direct_members coll db grp limit' (Some k))). de_counterpart_key d \<noteq> k)"
proof
  let ?p = "direct_members coll db grp limit after"
  have "pg_items ?p \<noteq> []" "k = de_counterpart_key (last (pg_items ?p))"
    using assms by (auto simp: direct_members_def direct_def mk_page_def Let_def split: if_splits)
  then show "\<exists>d \<in> set (pg_items ?p). de_counterpart_key d = k" using last_in_set by blast
  let ?rows = "direct_rows coll db ge_group_key grp ge_member_key (page_size limit') (Some k)"
  have "ge_member_key (mr_edge r) \<noteq> k" if "r \<in> set ?rows" for r
    using in_set_takeD [OF that [unfolded direct_rows_def]] by (auto simp: after_key_def)
  then show "\<forall>d \<in> set (pg_items (direct_members coll db grp limit' (Some k))). de_counterpart_key d \<noteq> k"
  proof -
    assume other: "\<And>r. r \<in> set ?rows \<Longrightarrow> ge_member_key (mr_edge r) \<noteq> k"
    have "de_counterpart_key ` set (pg_items (direct_members coll db grp limit' (Some k)))
        = (\<lambda>r. ge_member_key (mr_edge r)) ` set (take (page_size limit') ?rows)"
      by (simp add: direct_members_def direct_def mk_page_def Let_def take_map image_image)
    moreover have "(\<lambda>r. ge_member_key (mr_edge r)) ` set (take (page_size limit') ?rows) \<subseteq> - {k}"
      using other set_take_subset [of "page_size limit'" ?rows] by blast
    ultimately show ?thesis by blast
  qed
qed

text \<open>
  Looking a principal up never guesses. A record it returns is stored and is the principal of
  the host-scoped key, or else of the identifier itself, or else the only one with the SID (and, when
  a host was named, the only one without a host); several matches are returned as candidates and
  no record.
\<close>

theorem resolve_never_guesses:
  "(case ps_record (resolve cf coll db identifier host) of
      Some r \<Rightarrow> r \<in> set (st_principals db)
        \<and> (pn_principal_key r = identifier
           \<or> (\<exists>v. try_parse_sid identifier = Some v
                \<and> ((\<exists>h. host = Some h \<and> pn_principal_key r = cf h @ ''|'' @ sid_value v)
                   \<or> {p \<in> set (st_principals db). pn_sid p = sid_value v \<and> (host = None \<or> pn_host_key p = None)} = {r})))
    | None \<Rightarrow> get_principal db identifier = None
        \<and> (\<forall>v. try_parse_sid identifier = Some v \<longrightarrow>
             set (ps_candidates (resolve cf coll db identifier host))
               = {p \<in> set (st_principals db). pn_sid p = sid_value v \<and> (host = None \<or> pn_host_key p = None)}
             \<and> length (ps_candidates (resolve cf coll db identifier host)) \<noteq> 1))"
proof -
  have get: "r \<in> set (st_principals db) \<and> pn_principal_key r = k" if "get_principal db k = Some r" for k r
    using that by (auto simp: get_principal_def find_Some_iff)
  have cands: "set (sid_candidates coll db v host)
      = {p \<in> set (st_principals db). pn_sid p = sid_value v \<and> (host = None \<or> pn_host_key p = None)}" for v
    by (auto simp: sid_candidates_def)
  show ?thesis
  proof (cases "\<exists>h v r. host = Some h \<and> try_parse_sid identifier = Some v \<and> get_principal db (cf h @ ''|'' @ sid_value v) = Some r")
    case True
    then show ?thesis using get by (fastforce simp: resolve_def Let_def)
  next
    case False
    have "(case (host, try_parse_sid identifier) of (Some h, Some v) \<Rightarrow> get_principal db (cf h @ ''|'' @ sid_value v) | _ \<Rightarrow> None) = None"
      (is "?scoped = None")
    proof (cases "host = None \<or> try_parse_sid identifier = None")
      case True
      then show ?thesis by (auto split: option.splits)
    next
      case some: False
      then obtain h v where "host = Some h" "try_parse_sid identifier = Some v" by auto
      then show ?thesis using False by (cases "get_principal db (cf h @ ''|'' @ sid_value v)") auto
    qed
    then have unscoped: "resolve cf coll db identifier host = (case get_principal db identifier of
        Some r \<Rightarrow> \<lparr>ps_record = Some r, ps_candidates = []\<rparr>
      | None \<Rightarrow> (case try_parse_sid identifier of None \<Rightarrow> \<lparr>ps_record = None, ps_candidates = []\<rparr>
         | Some v \<Rightarrow> (case sid_candidates coll db v host of
              [r] \<Rightarrow> \<lparr>ps_record = Some r, ps_candidates = []\<rparr>
            | rs \<Rightarrow> \<lparr>ps_record = None, ps_candidates = rs\<rparr>)))"
      unfolding resolve_def Let_def by (simp only: option.case)
    show ?thesis
    proof (cases "get_principal db identifier")
      case (Some r)
      then have "resolve cf coll db identifier host = \<lparr>ps_record = Some r, ps_candidates = []\<rparr>"
        by (simp add: unscoped)
      then show ?thesis using get [OF Some] by simp
    next
      case None
      show ?thesis
      proof (cases "try_parse_sid identifier")
        case None': None
        then show ?thesis using None by (simp add: unscoped)
      next
        case (Some v)
        have res: "resolve cf coll db identifier host = (case sid_candidates coll db v host of
            [r] \<Rightarrow> \<lparr>ps_record = Some r, ps_candidates = []\<rparr> | rs \<Rightarrow> \<lparr>ps_record = None, ps_candidates = rs\<rparr>)"
          using None Some by (simp add: unscoped)
        consider (none) "sid_candidates coll db v host = []" | (one) r where "sid_candidates coll db v host = [r]"
          | (many) a b rs where "sid_candidates coll db v host = a # b # rs"
          by (metis neq_Nil_conv)
        then show ?thesis
        proof cases
          case none
          then show ?thesis using res None Some cands [of v] by simp
        next
          case one
          then show ?thesis using res None Some cands [of v] by auto
        next
          case many
          then show ?thesis using res None Some cands [of v] by simp
        qed
      qed
    qed
  qed
qed


text \<open>A member held through two kinds of edges, and a page of one.\<close>

definition sample_store :: store where
  "sample_store = \<lparr>st_servers = [], st_shares = [], st_share_aces = [], st_resources = [sample_dir ''p'' False False],
     st_ntfs_aces = [sample_ace ''1'' ''g'' ALLOW 1 (Some 0)],
     st_references = [\<lparr>pf_principal_key = ''g'', pf_reference_kind = RF_NTFS_ACE, pf_reference_key = ''fs|d''\<rparr>], st_principals = [],
     st_memberships = [\<lparr>mr_edge = sample_edge ''1'' ''G'' ''m'', mr_first_observed_at = 0, mr_last_observed_at = 0, mr_last_observed_run_id = ''r''\<rparr>,
       \<lparr>mr_edge = (sample_edge ''2'' ''G'' ''m'')\<lparr>ge_kind := MK_PRIMARY_GROUP\<rparr>, mr_first_observed_at = 0, mr_last_observed_at = 0, mr_last_observed_run_id = ''r''\<rparr>]\<rparr>"

lemma sample_direct:
  "pg_next_key (direct_members no_collation sample_store ''G'' 1 None) = Some ''m''
   \<and> map (\<lambda>d. ge_edge_key (de_edge d)) (pg_items (direct_members no_collation sample_store ''G'' 1 None)) = [''1'']
   \<and> pg_items (direct_members no_collation sample_store ''G'' 1 (Some ''m'')) = []
   \<and> count_direct sample_store (Some ''G'') None = Inr 2"
  by code_simp

theorem direct_paging_skips_ties_witness:
  "\<forall>d \<in> set (pg_items (direct_members no_collation sample_store ''G'' 1 (Some ''m''))). de_counterpart_key d \<noteq> ''m''"
  using direct_paging_skips_ties [of no_collation sample_store "''G''" 1 None "''m''" 1] sample_direct by simp

theorem bulk_reads_agree_witness:
  "ntfs_acls_for id no_collation sample_store [''fs|d''] 1 ''fs|d'' = Some (full_ntfs_acl id no_collation sample_store ''fs|d'' 1)"
proof -
  have "ntfs_acl_rows no_collation sample_store ''fs|d'' \<noteq> []" by code_simp
  then show ?thesis using bulk_reads_agree [of id "''fs|d''" "[''fs|d'']" 1 no_collation sample_store] by simp
qed

theorem candidate_pages_cover_witness:
  "{''fs|d'', ''p''} = set (pg_items (resources_named_by no_collation sample_store [''g''] 1 None)) \<union> {''p''}"
proof -
  let ?p = "resources_named_by no_collation sample_store [''g''] 1 None"
  have c: "resource_candidates sample_store [''g''] = [''fs|d'', ''p'']" by code_simp
  have n: "pg_next_key ?p = Some ''fs|d''" by code_simp
  have "{k \<in> set [''fs|d'', ''p'']. after_key no_collation (Some ''fs|d'') k} = {''p''}"
  proof -
    have "after_key no_collation (Some ''fs|d'') ''p''" "\<not> after_key no_collation (Some ''fs|d'') ''fs|d''" by code_simp+
    then show ?thesis by auto
  qed
  then show ?thesis
    using candidate_pages_cover [of "[''g'']" ?p no_collation sample_store 1 None] unfolding c n
    by (auto simp: after_key_def set_eq_iff)
qed

text \<open>
  A share whose ACL names two keys of one token appears twice among the candidates: the query
  for the shares neither unites nor removes duplicates, unlike the one for the directories. So a
  page of shares may list one share once for every trustee of the token it names.
\<close>

theorem share_candidates_repeat:
  "\<exists>db keys. distinct (st_references db) \<and> pg_items (shares_named_by coll db keys 10 None) = [''fs|d'', ''fs|d'']"
proof -
  let ?r = "\<lambda>who. provenance.extend sample_provenance (share_ace_record.fields who ''fs|d'' who who ALLOW (Some 1) None ''1'' (Some 0))"
  let ?db = "sample_store\<lparr>st_share_aces := [?r ''a'', ?r ''b''],
      st_references := [\<lparr>pf_principal_key = ''a'', pf_reference_kind = RF_SMB_ACE, pf_reference_key = ''fs|d''\<rparr>,
        \<lparr>pf_principal_key = ''b'', pf_reference_kind = RF_SMB_ACE, pf_reference_key = ''fs|d''\<rparr>]\<rparr>"
  have "share_candidates ?db [''a'', ''b''] = [''fs|d'', ''fs|d'']"
    by (simp add: share_candidates_def still_named_share_def provenance.defs share_ace_record.defs)
  moreover have "page_size 10 = 10" by (simp add: page_size_def MAX_PAGE_SIZE_def)
  ultimately have "pg_items (shares_named_by coll ?db [''a'', ''b''] 10 None) = [''fs|d'', ''fs|d'']"
    by (simp add: shares_named_by_def candidate_page_def mk_page_def keyset_rows_def after_key_def Let_def)
  moreover have "distinct (st_references ?db)" by simp
  ultimately show ?thesis by blast
qed

end
