(* ===== verification/Adg_Graph_Service.thy ===== *)
theory Adg_Graph_Service
  imports Adg_Membership_Paths Adg_Store
begin

section \<open>Effective membership (app/services/graph.py)\<close>

text \<open>
  A traversal over the stored edges with every node it reached labelled by its principal row. What
  the services read is collected in a \<open>world\<close>: the tables, case folding, the collation, how a moment
  is written, and the row limit of the request's membership repository. The rows that repository
  has read so far are the state that is passed from call to call.
\<close>

record 'c world =
  w_db :: store
  w_casefold :: "string \<Rightarrow> string"
  w_coll :: "string \<Rightarrow> 'c"
  w_stamp :: "int \<Rightarrow> string"
  w_edge_fetch_limit :: nat

definition adjacency_of :: "'c::linorder world \<Rightarrow> nat provider" where
  "adjacency_of w = neighbors (w_coll w) (edges_of (w_db w)) (w_edge_fetch_limit w)"

definition GROUP_KINDS :: "principal_kind set" where "GROUP_KINDS = {PK_DOMAIN_GROUP, PK_LOCAL_GROUP}"
definition USER_KINDS :: "principal_kind set" where "USER_KINDS = {PK_USER, PK_MANAGED_SERVICE_ACCOUNT}"

datatype member_inclusion = INC_USERS | INC_NON_GROUPS | INC_ALL

text \<open>\<open>key.rpartition("|")\<close>\<close>

definition split_key :: "string \<Rightarrow> string option \<times> string" where
  "split_key key = (case split_on (CHR ''|'') key of
     [_] \<Rightarrow> (None, key)
   | parts \<Rightarrow> (Some (join_with ''|'' (butlast parts)), last parts))"

record resolved_node =
  ren_key :: string
  ren_sid :: string
  ren_host_key :: "string option"
  ren_depth :: nat
  ren_path :: "string list"
  ren_edge_kinds :: "membership_edge_kind list"
  ren_via_foreign :: bool
  ren_principal :: "principal_record option"
  ren_reported_kind :: "principal_kind option"

definition ren_kind :: "resolved_node \<Rightarrow> principal_kind option" where
  "ren_kind n = (case ren_principal n of Some p \<Rightarrow> Some (pn_principal_kind p) | None \<Rightarrow> ren_reported_kind n)"

definition ren_resolved :: "resolved_node \<Rightarrow> bool" where "ren_resolved n \<longleftrightarrow> ren_principal n \<noteq> None"

definition ren_is_group :: "resolved_node \<Rightarrow> bool option" where
  "ren_is_group n = map_option (\<lambda>k. k \<in> GROUP_KINDS) (ren_kind n)"

text \<open>An unknown kind is kept by everything but \<open>USERS\<close>.\<close>

definition kind_matches :: "principal_kind option \<Rightarrow> member_inclusion \<Rightarrow> bool" where
  "kind_matches kind inclusion = (case inclusion of
     INC_ALL \<Rightarrow> True
   | INC_USERS \<Rightarrow> (case kind of None \<Rightarrow> False | Some k \<Rightarrow> k \<in> USER_KINDS)
   | INC_NON_GROUPS \<Rightarrow> (case kind of None \<Rightarrow> True | Some k \<Rightarrow> k \<notin> GROUP_KINDS))"

definition ren_matches :: "resolved_node \<Rightarrow> member_inclusion \<Rightarrow> bool" where
  "ren_matches n inclusion = kind_matches (ren_kind n) inclusion"

record effective_membership =
  em_root_key :: string
  em_direction :: direction
  em_nodes :: "resolved_node list"
  em_edges :: "graph_edge list"
  em_cycles :: "graph_cycle list"
  em_limits :: traversal_limits
  em_truncation :: "truncation_reason list"
  em_depth_reached :: nat
  em_nodes_visited :: nat
  em_edges_read :: nat

definition em_complete :: "effective_membership \<Rightarrow> bool" where "em_complete m \<longleftrightarrow> em_truncation m = []"

definition resolve_node :: "reached_node \<Rightarrow> principal_record option \<Rightarrow> resolved_node" where
  "resolve_node n p =
     (let (host, sid) = split_key (rn_key n)
      in \<lparr>ren_key = rn_key n, ren_sid = (case p of Some r \<Rightarrow> pn_sid r | None \<Rightarrow> sid),
          ren_host_key = (case p of Some r \<Rightarrow> pn_host_key r | None \<Rightarrow> host), ren_depth = rn_depth n,
          ren_path = rn_path n, ren_edge_kinds = rn_edge_kinds n, ren_via_foreign = rn_via_foreign n,
          ren_principal = p, ren_reported_kind = rn_reported_kind n\<rparr>)"

definition service_expand ::
  "'c::linorder world \<Rightarrow> string \<Rightarrow> direction \<Rightarrow> traversal_limits \<Rightarrow> nat \<Rightarrow> (effective_membership \<times> nat) result" where
  "service_expand w root d lim fetched = res_bind (expand root d lim (adjacency_of w) fetched) (\<lambda>(ex, fetched').
     let labels = principals_by_keys (w_db w) (map rn_key (ex_nodes ex))
     in Inr (\<lparr>em_root_key = root, em_direction = d,
              em_nodes = map (\<lambda>n. resolve_node n (labels (rn_key n))) (ex_nodes ex), em_edges = ex_edges ex,
              em_cycles = ex_cycles ex, em_limits = lim, em_truncation = ex_truncation ex,
              em_depth_reached = ex_depth_reached ex, em_nodes_visited = length (ex_nodes ex),
              em_edges_read = fetched'\<rparr>, fetched'))"

definition effective_members :: "'c::linorder world \<Rightarrow> string \<Rightarrow> traversal_limits \<Rightarrow> nat \<Rightarrow> (effective_membership \<times> nat) result" where
  "effective_members w key lim fetched = service_expand w key DOWN lim fetched"

definition effective_groups :: "'c::linorder world \<Rightarrow> string \<Rightarrow> traversal_limits \<Rightarrow> nat \<Rightarrow> (effective_membership \<times> nat) result" where
  "effective_groups w key lim fetched = service_expand w key UP lim fetched"

record path_result =
  pt_member_key :: string
  pt_group_key :: string
  pt_paths :: "membership_path list"
  pt_labels :: "string \<rightharpoonup> principal_record"
  pt_cycles :: "graph_cycle list"
  pt_limits :: traversal_limits
  pt_truncation :: "truncation_reason list"

definition pt_complete :: "path_result \<Rightarrow> bool" where "pt_complete r \<longleftrightarrow> pt_truncation r = []"
definition pt_is_member :: "path_result \<Rightarrow> bool" where "pt_is_member r \<longleftrightarrow> pt_paths r \<noteq> []"

definition membership_paths ::
  "'c::linorder world \<Rightarrow> string \<Rightarrow> string \<Rightarrow> traversal_limits \<Rightarrow> nat \<Rightarrow> (path_result \<times> nat) result" where
  "membership_paths w member target lim fetched =
     res_bind (find_paths member target lim (adjacency_of w) fetched) (\<lambda>(s, fetched').
       Inr (\<lparr>pt_member_key = member, pt_group_key = target, pt_paths = sr_paths s,
              pt_labels = principals_by_keys (w_db w) (sort (dict_fromkeys (concat (map mp_nodes (sr_paths s))))),
              pt_cycles = sr_cycles s, pt_limits = lim, pt_truncation = sr_truncation s\<rparr>, fetched'))"

subsection \<open>A repository that was not used up\<close>

text \<open>While rows are left, the limit does not show: a walk that ends below it is the walk of any larger limit.\<close>

lemma select_edges_more:
  "length (select_edges coll table d c r) < r \<Longrightarrow> r \<le> r' \<Longrightarrow> select_edges coll table d c r' = select_edges coll table d c r"
  by (simp add: select_edges_def)

lemma fetch_chunks_grows: "fetch_chunks coll table limit d cs rows s = (rows', s') \<Longrightarrow> s \<le> s'"
  by (induction cs arbitrary: rows s) (auto split: if_splits simp: Let_def intro: order_trans [OF le_add1])

lemma fetch_chunks_more:
  assumes "fetch_chunks coll table limit d cs rows s = (rows', s')" "s' < limit" "limit \<le> limit'"
  shows "fetch_chunks coll table limit' d cs rows s = (rows', s')"
  using assms(1)
proof (induction cs arbitrary: rows s)
  case (Cons c cs)
  define new where "new = select_edges coll table d c (limit - s)"
  have s: "s < limit" using fetch_chunks_grows [OF Cons.prems] assms(2) by simp
  have go: "fetch_chunks coll table limit d cs (rows @ new) (s + length new) = (rows', s')"
    using Cons.prems s by (simp add: new_def Let_def)
  have "length new < limit - s" using fetch_chunks_grows [OF go] assms(2) by simp
  then have "select_edges coll table d c (limit' - s) = new"
    unfolding new_def using assms(3) by (intro select_edges_more) simp_all
  then show ?case using Cons.IH [OF go] s assms(3) by (simp add: Let_def)
qed simp

lemma neighbors_grows: "neighbors coll table limit d ks s = (m, s') \<Longrightarrow> s \<le> s'"
  by (auto simp: neighbors_def split: if_splits prod.splits dest: fetch_chunks_grows)

lemma neighbors_more:
  "neighbors coll table limit d ks s = (m, s') \<Longrightarrow> s' < limit \<Longrightarrow> limit \<le> limit' \<Longrightarrow> neighbors coll table limit' d ks s = (m, s')"
  by (auto simp: neighbors_def split: if_splits prod.splits dest: fetch_chunks_more)

lemma expand_levels_grows:
  "expand_levels root d lim (neighbors coll table limit) r depth frontier st s = Inr (fr, st', s') \<Longrightarrow> s \<le> s'"
proof (induction r arbitrary: depth frontier st s)
  case (Suc r)
  then show ?case
    by (auto simp: result_simps split: if_splits prod.splits dest!: Suc.IH dest: neighbors_grows)
qed simp

lemma expand_levels_more:
  assumes "s' < limit" "limit \<le> limit'"
  shows "expand_levels root d lim (neighbors coll table limit) r depth frontier st s = Inr (fr, st', s')
    \<Longrightarrow> expand_levels root d lim (neighbors coll table limit') r depth frontier st s = Inr (fr, st', s')"
proof (induction r arbitrary: depth frontier st s)
  case (Suc r)
  show ?case
  proof (cases "frontier = [] \<or> gw_trunc st \<noteq> {}")
    case True
    then show ?thesis using Suc.prems by auto
  next
    case False
    obtain m s1 where nb: "neighbors coll table limit d frontier s = (m, s1)" by fastforce
    with Suc.prems False obtain st1
      where go: "visit_frontier root d lim (Suc depth) frontier m (st\<lparr>gw_next := []\<rparr>) = Inr st1"
      and more: "expand_levels root d lim (neighbors coll table limit) r (Suc depth) (gw_next st1) st1 s1 = Inr (fr, st', s')"
      by (auto simp: result_simps)
    have "neighbors coll table limit' d frontier s = (m, s1)"
      using neighbors_more [OF nb _ assms(2)] expand_levels_grows [OF more] assms(1) by simp
    then show ?thesis using False go Suc.IH [OF more] by (simp add: result_simps)
  qed
qed simp

lemma expand_walk_more:
  assumes "expand_walk root d lim (neighbors coll table limit) s = Inr (st, s')" "s' < limit" "limit \<le> limit'"
  shows "expand_walk root d lim (neighbors coll table limit') s = Inr (st, s')"
  using assms(1)
proof (cases rule: expand_walk_cases)
  case (ended fr)
  then show ?thesis using assms expand_levels_more [OF assms(2,3) ended(1)] by (auto simp: expand_walk_def result_simps)
next
  case (probed fr st1 s1 m)
  have "s1 \<le> s'" using neighbors_grows [OF probed(3)] .
  then have "s1 < limit" using assms(2) by simp
  from expand_levels_more [OF this assms(3) probed(1)] neighbors_more [OF probed(3) assms(2,3)]
  show ?thesis using assms(1) probed by (auto simp: expand_walk_def result_simps)
qed

lemma expand_walk_grows:
  assumes "expand_walk root d lim (neighbors coll table limit) s = Inr (st, s')"
  shows "s \<le> s'"
  using assms
proof (cases rule: expand_walk_cases)
  case (ended fr)
  then show ?thesis by (auto dest: expand_levels_grows)
next
  case (probed fr st1 s1 m)
  then show ?thesis using expand_levels_grows neighbors_grows by (meson order_trans)
qed

lemma unspent_walk_reaches:
  assumes "expand_walk root d lim (neighbors coll (edge_rows tb) limit) s = Inr (st, s')" "s' < limit" "expansion_complete st"
  shows "rn_key ` set (expansion_nodes st) = {k. reaches d (edges_out (edge_rows tb) d) root k} - {root}"
    and "set (expansion_edges st) = {e \<in> set (edge_rows tb). reaches d (edges_out (edge_rows tb) d) root (ge_origin d e)}"
proof -
  have root: "root \<noteq> []" using assms(1) by (auto simp: expand_walk_def)
  define big where "big = limit + s + tl_max_edges lim + 1"
  have walk: "expand_walk root d lim (neighbors coll (edge_rows tb) big) s = Inr (st, s')"
    using expand_walk_more [OF assms(1,2)] by (simp add: big_def)
  have keys: "known root st = {k. reaches d (edges_out (edge_rows tb) d) root k}"
    and edges: "set (gw_edges st) = (\<Union>k \<in> known root st. edges_out (edge_rows tb) d k)"
    using repository.walk_clean [OF walk] assms(3) by (simp_all add: expansion_simps big_def)
  moreover have "distinct (root # map rn_key (gw_visited st))"
    using repository.walk_total [OF root] walk by (metis Inr_inject Pair_inject)
  ultimately show "rn_key ` set (expansion_nodes st) = {k. reaches d (edges_out (edge_rows tb) d) root k} - {root}"
    by (auto simp: known_def expansion_simps)
  show "set (expansion_edges st) = {e \<in> set (edge_rows tb). reaches d (edges_out (edge_rows tb) d) root (ge_origin d e)}"
    unfolding expansion_edges_def set_sort edges keys by (auto simp: edges_out_def)
qed

text \<open>Members one way are groups the other way.\<close>

lemma reaches_front: "e \<in> out root \<Longrightarrow> reaches d out (ge_endpoint d e) k \<Longrightarrow> reaches d out root k"
  by (rotate_tac 1, induction rule: reaches.induct) (auto intro: reaches.intros)

lemma reaches_turned:
  assumes "reaches d (edges_out table d) t k" "{d, d'} = {UP, DOWN}"
  shows "reaches d' (edges_out table d') k t"
  using assms(1)
proof (induction rule: reaches.induct)
  case (reaches_step k e)
  have "ge_origin d' e = ge_endpoint d e \<and> ge_endpoint d' e = ge_origin d e"
    using assms(2) by (cases d; cases d') (auto simp: ge_origin_def ge_endpoint_def)
  moreover have "e \<in> set table" "ge_origin d e = k" using reaches_step(2) by (simp_all add: edges_out_def)
  ultimately have "e \<in> edges_out table d' (ge_endpoint d e)" "ge_endpoint d' e = k" by (simp_all add: edges_out_def)
  then show ?case using reaches_front [of e "edges_out table d'" "ge_endpoint d e" d' t] reaches_step.IH by simp
qed (rule reaches_root)

lemma reaches_dual: "reaches UP (edges_out table UP) k t \<longleftrightarrow> reaches DOWN (edges_out table DOWN) t k"
  using reaches_turned [of UP table k t DOWN] reaches_turned [of DOWN table t k UP] by blast

subsection \<open>A membership answer\<close>

lemma em_complete_walk:
  assumes "service_expand w root d lim fetched = Inr (m, fetched')"
  obtains st where "expand_walk root d lim (adjacency_of w) fetched = Inr (st, fetched')"
    "map ren_key (em_nodes m) = map rn_key (expansion_nodes st)" "em_edges m = expansion_edges st"
    "em_complete m \<longleftrightarrow> expansion_complete st" "em_edges_read m = fetched'"
    "map ren_path (em_nodes m) = map rn_path (expansion_nodes st)" "map ren_depth (em_nodes m) = map rn_depth (expansion_nodes st)"
  using assms
  by (auto simp: service_expand_def expand_def result_simps Let_def em_complete_def expansion_complete_def resolve_node_def
      split: prod.splits)

text \<open>
  A complete effective-membership answer, from a repository that has read nothing yet and whose
  limit is paired with the traversal, names exactly the keys the stored edges reach from the root.
  Whether or not it is complete it always returns for a root that is not empty, and it reports the
  rows the repository has read.
\<close>

theorem membership_answer_exact:
  fixes w :: "'c::linorder world"
  assumes "root \<noteq> []" "mk_traversal_limits max_depth max_nodes max_edges max_paths = Inr lim"
    and "edges_of (w_db w) = edge_rows tb" "w_edge_fetch_limit w = edge_fetch_limit (int (tl_max_edges lim) + 1)"
  shows "\<exists>m fetched. service_expand w root d lim 0 = Inr (m, fetched) \<and> em_edges_read m = fetched
    \<and> (em_complete m \<longrightarrow> ren_key ` set (em_nodes m) = {k. reaches d (edges_out (edges_of (w_db w)) d) root k} - {root})"
proof -
  have adj: "adjacency_of w = neighbors (w_coll w) (edge_rows tb) (edge_fetch_limit (int (tl_max_edges lim) + 1))"
    by (simp add: adjacency_of_def assms(3,4))
  obtain st fetched where walk: "expand_walk root d lim (adjacency_of w) 0 = Inr (st, fetched)"
    using repository.walk_total [OF assms(1)] unfolding adj by blast
  then obtain m where m: "service_expand w root d lim 0 = Inr (m, fetched)"
    by (simp add: service_expand_def expand_def Let_def)
  then obtain st' where st': "expand_walk root d lim (adjacency_of w) 0 = Inr (st', fetched)"
      "map ren_key (em_nodes m) = map rn_key (expansion_nodes st')" "em_complete m \<longleftrightarrow> expansion_complete st'" "em_edges_read m = fetched"
    by (rule em_complete_walk)
  have "ren_key ` set (em_nodes m) = rn_key ` set (expansion_nodes st')" using st'(2) by (metis set_map)
  then show ?thesis
    using m st' expansion_reaches_all [OF assms(2), of root d "w_coll w" tb st' fetched] unfolding adj assms(3) by auto
qed

definition sample_world :: "nat world" where
  "sample_world = \<lparr>w_db = sample_store\<lparr>st_memberships := map (\<lambda>e. \<lparr>mr_edge = e, mr_first_observed_at = 0,
       mr_last_observed_at = 0, mr_last_observed_run_id = ''r''\<rparr>) (edge_rows sample_table)\<rparr>,
     w_casefold = id, w_coll = no_collation, w_stamp = (\<lambda>_. []), w_edge_fetch_limit = 7\<rparr>"

theorem membership_answer_exact_witness:
  "\<exists>m fetched. service_expand sample_world ''A'' DOWN search_limits 0 = Inr (m, fetched) \<and> em_edges_read m = fetched"
proof -
  have "edges_of (w_db sample_world) = edge_rows sample_table" by (simp add: sample_world_def edges_of_def comp_def)
  moreover have "w_edge_fetch_limit sample_world = edge_fetch_limit (int (tl_max_edges search_limits) + 1)"
    by (simp add: sample_world_def search_limits_def edge_fetch_limit_def EDGE_FETCH_CEILING_def MAX_EDGES_CEILING_def)
  ultimately show ?thesis
    using membership_answer_exact [of "''A''" 32 10 6 5 search_limits sample_world sample_table DOWN] search_limits_ok by auto
qed

end
