(* ===== verification/Adg_Access_Service.thy ===== *)
theory Adg_Access_Service
  imports Adg_Verdict Adg_Graph_Service
begin

section \<open>Effective access over stored observations (app/services/access.py)\<close>

text \<open>
  The three questions of the access service: what one principal can do to one directory, who can
  reach a directory, and what one principal can reach. The service turns stored rows into the
  inputs of the engine; the engine's functions are those of the evaluation, resolver and token
  theories. A question takes the rows its membership repository has read so far and returns them
  with the answer, because the repository's row limit is shared by the traversals of one request.
  \<open>explain_access\<close>, which adds the causal paths to the first answer, is in the theory of explanations.
\<close>

subsection \<open>Rows as inputs of the engine\<close>

definition entry_from :: "ntfs_ace_record \<Rightarrow> acl_entry result" where
  "entry_from r = ntfs_entry (nar_trustee_key r) (nar_trustee_sid r) (nar_ace_type r) (nar_access_mask r) (nar_ace_flags r)
     (nar_source r) (nar_order_index r) (Some (nar_ace_key r)) (nar_inherited_from r) None"

definition share_entry_from :: "share_ace_record \<Rightarrow> acl_entry result" where
  "share_entry_from r = share_entry (sar_trustee_key r) (sar_trustee_sid r) (sar_ace_type r) (sar_access_mask r)
     (sar_permission r) (sar_order_index r) (Some (sar_ace_key r)) None"

definition sid_of :: "string \<Rightarrow> string" where "sid_of key = snd (split_key key)"

definition subject_facts_of :: "'c world \<Rightarrow> string \<Rightarrow> principal_record option \<Rightarrow> subject_facts result" where
  "subject_facts_of w key r = (case r of
     None \<Rightarrow> mk_subject_facts key (sid_of key) None None None None None
   | Some p \<Rightarrow> mk_subject_facts key (pn_sid p) (Some (pn_principal_kind p)) (pn_display_name p) (pn_enabled p)
       (Some (pn_last_observed_run_id p)) (Some (w_stamp w (pn_last_observed_at p))))"

text \<open>The fields a \<open>ResourceDacl\<close> has when the call does not name them.\<close>

definition unread_dacl :: "string \<Rightarrow> resource_dacl" where
  "unread_dacl key = \<lparr>rd_resource_key = key, rd_entries = [], rd_dacl_present = True, rd_dacl_protected = False,
     rd_owner_sid = None, rd_owner_key = None, rd_declared_ace_count = None, rd_provenance = UNOBSERVED,
     rd_derived_from = None, rd_derived_distance = None\<rparr>"

definition dacl_from :: "'c world \<Rightarrow> string \<Rightarrow> ntfs_resource_record option \<Rightarrow> ntfs_ace_record list \<Rightarrow> resource_dacl result" where
  "dacl_from w key row entries = res_bind (res_map entry_from entries) (\<lambda>converted.
     case row of
       None \<Rightarrow> mk_resource_dacl ((unread_dacl key)\<lparr>rd_entries := converted,
                 rd_provenance := (if converted \<noteq> [] then OBSERVED else UNOBSERVED)\<rparr>)
     | Some r \<Rightarrow> res_bind
         (case nrr_owner_sid r of None \<Rightarrow> Inr None
          | Some s \<Rightarrow> res_bind (parse_sid s) (\<lambda>owner.
              Inr (Some (referenced_principal_key (w_casefold w) owner (Some (nrr_server_key r))))))
         (\<lambda>owner_key. mk_resource_dacl
            \<lparr>rd_resource_key = nrr_resource_key r, rd_entries = converted, rd_dacl_present = nrr_dacl_present r,
             rd_dacl_protected = nrr_dacl_protected r, rd_owner_sid = nrr_owner_sid r, rd_owner_key = owner_key,
             rd_declared_ace_count = Some (nrr_ace_count r), rd_provenance = OBSERVED, rd_derived_from = None,
             rd_derived_distance = None\<rparr>))"

definition share_dacl_from :: "string \<Rightarrow> share_ace_record list \<Rightarrow> share_dacl result" where
  "share_dacl_from key entries =
     (if entries = [] then mk_share_dacl \<lparr>sh_share_key = key, sh_entries = [], sh_observed = False\<rparr>
      else res_bind (res_map share_entry_from entries) (\<lambda>converted.
        mk_share_dacl \<lparr>sh_share_key = key, sh_entries = converted, sh_observed = True\<rparr>))"

definition projected_entry :: "'c world \<Rightarrow> acl_ace_facts \<Rightarrow> string \<Rightarrow> acl_entry result" where
  "projected_entry w f server = res_bind (parse_sid (af_trustee_sid f)) (\<lambda>s.
     ntfs_entry (referenced_principal_key (w_casefold w) s (Some server)) (af_trustee_sid f) (af_ace_type f)
       (uint (af_access_mask f)) (af_ace_flags f)
       (if has_flag (af_ace_flags f) AF_INHERITED then INHERITED else EXPLICIT) (af_order_index f) None None None)"

definition resource_key :: "'c world \<Rightarrow> string \<Rightarrow> string result" where
  "resource_key w identifier = res_bind (parse_unc_path identifier) (\<lambda>p. Inr (unc_comparison_key (w_casefold w) p))"

definition share_key_of :: "'c world \<Rightarrow> string \<Rightarrow> string result" where
  "share_key_of w identifier = res_bind (parse_unc_path identifier) (\<lambda>p.
     Inr (w_casefold w (unc_server p) @ ''|'' @ w_casefold w (unc_share p)))"

subsection \<open>The descriptor in front of a path\<close>

definition MAX_ANCESTOR_LEVELS :: nat where "MAX_ANCESTOR_LEVELS = 64"

fun ancestor_chain :: "'c world \<Rightarrow> nat \<Rightarrow> unc_path \<Rightarrow> string list result" where
  "ancestor_chain w 0 p = Inr []"
| "ancestor_chain w (Suc n) p = (case unc_parent p of
       None \<Rightarrow> Inr []
     | Some parent \<Rightarrow> res_bind parent (\<lambda>q. res_bind (ancestor_chain w n q) (\<lambda>ks.
         Inr (unc_comparison_key (w_casefold w) q # ks))))"

fun first_read :: "(string \<rightharpoonup> ntfs_resource_record) \<Rightarrow> nat \<Rightarrow> string list \<Rightarrow> ntfs_resource_record option \<times> nat" where
  "first_read rows distance [] = (None, 0)"
| "first_read rows distance (k # ks) = (case rows k of
       Some r \<Rightarrow> (Some r, distance)
     | None \<Rightarrow> first_read rows (Suc distance) ks)"

definition nearest_ancestor :: "'c world \<Rightarrow> string \<Rightarrow> (ntfs_resource_record option \<times> nat) result" where
  "nearest_ancestor w key = res_bind (parse_unc_path key) (\<lambda>p.
     res_bind (ancestor_chain w MAX_ANCESTOR_LEVELS p) (\<lambda>chain.
       Inr (if chain = [] then (None, 0)
            else first_read (ntfs_resources_by_keys (w_casefold w) (w_db w) chain) 1 chain)))"

definition stored_acl :: "'c::linorder world \<Rightarrow> string \<Rightarrow> ntfs_ace_record list" where
  "stored_acl w key = full_ntfs_acl (w_casefold w) (w_coll w) (w_db w) key MAX_ACL_FETCH"

definition resource_dacl_for ::
  "'c::linorder world \<Rightarrow> string \<Rightarrow> (ntfs_resource_record option \<times> resource_dacl) result" where
  "resource_dacl_for w identifier = res_bind (resource_key w identifier) (\<lambda>key.
     case get_ntfs_resource (w_casefold w) (w_db w) key of
       Some row \<Rightarrow> res_bind (dacl_from w key (Some row) (stored_acl w key)) (\<lambda>d. Inr (Some row, d))
     | None \<Rightarrow> res_bind (nearest_ancestor w key) (\<lambda>(ancestor, distance).
         case ancestor of
           None \<Rightarrow> res_bind (mk_resource_dacl (unread_dacl key)) (\<lambda>d. Inr (None, d))
         | Some a \<Rightarrow>
             if \<not> nrr_dacl_present a then res_bind (mk_resource_dacl (unread_dacl key)) (\<lambda>d. Inr (None, d))
             else
               res_bind (res_map acl_facts (stored_acl w (nrr_resource_key a))) (\<lambda>parent_entries.
               res_bind (project_inherited_acl (map Inl parent_entries) True) (\<lambda>facts.
               res_bind (parse_unc_path key) (\<lambda>p.
               res_bind (res_map (\<lambda>f. projected_entry w f (unc_server p)) facts) (\<lambda>entries.
               res_bind (mk_resource_dacl ((unread_dacl key)\<lparr>rd_entries := entries, rd_provenance := DERIVED,
                   rd_derived_from := Some (nrr_resource_key a), rd_derived_distance := Some (int distance)\<rparr>))
                 (\<lambda>d. Inr (None, d))))))))"

definition share_dacl_for ::
  "'c::linorder world \<Rightarrow> string \<Rightarrow> ntfs_resource_record option \<Rightarrow> (share_record option \<times> share_dacl) result" where
  "share_dacl_for w identifier resource = res_bind
     (case resource of Some r \<Rightarrow> Inr (nrr_share_key r) | None \<Rightarrow> share_key_of w identifier) (\<lambda>key.
     res_bind (share_dacl_from key (full_share_acl (w_casefold w) (w_coll w) (w_db w) key MAX_ACL_FETCH)) (\<lambda>d.
       Inr (get_share (w_casefold w) (w_db w) key, d)))"

text \<open>The share in front of a path, when the question is asked over SMB.\<close>

definition share_side ::
  "'c::linorder world \<Rightarrow> string \<Rightarrow> access_path \<Rightarrow> ntfs_resource_record option \<Rightarrow> (share_record option \<times> share_dacl option) result" where
  "share_side w identifier path resource =
     (if path = REMOTE_SMB then res_bind (share_dacl_for w identifier resource) (\<lambda>(sr, sd). Inr (sr, Some sd))
      else Inr (None, None))"

subsection \<open>Trustees and coverage\<close>

definition trustee_keys :: "resource_dacl \<Rightarrow> share_dacl option \<Rightarrow> bool \<Rightarrow> string list" where
  "trustee_keys dacl share include_owner = dict_fromkeys
     ((if include_owner then (case rd_owner_key dacl of None \<Rightarrow> [] | Some k \<Rightarrow> [k]) else [])
      @ map ae_trustee_key (filter ae_applies_to_this_object (rd_entries dacl))
      @ (case share of None \<Rightarrow> [] | Some s \<Rightarrow> map ae_trustee_key (sh_entries s)))"

definition keys_named_by :: "subject_token \<Rightarrow> resource_dacl \<Rightarrow> share_dacl option \<Rightarrow> string list" where
  "keys_named_by token dacl share = map tok_key (st_entries token) @ map ae_trustee_key (rd_entries dacl)
     @ (case rd_owner_key dacl of None \<Rightarrow> [] | Some k \<Rightarrow> [k])
     @ (case share of None \<Rightarrow> [] | Some s \<Rightarrow> map ae_trustee_key (sh_entries s))"

definition could_contain_members :: "principal_record option \<Rightarrow> bool" where
  "could_contain_members r = (case r of None \<Rightarrow> True
     | Some p \<Rightarrow> pn_principal_kind p \<in> GROUP_KINDS \<or> pn_principal_kind p = PK_UNRESOLVED)"

definition coverage_findings :: "'c world \<Rightarrow> subject_token \<Rightarrow> resource_dacl \<Rightarrow> share_dacl option \<Rightarrow> access_finding list" where
  "coverage_findings w token dacl share =
     (let candidates = filter (\<lambda>k. \<not> token_contains token k) (trustee_keys dacl share False);
          records = principals_by_keys (w_db w) candidates;
          possible = filter (\<lambda>k. could_contain_members (records k)) candidates
      in if candidates = [] \<or> possible = [] then []
         else unobserved_trustee_findings possible (keys_with_members (w_db w) possible))"

subsection \<open>One principal against one directory\<close>

definition cycle_finding :: "graph_cycle \<Rightarrow> access_finding" where
  "cycle_finding c = finding AC_MEMBERSHIP_CYCLE [(''members'', DList (map DStr (gc_members c)))]"

definition group_token_sid :: "resolved_node \<Rightarrow> token_sid result" where
  "group_token_sid n = mk_token_sid (ren_key n) (ren_sid n) ORIGIN_GROUP_MEMBERSHIP (int (ren_depth n)) (ren_path n)
     (case ren_principal n of None \<Rightarrow> None | Some p \<Rightarrow> pn_display_name p)"

definition build_subject_token ::
  "'c::linorder world \<Rightarrow> string \<Rightarrow> principal_record option \<Rightarrow> access_path \<Rightarrow> traversal_limits \<Rightarrow> token_assumption option \<Rightarrow> nat
   \<Rightarrow> (subject_token \<times> (string \<rightharpoonup> principal_record) \<times> graph_edge list \<times> nat) result" where
  "build_subject_token w key r path lim assumption fetched =
     res_bind (effective_groups w key lim fetched) (\<lambda>(m, fetched').
     res_bind (res_map group_token_sid (em_nodes m)) (\<lambda>groups.
     res_bind (subject_facts_of w key r) (\<lambda>facts.
     res_bind (build_token facts groups path assumption (em_complete m) (map cycle_finding (em_cycles m))) (\<lambda>token.
       let labels = map_of (rev (concat (map (\<lambda>n. case ren_principal n of None \<Rightarrow> [] | Some p \<Rightarrow> [(ren_key n, p)]) (em_nodes m))
                      @ (case r of None \<Rightarrow> [] | Some p \<Rightarrow> [(key, p)])))
       in Inr (token, labels, em_edges m, fetched')))))"

record resolution =
  rs_access :: effective_access
  rs_subject :: "principal_record option"
  rs_resource :: "ntfs_resource_record option"
  rs_share :: "share_record option"
  rs_dacl :: resource_dacl
  rs_share_acl :: "share_dacl option"
  rs_edges :: "graph_edge list"
  rs_principals :: "string \<rightharpoonup> principal_record"

definition resolve_one ::
  "'c::linorder world \<Rightarrow> string \<Rightarrow> string \<Rightarrow> access_path \<Rightarrow> traversal_limits \<Rightarrow> token_assumption option \<Rightarrow> nat
   \<Rightarrow> (resolution \<times> nat) result" where
  "resolve_one w subject identifier path lim assumption fetched =
     (let record = get_principal (w_db w) subject
      in res_bind (build_subject_token w subject record path lim assumption fetched) (\<lambda>(token, labels, edges, fetched').
         res_bind (resource_dacl_for w identifier) (\<lambda>(resource, dacl).
         res_bind (share_side w identifier path resource) (\<lambda>(share_record, share).
         res_bind (resolve_access token dacl share (coverage_findings w token dacl share)) (\<lambda>access.
           Inr (\<lparr>rs_access = access, rs_subject = record, rs_resource = resource, rs_share = share_record, rs_dacl = dacl,
                  rs_share_acl = share, rs_edges = edges,
                  rs_principals = labels ++ principals_by_keys (w_db w) (sort (dict_fromkeys (keys_named_by token dacl share)))\<rparr>,
                fetched'))))))"

record resolved_access =
  ra_access :: effective_access
  ra_subject :: "principal_record option"
  ra_resource :: "ntfs_resource_record option"
  ra_share :: "share_record option"
  ra_principals :: "string \<rightharpoonup> principal_record"

definition service_effective_access ::
  "'c::linorder world \<Rightarrow> string \<Rightarrow> string \<Rightarrow> access_path \<Rightarrow> traversal_limits \<Rightarrow> token_assumption option \<Rightarrow> nat
   \<Rightarrow> (resolved_access \<times> nat) result" where
  "service_effective_access w subject identifier path lim assumption fetched =
     res_bind (resolve_one w subject identifier path lim assumption fetched) (\<lambda>(r, fetched').
       Inr (\<lparr>ra_access = rs_access r, ra_subject = rs_subject r, ra_resource = rs_resource r, ra_share = rs_share r,
              ra_principals = rs_principals r\<rparr>, fetched'))"


subsection \<open>Who can reach a directory\<close>

definition MAX_EXPANDED_TRUSTEES :: nat where "MAX_EXPANDED_TRUSTEES = 128"
definition WORLD_TRUSTEES :: "string set" where "WORLD_TRUSTEES = {''S-1-1-0'', ''S-1-5-11'', ''S-1-5-7''}"

definition token_sid_for :: "resolved_node \<Rightarrow> string \<Rightarrow> token_sid result" where
  "token_sid_for n trustee = mk_token_sid trustee (sid_of trustee) ORIGIN_GROUP_MEMBERSHIP (int (ren_depth n)) (rev (ren_path n)) None"

text \<open>\<open>reached\<close>: its keys as they were entered, and what was appended to the list of each.\<close>

record reach_map =
  rm_keys :: "string list"
  rm_via :: "(string \<times> token_sid) list"
  rm_unenumerable :: "string list"

definition via_of :: "reach_map \<Rightarrow> string \<Rightarrow> token_sid list" where
  "via_of rm key = map snd (filter (\<lambda>kt. fst kt = key) (rm_via rm))"

fun expand_trustees ::
  "'c::linorder world \<Rightarrow> traversal_limits \<Rightarrow> string list \<Rightarrow> reach_map \<Rightarrow> nat \<Rightarrow> (reach_map \<times> nat) result" where
  "expand_trustees w lim [] rm fetched = Inr (rm, fetched)"
| "expand_trustees w lim (t # ts) rm fetched =
     res_bind (effective_members w t lim fetched) (\<lambda>(m, fetched').
     res_bind (res_map (\<lambda>n. res_bind (token_sid_for n t) (\<lambda>e. Inr (ren_key n, e))) (em_nodes m)) (\<lambda>entries.
       expand_trustees w lim ts
         \<lparr>rm_keys = rm_keys rm @ t # map ren_key (em_nodes m), rm_via = rm_via rm @ entries,
          rm_unenumerable = rm_unenumerable rm @ (if t \<in> WORLD_TRUSTEES then [t] else []) @ (if em_complete m then [] else [t])\<rparr>
         fetched'))"

definition access_candidates :: "'c world \<Rightarrow> reach_map \<Rightarrow> member_inclusion \<Rightarrow> (string \<times> token_sid list) list" where
  "access_candidates w rm inclusion =
     (let keys = sort (dict_fromkeys (rm_keys rm));
          records = principals_by_keys (w_db w) keys
      in map (\<lambda>k. (k, via_of rm k)) (filter (\<lambda>k. kind_matches (map_option pn_principal_kind (records k)) inclusion) keys))"

record principal_access =
  pa_key :: string
  pa_sid :: string
  pa_principal :: "principal_record option"
  pa_access :: effective_access
  pa_via :: "token_sid list"

definition access_item ::
  "'c world \<Rightarrow> access_path \<Rightarrow> resource_dacl \<Rightarrow> share_dacl option \<Rightarrow> (string \<rightharpoonup> principal_record) \<Rightarrow> string \<times> token_sid list
   \<Rightarrow> principal_access result" where
  "access_item w path dacl share labels kv =
     (let (key, via) = kv; record = labels key
      in res_bind (subject_facts_of w key record) (\<lambda>facts.
         res_bind (build_token facts via path None True []) (\<lambda>token.
         res_bind (resolve_access token dacl share []) (\<lambda>access.
           Inr \<lparr>pa_key = key, pa_sid = (case record of Some p \<Rightarrow> pn_sid p | None \<Rightarrow> sid_of key), pa_principal = record,
                pa_access = access, pa_via = via\<rparr>))))"

record resource_access_page =
  rp_resource_key :: string
  rp_share_key :: "string option"
  rp_path :: access_path
  rp_resource :: "ntfs_resource_record option"
  rp_share :: "share_record option"
  rp_items :: "principal_access list"
  rp_total :: nat
  rp_has_more :: bool
  rp_unenumerable_trustees :: "string list"
  rp_truncated_trustees :: bool
  rp_findings :: "access_finding list"
  rp_principals :: "string \<rightharpoonup> principal_record"

definition rp_complete :: "resource_access_page \<Rightarrow> bool" where
  "rp_complete p \<longleftrightarrow> rp_unenumerable_trustees p = [] \<and> \<not> rp_truncated_trustees p"

definition page_findings :: "string list \<Rightarrow> bool \<Rightarrow> nat \<Rightarrow> access_finding list" where
  "page_findings unenumerable truncated n =
     map (\<lambda>t. finding AC_TRUSTEE_MEMBERSHIP_UNOBSERVED [(''trustee_key'', DStr t)]) (dict_fromkeys unenumerable)
     @ (if truncated then [finding AC_MEMBERSHIP_TRUNCATED [(''trustees'', DInt (int n)), (''expanded'', DInt (int MAX_EXPANDED_TRUSTEES))]]
        else [])"

text \<open>The page, once both sides of the directory's ACLs are read.\<close>

definition enumerate_principals ::
  "'c::linorder world \<Rightarrow> access_path \<Rightarrow> traversal_limits \<Rightarrow> member_inclusion \<Rightarrow> int \<Rightarrow> int
   \<Rightarrow> ntfs_resource_record option \<times> resource_dacl \<Rightarrow> share_record option \<times> share_dacl option \<Rightarrow> nat
   \<Rightarrow> (resource_access_page \<times> nat) result" where
  "enumerate_principals w path lim inclusion limit offset ntfs smb fetched =
     (let (resource, dacl) = ntfs;
          (share_record, share) = smb;
          trustees = trustee_keys dacl share True;
          truncated = MAX_EXPANDED_TRUSTEES < length trustees
      in res_bind (expand_trustees w lim (take MAX_EXPANDED_TRUSTEES trustees)
              \<lparr>rm_keys = [], rm_via = [], rm_unenumerable = []\<rparr> fetched) (\<lambda>(rm, fetched').
          let candidates = access_candidates w rm inclusion;
              total = length candidates;
              window = take (nat (max 1 limit)) (drop (nat (max 0 offset)) candidates);
              chains = concat (map (\<lambda>kv. concat (map tok_path (snd kv))) window);
              labels = principals_by_keys (w_db w) (sort (dict_fromkeys (map fst window @ trustees @ chains)))
          in res_bind (res_map (access_item w path dacl share labels) window) (\<lambda>items.
             Inr (\<lparr>rp_resource_key = rd_resource_key dacl, rp_share_key = map_option sh_share_key share, rp_path = path,
                    rp_resource = resource, rp_share = share_record, rp_items = items, rp_total = total,
                    rp_has_more = (offset + int (length window) < int total),
                    rp_unenumerable_trustees = dict_fromkeys (rm_unenumerable rm), rp_truncated_trustees = truncated,
                    rp_findings = page_findings (rm_unenumerable rm) truncated (length trustees),
                    rp_principals = labels\<rparr>, fetched'))))"

definition effective_principals ::
  "'c::linorder world \<Rightarrow> string \<Rightarrow> access_path \<Rightarrow> traversal_limits \<Rightarrow> member_inclusion \<Rightarrow> int \<Rightarrow> int \<Rightarrow> nat
   \<Rightarrow> (resource_access_page \<times> nat) result" where
  "effective_principals w identifier path lim inclusion limit offset fetched =
     res_bind (resource_dacl_for w identifier) (\<lambda>ntfs.
     res_bind (share_side w identifier path (fst ntfs)) (\<lambda>smb.
       enumerate_principals w path lim inclusion limit offset ntfs smb fetched))"

subsection \<open>What one principal can reach\<close>

definition page_item :: "effective_access \<Rightarrow> ntfs_resource_record option \<Rightarrow> share_record option \<Rightarrow> resolved_access" where
  "page_item access resource share =
     \<lparr>ra_access = access, ra_subject = None, ra_resource = resource, ra_share = share, ra_principals = Map.empty\<rparr>"

definition entries_of :: "(string \<rightharpoonup> 'a list) \<Rightarrow> string \<Rightarrow> 'a list" where
  "entries_of acls key = (case acls key of None \<Rightarrow> [] | Some es \<Rightarrow> es)"

definition resource_page :: "'c::linorder world \<Rightarrow> subject_token \<Rightarrow> string list \<Rightarrow> access_path \<Rightarrow> resolved_access list result" where
  "resource_page w token keys path =
     (let rows = ntfs_resources_by_keys (w_casefold w) (w_db w) keys;
          acls = ntfs_acls_for (w_casefold w) (w_coll w) (w_db w) keys MAX_ACL_FETCH;
          share_keys = sort (dict_fromkeys (concat (map (\<lambda>k. case rows k of None \<Rightarrow> [] | Some r \<Rightarrow> [nrr_share_key r]) (map (w_casefold w) keys))));
          shares = shares_by_keys (w_db w) share_keys;
          share_acls = (if path = REMOTE_SMB then share_acls_for (w_casefold w) (w_coll w) (w_db w) share_keys MAX_ACL_FETCH else Map.empty)
      in res_map (\<lambda>key.
           let row = rows key
           in res_bind (dacl_from w key row (entries_of acls key)) (\<lambda>dacl.
              res_bind (if path = REMOTE_SMB
                  then res_bind (case row of Some r \<Rightarrow> Inr (nrr_share_key r) | None \<Rightarrow> share_key_of w key) (\<lambda>sk.
                    res_bind (share_dacl_from sk (entries_of share_acls sk)) (\<lambda>sd. Inr (shares sk, Some sd)))
                  else Inr (None, None)) (\<lambda>(share_record, share).
              res_bind (resolve_access token dacl share []) (\<lambda>access. Inr (page_item access row share_record))))) keys)"

definition share_page :: "'c::linorder world \<Rightarrow> subject_token \<Rightarrow> string list \<Rightarrow> access_path \<Rightarrow> resolved_access list result" where
  "share_page w token keys path =
     (let shares = shares_by_keys (w_db w) keys;
          share_acls = share_acls_for (w_casefold w) (w_coll w) (w_db w) keys MAX_ACL_FETCH
      in res_bind (res_map (\<lambda>key. res_bind (parse_share_identifier key) (\<lambda>s.
             res_bind (mk_unc_path (shi_server s) (shi_name s) []) (\<lambda>p. Inr (unc_comparison_key (w_casefold w) p)))) keys) (\<lambda>root_keys.
         let roots = ntfs_resources_by_keys (w_casefold w) (w_db w) root_keys;
             root_acls = ntfs_acls_for (w_casefold w) (w_coll w) (w_db w) root_keys MAX_ACL_FETCH
         in res_map (\<lambda>(share_key, root_key).
              res_bind (dacl_from w root_key (roots root_key) (entries_of root_acls root_key)) (\<lambda>dacl.
              res_bind (if path = REMOTE_SMB
                  then res_bind (share_dacl_from share_key (entries_of share_acls share_key)) (\<lambda>sd. Inr (Some sd))
                  else Inr None) (\<lambda>share.
              res_bind (resolve_access token dacl share []) (\<lambda>access.
                Inr (page_item access (roots root_key) (shares share_key)))))) (zip keys root_keys)))"

record subject_access_page =
  sp_subject_key :: string
  sp_subject :: "principal_record option"
  sp_path :: access_path
  sp_items :: "resolved_access list"
  sp_has_more :: bool
  sp_next_key :: "string option"
  sp_token :: subject_token
  sp_principals :: "string \<rightharpoonup> principal_record"

definition accessible_resources ::
  "'c::linorder world \<Rightarrow> string \<Rightarrow> bool \<Rightarrow> access_path \<Rightarrow> traversal_limits \<Rightarrow> token_assumption option \<Rightarrow> int \<Rightarrow> string option \<Rightarrow> nat
   \<Rightarrow> (subject_access_page \<times> nat) result" where
  "accessible_resources w subject shares path lim assumption limit after fetched =
     (if shares \<and> path = LOCAL then Inl (DomainValidationError ''path'')
      else
        let record = get_principal (w_db w) subject
        in res_bind (build_subject_token w subject record path lim assumption fetched) (\<lambda>(token, labels, edges, fetched').
           let keys = sort (dict_fromkeys (map tok_key (st_entries token)));
               page = (if shares then shares_named_by (w_coll w) (w_db w) keys limit after
                       else resources_named_by (w_coll w) (w_db w) keys limit after)
           in res_bind (if shares then share_page w token (pg_items page) path else resource_page w token (pg_items page) path) (\<lambda>items.
              Inr (\<lparr>sp_subject_key = subject, sp_subject = record, sp_path = path, sp_items = items,
                     sp_has_more = pg_has_more page, sp_next_key = pg_next_key page, sp_token = token,
                     sp_principals = labels\<rparr>, fetched'))))"


subsection \<open>Rights depend on the trustees a token holds\<close>

lemma applicable_agree:
  assumes "ae_applies_to_this_object e \<Longrightarrow> token_contains t (ae_trustee_key e) \<longleftrightarrow> token_contains t' (ae_trustee_key e)"
    and "owner = None \<longleftrightarrow> owner' = None"
  shows "applicable t owner e \<longleftrightarrow> applicable t' owner' e"
  using assms by (auto simp: applicable_def match_entry_def token_contains_def)

lemma layer_grants_agree:
  assumes "\<forall>e \<in> set es. ae_applies_to_this_object e \<longrightarrow> (token_contains t (ae_trustee_key e) \<longleftrightarrow> token_contains t' (ae_trustee_key e))"
    and "\<forall>k. df_owner_key facts = Some k \<longrightarrow> (token_contains t k \<longleftrightarrow> token_contains t' k)"
  shows "layer_grants t facts es n \<longleftrightarrow> layer_grants t' facts es n"
proof -
  have owner: "owner_token_sid_of t facts = None \<longleftrightarrow> owner_token_sid_of t' facts = None"
    using assms(2) by (auto simp: owner_token_sid_of_def token_contains_def split: option.splits)
  have "filter (applicable t (owner_token_sid_of t facts)) (take MAX_ACL_ENTRIES es)
      = filter (applicable t' (owner_token_sid_of t' facts)) (take MAX_ACL_ENTRIES es)"
    using assms(1) by (intro filter_cong applicable_agree owner) (auto dest: in_set_takeD)
  then have "rulings_for t (owner_token_sid_of t facts) (take MAX_ACL_ENTRIES es)
      = rulings_for t' (owner_token_sid_of t' facts) (take MAX_ACL_ENTRIES es)" by (simp add: rulings_for_def)
  moreover have "owner_implicit t facts xs \<longleftrightarrow> owner_implicit t' facts xs" for xs
    using owner by (simp add: owner_implicit_def)
  ultimately show ?thesis by (simp add: layer_grants_def)
qed

lemma resolve_access_rights:
  assumes "resolve_access token resource share fs = Inr ea"
  shows "ea_rights ea = rmask (mask_value (ea_rights ea)) EFFECTIVE"
    and "bit (mask_value (ea_rights ea)) n \<longleftrightarrow> layer_grants token (rd_facts resource) (rd_entries resource) n
        \<and> (case share of None \<Rightarrow> True
           | Some s \<Rightarrow> sh_observed s \<longrightarrow> layer_grants token UNOWNED_PRESENT_DACL (sh_entries s) n)"
proof -
  obtain added where ntfs: "evaluate_acl (rd_entries resource) token NTFS (rd_facts resource) = Inr (ea_ntfs ea)"
    and cross: "cross_share token (ea_ntfs ea) share
      = Inr (ea_share ea, ea_crossed ea, ea_rights ea, ea_limiting_layer ea, added)"
    and path: "st_access_path token = REMOTE_SMB \<longleftrightarrow> share \<noteq> None"
    using resolve_access_parts [OF assms] by metis
  from cross_share_rights [OF ntfs path cross]
  have "mask_layer (ea_rights ea) = EFFECTIVE" and
    "bit (mask_value (ea_rights ea)) n \<longleftrightarrow> layer_grants token (rd_facts resource) (rd_entries resource) n
        \<and> (case share of None \<Rightarrow> True
           | Some s \<Rightarrow> sh_observed s \<longrightarrow> layer_grants token UNOWNED_PRESENT_DACL (sh_entries s) n)"
    by simp_all
  then show "ea_rights ea = rmask (mask_value (ea_rights ea)) EFFECTIVE"
    and "bit (mask_value (ea_rights ea)) n \<longleftrightarrow> layer_grants token (rd_facts resource) (rd_entries resource) n
        \<and> (case share of None \<Rightarrow> True
           | Some s \<Rightarrow> sh_observed s \<longrightarrow> layer_grants token UNOWNED_PRESENT_DACL (sh_entries s) n)"
    by (cases "ea_rights ea", simp)+
qed

lemma set_trustee_keys:
  "set (trustee_keys dacl share True) = {k. rd_owner_key dacl = Some k}
     \<union> ae_trustee_key ` {e \<in> set (rd_entries dacl). ae_applies_to_this_object e}
     \<union> (case share of None \<Rightarrow> {} | Some s \<Rightarrow> ae_trustee_key ` set (sh_entries s))"
  by (auto simp: trustee_keys_def split: option.splits)

lemma owner_facts_key: "df_owner_key (rd_facts dacl) = Some k \<Longrightarrow> rd_owner_key dacl = Some k \<or> rd_owner_key dacl = None \<and> rd_owner_sid dacl = Some k"
  by (auto simp: rd_facts_def mk_dacl_facts_def split: if_splits)

lemma equal_trustees_equal_rights:
  assumes "resolve_access t dacl share fs = Inr ea" "resolve_access t' dacl share fs' = Inr ea'"
    and "\<forall>k \<in> set (trustee_keys dacl share True). token_contains t k \<longleftrightarrow> token_contains t' k"
    and "rd_owner_key dacl = None \<longrightarrow> rd_owner_sid dacl = None"
  shows "ea_rights ea = ea_rights ea'"
proof -
  have "layer_grants t (rd_facts dacl) (rd_entries dacl) n \<longleftrightarrow> layer_grants t' (rd_facts dacl) (rd_entries dacl) n" for n
    using assms(3,4) owner_facts_key [of dacl] by (intro layer_grants_agree) (auto simp: set_trustee_keys)
  moreover have "layer_grants t UNOWNED_PRESENT_DACL (sh_entries s) n \<longleftrightarrow> layer_grants t' UNOWNED_PRESENT_DACL (sh_entries s) n"
    if "share = Some s" for s n
    using assms(3) that by (intro layer_grants_agree) (auto simp: set_trustee_keys UNOWNED_PRESENT_DACL_def mk_dacl_facts_def)
  ultimately have "mask_value (ea_rights ea) = mask_value (ea_rights ea')"
    by (simp add: mask_ext_iff resolve_access_rights(2) [OF assms(1)] resolve_access_rights(2) [OF assms(2)] split: option.splits)
  then show ?thesis using resolve_access_rights(1) [OF assms(1)] resolve_access_rights(1) [OF assms(2)] by metis
qed

text \<open>What a built token contains, by the groups it was built from.\<close>

lemma built_token_contains:
  assumes "build_token s groups path assumption complete fs = Inr t"
  shows "token_contains t k \<longleftrightarrow>
    (if k = subj_key s then presents_subject s path
     else presents_subject s path \<and> k \<in> tok_key ` set groups
       \<or> k \<in> fst ` set (assumed_sids (resolved_assumption s assumption) path))"
proof -
  obtain t' rest extra where t': "build_token s groups path assumption complete fs = Inr t'"
    and pr: "st_subject_presented t' = presents_subject s path" and en: "st_entries t' = own_entry s # rest @ extra"
    and rest: "set rest \<subseteq> (if presents_subject s path then set groups else {})"
    and extra: "\<forall>e \<in> set extra. (tok_key e, tok_origin e) \<in> set (assumed_sids (resolved_assumption s assumption) path)"
    and dist: "distinct (map tok_key (st_entries t'))"
    and keys: "token_keys t' = insert (subj_key s) ((if presents_subject s path then tok_key ` set groups else {})
            \<union> fst ` set (assumed_sids (resolved_assumption s assumption) path))"
    using build_token_facts [OF build_token_keyed [OF assms], of groups path assumption complete fs] by metis
  have t: "t' = t" using t' assms by simp
  show ?thesis
  proof (cases "k = subj_key s")
    case True
    have "find (\<lambda>c. tok_key c = k) (st_entries t) = Some (own_entry s)" using en True t by simp
    then show ?thesis using True pr t by (simp add: token_contains_def token_entry_def)
  next
    case False
    have "token_contains t k \<longleftrightarrow> k \<in> token_keys t"
    proof
      assume "k \<in> token_keys t"
      then obtain e where e: "e \<in> set (st_entries t)" "tok_key e = k" by (auto simp: token_keys_def)
      have "tok_origin e = ORIGIN_SUBJECT \<longrightarrow> st_subject_presented t"
      proof (cases "e \<in> set rest")
        case True
        then show ?thesis using rest pr t by (auto split: if_splits)
      next
        case False
        then have "e \<in> set extra" using e en t \<open>k \<noteq> subj_key s\<close> by auto
        then show ?thesis using extra assumed_sids_assumed by fastforce
      qed
      with e show "token_contains t k" using dist t by (auto simp: token_contains_iff)
    qed (use dist t in \<open>auto simp: token_contains_iff token_keys_def\<close>)
    then show ?thesis using keys t False by auto
  qed
qed

subsection \<open>The two questions agree\<close>

lemma map_of_filter_find: "P k \<Longrightarrow> map_of (map (\<lambda>r. (f r, r)) (filter (\<lambda>r. P (f r)) xs)) k = find (\<lambda>r. f r = k) xs"
  by (induction xs) auto

lemma principals_by_keys_get: "k \<in> set keys \<Longrightarrow> principals_by_keys db keys k = get_principal db k"
  unfolding principals_by_keys_def get_principal_def by_keys_def by (rule map_of_filter_find)

lemma res_map_keys:
  assumes "res_map f xs = Inr ys" "\<And>x y. f x = Inr y \<Longrightarrow> g y = h x"
  shows "map g ys = map h xs"
  using assms(1)
proof (induction xs arbitrary: ys)
  case (Cons x xs)
  then obtain y zs where "f x = Inr y" "res_map f xs = Inr zs" "ys = y # zs" by (auto simp: result_simps)
  then show ?case using Cons.IH [of zs] assms(2) by simp
qed simp

lemma res_map_in:
  assumes "res_map f xs = Inr ys" "y \<in> set ys"
  shows "\<exists>x \<in> set xs. f x = Inr y"
  using assms by (induction xs arbitrary: ys) (auto simp: result_simps)

text \<open>Every trustee that was expanded, with what the expansion found.\<close>

lemma expand_trustees_grows:
  "expand_trustees w lim ts rm s = Inr (rm', s') \<Longrightarrow> s \<le> s'"
proof (induction ts arbitrary: rm s)
  case (Cons t ts)
  then obtain m s1 rm1 where m: "effective_members w t lim s = Inr (m, s1)"
    and more: "expand_trustees w lim ts rm1 s1 = Inr (rm', s')" by (auto simp: result_simps)
  from m obtain st where "expand_walk t DOWN lim (adjacency_of w) s = Inr (st, s1)"
    unfolding effective_members_def by (rule em_complete_walk)
  then have "s \<le> s1" unfolding adjacency_of_def by (rule expand_walk_grows)
  then show ?case using Cons.IH [OF more] by simp
qed simp

lemma expand_trustees_kept: "expand_trustees w lim ts rm s = Inr (rm', s') \<Longrightarrow> set (rm_unenumerable rm) \<subseteq> set (rm_unenumerable rm')"
proof (induction ts arbitrary: rm s)
  case (Cons t ts)
  then obtain m s1 entries where
    "expand_trustees w lim ts
         \<lparr>rm_keys = rm_keys rm @ t # map ren_key (em_nodes m), rm_via = rm_via rm @ entries,
          rm_unenumerable = rm_unenumerable rm @ (if t \<in> WORLD_TRUSTEES then [t] else []) @ (if em_complete m then [] else [t])\<rparr>
         s1 = Inr (rm', s')" by (auto simp: result_simps)
  from Cons.IH [OF this] show ?case by auto
qed simp

lemma unspent_members:
  fixes w :: "'c::linorder world"
  assumes "edges_of (w_db w) = edge_rows tb" "service_expand w root d lim s = Inr (m, s')" "s' < w_edge_fetch_limit w" "em_complete m"
  shows "ren_key ` set (em_nodes m) = {k. reaches d (edges_out (edges_of (w_db w)) d) root k} - {root}"
    and "set (em_edges m) = {e \<in> set (edges_of (w_db w)). reaches d (edges_out (edges_of (w_db w)) d) root (ge_origin d e)}"
proof -
  obtain st where st: "expand_walk root d lim (adjacency_of w) s = Inr (st, s')"
      "map ren_key (em_nodes m) = map rn_key (expansion_nodes st)" "em_edges m = expansion_edges st"
      "em_complete m \<longleftrightarrow> expansion_complete st"
    using em_complete_walk [OF assms(2)] by metis
  note walk = unspent_walk_reaches [of root d lim "w_coll w" tb "w_edge_fetch_limit w" s st s']
  have "ren_key ` set (em_nodes m) = rn_key ` set (expansion_nodes st)" using st(2) by (metis set_map)
  then show "ren_key ` set (em_nodes m) = {k. reaches d (edges_out (edges_of (w_db w)) d) root k} - {root}"
    using walk(1) st assms(3,4) by (simp add: adjacency_of_def assms(1))
  show "set (em_edges m) = {e \<in> set (edges_of (w_db w)). reaches d (edges_out (edges_of (w_db w)) d) root (ge_origin d e)}"
    using walk(2) st assms(3,4) by (simp add: adjacency_of_def assms(1))
qed

lemma expanded_trustees:
  fixes w :: "'c::linorder world"
  assumes rows: "edges_of (w_db w) = edge_rows tb" and unspent: "s' < w_edge_fetch_limit w" and all: "rm_unenumerable rm' = []"
    and ex: "expand_trustees w lim ts rm s = Inr (rm', s')"
  shows "(\<lambda>(k, e). (k, tok_key e)) ` set (rm_via rm') = (\<lambda>(k, e). (k, tok_key e)) ` set (rm_via rm)
    \<union> {(k, t). t \<in> set ts \<and> k \<noteq> t \<and> reaches DOWN (edges_out (edges_of (w_db w)) DOWN) t k}"
  using ex
proof (induction ts arbitrary: rm s)
  case (Cons t ts)
  then obtain m s1 entries where m: "effective_members w t lim s = Inr (m, s1)"
    and en: "res_map (\<lambda>n. res_bind (token_sid_for n t) (\<lambda>e. Inr (ren_key n, e))) (em_nodes m) = Inr entries"
    and more: "expand_trustees w lim ts
         \<lparr>rm_keys = rm_keys rm @ t # map ren_key (em_nodes m), rm_via = rm_via rm @ entries,
          rm_unenumerable = rm_unenumerable rm @ (if t \<in> WORLD_TRUSTEES then [t] else []) @ (if em_complete m then [] else [t])\<rparr>
         s1 = Inr (rm', s')" by (auto simp: result_simps)
  have complete: "em_complete m" using expand_trustees_kept [OF more] all by (auto split: if_splits)
  have "s1 < w_edge_fetch_limit w" using expand_trustees_grows [OF more] unspent by simp
  from unspent_members(1) [OF rows m [unfolded effective_members_def] this complete]
  have nodes: "ren_key ` set (em_nodes m) = {k. reaches DOWN (edges_out (edges_of (w_db w)) DOWN) t k} - {t}" .
  have "map (\<lambda>(k, e). (k, tok_key e)) entries = map (\<lambda>n. (ren_key n, t)) (em_nodes m)"
    by (rule res_map_keys [OF en]) (auto simp: result_simps token_sid_for_def mk_token_sid_def split: if_splits)
  then have "(\<lambda>(k, e). (k, tok_key e)) ` set entries = (\<lambda>n. (ren_key n, t)) ` set (em_nodes m)" by (metis set_map)
  also have "\<dots> = {(k, t') . t' = t \<and> k \<in> ren_key ` set (em_nodes m)}" by auto
  finally show ?case unfolding Cons.IH [OF more] nodes by (auto simp: image_Un)
qed simp

lemma via_of_keys: "tok_key ` set (via_of rm k) = {t. (k, t) \<in> (\<lambda>(k, e). (k, tok_key e)) ` set (rm_via rm)}"
  by (force simp: via_of_def)

text \<open>Where the descriptor in front of a path comes from.\<close>

lemma resource_dacl_for_cases [consumes 1, case_names observed unread derived]:
  assumes "resource_dacl_for w ident = Inr (row, dacl)"
  obtains key r where "resource_key w ident = Inr key" "get_ntfs_resource (w_casefold w) (w_db w) key = Some r" "row = Some r"
      "dacl_from w key (Some r) (stored_acl w key) = Inr dacl"
    | key where "resource_key w ident = Inr key" "get_ntfs_resource (w_casefold w) (w_db w) key = None" "row = None"
      "mk_resource_dacl (unread_dacl key) = Inr dacl"
    | key a n entries where "resource_key w ident = Inr key" "get_ntfs_resource (w_casefold w) (w_db w) key = None" "row = None"
      "nearest_ancestor w key = Inr (Some a, n)" "nrr_dacl_present a"
      "mk_resource_dacl ((unread_dacl key)\<lparr>rd_entries := entries, rd_provenance := DERIVED,
         rd_derived_from := Some (nrr_resource_key a), rd_derived_distance := Some (int n)\<rparr>) = Inr dacl"
proof -
  obtain key where key: "resource_key w ident = Inr key" using assms by (auto simp: resource_dacl_for_def result_simps)
  show thesis
  proof (cases "get_ntfs_resource (w_casefold w) (w_db w) key")
    case (Some r)
    then show thesis using that(1) [of key r] assms key by (auto simp: resource_dacl_for_def result_simps)
  next
    case None
    then obtain a n where n: "nearest_ancestor w key = Inr (a, n)" using assms key by (auto simp: resource_dacl_for_def result_simps)
    show thesis
    proof (cases "a \<noteq> None \<and> nrr_dacl_present (the a)")
      case True
      then show thesis using that(3) [of key "the a" n] assms key None n by (auto simp: resource_dacl_for_def result_simps)
    next
      case False
      then show thesis using that(2) [of key] assms key None n
        by (auto simp: resource_dacl_for_def result_simps split: option.splits if_splits)
    qed
  qed
qed

lemma mk_resource_dacl_owner: "mk_resource_dacl r = Inr dacl \<Longrightarrow> rd_owner_key dacl = None \<Longrightarrow> rd_owner_sid dacl = None"
  by (auto simp: mk_resource_dacl_def split: if_splits)

lemma resource_dacl_for_owner:
  assumes "resource_dacl_for w ident = Inr (row, dacl)" "rd_owner_key dacl = None"
  shows "rd_owner_sid dacl = None"
  using assms(1)
proof (cases rule: resource_dacl_for_cases)
  case (observed key r)
  then obtain x where "mk_resource_dacl x = Inr dacl" by (auto simp: dacl_from_def result_simps split: option.splits)
  then show ?thesis using mk_resource_dacl_owner assms(2) by blast
qed (use mk_resource_dacl_owner assms(2) in blast)+

lemma group_token_keys:
  assumes "res_map group_token_sid ns = Inr gs" shows "map tok_key gs = map ren_key ns"
  by (rule res_map_keys [OF assms]) (auto simp: group_token_sid_def mk_token_sid_def split: if_splits)

text \<open>A token built from a complete membership, by a request that did not use up its rows, holds every group the stored rows reach.\<close>

lemma whole_membership:
  fixes w :: "'c::linorder world"
  assumes rows: "edges_of (w_db w) = edge_rows tb"
    and built: "build_subject_token w key r path lim assumption s = Inr (t, labels, edges, s')"
    and unspent: "s' < w_edge_fetch_limit w" and complete: "st_membership_complete t" and shown: "st_subject_presented t"
  shows "token_keys t = {k. reaches UP (edges_out (edges_of (w_db w)) UP) key k} \<union> fst ` set (assumed_sids (st_assumption t) path)"
proof -
  obtain facts m gs where facts: "subject_facts_of w key r = Inr facts"
    and m: "effective_groups w key lim s = Inr (m, s')" and gs: "res_map group_token_sid (em_nodes m) = Inr gs"
    and t: "build_token facts gs path assumption (em_complete m) (map cycle_finding (em_cycles m)) = Inr t"
    using built by (auto simp: build_subject_token_def result_simps Let_def)
  obtain t' where t': "build_token facts gs path assumption (em_complete m) (map cycle_finding (em_cycles m)) = Inr t'"
    and parts: "st_membership_complete t' = em_complete m" "st_subject_presented t' = presents_subject facts path"
      "st_assumption t' = resolved_assumption facts assumption"
    and keys: "token_keys t' = insert (subj_key facts) ((if presents_subject facts path then tok_key ` set gs else {})
            \<union> fst ` set (assumed_sids (resolved_assumption facts assumption) path))"
    by (rule build_token_facts [OF build_token_keyed [OF t], of gs path assumption "em_complete m" "map cycle_finding (em_cycles m)"]) blast
  have same: "t' = t" using t t' by simp
  have key: "subj_key facts = key" using facts by (auto simp: subject_facts_of_def mk_subject_facts_def result_simps split: option.splits if_splits)
  have "em_complete m" using parts(1) complete same by simp
  from unspent_members(1) [OF rows m [unfolded effective_groups_def] unspent this]
  have "ren_key ` set (em_nodes m) = {k. reaches UP (edges_out (edges_of (w_db w)) UP) key k} - {key}" .
  moreover have "tok_key ` set gs = ren_key ` set (em_nodes m)" using group_token_keys [OF gs] by (metis set_map)
  moreover have "reaches UP (edges_out (edges_of (w_db w)) UP) key key" by (rule reaches_root)
  ultimately show ?thesis using keys parts(2,3) shown same key by auto
qed

text \<open>The token of a page's item holds the same trustees of the directory as the token of the principal.\<close>

lemma item_holds_trustees:
  fixes w :: "'c::linorder world"
  assumes rows: "edges_of (w_db w) = edge_rows tb"
    and facts: "subject_facts_of w key r = Inr facts"
    and item: "build_token facts via path None c fs = Inr t"
    and via: "tok_key ` set via = {t \<in> set ts. key \<noteq> t \<and> reaches DOWN (edges_out (edges_of (w_db w)) DOWN) t key}"
    and direct: "build_subject_token w key r path lim None s = Inr (t', labels, edges, s')"
    and unspent: "s' < w_edge_fetch_limit w" and complete: "st_membership_complete t'" and k: "k \<in> set ts"
  shows "token_contains t k \<longleftrightarrow> token_contains t' k"
proof -
  obtain m gs where m: "effective_groups w key lim s = Inr (m, s')" and gs: "res_map group_token_sid (em_nodes m) = Inr gs"
    and t': "build_token facts gs path None (em_complete m) (map cycle_finding (em_cycles m)) = Inr t'"
    using direct by (auto simp: build_subject_token_def facts result_simps Let_def)
  have "st_membership_complete t' = em_complete m"
    using build_token_facts [OF build_token_keyed [OF t']] t' by (metis Inr_inject)
  from unspent_members(1) [OF rows m [unfolded effective_groups_def] unspent] complete this
  have "ren_key ` set (em_nodes m) = {k. reaches UP (edges_out (edges_of (w_db w)) UP) key k} - {key}" by simp
  moreover have "tok_key ` set gs = ren_key ` set (em_nodes m)" using group_token_keys [OF gs] by (metis set_map)
  ultimately have gs_keys: "tok_key ` set gs = {k. reaches DOWN (edges_out (edges_of (w_db w)) DOWN) k key} - {key}"
    by (simp add: reaches_dual)
  have "subj_key facts = key" using facts by (auto simp: subject_facts_of_def mk_subject_facts_def result_simps split: option.splits if_splits)
  then show ?thesis
    unfolding built_token_contains [OF item] built_token_contains [OF t'] via gs_keys using k by auto
qed

text \<open>What an answered page was built from.\<close>

lemma effective_principals_parts:
  assumes "effective_principals w identifier path lim inclusion limit offset f0 = Inr (page, f1)"
  obtains resource dacl share_record share rm window rest where
      "resource_dacl_for w identifier = Inr (resource, dacl)" "share_side w identifier path resource = Inr (share_record, share)"
      "expand_trustees w lim (take MAX_EXPANDED_TRUSTEES (trustee_keys dacl share True))
              \<lparr>rm_keys = [], rm_via = [], rm_unenumerable = []\<rparr> f0 = Inr (rm, f1)"
      "rp_unenumerable_trustees page = dict_fromkeys (rm_unenumerable rm)"
      "rp_truncated_trustees page \<longleftrightarrow> MAX_EXPANDED_TRUSTEES < length (trustee_keys dacl share True)"
      "set window \<subseteq> set (access_candidates w rm inclusion)"
      "res_map (access_item w path dacl share (principals_by_keys (w_db w) (sort (dict_fromkeys (map fst window @ rest))))) window
         = Inr (rp_items page)"
proof -
  obtain resource dacl share_record share where dacl: "resource_dacl_for w identifier = Inr (resource, dacl)"
    and share: "share_side w identifier path resource = Inr (share_record, share)"
    and page: "enumerate_principals w path lim inclusion limit offset (resource, dacl) (share_record, share) f0 = Inr (page, f1)"
    using assms by (auto simp: effective_principals_def result_simps)
  then obtain rm f where rm: "expand_trustees w lim (take MAX_EXPANDED_TRUSTEES (trustee_keys dacl share True))
              \<lparr>rm_keys = [], rm_via = [], rm_unenumerable = []\<rparr> f0 = Inr (rm, f)"
    unfolding enumerate_principals_def Let_def by (auto simp: result_simps)
  define window where "window = take (nat (max 1 limit)) (drop (nat (max 0 offset)) (access_candidates w rm inclusion))"
  have "set window \<subseteq> set (access_candidates w rm inclusion)"
    unfolding window_def by (meson order_trans set_drop_subset set_take_subset)
  moreover have "f = f1 \<and> rp_unenumerable_trustees page = dict_fromkeys (rm_unenumerable rm)
    \<and> rp_truncated_trustees page = (MAX_EXPANDED_TRUSTEES < length (trustee_keys dacl share True))
    \<and> (\<exists>rest. res_map (access_item w path dacl share (principals_by_keys (w_db w) (sort (dict_fromkeys (map fst window @ rest))))) window
         = Inr (rp_items page))"
    using page rm by (auto simp: enumerate_principals_def Let_def window_def result_simps)
  ultimately show thesis using that dacl share rm by blast
qed

text \<open>
  C3. The two ways of asking give the same answer. When the page that inverts the question for a
  directory says it is complete, and the direct question for a principal of that page is answered over
  a complete membership, and neither request used up its repository's rows, the rights the page
  reports for the principal are those of the direct answer: expanding the trustees downward and
  walking from the principal upward meet in the same trustees, and nothing else of a token counts.
\<close>

theorem inverted_answers_agree:
  fixes w :: "'c::linorder world"
  assumes page: "effective_principals w identifier path lim inclusion limit offset f0 = Inr (page, f1)" "rp_complete page"
    and item: "item \<in> set (rp_items page)"
    and direct: "service_effective_access w (pa_key item) identifier path lim' None g0 = Inr (answer, g1)"
    and rows: "edges_of (w_db w) = edge_rows tb"
    and unspent: "f1 < w_edge_fetch_limit w" "g1 < w_edge_fetch_limit w"
    and complete: "st_membership_complete (ea_token (ra_access answer))"
  shows "ea_rights (pa_access item) = ea_rights (ra_access answer)"
proof -
  obtain resource dacl share_record share rm window rest where
      dacl: "resource_dacl_for w identifier = Inr (resource, dacl)"
    and share: "share_side w identifier path resource = Inr (share_record, share)"
    and rm: "expand_trustees w lim (take MAX_EXPANDED_TRUSTEES (trustee_keys dacl share True))
              \<lparr>rm_keys = [], rm_via = [], rm_unenumerable = []\<rparr> f0 = Inr (rm, f1)"
    and un: "rp_unenumerable_trustees page = dict_fromkeys (rm_unenumerable rm)"
    and tr: "rp_truncated_trustees page \<longleftrightarrow> MAX_EXPANDED_TRUSTEES < length (trustee_keys dacl share True)"
    and window: "set window \<subseteq> set (access_candidates w rm inclusion)"
    and items: "res_map (access_item w path dacl share (principals_by_keys (w_db w) (sort (dict_fromkeys (map fst window @ rest))))) window
         = Inr (rp_items page)"
    using effective_principals_parts [OF page(1)] .
  define ts where "ts = trustee_keys dacl share True"
  have empty: "rm_unenumerable rm = []"
    using un page(2) set_dict_fromkeys [of "rm_unenumerable rm"] by (simp add: rp_complete_def)
  have "take MAX_EXPANDED_TRUSTEES ts = ts" using tr page(2) by (simp add: rp_complete_def ts_def)
  with expanded_trustees [OF rows unspent(1) empty rm]
  have via: "tok_key ` set (via_of rm k) = {t \<in> set ts. k \<noteq> t \<and> reaches DOWN (edges_out (edges_of (w_db w)) DOWN) t k}" for k
    unfolding via_of_keys by (auto simp: ts_def)
  obtain kv where kv: "kv \<in> set window"
    and it: "access_item w path dacl share (principals_by_keys (w_db w) (sort (dict_fromkeys (map fst window @ rest)))) kv = Inr item"
    using res_map_in [OF items item] by blast
  obtain key where key: "kv = (key, via_of rm key)" using kv window by (auto simp: access_candidates_def Let_def)
  have "principals_by_keys (w_db w) (sort (dict_fromkeys (map fst window @ rest))) key = get_principal (w_db w) key"
    using kv key by (intro principals_by_keys_get) force
  with it key obtain facts t where facts: "subject_facts_of w key (get_principal (w_db w) key) = Inr facts"
    and t: "build_token facts (via_of rm key) path None True [] = Inr t"
    and access: "resolve_access t dacl share [] = Inr (pa_access item)" and pk: "pa_key item = key"
    by (auto simp: access_item_def Let_def result_simps)
  obtain t' labels edges where t': "build_subject_token w key (get_principal (w_db w) key) path lim' None g0 = Inr (t', labels, edges, g1)"
    and access': "resolve_access t' dacl share (coverage_findings w t' dacl share) = Inr (ra_access answer)"
    using direct dacl share
    by (auto simp: service_effective_access_def resolve_one_def Let_def result_simps pk split: prod.splits)
  have "ea_token (ra_access answer) = t'" using resolve_access_parts [OF access'] by metis
  then have "token_contains t k \<longleftrightarrow> token_contains t' k" if "k \<in> set ts" for k
    using item_holds_trustees [OF rows facts t via t' unspent(2) _ that] complete by simp
  then show ?thesis
    using equal_trustees_equal_rights [OF access access'] resource_dacl_for_owner [OF dacl] by (simp add: ts_def)
qed


text \<open>One directory, one permission for a group, one member that no principal row names.\<close>

definition share_path :: string where "share_path = [CHR 0x5C, CHR 0x5C] @ ''fs'' @ [CHR 0x5C] @ ''d''"

definition small_edges :: edge_table where "small_edges = Edge_Table [sample_edge ''1'' ''G'' ''S-1-5-21-7'']"

lemma small_rows: "edge_rows small_edges = [sample_edge ''1'' ''G'' ''S-1-5-21-7'']"
  unfolding small_edges_def by (rule Edge_Table_inverse) (simp add: sample_edge_def mk_graph_edge_def)

definition group_row :: principal_record where
  "group_row = \<lparr>pn_principal_key = ''G'', pn_sid = ''G'', pn_principal_kind = PK_DOMAIN_GROUP, pn_host_key = None, pn_domain_sid = None,
     pn_display_name = None, pn_sam_account_name = None, pn_user_principal_name = None, pn_distinguished_name = None,
     pn_group_scope = None, pn_group_type = None, pn_enabled = None, pn_is_deleted = False, pn_unresolved_reason = None,
     pn_last_known_name = None, pn_first_observed_at = 0, pn_first_observed_run_id = ''r'', pn_last_observed_at = 0, pn_last_observed_run_id = ''r''\<rparr>"

definition small_world :: "nat world" where
  "small_world = \<lparr>w_db = \<lparr>st_servers = [], st_shares = [], st_share_aces = [], st_resources = [sample_dir share_path True False],
       st_ntfs_aces = [(sample_ace ''1'' ''G'' ALLOW 1 (Some 0))\<lparr>nar_resource_key := share_path\<rparr>], st_references = [],
       st_principals = [group_row], st_memberships = [\<lparr>mr_edge = sample_edge ''1'' ''G'' ''S-1-5-21-7'', mr_first_observed_at = 0,
         mr_last_observed_at = 0, mr_last_observed_run_id = ''r''\<rparr>]\<rparr>,
     w_casefold = id, w_coll = no_collation, w_stamp = (\<lambda>_. []), w_edge_fetch_limit = 7\<rparr>"

definition small_dacl :: resource_dacl where
  "small_dacl = (case resource_dacl_for small_world share_path of Inr (_, d) \<Rightarrow> d | Inl _ \<Rightarrow> unread_dacl [])"

lemma small_dacl: "case resource_dacl_for small_world share_path of Inl _ \<Rightarrow> False
   | Inr (r, d) \<Rightarrow> trustee_keys d None True = [''G''] \<and> map ae_layer (rd_entries d) = [NTFS]"
  by code_simp

lemma small_expansion:
  "case expand_trustees small_world search_limits [''G''] \<lparr>rm_keys = [], rm_via = [], rm_unenumerable = []\<rparr> 0 of Inl _ \<Rightarrow> False
   | Inr (rm, s) \<Rightarrow> s = 1 \<and> rm_unenumerable rm = [] \<and> map fst (access_candidates small_world rm INC_NON_GROUPS) = [''S-1-5-21-7'']"
  by code_simp

lemma small_groups:
  "case effective_groups small_world ''S-1-5-21-7'' search_limits 0 of Inl _ \<Rightarrow> False
   | Inr (m, s) \<Rightarrow> s = 1 \<and> em_complete m \<and> map ren_key (em_nodes m) = [''G'']"
  by code_simp

lemma small_access:
  assumes "build_token facts groups LOCAL None c fs = Inr t" "set (map ae_layer (rd_entries dacl)) \<subseteq> {NTFS}"
  shows "\<exists>ea. resolve_access t dacl None fs' = Inr ea \<and> ea_token ea = t \<and> st_membership_complete t = c"
proof -
  have t: "st_access_path t = LOCAL" "st_membership_complete t = c"
    using build_token_facts [OF build_token_keyed [OF assms(1)]] assms(1) by (metis Inr_inject)+
  have "ae_layer e = NTFS" if "e \<in> set (rd_entries dacl)" for e using assms(2) that by auto
  then obtain ea where ea: "resolve_access t dacl None fs' = Inr ea"
    using resolve_access_errors_iff [of t dacl None fs'] t(1)
    by (cases "resolve_access t dacl None fs'") (auto simp: layers_fit_def)
  then have "ea_token ea = t" by (metis resolve_access_parts)
  with ea t(2) show ?thesis by blast
qed

lemma small_token:
  assumes "subj_key facts = ''S-1-5-21-7''"
  shows "\<exists>t. build_token facts groups path None c fs = Inr t"
  using build_token_facts [of facts groups path None c fs] assms by (metis list.distinct(1))

lemma small_split: "split_key ''S-1-5-21-7'' = (None, ''S-1-5-21-7'')" by code_simp

lemma small_facts: "\<exists>f. subject_facts_of small_world ''S-1-5-21-7'' None = Inr f \<and> subj_key f = ''S-1-5-21-7''"
  by (simp add: subject_facts_of_def mk_subject_facts_def sid_of_def small_split sample_sid_parses)

lemma small_unknown: "get_principal (w_db small_world) ''S-1-5-21-7'' = None" by code_simp

lemma inverted_answers_agree_witness:
  "\<exists>page item answer f1 g1. effective_principals small_world share_path LOCAL search_limits INC_NON_GROUPS 10 0 0 = Inr (page, f1)
     \<and> item \<in> set (rp_items page) \<and> pa_key item = ''S-1-5-21-7''
     \<and> service_effective_access small_world ''S-1-5-21-7'' share_path LOCAL search_limits None 0 = Inr (answer, g1)
     \<and> ea_rights (pa_access item) = ea_rights (ra_access answer)"
proof -
  obtain r d where d: "resource_dacl_for small_world share_path = Inr (r, d)" "trustee_keys d None True = [''G'']"
      "map ae_layer (rd_entries d) = [NTFS]" using small_dacl by (auto split: sum.splits)
  obtain rm where rm: "expand_trustees small_world search_limits [''G''] \<lparr>rm_keys = [], rm_via = [], rm_unenumerable = []\<rparr> 0 = Inr (rm, 1)"
      "rm_unenumerable rm = []" "map fst (access_candidates small_world rm INC_NON_GROUPS) = [''S-1-5-21-7'']"
    using small_expansion by (auto split: sum.splits)
  obtain m where m: "effective_groups small_world ''S-1-5-21-7'' search_limits 0 = Inr (m, 1)" "em_complete m" "map ren_key (em_nodes m) = [''G'']"
    using small_groups by (auto split: sum.splits)
  obtain n where n: "em_nodes m = [n]" "ren_key n = ''G''" using m(3) by auto
  obtain g where g: "group_token_sid n = Inr g" using n by (auto simp: group_token_sid_def mk_token_sid_def)
  obtain f where f: "subject_facts_of small_world ''S-1-5-21-7'' None = Inr f" "subj_key f = ''S-1-5-21-7''" using small_facts by blast
  obtain via where via: "access_candidates small_world rm INC_NON_GROUPS = [(''S-1-5-21-7'', via)]" using rm(3) by auto
  obtain t where t: "build_token f via LOCAL None True [] = Inr t" using small_token [OF f(2)] by blast
  obtain t' where t': "build_token f [g] LOCAL None True (map cycle_finding (em_cycles m)) = Inr t'" using small_token [OF f(2)] by blast
  obtain ea where ea: "resolve_access t d None [] = Inr ea" using small_access [OF t, of d "[]"] d(3) by auto
  obtain ea' where ea': "resolve_access t' d None (coverage_findings small_world t' d None) = Inr ea'" "ea_token ea' = t'" "st_membership_complete t'"
    using small_access [OF t', of d "coverage_findings small_world t' d None"] d(3) by auto
  have unknown: "principals_by_keys (w_db small_world) ks ''S-1-5-21-7'' = None" for ks
    using small_unknown principals_by_keys_get [of "''S-1-5-21-7''" ks "w_db small_world"]
    by (cases "''S-1-5-21-7'' \<in> set ks") (auto simp: principals_by_keys_def by_keys_def map_of_eq_None_iff)
  obtain page item where page: "effective_principals small_world share_path LOCAL search_limits INC_NON_GROUPS 10 0 0 = Inr (page, 1)"
      "rp_complete page" "rp_items page = [item]" "pa_key item = ''S-1-5-21-7''"
    using d rm via f t ea
    by (simp add: effective_principals_def enumerate_principals_def share_side_def Let_def MAX_EXPANDED_TRUSTEES_def access_item_def unknown rp_complete_def)
  obtain answer where answer: "service_effective_access small_world ''S-1-5-21-7'' share_path LOCAL search_limits None 0 = Inr (answer, 1)"
      "ra_access answer = ea'"
    using d m n g f t' ea'
    by (simp add: service_effective_access_def resolve_one_def share_side_def build_subject_token_def Let_def small_unknown)
  have rows: "edges_of (w_db small_world) = edge_rows small_edges" by (simp add: small_world_def edges_of_def small_rows)
  have limit: "1 < w_edge_fetch_limit small_world" by (simp add: small_world_def)
  have "ea_rights (pa_access item) = ea_rights (ra_access answer)"
    using inverted_answers_agree [OF page(1,2) _ _ rows limit limit, of item search_limits 0 answer] page(3,4) answer ea' by simp
  with page answer show ?thesis by auto
qed

subsection \<open>What an answer says about its inputs\<close>

text \<open>
  Where a descriptor comes from is part of the answer. A stored directory is answered from its own
  row; an unread one from the nearest stored ancestor whose DACL was read, with that ancestor and its
  distance named; and with no such ancestor there are no entries and nothing is claimed.
\<close>

theorem descriptor_provenance:
  assumes "resource_dacl_for w identifier = Inr (row, dacl)"
  shows "\<exists>key. resource_key w identifier = Inr key \<and> row = get_ntfs_resource (w_casefold w) (w_db w) key
    \<and> (case row of
         Some r \<Rightarrow> rd_provenance dacl = OBSERVED \<and> rd_resource_key dacl = nrr_resource_key r
           \<and> rd_dacl_present dacl = nrr_dacl_present r \<and> rd_declared_ace_count dacl = Some (nrr_ace_count r)
           \<and> length (rd_entries dacl) = length (stored_acl w key)
       | None \<Rightarrow> rd_resource_key dacl = key \<and> rd_owner_key dacl = None
           \<and> (case rd_provenance dacl of
                OBSERVED \<Rightarrow> False
              | UNOBSERVED \<Rightarrow> rd_entries dacl = [] \<and> rd_derived_from dacl = None
              | DERIVED \<Rightarrow> (\<exists>a n. nearest_ancestor w key = Inr (Some a, n) \<and> nrr_dacl_present a
                  \<and> rd_derived_from dacl = Some (nrr_resource_key a) \<and> rd_derived_distance dacl = Some (int n))))"
  using assms
proof (cases rule: resource_dacl_for_cases)
  case (observed key r)
  then obtain entries owner where e: "res_map entry_from (stored_acl w key) = Inr entries"
    and mk: "mk_resource_dacl
            \<lparr>rd_resource_key = nrr_resource_key r, rd_entries = entries, rd_dacl_present = nrr_dacl_present r,
             rd_dacl_protected = nrr_dacl_protected r, rd_owner_sid = nrr_owner_sid r, rd_owner_key = owner,
             rd_declared_ace_count = Some (nrr_ace_count r), rd_provenance = OBSERVED, rd_derived_from = None,
             rd_derived_distance = None\<rparr> = Inr dacl"
    by (auto simp: dacl_from_def result_simps)
  have "length entries = length (stored_acl w key)" using res_map_keys [OF e, of "\<lambda>_. ()" "\<lambda>_. ()"] map_eq_imp_length_eq by blast
  then show ?thesis using observed mk by (auto simp: mk_resource_dacl_def split: if_splits)
next
  case (unread key)
  then show ?thesis by (auto simp: mk_resource_dacl_def unread_dacl_def split: if_splits)
next
  case (derived key a n entries)
  then show ?thesis by (auto simp: mk_resource_dacl_def unread_dacl_def split: if_splits)
qed

lemma descriptor_provenance_witness:
  "\<exists>row dacl key. resource_dacl_for small_world share_path = Inr (row, dacl) \<and> resource_key small_world share_path = Inr key
     \<and> row = get_ntfs_resource id (w_db small_world) key"
proof -
  obtain row dacl where d: "resource_dacl_for small_world share_path = Inr (row, dacl)" using small_dacl by (auto split: sum.splits)
  have "w_casefold small_world = id" by (simp add: small_world_def)
  with descriptor_provenance [OF d] d show ?thesis by auto
qed

lemma certain_has_no_direction: "c = CERTAIN \<longleftrightarrow> \<not> may_overstate c \<and> \<not> may_understate c"
  by (cases c) (simp_all add: may_overstate_def may_understate_def)

lemma resolved_conditions:
  assumes "resolve_access token dacl share fs = Inr ea" "f \<in> set fs \<or> f \<in> set (st_findings token)"
    and "fi_condition f \<in> UNDERSTATING_CONDITIONS"
  shows "ea_certainty ea \<noteq> CERTAIN"
proof -
  obtain added where found: "ea_findings ea = st_findings token @ ntfs_findings (ea_ntfs ea) dacl
           @ provenance_findings dacl @ added @ escalation_findings (ea_rights ea) @ fs"
    and cert: "ea_certainty ea = certainty_of (ea_findings ea)"
    using resolve_access_parts [OF assms(1)] by metis
  have "fi_condition f \<in> conditions_of (ea_findings ea)" using assms(2) by (auto simp: found conditions_of_def)
  then have "may_understate (ea_certainty ea)" using assms(3) by (auto simp: cert certainty_directions)
  then show ?thesis by (simp add: certain_has_no_direction)
qed

lemma coverage_finding_of:
  assumes "k \<in> set (trustee_keys dacl share False)" "\<not> token_contains token k" "could_contain_members (get_principal (w_db w) k)"
    and "\<forall>e \<in> set (edges_of (w_db w)). ge_group_key e \<noteq> k"
  shows "finding AC_TRUSTEE_MEMBERSHIP_UNOBSERVED [(''trustee_key'', DStr k)] \<in> set (coverage_findings w token dacl share)"
proof -
  define cs where "cs = filter (\<lambda>k. \<not> token_contains token k) (trustee_keys dacl share False)"
  define ps where "ps = filter (\<lambda>k. could_contain_members (principals_by_keys (w_db w) cs k)) cs"
  have "k \<in> set cs" using assms(1,2) by (simp add: cs_def)
  then have "k \<in> set ps" using assms(3) by (simp add: ps_def principals_by_keys_get)
  moreover have "k \<notin> set (keys_with_members (w_db w) ps)" using assms(4) by (auto simp: keys_with_members_def list_ex_iff)
  ultimately show ?thesis
    using \<open>k \<in> set cs\<close> by (auto simp: coverage_findings_def Let_def cs_def [symmetric] ps_def [symmetric] unobserved_trustee_findings_def)
qed

lemma incomplete_token_noted:
  assumes "build_token s groups path assumption False fs = Inr t"
  shows "finding AC_MEMBERSHIP_TRUNCATED [(''subject_key'', DStr (subj_key s))] \<in> set (st_findings t)"
proof -
  obtain t' withheld rest where t': "build_token s groups path assumption False fs = Inr t'"
    and noted: "st_findings t' = fs @ token_notes s path (presents_subject s path) withheld False @ rest"
    by (rule build_token_facts [OF build_token_keyed [OF assms], of groups path assumption False fs]) blast
  have "finding AC_MEMBERSHIP_TRUNCATED [(''subject_key'', DStr (subj_key s))]
      \<in> set (token_notes s path (presents_subject s path) withheld False)" by (simp add: token_notes_def)
  moreover have "t' = t" using t' assms by simp
  ultimately show ?thesis using noted by simp
qed

text \<open>
  C4. A CERTAIN answer is earned by what was read: the directory's own descriptor, over SMB its share's
  ACL, a membership that was not cut short, and for every trustee of these ACLs that the token does not
  hold and that may be a group, at least one stored membership of it. The absence of an unread group's
  members never passes for the absence of a membership. When moreover the request did not use up its
  repository's rows and the token presents its subject, the token's keys are the subject's whole
  stored membership, direct and nested, with the assumed SIDs of the sign-in. (A used-up repository
  reads nothing more and still calls what it returns complete, so that condition cannot be dropped.)
\<close>

theorem certain_answers_are_covered:
  assumes ans: "service_effective_access w subject identifier path lim assumption f0 = Inr (answer, f1)"
    and cert: "ea_certainty (ra_access answer) = CERTAIN"
  shows "\<exists>row dacl sr share. resource_dacl_for w identifier = Inr (Some row, dacl) \<and> rd_provenance dacl = OBSERVED
    \<and> share_side w identifier path (Some row) = Inr (sr, share)
    \<and> (path = REMOTE_SMB \<longrightarrow> (\<exists>s. share = Some s \<and> sh_observed s \<and> sh_entries s \<noteq> []))
    \<and> st_membership_complete (ea_token (ra_access answer))
    \<and> (\<forall>tb. edges_of (w_db w) = edge_rows tb \<and> f1 < w_edge_fetch_limit w \<and> st_subject_presented (ea_token (ra_access answer))
        \<longrightarrow> token_keys (ea_token (ra_access answer)) = {k. reaches UP (edges_out (edges_of (w_db w)) UP) subject k}
             \<union> fst ` set (assumed_sids (st_assumption (ea_token (ra_access answer))) path))
    \<and> (\<forall>k \<in> set (trustee_keys dacl share False). token_contains (ea_token (ra_access answer)) k
        \<or> \<not> could_contain_members (get_principal (w_db w) k) \<or> (\<exists>e \<in> set (edges_of (w_db w)). ge_group_key e = k))"
proof -
  obtain t labels edges row dacl sr share where
      t: "build_subject_token w subject (get_principal (w_db w) subject) path lim assumption f0 = Inr (t, labels, edges, f1)"
    and dacl: "resource_dacl_for w identifier = Inr (row, dacl)" and share: "share_side w identifier path row = Inr (sr, share)"
    and access: "resolve_access t dacl share (coverage_findings w t dacl share) = Inr (ra_access answer)"
    using ans by (auto simp: service_effective_access_def resolve_one_def Let_def result_simps split: prod.splits)
  have tok: "ea_token (ra_access answer) = t" using resolve_access_parts [OF access] by metis
  have none: "\<not> may_overstate (ea_certainty (ra_access answer))" "\<not> may_understate (ea_certainty (ra_access answer))"
    using cert by (simp_all add: certain_has_no_direction)
  note unread = unread_widens [OF access]
  have obs: "rd_provenance dacl = OBSERVED" using unread none by (cases "rd_provenance dacl") auto
  have "row \<noteq> None"
    by (rule resource_dacl_for_cases [OF dacl]) (use obs in \<open>auto simp: mk_resource_dacl_def unread_dacl_def split: if_splits\<close>)
  then obtain r where row: "row = Some r" by blast
  have seen: "sh_observed s" if "share = Some s" for s using unread none that by auto
  have entries: "sh_entries s \<noteq> []" if "share = Some s" for s
    using share that seen [OF that] by (auto simp: share_side_def share_dacl_for_def share_dacl_from_def mk_share_dacl_def result_simps row
        dest!: res_map_keys [where g = "\<lambda>_. ()" and h = "\<lambda>_. ()"] split: if_splits)
  have smb: "path = REMOTE_SMB \<Longrightarrow> \<exists>s. share = Some s" using share by (auto simp: share_side_def result_simps)
  obtain facts gs c fs where built: "build_token facts gs path assumption c fs = Inr t"
    using t by (auto simp: build_subject_token_def result_simps Let_def)
  have c: "st_membership_complete t = c"
    using build_token_facts [OF build_token_keyed [OF built]] built by (metis Inr_inject)
  have complete: "st_membership_complete t"
  proof (rule ccontr)
    assume "\<not> st_membership_complete t"
    with built c have "build_token facts gs path assumption False fs = Inr t" by simp
    from resolved_conditions [OF access disjI2 [OF incomplete_token_noted [OF this]]] cert show False
      by (simp add: UNDERSTATING_CONDITIONS_def)
  qed
  have "token_contains t k \<or> \<not> could_contain_members (get_principal (w_db w) k) \<or> (\<exists>e \<in> set (edges_of (w_db w)). ge_group_key e = k)"
    if k: "k \<in> set (trustee_keys dacl share False)" for k
    using resolved_conditions [OF access disjI1 [OF coverage_finding_of [OF k]]] cert
    by (auto simp: UNDERSTATING_CONDITIONS_def)
  moreover have "token_keys t = {k. reaches UP (edges_out (edges_of (w_db w)) UP) subject k} \<union> fst ` set (assumed_sids (st_assumption t) path)"
    if "edges_of (w_db w) = edge_rows tb" "f1 < w_edge_fetch_limit w" "st_subject_presented t" for tb
    using whole_membership [OF that(1) t that(2) complete that(3)] .
  ultimately show ?thesis using dacl share row obs smb seen entries complete unfolding tok by blast
qed

definition user_row :: principal_record where
  "user_row = group_row\<lparr>pn_principal_key := ''S-1-5-21-7'', pn_sid := ''S-1-5-21-7'', pn_principal_kind := PK_USER, pn_enabled := Some True\<rparr>"

definition empty_world :: "nat world" where
  "empty_world = small_world\<lparr>w_db := (w_db small_world)\<lparr>st_ntfs_aces := [], st_principals := [user_row], st_memberships := []\<rparr>\<rparr>"

definition user_facts :: subject_facts where
  "user_facts = \<lparr>subj_key = ''S-1-5-21-7'', subj_sid = ''S-1-5-21-7'', subj_kind = Some PK_USER, subj_display_name = None,
     subj_enabled = Some True, subj_last_observed_run_id = Some ''r'', subj_last_observed_at = Some []\<rparr>"

lemma user_facts_read: "subject_facts_of empty_world ''S-1-5-21-7'' (Some user_row) = Inr user_facts"
  by (simp add: subject_facts_of_def mk_subject_facts_def user_row_def group_row_def sample_sid_parses user_facts_def
      empty_world_def small_world_def)

lemma empty_groups:
  "case effective_groups empty_world ''S-1-5-21-7'' search_limits 0 of Inl _ \<Rightarrow> False
   | Inr (m, s) \<Rightarrow> em_complete m \<and> em_nodes m = [] \<and> em_cycles m = []"
  by code_simp

definition empty_dacl :: resource_dacl where
  "empty_dacl = (case resource_dacl_for empty_world share_path of Inl _ \<Rightarrow> unread_dacl [] | Inr (r, d) \<Rightarrow> d)"

definition user_token :: subject_token where
  "user_token = (case build_token user_facts [] LOCAL None True [] of Inl _ \<Rightarrow> sample_token LOCAL | Inr t \<Rightarrow> t)"

lemma empty_inputs: "\<exists>r. resource_dacl_for empty_world share_path = Inr (r, empty_dacl)"
  "build_token user_facts [] LOCAL None True [] = Inr user_token"
proof -
  have "case resource_dacl_for empty_world share_path of Inl _ \<Rightarrow> False | Inr _ \<Rightarrow> True" by code_simp
  then show "\<exists>r. resource_dacl_for empty_world share_path = Inr (r, empty_dacl)"
    by (auto simp: empty_dacl_def split: sum.splits)
  have "case build_token user_facts [] LOCAL None True [] of Inl _ \<Rightarrow> False | Inr _ \<Rightarrow> True" by code_simp
  then show "build_token user_facts [] LOCAL None True [] = Inr user_token" by (simp add: user_token_def split: sum.splits)
qed

lemma empty_dacl_simps:
  "rd_entries empty_dacl = []" "rd_provenance empty_dacl = OBSERVED" "coverage_findings empty_world user_token empty_dacl None = []"
  "map fi_condition (st_findings user_token) = [AC_ASSUMED_TOKEN_SIDS]"
  by code_simp+

lemma empty_evaluation:
  "case evaluate_acl (rd_entries empty_dacl) user_token NTFS (rd_facts empty_dacl) of Inl _ \<Rightarrow> False
   | Inr e \<Rightarrow> map fi_condition (ev_findings e) = [AC_EMPTY_DACL]"
  "case evaluate_acl (rd_entries empty_dacl) user_token NTFS (rd_facts empty_dacl) of Inl _ \<Rightarrow> False
   | Inr e \<Rightarrow> (case cross_share user_token e None of Inl _ \<Rightarrow> False | Inr (sh, cr, rights, ll, added) \<Rightarrow> rights = rmask 0 EFFECTIVE \<and> added = [])"
  by code_simp+

lemma empty_access: "\<exists>ea. resolve_access user_token empty_dacl None [] = Inr ea \<and> ea_certainty ea = CERTAIN"
proof -
  obtain ea where ea: "resolve_access user_token empty_dacl None [] = Inr ea"
    using small_access [OF empty_inputs(2), of empty_dacl "[]"] by (auto simp: empty_dacl_simps(1))
  obtain added where parts: "evaluate_acl (rd_entries empty_dacl) user_token NTFS (rd_facts empty_dacl) = Inr (ea_ntfs ea)"
      "cross_share user_token (ea_ntfs ea) None = Inr (ea_share ea, ea_crossed ea, ea_rights ea, ea_limiting_layer ea, added)"
      "ea_findings ea = st_findings user_token @ ntfs_findings (ea_ntfs ea) empty_dacl
           @ provenance_findings empty_dacl @ added @ escalation_findings (ea_rights ea) @ []"
      "ea_certainty ea = certainty_of (ea_findings ea)"
    using resolve_access_parts [OF ea] by metis
  have "ea_rights ea = rmask 0 EFFECTIVE" "added = []" using empty_evaluation(2) parts(1,2) by simp_all
  moreover have "ev_conditions (ea_ntfs ea) = set [AC_EMPTY_DACL]"
    using empty_evaluation(1) parts(1) by (simp add: ev_conditions_def conditions_of_def del: set_simps flip: set_map)
  moreover have "escalation_findings (rmask 0 EFFECTIVE) = []" by code_simp
  moreover have "conditions_of (st_findings user_token) = {AC_ASSUMED_TOKEN_SIDS}"
    using arg_cong [OF empty_dacl_simps(4), of set] by (simp add: conditions_of_def)
  ultimately have "conditions_of (ea_findings ea) = {AC_ASSUMED_TOKEN_SIDS, AC_EMPTY_DACL}"
    by (simp add: parts(3) conditions_of_ntfs_findings conditions_of_provenance_findings empty_dacl_simps(2) insert_commute)
  then have "ea_certainty ea = CERTAIN"
    by (simp add: parts(4) certainty_of_def OVERSTATING_CONDITIONS_def UNDERSTATING_CONDITIONS_def)
  with ea show ?thesis by blast
qed

lemma certain_answers_are_covered_witness:
  "\<exists>answer f1. service_effective_access empty_world ''S-1-5-21-7'' share_path LOCAL search_limits None 0 = Inr (answer, f1)
     \<and> ea_certainty (ra_access answer) = CERTAIN \<and> st_membership_complete (ea_token (ra_access answer))"
proof -
  obtain m f1 where m: "effective_groups empty_world ''S-1-5-21-7'' search_limits 0 = Inr (m, f1)" "em_complete m" "em_nodes m = []" "em_cycles m = []"
    using empty_groups by (auto split: sum.splits)
  obtain r ea where t: "resource_dacl_for empty_world share_path = Inr (r, empty_dacl)"
      "resolve_access user_token empty_dacl None [] = Inr ea" "ea_certainty ea = CERTAIN"
    using empty_inputs(1) empty_access by blast
  have known: "get_principal (w_db empty_world) ''S-1-5-21-7'' = Some user_row"
    by (simp add: get_principal_def empty_world_def user_row_def)
  obtain answer where answer: "service_effective_access empty_world ''S-1-5-21-7'' share_path LOCAL search_limits None 0 = Inr (answer, f1)"
      "ra_access answer = ea"
    using m t user_facts_read empty_inputs(2) empty_dacl_simps(3)
    by (simp add: service_effective_access_def resolve_one_def share_side_def build_subject_token_def Let_def known)
  with certain_answers_are_covered [OF answer(1)] t(3) show ?thesis by auto
qed

end
