(* ===== verification/Adg_Json.thy ===== *)
theory Adg_Json
  imports Adg_Acl_Hash
begin

section \<open>Canonical JSON (app/governance/audit.py, app/remediation/model.py)\<close>

text \<open>
  The one serialization every digest and signature is taken over:
  \<open>json.dumps(payload, sort_keys=True, separators=(",", ":"), ensure_ascii=False)\<close>, for the
  payloads the code builds (objects, arrays, text, integers, booleans and null). The lemma at the
  end is that the text determines the payload up to the order of an object's keys, so what is
  signed is what was built.
\<close>

datatype json = JNull | JBool bool | JInt int | JStr string | JArr "json list" | JObj "(string \<times> json) list"

definition quote_char :: char where "quote_char = CHR 0x22"

definition backslash_char :: char where "backslash_char = CHR 0x5C"

definition escape_char :: "char \<Rightarrow> string" where
  "escape_char c =
     (if c = quote_char then [backslash_char, quote_char]
      else if c = backslash_char then [backslash_char, backslash_char]
      else if c = CHR 0x0A then backslash_char # ''n''
      else if c = CHR 0x0D then backslash_char # ''r''
      else if c = CHR 0x09 then backslash_char # ''t''
      else if c = CHR 0x0C then backslash_char # ''f''
      else if c = CHR 0x08 then backslash_char # ''b''
      else if code c < 32 then backslash_char # ''u00'' @ lower_hex_pad 2 (code c)
      else [c])"

definition quoted :: "string \<Rightarrow> string" where
  "quoted s = [quote_char] @ concat (map escape_char s) @ [quote_char]"

definition int_text :: "int \<Rightarrow> string" where
  "int_text i = (if i < 0 then ''-'' @ dec_string (nat (- i)) else dec_string (nat i))"

fun dumps :: "json \<Rightarrow> string" where
  "dumps JNull = ''null''"
| "dumps (JBool b) = (if b then ''true'' else ''false'')"
| "dumps (JInt i) = int_text i"
| "dumps (JStr s) = quoted s"
| "dumps (JArr js) = ''['' @ join_with '','' (map dumps js) @ '']''"
| "dumps (JObj kvs) = ''{'' @ join_with '','' (map (\<lambda>(k, v). quoted k @ '':'' @ dumps v) kvs) @ ''}''"

text \<open>\<open>sort_keys=True\<close>\<close>

fun sort_keys :: "json \<Rightarrow> json" where
  "sort_keys (JArr js) = JArr (map sort_keys js)"
| "sort_keys (JObj kvs) = JObj (sort_key fst (map (\<lambda>(k, v). (k, sort_keys v)) kvs))"
| "sort_keys j = j"

definition canonical_json :: "json \<Rightarrow> string" where
  "canonical_json j = dumps (sort_keys j)"

text \<open>\<open>hashlib.sha256(...).hexdigest()\<close> over the canonical text; the hash is the parameter \<open>sha\<close>.\<close>

definition digest_json :: "(string \<Rightarrow> string) \<Rightarrow> json \<Rightarrow> string" where
  "digest_json sha j = sha (canonical_json j)"

subsection \<open>The text determines the payload\<close>

lemma hex2_inject: "n < 256 \<Longrightarrow> m < 256 \<Longrightarrow> lower_hex_pad 2 n @ x = lower_hex_pad 2 m @ y \<longleftrightarrow> n = m \<and> x = y"
proof -
  assume nm: "n < 256" "m < 256"
  have val: "hex_value (lower_hex_pad 2 k) = k" if "k < 256" for k
  proof -
    have "hex_value (lower_hex_pad 2 k) = 16 * (k div 16 mod 16) + k mod 16"
      by (simp add: numeral_2_eq_2 hex_value_def hex_val_lower)
    then show ?thesis using that by simp
  qed
  have len: "length (lower_hex_pad 2 k) = 2" for k by (simp add: numeral_2_eq_2)
  show ?thesis using val nm len by (metis append_eq_append_conv)
qed

lemma escape_char_prefix:
  assumes "escape_char c @ x = escape_char d @ y"
  shows "c = d \<and> x = y"
proof -
  have bs: "backslash_char \<noteq> quote_char" by (simp add: backslash_char_def quote_char_def)
  have uniq: "code c = code d \<Longrightarrow> c = d" by simp
  have hex: "lower_hex_pad 2 (code c) @ x = lower_hex_pad 2 (code d) @ y \<Longrightarrow> code c < 32 \<Longrightarrow> code d < 32
      \<Longrightarrow> c = d \<and> x = y"
    using hex2_inject [of "code c" "code d" x y] by simp
  show ?thesis
    using assms hex bs unfolding escape_char_def
    by (auto split: if_splits simp: backslash_char_def quote_char_def)
qed

lemma escape_not_quote: "escape_char c @ x \<noteq> quote_char # y"
  by (auto simp: escape_char_def backslash_char_def quote_char_def)

lemma escaped_prefix:
  "concat (map escape_char s) @ quote_char # x = concat (map escape_char t) @ quote_char # y \<Longrightarrow> s = t \<and> x = y"
proof (induction s arbitrary: t)
  case Nil
  then show ?case using escape_not_quote by (cases t) (auto, metis)
next
  case (Cons c s)
  show ?case
  proof (cases t)
    case Nil
    with Cons.prems escape_not_quote show ?thesis by auto
  next
    case (Cons d t')
    with Cons.prems have "escape_char c @ (concat (map escape_char s) @ quote_char # x)
        = escape_char d @ (concat (map escape_char t') @ quote_char # y)" by simp
    from escape_char_prefix [OF this] Cons.IH Cons show ?thesis by auto
  qed
qed

lemma quoted_prefix: "quoted s @ x = quoted t @ y \<Longrightarrow> s = t \<and> x = y"
  by (rule escaped_prefix) (simp add: quoted_def)

text \<open>What may follow a value: nothing, a comma or a closing bracket.\<close>

definition follows :: "string \<Rightarrow> bool" where
  "follows r \<longleftrightarrow> r = [] \<or> hd r \<in> {CHR '','', CHR '']'', CHR ''}''}"

lemma digits_prefix:
  assumes "dec_string n @ x = dec_string m @ y" "follows x" "follows y"
  shows "n = m \<and> x = y"
proof -
  have "takeWhile is_digit (dec_string k @ z) = dec_string k" if "follows z" for k z
    using that dec_string_digits [of k]
    by (cases z) (auto simp: takeWhile_append2 follows_def is_digit_def)
  then have "dec_string n = dec_string m" using assms by metis
  with assms(1) show ?thesis by (metis dec_value_dec_string same_append_eq)
qed

lemma dec_string_head: "\<exists>c s. dec_string n = c # s \<and> is_digit c"
  using dec_string_digits [of n] dec_string_nonempty [of n] by (cases "dec_string n") auto

lemma int_prefix:
  assumes "int_text i @ x = int_text j @ y" "follows x" "follows y"
  shows "i = j \<and> x = y"
proof -
  have minus: "dec_string n @ a \<noteq> CHR ''-'' # b" for n a b
    using dec_string_head [of n] by (auto simp: is_digit_def)
  consider "i < 0" "j < 0" | "0 \<le> i" "0 \<le> j" | "i < 0" "0 \<le> j" | "0 \<le> i" "j < 0" by linarith
  then show ?thesis
  proof cases
    case 1
    then have "nat (- i) = nat (- j) \<and> x = y"
      using assms digits_prefix [of "nat (- i)" x "nat (- j)" y] by (simp add: int_text_def)
    with 1 show ?thesis by auto
  next
    case 2
    then have "nat i = nat j \<and> x = y"
      using assms digits_prefix [of "nat i" x "nat j" y] by (simp add: int_text_def)
    with 2 show ?thesis by auto
  qed (use assms(1) minus in \<open>auto simp: int_text_def\<close>, metis minus)
qed

lemma join_step:
  "join_with '','' (map f (a # as)) @ cl # x
    = f a @ (if as = [] then cl # x else CHR '','' # join_with '','' (map f as) @ cl # x)"
  by (cases as) simp_all

lemma join_prefix:
  assumes "\<And>a b x y. a \<in> set as \<Longrightarrow> f a @ x = f b @ y \<Longrightarrow> follows x \<Longrightarrow> follows y \<Longrightarrow> a = b \<and> x = y"
    and head: "\<And>a z w. f a @ z \<noteq> cl # w" and cl: "cl \<in> {CHR '']'', CHR ''}''}"
    and "join_with '','' (map f as) @ cl # x = join_with '','' (map f bs) @ cl # y"
  shows "as = bs \<and> x = y"
  using assms(1,4)
proof (induction as arbitrary: bs)
  case Nil
  then show ?case
  proof (cases bs)
    case (Cons b bs')
    from Nil.prems(2) have "cl # x = f b @ (if bs' = [] then cl # y else CHR '','' # join_with '','' (map f bs') @ cl # y)"
      unfolding Cons join_step by simp
    with head show ?thesis by metis
  qed simp
next
  case (Cons a as)
  show ?case
  proof (cases bs)
    case Nil
    from Cons.prems(2) have "f a @ (if as = [] then cl # x else CHR '','' # join_with '','' (map f as) @ cl # x) = cl # y"
      unfolding Nil join_step by simp
    with head show ?thesis by metis
  next
    case bs: (Cons b bs')
    let ?r = "\<lambda>zs z. if zs = [] then cl # z else CHR '','' # join_with '','' (map f zs) @ cl # z"
    have fol: "follows (?r zs z)" for zs z using cl by (auto simp: follows_def)
    have eq: "f a @ ?r as x = f b @ ?r bs' y" using Cons.prems(2) unfolding bs join_step .
    have "a = b \<and> ?r as x = ?r bs' y"
      by (rule Cons.prems(1) [OF _ eq fol fol]) simp
    then have ab: "a = b" and rest: "?r as x = ?r bs' y" by simp_all
    show ?thesis
    proof (cases "as = [] \<or> bs' = []")
      case True
      then show ?thesis using rest cl ab bs by (auto split: if_splits)
    next
      case False
      then have "join_with '','' (map f as) @ cl # x = join_with '','' (map f bs') @ cl # y"
        using rest by simp
      with Cons.IH [OF Cons.prems(1) this] ab bs show ?thesis by simp
    qed
  qed
qed

lemma int_text_head: "\<exists>c s. int_text i = c # s \<and> (is_digit c \<or> c = CHR ''-'')"
proof (cases "i < 0")
  case False
  then show ?thesis using dec_string_head [of "nat i"] by (auto simp: int_text_def)
qed (simp add: int_text_def)

lemma dumps_head: "\<exists>c s. dumps j = c # s \<and> (case j of JNull \<Rightarrow> c = CHR ''n'' | JBool b \<Rightarrow> c = CHR ''t'' \<or> c = CHR ''f''
     | JInt i \<Rightarrow> is_digit c \<or> c = CHR ''-'' | JStr t \<Rightarrow> c = quote_char | JArr js \<Rightarrow> c = CHR ''[''
     | JObj kvs \<Rightarrow> c = CHR ''{'')"
  using int_text_head by (cases j) (auto simp: quoted_def)

lemma dumps_kind:
  assumes "dumps j @ x = dumps j' @ y"
  shows "(case (j, j') of (JNull, JNull) \<Rightarrow> True | (JBool b, JBool b') \<Rightarrow> True | (JInt i, JInt i') \<Rightarrow> True
     | (JStr s, JStr s') \<Rightarrow> True | (JArr s, JArr s') \<Rightarrow> True | (JObj s, JObj s') \<Rightarrow> True | _ \<Rightarrow> False)"
proof -
  obtain c s where c: "dumps j = c # s" "case j of JNull \<Rightarrow> c = CHR ''n'' | JBool b \<Rightarrow> c = CHR ''t'' \<or> c = CHR ''f''
     | JInt i \<Rightarrow> is_digit c \<or> c = CHR ''-'' | JStr t \<Rightarrow> c = quote_char | JArr js \<Rightarrow> c = CHR ''[''
     | JObj kvs \<Rightarrow> c = CHR ''{''" using dumps_head by blast
  obtain d t where d: "dumps j' = d # t" "case j' of JNull \<Rightarrow> d = CHR ''n'' | JBool b \<Rightarrow> d = CHR ''t'' \<or> d = CHR ''f''
     | JInt i \<Rightarrow> is_digit d \<or> d = CHR ''-'' | JStr t \<Rightarrow> d = quote_char | JArr js \<Rightarrow> d = CHR ''[''
     | JObj kvs \<Rightarrow> d = CHR ''{''" using dumps_head by blast
  have "c = d" using assms c(1) d(1) by simp
  with c(2) d(2) show ?thesis
    by (cases j; cases j') (auto simp: is_digit_def quote_char_def)
qed

lemma dumps_not_closer: "cl \<in> {CHR '']'', CHR ''}''} \<Longrightarrow> dumps j @ z \<noteq> cl # w"
  using dumps_head [of j] by (cases j) (auto simp: is_digit_def quote_char_def)

lemma dumps_prefix: "dumps j @ x = dumps j' @ y \<Longrightarrow> follows x \<Longrightarrow> follows y \<Longrightarrow> j = j' \<and> x = y"
proof (induction j arbitrary: j' x y)
  case JNull
  then show ?case using dumps_kind [OF JNull(1)] by (cases j') auto
next
  case (JBool b)
  then show ?case using dumps_kind [OF JBool(1)] by (cases j') (auto split: if_splits)
next
  case (JInt i)
  then obtain i' where "j' = JInt i'" using dumps_kind [OF JInt(1)] by (cases j') auto
  then show ?case using JInt int_prefix by simp
next
  case (JStr s)
  then obtain s' where j': "j' = JStr s'" using dumps_kind [OF JStr(1)] by (cases j') auto
  then have "quoted s @ x = quoted s' @ y" using JStr(1) by simp
  from quoted_prefix [OF this] j' show ?case by simp
next
  case (JArr js)
  then obtain js' where j': "j' = JArr js'" using dumps_kind [OF JArr(2)] by (cases j') auto
  have "js = js' \<and> x = y"
  proof (rule join_prefix [of js dumps "CHR '']''"])
    show "join_with '','' (map dumps js) @ CHR '']'' # x = join_with '','' (map dumps js') @ CHR '']'' # y"
      using JArr(2) unfolding j' by simp
    show "a = b \<and> u = v" if "a \<in> set js" "dumps a @ u = dumps b @ v" "follows u" "follows v" for a b u v
      using JArr(1) that by blast
  qed (use dumps_not_closer in simp_all)
  then show ?case using j' by simp
next
  case (JObj kvs)
  then obtain kvs' where j': "j' = JObj kvs'" using dumps_kind [OF JObj(2)] by (cases j') auto
  let ?f = "\<lambda>(k, v). quoted k @ '':'' @ dumps v"
  have pre: "a = b \<and> x = y" if a: "a \<in> set kvs" and eq: "?f a @ x = ?f b @ y" and f: "follows x" "follows y" for a b x y
  proof -
    obtain k v k' v' where ab: "a = (k, v)" "b = (k', v')" by (cases a; cases b)
    have "quoted k @ (CHR '':'' # dumps v @ x) = quoted k' @ (CHR '':'' # dumps v' @ y)" using eq ab by simp
    from quoted_prefix [OF this] have k: "k = k'" and v: "dumps v @ x = dumps v' @ y" by simp_all
    have "v \<in> Basic_BNFs.snds a" using ab by simp
    from JObj.IH [OF a this v f] k ab show ?thesis by simp
  qed
  have "kvs = kvs' \<and> x = y"
  proof (rule join_prefix [of kvs ?f "CHR ''}''"])
    show "join_with '','' (map ?f kvs) @ CHR ''}'' # x = join_with '','' (map ?f kvs') @ CHR ''}'' # y"
      using JObj(2) unfolding j' by simp
    show "?f a @ z \<noteq> CHR ''}'' # w" for a z w by (cases a) (simp add: quoted_def quote_char_def)
    show "a = b \<and> u = v" if "a \<in> set kvs" "?f a @ u = ?f b @ v" "follows u" "follows v" for a b u v
      by (rule pre [OF that])
  qed simp
  then show ?case using j' by simp
qed

lemma canonical_json_inject: "canonical_json a = canonical_json b \<longleftrightarrow> sort_keys a = sort_keys b"
  using dumps_prefix [of "sort_keys a" "[]" "sort_keys b" "[]"] by (auto simp: canonical_json_def follows_def)

end
