(* ===== verification/Adg_Audit.thy ===== *)
theory Adg_Audit
  imports Adg_Json
begin

section \<open>The governance audit trail (app/governance/audit.py)\<close>

text \<open>
  A hash chain of events: each event's digest covers its content, its position and the digest of
  the event before it. The table of events is a list of rows, oldest first, and
  \<open>GovernanceRepository.append_event\<close> adds one. A moment is a number of microseconds, rendered by
  the parameter \<open>iso_at\<close> (Python's \<open>isoformat\<close> in UTC); a UUID is its text.
\<close>

type_synonym uuid = string
type_synonym instant = int

datatype governance_event_type =
  GE_CAMPAIGN_CREATED | GE_CAMPAIGN_GENERATED | GE_CAMPAIGN_ACTIVATED | GE_CAMPAIGN_CLOSED
| GE_CAMPAIGN_CANCELED | GE_REVIEWER_ASSIGNED | GE_REVIEWER_REVOKED | GE_DECISION_RECORDED
| GE_DECISION_SUPERSEDED | GE_REMEDIATION_PROPOSED | GE_REMEDIATION_WITHDRAWN | GE_OWNER_ASSIGNED
| GE_OWNER_REVOKED | GE_PLAN_CREATED | GE_PLAN_SIMULATED | GE_PLAN_SUBMITTED | GE_PLAN_APPROVED
| GE_PLAN_REJECTED | GE_PLAN_EXPORTED | GE_PLAN_INVALIDATED | GE_PLAN_CANCELED

fun event_type_value :: "governance_event_type \<Rightarrow> string" where
  "event_type_value GE_CAMPAIGN_CREATED = ''campaign.created''"
| "event_type_value GE_CAMPAIGN_GENERATED = ''campaign.generated''"
| "event_type_value GE_CAMPAIGN_ACTIVATED = ''campaign.activated''"
| "event_type_value GE_CAMPAIGN_CLOSED = ''campaign.closed''"
| "event_type_value GE_CAMPAIGN_CANCELED = ''campaign.canceled''"
| "event_type_value GE_REVIEWER_ASSIGNED = ''reviewer.assigned''"
| "event_type_value GE_REVIEWER_REVOKED = ''reviewer.revoked''"
| "event_type_value GE_DECISION_RECORDED = ''decision.recorded''"
| "event_type_value GE_DECISION_SUPERSEDED = ''decision.superseded''"
| "event_type_value GE_REMEDIATION_PROPOSED = ''remediation.proposed''"
| "event_type_value GE_REMEDIATION_WITHDRAWN = ''remediation.withdrawn''"
| "event_type_value GE_OWNER_ASSIGNED = ''owner.assigned''"
| "event_type_value GE_OWNER_REVOKED = ''owner.revoked''"
| "event_type_value GE_PLAN_CREATED = ''plan.created''"
| "event_type_value GE_PLAN_SIMULATED = ''plan.simulated''"
| "event_type_value GE_PLAN_SUBMITTED = ''plan.submitted''"
| "event_type_value GE_PLAN_APPROVED = ''plan.approved''"
| "event_type_value GE_PLAN_REJECTED = ''plan.rejected''"
| "event_type_value GE_PLAN_EXPORTED = ''plan.exported''"
| "event_type_value GE_PLAN_INVALIDATED = ''plan.invalidated''"
| "event_type_value GE_PLAN_CANCELED = ''plan.canceled''"

definition OWNERS_CHAIN :: string where "OWNERS_CHAIN = ''owners''"

definition campaign_chain :: "uuid \<Rightarrow> string" where "campaign_chain campaign_id = ''campaign:'' @ campaign_id"

record governance_event =
  ev_event_id :: uuid
  ev_chain_key :: string
  ev_chain_index :: nat
  ev_event_type :: governance_event_type
  ev_occurred_at :: instant
  ev_actor_subject :: string
  ev_actor_display_name :: "string option"
  ev_actor_roles :: "string list"
  ev_campaign_id :: "uuid option"
  ev_item_id :: "uuid option"
  ev_decision_id :: "uuid option"
  ev_payload :: json
  ev_previous_digest :: "string option"
  ev_digest :: string

definition opt_str :: "string option \<Rightarrow> json" where
  "opt_str x = (case x of None \<Rightarrow> JNull | Some s \<Rightarrow> JStr s)"

definition event_material ::
  "(instant \<Rightarrow> string) \<Rightarrow> string \<Rightarrow> nat \<Rightarrow> governance_event_type \<Rightarrow> instant \<Rightarrow> string \<Rightarrow> string list
   \<Rightarrow> uuid option \<Rightarrow> uuid option \<Rightarrow> uuid option \<Rightarrow> json \<Rightarrow> string option \<Rightarrow> json" where
  "event_material iso_at key idx ty at subject roles campaign item decision payload previous = JObj
     [(''chain_key'', JStr key), (''chain_index'', JInt (int idx)),
      (''event_type'', JStr (event_type_value ty)), (''occurred_at'', JStr (iso_at at)),
      (''actor_subject'', JStr subject), (''actor_roles'', JArr (map JStr (sort roles))),
      (''campaign_id'', opt_str campaign), (''item_id'', opt_str item),
      (''decision_id'', opt_str decision), (''payload'', payload),
      (''previous_digest'', opt_str previous)]"

definition event_digest ::
  "(string \<Rightarrow> string) \<Rightarrow> (instant \<Rightarrow> string) \<Rightarrow> string \<Rightarrow> nat \<Rightarrow> governance_event_type \<Rightarrow> instant \<Rightarrow> string
   \<Rightarrow> string list \<Rightarrow> uuid option \<Rightarrow> uuid option \<Rightarrow> uuid option \<Rightarrow> json \<Rightarrow> string option \<Rightarrow> string" where
  "event_digest sha iso_at key idx ty at subject roles campaign item decision payload previous =
     digest_json sha (event_material iso_at key idx ty at subject roles campaign item decision payload previous)"

definition material_of :: "(instant \<Rightarrow> string) \<Rightarrow> governance_event \<Rightarrow> json" where
  "material_of iso_at e = event_material iso_at (ev_chain_key e) (ev_chain_index e) (ev_event_type e)
     (ev_occurred_at e) (ev_actor_subject e) (ev_actor_roles e) (ev_campaign_id e) (ev_item_id e)
     (ev_decision_id e) (ev_payload e) (ev_previous_digest e)"

definition digest_of :: "(string \<Rightarrow> string) \<Rightarrow> (instant \<Rightarrow> string) \<Rightarrow> governance_event \<Rightarrow> string" where
  "digest_of sha iso_at e = event_digest sha iso_at (ev_chain_key e) (ev_chain_index e) (ev_event_type e)
     (ev_occurred_at e) (ev_actor_subject e) (ev_actor_roles e) (ev_campaign_id e) (ev_item_id e)
     (ev_decision_id e) (ev_payload e) (ev_previous_digest e)"

text \<open>The three ways a chain can break, in the order they are looked for.\<close>

datatype chain_break = CHAIN_GAP | CHAIN_RELINKED | CHAIN_EDITED

record chain_verification =
  cv_chain_key :: string
  cv_length :: nat
  cv_intact :: bool
  cv_head_digest :: "string option"
  cv_broken_at :: "nat option"
  cv_reason :: "chain_break option"

fun scan_chain ::
  "(string \<Rightarrow> string) \<Rightarrow> (instant \<Rightarrow> string) \<Rightarrow> nat \<Rightarrow> string option \<Rightarrow> governance_event list
   \<Rightarrow> (nat \<times> chain_break) option" where
  "scan_chain sha iso_at position previous [] = None"
| "scan_chain sha iso_at position previous (e # es) =
     (if ev_chain_index e \<noteq> position then Some (ev_chain_index e, CHAIN_GAP)
      else if ev_previous_digest e \<noteq> previous then Some (ev_chain_index e, CHAIN_RELINKED)
      else if digest_of sha iso_at e \<noteq> ev_digest e then Some (ev_chain_index e, CHAIN_EDITED)
      else scan_chain sha iso_at (Suc position) (Some (ev_digest e)) es)"

definition verify_chain ::
  "(string \<Rightarrow> string) \<Rightarrow> (instant \<Rightarrow> string) \<Rightarrow> governance_event list \<Rightarrow> chain_verification" where
  "verify_chain sha iso_at events =
     (let ordered = sort_key ev_chain_index events
      in if ordered = [] then \<lparr>cv_chain_key = [], cv_length = 0, cv_intact = True, cv_head_digest = None,
           cv_broken_at = None, cv_reason = None\<rparr>
         else (case scan_chain sha iso_at 0 None ordered of
             None \<Rightarrow> \<lparr>cv_chain_key = ev_chain_key (hd ordered), cv_length = length ordered, cv_intact = True,
               cv_head_digest = Some (ev_digest (last ordered)), cv_broken_at = None, cv_reason = None\<rparr>
           | Some (i, why) \<Rightarrow> \<lparr>cv_chain_key = ev_chain_key (hd ordered), cv_length = length ordered,
               cv_intact = False, cv_head_digest = Some (ev_digest (last ordered)), cv_broken_at = Some i,
               cv_reason = Some why\<rparr>))"

text \<open>
  The rows of one chain in order, a page of them, and the append. The append reads the row with the
  greatest index; here appends to one chain happen one after another.
\<close>

definition chain_rows :: "string \<Rightarrow> governance_event list \<Rightarrow> governance_event list" where
  "chain_rows key table = sort_key ev_chain_index (filter (\<lambda>e. ev_chain_key e = key) table)"

definition events_for_chain ::
  "string \<Rightarrow> nat \<Rightarrow> nat \<Rightarrow> governance_event list \<Rightarrow> governance_event list \<times> bool" where
  "events_for_chain key limit offset table =
     (let rows = take (limit + 1) (drop offset (chain_rows key table))
      in (take limit rows, limit < length rows))"

definition campaign_events ::
  "uuid \<Rightarrow> nat \<Rightarrow> nat \<Rightarrow> governance_event list \<Rightarrow> governance_event list \<times> bool" where
  "campaign_events campaign_id limit offset table =
     events_for_chain (campaign_chain campaign_id) limit offset table"

definition append_event ::
  "(string \<Rightarrow> string) \<Rightarrow> (instant \<Rightarrow> string) \<Rightarrow> uuid \<Rightarrow> string \<Rightarrow> governance_event_type \<Rightarrow> instant \<Rightarrow> string
   \<Rightarrow> string option \<Rightarrow> string list \<Rightarrow> uuid option \<Rightarrow> uuid option \<Rightarrow> uuid option \<Rightarrow> json
   \<Rightarrow> governance_event list \<Rightarrow> governance_event list" where
  "append_event sha iso_at event_id key ty at subject display roles campaign item decision payload table =
     (let rows = chain_rows key table;
          head = (if rows = [] then None else Some (last rows));
          idx = (case head of None \<Rightarrow> 0 | Some h \<Rightarrow> ev_chain_index h + 1);
          previous = map_option ev_digest head;
          rs = sort roles
      in table @ [\<lparr>ev_event_id = event_id, ev_chain_key = key, ev_chain_index = idx, ev_event_type = ty,
           ev_occurred_at = at, ev_actor_subject = subject, ev_actor_display_name = display,
           ev_actor_roles = rs, ev_campaign_id = campaign, ev_item_id = item, ev_decision_id = decision,
           ev_payload = payload, ev_previous_digest = previous,
           ev_digest = event_digest sha iso_at key idx ty at subject rs campaign item decision payload previous\<rparr>])"

text \<open>
  \<open>GovernanceService._chain_head\<close>, which a campaign's status reports as its \<open>audit_head\<close>, and the
  verification \<open>audit_trail\<close> returns beside a page of events.
\<close>

definition reported_chain_head :: "uuid \<Rightarrow> governance_event list \<Rightarrow> string option" where
  "reported_chain_head campaign_id table =
     (let events = fst (campaign_events campaign_id 1000 0 table)
      in if events = [] then None else Some (ev_digest (last events)))"

definition audit_trail ::
  "(string \<Rightarrow> string) \<Rightarrow> (instant \<Rightarrow> string) \<Rightarrow> uuid \<Rightarrow> nat \<Rightarrow> nat \<Rightarrow> governance_event list
   \<Rightarrow> governance_event list \<times> bool \<times> chain_verification" where
  "audit_trail sha iso_at campaign_id limit offset table =
     (let (page, has_more) = campaign_events campaign_id limit offset table;
          whole = fst (campaign_events campaign_id 100000 0 table)
      in (page, has_more, verify_chain sha iso_at whole))"

subsection \<open>What an intact chain is\<close>

definition linked_at :: "nat \<Rightarrow> string option \<Rightarrow> governance_event list \<Rightarrow> nat \<Rightarrow> string option" where
  "linked_at p prev es i = (if i = 0 then prev else Some (ev_digest (es ! (i - 1))))"

lemma scan_chain_append:
  "scan_chain sha iso_at p prev (es @ [e]) = None \<longleftrightarrow>
     scan_chain sha iso_at p prev es = None \<and> ev_chain_index e = p + length es
     \<and> ev_previous_digest e = (if es = [] then prev else Some (ev_digest (last es)))
     \<and> digest_of sha iso_at e = ev_digest e"
  by (induction es arbitrary: p prev) auto

lemma scan_chain_indexes:
  "scan_chain sha iso_at p prev es = None \<Longrightarrow> map ev_chain_index es = [p..<p + length es]"
proof (induction es rule: rev_induct)
  case (snoc e es)
  then show ?case by (simp add: scan_chain_append)
qed simp

lemma scan_none_ordered:
  assumes "scan_chain sha iso_at 0 None (sort_key ev_chain_index es) = None"
  shows "map ev_chain_index (sort_key ev_chain_index es) = [0..<length es]"
  using scan_chain_indexes [OF assms] by simp

lemma verify_chain_intact_iff:
  "cv_intact (verify_chain sha iso_at es) \<longleftrightarrow> scan_chain sha iso_at 0 None (sort_key ev_chain_index es) = None"
proof (cases "sort_key ev_chain_index es = []")
  case False
  then show ?thesis by (simp add: verify_chain_def Let_def split: option.split)
qed (simp add: verify_chain_def)

lemma verify_chain_head:
  "cv_head_digest (verify_chain sha iso_at es)
     = (if es = [] then None else Some (ev_digest (last (sort_key ev_chain_index es))))"
proof (cases "es = []")
  case False
  then have "sort_key ev_chain_index es \<noteq> []" by (metis length_0_conv length_sort)
  with False show ?thesis by (simp add: verify_chain_def Let_def split: option.split prod.split)
qed (simp add: verify_chain_def)

subsection \<open>Every chain the application writes verifies\<close>

inductive audit_table :: "(string \<Rightarrow> string) \<Rightarrow> (instant \<Rightarrow> string) \<Rightarrow> governance_event list \<Rightarrow> bool"
  for sha :: "string \<Rightarrow> string" and iso_at :: "instant \<Rightarrow> string" where
  audit_empty: "audit_table sha iso_at []"
| audit_append: "audit_table sha iso_at table \<Longrightarrow> audit_table sha iso_at
     (append_event sha iso_at event_id key ty at subject display roles campaign item decision payload table)"

lemma append_event_rows:
  "\<exists>e. append_event sha iso_at event_id key ty at subject display roles campaign item decision payload table = table @ [e]
     \<and> ev_chain_key e = key
     \<and> ev_chain_index e = (if chain_rows key table = [] then 0 else Suc (ev_chain_index (last (chain_rows key table))))
     \<and> ev_previous_digest e = (if chain_rows key table = [] then None else Some (ev_digest (last (chain_rows key table))))
     \<and> digest_of sha iso_at e = ev_digest e"
  by (simp add: append_event_def Let_def digest_of_def)

definition in_order :: "(string \<Rightarrow> string) \<Rightarrow> (instant \<Rightarrow> string) \<Rightarrow> governance_event list \<Rightarrow> bool" where
  "in_order sha iso_at table \<longleftrightarrow> (\<forall>key. chain_rows key table = filter (\<lambda>e. ev_chain_key e = key) table
     \<and> scan_chain sha iso_at 0 None (chain_rows key table) = None)"

lemma in_orderD:
  assumes "in_order sha iso_at table"
  shows "chain_rows key table = filter (\<lambda>e. ev_chain_key e = key) table"
    "scan_chain sha iso_at 0 None (chain_rows key table) = None"
  using assms unfolding in_order_def by blast+

lemma in_order_append:
  assumes inv: "in_order sha iso_at table" and e: "ev_chain_key e = key"
    "ev_chain_index e = (if chain_rows key table = [] then 0 else Suc (ev_chain_index (last (chain_rows key table))))"
    "ev_previous_digest e = (if chain_rows key table = [] then None else Some (ev_digest (last (chain_rows key table))))"
    "digest_of sha iso_at e = ev_digest e"
  shows "chain_rows key (table @ [e]) = chain_rows key table @ [e]
    \<and> scan_chain sha iso_at 0 None (chain_rows key table @ [e]) = None"
proof -
  let ?es = "chain_rows key table"
  have es: "?es = filter (\<lambda>x. ev_chain_key x = key) table" and ok: "scan_chain sha iso_at 0 None ?es = None"
    by (rule in_orderD [OF inv])+
  have idx: "map ev_chain_index ?es = [0..<length ?es]" using scan_chain_indexes [OF ok] by simp
  have pos: "ev_chain_index e = length ?es"
  proof (cases "?es = []")
    case False
    then have "ev_chain_index (last ?es) = last (map ev_chain_index ?es)" by (simp add: last_map)
    also have "\<dots> = length ?es - 1" using False by (simp add: idx)
    finally show ?thesis using e(2) False by simp
  qed (use e(2) in simp)
  have "sorted (map ev_chain_index (?es @ [e]))" using idx pos by (simp add: sorted_append)
  then have "sort_key ev_chain_index (?es @ [e]) = ?es @ [e]" by (rule sort_key_id_if_sorted)
  then have "chain_rows key (table @ [e]) = ?es @ [e]" using es e(1) by (simp add: chain_rows_def)
  moreover have "scan_chain sha iso_at 0 None (?es @ [e]) = None"
    using ok pos e(3,4) by (simp add: scan_chain_append)
  ultimately show ?thesis by simp
qed

lemma other_rows: "ev_chain_key e \<noteq> key \<Longrightarrow> chain_rows key (table @ [e]) = chain_rows key table"
  by (simp add: chain_rows_def)

lemma audit_table_in_order: "audit_table sha iso_at table \<Longrightarrow> in_order sha iso_at table"
proof (induction rule: audit_table.induct)
  case audit_empty
  then show ?case by (simp add: in_order_def chain_rows_def)
next
  case (audit_append table event_id key ty at subject display roles campaign item decision payload)
  obtain e where e: "append_event sha iso_at event_id key ty at subject display roles campaign item decision payload table
      = table @ [e]" "ev_chain_key e = key"
    "ev_chain_index e = (if chain_rows key table = [] then 0 else Suc (ev_chain_index (last (chain_rows key table))))"
    "ev_previous_digest e = (if chain_rows key table = [] then None else Some (ev_digest (last (chain_rows key table))))"
    "digest_of sha iso_at e = ev_digest e" using append_event_rows by blast
  note step = in_order_append [OF audit_append.IH e(2-5)]
  have "chain_rows k (table @ [e]) = filter (\<lambda>x. ev_chain_key x = k) (table @ [e])
      \<and> scan_chain sha iso_at 0 None (chain_rows k (table @ [e])) = None" for k
  proof (cases "k = key")
    case True
    then show ?thesis using step in_orderD [OF audit_append.IH, of k] e(2) by simp
  next
    case False
    then show ?thesis using other_rows [of e k table] in_orderD [OF audit_append.IH, of k] e(2) by simp
  qed
  then show ?case unfolding e(1) in_order_def by blast
qed

lemma chain_rows_sorted [simp]: "sort_key ev_chain_index (chain_rows key table) = chain_rows key table"
  by (simp add: chain_rows_def sort_key_id_if_sorted)

lemma chain_rows_empty_iff: "in_order sha iso_at table \<Longrightarrow> chain_rows key table = [] \<longleftrightarrow> (\<forall>e \<in> set table. ev_chain_key e \<noteq> key)"
  by (simp add: in_orderD filter_empty_conv)

text \<open>
  C31. Whatever events the application appends, in whatever order and to whatever chains, every
  chain verifies: \<open>verify_chain\<close> over its rows says intact, with the number of events it holds and
  the digest of its newest event as the head; the indexes are 0, 1, 2, ... in the order of writing.
\<close>

theorem appended_chains_verify:
  assumes "audit_table sha iso_at table"
  shows "let es = filter (\<lambda>e. ev_chain_key e = key) table; v = verify_chain sha iso_at (chain_rows key table)
    in cv_intact v \<and> cv_broken_at v = None \<and> cv_length v = length es
      \<and> map ev_chain_index es = [0..<length es]
      \<and> cv_head_digest v = (if es = [] then None else Some (ev_digest (last es)))"
proof -
  note ok = in_orderD [OF audit_table_in_order [OF assms], of key]
  have "map ev_chain_index (chain_rows key table) = [0..<length (chain_rows key table)]"
    using scan_chain_indexes [OF ok(2)] by simp
  moreover have "cv_intact (verify_chain sha iso_at (chain_rows key table))"
    by (simp add: verify_chain_intact_iff ok(2))
  moreover have "cv_broken_at (verify_chain sha iso_at (chain_rows key table)) = None
      \<and> cv_length (verify_chain sha iso_at (chain_rows key table)) = length (chain_rows key table)"
    by (simp add: verify_chain_def Let_def ok(2))
  ultimately show ?thesis by (simp add: Let_def verify_chain_head ok(1) [symmetric])
qed

definition plain_iso :: "instant \<Rightarrow> string" where "plain_iso t = int_text t"

definition two_events :: "governance_event list" where
  "two_events = append_event id plain_iso ''e2'' ''campaign:c1'' GE_CAMPAIGN_GENERATED 8 ''bob'' None [] (Some ''c1'') None None (JObj [])
     (append_event id plain_iso ''e1'' ''campaign:c1'' GE_CAMPAIGN_CREATED 7 ''alice'' None [''reviewer''] (Some ''c1'') None None
       (JObj [(''items'', JInt 3)]) [])"

lemma two_events_audit_table: "audit_table id plain_iso two_events"
  unfolding two_events_def by (intro audit_table.intros)

lemma appended_chains_verify_witness:
  "cv_intact (verify_chain id plain_iso (chain_rows ''campaign:c1'' two_events))
     \<and> length (filter (\<lambda>e. ev_chain_key e = ''campaign:c1'') two_events) = 2"
proof
  show "cv_intact (verify_chain id plain_iso (chain_rows ''campaign:c1'' two_events))"
    using appended_chains_verify [OF two_events_audit_table, of "''campaign:c1''"] by (simp only: Let_def)
  show "length (filter (\<lambda>e. ev_chain_key e = ''campaign:c1'') two_events) = 2"
    by (simp add: two_events_def append_event_def Let_def)
qed

subsection \<open>Tamper evidence\<close>

lemma keyed_eq_if_sorted_eq:
  assumes keys: "map fst xs = map fst ys" "distinct (map fst xs)" and eq: "sort_key fst xs = sort_key fst ys"
  shows "xs = ys"
proof (rule nth_equalityI)
  have "length (map fst xs) = length (map fst ys)" using keys(1) by simp
  then show len: "length xs = length ys" by simp
  fix i assume i: "i < length xs"
  have "set xs = set ys" using eq by (metis set_sort)
  then have "ys ! i \<in> set xs" using i len by simp
  then obtain j where j: "j < length xs" "xs ! j = ys ! i" by (auto simp: in_set_conv_nth)
  have "map fst xs ! j = map fst xs ! i" using j i len keys(1) by simp (metis j(2) nth_map)
  then have "j = i" using keys(2) j(1) i by (metis length_map nth_eq_iff_index_eq)
  with j(2) show "xs ! i = ys ! i" by simp
qed

lemma sort_keys_object_inject:
  assumes "sort_keys (JObj xs) = sort_keys (JObj ys)" "map fst xs = map fst ys" "distinct (map fst xs)"
  shows "map (sort_keys \<circ> snd) xs = map (sort_keys \<circ> snd) ys"
proof -
  let ?f = "\<lambda>(k, v). (k, sort_keys v)"
  have fst: "map fst (map ?f zs) = map fst zs" for zs by (simp add: comp_def case_prod_beta)
  have "map ?f xs = map ?f ys"
    by (rule keyed_eq_if_sorted_eq) (use assms in \<open>simp_all only: fst sort_keys.simps json.inject\<close>)
  then have "map snd (map ?f xs) = map snd (map ?f ys)" by simp
  then show ?thesis by (simp add: comp_def case_prod_beta)
qed

text \<open>What the digest of an event covers; the display name and the identifier are outside it.\<close>

definition same_content :: "(instant \<Rightarrow> string) \<Rightarrow> governance_event \<Rightarrow> governance_event \<Rightarrow> bool" where
  "same_content iso_at e f \<longleftrightarrow> ev_chain_key e = ev_chain_key f \<and> ev_chain_index e = ev_chain_index f
     \<and> event_type_value (ev_event_type e) = event_type_value (ev_event_type f)
     \<and> iso_at (ev_occurred_at e) = iso_at (ev_occurred_at f) \<and> ev_actor_subject e = ev_actor_subject f
     \<and> sort (ev_actor_roles e) = sort (ev_actor_roles f) \<and> ev_campaign_id e = ev_campaign_id f
     \<and> ev_item_id e = ev_item_id f \<and> ev_decision_id e = ev_decision_id f
     \<and> sort_keys (ev_payload e) = sort_keys (ev_payload f) \<and> ev_previous_digest e = ev_previous_digest f"

lemma opt_str_sort [simp]: "sort_keys (opt_str x) = opt_str x"
  by (simp add: opt_str_def split: option.split)

lemma opt_str_inject [simp]: "opt_str x = opt_str y \<longleftrightarrow> x = y"
  by (simp add: opt_str_def split: option.split)

lemma map_JStr_inject: "map (sort_keys \<circ> JStr) xs = map (sort_keys \<circ> JStr) ys \<longleftrightarrow> xs = ys"
  by (simp add: inj_map_eq_map inj_def comp_def)

lemma material_inject: "sort_keys (material_of iso_at e) = sort_keys (material_of iso_at f) \<Longrightarrow> same_content iso_at e f"
  unfolding material_of_def event_material_def
  by (drule sort_keys_object_inject) (auto simp: same_content_def map_JStr_inject)

lemma event_type_value_inject [simp]: "event_type_value a = event_type_value b \<longleftrightarrow> a = b"
  by (cases a; cases b) simp_all

lemma digest_of_material: "digest_of sha iso_at e = sha (canonical_json (material_of iso_at e))"
  by (simp add: digest_of_def event_digest_def material_of_def digest_json_def)

lemma equal_digest_content:
  assumes "ev_digest e = ev_digest f" "digest_of sha iso_at e = ev_digest e" "digest_of sha iso_at f = ev_digest f"
    "inj_on sha {canonical_json (material_of iso_at e), canonical_json (material_of iso_at f)}"
  shows "same_content iso_at e f"
proof -
  have "digest_of sha iso_at e = digest_of sha iso_at f" unfolding assms(2,3) by (rule assms(1))
  then have "sha (canonical_json (material_of iso_at e)) = sha (canonical_json (material_of iso_at f))"
    unfolding digest_of_material .
  then have "canonical_json (material_of iso_at e) = canonical_json (material_of iso_at f)"
    by (rule inj_onD [OF assms(4)]) simp_all
  then show ?thesis unfolding canonical_json_inject by (rule material_inject)
qed

lemma chains_agree:
  assumes "scan_chain sha iso_at 0 None es = None" "scan_chain sha iso_at 0 None fs = None"
    "es \<noteq> []" "fs \<noteq> []" "ev_digest (last es) = ev_digest (last fs)"
    "inj_on sha ((\<lambda>e. canonical_json (material_of iso_at e)) ` (set es \<union> set fs))"
  shows "list_all2 (same_content iso_at) es fs"
  using assms
proof (induction es arbitrary: fs rule: rev_induct)
  case (snoc e es)
  obtain gs f where fs: "fs = gs @ [f]" using snoc.prems(4) by (cases fs rule: rev_cases) auto
  have e: "scan_chain sha iso_at 0 None es = None" "ev_chain_index e = length es"
      "ev_previous_digest e = (if es = [] then None else Some (ev_digest (last es)))" "digest_of sha iso_at e = ev_digest e"
    using snoc.prems(1) by (simp_all add: scan_chain_append)
  have f: "scan_chain sha iso_at 0 None gs = None" "ev_chain_index f = length gs"
      "ev_previous_digest f = (if gs = [] then None else Some (ev_digest (last gs)))" "digest_of sha iso_at f = ev_digest f"
    using snoc.prems(2) by (simp_all add: fs scan_chain_append)
  have inj: "inj_on sha ((\<lambda>e. canonical_json (material_of iso_at e)) ` (set es \<union> set gs))"
    by (rule inj_on_subset [OF snoc.prems(6)]) (auto simp: fs)
  have same: "same_content iso_at e f"
  proof (rule equal_digest_content [OF _ e(4) f(4)])
    show "inj_on sha {canonical_json (material_of iso_at e), canonical_json (material_of iso_at f)}"
      by (rule inj_on_subset [OF snoc.prems(6)]) (auto simp: fs)
  qed (use snoc.prems(5) fs in simp)
  then have len: "length es = length gs" and prev: "ev_previous_digest e = ev_previous_digest f"
    using e(2) f(2) by (simp_all add: same_content_def)
  have "list_all2 (same_content iso_at) es gs"
  proof (cases "es = []")
    case False
    with len have gs: "gs \<noteq> []" by auto
    then have "ev_digest (last es) = ev_digest (last gs)" using prev e(3) f(3) False by simp
    from snoc.IH [OF e(1) f(1) False gs this inj] show ?thesis .
  qed (use len in simp)
  with same fs len show ?case by (simp add: list_all2_appendI)
qed simp

text \<open>
  C32. The head digest pins what the events of a chain are digested over. Two sets of rows that both verify and whose heads carry the
  same digest hold, event by event, the same chain, index, type, moment, actor, roles, campaign,
  item, decision, payload and link, unless two of their canonical texts collide under the hash: an
  edit, a removal, an insertion or a truncation that still verifies changes the head. What is not
  covered is the display name, the event identifier and the order of a payload's keys.
\<close>

theorem equal_heads_equal_history:
  assumes "cv_intact (verify_chain sha iso_at es)" "cv_intact (verify_chain sha iso_at fs)"
    and "cv_head_digest (verify_chain sha iso_at es) = cv_head_digest (verify_chain sha iso_at fs)"
    and "inj_on sha ((\<lambda>e. canonical_json (material_of iso_at e)) ` (set es \<union> set fs))"
  shows "list_all2 (same_content iso_at) (sort_key ev_chain_index es) (sort_key ev_chain_index fs)"
proof (cases "es = []")
  case True
  then have "fs = []" using assms(3) by (simp add: verify_chain_head split: if_splits)
  with True show ?thesis by simp
next
  case False
  then have fs: "fs \<noteq> []" using assms(3) by (auto simp: verify_chain_head)
  have ne: "sort_key ev_chain_index es \<noteq> []" "sort_key ev_chain_index fs \<noteq> []"
    using False fs by (metis length_0_conv length_sort)+
  show ?thesis
    by (rule chains_agree [of sha]) (use assms False fs ne in \<open>simp_all add: verify_chain_intact_iff verify_chain_head\<close>)
qed

text \<open>The same chain with its actors renamed.\<close>

definition renamed_actors :: "governance_event list" where
  "renamed_actors = map (ev_actor_display_name_update (\<lambda>_. Some ''Bob'')) two_events"

lemma scan_chain_renamed:
  "scan_chain sha iso_at p prev (map (ev_actor_display_name_update g) es) = scan_chain sha iso_at p prev es"
  by (induction es arbitrary: p prev) (simp_all add: digest_of_def)

lemma two_events_sorted: "sort_key ev_chain_index two_events = two_events"
    "sort_key ev_chain_index renamed_actors = renamed_actors"
  by (rule sort_key_id_if_sorted, simp add: renamed_actors_def two_events_def append_event_def chain_rows_def Let_def)+

lemma two_events_ne: "two_events \<noteq> []"
  by (simp add: two_events_def append_event_def Let_def)

lemma two_events_scan: "scan_chain id plain_iso 0 None two_events = None"
proof -
  have "filter (\<lambda>e. ev_chain_key e = ''campaign:c1'') two_events = two_events"
    by (simp add: two_events_def append_event_def Let_def)
  with in_orderD [OF audit_table_in_order [OF two_events_audit_table], of "''campaign:c1''"] show ?thesis by simp
qed

lemma equal_heads_equal_history_witness:
  "list_all2 (same_content plain_iso) (sort_key ev_chain_index two_events) (sort_key ev_chain_index renamed_actors)
     \<and> two_events \<noteq> renamed_actors"
proof
  show "list_all2 (same_content plain_iso) (sort_key ev_chain_index two_events) (sort_key ev_chain_index renamed_actors)"
  proof (rule equal_heads_equal_history [where sha = id])
    show "cv_intact (verify_chain id plain_iso two_events)" "cv_intact (verify_chain id plain_iso renamed_actors)"
      unfolding verify_chain_intact_iff two_events_sorted
      by (simp_all only: renamed_actors_def scan_chain_renamed two_events_scan)
    show "cv_head_digest (verify_chain id plain_iso two_events) = cv_head_digest (verify_chain id plain_iso renamed_actors)"
      unfolding verify_chain_head two_events_sorted using two_events_ne by (simp add: renamed_actors_def last_map)
  qed simp
  show "two_events \<noteq> renamed_actors" by (simp add: renamed_actors_def two_events_def append_event_def Let_def)
qed

subsection \<open>The head a campaign's status reports\<close>

lemma rows_below:
  assumes "map ev_chain_index rows = [0..<length rows]"
  shows "filter (\<lambda>e. ev_chain_index e < k) rows = take k rows"
  using assms
proof (induction rows rule: rev_induct)
  case (snoc e rows)
  then show ?case by (cases "length rows < k") auto
qed simp

lemma scan_chain_take: "scan_chain sha iso_at p prev es = None \<Longrightarrow> scan_chain sha iso_at p prev (take k es) = None"
  by (induction es arbitrary: p prev k) (auto split: if_splits simp: take_Cons split: nat.split)

lemma page_one: "fst (campaign_events c limit 0 table) = take limit (chain_rows (campaign_chain c) table)"
  by (simp add: campaign_events_def events_for_chain_def Let_def min_def)

lemma reported_head_rows: "reported_chain_head c table =
    (let rows = take 1000 (chain_rows (campaign_chain c) table) in if rows = [] then None else Some (ev_digest (last rows)))"
  by (simp add: reported_chain_head_def page_one Let_def)

lemma reported_head_short:
  "length (chain_rows (campaign_chain c) table) \<le> 1000
    \<Longrightarrow> reported_chain_head c table = cv_head_digest (verify_chain sha iso_at (chain_rows (campaign_chain c) table))"
  by (simp add: reported_head_rows verify_chain_head Let_def)

lemma in_order_cut:
  assumes "in_order sha iso_at table"
  shows "chain_rows key (filter (\<lambda>e. ev_chain_key e = key \<longrightarrow> ev_chain_index e < k) table) = take k (chain_rows key table)"
proof -
  note ok = in_orderD [OF assms, of key]
  have idx: "map ev_chain_index (chain_rows key table) = [0..<length (chain_rows key table)]"
    using scan_chain_indexes [OF ok(2)] by simp
  have "filter (\<lambda>e. ev_chain_key e = key) (filter (\<lambda>e. ev_chain_key e = key \<longrightarrow> ev_chain_index e < k) table)
      = filter (\<lambda>e. ev_chain_index e < k) (filter (\<lambda>e. ev_chain_key e = key) table)"
    by (simp add: conj_commute cong: conj_cong)
  also have "\<dots> = take k (chain_rows key table)" unfolding ok(1) [symmetric] by (rule rows_below [OF idx])
  finally have eq: "chain_rows key (filter (\<lambda>e. ev_chain_key e = key \<longrightarrow> ev_chain_index e < k) table)
      = sort_key ev_chain_index (take k (chain_rows key table))" by (simp add: chain_rows_def)
  have "sorted (map ev_chain_index (take k (chain_rows key table)))" by (simp add: take_map [symmetric] idx take_upt)
  with eq show ?thesis by (simp add: sort_key_id_if_sorted)
qed

text \<open>
  The head \<open>campaign_status\<close> reports stops following a chain at its thousandth event: from then
  on it is the digest of event 999, no appended event changes it, and deleting every later event of
  the chain leaves a table whose chain verifies and whose reported head is the same.
\<close>

theorem reported_head_stops_at_1000:
  assumes "audit_table sha iso_at table" and "1000 < length (chain_rows (campaign_chain c) table)"
  shows "reported_chain_head c table = Some (ev_digest (chain_rows (campaign_chain c) table ! 999))
    \<and> reported_chain_head c (append_event sha iso_at event_id (campaign_chain c) ty at subject display roles campaign item decision payload table)
        = reported_chain_head c table
    \<and> (let cut = filter (\<lambda>e. ev_chain_key e = campaign_chain c \<longrightarrow> ev_chain_index e < 1000) table
       in reported_chain_head c cut = reported_chain_head c table
          \<and> cv_intact (verify_chain sha iso_at (chain_rows (campaign_chain c) cut))
          \<and> length (chain_rows (campaign_chain c) cut) = 1000)"
proof (intro conjI)
  let ?rows = "chain_rows (campaign_chain c) table"
  note inv = audit_table_in_order [OF assms(1)]
  have ne: "take 1000 ?rows \<noteq> []" using assms(2) by auto
  have "last (take 1000 ?rows) = ?rows ! 999" using assms(2) ne by (simp add: last_conv_nth min_def)
  then show "reported_chain_head c table = Some (ev_digest (?rows ! 999))"
    using ne by (simp add: reported_head_rows Let_def)
  obtain e where e: "append_event sha iso_at event_id (campaign_chain c) ty at subject display roles campaign item decision payload table
      = table @ [e]" "ev_chain_key e = campaign_chain c"
    "ev_chain_index e = (if ?rows = [] then 0 else Suc (ev_chain_index (last ?rows)))"
    "ev_previous_digest e = (if ?rows = [] then None else Some (ev_digest (last ?rows)))"
    "digest_of sha iso_at e = ev_digest e" using append_event_rows by blast
  show "reported_chain_head c (append_event sha iso_at event_id (campaign_chain c) ty at subject display roles campaign item decision payload table)
        = reported_chain_head c table"
    unfolding e(1) using in_order_append [OF inv e(2-5)] assms(2) by (simp add: reported_head_rows)
  have "scan_chain sha iso_at 0 None (take 1000 ?rows) = None"
    by (rule scan_chain_take [OF in_orderD(2) [OF inv]])
  moreover have "sort_key ev_chain_index (take 1000 ?rows) = take 1000 ?rows"
    using chain_rows_sorted [of "campaign_chain c" "filter (\<lambda>e. ev_chain_key e = campaign_chain c \<longrightarrow> ev_chain_index e < 1000) table"]
    unfolding in_order_cut [OF inv] .
  ultimately show "let cut = filter (\<lambda>e. ev_chain_key e = campaign_chain c \<longrightarrow> ev_chain_index e < 1000) table
       in reported_chain_head c cut = reported_chain_head c table
          \<and> cv_intact (verify_chain sha iso_at (chain_rows (campaign_chain c) cut))
          \<and> length (chain_rows (campaign_chain c) cut) = 1000"
    using assms(2) by (simp only: Let_def reported_head_rows in_order_cut [OF inv] verify_chain_intact_iff) simp
qed

fun many_events :: "nat \<Rightarrow> governance_event list" where
  "many_events 0 = []"
| "many_events (Suc n) = append_event id plain_iso ''e'' ''campaign:c1'' GE_DECISION_RECORDED 0 ''alice'' None [] (Some ''c1'') None None
     (JObj []) (many_events n)"

lemma many_events_audit_table: "audit_table id plain_iso (many_events n)"
proof (induction n)
  case (Suc n)
  then show ?case unfolding many_events.simps by (rule audit_append)
qed (simp add: audit_empty)

lemma many_events_rows: "length (chain_rows ''campaign:c1'' (many_events n)) = n"
proof (induction n)
  case (Suc n)
  have "length (filter (\<lambda>e. ev_chain_key e = ''campaign:c1'') (many_events (Suc n)))
      = Suc (length (filter (\<lambda>e. ev_chain_key e = ''campaign:c1'') (many_events n)))"
    by (simp add: append_event_def Let_def)
  with Suc show ?case by (simp add: chain_rows_def)
qed (simp add: chain_rows_def)

lemma reported_head_stops_at_1000_witness:
  "reported_chain_head ''c1'' (many_events 1001) = reported_chain_head ''c1'' (many_events 1002)"
proof -
  have "1000 < length (chain_rows (campaign_chain ''c1'') (many_events 1001))"
    using many_events_rows [of 1001] by (simp add: campaign_chain_def)
  from reported_head_stops_at_1000 [OF many_events_audit_table this, of "''e''" GE_DECISION_RECORDED 0 "''alice''" None "[]"
      "Some ''c1''" None None "JObj []"]
  have "reported_chain_head ''c1'' (append_event id plain_iso ''e'' ''campaign:c1'' GE_DECISION_RECORDED 0 ''alice'' None []
      (Some ''c1'') None None (JObj []) (many_events 1001)) = reported_chain_head ''c1'' (many_events 1001)"
    by (simp add: campaign_chain_def)
  moreover have "many_events 1002 = append_event id plain_iso ''e'' ''campaign:c1'' GE_DECISION_RECORDED 0 ''alice'' None []
      (Some ''c1'') None None (JObj []) (many_events 1001)" using many_events.simps(2) [of 1001] by simp
  ultimately show ?thesis by simp
qed

end
