(* ===== verification/Adg_Change_Plan.thy ===== *)
theory Adg_Change_Plan
  imports Adg_Audit Adg_Graph
begin

section \<open>Change plans (app/remediation/model.py, app/domain/remediation.py)\<close>

text \<open>
  The vocabulary of a change plan, the frozen state each change was written against, the
  constructor checks and the digests. Masks are Python integers here (\<open>int\<close>): a change carries
  \<open>after_access_mask\<close> without a range check of its own. The hash is the parameter \<open>sha\<close>, a
  rendered moment \<open>iso_at\<close>.
\<close>

subsection \<open>Vocabulary\<close>

datatype change_target_kind = CT_SHARE | CT_RESOURCE | CT_GROUP

fun change_target_kind_value :: "change_target_kind \<Rightarrow> string" where
  "change_target_kind_value CT_SHARE = ''share''"
| "change_target_kind_value CT_RESOURCE = ''resource''"
| "change_target_kind_value CT_GROUP = ''group''"

datatype planned_change_kind =
  PC_REMOVE_GROUP_MEMBER | PC_REMOVE_SHARE_ACE | PC_MODIFY_SHARE_ACE | PC_REMOVE_NTFS_ACE
| PC_MODIFY_NTFS_ACE | PC_REPLACE_WITH_GROUP

fun planned_change_kind_value :: "planned_change_kind \<Rightarrow> string" where
  "planned_change_kind_value PC_REMOVE_GROUP_MEMBER = ''remove_group_member''"
| "planned_change_kind_value PC_REMOVE_SHARE_ACE = ''remove_share_ace''"
| "planned_change_kind_value PC_MODIFY_SHARE_ACE = ''modify_share_ace''"
| "planned_change_kind_value PC_REMOVE_NTFS_ACE = ''remove_ntfs_ace''"
| "planned_change_kind_value PC_MODIFY_NTFS_ACE = ''modify_ntfs_ace''"
| "planned_change_kind_value PC_REPLACE_WITH_GROUP = ''replace_with_group''"

datatype change_plan_status =
  CP_DRAFT | CP_PENDING_APPROVAL | CP_APPROVED | CP_REJECTED | CP_EXPORTED | CP_INVALIDATED | CP_CANCELED

fun change_plan_status_value :: "change_plan_status \<Rightarrow> string" where
  "change_plan_status_value CP_DRAFT = ''draft''"
| "change_plan_status_value CP_PENDING_APPROVAL = ''pending_approval''"
| "change_plan_status_value CP_APPROVED = ''approved''"
| "change_plan_status_value CP_REJECTED = ''rejected''"
| "change_plan_status_value CP_EXPORTED = ''exported''"
| "change_plan_status_value CP_INVALIDATED = ''invalidated''"
| "change_plan_status_value CP_CANCELED = ''canceled''"

datatype approval_decision = AD_APPROVE | AD_REJECT

datatype precondition_verdict = PV_SATISFIED | PV_CHANGED | PV_MISSING | PV_UNOBSERVED

fun precondition_verdict_value :: "precondition_verdict \<Rightarrow> string" where
  "precondition_verdict_value PV_SATISFIED = ''satisfied''"
| "precondition_verdict_value PV_CHANGED = ''changed''"
| "precondition_verdict_value PV_MISSING = ''missing''"
| "precondition_verdict_value PV_UNOBSERVED = ''unobserved''"

definition verdict_blocks_export :: "precondition_verdict \<Rightarrow> bool" where
  "verdict_blocks_export v \<longleftrightarrow> v \<noteq> PV_SATISFIED"

fun ace_source_value :: "ace_source \<Rightarrow> string" where
  "ace_source_value EXPLICIT = ''explicit''"
| "ace_source_value INHERITED = ''inherited''"

fun membership_edge_kind_value :: "membership_edge_kind \<Rightarrow> string" where
  "membership_edge_kind_value MK_DIRECTORY_GROUP_MEMBER = ''directory_group_member''"
| "membership_edge_kind_value MK_PRIMARY_GROUP = ''primary_group''"
| "membership_edge_kind_value MK_LOCAL_GROUP_MEMBER = ''local_group_member''"
| "membership_edge_kind_value MK_WELL_KNOWN_IMPLICIT = ''well_known_implicit''"

definition MAX_PLAN_CHANGES :: nat where "MAX_PLAN_CHANGES = 100"

definition MAX_TITLE_LENGTH :: nat where "MAX_TITLE_LENGTH = 200"

definition MAX_RATIONALE_LENGTH :: nat where "MAX_RATIONALE_LENGTH = 4000"

definition PLAN_DOCUMENT_VERSION :: string where "PLAN_DOCUMENT_VERSION = ''1.0''"

definition MEMBERSHIP_KINDS :: "planned_change_kind list" where "MEMBERSHIP_KINDS = [PC_REMOVE_GROUP_MEMBER]"

text \<open>The lifecycle as a graph, in the order the code lists it.\<close>

fun PLAN_TRANSITIONS :: "change_plan_status \<Rightarrow> change_plan_status list" where
  "PLAN_TRANSITIONS CP_DRAFT = [CP_PENDING_APPROVAL, CP_CANCELED, CP_INVALIDATED]"
| "PLAN_TRANSITIONS CP_PENDING_APPROVAL = [CP_APPROVED, CP_REJECTED, CP_CANCELED, CP_INVALIDATED]"
| "PLAN_TRANSITIONS CP_APPROVED = [CP_EXPORTED, CP_CANCELED, CP_INVALIDATED]"
| "PLAN_TRANSITIONS CP_EXPORTED = []"
| "PLAN_TRANSITIONS CP_REJECTED = []"
| "PLAN_TRANSITIONS CP_INVALIDATED = []"
| "PLAN_TRANSITIONS CP_CANCELED = []"

definition ALL_STATUSES :: "change_plan_status list" where
  "ALL_STATUSES = [CP_DRAFT, CP_PENDING_APPROVAL, CP_APPROVED, CP_REJECTED, CP_EXPORTED, CP_INVALIDATED, CP_CANCELED]"

definition TERMINAL_STATUSES :: "change_plan_status list" where
  "TERMINAL_STATUSES = filter (\<lambda>s. PLAN_TRANSITIONS s = []) ALL_STATUSES"

definition EDITABLE_STATUSES :: "change_plan_status list" where "EDITABLE_STATUSES = [CP_DRAFT]"

definition plan_chain :: "uuid \<Rightarrow> string" where "plan_chain plan_id = ''plan:'' @ plan_id"

definition opt_int :: "int option \<Rightarrow> json" where
  "opt_int x = (case x of None \<Rightarrow> JNull | Some i \<Rightarrow> JInt i)"

definition opt_instant :: "(instant \<Rightarrow> string) \<Rightarrow> instant option \<Rightarrow> json" where
  "opt_instant iso_at x = (case x of None \<Rightarrow> JNull | Some t \<Rightarrow> JStr (iso_at t))"

subsection \<open>What a change was written against\<close>

record entry_snapshot =
  es_ace_key :: string
  es_trustee_sid :: string
  es_trustee_key :: string
  es_ace_type :: ace_type
  es_access_mask :: "int option"
  es_permission :: "share_permission option"
  es_ace_flags :: "int option"
  es_source :: "ace_source option"
  es_inherited_from :: "string option"
  es_order_index :: "int option"
  es_version_id :: "int option"
  es_observed_from :: "instant option"
  es_last_confirmed_at :: "instant option"

definition mk_entry_snapshot :: "entry_snapshot \<Rightarrow> entry_snapshot result" where
  "mk_entry_snapshot e =
     (if py_strip (es_ace_key e) = [] then Inl (RemediationValidationError ''ace_key'')
      else if es_access_mask e = None \<and> es_permission e = None then Inl (RemediationValidationError ''access_mask'')
      else if (case es_access_mask e of None \<Rightarrow> False | Some m \<Rightarrow> \<not> (0 \<le> m \<and> m \<le> 0xFFFFFFFF))
        then Inl (RemediationValidationError ''access_mask'')
      else Inr e)"

definition entry_is_deny :: "entry_snapshot \<Rightarrow> bool" where
  "entry_is_deny e \<longleftrightarrow> es_ace_type e = DENY"

definition entry_is_inherited :: "entry_snapshot \<Rightarrow> bool" where
  "entry_is_inherited e \<longleftrightarrow> es_source e = Some INHERITED"

definition entry_fields :: "entry_snapshot \<Rightarrow> (string \<times> json) list" where
  "entry_fields e =
     [(''ace_key'', JStr (es_ace_key e)), (''trustee_sid'', JStr (es_trustee_sid e)),
      (''trustee_key'', JStr (es_trustee_key e)), (''ace_type'', JStr (ace_type_value (es_ace_type e))),
      (''access_mask'', opt_int (es_access_mask e)),
      (''permission'', opt_str (map_option share_permission_value (es_permission e))),
      (''ace_flags'', opt_int (es_ace_flags e)),
      (''source'', opt_str (map_option ace_source_value (es_source e))),
      (''inherited_from'', opt_str (es_inherited_from e)), (''order_index'', opt_int (es_order_index e))]"

definition entry_as_digestible :: "entry_snapshot \<Rightarrow> json" where
  "entry_as_digestible e = JObj (entry_fields e)"

definition entry_content_digest :: "(string \<Rightarrow> string) \<Rightarrow> entry_snapshot \<Rightarrow> string" where
  "entry_content_digest sha e = digest_json sha (entry_as_digestible e)"

definition entry_document :: "(string \<Rightarrow> string) \<Rightarrow> (instant \<Rightarrow> string) \<Rightarrow> entry_snapshot \<Rightarrow> json" where
  "entry_document sha iso_at e = JObj (entry_fields e @
     [(''version_id'', opt_int (es_version_id e)), (''observed_from'', opt_instant iso_at (es_observed_from e)),
      (''last_confirmed_at'', opt_instant iso_at (es_last_confirmed_at e)),
      (''content_digest'', JStr (entry_content_digest sha e))])"

record membership_snapshot =
  ms_group_key :: string
  ms_member_key :: string
  ms_member_sid :: string
  ms_edge_kind :: membership_edge_kind
  ms_member_kind :: "principal_kind option"
  ms_group_display_name :: "string option"
  ms_member_display_name :: "string option"
  ms_version_id :: "int option"
  ms_observed_from :: "instant option"
  ms_last_confirmed_at :: "instant option"

text \<open>\<open>str.rpartition("|")\<close>: what stands before the last separator, when there is one.\<close>

definition before_last_bar :: "string \<Rightarrow> string option" where
  "before_last_bar s = (case split_on (CHR ''|'') s of
       [_] \<Rightarrow> None | parts \<Rightarrow> Some (join_with ''|'' (butlast parts)))"

definition after_last_bar :: "string \<Rightarrow> string" where
  "after_last_bar s = last (split_on (CHR ''|'') s)"

definition ms_host_key :: "membership_snapshot \<Rightarrow> string option" where
  "ms_host_key m = before_last_bar (ms_group_key m)"

definition ms_is_local :: "membership_snapshot \<Rightarrow> bool" where
  "ms_is_local m \<longleftrightarrow> ms_edge_kind m = MK_LOCAL_GROUP_MEMBER"

definition mk_membership_snapshot :: "membership_snapshot \<Rightarrow> membership_snapshot result" where
  "mk_membership_snapshot m =
     (if py_strip (ms_group_key m) = [] \<or> py_strip (ms_member_key m) = []
        then Inl (RemediationValidationError (if py_strip (ms_group_key m) = [] then ''group_key'' else ''member_key''))
      else if ms_group_key m = ms_member_key m then Inl (RemediationValidationError ''member_key'')
      else if ms_is_local m \<noteq> (ms_host_key m \<noteq> None) then Inl (RemediationValidationError ''edge_kind'')
      else Inr m)"

definition membership_fields :: "membership_snapshot \<Rightarrow> (string \<times> json) list" where
  "membership_fields m =
     [(''group_key'', JStr (ms_group_key m)), (''member_key'', JStr (ms_member_key m)),
      (''member_sid'', JStr (ms_member_sid m)),
      (''edge_kind'', JStr (membership_edge_kind_value (ms_edge_kind m)))]"

definition membership_as_digestible :: "membership_snapshot \<Rightarrow> json" where
  "membership_as_digestible m = JObj (membership_fields m)"

definition membership_content_digest :: "(string \<Rightarrow> string) \<Rightarrow> membership_snapshot \<Rightarrow> string" where
  "membership_content_digest sha m = digest_json sha (membership_as_digestible m)"

definition membership_document :: "(string \<Rightarrow> string) \<Rightarrow> (instant \<Rightarrow> string) \<Rightarrow> membership_snapshot \<Rightarrow> json" where
  "membership_document sha iso_at m = JObj (membership_fields m @
     [(''member_kind'', opt_str (map_option principal_kind_value (ms_member_kind m))),
      (''group_display_name'', opt_str (ms_group_display_name m)),
      (''member_display_name'', opt_str (ms_member_display_name m)),
      (''version_id'', opt_int (ms_version_id m)), (''observed_from'', opt_instant iso_at (ms_observed_from m)),
      (''last_confirmed_at'', opt_instant iso_at (ms_last_confirmed_at m)),
      (''content_digest'', JStr (membership_content_digest sha m))])"

subsection \<open>One planned change\<close>

record planned_change =
  pc_change_id :: uuid
  pc_sequence_index :: int
  pc_kind :: planned_change_kind
  pc_target_kind :: change_target_kind
  pc_target_key :: string
  pc_target_display :: "string option"
  pc_principal_sid :: string
  pc_principal_key :: string
  pc_principal_display_name :: "string option"
  pc_entry :: "entry_snapshot option"
  pc_membership :: "membership_snapshot option"
  pc_after_access_mask :: "int option"
  pc_after_permission :: "share_permission option"
  pc_replacement_group_key :: "string option"
  pc_replacement_group_sid :: "string option"
  pc_replacement_group_display_name :: "string option"
  pc_item_id :: "uuid option"
  pc_decision_id :: "uuid option"
  pc_proposal_id :: "uuid option"
  pc_risk_finding_key :: "string option"
  pc_notes :: "string option"

text \<open>The truth value of a Python text that may be absent.\<close>

definition truthy :: "string option \<Rightarrow> bool" where
  "truthy s \<longleftrightarrow> s \<noteq> None \<and> s \<noteq> Some []"

fun expected_target_kind :: "planned_change_kind \<Rightarrow> change_target_kind" where
  "expected_target_kind PC_REMOVE_GROUP_MEMBER = CT_GROUP"
| "expected_target_kind PC_REMOVE_SHARE_ACE = CT_SHARE"
| "expected_target_kind PC_MODIFY_SHARE_ACE = CT_SHARE"
| "expected_target_kind PC_REMOVE_NTFS_ACE = CT_RESOURCE"
| "expected_target_kind PC_MODIFY_NTFS_ACE = CT_RESOURCE"
| "expected_target_kind PC_REPLACE_WITH_GROUP = CT_RESOURCE"

definition validate_target_kind :: "planned_change_kind \<Rightarrow> change_target_kind \<Rightarrow> unit result" where
  "validate_target_kind k t =
     (if t \<noteq> expected_target_kind k then Inl (RemediationValidationError ''target_kind'') else Inr ())"

fun SHARE_PERMISSION_ORDER :: "share_permission \<Rightarrow> nat" where
  "SHARE_PERMISSION_ORDER SP_READ = 0"
| "SHARE_PERMISSION_ORDER SP_CHANGE = 1"
| "SHARE_PERMISSION_ORDER SP_FULL = 2"

text \<open>A mask \<open>a\<close> that adds bits to \<open>b\<close>: Python's \<open>a & ~b\<close> as a truth value, on unbounded integers.\<close>

definition adds_rights :: "int \<Rightarrow> int \<Rightarrow> bool" where
  "adds_rights a b \<longleftrightarrow> a AND NOT b \<noteq> 0"

definition narrow_ntfs :: "planned_change \<Rightarrow> entry_snapshot \<Rightarrow> unit result" where
  "narrow_ntfs c e =
     (case pc_after_access_mask c of
        None \<Rightarrow> Inl (RemediationValidationError ''after_access_mask'')
      | Some after \<Rightarrow>
          let observed = (case es_access_mask e of None \<Rightarrow> 0 | Some m \<Rightarrow> m)
          in if adds_rights after observed then Inl (RemediationValidationError ''after_access_mask'')
             else if after = observed then Inl (RemediationValidationError ''after_access_mask'')
             else if entry_is_deny e then Inl (RemediationValidationError ''after_access_mask'')
             else Inr ())"

definition narrow_share :: "planned_change \<Rightarrow> entry_snapshot \<Rightarrow> unit result" where
  "narrow_share c e =
     (if pc_after_permission c = None \<and> pc_after_access_mask c = None
        then Inl (RemediationValidationError ''after_permission'')
      else if (case (pc_after_permission c, es_permission e) of
                 (Some after, Some now) \<Rightarrow> SHARE_PERMISSION_ORDER after \<ge> SHARE_PERMISSION_ORDER now
               | _ \<Rightarrow> False)
        then Inl (RemediationValidationError ''after_permission'')
      else if (case (pc_after_access_mask c, es_access_mask e) of
                 (Some after, Some now) \<Rightarrow> adds_rights after now | _ \<Rightarrow> False)
        then Inl (RemediationValidationError ''after_access_mask'')
      else if entry_is_deny e then Inl (RemediationValidationError ''after_permission'')
      else Inr ())"

definition validate_narrowing :: "planned_change \<Rightarrow> unit result" where
  "validate_narrowing c =
     (if pc_kind c = PC_MODIFY_NTFS_ACE
        then (case pc_entry c of None \<Rightarrow> Inl AssertionError | Some e \<Rightarrow> narrow_ntfs c e)
      else if pc_kind c = PC_MODIFY_SHARE_ACE
        then (case pc_entry c of None \<Rightarrow> Inl AssertionError | Some e \<Rightarrow> narrow_share c e)
      else if pc_after_access_mask c \<noteq> None \<or> pc_after_permission c \<noteq> None
        then Inl (RemediationValidationError ''after_access_mask'')
      else Inr ())"

definition validate_evidence :: "planned_change \<Rightarrow> unit result" where
  "validate_evidence c =
     (if pc_kind c \<in> set MEMBERSHIP_KINDS then
        (case pc_membership c of
           None \<Rightarrow> Inl (RemediationValidationError ''membership'')
         | Some m \<Rightarrow> if pc_entry c \<noteq> None then Inl (RemediationValidationError ''entry'')
             else if ms_group_key m \<noteq> pc_target_key c then Inl (RemediationValidationError ''target_key'')
             else Inr ())
      else if pc_entry c = None then Inl (RemediationValidationError ''entry'')
      else Inr ())"

definition validate_replacement :: "planned_change \<Rightarrow> unit result" where
  "validate_replacement c =
     (if pc_kind c \<noteq> PC_REPLACE_WITH_GROUP then Inr ()
      else if pc_membership c = None then Inl (RemediationValidationError ''membership'')
      else if \<not> (truthy (pc_replacement_group_key c) \<and> truthy (pc_replacement_group_sid c))
        then Inl (RemediationValidationError ''replacement_group_key'')
      else Inr ())"

text \<open>\<open>PlannedChange.__post_init__\<close>\<close>

definition mk_planned_change :: "planned_change \<Rightarrow> planned_change result" where
  "mk_planned_change c =
     (if pc_sequence_index c < 0 then Inl (RemediationValidationError ''sequence_index'')
      else res_bind (validate_target_kind (pc_kind c) (pc_target_kind c)) (\<lambda>_.
        if py_strip (pc_target_key c) = [] then Inl (RemediationValidationError ''target_key'')
        else res_bind (validate_evidence c) (\<lambda>_.
          res_bind (validate_replacement c) (\<lambda>_.
            res_bind (validate_narrowing c) (\<lambda>_. Inr c)))))"

definition acts_on_membership :: "planned_change \<Rightarrow> bool" where
  "acts_on_membership c \<longleftrightarrow> pc_kind c \<in> set MEMBERSHIP_KINDS \<or> pc_kind c = PC_REPLACE_WITH_GROUP"

definition precondition_digest :: "(string \<Rightarrow> string) \<Rightarrow> planned_change \<Rightarrow> string result" where
  "precondition_digest sha c =
     (case pc_entry c of
        Some e \<Rightarrow> Inr (entry_content_digest sha e)
      | None \<Rightarrow> (case pc_membership c of
          Some m \<Rightarrow> Inr (membership_content_digest sha m) | None \<Rightarrow> Inl AssertionError))"

definition change_fields :: "planned_change \<Rightarrow> (string \<times> json) list" where
  "change_fields c =
     [(''sequence_index'', JInt (pc_sequence_index c)), (''kind'', JStr (planned_change_kind_value (pc_kind c))),
      (''target_kind'', JStr (change_target_kind_value (pc_target_kind c))),
      (''target_key'', JStr (pc_target_key c)), (''principal_sid'', JStr (pc_principal_sid c)),
      (''principal_key'', JStr (pc_principal_key c)),
      (''entry'', case pc_entry c of None \<Rightarrow> JNull | Some e \<Rightarrow> entry_as_digestible e),
      (''membership'', case pc_membership c of None \<Rightarrow> JNull | Some m \<Rightarrow> membership_as_digestible m),
      (''after_access_mask'', opt_int (pc_after_access_mask c)),
      (''after_permission'', opt_str (map_option share_permission_value (pc_after_permission c))),
      (''replacement_group_key'', opt_str (pc_replacement_group_key c)),
      (''replacement_group_sid'', opt_str (pc_replacement_group_sid c)),
      (''item_id'', opt_str (pc_item_id c)), (''decision_id'', opt_str (pc_decision_id c)),
      (''risk_finding_key'', opt_str (pc_risk_finding_key c))]"

definition change_as_digestible :: "planned_change \<Rightarrow> json" where
  "change_as_digestible c = JObj (change_fields c)"

definition change_digest :: "(string \<Rightarrow> string) \<Rightarrow> planned_change \<Rightarrow> string" where
  "change_digest sha c = digest_json sha (change_as_digestible c)"

text \<open>
  What makes two changes the same change. The constructor guarantees an entry or a membership; the
  last case is the attribute error Python would raise without either.
\<close>

definition natural_key :: "planned_change \<Rightarrow> string \<times> string \<times> string \<times> string" where
  "natural_key c =
     (change_target_kind_value (pc_target_kind c), pc_target_key c, pc_principal_key c,
      case pc_entry c of Some e \<Rightarrow> es_ace_key e
      | None \<Rightarrow> (case pc_membership c of Some m \<Rightarrow> ms_group_key m @ ''->'' @ ms_member_key m | None \<Rightarrow> []))"

subsection \<open>A set of changes\<close>

fun one_step_per_object :: "(string \<times> string \<times> string \<times> string) list \<Rightarrow> planned_change list \<Rightarrow> unit result" where
  "one_step_per_object seen [] = Inr ()"
| "one_step_per_object seen (c # cs) =
     (if natural_key c \<in> set seen then Inl (RemediationValidationError ''changes'')
      else one_step_per_object (natural_key c # seen) cs)"

definition validate_changes :: "planned_change list \<Rightarrow> unit result" where
  "validate_changes cs =
     (if cs = [] then Inl (RemediationValidationError ''changes'')
      else if MAX_PLAN_CHANGES < length cs then Inl (RemediationValidationError ''changes'')
      else res_bind (one_step_per_object [] cs) (\<lambda>_.
        if sort (map pc_sequence_index cs) \<noteq> map int [0..<length cs]
          then Inl (RemediationValidationError ''sequence_index'')
        else Inr ()))"

definition validate_title :: "string \<Rightarrow> string result" where
  "validate_title v = (let t = py_strip v in
     if t = [] then Inl (RemediationValidationError ''title'')
     else if MAX_TITLE_LENGTH < length t then Inl (RemediationValidationError ''title'') else Inr t)"

definition validate_rationale :: "string \<Rightarrow> string result" where
  "validate_rationale v = (let t = py_strip v in
     if t = [] then Inl (RemediationValidationError ''rationale'')
     else if MAX_RATIONALE_LENGTH < length t then Inl (RemediationValidationError ''rationale'') else Inr t)"

definition validate_transition :: "change_plan_status \<Rightarrow> change_plan_status \<Rightarrow> unit result" where
  "validate_transition now next =
     (if next \<in> set (PLAN_TRANSITIONS now) then Inr () else Inl (RemediationValidationError ''status''))"

subsection \<open>The plan and its records\<close>

record change_plan =
  cp_plan_id :: uuid
  cp_title :: string
  cp_rationale :: string
  cp_status :: change_plan_status
  cp_changes :: "planned_change list"
  cp_requested_by_subject :: string
  cp_requested_by_display_name :: "string option"
  cp_requested_at :: instant
  cp_basis_token :: string
  cp_basis_run_id :: "string option"
  cp_basis_captured_at :: "instant option"
  cp_campaign_id :: "uuid option"
  cp_simulation_id :: "uuid option"
  cp_simulation_basis_token :: "string option"
  cp_impact_summary :: json
  cp_submitted_at :: "instant option"
  cp_decided_at :: "instant option"
  cp_approved_by_subject :: "string option"
  cp_approved_plan_digest :: "string option"
  cp_approved_basis_token :: "string option"
  cp_rejection_reason :: "string option"
  cp_exported_at :: "instant option"
  cp_invalidated_at :: "instant option"
  cp_invalidation_reason :: "string option"
  cp_canceled_at :: "instant option"
  cp_canceled_by_subject :: "string option"
  cp_created_at :: "instant option"
  cp_updated_at :: "instant option"

definition plan_fields :: "change_plan \<Rightarrow> (string \<times> json) list" where
  "plan_fields p =
     [(''document_version'', JStr PLAN_DOCUMENT_VERSION), (''plan_id'', JStr (cp_plan_id p)),
      (''title'', JStr (cp_title p)), (''rationale'', JStr (cp_rationale p)),
      (''campaign_id'', opt_str (cp_campaign_id p)),
      (''requested_by_subject'', JStr (cp_requested_by_subject p)), (''basis_token'', JStr (cp_basis_token p)),
      (''simulation_id'', opt_str (cp_simulation_id p)),
      (''changes'', JArr (map change_as_digestible (sort_key pc_sequence_index (cp_changes p))))]"

definition plan_material :: "change_plan \<Rightarrow> json" where
  "plan_material p = JObj (plan_fields p)"

definition plan_digest :: "(string \<Rightarrow> string) \<Rightarrow> change_plan \<Rightarrow> string" where
  "plan_digest sha p = digest_json sha (plan_material p)"

definition is_terminal :: "change_plan \<Rightarrow> bool" where
  "is_terminal p \<longleftrightarrow> cp_status p \<in> set TERMINAL_STATUSES"

definition is_editable :: "change_plan \<Rightarrow> bool" where
  "is_editable p \<longleftrightarrow> cp_status p \<in> set EDITABLE_STATUSES"

definition has_current_simulation :: "change_plan \<Rightarrow> bool" where
  "has_current_simulation p \<longleftrightarrow> cp_simulation_id p \<noteq> None \<and> cp_simulation_basis_token p \<noteq> None
     \<and> cp_simulation_basis_token p = Some (cp_basis_token p)"

definition approval_is_current :: "(string \<Rightarrow> string) \<Rightarrow> change_plan \<Rightarrow> bool" where
  "approval_is_current sha p \<longleftrightarrow> cp_status p = CP_APPROVED \<and> cp_approved_plan_digest p \<noteq> None
     \<and> cp_approved_plan_digest p = Some (plan_digest sha p)"

record approval_record =
  ap_approval_id :: uuid
  ap_plan_id :: uuid
  ap_decision :: approval_decision
  ap_approver_subject :: string
  ap_approver_display_name :: "string option"
  ap_approver_roles :: "string list"
  ap_decided_at :: instant
  ap_rationale :: "string option"
  ap_plan_digest :: string
  ap_basis_token :: string
  ap_simulation_id :: "uuid option"

subsection \<open>Preconditions (app/remediation/preconditions.py)\<close>

record change_precondition =
  cpr_change_id :: uuid
  cpr_sequence_index :: int
  cpr_verdict :: precondition_verdict
  cpr_expected_digest :: string
  cpr_observed_digest :: "string option"

record precondition_report =
  prr_plan_id :: uuid
  prr_checked_at :: instant
  prr_basis_token :: string
  prr_plan_basis_token :: string
  prr_preconditions :: "change_precondition list"

record observed_state =
  os_target_observed :: bool
  os_entry :: "entry_snapshot option"
  os_membership_present :: "bool option"

definition unobserved_state :: observed_state where
  "unobserved_state = \<lparr>os_target_observed = False, os_entry = None, os_membership_present = None\<rparr>"

definition entry_verdict :: "(string \<Rightarrow> string) \<Rightarrow> planned_change \<Rightarrow> observed_state \<Rightarrow> string \<Rightarrow> change_precondition" where
  "entry_verdict sha c ob expected =
     (case os_entry ob of
        None \<Rightarrow> \<lparr>cpr_change_id = pc_change_id c, cpr_sequence_index = pc_sequence_index c,
          cpr_verdict = PV_MISSING, cpr_expected_digest = expected, cpr_observed_digest = None\<rparr>
      | Some current \<Rightarrow>
          let d = entry_content_digest sha current
          in \<lparr>cpr_change_id = pc_change_id c, cpr_sequence_index = pc_sequence_index c,
               cpr_verdict = (if d = expected then PV_SATISFIED else PV_CHANGED),
               cpr_expected_digest = expected, cpr_observed_digest = Some d\<rparr>)"

definition membership_verdict :: "planned_change \<Rightarrow> observed_state \<Rightarrow> string \<Rightarrow> change_precondition" where
  "membership_verdict c ob expected =
     (if os_membership_present ob = Some True
        then \<lparr>cpr_change_id = pc_change_id c, cpr_sequence_index = pc_sequence_index c,
          cpr_verdict = PV_SATISFIED, cpr_expected_digest = expected, cpr_observed_digest = Some expected\<rparr>
      else \<lparr>cpr_change_id = pc_change_id c, cpr_sequence_index = pc_sequence_index c,
          cpr_verdict = PV_MISSING, cpr_expected_digest = expected, cpr_observed_digest = None\<rparr>)"

definition evaluate_change :: "(string \<Rightarrow> string) \<Rightarrow> planned_change \<Rightarrow> observed_state \<Rightarrow> change_precondition result" where
  "evaluate_change sha c ob = res_bind (precondition_digest sha c) (\<lambda>expected. Inr
     (if \<not> os_target_observed ob
        then \<lparr>cpr_change_id = pc_change_id c, cpr_sequence_index = pc_sequence_index c,
          cpr_verdict = PV_UNOBSERVED, cpr_expected_digest = expected, cpr_observed_digest = None\<rparr>
      else if pc_entry c \<noteq> None then entry_verdict sha c ob expected
      else membership_verdict c ob expected))"

definition evaluate_plan ::
  "(string \<Rightarrow> string) \<Rightarrow> uuid \<Rightarrow> planned_change list \<Rightarrow> (uuid \<rightharpoonup> observed_state) \<Rightarrow> instant \<Rightarrow> string \<Rightarrow> string
   \<Rightarrow> precondition_report result" where
  "evaluate_plan sha plan_id changes observations checked_at token plan_token =
     res_bind (res_map (\<lambda>c. evaluate_change sha c
         (case observations (pc_change_id c) of None \<Rightarrow> unobserved_state | Some ob \<Rightarrow> ob))
       (sort_key pc_sequence_index changes)) (\<lambda>ps. Inr
     \<lparr>prr_plan_id = plan_id, prr_checked_at = checked_at, prr_basis_token = token,
       prr_plan_basis_token = plan_token, prr_preconditions = ps\<rparr>)"

definition report_satisfied :: "precondition_report \<Rightarrow> bool" where
  "report_satisfied r \<longleftrightarrow> \<not> (\<exists>p \<in> set (prr_preconditions r). verdict_blocks_export (cpr_verdict p))"

definition report_basis_moved :: "precondition_report \<Rightarrow> bool" where
  "report_basis_moved r \<longleftrightarrow> prr_basis_token r \<noteq> prr_plan_basis_token r"

definition report_blocking :: "precondition_report \<Rightarrow> change_precondition list" where
  "report_blocking r = filter (\<lambda>p. verdict_blocks_export (cpr_verdict p)) (prr_preconditions r)"

definition report_counts :: "precondition_report \<Rightarrow> (string \<times> nat) list" where
  "report_counts r = map (\<lambda>v. (precondition_verdict_value v,
       length (filter (\<lambda>p. cpr_verdict p = v) (prr_preconditions r))))
     [PV_SATISFIED, PV_CHANGED, PV_MISSING, PV_UNOBSERVED]"

text \<open>The sentence a refusal carries, from the counts.\<close>

definition blocking_parts :: "precondition_report \<Rightarrow> string list" where
  "blocking_parts r = map (\<lambda>(name, n). dec_string n @ '' '' @ name)
     (filter (\<lambda>(name, n). name \<noteq> precondition_verdict_value PV_SATISFIED \<and> n \<noteq> 0) (report_counts r))"

definition summarize_verdict :: "precondition_report \<Rightarrow> string" where
  "summarize_verdict r =
     (let total = dec_string (length (prr_preconditions r))
      in if report_satisfied r then
           (if report_basis_moved r
              then ''All '' @ total @ '' changes still match what ADG observed. Collection has moved on since the plan was written, and none of what moved touches this plan.''
            else ''All '' @ total @ '' changes still match what ADG observed.'')
         else dec_string (length (report_blocking r)) @ '' of '' @ total
           @ '' changes no longer match what ADG observed ('' @ join_with '', '' (blocking_parts r)
           @ ''). The plan cannot be exported until it is rewritten against current state.'')"

subsection \<open>What an accepted change is\<close>

lemmas change_checks = mk_planned_change_def validate_target_kind_def validate_evidence_def
  validate_replacement_def validate_narrowing_def

lemma mk_entry_snapshot_iff:
  "mk_entry_snapshot e = Inr f \<longleftrightarrow> f = e \<and> py_strip (es_ace_key e) \<noteq> []
     \<and> (es_access_mask e \<noteq> None \<or> es_permission e \<noteq> None)
     \<and> (\<forall>m. es_access_mask e = Some m \<longrightarrow> 0 \<le> m \<and> m \<le> 0xFFFFFFFF)"
  by (auto simp: mk_entry_snapshot_def split: option.splits if_splits)

lemma mk_planned_change_same: "mk_planned_change c = Inr d \<Longrightarrow> d = c"
  by (auto simp: mk_planned_change_def result_simps split: if_splits)

lemma mk_planned_change_iff:
  "mk_planned_change c = Inr d \<longleftrightarrow> d = c \<and> 0 \<le> pc_sequence_index c
     \<and> pc_target_kind c = expected_target_kind (pc_kind c) \<and> py_strip (pc_target_key c) \<noteq> []
     \<and> validate_evidence c = Inr () \<and> validate_replacement c = Inr () \<and> validate_narrowing c = Inr ()"
  by (auto simp: mk_planned_change_def validate_target_kind_def result_simps split: if_splits)

lemma validate_evidence_iff:
  "validate_evidence c = Inr () \<longleftrightarrow>
     (if pc_kind c = PC_REMOVE_GROUP_MEMBER
        then pc_entry c = None \<and> (\<exists>m. pc_membership c = Some m \<and> ms_group_key m = pc_target_key c)
      else pc_entry c \<noteq> None)"
  by (auto simp: validate_evidence_def MEMBERSHIP_KINDS_def split: option.splits if_splits)

text \<open>
  C33. A change the constructor accepts carries the evidence its kind needs. It acts on the object its
  kind names; it has an entry unless it removes a group member; a membership removal carries the
  edge of the very group it acts on, and a replacement an edge and the key and SID of the group put
  in its place; a resulting state is there exactly when it modifies, for a directory's entry a mask;
  its precondition digest exists, so the assertion behind it never fails, and a refusal is always a
  validation error naming a field. (Not excluded, against the field comments: a membership edge on a
  change of another kind, a level on \<open>MODIFY_NTFS_ACE\<close> and a mask on \<open>MODIFY_SHARE_ACE\<close>.)
\<close>

theorem accepted_change_is_well_formed:
  "case mk_planned_change c of
     Inr d \<Rightarrow> d = c \<and> pc_target_kind c = expected_target_kind (pc_kind c)
       \<and> (pc_entry c = None \<longleftrightarrow> pc_kind c = PC_REMOVE_GROUP_MEMBER)
       \<and> (acts_on_membership c \<longrightarrow> pc_membership c \<noteq> None)
       \<and> (pc_kind c = PC_REMOVE_GROUP_MEMBER \<longrightarrow> (\<exists>m. pc_membership c = Some m \<and> ms_group_key m = pc_target_key c))
       \<and> (pc_kind c = PC_REPLACE_WITH_GROUP \<longrightarrow> truthy (pc_replacement_group_key c) \<and> truthy (pc_replacement_group_sid c))
       \<and> (pc_kind c = PC_MODIFY_NTFS_ACE \<longrightarrow> pc_after_access_mask c \<noteq> None)
       \<and> ((pc_after_access_mask c \<noteq> None \<or> pc_after_permission c \<noteq> None)
            \<longleftrightarrow> pc_kind c = PC_MODIFY_NTFS_ACE \<or> pc_kind c = PC_MODIFY_SHARE_ACE)
       \<and> returns (precondition_digest sha c)
   | Inl e \<Rightarrow> (\<exists>f. e = RemediationValidationError f)"
proof (cases "mk_planned_change c")
  case (Inl e)
  have "validate_narrowing c \<noteq> Inl AssertionError" if "validate_evidence c = Inr ()"
    using that by (auto simp: validate_narrowing_def validate_evidence_iff narrow_ntfs_def narrow_share_def Let_def
        split: option.splits if_splits)
  moreover have "validate_narrowing c = Inl e' \<Longrightarrow> e' = AssertionError \<or> (\<exists>f. e' = RemediationValidationError f)" for e'
    by (auto simp: validate_narrowing_def narrow_ntfs_def narrow_share_def Let_def split: option.splits if_splits)
  ultimately have "\<exists>f. e = RemediationValidationError f"
    using Inl by (auto simp: mk_planned_change_def validate_target_kind_def validate_evidence_def
        validate_replacement_def result_simps split: if_splits option.splits)
  with Inl show ?thesis by simp
next
  case (Inr d)
  then have ok: "d = c" "pc_target_kind c = expected_target_kind (pc_kind c)" "validate_evidence c = Inr ()"
      "validate_replacement c = Inr ()" "validate_narrowing c = Inr ()"
    by (simp_all add: mk_planned_change_iff)
  have ev: "if pc_kind c = PC_REMOVE_GROUP_MEMBER
        then pc_entry c = None \<and> (\<exists>m. pc_membership c = Some m \<and> ms_group_key m = pc_target_key c)
      else pc_entry c \<noteq> None" using ok(3) by (simp add: validate_evidence_iff)
  have "pc_entry c = None \<longleftrightarrow> pc_kind c = PC_REMOVE_GROUP_MEMBER" using ev by (simp split: if_splits)
  moreover have "acts_on_membership c \<longrightarrow> pc_membership c \<noteq> None"
    using ev ok(4) by (auto simp: acts_on_membership_def MEMBERSHIP_KINDS_def validate_replacement_def split: if_splits)
  moreover have "pc_kind c = PC_REMOVE_GROUP_MEMBER \<longrightarrow> (\<exists>m. pc_membership c = Some m \<and> ms_group_key m = pc_target_key c)"
    using ev by simp
  moreover have "pc_kind c = PC_REPLACE_WITH_GROUP \<longrightarrow> truthy (pc_replacement_group_key c) \<and> truthy (pc_replacement_group_sid c)"
    using ok(4) by (auto simp: validate_replacement_def split: if_splits)
  moreover have "pc_kind c = PC_MODIFY_NTFS_ACE \<longrightarrow> pc_after_access_mask c \<noteq> None"
    using ok(5) by (auto simp: validate_narrowing_def narrow_ntfs_def split: option.splits)
  moreover have "(pc_after_access_mask c \<noteq> None \<or> pc_after_permission c \<noteq> None)
      \<longleftrightarrow> pc_kind c = PC_MODIFY_NTFS_ACE \<or> pc_kind c = PC_MODIFY_SHARE_ACE"
    using ok(5) by (auto simp: validate_narrowing_def narrow_ntfs_def narrow_share_def Let_def split: option.splits if_splits)
  moreover have "returns (precondition_digest sha c)"
    using ev by (auto simp: precondition_digest_def split: option.split if_splits)
  ultimately show ?thesis unfolding Inr using ok(1,2) by simp
qed

subsection \<open>Narrowing\<close>

lemma adds_rights_iff: "adds_rights a b \<longleftrightarrow> a AND b \<noteq> a"
proof -
  have "a AND NOT b = 0 \<longleftrightarrow> a AND b = a"
    by (auto simp: bit_eq_iff bit_simps)
  then show ?thesis by (simp add: adds_rights_def)
qed

lemma submask_int_bounds:
  assumes "(a :: int) AND b = a" "0 \<le> b" "a \<noteq> b"
  shows "0 \<le> a \<and> a < b"
proof -
  have "0 \<le> a AND b" using assms(2) by simp
  moreover have "a AND b \<le> b" using assms(2) by (rule AND_upper2)
  ultimately show ?thesis using assms(1,3) by simp
qed

text \<open>
  An accepted \<open>MODIFY_NTFS_ACE\<close> narrows: the entry is an Allow, the mask left behind is a
  proper part of the observed one (every bit of it was there, at least one bit is gone) and stays a
  32-bit value.
\<close>

theorem ntfs_modification_narrows:
  assumes "mk_planned_change c = Inr d" "pc_kind c = PC_MODIFY_NTFS_ACE"
    and "pc_entry c = Some e" "mk_entry_snapshot e = Inr e"
  shows "\<exists>after observed. pc_after_access_mask d = Some after \<and> es_access_mask e = Some observed
    \<and> es_ace_type e = ALLOW \<and> after AND observed = after \<and> 0 \<le> after \<and> after < observed \<and> observed \<le> 0xFFFFFFFF"
proof -
  have d: "d = c" and "validate_narrowing c = Inr ()" using assms(1) by (simp_all add: mk_planned_change_iff)
  then have "narrow_ntfs c e = Inr ()" using assms(2,3) by (simp add: validate_narrowing_def)
  then obtain after where after: "pc_after_access_mask c = Some after"
      "\<not> adds_rights after (case es_access_mask e of None \<Rightarrow> 0 | Some m \<Rightarrow> m)"
      "after \<noteq> (case es_access_mask e of None \<Rightarrow> 0 | Some m \<Rightarrow> m)" "\<not> entry_is_deny e"
    by (auto simp: narrow_ntfs_def Let_def split: option.splits if_splits)
  have allow: "es_ace_type e = ALLOW" using after(4) by (cases "es_ace_type e") (simp_all add: entry_is_deny_def)
  show ?thesis
  proof (cases "es_access_mask e")
    case None
    then show ?thesis using after(2,3) by (simp add: adds_rights_iff)
  next
    case (Some m)
    then have m: "0 \<le> m" "m \<le> 0xFFFFFFFF" using assms(4) by (simp_all add: mk_entry_snapshot_iff)
    have sub: "after AND m = after" "after \<noteq> m" using after(2,3) Some by (simp_all add: adds_rights_iff)
    with submask_int_bounds [OF sub(1) m(1) sub(2)] m allow Some after(1) d show ?thesis by blast
  qed
qed

definition sample_entry :: entry_snapshot where
  "sample_entry = \<lparr>es_ace_key = ''k1'', es_trustee_sid = ''S-1-5-21-1-2-3-1104'', es_trustee_key = ''S-1-5-21-1-2-3-1104'',
     es_ace_type = ALLOW, es_access_mask = Some 0x1F01FF, es_permission = None, es_ace_flags = Some 3,
     es_source = Some EXPLICIT, es_inherited_from = None, es_order_index = Some 0, es_version_id = Some 7,
     es_observed_from = Some 5, es_last_confirmed_at = Some 6\<rparr>"

definition sample_change :: planned_change where
  "sample_change = \<lparr>pc_change_id = ''c1'', pc_sequence_index = 0, pc_kind = PC_MODIFY_NTFS_ACE,
     pc_target_kind = CT_RESOURCE, pc_target_key = ''//fs01/finance'', pc_target_display = None,
     pc_principal_sid = ''S-1-5-21-1-2-3-1104'', pc_principal_key = ''S-1-5-21-1-2-3-1104'',
     pc_principal_display_name = None, pc_entry = Some sample_entry, pc_membership = None,
     pc_after_access_mask = Some 0x1200A9, pc_after_permission = None, pc_replacement_group_key = None,
     pc_replacement_group_sid = None, pc_replacement_group_display_name = None, pc_item_id = None,
     pc_decision_id = None, pc_proposal_id = None, pc_risk_finding_key = None, pc_notes = None\<rparr>"

lemma sample_entry_ok: "mk_entry_snapshot sample_entry = Inr sample_entry"
  by code_simp

lemma sample_change_ok: "mk_planned_change sample_change = Inr sample_change"
  by code_simp

lemma accepted_change_is_well_formed_witness:
  "pc_target_kind sample_change = CT_RESOURCE \<and> pc_entry sample_change \<noteq> None \<and> returns (precondition_digest id sample_change)"
  using accepted_change_is_well_formed [of sample_change id] sample_change_ok by (simp add: sample_change_def)

lemma ntfs_modification_narrows_witness:
  "\<exists>after observed. pc_after_access_mask sample_change = Some after \<and> es_access_mask sample_entry = Some observed
    \<and> es_ace_type sample_entry = ALLOW \<and> after AND observed = after \<and> 0 \<le> after \<and> after < observed \<and> observed \<le> 0xFFFFFFFF"
  by (rule ntfs_modification_narrows [OF sample_change_ok _ _ sample_entry_ok]) (simp_all add: sample_change_def)

lemma share_checks_iff:
  assumes "pc_kind c = PC_MODIFY_SHARE_ACE" "pc_entry c = Some e"
  shows "mk_planned_change c = Inr d \<longleftrightarrow> d = c \<and> 0 \<le> pc_sequence_index c \<and> pc_target_kind c = CT_SHARE
     \<and> py_strip (pc_target_key c) \<noteq> [] \<and> narrow_share c e = Inr ()"
  using assms by (simp add: mk_planned_change_iff validate_evidence_iff validate_replacement_def validate_narrowing_def)

lemma narrow_share_iff:
  "narrow_share c e = Inr () \<longleftrightarrow> (pc_after_permission c \<noteq> None \<or> pc_after_access_mask c \<noteq> None)
     \<and> (\<forall>q p. pc_after_permission c = Some q \<longrightarrow> es_permission e = Some p \<longrightarrow> SHARE_PERMISSION_ORDER q < SHARE_PERMISSION_ORDER p)
     \<and> (\<forall>n m. pc_after_access_mask c = Some n \<longrightarrow> es_access_mask e = Some m \<longrightarrow> n AND m = n) \<and> es_ace_type e = ALLOW"
proof -
  have "es_ace_type e = ALLOW \<longleftrightarrow> \<not> entry_is_deny e" by (cases "es_ace_type e") (simp_all add: entry_is_deny_def)
  then show ?thesis
    by (cases "pc_after_permission c"; cases "es_permission e"; cases "pc_after_access_mask c"; cases "es_access_mask e")
      (auto simp: narrow_share_def adds_rights_iff not_le)
qed

text \<open>
  A \<open>MODIFY_SHARE_ACE\<close> written in the form the entry was observed in cannot raise it: a level
  goes down, and the rights of the lower level are a proper part of the rights of the observed one;
  a mask adds no bit. The entry is an Allow.
\<close>

theorem same_form_share_modification_narrows:
  assumes "mk_planned_change c = Inr d" "pc_kind c = PC_MODIFY_SHARE_ACE" "pc_entry c = Some e"
  shows "es_ace_type e = ALLOW
    \<and> (case (pc_after_permission c, es_permission e) of (Some q, Some p) \<Rightarrow>
         submask (SHARE_PERMISSION_MASKS q) (SHARE_PERMISSION_MASKS p) \<and> SHARE_PERMISSION_MASKS q \<noteq> SHARE_PERMISSION_MASKS p
       | _ \<Rightarrow> True)
    \<and> (case (pc_after_access_mask c, es_access_mask e) of (Some n, Some m) \<Rightarrow> n AND m = n | _ \<Rightarrow> True)"
proof -
  have ok: "narrow_share c e = Inr ()" using assms by (simp add: share_checks_iff)
  have "submask (SHARE_PERMISSION_MASKS q) (SHARE_PERMISSION_MASKS p) \<and> SHARE_PERMISSION_MASKS q \<noteq> SHARE_PERMISSION_MASKS p"
    if "SHARE_PERMISSION_ORDER q < SHARE_PERMISSION_ORDER p" for p q
    using that by (cases p; cases q) (simp_all add: submask_def)
  with ok show ?thesis by (auto simp: narrow_share_iff split: option.split)
qed

definition level_entry :: entry_snapshot where
  "level_entry = sample_entry\<lparr>es_access_mask := None, es_permission := Some SP_READ, es_ace_flags := None\<rparr>"

definition share_change :: planned_change where
  "share_change = sample_change\<lparr>pc_kind := PC_MODIFY_SHARE_ACE, pc_target_kind := CT_SHARE, pc_target_key := ''share|fs01|finance'',
     pc_entry := Some level_entry, pc_after_access_mask := Some 0\<rparr>"

lemma share_change_ok: "mk_planned_change share_change = Inr share_change"
  by code_simp

lemma same_form_share_modification_narrows_witness:
  "es_ace_type level_entry = ALLOW \<and> pc_after_access_mask share_change = Some 0"
  using same_form_share_modification_narrows [OF share_change_ok, of level_entry] by (simp add: share_change_def)

text \<open>
  Written in the other form nothing is compared: for an entry observed as a level every mask is
  accepted, and for an entry observed as a mask every level. A share modification of a Read entry
  may leave Full Control and still pass the check that is to keep a plan from granting access.
\<close>

theorem other_form_share_modification_may_widen:
  assumes "mk_planned_change c = Inr c" "pc_kind c = PC_MODIFY_SHARE_ACE" "pc_entry c = Some e"
  shows "(es_access_mask e = None \<longrightarrow>
      (\<forall>m. returns (mk_planned_change (c\<lparr>pc_after_access_mask := Some m, pc_after_permission := None\<rparr>))))
    \<and> (es_permission e = None \<longrightarrow>
      (\<forall>p. returns (mk_planned_change (c\<lparr>pc_after_access_mask := None, pc_after_permission := Some p\<rparr>))))"
proof -
  have ok: "0 \<le> pc_sequence_index c" "pc_target_kind c = CT_SHARE" "py_strip (pc_target_key c) \<noteq> []" "es_ace_type e = ALLOW"
    using assms by (simp_all add: share_checks_iff narrow_share_iff)
  have "mk_planned_change c' = Inr c'" if "c' = c\<lparr>pc_after_access_mask := m, pc_after_permission := p\<rparr>"
      "narrow_share c' e = Inr ()" for c' m p
    using that ok assms(2,3) by (simp add: share_checks_iff)
  then show ?thesis using ok(4) by (auto simp: narrow_share_iff returns_def)
qed

lemma other_form_share_modification_may_widen_witness:
  "returns (mk_planned_change (share_change\<lparr>pc_after_access_mask := Some 0x1F01FF, pc_after_permission := None\<rparr>))
     \<and> es_permission level_entry = Some SP_READ \<and> \<not> submask 0x1F01FF (SHARE_PERMISSION_MASKS SP_READ)"
proof -
  have "pc_kind share_change = PC_MODIFY_SHARE_ACE" "pc_entry share_change = Some level_entry" "es_access_mask level_entry = None"
      "es_permission level_entry = Some SP_READ"
    by (simp_all add: share_change_def level_entry_def)
  then show ?thesis using other_form_share_modification_may_widen [OF share_change_ok]
    by (simp add: submask_def)
qed

subsection \<open>Sets of changes\<close>

lemma one_step_per_object_iff:
  "one_step_per_object seen cs = Inr () \<longleftrightarrow> distinct (map natural_key cs) \<and> set seen \<inter> natural_key ` set cs = {}"
  by (induction cs arbitrary: seen) auto

text \<open>
  \<open>validate_changes\<close> accepts exactly the sets of one to a hundred changes, no two of them on the
  same object for the same principal, whose step numbers are 0 to n-1, each once, in whatever order
  they were submitted.
\<close>

theorem validate_changes_exact:
  "validate_changes cs = Inr () \<longleftrightarrow> 1 \<le> length cs \<and> length cs \<le> 100 \<and> distinct (map natural_key cs)
     \<and> mset (map pc_sequence_index cs) = mset (map int [0..<length cs])"
proof -
  have "sort (map pc_sequence_index cs) = map int [0..<length cs]
      \<longleftrightarrow> mset (map pc_sequence_index cs) = mset (map int [0..<length cs])"
  proof
    assume "sort (map pc_sequence_index cs) = map int [0..<length cs]"
    then show "mset (map pc_sequence_index cs) = mset (map int [0..<length cs])" by (metis mset_sort)
  next
    assume m: "mset (map pc_sequence_index cs) = mset (map int [0..<length cs])"
    have s: "sorted (map int [0..<length cs])"
      by (simp add: sorted_iff_nth_mono)
    show "sort (map pc_sequence_index cs) = map int [0..<length cs]"
      by (rule properties_for_sort [OF m [symmetric] s])
  qed
  then show ?thesis
    by (cases cs) (auto simp: validate_changes_def MAX_PLAN_CHANGES_def result_simps one_step_per_object_iff not_less simp del: upt_Suc)
qed

subsection \<open>What a plan's digest covers\<close>

lemma enum_values_inject [simp]:
  "planned_change_kind_value k = planned_change_kind_value k' \<longleftrightarrow> k = k'"
  "change_target_kind_value t = change_target_kind_value t' \<longleftrightarrow> t = t'"
  "share_permission_value p = share_permission_value p' \<longleftrightarrow> p = p'"
  "ace_source_value s = ace_source_value s' \<longleftrightarrow> s = s'"
  "ace_type_value a = ace_type_value a' \<longleftrightarrow> a = a'"
  "membership_edge_kind_value m = membership_edge_kind_value m' \<longleftrightarrow> m = m'"
       apply (cases k; cases k'; simp)
      apply (cases t; cases t'; simp)
     apply (cases p; cases p'; simp)
    apply (cases s; cases s'; simp)
   apply (cases a; cases a'; simp)
  apply (cases m; cases m'; simp)
  done

lemma map_option_inject: "(\<And>x y. f x = f y \<longleftrightarrow> x = y) \<Longrightarrow> map_option f a = map_option f b \<longleftrightarrow> a = b"
  by (cases a; cases b) auto

lemma opt_int_sort [simp]: "sort_keys (opt_int x) = opt_int x"
  by (simp add: opt_int_def split: option.split)

lemma opt_int_inject [simp]: "opt_int x = opt_int y \<longleftrightarrow> x = y"
  by (simp add: opt_int_def split: option.split)

text \<open>The digested part of an entry, an edge and a change: provenance and display names set aside.\<close>

definition entry_claims :: "entry_snapshot \<Rightarrow> entry_snapshot" where
  "entry_claims e = e\<lparr>es_version_id := None, es_observed_from := None, es_last_confirmed_at := None\<rparr>"

definition membership_claims :: "membership_snapshot \<Rightarrow> membership_snapshot" where
  "membership_claims m = m\<lparr>ms_member_kind := None, ms_group_display_name := None, ms_member_display_name := None,
     ms_version_id := None, ms_observed_from := None, ms_last_confirmed_at := None\<rparr>"

definition change_claims :: "planned_change \<Rightarrow> planned_change" where
  "change_claims c = c\<lparr>pc_change_id := [], pc_target_display := None, pc_principal_display_name := None,
     pc_entry := map_option entry_claims (pc_entry c), pc_membership := map_option membership_claims (pc_membership c),
     pc_replacement_group_display_name := None, pc_proposal_id := None, pc_notes := None\<rparr>"

lemma entry_digestible_inject:
  "sort_keys (entry_as_digestible e) = sort_keys (entry_as_digestible f) \<longleftrightarrow> entry_claims e = entry_claims f"
proof
  assume "sort_keys (entry_as_digestible e) = sort_keys (entry_as_digestible f)"
  then have "map (sort_keys \<circ> snd) (entry_fields e) = map (sort_keys \<circ> snd) (entry_fields f)"
    unfolding entry_as_digestible_def by (rule sort_keys_object_inject) (simp_all add: entry_fields_def)
  then show "entry_claims e = entry_claims f"
    by (simp add: entry_fields_def entry_claims_def map_option_inject)
next
  assume "entry_claims e = entry_claims f"
  then have "entry_fields (entry_claims e) = entry_fields (entry_claims f)" by simp
  then have "entry_fields e = entry_fields f" by (simp add: entry_fields_def entry_claims_def)
  then show "sort_keys (entry_as_digestible e) = sort_keys (entry_as_digestible f)" by (simp add: entry_as_digestible_def)
qed

lemma membership_digestible_inject:
  "sort_keys (membership_as_digestible m) = sort_keys (membership_as_digestible n) \<Longrightarrow> membership_claims m = membership_claims n"
  unfolding membership_as_digestible_def
  by (drule sort_keys_object_inject) (simp_all add: membership_fields_def membership_claims_def)

lemma opt_json_inject:
  assumes inj: "\<And>a b. sort_keys (f a) = sort_keys (f b) \<Longrightarrow> g a = g b" and nn: "\<And>a. sort_keys (f a) \<noteq> JNull"
    and eq: "sort_keys (case x of None \<Rightarrow> JNull | Some a \<Rightarrow> f a) = sort_keys (case y of None \<Rightarrow> JNull | Some a \<Rightarrow> f a)"
  shows "map_option g x = map_option g y"
proof (cases x)
  case None
  with eq nn [of "the y"] show ?thesis by (cases y) simp_all
next
  case (Some a)
  with eq nn [of a] inj [of a "the y"] show ?thesis by (cases y) simp_all
qed

lemma change_digestible_inject:
  assumes "sort_keys (change_as_digestible c) = sort_keys (change_as_digestible d)"
  shows "change_claims c = change_claims d"
proof -
  have vals: "map (sort_keys \<circ> snd) (change_fields c) = map (sort_keys \<circ> snd) (change_fields d)"
    using assms unfolding change_as_digestible_def
    by (rule sort_keys_object_inject) (simp_all add: change_fields_def)
  have raw: "(map (sort_keys \<circ> snd) (change_fields c)) ! i = (map (sort_keys \<circ> snd) (change_fields d)) ! i" for i
    using vals by simp
  have "pc_sequence_index c = pc_sequence_index d" "pc_kind c = pc_kind d" "pc_target_kind c = pc_target_kind d"
      "pc_target_key c = pc_target_key d" "pc_principal_sid c = pc_principal_sid d" "pc_principal_key c = pc_principal_key d"
    using raw [of 0] raw [of 1] raw [of 2] raw [of 3] raw [of 4] raw [of 5] by (simp_all add: change_fields_def)
  moreover have "map_option entry_claims (pc_entry c) = map_option entry_claims (pc_entry d)"
  proof (rule opt_json_inject)
    show "sort_keys (case pc_entry c of None \<Rightarrow> JNull | Some e \<Rightarrow> entry_as_digestible e)
        = sort_keys (case pc_entry d of None \<Rightarrow> JNull | Some e \<Rightarrow> entry_as_digestible e)"
      using raw [of 6] by (simp add: change_fields_def)
  qed (simp_all add: entry_digestible_inject, simp add: entry_as_digestible_def)
  moreover have "map_option membership_claims (pc_membership c) = map_option membership_claims (pc_membership d)"
  proof (rule opt_json_inject)
    show "sort_keys (case pc_membership c of None \<Rightarrow> JNull | Some m \<Rightarrow> membership_as_digestible m)
        = sort_keys (case pc_membership d of None \<Rightarrow> JNull | Some m \<Rightarrow> membership_as_digestible m)"
      using raw [of 7] by (simp add: change_fields_def)
  qed (erule membership_digestible_inject, simp add: membership_as_digestible_def)
  moreover have "pc_after_access_mask c = pc_after_access_mask d" "pc_after_permission c = pc_after_permission d"
      "pc_replacement_group_key c = pc_replacement_group_key d" "pc_replacement_group_sid c = pc_replacement_group_sid d"
    using raw [of 8] raw [of 9] raw [of 10] raw [of 11] by (simp_all add: change_fields_def map_option_inject)
  moreover have "pc_item_id c = pc_item_id d" "pc_decision_id c = pc_decision_id d" "pc_risk_finding_key c = pc_risk_finding_key d"
    using raw [of 12] raw [of 13] raw [of 14] by (simp_all add: change_fields_def)
  ultimately show ?thesis
    by (cases c; cases d) (simp add: change_claims_def)
qed

text \<open>What the digest leaves out of a change is what \<open>change_claims\<close> drops, and nothing else.\<close>

lemma digestible_claims: "change_as_digestible (change_claims c) = change_as_digestible c"
proof -
  have "entry_as_digestible (entry_claims e) = entry_as_digestible e" for e
    by (simp add: entry_as_digestible_def entry_fields_def entry_claims_def)
  moreover have "membership_as_digestible (membership_claims m) = membership_as_digestible m" for m
    by (simp add: membership_as_digestible_def membership_fields_def membership_claims_def)
  ultimately show ?thesis
    by (cases "pc_entry c"; cases "pc_membership c") (simp_all add: change_as_digestible_def change_fields_def change_claims_def)
qed

text \<open>
  C29. What an approval of a digest approves. Unless their canonical texts collide under the hash, two
  plans have the same digest exactly when they have the same identifier, title, rationale, campaign,
  requestor, basis and simulation and, step by step, changes that agree in what \<open>change_claims\<close> keeps:
  kind, target, principal, the frozen entry or membership edge, the resulting state, the replacement
  group and the item, decision and finding behind the change. It drops the change's identifier, the
  proposal's, the notes, every display name, a member's kind, and which observation the frozen state
  came from: those can differ under one approved digest.
\<close>

theorem plan_digest_pins_content:
  assumes "inj_on sha {canonical_json (plan_material p), canonical_json (plan_material q)}"
  shows "plan_digest sha p = plan_digest sha q \<longleftrightarrow>
    cp_plan_id p = cp_plan_id q \<and> cp_title p = cp_title q \<and> cp_rationale p = cp_rationale q
    \<and> cp_campaign_id p = cp_campaign_id q \<and> cp_requested_by_subject p = cp_requested_by_subject q
    \<and> cp_basis_token p = cp_basis_token q \<and> cp_simulation_id p = cp_simulation_id q
    \<and> map change_claims (sort_key pc_sequence_index (cp_changes p))
        = map change_claims (sort_key pc_sequence_index (cp_changes q))" (is "?same \<longleftrightarrow> ?claims")
proof
  assume claims: ?claims
  have "map change_as_digestible (sort_key pc_sequence_index (cp_changes x))
      = map change_as_digestible (map change_claims (sort_key pc_sequence_index (cp_changes x)))" for x
    by (simp add: digestible_claims)
  then have "map change_as_digestible (sort_key pc_sequence_index (cp_changes p))
      = map change_as_digestible (sort_key pc_sequence_index (cp_changes q))" using claims by metis
  then show ?same using claims by (simp add: plan_digest_def plan_material_def plan_fields_def)
next
  assume same: ?same
  have "canonical_json (plan_material p) = canonical_json (plan_material q)"
    by (rule inj_onD [OF assms]) (use same in \<open>simp_all add: plan_digest_def digest_json_def\<close>)
  then have "sort_keys (plan_material p) = sort_keys (plan_material q)" by (simp only: canonical_json_inject)
  then have raw: "(map (sort_keys \<circ> snd) (plan_fields p)) ! i = (map (sort_keys \<circ> snd) (plan_fields q)) ! i" for i
    unfolding plan_material_def
    by (subst sort_keys_object_inject [where xs = "plan_fields p" and ys = "plan_fields q"]) (simp_all add: plan_fields_def)
  have chg: "map change_claims cs = map change_claims ds"
    if "map (sort_keys \<circ> change_as_digestible) cs = map (sort_keys \<circ> change_as_digestible) ds" for cs ds
    using that
  proof (induction cs arbitrary: ds)
    case (Cons c cs)
    then obtain d ds' where ds: "ds = d # ds'" by (cases ds) auto
    with Cons show ?case using change_digestible_inject [of c d] by simp
  qed simp
  have "map change_claims (sort_key pc_sequence_index (cp_changes p)) = map change_claims (sort_key pc_sequence_index (cp_changes q))"
    by (rule chg) (use raw [of 8] in \<open>simp add: plan_fields_def comp_def\<close>)
  then show ?claims
    using raw [of 1] raw [of 2] raw [of 3] raw [of 4] raw [of 5] raw [of 6] raw [of 7] by (simp add: plan_fields_def)
qed

definition sample_plan :: change_plan where
  "sample_plan = \<lparr>cp_plan_id = ''p1'', cp_title = ''Narrow finance'', cp_rationale = ''review'', cp_status = CP_DRAFT,
     cp_changes = [sample_change], cp_requested_by_subject = ''alice'', cp_requested_by_display_name = None,
     cp_requested_at = 1, cp_basis_token = ''b1'', cp_basis_run_id = None, cp_basis_captured_at = Some 1,
     cp_campaign_id = None, cp_simulation_id = None, cp_simulation_basis_token = None, cp_impact_summary = JObj [],
     cp_submitted_at = None, cp_decided_at = None, cp_approved_by_subject = None, cp_approved_plan_digest = None,
     cp_approved_basis_token = None, cp_rejection_reason = None, cp_exported_at = None, cp_invalidated_at = None,
     cp_invalidation_reason = None, cp_canceled_at = None, cp_canceled_by_subject = None, cp_created_at = Some 1,
     cp_updated_at = Some 1\<rparr>"

lemma plan_digest_pins_content_witness:
  "cp_title sample_plan = cp_title (sample_plan\<lparr>cp_status := CP_APPROVED, cp_decided_at := Some 9\<rparr>)
     \<and> sample_plan \<noteq> sample_plan\<lparr>cp_status := CP_APPROVED, cp_decided_at := Some 9\<rparr>"
proof
  have mat: "plan_material (sample_plan\<lparr>cp_status := CP_APPROVED, cp_decided_at := Some 9\<rparr>) = plan_material sample_plan"
    by (simp add: plan_material_def plan_fields_def)
  show "cp_title sample_plan = cp_title (sample_plan\<lparr>cp_status := CP_APPROVED, cp_decided_at := Some 9\<rparr>)"
    using plan_digest_pins_content [of id sample_plan "sample_plan\<lparr>cp_status := CP_APPROVED, cp_decided_at := Some 9\<rparr>"]
    by (simp add: plan_digest_def mat)
  show "sample_plan \<noteq> sample_plan\<lparr>cp_status := CP_APPROVED, cp_decided_at := Some 9\<rparr>"
    by (simp add: sample_plan_def)
qed

subsection \<open>When a plan still describes the estate\<close>

definition change_holds :: "(string \<Rightarrow> string) \<Rightarrow> planned_change \<Rightarrow> observed_state option \<Rightarrow> bool" where
  "change_holds sha c ob = (case ob of None \<Rightarrow> False | Some s \<Rightarrow> os_target_observed s
     \<and> (case pc_entry c of
          Some e \<Rightarrow> (case os_entry s of None \<Rightarrow> False | Some now \<Rightarrow> entry_content_digest sha now = entry_content_digest sha e)
        | None \<Rightarrow> os_membership_present s = Some True))"

lemma evaluate_change_satisfied:
  assumes "returns (precondition_digest sha c)"
  shows "\<exists>r. evaluate_change sha c (case ob of None \<Rightarrow> unobserved_state | Some s \<Rightarrow> s) = Inr r
    \<and> (cpr_verdict r = PV_SATISFIED \<longleftrightarrow> change_holds sha c ob) \<and> cpr_change_id r = pc_change_id c"
proof -
  obtain x where x: "precondition_digest sha c = Inr x" using assms by (auto simp: returns_def)
  then show ?thesis
    by (auto simp: evaluate_change_def precondition_digest_def unobserved_state_def entry_verdict_def
        membership_verdict_def change_holds_def Let_def split: option.splits)
qed

lemma res_map_returns: "(\<And>x. x \<in> set xs \<Longrightarrow> returns (f x)) \<Longrightarrow> returns (res_map f xs)"
  by (induction xs) (auto simp: result_simps returns_def)

lemma res_map_Inr: "res_map f xs = Inr ys \<Longrightarrow> list_all2 (\<lambda>x y. f x = Inr y) xs ys"
  by (induction xs arbitrary: ys) (auto simp: result_simps)

text \<open>
  C30. The precondition check over accepted changes always produces a report, in step order, and it
  is satisfied exactly when every change is observed and unchanged: its target has a current
  reading and the entry found there has the digest of the frozen one (for a membership removal: the
  edge is still there). A change the observations do not mention blocks the plan.
\<close>

theorem plan_satisfied_iff_unchanged:
  assumes "\<forall>c \<in> set cs. mk_planned_change c = Inr c"
  shows "\<exists>r. evaluate_plan sha plan_id cs observations at token plan_token = Inr r
    \<and> map cpr_change_id (prr_preconditions r) = map pc_change_id (sort_key pc_sequence_index cs)
    \<and> (report_satisfied r \<longleftrightarrow> (\<forall>c \<in> set cs. change_holds sha c (observations (pc_change_id c))))
    \<and> (report_satisfied r \<longleftrightarrow> report_blocking r = [])"
proof -
  let ?f = "\<lambda>c. evaluate_change sha c (case observations (pc_change_id c) of None \<Rightarrow> unobserved_state | Some s \<Rightarrow> s)"
  let ?cs = "sort_key pc_sequence_index cs"
  have dig: "returns (precondition_digest sha c)" if "c \<in> set cs" for c
  proof -
    have "validate_evidence c = Inr ()" using assms that mk_planned_change_iff by blast
    then show ?thesis by (auto simp: validate_evidence_iff precondition_digest_def split: option.split if_splits)
  qed
  have each: "(cpr_verdict r = PV_SATISFIED \<longleftrightarrow> change_holds sha c (observations (pc_change_id c))) \<and> cpr_change_id r = pc_change_id c"
    if "c \<in> set cs" "?f c = Inr r" for c r
    using evaluate_change_satisfied [OF dig [OF that(1)], of "observations (pc_change_id c)"] that(2) by auto
  have ret: "returns (?f c)" if "c \<in> set ?cs" for c
    using evaluate_change_satisfied [OF dig, of c "observations (pc_change_id c)"] that by auto
  obtain ps where ps: "res_map ?f ?cs = Inr ps" using res_map_returns [of ?cs ?f, OF ret] unfolding returns_def by blast
  have pair: "list_all2 (\<lambda>c r. (cpr_verdict r = PV_SATISFIED \<longleftrightarrow> change_holds sha c (observations (pc_change_id c)))
      \<and> cpr_change_id r = pc_change_id c) ?cs ps"
    by (rule list.rel_mono_strong [OF res_map_Inr [OF ps]]) (use each in auto)
  have ids: "map cpr_change_id ps = map pc_change_id ?cs"
    using pair by (induction rule: list_all2_induct) auto
  have sat: "(\<forall>r \<in> set ps. cpr_verdict r = PV_SATISFIED) \<longleftrightarrow> (\<forall>c \<in> set ?cs. change_holds sha c (observations (pc_change_id c)))"
    using pair by (induction rule: list_all2_induct) auto
  let ?r = "\<lparr>prr_plan_id = plan_id, prr_checked_at = at, prr_basis_token = token, prr_plan_basis_token = plan_token,
      prr_preconditions = ps\<rparr>"
  have "evaluate_plan sha plan_id cs observations at token plan_token = Inr ?r" using ps by (simp add: evaluate_plan_def)
  moreover have "report_satisfied ?r \<longleftrightarrow> (\<forall>c \<in> set cs. change_holds sha c (observations (pc_change_id c)))"
    using sat by (simp add: report_satisfied_def verdict_blocks_export_def)
  moreover have "report_satisfied ?r \<longleftrightarrow> report_blocking ?r = []"
    by (auto simp: report_satisfied_def report_blocking_def filter_empty_conv)
  ultimately show ?thesis using ids by auto
qed

lemma plan_satisfied_iff_unchanged_witness:
  "\<exists>r. evaluate_plan id ''p1'' [sample_change] Map.empty 3 ''b2'' ''b1'' = Inr r \<and> \<not> report_satisfied r"
  using plan_satisfied_iff_unchanged [of "[sample_change]" id "''p1''" Map.empty 3 "''b2''" "''b1''"] sample_change_ok
  by (auto simp: change_holds_def)

end
