(* ===== verification/Adg_Plan_Store.thy ===== *)
theory Adg_Plan_Store
  imports Adg_Change_Plan
begin

section \<open>Change plans as rows (app/remediation/repository.py)\<close>

text \<open>
  A planned change is stored as one row: its own columns and a JSON document of the frozen state it
  was written against. Reading a row back runs the constructors again. A column constrained to an
  enumeration is held as that enumeration, a JSON document as the value it denotes; the parameter
  \<open>parse_at\<close> reads a rendered moment back. A document field of another JSON type than the one written
  is an error of the model.
\<close>

subsection \<open>Reading a document\<close>

fun json_entries :: "json \<Rightarrow> (string \<times> json) list" where
  "json_entries (JObj kvs) = kvs"
| "json_entries _ = []"

text \<open>\<open>document.get(k)\<close>, and \<open>document[k]\<close> of a text field\<close>

definition json_get :: "string \<Rightarrow> json \<Rightarrow> json" where
  "json_get k j = (case map_of (json_entries j) k of None \<Rightarrow> JNull | Some v \<Rightarrow> v)"

definition text_at :: "string \<Rightarrow> json \<Rightarrow> string result" where
  "text_at k j = (case map_of (json_entries j) k of
       None \<Rightarrow> Inl KeyError | Some (JStr s) \<Rightarrow> Inr s | Some _ \<Rightarrow> Inl ValueError)"

fun as_opt_text :: "json \<Rightarrow> string option result" where
  "as_opt_text JNull = Inr None"
| "as_opt_text (JStr s) = Inr (Some s)"
| "as_opt_text _ = Inl ValueError"

fun as_opt_int :: "json \<Rightarrow> int option result" where
  "as_opt_int JNull = Inr None"
| "as_opt_int (JInt i) = Inr (Some i)"
| "as_opt_int _ = Inl ValueError"

text \<open>\<open>_parse_instant\<close>\<close>

definition as_opt_instant :: "(string \<Rightarrow> instant option) \<Rightarrow> json \<Rightarrow> instant option result" where
  "as_opt_instant parse_at j = res_bind (as_opt_text j) (\<lambda>t. case t of None \<Rightarrow> Inr None
     | Some s \<Rightarrow> (case parse_at s of None \<Rightarrow> Inl ValueError | Some v \<Rightarrow> Inr (Some v)))"

text \<open>An enumeration from its value; \<open>ValueError\<close> for a text that is none of them.\<close>

definition enum_of :: "'a list \<Rightarrow> ('a \<Rightarrow> string) \<Rightarrow> string \<Rightarrow> 'a result" where
  "enum_of vals value s = (case filter (\<lambda>v. value v = s) vals of [] \<Rightarrow> Inl ValueError | v # _ \<Rightarrow> Inr v)"

definition opt_enum_of :: "'a list \<Rightarrow> ('a \<Rightarrow> string) \<Rightarrow> string option \<Rightarrow> 'a option result" where
  "opt_enum_of vals value t = (case t of None \<Rightarrow> Inr None
     | Some s \<Rightarrow> res_bind (enum_of vals value s) (\<lambda>v. Inr (Some v)))"

definition principal_kinds :: "principal_kind list" where
  "principal_kinds = [PK_USER, PK_DOMAIN_GROUP, PK_LOCAL_GROUP, PK_COMPUTER, PK_MANAGED_SERVICE_ACCOUNT,
     PK_WELL_KNOWN, PK_FOREIGN_SECURITY_PRINCIPAL, PK_UNRESOLVED]"

definition entry_from_document :: "(string \<Rightarrow> instant option) \<Rightarrow> json \<Rightarrow> entry_snapshot result" where
  "entry_from_document parse_at j =
     res_bind (text_at ''ace_key'' j) (\<lambda>ace_key.
     res_bind (text_at ''trustee_sid'' j) (\<lambda>trustee_sid.
     res_bind (text_at ''trustee_key'' j) (\<lambda>trustee_key.
     res_bind (res_bind (text_at ''ace_type'' j) (enum_of [ALLOW, DENY] ace_type_value)) (\<lambda>ace_type.
     res_bind (as_opt_int (json_get ''access_mask'' j)) (\<lambda>mask.
     res_bind (res_bind (as_opt_text (json_get ''permission'' j))
       (opt_enum_of [SP_READ, SP_CHANGE, SP_FULL] share_permission_value)) (\<lambda>permission.
     res_bind (as_opt_int (json_get ''ace_flags'' j)) (\<lambda>flags.
     res_bind (res_bind (as_opt_text (json_get ''source'' j)) (opt_enum_of [EXPLICIT, INHERITED] ace_source_value)) (\<lambda>src.
     res_bind (as_opt_text (json_get ''inherited_from'' j)) (\<lambda>inherited_from.
     res_bind (as_opt_int (json_get ''order_index'' j)) (\<lambda>order_index.
     res_bind (as_opt_int (json_get ''version_id'' j)) (\<lambda>version_id.
     res_bind (as_opt_instant parse_at (json_get ''observed_from'' j)) (\<lambda>observed_from.
     res_bind (as_opt_instant parse_at (json_get ''last_confirmed_at'' j)) (\<lambda>last_confirmed.
     mk_entry_snapshot \<lparr>es_ace_key = ace_key, es_trustee_sid = trustee_sid, es_trustee_key = trustee_key,
       es_ace_type = ace_type, es_access_mask = mask, es_permission = permission, es_ace_flags = flags,
       es_source = src, es_inherited_from = inherited_from, es_order_index = order_index,
       es_version_id = version_id, es_observed_from = observed_from, es_last_confirmed_at = last_confirmed\<rparr>)))))))))))))"

subsection \<open>One row\<close>

record stored_change =
  sc_change_id :: uuid
  sc_plan_id :: uuid
  sc_sequence_index :: int
  sc_kind :: planned_change_kind
  sc_target_kind :: change_target_kind
  sc_target_key :: string
  sc_target_display :: "string option"
  sc_principal_sid :: string
  sc_principal_key :: string
  sc_principal_display_name :: "string option"
  sc_ace_key :: "string option"
  sc_group_key :: "string option"
  sc_member_key :: "string option"
  sc_edge_kind :: "membership_edge_kind option"
  sc_before_state :: json
  sc_before_digest :: string
  sc_after_access_mask :: "int option"
  sc_after_permission :: "share_permission option"
  sc_replacement_group_key :: "string option"
  sc_replacement_group_sid :: "string option"
  sc_replacement_group_display_name :: "string option"
  sc_item_id :: "uuid option"
  sc_decision_id :: "uuid option"
  sc_proposal_id :: "uuid option"
  sc_risk_finding_key :: "string option"
  sc_notes :: "string option"
  sc_created_at :: instant

text \<open>
  \<open>_change_values\<close>. A change without entry and edge, which the constructor rules out, would fail
  on the attribute access.
\<close>

definition change_values ::
  "(string \<Rightarrow> string) \<Rightarrow> (instant \<Rightarrow> string) \<Rightarrow> uuid \<Rightarrow> instant \<Rightarrow> planned_change \<Rightarrow> stored_change result" where
  "change_values sha iso_at plan_id now c =
     res_bind (precondition_digest sha c) (\<lambda>digest. Inr
       \<lparr>sc_change_id = pc_change_id c, sc_plan_id = plan_id, sc_sequence_index = pc_sequence_index c,
        sc_kind = pc_kind c, sc_target_kind = pc_target_kind c, sc_target_key = pc_target_key c,
        sc_target_display = pc_target_display c, sc_principal_sid = pc_principal_sid c,
        sc_principal_key = pc_principal_key c, sc_principal_display_name = pc_principal_display_name c,
        sc_ace_key = map_option es_ace_key (pc_entry c), sc_group_key = map_option ms_group_key (pc_membership c),
        sc_member_key = map_option ms_member_key (pc_membership c),
        sc_edge_kind = map_option ms_edge_kind (pc_membership c),
        sc_before_state = (case pc_entry c of Some e \<Rightarrow> entry_document sha iso_at e
          | None \<Rightarrow> (case pc_membership c of Some m \<Rightarrow> membership_document sha iso_at m | None \<Rightarrow> JNull)),
        sc_before_digest = digest, sc_after_access_mask = pc_after_access_mask c,
        sc_after_permission = pc_after_permission c, sc_replacement_group_key = pc_replacement_group_key c,
        sc_replacement_group_sid = pc_replacement_group_sid c,
        sc_replacement_group_display_name = pc_replacement_group_display_name c, sc_item_id = pc_item_id c,
        sc_decision_id = pc_decision_id c, sc_proposal_id = pc_proposal_id c,
        sc_risk_finding_key = pc_risk_finding_key c, sc_notes = pc_notes c, sc_created_at = now\<rparr>)"

definition row_membership :: "stored_change \<Rightarrow> membership_snapshot option result" where
  "row_membership row =
     (case sc_group_key row of None \<Rightarrow> Inr None
      | Some group_key \<Rightarrow>
         let before = sc_before_state row
         in case (sc_member_key row, sc_edge_kind row) of
              (Some member_key, Some edge_kind) \<Rightarrow>
                res_bind (as_opt_text (json_get ''member_sid'' before)) (\<lambda>member_sid.
                res_bind (res_bind (as_opt_text (json_get ''member_kind'' before))
                  (opt_enum_of principal_kinds principal_kind_value)) (\<lambda>member_kind.
                res_bind (as_opt_text (json_get ''group_display_name'' before)) (\<lambda>group_name.
                res_bind (as_opt_text (json_get ''member_display_name'' before)) (\<lambda>member_name.
                res_bind (as_opt_int (json_get ''version_id'' before)) (\<lambda>version_id.
                res_bind (mk_membership_snapshot \<lparr>ms_group_key = group_key, ms_member_key = member_key,
                    ms_member_sid = (case member_sid of None \<Rightarrow> [] | Some s \<Rightarrow> s), ms_edge_kind = edge_kind,
                    ms_member_kind = member_kind, ms_group_display_name = group_name,
                    ms_member_display_name = member_name, ms_version_id = version_id,
                    ms_observed_from = None, ms_last_confirmed_at = None\<rparr>) (\<lambda>m. Inr (Some m)))))))
            | _ \<Rightarrow> Inl ValueError)"

text \<open>\<open>_change\<close>\<close>

definition change_of_row :: "(string \<Rightarrow> instant option) \<Rightarrow> stored_change \<Rightarrow> planned_change result" where
  "change_of_row parse_at row =
     res_bind (case sc_ace_key row of None \<Rightarrow> Inr None
         | Some _ \<Rightarrow> res_bind (entry_from_document parse_at (sc_before_state row)) (\<lambda>e. Inr (Some e))) (\<lambda>entry.
     res_bind (row_membership row) (\<lambda>membership.
     mk_planned_change
       \<lparr>pc_change_id = sc_change_id row, pc_sequence_index = sc_sequence_index row, pc_kind = sc_kind row,
        pc_target_kind = sc_target_kind row, pc_target_key = sc_target_key row,
        pc_target_display = sc_target_display row, pc_principal_sid = sc_principal_sid row,
        pc_principal_key = sc_principal_key row, pc_principal_display_name = sc_principal_display_name row,
        pc_entry = entry, pc_membership = membership, pc_after_access_mask = sc_after_access_mask row,
        pc_after_permission = sc_after_permission row, pc_replacement_group_key = sc_replacement_group_key row,
        pc_replacement_group_sid = sc_replacement_group_sid row,
        pc_replacement_group_display_name = sc_replacement_group_display_name row, pc_item_id = sc_item_id row,
        pc_decision_id = sc_decision_id row, pc_proposal_id = sc_proposal_id row,
        pc_risk_finding_key = sc_risk_finding_key row, pc_notes = sc_notes row\<rparr>))"

subsection \<open>What survives the round trip\<close>

lemma enum_of_value:
  assumes "\<And>x y. value x = value y \<Longrightarrow> x = y" "v \<in> set vals"
  shows "enum_of vals value (value v) = Inr v"
proof -
  have all: "\<forall>x \<in> set (filter (\<lambda>x. value x = value v) vals). x = v" using assms(1) by auto
  moreover have "filter (\<lambda>x. value x = value v) vals \<noteq> []" using assms(2) by (auto simp: filter_empty_conv)
  ultimately obtain xs where "filter (\<lambda>x. value x = value v) vals = v # xs"
    by (cases "filter (\<lambda>x. value x = value v) vals") auto
  then show ?thesis by (simp add: enum_of_def)
qed

lemma opt_enum_of_value:
  assumes "\<And>x y. value x = value y \<Longrightarrow> x = y" "\<And>v. v \<in> set vals"
  shows "opt_enum_of vals value (map_option value t) = Inr t"
  using enum_of_value [OF assms] by (cases t) (simp_all add: opt_enum_of_def)

lemma as_opt_opt [simp]: "as_opt_text (opt_str t) = Inr t" "as_opt_int (opt_int i) = Inr i"
  by (simp_all add: opt_str_def opt_int_def split: option.split)

lemma as_opt_instant_opt: "(\<And>t. parse_at (iso_at t) = Some t) \<Longrightarrow> as_opt_instant parse_at (opt_instant iso_at x) = Inr x"
  by (simp add: as_opt_instant_def opt_instant_def split: option.split)

lemma principal_kind_value_inject: "principal_kind_value a = principal_kind_value b \<Longrightarrow> a = b"
  by (cases a; cases b) simp_all

lemma all_enum_values:
  "v \<in> set [ALLOW, DENY]" "p \<in> set [SP_READ, SP_CHANGE, SP_FULL]" "s \<in> set [EXPLICIT, INHERITED]" "k \<in> set principal_kinds"
  by (cases v, simp_all) (cases p, simp_all, cases s, simp_all, cases k, simp_all add: principal_kinds_def)

lemma entry_document_round_trip:
  assumes "mk_entry_snapshot e = Inr e" and "\<And>t. parse_at (iso_at t) = Some t"
  shows "entry_from_document parse_at (entry_document sha iso_at e) = Inr e"
proof -
  have enums: "enum_of [ALLOW, DENY] ace_type_value (ace_type_value v) = Inr v"
    "opt_enum_of [SP_READ, SP_CHANGE, SP_FULL] share_permission_value (map_option share_permission_value p) = Inr p"
    "opt_enum_of [EXPLICIT, INHERITED] ace_source_value (map_option ace_source_value s) = Inr s" for v p s
    using all_enum_values by (intro enum_of_value opt_enum_of_value; simp)+
  show ?thesis
    using assms(1) unfolding entry_from_document_def entry_document_def entry_fields_def text_at_def json_get_def
    by (cases e) (simp add: enums as_opt_instant_opt [OF assms(2)])
qed

text \<open>What a stored change reads back as: of an edge beside an entry only the columns are left.\<close>

definition stored_membership :: "planned_change \<Rightarrow> membership_snapshot option" where
  "stored_membership c = (case pc_membership c of None \<Rightarrow> None
     | Some m \<Rightarrow> (case pc_entry c of
         None \<Rightarrow> Some (m\<lparr>ms_observed_from := None, ms_last_confirmed_at := None\<rparr>)
       | Some e \<Rightarrow> Some \<lparr>ms_group_key = ms_group_key m, ms_member_key = ms_member_key m, ms_member_sid = [],
           ms_edge_kind = ms_edge_kind m, ms_member_kind = None, ms_group_display_name = None,
           ms_member_display_name = None, ms_version_id = es_version_id e, ms_observed_from = None,
           ms_last_confirmed_at = None\<rparr>))"

lemma mk_membership_ignores_labels:
  "mk_membership_snapshot m = Inr m \<Longrightarrow> ms_group_key n = ms_group_key m \<Longrightarrow> ms_member_key n = ms_member_key m
     \<Longrightarrow> ms_edge_kind n = ms_edge_kind m \<Longrightarrow> mk_membership_snapshot n = Inr n"
  by (simp add: mk_membership_snapshot_def ms_is_local_def ms_host_key_def split: if_splits)

lemma row_membership_round_trip:
  assumes m: "\<And>m. pc_membership c = Some m \<Longrightarrow> mk_membership_snapshot m = Inr m"
    and row: "change_values sha iso_at plan_id now c = Inr row"
  shows "row_membership row = Inr (stored_membership c)"
proof (cases "pc_membership c")
  case None
  then show ?thesis using row
    by (auto simp: change_values_def result_simps row_membership_def stored_membership_def)
next
  case (Some m)
  have kind: "opt_enum_of principal_kinds principal_kind_value (map_option principal_kind_value k) = Inr k"
      "opt_enum_of principal_kinds principal_kind_value None = Inr None" for k
    using opt_enum_of_value [OF principal_kind_value_inject all_enum_values(4)] by (simp_all add: opt_enum_of_def)
  obtain digest where d: "precondition_digest sha c = Inr digest"
    using row by (auto simp: change_values_def result_simps)
  show ?thesis
  proof (cases "pc_entry c")
    case None
    have ok: "mk_membership_snapshot (m\<lparr>ms_observed_from := None, ms_last_confirmed_at := None\<rparr>)
        = Inr (m\<lparr>ms_observed_from := None, ms_last_confirmed_at := None\<rparr>)"
      by (rule mk_membership_ignores_labels [OF m [OF Some]]) simp_all
    show ?thesis using row d Some None ok
      by (cases m) (auto simp: change_values_def row_membership_def stored_membership_def membership_document_def
          membership_fields_def json_get_def kind)
  next
    case (Some e)
    then show ?thesis using row d \<open>pc_membership c = Some m\<close> mk_membership_ignores_labels [OF m [OF \<open>pc_membership c = Some m\<close>]]
      by (auto simp: change_values_def row_membership_def stored_membership_def entry_document_def
          entry_fields_def json_get_def kind)
  qed
qed

lemma mk_planned_change_same_evidence:
  assumes "mk_planned_change c = Inr c"
  shows "mk_planned_change (c\<lparr>pc_membership := stored_membership c\<rparr>) = Inr (c\<lparr>pc_membership := stored_membership c\<rparr>)"
proof -
  have none: "stored_membership c = None \<longleftrightarrow> pc_membership c = None"
    by (simp add: stored_membership_def split: option.split)
  have key: "pc_entry c = None \<Longrightarrow> map_option ms_group_key (stored_membership c) = map_option ms_group_key (pc_membership c)"
    by (simp add: stored_membership_def split: option.split)
  let ?d = "c\<lparr>pc_membership := stored_membership c\<rparr>"
  have "validate_evidence ?d = validate_evidence c"
    using none key by (cases "stored_membership c"; cases "pc_membership c"; cases "pc_entry c") (auto simp: validate_evidence_def)
  moreover have "validate_replacement ?d = validate_replacement c"
    using none by (simp add: validate_replacement_def)
  moreover have "validate_narrowing ?d = validate_narrowing c"
    by (cases "pc_entry c") (simp_all add: validate_narrowing_def narrow_ntfs_def narrow_share_def)
  ultimately show ?thesis using assms by (simp add: mk_planned_change_iff)
qed

text \<open>
  C28. Storing an accepted change and reading its row back gives the same change, except for its
  membership edge: an edge that stands alone loses only when it was observed and last confirmed, while
  an edge that accompanies an entry comes back without its member's SID, kind and names and with the
  entry's version.
\<close>

theorem stored_change_round_trip:
  assumes "mk_planned_change c = Inr c"
    and "\<And>e. pc_entry c = Some e \<Longrightarrow> mk_entry_snapshot e = Inr e"
    and "\<And>m. pc_membership c = Some m \<Longrightarrow> mk_membership_snapshot m = Inr m"
    and "\<And>t. parse_at (iso_at t) = Some t"
  shows "\<exists>row. change_values sha iso_at plan_id now c = Inr row
    \<and> change_of_row parse_at row = Inr (c\<lparr>pc_membership := stored_membership c\<rparr>)"
proof -
  have "validate_evidence c = Inr ()" using assms(1) mk_planned_change_iff by blast
  then have "returns (precondition_digest sha c)"
    by (auto simp: validate_evidence_iff precondition_digest_def split: option.split if_splits)
  then obtain row where row: "change_values sha iso_at plan_id now c = Inr row"
    by (auto simp: change_values_def returns_def)
  have mem: "row_membership row = Inr (stored_membership c)"
    by (rule row_membership_round_trip [OF assms(3) row])
  have ent: "(case sc_ace_key row of None \<Rightarrow> Inr None
      | Some _ \<Rightarrow> res_bind (entry_from_document parse_at (sc_before_state row)) (\<lambda>e. Inr (Some e))) = Inr (pc_entry c)"
    using row entry_document_round_trip [OF assms(2,4)]
    by (cases "pc_entry c") (auto simp: change_values_def result_simps)
  have "change_of_row parse_at row = mk_planned_change (c\<lparr>pc_membership := stored_membership c\<rparr>)"
    unfolding change_of_row_def ent mem using row
    by (cases c) (auto simp: change_values_def result_simps)
  then show ?thesis using row mk_planned_change_same_evidence [OF assms(1)] by simp
qed

definition replace_change :: planned_change where
  "replace_change = sample_change\<lparr>pc_kind := PC_REPLACE_WITH_GROUP, pc_after_access_mask := None,
     pc_membership := Some \<lparr>ms_group_key = ''S-1-5-21-1-2-3-2000'', ms_member_key = ''S-1-5-21-1-2-3-1104'',
       ms_member_sid = ''S-1-5-21-1-2-3-1104'', ms_edge_kind = MK_DIRECTORY_GROUP_MEMBER, ms_member_kind = Some PK_USER,
       ms_group_display_name = Some ''Finance readers'', ms_member_display_name = Some ''Ada'', ms_version_id = None,
       ms_observed_from = None, ms_last_confirmed_at = None\<rparr>,
     pc_replacement_group_key := Some ''S-1-5-21-1-2-3-2000'', pc_replacement_group_sid := Some ''S-1-5-21-1-2-3-2000'',
     pc_replacement_group_display_name := Some ''Finance readers''\<rparr>"

definition plain_parse :: "string \<Rightarrow> instant option" where
  "plain_parse s = Some (if s \<noteq> [] \<and> hd s = CHR ''-'' then - int (dec_value (tl s)) else int (dec_value s))"

lemma plain_parse_iso: "plain_parse (plain_iso t) = Some t"
proof -
  have "plain_parse (dec_string n) = Some (int n)" for n
    using dec_string_head [of n] dec_value_dec_string [of n] by (auto simp: plain_parse_def is_digit_def)
  then show ?thesis by (simp add: plain_iso_def int_text_def) (simp add: plain_parse_def)
qed

lemma replace_change_ok: "mk_planned_change replace_change = Inr replace_change"
  by code_simp

lemma replace_membership_ok: "pc_membership replace_change = Some m \<Longrightarrow> mk_membership_snapshot m = Inr m"
proof -
  have "(case pc_membership replace_change of None \<Rightarrow> True | Some m \<Rightarrow> mk_membership_snapshot m = Inr m)" by code_simp
  then show "pc_membership replace_change = Some m \<Longrightarrow> mk_membership_snapshot m = Inr m" by simp
qed

lemma replace_entry_ok: "pc_entry replace_change = Some e \<Longrightarrow> mk_entry_snapshot e = Inr e"
  using sample_entry_ok by (simp add: replace_change_def sample_change_def)

lemma stored_change_round_trip_witness:
  "\<exists>row. change_values id plain_iso ''p1'' 4 replace_change = Inr row
    \<and> change_of_row plain_parse row = Inr (replace_change\<lparr>pc_membership := stored_membership replace_change\<rparr>)"
  by (rule stored_change_round_trip [OF replace_change_ok replace_entry_ok replace_membership_ok plain_parse_iso])

text \<open>
  A stored replacement no longer names who is to be put into the group: read back, the edge
  of a \<open>REPLACE_WITH_GROUP\<close> change has an empty member SID and no member kind, and the change it
  digests to is another one than the change that was planned.
\<close>

theorem stored_replacement_forgets_member:
  assumes "mk_planned_change c = Inr c" "pc_kind c = PC_REPLACE_WITH_GROUP"
    and "\<And>e. pc_entry c = Some e \<Longrightarrow> mk_entry_snapshot e = Inr e"
    and "\<And>m. pc_membership c = Some m \<Longrightarrow> mk_membership_snapshot m = Inr m \<and> ms_member_sid m \<noteq> []"
    and "\<And>t. parse_at (iso_at t) = Some t"
  shows "\<exists>row d m. change_values sha iso_at plan_id now c = Inr row \<and> change_of_row parse_at row = Inr d
    \<and> pc_membership d = Some m \<and> ms_member_sid m = [] \<and> ms_member_kind m = None
    \<and> sort_keys (change_as_digestible d) \<noteq> sort_keys (change_as_digestible c)"
proof -
  have v: "validate_evidence c = Inr ()" "validate_replacement c = Inr ()"
    using assms(1) mk_planned_change_iff by blast+
  then obtain e m where em: "pc_entry c = Some e" "pc_membership c = Some m"
    using assms(2) by (auto simp: validate_evidence_iff validate_replacement_def split: if_splits)
  let ?d = "c\<lparr>pc_membership := stored_membership c\<rparr>"
  have "validate_evidence c = Inr ()" using assms(1) mk_planned_change_iff by blast
  then have "returns (precondition_digest sha c)" using em by (simp add: precondition_digest_def)
  then obtain row where row: "change_values sha iso_at plan_id now c = Inr row"
    by (auto simp: change_values_def returns_def)
  have "row_membership row = Inr (stored_membership c)"
    by (rule row_membership_round_trip [OF _ row]) (use assms(4) in blast)
  moreover have "sc_ace_key row \<noteq> None" "entry_from_document parse_at (sc_before_state row) = Inr e"
    using row em entry_document_round_trip [OF assms(3,5)] by (auto simp: change_values_def result_simps)
  ultimately have "change_of_row parse_at row = mk_planned_change ?d"
    using row em by (cases c) (auto simp: change_of_row_def change_values_def result_simps)
  then have read: "change_of_row parse_at row = Inr ?d" using mk_planned_change_same_evidence [OF assms(1)] by simp
  obtain m' where m': "stored_membership c = Some m'" "ms_member_sid m' = []" "ms_member_kind m' = None"
    using em by (simp add: stored_membership_def)
  have "change_claims ?d \<noteq> change_claims c"
  proof
    assume "change_claims ?d = change_claims c"
    then have "pc_membership (change_claims ?d) = pc_membership (change_claims c)" by (rule arg_cong)
    then have "map_option membership_claims (pc_membership ?d) = map_option membership_claims (pc_membership c)"
      by (simp add: change_claims_def)
    then have "membership_claims m' = membership_claims m" using m' em by simp
    then have "ms_member_sid (membership_claims m') = ms_member_sid (membership_claims m)" by (rule arg_cong)
    then have "ms_member_sid m' = ms_member_sid m" by (simp add: membership_claims_def)
    with m'(2) assms(4) [OF em(2)] show False by simp
  qed
  then have "sort_keys (change_as_digestible ?d) \<noteq> sort_keys (change_as_digestible c)"
    using change_digestible_inject by blast
  with row read m' show ?thesis by auto
qed

lemma stored_replacement_forgets_member_witness:
  "\<exists>row d m. change_values id plain_iso ''p1'' 4 replace_change = Inr row \<and> change_of_row plain_parse row = Inr d
    \<and> pc_membership d = Some m \<and> ms_member_sid m = [] \<and> ms_member_kind m = None
    \<and> sort_keys (change_as_digestible d) \<noteq> sort_keys (change_as_digestible replace_change)"
proof (rule stored_replacement_forgets_member [OF replace_change_ok _ replace_entry_ok _ plain_parse_iso])
  show "pc_kind replace_change = PC_REPLACE_WITH_GROUP" by (simp add: replace_change_def)
  show "mk_membership_snapshot m = Inr m \<and> ms_member_sid m \<noteq> []" if "pc_membership replace_change = Some m" for m
    using that replace_membership_ok [OF that] by (auto simp: replace_change_def)
qed

end
