(* ===== verification/Adg_Plan_Service.thy ===== *)
theory Adg_Plan_Service
  imports Adg_Plan_Store
begin

section \<open>The change-plan workflow (app/remediation/service.py)\<close>

text \<open>
  The four tables of change plans and the audit events as one state; every operation of
  \<open>RemediationService\<close> takes the state and returns the one its transaction leaves, with the result
  or the exception. An exception before the commit leaves the state as it was; an invalidation is
  committed before its exception is raised. What the operations take from elsewhere is an argument:
  the platform (hash, MAC, rendering and reading of moments), and the runtime of one call (the moment,
  fresh identifiers, the collection basis, what is observed of a plan's targets, what the simulation
  reports, the rendered export document, the signing key).

  Each operation is its decision on the plan it loaded (\<open>..._on\<close>) under the load; two operations
  that overlap are two decisions on the same loaded plan, applied one after the other.
\<close>

record platform =
  pf_sha :: "string \<Rightarrow> string"
  pf_hmac :: "string \<Rightarrow> string \<Rightarrow> string"
  pf_iso :: "instant \<Rightarrow> string"
  pf_parse :: "string \<Rightarrow> instant option"

record actor =
  act_subject :: string
  act_display_name :: "string option"
  act_roles :: "string list"

record simulated =
  sim_id :: uuid
  sim_basis_token :: string
  sim_summary :: json
  sim_complete :: bool
  sim_inert :: bool

record runtime =
  rt_now :: instant
  rt_new_id :: uuid
  rt_event_id :: uuid
  rt_basis_token :: string
  rt_basis_run_id :: "string option"
  rt_observed :: "planned_change list \<Rightarrow> uuid \<rightharpoonup> observed_state"
  rt_simulate :: "change_plan \<Rightarrow> simulated result"
  rt_document :: "change_plan \<Rightarrow> json"
  rt_signing_key :: string

record plan_export =
  pe_export_id :: uuid
  pe_plan_id :: uuid
  pe_exported_by_subject :: string
  pe_exported_by_display_name :: "string option"
  pe_exported_at :: instant
  pe_document :: json
  pe_document_digest :: string
  pe_signature :: string
  pe_signature_key_id :: string
  pe_basis_token :: string
  pe_audit_head_digest :: "string option"

record plan_db =
  pdb_plans :: "change_plan list"
  pdb_changes :: "stored_change list"
  pdb_approvals :: "approval_record list"
  pdb_exports :: "plan_export list"
  pdb_events :: "governance_event list"

type_synonym 'a transaction = "plan_db \<times> 'a result"

subsection \<open>Reads and writes (app/remediation/repository.py)\<close>

definition find_plan :: "uuid \<Rightarrow> plan_db \<Rightarrow> change_plan option" where
  "find_plan plan_id db = find (\<lambda>p. cp_plan_id p = plan_id) (pdb_plans db)"

definition changes_for :: "platform \<Rightarrow> uuid \<Rightarrow> plan_db \<Rightarrow> planned_change list result" where
  "changes_for pf plan_id db = res_map (change_of_row (pf_parse pf))
     (sort_key sc_sequence_index (filter (\<lambda>r. sc_plan_id r = plan_id) (pdb_changes db)))"

definition get_plan :: "platform \<Rightarrow> uuid \<Rightarrow> plan_db \<Rightarrow> change_plan result" where
  "get_plan pf plan_id db =
     (case find_plan plan_id db of
        None \<Rightarrow> Inl RemediationNotFound
      | Some row \<Rightarrow> res_bind (changes_for pf plan_id db) (\<lambda>cs. Inr (row\<lparr>cp_changes := cs\<rparr>)))"

definition insert_plan :: "change_plan \<Rightarrow> plan_db \<Rightarrow> plan_db result" where
  "insert_plan plan db =
     (if find_plan (cp_plan_id plan) db \<noteq> None then Inl IntegrityError
      else Inr (db\<lparr>pdb_plans := pdb_plans db @ [plan\<lparr>cp_changes := []\<rparr>]\<rparr>))"

definition insert_changes :: "platform \<Rightarrow> instant \<Rightarrow> uuid \<Rightarrow> planned_change list \<Rightarrow> plan_db \<Rightarrow> plan_db result" where
  "insert_changes pf now plan_id cs db =
     res_bind (res_map (change_values (pf_sha pf) (pf_iso pf) plan_id now) cs) (\<lambda>rows.
       if distinct (map sc_change_id rows) \<and> set (map sc_change_id rows) \<inter> set (map sc_change_id (pdb_changes db)) = {}
         then Inr (db\<lparr>pdb_changes := pdb_changes db @ rows\<rparr>)
       else Inl IntegrityError)"

definition replace_change_rows :: "platform \<Rightarrow> instant \<Rightarrow> uuid \<Rightarrow> planned_change list \<Rightarrow> plan_db \<Rightarrow> plan_db result" where
  "replace_change_rows pf now plan_id cs db =
     insert_changes pf now plan_id cs (db\<lparr>pdb_changes := filter (\<lambda>r. sc_plan_id r \<noteq> plan_id) (pdb_changes db)\<rparr>)"

text \<open>An \<open>UPDATE ... WHERE plan_id = ...\<close>: every row of the plan, whatever its status.\<close>

definition update_plan :: "uuid \<Rightarrow> (change_plan \<Rightarrow> change_plan) \<Rightarrow> plan_db \<Rightarrow> plan_db" where
  "update_plan plan_id f db = db\<lparr>pdb_plans := map (\<lambda>p. if cp_plan_id p = plan_id then f p else p) (pdb_plans db)\<rparr>"

definition attach_simulation :: "uuid \<Rightarrow> uuid \<Rightarrow> string \<Rightarrow> json \<Rightarrow> instant \<Rightarrow> plan_db \<Rightarrow> plan_db" where
  "attach_simulation plan_id sid token impact at = update_plan plan_id (\<lambda>p. p\<lparr>cp_simulation_id := Some sid,
     cp_simulation_basis_token := Some token, cp_impact_summary := impact, cp_updated_at := Some at\<rparr>)"

definition clear_simulation :: "uuid \<Rightarrow> instant \<Rightarrow> plan_db \<Rightarrow> plan_db" where
  "clear_simulation plan_id at = update_plan plan_id (\<lambda>p. p\<lparr>cp_simulation_id := None,
     cp_simulation_basis_token := None, cp_impact_summary := JObj [], cp_updated_at := Some at\<rparr>)"

text \<open>One answer per approver and digest: the unique constraint of the approvals table.\<close>

definition insert_approval :: "approval_record \<Rightarrow> plan_db \<Rightarrow> plan_db result" where
  "insert_approval a db =
     (if \<exists>b \<in> set (pdb_approvals db). ap_approval_id b = ap_approval_id a
          \<or> (ap_plan_id b = ap_plan_id a \<and> ap_approver_subject b = ap_approver_subject a \<and> ap_plan_digest b = ap_plan_digest a)
        then Inl IntegrityError
      else Inr (db\<lparr>pdb_approvals := pdb_approvals db @ [a]\<rparr>))"

definition insert_export :: "plan_export \<Rightarrow> plan_db \<Rightarrow> plan_db result" where
  "insert_export x db =
     (if pe_export_id x \<in> set (map pe_export_id (pdb_exports db)) then Inl IntegrityError
      else Inr (db\<lparr>pdb_exports := pdb_exports db @ [x]\<rparr>))"

definition plan_event ::
  "platform \<Rightarrow> runtime \<Rightarrow> actor \<Rightarrow> change_plan \<Rightarrow> governance_event_type \<Rightarrow> (string \<times> json) list \<Rightarrow> plan_db \<Rightarrow> plan_db" where
  "plan_event pf rt actor plan ty payload db = db\<lparr>pdb_events :=
     append_event (pf_sha pf) (pf_iso pf) (rt_event_id rt) (plan_chain (cp_plan_id plan)) ty (rt_now rt)
       (act_subject actor) (act_display_name actor) (act_roles actor) (cp_campaign_id plan) None None
       (JObj ((''plan_id'', JStr (cp_plan_id plan)) # payload)) (pdb_events db)\<rparr>"

subsection \<open>Transactions\<close>

text \<open>An exception before the commit: nothing is written.\<close>

definition commit :: "plan_db \<Rightarrow> (plan_db \<times> 'a) result \<Rightarrow> 'a transaction" where
  "commit db r = (case r of Inl e \<Rightarrow> (db, Inl e) | Inr (db', x) \<Rightarrow> (db', Inr x))"

text \<open>A commit, and then the plan read again.\<close>

definition commit_and_read :: "platform \<Rightarrow> uuid \<Rightarrow> plan_db \<Rightarrow> plan_db result \<Rightarrow> change_plan transaction" where
  "commit_and_read pf plan_id db r = (case r of Inl e \<Rightarrow> (db, Inl e) | Inr db' \<Rightarrow> (db', get_plan pf plan_id db'))"

definition with_plan ::
  "platform \<Rightarrow> uuid \<Rightarrow> (change_plan \<Rightarrow> plan_db \<Rightarrow> 'a transaction) \<Rightarrow> plan_db \<Rightarrow> 'a transaction" where
  "with_plan pf plan_id f db = (case get_plan pf plan_id db of Inl e \<Rightarrow> (db, Inl e) | Inr plan \<Rightarrow> f plan db)"

definition plan_preconditions :: "platform \<Rightarrow> runtime \<Rightarrow> change_plan \<Rightarrow> precondition_report result" where
  "plan_preconditions pf rt plan = evaluate_plan (pf_sha pf) (cp_plan_id plan) (cp_changes plan)
     (rt_observed rt (cp_changes plan)) (rt_now rt) (rt_basis_token rt) (cp_basis_token plan)"

definition require_author :: "actor \<Rightarrow> change_plan \<Rightarrow> unit result" where
  "require_author actor plan =
     (if act_subject actor \<noteq> cp_requested_by_subject plan then Inl RemediationForbidden else Inr ())"

definition stripped :: "string option \<Rightarrow> string option" where
  "stripped r = (let t = py_strip (case r of None \<Rightarrow> [] | Some s \<Rightarrow> s) in if t = [] then None else Some t)"

definition counts_json :: "precondition_report \<Rightarrow> json" where
  "counts_json r = JObj (map (\<lambda>(k, n). (k, JInt (int n))) (report_counts r))"

definition set_status :: "change_plan_status \<Rightarrow> instant \<Rightarrow> change_plan \<Rightarrow> change_plan" where
  "set_status s at p = p\<lparr>cp_status := s, cp_updated_at := Some at\<rparr>"

definition invalidate :: "platform \<Rightarrow> runtime \<Rightarrow> actor \<Rightarrow> change_plan \<Rightarrow> string \<Rightarrow> plan_db \<Rightarrow> plan_db" where
  "invalidate pf rt actor plan reason db =
     plan_event pf rt actor plan GE_PLAN_INVALIDATED
       [(''reason'', JStr reason), (''from_status'', JStr (change_plan_status_value (cp_status plan)))]
       (update_plan (cp_plan_id plan) (\<lambda>p. (set_status CP_INVALIDATED (rt_now rt) p)
          \<lparr>cp_invalidated_at := Some (rt_now rt), cp_invalidation_reason := Some reason\<rparr>) db)"

subsection \<open>The operations\<close>

definition create_plan ::
  "platform \<Rightarrow> runtime \<Rightarrow> actor \<Rightarrow> string \<Rightarrow> string \<Rightarrow> planned_change list \<Rightarrow> uuid option \<Rightarrow> plan_db \<Rightarrow> change_plan transaction" where
  "create_plan pf rt actor title rationale changes campaign db = commit db
     (res_bind (validate_title title) (\<lambda>clean_title.
      res_bind (validate_rationale rationale) (\<lambda>clean_rationale.
      res_bind (validate_changes changes) (\<lambda>_.
      let plan = \<lparr>cp_plan_id = rt_new_id rt, cp_title = clean_title, cp_rationale = clean_rationale,
            cp_status = CP_DRAFT, cp_changes = sort_key pc_sequence_index changes,
            cp_requested_by_subject = act_subject actor, cp_requested_by_display_name = act_display_name actor,
            cp_requested_at = rt_now rt, cp_basis_token = rt_basis_token rt, cp_basis_run_id = rt_basis_run_id rt,
            cp_basis_captured_at = Some (rt_now rt), cp_campaign_id = campaign, cp_simulation_id = None,
            cp_simulation_basis_token = None, cp_impact_summary = JObj [], cp_submitted_at = None,
            cp_decided_at = None, cp_approved_by_subject = None, cp_approved_plan_digest = None,
            cp_approved_basis_token = None, cp_rejection_reason = None, cp_exported_at = None,
            cp_invalidated_at = None, cp_invalidation_reason = None, cp_canceled_at = None,
            cp_canceled_by_subject = None, cp_created_at = Some (rt_now rt), cp_updated_at = Some (rt_now rt)\<rparr>
      in res_bind (insert_plan plan db) (\<lambda>db1.
         res_bind (insert_changes pf (rt_now rt) (cp_plan_id plan) (cp_changes plan) db1) (\<lambda>db2. Inr
           (plan_event pf rt actor plan GE_PLAN_CREATED
              [(''title'', JStr (cp_title plan)), (''change_count'', JInt (int (length (cp_changes plan)))),
               (''basis_token'', JStr (cp_basis_token plan)),
               (''kinds'', JArr (map JStr (sort (remdups (map (\<lambda>c. planned_change_kind_value (pc_kind c)) (cp_changes plan))))))]
              db2, plan)))))))"

definition replace_changes_on ::
  "platform \<Rightarrow> runtime \<Rightarrow> actor \<Rightarrow> planned_change list \<Rightarrow> change_plan \<Rightarrow> plan_db \<Rightarrow> change_plan transaction" where
  "replace_changes_on pf rt actor changes plan db = commit_and_read pf (cp_plan_id plan) db
     (if \<not> is_editable plan then Inl RemediationConflict
      else res_bind (require_author actor plan) (\<lambda>_.
        res_bind (validate_changes changes) (\<lambda>_.
        res_bind (replace_change_rows pf (rt_now rt) (cp_plan_id plan) (sort_key pc_sequence_index changes) db) (\<lambda>db1.
        Inr (clear_simulation (cp_plan_id plan) (rt_now rt) db1)))))"

definition replace_changes ::
  "platform \<Rightarrow> runtime \<Rightarrow> actor \<Rightarrow> uuid \<Rightarrow> planned_change list \<Rightarrow> plan_db \<Rightarrow> change_plan transaction" where
  "replace_changes pf rt actor plan_id changes = with_plan pf plan_id (replace_changes_on pf rt actor changes)"

definition simulate_on :: "platform \<Rightarrow> runtime \<Rightarrow> actor \<Rightarrow> change_plan \<Rightarrow> plan_db \<Rightarrow> change_plan transaction" where
  "simulate_on pf rt actor plan db = commit_and_read pf (cp_plan_id plan) db
     (if cp_status plan \<notin> {CP_DRAFT, CP_PENDING_APPROVAL} then Inl RemediationConflict
      else res_bind (rt_simulate rt plan) (\<lambda>sim. Inr
        (plan_event pf rt actor plan GE_PLAN_SIMULATED
           [(''simulation_id'', JStr (sim_id sim)), (''basis_token'', JStr (sim_basis_token sim)),
            (''complete'', JBool (sim_complete sim)), (''inert'', JBool (sim_inert sim)), (''summary'', sim_summary sim)]
           (attach_simulation (cp_plan_id plan) (sim_id sim) (sim_basis_token sim) (sim_summary sim) (rt_now rt) db))))"

definition simulate :: "platform \<Rightarrow> runtime \<Rightarrow> actor \<Rightarrow> uuid \<Rightarrow> plan_db \<Rightarrow> change_plan transaction" where
  "simulate pf rt actor plan_id = with_plan pf plan_id (simulate_on pf rt actor)"

definition submit_on :: "platform \<Rightarrow> runtime \<Rightarrow> actor \<Rightarrow> change_plan \<Rightarrow> plan_db \<Rightarrow> change_plan transaction" where
  "submit_on pf rt actor plan db = commit_and_read pf (cp_plan_id plan) db
     (res_bind (validate_transition (cp_status plan) CP_PENDING_APPROVAL) (\<lambda>_.
      res_bind (require_author actor plan) (\<lambda>_.
      if \<not> has_current_simulation plan then Inl RemediationConflict
      else res_bind (plan_preconditions pf rt plan) (\<lambda>report.
        if \<not> report_satisfied report then Inl RemediationConflict
        else Inr (plan_event pf rt actor plan GE_PLAN_SUBMITTED
          [(''plan_digest'', JStr (plan_digest (pf_sha pf) plan)), (''simulation_id'', opt_str (cp_simulation_id plan)),
           (''precondition_counts'', counts_json report)]
          (update_plan (cp_plan_id plan) (\<lambda>p. (set_status CP_PENDING_APPROVAL (rt_now rt) p)
             \<lparr>cp_submitted_at := Some (rt_now rt)\<rparr>) db))))))"

definition submit :: "platform \<Rightarrow> runtime \<Rightarrow> actor \<Rightarrow> uuid \<Rightarrow> plan_db \<Rightarrow> change_plan transaction" where
  "submit pf rt actor plan_id = with_plan pf plan_id (submit_on pf rt actor)"

definition decision_update :: "runtime \<Rightarrow> precondition_report \<Rightarrow> approval_record \<Rightarrow> change_plan \<Rightarrow> change_plan" where
  "decision_update rt report a p =
     (if ap_decision a = AD_APPROVE
        then (set_status CP_APPROVED (rt_now rt) p)\<lparr>cp_decided_at := Some (rt_now rt),
          cp_approved_by_subject := Some (ap_approver_subject a), cp_approved_plan_digest := Some (ap_plan_digest a),
          cp_approved_basis_token := Some (prr_basis_token report)\<rparr>
      else (set_status CP_REJECTED (rt_now rt) p)\<lparr>cp_decided_at := Some (rt_now rt),
          cp_rejection_reason := ap_rationale a\<rparr>)"

definition decide_on ::
  "platform \<Rightarrow> runtime \<Rightarrow> actor \<Rightarrow> approval_decision \<Rightarrow> string option \<Rightarrow> change_plan \<Rightarrow> plan_db \<Rightarrow> change_plan transaction" where
  "decide_on pf rt actor decision rationale plan db =
     (if cp_status plan \<noteq> CP_PENDING_APPROVAL then (db, Inl RemediationConflict)
      else if act_subject actor = cp_requested_by_subject plan then (db, Inl RemediationForbidden)
      else if decision = AD_REJECT \<and> stripped rationale = None then (db, Inl (RemediationValidationError ''rationale''))
      else (case plan_preconditions pf rt plan of
          Inl e \<Rightarrow> (db, Inl e)
        | Inr report \<Rightarrow>
            if decision = AD_APPROVE \<and> \<not> report_satisfied report
              then (invalidate pf rt actor plan (summarize_verdict report) db, Inl RemediationConflict)
            else
              let approval = \<lparr>ap_approval_id = rt_new_id rt, ap_plan_id = cp_plan_id plan, ap_decision = decision,
                    ap_approver_subject = act_subject actor, ap_approver_display_name = act_display_name actor,
                    ap_approver_roles = sort (act_roles actor), ap_decided_at = rt_now rt,
                    ap_rationale = stripped rationale, ap_plan_digest = plan_digest (pf_sha pf) plan,
                    ap_basis_token = prr_basis_token report, ap_simulation_id = cp_simulation_id plan\<rparr>
              in commit_and_read pf (cp_plan_id plan) db
                (res_bind (insert_approval approval db) (\<lambda>db1. Inr
                  (plan_event pf rt actor plan (if decision = AD_APPROVE then GE_PLAN_APPROVED else GE_PLAN_REJECTED)
                    [(''approval_id'', JStr (ap_approval_id approval)), (''plan_digest'', JStr (ap_plan_digest approval)),
                     (''basis_token'', JStr (ap_basis_token approval)),
                     (''simulation_id'', opt_str (ap_simulation_id approval)),
                     (''rationale_present'', JBool (ap_rationale approval \<noteq> None))]
                    (update_plan (cp_plan_id plan) (decision_update rt report approval) db1))))))"

definition decide ::
  "platform \<Rightarrow> runtime \<Rightarrow> actor \<Rightarrow> uuid \<Rightarrow> approval_decision \<Rightarrow> string option \<Rightarrow> plan_db \<Rightarrow> change_plan transaction" where
  "decide pf rt actor plan_id decision rationale = with_plan pf plan_id (decide_on pf rt actor decision rationale)"

text \<open>\<open>sign_document\<close> and \<open>key_id_for\<close> of app/remediation/export.py.\<close>

definition key_id_for :: "(string \<Rightarrow> string) \<Rightarrow> string \<Rightarrow> string" where
  "key_id_for sha key = take 16 (sha key)"

definition sign_document :: "platform \<Rightarrow> json \<Rightarrow> string \<Rightarrow> (string \<times> string) result" where
  "sign_document pf d key =
     (if key = [] then Inl RemediationConflict
      else Inr (pf_hmac pf key (canonical_json d), key_id_for (pf_sha pf) key))"

definition verify_document :: "platform \<Rightarrow> json \<Rightarrow> string \<Rightarrow> string \<Rightarrow> bool" where
  "verify_document pf d signature key =
     (if key = [] \<or> signature = [] then False else pf_hmac pf key (canonical_json d) = signature)"

definition export_on :: "platform \<Rightarrow> runtime \<Rightarrow> actor \<Rightarrow> change_plan \<Rightarrow> plan_db \<Rightarrow> plan_export transaction" where
  "export_on pf rt actor plan db =
     (if cp_status plan \<noteq> CP_APPROVED then (db, Inl RemediationConflict)
      else if \<not> approval_is_current (pf_sha pf) plan then (db, Inl RemediationConflict)
      else if act_subject actor = cp_requested_by_subject plan \<or> Some (act_subject actor) = cp_approved_by_subject plan
        then (db, Inl RemediationForbidden)
      else (case plan_preconditions pf rt plan of
          Inl e \<Rightarrow> (db, Inl e)
        | Inr report \<Rightarrow>
            if \<not> report_satisfied report
              then (invalidate pf rt actor plan (summarize_verdict report) db, Inl RemediationConflict)
            else
              let events = fst (events_for_chain (plan_chain (cp_plan_id plan)) 1000 0 (pdb_events db));
                  head = (if events = [] then None else Some (ev_digest (last events)));
                  rendered = rt_document rt plan
              in commit db (res_bind (sign_document pf rendered (rt_signing_key rt)) (\<lambda>(signature, key_id).
                let export = \<lparr>pe_export_id = rt_new_id rt, pe_plan_id = cp_plan_id plan,
                      pe_exported_by_subject = act_subject actor, pe_exported_by_display_name = act_display_name actor,
                      pe_exported_at = rt_now rt, pe_document = rendered,
                      pe_document_digest = digest_json (pf_sha pf) rendered, pe_signature = signature,
                      pe_signature_key_id = key_id, pe_basis_token = prr_basis_token report, pe_audit_head_digest = head\<rparr>
                in res_bind (insert_export export db) (\<lambda>db1. Inr
                  (plan_event pf rt actor plan GE_PLAN_EXPORTED
                    [(''export_id'', JStr (pe_export_id export)), (''document_digest'', JStr (pe_document_digest export)),
                     (''signature_key_id'', JStr key_id), (''basis_token'', JStr (pe_basis_token export)),
                     (''performed_by_adg'', JBool False)]
                    (update_plan (cp_plan_id plan) (\<lambda>p. (set_status CP_EXPORTED (rt_now rt) p)
                       \<lparr>cp_exported_at := Some (rt_now rt)\<rparr>) db1), export))))))"

definition export :: "platform \<Rightarrow> runtime \<Rightarrow> actor \<Rightarrow> uuid \<Rightarrow> plan_db \<Rightarrow> plan_export transaction" where
  "export pf rt actor plan_id = with_plan pf plan_id (export_on pf rt actor)"

definition cancel_on :: "platform \<Rightarrow> runtime \<Rightarrow> actor \<Rightarrow> string option \<Rightarrow> change_plan \<Rightarrow> plan_db \<Rightarrow> change_plan transaction" where
  "cancel_on pf rt actor reason plan db = commit_and_read pf (cp_plan_id plan) db
     (res_bind (validate_transition (cp_status plan) CP_CANCELED) (\<lambda>_. Inr
       (plan_event pf rt actor plan GE_PLAN_CANCELED
          [(''reason'', opt_str (stripped reason)), (''from_status'', JStr (change_plan_status_value (cp_status plan)))]
          (update_plan (cp_plan_id plan) (\<lambda>p. (set_status CP_CANCELED (rt_now rt) p)
             \<lparr>cp_canceled_at := Some (rt_now rt), cp_canceled_by_subject := Some (act_subject actor)\<rparr>) db))))"

definition cancel :: "platform \<Rightarrow> runtime \<Rightarrow> actor \<Rightarrow> uuid \<Rightarrow> string option \<Rightarrow> plan_db \<Rightarrow> change_plan transaction" where
  "cancel pf rt actor plan_id reason = with_plan pf plan_id (cancel_on pf rt actor reason)"

subsection \<open>The workflow the operations implement\<close>

text \<open>
  The abstract workflow: one rule for each thing that can happen to a plan, with the conditions under
  which it may. \<open>pid\<close> is the plan, \<open>r\<close> its row, \<open>cs\<close> the changes stored for it.
\<close>

inductive workflow_step :: "platform \<Rightarrow> plan_db \<Rightarrow> plan_db \<Rightarrow> bool" for pf :: platform where
  wf_none: "workflow_step pf db db"
| wf_create: "find_plan (cp_plan_id p) db = None \<Longrightarrow> cp_status p = CP_DRAFT \<Longrightarrow> \<forall>x \<in> set rows. sc_plan_id x = cp_plan_id p
    \<Longrightarrow> cp_approved_by_subject p = None
    \<Longrightarrow> workflow_step pf db (plan_event pf rt actor q ty payload
         (db\<lparr>pdb_plans := pdb_plans db @ [p], pdb_changes := pdb_changes db @ rows\<rparr>))"
| wf_rewrite: "find_plan pid db = Some r \<Longrightarrow> cp_status r = CP_DRAFT \<Longrightarrow> \<forall>x \<in> set rows. sc_plan_id x = pid
    \<Longrightarrow> workflow_step pf db (clear_simulation pid at
         (db\<lparr>pdb_changes := filter (\<lambda>x. sc_plan_id x \<noteq> pid) (pdb_changes db) @ rows\<rparr>))"
| wf_measure: "find_plan pid db = Some r \<Longrightarrow> cp_status r \<in> {CP_DRAFT, CP_PENDING_APPROVAL}
    \<Longrightarrow> workflow_step pf db (plan_event pf rt actor q ty payload (attach_simulation pid sid token impact at db))"
| wf_submit: "find_plan pid db = Some r \<Longrightarrow> cp_status r = CP_DRAFT \<Longrightarrow> has_current_simulation r
    \<Longrightarrow> act_subject actor = cp_requested_by_subject r
    \<Longrightarrow> workflow_step pf db (plan_event pf rt actor q ty payload
         (update_plan pid (\<lambda>p. (set_status CP_PENDING_APPROVAL at p)\<lparr>cp_submitted_at := Some at\<rparr>) db))"
| wf_decide: "find_plan pid db = Some r \<Longrightarrow> cp_status r = CP_PENDING_APPROVAL \<Longrightarrow> changes_for pf pid db = Inr cs
    \<Longrightarrow> ap_plan_id a = pid \<Longrightarrow> ap_approver_subject a \<noteq> cp_requested_by_subject r
    \<Longrightarrow> ap_plan_digest a = plan_digest (pf_sha pf) (r\<lparr>cp_changes := cs\<rparr>)
    \<Longrightarrow> (ap_decision a = AD_APPROVE \<longrightarrow> report_satisfied report) \<Longrightarrow> (ap_decision a = AD_REJECT \<longrightarrow> ap_rationale a \<noteq> None)
    \<Longrightarrow> workflow_step pf db (plan_event pf rt actor q ty payload
         (update_plan pid (decision_update rt' report a) (db\<lparr>pdb_approvals := pdb_approvals db @ [a]\<rparr>)))"
| wf_invalidate: "find_plan pid db = Some r \<Longrightarrow> cp_status r \<in> {CP_PENDING_APPROVAL, CP_APPROVED}
    \<Longrightarrow> workflow_step pf db (plan_event pf rt actor q ty payload (update_plan pid (\<lambda>p. (set_status CP_INVALIDATED at p)
         \<lparr>cp_invalidated_at := Some at, cp_invalidation_reason := Some reason\<rparr>) db))"
| wf_export: "find_plan pid db = Some r \<Longrightarrow> cp_status r = CP_APPROVED \<Longrightarrow> changes_for pf pid db = Inr cs
    \<Longrightarrow> cp_approved_plan_digest r = Some (plan_digest (pf_sha pf) (r\<lparr>cp_changes := cs\<rparr>))
    \<Longrightarrow> pe_plan_id x = pid \<Longrightarrow> pe_exported_by_subject x \<noteq> cp_requested_by_subject r
    \<Longrightarrow> Some (pe_exported_by_subject x) \<noteq> cp_approved_by_subject r
    \<Longrightarrow> pe_signature x = pf_hmac pf key (canonical_json (pe_document x)) \<Longrightarrow> key \<noteq> []
    \<Longrightarrow> workflow_step pf db (plan_event pf rt actor q ty payload
         (update_plan pid (\<lambda>p. (set_status CP_EXPORTED at p)\<lparr>cp_exported_at := Some at\<rparr>)
           (db\<lparr>pdb_exports := pdb_exports db @ [x]\<rparr>)))"
| wf_cancel: "find_plan pid db = Some r \<Longrightarrow> CP_CANCELED \<in> set (PLAN_TRANSITIONS (cp_status r))
    \<Longrightarrow> workflow_step pf db (plan_event pf rt actor q ty payload (update_plan pid (\<lambda>p. (set_status CP_CANCELED at p)
         \<lparr>cp_canceled_at := Some at, cp_canceled_by_subject := Some who\<rparr>) db))"

inductive_cases workflow_stepE [consumes 1]: "workflow_step pf db db'"

text \<open>What the service can do to the state: any operation, with any arguments.\<close>

inductive service_step :: "platform \<Rightarrow> plan_db \<Rightarrow> plan_db \<Rightarrow> bool" for pf :: platform where
  sv_create: "service_step pf db (fst (create_plan pf rt actor title rationale changes campaign db))"
| sv_replace: "service_step pf db (fst (replace_changes pf rt actor pid changes db))"
| sv_simulate: "service_step pf db (fst (simulate pf rt actor pid db))"
| sv_submit: "service_step pf db (fst (submit pf rt actor pid db))"
| sv_decide: "service_step pf db (fst (decide pf rt actor pid decision rationale db))"
| sv_export: "service_step pf db (fst (export pf rt actor pid db))"
| sv_cancel: "service_step pf db (fst (cancel pf rt actor pid reason db))"

lemma commit_state: "fst (commit db r) = (case r of Inl e \<Rightarrow> db | Inr x \<Rightarrow> fst x)"
  by (simp add: commit_def split: sum.split prod.split)

lemma commit_and_read_state: "fst (commit_and_read pf pid db r) = (case r of Inl e \<Rightarrow> db | Inr db' \<Rightarrow> db')"
  by (simp add: commit_and_read_def split: sum.split)

lemma find_plan_id: "find_plan pid db = Some r \<Longrightarrow> cp_plan_id r = pid"
  by (auto simp: find_plan_def find_Some_iff)

lemma get_plan_Inr:
  "get_plan pf pid db = Inr plan \<longleftrightarrow> (\<exists>r cs. find_plan pid db = Some r \<and> changes_for pf pid db = Inr cs \<and> plan = r\<lparr>cp_changes := cs\<rparr>)"
  by (auto simp: get_plan_def result_simps split: option.splits)

lemma with_plan_step:
  assumes "\<And>r cs. find_plan pid db = Some r \<Longrightarrow> cp_plan_id r = pid \<Longrightarrow> changes_for pf pid db = Inr cs
    \<Longrightarrow> workflow_step pf db (fst (f (r\<lparr>cp_changes := cs\<rparr>) db))"
  shows "workflow_step pf db (fst (with_plan pf pid f db))"
proof (cases "get_plan pf pid db")
  case (Inr plan)
  then obtain r cs where "find_plan pid db = Some r" "changes_for pf pid db = Inr cs" "plan = r\<lparr>cp_changes := cs\<rparr>"
    by (auto simp: get_plan_Inr)
  with assms [of r cs] find_plan_id [of pid db r] Inr show ?thesis by (simp add: with_plan_def)
qed (simp add: with_plan_def wf_none)

lemma insert_changes_rows:
  assumes "insert_changes pf now pid cs db = Inr db'"
  shows "\<exists>rows. (\<forall>x \<in> set rows. sc_plan_id x = pid) \<and> db' = db\<lparr>pdb_changes := pdb_changes db @ rows\<rparr>"
proof -
  obtain rows where rows: "res_map (change_values (pf_sha pf) (pf_iso pf) pid now) cs = Inr rows"
      "db' = db\<lparr>pdb_changes := pdb_changes db @ rows\<rparr>"
    using assms by (auto simp: insert_changes_def result_simps split: if_splits)
  have "sc_plan_id x = pid" if "change_values (pf_sha pf) (pf_iso pf) pid now c = Inr x" for c x
    using that by (auto simp: change_values_def result_simps)
  with res_map_Inr [OF rows(1)] have "\<forall>x \<in> set rows. sc_plan_id x = pid"
    by (induction rule: list_all2_induct) auto
  with rows(2) show ?thesis by blast
qed

lemma create_plan_step: "workflow_step pf db (fst (create_plan pf rt actor title rationale changes campaign db))"
proof (cases "create_plan pf rt actor title rationale changes campaign db")
  case (Pair db' res)
  show ?thesis
  proof (cases "db' = db")
    case False
    then obtain p db1 db2 payload where p: "insert_plan p db = Inr db1" "cp_status p = CP_DRAFT" "cp_approved_by_subject p = None"
        "insert_changes pf (rt_now rt) (cp_plan_id p) (cp_changes p) db1 = Inr db2"
        "db' = plan_event pf rt actor p GE_PLAN_CREATED payload db2"
      using Pair by (auto simp: create_plan_def commit_def Let_def result_simps split: sum.splits)
    obtain rows where rows: "\<forall>x \<in> set rows. sc_plan_id x = cp_plan_id p" "db2 = db1\<lparr>pdb_changes := pdb_changes db1 @ rows\<rparr>"
      using insert_changes_rows [OF p(4)] by blast
    have db1: "find_plan (cp_plan_id p) db = None" "db1 = db\<lparr>pdb_plans := pdb_plans db @ [p\<lparr>cp_changes := []\<rparr>]\<rparr>"
      using p(1) by (auto simp: insert_plan_def split: if_splits)
    show ?thesis unfolding Pair fst_conv p(5) rows(2) db1(2)
      using wf_create [of "p\<lparr>cp_changes := []\<rparr>" db rows pf rt actor p GE_PLAN_CREATED payload] db1(1) p(2,3) rows(1) by simp
  qed (simp add: Pair wf_none)
qed

lemma replace_changes_step: "workflow_step pf db (fst (replace_changes pf rt actor pid changes db))"
  unfolding replace_changes_def
proof (rule with_plan_step)
  fix r cs assume r: "find_plan pid db = Some r" "cp_plan_id r = pid" "changes_for pf pid db = Inr cs"
  let ?plan = "r\<lparr>cp_changes := cs\<rparr>"
  show "workflow_step pf db (fst (replace_changes_on pf rt actor changes ?plan db))"
  proof (cases "fst (replace_changes_on pf rt actor changes ?plan db) = db")
    case False
    then obtain db1 where db1: "is_editable ?plan" "replace_change_rows pf (rt_now rt) pid (sort_key pc_sequence_index changes) db = Inr db1"
        "fst (replace_changes_on pf rt actor changes ?plan db) = clear_simulation pid (rt_now rt) db1"
      using r(2) by (auto simp: replace_changes_on_def commit_and_read_state result_simps split: sum.splits if_splits)
    obtain rows where rows: "\<forall>x \<in> set rows. sc_plan_id x = pid"
        "db1 = db\<lparr>pdb_changes := filter (\<lambda>x. sc_plan_id x \<noteq> pid) (pdb_changes db) @ rows\<rparr>"
      using insert_changes_rows [OF db1(2) [unfolded replace_change_rows_def]] by auto
    have "cp_status r = CP_DRAFT" using db1(1) by (simp add: is_editable_def EDITABLE_STATUSES_def)
    then show ?thesis unfolding db1(3) rows(2) by (rule wf_rewrite [OF r(1) _ rows(1)])
  qed (simp add: wf_none)
qed

lemma simulate_step: "workflow_step pf db (fst (simulate pf rt actor pid db))"
  unfolding simulate_def
proof (rule with_plan_step)
  fix r cs assume r: "find_plan pid db = Some r" "cp_plan_id r = pid" "changes_for pf pid db = Inr cs"
  show "workflow_step pf db (fst (simulate_on pf rt actor (r\<lparr>cp_changes := cs\<rparr>) db))"
    unfolding simulate_on_def commit_and_read_state
    by (cases "cp_status r \<in> {CP_DRAFT, CP_PENDING_APPROVAL}"; cases "rt_simulate rt (r\<lparr>cp_changes := cs\<rparr>)")
      (use r wf_none wf_measure [OF r(1)] in simp_all)
qed

lemma submit_step: "workflow_step pf db (fst (submit pf rt actor pid db))"
  unfolding submit_def
proof (rule with_plan_step)
  fix r cs assume r: "find_plan pid db = Some r" "cp_plan_id r = pid" "changes_for pf pid db = Inr cs"
  let ?plan = "r\<lparr>cp_changes := cs\<rparr>"
  show "workflow_step pf db (fst (submit_on pf rt actor ?plan db))"
  proof (cases "fst (submit_on pf rt actor ?plan db) = db")
    case False
    then have st: "validate_transition (cp_status r) CP_PENDING_APPROVAL = Inr ()" "require_author actor ?plan = Inr ()"
        "has_current_simulation ?plan"
      by (auto simp: submit_on_def commit_and_read_state result_simps split: sum.splits if_splits)
    from False obtain payload where out: "fst (submit_on pf rt actor ?plan db) = plan_event pf rt actor ?plan GE_PLAN_SUBMITTED payload
          (update_plan pid (\<lambda>p. (set_status CP_PENDING_APPROVAL (rt_now rt) p)\<lparr>cp_submitted_at := Some (rt_now rt)\<rparr>) db)"
      using r(2) by (auto simp: submit_on_def commit_and_read_state result_simps split: sum.splits if_splits)
    have "cp_status r = CP_DRAFT" using st(1) by (cases "cp_status r") (simp_all add: validate_transition_def)
    moreover have "has_current_simulation r" using st(3) by (simp add: has_current_simulation_def)
    moreover have "act_subject actor = cp_requested_by_subject r" using st(2) by (simp add: require_author_def split: if_splits)
    ultimately show ?thesis unfolding out by (rule wf_submit [OF r(1)])
  qed (simp add: wf_none)
qed

lemma invalidate_step:
  assumes "find_plan pid db = Some r" "cp_status r \<in> {CP_PENDING_APPROVAL, CP_APPROVED}" "cp_plan_id plan = pid"
  shows "workflow_step pf db (invalidate pf rt actor plan reason db)"
  unfolding invalidate_def assms(3) by (rule wf_invalidate [OF assms(1,2)])

lemma decide_step: "workflow_step pf db (fst (decide pf rt actor pid decision rationale db))"
  unfolding decide_def
proof (rule with_plan_step)
  fix r cs assume r: "find_plan pid db = Some r" "cp_plan_id r = pid" "changes_for pf pid db = Inr cs"
  let ?plan = "r\<lparr>cp_changes := cs\<rparr>"
  let ?out = "fst (decide_on pf rt actor decision rationale ?plan db)"
  show "workflow_step pf db ?out"
  proof (cases "cp_status r = CP_PENDING_APPROVAL \<and> act_subject actor \<noteq> cp_requested_by_subject r
      \<and> \<not> (decision = AD_REJECT \<and> stripped rationale = None) \<and> (\<exists>report. plan_preconditions pf rt ?plan = Inr report)")
    case False
    then have "?out = db" by (cases "plan_preconditions pf rt ?plan") (auto simp: decide_on_def)
    then show ?thesis by (simp add: wf_none)
  next
    case True
    then obtain report where ok: "cp_status r = CP_PENDING_APPROVAL" "act_subject actor \<noteq> cp_requested_by_subject r"
        "\<not> (decision = AD_REJECT \<and> stripped rationale = None)" "plan_preconditions pf rt ?plan = Inr report" by blast
    show ?thesis
    proof (cases "decision = AD_APPROVE \<and> \<not> report_satisfied report")
      case True
      then have "?out = invalidate pf rt actor ?plan (summarize_verdict report) db"
        using ok by (simp add: decide_on_def)
      then show ?thesis using invalidate_step [OF r(1), of ?plan] ok(1) r(2) by simp
    next
      case False
      let ?a = "\<lparr>ap_approval_id = rt_new_id rt, ap_plan_id = cp_plan_id ?plan, ap_decision = decision,
          ap_approver_subject = act_subject actor, ap_approver_display_name = act_display_name actor,
          ap_approver_roles = sort (act_roles actor), ap_decided_at = rt_now rt,
          ap_rationale = stripped rationale, ap_plan_digest = plan_digest (pf_sha pf) ?plan,
          ap_basis_token = prr_basis_token report, ap_simulation_id = cp_simulation_id ?plan\<rparr>"
      let ?payload = "[(''approval_id'', JStr (ap_approval_id ?a)), (''plan_digest'', JStr (ap_plan_digest ?a)),
          (''basis_token'', JStr (ap_basis_token ?a)), (''simulation_id'', opt_str (ap_simulation_id ?a)),
          (''rationale_present'', JBool (ap_rationale ?a \<noteq> None))]"
      let ?ty = "if decision = AD_APPROVE then GE_PLAN_APPROVED else GE_PLAN_REJECTED"
      have conds: "\<not> cp_status ?plan \<noteq> CP_PENDING_APPROVAL" "\<not> act_subject actor = cp_requested_by_subject ?plan"
          "cp_plan_id ?plan = pid" using ok(1,2) r(2) by simp_all
      have "?out = fst (commit_and_read pf pid db (res_bind (insert_approval ?a db) (\<lambda>db1. Inr
          (plan_event pf rt actor ?plan ?ty ?payload (update_plan pid (decision_update rt report ?a) db1)))))"
        unfolding decide_on_def if_not_P [OF conds(1)] if_not_P [OF conds(2)] if_not_P [OF ok(3)] ok(4) sum.case
          if_not_P [OF False] Let_def conds(3) by (rule refl)
      then have out: "?out = (case insert_approval ?a db of Inl e \<Rightarrow> db | Inr db1 \<Rightarrow> plan_event pf rt actor ?plan ?ty ?payload
          (update_plan pid (decision_update rt report ?a) db1))"
        unfolding commit_and_read_state by (cases "insert_approval ?a db") simp_all
      show ?thesis
      proof (cases "insert_approval ?a db")
        case (Inl e)
        then show ?thesis using out by (simp add: wf_none)
      next
        case (Inr db1)
        then have "db1 = db\<lparr>pdb_approvals := pdb_approvals db @ [?a]\<rparr>" by (simp add: insert_approval_def split: if_splits)
        with out Inr have out': "?out = plan_event pf rt actor ?plan ?ty ?payload
            (update_plan pid (decision_update rt report ?a) (db\<lparr>pdb_approvals := pdb_approvals db @ [?a]\<rparr>))" by simp
        show ?thesis unfolding out'
          by (rule wf_decide [OF r(1) ok(1) r(3)]) (use ok False r(2) in auto)
      qed
    qed
  qed
qed

lemma export_step: "workflow_step pf db (fst (export pf rt actor pid db))"
  unfolding export_def
proof (rule with_plan_step)
  fix r cs assume r: "find_plan pid db = Some r" "cp_plan_id r = pid" "changes_for pf pid db = Inr cs"
  let ?plan = "r\<lparr>cp_changes := cs\<rparr>"
  let ?out = "fst (export_on pf rt actor ?plan db)"
  show "workflow_step pf db ?out"
  proof (cases "cp_status r = CP_APPROVED \<and> approval_is_current (pf_sha pf) ?plan
      \<and> \<not> (act_subject actor = cp_requested_by_subject r \<or> Some (act_subject actor) = cp_approved_by_subject r)
      \<and> (\<exists>report. plan_preconditions pf rt ?plan = Inr report)")
    case False
    then have "?out = db" by (cases "plan_preconditions pf rt ?plan") (auto simp: export_on_def)
    then show ?thesis by (simp add: wf_none)
  next
    case True
    then obtain report where ok: "cp_status r = CP_APPROVED" "approval_is_current (pf_sha pf) ?plan"
        "act_subject actor \<noteq> cp_requested_by_subject r" "Some (act_subject actor) \<noteq> cp_approved_by_subject r"
        "plan_preconditions pf rt ?plan = Inr report" by blast
    have conds: "\<not> cp_status ?plan \<noteq> CP_APPROVED" "\<not> \<not> approval_is_current (pf_sha pf) ?plan"
        "\<not> (act_subject actor = cp_requested_by_subject ?plan \<or> Some (act_subject actor) = cp_approved_by_subject ?plan)"
        "cp_plan_id ?plan = pid" using ok r(2) by simp_all
    note unfolded = export_on_def if_not_P [OF conds(1)] if_not_P [OF conds(2)] if_not_P [OF conds(3)] ok(5) sum.case
    show ?thesis
    proof (cases "report_satisfied report")
      case False
      then have "?out = invalidate pf rt actor ?plan (summarize_verdict report) db"
        unfolding unfolded by simp
      then show ?thesis using invalidate_step [OF r(1), of ?plan] ok(1) r(2) by simp
    next
      case True
      let ?head = "if fst (events_for_chain (plan_chain pid) 1000 0 (pdb_events db)) = [] then None
          else Some (ev_digest (last (fst (events_for_chain (plan_chain pid) 1000 0 (pdb_events db)))))"
      let ?x = "\<lambda>sig kid. \<lparr>pe_export_id = rt_new_id rt, pe_plan_id = cp_plan_id ?plan,
          pe_exported_by_subject = act_subject actor, pe_exported_by_display_name = act_display_name actor,
          pe_exported_at = rt_now rt, pe_document = rt_document rt ?plan,
          pe_document_digest = digest_json (pf_sha pf) (rt_document rt ?plan), pe_signature = sig,
          pe_signature_key_id = kid, pe_basis_token = prr_basis_token report, pe_audit_head_digest = ?head\<rparr>"
      let ?payload = "\<lambda>sig kid. [(''export_id'', JStr (pe_export_id (?x sig kid))), (''document_digest'', JStr (pe_document_digest (?x sig kid))),
          (''signature_key_id'', JStr kid), (''basis_token'', JStr (pe_basis_token (?x sig kid))), (''performed_by_adg'', JBool False)]"
      have out: "?out = fst (commit db (res_bind (sign_document pf (rt_document rt ?plan) (rt_signing_key rt)) (\<lambda>(sig, kid).
          res_bind (insert_export (?x sig kid) db) (\<lambda>db1. Inr (plan_event pf rt actor ?plan GE_PLAN_EXPORTED (?payload sig kid)
            (update_plan pid (\<lambda>p. (set_status CP_EXPORTED (rt_now rt) p)\<lparr>cp_exported_at := Some (rt_now rt)\<rparr>) db1), ?x sig kid)))))"
        unfolding unfolded Let_def using True by (simp only: conds(4) not_True_eq_False if_False)
      show ?thesis
      proof (cases "rt_signing_key rt = []")
        case True
        then show ?thesis unfolding out by (simp add: sign_document_def commit_state wf_none)
      next
        case False
        let ?sig = "pf_hmac pf (rt_signing_key rt) (canonical_json (rt_document rt ?plan))"
        let ?kid = "key_id_for (pf_sha pf) (rt_signing_key rt)"
        have sign: "sign_document pf (rt_document rt ?plan) (rt_signing_key rt) = Inr (?sig, ?kid)"
          using False by (simp add: sign_document_def)
        show ?thesis
        proof (cases "insert_export (?x ?sig ?kid) db")
          case (Inl e)
          then show ?thesis unfolding out sign by (simp add: commit_state wf_none)
        next
          case (Inr db1)
          then have db1: "db1 = db\<lparr>pdb_exports := pdb_exports db @ [?x ?sig ?kid]\<rparr>"
            by (simp add: insert_export_def split: if_splits)
          have out': "?out = plan_event pf rt actor ?plan GE_PLAN_EXPORTED (?payload ?sig ?kid)
            (update_plan pid (\<lambda>p. (set_status CP_EXPORTED (rt_now rt) p)\<lparr>cp_exported_at := Some (rt_now rt)\<rparr>)
              (db\<lparr>pdb_exports := pdb_exports db @ [?x ?sig ?kid]\<rparr>))"
            unfolding out sign using Inr by (simp add: commit_state db1)
          have dig: "cp_approved_plan_digest r = Some (plan_digest (pf_sha pf) ?plan)"
            using ok(2) by (simp add: approval_is_current_def)
          show ?thesis unfolding out'
            by (rule wf_export [OF r(1) ok(1) r(3) dig, of _ "rt_signing_key rt"]) (use ok(3,4) r(2) False in simp_all)
        qed
      qed
    qed
  qed
qed

lemma cancel_step: "workflow_step pf db (fst (cancel pf rt actor pid reason db))"
  unfolding cancel_def
proof (rule with_plan_step)
  fix r cs assume r: "find_plan pid db = Some r" "cp_plan_id r = pid" "changes_for pf pid db = Inr cs"
  show "workflow_step pf db (fst (cancel_on pf rt actor reason (r\<lparr>cp_changes := cs\<rparr>) db))"
    unfolding cancel_on_def commit_and_read_state
    by (cases "CP_CANCELED \<in> set (PLAN_TRANSITIONS (cp_status r))")
      (use r wf_none wf_cancel [OF r(1)] in \<open>simp_all add: validate_transition_def\<close>)
qed

lemma service_step_is_workflow_step: "service_step pf db db' \<Longrightarrow> workflow_step pf db db'"
  by (induction rule: service_step.induct)
    (rule create_plan_step replace_changes_step simulate_step submit_step decide_step export_step cancel_step)+

subsection \<open>The lifecycle\<close>

lemma find_plan_event [simp]: "find_plan pid (plan_event pf rt actor q ty payload db) = find_plan pid db"
  by (simp add: find_plan_def plan_event_def)

lemma find_plan_other_tables [simp]:
  "find_plan pid (db\<lparr>pdb_changes := c\<rparr>) = find_plan pid db"
  "find_plan pid (db\<lparr>pdb_approvals := a\<rparr>) = find_plan pid db"
  "find_plan pid (db\<lparr>pdb_exports := x\<rparr>) = find_plan pid db"
  by (simp_all add: find_plan_def)

lemma find_plan_append:
  "find_plan pid (db\<lparr>pdb_plans := pdb_plans db @ [p]\<rparr>)
     = (case find_plan pid db of Some r \<Rightarrow> Some r | None \<Rightarrow> if cp_plan_id p = pid then Some p else None)"
proof -
  have "find P (xs @ ys) = (case find P xs of Some r \<Rightarrow> Some r | None \<Rightarrow> find P ys)" for P xs and ys :: "change_plan list"
    by (induction xs) auto
  then show ?thesis by (simp add: find_plan_def split: option.split)
qed

lemma find_plan_update:
  assumes "\<And>p. cp_plan_id (f p) = cp_plan_id p"
  shows "find_plan q (update_plan pid f db) = map_option (\<lambda>r. if q = pid then f r else r) (find_plan q db)"
proof -
  have "find (\<lambda>p. cp_plan_id p = q) (map (\<lambda>p. if cp_plan_id p = pid then f p else p) ps)
      = map_option (\<lambda>r. if q = pid then f r else r) (find (\<lambda>p. cp_plan_id p = q) ps)" for ps
    by (induction ps) (use assms in auto)
  then show ?thesis by (simp add: find_plan_def update_plan_def)
qed

lemma decision_update_id: "cp_plan_id (decision_update rt report a p) = cp_plan_id p"
  by (simp add: decision_update_def set_status_def)

lemma decision_update_status: "cp_status (decision_update rt report a p) = (if ap_decision a = AD_APPROVE then CP_APPROVED else CP_REJECTED)"
  by (simp add: decision_update_def set_status_def)

definition plan_status :: "uuid \<Rightarrow> plan_db \<Rightarrow> change_plan_status option" where
  "plan_status pid db = map_option cp_status (find_plan pid db)"

text \<open>What the lifecycle graph allows: stay, take an edge, or appear as a draft.\<close>

definition status_move :: "change_plan_status option \<Rightarrow> change_plan_status option \<Rightarrow> bool" where
  "status_move s t \<longleftrightarrow> (case s of None \<Rightarrow> t = None \<or> t = Some CP_DRAFT
     | Some now \<Rightarrow> t = Some now \<or> (\<exists>next \<in> set (PLAN_TRANSITIONS now). t = Some next))"

lemma status_move_refl [simp]: "status_move s s"
  by (simp add: status_move_def split: option.split)

lemma status_of_update:
  assumes "find_plan pid db = Some r" "\<And>p. cp_plan_id (f p) = cp_plan_id p" "\<And>p. cp_status (f p) = s"
    "s = cp_status r \<or> s \<in> set (PLAN_TRANSITIONS (cp_status r))"
  shows "status_move (plan_status q db) (plan_status q (update_plan pid f db))"
  using assms(1,3,4) unfolding plan_status_def find_plan_update [of f, OF assms(2)]
  by (cases "q = pid"; cases "find_plan q db") (auto simp: status_move_def)

lemma plan_status_simps [simp]:
  "plan_status q (plan_event pf rt actor p ty payload db) = plan_status q db"
  "plan_status q (db\<lparr>pdb_changes := c\<rparr>) = plan_status q db"
  "plan_status q (db\<lparr>pdb_approvals := a\<rparr>) = plan_status q db"
  "plan_status q (db\<lparr>pdb_exports := x\<rparr>) = plan_status q db"
  by (simp_all add: plan_status_def)

lemma plan_status_same:
  assumes "\<And>p. cp_plan_id (f p) = cp_plan_id p" "\<And>p. cp_status (f p) = cp_status p"
  shows "plan_status q (update_plan pid f db) = plan_status q db"
  unfolding plan_status_def find_plan_update [of f, OF assms(1)]
  using assms(2) by (cases "find_plan q db") simp_all

lemma workflow_moves_status: "workflow_step pf db db' \<Longrightarrow> status_move (plan_status q db) (plan_status q db')"
proof (induction rule: workflow_step.induct)
  case (wf_create p db rows rt actor q' ty payload)
  then show ?case
    by (simp add: plan_status_def find_plan_append status_move_def split: option.split)
next
  case (wf_rewrite pid db r rows at)
  then show ?case by (simp add: clear_simulation_def plan_status_same)
next
  case (wf_measure pid db r rt actor q ty payload sid token impact at)
  then show ?case by (simp add: attach_simulation_def plan_status_same)
next
  case (wf_submit pid db r actor rt q ty payload at)
  show ?case unfolding plan_status_simps
    by (rule status_of_update [OF wf_submit(1), of _ CP_PENDING_APPROVAL]) (simp_all add: set_status_def wf_submit(2))
next
  case (wf_decide pid db r cs a report rt actor q' ty payload rt')
  have "status_move (plan_status q (db\<lparr>pdb_approvals := pdb_approvals db @ [a]\<rparr>))
      (plan_status q (update_plan pid (decision_update rt' report a) (db\<lparr>pdb_approvals := pdb_approvals db @ [a]\<rparr>)))"
    by (rule status_of_update [of _ _ r _ "if ap_decision a = AD_APPROVE then CP_APPROVED else CP_REJECTED"])
      (simp_all add: wf_decide decision_update_id decision_update_status)
  then show ?case by simp
next
  case (wf_invalidate pid db r rt actor q ty payload reason at)
  show ?case unfolding plan_status_simps
    by (rule status_of_update [OF wf_invalidate(1), of _ CP_INVALIDATED]) (use wf_invalidate(2) in \<open>auto simp: set_status_def\<close>)
next
  case (wf_export pid db r cs x key rt actor q' ty payload at)
  have "status_move (plan_status q (db\<lparr>pdb_exports := pdb_exports db @ [x]\<rparr>))
      (plan_status q (update_plan pid (\<lambda>p. (set_status CP_EXPORTED at p)\<lparr>cp_exported_at := Some at\<rparr>)
        (db\<lparr>pdb_exports := pdb_exports db @ [x]\<rparr>)))"
    by (rule status_of_update [of _ _ r _ CP_EXPORTED]) (simp_all add: wf_export set_status_def)
  then show ?case by simp
next
  case (wf_cancel pid db r rt actor q ty payload who at)
  show ?case unfolding plan_status_simps
    by (rule status_of_update [OF wf_cancel(1), of _ CP_CANCELED]) (use wf_cancel(2) in \<open>auto simp: set_status_def\<close>)
qed simp

text \<open>
  C8. Every operation of the service, with any arguments and in any state, moves the status of every
  plan along an edge of \<open>PLAN_TRANSITIONS\<close> or leaves it; a plan appears only as a draft and never
  disappears. So a rejected, exported, invalidated or canceled plan stays what it is.
\<close>

theorem operations_follow_lifecycle:
  assumes "service_step pf db db'"
  shows "status_move (plan_status pid db) (plan_status pid db')
    \<and> (\<forall>s \<in> set TERMINAL_STATUSES. plan_status pid db = Some s \<longrightarrow> plan_status pid db' = Some s)"
proof -
  have move: "status_move (plan_status pid db) (plan_status pid db')"
    by (rule workflow_moves_status [OF service_step_is_workflow_step [OF assms]])
  moreover have "\<forall>s \<in> set TERMINAL_STATUSES. plan_status pid db = Some s \<longrightarrow> plan_status pid db' = Some s"
    using move by (auto simp: TERMINAL_STATUSES_def ALL_STATUSES_def status_move_def)
  ultimately show ?thesis by blast
qed

subsection \<open>Three people and one digest\<close>

lemma changes_for_frame [simp]:
  "changes_for pf q (plan_event pf rt actor p ty payload db) = changes_for pf q db"
  "changes_for pf q (update_plan pid f db) = changes_for pf q db"
  "changes_for pf q (db\<lparr>pdb_approvals := a\<rparr>) = changes_for pf q db"
  "changes_for pf q (db\<lparr>pdb_exports := x\<rparr>) = changes_for pf q db"
  "changes_for pf q (db\<lparr>pdb_plans := ps\<rparr>) = changes_for pf q db"
  by (simp_all add: changes_for_def plan_event_def update_plan_def)

lemma changes_for_others:
  assumes "\<forall>x \<in> set rows. sc_plan_id x = pid" "q \<noteq> pid"
  shows "changes_for pf q (db\<lparr>pdb_plans := ps, pdb_changes := pdb_changes db @ rows\<rparr>) = changes_for pf q db"
    "changes_for pf q (db\<lparr>pdb_changes := filter (\<lambda>x. sc_plan_id x \<noteq> pid) (pdb_changes db) @ rows\<rparr>) = changes_for pf q db"
proof -
  have none: "filter (\<lambda>r. sc_plan_id r = q) rows = []" using assms by (auto simp: filter_empty_conv)
  have kept: "filter (\<lambda>r. sc_plan_id r = q) (filter (\<lambda>x. sc_plan_id x \<noteq> pid) cs) = filter (\<lambda>r. sc_plan_id r = q) cs" for cs
    using assms(2) by (induction cs) auto
  show "changes_for pf q (db\<lparr>pdb_plans := ps, pdb_changes := pdb_changes db @ rows\<rparr>) = changes_for pf q db"
    using none by (simp add: changes_for_def)
  show "changes_for pf q (db\<lparr>pdb_changes := filter (\<lambda>x. sc_plan_id x \<noteq> pid) (pdb_changes db) @ rows\<rparr>) = changes_for pf q db"
  proof -
    have "pdb_changes (db\<lparr>pdb_changes := filter (\<lambda>x. sc_plan_id x \<noteq> pid) (pdb_changes db) @ rows\<rparr>)
        = filter (\<lambda>x. sc_plan_id x \<noteq> pid) (pdb_changes db) @ rows" by simp
    then show ?thesis unfolding changes_for_def by (simp only: filter_append none kept append_Nil2)
  qed
qed

lemma pdb_frame [simp]:
  "pdb_approvals (plan_event pf rt actor p ty payload db) = pdb_approvals db"
  "pdb_exports (plan_event pf rt actor p ty payload db) = pdb_exports db"
  "pdb_approvals (update_plan pid f db) = pdb_approvals db"
  "pdb_exports (update_plan pid f db) = pdb_exports db"
  "pdb_events (update_plan pid f db) = pdb_events db"
  "pdb_plans (plan_event pf rt actor p ty payload db) = pdb_plans db"
  "pdb_plans (update_plan pid f db) = map (\<lambda>p. if cp_plan_id p = pid then f p else p) (pdb_plans db)"
  by (simp_all add: plan_event_def update_plan_def)

definition approval_backed :: "platform \<Rightarrow> plan_db \<Rightarrow> change_plan \<Rightarrow> bool" where
  "approval_backed pf db r \<longleftrightarrow> (\<exists>a \<in> set (pdb_approvals db). \<exists>cs. ap_plan_id a = cp_plan_id r
     \<and> ap_decision a = AD_APPROVE \<and> cp_approved_by_subject r = Some (ap_approver_subject a)
     \<and> ap_approver_subject a \<noteq> cp_requested_by_subject r
     \<and> changes_for pf (cp_plan_id r) db = Inr cs \<and> cp_approved_plan_digest r = Some (ap_plan_digest a)
     \<and> ap_plan_digest a = plan_digest (pf_sha pf) (r\<lparr>cp_changes := cs\<rparr>))"

definition export_backed :: "platform \<Rightarrow> plan_db \<Rightarrow> change_plan \<Rightarrow> bool" where
  "export_backed pf db r \<longleftrightarrow> (\<exists>x \<in> set (pdb_exports db). \<exists>key. pe_plan_id x = cp_plan_id r
     \<and> pe_exported_by_subject x \<noteq> cp_requested_by_subject r \<and> Some (pe_exported_by_subject x) \<noteq> cp_approved_by_subject r
     \<and> key \<noteq> [] \<and> pe_signature x = pf_hmac pf key (canonical_json (pe_document x)))"

definition plan_backed :: "platform \<Rightarrow> plan_db \<Rightarrow> change_plan \<Rightarrow> bool" where
  "plan_backed pf db r \<longleftrightarrow> (cp_status r \<in> {CP_APPROVED, CP_EXPORTED} \<longrightarrow> approval_backed pf db r)
     \<and> (cp_status r = CP_EXPORTED \<longrightarrow> export_backed pf db r)"

definition all_backed :: "platform \<Rightarrow> plan_db \<Rightarrow> bool" where
  "all_backed pf db \<longleftrightarrow> (\<forall>pid r. find_plan pid db = Some r \<longrightarrow> plan_backed pf db r)"

text \<open>Columns an update leaves alone: whose plan it is, who approved what, and what the digest covers.\<close>

definition same_claims :: "change_plan \<Rightarrow> change_plan \<Rightarrow> bool" where
  "same_claims r s \<longleftrightarrow> cp_plan_id s = cp_plan_id r \<and> cp_requested_by_subject s = cp_requested_by_subject r
     \<and> cp_approved_by_subject s = cp_approved_by_subject r \<and> cp_approved_plan_digest s = cp_approved_plan_digest r
     \<and> (\<forall>cs. plan_fields (s\<lparr>cp_changes := cs\<rparr>) = plan_fields (r\<lparr>cp_changes := cs\<rparr>))"

lemma same_claims_refl [simp]: "same_claims r r"
  by (simp add: same_claims_def)

lemma approval_backed_mono:
  assumes "approval_backed pf db r" "set (pdb_approvals db) \<subseteq> set (pdb_approvals db')"
    "changes_for pf (cp_plan_id r) db' = changes_for pf (cp_plan_id r) db" "same_claims r s"
  shows "approval_backed pf db' s"
proof -
  have "plan_digest (pf_sha pf) (s\<lparr>cp_changes := cs\<rparr>) = plan_digest (pf_sha pf) (r\<lparr>cp_changes := cs\<rparr>)" for cs
    using assms(4) by (simp add: plan_digest_def plan_material_def same_claims_def)
  moreover have ids: "cp_plan_id s = cp_plan_id r" "cp_requested_by_subject s = cp_requested_by_subject r"
      "cp_approved_by_subject s = cp_approved_by_subject r" "cp_approved_plan_digest s = cp_approved_plan_digest r"
    using assms(4) by (simp_all add: same_claims_def)
  ultimately show ?thesis using assms(1,2) unfolding approval_backed_def ids assms(3) by auto
qed

lemma export_backed_mono:
  assumes "export_backed pf db r" "set (pdb_exports db) \<subseteq> set (pdb_exports db')" "same_claims r s"
  shows "export_backed pf db' s"
proof -
  have ids: "cp_plan_id s = cp_plan_id r" "cp_requested_by_subject s = cp_requested_by_subject r"
      "cp_approved_by_subject s = cp_approved_by_subject r" using assms(3) by (simp_all add: same_claims_def)
  show ?thesis using assms(1,2) unfolding export_backed_def ids by auto
qed

lemma plan_backed_mono:
  assumes "plan_backed pf db r" "set (pdb_approvals db) \<subseteq> set (pdb_approvals db')" "set (pdb_exports db) \<subseteq> set (pdb_exports db')"
    "cp_status r \<in> {CP_APPROVED, CP_EXPORTED} \<longrightarrow> changes_for pf (cp_plan_id r) db' = changes_for pf (cp_plan_id r) db"
  shows "plan_backed pf db' r"
  using assms approval_backed_mono [of pf db r db' r] export_backed_mono [of pf db r db' r] unfolding plan_backed_def by auto

lemma not_yet_approved: "cp_status r \<notin> {CP_APPROVED, CP_EXPORTED} \<Longrightarrow> plan_backed pf db r"
  by (simp add: plan_backed_def)

text \<open>An update of one plan's row: the others keep theirs.\<close>

lemma all_backed_update:
  assumes inv: "all_backed pf db" and r: "find_plan pid db = Some r" and id: "\<And>p. cp_plan_id (f p) = cp_plan_id p"
    and sub: "set (pdb_approvals db) \<subseteq> set (pdb_approvals db')" "set (pdb_exports db) \<subseteq> set (pdb_exports db')"
    and ch: "\<And>q. changes_for pf q db' = changes_for pf q db" and plans: "pdb_plans db' = pdb_plans (update_plan pid f db)"
    and ok: "plan_backed pf db' (f r)"
  shows "all_backed pf db'"
  unfolding all_backed_def
proof (intro allI impI)
  fix q s assume "find_plan q db' = Some s"
  then have "map_option (\<lambda>r. if q = pid then f r else r) (find_plan q db) = Some s"
    using plans unfolding find_plan_update [of f, OF id, symmetric] by (simp add: find_plan_def)
  then obtain r' where r': "find_plan q db = Some r'" "s = (if q = pid then f r' else r')" by auto
  show "plan_backed pf db' s"
  proof (cases "q = pid")
    case True
    with r r' ok show ?thesis by simp
  next
    case False
    then have "s = r'" "plan_backed pf db r'" using r' inv by (simp_all add: all_backed_def)
    then show ?thesis using plan_backed_mono [OF _ sub] ch by blast
  qed
qed

lemma workflow_keeps_backing: "workflow_step pf db db' \<Longrightarrow> all_backed pf db \<Longrightarrow> all_backed pf db'"
proof (induction rule: workflow_step.induct)
  case (wf_create p db rows rt actor q' ty payload)
  show ?case unfolding all_backed_def
  proof (intro allI impI)
    fix q s assume "find_plan q (plan_event pf rt actor q' ty payload
        (db\<lparr>pdb_plans := pdb_plans db @ [p], pdb_changes := pdb_changes db @ rows\<rparr>)) = Some s"
    then have s: "find_plan q db = Some s \<or> s = p" "find_plan q db = Some s \<longrightarrow> q \<noteq> cp_plan_id p"
      using wf_create(1) by (auto simp: find_plan_append split: option.splits if_splits)
    show "plan_backed pf (plan_event pf rt actor q' ty payload
        (db\<lparr>pdb_plans := pdb_plans db @ [p], pdb_changes := pdb_changes db @ rows\<rparr>)) s"
    proof (cases "s = p")
      case True
      then show ?thesis using wf_create(2) by (simp add: not_yet_approved)
    next
      case False
      then have q: "find_plan q db = Some s" "cp_plan_id s = q" "q \<noteq> cp_plan_id p" using s find_plan_id by auto
      have "plan_backed pf db s" using q(1) wf_create.prems by (simp add: all_backed_def)
      then show ?thesis
        by (rule plan_backed_mono) (simp_all add: changes_for_others(1) [OF wf_create(3) q(3)] q(2))
    qed
  qed
next
  case (wf_rewrite pid db r rows at)
  let ?db1 = "db\<lparr>pdb_changes := filter (\<lambda>x. sc_plan_id x \<noteq> pid) (pdb_changes db) @ rows\<rparr>"
  show ?case unfolding all_backed_def
  proof (intro allI impI)
    fix q s assume "find_plan q (clear_simulation pid at ?db1) = Some s"
    then obtain s' where s': "find_plan q db = Some s'" "cp_status s = cp_status s'" "q \<noteq> pid \<Longrightarrow> s = s'"
      unfolding clear_simulation_def by (subst (asm) find_plan_update) (auto split: if_splits)
    show "plan_backed pf (clear_simulation pid at ?db1) s"
    proof (cases "q = pid")
      case True
      then show ?thesis using s' wf_rewrite(1,2) by (simp add: not_yet_approved)
    next
      case False
      then have s: "find_plan q db = Some s" using s' by simp
      then have backed: "plan_backed pf db s" using wf_rewrite.prems unfolding all_backed_def by blast
      have id: "cp_plan_id s = q" by (rule find_plan_id [OF s])
      have rows: "changes_for pf q (clear_simulation pid at ?db1) = changes_for pf q db"
        unfolding clear_simulation_def changes_for_frame by (rule changes_for_others(2) [OF wf_rewrite(3) False])
      show ?thesis
        by (rule plan_backed_mono [OF backed]) (simp_all add: id rows, simp_all add: clear_simulation_def)
    qed
  qed
next
  case (wf_measure pid db r rt actor q ty payload sid token impact at)
  show ?case
    by (rule all_backed_update [OF wf_measure.prems wf_measure(1), of "\<lambda>p. p\<lparr>cp_simulation_id := Some sid,
         cp_simulation_basis_token := Some token, cp_impact_summary := impact, cp_updated_at := Some at\<rparr>"])
      (use wf_measure(2) in \<open>auto simp: attach_simulation_def plan_event_def update_plan_def changes_for_def plan_backed_def\<close>)
next
  case (wf_submit pid db r actor rt q ty payload at)
  show ?case
    by (rule all_backed_update [OF wf_submit.prems wf_submit(1), of "\<lambda>p. (set_status CP_PENDING_APPROVAL at p)\<lparr>cp_submitted_at := Some at\<rparr>"])
      (simp_all add: set_status_def plan_event_def update_plan_def changes_for_def plan_backed_def)
next
  case (wf_decide pid db r cs a report rt actor q ty payload rt')
  let ?db' = "plan_event pf rt actor q ty payload (update_plan pid (decision_update rt' report a) (db\<lparr>pdb_approvals := pdb_approvals db @ [a]\<rparr>))"
  have "plan_backed pf ?db' (decision_update rt' report a r)"
  proof (cases "ap_decision a = AD_APPROVE")
    case True
    have "plan_fields ((decision_update rt' report a r)\<lparr>cp_changes := cs\<rparr>) = plan_fields (r\<lparr>cp_changes := cs\<rparr>)"
      by (simp add: decision_update_def set_status_def plan_fields_def)
    then have "approval_backed pf ?db' (decision_update rt' report a r)"
      using True wf_decide(3-6) find_plan_id [OF wf_decide(1)]
      by (auto simp: approval_backed_def decision_update_def set_status_def plan_digest_def plan_material_def)
    then show ?thesis by (simp add: plan_backed_def decision_update_status)
  qed (simp add: plan_backed_def decision_update_status)
  note backed = this
  show ?case
    by (rule all_backed_update [OF wf_decide.prems wf_decide(1) decision_update_id _ _ _ _ backed]) auto
next
  case (wf_invalidate pid db r rt actor q ty payload reason at)
  show ?case
    by (rule all_backed_update [OF wf_invalidate.prems wf_invalidate(1), of "\<lambda>p. (set_status CP_INVALIDATED at p)
         \<lparr>cp_invalidated_at := Some at, cp_invalidation_reason := Some reason\<rparr>"])
      (simp_all add: set_status_def plan_event_def update_plan_def changes_for_def plan_backed_def)
next
  case (wf_export pid db r cs x key rt actor q ty payload at)
  let ?f = "\<lambda>p. (set_status CP_EXPORTED at p)\<lparr>cp_exported_at := Some at\<rparr>"
  let ?db' = "plan_event pf rt actor q ty payload (update_plan pid ?f (db\<lparr>pdb_exports := pdb_exports db @ [x]\<rparr>))"
  have same: "same_claims r (?f r)" by (simp add: same_claims_def set_status_def plan_fields_def)
  have "approval_backed pf db r" using wf_export.prems wf_export(1,2) by (auto simp: all_backed_def plan_backed_def)
  then have "approval_backed pf ?db' (?f r)" by (rule approval_backed_mono [OF _ _ _ same]) simp_all
  moreover have "export_backed pf ?db' (?f r)"
    using wf_export(5-9) find_plan_id [OF wf_export(1)] by (auto simp: export_backed_def set_status_def)
  ultimately have "plan_backed pf ?db' (?f r)" by (simp add: plan_backed_def)
  note backed = this
  show ?case
    by (rule all_backed_update [where f = ?f, OF wf_export.prems wf_export(1) _ _ _ _ _ backed])
      (auto simp: set_status_def)
next
  case (wf_cancel pid db r rt actor q ty payload who at)
  show ?case
    by (rule all_backed_update [OF wf_cancel.prems wf_cancel(1), of "\<lambda>p. (set_status CP_CANCELED at p)
         \<lparr>cp_canceled_at := Some at, cp_canceled_by_subject := Some who\<rparr>"])
      (simp_all add: set_status_def plan_event_def update_plan_def changes_for_def plan_backed_def)
qed simp

inductive reachable_db :: "platform \<Rightarrow> plan_db \<Rightarrow> bool" for pf :: platform where
  rc_start: "audit_table (pf_sha pf) (pf_iso pf) events
    \<Longrightarrow> reachable_db pf \<lparr>pdb_plans = [], pdb_changes = [], pdb_approvals = [], pdb_exports = [], pdb_events = events\<rparr>"
| rc_step: "reachable_db pf db \<Longrightarrow> service_step pf db db' \<Longrightarrow> reachable_db pf db'"

lemma reachable_backed: "reachable_db pf db \<Longrightarrow> all_backed pf db"
proof (induction rule: reachable_db.induct)
  case (rc_start events)
  then show ?case by (simp add: all_backed_def find_plan_def)
next
  case (rc_step db db')
  show ?case by (rule workflow_keeps_backing [OF service_step_is_workflow_step [OF rc_step(2)] rc_step.IH])
qed

text \<open>
  C9. An exported plan has been through three pairs of hands. In every state the service can reach,
  a plan whose status is exported has a recorded approval by somebody other than its requestor, of
  exactly the digest the plan has now, and a signed export made by somebody who is neither.
\<close>

theorem exported_means_three_people:
  assumes "reachable_db pf db" "find_plan pid db = Some r" "cp_status r = CP_EXPORTED"
  shows "\<exists>a \<in> set (pdb_approvals db). \<exists>x \<in> set (pdb_exports db). \<exists>plan. get_plan pf pid db = Inr plan
    \<and> ap_plan_id a = pid \<and> pe_plan_id x = pid \<and> ap_decision a = AD_APPROVE
    \<and> distinct [cp_requested_by_subject r, ap_approver_subject a, pe_exported_by_subject x]
    \<and> ap_plan_digest a = plan_digest (pf_sha pf) plan \<and> cp_approved_plan_digest r = Some (ap_plan_digest a)
    \<and> (\<exists>key. key \<noteq> [] \<and> pe_signature x = pf_hmac pf key (canonical_json (pe_document x)))"
proof -
  have id: "cp_plan_id r = pid" by (rule find_plan_id [OF assms(2)])
  have "plan_backed pf db r" using reachable_backed [OF assms(1)] assms(2) by (auto simp: all_backed_def)
  then have b: "approval_backed pf db r" "export_backed pf db r" using assms(3) by (simp_all add: plan_backed_def)
  obtain a cs where a: "a \<in> set (pdb_approvals db)" "ap_plan_id a = pid" "ap_decision a = AD_APPROVE"
      "cp_approved_by_subject r = Some (ap_approver_subject a)" "ap_approver_subject a \<noteq> cp_requested_by_subject r"
      "changes_for pf pid db = Inr cs" "cp_approved_plan_digest r = Some (ap_plan_digest a)"
      "ap_plan_digest a = plan_digest (pf_sha pf) (r\<lparr>cp_changes := cs\<rparr>)"
    using b(1) id unfolding approval_backed_def by auto
  obtain x key where x: "x \<in> set (pdb_exports db)" "pe_plan_id x = pid" "pe_exported_by_subject x \<noteq> cp_requested_by_subject r"
      "Some (pe_exported_by_subject x) \<noteq> cp_approved_by_subject r" "key \<noteq> []"
      "pe_signature x = pf_hmac pf key (canonical_json (pe_document x))"
    using b(2) id unfolding export_backed_def by auto
  have "get_plan pf pid db = Inr (r\<lparr>cp_changes := cs\<rparr>)" using assms(2) a(6) by (simp add: get_plan_def)
  moreover have "distinct [cp_requested_by_subject r, ap_approver_subject a, pe_exported_by_subject x]"
    using a(4,5) x(3,4) by auto
  ultimately show ?thesis using a x by blast
qed

lemma workflow_keeps_trail:
  "workflow_step pf db db' \<Longrightarrow> audit_table (pf_sha pf) (pf_iso pf) (pdb_events db) \<Longrightarrow> audit_table (pf_sha pf) (pf_iso pf) (pdb_events db')"
  by (induction rule: workflow_step.induct)
    (simp_all add: plan_event_def audit_append clear_simulation_def attach_simulation_def update_plan_def)

lemma reachable_trail: "reachable_db pf db \<Longrightarrow> audit_table (pf_sha pf) (pf_iso pf) (pdb_events db)"
  by (induction rule: reachable_db.induct) (auto intro: workflow_keeps_trail service_step_is_workflow_step)

text \<open>A run of the service on one plan: written by alice, decided by bob, exported by carol.\<close>

definition run_pf :: platform where
  "run_pf = \<lparr>pf_sha = (\<lambda>_. ''d''), pf_hmac = (\<lambda>_ _. ''m''), pf_iso = plain_iso, pf_parse = plain_parse\<rparr>"

definition run_rt :: "instant \<Rightarrow> uuid \<Rightarrow> string \<Rightarrow> runtime" where
  "run_rt now i token = \<lparr>rt_now = now, rt_new_id = i, rt_event_id = i, rt_basis_token = token, rt_basis_run_id = None,
     rt_observed = (\<lambda>_ _. Some \<lparr>os_target_observed = True, os_entry = Some sample_entry, os_membership_present = None\<rparr>),
     rt_simulate = (\<lambda>_. Inr \<lparr>sim_id = i, sim_basis_token = token, sim_summary = JObj [], sim_complete = True, sim_inert = False\<rparr>),
     rt_document = (\<lambda>_. JObj []), rt_signing_key = ''k''\<rparr>"

definition person :: "string \<Rightarrow> actor" where
  "person s = \<lparr>act_subject = s, act_display_name = None, act_roles = []\<rparr>"

definition run_0 :: plan_db where
  "run_0 = \<lparr>pdb_plans = [], pdb_changes = [], pdb_approvals = [], pdb_exports = [], pdb_events = []\<rparr>"

definition run_created :: plan_db where
  "run_created = fst (create_plan run_pf (run_rt 1 ''p1'' ''b1'') (person ''alice'') ''Narrow'' ''review'' [sample_change] None run_0)"

definition run_submitted :: plan_db where
  "run_submitted = fst (submit run_pf (run_rt 3 ''e3'' ''b1'') (person ''alice'') ''p1''
     (fst (simulate run_pf (run_rt 2 ''s1'' ''b1'') (person ''alice'') ''p1'' run_created)))"

definition run_approved :: plan_db where
  "run_approved = fst (decide run_pf (run_rt 4 ''a1'' ''b1'') (person ''bob'') ''p1'' AD_APPROVE None run_submitted)"

definition run_exported :: plan_db where
  "run_exported = fst (export run_pf (run_rt 5 ''x1'' ''b1'') (person ''carol'') ''p1'' run_approved)"

lemma run_reachable: "reachable_db run_pf run_submitted" "reachable_db run_pf run_approved" "reachable_db run_pf run_exported"
proof -
  have "reachable_db run_pf run_0" unfolding run_0_def by (rule rc_start [OF audit_empty])
  then have "reachable_db run_pf run_created" unfolding run_created_def by (rule rc_step [OF _ sv_create])
  then show s: "reachable_db run_pf run_submitted"
    unfolding run_submitted_def by (rule rc_step [OF rc_step [OF _ sv_simulate] sv_submit])
  then show a: "reachable_db run_pf run_approved" unfolding run_approved_def by (rule rc_step [OF _ sv_decide])
  then show "reachable_db run_pf run_exported" unfolding run_exported_def by (rule rc_step [OF _ sv_export])
qed

lemma run_exported_status: "plan_status ''p1'' run_exported = Some CP_EXPORTED" by code_simp

lemma run_submitted_status: "plan_status ''p1'' run_submitted = Some CP_PENDING_APPROVAL" by code_simp

lemma exported_means_three_people_witness:
  "\<exists>r. find_plan ''p1'' run_exported = Some r \<and> (\<exists>a \<in> set (pdb_approvals run_exported). \<exists>x \<in> set (pdb_exports run_exported).
     distinct [cp_requested_by_subject r, ap_approver_subject a, pe_exported_by_subject x])"
proof -
  obtain r where r: "find_plan ''p1'' run_exported = Some r" "cp_status r = CP_EXPORTED"
    using run_exported_status by (auto simp: plan_status_def)
  from exported_means_three_people [OF run_reachable(3) r] r(1) show ?thesis by blast
qed

text \<open>
  The trail holds: in every state the service can reach, the audit chain of every plan verifies
  and is as long as the number of its events, whatever operations failed or raced before.
\<close>

theorem plan_trail_verifies:
  assumes "reachable_db pf db"
  shows "cv_intact (verify_chain (pf_sha pf) (pf_iso pf) (chain_rows (plan_chain pid) (pdb_events db)))
    \<and> map ev_chain_index (chain_rows (plan_chain pid) (pdb_events db)) = [0..<length (chain_rows (plan_chain pid) (pdb_events db))]"
proof -
  have "scan_chain (pf_sha pf) (pf_iso pf) 0 None (chain_rows (plan_chain pid) (pdb_events db)) = None"
    by (rule in_orderD(2) [OF audit_table_in_order [OF reachable_trail [OF assms]]])
  then show ?thesis using scan_chain_indexes [of _ _ 0] by (simp add: verify_chain_intact_iff)
qed

lemma plan_trail_verifies_witness:
  "cv_intact (verify_chain (pf_sha run_pf) (pf_iso run_pf) (chain_rows (plan_chain ''p1'') (pdb_events run_exported)))"
  using plan_trail_verifies [OF run_reachable(3), of "''p1''"] by simp

lemma operations_follow_lifecycle_witness:
  "plan_status ''p1'' (fst (cancel run_pf (run_rt 6 ''e6'' ''b1'') (person ''alice'') ''p1'' None run_exported)) = Some CP_EXPORTED"
proof -
  have "service_step run_pf run_exported (fst (cancel run_pf (run_rt 6 ''e6'' ''b1'') (person ''alice'') ''p1'' None run_exported))"
    by (rule sv_cancel)
  from operations_follow_lifecycle [OF this, of "''p1''"] run_exported_status show ?thesis
    by (auto simp: TERMINAL_STATUSES_def ALL_STATUSES_def)
qed

subsection \<open>What stops an export\<close>

lemma get_plan_status: "get_plan pf pid db = Inr plan \<Longrightarrow> plan_status pid db = Some (cp_status plan) \<and> cp_plan_id plan = pid"
  using find_plan_id by (fastforce simp: get_plan_Inr plan_status_def)

lemma status_after_update:
  assumes "plan_status pid db \<noteq> None" "\<And>p. cp_plan_id (f p) = cp_plan_id p" "\<And>p. cp_status (f p) = s"
  shows "plan_status pid (update_plan pid f db) = Some s"
  using assms(1,3) unfolding plan_status_def find_plan_update [of f, OF assms(2)] by auto

text \<open>
  C35. An approved plan the estate has moved away from is not exported. Where its approval pins the
  digest it has now, the caller neither asked for nor approved it, and its preconditions were read and
  do not all hold, the caller gets a conflict, the plan is invalidated for good in the same
  transaction, the reason counts what moved, and nothing is signed: the exports are what they were.
  The checks on the approval and on the caller come first: without a current approval, or to the
  requestor or the approver, the export is refused and nothing at all changes.
\<close>

theorem stale_plan_is_invalidated:
  assumes "get_plan pf pid db = Inr plan" "cp_status plan = CP_APPROVED" "plan_preconditions pf rt plan = Inr report" "\<not> report_satisfied report"
  shows "(approval_is_current (pf_sha pf) plan \<and> act_subject actor \<noteq> cp_requested_by_subject plan
        \<and> Some (act_subject actor) \<noteq> cp_approved_by_subject plan \<longrightarrow>
        snd (export pf rt actor pid db) = Inl RemediationConflict
      \<and> plan_status pid (fst (export pf rt actor pid db)) = Some CP_INVALIDATED
      \<and> pdb_exports (fst (export pf rt actor pid db)) = pdb_exports db
      \<and> map_option cp_invalidation_reason (find_plan pid (fst (export pf rt actor pid db))) = Some (Some (summarize_verdict report)))
    \<and> (\<not> approval_is_current (pf_sha pf) plan \<longrightarrow> export pf rt actor pid db = (db, Inl RemediationConflict))
    \<and> (approval_is_current (pf_sha pf) plan \<and> (act_subject actor = cp_requested_by_subject plan
        \<or> Some (act_subject actor) = cp_approved_by_subject plan) \<longrightarrow> export pf rt actor pid db = (db, Inl RemediationForbidden))"
proof -
  have id: "plan_status pid db = Some CP_APPROVED" "cp_plan_id plan = pid" using get_plan_status [OF assms(1)] assms(2) by simp_all
  have run: "export pf rt actor pid db = export_on pf rt actor plan db" using assms(1) by (simp add: export_def with_plan_def)
  let ?db = "invalidate pf rt actor plan (summarize_verdict report) db"
  have out: "export pf rt actor pid db = (?db, Inl RemediationConflict)"
    if "approval_is_current (pf_sha pf) plan" "act_subject actor \<noteq> cp_requested_by_subject plan"
      "Some (act_subject actor) \<noteq> cp_approved_by_subject plan"
    using assms(2-4) that by (simp add: run export_on_def)
  obtain r where "find_plan pid db = Some r" using id(1) by (auto simp: plan_status_def)
  then have "map_option cp_invalidation_reason (find_plan pid ?db) = Some (Some (summarize_verdict report))"
    unfolding invalidate_def id(2) find_plan_event by (subst find_plan_update) (simp_all add: set_status_def)
  moreover have "plan_status pid ?db = Some CP_INVALIDATED"
    unfolding invalidate_def id(2) plan_status_simps by (rule status_after_update) (simp_all add: id(1) set_status_def)
  moreover have "pdb_exports ?db = pdb_exports db" by (simp add: invalidate_def)
  moreover have "\<not> approval_is_current (pf_sha pf) plan \<Longrightarrow> export pf rt actor pid db = (db, Inl RemediationConflict)"
    "approval_is_current (pf_sha pf) plan \<Longrightarrow> act_subject actor = cp_requested_by_subject plan
      \<or> Some (act_subject actor) = cp_approved_by_subject plan \<Longrightarrow> export pf rt actor pid db = (db, Inl RemediationForbidden)"
    using assms(2) by (auto simp: run export_on_def)
  ultimately show ?thesis using out by simp
qed

definition moved_rt :: runtime where
  "moved_rt = (run_rt 5 ''x1'' ''b2'')\<lparr>rt_observed := (\<lambda>_ _. None)\<rparr>"

lemma run_approved_plan: "\<exists>plan. get_plan run_pf ''p1'' run_approved = Inr plan \<and> approval_is_current (pf_sha run_pf) plan
    \<and> cp_requested_by_subject plan = ''alice'' \<and> cp_approved_by_subject plan = Some ''bob''
    \<and> (\<exists>report. plan_preconditions run_pf moved_rt plan = Inr report \<and> \<not> report_satisfied report)"
proof -
  have "(case get_plan run_pf ''p1'' run_approved of Inl e \<Rightarrow> False | Inr plan \<Rightarrow> approval_is_current (pf_sha run_pf) plan
    \<and> cp_requested_by_subject plan = ''alice'' \<and> cp_approved_by_subject plan = Some ''bob''
    \<and> (case plan_preconditions run_pf moved_rt plan of Inl e \<Rightarrow> False | Inr report \<Rightarrow> \<not> report_satisfied report))"
    by code_simp
  then show ?thesis by (auto split: sum.splits)
qed

lemma stale_plan_is_invalidated_witness:
  "snd (export run_pf moved_rt (person ''carol'') ''p1'' run_approved) = Inl RemediationConflict"
proof -
  obtain plan report where p: "get_plan run_pf ''p1'' run_approved = Inr plan" "approval_is_current (pf_sha run_pf) plan"
    "cp_requested_by_subject plan = ''alice''" "cp_approved_by_subject plan = Some ''bob''"
    "plan_preconditions run_pf moved_rt plan = Inr report" "\<not> report_satisfied report" using run_approved_plan by blast
  have "cp_status plan = CP_APPROVED" using p(2) by (simp add: approval_is_current_def)
  from stale_plan_is_invalidated [OF p(1) this p(5,6), of "person ''carol''"] show ?thesis by (simp add: person_def p(2-4))
qed

text \<open>
  C34. What an export that succeeds has checked: the plan was approved, the recorded approval is of the
  digest the plan has, every precondition held when it was re-read, the caller is neither the requestor
  nor the approver, and the signature stored is the keyed digest of the exported document under the
  deployment's key, which is not empty; so it verifies whenever that digest is not the empty text.
\<close>

theorem export_gates:
  assumes "snd (export pf rt actor pid db) = Inr x"
  shows "\<exists>plan report. get_plan pf pid db = Inr plan \<and> approval_is_current (pf_sha pf) plan
    \<and> plan_preconditions pf rt plan = Inr report \<and> report_satisfied report
    \<and> act_subject actor \<noteq> cp_requested_by_subject plan \<and> Some (act_subject actor) \<noteq> cp_approved_by_subject plan
    \<and> pe_exported_by_subject x = act_subject actor \<and> pe_document_digest x = digest_json (pf_sha pf) (pe_document x)
    \<and> rt_signing_key rt \<noteq> [] \<and> pe_signature x = pf_hmac pf (rt_signing_key rt) (canonical_json (pe_document x))
    \<and> (pf_hmac pf (rt_signing_key rt) (canonical_json (pe_document x)) \<noteq> []
        \<longrightarrow> verify_document pf (pe_document x) (pe_signature x) (rt_signing_key rt))
    \<and> plan_status pid (fst (export pf rt actor pid db)) = Some CP_EXPORTED"
proof -
  obtain plan where plan: "get_plan pf pid db = Inr plan" and on: "snd (export_on pf rt actor plan db) = Inr x"
      "fst (export pf rt actor pid db) = fst (export_on pf rt actor plan db)"
    using assms by (auto simp: export_def with_plan_def split: sum.splits)
  have id: "plan_status pid db = Some (cp_status plan)" "cp_plan_id plan = pid" using get_plan_status [OF plan] by simp_all
  from on(1) obtain report where g: "approval_is_current (pf_sha pf) plan" "act_subject actor \<noteq> cp_requested_by_subject plan"
      "Some (act_subject actor) \<noteq> cp_approved_by_subject plan" "plan_preconditions pf rt plan = Inr report" "report_satisfied report"
    by (auto simp: export_on_def split: if_splits sum.splits)
  have st: "cp_status plan = CP_APPROVED" using g(1) by (simp add: approval_is_current_def)
  let ?f = "\<lambda>p. (set_status CP_EXPORTED (rt_now rt) p)\<lparr>cp_exported_at := Some (rt_now rt)\<rparr>"
  have "pe_exported_by_subject x = act_subject actor \<and> pe_document_digest x = digest_json (pf_sha pf) (pe_document x)
      \<and> rt_signing_key rt \<noteq> [] \<and> pe_signature x = pf_hmac pf (rt_signing_key rt) (canonical_json (pe_document x))
      \<and> (\<exists>ty payload. fst (export_on pf rt actor plan db)
          = plan_event pf rt actor plan ty payload (update_plan pid ?f (db\<lparr>pdb_exports := pdb_exports db @ [x]\<rparr>)))"
    using on(1) st g id(2)
    by (auto simp: export_on_def Let_def commit_def sign_document_def insert_export_def result_simps split: sum.splits if_splits)
      (rule exI, rule exI, rule refl)+
  moreover have "plan_status pid (update_plan pid ?f (db\<lparr>pdb_exports := pdb_exports db @ [x]\<rparr>)) = Some CP_EXPORTED"
    by (rule status_after_update) (simp_all add: id(1) set_status_def)
  ultimately show ?thesis using plan g on(2) by (auto simp: verify_document_def)
qed

lemma export_gates_witness:
  "\<exists>x. snd (export run_pf (run_rt 5 ''x1'' ''b1'') (person ''carol'') ''p1'' run_approved) = Inr x
     \<and> plan_status ''p1'' run_exported = Some CP_EXPORTED"
proof -
  have "(case snd (export run_pf (run_rt 5 ''x1'' ''b1'') (person ''carol'') ''p1'' run_approved) of Inl e \<Rightarrow> False | Inr x \<Rightarrow> True)"
    by code_simp
  then obtain x where x: "snd (export run_pf (run_rt 5 ''x1'' ''b1'') (person ''carol'') ''p1'' run_approved) = Inr x"
    by (auto split: sum.splits)
  from export_gates [OF x] x show ?thesis unfolding run_exported_def by blast
qed

subsection \<open>What the workflow does not check\<close>

lemma decide_on_outcome:
  assumes "cp_status plan = CP_PENDING_APPROVAL" "act_subject actor \<noteq> cp_requested_by_subject plan"
    "decision = AD_REJECT \<longrightarrow> stripped why \<noteq> None" "plan_preconditions pf rt plan = Inr report"
    "decision = AD_APPROVE \<longrightarrow> report_satisfied report"
    "\<forall>b \<in> set (pdb_approvals db). ap_approval_id b \<noteq> rt_new_id rt
       \<and> (ap_plan_id b = cp_plan_id plan \<longrightarrow> ap_approver_subject b \<noteq> act_subject actor)"
  shows "\<exists>a ty payload. ap_decision a = decision \<and> ap_approval_id a = rt_new_id rt \<and> ap_plan_id a = cp_plan_id plan
    \<and> ap_approver_subject a = act_subject actor
    \<and> fst (decide_on pf rt actor decision why plan db) = plan_event pf rt actor plan ty payload
        (update_plan (cp_plan_id plan) (decision_update rt report a) (db\<lparr>pdb_approvals := pdb_approvals db @ [a]\<rparr>))"
proof -
  let ?a = "\<lparr>ap_approval_id = rt_new_id rt, ap_plan_id = cp_plan_id plan, ap_decision = decision,
      ap_approver_subject = act_subject actor, ap_approver_display_name = act_display_name actor,
      ap_approver_roles = sort (act_roles actor), ap_decided_at = rt_now rt,
      ap_rationale = stripped why, ap_plan_digest = plan_digest (pf_sha pf) plan,
      ap_basis_token = prr_basis_token report, ap_simulation_id = cp_simulation_id plan\<rparr>"
  have conds: "\<not> cp_status plan \<noteq> CP_PENDING_APPROVAL" "\<not> act_subject actor = cp_requested_by_subject plan"
      "\<not> (decision = AD_REJECT \<and> stripped why = None)" "\<not> (decision = AD_APPROVE \<and> \<not> report_satisfied report)"
    using assms by auto
  have ins: "insert_approval ?a db = Inr (db\<lparr>pdb_approvals := pdb_approvals db @ [?a]\<rparr>)"
    using assms(6) by (auto simp: insert_approval_def)
  show ?thesis
    by (rule exI [of _ ?a], rule exI, rule exI, intro conjI)
      (simp_all only: approval_record.simps decide_on_def if_not_P [OF conds(1)] if_not_P [OF conds(2)] if_not_P [OF conds(3)]
        if_not_P [OF conds(4)] assms(4) sum.case Let_def ins res_bind.simps commit_and_read_state)
qed

lemma status_after_decision:
  assumes "plan_status pid db \<noteq> None"
  shows "plan_status pid (plan_event pf rt actor q ty payload
      (update_plan pid (decision_update rt' report a) (db\<lparr>pdb_approvals := x\<rparr>)))
    = Some (if ap_decision a = AD_APPROVE then CP_APPROVED else CP_REJECTED)"
  unfolding plan_status_simps
  by (rule status_after_update) (simp_all add: assms decision_update_id decision_update_status)

text \<open>
  Two answers that overlap can turn a rejected plan into an approved one. Both load the pending
  plan; the rejection commits; the approval, decided on the plan as it was loaded, then writes its
  status over the rejection, because neither the load takes a lock nor the update looks at the status.
  That is a move the lifecycle does not have.
\<close>

theorem overlapping_approval_overrides_rejection:
  assumes "get_plan pf pid db = Inr plan" "cp_status plan = CP_PENDING_APPROVAL"
    and "distinct [cp_requested_by_subject plan, act_subject one, act_subject two]" "stripped why \<noteq> None"
    and "plan_preconditions pf rt1 plan = Inr report1" "plan_preconditions pf rt2 plan = Inr report2" "report_satisfied report2"
    and "\<forall>b \<in> set (pdb_approvals db). ap_plan_id b \<noteq> pid \<and> ap_approval_id b \<notin> {rt_new_id rt1, rt_new_id rt2}"
      "rt_new_id rt1 \<noteq> rt_new_id rt2"
  shows "let rejected = fst (decide_on pf rt1 one AD_REJECT why plan db);
      approved = fst (decide_on pf rt2 two AD_APPROVE None plan rejected)
    in plan_status pid rejected = Some CP_REJECTED \<and> plan_status pid approved = Some CP_APPROVED
      \<and> \<not> status_move (plan_status pid rejected) (plan_status pid approved)"
proof -
  note st = get_plan_status [OF assms(1)]
  let ?rej = "fst (decide_on pf rt1 one AD_REJECT why plan db)"
  have one: "act_subject one \<noteq> cp_requested_by_subject plan" "act_subject two \<noteq> cp_requested_by_subject plan"
    "act_subject one \<noteq> act_subject two" using assms(3) by auto
  have "\<forall>b \<in> set (pdb_approvals db). ap_approval_id b \<noteq> rt_new_id rt1
       \<and> (ap_plan_id b = cp_plan_id plan \<longrightarrow> ap_approver_subject b \<noteq> act_subject one)" using assms(8) st by auto
  from decide_on_outcome [OF assms(2) one(1) _ assms(5) _ this, of AD_REJECT why] assms(4)
  obtain a ty payload where a: "ap_decision a = AD_REJECT" "ap_approval_id a = rt_new_id rt1" "ap_approver_subject a = act_subject one"
    "?rej = plan_event pf rt1 one plan ty payload
        (update_plan (cp_plan_id plan) (decision_update rt1 report1 a) (db\<lparr>pdb_approvals := pdb_approvals db @ [a]\<rparr>))" by auto
  have rej: "plan_status pid ?rej = Some CP_REJECTED"
    unfolding a(4) conjunct2 [OF st] using st a(1) by (subst status_after_decision) simp_all
  have "pdb_approvals ?rej = pdb_approvals db @ [a]" unfolding a(4) by simp
  then have "\<forall>b \<in> set (pdb_approvals ?rej). ap_approval_id b \<noteq> rt_new_id rt2
       \<and> (ap_plan_id b = cp_plan_id plan \<longrightarrow> ap_approver_subject b \<noteq> act_subject two)" using assms(8,9) st a(2,3) one(3) by auto
  from decide_on_outcome [OF assms(2) one(2) _ assms(6) _ this, of AD_APPROVE None] assms(7)
  obtain b ty' payload' where b: "ap_decision b = AD_APPROVE"
    "fst (decide_on pf rt2 two AD_APPROVE None plan ?rej) = plan_event pf rt2 two plan ty' payload'
        (update_plan (cp_plan_id plan) (decision_update rt2 report2 b) (?rej\<lparr>pdb_approvals := pdb_approvals ?rej @ [b]\<rparr>))" by auto
  have "plan_status pid (fst (decide_on pf rt2 two AD_APPROVE None plan ?rej)) = Some CP_APPROVED"
    unfolding b(2) conjunct2 [OF st] using rej b(1) by (subst status_after_decision) simp_all
  with rej show ?thesis by (simp add: Let_def status_move_def)
qed

lemma run_submitted_plan: "\<exists>plan report. get_plan run_pf ''p1'' run_submitted = Inr plan \<and> cp_status plan = CP_PENDING_APPROVAL
    \<and> cp_requested_by_subject plan = ''alice'' \<and> plan_preconditions run_pf (run_rt 4 i ''b1'') plan = Inr report
    \<and> report_satisfied report"
proof -
  have "(case get_plan run_pf ''p1'' run_submitted of Inl e \<Rightarrow> False | Inr plan \<Rightarrow> cp_status plan = CP_PENDING_APPROVAL
    \<and> cp_requested_by_subject plan = ''alice'' \<and> (case plan_preconditions run_pf (run_rt 4 [] ''b1'') plan of
        Inl e \<Rightarrow> False | Inr report \<Rightarrow> report_satisfied report))"
    by code_simp
  moreover have "plan_preconditions run_pf (run_rt 4 i ''b1'') plan = plan_preconditions run_pf (run_rt 4 [] ''b1'') plan" for plan
    by (simp add: plan_preconditions_def run_rt_def)
  ultimately show ?thesis by (auto split: sum.splits)
qed

lemma overlapping_approval_overrides_rejection_witness:
  "\<exists>plan. plan_status ''p1'' (fst (decide_on run_pf (run_rt 4 ''a1'' ''b1'') (person ''bob'') AD_REJECT (Some ''no'') plan run_submitted)) = Some CP_REJECTED
    \<and> plan_status ''p1'' (fst (decide_on run_pf (run_rt 4 ''a2'' ''b1'') (person ''dana'') AD_APPROVE None plan
        (fst (decide_on run_pf (run_rt 4 ''a1'' ''b1'') (person ''bob'') AD_REJECT (Some ''no'') plan run_submitted)))) = Some CP_APPROVED"
proof -
  obtain plan report1 where p: "get_plan run_pf ''p1'' run_submitted = Inr plan" "cp_status plan = CP_PENDING_APPROVAL"
    "cp_requested_by_subject plan = ''alice''" "plan_preconditions run_pf (run_rt 4 ''a1'' ''b1'') plan = Inr report1"
    using run_submitted_plan [of "''a1''"] by blast
  obtain report2 where p2: "plan_preconditions run_pf (run_rt 4 ''a2'' ''b1'') plan = Inr report2" "report_satisfied report2"
    using run_submitted_plan [of "''a2''"] p(1) by auto
  have none: "pdb_approvals run_submitted = []" by code_simp
  have why: "stripped (Some ''no'') \<noteq> None" by code_simp
  have ppl: "distinct [cp_requested_by_subject plan, act_subject (person ''bob''), act_subject (person ''dana'')]"
    by (simp add: p(3) person_def)
  from overlapping_approval_overrides_rejection [OF p(1,2) ppl why p(4) p2] show ?thesis
    by (auto simp: none run_rt_def Let_def)
qed

text \<open>
  A pending plan may be measured again against another collection basis and then approved: the
  status is approved while the plan has no current simulation, the very gate its submission had to pass.
\<close>

theorem approval_without_current_simulation:
  assumes "get_plan pf pid db = Inr plan" "cp_status plan = CP_PENDING_APPROVAL"
    and "rt_simulate rt1 plan = Inr sim" "sim_basis_token sim \<noteq> cp_basis_token plan"
    and "act_subject two \<noteq> cp_requested_by_subject plan" "plan_preconditions pf rt2 plan = Inr report" "report_satisfied report"
    and "\<forall>b \<in> set (pdb_approvals db). ap_plan_id b \<noteq> pid \<and> ap_approval_id b \<noteq> rt_new_id rt2"
  shows "let measured = fst (simulate pf rt1 one pid db); approved = fst (decide pf rt2 two pid AD_APPROVE None measured)
    in \<exists>r. find_plan pid approved = Some r \<and> cp_status r = CP_APPROVED \<and> \<not> has_current_simulation r"
proof -
  obtain r cs where r: "find_plan pid db = Some r" "changes_for pf pid db = Inr cs" "plan = r\<lparr>cp_changes := cs\<rparr>"
    using assms(1) by (auto simp: get_plan_Inr)
  have id: "cp_plan_id r = pid" by (rule find_plan_id [OF r(1)])
  let ?f = "\<lambda>p. p\<lparr>cp_simulation_id := Some (sim_id sim), cp_simulation_basis_token := Some (sim_basis_token sim),
      cp_impact_summary := sim_summary sim, cp_updated_at := Some (rt_now rt1)\<rparr>"
  let ?m = "fst (simulate pf rt1 one pid db)"
  obtain payload where m: "?m = plan_event pf rt1 one plan GE_PLAN_SIMULATED payload (update_plan pid ?f db)"
    using assms(1-3) r(3) id by (auto simp: simulate_def with_plan_def simulate_on_def commit_and_read_state attach_simulation_def)
  have fm: "find_plan pid ?m = Some (?f r)" unfolding m find_plan_event by (subst find_plan_update) (simp_all add: r(1))
  have ch: "changes_for pf pid ?m = Inr cs" unfolding m by (simp add: r(2))
  let ?plan = "(?f r)\<lparr>cp_changes := cs\<rparr>"
  have get: "get_plan pf pid ?m = Inr ?plan" using fm ch by (simp add: get_plan_def)
  have pre: "plan_preconditions pf rt2 ?plan = Inr report" using assms(6) r(3) by (simp add: plan_preconditions_def)
  have ap: "pdb_approvals ?m = pdb_approvals db" unfolding m by simp
  have st: "cp_status ?plan = CP_PENDING_APPROVAL" "act_subject two \<noteq> cp_requested_by_subject ?plan" "cp_plan_id ?plan = pid"
    using assms(2,5) r(3) id by simp_all
  have fresh: "\<forall>b \<in> set (pdb_approvals ?m). ap_approval_id b \<noteq> rt_new_id rt2
       \<and> (ap_plan_id b = cp_plan_id ?plan \<longrightarrow> ap_approver_subject b \<noteq> act_subject two)" using assms(8) ap st(3) by auto
  from decide_on_outcome [OF st(1,2) _ pre _ fresh, of AD_APPROVE None] assms(7)
  obtain a ty payload' where a: "ap_decision a = AD_APPROVE" "fst (decide_on pf rt2 two AD_APPROVE None ?plan ?m)
      = plan_event pf rt2 two ?plan ty payload' (update_plan pid (decision_update rt2 report a) (?m\<lparr>pdb_approvals := pdb_approvals ?m @ [a]\<rparr>))"
    unfolding st(3) by auto
  have "fst (decide pf rt2 two pid AD_APPROVE None ?m) = fst (decide_on pf rt2 two AD_APPROVE None ?plan ?m)"
    using get by (simp add: decide_def with_plan_def)
  note out = this
  have "find_plan pid (fst (decide pf rt2 two pid AD_APPROVE None ?m)) = Some (decision_update rt2 report a (?f r))"
    unfolding out a(2) find_plan_event by (subst find_plan_update) (simp_all add: fm decision_update_id)
  moreover have "\<not> has_current_simulation (decision_update rt2 report a (?f r))"
    using a(1) assms(4) r(3) by (simp add: has_current_simulation_def decision_update_def set_status_def)
  ultimately show ?thesis using a(1) by (simp add: Let_def decision_update_status)
qed

lemma approval_without_current_simulation_witness:
  "\<exists>r. find_plan ''p1'' (fst (decide run_pf (run_rt 4 ''a1'' ''b1'') (person ''bob'') ''p1'' AD_APPROVE None
      (fst (simulate run_pf (run_rt 9 ''s2'' ''b9'') (person ''alice'') ''p1'' run_submitted)))) = Some r
    \<and> cp_status r = CP_APPROVED \<and> \<not> has_current_simulation r"
proof -
  obtain plan report where p: "get_plan run_pf ''p1'' run_submitted = Inr plan" "cp_status plan = CP_PENDING_APPROVAL"
    "cp_requested_by_subject plan = ''alice''" "plan_preconditions run_pf (run_rt 4 ''a1'' ''b1'') plan = Inr report" "report_satisfied report"
    using run_submitted_plan [of "''a1''"] by blast
  have none: "pdb_approvals run_submitted = []" by code_simp
  have "(case get_plan run_pf ''p1'' run_submitted of Inl e \<Rightarrow> False | Inr plan \<Rightarrow> cp_basis_token plan = ''b1'')" by code_simp
  then have b: "cp_basis_token plan = ''b1''" by (simp add: p(1))
  have sim: "rt_simulate (run_rt 9 ''s2'' ''b9'') plan = Inr \<lparr>sim_id = ''s2'', sim_basis_token = ''b9'', sim_summary = JObj [],
      sim_complete = True, sim_inert = False\<rparr>" by (simp add: run_rt_def)
  from approval_without_current_simulation [OF p(1,2) sim _ _ p(4,5), of "person ''bob''" "person ''alice''"]
  show ?thesis by (simp add: none b p(3) person_def Let_def)
qed

lemma get_plan_after_update:
  assumes "get_plan pf pid db = Inr plan" "\<And>p. cp_plan_id (f p) = cp_plan_id p" "\<And>p cs. f (p\<lparr>cp_changes := cs\<rparr>) = (f p)\<lparr>cp_changes := cs\<rparr>"
  shows "get_plan pf pid (plan_event pf rt actor q ty payload (update_plan pid f db)) = Inr (f plan)"
proof -
  obtain r cs where r: "find_plan pid db = Some r" "changes_for pf pid db = Inr cs" "plan = r\<lparr>cp_changes := cs\<rparr>"
    using assms(1) by (auto simp: get_plan_Inr)
  have found: "find (\<lambda>p. cp_plan_id p = pid) (map (\<lambda>p. if cp_plan_id p = pid then f p else p) ps)
      = map_option f (find (\<lambda>p. cp_plan_id p = pid) ps)" for ps
    by (induction ps) (simp_all add: assms(2))
  have "find_plan pid (plan_event pf rt actor q ty payload (update_plan pid f db)) = Some (f r)"
    using r(1) found by (simp add: find_plan_def plan_event_def update_plan_def)
  moreover have "changes_for pf pid (plan_event pf rt actor q ty payload (update_plan pid f db)) = Inr cs"
    using r(2) by (simp add: changes_for_def plan_event_def update_plan_def)
  ultimately show ?thesis unfolding r(3) assms(3) by (auto simp: get_plan_Inr)
qed

text \<open>
  C37. No plan is stuck: whoever asks, one cancellation of a plan that is not closed yet returns the
  plan canceled, which is a closed status, whatever became of its approval, its simulation or the
  estate in the meantime; and a closed plan is left as it was.
\<close>

theorem open_plan_can_be_closed:
  assumes "get_plan pf pid db = Inr plan"
  shows "if is_terminal plan then cancel pf rt actor pid reason db = (db, Inl (RemediationValidationError ''status''))
    else \<exists>db' plan'. cancel pf rt actor pid reason db = (db', Inr plan') \<and> get_plan pf pid db' = Inr plan'
      \<and> cp_status plan' = CP_CANCELED \<and> is_terminal plan' \<and> cp_changes plan' = cp_changes plan"
proof (cases "is_terminal plan")
  case True
  then have "validate_transition (cp_status plan) CP_CANCELED = Inl (RemediationValidationError ''status'')"
    by (auto simp: is_terminal_def TERMINAL_STATUSES_def validate_transition_def)
  with True show ?thesis
    by (simp add: cancel_def with_plan_def assms cancel_on_def commit_and_read_def)
next
  case False
  have "cp_plan_id plan = pid" using assms find_plan_id [of pid db] by (auto simp: get_plan_Inr)
  moreover have "validate_transition (cp_status plan) CP_CANCELED = Inr ()"
    using False by (cases "cp_status plan") (simp_all add: is_terminal_def TERMINAL_STATUSES_def ALL_STATUSES_def validate_transition_def)
  ultimately show ?thesis
    using False get_plan_after_update [OF assms, of "\<lambda>p. (set_status CP_CANCELED (rt_now rt) p)
             \<lparr>cp_canceled_at := Some (rt_now rt), cp_canceled_by_subject := Some (act_subject actor)\<rparr>"]
    by (simp add: cancel_def with_plan_def assms cancel_on_def commit_and_read_def set_status_def is_terminal_def
        TERMINAL_STATUSES_def ALL_STATUSES_def)
qed

lemma open_plan_can_be_closed_witness:
  "\<exists>db' plan'. cancel run_pf (run_rt 4 ''e4'' ''b2'') (person ''carol'') ''p1'' None run_submitted = (db', Inr plan')
     \<and> cp_status plan' = CP_CANCELED"
proof -
  have "case get_plan run_pf ''p1'' run_submitted of Inr p \<Rightarrow> \<not> is_terminal p | Inl _ \<Rightarrow> False" by code_simp
  then obtain plan where plan: "get_plan run_pf ''p1'' run_submitted = Inr plan" "\<not> is_terminal plan"
    by (auto split: sum.splits)
  from open_plan_can_be_closed [OF plan(1), of "run_rt 4 ''e4'' ''b2''" "person ''carol''" None] plan(2)
  show ?thesis by auto
qed

end
