(* ===== verification/Adg_Overlay.thy ===== *)
theory Adg_Overlay
  imports Adg_Plan_Store Adg_Resources
begin

section \<open>Proposed changes (app/simulation/overlay.py)\<close>

text \<open>
  A simulation overlay: the four kinds of proposed change with their constructors' checks, the overlay
  that holds them, its digest, what it touches, and its document form. \<open>cf\<close> is case folding and
  \<open>sha\<close> the hexadecimal SHA-256 of a text, both parameters. A change that carries keys folded by
  its constructor is the record the constructor returns.
\<close>

subsection \<open>Kinds\<close>

definition MAX_CHANGES :: nat where "MAX_CHANGES = 200"
definition OVERLAY_HASH_LENGTH :: nat where "OVERLAY_HASH_LENGTH = 32"
definition OVERLAY_DOCUMENT_VERSION :: string where "OVERLAY_DOCUMENT_VERSION = ''1.0''"
definition SIMULATED_SOURCE_KEY :: string where "SIMULATED_SOURCE_KEY = ''simulated''"
definition SIMULATED_EDGE_PREFIX :: string where "SIMULATED_EDGE_PREFIX = ''simulated|''"
definition SIMULATED_ACE_PREFIX :: string where "SIMULATED_ACE_PREFIX = ''simulated|''"

definition is_simulated_edge_key :: "string \<Rightarrow> bool" where
  "is_simulated_edge_key key \<longleftrightarrow> is_prefix_of SIMULATED_EDGE_PREFIX key"

definition is_simulated_ace_key :: "string \<Rightarrow> bool" where
  "is_simulated_ace_key key \<longleftrightarrow> is_prefix_of SIMULATED_ACE_PREFIX key"

datatype sim_kind = SK_ADD_MEMBER | SK_REMOVE_MEMBER | SK_ADD_NTFS_ACE | SK_MODIFY_NTFS_ACE | SK_REMOVE_NTFS_ACE
  | SK_ADD_SHARE_ACE | SK_MODIFY_SHARE_ACE | SK_REMOVE_SHARE_ACE | SK_SET_INHERITANCE

fun sim_kind_value :: "sim_kind \<Rightarrow> string" where
  "sim_kind_value SK_ADD_MEMBER = ''add_member''"
| "sim_kind_value SK_REMOVE_MEMBER = ''remove_member''"
| "sim_kind_value SK_ADD_NTFS_ACE = ''add_ntfs_ace''"
| "sim_kind_value SK_MODIFY_NTFS_ACE = ''modify_ntfs_ace''"
| "sim_kind_value SK_REMOVE_NTFS_ACE = ''remove_ntfs_ace''"
| "sim_kind_value SK_ADD_SHARE_ACE = ''add_share_ace''"
| "sim_kind_value SK_MODIFY_SHARE_ACE = ''modify_share_ace''"
| "sim_kind_value SK_REMOVE_SHARE_ACE = ''remove_share_ace''"
| "sim_kind_value SK_SET_INHERITANCE = ''set_inheritance''"

definition sim_kinds :: "sim_kind list" where
  "sim_kinds = [SK_ADD_MEMBER, SK_REMOVE_MEMBER, SK_ADD_NTFS_ACE, SK_MODIFY_NTFS_ACE, SK_REMOVE_NTFS_ACE,
     SK_ADD_SHARE_ACE, SK_MODIFY_SHARE_ACE, SK_REMOVE_SHARE_ACE, SK_SET_INHERITANCE]"

definition REMOVING_KINDS :: "sim_kind set" where
  "REMOVING_KINDS = {SK_REMOVE_MEMBER, SK_REMOVE_NTFS_ACE, SK_REMOVE_SHARE_ACE, SK_MODIFY_NTFS_ACE, SK_MODIFY_SHARE_ACE, SK_SET_INHERITANCE}"

definition sim_removes :: "sim_kind \<Rightarrow> bool" where "sim_removes k \<longleftrightarrow> k \<in> REMOVING_KINDS"

definition NTFS_KINDS :: "sim_kind set" where "NTFS_KINDS = {SK_ADD_NTFS_ACE, SK_MODIFY_NTFS_ACE, SK_REMOVE_NTFS_ACE}"
definition SHARE_KINDS :: "sim_kind set" where "SHARE_KINDS = {SK_ADD_SHARE_ACE, SK_MODIFY_SHARE_ACE, SK_REMOVE_SHARE_ACE}"

datatype disposition = CONVERT_TO_EXPLICIT | REMOVE_INHERITED

fun disposition_value :: "disposition \<Rightarrow> string" where
  "disposition_value CONVERT_TO_EXPLICIT = ''convert_to_explicit''"
| "disposition_value REMOVE_INHERITED = ''remove''"

subsection \<open>Checks the constructors share\<close>

definition validate_key :: "string \<Rightarrow> string \<Rightarrow> unit result" where
  "validate_key value field = (if py_strip value = [] then Inl (DomainValidationError field) else Inr ())"

definition validate_mask :: "int option \<Rightarrow> unit result" where
  "validate_mask m = (case m of None \<Rightarrow> Inr ()
     | Some v \<Rightarrow> if 0 \<le> v \<and> v \<le> MAX_ACCESS_MASK then Inr () else Inl (DomainValidationError ''access_mask''))"

definition fold_resource_key :: "(string \<Rightarrow> string) \<Rightarrow> string \<Rightarrow> string result" where
  "fold_resource_key cf value = res_bind (validate_key value ''resource_key'') (\<lambda>_.
     res_bind (parse_unc_path value) (\<lambda>p. Inr (unc_comparison_key cf p)))"

definition fold_share_key :: "(string \<Rightarrow> string) \<Rightarrow> string \<Rightarrow> string result" where
  "fold_share_key cf value = res_bind (validate_key value ''share_key'') (\<lambda>_.
     res_bind (parse_share_identifier value) (\<lambda>s. Inr (share_identity_key cf s)))"

text \<open>The truth value of an optional text.\<close>

definition given :: "string option \<Rightarrow> bool" where "given s \<longleftrightarrow> s \<noteq> None \<and> s \<noteq> Some []"

subsection \<open>A membership\<close>

record membership_change =
  mch_kind :: sim_kind
  mch_group_key :: string
  mch_member_key :: string
  mch_edge_kind :: membership_edge_kind
  mch_member_kind :: "principal_kind option"

text \<open>\<open>rpartition("|")\<close>: a host only when there is a separator.\<close>

definition mch_host_key :: "membership_change \<Rightarrow> string option" where
  "mch_host_key c = (case split_on (CHR ''|'') (mch_group_key c) of
     [_] \<Rightarrow> None | parts \<Rightarrow> Some (join_with ''|'' (butlast parts)))"

definition mk_membership_change :: "membership_change \<Rightarrow> membership_change result" where
  "mk_membership_change c =
     (if mch_kind c \<notin> {SK_ADD_MEMBER, SK_REMOVE_MEMBER} then Inl (DomainValidationError ''kind'')
      else res_bind (validate_key (mch_group_key c) ''group_key'') (\<lambda>_.
        res_bind (validate_key (mch_member_key c) ''member_key'') (\<lambda>_.
        if mch_group_key c = mch_member_key c then Inl (DomainValidationError ''member_key'')
        else if (mch_edge_kind c = MK_LOCAL_GROUP_MEMBER) \<noteq> (mch_host_key c \<noteq> None) then Inl (DomainValidationError ''edge_kind'')
        else Inr c)))"

definition mch_edge_text :: "membership_change \<Rightarrow> string" where
  "mch_edge_text c = mch_group_key c @ ''->'' @ mch_member_key c @ ''|'' @ membership_edge_kind_value (mch_edge_kind c)"

definition mch_edge_key :: "membership_change \<Rightarrow> string" where
  "mch_edge_key c = SIMULATED_EDGE_PREFIX @ mch_edge_text c"

definition mch_target :: "membership_change \<Rightarrow> string" where "mch_target c = ''edge:'' @ mch_edge_text c"

definition mch_fields :: "membership_change \<Rightarrow> (string \<times> json) list" where
  "mch_fields c =
     [(''kind'', JStr (sim_kind_value (mch_kind c))), (''group_key'', JStr (mch_group_key c)),
      (''member_key'', JStr (mch_member_key c)), (''edge_kind'', JStr (membership_edge_kind_value (mch_edge_kind c))),
      (''member_kind'', opt_str (map_option principal_kind_value (mch_member_kind c)))]"

definition edge_kinds :: "membership_edge_kind list" where
  "edge_kinds = [MK_DIRECTORY_GROUP_MEMBER, MK_PRIMARY_GROUP, MK_LOCAL_GROUP_MEMBER, MK_WELL_KNOWN_IMPLICIT]"

definition kind_at :: "json \<Rightarrow> sim_kind result" where
  "kind_at j = res_bind (text_at ''kind'' j) (enum_of sim_kinds sim_kind_value)"

definition membership_change_from :: "json \<Rightarrow> membership_change result" where
  "membership_change_from j =
     res_bind (kind_at j) (\<lambda>kind.
     res_bind (text_at ''group_key'' j) (\<lambda>grp.
     res_bind (text_at ''member_key'' j) (\<lambda>member.
     res_bind (res_bind (text_at ''edge_kind'' j) (enum_of edge_kinds membership_edge_kind_value)) (\<lambda>edge_kind.
     res_bind (res_bind (as_opt_text (json_get ''member_kind'' j)) (opt_enum_of principal_kinds principal_kind_value)) (\<lambda>member_kind.
       mk_membership_change \<lparr>mch_kind = kind, mch_group_key = grp, mch_member_key = member, mch_edge_kind = edge_kind,
         mch_member_kind = member_kind\<rparr>)))))"

subsection \<open>An NTFS entry\<close>

record ntfs_ace_change =
  nch_kind :: sim_kind
  nch_resource_key :: string
  nch_ace_key :: "string option"
  nch_trustee_sid :: "string option"
  nch_ace_type :: "ace_type option"
  nch_access_mask :: "int option"
  nch_ace_flags :: "int option"
  nch_order_index :: "int option"

definition require_add_fields :: "ntfs_ace_change \<Rightarrow> unit result" where
  "require_add_fields c =
     (if \<not> given (nch_trustee_sid c) then Inl (DomainValidationError ''trustee_sid'')
      else res_bind (parse_sid (the (nch_trustee_sid c))) (\<lambda>_.
        if nch_ace_type c = None then Inl (DomainValidationError ''ace_type'')
        else if nch_access_mask c = None then Inl (DomainValidationError ''access_mask'')
        else Inr ()))"

definition ntfs_kind_checks :: "ntfs_ace_change \<Rightarrow> unit result" where
  "ntfs_kind_checks c =
     (if nch_kind c = SK_ADD_NTFS_ACE then require_add_fields c
      else if \<not> given (nch_ace_key c) then Inl (DomainValidationError ''ace_key'')
      else if nch_kind c = SK_MODIFY_NTFS_ACE \<and> nch_access_mask c = None \<and> nch_ace_flags c = None \<and> nch_ace_type c = None
        then Inl (DomainValidationError ''access_mask'')
      else Inr ())"

definition flags_outside :: "int option \<Rightarrow> bool" where
  "flags_outside f \<longleftrightarrow> (case f of None \<Rightarrow> False | Some v \<Rightarrow> \<not> (0 \<le> v \<and> v \<le> 0xFF))"

text \<open>The checks behind the folding of the key, in the constructor's order.\<close>

definition ntfs_change_checks :: "ntfs_ace_change \<Rightarrow> unit result" where
  "ntfs_change_checks c = res_bind (validate_mask (nch_access_mask c)) (\<lambda>_.
     if flags_outside (nch_ace_flags c) then Inl (DomainValidationError ''ace_flags'')
     else if negative_index (nch_order_index c) then Inl (DomainValidationError ''order_index'')
     else ntfs_kind_checks c)"

definition mk_ntfs_ace_change :: "(string \<Rightarrow> string) \<Rightarrow> ntfs_ace_change \<Rightarrow> ntfs_ace_change result" where
  "mk_ntfs_ace_change cf c =
     (if nch_kind c \<notin> NTFS_KINDS then Inl (DomainValidationError ''kind'')
      else res_bind (fold_resource_key cf (nch_resource_key c)) (\<lambda>key.
        res_bind (ntfs_change_checks c) (\<lambda>_. Inr (c\<lparr>nch_resource_key := key\<rparr>))))"

definition nch_trustee_key :: "(string \<Rightarrow> string) \<Rightarrow> ntfs_ace_change \<Rightarrow> string option result" where
  "nch_trustee_key cf c = (case nch_trustee_sid c of None \<Rightarrow> Inr None
     | Some t \<Rightarrow> res_bind (parse_sid t) (\<lambda>s. res_bind (parse_unc_path (nch_resource_key c)) (\<lambda>p.
         Inr (Some (referenced_principal_key cf s (Some (unc_server p)))))))"

text \<open>A value in a formatted text: \<open>None\<close> is written out, an enumeration is empty when absent.\<close>

definition int_or_none :: "int option \<Rightarrow> string" where "int_or_none i = (case i of None \<Rightarrow> ''None'' | Some v \<Rightarrow> int_text v)"
definition text_or_none :: "string option \<Rightarrow> string" where "text_or_none t = (case t of None \<Rightarrow> ''None'' | Some v \<Rightarrow> v)"
definition type_or_empty :: "ace_type option \<Rightarrow> string" where "type_or_empty t = (case t of None \<Rightarrow> [] | Some v \<Rightarrow> ace_type_value v)"

definition nch_target :: "ntfs_ace_change \<Rightarrow> string" where
  "nch_target c = ''ntfs_ace:'' @ (case nch_ace_key c of Some k \<Rightarrow> k
     | None \<Rightarrow> nch_resource_key c @ ''|'' @ text_or_none (nch_trustee_sid c) @ ''|'' @ type_or_empty (nch_ace_type c)
         @ ''|'' @ int_or_none (nch_access_mask c) @ ''|'' @ int_or_none (nch_ace_flags c))"

definition nch_fields :: "ntfs_ace_change \<Rightarrow> (string \<times> json) list" where
  "nch_fields c =
     [(''kind'', JStr (sim_kind_value (nch_kind c))), (''resource_key'', JStr (nch_resource_key c)),
      (''ace_key'', opt_str (nch_ace_key c)), (''trustee_sid'', opt_str (nch_trustee_sid c)),
      (''ace_type'', opt_str (map_option ace_type_value (nch_ace_type c))), (''access_mask'', opt_int (nch_access_mask c)),
      (''ace_flags'', opt_int (nch_ace_flags c)), (''order_index'', opt_int (nch_order_index c))]"

definition ntfs_change_from :: "(string \<Rightarrow> string) \<Rightarrow> json \<Rightarrow> ntfs_ace_change result" where
  "ntfs_change_from cf j =
     res_bind (kind_at j) (\<lambda>kind.
     res_bind (text_at ''resource_key'' j) (\<lambda>key.
     res_bind (as_opt_text (json_get ''ace_key'' j)) (\<lambda>ace_key.
     res_bind (as_opt_text (json_get ''trustee_sid'' j)) (\<lambda>trustee.
     res_bind (res_bind (as_opt_text (json_get ''ace_type'' j)) (opt_enum_of [ALLOW, DENY] ace_type_value)) (\<lambda>ace_type.
     res_bind (as_opt_int (json_get ''access_mask'' j)) (\<lambda>mask.
     res_bind (as_opt_int (json_get ''ace_flags'' j)) (\<lambda>flags.
     res_bind (as_opt_int (json_get ''order_index'' j)) (\<lambda>index.
       mk_ntfs_ace_change cf \<lparr>nch_kind = kind, nch_resource_key = key, nch_ace_key = ace_key, nch_trustee_sid = trustee,
         nch_ace_type = ace_type, nch_access_mask = mask, nch_ace_flags = flags, nch_order_index = index\<rparr>))))))))"

subsection \<open>A share entry\<close>

record share_ace_change =
  sch_kind :: sim_kind
  sch_share_key :: string
  sch_ace_key :: "string option"
  sch_trustee_sid :: "string option"
  sch_ace_type :: "ace_type option"
  sch_access_mask :: "int option"
  sch_permission :: "share_permission option"
  sch_order_index :: "int option"

definition share_kind_checks :: "share_ace_change \<Rightarrow> unit result" where
  "share_kind_checks c =
     (if sch_kind c = SK_ADD_SHARE_ACE then
        (if \<not> given (sch_trustee_sid c) then Inl (DomainValidationError ''trustee_sid'')
         else res_bind (parse_sid (the (sch_trustee_sid c))) (\<lambda>_.
           if sch_ace_type c = None then Inl (DomainValidationError ''ace_type'')
           else if (sch_access_mask c = None) = (sch_permission c = None) then Inl (DomainValidationError ''access_mask'')
           else Inr ()))
      else if \<not> given (sch_ace_key c) then Inl (DomainValidationError ''ace_key'')
      else if sch_kind c = SK_MODIFY_SHARE_ACE
          \<and> (sch_access_mask c \<noteq> None \<and> sch_permission c \<noteq> None
             \<or> sch_access_mask c = None \<and> sch_permission c = None \<and> sch_ace_type c = None)
        then Inl (DomainValidationError ''access_mask'')
      else Inr ())"

definition share_change_checks :: "share_ace_change \<Rightarrow> unit result" where
  "share_change_checks c = res_bind (validate_mask (sch_access_mask c)) (\<lambda>_.
     if negative_index (sch_order_index c) then Inl (DomainValidationError ''order_index'')
     else share_kind_checks c)"

definition mk_share_ace_change :: "(string \<Rightarrow> string) \<Rightarrow> share_ace_change \<Rightarrow> share_ace_change result" where
  "mk_share_ace_change cf c =
     (if sch_kind c \<notin> SHARE_KINDS then Inl (DomainValidationError ''kind'')
      else res_bind (fold_share_key cf (sch_share_key c)) (\<lambda>key.
        res_bind (share_change_checks c) (\<lambda>_. Inr (c\<lparr>sch_share_key := key\<rparr>))))"

definition sch_trustee_key :: "(string \<Rightarrow> string) \<Rightarrow> share_ace_change \<Rightarrow> string option result" where
  "sch_trustee_key cf c = (case sch_trustee_sid c of None \<Rightarrow> Inr None
     | Some t \<Rightarrow> res_bind (parse_sid t) (\<lambda>s. res_bind (parse_share_identifier (sch_share_key c)) (\<lambda>h.
         Inr (Some (referenced_principal_key cf s (Some (shi_server h)))))))"

definition sch_target :: "share_ace_change \<Rightarrow> string" where
  "sch_target c = ''share_ace:'' @ (case sch_ace_key c of Some k \<Rightarrow> k
     | None \<Rightarrow> sch_share_key c @ ''|'' @ text_or_none (sch_trustee_sid c) @ ''|'' @ type_or_empty (sch_ace_type c)
         @ ''|'' @ int_or_none (sch_access_mask c) @ ''|'' @ text_or_none (map_option share_permission_value (sch_permission c)))"

definition sch_fields :: "share_ace_change \<Rightarrow> (string \<times> json) list" where
  "sch_fields c =
     [(''kind'', JStr (sim_kind_value (sch_kind c))), (''share_key'', JStr (sch_share_key c)),
      (''ace_key'', opt_str (sch_ace_key c)), (''trustee_sid'', opt_str (sch_trustee_sid c)),
      (''ace_type'', opt_str (map_option ace_type_value (sch_ace_type c))), (''access_mask'', opt_int (sch_access_mask c)),
      (''permission'', opt_str (map_option share_permission_value (sch_permission c))),
      (''order_index'', opt_int (sch_order_index c))]"

definition share_change_from :: "(string \<Rightarrow> string) \<Rightarrow> json \<Rightarrow> share_ace_change result" where
  "share_change_from cf j =
     res_bind (kind_at j) (\<lambda>kind.
     res_bind (text_at ''share_key'' j) (\<lambda>key.
     res_bind (as_opt_text (json_get ''ace_key'' j)) (\<lambda>ace_key.
     res_bind (as_opt_text (json_get ''trustee_sid'' j)) (\<lambda>trustee.
     res_bind (res_bind (as_opt_text (json_get ''ace_type'' j)) (opt_enum_of [ALLOW, DENY] ace_type_value)) (\<lambda>ace_type.
     res_bind (as_opt_int (json_get ''access_mask'' j)) (\<lambda>mask.
     res_bind (res_bind (as_opt_text (json_get ''permission'' j))
        (opt_enum_of [SP_READ, SP_CHANGE, SP_FULL] share_permission_value)) (\<lambda>permission.
     res_bind (as_opt_int (json_get ''order_index'' j)) (\<lambda>index.
       mk_share_ace_change cf \<lparr>sch_kind = kind, sch_share_key = key, sch_ace_key = ace_key, sch_trustee_sid = trustee,
         sch_ace_type = ace_type, sch_access_mask = mask, sch_permission = permission, sch_order_index = index\<rparr>))))))))"

subsection \<open>Inheritance\<close>

record inheritance_change =
  ich_resource_key :: string
  ich_protected :: bool
  ich_inherited_entries :: "disposition option"

definition mk_inheritance_change :: "(string \<Rightarrow> string) \<Rightarrow> inheritance_change \<Rightarrow> inheritance_change result" where
  "mk_inheritance_change cf c = res_bind (fold_resource_key cf (ich_resource_key c)) (\<lambda>key.
     if ich_protected c = (ich_inherited_entries c = None) then Inl (DomainValidationError ''inherited_entries'')
     else Inr (c\<lparr>ich_resource_key := key\<rparr>))"

definition ich_target :: "inheritance_change \<Rightarrow> string" where "ich_target c = ''inheritance:'' @ ich_resource_key c"

definition ich_fields :: "inheritance_change \<Rightarrow> (string \<times> json) list" where
  "ich_fields c =
     [(''kind'', JStr (sim_kind_value SK_SET_INHERITANCE)), (''resource_key'', JStr (ich_resource_key c)),
      (''protected'', JBool (ich_protected c)), (''inherited_entries'', opt_str (map_option disposition_value (ich_inherited_entries c)))]"

text \<open>\<open>bool(value)\<close>\<close>

fun truthy :: "json \<Rightarrow> bool" where
  "truthy JNull = False"
| "truthy (JBool b) = b"
| "truthy (JInt i) = (i \<noteq> 0)"
| "truthy (JStr s) = (s \<noteq> [])"
| "truthy (JArr js) = (js \<noteq> [])"
| "truthy (JObj kvs) = (kvs \<noteq> [])"

definition inheritance_change_from :: "(string \<Rightarrow> string) \<Rightarrow> json \<Rightarrow> inheritance_change result" where
  "inheritance_change_from cf j =
     res_bind (as_opt_text (json_get ''inherited_entries'' j)) (\<lambda>d.
     res_bind (text_at ''resource_key'' j) (\<lambda>key.
     res_bind (case map_of (json_entries j) ''protected'' of None \<Rightarrow> Inl KeyError | Some v \<Rightarrow> Inr (truthy v)) (\<lambda>prot.
     res_bind (opt_enum_of [CONVERT_TO_EXPLICIT, REMOVE_INHERITED] disposition_value d) (\<lambda>entries.
       mk_inheritance_change cf \<lparr>ich_resource_key = key, ich_protected = prot, ich_inherited_entries = entries\<rparr>))))"

subsection \<open>A change of any kind\<close>

datatype simulation_change = Change_member membership_change | Change_ntfs ntfs_ace_change
  | Change_share share_ace_change | Change_inheritance inheritance_change

fun change_kind :: "simulation_change \<Rightarrow> sim_kind" where
  "change_kind (Change_member c) = mch_kind c"
| "change_kind (Change_ntfs c) = nch_kind c"
| "change_kind (Change_share c) = sch_kind c"
| "change_kind (Change_inheritance c) = SK_SET_INHERITANCE"

fun change_target :: "simulation_change \<Rightarrow> string" where
  "change_target (Change_member c) = mch_target c"
| "change_target (Change_ntfs c) = nch_target c"
| "change_target (Change_share c) = sch_target c"
| "change_target (Change_inheritance c) = ich_target c"

fun sim_change_fields :: "simulation_change \<Rightarrow> (string \<times> json) list" where
  "sim_change_fields (Change_member c) = mch_fields c"
| "sim_change_fields (Change_ntfs c) = nch_fields c"
| "sim_change_fields (Change_share c) = sch_fields c"
| "sim_change_fields (Change_inheritance c) = ich_fields c"

definition change_from :: "(string \<Rightarrow> string) \<Rightarrow> json \<Rightarrow> simulation_change result" where
  "change_from cf j = res_bind (kind_at j) (\<lambda>kind.
     if kind \<in> {SK_ADD_MEMBER, SK_REMOVE_MEMBER} then res_bind (membership_change_from j) (\<lambda>c. Inr (Change_member c))
     else if kind \<in> NTFS_KINDS then res_bind (ntfs_change_from cf j) (\<lambda>c. Inr (Change_ntfs c))
     else if kind \<in> SHARE_KINDS then res_bind (share_change_from cf j) (\<lambda>c. Inr (Change_share c))
     else res_bind (inheritance_change_from cf j) (\<lambda>c. Inr (Change_inheritance c)))"

subsection \<open>The overlay\<close>

record overlay =
  ov_membership :: "membership_change list"
  ov_ntfs_aces :: "ntfs_ace_change list"
  ov_share_aces :: "share_ace_change list"
  ov_inheritance :: "inheritance_change list"

definition ov_changes :: "overlay \<Rightarrow> simulation_change list" where
  "ov_changes o' = map Change_member (ov_membership o') @ map Change_ntfs (ov_ntfs_aces o')
     @ map Change_share (ov_share_aces o') @ map Change_inheritance (ov_inheritance o')"

definition mk_overlay :: "overlay \<Rightarrow> overlay result" where
  "mk_overlay o' =
     (if MAX_CHANGES < length (ov_membership o') + length (ov_ntfs_aces o') + length (ov_share_aces o') + length (ov_inheritance o')
        then Inl (DomainValidationError ''changes'')
      else if \<not> distinct (map change_target (ov_changes o')) then Inl (DomainValidationError ''changes'')
      else Inr o')"

definition ov_is_empty :: "overlay \<Rightarrow> bool" where "ov_is_empty o' \<longleftrightarrow> ov_changes o' = []"

definition has_removals :: "overlay \<Rightarrow> bool" where
  "has_removals o' \<longleftrightarrow> list_ex (\<lambda>c. sim_removes (change_kind c)) (ov_changes o')"

fun parts_of :: "simulation_change list \<Rightarrow> overlay" where
  "parts_of [] = \<lparr>ov_membership = [], ov_ntfs_aces = [], ov_share_aces = [], ov_inheritance = []\<rparr>"
| "parts_of (c # cs) = (case c of
       Change_member m \<Rightarrow> (parts_of cs)\<lparr>ov_membership := m # ov_membership (parts_of cs)\<rparr>
     | Change_ntfs n \<Rightarrow> (parts_of cs)\<lparr>ov_ntfs_aces := n # ov_ntfs_aces (parts_of cs)\<rparr>
     | Change_share s \<Rightarrow> (parts_of cs)\<lparr>ov_share_aces := s # ov_share_aces (parts_of cs)\<rparr>
     | Change_inheritance i \<Rightarrow> (parts_of cs)\<lparr>ov_inheritance := i # ov_inheritance (parts_of cs)\<rparr>)"

definition from_changes :: "simulation_change list \<Rightarrow> overlay result" where
  "from_changes cs = mk_overlay (parts_of cs)"

definition ordered_changes :: "simulation_change list \<Rightarrow> simulation_change list result" where
  "ordered_changes cs = res_bind (from_changes cs) (\<lambda>o'. Inr (ov_changes o'))"

subsection \<open>The digest\<close>

text \<open>\<open>repr\<close> of a text of Latin-1 characters, and of the other values a document holds.\<close>

definition printable :: "char \<Rightarrow> bool" where
  "printable c \<longleftrightarrow> 32 \<le> code c \<and> code c < 127 \<or> 160 < code c \<and> code c \<noteq> 173"

definition repr_quote :: "string \<Rightarrow> char" where
  "repr_quote s = (if CHR 0x27 \<in> set s \<and> quote_char \<notin> set s then quote_char else CHR 0x27)"

definition repr_char :: "char \<Rightarrow> char \<Rightarrow> string" where
  "repr_char q c =
     (if c = q \<or> c = backslash_char then [backslash_char, c]
      else if c = CHR 0x0A then backslash_char # ''n''
      else if c = CHR 0x0D then backslash_char # ''r''
      else if c = CHR 0x09 then backslash_char # ''t''
      else if printable c then [c]
      else backslash_char # ''x'' @ lower_hex_pad 2 (code c))"

definition repr_text :: "string \<Rightarrow> string" where
  "repr_text s = [repr_quote s] @ concat (map (repr_char (repr_quote s)) s) @ [repr_quote s]"

fun py_repr :: "json \<Rightarrow> string" where
  "py_repr JNull = ''None''"
| "py_repr (JBool b) = (if b then ''True'' else ''False'')"
| "py_repr (JInt i) = int_text i"
| "py_repr (JStr s) = repr_text s"
| "py_repr j = []"

definition unit_sep :: char where "unit_sep = CHR 0x1F"
definition record_sep :: char where "record_sep = CHR 0x1E"

definition canonical_body :: "(string \<times> json) list \<Rightarrow> string" where
  "canonical_body kvs = join_with [record_sep] (map (\<lambda>(k, v). k @ ''='' @ py_repr v) (sort_key fst kvs))"

definition canonical_line :: "simulation_change \<Rightarrow> string" where
  "canonical_line c = sim_kind_value (change_kind c) @ [record_sep] @ canonical_body (sim_change_fields c)"

definition overlay_material :: "overlay \<Rightarrow> string" where
  "overlay_material o' = join_with [unit_sep] (map canonical_line (ov_changes o'))"

definition overlay_hash :: "(string \<Rightarrow> string) \<Rightarrow> overlay \<Rightarrow> string" where
  "overlay_hash sha o' = take OVERLAY_HASH_LENGTH (sha (overlay_material o'))"

subsection \<open>What it touches\<close>

definition ov_group_keys :: "overlay \<Rightarrow> string set" where "ov_group_keys o' = set (map mch_group_key (ov_membership o'))"
definition ov_member_keys :: "overlay \<Rightarrow> string set" where "ov_member_keys o' = set (map mch_member_key (ov_membership o'))"

definition ov_resource_keys :: "overlay \<Rightarrow> string set" where
  "ov_resource_keys o' = set (map nch_resource_key (ov_ntfs_aces o')) \<union> set (map ich_resource_key (ov_inheritance o'))"

definition ov_share_keys :: "overlay \<Rightarrow> string set" where "ov_share_keys o' = set (map sch_share_key (ov_share_aces o'))"

definition ov_trustee_sids :: "overlay \<Rightarrow> string option set" where
  "ov_trustee_sids o' = set (filter given (map nch_trustee_sid (ov_ntfs_aces o') @ map sch_trustee_sid (ov_share_aces o')))"

definition ov_trustee_keys :: "(string \<Rightarrow> string) \<Rightarrow> overlay \<Rightarrow> string set result" where
  "ov_trustee_keys cf o' =
     res_bind (res_map (nch_trustee_key cf) (ov_ntfs_aces o')) (\<lambda>ns.
     res_bind (res_map (sch_trustee_key cf) (ov_share_aces o')) (\<lambda>ss.
       Inr (set (concat (map (\<lambda>k. case k of None \<Rightarrow> [] | Some v \<Rightarrow> [v]) (ns @ ss))))))"

definition ntfs_changes_for :: "(string \<Rightarrow> string) \<Rightarrow> overlay \<Rightarrow> string \<Rightarrow> ntfs_ace_change list" where
  "ntfs_changes_for cf o' key = filter (\<lambda>c. nch_resource_key c = cf key) (ov_ntfs_aces o')"

definition share_changes_for :: "(string \<Rightarrow> string) \<Rightarrow> overlay \<Rightarrow> string \<Rightarrow> share_ace_change list" where
  "share_changes_for cf o' key = filter (\<lambda>c. sch_share_key c = cf key) (ov_share_aces o')"

definition inheritance_change_for :: "(string \<Rightarrow> string) \<Rightarrow> overlay \<Rightarrow> string \<Rightarrow> inheritance_change option" where
  "inheritance_change_for cf o' key = find (\<lambda>c. ich_resource_key c = cf key) (ov_inheritance o')"

definition membership_changes_for :: "overlay \<Rightarrow> string list option \<Rightarrow> membership_change list" where
  "membership_changes_for o' keys = (case keys of None \<Rightarrow> ov_membership o'
     | Some ks \<Rightarrow> filter (\<lambda>c. mch_group_key c \<in> set ks) (ov_membership o'))"

definition touches_resource :: "(string \<Rightarrow> string) \<Rightarrow> overlay \<Rightarrow> string \<Rightarrow> bool" where
  "touches_resource cf o' key \<longleftrightarrow> cf key \<in> ov_resource_keys o'"

definition touches_share :: "(string \<Rightarrow> string) \<Rightarrow> overlay \<Rightarrow> string \<Rightarrow> bool" where
  "touches_share cf o' key \<longleftrightarrow> cf key \<in> ov_share_keys o'"

subsection \<open>Documents\<close>

definition overlay_document :: "(string \<Rightarrow> string) \<Rightarrow> overlay \<Rightarrow> json" where
  "overlay_document sha o' = JObj
     [(''document_version'', JStr OVERLAY_DOCUMENT_VERSION), (''overlay_hash'', JStr (overlay_hash sha o')),
      (''changes'', JArr (map (\<lambda>c. JObj (sim_change_fields c)) (ov_changes o')))]"

definition overlay_from_document :: "(string \<Rightarrow> string) \<Rightarrow> json \<Rightarrow> overlay result" where
  "overlay_from_document cf j =
     (if json_get ''document_version'' j \<noteq> JStr OVERLAY_DOCUMENT_VERSION then Inl (DomainValidationError ''document_version'')
      else res_bind (case map_of (json_entries j) ''changes'' of None \<Rightarrow> Inr [] | Some (JArr js) \<Rightarrow> Inr js | Some _ \<Rightarrow> Inl ValueError)
        (\<lambda>items. res_bind (res_map (change_from cf) items) from_changes))"

subsection \<open>The digest identifies the changes\<close>

lemma repr_char_prefix:
  assumes "repr_char q c @ x = repr_char q d @ y" "q \<in> {CHR 0x27, quote_char}"
  shows "c = d \<and> x = y"
proof -
  have hex: "lower_hex_pad 2 (code c) @ x = lower_hex_pad 2 (code d) @ y \<Longrightarrow> c = d \<and> x = y"
    using hex2_inject [of "code c" "code d" x y] by simp
  have bs: "\<not> (CHR 0x27 = backslash_char)" "quote_char \<noteq> backslash_char" by (simp_all add: backslash_char_def quote_char_def)
  show ?thesis
    using assms hex bs unfolding repr_char_def
    by (auto split: if_splits simp: backslash_char_def quote_char_def)
qed

lemma repr_char_not_quote: "q \<in> {CHR 0x27, quote_char} \<Longrightarrow> repr_char q c @ x \<noteq> q # y"
  by (auto simp: repr_char_def backslash_char_def quote_char_def split: if_splits)

lemma repr_chars_prefix:
  assumes "q \<in> {CHR 0x27, quote_char}"
  shows "concat (map (repr_char q) s) @ q # x = concat (map (repr_char q) t) @ q # y \<Longrightarrow> s = t \<and> x = y"
proof (induction s arbitrary: t)
  case Nil
  then show ?case using repr_char_not_quote [OF assms] by (cases t) (auto, metis)
next
  case (Cons c s)
  show ?case
  proof (cases t)
    case Nil
    with Cons.prems repr_char_not_quote [OF assms] show ?thesis by auto
  next
    case (Cons d t')
    with Cons.prems have "repr_char q c @ (concat (map (repr_char q) s) @ q # x)
        = repr_char q d @ (concat (map (repr_char q) t') @ q # y)" by simp
    from repr_char_prefix [OF this assms] Cons.IH Cons show ?thesis by auto
  qed
qed

lemma repr_text_inject: "repr_text s = repr_text t \<Longrightarrow> s = t"
proof -
  assume eq: "repr_text s = repr_text t"
  then have q: "repr_quote s = repr_quote t" by (simp add: repr_text_def)
  have "repr_quote s \<in> {CHR 0x27, quote_char}" by (simp add: repr_quote_def)
  from repr_chars_prefix [OF this, of s "[]" t "[]"] eq q show "s = t" by (simp add: repr_text_def)
qed

fun scalar :: "json \<Rightarrow> bool" where
  "scalar (JArr js) = False"
| "scalar (JObj kvs) = False"
| "scalar j = True"

lemma int_text_inject: "int_text i = int_text j \<Longrightarrow> i = j"
  using int_prefix [of i "[]" j "[]"] by (simp add: follows_def)

lemma py_repr_head:
  assumes "scalar j"
  shows "py_repr j \<noteq> [] \<and> (case j of JNull \<Rightarrow> hd (py_repr j) = CHR ''N'' | JBool b \<Rightarrow> hd (py_repr j) = (if b then CHR ''T'' else CHR ''F'')
    | JInt i \<Rightarrow> is_digit (hd (py_repr j)) \<or> hd (py_repr j) = CHR ''-'' | JStr s \<Rightarrow> hd (py_repr j) \<in> {CHR 0x27, quote_char} | _ \<Rightarrow> False)"
proof (cases j)
  case (JInt i)
  then show ?thesis using int_text_head [of i] by auto
next
  case (JStr s)
  then show ?thesis by (auto simp: repr_text_def repr_quote_def)
qed (use assms in auto)

lemma letter_not_digit: "\<not> is_digit (CHR ''N'')" "\<not> is_digit (CHR ''T'')" "\<not> is_digit (CHR ''F'')" "\<not> is_digit (CHR 0x27)" "\<not> is_digit quote_char"
  by (simp_all add: is_digit_def quote_char_def)

lemma py_repr_inject:
  assumes "scalar a" "scalar b" "py_repr a = py_repr b"
  shows "a = b"
proof (cases "\<exists>i s. a = JInt i \<and> b = JInt s \<or> (\<exists>t u. a = JStr t \<and> b = JStr u)")
  case True
  then show ?thesis using assms(3) int_text_inject repr_text_inject by auto
next
  case False
  have h: "hd (py_repr a) = hd (py_repr b)" using assms(3) by simp
  show ?thesis using py_repr_head [OF assms(1)] py_repr_head [OF assms(2)] h False letter_not_digit
    by (cases a; cases b) (auto simp: quote_char_def simp del: py_repr.simps split: if_splits)
qed

text \<open>No separator is part of a value's text.\<close>

lemma lower_hex_char_code: "d < 16 \<Longrightarrow> 32 \<le> code (lower_hex_char d)"
  by (simp add: lower_hex_char_def)

lemma repr_char_plain: "c \<in> set (repr_char q d) \<Longrightarrow> 32 \<le> code q \<Longrightarrow> 32 \<le> code c"
  by (auto simp: repr_char_def backslash_char_def printable_def numeral_2_eq_2 lower_hex_char_code split: if_splits)

lemma repr_quote_plain: "32 \<le> code (repr_quote s)" by (simp add: repr_quote_def quote_char_def)

lemma digits_plain: "c \<in> set (int_text i) \<Longrightarrow> 32 \<le> code c"
  using dec_string_digits [of "nat i"] dec_string_digits [of "nat (- i)"] by (auto simp: int_text_def is_digit_def split: if_splits)

lemma py_repr_plain: "scalar j \<Longrightarrow> c \<in> set (py_repr j) \<Longrightarrow> 32 \<le> code c"
proof (cases j)
  case (JStr s)
  assume "c \<in> set (py_repr j)"
  then show ?thesis using JStr repr_char_plain [OF _ repr_quote_plain] repr_quote_plain by (auto simp: repr_text_def)
qed (auto dest: digits_plain split: if_splits)

text \<open>The fields of a change are scalars under keys without an equals sign.\<close>

lemma opt_scalar [simp]: "scalar (opt_str s)" "scalar (opt_int i)"
  by (simp_all add: opt_str_def opt_int_def split: option.split)

lemma sim_change_fields_plain:
  "\<forall>(k, v) \<in> set (sim_change_fields c). scalar v \<and> CHR ''='' \<notin> set k \<and> (\<forall>x \<in> set k. 32 \<le> code x)"
  by (cases c) (simp_all add: mch_fields_def nch_fields_def sch_fields_def ich_fields_def)

lemma entry_text_inject:
  assumes "CHR ''='' \<notin> set k" "CHR ''='' \<notin> set k'" "scalar v" "scalar v'" "k @ ''='' @ py_repr v = k' @ ''='' @ py_repr v'"
  shows "k = k' \<and> v = v'"
proof -
  have "k = takeWhile (\<lambda>x. x \<noteq> CHR ''='') (k @ ''='' @ py_repr v)" using assms(1) by (subst takeWhile_append2) auto
  also have "\<dots> = k'" unfolding assms(5) using assms(2) by (subst takeWhile_append2) auto
  finally show ?thesis using assms py_repr_inject by simp
qed

lemma canonical_line_join:
  "canonical_line c = join_with [record_sep] (sim_kind_value (change_kind c) # map (\<lambda>(k, v). k @ ''='' @ py_repr v) (sort_key fst (sim_change_fields c)))"
proof -
  have "sort_key fst (sim_change_fields c) \<noteq> []"
    by (cases c) (simp_all add: mch_fields_def nch_fields_def sch_fields_def ich_fields_def flip: length_greater_0_conv)
  then show ?thesis unfolding canonical_line_def canonical_body_def
    by (cases "sort_key fst (sim_change_fields c)") auto
qed

lemma sim_kind_value_plain: "x \<in> set (sim_kind_value k) \<Longrightarrow> 32 \<le> code x"
  by (cases k) auto

lemma canonical_line_fields:
  assumes "canonical_line c = canonical_line d"
  shows "set (sim_change_fields c) = set (sim_change_fields d)"
proof -
  let ?e = "\<lambda>(k, v). k @ ''='' @ py_repr v"
  let ?s = "\<lambda>c. sort_key fst (sim_change_fields c)"
  have plain: "record_sep \<notin> set (?e kv)" if "kv \<in> set (sim_change_fields c)" for kv c
  proof -
    obtain k v where kv: "kv = (k, v)" by (cases kv)
    then have "scalar v" "\<forall>x \<in> set k. 32 \<le> code x" using sim_change_fields_plain [of c] that by auto
    then show ?thesis using py_repr_plain [of v record_sep] by (auto simp: kv record_sep_def)
  qed
  have split: "split_on record_sep (canonical_line c) = sim_kind_value (change_kind c) # map ?e (?s c)" for c
    unfolding canonical_line_join using plain [of _ c] sim_kind_value_plain [of record_sep "change_kind c"]
    by (intro split_on_join) (auto simp: record_sep_def)
  have eq: "map ?e (?s c) = map ?e (?s d)" using split [of c] split [of d] assms by simp
  have "?s c = ?s d"
  proof (rule map_inj_on [OF eq])
    have both: "scalar v \<and> CHR ''='' \<notin> set k" if "(k, v) \<in> set (?s c) \<union> set (?s d)" for k v
      using sim_change_fields_plain [of c] sim_change_fields_plain [of d] that by auto
    show "inj_on ?e (set (?s c) \<union> set (?s d))"
    proof (rule inj_onI, clarify)
      fix k v k' v'
      assume "(k, v) \<in> set (?s c) \<union> set (?s d)" "(k', v') \<in> set (?s c) \<union> set (?s d)"
        and "k @ ''='' @ py_repr v = k' @ ''='' @ py_repr v'"
      then show "k = k' \<and> v = v'" using both by (intro entry_text_inject) blast+
    qed
  qed
  then show ?thesis by (metis set_sort)
qed

lemma sim_kind_value_inject [simp]: "sim_kind_value a = sim_kind_value b \<longleftrightarrow> a = b"
  by (cases a; cases b; simp)

lemma disposition_value_inject [simp]: "disposition_value a = disposition_value b \<longleftrightarrow> a = b"
  by (cases a; cases b; simp)

lemma principal_kind_value_eq: "principal_kind_value a = principal_kind_value b \<longleftrightarrow> a = b"
  using principal_kind_value_inject by blast

lemma opt_str_inject': "opt_str x = opt_str y \<longleftrightarrow> x = y"
  by (simp add: opt_str_def split: option.split)

lemma sim_change_fields_distinct: "distinct (map fst (sim_change_fields c))"
  by (cases c) (simp_all add: mch_fields_def nch_fields_def sch_fields_def ich_fields_def)

lemma sim_change_fields_inject:
  assumes "set (sim_change_fields c) = set (sim_change_fields d)"
  shows "c = d"
proof -
  have at: "map_of (sim_change_fields c) = map_of (sim_change_fields d)"
    using assms map_of_inject_set [OF sim_change_fields_distinct sim_change_fields_distinct] by blast
  show ?thesis
  proof (cases c; cases d)
    fix x y assume "c = Change_member x" "d = Change_member y"
    then show ?thesis
      using fun_cong [OF at, of "''kind''"] fun_cong [OF at, of "''group_key''"] fun_cong [OF at, of "''member_key''"]
        fun_cong [OF at, of "''edge_kind''"] fun_cong [OF at, of "''member_kind''"]
      by (simp add: mch_fields_def map_option_inject opt_str_inject' principal_kind_value_eq)
  next
    fix x y assume "c = Change_ntfs x" "d = Change_ntfs y"
    then show ?thesis
      using fun_cong [OF at, of "''kind''"] fun_cong [OF at, of "''resource_key''"] fun_cong [OF at, of "''ace_key''"]
        fun_cong [OF at, of "''trustee_sid''"] fun_cong [OF at, of "''ace_type''"] fun_cong [OF at, of "''access_mask''"]
        fun_cong [OF at, of "''ace_flags''"] fun_cong [OF at, of "''order_index''"]
      by (simp add: nch_fields_def map_option_inject opt_str_inject')
  next
    fix x y assume "c = Change_share x" "d = Change_share y"
    then show ?thesis
      using fun_cong [OF at, of "''kind''"] fun_cong [OF at, of "''share_key''"] fun_cong [OF at, of "''ace_key''"]
        fun_cong [OF at, of "''trustee_sid''"] fun_cong [OF at, of "''ace_type''"] fun_cong [OF at, of "''access_mask''"]
        fun_cong [OF at, of "''permission''"] fun_cong [OF at, of "''order_index''"]
      by (simp add: sch_fields_def map_option_inject opt_str_inject')
  next
    fix x y assume "c = Change_inheritance x" "d = Change_inheritance y"
    then show ?thesis
      using fun_cong [OF at, of "''resource_key''"] fun_cong [OF at, of "''protected''"] fun_cong [OF at, of "''inherited_entries''"]
      by (simp add: ich_fields_def map_option_inject opt_str_inject')
  qed (use fun_cong [OF at, of "''edge_kind''"] fun_cong [OF at, of "''ace_flags''"] fun_cong [OF at, of "''permission''"]
      fun_cong [OF at, of "''protected''"]
      in \<open>simp_all add: mch_fields_def nch_fields_def sch_fields_def ich_fields_def split: if_splits\<close>)
qed

lemma canonical_line_inject: "canonical_line c = canonical_line d \<Longrightarrow> c = d"
  by (rule sim_change_fields_inject [OF canonical_line_fields])

lemma canonical_line_plain: "unit_sep \<notin> set (canonical_line c)" "canonical_line c \<noteq> []"
proof -
  have "c' \<noteq> unit_sep" if c': "c' \<in> set (k @ ''='' @ py_repr v)" and kv: "(k, v) \<in> set (sim_change_fields c)" for c' k v
  proof -
    have "scalar v" "\<forall>x \<in> set k. 32 \<le> code x" using sim_change_fields_plain [of c] kv by auto
    then have "32 \<le> code c'" using c' py_repr_plain [of v c'] by auto
    then show ?thesis by (auto simp: unit_sep_def)
  qed
  then have "\<forall>x \<in> set (map (\<lambda>(k, v). k @ ''='' @ py_repr v) (sort_key fst (sim_change_fields c))). unit_sep \<notin> set x" by fastforce
  moreover have "unit_sep \<notin> set (join_with [record_sep] xs)" if "\<forall>x \<in> set xs. unit_sep \<notin> set x" for xs
    using that by (induction "[record_sep]" xs rule: join_with.induct) (auto simp: unit_sep_def record_sep_def)
  ultimately show "unit_sep \<notin> set (canonical_line c)"
    using sim_kind_value_plain [of unit_sep "change_kind c"]
    by (auto simp: canonical_line_def canonical_body_def unit_sep_def record_sep_def)
  show "canonical_line c \<noteq> []" by (simp add: canonical_line_def)
qed

lemma parts_of_changes: "parts_of (ov_changes o') = o'"
proof -
  have m: "parts_of (map Change_member ms @ cs) = (parts_of cs)\<lparr>ov_membership := ms @ ov_membership (parts_of cs)\<rparr>" for ms cs
    by (induction ms) auto
  have n: "parts_of (map Change_ntfs ns @ cs) = (parts_of cs)\<lparr>ov_ntfs_aces := ns @ ov_ntfs_aces (parts_of cs)\<rparr>" for ns cs
    by (induction ns) auto
  have s: "parts_of (map Change_share ss @ cs) = (parts_of cs)\<lparr>ov_share_aces := ss @ ov_share_aces (parts_of cs)\<rparr>" for ss cs
    by (induction ss) auto
  have i: "parts_of (map Change_inheritance is) = (parts_of [])\<lparr>ov_inheritance := is\<rparr>" for "is"
    by (induction "is") auto
  show ?thesis by (simp add: ov_changes_def m n s i)
qed

lemma overlay_material_inject:
  assumes "overlay_material o' = overlay_material o''"
  shows "o' = o''"
proof -
  have split: "split_on unit_sep (overlay_material x) = map canonical_line (ov_changes x)" if "ov_changes x \<noteq> []" for x
    unfolding overlay_material_def using that canonical_line_plain by (intro split_on_join) auto
  have empty: "overlay_material x = [] \<longleftrightarrow> ov_changes x = []" for x
    using canonical_line_plain by (cases "ov_changes x"; cases "tl (ov_changes x)") (auto simp: overlay_material_def)
  have "map canonical_line (ov_changes o') = map canonical_line (ov_changes o'')"
    using split [of o'] split [of o''] empty [of o'] empty [of o''] assms by (cases "ov_changes o' = []") auto
  then have "ov_changes o' = ov_changes o''" using canonical_line_inject by (metis inj_onI list.inj_map_strong)
  then show ?thesis using parts_of_changes by metis
qed

text \<open>
  An overlay's digest pins the proposal: two overlays with the same digest hold the same changes in
  the same order, unless the shortened hash collides on two different canonical texts.
\<close>

theorem overlay_hash_pins_changes:
  assumes "overlay_hash sha o' = overlay_hash sha o''"
  shows "o' = o'' \<or> (overlay_material o' \<noteq> overlay_material o''
    \<and> take OVERLAY_HASH_LENGTH (sha (overlay_material o')) = take OVERLAY_HASH_LENGTH (sha (overlay_material o'')))"
  using assms overlay_material_inject by (auto simp: overlay_hash_def)


subsection \<open>Documents are read back\<close>

text \<open>The constructor a change went through.\<close>

fun remade :: "(string \<Rightarrow> string) \<Rightarrow> simulation_change \<Rightarrow> simulation_change result" where
  "remade cf (Change_member c) = res_bind (mk_membership_change c) (\<lambda>c. Inr (Change_member c))"
| "remade cf (Change_ntfs c) = res_bind (mk_ntfs_ace_change cf c) (\<lambda>c. Inr (Change_ntfs c))"
| "remade cf (Change_share c) = res_bind (mk_share_ace_change cf c) (\<lambda>c. Inr (Change_share c))"
| "remade cf (Change_inheritance c) = res_bind (mk_inheritance_change cf c) (\<lambda>c. Inr (Change_inheritance c))"

definition keys_stable :: "(string \<Rightarrow> string) \<Rightarrow> overlay \<Rightarrow> bool" where
  "keys_stable cf o' \<longleftrightarrow> (\<forall>k \<in> ov_resource_keys o'. fold_resource_key cf k = Inr k) \<and> (\<forall>k \<in> ov_share_keys o'. fold_share_key cf k = Inr k)"

lemma sim_kinds_all: "k \<in> set sim_kinds"
  by (cases k) (simp_all add: sim_kinds_def)

lemma edge_kinds_all: "k \<in> set edge_kinds"
  by (cases k) (simp_all add: edge_kinds_def)

lemma read_kind [simp]: "enum_of sim_kinds sim_kind_value (sim_kind_value k) = Inr k"
  by (rule enum_of_value) (simp_all add: sim_kinds_all)

lemma read_edge_kind [simp]: "enum_of edge_kinds membership_edge_kind_value (membership_edge_kind_value k) = Inr k"
  by (rule enum_of_value) (simp_all add: edge_kinds_all)

lemma read_options [simp]:
  "opt_enum_of principal_kinds principal_kind_value (map_option principal_kind_value k) = Inr k"
  "opt_enum_of [ALLOW, DENY] ace_type_value (map_option ace_type_value t) = Inr t"
  "opt_enum_of [SP_READ, SP_CHANGE, SP_FULL] share_permission_value (map_option share_permission_value p) = Inr p"
  "opt_enum_of [CONVERT_TO_EXPLICIT, REMOVE_INHERITED] disposition_value (map_option disposition_value d) = Inr d"
proof -
  have "v \<in> set principal_kinds" for v by (cases v) (simp_all add: principal_kinds_def)
  then show "opt_enum_of principal_kinds principal_kind_value (map_option principal_kind_value k) = Inr k"
    by (intro opt_enum_of_value) (rule principal_kind_value_inject)
  have "v \<in> set [ALLOW, DENY]" for v by (cases v) simp_all
  then show "opt_enum_of [ALLOW, DENY] ace_type_value (map_option ace_type_value t) = Inr t"
    by (intro opt_enum_of_value) simp_all
  have "v \<in> set [SP_READ, SP_CHANGE, SP_FULL]" for v by (cases v) simp_all
  then show "opt_enum_of [SP_READ, SP_CHANGE, SP_FULL] share_permission_value (map_option share_permission_value p) = Inr p"
    by (intro opt_enum_of_value) simp_all
  have "v \<in> set [CONVERT_TO_EXPLICIT, REMOVE_INHERITED]" for v by (cases v) simp_all
  then show "opt_enum_of [CONVERT_TO_EXPLICIT, REMOVE_INHERITED] disposition_value (map_option disposition_value d) = Inr d"
    by (intro opt_enum_of_value) simp_all
qed

lemma checks_ignore_key [simp]:
  "ntfs_change_checks (n\<lparr>nch_resource_key := k\<rparr>) = ntfs_change_checks n"
  "share_change_checks (s\<lparr>sch_share_key := k\<rparr>) = share_change_checks s"
  by (cases n, simp only: ntfs_change_checks_def ntfs_kind_checks_def require_add_fields_def ntfs_ace_change.simps)
    (cases s, simp only: share_change_checks_def share_kind_checks_def share_ace_change.simps)

lemma made_ntfs: "mk_ntfs_ace_change cf n = Inr n' \<longleftrightarrow> nch_kind n \<in> NTFS_KINDS \<and> ntfs_change_checks n = Inr ()
    \<and> (\<exists>key. fold_resource_key cf (nch_resource_key n) = Inr key \<and> n' = n\<lparr>nch_resource_key := key\<rparr>)"
  by (auto simp: mk_ntfs_ace_change_def result_simps)

lemma made_share: "mk_share_ace_change cf s = Inr s' \<longleftrightarrow> sch_kind s \<in> SHARE_KINDS \<and> share_change_checks s = Inr ()
    \<and> (\<exists>key. fold_share_key cf (sch_share_key s) = Inr key \<and> s' = s\<lparr>sch_share_key := key\<rparr>)"
  by (auto simp: mk_share_ace_change_def result_simps)

lemma made_inheritance: "mk_inheritance_change cf i = Inr i' \<longleftrightarrow> ich_protected i \<noteq> (ich_inherited_entries i = None)
    \<and> (\<exists>key. fold_resource_key cf (ich_resource_key i) = Inr key \<and> i' = i\<lparr>ich_resource_key := key\<rparr>)"
  by (auto simp: mk_inheritance_change_def result_simps)

lemma made_member: "mk_membership_change m = Inr m' \<longleftrightarrow> m' = m \<and> mch_kind m \<in> {SK_ADD_MEMBER, SK_REMOVE_MEMBER}
    \<and> py_strip (mch_group_key m) \<noteq> [] \<and> py_strip (mch_member_key m) \<noteq> [] \<and> mch_group_key m \<noteq> mch_member_key m
    \<and> (mch_edge_kind m = MK_LOCAL_GROUP_MEMBER \<longleftrightarrow> mch_host_key m \<noteq> None)"
  unfolding mk_membership_change_def validate_key_def by (auto simp: result_simps)

lemmas made_by = made_ntfs made_share made_inheritance made_member

lemma read_change:
  assumes "remade cf c0 = Inr c"
  shows "change_from cf (JObj (sim_change_fields c)) = remade cf c"
proof (cases c)
  case (Change_member m)
  then have "mch_kind m \<in> {SK_ADD_MEMBER, SK_REMOVE_MEMBER}"
    using assms by (cases c0) (auto simp: result_simps made_by)
  then show ?thesis unfolding Change_member
    by (cases m) (auto simp: change_from_def kind_at_def text_at_def mch_fields_def membership_change_from_def json_get_def)
next
  case (Change_ntfs n)
  then have "nch_kind n \<in> NTFS_KINDS"
    using assms by (cases c0) (auto simp: result_simps made_by)
  then show ?thesis
    by (cases n) (auto simp: Change_ntfs change_from_def kind_at_def text_at_def nch_fields_def ntfs_change_from_def json_get_def NTFS_KINDS_def)
next
  case (Change_share s)
  then have "sch_kind s \<in> SHARE_KINDS"
    using assms by (cases c0) (auto simp: result_simps made_by)
  then show ?thesis
    by (cases s) (auto simp: Change_share change_from_def kind_at_def text_at_def sch_fields_def share_change_from_def json_get_def
        NTFS_KINDS_def SHARE_KINDS_def)
next
  case (Change_inheritance i)
  then show ?thesis
    using read_kind [of SK_SET_INHERITANCE]
    by (cases i) (simp add: change_from_def kind_at_def text_at_def ich_fields_def inheritance_change_from_def json_get_def
        NTFS_KINDS_def SHARE_KINDS_def)
qed

text \<open>What a constructor returned it accepts again, when the folded key folds to itself.\<close>

lemma remade_again:
  assumes "remade cf c0 = Inr c"
    and "\<And>n. c = Change_ntfs n \<Longrightarrow> fold_resource_key cf (nch_resource_key n) = Inr (nch_resource_key n)"
    and "\<And>i. c = Change_inheritance i \<Longrightarrow> fold_resource_key cf (ich_resource_key i) = Inr (ich_resource_key i)"
    and "\<And>s. c = Change_share s \<Longrightarrow> fold_share_key cf (sch_share_key s) = Inr (sch_share_key s)"
  shows "remade cf c = Inr c"
  using assms by (cases c0) (auto simp: result_simps made_by)

text \<open>
  C26. A stored proposal is read back as it was written: for an accepted overlay of changes their
  constructors made, whose folded keys fold to themselves, reading its document gives the same
  overlay, through every constructor again. (A folded path that ends in white space behind a
  separator folds to another path, so the condition on the keys cannot be dropped.)
\<close>

theorem overlay_document_round_trip:
  assumes made: "\<forall>c \<in> set (ov_changes o'). \<exists>c0. remade cf c0 = Inr c" and ok: "mk_overlay o0 = Inr o'"
    and stable: "keys_stable cf o'"
  shows "overlay_from_document cf (overlay_document sha o') = Inr o'"
proof -
  have again: "change_from cf (JObj (sim_change_fields c)) = Inr c" if c: "c \<in> set (ov_changes o')" for c
  proof -
    obtain c0 where c0: "remade cf c0 = Inr c" using made c by blast
    have "remade cf c = Inr c"
      by (rule remade_again [OF c0])
        (use c stable in \<open>auto simp: keys_stable_def ov_changes_def ov_resource_keys_def ov_share_keys_def\<close>)
    then show ?thesis using read_change [OF c0] by simp
  qed
  have "res_map (change_from cf) (map (\<lambda>c. JObj (sim_change_fields c)) (ov_changes o')) = Inr (ov_changes o')"
  proof -
    have "(\<And>c. c \<in> set cs \<Longrightarrow> change_from cf (JObj (sim_change_fields c)) = Inr c)
        \<Longrightarrow> res_map (change_from cf) (map (\<lambda>c. JObj (sim_change_fields c)) cs) = Inr cs" for cs
      by (induction cs) auto
    then show ?thesis using again by blast
  qed
  moreover have "mk_overlay o' = Inr o'" using ok by (auto simp: mk_overlay_def split: if_splits)
  ultimately show ?thesis
    by (simp add: overlay_from_document_def overlay_document_def json_get_def from_changes_def parts_of_changes)
qed

definition sample_member :: "string \<Rightarrow> membership_change" where
  "sample_member m = \<lparr>mch_kind = SK_ADD_MEMBER, mch_group_key = ''G'', mch_member_key = m, mch_edge_kind = MK_DIRECTORY_GROUP_MEMBER,
     mch_member_kind = None\<rparr>"

definition sample_addition :: ntfs_ace_change where
  "sample_addition = \<lparr>nch_kind = SK_ADD_NTFS_ACE, nch_resource_key = [CHR 0x5C, CHR 0x5C] @ ''fs'' @ [CHR 0x5C] @ ''d'', nch_ace_key = None,
     nch_trustee_sid = Some ''S-1-5-21-7'', nch_ace_type = Some ALLOW, nch_access_mask = Some 1, nch_ace_flags = None, nch_order_index = None\<rparr>"

definition sample_overlay :: "string list \<Rightarrow> overlay" where
  "sample_overlay ms = \<lparr>ov_membership = map sample_member ms, ov_ntfs_aces = [sample_addition], ov_share_aces = [], ov_inheritance = []\<rparr>"

lemma sample_overlay_ok:
  "mk_overlay (sample_overlay [''a'', ''b'']) = Inr (sample_overlay [''a'', ''b''])"
  "mk_overlay (sample_overlay [''b'', ''a'']) = Inr (sample_overlay [''b'', ''a''])"
  by code_simp+

lemma sample_key: "fold_resource_key id (nch_resource_key sample_addition) = Inr (nch_resource_key sample_addition)" by code_simp

lemma sample_made:
  "remade id (Change_member (sample_member ''a'')) = Inr (Change_member (sample_member ''a''))"
  "remade id (Change_member (sample_member ''b'')) = Inr (Change_member (sample_member ''b''))"
  by (simp_all add: mk_membership_change_def sample_member_def validate_key_def mch_host_key_def py_strip_def is_py_space_def)

lemma sample_addition_made: "remade id (Change_ntfs sample_addition) = Inr (Change_ntfs sample_addition)"
  using sample_key
  by (simp add: mk_ntfs_ace_change_def ntfs_change_checks_def ntfs_kind_checks_def flags_outside_def validate_mask_def require_add_fields_def given_def sample_sid_parses negative_index_def
      sample_addition_def NTFS_KINDS_def MAX_ACCESS_MASK_def)

theorem overlay_document_round_trip_witness:
  "overlay_from_document id (overlay_document id (sample_overlay [''a'', ''b''])) = Inr (sample_overlay [''a'', ''b''])"
proof (rule overlay_document_round_trip [OF _ sample_overlay_ok(1)])
  show "\<forall>c \<in> set (ov_changes (sample_overlay [''a'', ''b''])). \<exists>c0. remade id c0 = Inr c"
  proof
    fix c assume "c \<in> set (ov_changes (sample_overlay [''a'', ''b'']))"
    then have "c \<in> {Change_member (sample_member ''a''), Change_member (sample_member ''b''), Change_ntfs sample_addition}"
      by (simp add: ov_changes_def sample_overlay_def)
    then have "remade id c = Inr c" using sample_made sample_addition_made by blast
    then show "\<exists>c0. remade id c0 = Inr c" by blast
  qed
  show "keys_stable id (sample_overlay [''a'', ''b''])"
    using sample_key by (simp add: keys_stable_def sample_overlay_def ov_resource_keys_def ov_share_keys_def)
qed

theorem overlay_hash_pins_changes_witness:
  "overlay_hash (\<lambda>_. ''x'') (sample_overlay [''a'', ''b'']) = overlay_hash (\<lambda>_. ''x'') (sample_overlay [''b'', ''a''])
   \<and> overlay_material (sample_overlay [''a'', ''b'']) \<noteq> overlay_material (sample_overlay [''b'', ''a''])"
proof -
  have eq: "overlay_hash (\<lambda>_. ''x'') (sample_overlay [''a'', ''b'']) = overlay_hash (\<lambda>_. ''x'') (sample_overlay [''b'', ''a''])"
    by (simp add: overlay_hash_def)
  have "sample_overlay [''a'', ''b''] \<noteq> sample_overlay [''b'', ''a'']" by (simp add: sample_overlay_def sample_member_def)
  with overlay_hash_pins_changes [OF eq] eq show ?thesis by blast
qed

text \<open>
  The digest is of the sequence somebody typed in, not of the proposal: two accepted overlays that
  hold the same changes in another order within a group have different canonical texts.
\<close>

theorem overlay_hash_depends_on_order:
  "mk_overlay (sample_overlay [''a'', ''b'']) = Inr (sample_overlay [''a'', ''b''])
   \<and> mk_overlay (sample_overlay [''b'', ''a'']) = Inr (sample_overlay [''b'', ''a''])
   \<and> set (ov_changes (sample_overlay [''a'', ''b''])) = set (ov_changes (sample_overlay [''b'', ''a'']))
   \<and> overlay_material (sample_overlay [''a'', ''b'']) \<noteq> overlay_material (sample_overlay [''b'', ''a''])"
proof -
  have "sample_overlay [''a'', ''b''] \<noteq> sample_overlay [''b'', ''a'']" by (simp add: sample_overlay_def sample_member_def)
  then show ?thesis using sample_overlay_ok overlay_material_inject by (auto simp: ov_changes_def sample_overlay_def)
qed

lemma given_iff: "given s \<longleftrightarrow> (\<exists>t. s = Some t \<and> t \<noteq> [])"
  by (auto simp: given_def)

lemma validate_mask_ok: "validate_mask m = Inr u \<longleftrightarrow> (\<forall>v. m = Some v \<longrightarrow> 0 \<le> v \<and> v < 2 ^ 32)"
  by (auto simp: validate_mask_def MAX_ACCESS_MASK_def split: option.split)

lemma index_ok: "negative_index i \<longleftrightarrow> (\<exists>k. i = Some k \<and> k < 0)"
  by (auto simp: negative_index_def split: option.split)

lemma flags_ok: "flags_outside f \<longleftrightarrow> (\<exists>v. f = Some v \<and> \<not> (0 \<le> v \<and> v < 256))"
  by (auto simp: flags_outside_def split: option.split)

lemma ntfs_checks_ok:
  assumes "ntfs_change_checks n = Inr ()"
  shows "(\<forall>v. nch_access_mask n = Some v \<longrightarrow> 0 \<le> v \<and> v < 2 ^ 32) \<and> (\<forall>f. nch_ace_flags n = Some f \<longrightarrow> 0 \<le> f \<and> f < 256)
    \<and> (\<forall>i. nch_order_index n = Some i \<longrightarrow> 0 \<le> i)
    \<and> (if nch_kind n = SK_ADD_NTFS_ACE
       then (\<exists>t s. nch_trustee_sid n = Some t \<and> parse_sid t = Inr s) \<and> nch_ace_type n \<noteq> None \<and> nch_access_mask n \<noteq> None
       else given (nch_ace_key n))"
proof -
  have *: "validate_mask (nch_access_mask n) = Inr ()" "\<not> flags_outside (nch_ace_flags n)" "\<not> negative_index (nch_order_index n)"
      "ntfs_kind_checks n = Inr ()"
    using assms by (auto simp: ntfs_change_checks_def result_simps split: if_splits)
  have "if nch_kind n = SK_ADD_NTFS_ACE
       then (\<exists>t s. nch_trustee_sid n = Some t \<and> parse_sid t = Inr s) \<and> nch_ace_type n \<noteq> None \<and> nch_access_mask n \<noteq> None
       else given (nch_ace_key n)"
    using *(4) by (auto simp: ntfs_kind_checks_def require_add_fields_def given_iff result_simps split: if_splits)
  then show ?thesis using *(1-3) by (auto simp: validate_mask_ok flags_ok index_ok not_less)
qed

lemma share_checks_ok:
  assumes "share_change_checks s = Inr ()"
  shows "(\<forall>v. sch_access_mask s = Some v \<longrightarrow> 0 \<le> v \<and> v < 2 ^ 32) \<and> (\<forall>i. sch_order_index s = Some i \<longrightarrow> 0 \<le> i)
    \<and> (if sch_kind s = SK_ADD_SHARE_ACE
       then (\<exists>t v. sch_trustee_sid s = Some t \<and> parse_sid t = Inr v) \<and> sch_ace_type s \<noteq> None
         \<and> (sch_access_mask s = None \<longleftrightarrow> sch_permission s \<noteq> None)
       else given (sch_ace_key s) \<and> (sch_kind s = SK_MODIFY_SHARE_ACE \<longrightarrow> sch_access_mask s = None \<or> sch_permission s = None))"
proof -
  have *: "validate_mask (sch_access_mask s) = Inr ()" "\<not> negative_index (sch_order_index s)" "share_kind_checks s = Inr ()"
    using assms by (auto simp: share_change_checks_def result_simps split: if_splits)
  have "if sch_kind s = SK_ADD_SHARE_ACE
       then (\<exists>t v. sch_trustee_sid s = Some t \<and> parse_sid t = Inr v) \<and> sch_ace_type s \<noteq> None
         \<and> (sch_access_mask s = None \<longleftrightarrow> sch_permission s \<noteq> None)
       else given (sch_ace_key s) \<and> (sch_kind s = SK_MODIFY_SHARE_ACE \<longrightarrow> sch_access_mask s = None \<or> sch_permission s = None)"
    using *(3) by (auto simp: share_kind_checks_def given_iff result_simps split: if_splits)
  then show ?thesis using *(1,2) by (auto simp: validate_mask_ok index_ok not_less)
qed

text \<open>
  What a change's constructor accepts is well formed: keys are folded and name the object, a mask is
  a 32-bit value, a position is not negative, an addition names a SID, a type and one right form, every
  other entry change names the entry, a membership does not loop and its group's key carries a host
  exactly for a local group, and protecting a directory says what becomes of the inherited entries.
\<close>

theorem accepted_simulated_change:
  assumes "remade cf c0 = Inr c"
  shows "case c of
      Change_member m \<Rightarrow> mch_kind m \<in> {SK_ADD_MEMBER, SK_REMOVE_MEMBER} \<and> mch_group_key m \<noteq> mch_member_key m
        \<and> py_strip (mch_group_key m) \<noteq> [] \<and> py_strip (mch_member_key m) \<noteq> []
        \<and> (mch_edge_kind m = MK_LOCAL_GROUP_MEMBER \<longleftrightarrow> mch_host_key m \<noteq> None)
    | Change_ntfs n \<Rightarrow> nch_kind n \<in> NTFS_KINDS \<and> (\<exists>raw. fold_resource_key cf raw = Inr (nch_resource_key n))
        \<and> (\<forall>v. nch_access_mask n = Some v \<longrightarrow> 0 \<le> v \<and> v < 2 ^ 32) \<and> (\<forall>f. nch_ace_flags n = Some f \<longrightarrow> 0 \<le> f \<and> f < 256)
        \<and> (\<forall>i. nch_order_index n = Some i \<longrightarrow> 0 \<le> i)
        \<and> (if nch_kind n = SK_ADD_NTFS_ACE
           then (\<exists>t s. nch_trustee_sid n = Some t \<and> parse_sid t = Inr s) \<and> nch_ace_type n \<noteq> None \<and> nch_access_mask n \<noteq> None
           else given (nch_ace_key n))
    | Change_share s \<Rightarrow> sch_kind s \<in> SHARE_KINDS \<and> (\<exists>raw. fold_share_key cf raw = Inr (sch_share_key s))
        \<and> (\<forall>v. sch_access_mask s = Some v \<longrightarrow> 0 \<le> v \<and> v < 2 ^ 32) \<and> (\<forall>i. sch_order_index s = Some i \<longrightarrow> 0 \<le> i)
        \<and> (if sch_kind s = SK_ADD_SHARE_ACE
           then (\<exists>t v. sch_trustee_sid s = Some t \<and> parse_sid t = Inr v) \<and> sch_ace_type s \<noteq> None
             \<and> (sch_access_mask s = None \<longleftrightarrow> sch_permission s \<noteq> None)
           else given (sch_ace_key s) \<and> (sch_kind s = SK_MODIFY_SHARE_ACE \<longrightarrow> sch_access_mask s = None \<or> sch_permission s = None))
    | Change_inheritance i \<Rightarrow> (\<exists>raw. fold_resource_key cf raw = Inr (ich_resource_key i))
        \<and> (ich_protected i \<longleftrightarrow> ich_inherited_entries i \<noteq> None)"
proof (cases c0)
  case (Change_member m)
  then show ?thesis using assms by (auto simp: result_simps made_by)
next
  case (Change_ntfs n)
  then obtain key where c: "c = Change_ntfs (n\<lparr>nch_resource_key := key\<rparr>)" and key: "fold_resource_key cf (nch_resource_key n) = Inr key"
    and ok: "nch_kind n \<in> NTFS_KINDS" "ntfs_change_checks n = Inr ()" using assms by (auto simp: result_simps made_by)
  then show ?thesis using ntfs_checks_ok [OF ok(2)] by auto
next
  case (Change_share s)
  then obtain key where c: "c = Change_share (s\<lparr>sch_share_key := key\<rparr>)" and key: "fold_share_key cf (sch_share_key s) = Inr key"
    and ok: "sch_kind s \<in> SHARE_KINDS" "share_change_checks s = Inr ()" using assms by (auto simp: result_simps made_by)
  then show ?thesis using share_checks_ok [OF ok(2)] by auto
next
  case (Change_inheritance i)
  then show ?thesis using assms by (auto simp: result_simps made_by)
qed

theorem accepted_simulated_change_witness:
  "nch_kind sample_addition \<in> NTFS_KINDS \<and> (\<exists>t s. nch_trustee_sid sample_addition = Some t \<and> parse_sid t = Inr s)"
  using accepted_simulated_change [OF sample_addition_made] by (simp add: sample_addition_def)


end
