(* ===== verification/Adg_Simulation.thy ===== *)
theory Adg_Simulation
  imports Adg_Overlay Adg_Graph_Service "HOL-Library.Sublist"
begin

section \<open>Applying a proposal to stored rows (app/simulation/application.py)\<close>

text \<open>
  The functions that take the rows a repository read and return the rows it would have read if an
  overlay were real: membership edges, the entries of a directory and of a share, and a directory's
  own row. \<open>cf\<close> is case folding and \<open>sha\<close> the hexadecimal SHA-256 of a text. An entry an overlay
  invents or rewrites carries the source key, run and moment of no collector.
\<close>

subsection \<open>Simulated rows\<close>

definition SIMULATED_RUN_ID :: string where "SIMULATED_RUN_ID = ''00000000-0000-0000-0000-000000000000''"
definition SIMULATED_AT :: int where "SIMULATED_AT = 0"

definition simulated_row :: "'a provenance_scheme \<Rightarrow> 'a provenance_scheme" where
  "simulated_row r = r\<lparr>pv_source_key := SIMULATED_SOURCE_KEY, pv_first_observed_at := SIMULATED_AT, pv_last_observed_at := SIMULATED_AT,
     pv_first_observed_run_id := SIMULATED_RUN_ID, pv_last_observed_run_id := SIMULATED_RUN_ID\<rparr>"

definition is_simulated_record :: "'a provenance_scheme \<Rightarrow> bool" where
  "is_simulated_record r \<longleftrightarrow> pv_source_key r = SIMULATED_SOURCE_KEY"

subsection \<open>Membership\<close>

definition simulated_edge :: "membership_change \<Rightarrow> graph_edge result" where
  "simulated_edge c = mk_graph_edge \<lparr>ge_edge_key = mch_edge_key c, ge_group_key = mch_group_key c, ge_member_key = mch_member_key c,
     ge_kind = mch_edge_kind c, ge_host_key = mch_host_key c, ge_member_kind = mch_member_kind c, ge_is_foreign = False\<rparr>"

type_synonym edge_triple = "string \<times> string \<times> membership_edge_kind"

definition edge_triple :: "graph_edge \<Rightarrow> edge_triple" where
  "edge_triple e = (ge_group_key e, ge_member_key e, ge_kind e)"

definition removed_triples :: "overlay \<Rightarrow> edge_triple set" where
  "removed_triples o' = (\<lambda>c. (mch_group_key c, mch_member_key c, mch_edge_kind c))
     ` set (filter (\<lambda>c. mch_kind c = SK_REMOVE_MEMBER) (ov_membership o'))"

text \<open>\<open>asked\<close> are the keys the result has entries for.\<close>

fun add_edges :: "direction \<Rightarrow> string list \<Rightarrow> membership_change list \<Rightarrow> (string \<Rightarrow> graph_edge list) \<Rightarrow> (string \<Rightarrow> graph_edge list) result" where
  "add_edges d asked [] m = Inr m"
| "add_edges d asked (c # cs) m =
     (if mch_kind c \<noteq> SK_ADD_MEMBER then add_edges d asked cs m
      else res_bind (simulated_edge c) (\<lambda>e.
        if ge_origin d e \<notin> set asked then add_edges d asked cs m
        else if list_ex (\<lambda>f. edge_triple f = edge_triple e) (m (ge_origin d e)) then add_edges d asked cs m
        else add_edges d asked cs (m(ge_origin d e := m (ge_origin d e) @ [e]))))"

definition overlay_edges :: "overlay \<Rightarrow> direction \<Rightarrow> string list \<Rightarrow> (string \<Rightarrow> graph_edge list) \<Rightarrow> (string \<Rightarrow> graph_edge list) result" where
  "overlay_edges o' d asked baseline =
     (let start = (\<lambda>k. if k \<in> set asked then baseline k else [])
      in if ov_membership o' = [] then Inr start
         else add_edges d asked (ov_membership o') (\<lambda>k. filter (\<lambda>e. edge_triple e \<notin> removed_triples o') (start k)))"

subsection \<open>Placement\<close>

definition ace_band :: "ace_type \<Rightarrow> bool \<Rightarrow> nat" where
  "ace_band ty inherited = (if \<not> inherited then (if ty = DENY then 0 else 1) else (if ty = DENY then 2 else 3))"

text \<open>The loop over the entries, from index \<open>i\<close> with the position found so far.\<close>

fun last_within :: "nat \<Rightarrow> nat \<Rightarrow> nat \<Rightarrow> nat list \<Rightarrow> nat" where
  "last_within b i pos [] = pos"
| "last_within b i pos (x # xs) = last_within b (Suc i) (if x \<le> b then Suc i else pos) xs"

definition canonical_position :: "('a \<Rightarrow> nat) \<Rightarrow> 'a list \<Rightarrow> nat \<Rightarrow> nat" where
  "canonical_position band entries b = last_within b 0 0 (map band entries)"

definition insertion_point :: "('a \<Rightarrow> nat) \<Rightarrow> 'a list \<Rightarrow> 'a \<Rightarrow> int option \<Rightarrow> nat" where
  "insertion_point band entries candidate requested = (case requested of
       Some r \<Rightarrow> nat (max 0 (min r (int (length entries))))
     | None \<Rightarrow> canonical_position band entries (band candidate))"

text \<open>\<open>list.insert\<close>\<close>

definition insert_at :: "nat \<Rightarrow> 'a \<Rightarrow> 'a list \<Rightarrow> 'a list" where
  "insert_at i x xs = take i xs @ x # drop i xs"

definition ntfs_band :: "ntfs_ace_record \<Rightarrow> nat" where "ntfs_band e = ace_band (nar_ace_type e) (nar_is_inherited e)"

text \<open>A share entry has no \<open>is_inherited\<close>.\<close>

definition share_band :: "share_ace_record \<Rightarrow> nat" where "share_band e = ace_band (sar_ace_type e) False"

fun renumber_from :: "('a \<Rightarrow> int option) \<Rightarrow> (int \<Rightarrow> 'a \<Rightarrow> 'a) \<Rightarrow> nat \<Rightarrow> 'a list \<Rightarrow> 'a list" where
  "renumber_from at put i [] = []"
| "renumber_from at put i (x # xs) = (if at x \<noteq> Some (int i) then put (int i) x else x) # renumber_from at put (Suc i) xs"

definition renumbered :: "('a \<Rightarrow> int option) \<Rightarrow> (int \<Rightarrow> 'a \<Rightarrow> 'a) \<Rightarrow> bool \<Rightarrow> 'a list \<Rightarrow> 'a list" where
  "renumbered at put ordered entries = (if \<not> ordered then entries else renumber_from at put 0 entries)"

definition put_ntfs :: "int \<Rightarrow> ntfs_ace_record \<Rightarrow> ntfs_ace_record" where "put_ntfs i e = e\<lparr>nar_order_index := Some i\<rparr>"
definition put_share :: "int \<Rightarrow> share_ace_record \<Rightarrow> share_ace_record" where "put_share i e = e\<lparr>sar_order_index := Some i\<rparr>"

subsection \<open>A directory's entries\<close>

definition simulated_ntfs_key :: "(string \<Rightarrow> string) \<Rightarrow> string \<Rightarrow> string \<Rightarrow> ace_type \<Rightarrow> int \<Rightarrow> nat \<Rightarrow> string result" where
  "simulated_ntfs_key cf key trustee ty am flags = res_bind (parse_sid trustee) (\<lambda>s.
     res_bind (ntfs_ace_identity_key cf key s ty am flags) (\<lambda>k. Inr (SIMULATED_ACE_PREFIX @ k)))"

definition modified_ntfs_entry :: "(string \<Rightarrow> string) \<Rightarrow> ntfs_ace_record \<Rightarrow> ntfs_ace_change \<Rightarrow> ntfs_ace_record result" where
  "modified_ntfs_entry cf e c =
     (let ty = (case nch_ace_type c of None \<Rightarrow> nar_ace_type e | Some t \<Rightarrow> t);
          mask = (case nch_access_mask c of None \<Rightarrow> nar_access_mask e | Some m \<Rightarrow> m);
          flags = (case nch_ace_flags c of None \<Rightarrow> nar_ace_flags e | Some f \<Rightarrow> nat f)
      in res_bind (simulated_ntfs_key cf (nar_resource_key e) (nar_trustee_sid e) ty mask flags) (\<lambda>key.
        Inr (simulated_row (e\<lparr>nar_ace_type := ty, nar_access_mask := mask, nar_ace_flags := flags, nar_ace_key := key\<rparr>))))"

definition added_ntfs_entry :: "(string \<Rightarrow> string) \<Rightarrow> ntfs_ace_change \<Rightarrow> string \<Rightarrow> string \<Rightarrow> ntfs_ace_record result" where
  "added_ntfs_entry cf c key server = (case (nch_trustee_sid c, nch_ace_type c, nch_access_mask c) of
       (Some trustee, Some ty, Some am) \<Rightarrow>
         (let flags = (case nch_ace_flags c of None \<Rightarrow> 0 | Some f \<Rightarrow> nat f)
          in res_bind (simulated_ntfs_key cf key trustee ty am flags) (\<lambda>ace_key.
             res_bind (parse_sid trustee) (\<lambda>s.
               Inr \<lparr>pv_source_key = SIMULATED_SOURCE_KEY, pv_first_observed_at = SIMULATED_AT,
                 pv_first_observed_run_id = SIMULATED_RUN_ID, pv_last_observed_at = SIMULATED_AT,
                 pv_last_observed_run_id = SIMULATED_RUN_ID, nar_ace_key = ace_key, nar_resource_key = key,
                 nar_trustee_sid = trustee, nar_trustee_key = referenced_principal_key cf s (Some server),
                 nar_ace_type = ty, nar_access_mask = am, nar_ace_flags = flags, nar_source = EXPLICIT,
                 nar_inherited_from = None, nar_order_index = nch_order_index c\<rparr>)))
     | _ \<Rightarrow> Inl (DomainValidationError ''trustee_sid''))"

definition same_ntfs_ace :: "ntfs_ace_record \<Rightarrow> ntfs_ace_record \<Rightarrow> bool" where
  "same_ntfs_ace a b \<longleftrightarrow> nar_trustee_key a = nar_trustee_key b \<and> nar_ace_type a = nar_ace_type b
     \<and> nar_access_mask a = nar_access_mask b \<and> nar_ace_flags a = nar_ace_flags b"

text \<open>\<open>{change.ace_key: change ...}\<close>: the last change of a key wins.\<close>

definition change_by_key :: "('a \<Rightarrow> string option) \<Rightarrow> 'a list \<Rightarrow> string \<Rightarrow> 'a option" where
  "change_by_key key_of changes k = find (\<lambda>c. key_of c = Some k) (rev changes)"

definition edited_ntfs_entry :: "(string \<Rightarrow> string) \<Rightarrow> ntfs_ace_change list \<Rightarrow> ntfs_ace_record \<Rightarrow> ntfs_ace_record list result" where
  "edited_ntfs_entry cf changes e = (case change_by_key nch_ace_key changes (nar_ace_key e) of
       None \<Rightarrow> Inr [e]
     | Some c \<Rightarrow> if nch_kind c = SK_REMOVE_NTFS_ACE then Inr []
         else res_bind (modified_ntfs_entry cf e c) (\<lambda>e'. Inr [e']))"

fun add_ntfs_entries :: "(string \<Rightarrow> string) \<Rightarrow> string \<Rightarrow> string \<Rightarrow> ntfs_ace_change list \<Rightarrow> ntfs_ace_record list \<Rightarrow> ntfs_ace_record list result" where
  "add_ntfs_entries cf key server [] res = Inr res"
| "add_ntfs_entries cf key server (c # cs) res =
     (if nch_kind c \<noteq> SK_ADD_NTFS_ACE then add_ntfs_entries cf key server cs res
      else res_bind (added_ntfs_entry cf c key server) (\<lambda>cand.
        if list_ex (\<lambda>e. same_ntfs_ace e cand) res then add_ntfs_entries cf key server cs res
        else add_ntfs_entries cf key server cs (insert_at (insertion_point ntfs_band res cand (nch_order_index c)) cand res)))"

definition apply_ntfs_ace_changes ::
  "(string \<Rightarrow> string) \<Rightarrow> ntfs_ace_record list \<Rightarrow> ntfs_ace_change list \<Rightarrow> string \<Rightarrow> ntfs_ace_record list result" where
  "apply_ntfs_ace_changes cf entries changes key =
     res_bind (res_map (edited_ntfs_entry cf changes) entries) (\<lambda>edited.
     res_bind (parse_unc_path key) (\<lambda>p. add_ntfs_entries cf key (unc_server p) changes (concat edited)))"

text \<open>\<open>flags & ~INHERITED\<close> clears bit 4.\<close>

definition converted_to_explicit :: "(string \<Rightarrow> string) \<Rightarrow> ntfs_ace_record \<Rightarrow> ntfs_ace_record result" where
  "converted_to_explicit cf e =
     (let flags = unset_bit 4 (nar_ace_flags e)
      in res_bind (simulated_ntfs_key cf (nar_resource_key e) (nar_trustee_sid e) (nar_ace_type e) (nar_access_mask e) flags) (\<lambda>key.
        Inr (simulated_row (e\<lparr>nar_source := EXPLICIT, nar_ace_flags := flags, nar_inherited_from := None, nar_ace_key := key\<rparr>))))"

definition projected_record :: "(string \<Rightarrow> string) \<Rightarrow> acl_ace_facts \<Rightarrow> string \<Rightarrow> string \<Rightarrow> string option \<Rightarrow> ntfs_ace_record result" where
  "projected_record cf f key server parent_key =
     res_bind (simulated_ntfs_key cf key (af_trustee_sid f) (af_ace_type f) (uint (af_access_mask f)) (af_ace_flags f)) (\<lambda>ace_key.
     res_bind (parse_sid (af_trustee_sid f)) (\<lambda>s.
       Inr \<lparr>pv_source_key = SIMULATED_SOURCE_KEY, pv_first_observed_at = SIMULATED_AT, pv_first_observed_run_id = SIMULATED_RUN_ID,
         pv_last_observed_at = SIMULATED_AT, pv_last_observed_run_id = SIMULATED_RUN_ID, nar_ace_key = ace_key,
         nar_resource_key = key, nar_trustee_sid = af_trustee_sid f,
         nar_trustee_key = referenced_principal_key cf s (Some server), nar_ace_type = af_ace_type f,
         nar_access_mask = uint (af_access_mask f), nar_ace_flags = af_ace_flags f,
         nar_source = (if has_flag (af_ace_flags f) AF_INHERITED then INHERITED else EXPLICIT),
         nar_inherited_from = parent_key, nar_order_index = af_order_index f\<rparr>))"

definition apply_inheritance ::
  "(string \<Rightarrow> string) \<Rightarrow> ntfs_ace_record list \<Rightarrow> inheritance_change \<Rightarrow> ntfs_ace_record list option \<Rightarrow> bool \<Rightarrow> ntfs_ace_record list result" where
  "apply_inheritance cf entries c parent_entries for_container =
     (if ich_protected c then
        (if ich_inherited_entries c = Some REMOVE_INHERITED then Inr (filter (\<lambda>e. \<not> nar_is_inherited e) entries)
         else res_map (\<lambda>e. if nar_is_inherited e then converted_to_explicit cf e else Inr e) entries)
      else (case parent_entries of
          None \<Rightarrow> Inr entries
        | Some parents \<Rightarrow>
            res_bind (res_map acl_facts parents) (\<lambda>facts.
            res_bind (project_inherited_acl (map Inl facts) for_container) (\<lambda>projected.
            let parent_key = (if parents = [] then None else Some (nar_resource_key (hd parents)));
                key = (if entries = [] then ich_resource_key c else nar_resource_key (hd entries))
            in res_bind (parse_unc_path key) (\<lambda>p.
               res_bind (res_map (\<lambda>f. projected_record cf f key (unc_server p) parent_key) projected) (\<lambda>inherited.
                 Inr (filter (\<lambda>e. \<not> nar_is_inherited e) entries @ inherited)))))))"

definition overlay_ntfs_acl ::
  "(string \<Rightarrow> string) \<Rightarrow> overlay \<Rightarrow> string \<Rightarrow> ntfs_ace_record list \<Rightarrow> ntfs_ace_record list option \<Rightarrow> bool \<Rightarrow> ntfs_ace_record list result" where
  "overlay_ntfs_acl cf o' key baseline parent_entries for_container =
     (let folded = cf key; changes = ntfs_changes_for cf o' folded; inheritance = inheritance_change_for cf o' folded
      in if changes = [] \<and> inheritance = None then Inr baseline
         else res_bind (apply_ntfs_ace_changes cf baseline changes folded) (\<lambda>entries.
           res_bind (case inheritance of None \<Rightarrow> Inr entries
             | Some c \<Rightarrow> apply_inheritance cf entries c parent_entries for_container) (\<lambda>entries'.
             Inr (renumbered nar_order_index put_ntfs (list_all (\<lambda>e. nar_order_index e \<noteq> None) baseline) entries'))))"

subsection \<open>A directory's own row\<close>

definition simulated_digest :: "(string \<Rightarrow> string) \<Rightarrow> bool \<Rightarrow> bool \<Rightarrow> ntfs_ace_record list \<Rightarrow> string option result" where
  "simulated_digest sha present prot entries =
     (if \<not> present \<and> entries \<noteq> [] then Inr None
      else res_bind (res_map acl_facts entries) (\<lambda>facts. res_bind (acl_hash sha present prot (map Inl facts)) (\<lambda>h. Inr (Some h))))"

definition overlay_resource ::
  "(string \<Rightarrow> string) \<Rightarrow> (string \<Rightarrow> string) \<Rightarrow> overlay \<Rightarrow> ntfs_resource_record \<Rightarrow> ntfs_ace_record list \<Rightarrow> ntfs_resource_record result" where
  "overlay_resource sha cf o' r entries =
     (let folded = cf (nrr_resource_key r); inheritance = inheritance_change_for cf o' folded
      in if inheritance = None \<and> ntfs_changes_for cf o' folded = [] then Inr r
         else
           (let prot = (case inheritance of None \<Rightarrow> nrr_dacl_protected r | Some c \<Rightarrow> ich_protected c);
                (reason, boundary) =
                  (case inheritance of None \<Rightarrow> (nrr_boundary_reason r, nrr_is_acl_boundary r)
                   | Some c \<Rightarrow> if prot then (Some BR_PROTECTED_DACL, True)
                       else if nrr_boundary_reason r = Some BR_PROTECTED_DACL then (None, False)
                       else (nrr_boundary_reason r, nrr_is_acl_boundary r))
            in res_bind (simulated_digest sha (nrr_dacl_present r) prot entries) (\<lambda>digest.
              Inr (simulated_row (r\<lparr>nrr_dacl_protected := prot, nrr_inheritance_enabled := \<not> prot, nrr_is_acl_boundary := boundary,
                nrr_boundary_reason := reason, nrr_ace_count := int (length entries), nrr_acl_hash := digest\<rparr>)))))"

definition resource_is_container :: "ntfs_resource_record option \<Rightarrow> bool" where
  "resource_is_container r \<longleftrightarrow> (case r of None \<Rightarrow> True | Some x \<Rightarrow> nrr_resource_kind x = RK_DIRECTORY)"

subsection \<open>A share's entries\<close>

definition simulated_share_key :: "(string \<Rightarrow> string) \<Rightarrow> string \<Rightarrow> string \<Rightarrow> ace_type \<Rightarrow> string \<Rightarrow> string result" where
  "simulated_share_key cf key trustee ty token = res_bind (parse_sid trustee) (\<lambda>s.
     Inr (SIMULATED_ACE_PREFIX @ share_ace_identity_key cf key s ty token))"

definition modified_share_entry :: "(string \<Rightarrow> string) \<Rightarrow> share_ace_record \<Rightarrow> share_ace_change \<Rightarrow> share_ace_record result" where
  "modified_share_entry cf e c =
     (let ty = (case sch_ace_type c of None \<Rightarrow> sar_ace_type e | Some t \<Rightarrow> t);
          (mask, permission) =
            (if sch_access_mask c \<noteq> None then (sch_access_mask c, None)
             else if sch_permission c \<noteq> None then (None, sch_permission c)
             else (sar_access_mask e, sar_permission e));
          token = share_ace_right_token mask permission
      in res_bind (simulated_share_key cf (sar_share_key e) (sar_trustee_sid e) ty token) (\<lambda>key.
        Inr (simulated_row (e\<lparr>sar_ace_type := ty, sar_access_mask := mask, sar_permission := permission,
          sar_right_token := token, sar_ace_key := key\<rparr>))))"

definition added_share_entry :: "(string \<Rightarrow> string) \<Rightarrow> share_ace_change \<Rightarrow> share_ace_record result" where
  "added_share_entry cf c = (case (sch_trustee_sid c, sch_ace_type c) of
       (Some trustee, Some ty) \<Rightarrow>
         res_bind (sch_trustee_key cf c) (\<lambda>k.
         let token = share_ace_right_token (sch_access_mask c) (sch_permission c)
         in res_bind (simulated_share_key cf (sch_share_key c) trustee ty token) (\<lambda>key.
           Inr \<lparr>pv_source_key = SIMULATED_SOURCE_KEY, pv_first_observed_at = SIMULATED_AT, pv_first_observed_run_id = SIMULATED_RUN_ID,
             pv_last_observed_at = SIMULATED_AT, pv_last_observed_run_id = SIMULATED_RUN_ID, sar_ace_key = key,
             sar_share_key = sch_share_key c, sar_trustee_sid = trustee,
             sar_trustee_key = (case k of Some t \<Rightarrow> if t = [] then trustee else t | None \<Rightarrow> trustee),
             sar_ace_type = ty, sar_access_mask = sch_access_mask c, sar_permission = sch_permission c,
             sar_right_token = token, sar_order_index = sch_order_index c\<rparr>))
     | _ \<Rightarrow> Inl (DomainValidationError ''trustee_sid''))"

definition same_share_ace :: "share_ace_record \<Rightarrow> share_ace_record \<Rightarrow> bool" where
  "same_share_ace a b \<longleftrightarrow> sar_trustee_key a = sar_trustee_key b \<and> sar_ace_type a = sar_ace_type b \<and> sar_right_token a = sar_right_token b"

definition edited_share_entry :: "(string \<Rightarrow> string) \<Rightarrow> share_ace_change list \<Rightarrow> share_ace_record \<Rightarrow> share_ace_record list result" where
  "edited_share_entry cf changes e = (case change_by_key sch_ace_key changes (sar_ace_key e) of
       None \<Rightarrow> Inr [e]
     | Some c \<Rightarrow> if sch_kind c = SK_REMOVE_SHARE_ACE then Inr []
         else res_bind (modified_share_entry cf e c) (\<lambda>e'. Inr [e']))"

fun add_share_entries :: "(string \<Rightarrow> string) \<Rightarrow> share_ace_change list \<Rightarrow> share_ace_record list \<Rightarrow> share_ace_record list result" where
  "add_share_entries cf [] res = Inr res"
| "add_share_entries cf (c # cs) res =
     (if sch_kind c \<noteq> SK_ADD_SHARE_ACE then add_share_entries cf cs res
      else res_bind (added_share_entry cf c) (\<lambda>cand.
        if list_ex (\<lambda>e. same_share_ace e cand) res then add_share_entries cf cs res
        else add_share_entries cf cs (insert_at (insertion_point share_band res cand (sch_order_index c)) cand res)))"

definition overlay_share_acl :: "(string \<Rightarrow> string) \<Rightarrow> overlay \<Rightarrow> string \<Rightarrow> share_ace_record list \<Rightarrow> share_ace_record list result" where
  "overlay_share_acl cf o' key baseline =
     (let changes = share_changes_for cf o' (cf key)
      in if changes = [] \<or> baseline = [] then Inr baseline
         else res_bind (res_map (edited_share_entry cf changes) baseline) (\<lambda>edited.
           res_bind (add_share_entries cf changes (concat edited)) (\<lambda>entries.
             Inr (renumbered sar_order_index put_share (list_all (\<lambda>e. sar_order_index e \<noteq> None) baseline) entries))))"


subsection \<open>Placement keeps the canonical order\<close>

lemma last_within_sorted:
  "sorted xs \<Longrightarrow> last_within b i pos xs = (if filter (\<lambda>x. x \<le> b) xs = [] then pos else i + length (filter (\<lambda>x. x \<le> b) xs))"
proof (induction xs arbitrary: i pos)
  case (Cons x xs)
  have "\<not> x \<le> b \<Longrightarrow> filter (\<lambda>x. x \<le> b) xs = []"
    using Cons.prems by (auto simp: filter_empty_conv)
  then show ?case using Cons by auto
qed simp

lemma canonical_position_sorted:
  assumes "sorted (map band xs)"
  shows "canonical_position band xs b = length (filter (\<lambda>x. band x \<le> b) xs)"
  using last_within_sorted [OF assms, of b 0 0]
  by (auto simp: canonical_position_def filter_map comp_def split: if_splits)

lemma sorted_filter_split:
  assumes "sorted (map band xs)"
  shows "take (length (filter (\<lambda>x. band x \<le> b) xs)) xs = filter (\<lambda>x. band x \<le> b) xs
    \<and> drop (length (filter (\<lambda>x. band x \<le> b) xs)) xs = filter (\<lambda>x. \<not> band x \<le> b) xs"
  using assms
proof (induction xs)
  case (Cons x xs)
  show ?case
  proof (cases "band x \<le> b")
    case False
    then have "\<forall>y \<in> set (x # xs). \<not> band y \<le> b" using Cons.prems by auto
    then have "filter (\<lambda>x. band x \<le> b) (x # xs) = []" "filter (\<lambda>x. \<not> band x \<le> b) (x # xs) = x # xs"
      by (auto simp: filter_empty_conv filter_id_conv)
    then show ?thesis by (simp only: list.size take_0 drop_0)
  qed (use Cons in auto)
qed simp

lemma insert_canonically:
  assumes "sorted (map band xs)"
  shows "sorted (map band (insert_at (canonical_position band xs (band x)) x xs))"
proof -
  let ?le = "filter (\<lambda>y. band y \<le> band x) xs" and ?gt = "filter (\<lambda>y. \<not> band y \<le> band x) xs"
  have "insert_at (canonical_position band xs (band x)) x xs = ?le @ x # ?gt"
    using sorted_filter_split [OF assms, of "band x"] by (simp add: insert_at_def canonical_position_sorted [OF assms])
  moreover have "sorted (map band ?le)" "sorted (map band ?gt)"
    using sorted_filter [OF assms] by simp_all
  ultimately show ?thesis by (fastforce simp: sorted_append)
qed

lemma set_insert_at [simp]: "set (insert_at i x xs) = insert x (set xs)"
  using append_take_drop_id [of i xs] by (metis (no_types) Un_insert_right insert_at_def list.simps(15) set_append)

lemma insert_at_not_Nil [simp]: "insert_at i x xs \<noteq> []"
  by (simp add: insert_at_def)

subsection \<open>Numbering\<close>

text \<open>What the two kinds of entry have in common: a position that can be written.\<close>

locale numbered_rows =
  fixes at :: "'a \<Rightarrow> int option" and put :: "int \<Rightarrow> 'a \<Rightarrow> 'a"
  assumes at_put: "at (put i x) = Some i"
begin

lemma renumber_positions: "map at (renumber_from at put i xs) = map (\<lambda>k. Some (int k)) [i ..< i + length xs]"
proof (induction xs arbitrary: i)
  case (Cons x xs)
  have "[i ..< i + length (x # xs)] = i # [Suc i ..< Suc i + length xs]"
    using upt_conv_Cons [of i "i + length (x # xs)"] by simp
  with Cons [of "Suc i"] at_put show ?case by simp
qed simp

lemma renumber_pointwise: "list_all2 (\<lambda>x y. y = x \<or> (\<exists>k. y = put k x)) xs (renumber_from at put i xs)"
  by (induction xs arbitrary: i) auto

lemma renumber_placed: "map at xs = map (\<lambda>k. Some (int k)) [i ..< i + length xs] \<Longrightarrow> renumber_from at put i xs = xs"
proof (induction xs arbitrary: i)
  case (Cons x xs)
  have u: "[i ..< i + length (x # xs)] = i # [Suc i ..< Suc i + length xs]"
    using upt_conv_Cons [of i "i + length (x # xs)"] by simp
  have "at x = Some (int i)" "map at xs = map (\<lambda>k. Some (int k)) [Suc i ..< Suc i + length xs]"
    using Cons.prems unfolding u by simp_all
  then show ?case using Cons.IH [of "Suc i"] by simp
qed simp

lemma renumbered_image:
  assumes "\<And>k x. f (put k x) = f x"
  shows "map f (renumbered at put ordered xs) = map f xs"
proof -
  have "map f (renumber_from at put i xs) = map f xs" for i
    by (induction xs arbitrary: i) (simp_all add: assms)
  then show ?thesis by (simp add: renumbered_def)
qed

end

interpretation ntfs_rows: numbered_rows nar_order_index put_ntfs
  by unfold_locales (simp add: put_ntfs_def)

interpretation share_rows: numbered_rows sar_order_index put_share
  by unfold_locales (simp add: put_share_def)


subsection \<open>Valid rows\<close>

text \<open>A stored entry whose facts the domain type accepts.\<close>

definition row_ok :: "ntfs_ace_record \<Rightarrow> bool" where "row_ok e \<longleftrightarrow> returns (acl_facts e)"

lemma row_ok_iff:
  "row_ok e \<longleftrightarrow> returns (parse_sid (nar_trustee_sid e)) \<and> 0 \<le> nar_access_mask e \<and> nar_access_mask e \<le> MAX_ACCESS_MASK
    \<and> int (nar_ace_flags e) \<le> MAX_ACE_FLAGS \<and> \<not> negative_index (nar_order_index e)"
  by (auto simp: row_ok_def acl_facts_def mk_acl_ace_facts_def result_simps returns_def)

lemma simulated_ntfs_key_returns:
  "returns (simulated_ntfs_key cf key trustee ty am flags)
    \<longleftrightarrow> returns (parse_sid trustee) \<and> 0 \<le> am \<and> am \<le> MAX_ACCESS_MASK"
  by (auto simp: simulated_ntfs_key_def ntfs_ace_identity_key_def validate_access_mask_def result_simps returns_def)

text \<open>What an accepted entry change carries is in range.\<close>

definition change_ok :: "ntfs_ace_change \<Rightarrow> bool" where
  "change_ok c \<longleftrightarrow> (\<forall>m. nch_access_mask c = Some m \<longrightarrow> 0 \<le> m \<and> m \<le> MAX_ACCESS_MASK)
     \<and> (\<forall>f. nch_ace_flags c = Some f \<longrightarrow> 0 \<le> f \<and> f \<le> MAX_ACE_FLAGS) \<and> \<not> negative_index (nch_order_index c)
     \<and> (nch_kind c = SK_ADD_NTFS_ACE \<longrightarrow> nch_ace_type c \<noteq> None \<and> nch_access_mask c \<noteq> None
          \<and> (\<exists>t. nch_trustee_sid c = Some t \<and> returns (parse_sid t)))"

lemma accepted_change_ok:
  assumes "remade cf c0 = Inr (Change_ntfs n)"
  shows "change_ok n"
proof (cases c0)
  case (Change_ntfs n0)
  then have "ntfs_change_checks n = Inr ()" using assms by (auto simp: result_simps made_by)
  then show ?thesis
    using ntfs_checks_ok [of n]
    by (auto simp: change_ok_def MAX_ACCESS_MASK_def MAX_ACE_FLAGS_def index_ok not_less returns_def split: if_splits)
qed (use assms in \<open>auto simp: result_simps\<close>)

lemma simulated_row_ntfs [simp]:
  "nar_ace_key (simulated_row e) = nar_ace_key e" "nar_resource_key (simulated_row e) = nar_resource_key e"
  "nar_trustee_sid (simulated_row e) = nar_trustee_sid e" "nar_trustee_key (simulated_row e) = nar_trustee_key e"
  "nar_ace_type (simulated_row e) = nar_ace_type e" "nar_access_mask (simulated_row e) = nar_access_mask e"
  "nar_ace_flags (simulated_row e) = nar_ace_flags e" "nar_source (simulated_row e) = nar_source e"
  "nar_inherited_from (simulated_row e) = nar_inherited_from e" "nar_order_index (simulated_row e) = nar_order_index e"
  by (simp_all add: simulated_row_def)

lemma modified_ok:
  assumes "row_ok e" "change_ok c"
  shows "\<exists>e'. modified_ntfs_entry cf e c = Inr e' \<and> row_ok e' \<and> nar_order_index e' = nar_order_index e
    \<and> nar_source e' = nar_source e \<and> nar_resource_key e' = nar_resource_key e"
proof -
  have "returns (modified_ntfs_entry cf e c)"
    using assms by (auto simp: modified_ntfs_entry_def Let_def returns_bind simulated_ntfs_key_returns row_ok_iff change_ok_def
        simp flip: returns_def split: option.split)
  then show ?thesis
    using assms by (auto simp: returns_def modified_ntfs_entry_def Let_def result_simps row_ok_iff change_ok_def split: option.splits)
qed

lemma added_ok:
  assumes "change_ok c" "nch_kind c = SK_ADD_NTFS_ACE"
  shows "\<exists>e. added_ntfs_entry cf c key server = Inr e \<and> row_ok e \<and> nar_order_index e = nch_order_index c
    \<and> nar_source e = EXPLICIT \<and> nar_resource_key e = key"
proof -
  obtain t ty m where c: "nch_trustee_sid c = Some t" "nch_ace_type c = Some ty" "nch_access_mask c = Some m"
    "returns (parse_sid t)" "0 \<le> m" "m \<le> MAX_ACCESS_MASK"
    using assms by (auto simp: change_ok_def)
  let ?flags = "case nch_ace_flags c of None \<Rightarrow> 0 | Some f \<Rightarrow> nat f"
  obtain k s where "simulated_ntfs_key cf key t ty m ?flags = Inr k" "parse_sid t = Inr s"
    using simulated_ntfs_key_returns [of cf key t ty m ?flags] c by (auto simp: returns_def)
  moreover have "int ?flags \<le> MAX_ACE_FLAGS" using assms(1) by (auto simp: change_ok_def MAX_ACE_FLAGS_def split: option.split)
  ultimately show ?thesis
    using c assms(1) by (simp add: added_ntfs_entry_def Let_def row_ok_iff change_ok_def)
qed

lemma converted_ok:
  assumes "row_ok e"
  shows "\<exists>e'. converted_to_explicit cf e = Inr e' \<and> row_ok e' \<and> nar_order_index e' = nar_order_index e
    \<and> nar_source e' = EXPLICIT \<and> nar_trustee_key e' = nar_trustee_key e \<and> nar_ace_type e' = nar_ace_type e
    \<and> nar_access_mask e' = nar_access_mask e \<and> nar_ace_flags e' = unset_bit 4 (nar_ace_flags e)"
proof -
  have "unset_bit 4 (nar_ace_flags e) \<le> nar_ace_flags e" by (metis of_nat_unset_bit_eq of_nat_le_iff unset_bit_less_eq)
  then have f: "int (unset_bit 4 (nar_ace_flags e)) \<le> MAX_ACE_FLAGS" using assms by (simp add: row_ok_iff)
  have "returns (converted_to_explicit cf e)"
    using assms by (auto simp: converted_to_explicit_def Let_def returns_bind simulated_ntfs_key_returns row_ok_iff simp flip: returns_def)
  then show ?thesis
    using assms f by (auto simp: returns_def converted_to_explicit_def Let_def result_simps row_ok_iff)
qed

lemma projected_ok:
  assumes "facts_ok f"
  shows "\<exists>e. projected_record cf f key server pk = Inr e \<and> acl_facts e = Inr f"
proof -
  have facts: "mk_acl_ace_facts (af_trustee_sid f) (af_ace_type f) (uint (af_access_mask f)) (int (af_ace_flags f)) (af_order_index f) = Inr f"
    using facts_rebuild [OF assms, of "af_order_index f" "af_ace_flags f" "af_access_mask f"] assms
    by (simp add: facts_ok_def MAX_ACE_FLAGS_def)
  then obtain s where s: "parse_sid (af_trustee_sid f) = Inr s" "uint (af_access_mask f) \<le> MAX_ACCESS_MASK"
    by (auto simp: mk_acl_ace_facts_def result_simps split: if_splits)
  then obtain k where "simulated_ntfs_key cf key (af_trustee_sid f) (af_ace_type f) (uint (af_access_mask f)) (af_ace_flags f) = Inr k"
    using simulated_ntfs_key_returns [of cf key "af_trustee_sid f" "af_ace_type f" "uint (af_access_mask f)" "af_ace_flags f"]
    by (auto simp: returns_def)
  with s facts show ?thesis by (simp add: projected_record_def acl_facts_def)
qed


subsection \<open>What a simulated DACL holds\<close>

definition unplaced :: "ntfs_ace_record \<Rightarrow> ntfs_ace_record" where "unplaced e = e\<lparr>nar_order_index := None\<rparr>"

text \<open>
  What a proposal leaves of one entry: itself where no change names it, nothing where the change that
  names it is a removal, and the entry as the change rewrites it otherwise. The additions.
\<close>

definition entry_outcome :: "(string \<Rightarrow> string) \<Rightarrow> ntfs_ace_change list \<Rightarrow> ntfs_ace_record \<Rightarrow> ntfs_ace_record list \<Rightarrow> bool" where
  "entry_outcome cf cs e r \<longleftrightarrow> (\<forall>c \<in> set cs. nch_ace_key c \<noteq> Some (nar_ace_key e)) \<and> r = [e]
     \<or> (\<exists>c \<in> set cs. nch_ace_key c = Some (nar_ace_key e) \<and> (\<forall>d \<in> set cs. nch_ace_key d = Some (nar_ace_key e) \<longrightarrow> d = c)
          \<and> (if nch_kind c = SK_REMOVE_NTFS_ACE then r = [] else \<exists>e'. modified_ntfs_entry cf e c = Inr e' \<and> r = [e']))"

definition candidate_entries :: "(string \<Rightarrow> string) \<Rightarrow> string \<Rightarrow> string \<Rightarrow> ntfs_ace_change list \<Rightarrow> ntfs_ace_record set" where
  "candidate_entries cf key server cs = {a. \<exists>c \<in> set cs. nch_kind c = SK_ADD_NTFS_ACE \<and> added_ntfs_entry cf c key server = Inr a}"

lemma change_by_key_Some:
  assumes "change_by_key key_of cs k = Some c"
  shows "c \<in> set cs \<and> key_of c = Some k"
proof -
  have "c \<in> set (rev cs) \<and> key_of c = Some k"
    using assms unfolding change_by_key_def find_Some_iff by (metis nth_mem)
  then show ?thesis by simp
qed

lemma change_by_key_None: "change_by_key key_of cs k = None \<longleftrightarrow> (\<forall>c \<in> set cs. key_of c \<noteq> Some k)"
  by (auto simp: change_by_key_def find_None_iff)

lemma edited_ok:
  assumes "row_ok e" "\<forall>c \<in> set cs. change_ok c"
  shows "\<exists>es. edited_ntfs_entry cf cs e = Inr es \<and> (\<forall>e' \<in> set es. row_ok e' \<and> nar_source e' = nar_source e \<and> nar_resource_key e' = nar_resource_key e)"
proof (cases "change_by_key nch_ace_key cs (nar_ace_key e)")
  case None
  then show ?thesis using assms by (simp add: edited_ntfs_entry_def)
next
  case (Some c)
  then have "change_ok c" using change_by_key_Some assms(2) by metis
  from modified_ok [OF assms(1) this, of cf] Some show ?thesis by (auto simp: edited_ntfs_entry_def)
qed

lemma all_edited_ok:
  assumes "\<forall>e \<in> set es. row_ok e" "\<forall>c \<in> set cs. change_ok c"
  shows "\<exists>ess. res_map (edited_ntfs_entry cf cs) es = Inr ess \<and> (\<forall>e \<in> set (concat ess). row_ok e)
    \<and> list_all2 (\<lambda>e r. edited_ntfs_entry cf cs e = Inr r) es ess"
  using assms
proof (induction es)
  case (Cons e es)
  from edited_ok [of e cs cf] Cons.prems obtain r where "edited_ntfs_entry cf cs e = Inr r" "\<forall>x \<in> set r. row_ok x" by auto
  with Cons show ?case by auto
qed simp

lemma set_concat_edited:
  "list_all2 (\<lambda>e r. f e = Inr r) es ess \<Longrightarrow> set (concat ess) = {x. \<exists>e \<in> set es. \<exists>r. f e = Inr r \<and> x \<in> set r}"
  by (induction rule: list_all2_induct) auto

definition permission :: "ntfs_ace_record \<Rightarrow> string \<times> ace_type \<times> int \<times> nat" where
  "permission e = (nar_trustee_key e, nar_ace_type e, nar_access_mask e, nar_ace_flags e)"

lemma same_ntfs_ace_permission: "same_ntfs_ace a b \<longleftrightarrow> permission a = permission b"
  by (auto simp: same_ntfs_ace_def permission_def)

lemma distinct_insert_at: "f x \<notin> f ` set xs \<Longrightarrow> distinct (map f xs) \<Longrightarrow> distinct (map f (insert_at i x xs))"
proof -
  assume "f x \<notin> f ` set xs" "distinct (map f xs)"
  moreover have "mset (insert_at i x xs) = mset (x # xs)"
    unfolding insert_at_def using union_code [of "take i xs" "drop i xs"] by simp
  then have "mset (map f (insert_at i x xs)) = mset (map f (x # xs))" unfolding mset_map by simp
  ultimately show ?thesis using mset_eq_imp_distinct_iff by fastforce
qed

text \<open>The additions that are not there already, each permission once, given the permissions there are.\<close>

fun fresh_additions ::
  "(string \<Rightarrow> string) \<Rightarrow> string \<Rightarrow> string \<Rightarrow> (string \<times> ace_type \<times> int \<times> nat) set \<Rightarrow> ntfs_ace_change list \<Rightarrow> ntfs_ace_record list" where
  "fresh_additions cf key server there [] = []"
| "fresh_additions cf key server there (c # cs) =
     (case added_ntfs_entry cf c key server of
        Inl _ \<Rightarrow> fresh_additions cf key server there cs
      | Inr a \<Rightarrow> if nch_kind c \<noteq> SK_ADD_NTFS_ACE \<or> permission a \<in> there then fresh_additions cf key server there cs
          else a # fresh_additions cf key server (insert (permission a) there) cs)"

lemma mset_insert_at: "mset (insert_at k x xs) = add_mset x (mset xs)"
  unfolding insert_at_def using union_code [of "take k xs" "drop k xs"] by simp

lemma subseq_insert_at: "subseq xs (insert_at k x xs)"
proof -
  have "subseq (take k xs @ drop k xs) (take k xs @ x # drop k xs)" by (intro list_emb_append_mono) auto
  then show ?thesis by (simp add: insert_at_def)
qed

lemma listed_permission: "list_ex (\<lambda>e. same_ntfs_ace e a) res \<longleftrightarrow> permission a \<in> permission ` set res"
  by (induction res) (auto simp: same_ntfs_ace_permission)

lemma added_in_place:
  assumes "add_ntfs_entries cf key server cs res = Inr res'"
  shows "subseq res res' \<and> mset res' = mset res + mset (fresh_additions cf key server (permission ` set res) cs)"
  using assms
proof (induction cs arbitrary: res)
  case (Cons c cs)
  show ?case
  proof (cases "nch_kind c = SK_ADD_NTFS_ACE")
    case False
    then show ?thesis using Cons by (auto split: sum.splits)
  next
    case True
    then obtain a where a: "added_ntfs_entry cf c key server = Inr a" using Cons.prems by (auto simp: result_simps)
    note dup = listed_permission [of a res]
    show ?thesis
    proof (cases "permission a \<in> permission ` set res")
      case True
      with \<open>nch_kind c = SK_ADD_NTFS_ACE\<close> a dup Cons show ?thesis by simp
    next
      case False
      let ?ins = "insert_at (insertion_point ntfs_band res a (nch_order_index c)) a res"
      have "add_ntfs_entries cf key server cs ?ins = Inr res'" using Cons.prems True a False dup by simp
      from Cons.IH [OF this] show ?thesis
        using True a False subseq_insert_at [of res "insertion_point ntfs_band res a (nch_order_index c)" a]
          subseq_order.trans by (auto simp: mset_insert_at)
    qed
  qed
qed simp

lemma add_entries_append:
  "add_ntfs_entries cf key server (cs @ ds) res = res_bind (add_ntfs_entries cf key server cs res) (add_ntfs_entries cf key server ds)"
proof (induction cs arbitrary: res)
  case (Cons c cs)
  then show ?case by (cases "added_ntfs_entry cf c key server") simp_all
qed simp

lemma nth_insert_at: "k \<le> length xs \<Longrightarrow> insert_at k x xs ! k = x \<and> length (insert_at k x xs) = Suc (length xs)"
  by (simp add: insert_at_def nth_append)

lemma added_entries:
  assumes "\<forall>c \<in> set cs. change_ok c"
  shows "\<exists>res'. add_ntfs_entries cf key server cs res = Inr res' \<and> set res \<subseteq> set res'
    \<and> set res' \<subseteq> set res \<union> candidate_entries cf key server cs
    \<and> (\<forall>a \<in> candidate_entries cf key server cs. \<exists>e \<in> set res'. same_ntfs_ace e a)
    \<and> (distinct (map permission res) \<longrightarrow> distinct (map permission res'))
    \<and> ((\<forall>c \<in> set cs. nch_order_index c = None) \<and> sorted (map ntfs_band res) \<longrightarrow> sorted (map ntfs_band res'))"
  using assms
proof (induction cs arbitrary: res)
  case Nil
  then show ?case by (simp add: candidate_entries_def)
next
  case (Cons c cs)
  show ?case
  proof (cases "nch_kind c = SK_ADD_NTFS_ACE")
    case False
    then have "candidate_entries cf key server (c # cs) = candidate_entries cf key server cs"
      by (auto simp: candidate_entries_def)
    then show ?thesis using Cons.IH [of res] Cons.prems False by auto
  next
    case True
    obtain a where a: "added_ntfs_entry cf c key server = Inr a" using added_ok True Cons.prems by fastforce
    then have cand: "candidate_entries cf key server (c # cs) = insert a (candidate_entries cf key server cs)"
      using True by (auto simp: candidate_entries_def)
    let ?ins = "insert_at (insertion_point ntfs_band res a (nch_order_index c)) a res"
    define next_res where "next_res = (if list_ex (\<lambda>e. same_ntfs_ace e a) res then res else ?ins)"
    have step: "add_ntfs_entries cf key server (c # cs) res = add_ntfs_entries cf key server cs next_res"
      using True a by (simp add: next_res_def)
    have there: "\<exists>e \<in> set next_res. same_ntfs_ace e a" by (auto simp: next_res_def list_ex_iff same_ntfs_ace_permission)
    have grows: "set res \<subseteq> set next_res" "set next_res \<subseteq> insert a (set res)" by (auto simp: next_res_def)
    have once: "distinct (map permission next_res)" if "distinct (map permission res)"
    proof (cases "list_ex (\<lambda>e. same_ntfs_ace e a) res")
      case False
      then have "permission a \<notin> permission ` set res" by (force simp: list_ex_iff same_ntfs_ace_permission)
      then show ?thesis using distinct_insert_at [OF _ that] False by (simp add: next_res_def)
    qed (simp add: next_res_def that)
    have placed: "sorted (map ntfs_band next_res)" if "nch_order_index c = None" "sorted (map ntfs_band res)"
      using that insert_canonically [OF that(2), of a] by (simp add: next_res_def insertion_point_def)
    obtain res' where res': "add_ntfs_entries cf key server cs next_res = Inr res'" "set next_res \<subseteq> set res'"
      "set res' \<subseteq> set next_res \<union> candidate_entries cf key server cs"
      "\<forall>a \<in> candidate_entries cf key server cs. \<exists>e \<in> set res'. same_ntfs_ace e a"
      "distinct (map permission next_res) \<longrightarrow> distinct (map permission res')"
      "(\<forall>c \<in> set cs. nch_order_index c = None) \<and> sorted (map ntfs_band next_res) \<longrightarrow> sorted (map ntfs_band res')"
      using Cons.IH [of next_res] Cons.prems by auto
    show ?thesis unfolding step cand using res' there grows once placed by (intro exI [of _ res']) auto
  qed
qed

lemma added_grows:
  assumes "\<forall>c \<in> set cs. change_ok c" "add_ntfs_entries cf key server cs res = Inr r"
  shows "set r \<subseteq> set res \<union> candidate_entries cf key server cs"
  using added_entries [OF assms(1), of cf key server res] assms(2) by auto

text \<open>The last addition of a proposal stands where it was asked to, or at the nearest end.\<close>

lemma last_addition_placed:
  assumes "add_ntfs_entries cf key server (cs @ [c]) res = Inr res'" "nch_kind c = SK_ADD_NTFS_ACE"
    and "added_ntfs_entry cf c key server = Inr a" "nch_order_index c = Some k"
    and "permission a \<notin> permission ` (set res \<union> candidate_entries cf key server cs)" "\<forall>c \<in> set cs. change_ok c"
  shows "res' ! nat (max 0 (min k (int (length res') - 1))) = a"
proof -
  obtain r where r: "add_ntfs_entries cf key server cs res = Inr r" "add_ntfs_entries cf key server [c] r = Inr res'"
    using assms(1) by (auto simp: add_entries_append result_simps)
  have "permission a \<notin> permission ` set r" using added_grows [OF assms(6) r(1)] assms(5) by blast
  then have "\<not> list_ex (\<lambda>e. same_ntfs_ace e a) r" by (simp add: listed_permission)
  then have "res' = insert_at (nat (max 0 (min k (int (length r))))) a r"
    using r(2) assms(2-4) by (simp add: insertion_point_def)
  moreover have "nat (max 0 (min k (int (length r)))) \<le> length r" by simp
  ultimately show ?thesis using nth_insert_at [of "nat (max 0 (min k (int (length r))))" r a] by simp
qed

lemma one_change_per_entry:
  assumes "mk_overlay o' = Inr o'" "c \<in> set (ov_ntfs_aces o')" "d \<in> set (ov_ntfs_aces o')"
    and "nch_ace_key c = Some k" "nch_ace_key d = Some k"
  shows "c = d"
proof -
  have "distinct (map change_target (ov_changes o'))" using assms(1) by (auto simp: mk_overlay_def split: if_splits)
  then have "inj_on change_target (set (ov_changes o'))" by (simp add: distinct_map)
  then have "Change_ntfs c = Change_ntfs d"
    by (rule inj_onD) (use assms(2-5) in \<open>simp_all add: nch_target_def ov_changes_def\<close>)
  then show ?thesis by simp
qed

lemma edited_outcome:
  assumes "mk_overlay o' = Inr o'" "set cs \<subseteq> set (ov_ntfs_aces o')" "edited_ntfs_entry cf cs e = Inr r"
  shows "entry_outcome cf cs e r"
proof (cases "change_by_key nch_ace_key cs (nar_ace_key e)")
  case None
  then have "\<forall>c \<in> set cs. nch_ace_key c \<noteq> Some (nar_ace_key e)" unfolding change_by_key_None .
  then show ?thesis using assms(3) by (simp add: edited_ntfs_entry_def None entry_outcome_def)
next
  case (Some c)
  then have c: "c \<in> set cs" "nch_ace_key c = Some (nar_ace_key e)" using change_by_key_Some [OF Some] by auto
  have "d = c" if "d \<in> set cs" "nch_ace_key d = Some (nar_ace_key e)" for d
    using one_change_per_entry [OF assms(1)] that c assms(2) by blast
  moreover have "if nch_kind c = SK_REMOVE_NTFS_ACE then r = [] else \<exists>e'. modified_ntfs_entry cf e c = Inr e' \<and> r = [e']"
    using assms(3) by (auto simp: edited_ntfs_entry_def Some result_simps split: if_splits)
  ultimately show ?thesis unfolding entry_outcome_def using c by blast
qed

lemma distinct_kept:
  "list_all2 (\<lambda>e r. r = [] \<or> r = [e]) es ess
    \<Longrightarrow> set (concat ess) \<subseteq> set es \<and> (distinct (map f es) \<longrightarrow> distinct (map f (concat ess)))"
  by (induction rule: list_all2_induct) auto

lemma sorted_kept:
  "list_all2 (\<lambda>e r. r = [] \<or> r = [e]) es ess \<Longrightarrow> sorted (map f es) \<Longrightarrow> sorted (map f (concat ess))"
proof (induction rule: list_all2_induct)
  case (Cons x xs y ys)
  have "set (concat ys) \<subseteq> set xs" using distinct_kept [OF Cons(2)] by blast
  then show ?case using Cons by fastforce
qed simp

lemma edited_shortens:
  assumes "edited_ntfs_entry cf cs e = Inr r" "\<forall>c \<in> set cs. nch_kind c = SK_ADD_NTFS_ACE \<longrightarrow> nch_ace_key c = None"
    and "\<forall>c \<in> set cs. nch_kind c \<noteq> SK_MODIFY_NTFS_ACE" "\<forall>c \<in> set cs. nch_kind c \<in> NTFS_KINDS"
  shows "r = [] \<or> r = [e]"
  using assms change_by_key_Some [of nch_ace_key cs "nar_ace_key e"]
  by (fastforce simp: edited_ntfs_entry_def NTFS_KINDS_def split: option.splits if_splits)

definition accepted_overlay :: "(string \<Rightarrow> string) \<Rightarrow> overlay \<Rightarrow> bool" where
  "accepted_overlay cf o' \<longleftrightarrow> mk_overlay o' = Inr o' \<and> (\<forall>c \<in> set (ov_changes o'). \<exists>c0. remade cf c0 = Inr c)"

text \<open>No addition names an entry that is there already.\<close>

definition additions_unnamed :: "overlay \<Rightarrow> bool" where
  "additions_unnamed o' \<longleftrightarrow> (\<forall>c \<in> set (ov_ntfs_aces o'). nch_kind c = SK_ADD_NTFS_ACE \<longrightarrow> nch_ace_key c = None)"

lemma accepted_ntfs:
  assumes "accepted_overlay cf o'" "c \<in> set (ntfs_changes_for cf o' key)"
  shows "c \<in> set (ov_ntfs_aces o')" "change_ok c" "nch_kind c \<in> NTFS_KINDS"
proof -
  show c: "c \<in> set (ov_ntfs_aces o')" using assms(2) by (simp add: ntfs_changes_for_def)
  then obtain c0 where c0: "remade cf c0 = Inr (Change_ntfs c)" using assms(1) by (fastforce simp: accepted_overlay_def ov_changes_def)
  show "change_ok c" by (rule accepted_change_ok [OF c0])
  show "nch_kind c \<in> NTFS_KINDS" using c0 by (cases c0) (auto simp: result_simps made_by)
qed

lemma unplaced_renumbered: "map unplaced (renumbered nar_order_index put_ntfs ordered xs) = map unplaced xs"
  by (rule ntfs_rows.renumbered_image) (simp add: unplaced_def put_ntfs_def)

lemma numbered_result:
  "ordered \<Longrightarrow> map nar_order_index (renumbered nar_order_index put_ntfs ordered xs) = map (\<lambda>k. Some (int k)) [0 ..< length xs]"
  using ntfs_rows.renumber_positions [of 0 xs] by (simp add: renumbered_def)

lemma applied_changes:
  assumes "\<forall>e \<in> set es. row_ok e" "\<forall>c \<in> set cs. change_ok c" "parse_unc_path key = Inr p"
  shows "\<exists>ess res. res_map (edited_ntfs_entry cf cs) es = Inr ess \<and> list_all2 (\<lambda>e r. edited_ntfs_entry cf cs e = Inr r) es ess
    \<and> add_ntfs_entries cf key (unc_server p) cs (concat ess) = Inr res \<and> apply_ntfs_ace_changes cf es cs key = Inr res
    \<and> (\<forall>e \<in> set res. row_ok e)"
proof -
  obtain ess where ess: "res_map (edited_ntfs_entry cf cs) es = Inr ess" "\<forall>e \<in> set (concat ess). row_ok e"
    "list_all2 (\<lambda>e r. edited_ntfs_entry cf cs e = Inr r) es ess"
    using all_edited_ok [OF assms(1,2)] by blast
  obtain res where res: "add_ntfs_entries cf key (unc_server p) cs (concat ess) = Inr res"
    "set res \<subseteq> set (concat ess) \<union> candidate_entries cf key (unc_server p) cs"
    using added_entries [OF assms(2)] by metis
  have "row_ok a" if a: "a \<in> candidate_entries cf key (unc_server p) cs" for a
  proof -
    obtain c where c: "c \<in> set cs" "nch_kind c = SK_ADD_NTFS_ACE" "added_ntfs_entry cf c key (unc_server p) = Inr a"
      using a unfolding candidate_entries_def by blast
    then show ?thesis using added_ok [of c cf key "unc_server p"] assms(2) by auto
  qed
  with ess res assms(3) show ?thesis by (auto simp: apply_ntfs_ace_changes_def)
qed

text \<open>
  C13. A simulated DACL holds exactly what the proposal says, in the order it says. Over valid rows, for
  an accepted overlay that changes entries of the directory and not its inheritance, applying the
  changes always returns. Each stored entry leaves itself where no change names it, nothing where a
  removal does, and the entry as rewritten where another change does (a modification, or an addition
  that carries its key); what is left stays in stored order; and the result is that and the
  additions whose permission was not there, each permission once. The last addition, when its
  permission was not there, stands at the position it asks for or the nearest there is. No permission
  is there twice when the stored ones were distinct and only removals name entries, and where the
  stored entries had positions the result has the positions 0, 1, 2, ...
\<close>

theorem simulated_dacl_exact:
  assumes "accepted_overlay cf o'" "\<forall>e \<in> set baseline. row_ok e" "parse_unc_path (cf key) = Inr p"
    and "inheritance_change_for cf o' (cf key) = None" "cs = ntfs_changes_for cf o' (cf key)" "cs \<noteq> []"
  shows "\<exists>ess entries. overlay_ntfs_acl cf o' key baseline parents container = Inr entries
    \<and> list_all2 (entry_outcome cf cs) baseline ess
    \<and> subseq (map unplaced (concat ess)) (map unplaced entries)
    \<and> mset (map unplaced entries) = mset (map unplaced (concat ess))
        + mset (map unplaced (fresh_additions cf (cf key) (unc_server p) (permission ` set (concat ess)) cs))
    \<and> (\<forall>a \<in> candidate_entries cf (cf key) (unc_server p) cs. \<exists>e \<in> set entries. same_ntfs_ace e a)
    \<and> (\<forall>ds c a k. cs = ds @ [c] \<and> nch_kind c = SK_ADD_NTFS_ACE \<and> added_ntfs_entry cf c (cf key) (unc_server p) = Inr a
          \<and> nch_order_index c = Some k \<and> permission a \<notin> permission ` (set (concat ess) \<union> candidate_entries cf (cf key) (unc_server p) ds)
        \<longrightarrow> unplaced (entries ! nat (max 0 (min k (int (length entries) - 1)))) = unplaced a)
    \<and> (distinct (map permission baseline) \<and> (\<forall>c \<in> set cs. nch_ace_key c \<noteq> None \<longrightarrow> nch_kind c = SK_REMOVE_NTFS_ACE)
        \<longrightarrow> distinct (map permission entries))
    \<and> (list_all (\<lambda>e. nar_order_index e \<noteq> None) baseline
        \<longrightarrow> map nar_order_index entries = map (\<lambda>k. Some (int k)) [0 ..< length entries])"
proof -
  have cs: "set cs \<subseteq> set (ov_ntfs_aces o')" "\<forall>c \<in> set cs. change_ok c"
    using accepted_ntfs [OF assms(1)] unfolding assms(5) by blast+
  have ov: "mk_overlay o' = Inr o'" using assms(1) by (simp add: accepted_overlay_def)
  obtain ess res where ess: "list_all2 (\<lambda>e r. edited_ntfs_entry cf cs e = Inr r) baseline ess"
    and add: "add_ntfs_entries cf (cf key) (unc_server p) cs (concat ess) = Inr res"
    and run: "apply_ntfs_ace_changes cf baseline cs (cf key) = Inr res"
    using applied_changes [OF assms(2) cs(2) assms(3)] by blast
  have outcome: "list_all2 (entry_outcome cf cs) baseline ess"
    by (rule list_all2_mono [OF ess]) (rule edited_outcome [OF ov cs(1)])
  have A: "\<forall>a \<in> candidate_entries cf (cf key) (unc_server p) cs. \<exists>e \<in> set res. same_ntfs_ace e a"
    "distinct (map permission (concat ess)) \<Longrightarrow> distinct (map permission res)"
    using added_entries [OF cs(2), of cf "cf key" "unc_server p" "concat ess"] unfolding add by blast+
  note inplace = added_in_place [OF add]
  define entries where "entries = renumbered nar_order_index put_ntfs (list_all (\<lambda>e. nar_order_index e \<noteq> None) baseline) res"
  have out: "overlay_ntfs_acl cf o' key baseline parents container = Inr entries"
    using assms(4-6) run by (simp add: overlay_ntfs_acl_def Let_def entries_def)
  have un: "map unplaced entries = map unplaced res" unfolding entries_def by (rule unplaced_renumbered)
  then have len: "length entries = length res" by (metis length_map)
  have perms: "map permission entries = map permission res"
    unfolding entries_def by (rule ntfs_rows.renumbered_image) (simp add: permission_def put_ntfs_def)
  have order: "subseq (map unplaced (concat ess)) (map unplaced entries)" unfolding un using inplace subseq_map by blast
  have whole: "mset (map unplaced entries) = mset (map unplaced (concat ess))
        + mset (map unplaced (fresh_additions cf (cf key) (unc_server p) (permission ` set (concat ess)) cs))"
    unfolding un using inplace by (simp add: mset_map [symmetric] del: mset_map) (simp add: mset_map)
  have same: "\<exists>e \<in> set entries. same_ntfs_ace e a" if a: "a \<in> candidate_entries cf (cf key) (unc_server p) cs" for a
  proof -
    obtain e where "e \<in> set res" "permission e = permission a" using A(1) a unfolding same_ntfs_ace_permission by blast
    then have "permission a \<in> set (map permission entries)" unfolding perms by (metis image_eqI set_map)
    then show ?thesis by (auto simp: same_ntfs_ace_permission)
  qed
  have asked: "unplaced (entries ! nat (max 0 (min k (int (length entries) - 1)))) = unplaced a"
    if c: "cs = ds @ [c]" "nch_kind c = SK_ADD_NTFS_ACE" "added_ntfs_entry cf c (cf key) (unc_server p) = Inr a" "nch_order_index c = Some k"
      "permission a \<notin> permission ` (set (concat ess) \<union> candidate_entries cf (cf key) (unc_server p) ds)" for ds c a k
  proof -
    have ok: "\<forall>c \<in> set ds. change_ok c" using cs(2) c(1) by simp
    have "res ! nat (max 0 (min k (int (length res) - 1))) = a"
      by (rule last_addition_placed [OF add [unfolded c(1)] c(2-5) ok])
    moreover have "a \<in> candidate_entries cf (cf key) (unc_server p) cs" using c(1-3) by (auto simp: candidate_entries_def)
    then have "res \<noteq> []" using A(1) by auto
    then have "nat (max 0 (min k (int (length res) - 1))) < length res" by (cases res) auto
    ultimately show ?thesis using un len by (metis nth_map)
  qed
  have once: "distinct (map permission entries)"
    if "distinct (map permission baseline)" "\<forall>c \<in> set cs. nch_ace_key c \<noteq> None \<longrightarrow> nch_kind c = SK_REMOVE_NTFS_ACE"
  proof -
    have "list_all2 (\<lambda>e r. r = [] \<or> r = [e]) baseline ess"
      by (rule list_all2_mono [OF outcome]) (use that(2) in \<open>fastforce simp: entry_outcome_def split: if_splits\<close>)
    then have "distinct (map permission (concat ess))" using distinct_kept that(1) by blast
    then show ?thesis using A(2) unfolding perms by simp
  qed
  have placed: "map nar_order_index entries = map (\<lambda>k. Some (int k)) [0 ..< length entries]"
    if "list_all (\<lambda>e. nar_order_index e \<noteq> None) baseline"
    using numbered_result [OF that, of res, folded entries_def] unfolding len .
  show ?thesis
    by (intro exI [of _ ess] exI [of _ entries] conjI) (use out outcome order whole same asked once placed in blast)+
qed


text \<open>
  C27. An addition without a position leaves a canonical DACL canonical: for an accepted overlay none of
  whose additions carries the key of an entry, and which leaves the directory's inheritance alone,
  over stored entries in the order explicit Deny, explicit Allow, inherited Deny, inherited Allow,
  removals and unplaced additions give entries in that order. (An addition that carries the key of a
  stored entry rewrites it in place, with any type, so that condition cannot be dropped.)
\<close>

theorem simulated_dacl_stays_canonical:
  assumes "accepted_overlay cf o'" "additions_unnamed o'" "\<forall>e \<in> set baseline. row_ok e" "parse_unc_path (cf key) = Inr p"
    and "inheritance_change_for cf o' (cf key) = None" "sorted (map ntfs_band baseline)"
    and "\<forall>c \<in> set (ntfs_changes_for cf o' (cf key)). nch_kind c \<noteq> SK_MODIFY_NTFS_ACE \<and> nch_order_index c = None"
  shows "\<exists>entries. overlay_ntfs_acl cf o' key baseline parents container = Inr entries \<and> sorted (map ntfs_band entries)"
proof (cases "ntfs_changes_for cf o' (cf key) = []")
  case True
  then show ?thesis using assms(5,6) by (simp add: overlay_ntfs_acl_def)
next
  case False
  define cs where "cs = ntfs_changes_for cf o' (cf key)"
  have cs: "set cs \<subseteq> set (ov_ntfs_aces o')" "\<forall>c \<in> set cs. change_ok c" "\<forall>c \<in> set cs. nch_kind c \<in> NTFS_KINDS"
    using accepted_ntfs [OF assms(1)] unfolding cs_def by blast+
  have unnamed: "\<forall>c \<in> set cs. nch_kind c = SK_ADD_NTFS_ACE \<longrightarrow> nch_ace_key c = None"
    using assms(2) cs(1) by (auto simp: additions_unnamed_def)
  obtain ess res where ess: "list_all2 (\<lambda>e r. edited_ntfs_entry cf cs e = Inr r) baseline ess"
    and add: "add_ntfs_entries cf (cf key) (unc_server p) cs (concat ess) = Inr res"
    and run: "apply_ntfs_ace_changes cf baseline cs (cf key) = Inr res"
    using applied_changes [OF assms(3) cs(2) assms(4)] by blast
  have "list_all2 (\<lambda>e r. r = [] \<or> r = [e]) baseline ess"
    by (intro list_all2_mono [OF ess] edited_shortens) (use unnamed cs(3) assms(7) in \<open>auto simp: cs_def\<close>)
  then have "sorted (map ntfs_band (concat ess))" using sorted_kept assms(6) by blast
  then have "sorted (map ntfs_band res)"
    using added_entries [OF cs(2), of cf "cf key" "unc_server p" "concat ess"] assms(7) unfolding add by (auto simp: cs_def)
  moreover have "map ntfs_band (renumbered nar_order_index put_ntfs b res) = map ntfs_band res" for b
    by (rule ntfs_rows.renumbered_image) (simp add: ntfs_band_def nar_is_inherited_def put_ntfs_def)
  ultimately show ?thesis using run False assms(5) by (simp add: overlay_ntfs_acl_def Let_def cs_def)
qed

text \<open>
  An addition that names an entry rewrites that entry: its constructor accepts an \<open>ace_key\<close>, and
  applying it gives the named entry the addition's type and mask, whoever the addition is for.
\<close>

theorem named_addition_rewrites_entry:
  assumes "accepted_overlay cf o'" "\<forall>e \<in> set baseline. row_ok e" "parse_unc_path (cf key) = Inr p"
    and "inheritance_change_for cf o' (cf key) = None"
    and "c \<in> set (ntfs_changes_for cf o' (cf key))" "nch_kind c = SK_ADD_NTFS_ACE"
    and "e \<in> set baseline" "nch_ace_key c = Some (nar_ace_key e)"
  shows "\<exists>entries e'. overlay_ntfs_acl cf o' key baseline parents container = Inr entries \<and> e' \<in> set entries
    \<and> nar_trustee_key e' = nar_trustee_key e \<and> Some (nar_access_mask e') = nch_access_mask c \<and> Some (nar_ace_type e') = nch_ace_type c"
proof -
  define cs where "cs = ntfs_changes_for cf o' (cf key)"
  have cs: "set cs \<subseteq> set (ov_ntfs_aces o')" "\<forall>c \<in> set cs. change_ok c"
    using accepted_ntfs [OF assms(1)] unfolding cs_def by blast+
  have c: "c \<in> set cs" "change_ok c" using assms(5) cs(2) by (simp_all add: cs_def)
  obtain ess res where ess: "list_all2 (\<lambda>e r. edited_ntfs_entry cf cs e = Inr r) baseline ess"
    and add: "add_ntfs_entries cf (cf key) (unc_server p) cs (concat ess) = Inr res"
    and run: "apply_ntfs_ace_changes cf baseline cs (cf key) = Inr res"
    using applied_changes [OF assms(2) cs(2) assms(3)] by blast
  have one: "change_by_key nch_ace_key cs (nar_ace_key e) = Some c"
  proof (cases "change_by_key nch_ace_key cs (nar_ace_key e)")
    case None
    then show ?thesis unfolding change_by_key_None using c(1) assms(8) by blast
  next
    case (Some d)
    then have "d \<in> set cs" "nch_ace_key d = Some (nar_ace_key e)" using change_by_key_Some [OF Some] by auto
    then have "d = c"
      using one_change_per_entry [of o' d c "nar_ace_key e"] assms(1,8) c(1) cs(1) by (auto simp: accepted_overlay_def)
    then show ?thesis using Some by simp
  qed
  obtain e' where e': "modified_ntfs_entry cf e c = Inr e'" using modified_ok [of e c cf] assms(2,7) c(2) by auto
  then have fields: "nar_trustee_key e' = nar_trustee_key e" "Some (nar_access_mask e') = nch_access_mask c" "Some (nar_ace_type e') = nch_ace_type c"
    using c(2) assms(6) by (auto simp: modified_ntfs_entry_def Let_def result_simps change_ok_def)
  have "e' \<in> set (concat ess)"
    unfolding set_concat_edited [OF ess] using assms(6,7) one e' by (force simp: edited_ntfs_entry_def)
  then have "e' \<in> set res" using added_entries [OF cs(2), of cf "cf key" "unc_server p" "concat ess"] unfolding add by auto
  define entries where "entries = renumbered nar_order_index put_ntfs (list_all (\<lambda>e. nar_order_index e \<noteq> None) baseline) res"
  have "map permission entries = map permission res"
    unfolding entries_def by (rule ntfs_rows.renumbered_image) (simp add: permission_def put_ntfs_def)
  then obtain e'' where "e'' \<in> set entries" "permission e'' = permission e'"
    using \<open>e' \<in> set res\<close> by (metis image_iff set_map)
  moreover have "overlay_ntfs_acl cf o' key baseline parents container = Inr entries"
    using run assms(4) c(1) by (auto simp: overlay_ntfs_acl_def Let_def cs_def entries_def)
  ultimately show ?thesis using fields by (intro exI [of _ entries] exI [of _ e'']) (simp add: permission_def)
qed


subsection \<open>The inheritance switch\<close>

lemma no_changes_applied:
  assumes "parse_unc_path key = Inr p"
  shows "apply_ntfs_ace_changes cf es [] key = Inr es"
proof -
  have "res_map (edited_ntfs_entry cf []) es = Inr (map (\<lambda>e. [e]) es)"
    by (rule res_map_all) (simp add: edited_ntfs_entry_def change_by_key_def)
  moreover have "concat (map (\<lambda>e. [e]) es) = es" by (induction es) simp_all
  ultimately show ?thesis using assms by (simp add: apply_ntfs_ace_changes_def)
qed

definition protection_leaves :: "disposition \<Rightarrow> ntfs_ace_record list \<Rightarrow> (string \<times> ace_type \<times> int \<times> nat) list" where
  "protection_leaves d es = (case d of
       REMOVE_INHERITED \<Rightarrow> map permission (filter (\<lambda>e. \<not> nar_is_inherited e) es)
     | CONVERT_TO_EXPLICIT \<Rightarrow> map (\<lambda>e. (nar_trustee_key e, nar_ace_type e, nar_access_mask e,
         if nar_is_inherited e then unset_bit 4 (nar_ace_flags e) else nar_ace_flags e)) es)"

text \<open>
  Protecting a directory takes nothing away by itself: with the inherited entries converted, every
  entry keeps its place, trustee, type and mask and loses only the inherited flag; with them
  removed, exactly the explicit entries stay. Either way nothing is inherited afterwards.
\<close>

theorem protected_dacl:
  assumes "accepted_overlay cf o'" "\<forall>e \<in> set baseline. row_ok e" "parse_unc_path (cf key) = Inr p"
    and "ntfs_changes_for cf o' (cf key) = []" "inheritance_change_for cf o' (cf key) = Some c"
    and "ich_protected c" "ich_inherited_entries c = Some d"
  shows "\<exists>entries. overlay_ntfs_acl cf o' key baseline parents container = Inr entries
    \<and> map permission entries = protection_leaves d baseline \<and> (\<forall>e \<in> set entries. \<not> nar_is_inherited e)"
proof -
  have perm: "map permission (renumbered nar_order_index put_ntfs b xs) = map permission xs" for b xs
    by (rule ntfs_rows.renumbered_image) (simp add: permission_def put_ntfs_def)
  have inh: "map nar_is_inherited (renumbered nar_order_index put_ntfs b xs) = map nar_is_inherited xs" for b xs
    by (rule ntfs_rows.renumbered_image) (simp add: nar_is_inherited_def put_ntfs_def)
  have plain: "(\<forall>e \<in> set (renumbered nar_order_index put_ntfs b xs). \<not> nar_is_inherited e) \<longleftrightarrow> (\<forall>e \<in> set xs. \<not> nar_is_inherited e)" for b xs
    using inh [of b xs] by (metis (no_types, lifting) image_iff set_map)
  have run: "overlay_ntfs_acl cf o' key baseline parents container
      = res_bind (apply_inheritance cf baseline c parents container) (\<lambda>es.
          Inr (renumbered nar_order_index put_ntfs (list_all (\<lambda>e. nar_order_index e \<noteq> None) baseline) es))"
    using assms(4,5) no_changes_applied [OF assms(3)] by (simp add: overlay_ntfs_acl_def Let_def)
  show ?thesis
  proof (cases d)
    case REMOVE_INHERITED
    then show ?thesis
      using assms(6,7) by (simp add: run apply_inheritance_def protection_leaves_def perm plain)
  next
    case CONVERT_TO_EXPLICIT
    let ?f = "\<lambda>e. if nar_is_inherited e then converted_to_explicit cf e else Inr e"
    have "\<exists>es. res_map ?f xs = Inr es \<and> (\<forall>e \<in> set es. \<not> nar_is_inherited e) \<and> map permission es = protection_leaves d xs"
      if "\<forall>e \<in> set xs. row_ok e" for xs
      using that
    proof (induction xs)
      case (Cons e xs)
      have "\<exists>e'. ?f e = Inr e' \<and> \<not> nar_is_inherited e' \<and> permission e' = (nar_trustee_key e, nar_ace_type e, nar_access_mask e,
         if nar_is_inherited e then unset_bit 4 (nar_ace_flags e) else nar_ace_flags e)"
      proof (cases "nar_is_inherited e")
        case True
        then show ?thesis using converted_ok [of e cf] Cons.prems by (auto simp: permission_def nar_is_inherited_def)
      qed (simp add: permission_def)
      with Cons show ?case by (auto simp: protection_leaves_def CONVERT_TO_EXPLICIT)
    qed (simp add: protection_leaves_def CONVERT_TO_EXPLICIT)
    from this [OF assms(2)] show ?thesis
      using assms(6,7) CONVERT_TO_EXPLICIT by (auto simp: run apply_inheritance_def perm plain)
  qed
qed

lemma projected_rows:
  assumes "\<forall>f \<in> set fs. facts_ok f"
  shows "\<exists>es. res_map (\<lambda>f. projected_record cf f key server pk) fs = Inr es \<and> map acl_facts es = map Inr fs
    \<and> map nar_order_index es = map af_order_index fs"
  using assms
proof (induction fs)
  case (Cons f fs)
  obtain e where e: "projected_record cf f key server pk = Inr e" "acl_facts e = Inr f"
    using projected_ok [of f cf key server pk] Cons.prems by auto
  then have "nar_order_index e = af_order_index f" by (auto simp: projected_record_def result_simps)
  with e Cons show ?case by auto
qed simp

lemma numbered_indexes: "map af_order_index (numbered i es) = map (\<lambda>k. Some (int k)) [i ..< i + length es]"
proof (induction es arbitrary: i)
  case (Cons e es)
  have "[i ..< i + length (e # es)] = i # [Suc i ..< Suc i + length es]"
    using upt_conv_Cons [of i "i + length (e # es)"] by simp
  then show ?case using Cons [of "Suc i"] by simp
qed simp

lemma length_numbered [simp]: "length (numbered i es) = length es"
  by (induction es arbitrary: i) simp_all

lemma in_res_map: "res_map f xs = Inr ys \<Longrightarrow> y \<in> set ys \<Longrightarrow> \<exists>x \<in> set xs. f x = Inr y"
  by (induction xs arbitrary: ys) (auto simp: result_simps)

lemma res_map_facts: "map f xs = map Inr ys \<Longrightarrow> res_map f xs = Inr ys"
proof (induction xs arbitrary: ys)
  case (Cons x xs)
  then show ?case by (cases ys) auto
qed simp

text \<open>
  Clearing protection brings back what the parent hands down: a directory whose entries are all
  inherited is left with entries that mean the parent's projection, so the digest of the simulated
  DACL is the one the parent's entries project, and the boundary rule finds no boundary there.
\<close>

theorem cleared_protection_follows_parent:
  assumes "\<forall>e \<in> set baseline. row_ok e \<and> nar_is_inherited e" "parse_unc_path (cf key) = Inr p"
    and "ntfs_changes_for cf o' (cf key) = []" "inheritance_change_for cf o' (cf key) = Some c" "\<not> ich_protected c"
    and "parse_unc_path (if baseline = [] then ich_resource_key c else nar_resource_key (hd baseline)) = Inr q"
    and "res_map acl_facts parents = Inr facts"
  shows "\<exists>entries digest. overlay_ntfs_acl cf o' key baseline (Some parents) container = Inr entries
    \<and> simulated_digest sha True False entries = Inr (Some digest)
    \<and> inherited_child_acl_hash sha True (map Inl facts) container = Inr (Some digest)
    \<and> boundary_reason_for False False True False (Some digest) (Some True) (Some digest) = None"
proof -
  have ok: "\<forall>f \<in> set facts. facts_ok f"
  proof
    fix f assume "f \<in> set facts"
    then obtain e where "acl_facts e = Inr f" using in_res_map [OF assms(7)] by blast
    then show "facts_ok f" unfolding acl_facts_def by (rule mk_acl_ace_facts_ok)
  qed
  let ?down = "handed_down facts container"
  let ?key = "if baseline = [] then ich_resource_key c else nar_resource_key (hd baseline)"
  let ?pk = "if parents = [] then None else Some (nar_resource_key (hd parents))"
  obtain es where es: "res_map (\<lambda>f. projected_record cf f ?key (unc_server q) ?pk) ?down = Inr es"
    "map acl_facts es = map Inr ?down" "map nar_order_index es = map af_order_index ?down"
    using projected_rows [OF handed_down_ok [OF ok, of container], of cf ?key "unc_server q" ?pk] by blast
  have explicit: "filter (\<lambda>e. \<not> nar_is_inherited e) baseline = []" using assms(1) by (simp add: filter_empty_conv)
  have "length es = length ?down" using es(2) by (metis length_map)
  then have "map nar_order_index es = map (\<lambda>k. Some (int k)) [0 ..< 0 + length es]"
    using numbered_indexes [of 0] es(3) by (simp add: handed_down_def length_numbered)
  then have "renumbered nar_order_index put_ntfs b es = es" for b
    using ntfs_rows.renumber_placed by (simp add: renumbered_def)
  then have out: "overlay_ntfs_acl cf o' key baseline (Some parents) container = Inr es"
    using assms(3-7) no_changes_applied [OF assms(2)] project_acl_ok [OF ok] es(1) explicit
    by (simp add: overlay_ntfs_acl_def apply_inheritance_def Let_def)
  have same: "res_map acl_facts es = Inr ?down" using es(2) by (rule res_map_facts)
  have "distinct (map af_order_index ?down)"
    unfolding handed_down_def numbered_indexes by (simp add: distinct_map inj_on_def)
  then have "\<exists>ls. ace_lines ?down (is_ordered ?down) = Inr ls"
    by (simp add: ace_lines_def distinct_map_filter)
  then obtain n where n: "normalize_acl sha True False (map Inl ?down) = Inr n"
    using normalize_acl_facts [of sha True False ?down] by auto
  have "simulated_digest sha True False es = Inr (Some (no_digest n))"
    "inherited_child_acl_hash sha True (map Inl facts) container = Inr (Some (no_digest n))"
    using n same project_acl_ok [OF ok] by (simp_all add: simulated_digest_def acl_hash_def inherited_child_acl_hash_def projected_child_acl_def)
  then show ?thesis using out by (auto simp: boundary_reason_for_def)
qed


subsection \<open>The row beside its entries\<close>

lemma rows_facts: "\<forall>e \<in> set es. row_ok e \<Longrightarrow> \<exists>fs. res_map acl_facts es = Inr fs \<and> map af_order_index fs = map nar_order_index es"
proof (induction es)
  case (Cons e es)
  then obtain f where f: "acl_facts e = Inr f" by (auto simp: row_ok_def returns_def)
  then have "af_order_index f = nar_order_index e" by (auto simp: acl_facts_def mk_acl_ace_facts_def result_simps split: if_splits)
  with Cons f show ?case by auto
qed simp

definition positions_clear :: "ntfs_ace_record list \<Rightarrow> bool" where
  "positions_clear es \<longleftrightarrow> distinct (map nar_order_index es) \<or> (\<exists>e \<in> set es. nar_order_index e = None)"

lemma clear_lines:
  assumes "positions_clear es" "map af_order_index fs = map nar_order_index es"
  shows "\<exists>ls. ace_lines fs (is_ordered fs) = Inr ls"
proof (cases "is_ordered fs")
  case True
  then have "\<forall>i \<in> set (map nar_order_index es). i \<noteq> None" unfolding assms(2) [symmetric] by (auto simp: is_ordered_def list_all_iff)
  then have "distinct (map af_order_index fs)" using assms by (auto simp: positions_clear_def)
  then show ?thesis by (simp add: ace_lines_def distinct_map_filter)
qed (simp add: ace_lines_def)

lemma simulated_row_resource [simp]:
  "nrr_resource_key (simulated_row r) = nrr_resource_key r" "nrr_owner_sid (simulated_row r) = nrr_owner_sid r"
  "nrr_dacl_present (simulated_row r) = nrr_dacl_present r" "nrr_dacl_protected (simulated_row r) = nrr_dacl_protected r"
  "nrr_inheritance_enabled (simulated_row r) = nrr_inheritance_enabled r" "nrr_is_acl_boundary (simulated_row r) = nrr_is_acl_boundary r"
  "nrr_ace_count (simulated_row r) = nrr_ace_count r" "nrr_acl_hash (simulated_row r) = nrr_acl_hash r"
  "nrr_boundary_reason (simulated_row r) = nrr_boundary_reason r" "is_simulated_record (simulated_row r)"
  by (simp_all add: simulated_row_def is_simulated_record_def)

text \<open>
  The simulated row is consistent with the simulated entries: for a directory the proposal touches
  it is always computed, declares as many entries as there are, says inheritance is enabled exactly
  when the DACL is not protected, stays a boundary whenever it is protected, keeps the directory's
  identity and owner, and its digest is the one the server recomputes from those entries, absent only
  for entries under a NULL DACL.
\<close>

theorem simulated_row_consistent:
  assumes "\<forall>e \<in> set entries. row_ok e" "positions_clear entries"
    and "inheritance_change_for cf o' (cf (nrr_resource_key r)) \<noteq> None \<or> ntfs_changes_for cf o' (cf (nrr_resource_key r)) \<noteq> []"
    and "nrr_dacl_protected r \<longrightarrow> nrr_is_acl_boundary r"
  shows "\<exists>r' c. overlay_resource sha cf o' r entries = Inr r' \<and> recompute_acl_hash sha entries r' = Inr c
    \<and> rc_ace_count_agrees c \<and> rc_agrees c = (if nrr_dacl_present r \<or> entries = [] then Some True else None)
    \<and> (nrr_inheritance_enabled r' \<longleftrightarrow> \<not> nrr_dacl_protected r') \<and> (nrr_dacl_protected r' \<longrightarrow> nrr_is_acl_boundary r')
    \<and> nrr_resource_key r' = nrr_resource_key r \<and> nrr_owner_sid r' = nrr_owner_sid r \<and> is_simulated_record r'"
proof -
  define inheritance where "inheritance = inheritance_change_for cf o' (cf (nrr_resource_key r))"
  define prot where "prot = (case inheritance of None \<Rightarrow> nrr_dacl_protected r | Some c \<Rightarrow> ich_protected c)"
  define rb where "rb = (case inheritance of None \<Rightarrow> (nrr_boundary_reason r, nrr_is_acl_boundary r)
     | Some c \<Rightarrow> if prot then (Some BR_PROTECTED_DACL, True)
         else if nrr_boundary_reason r = Some BR_PROTECTED_DACL then (None, False) else (nrr_boundary_reason r, nrr_is_acl_boundary r))"
  obtain fs where fs: "res_map acl_facts entries = Inr fs" "map af_order_index fs = map nar_order_index entries"
    using rows_facts [OF assms(1)] by blast
  have len: "length fs = length entries" using fs(2) by (metis length_map)
  have digest: "\<exists>d. simulated_digest sha (nrr_dacl_present r) prot entries = Inr d
      \<and> (if nrr_dacl_present r \<or> entries = [] then \<exists>n. normalize_acl sha (nrr_dacl_present r) prot (map Inl fs) = Inr n \<and> d = Some (no_digest n) else d = None)"
  proof (cases "nrr_dacl_present r \<or> entries = []")
    case True
    then have "\<exists>n. normalize_acl sha (nrr_dacl_present r) prot (map Inl fs) = Inr n"
      using clear_lines [OF assms(2) fs(2)] len by (auto simp: normalize_acl_facts)
    with True fs show ?thesis by (auto simp: simulated_digest_def acl_hash_def)
  qed (simp add: simulated_digest_def)
  then obtain d where d: "simulated_digest sha (nrr_dacl_present r) prot entries = Inr d" by blast
  define r' where "r' = simulated_row (r\<lparr>nrr_dacl_protected := prot, nrr_inheritance_enabled := \<not> prot, nrr_is_acl_boundary := snd rb,
    nrr_boundary_reason := fst rb, nrr_ace_count := int (length entries), nrr_acl_hash := d\<rparr>)"
  have out: "overlay_resource sha cf o' r entries = Inr r'"
    using assms(3) d by (auto simp: overlay_resource_def Let_def r'_def rb_def prot_def inheritance_def case_prod_unfold)
  have boundary: "prot \<longrightarrow> snd rb" using assms(4) by (auto simp: rb_def prot_def split: option.split)
  obtain c where c: "recompute_acl_hash sha entries r' = Inr c" "rc_reported c = d" "rc_ace_count_agrees c"
    and norm: "normalized_stored sha (nrr_dacl_present r) prot (if nrr_dacl_present r then fs else []) = Inr (rc_normalized c)"
    using recompute_cases [OF fs(1), of sha r'] by (auto simp: r'_def rc_ace_count_agrees_def)
  have "rc_agrees c = (if nrr_dacl_present r \<or> entries = [] then Some True else None)"
  proof (cases "nrr_dacl_present r \<or> entries = []")
    case True
    then have fs': "(if nrr_dacl_present r then fs else []) = fs" using len by auto
    obtain n where n: "normalize_acl sha (nrr_dacl_present r) prot (map Inl fs) = Inr n" "d = Some (no_digest n)"
      using digest d True by auto
    then have "rc_normalized c = n" using norm unfolding fs' by (simp add: normalized_stored_def)
    then show ?thesis using True n c(2) by (simp add: rc_agrees_def rc_computed_def)
  next
    case False
    then show ?thesis using digest d c(2) by (simp add: rc_agrees_def)
  qed
  then show ?thesis using out c boundary by (intro exI [of _ r'] exI [of _ c]) (simp add: r'_def)
qed


subsection \<open>Examples\<close>

definition sample_path :: string where "sample_path = [CHR 0x5C, CHR 0x5C] @ ''fs'' @ [CHR 0x5C] @ ''d''"

definition sample_row :: "ace_type \<Rightarrow> ace_source \<Rightarrow> nat \<Rightarrow> ntfs_ace_record" where
  "sample_row ty src flags = \<lparr>pv_source_key = ''c'', pv_first_observed_at = 1, pv_first_observed_run_id = ''r'', pv_last_observed_at = 1,
     pv_last_observed_run_id = ''r'', nar_ace_key = ''k'', nar_resource_key = sample_path, nar_trustee_sid = ''S-1-5-21-7'',
     nar_trustee_key = ''S-1-5-21-7'', nar_ace_type = ty, nar_access_mask = 2, nar_ace_flags = flags, nar_source = src,
     nar_inherited_from = None, nar_order_index = Some 0\<rparr>"

definition one_change :: "ntfs_ace_change \<Rightarrow> overlay" where
  "one_change c = \<lparr>ov_membership = [], ov_ntfs_aces = [c], ov_share_aces = [], ov_inheritance = []\<rparr>"

definition one_switch :: "bool \<Rightarrow> disposition option \<Rightarrow> overlay" where
  "one_switch prot d = \<lparr>ov_membership = [], ov_ntfs_aces = [], ov_share_aces = [],
     ov_inheritance = [\<lparr>ich_resource_key = sample_path, ich_protected = prot, ich_inherited_entries = d\<rparr>]\<rparr>"

definition named_addition :: ntfs_ace_change where "named_addition = sample_addition\<lparr>nch_ace_key := Some ''k''\<rparr>"

lemma sample_addition_key: "nch_resource_key sample_addition = sample_path" "nch_resource_key named_addition = sample_path"
  by (simp_all add: sample_addition_def sample_path_def named_addition_def)

lemma sample_path_parses: "\<exists>p. parse_unc_path sample_path = Inr p"
  using sample_key unfolding sample_addition_key by (auto simp: fold_resource_key_def result_simps)

lemma sample_row_ok: "flags \<le> 255 \<Longrightarrow> row_ok (sample_row ty src flags)"
  by (simp add: row_ok_iff sample_row_def sample_sid_parses MAX_ACCESS_MASK_def MAX_ACE_FLAGS_def negative_index_def)

lemma named_addition_made: "remade id (Change_ntfs named_addition) = Inr (Change_ntfs named_addition)"
proof -
  have "ntfs_change_checks named_addition = Inr ()"
    by (simp add: named_addition_def sample_addition_def ntfs_change_checks_def ntfs_kind_checks_def flags_outside_def validate_mask_def
        require_add_fields_def given_def sample_sid_parses negative_index_def MAX_ACCESS_MASK_def)
  moreover have "fold_resource_key id sample_path = Inr sample_path" using sample_key by (simp add: sample_addition_key)
  ultimately show ?thesis
    by (simp add: mk_ntfs_ace_change_def sample_addition_key NTFS_KINDS_def) (simp add: named_addition_def sample_addition_def sample_path_def NTFS_KINDS_def)
qed

lemma one_change_accepted:
  assumes "remade id (Change_ntfs c) = Inr (Change_ntfs c)"
  shows "accepted_overlay id (one_change c)"
proof -
  have "\<exists>c0. remade id c0 = Inr (Change_ntfs c)" using assms by (rule exI)
  then show ?thesis by (simp add: accepted_overlay_def one_change_def ov_changes_def mk_overlay_def MAX_CHANGES_def)
qed

lemma one_switch_accepted:
  assumes "prot = (d \<noteq> None)"
  shows "accepted_overlay id (one_switch prot d)"
proof -
  let ?c = "\<lparr>ich_resource_key = sample_path, ich_protected = prot, ich_inherited_entries = d\<rparr>"
  have "fold_resource_key id sample_path = Inr sample_path" using sample_key by (simp add: sample_addition_key)
  then have "remade id (Change_inheritance ?c) = Inr (Change_inheritance ?c)" using assms by (simp add: mk_inheritance_change_def)
  then have "\<exists>c0. remade id c0 = Inr (Change_inheritance ?c)" by (rule exI)
  then show ?thesis by (simp add: accepted_overlay_def one_switch_def ov_changes_def mk_overlay_def MAX_CHANGES_def)
qed

lemma one_change_reads:
  "nch_resource_key c = sample_path \<Longrightarrow> ntfs_changes_for id (one_change c) sample_path = [c]"
  "inheritance_change_for id (one_change c) sample_path = None"
  "ntfs_changes_for id (one_switch prot d) sample_path = []"
  "inheritance_change_for id (one_switch prot d) sample_path = Some \<lparr>ich_resource_key = sample_path, ich_protected = prot, ich_inherited_entries = d\<rparr>"
  by (simp_all add: ntfs_changes_for_def inheritance_change_for_def one_change_def one_switch_def)

theorem simulated_dacl_exact_witness:
  "\<exists>entries. overlay_ntfs_acl id (one_change sample_addition) sample_path [sample_row DENY EXPLICIT 0] None True = Inr entries
    \<and> map nar_order_index entries = map (\<lambda>k. Some (int k)) [0 ..< length entries]"
proof -
  obtain p where p: "parse_unc_path (id sample_path) = Inr p" using sample_path_parses by auto
  with simulated_dacl_exact [where cf = id and o' = "one_change sample_addition" and key = sample_path and baseline = "[sample_row DENY EXPLICIT 0]"
      and cs = "[sample_addition]" and parents = None and container = True, OF one_change_accepted [OF sample_addition_made]]
  show ?thesis using sample_row_ok [of 0 DENY EXPLICIT] by (force simp: one_change_reads sample_addition_key sample_row_def)
qed

theorem simulated_dacl_stays_canonical_witness:
  "\<exists>entries. overlay_ntfs_acl id (one_change sample_addition) sample_path [sample_row DENY EXPLICIT 0] None True = Inr entries
    \<and> sorted (map ntfs_band entries)"
proof -
  obtain p where p: "parse_unc_path (id sample_path) = Inr p" using sample_path_parses by auto
  have "additions_unnamed (one_change sample_addition)" by (simp add: additions_unnamed_def one_change_def sample_addition_def)
  with simulated_dacl_stays_canonical [where cf = id and o' = "one_change sample_addition" and key = sample_path
      and baseline = "[sample_row DENY EXPLICIT 0]" and parents = None and container = True, OF one_change_accepted [OF sample_addition_made]] p
  show ?thesis using sample_row_ok [of 0 DENY EXPLICIT]
    by (simp add: one_change_reads sample_addition_key) (simp add: sample_addition_def)
qed

theorem named_addition_rewrites_entry_witness:
  "\<exists>entries e'. overlay_ntfs_acl id (one_change named_addition) sample_path [sample_row DENY EXPLICIT 0] None True = Inr entries
    \<and> e' \<in> set entries \<and> nar_trustee_key e' = ''S-1-5-21-7'' \<and> nar_access_mask e' = 1 \<and> nar_ace_type e' = ALLOW"
proof -
  obtain p where p: "parse_unc_path (id sample_path) = Inr p" using sample_path_parses by auto
  with named_addition_rewrites_entry [where cf = id and o' = "one_change named_addition" and key = sample_path and c = named_addition
      and baseline = "[sample_row DENY EXPLICIT 0]" and e = "sample_row DENY EXPLICIT 0" and parents = None and container = True,
      OF one_change_accepted [OF named_addition_made]]
  show ?thesis using sample_row_ok [of 0 DENY EXPLICIT]
    by (simp add: one_change_reads sample_addition_key) (simp add: named_addition_def sample_addition_def sample_row_def)
qed

theorem protected_dacl_witness:
  "\<exists>entries. overlay_ntfs_acl id (one_switch True (Some CONVERT_TO_EXPLICIT)) sample_path [sample_row ALLOW INHERITED 0x13] None True = Inr entries
    \<and> map permission entries = [(''S-1-5-21-7'', ALLOW, 2, 3)]"
proof -
  obtain p where p: "parse_unc_path (id sample_path) = Inr p" using sample_path_parses by auto
  have "unset_bit 4 (0x13 :: nat) = 3" by code_simp
  then have "protection_leaves CONVERT_TO_EXPLICIT [sample_row ALLOW INHERITED 0x13] = [(''S-1-5-21-7'', ALLOW, 2, 3)]"
    by (simp add: protection_leaves_def nar_is_inherited_def sample_row_def)
  with protected_dacl [where cf = id and o' = "one_switch True (Some CONVERT_TO_EXPLICIT)" and key = sample_path and p = p and d = CONVERT_TO_EXPLICIT
      and baseline = "[sample_row ALLOW INHERITED 0x13]" and parents = None and container = True, OF one_switch_accepted] p
  show ?thesis using sample_row_ok [of "0x13" ALLOW INHERITED]
    by (simp add: one_change_reads) (elim exE conjE, intro exI conjI, assumption+)
qed

theorem cleared_protection_follows_parent_witness:
  "\<exists>entries digest. overlay_ntfs_acl id (one_switch False None) sample_path [sample_row ALLOW INHERITED 0x13]
      (Some [sample_row ALLOW EXPLICIT 3]) True = Inr entries \<and> simulated_digest id True False entries = Inr (Some digest)"
proof -
  obtain p where p: "parse_unc_path (id sample_path) = Inr p" using sample_path_parses by auto
  obtain facts where facts: "res_map acl_facts [sample_row ALLOW EXPLICIT 3] = Inr facts"
    using rows_facts [of "[sample_row ALLOW EXPLICIT 3]"] sample_row_ok [of 3 ALLOW EXPLICIT] by auto
  from cleared_protection_follows_parent [where cf = id and o' = "one_switch False None" and key = sample_path and p = p and q = p and sha = id
      and baseline = "[sample_row ALLOW INHERITED 0x13]" and container = True, OF _ _ _ _ _ _ facts]
  show ?thesis using p sample_row_ok [of "0x13" ALLOW INHERITED]
    by (simp add: one_change_reads nar_is_inherited_def) (auto simp: sample_row_def)
qed

definition sample_directory :: ntfs_resource_record where
  "sample_directory = \<lparr>pv_source_key = ''c'', pv_first_observed_at = 1, pv_first_observed_run_id = ''r'', pv_last_observed_at = 1,
     pv_last_observed_run_id = ''r'', nrr_resource_key = sample_path, nrr_path = sample_path, nrr_server_key = ''fs'',
     nrr_share_key = ''fs|d'', nrr_local_path = None, nrr_owner_sid = None, nrr_group_sid = None, nrr_dacl_present = True,
     nrr_dacl_protected = False, nrr_inheritance_enabled = True, nrr_is_acl_boundary = True, nrr_ace_count = 0,
     nrr_depth_from_share_root = Some 0, nrr_resource_kind = RK_DIRECTORY, nrr_boundary_reason = None, nrr_acl_hash = None,
     nrr_parent_acl_hash = None\<rparr>"

theorem simulated_row_consistent_witness:
  "\<exists>r' c. overlay_resource id id (one_change sample_addition) sample_directory [sample_row ALLOW EXPLICIT 0] = Inr r'
    \<and> recompute_acl_hash id [sample_row ALLOW EXPLICIT 0] r' = Inr c \<and> rc_agrees c = Some True"
  using simulated_row_consistent [of "[sample_row ALLOW EXPLICIT 0]" id "one_change sample_addition" sample_directory id]
    sample_row_ok [of 0 ALLOW EXPLICIT]
  by (simp add: one_change_reads sample_addition_key sample_directory_def positions_clear_def) blast

end
