(* ===== verification/Adg_Simulated_Reads.thy ===== *)
theory Adg_Simulated_Reads
  imports Adg_Simulation
begin

section \<open>Reading through an overlay (app/simulation/repositories.py)\<close>

text \<open>
  The two repositories the access engine reads a simulation through: the membership repository, whose
  neighbours are the baseline's with the overlay's edges added and removed, and the resource
  repository, whose ACLs, rows and candidates are the baseline's as the overlay leaves them.
\<close>

subsection \<open>Membership\<close>

definition overlay_neighbors ::
  "overlay \<Rightarrow> 's provider \<Rightarrow> direction \<Rightarrow> string list \<Rightarrow> 's \<Rightarrow> ((string \<Rightarrow> graph_edge list) \<times> 's) result" where
  "overlay_neighbors o' base d ks s = (let (m, s') = base d ks s in res_bind (overlay_edges o' d ks m) (\<lambda>m'. Inr (m', s')))"

text \<open>What the traversal calls; an accepted overlay never takes the first branch (below).\<close>

definition overlay_provider :: "overlay \<Rightarrow> 's provider \<Rightarrow> 's provider" where
  "overlay_provider o' base d ks s = (case overlay_neighbors o' base d ks s of Inl _ \<Rightarrow> base d ks s | Inr r \<Rightarrow> r)"

subsection \<open>Directories\<close>

definition ich_clears :: "inheritance_change option \<Rightarrow> bool" where
  "ich_clears c \<longleftrightarrow> (case c of None \<Rightarrow> False | Some i \<Rightarrow> \<not> ich_protected i)"

text \<open>The parents of the directories whose protection the overlay clears.\<close>

definition wanted_parent :: "(string \<Rightarrow> string) \<Rightarrow> overlay \<Rightarrow> string \<Rightarrow> string option result" where
  "wanted_parent cf o' k =
     (if \<not> ich_clears (inheritance_change_for cf o' k) then Inr None
      else res_bind (parse_unc_path k) (\<lambda>p. case unc_parent p of
          None \<Rightarrow> Inr None
        | Some parent \<Rightarrow> res_bind parent (\<lambda>q. Inr (Some (unc_comparison_key cf q)))))"

fun wanted_parents :: "(string \<Rightarrow> string) \<Rightarrow> overlay \<Rightarrow> string list \<Rightarrow> (string \<times> string) list result" where
  "wanted_parents cf o' [] = Inr []"
| "wanted_parents cf o' (k # ks) = res_bind (wanted_parent cf o' k) (\<lambda>x.
     res_bind (wanted_parents cf o' ks) (\<lambda>ws. Inr (case x of None \<Rightarrow> ws | Some parent \<Rightarrow> (k, parent) # ws)))"

definition sim_parent_entries :: "'c::linorder world \<Rightarrow> overlay \<Rightarrow> string list \<Rightarrow> nat \<Rightarrow> (string \<rightharpoonup> ntfs_ace_record list) result" where
  "sim_parent_entries w o' keys limit = res_bind (wanted_parents (w_casefold w) o' keys) (\<lambda>ws.
     let acls = ntfs_acls_for (w_casefold w) (w_coll w) (w_db w) (sort (dict_fromkeys (map snd ws))) limit
     in Inr (\<lambda>k. case map_of ws k of None \<Rightarrow> None
          | Some parent \<Rightarrow> (case acls parent of None \<Rightarrow> None | Some es \<Rightarrow> if es = [] then None else Some es)))"

definition sim_is_container :: "'c::linorder world \<Rightarrow> string \<Rightarrow> bool" where
  "sim_is_container w key = resource_is_container (get_ntfs_resource (w_casefold w) (w_db w) key)"

definition sim_containers :: "'c::linorder world \<Rightarrow> string list \<Rightarrow> string \<rightharpoonup> bool" where
  "sim_containers w keys k = (if k \<in> set keys then Some (resource_is_container (ntfs_resources_by_keys (w_casefold w) (w_db w) keys k)) else None)"

definition sim_full_ntfs_acl :: "'c::linorder world \<Rightarrow> overlay \<Rightarrow> string \<Rightarrow> nat \<Rightarrow> ntfs_ace_record list result" where
  "sim_full_ntfs_acl w o' key limit =
     (let folded = w_casefold w key; baseline = full_ntfs_acl (w_casefold w) (w_coll w) (w_db w) folded limit
      in if \<not> touches_resource (w_casefold w) o' folded then Inr baseline
         else res_bind (sim_parent_entries w o' [folded] limit) (\<lambda>parents.
           overlay_ntfs_acl (w_casefold w) o' folded baseline (parents folded) (sim_is_container w folded)))"

text \<open>\<open>result.get(key, ())\<close>, and a key mapped to entries or taken out.\<close>

definition rows_at :: "(string \<rightharpoonup> 'a list) \<Rightarrow> string \<Rightarrow> 'a list" where
  "rows_at m k = (case m k of None \<Rightarrow> [] | Some es \<Rightarrow> es)"

definition put_rows :: "string \<Rightarrow> 'a list \<Rightarrow> (string \<rightharpoonup> 'a list) \<Rightarrow> string \<rightharpoonup> 'a list" where
  "put_rows k es m = m(k := (if es = [] then None else Some es))"

fun put_all :: "(string \<Rightarrow> 'a list result) \<Rightarrow> string list \<Rightarrow> (string \<rightharpoonup> 'a list) \<Rightarrow> (string \<rightharpoonup> 'a list) result" where
  "put_all f [] m = Inr m"
| "put_all f (k # ks) m = res_bind (f k) (\<lambda>es. put_all f ks (put_rows k es m))"

definition sim_ntfs_acls_for :: "'c::linorder world \<Rightarrow> overlay \<Rightarrow> string list \<Rightarrow> nat \<Rightarrow> (string \<rightharpoonup> ntfs_ace_record list) result" where
  "sim_ntfs_acls_for w o' keys limit =
     (let cf = w_casefold w; folded = map cf keys; baseline = ntfs_acls_for cf (w_coll w) (w_db w) folded limit;
          touched = filter (touches_resource cf o') folded
      in if touched = [] then Inr baseline
         else res_bind (sim_parent_entries w o' touched limit) (\<lambda>parents.
           put_all (\<lambda>k. overlay_ntfs_acl cf o' k (rows_at baseline k) (parents k)
             (case sim_containers w touched k of None \<Rightarrow> True | Some b \<Rightarrow> b)) touched baseline))"

definition sim_get_ntfs_resource :: "(string \<Rightarrow> string) \<Rightarrow> 'c::linorder world \<Rightarrow> overlay \<Rightarrow> string \<Rightarrow> ntfs_resource_record option result" where
  "sim_get_ntfs_resource sha w o' key =
     (let folded = w_casefold w key
      in case get_ntfs_resource (w_casefold w) (w_db w) folded of
           None \<Rightarrow> Inr None
         | Some r \<Rightarrow> if \<not> touches_resource (w_casefold w) o' folded then Inr (Some r)
             else res_bind (sim_full_ntfs_acl w o' folded MAX_ACL_FETCH) (\<lambda>es.
               res_bind (overlay_resource sha (w_casefold w) o' r es) (\<lambda>r'. Inr (Some r'))))"

fun update_rows :: "(string \<Rightarrow> 'r \<Rightarrow> 'r result) \<Rightarrow> string list \<Rightarrow> (string \<rightharpoonup> 'r) \<Rightarrow> (string \<rightharpoonup> 'r) result" where
  "update_rows f [] m = Inr m"
| "update_rows f (k # ks) m = (case m k of None \<Rightarrow> update_rows f ks m
     | Some r \<Rightarrow> res_bind (f k r) (\<lambda>r'. update_rows f ks (m(k \<mapsto> r'))))"

definition sim_ntfs_resources_by_keys ::
  "(string \<Rightarrow> string) \<Rightarrow> 'c::linorder world \<Rightarrow> overlay \<Rightarrow> string list \<Rightarrow> (string \<rightharpoonup> ntfs_resource_record) result" where
  "sim_ntfs_resources_by_keys sha w o' keys =
     (let cf = w_casefold w; folded = map cf keys; rows = ntfs_resources_by_keys cf (w_db w) folded;
          touched = filter (\<lambda>k. rows k \<noteq> None \<and> touches_resource cf o' k) folded
      in if touched = [] then Inr rows
         else res_bind (sim_ntfs_acls_for w o' touched MAX_ACL_FETCH) (\<lambda>acls.
           update_rows (\<lambda>k r. overlay_resource sha cf o' r (rows_at acls k)) (dict_fromkeys touched) rows))"

subsection \<open>Shares\<close>

definition sim_full_share_acl :: "'c::linorder world \<Rightarrow> overlay \<Rightarrow> string \<Rightarrow> nat \<Rightarrow> share_ace_record list result" where
  "sim_full_share_acl w o' key limit =
     (let folded = w_casefold w key; baseline = full_share_acl (w_casefold w) (w_coll w) (w_db w) folded limit
      in if \<not> touches_share (w_casefold w) o' folded then Inr baseline
         else overlay_share_acl (w_casefold w) o' folded baseline)"

definition sim_share_acls_for :: "'c::linorder world \<Rightarrow> overlay \<Rightarrow> string list \<Rightarrow> nat \<Rightarrow> (string \<rightharpoonup> share_ace_record list) result" where
  "sim_share_acls_for w o' keys limit =
     (let cf = w_casefold w; folded = map cf keys; baseline = share_acls_for cf (w_coll w) (w_db w) folded limit
      in put_all (\<lambda>k. overlay_share_acl cf o' k (rows_at baseline k)) (filter (touches_share cf o') folded) baseline)"

subsection \<open>Candidates\<close>

definition merged_page :: "string page \<Rightarrow> string list \<Rightarrow> int \<Rightarrow> string option \<Rightarrow> string page" where
  "merged_page page extra limit after =
     (let candidates = filter (\<lambda>k. case after of None \<Rightarrow> True | Some a \<Rightarrow> a < k) extra
      in if candidates = [] then page
         else let size = page_size limit; merged = sort (dict_fromkeys (pg_items page @ candidates));
                  has_more = pg_has_more page \<or> size < length merged; visible = take size merged
              in \<lparr>pg_items = visible, pg_has_more = has_more,
                  pg_next_key = (if has_more \<and> visible \<noteq> [] then Some (last visible) else None)\<rparr>)"

fun added_targets :: "('a \<Rightarrow> bool) \<Rightarrow> ('a \<Rightarrow> string option result) \<Rightarrow> ('a \<Rightarrow> string) \<Rightarrow> string list \<Rightarrow> 'a list \<Rightarrow> string list result" where
  "added_targets adds trustee target named [] = Inr []"
| "added_targets adds trustee target named (c # cs) =
     (if \<not> adds c then added_targets adds trustee target named cs
      else res_bind (trustee c) (\<lambda>t. res_bind (added_targets adds trustee target named cs) (\<lambda>ts.
        Inr (if t \<in> Some ` set named then target c # ts else ts))))"

definition sim_resources_named_by ::
  "'c::linorder world \<Rightarrow> overlay \<Rightarrow> string list \<Rightarrow> int \<Rightarrow> string option \<Rightarrow> string page result" where
  "sim_resources_named_by w o' keys limit after =
     res_bind (added_targets (\<lambda>c. nch_kind c = SK_ADD_NTFS_ACE) (nch_trustee_key (w_casefold w)) nch_resource_key keys (ov_ntfs_aces o'))
       (\<lambda>extra. Inr (merged_page (resources_named_by (w_coll w) (w_db w) keys limit after) extra limit after))"

definition sim_shares_named_by ::
  "'c::linorder world \<Rightarrow> overlay \<Rightarrow> string list \<Rightarrow> int \<Rightarrow> string option \<Rightarrow> string page result" where
  "sim_shares_named_by w o' keys limit after =
     res_bind (added_targets (\<lambda>c. sch_kind c = SK_ADD_SHARE_ACE) (sch_trustee_key (w_casefold w)) sch_share_key keys (ov_share_aces o'))
       (\<lambda>extra. Inr (merged_page (shares_named_by (w_coll w) (w_db w) keys limit after) extra limit after))"


subsection \<open>The edges a simulation walks\<close>

text \<open>The edge an addition stands for, which the constructor of edges always accepts.\<close>

definition edge_of :: "membership_change \<Rightarrow> graph_edge" where
  "edge_of c = \<lparr>ge_edge_key = mch_edge_key c, ge_group_key = mch_group_key c, ge_member_key = mch_member_key c,
     ge_kind = mch_edge_kind c, ge_host_key = mch_host_key c, ge_member_kind = mch_member_kind c, ge_is_foreign = False\<rparr>"

definition change_triple :: "membership_change \<Rightarrow> edge_triple" where
  "change_triple c = (mch_group_key c, mch_member_key c, mch_edge_kind c)"

lemma edge_of_triple [simp]: "edge_triple (edge_of c) = change_triple c" "ge_edge_key (edge_of c) = mch_edge_key c"
  by (simp_all add: edge_of_def edge_triple_def change_triple_def)

definition additions :: "overlay \<Rightarrow> membership_change list" where
  "additions o' = filter (\<lambda>c. mch_kind c = SK_ADD_MEMBER) (ov_membership o')"

text \<open>The edge table the proposal describes.\<close>

definition edited_edges :: "overlay \<Rightarrow> graph_edge list \<Rightarrow> graph_edge list" where
  "edited_edges o' table =
     (let stay = filter (\<lambda>e. edge_triple e \<notin> removed_triples o') table
      in stay @ map edge_of (filter (\<lambda>c. change_triple c \<notin> edge_triple ` set stay) (additions o')))"

lemma accepted_member:
  assumes "accepted_overlay cf o'" "c \<in> set (ov_membership o')"
  shows "simulated_edge c = Inr (edge_of c)"
proof -
  obtain c0 where "remade cf c0 = Inr (Change_member c)" using assms by (fastforce simp: accepted_overlay_def ov_changes_def)
  then have "py_strip (mch_group_key c) \<noteq> []" "py_strip (mch_member_key c) \<noteq> []" "mch_group_key c \<noteq> mch_member_key c"
    by (cases c0; auto simp: result_simps made_by)+
  moreover have "py_strip [] = []" by (simp add: py_strip_def)
  ultimately show ?thesis by (auto simp: simulated_edge_def mk_graph_edge_def edge_of_def)
qed

lemma distinct_triples:
  assumes "accepted_overlay cf o'"
  shows "distinct (map change_triple (ov_membership o'))"
proof -
  have "distinct (map change_target (ov_changes o'))"
    using assms by (auto simp: accepted_overlay_def mk_overlay_def split: if_splits)
  then have d: "distinct (map mch_target (ov_membership o'))" by (simp add: ov_changes_def comp_def)
  have "mch_target c = (case change_triple c of (g, m, k) \<Rightarrow> ''edge:'' @ g @ ''->'' @ m @ ''|'' @ membership_edge_kind_value k)" for c
    by (simp add: mch_target_def mch_edge_text_def change_triple_def)
  then show ?thesis using d by (auto simp: distinct_map inj_on_def)
qed

text \<open>What \<open>add_edges\<close> leaves at a key it was asked about.\<close>

lemma add_edges_result:
  assumes "\<forall>c \<in> set cs. simulated_edge c = Inr (edge_of c)" "distinct (map change_triple cs)"
  shows "\<exists>m'. add_edges d asked cs m = Inr m' \<and> (\<forall>k. m' k = m k @ (if k \<in> set asked
    then map edge_of (filter (\<lambda>c. mch_kind c = SK_ADD_MEMBER \<and> ge_origin d (edge_of c) = k \<and> change_triple c \<notin> edge_triple ` set (m k)) cs) else []))"
  using assms
proof (induction cs arbitrary: m)
  case (Cons c cs)
  let ?k = "ge_origin d (edge_of c)"
  have rest: "\<forall>c \<in> set cs. simulated_edge c = Inr (edge_of c)" "distinct (map change_triple cs)" using Cons.prems by simp_all
  have edge: "simulated_edge c = Inr (edge_of c)" using Cons.prems by simp
  show ?case
  proof (cases "mch_kind c = SK_ADD_MEMBER \<and> ?k \<in> set asked \<and> change_triple c \<notin> edge_triple ` set (m ?k)")
    case False
    then have "add_edges d asked (c # cs) m = add_edges d asked cs m"
      using edge by (auto simp: list_ex_iff image_iff)
    with Cons.IH [OF rest, of m] False show ?thesis by fastforce
  next
    case True
    define m1 where "m1 = m(?k := m ?k @ [edge_of c])"
    have "\<not> list_ex (\<lambda>f. edge_triple f = edge_triple (edge_of c)) (m ?k)"
    proof
      assume "list_ex (\<lambda>f. edge_triple f = edge_triple (edge_of c)) (m ?k)"
      then obtain f where "f \<in> set (m ?k)" "edge_triple f = change_triple c" by (auto simp: list_ex_iff)
      then show False using True by (metis image_eqI)
    qed
    then have step: "add_edges d asked (c # cs) m = add_edges d asked cs m1" using True edge by (simp add: m1_def)
    obtain m' where m': "add_edges d asked cs m1 = Inr m'"
      "\<And>k. m' k = m1 k @ (if k \<in> set asked then map edge_of (filter (\<lambda>c. mch_kind c = SK_ADD_MEMBER \<and> ge_origin d (edge_of c) = k
         \<and> change_triple c \<notin> edge_triple ` set (m1 k)) cs) else [])"
      using Cons.IH [OF rest, of m1] by blast
    have "m' k = m k @ (if k \<in> set asked then map edge_of (filter (\<lambda>c. mch_kind c = SK_ADD_MEMBER \<and> ge_origin d (edge_of c) = k
        \<and> change_triple c \<notin> edge_triple ` set (m k)) (c # cs)) else [])" for k
    proof (cases "k = ?k")
      case True': True
      have other: "change_triple b \<noteq> change_triple c" if "b \<in> set cs" for b
        using Cons.prems(2) that by (metis distinct.simps(2) image_eqI list.simps(9) set_map)
      have "filter (\<lambda>b. mch_kind b = SK_ADD_MEMBER \<and> ge_origin d (edge_of b) = k \<and> change_triple b \<notin> edge_triple ` set (m1 k)) cs
          = filter (\<lambda>b. mch_kind b = SK_ADD_MEMBER \<and> ge_origin d (edge_of b) = k \<and> change_triple b \<notin> edge_triple ` set (m k)) cs"
        by (rule filter_cong) (use other True' in \<open>auto simp: m1_def\<close>)
      then show ?thesis using m'(2) [of k] True True' by (simp add: m1_def)
    qed (use m'(2) [of k] in \<open>simp add: m1_def\<close>)
    then show ?thesis using step m'(1) by auto
  qed
qed simp


definition stays :: "overlay \<Rightarrow> graph_edge \<Rightarrow> bool" where "stays o' e \<longleftrightarrow> edge_triple e \<notin> removed_triples o'"

definition overlaid :: "overlay \<Rightarrow> direction \<Rightarrow> graph_edge list \<Rightarrow> string \<Rightarrow> graph_edge list" where
  "overlaid o' d es k = filter (stays o') es
     @ map edge_of (filter (\<lambda>c. ge_origin d (edge_of c) = k \<and> change_triple c \<notin> edge_triple ` set (filter (stays o') es)) (additions o'))"

lemma overlay_edges_result:
  assumes "accepted_overlay cf o'"
  shows "overlay_edges o' d ks m = Inr (\<lambda>k. if k \<in> set ks then overlaid o' d (m k) k else [])"
proof (cases "ov_membership o' = []")
  case True
  then have "stays o' e" "additions o' = []" for e by (simp_all add: stays_def removed_triples_def additions_def)
  then show ?thesis using True by (auto simp: overlay_edges_def Let_def overlaid_def)
next
  case False
  define st where "st = (\<lambda>k. filter (\<lambda>e. edge_triple e \<notin> removed_triples o') (if k \<in> set ks then m k else []))"
  obtain m' where m': "add_edges d ks (ov_membership o') st = Inr m'"
    "\<And>k. m' k = st k @ (if k \<in> set ks then map edge_of (filter (\<lambda>c. mch_kind c = SK_ADD_MEMBER \<and> ge_origin d (edge_of c) = k
       \<and> change_triple c \<notin> edge_triple ` set (st k)) (ov_membership o')) else [])"
    using add_edges_result [OF _ distinct_triples [OF assms], of d ks st] accepted_member [OF assms] by blast
  have "m' k = (if k \<in> set ks then overlaid o' d (m k) k else [])" for k
    unfolding m'(2) by (auto simp: st_def overlaid_def additions_def stays_def intro!: filter_cong)
  then show ?thesis using False m'(1) by (auto simp: overlay_edges_def Let_def st_def)
qed

lemma accepted_neighbors:
  assumes "accepted_overlay cf o'"
  shows "overlay_neighbors o' base d ks s = Inr (overlay_provider o' base d ks s)"
  by (simp add: overlay_provider_def overlay_neighbors_def case_prod_unfold Let_def overlay_edges_result [OF assms])

text \<open>While rows are left, a neighbour query returns what an unlimited one does.\<close>

definition full_neighbors :: "(string \<Rightarrow> 'c::linorder) \<Rightarrow> graph_edge list \<Rightarrow> direction \<Rightarrow> string list \<Rightarrow> string \<Rightarrow> graph_edge list" where
  "full_neighbors coll table d ks = fst (neighbors coll table (Suc (length table)) d ks 0)"

lemma fetch_unspent:
  assumes "fetch_chunks coll table limit d cs rows s = (rows', s')" "s' < limit"
  shows "rows' = rows @ concat (map (\<lambda>c. sort_key (\<lambda>e. (coll (ge_origin d e), coll (ge_endpoint d e), coll (ge_edge_key e)))
      (filter (\<lambda>e. ge_origin d e \<in> set c) table)) cs)"
  using assms(1)
proof (induction cs arbitrary: rows s)
  case (Cons c cs)
  define new where "new = select_edges coll table d c (limit - s)"
  have s: "s < limit" using fetch_chunks_grows [OF Cons.prems] assms(2) by simp
  have go: "fetch_chunks coll table limit d cs (rows @ new) (s + length new) = (rows', s')"
    using Cons.prems s by (simp add: new_def Let_def)
  have "length new < limit - s" using fetch_chunks_grows [OF go] assms(2) by simp
  then have "new = sort_key (\<lambda>e. (coll (ge_origin d e), coll (ge_endpoint d e), coll (ge_edge_key e))) (filter (\<lambda>e. ge_origin d e \<in> set c) table)"
    by (simp add: new_def select_edges_def)
  then show ?case using Cons.IH [OF go] by simp
qed simp

lemma full_neighbors_unspent: "snd (neighbors coll (edge_rows tb) (Suc (length (edge_rows tb))) d ks 0) \<le> length (edge_rows tb)"
proof -
  obtain m s' where n: "neighbors coll (edge_rows tb) (Suc (length (edge_rows tb))) d ks 0 = (m, s')" by fastforce
  obtain rows where rows: "s' = 0 + length rows" "set rows \<subseteq> {e \<in> set (edge_rows tb). ge_origin d e \<in> set ks}" "distinct (map ge_edge_key rows)"
    using neighbors_spec [OF n] by blast
  have "length rows = card (set rows)" using rows(3) by (simp add: distinct_map distinct_card)
  also have "\<dots> \<le> card (set (edge_rows tb))" using rows(2) by (intro card_mono) auto
  also have "\<dots> \<le> length (edge_rows tb)" by (rule card_length)
  finally show ?thesis using rows(1) n by simp
qed

lemma neighbors_unspent:
  assumes "neighbors coll (edge_rows tb) limit d ks s = (m, s')" "s' < limit"
  shows "m = full_neighbors coll (edge_rows tb) d ks"
proof (cases "ks = []")
  case True
  then show ?thesis using assms(1) by (simp add: full_neighbors_def neighbors_def)
next
  case False
  let ?cs = "chunks_of (dict_fromkeys ks) KEY_CHUNK" and ?L = "Suc (length (edge_rows tb))"
  obtain rows where f: "fetch_chunks coll (edge_rows tb) limit d ?cs [] s = (rows, s')" "m = (\<lambda>k. filter (\<lambda>e. ge_origin d e = k) rows)"
    using assms(1) False by (auto simp: neighbors_def split: prod.splits)
  obtain rows2 s2 where g: "fetch_chunks coll (edge_rows tb) ?L d ?cs [] 0 = (rows2, s2)" by fastforce
  then have "neighbors coll (edge_rows tb) ?L d ks 0 = (\<lambda>k. filter (\<lambda>e. ge_origin d e = k) rows2, s2)"
    using False by (simp add: neighbors_def)
  moreover from this have "s2 < ?L" using full_neighbors_unspent [of coll tb d ks] by simp
  ultimately show ?thesis using fetch_unspent [OF f(1) assms(2)] fetch_unspent [OF g] f(2) by (simp add: full_neighbors_def)
qed

lemma full_neighbors_spec:
  obtains rows where "full_neighbors coll (edge_rows tb) d ks = (\<lambda>k. filter (\<lambda>e. ge_origin d e = k) rows)"
    "set rows = {e \<in> set (edge_rows tb). ge_origin d e \<in> set ks}" "distinct (map ge_edge_key rows)"
proof -
  obtain m s' where n: "neighbors coll (edge_rows tb) (Suc (length (edge_rows tb))) d ks 0 = (m, s')" by fastforce
  then have "s' < Suc (length (edge_rows tb))" using full_neighbors_unspent [of coll tb d ks] by simp
  then show thesis using neighbors_spec [OF n] n that by (auto simp: full_neighbors_def)
qed


subsection \<open>A simulated traversal\<close>

text \<open>
  Two providers that answer alike while the first is in a good state: a walk over the first that ends
  in one is a walk over the second.
\<close>

locale provider_view =
  fixes base :: "'s provider" and view :: "'t provider" and good :: "'s \<Rightarrow> bool"
  assumes same_answers: "base d ks s = (m, s') \<Longrightarrow> good s' \<Longrightarrow> fst (view d ks t) = m"
    and good_before: "base d ks s = (m, s') \<Longrightarrow> good s' \<Longrightarrow> good s"
begin

lemma levels_good:
  "expand_levels root d lim base r depth frontier st s = Inr (fr, st', s') \<Longrightarrow> good s' \<Longrightarrow> good s"
proof (induction r arbitrary: depth frontier st s)
  case (Suc r)
  then show ?case by (auto simp: result_simps split: if_splits prod.splits dest: good_before)
qed simp

lemma levels_viewed:
  "expand_levels root d lim base r depth frontier st s = Inr (fr, st', s') \<Longrightarrow> good s'
    \<Longrightarrow> \<exists>t'. expand_levels root d lim view r depth frontier st t = Inr (fr, st', t')"
proof (induction r arbitrary: depth frontier st s t)
  case (Suc r)
  show ?case
  proof (cases "frontier = [] \<or> gw_trunc st \<noteq> {}")
    case True
    then show ?thesis using Suc.prems by auto
  next
    case False
    obtain m s1 where nb: "base d frontier s = (m, s1)" by fastforce
    obtain m2 t1 where vw: "view d frontier t = (m2, t1)" by fastforce
    obtain st1 where go: "visit_frontier root d lim (Suc depth) frontier m (st\<lparr>gw_next := []\<rparr>) = Inr st1"
      and more: "expand_levels root d lim base r (Suc depth) (gw_next st1) st1 s1 = Inr (fr, st', s')"
      using nb Suc.prems(1) False by (auto simp: result_simps)
    have "m2 = m" using same_answers [OF nb levels_good [OF more Suc.prems(2)], of t] vw by simp
    moreover obtain t' where "expand_levels root d lim view r (Suc depth) (gw_next st1) st1 t1 = Inr (fr, st', t')"
      using Suc.IH [OF more Suc.prems(2)] by blast
    ultimately show ?thesis using False go vw by (simp add: result_simps)
  qed
qed simp

lemma walk_viewed:
  assumes "expand_walk root d lim base s = Inr (st, s')" "good s'"
  shows "\<exists>t'. expand_walk root d lim view t = Inr (st, t')"
  using assms(1)
proof (cases rule: expand_walk_cases)
  case (ended fr)
  obtain t' where "expand_levels root d lim view (tl_max_depth lim) 0 [root] start_state t = Inr (fr, st, t')"
    using levels_viewed [OF ended(1) assms(2)] by blast
  then show ?thesis using assms(1) ended by (auto simp: expand_walk_def result_simps)
next
  case (probed fr st1 s1 m)
  have g: "good s1" by (rule good_before [OF probed(3) assms(2)])
  obtain t1 where t1: "expand_levels root d lim view (tl_max_depth lim) 0 [root] start_state t = Inr (fr, st1, t1)"
    using levels_viewed [OF probed(1) g] by blast
  obtain m2 t2 where "view d fr t1 = (m2, t2)" by fastforce
  moreover from this have "m2 = m" using same_answers [OF probed(3) assms(2), of t1] by simp
  ultimately show ?thesis using assms(1) probed t1 by (auto simp: expand_walk_def result_simps)
qed

end

definition sim_view :: "overlay \<Rightarrow> (string \<Rightarrow> 'c::linorder) \<Rightarrow> graph_edge list \<Rightarrow> nat provider" where
  "sim_view o' coll table d ks t =
     (let m = fst (overlay_provider o' (\<lambda>d ks s. (full_neighbors coll table d ks, s)) d ks t)
      in (m, t + length (concat (map m ks))))"

interpretation simulated_view: provider_view "overlay_provider o' (neighbors coll (edge_rows tb) limit)" "sim_view o' coll (edge_rows tb)"
    "\<lambda>s. s < limit"
  for o' and coll :: "string \<Rightarrow> 'c::linorder" and tb limit
proof (unfold_locales, goal_cases)
  case (1 d ks s m s' t)
  obtain m0 where b: "neighbors coll (edge_rows tb) limit d ks s = (m0, s')"
    using 1(1) by (auto simp: overlay_provider_def overlay_neighbors_def Let_def case_prod_unfold result_simps split: sum.splits prod.splits)
      (metis prod.collapse)+
  then have "m0 = full_neighbors coll (edge_rows tb) d ks" using neighbors_unspent 1(2) by blast
  then show ?case using 1(1) b by (auto simp: sim_view_def Let_def overlay_provider_def overlay_neighbors_def result_simps split: sum.splits)
next
  case (2 d ks s m s')
  obtain m0 where b: "neighbors coll (edge_rows tb) limit d ks s = (m0, s')"
    using 2(1) by (auto simp: overlay_provider_def overlay_neighbors_def Let_def case_prod_unfold result_simps split: sum.splits prod.splits)
      (metis prod.collapse)+
  then show ?case using neighbors_grows [OF b] 2(2) by simp
qed


definition collected_keys :: "graph_edge list \<Rightarrow> bool" where
  "collected_keys table \<longleftrightarrow> (\<forall>e \<in> set table. \<not> is_simulated_edge_key (ge_edge_key e))"

lemma prefix_append [simp]: "is_prefix_of p (p @ q)"
  by (simp add: is_prefix_of_def)

lemma addition_key: "is_simulated_edge_key (ge_edge_key (edge_of c))"
  by (simp add: is_simulated_edge_key_def mch_edge_key_def)

lemma additions_distinct:
  assumes "accepted_overlay cf o'"
  shows "distinct (map mch_edge_key (additions o'))"
proof -
  have "distinct (map change_target (ov_changes o'))"
    using assms by (auto simp: accepted_overlay_def mk_overlay_def split: if_splits)
  then have "distinct (map mch_target (ov_membership o'))" by (simp add: ov_changes_def comp_def)
  then have "distinct (map mch_edge_key (ov_membership o'))"
    by (auto simp: distinct_map inj_on_def mch_target_def mch_edge_key_def)
  then show ?thesis unfolding additions_def by (rule distinct_map_filter)
qed

lemma stays_triple_origin: "edge_triple e = edge_triple f \<Longrightarrow> ge_origin d e = ge_origin d f"
  by (simp add: edge_triple_def ge_origin_def)

lemma overlaid_full:
  assumes "set es = {e \<in> set table. ge_origin d e = k}"
  shows "set (overlaid o' d es k) = edges_out (edited_edges o' table) d k"
proof -
  have same: "change_triple c \<in> edge_triple ` set (filter (stays o') es) \<longleftrightarrow> change_triple c \<in> edge_triple ` set (filter (stays o') table)"
    if c: "ge_origin d (edge_of c) = k" for c
  proof
    assume "change_triple c \<in> edge_triple ` set (filter (stays o') es)"
    then show "change_triple c \<in> edge_triple ` set (filter (stays o') table)" using assms by auto
  next
    assume "change_triple c \<in> edge_triple ` set (filter (stays o') table)"
    then obtain f where f: "f \<in> set table" "stays o' f" "edge_triple f = edge_triple (edge_of c)" by auto
    then have "f \<in> set es" using assms c stays_triple_origin [OF f(3), of d] by simp
    then show "change_triple c \<in> edge_triple ` set (filter (stays o') es)" using f by (auto intro!: image_eqI [of _ _ f])
  qed
  have adds: "{c \<in> set (additions o'). ge_origin d (edge_of c) = k \<and> change_triple c \<notin> edge_triple ` set (filter (stays o') es)}
      = {c \<in> set (additions o'). ge_origin d (edge_of c) = k \<and> change_triple c \<notin> edge_triple ` set (filter (stays o') table)}"
    using same by blast
  have "set (overlaid o' d es k) = {e \<in> set es. stays o' e} \<union> edge_of ` {c \<in> set (additions o'). ge_origin d (edge_of c) = k
      \<and> change_triple c \<notin> edge_triple ` set (filter (stays o') es)}"
    by (simp add: overlaid_def)
  also have "\<dots> = edges_out (edited_edges o' table) d k"
    unfolding adds assms edges_out_def edited_edges_def Let_def stays_def by auto
  finally show ?thesis .
qed

lemma edited_keys:
  assumes "accepted_overlay cf o'" "collected_keys (edge_rows tb)"
    and "e \<in> set (edited_edges o' (edge_rows tb))" "f \<in> set (edited_edges o' (edge_rows tb))" "ge_edge_key e = ge_edge_key f"
  shows "e = f"
proof -
  have "ge_edge_key g \<noteq> ge_edge_key (edge_of c)" if "g \<in> set (edge_rows tb)" for g c
    using assms(2) that addition_key [of c] by (metis collected_keys_def)
  moreover have "c = c'" if "c \<in> set (additions o')" "c' \<in> set (additions o')" "mch_edge_key c = mch_edge_key c'" for c c'
    using additions_distinct [OF assms(1)] that by (auto simp: distinct_map dest: inj_onD)
  moreover have "g \<in> set (edge_rows tb) \<or> (\<exists>c \<in> set (additions o'). g = edge_of c)" if "g \<in> set (edited_edges o' (edge_rows tb))" for g
    using that by (auto simp: edited_edges_def Let_def)
  ultimately show ?thesis
    using assms(3-5) edge_rows_key [of e tb f] edge_of_triple(2) by metis
qed

lemma simulated_provider:
  fixes coll :: "string \<Rightarrow> 'c::linorder"
  assumes "accepted_overlay cf o'" "collected_keys (edge_rows tb)"
  shows "budgeted_provider (sim_view o' coll (edge_rows tb)) (edges_out (edited_edges o' (edge_rows tb))) (\<lambda>t. t) b"
proof (unfold_locales, goal_cases)
  have served: "\<exists>rows. fst (sim_view o' coll (edge_rows tb) d ks t)
        = (\<lambda>k. if k \<in> set ks then overlaid o' d (filter (\<lambda>e. ge_origin d e = k) rows) k else [])
      \<and> set rows = {e \<in> set (edge_rows tb). ge_origin d e \<in> set ks} \<and> distinct (map ge_edge_key rows)" for d ks t
    by (rule full_neighbors_spec [of coll tb d ks])
      (auto simp: sim_view_def Let_def overlay_provider_def overlay_neighbors_def overlay_edges_result [OF assms(1)])
  have out: "set (fst (sim_view o' coll (edge_rows tb) d ks t) k) = edges_out (edited_edges o' (edge_rows tb)) d k"
    if "k \<in> set ks" for d ks t k
  proof -
    obtain rows where rows: "fst (sim_view o' coll (edge_rows tb) d ks t)
        = (\<lambda>k. if k \<in> set ks then overlaid o' d (filter (\<lambda>e. ge_origin d e = k) rows) k else [])"
      "set rows = {e \<in> set (edge_rows tb). ge_origin d e \<in> set ks}" using served [of d ks t] by blast
    then have "set (filter (\<lambda>e. ge_origin d e = k) rows) = {e \<in> set (edge_rows tb). ge_origin d e = k}" using that by auto
    from overlaid_full [OF this] show ?thesis using rows(1) that by simp
  qed
  {
    case (1 d ks s m s' k)
    then show ?case using out [of k ks d s] by simp
  next
    case (2 d ks s m s')
    obtain rows where rows: "m = (\<lambda>k. if k \<in> set ks then overlaid o' d (filter (\<lambda>e. ge_origin d e = k) rows) k else [])"
      "set rows \<subseteq> set (edge_rows tb)" "distinct (map ge_edge_key rows)"
      using served [of d ks s] 2(1) by auto
    have one: "distinct (map ge_edge_key (m k))" if "k \<in> set ks" for k
    proof -
      have "distinct (map ge_edge_key (filter (stays o') (filter (\<lambda>e. ge_origin d e = k) rows)))"
        using rows(3) by (intro distinct_map_filter)
      moreover have "distinct (map ge_edge_key (map edge_of (filter P (additions o'))))" for P
        using distinct_map_filter [OF additions_distinct [OF assms(1)], of P] by (simp add: comp_def)
      moreover have "ge_edge_key e \<noteq> ge_edge_key (edge_of c)" if "e \<in> set rows" for e c
        using assms(2) rows(2) that addition_key [of c] by (metis collected_keys_def subsetD)
      ultimately show ?thesis using that by (auto simp: rows(1) overlaid_def)
    qed
    have cross: "k = j" if "e \<in> set (m k)" "f \<in> set (m j)" "ge_edge_key e = ge_edge_key f" "k \<in> set ks" "j \<in> set ks" for e f k j
    proof -
      have mem: "e \<in> edges_out (edited_edges o' (edge_rows tb)) d k" "f \<in> edges_out (edited_edges o' (edge_rows tb)) d j"
        using out [of k ks d s] out [of j ks d s] 2(1) that by simp_all
      then have "e = f" using edited_keys [OF assms] that(3) by (auto simp: edges_out_def)
      with mem show ?thesis by (simp add: edges_out_def)
    qed
    show ?case using 2(2) one cross
    proof (induction ks)
      case (Cons k ks)
      have "ge_edge_key ` set (m k) \<inter> ge_edge_key ` set (concat (map m ks)) = {}"
        using Cons.prems(1,3) by fastforce
      with Cons show ?case by simp
    qed simp
  next
    case (3 d ks s m s')
    then show ?case by (auto simp: sim_view_def Let_def)
  next
    case (4 d ks s m s' k)
    then show ?case using out [of k ks d s] by simp
  next
    case (5 e d k)
    then show ?case by (simp add: edges_out_def)
  next
    case (6 e d k f j)
    then show ?case using edited_keys [OF assms] by (auto simp: edges_out_def)
  }
qed


text \<open>
  C12. A simulated expansion is the expansion of the estate the proposal describes: over a baseline whose
  rows were not used up and whose edges a collector reported, a walk through an accepted overlay
  that reports itself complete reaches exactly the keys reachable along the stored edges without
  the removed and with the added ones.
\<close>

theorem simulated_membership_exact:
  fixes coll :: "string \<Rightarrow> 'c::linorder"
  assumes "accepted_overlay cf o'" "collected_keys (edge_rows tb)"
    and "expand_walk root d lim (overlay_provider o' (neighbors coll (edge_rows tb) limit)) s = Inr (st, s')"
    and "s' < limit" "expansion_complete st"
  shows "rn_key ` set (expansion_nodes st) = {k. reaches d (edges_out (edited_edges o' (edge_rows tb)) d) root k} - {root}"
proof -
  let ?out = "edges_out (edited_edges o' (edge_rows tb))"
  have root: "root \<noteq> []" using assms(3) by (auto simp: expand_walk_def)
  obtain t where walk: "expand_walk root d lim (sim_view o' coll (edge_rows tb)) 0 = Inr (st, t)"
    using simulated_view.walk_viewed [OF assms(3,4)] by blast
  have provider: "budgeted_provider (sim_view o' coll (edge_rows tb)) ?out (\<lambda>t. t) (Suc (tl_max_edges lim))"
    by (rule simulated_provider [OF assms(1,2)])
  have "known root st = {k. reaches d (?out d) root k}"
    using budgeted_provider.walk_clean [OF provider walk] assms(5) by (simp add: expansion_simps)
  moreover have "distinct (root # map rn_key (gw_visited st))"
    using budgeted_provider.walk_total [OF provider root] walk by (metis Inr_inject Pair_inject)
  ultimately show ?thesis by (auto simp: known_def expansion_simps)
qed

definition three_members :: edge_table where
  "three_members = Edge_Table [sample_edge ''1'' ''A'' ''a'', sample_edge ''2'' ''A'' ''b'', sample_edge ''3'' ''A'' ''c'']"

lemma three_rows: "edge_rows three_members = [sample_edge ''1'' ''A'' ''a'', sample_edge ''2'' ''A'' ''b'', sample_edge ''3'' ''A'' ''c'']"
  unfolding three_members_def by (rule Edge_Table_inverse) (simp add: sample_edge_def mk_graph_edge_def)

definition take_out :: "string \<Rightarrow> string \<Rightarrow> overlay" where
  "take_out grp member = \<lparr>ov_membership = [\<lparr>mch_kind = SK_REMOVE_MEMBER, mch_group_key = grp, mch_member_key = member,
     mch_edge_kind = MK_DIRECTORY_GROUP_MEMBER, mch_member_kind = None\<rparr>], ov_ntfs_aces = [], ov_share_aces = [], ov_inheritance = []\<rparr>"

lemma take_out_accepted: "accepted_overlay id (take_out ''A'' ''a'')"
proof -
  let ?c = "Change_member \<lparr>mch_kind = SK_REMOVE_MEMBER, mch_group_key = ''A'', mch_member_key = ''a'',
     mch_edge_kind = MK_DIRECTORY_GROUP_MEMBER, mch_member_kind = None\<rparr>"
  have "remade id ?c = Inr ?c"
    by (simp add: mk_membership_change_def validate_key_def mch_host_key_def py_strip_def is_py_space_def)
  then have "\<exists>c0. remade id c0 = Inr ?c" by (rule exI)
  then show ?thesis by (simp add: accepted_overlay_def take_out_def ov_changes_def mk_overlay_def MAX_CHANGES_def)
qed

lemma three_collected: "collected_keys (edge_rows three_members)"
  unfolding three_rows by (simp add: collected_keys_def sample_edge_def is_simulated_edge_key_def SIMULATED_EDGE_PREFIX_def is_prefix_of_def)

definition small_limits :: "nat \<Rightarrow> traversal_limits" where
  "small_limits n = \<lparr>tl_max_depth = 32, tl_max_nodes = 10, tl_max_edges = n, tl_max_paths = 1\<rparr>"

definition simulated_walk :: "nat \<Rightarrow> nat \<Rightarrow> (walk_state \<times> nat) result" where
  "simulated_walk edges limit = expand_walk ''A'' DOWN (small_limits edges)
     (overlay_provider (take_out ''A'' ''a'') (neighbors no_collation (edge_rows three_members) limit)) 0"

lemma simulated_walk_results:
  "case simulated_walk 5 6 of Inl e \<Rightarrow> False
   | Inr (st, n) \<Rightarrow> n = 3 \<and> expansion_complete st \<and> map rn_key (expansion_nodes st) = [''b'', ''c'']"
  "case simulated_walk 1 2 of Inl e \<Rightarrow> False
   | Inr (st, n) \<Rightarrow> n = 2 \<and> expansion_complete st \<and> map rn_key (expansion_nodes st) = [''b'']"
  unfolding simulated_walk_def three_rows
   apply code_simp
  apply code_simp
  done

theorem simulated_membership_exact_witness:
  "{''b'', ''c''} = {k. reaches DOWN (edges_out (edited_edges (take_out ''A'' ''a'') (edge_rows three_members)) DOWN) ''A'' k} - {''A''}"
proof -
  obtain st where st: "simulated_walk 5 6 = Inr (st, 3)" "expansion_complete st" "map rn_key (expansion_nodes st) = [''b'', ''c'']"
    using simulated_walk_results(1) by (auto split: sum.splits prod.splits)
  have "rn_key ` set (expansion_nodes st) = set [''b'', ''c'']" using st(3) by (metis set_map)
  then show ?thesis
    using simulated_membership_exact [OF take_out_accepted three_collected st(1) [unfolded simulated_walk_def] _ st(2)] by simp
qed

text \<open>
  A removal can hide that a simulated expansion was cut short: the baseline returns its one row more
  than \<open>max_edges\<close>, the overlay takes one of them out, and the traversal reports itself complete although
  a member the proposal keeps was never read.
\<close>

theorem removal_hides_truncation:
  "\<exists>st fetched. edge_fetch_limit (int (tl_max_edges (small_limits 1)) + 1) = 2
    \<and> expand_walk ''A'' DOWN (small_limits 1) (overlay_provider (take_out ''A'' ''a'') (neighbors no_collation (edge_rows three_members) 2)) 0
        = Inr (st, fetched)
    \<and> expansion_complete st \<and> ''c'' \<notin> rn_key ` set (expansion_nodes st)
    \<and> reaches DOWN (edges_out (edited_edges (take_out ''A'' ''a'') (edge_rows three_members)) DOWN) ''A'' ''c''"
proof -
  obtain st where st: "simulated_walk 1 2 = Inr (st, 2)" "expansion_complete st" "map rn_key (expansion_nodes st) = [''b'']"
    using simulated_walk_results(2) by (auto split: sum.splits prod.splits)
  have nodes: "rn_key ` set (expansion_nodes st) = set [''b'']" using st(3) by (metis set_map)
  let ?out = "edges_out (edited_edges (take_out ''A'' ''a'') (edge_rows three_members)) DOWN"
  have "sample_edge ''3'' ''A'' ''c'' \<in> ?out ''A''"
    unfolding three_rows by (simp add: edges_out_def edited_edges_def Let_def removed_triples_def take_out_def edge_triple_def sample_edge_def ge_origin_def)
  from reaches_step [where out = ?out and d = DOWN and root = "''A''" and k = "''A''", OF reaches_root this] have "reaches DOWN ?out ''A'' ''c''" by (simp add: sample_edge_def ge_endpoint_def)
  moreover have "edge_fetch_limit (int (tl_max_edges (small_limits 1)) + 1) = 2"
    by (simp add: small_limits_def edge_fetch_limit_def EDGE_FETCH_CEILING_def MAX_EDGES_CEILING_def)
  ultimately show ?thesis using st(1,2) nodes unfolding simulated_walk_def by (intro exI [of _ st] exI [of _ 2]) simp
qed


subsection \<open>Bulk reads\<close>

lemma put_all_at:
  assumes "put_all f ks m = Inr m'" "\<And>j. m j \<noteq> Some []"
  shows "rows_at m' k = (if k \<in> set ks then rows_at (put_rows k (case f k of Inr es \<Rightarrow> es | Inl _ \<Rightarrow> []) Map.empty) k else rows_at m k)
    \<and> (k \<in> set ks \<longrightarrow> returns (f k))"
  using assms
proof (induction ks arbitrary: m)
  case (Cons j ks)
  obtain es where es: "f j = Inr es" "put_all f ks (put_rows j es m) = Inr m'" using Cons.prems(1) by (auto simp: result_simps)
  have "put_rows j es m i \<noteq> Some []" for i using Cons.prems(2) [of i] by (auto simp: put_rows_def)
  from Cons.IH [OF es(2) this] es(1) show ?case by (auto simp: put_rows_def rows_at_def)
qed simp

lemma put_all_rows:
  assumes "put_all f ks m = Inr m'" "\<And>j. m j \<noteq> Some []"
  shows "k \<in> set ks \<Longrightarrow> f k = Inr (rows_at m' k)" and "k \<notin> set ks \<Longrightarrow> rows_at m' k = rows_at m k"
  using put_all_at [OF assms, of k] by (auto simp: returns_def rows_at_def put_rows_def)

lemma acls_for_at:
  assumes "cf k = k" "k \<in> set keys" "1 \<le> limit"
  shows "rows_at (ntfs_acls_for cf coll db keys limit) k = full_ntfs_acl cf coll db k limit"
    and "rows_at (share_acls_for cf coll db keys limit) k = full_share_acl cf coll db k limit"
proof -
  have k: "k \<in> cf ` set keys" using assms(1,2) by force
  have limit: "max (Suc 0) limit = limit" using assms(3) by simp
  show "rows_at (ntfs_acls_for cf coll db keys limit) k = full_ntfs_acl cf coll db k limit"
    unfolding ntfs_acls_for_def full_ntfs_acl_def rows_at_def
    by (subst group_rows_bucket) (simp_all add: bucket_rows [OF k] Let_def assms(1) limit ntfs_acl_rows_def)
  show "rows_at (share_acls_for cf coll db keys limit) k = full_share_acl cf coll db k limit"
    unfolding share_acls_for_def full_share_acl_def rows_at_def
    by (subst group_rows_bucket) (simp_all add: bucket_rows [OF k] Let_def assms(1) limit share_acl_rows_def)
qed

lemma acls_for_bucket:
  assumes "k \<in> cf ` set keys"
  shows "ntfs_acls_for cf coll db keys limit k = (if ntfs_acl_rows coll db k = [] then None else Some (take (Suc limit) (ntfs_acl_rows coll db k)))"
  unfolding ntfs_acls_for_def
  by (subst group_rows_bucket) (simp_all add: bucket_rows [OF assms] Let_def ntfs_acl_rows_def)

lemma acls_for_not_empty: "ntfs_acls_for cf coll db keys limit j \<noteq> Some []" "share_acls_for cf coll db keys limit j \<noteq> Some []"
  unfolding ntfs_acls_for_def share_acls_for_def by (subst group_rows_bucket; simp add: Let_def)+

lemma wanted_parents_at:
  assumes "wanted_parents cf o' ks = Inr ws"
  shows "k \<in> set ks \<Longrightarrow> wanted_parent cf o' k = Inr (map_of ws k)" and "k \<notin> set ks \<Longrightarrow> map_of ws k = None"
proof -
  have "(k \<in> set ks \<longrightarrow> wanted_parent cf o' k = Inr (map_of ws k)) \<and> (k \<notin> set ks \<longrightarrow> map_of ws k = None)"
    using assms
  proof (induction ks arbitrary: ws)
    case (Cons j ks)
    obtain x vs where x: "wanted_parent cf o' j = Inr x" and vs: "wanted_parents cf o' ks = Inr vs"
      and ws: "ws = (case x of None \<Rightarrow> vs | Some parent \<Rightarrow> (j, parent) # vs)"
      using Cons.prems by (auto simp: result_simps)
    note IH = Cons.IH [OF vs]
    show ?case
    proof (cases "k = j")
      case True
      then show ?thesis using IH x ws by (cases x; cases "k \<in> set ks") auto
    next
      case False
      then have "map_of ws k = map_of vs k" using ws by (cases x) auto
      then show ?thesis using IH False by auto
    qed
  qed simp
  then show "k \<in> set ks \<Longrightarrow> wanted_parent cf o' k = Inr (map_of ws k)" "k \<notin> set ks \<Longrightarrow> map_of ws k = None" by blast+
qed

definition parent_rows :: "'c::linorder world \<Rightarrow> nat \<Rightarrow> string option \<Rightarrow> ntfs_ace_record list option" where
  "parent_rows w limit parent = (case parent of None \<Rightarrow> None
     | Some q \<Rightarrow> let es = ntfs_acl_rows (w_coll w) (w_db w) q in if es = [] then None else Some (take (Suc limit) es))"

lemma parent_entries_at:
  assumes "sim_parent_entries w o' ks limit = Inr parents" "k \<in> set ks" "\<And>s. w_casefold w (w_casefold w s) = w_casefold w s"
  shows "\<exists>x. wanted_parent (w_casefold w) o' k = Inr x \<and> parents k = parent_rows w limit x"
proof -
  obtain ws where ws: "wanted_parents (w_casefold w) o' ks = Inr ws"
    and parents: "parents = (\<lambda>k. case map_of ws k of None \<Rightarrow> None
          | Some parent \<Rightarrow> (case ntfs_acls_for (w_casefold w) (w_coll w) (w_db w) (sort (dict_fromkeys (map snd ws))) limit parent of
              None \<Rightarrow> None | Some es \<Rightarrow> if es = [] then None else Some es))"
    using assms(1) by (auto simp: sim_parent_entries_def result_simps Let_def)
  note at = wanted_parents_at(1) [OF ws assms(2)]
  have "parents k = parent_rows w limit (map_of ws k)"
  proof (cases "map_of ws k")
    case None
    then show ?thesis by (simp add: parents parent_rows_def)
  next
    case (Some parent)
    then have "parent \<in> snd ` set ws" by (force dest: map_of_SomeD)
    moreover have "w_casefold w parent = parent"
      using at Some assms(3) by (auto simp: wanted_parent_def unc_comparison_key_def result_simps split: if_splits option.splits)
    ultimately have "parent \<in> w_casefold w ` set (sort (dict_fromkeys (map snd ws)))" by force
    from acls_for_bucket [OF this, of "w_coll w" "w_db w" limit] show ?thesis
      using Some by (auto simp: parents parent_rows_def Let_def)
  qed
  then show ?thesis using at by blast
qed

lemma by_keys_at: "k \<in> set keys \<Longrightarrow> by_keys key rows keys k = find (\<lambda>r. key r = k) rows"
  unfolding by_keys_def by (induction rows) auto

text \<open>
  Reading many simulated ACLs in one statement gives each as reading it alone does: whenever the
  bulk read returns, every key it was asked for has exactly the entries the single read returns, for
  directories and for shares, with the proposal applied and the parents of cleared directories read.
\<close>

theorem simulated_bulk_reads_agree:
  fixes w :: "'c::linorder world"
  assumes "\<And>s. w_casefold w (w_casefold w s) = w_casefold w s" "1 \<le> limit" "k \<in> set keys"
  shows "(\<forall>m. sim_ntfs_acls_for w o' keys limit = Inr m \<longrightarrow> sim_full_ntfs_acl w o' k limit = Inr (rows_at m (w_casefold w k)))
    \<and> (\<forall>m. sim_share_acls_for w o' keys limit = Inr m \<longrightarrow> sim_full_share_acl w o' k limit = Inr (rows_at m (w_casefold w k)))"
proof -
  define cf fk folded where "cf = w_casefold w" and "fk = cf k" and "folded = map cf keys"
  have fk: "cf fk = fk" "fk \<in> set folded" using assms(1,3) by (simp_all add: fk_def cf_def folded_def)
  note alone = acls_for_at [where cf = cf and k = fk and coll = "w_coll w" and db = "w_db w", OF fk assms(2)]
  have ntfs: "sim_full_ntfs_acl w o' k limit = Inr (rows_at m fk)" if m: "sim_ntfs_acls_for w o' keys limit = Inr m" for m
  proof -
    let ?base = "ntfs_acls_for cf (w_coll w) (w_db w) folded limit" and ?touched = "filter (touches_resource cf o') folded"
    show ?thesis
    proof (cases "touches_resource cf o' fk")
      case False
      have "rows_at m fk = rows_at ?base fk"
      proof (cases "?touched = []")
        case True
        then show ?thesis using m by (simp add: sim_ntfs_acls_for_def Let_def cf_def folded_def)
      next
        case touched: False
        then obtain parents where "put_all (\<lambda>k. overlay_ntfs_acl cf o' k (rows_at ?base k) (parents k)
             (case sim_containers w ?touched k of None \<Rightarrow> True | Some b \<Rightarrow> b)) ?touched ?base = Inr m"
          using m by (auto simp: sim_ntfs_acls_for_def Let_def cf_def folded_def result_simps)
        from put_all_rows(2) [OF this acls_for_not_empty(1)] False show ?thesis by simp
      qed
      then show ?thesis using False alone(1) fk(1) by (simp add: sim_full_ntfs_acl_def Let_def fk_def cf_def)
    next
      case True
      then have t: "fk \<in> set ?touched" "?touched \<noteq> []" using fk(2) by (auto simp: filter_empty_conv)
      then obtain parents where parents: "sim_parent_entries w o' ?touched limit = Inr parents"
        and put: "put_all (\<lambda>k. overlay_ntfs_acl cf o' k (rows_at ?base k) (parents k)
             (case sim_containers w ?touched k of None \<Rightarrow> True | Some b \<Rightarrow> b)) ?touched ?base = Inr m"
        using m by (auto simp: sim_ntfs_acls_for_def Let_def cf_def folded_def result_simps)
      obtain x where x: "wanted_parent cf o' fk = Inr x" "parents fk = parent_rows w limit x"
        using parent_entries_at [OF parents t(1) assms(1)] by (auto simp: cf_def)
      then obtain parents' where p': "sim_parent_entries w o' [fk] limit = Inr parents'"
        by (simp add: sim_parent_entries_def cf_def Let_def)
      then have same: "parents' fk = parents fk" using parent_entries_at [OF p' _ assms(1)] x by (auto simp: cf_def)
      have "fk \<in> set (map cf ?touched)" using t(1) fk(1) by (metis image_eqI set_map)
      then have "sim_containers w ?touched fk = Some (sim_is_container w fk)"
        using t(1) fk(1) by (simp add: sim_containers_def sim_is_container_def ntfs_resources_by_keys_def get_ntfs_resource_def by_keys_at cf_def)
      then have "overlay_ntfs_acl cf o' fk (full_ntfs_acl cf (w_coll w) (w_db w) fk limit) (parents fk) (sim_is_container w fk) = Inr (rows_at m fk)"
        using put_all_rows(1) [OF put acls_for_not_empty(1) t(1)] alone(1) by simp
      then show ?thesis using True p' same fk(1) by (simp add: sim_full_ntfs_acl_def Let_def fk_def cf_def)
    qed
  qed
  have share: "sim_full_share_acl w o' k limit = Inr (rows_at m fk)" if m: "sim_share_acls_for w o' keys limit = Inr m" for m
  proof -
    have put: "put_all (\<lambda>k. overlay_share_acl cf o' k (rows_at (share_acls_for cf (w_coll w) (w_db w) folded limit) k))
        (filter (touches_share cf o') folded) (share_acls_for cf (w_coll w) (w_db w) folded limit) = Inr m"
      using m by (simp add: sim_share_acls_for_def Let_def cf_def folded_def)
    note at = put_all_rows [OF put acls_for_not_empty(2), of fk]
    show ?thesis using at alone(2) fk by (cases "touches_share cf o' fk") (simp_all add: sim_full_share_acl_def Let_def fk_def cf_def)
  qed
  show ?thesis using ntfs share unfolding fk_def cf_def by blast
qed


subsection \<open>Candidate pages\<close>

lemma take_smallest:
  fixes X D :: "'a::linorder set"
  assumes "finite X" "finite D" "Y \<subseteq> X" "card Y = n" "\<And>d y. d \<in> D \<Longrightarrow> y \<in> Y \<Longrightarrow> y < d"
  shows "take n (sorted_list_of_set (X \<union> D)) = take n (sorted_list_of_set X)"
proof -
  define xs where "xs = sorted_list_of_set X"
  have xs: "sorted xs" "distinct xs" "set xs = X" using assms(1) by (simp_all add: xs_def)
  have len: "n \<le> length xs"
    using card_mono [OF assms(1,3)] assms(4) distinct_card [OF xs(2)] xs(3) by simp
  have below: "l < d" if l: "l \<in> set (take n xs)" and d: "d \<in> D - X" for l d
  proof (rule ccontr)
    assume "\<not> l < d"
    moreover have "l \<noteq> d" using l d xs(3) in_set_takeD by fastforce
    ultimately have "d < l" by simp
    obtain i where i: "i < n" "l = xs ! i" using l len by (auto simp: in_set_conv_nth)
    have "Y \<subseteq> set (take i xs)"
    proof
      fix y assume y: "y \<in> Y"
      then have "y < l" using assms(5) [of d y] d \<open>d < l\<close> by auto
      obtain j where j: "j < length xs" "y = xs ! j" using y assms(3) xs(3) by (metis in_set_conv_nth subsetD)
      have "j < i"
      proof (rule ccontr)
        assume "\<not> j < i"
        then have "xs ! i \<le> xs ! j" using xs(1) j(1) by (intro sorted_nth_mono) auto
        then show False using \<open>y < l\<close> i(2) j(2) by simp
      qed
      then show "y \<in> set (take i xs)" using j i(1) len by (force simp: in_set_conv_nth)
    qed
    then have "card Y \<le> card (set (take i xs))" by (intro card_mono) auto
    also have "\<dots> \<le> i" using card_length [of "take i xs"] by simp
    finally show False using assms(4) i(1) by simp
  qed
  define ys where "ys = sorted_list_of_set (set (drop n xs) \<union> (D - X))"
  have ys: "sorted ys" "distinct ys" "set ys = set (drop n xs) \<union> (D - X)" using assms(2) by (simp_all add: ys_def)
  have cut: "sorted (take n xs @ drop n xs)" "distinct (take n xs @ drop n xs)" using xs by simp_all
  have mid: "x \<le> z" if "x \<in> set (take n xs)" "z \<in> set (drop n xs)" for x z
    using cut(1) that unfolding sorted_append by blast
  have disj: "set (take n xs) \<inter> set (drop n xs) = {}" using cut(2) unfolding distinct_append by blast
  have sub: "set (take n xs) \<subseteq> X" using set_take_subset [of n xs] xs(3) by blast
  have first: "sorted (take n xs)" using cut(1) unfolding sorted_append by blast
  have "take n xs @ ys = sorted_list_of_set (X \<union> D)"
  proof (rule sorted_distinct_set_unique)
    show "sorted (take n xs @ ys)"
      using first mid ys below by (auto simp: sorted_append less_imp_le)
    show "distinct (take n xs @ ys)" using xs(2) disj sub ys by auto
    have "set (take n xs) \<union> set (drop n xs) = X" using xs(3) by (metis append_take_drop_id set_append)
    then show "set (take n xs @ ys) = set (sorted_list_of_set (X \<union> D))" using ys(3) assms(1,2) by auto
  qed (use assms(1,2) in simp_all)
  then show ?thesis using len unfolding xs_def [symmetric] by (metis append_eq_conv_conj length_take min.absorb2)
qed

text \<open>A database collation that orders text as Python does, by code point.\<close>

definition code_point_order :: "(string \<Rightarrow> 'c::linorder) \<Rightarrow> bool" where
  "code_point_order coll \<longleftrightarrow> (\<forall>a b. db_order coll a < db_order coll b \<longleftrightarrow> a < b)"

definition past :: "string option \<Rightarrow> string \<Rightarrow> bool" where
  "past after k \<longleftrightarrow> (case after of None \<Rightarrow> True | Some a \<Rightarrow> a < k)"

lemma candidate_page_sorted:
  fixes coll :: "string \<Rightarrow> 'c::linorder"
  assumes "code_point_order coll" "distinct source"
  shows "candidate_page coll source n after = mk_page (take (Suc n) (sorted_list_of_set {k \<in> set source. past after k})) n (\<lambda>k. k)"
proof -
  have less: "db_order coll a < db_order coll b \<longleftrightarrow> a < b" for a b using assms(1) by (simp add: code_point_order_def)
  then have "db_order coll a \<le> db_order coll b \<longleftrightarrow> a \<le> b" for a b by (metis not_le)
  then have "sort_key (db_order coll) xs = sort xs" for xs by (intro sort_key_order_cong) simp
  moreover have "after_key coll after = past after" by (simp add: fun_eq_iff after_key_def past_def less split: option.split)
  moreover have "sort (filter (past after) source) = sorted_list_of_set {k \<in> set source. past after k}"
    using sorted_list_of_set_sort_remdups [of "filter (past after) source"] assms(2) by (simp add: distinct_remdups_id)
  ultimately show ?thesis by (simp add: candidate_page_def keyset_rows_def)
qed

lemma merged_is_union:
  fixes coll :: "string \<Rightarrow> 'c::linorder"
  assumes "code_point_order coll" "distinct source"
  shows "merged_page (candidate_page coll source (page_size limit) after) extra limit after
    = candidate_page coll (dict_fromkeys (source @ extra)) (page_size limit) after"
proof -
  define n S E where "n = page_size limit" and "S = sorted_list_of_set {k \<in> set source. past after k}" and "E = set (filter (past after) extra)"
  have n: "0 < n" by (simp add: n_def page_size_def)
  have S: "set S = {k \<in> set source. past after k}" "distinct S" "sorted S" by (simp_all add: S_def)
  have page: "candidate_page coll source n after = mk_page (take (Suc n) S) n (\<lambda>k. k)"
    by (simp add: candidate_page_sorted [OF assms] S_def)
  have dist: "distinct (dict_fromkeys (source @ extra))" by simp
  have "{k \<in> set (dict_fromkeys (source @ extra)). past after k} = set S \<union> E" by (auto simp: S(1) E_def)
  then have target: "candidate_page coll (dict_fromkeys (source @ extra)) n after
      = mk_page (take (Suc n) (sorted_list_of_set (set S \<union> E))) n (\<lambda>k. k)"
    by (simp add: candidate_page_sorted [OF assms(1) dist])
  have filtered: "filter (\<lambda>k. case after of None \<Rightarrow> True | Some a \<Rightarrow> a < k) extra = filter (past after) extra"
    by (rule filter_cong) (simp_all add: past_def)
  show ?thesis
  proof (cases "filter (past after) extra = []")
    case True
    moreover have "sorted_list_of_set (set S) = S" using S(3,2) by (rule sorted_list_of_set.idem_if_sorted_distinct)
    ultimately have "sorted_list_of_set (set S \<union> E) = S" by (simp add: E_def)
    then show ?thesis using True page target unfolding n_def [symmetric] by (simp add: merged_page_def filtered)
  next
    case False
    let ?T = "sorted_list_of_set (set S \<union> E)" and ?M = "sorted_list_of_set (set (take n S) \<union> E)"
    have fin: "finite E" "finite (set (take n S) \<union> E)" by (simp_all add: E_def)
    have merged: "sort (dict_fromkeys (take n S @ filter (past after) extra)) = ?M"
      using sorted_list_of_set_sort_remdups [of "dict_fromkeys (take n S @ filter (past after) extra)"]
      by (simp add: E_def distinct_remdups_id)
    have same: "take n ?M = take n ?T"
    proof (cases "length S \<le> n")
      case False
      have parts: "set S = set (take n S) \<union> set (drop n S)" by (metis append_take_drop_id set_append)
      have "y < d" if "d \<in> set (drop n S)" "y \<in> set (take n S)" for d y
      proof -
        have "sorted (take n S @ drop n S)" "distinct (take n S @ drop n S)" using S(2,3) by simp_all
        then have "y \<le> d" "y \<noteq> d" using that unfolding sorted_append distinct_append by blast+
        then show ?thesis by simp
      qed
      moreover have "card (set (take n S)) = n" using S(2) False by (simp add: distinct_card)
      ultimately have "take n (sorted_list_of_set ((set (take n S) \<union> E) \<union> set (drop n S))) = take n ?M"
        by (intro take_smallest [OF fin(2)]) auto
      then show ?thesis unfolding parts by (simp add: Un_ac)
    qed simp
    have more: "n < length S \<or> n < length ?M \<longleftrightarrow> n < length ?T"
    proof (cases "length S \<le> n")
      case False
      have "length S = card (set S)" using S(2) by (simp add: distinct_card)
      also have "\<dots> \<le> card (set S \<union> E)" using fin(1) by (intro card_mono) auto
      finally show ?thesis using False by simp
    qed simp
    have "merged_page (candidate_page coll source n after) extra limit after
        = \<lparr>pg_items = take n ?M, pg_has_more = (n < length S \<or> n < length ?M),
            pg_next_key = (if (n < length S \<or> n < length ?M) \<and> take n ?M \<noteq> [] then Some (last (take n ?M)) else None)\<rparr>"
    proof -
      define M where "M = ?M"
      have "sort (dict_fromkeys (take n S @ filter (past after) extra)) = M" using merged by (simp add: M_def)
      then show ?thesis
        using False n unfolding M_def [symmetric]
        by (simp add: merged_page_def filtered page mk_page_def Let_def min_def n_def [symmetric] del: length_sort)
    qed
    also have "\<dots> = candidate_page coll (dict_fromkeys (source @ extra)) n after"
      unfolding more same target by (simp add: mk_page_def Let_def min_def)
    finally show ?thesis unfolding n_def .
  qed
qed

lemma added_targets_set:
  "added_targets adds trustee target named cs = Inr ts
    \<Longrightarrow> set ts = target ` {c \<in> set cs. adds c \<and> (\<exists>t \<in> set named. trustee c = Inr (Some t))}"
  by (induction cs arbitrary: ts) (auto simp: result_simps image_iff split: if_splits; blast)+

text \<open>The directories an addition of the overlay names one of the keys on.\<close>

definition newly_named :: "(string \<Rightarrow> string) \<Rightarrow> overlay \<Rightarrow> string list \<Rightarrow> string set" where
  "newly_named cf o' keys = nch_resource_key ` {c \<in> set (ov_ntfs_aces o').
     nch_kind c = SK_ADD_NTFS_ACE \<and> (\<exists>t \<in> set keys. nch_trustee_key cf c = Inr (Some t))}"

lemma past_after_key: "code_point_order coll \<Longrightarrow> after_key coll after k \<longleftrightarrow> past after k"
  by (simp add: code_point_order_def after_key_def past_def split: option.split)

text \<open>
  Over a database that orders keys by code point, paging through the directories a simulated token
  may be named on skips and repeats nothing either: the baseline's candidates and those the
  additions make are listed together, the first after the cursor on this page and the rest after the
  cursor it returns, which it returns exactly when it says there are more.
\<close>

theorem simulated_candidates_cover:
  fixes w :: "'c::linorder world"
  assumes "keys \<noteq> []" "code_point_order (w_coll w)" "sim_resources_named_by w o' keys limit after = Inr p"
  shows "{k \<in> set (resource_candidates (w_db w) keys) \<union> newly_named (w_casefold w) o' keys. past after k}
      = set (pg_items p) \<union> (case pg_next_key p of None \<Rightarrow> {}
          | Some n \<Rightarrow> {k \<in> set (resource_candidates (w_db w) keys) \<union> newly_named (w_casefold w) o' keys. past (Some n) k})
    \<and> (case pg_next_key p of None \<Rightarrow> True | Some n \<Rightarrow> \<forall>k \<in> set (pg_items p). \<not> past (Some n) k)
    \<and> (pg_has_more p \<longleftrightarrow> pg_next_key p \<noteq> None) \<and> distinct (pg_items p) \<and> length (pg_items p) \<le> page_size limit"
proof -
  obtain extra where extra: "set extra = newly_named (w_casefold w) o' keys"
    and p: "p = merged_page (resources_named_by (w_coll w) (w_db w) keys limit after) extra limit after"
    using assms(3) by (auto simp: sim_resources_named_by_def result_simps newly_named_def dest: added_targets_set)
  let ?all = "dict_fromkeys (resource_candidates (w_db w) keys @ extra)"
  have all: "set ?all = set (resource_candidates (w_db w) keys) \<union> newly_named (w_casefold w) o' keys" by (simp add: extra)
  have "distinct (resource_candidates (w_db w) keys)" by (simp add: resource_candidates_def)
  from merged_is_union [OF assms(2) this, of limit after extra]
  have page: "p = mk_page (keyset_rows (w_coll w) (\<lambda>k. k) after (page_size limit) ?all) (page_size limit) (\<lambda>k. k)"
    using assms(1) p by (simp add: resources_named_by_def candidate_page_def)
  have n: "0 < page_size limit" by (simp add: page_size_def)
  note cont = candidates.page_continues [OF n page, unfolded past_after_key [OF assms(2)] all]
  have "distinct (pg_items p)" by (simp add: page mk_page_def keyset_rows_def Let_def)
  then show ?thesis using cont(1,2,3) cont(5) by (auto split: option.splits)
qed

lemma code_point_no_collation: "code_point_order no_collation"
  by (simp add: code_point_order_def db_order_def no_collation_def less_prod_def)

definition removal_of_entry :: ntfs_ace_change where
  "removal_of_entry = sample_addition\<lparr>nch_kind := SK_REMOVE_NTFS_ACE, nch_ace_key := Some ''k''\<rparr>"

definition listing_world :: "(string \<Rightarrow> 'c::linorder) \<Rightarrow> store \<Rightarrow> 'c world" where
  "listing_world coll db = \<lparr>w_db = db, w_casefold = id, w_coll = coll, w_stamp = (\<lambda>_. []), w_edge_fetch_limit = 7\<rparr>"

definition one_row_world :: "nat world" where
  "one_row_world = listing_world no_collation (sample_store\<lparr>st_resources := [], st_ntfs_aces := [sample_row DENY EXPLICIT 0]\<rparr>)"

theorem simulated_bulk_reads_agree_witness:
  "\<exists>m. sim_ntfs_acls_for one_row_world (one_change removal_of_entry) [sample_path] 5 = Inr m
    \<and> sim_full_ntfs_acl one_row_world (one_change removal_of_entry) sample_path 5 = Inr (rows_at m sample_path)
    \<and> ntfs_acls_for id no_collation (w_db one_row_world) [sample_path] 5 sample_path \<noteq> None"
proof -
  obtain p where p: "parse_unc_path sample_path = Inr p" using sample_path_parses by blast
  have key: "nch_resource_key removal_of_entry = sample_path" by (simp add: removal_of_entry_def sample_addition_key)
  have edited: "overlay_ntfs_acl id (one_change removal_of_entry) sample_path [sample_row DENY EXPLICIT 0] None c = Inr []" for c
    using p by (simp add: overlay_ntfs_acl_def apply_ntfs_ace_changes_def one_change_reads key result_simps Let_def)
      (simp add: removal_of_entry_def sample_row_def renumbered_def edited_ntfs_entry_def change_by_key_def result_simps)
  have w: "w_casefold one_row_world = id" "w_coll one_row_world = no_collation" by (simp_all add: one_row_world_def listing_world_def)
  have base: "ntfs_acls_for id no_collation (w_db one_row_world) [sample_path] 5 sample_path = Some [sample_row DENY EXPLICIT 0]"
    by (subst acls_for_bucket) (simp_all add: ntfs_acl_rows_def one_row_world_def listing_world_def sample_row_def)
  have touched: "touches_resource id (one_change removal_of_entry) sample_path" by (simp add: touches_resource_def ov_resource_keys_def one_change_def key)
  have "\<exists>m. sim_ntfs_acls_for one_row_world (one_change removal_of_entry) [sample_path] 5 = Inr m"
    by (simp add: sim_ntfs_acls_for_def w touched Let_def sim_parent_entries_def wanted_parent_def ich_clears_def one_change_reads rows_at_def base edited)
  then show ?thesis
    using simulated_bulk_reads_agree [of one_row_world 5 sample_path "[sample_path]" "one_change removal_of_entry"] base by (auto simp: w)
qed

lemma sample_addition_names:
  "added_targets (\<lambda>c. nch_kind c = SK_ADD_NTFS_ACE) (nch_trustee_key id) nch_resource_key [''g'', ''S-1-5-21-7''] [sample_addition] = Inr [sample_path]"
proof -
  obtain p where p: "parse_unc_path sample_path = Inr p" using sample_path_parses by blast
  have sid: "nch_trustee_sid sample_addition = Some ''S-1-5-21-7''" by (simp add: sample_addition_def)
  have "\<not> is_builtin_sid (Sid ''S-1-5-21-7'')" by code_simp
  then have "nch_trustee_key id sample_addition = Inr (Some ''S-1-5-21-7'')"
    by (simp add: nch_trustee_key_def sid sample_sid_parses sample_addition_key p result_simps) (simp add: referenced_principal_key_def)
  moreover have "nch_kind sample_addition = SK_ADD_NTFS_ACE" by (simp add: sample_addition_def)
  ultimately show ?thesis by (simp add: sample_addition_key)
qed

theorem simulated_candidates_cover_witness:
  "\<exists>p. sim_resources_named_by (listing_world no_collation sample_store) (one_change sample_addition) [''g'', ''S-1-5-21-7''] 2 None = Inr p
    \<and> pg_has_more p \<and> distinct (pg_items p) \<and> length (pg_items p) \<le> 2"
proof -
  let ?w = "listing_world no_collation sample_store"
  have w: "w_db ?w = sample_store" "w_casefold ?w = id" "w_coll ?w = no_collation" by (simp_all add: listing_world_def)
  have size: "page_size 2 = 2" by (simp add: page_size_def MAX_PAGE_SIZE_def)
  define page where "page = resources_named_by no_collation sample_store [''g'', ''S-1-5-21-7''] 2 None"
  have page: "page = \<lparr>pg_items = [''fs|d'', ''p''], pg_has_more = False, pg_next_key = None\<rparr>" unfolding page_def by code_simp
  obtain p where p: "sim_resources_named_by ?w (one_change sample_addition) [''g'', ''S-1-5-21-7''] 2 None = Inr p" and more: "pg_has_more p"
    by (simp add: sim_resources_named_by_def w one_change_def sample_addition_names page_def [symmetric] page merged_page_def size Let_def sample_path_def del: added_targets.simps)
  show ?thesis
    using simulated_candidates_cover [OF _ _ p] p more size by (simp add: w code_point_no_collation)
qed

definition no_separators :: "string \<Rightarrow> string" where "no_separators = filter (\<lambda>c. c \<noteq> CHR 0x5C)"

definition open_directory :: string where "open_directory = [CHR 0x5C, CHR 0x5C] @ ''fsa'' @ [CHR 0x5C] @ ''x''"

definition open_world :: "string world" where
  "open_world = listing_world no_separators (sample_store\<lparr>st_references := [],
     st_resources := [sample_directory\<lparr>nrr_resource_key := open_directory, nrr_dacl_present := False\<rparr>]\<rparr>)"

text \<open>
  The merge compares keys by code point whatever the database's collation: under one that passes
  over the separators, the first page of one ends at the directory an addition makes a candidate, and
  a directory anybody may read, which sorts behind it by code point and before it in the database,
  is neither on that page nor on any later one.
\<close>

theorem collated_merge_loses_a_candidate:
  "\<exists>p n. sim_resources_named_by open_world (one_change sample_addition) [''g'', ''S-1-5-21-7''] 1 None = Inr p
    \<and> pg_next_key p = Some n \<and> open_directory \<in> set (resource_candidates (w_db open_world) [''g'', ''S-1-5-21-7''])
    \<and> open_directory \<notin> set (pg_items p)
    \<and> (\<forall>limit. sim_resources_named_by open_world (one_change sample_addition) [''g'', ''S-1-5-21-7''] limit (Some n)
        = Inr \<lparr>pg_items = [], pg_has_more = False, pg_next_key = None\<rparr>)"
proof -
  let ?keys = "[''g'', ''S-1-5-21-7'']"
  have w: "w_casefold open_world = id" "w_coll open_world = no_separators" by (simp_all add: open_world_def listing_world_def)
  have size: "page_size 1 = 1" by (simp add: page_size_def MAX_PAGE_SIZE_def)
  have cands: "resource_candidates (w_db open_world) ?keys = [open_directory]"
    by (simp add: resource_candidates_def open_world_def listing_world_def sample_directory_def)
  have before: "\<not> after_key no_separators (Some sample_path) open_directory"
    by (simp add: after_key_def db_order_def no_separators_def sample_path_def open_directory_def)
  have order: "sample_path < open_directory" "sample_path \<noteq> open_directory" by (simp_all add: sample_path_def open_directory_def)
  have first: "resources_named_by no_separators (w_db open_world) ?keys 1 None = \<lparr>pg_items = [open_directory], pg_has_more = False, pg_next_key = None\<rparr>"
    by (simp add: resources_named_by_def cands candidate_page_def keyset_rows_def mk_page_def after_key_def size)
  have later: "resources_named_by no_separators (w_db open_world) ?keys limit (Some sample_path) = \<lparr>pg_items = [], pg_has_more = False, pg_next_key = None\<rparr>" for limit
    using before by (simp add: resources_named_by_def cands candidate_page_def keyset_rows_def mk_page_def page_size_def)
  have "sim_resources_named_by open_world (one_change sample_addition) ?keys 1 None
      = Inr \<lparr>pg_items = [sample_path], pg_has_more = True, pg_next_key = Some sample_path\<rparr>"
    using order by (simp add: sim_resources_named_by_def w one_change_def sample_addition_names first merged_page_def size Let_def del: added_targets.simps)
  moreover have "sim_resources_named_by open_world (one_change sample_addition) ?keys limit (Some sample_path)
      = Inr \<lparr>pg_items = [], pg_has_more = False, pg_next_key = None\<rparr>" for limit
    by (simp add: sim_resources_named_by_def w one_change_def sample_addition_names later merged_page_def del: added_targets.simps)
  moreover have "open_directory \<in> set (resource_candidates (w_db open_world) ?keys)" by (simp add: cands)
  moreover have "open_directory \<notin> set [sample_path]" using order(2) by simp
  ultimately show ?thesis by (intro exI [of _ "\<lparr>pg_items = [sample_path], pg_has_more = True, pg_next_key = Some sample_path\<rparr>"] exI [of _ sample_path]) simp
qed

end
