(* ===== verification/Adg_Causality.thy ===== *)
theory Adg_Causality
  imports Adg_Verdict Adg_Membership_Paths Adg_Acl_Hash
begin

unbundle bit_operations_syntax

section \<open>Why a principal has the rights it has (app/access_engine/causality.py)\<close>

text \<open>
  The explanation of one resolved answer: the causal paths from the subject through its groups to the
  entries that matched it and on to the directory, what each path is worth, and the measured effect of
  removing each edge. The working state of \<open>_Builder\<close> is a record that the steps take and return.
\<close>

subsection \<open>The graph\<close>

definition OWNERSHIP_POSITION :: int where "OWNERSHIP_POSITION = -1"
definition MAX_EXPLANATION_PATHS :: int where "MAX_EXPLANATION_PATHS = 1000"
definition MAX_REMOVAL_TARGETS_CEILING :: int where "MAX_REMOVAL_TARGETS_CEILING = 256"

datatype node_kind =
    NODE_PRINCIPAL | NODE_GROUP | NODE_ASSUMED_TRUSTEE | NODE_NTFS_ACE | NODE_SMB_ACE | NODE_RESOURCE | NODE_SHARE

datatype edge_kind =
    EDGE_MEMBERSHIP | EDGE_ASSUMED_MEMBERSHIP | EDGE_TRUSTEE | EDGE_GRANT | EDGE_DENY | EDGE_OWNERSHIP

primrec edge_kind_value :: "edge_kind \<Rightarrow> string" where
  "edge_kind_value EDGE_MEMBERSHIP = ''membership''"
| "edge_kind_value EDGE_ASSUMED_MEMBERSHIP = ''assumed_membership''"
| "edge_kind_value EDGE_TRUSTEE = ''trustee''"
| "edge_kind_value EDGE_GRANT = ''grant''"
| "edge_kind_value EDGE_DENY = ''deny''"
| "edge_kind_value EDGE_OWNERSHIP = ''ownership''"

record explanation_node =
  xn_node_id :: string
  xn_kind :: node_kind
  xn_key :: string
  xn_sid :: "string option"
  xn_display_name :: "string option"
  xn_layer :: "rights_layer option"
  xn_position :: "nat option"

definition xn_is_ace :: "explanation_node \<Rightarrow> bool" where
  "xn_is_ace n \<longleftrightarrow> xn_kind n \<in> {NODE_NTFS_ACE, NODE_SMB_ACE}"

record explanation_edge =
  xe_edge_id :: string
  xe_kind :: edge_kind
  xe_source :: string
  xe_target :: string
  xe_membership_edge_key :: "string option"
  xe_ace_key :: "string option"

definition is_removable :: "explanation_edge \<Rightarrow> bool" where
  "is_removable e \<longleftrightarrow> xe_kind e \<in> {EDGE_MEMBERSHIP, EDGE_TRUSTEE}"

record explanation_graph =
  xg_nodes :: "explanation_node list"
  xg_edges :: "explanation_edge list"

definition xg_node :: "explanation_graph \<Rightarrow> string \<Rightarrow> explanation_node option" where
  "xg_node g i = find (\<lambda>n. xn_node_id n = i) (xg_nodes g)"

definition xg_edge :: "explanation_graph \<Rightarrow> string \<Rightarrow> explanation_edge option" where
  "xg_edge g i = find (\<lambda>e. xe_edge_id e = i) (xg_edges g)"

subsection \<open>Paths, removals, limits\<close>

datatype path_relation = PR_GRANT | PR_DENY

datatype path_effect = PE_CONTRIBUTES | PE_REDUNDANT | PE_CONSTRAINED

record causal_path =
  cp_path_id :: string
  cp_layer :: rights_layer
  cp_relation :: path_relation
  cp_effect :: path_effect
  cp_chain :: "string list"
  cp_node_ids :: "string list"
  cp_edge_ids :: "string list"
  cp_trustee_key :: string
  cp_ace_position :: int
  cp_ace_key :: "string option"
  cp_ace_rights :: rights_mask
  cp_layer_rights :: rights_mask
  cp_effective_rights :: rights_mask
  cp_constrained_rights :: rights_mask
  cp_assumed :: bool
  cp_via_group :: bool
  cp_inherited :: bool

definition cp_length :: "causal_path \<Rightarrow> nat" where "cp_length p = length (cp_chain p) - 1"
definition cp_is_grant :: "causal_path \<Rightarrow> bool" where "cp_is_grant p \<longleftrightarrow> cp_relation p = PR_GRANT"
definition cp_matters :: "causal_path \<Rightarrow> bool" where "cp_matters p \<longleftrightarrow> cp_effect p = PE_CONTRIBUTES"

record removal_target =
  rt_edge_id :: string
  rt_kind :: edge_kind
  rt_source :: string
  rt_target :: string
  rt_rights_removed :: rights_mask
  rt_rights_added :: rights_mask
  rt_rights_after :: rights_mask
  rt_revokes_all_access :: bool
  rt_alternate_paths :: "string list"
  rt_paths_removed :: "string list"

definition changes_nothing :: "removal_target \<Rightarrow> bool" where
  "changes_nothing t \<longleftrightarrow> mask_is_empty (rt_rights_removed t) \<and> mask_is_empty (rt_rights_added t)"

record explanation_limits =
  xl_max_paths :: nat
  xl_max_paths_per_trustee :: nat
  xl_max_depth :: nat
  xl_max_removal_targets :: nat

text \<open>The bounds are checked in the order of the ceilings' table.\<close>

definition mk_explanation_limits :: "int \<Rightarrow> int \<Rightarrow> int \<Rightarrow> int \<Rightarrow> explanation_limits result" where
  "mk_explanation_limits p t d r =
     res_bind (check_limit ''max_paths'' MAX_EXPLANATION_PATHS p) (\<lambda>p'.
     res_bind (check_limit ''max_paths_per_trustee'' MAX_EXPLANATION_PATHS t) (\<lambda>t'.
     res_bind (check_limit ''max_depth'' MAX_DEPTH_CEILING d) (\<lambda>d'.
     res_bind (check_limit ''max_removal_targets'' MAX_REMOVAL_TARGETS_CEILING r) (\<lambda>r'.
       Inr \<lparr>xl_max_paths = p', xl_max_paths_per_trustee = t', xl_max_depth = d', xl_max_removal_targets = r'\<rparr>))))"

definition xl_clamped ::
  "explanation_limits \<Rightarrow> int option \<Rightarrow> int option \<Rightarrow> int option \<Rightarrow> int option \<Rightarrow> explanation_limits result" where
  "xl_clamped l p t d r = mk_explanation_limits
     (clamp_value (xl_max_paths l) MAX_EXPLANATION_PATHS p)
     (clamp_value (xl_max_paths_per_trustee l) MAX_EXPLANATION_PATHS t)
     (clamp_value (xl_max_depth l) MAX_DEPTH_CEILING d)
     (clamp_value (xl_max_removal_targets l) MAX_REMOVAL_TARGETS_CEILING r)"

definition DEFAULT_EXPLANATION_LIMITS :: explanation_limits where
  "DEFAULT_EXPLANATION_LIMITS =
     \<lparr>xl_max_paths = 200, xl_max_paths_per_trustee = 25, xl_max_depth = 32, xl_max_removal_targets = 64\<rparr>"

datatype path_truncation =
    PT_EDGES_NOT_SUPPLIED | PT_MAX_DEPTH | PT_MAX_PATHS | PT_MAX_PATHS_PER_TRUSTEE | PT_MAX_REMOVAL_TARGETS
  | PT_MEMBERSHIP_INCOMPLETE

text \<open>\<open>sorted(builder.truncation)\<close>: the reasons by their values.\<close>

definition sorted_truncation :: "path_truncation set \<Rightarrow> path_truncation list" where
  "sorted_truncation rs = filter (\<lambda>r. r \<in> rs)
     [PT_EDGES_NOT_SUPPLIED, PT_MAX_DEPTH, PT_MAX_PATHS, PT_MAX_PATHS_PER_TRUSTEE, PT_MAX_REMOVAL_TARGETS, PT_MEMBERSHIP_INCOMPLETE]"

record access_explanation =
  xp_access :: effective_access
  xp_graph :: explanation_graph
  xp_paths :: "causal_path list"
  xp_removal_targets :: "removal_target list"
  xp_cycles :: "graph_cycle list"
  xp_limits :: explanation_limits
  xp_truncation :: "path_truncation list"
  xp_findings :: "access_finding list"

definition xp_complete :: "access_explanation \<Rightarrow> bool" where "xp_complete x \<longleftrightarrow> xp_truncation x = []"

definition xp_contributing :: "access_explanation \<Rightarrow> causal_path list" where
  "xp_contributing x = filter (\<lambda>p. cp_effect p = PE_CONTRIBUTES) (xp_paths x)"

definition xp_grants :: "access_explanation \<Rightarrow> causal_path list" where "xp_grants x = filter cp_is_grant (xp_paths x)"
definition xp_denies :: "access_explanation \<Rightarrow> causal_path list" where "xp_denies x = filter (\<lambda>p. \<not> cp_is_grant p) (xp_paths x)"

definition xp_redundant :: "access_explanation \<Rightarrow> causal_path list" where
  "xp_redundant x = filter (\<lambda>p. cp_effect p = PE_REDUNDANT) (xp_paths x)"

definition xp_constrained :: "access_explanation \<Rightarrow> causal_path list" where
  "xp_constrained x = filter (\<lambda>p. cp_effect p = PE_CONSTRAINED) (xp_paths x)"

definition sufficient_removals :: "access_explanation \<Rightarrow> removal_target list" where
  "sufficient_removals x = filter rt_revokes_all_access (xp_removal_targets x)"

subsection \<open>The builder\<close>

record explain_input =
  xi_access :: effective_access
  xi_resource :: resource_dacl
  xi_share :: "share_dacl option"
  xi_limits :: explanation_limits
  xi_subgraph :: "graph_edge list"

definition xi_token :: "explain_input \<Rightarrow> subject_token" where "xi_token i = ea_token (xi_access i)"
definition xi_subject :: "explain_input \<Rightarrow> subject_facts" where "xi_subject i = st_subject (xi_token i)"

text \<open>The two dictionaries are lists in the order of entry, keyed by the id each element carries.\<close>

record builder =
  bd_nodes :: "explanation_node list"
  bd_edges :: "explanation_edge list"
  bd_paths :: "causal_path list"
  bd_trunc :: "path_truncation set"
  bd_findings :: "access_finding list"
  bd_chains :: "string \<rightharpoonup> membership_path list"

definition empty_builder :: builder where
  "empty_builder = \<lparr>bd_nodes = [], bd_edges = [], bd_paths = [], bd_trunc = {}, bd_findings = [], bd_chains = Map.empty\<rparr>"

definition note_truncation :: "path_truncation \<Rightarrow> builder \<Rightarrow> builder" where
  "note_truncation r b = b\<lparr>bd_trunc := insert r (bd_trunc b)\<rparr>"

definition add_node :: "explanation_node \<Rightarrow> builder \<Rightarrow> explanation_node \<times> builder" where
  "add_node n b = (case find (\<lambda>m. xn_node_id m = xn_node_id n) (bd_nodes b) of
       Some m \<Rightarrow> (m, b)
     | None \<Rightarrow> (n, b\<lparr>bd_nodes := bd_nodes b @ [n]\<rparr>))"

definition add_edge :: "explanation_edge \<Rightarrow> builder \<Rightarrow> explanation_edge \<times> builder" where
  "add_edge e b = (case find (\<lambda>f. xe_edge_id f = xe_edge_id e) (bd_edges b) of
       Some f \<Rightarrow> (f, b)
     | None \<Rightarrow> (e, b\<lparr>bd_edges := bd_edges b @ [e]\<rparr>))"

definition object_node_id :: "explain_input \<Rightarrow> string" where
  "object_node_id i = ''resource:'' @ ea_resource_key (xi_access i)"

definition object_node :: "explain_input \<Rightarrow> explanation_node" where
  "object_node i = \<lparr>xn_node_id = object_node_id i, xn_kind = NODE_RESOURCE, xn_key = ea_resource_key (xi_access i),
     xn_sid = None, xn_display_name = None, xn_layer = None, xn_position = None\<rparr>"

definition principal_node :: "string \<Rightarrow> subject_facts \<Rightarrow> explanation_node" where
  "principal_node key s = \<lparr>xn_node_id = ''principal:'' @ key, xn_kind = NODE_PRINCIPAL, xn_key = key,
     xn_sid = Some (subj_sid s), xn_display_name = subj_display_name s, xn_layer = None, xn_position = None\<rparr>"

definition membership_node :: "subject_token \<Rightarrow> string \<Rightarrow> explanation_node" where
  "membership_node token key =
     (let entry = token_entry token key;
          assumed = (case entry of None \<Rightarrow> False | Some t \<Rightarrow> tok_is_assumed t)
      in \<lparr>xn_node_id = (if assumed then ''assumed:'' else ''group:'') @ key,
          xn_kind = (if assumed then NODE_ASSUMED_TRUSTEE else NODE_GROUP), xn_key = key,
          xn_sid = map_option tok_sid entry, xn_display_name = Option.bind entry tok_display_name,
          xn_layer = None, xn_position = None\<rparr>)"

definition ace_target :: "explain_input \<Rightarrow> rights_layer \<Rightarrow> string" where
  "ace_target i layer = (if layer = NTFS then ea_resource_key (xi_access i)
     else (case ea_share_key (xi_access i) of None \<Rightarrow> ''None'' | Some k \<Rightarrow> k))"

definition ace_node :: "explain_input \<Rightarrow> applied_ace \<Rightarrow> rights_layer \<Rightarrow> explanation_node" where
  "ace_node i a layer =
     \<lparr>xn_node_id = (if layer = NTFS then ''ntfs-ace'' else ''smb-ace'') @ '':'' @ ace_target i layer @ '':'' @ dec_min 4 (aa_position a),
      xn_kind = (if layer = NTFS then NODE_NTFS_ACE else NODE_SMB_ACE),
      xn_key = (case ae_ace_key (aa_entry a) of
          Some k \<Rightarrow> if k = [] then ace_target i layer @ ''#'' @ dec_string (aa_position a) else k
        | None \<Rightarrow> ace_target i layer @ ''#'' @ dec_string (aa_position a)),
      xn_sid = Some (ae_trustee_sid (aa_entry a)), xn_display_name = ae_trustee_name (aa_entry a),
      xn_layer = Some layer, xn_position = Some (aa_position a)\<rparr>"

definition membership_edge :: "string \<Rightarrow> string \<Rightarrow> graph_edge option \<Rightarrow> explanation_edge" where
  "membership_edge source target hop =
     (let kind = (case hop of None \<Rightarrow> EDGE_ASSUMED_MEMBERSHIP | Some _ \<Rightarrow> EDGE_MEMBERSHIP)
      in \<lparr>xe_edge_id = edge_kind_value kind @ '':'' @ source @ ''->'' @ target, xe_kind = kind, xe_source = source,
          xe_target = target, xe_membership_edge_key = map_option ge_edge_key hop, xe_ace_key = None\<rparr>)"

subsection \<open>What an entry settles\<close>

definition applied_entries :: "acl_evaluation \<Rightarrow> applied_ace list" where
  "applied_entries ev = sort_key aa_position (ev_granted_by ev @ ev_denied_by ev @ ev_superseded ev)"

text \<open>The replay of the walk: what has been granted and denied so far, and what each entry settles.\<close>

fun novel_scan :: "32 word \<Rightarrow> 32 word \<Rightarrow> applied_ace list \<Rightarrow> (nat \<rightharpoonup> 32 word) \<Rightarrow> (nat \<rightharpoonup> 32 word)" where
  "novel_scan granted denied [] m = m"
| "novel_scan granted denied (a # as) m =
     (let contributed = mask_value (expand_generics (aa_contributed a))
      in if aa_is_allow a
         then novel_scan (granted OR contributed) denied as (m(aa_position a \<mapsto> contributed AND NOT granted))
         else novel_scan granted (denied OR contributed) as (m(aa_position a \<mapsto> contributed AND NOT denied)))"

definition novel_contributions :: "acl_evaluation \<Rightarrow> nat \<rightharpoonup> 32 word" where
  "novel_contributions ev = novel_scan
     (case ev_owner_rights ev of None \<Rightarrow> 0 | Some m \<Rightarrow> mask_value (expand_generics m)) 0 (applied_entries ev) Map.empty"

definition explained_layers :: "effective_access \<Rightarrow> (rights_layer \<times> acl_evaluation) list" where
  "explained_layers a = (NTFS, ea_ntfs a) # (case ea_share a of None \<Rightarrow> [] | Some s \<Rightarrow> [(SMB_SHARE, s)])"

definition other_layer :: "effective_access \<Rightarrow> rights_layer \<Rightarrow> 32 word option" where
  "other_layer a layer = (case ea_share a of
       None \<Rightarrow> None
     | Some s \<Rightarrow> Some (mask_value (expand_generics (if layer = NTFS then ev_rights s else ev_rights (ea_ntfs a)))))"

definition path_crossing :: "effective_access \<Rightarrow> 32 word \<Rightarrow> rights_layer \<Rightarrow> rights_mask \<times> rights_mask" where
  "path_crossing a novel layer = (case other_layer a layer of
       None \<Rightarrow> (rmask novel EFFECTIVE, rmask 0 EFFECTIVE)
     | Some other \<Rightarrow> (rmask (novel AND other) EFFECTIVE, rmask (novel AND NOT other) EFFECTIVE))"

definition path_effect_of :: "32 word \<Rightarrow> rights_mask \<Rightarrow> rights_mask \<Rightarrow> path_effect" where
  "path_effect_of novel delivered constrained =
     (if novel = 0 then PE_REDUNDANT
      else if mask_is_empty delivered \<and> \<not> mask_is_empty constrained then PE_CONSTRAINED else PE_CONTRIBUTES)"

subsection \<open>Chains\<close>

definition recorded_chain :: "string \<Rightarrow> token_sid \<Rightarrow> membership_path" where
  "recorded_chain subject m =
     (let recorded = (if tok_path m \<noteq> [] then tok_path m else [subject, tok_key m]);
          headed = (if hd recorded \<noteq> subject then subject # recorded else recorded);
          closed = (if last headed \<noteq> tok_key m then headed @ [tok_key m] else headed)
      in \<lparr>mp_nodes = dict_fromkeys closed, mp_edges = []\<rparr>)"

definition chain_limits :: "explanation_limits \<Rightarrow> traversal_limits result" where
  "chain_limits l = mk_traversal_limits (int (xl_max_depth l)) (int (tl_max_nodes DEFAULT_LIMITS))
     (int (tl_max_edges DEFAULT_LIMITS)) (int (xl_max_paths_per_trustee l))"

definition chain_truncation :: "truncation_reason \<Rightarrow> path_truncation" where
  "chain_truncation r = (if r = TR_MAX_PATHS then PT_MAX_PATHS_PER_TRUSTEE else PT_MAX_DEPTH)"

definition enumerate_chains :: "explain_input \<Rightarrow> token_sid \<Rightarrow> builder \<Rightarrow> (membership_path list \<times> builder) result" where
  "enumerate_chains i m b =
     (let subject = subj_key (xi_subject i)
      in if tok_origin m = ORIGIN_SUBJECT then Inr ([\<lparr>mp_nodes = [subject], mp_edges = []\<rparr>], b)
         else if tok_is_assumed m then Inr ([\<lparr>mp_nodes = [subject, tok_key m], mp_edges = []\<rparr>], b)
         else if xi_subgraph i = [] then Inr ([recorded_chain subject m], note_truncation PT_EDGES_NOT_SUPPLIED b)
         else res_bind (chain_limits (xi_limits i)) (\<lambda>lim.
           res_bind (simple_paths (xi_subgraph i) subject (tok_key m) lim) (\<lambda>found.
           let b1 = b\<lparr>bd_trunc := bd_trunc b \<union> chain_truncation ` set (pe_truncation found)\<rparr>
           in if pe_paths found = []
              then Inr ([recorded_chain subject m], note_truncation PT_EDGES_NOT_SUPPLIED
                (b1\<lparr>bd_findings := bd_findings b1 @ [finding AC_MEMBERSHIP_TRUNCATED
                   [(''trustee_key'', DStr (tok_key m)), (''reason'', DStr ''no_supplied_edge_explains_it'')]]\<rparr>))
              else Inr (pe_paths found, b1))))"

definition chains_to :: "explain_input \<Rightarrow> token_sid \<Rightarrow> builder \<Rightarrow> (membership_path list \<times> builder) result" where
  "chains_to i m b = (case bd_chains b (tok_key m) of
       Some cs \<Rightarrow> Inr (cs, b)
     | None \<Rightarrow> res_bind (enumerate_chains i m b) (\<lambda>(cs, b'). Inr (cs, b'\<lparr>bd_chains := (bd_chains b')(tok_key m \<mapsto> cs)\<rparr>)))"

subsection \<open>Paths\<close>

text \<open>The nodes of a chain above its first, with the edge to each; a chain without stored edges climbs by assumption.\<close>

fun climb :: "subject_token \<Rightarrow> string \<Rightarrow> string list \<Rightarrow> graph_edge list \<Rightarrow> builder \<Rightarrow> string list \<times> string list \<times> builder" where
  "climb token prev [] hops b = ([], [], b)"
| "climb token prev (k # ks) hops b =
     (let (n, b1) = add_node (membership_node token k) b;
          (e, b2) = add_edge (membership_edge prev (xn_node_id n) (case hops of [] \<Rightarrow> None | h # _ \<Rightarrow> Some h)) b1;
          (ns, es, b3) = climb token (xn_node_id n) ks (tl hops) b2
      in (xn_node_id n # ns, xe_edge_id e # es, b3))"

definition trustee_edge :: "applied_ace \<Rightarrow> string \<Rightarrow> string \<Rightarrow> explanation_edge" where
  "trustee_edge a trustee_id ace_id = \<lparr>xe_edge_id = ''trustee:'' @ trustee_id @ ''->'' @ ace_id, xe_kind = EDGE_TRUSTEE,
     xe_source = trustee_id, xe_target = ace_id, xe_membership_edge_key = None, xe_ace_key = ae_ace_key (aa_entry a)\<rparr>"

definition path_name :: "nat \<Rightarrow> string" where "path_name n = ''p'' @ dec_min 4 n"

definition append_path ::
  "explain_input \<Rightarrow> (nat \<rightharpoonup> 32 word) \<Rightarrow> applied_ace \<Rightarrow> rights_layer \<Rightarrow> string \<Rightarrow> string \<Rightarrow> membership_path \<Rightarrow> builder \<Rightarrow> builder" where
  "append_path i novel_at a layer ace_id object_edge_id chain b = (case mp_nodes chain of
       [] \<Rightarrow> b
     | k # ks \<Rightarrow>
        (let (start, b1) = add_node (principal_node k (xi_subject i)) b;
             (ns, es, b2) = climb (xi_token i) (xn_node_id start) ks (mp_edges chain) b1;
             (te, b3) = add_edge (trustee_edge a (last (xn_node_id start # ns)) ace_id) b2;
             novel = (case novel_at (aa_position a) of None \<Rightarrow> 0 | Some v \<Rightarrow> v);
             (delivered, constrained) = path_crossing (xi_access i) novel layer
         in b3\<lparr>bd_paths := bd_paths b3 @ [\<lparr>cp_path_id = path_name (length (bd_paths b3)), cp_layer = layer,
              cp_relation = (if aa_is_allow a then PR_GRANT else PR_DENY),
              cp_effect = path_effect_of novel delivered constrained, cp_chain = k # ks,
              cp_node_ids = (xn_node_id start # ns) @ [ace_id, object_node_id i],
              cp_edge_ids = es @ [xe_edge_id te, object_edge_id], cp_trustee_key = ae_trustee_key (aa_entry a),
              cp_ace_position = int (aa_position a), cp_ace_key = ae_ace_key (aa_entry a), cp_ace_rights = aa_considered a,
              cp_layer_rights = rmask novel layer, cp_effective_rights = delivered, cp_constrained_rights = constrained,
              cp_assumed = tok_is_assumed (aa_matched a), cp_via_group = aa_via_group a,
              cp_inherited = ae_is_inherited (aa_entry a)\<rparr>]\<rparr>))"

fun append_chains ::
  "explain_input \<Rightarrow> (nat \<rightharpoonup> 32 word) \<Rightarrow> applied_ace \<Rightarrow> rights_layer \<Rightarrow> string \<Rightarrow> string \<Rightarrow> membership_path list \<Rightarrow> builder \<Rightarrow> builder" where
  "append_chains i novel_at a layer ace_id object_edge_id [] b = b"
| "append_chains i novel_at a layer ace_id object_edge_id (c # cs) b =
     (if xl_max_paths (xi_limits i) \<le> length (bd_paths b) then note_truncation PT_MAX_PATHS b
      else append_chains i novel_at a layer ace_id object_edge_id cs (append_path i novel_at a layer ace_id object_edge_id c b))"

definition object_edge :: "explain_input \<Rightarrow> applied_ace \<Rightarrow> string \<Rightarrow> explanation_edge" where
  "object_edge i a ace_id =
     (let kind = (if aa_is_allow a then EDGE_GRANT else EDGE_DENY)
      in \<lparr>xe_edge_id = edge_kind_value kind @ '':'' @ ace_id, xe_kind = kind, xe_source = ace_id, xe_target = object_node_id i,
          xe_membership_edge_key = None, xe_ace_key = ae_ace_key (aa_entry a)\<rparr>)"

definition paths_for ::
  "explain_input \<Rightarrow> (nat \<rightharpoonup> 32 word) \<Rightarrow> rights_layer \<Rightarrow> applied_ace \<Rightarrow> builder \<Rightarrow> builder result" where
  "paths_for i novel_at layer a b =
     (let (n, b1) = add_node (ace_node i a layer) b;
          (e, b2) = add_edge (object_edge i a (xn_node_id n)) b1
      in res_bind (chains_to i (aa_matched a) b2) (\<lambda>(cs, b3).
           Inr (append_chains i novel_at a layer (xn_node_id n) (xe_edge_id e) cs b3)))"

fun all_paths_for ::
  "explain_input \<Rightarrow> (nat \<rightharpoonup> 32 word) \<Rightarrow> rights_layer \<Rightarrow> applied_ace list \<Rightarrow> builder \<Rightarrow> builder result" where
  "all_paths_for i novel_at layer [] b = Inr b"
| "all_paths_for i novel_at layer (a # as) b =
     res_bind (paths_for i novel_at layer a b) (\<lambda>b'. all_paths_for i novel_at layer as b')"

definition ownership_path :: "explain_input \<Rightarrow> rights_layer \<Rightarrow> acl_evaluation \<Rightarrow> builder \<Rightarrow> builder" where
  "ownership_path i layer ev b = (case ev_owner_rights ev of
       None \<Rightarrow> b
     | Some owner \<Rightarrow>
        (let novel = mask_value (expand_generics owner); s = xi_subject i
         in if novel = 0 then b
            else
             (let (p, b1) = add_node (principal_node (subj_key s) s) b;
                  (e, b2) = add_edge \<lparr>xe_edge_id = ''ownership:'' @ xn_node_id p @ ''->'' @ object_node_id i,
                    xe_kind = EDGE_OWNERSHIP, xe_source = xn_node_id p, xe_target = object_node_id i,
                    xe_membership_edge_key = None, xe_ace_key = None\<rparr> b1;
                  (delivered, constrained) = path_crossing (xi_access i) novel layer
              in b2\<lparr>bd_paths := bd_paths b2 @ [\<lparr>cp_path_id = path_name (length (bd_paths b2)), cp_layer = layer,
                   cp_relation = PR_GRANT, cp_effect = path_effect_of novel delivered constrained,
                   cp_chain = [subj_key s], cp_node_ids = [xn_node_id p, object_node_id i], cp_edge_ids = [xe_edge_id e],
                   cp_trustee_key = subj_key s, cp_ace_position = OWNERSHIP_POSITION, cp_ace_key = None,
                   cp_ace_rights = rmask novel layer, cp_layer_rights = rmask novel layer, cp_effective_rights = delivered,
                   cp_constrained_rights = constrained, cp_assumed = False, cp_via_group = False, cp_inherited = False\<rparr>]\<rparr>)))"

fun build_layers :: "explain_input \<Rightarrow> (rights_layer \<times> acl_evaluation) list \<Rightarrow> builder \<Rightarrow> builder result" where
  "build_layers i [] b = Inr b"
| "build_layers i ((layer, ev) # rest) b =
     res_bind (all_paths_for i (novel_contributions ev) layer (applied_entries ev) (ownership_path i layer ev b)) (build_layers i rest)"

definition path_order :: "causal_path \<Rightarrow> nat \<times> int \<times> nat \<times> string list" where
  "path_order p = ((if cp_layer p = NTFS then 0 else 1), cp_ace_position p, cp_length p, cp_chain p)"

definition build_explanation :: "explain_input \<Rightarrow> builder result" where
  "build_explanation i =
     (let b0 = (if st_membership_complete (xi_token i) then empty_builder else note_truncation PT_MEMBERSHIP_INCOMPLETE empty_builder);
          b1 = snd (add_node (object_node i) b0);
          b2 = snd (add_node (principal_node (subj_key (xi_subject i)) (xi_subject i)) b1)
      in res_bind (build_layers i (explained_layers (xi_access i)) b2) (\<lambda>b.
           Inr (b\<lparr>bd_paths := sort_key path_order (bd_paths b)\<rparr>)))"

definition builder_graph :: "builder \<Rightarrow> explanation_graph" where
  "builder_graph b = \<lparr>xg_nodes = sort_key xn_node_id (bd_nodes b), xg_edges = sort_key xe_edge_id (bd_edges b)\<rparr>"

subsection \<open>Removal\<close>

text \<open>\<open>_reachable_upward\<close>: a stack of nodes still to visit and the groups seen.\<close>

definition groups_of :: "graph_edge list \<Rightarrow> string \<Rightarrow> string list" where
  "groups_of es member = map ge_group_key (filter (\<lambda>e. ge_member_key e = member) es)"

fun push_unseen :: "string list \<Rightarrow> string list \<Rightarrow> string list \<Rightarrow> string list \<times> string list" where
  "push_unseen [] stack seen = (stack, seen)"
| "push_unseen (g # gs) stack seen = (if g \<in> set seen then push_unseen gs stack seen else push_unseen gs (g # stack) (g # seen))"

lemma push_unseen_spec:
  "push_unseen gs stack seen = (stack', seen') \<Longrightarrow> set seen' = set seen \<union> set gs
    \<and> (\<exists>new. stack' = new @ stack \<and> seen' = new @ seen \<and> distinct new \<and> set new = set gs - set seen)"
proof (induction gs arbitrary: stack seen)
  case (Cons g gs)
  show ?case
  proof (cases "g \<in> set seen")
    case True
    with Cons.IH [of stack seen] Cons.prems show ?thesis by auto
  next
    case False
    with Cons.prems have p: "push_unseen gs (g # stack) (g # seen) = (stack', seen')" by simp
    obtain new where "stack' = new @ g # stack" "seen' = new @ g # seen" "distinct new" "set new = set gs - insert g (set seen)"
      using Cons.IH [OF p] by auto
    then show ?thesis using False by (intro conjI exI [of _ "new @ [g]"]) auto
  qed
qed auto

function reach_loop :: "graph_edge list \<Rightarrow> string list \<Rightarrow> string list \<Rightarrow> string list" where
  "reach_loop es [] seen = seen"
| "reach_loop es (n # stack) seen = (let (stack', seen') = push_unseen (groups_of es n) stack seen in reach_loop es stack' seen')"
  by pat_completeness auto

termination reach_loop
proof (relation "measure (\<lambda>(es, stack, seen). 2 * card (ge_group_key ` set es - set seen) + length stack)", goal_cases)
  case (2 es n stack seen x stack' seen')
  let ?all = "ge_group_key ` set es"
  have "push_unseen (groups_of es n) stack seen = (stack', seen')" using 2 by simp
  from push_unseen_spec [OF this] obtain new where
    new: "stack' = new @ stack" "seen' = new @ seen" "distinct new" "set new = set (groups_of es n) - set seen" by blast
  have sub: "set new \<subseteq> ?all - set seen" unfolding new(4) by (auto simp: groups_of_def)
  have "?all - set seen' = (?all - set seen) - set new" using new(2) by auto
  then have "card (?all - set seen') = card (?all - set seen) - length new"
    using sub new(3) by (simp add: card_Diff_subset distinct_card)
  moreover have "length new \<le> card (?all - set seen)"
    using card_mono [OF _ sub] new(3) by (simp add: distinct_card)
  ultimately show ?case using new(1) by simp
qed simp

definition reachable_upward :: "graph_edge list \<Rightarrow> string \<Rightarrow> string set" where
  "reachable_upward es root = set (reach_loop es [root] [])"

definition without_entry :: "acl_entry list \<Rightarrow> (rights_layer \<times> nat) option \<Rightarrow> rights_layer \<Rightarrow> acl_entry list" where
  "without_entry entries excluded layer = (case excluded of
       None \<Rightarrow> entries
     | Some (l, k) \<Rightarrow> if l \<noteq> layer then entries else take k entries @ drop (Suc k) entries)"

definition restricted :: "subject_token \<Rightarrow> string set \<Rightarrow> subject_token result" where
  "restricted token keys = mk_subject_token (token\<lparr>st_entries := filter (\<lambda>e. tok_key e \<in> keys) (st_entries token)\<rparr>)"

definition surviving_keys :: "explain_input \<Rightarrow> explanation_edge \<Rightarrow> string set" where
  "surviving_keys i e =
     (case (xe_kind e, xe_membership_edge_key e) of
        (EDGE_MEMBERSHIP, Some key) \<Rightarrow>
          (let reachable = reachable_upward (filter (\<lambda>h. ge_edge_key h \<noteq> key) (xi_subgraph i)) (subj_key (xi_subject i))
           in tok_key ` set (filter (\<lambda>t. tok_origin t \<noteq> ORIGIN_GROUP_MEMBERSHIP \<or> tok_key t \<in> reachable) (st_entries (xi_token i))))
      | _ \<Rightarrow> token_keys (xi_token i))"

definition ace_behind :: "builder \<Rightarrow> explanation_edge \<Rightarrow> (rights_layer \<times> nat) option" where
  "ace_behind b e =
     (if xe_kind e \<noteq> EDGE_TRUSTEE then None
      else (case find (\<lambda>n. xn_node_id n = xe_target e) (bd_nodes b) of
          None \<Rightarrow> None
        | Some n \<Rightarrow> (case (xn_layer n, xn_position n) of (Some l, Some k) \<Rightarrow> Some (l, k) | _ \<Rightarrow> None)))"

definition reevaluate :: "explain_input \<Rightarrow> string set \<Rightarrow> (rights_layer \<times> nat) option \<Rightarrow> rights_mask result" where
  "reevaluate i keys excluded =
     res_bind (restricted (xi_token i) keys) (\<lambda>token. let path = ea_path (xi_access i)
      in res_bind (evaluate_acl (without_entry (rd_entries (xi_resource i)) excluded NTFS) token NTFS (rd_facts (xi_resource i))) (\<lambda>ntfs.
         case xi_share i of
           None \<Rightarrow> res_bind (effective_rights (ev_rights ntfs) path None) (\<lambda>c. Inr (er_rights c))
         | Some s \<Rightarrow>
             if \<not> sh_observed s then Inr (rmask (mask_value (expand_generics (ev_rights ntfs))) EFFECTIVE)
             else res_bind (evaluate_acl (without_entry (sh_entries s) excluded SMB_SHARE) token SMB_SHARE UNOWNED_PRESENT_DACL) (\<lambda>share.
               res_bind (effective_rights (ev_rights ntfs) path (Some (ev_rights share))) (\<lambda>c. Inr (er_rights c)))))"

definition measure_edge :: "explain_input \<Rightarrow> builder \<Rightarrow> string \<Rightarrow> removal_target option result" where
  "measure_edge i b edge_id = (case find (\<lambda>e. xe_edge_id e = edge_id) (bd_edges b) of
       None \<Rightarrow> Inr None
     | Some e \<Rightarrow> res_bind (reevaluate i (surviving_keys i e) (ace_behind b e)) (\<lambda>rights.
        let prior = mask_value (expand_generics (ea_rights (xi_access i))); after = mask_value rights
        in Inr (Some \<lparr>rt_edge_id = edge_id, rt_kind = xe_kind e, rt_source = xe_source e, rt_target = xe_target e,
             rt_rights_removed = rmask (prior AND NOT after) EFFECTIVE, rt_rights_added = rmask (after AND NOT prior) EFFECTIVE,
             rt_rights_after = rights, rt_revokes_all_access = (ea_has_access (xi_access i) \<and> after = 0),
             rt_alternate_paths = map cp_path_id (filter (\<lambda>p. cp_effect p = PE_CONTRIBUTES \<and> cp_is_grant p
               \<and> edge_id \<notin> set (cp_edge_ids p)) (bd_paths b)),
             rt_paths_removed = map cp_path_id (filter (\<lambda>p. edge_id \<in> set (cp_edge_ids p)) (bd_paths b))\<rparr>)))"

definition removal_candidates :: "builder \<Rightarrow> string list" where
  "removal_candidates b = dict_fromkeys (filter (\<lambda>k. case find (\<lambda>e. xe_edge_id e = k) (bd_edges b) of
       None \<Rightarrow> False | Some e \<Rightarrow> is_removable e) (concat (map cp_edge_ids (bd_paths b))))"

fun measure_all ::
  "explain_input \<Rightarrow> builder \<Rightarrow> string list \<Rightarrow> removal_target list \<Rightarrow> (removal_target list \<times> bool) result" where
  "measure_all i b [] ts = Inr (ts, False)"
| "measure_all i b (k # ks) ts =
     (if xl_max_removal_targets (xi_limits i) \<le> length ts then Inr (ts, True)
      else res_bind (measure_edge i b k) (\<lambda>t. measure_all i b ks (case t of None \<Rightarrow> ts | Some x \<Rightarrow> ts @ [x])))"

definition removal_targets :: "explain_input \<Rightarrow> builder \<Rightarrow> (removal_target list \<times> builder) result" where
  "removal_targets i b = res_bind (measure_all i b (removal_candidates b) []) (\<lambda>(ts, cut).
     Inr (ts, if cut then note_truncation PT_MAX_REMOVAL_TARGETS b else b))"

subsection \<open>The explanation\<close>

definition check_inputs :: "effective_access \<Rightarrow> resource_dacl \<Rightarrow> share_dacl option \<Rightarrow> unit result" where
  "check_inputs a resource share =
     (if rd_resource_key resource \<noteq> ea_resource_key a then Inl (DomainValidationError ''resource'')
      else if map_option sh_share_key share \<noteq> ea_share_key a then Inl (DomainValidationError ''share'')
      else Inr ())"

definition explain_access ::
  "effective_access \<Rightarrow> resource_dacl \<Rightarrow> share_dacl option \<Rightarrow> graph_edge list \<Rightarrow> explanation_limits \<Rightarrow> access_explanation result" where
  "explain_access a resource share edges limits =
     res_bind (check_inputs a resource share) (\<lambda>_.
     let i = \<lparr>xi_access = a, xi_resource = resource, xi_share = share, xi_limits = limits, xi_subgraph = edges\<rparr>
     in res_bind (build_explanation i) (\<lambda>b.
        res_bind (removal_targets i b) (\<lambda>(targets, b').
          Inr \<lparr>xp_access = a, xp_graph = builder_graph b, xp_paths = bd_paths b, xp_removal_targets = targets,
                xp_cycles = (if edges = [] then [] else cycles_found edges UP None), xp_limits = limits,
                xp_truncation = sorted_truncation (bd_trunc b'), xp_findings = bd_findings b'\<rparr>)))"

subsection \<open>The replayed walk\<close>

text \<open>The applied entries of a walk in stored order, and the masks the replay accumulates over them.\<close>

definition trail :: "acl_walk \<Rightarrow> applied_ace list" where
  "trail w = sort_key aa_position (w_granted_by w @ w_denied_by w @ w_superseded w)"

definition replayed :: "bool \<Rightarrow> applied_ace list \<Rightarrow> 32 word" where
  "replayed allow as = foldr (OR) (map (\<lambda>a. expand_value (mask_value (aa_contributed a))) (filter (\<lambda>a. aa_is_allow a = allow) as)) 0"

lemma replayed_snoc:
  "replayed allow (as @ [a]) = (if aa_is_allow a = allow then replayed allow as OR expand_value (mask_value (aa_contributed a)) else replayed allow as)"
proof -
  have acc: "foldr (OR) vs v = foldr (OR) vs 0 OR (v :: 32 word)" for vs v
    by (induction vs) (simp_all add: or.assoc)
  show ?thesis unfolding replayed_def
    using acc [where v = "expand_value (mask_value (aa_contributed a))"] by (cases "aa_is_allow a = allow") simp_all
qed

lemma novel_scan_snoc:
  "novel_scan g d (as @ [a]) m = (novel_scan g d as m)(aa_position a \<mapsto>
     expand_value (mask_value (aa_contributed a)) AND NOT (if aa_is_allow a then g OR replayed True as else d OR replayed False as))"
proof (induction as arbitrary: g d m)
  case (Cons b as)
  have "replayed allow (b # as) = (if aa_is_allow b = allow then expand_value (mask_value (aa_contributed b)) OR replayed allow as else replayed allow as)" for allow
    by (simp add: replayed_def)
  then show ?case using Cons by (auto simp: Let_def mask_value_expand or.assoc)
qed (simp add: Let_def mask_value_expand replayed_def)

lemma sort_key_last:
  assumes "\<forall>x \<in> set (xs @ ys). f x < f a"
  shows "sort_key f (xs @ a # ys) = sort_key f (xs @ ys) @ [a]"
proof (rule properties_for_sort_key)
  show "mset (sort_key f (xs @ ys) @ [a]) = mset (xs @ a # ys)" by simp
  show "sorted (map f (sort_key f (xs @ ys) @ [a]))" using assms by (auto simp: sorted_append less_imp_le)
  fix k assume "k \<in> set (sort_key f (xs @ ys) @ [a])"
  have stable: "filter (\<lambda>x. f k = f x) (sort_key f (xs @ ys)) = filter (\<lambda>x. f k = f x) (xs @ ys)"
    using sort_key_stable [of f "f k" "xs @ ys"] by (simp add: eq_commute)
  show "filter (\<lambda>x. f k = f x) (sort_key f (xs @ ys) @ [a]) = filter (\<lambda>x. f k = f x) (xs @ a # ys)"
  proof (cases "f k = f a")
    case True
    then have "filter (\<lambda>x. f k = f x) xs = []" "filter (\<lambda>x. f k = f x) ys = []" using assms by (auto simp: filter_empty_conv)
    then show ?thesis using True stable by simp
  next
    case False
    then show ?thesis using stable by simp
  qed
qed

lemma entry_bits_concrete: "expand_value (entry_bits e AND v) = entry_bits e AND v"
  by (rule expand_value_id) (simp add: no_generic_iff bit_and_iff entry_bits_def bit_expand_value_high)

lemma trail_step:
  assumes "\<forall>a \<in> set (trail w). aa_position a < p"
  shows "\<not> applicable token owner e \<Longrightarrow> trail (apply_entry e p token owner w) = trail w"
    and "applicable token owner e \<Longrightarrow> \<exists>a. trail (apply_entry e p token owner w) = trail w @ [a] \<and> aa_position a = p \<and> aa_entry a = e
      \<and> mask_value (aa_contributed a) = entry_bits e AND NOT (if ae_is_allow e then w_denied w else w_granted w)"
proof -
  show "trail (apply_entry e p token owner w) = trail w" if "\<not> applicable token owner e"
    by (rule apply_entry_skip [OF that, of p w]) (simp_all add: trail_def)
  have pos: "\<forall>a \<in> set (w_granted_by w @ w_denied_by w @ w_superseded w). aa_position a < p" using assms by (simp add: trail_def)
  assume app: "applicable token owner e"
  show "\<exists>a. trail (apply_entry e p token owner w) = trail w @ [a] \<and> aa_position a = p \<and> aa_entry a = e
      \<and> mask_value (aa_contributed a) = entry_bits e AND NOT (if ae_is_allow e then w_denied w else w_granted w)"
  proof (rule apply_entry_settles [OF app, where p = p and w = w])
    fix m w'
    assume w': "apply_entry e p token owner w = settle_entry e p m w'" "w_granted w' = w_granted w" "w_denied w' = w_denied w"
      "w_granted_by w' = w_granted_by w" "w_denied_by w' = w_denied_by w" "w_superseded w' = w_superseded w"
    let ?v = "entry_bits e AND NOT (if ae_is_allow e then w_denied w else w_granted w)"
    let ?a = "\<lparr>aa_entry = e, aa_matched = m, aa_position = p, aa_considered = nr_normalized (ae_normalized e),
      aa_contributed = rmask ?v (w_layer w')\<rparr>"
    let ?g = "w_granted_by w" and ?d = "w_denied_by w" and ?s = "w_superseded w"
    consider "trail (settle_entry e p m w') = sort_key aa_position (?g @ ?a # ?d @ ?s)"
      | "trail (settle_entry e p m w') = sort_key aa_position ((?g @ ?d) @ ?a # ?s)"
      | "trail (settle_entry e p m w') = sort_key aa_position ((?g @ ?d @ ?s) @ ?a # [])"
      using w'(2-) by (cases "ae_is_allow e"; cases "?v = 0")
        (simp_all add: settle_entry_def Let_def normalized_value trail_def)
    then have "trail (settle_entry e p m w') = trail w @ [?a]"
    proof cases
      case 1
      then show ?thesis using sort_key_last [of ?g "?d @ ?s" aa_position ?a] pos by (simp add: trail_def)
    next
      case 2
      then show ?thesis using sort_key_last [of "?g @ ?d" ?s aa_position ?a] pos by (simp add: trail_def)
    next
      case 3
      then show ?thesis using sort_key_last [of "?g @ ?d @ ?s" "[]" aa_position ?a] pos by (simp add: trail_def)
    qed
    then show ?thesis using w'(1) by (intro exI [of _ ?a]) simp
  qed
qed

text \<open>The entry at \<open>p\<close> is the first that applies to the token and names right \<open>n\<close>.\<close>

definition first_to_name :: "subject_token \<Rightarrow> token_sid option \<Rightarrow> acl_entry list \<Rightarrow> nat \<Rightarrow> nat \<Rightarrow> bool" where
  "first_to_name token owner es p n \<longleftrightarrow> p < length es \<and> applicable token owner (es ! p) \<and> bit (entry_bits (es ! p)) n
     \<and> (\<forall>q < p. applicable token owner (es ! q) \<longrightarrow> \<not> bit (entry_bits (es ! q)) n)"

lemma rulings_snoc:
  "rulings_for token owner (es @ [e]) = rulings_for token owner es @ (if applicable token owner e then [(ae_ace_type e, entry_bits e)] else [])"
  by (simp add: rulings_for_def)

lemma walk_entries_snoc:
  "walk_entries (es @ [e]) token owner w = apply_entry e (length es) token owner (walk_entries es token owner w)"
  by (simp add: walk_entries_def enumerate_append_eq)

lemma named_before:
  "(\<exists>m \<in> snd ` set (rulings_for token owner es). bit m n) \<longleftrightarrow> (\<exists>q < length es. applicable token owner (es ! q) \<and> bit (entry_bits (es ! q)) n)"
  by (auto simp: rulings_for_def in_set_conv_nth image_iff)

lemma decided_iff_named:
  "decided rs n ALLOW \<or> decided rs n DENY \<longleftrightarrow> (\<exists>m \<in> snd ` set rs. bit m n)"
proof
  assume "decided rs n ALLOW \<or> decided rs n DENY"
  then show "\<exists>m \<in> snd ` set rs. bit m n" using decided_member by force
next
  assume "\<exists>m \<in> snd ` set rs. bit m n"
  then obtain t where "decided rs n t" using named_decided by fastforce
  then show "decided rs n ALLOW \<or> decided rs n DENY" by (cases t) auto
qed

lemma replay_walk:
  fixes g0 :: "32 word"
  assumes "w_granted w0 = 0" "w_denied w0 = 0" "w_granted_by w0 = []" "w_denied_by w0 = []" "w_superseded w0 = []"
  shows "(\<forall>a \<in> set (trail (walk_entries es token owner w0)). aa_position a < length es)
    \<and> replayed True (trail (walk_entries es token owner w0)) = w_granted (walk_entries es token owner w0)
    \<and> replayed False (trail (walk_entries es token owner w0)) = w_denied (walk_entries es token owner w0)
    \<and> (\<forall>p. novel_scan g0 0 (trail (walk_entries es token owner w0)) Map.empty p \<noteq> None
          \<longleftrightarrow> p < length es \<and> applicable token owner (es ! p))
    \<and> (\<forall>p v n. novel_scan g0 0 (trail (walk_entries es token owner w0)) Map.empty p = Some v \<longrightarrow>
          (bit v n \<longleftrightarrow> first_to_name token owner es p n \<and> (ae_is_allow (es ! p) \<longrightarrow> \<not> bit g0 n)))"
proof (induction es rule: rev_induct)
  case Nil
  then show ?case using assms by (simp add: walk_entries_def trail_def replayed_def)
next
  case (snoc e es)
  let ?w = "walk_entries es token owner w0" and ?w' = "walk_entries (es @ [e]) token owner w0"
  note step = trail_step [where w = ?w and p = "length es" and e = e and token = token and owner = owner]
  have below: "\<forall>a \<in> set (trail ?w). aa_position a < length es" using snoc by blast
  have w': "?w' = apply_entry e (length es) token owner ?w" by (rule walk_entries_snoc)
  have masks: "bit (w_granted ?w) n \<longleftrightarrow> decided (rulings_for token owner es) n ALLOW"
      "bit (w_denied ?w) n \<longleftrightarrow> decided (rulings_for token owner es) n DENY" for n
    using dacl.run_first_match [of token owner "List.enumerate 0 es" w0 n] assms(1,2) by (simp_all add: walk_entries_def dacl_rulings)
  have old: "first_to_name token owner (es @ [e]) p n \<longleftrightarrow> first_to_name token owner es p n" if "p < length es" for p n
    using that by (auto simp: first_to_name_def nth_append)
  show ?case
  proof (cases "applicable token owner e")
    case False
    have same: "trail ?w' = trail ?w" unfolding w' by (rule step(1) [OF below False])
    have keep: "w_granted ?w' = w_granted ?w" "w_denied ?w' = w_denied ?w"
      unfolding w' by (rule apply_entry_skip [OF False, of "length es" ?w]; simp)+
    show ?thesis unfolding same keep
      using snoc False below by (auto simp: nth_append less_Suc_eq old)
  next
    case True
    obtain a where a: "trail ?w' = trail ?w @ [a]" "aa_position a = length es" "aa_entry a = e"
      and c: "mask_value (aa_contributed a) = entry_bits e AND NOT (if ae_is_allow e then w_denied ?w else w_granted ?w)"
      using step(2) [OF below True] w' by auto
    have al: "aa_is_allow a = ae_is_allow e" by (simp add: aa_is_allow_def a(3))
    have exp: "expand_value (mask_value (aa_contributed a)) = mask_value (aa_contributed a)" unfolding c by (rule entry_bits_concrete)
    have IH: "replayed True (trail ?w) = w_granted ?w" "replayed False (trail ?w) = w_denied ?w" using snoc by blast+
    have grown: "w_granted ?w' = (if ae_is_allow e then w_granted ?w OR mask_value (aa_contributed a) else w_granted ?w)"
        "w_denied ?w' = (if ae_is_allow e then w_denied ?w else w_denied ?w OR mask_value (aa_contributed a))"
      unfolding w' by (rule apply_entry_settles [OF True, where p = "length es" and w = ?w];
        cases "ae_ace_type e"; simp add: settle_entry_masks c ae_is_allow_def)+
    have scan: "novel_scan g0 0 (trail ?w') Map.empty = (novel_scan g0 0 (trail ?w) Map.empty)(length es \<mapsto>
        mask_value (aa_contributed a) AND NOT (if ae_is_allow e then g0 OR w_granted ?w else w_denied ?w))"
      by (simp add: a novel_scan_snoc al exp IH)
    have new: "bit (mask_value (aa_contributed a) AND NOT (if ae_is_allow e then g0 OR w_granted ?w else w_denied ?w)) n
        \<longleftrightarrow> first_to_name token owner (es @ [e]) (length es) n \<and> (ae_is_allow e \<longrightarrow> \<not> bit g0 n)" for n
    proof -
      have before: "bit (w_granted ?w) n \<or> bit (w_denied ?w) n \<longleftrightarrow> (\<exists>q < length es. applicable token owner (es ! q) \<and> bit (entry_bits (es ! q)) n)"
        unfolding masks decided_iff_named named_before ..
      have "bit (mask_value (aa_contributed a) AND NOT (if ae_is_allow e then g0 OR w_granted ?w else w_denied ?w)) n
        \<longleftrightarrow> bit (entry_bits e) n \<and> \<not> (bit (w_granted ?w) n \<or> bit (w_denied ?w) n) \<and> (ae_is_allow e \<longrightarrow> \<not> bit g0 n)"
        unfolding c using bit_imp_le_length [of "entry_bits e" n] by (auto simp: bit_and_iff bit_or_iff bit_not_iff)
      also have "\<dots> \<longleftrightarrow> first_to_name token owner (es @ [e]) (length es) n \<and> (ae_is_allow e \<longrightarrow> \<not> bit g0 n)"
        unfolding before using True by (auto simp: first_to_name_def nth_append)
      finally show ?thesis .
    qed
    have "\<forall>x \<in> set (trail ?w'). aa_position x < length (es @ [e])" using below a(1,2) by auto
    moreover have "replayed True (trail ?w') = w_granted ?w'" "replayed False (trail ?w') = w_denied ?w'"
      unfolding a(1) replayed_snoc grown al exp IH by auto
    moreover have "novel_scan g0 0 (trail ?w') Map.empty p \<noteq> None \<longleftrightarrow> p < length (es @ [e]) \<and> applicable token owner ((es @ [e]) ! p)" for p
      unfolding scan using snoc True by (auto simp: nth_append less_Suc_eq)
    moreover have "bit v n \<longleftrightarrow> first_to_name token owner (es @ [e]) p n \<and> (ae_is_allow ((es @ [e]) ! p) \<longrightarrow> \<not> bit g0 n)"
      if v: "novel_scan g0 0 (trail ?w') Map.empty p = Some v" for p v n
    proof (cases "p = length es")
      case True
      then show ?thesis using v new [of n] unfolding scan by simp
    next
      case False
      then have v': "novel_scan g0 0 (trail ?w) Map.empty p = Some v" using v unfolding scan by simp
      moreover have "p < length es" using snoc v' by blast
      ultimately show ?thesis using snoc old by (simp add: nth_append)
    qed
    ultimately show ?thesis by blast
  qed
qed

subsection \<open>What the entries of an evaluation settle\<close>

lemma dom_novel_scan: "dom (novel_scan g d as m) = dom m \<union> aa_position ` set as"
  by (induction as arbitrary: g d m) (simp_all add: Let_def)

lemma owner_bits_concrete: "expand_value (owner_bits token facts es) = owner_bits token facts es"
  by (rule expand_value_id) (simp add: owner_bits_def READ_CONTROL_def WRITE_DAC_def generic_bits_value)

lemma evaluation_replayed:
  fixes token layer facts supplied
  defines "es \<equiv> take MAX_ACL_ENTRIES supplied" and "owner \<equiv> owner_token_sid_of token facts"
  assumes ev: "evaluate_acl supplied token layer facts = Inr ev" and present: "df_dacl_present facts"
  shows "novel_contributions ev p \<noteq> None \<longleftrightarrow> p < length es \<and> applicable token owner (es ! p)"
    and "novel_contributions ev p = Some v \<Longrightarrow> bit v n \<longleftrightarrow>
      first_to_name token owner es p n \<and> (ae_is_allow (es ! p) \<longrightarrow> \<not> bit (owner_bits token facts es) n)"
    and "a \<in> set (applied_entries ev) \<Longrightarrow> aa_position a < length es \<and> es ! aa_position a = aa_entry a
      \<and> novel_contributions ev (aa_position a) \<noteq> None"
    and "novel_contributions ev p \<noteq> None \<Longrightarrow> \<exists>a \<in> set (applied_entries ev). aa_position a = p"
proof -
  note parts = evaluate_acl_present [OF ev present, folded es_def]
  let ?w = "walked token layer facts es"
  have trail: "applied_entries ev = trail ?w" by (simp add: applied_entries_def trail_def parts)
  have g0: "(case ev_owner_rights ev of None \<Rightarrow> 0 | Some m \<Rightarrow> mask_value (expand_generics m)) = owner_bits token facts es"
    using owner_bits_concrete [of token facts es]
    by (auto simp: parts(6) owner_bits_def mask_value_expand OWNER_IMPLICIT_RIGHTS_def)
  have novel: "novel_contributions ev = novel_scan (owner_bits token facts es) 0 (trail ?w) Map.empty"
    by (simp add: novel_contributions_def g0 trail)
  note replay = replay_walk [of "start_walk token layer facts es" es token owner "owner_bits token facts es",
      folded walked_def [of token layer facts es, folded owner_def], simplified, folded novel]
  show "novel_contributions ev p \<noteq> None \<longleftrightarrow> p < length es \<and> applicable token owner (es ! p)" using replay by simp
  show "novel_contributions ev p = Some v \<Longrightarrow> bit v n \<longleftrightarrow>
      first_to_name token owner es p n \<and> (ae_is_allow (es ! p) \<longrightarrow> \<not> bit (owner_bits token facts es) n)"
    using replay by blast
  have dom: "novel_contributions ev q \<noteq> None \<longleftrightarrow> q \<in> aa_position ` set (applied_entries ev)" for q
    using dom_novel_scan [of "owner_bits token facts es" 0 "trail ?w" Map.empty] by (auto simp: novel trail dom_def set_eq_iff)
  show "a \<in> set (applied_entries ev) \<Longrightarrow> aa_position a < length es \<and> es ! aa_position a = aa_entry a
      \<and> novel_contributions ev (aa_position a) \<noteq> None"
    using walked_evidence [of token facts es layer] dom by (auto simp: trail trail_def evidence_ok_def applied_ok_def)
  show "novel_contributions ev p \<noteq> None \<Longrightarrow> \<exists>a \<in> set (applied_entries ev). aa_position a = p" using dom by auto
qed

lemma evaluation_null_applied:
  assumes "evaluate_acl supplied token layer facts = Inr ev" "\<not> df_dacl_present facts"
  shows "applied_entries ev = []" "ev_owner_rights ev = None"
proof -
  have "ev = null_dacl layer facts (length supplied)"
    using assms evaluate_acl_layers [OF assms(1)] evaluate_acl_null by force
  then show "applied_entries ev = []" "ev_owner_rights ev = None" by (simp_all add: null_dacl_def applied_entries_def)
qed

subsection \<open>What the builder keeps\<close>

definition known_nodes :: "builder \<Rightarrow> string set" where "known_nodes b = xn_node_id ` set (bd_nodes b)"
definition known_edges :: "builder \<Rightarrow> string set" where "known_edges b = xe_edge_id ` set (bd_edges b)"

definition ids_distinct :: "builder \<Rightarrow> bool" where
  "ids_distinct b \<longleftrightarrow> distinct (map xn_node_id (bd_nodes b)) \<and> distinct (map xe_edge_id (bd_edges b))"

text \<open>The id of an edge spells its kind and the nodes it joins; one to the directory leaves the directory out.\<close>

definition edge_name :: "edge_kind \<Rightarrow> string \<Rightarrow> string \<Rightarrow> string" where
  "edge_name k s t = edge_kind_value k @ '':'' @ s @ (if k \<in> {EDGE_GRANT, EDGE_DENY} then [] else ''->'' @ t)"

lemma arrow_split: "CHR ''>'' \<notin> set s \<Longrightarrow> CHR ''>'' \<notin> set s' \<Longrightarrow> s @ ''->'' @ t = s' @ ''->'' @ t' \<longleftrightarrow> s = s' \<and> t = t'"
proof (induction s arbitrary: s')
  case Nil
  then show ?case by (cases s'; cases "tl s'") auto
next
  case (Cons c s)
  then show ?case by (cases s'; cases s) auto
qed

lemma edge_name_inject:
  assumes "edge_name k s t = edge_name k' s' t'" "CHR ''>'' \<notin> set s" "CHR ''>'' \<notin> set s'"
  shows "k = k'" "s = s'" "k \<notin> {EDGE_GRANT, EDGE_DENY} \<Longrightarrow> t = t'"
proof -
  show k: "k = k'" using assms(1) by (cases k; cases k') (simp_all add: edge_name_def)
  have "s = s' \<and> (k \<notin> {EDGE_GRANT, EDGE_DENY} \<longrightarrow> t = t')"
    using assms(1) arrow_split [OF assms(2,3), of t t'] by (cases k) (simp_all add: edge_name_def k [symmetric])
  then show "s = s'" "k \<notin> {EDGE_GRANT, EDGE_DENY} \<Longrightarrow> t = t'" by blast+
qed

text \<open>A route to a target node: one edge between two nodes, named after the two; a grant or a deny leads to the target.\<close>

definition joins :: "string \<Rightarrow> string \<Rightarrow> string \<Rightarrow> string \<Rightarrow> bool" where
  "joins target e n m \<longleftrightarrow> (\<exists>k. e = edge_name k n m \<and> (k \<in> {EDGE_GRANT, EDGE_DENY} \<longrightarrow> m = target))"

fun joined :: "string \<Rightarrow> string list \<Rightarrow> string list \<Rightarrow> bool" where
  "joined target (n # m # ns) (e # es) \<longleftrightarrow> joins target e n m \<and> joined target (m # ns) es"
| "joined target [n] [] \<longleftrightarrow> True"
| "joined target _ _ \<longleftrightarrow> False"

lemma joined_length: "joined target ns es \<Longrightarrow> length ns = Suc (length es)"
  by (induction target ns es rule: joined.induct) simp_all

lemma joined_nth: "joined target ns es \<Longrightarrow> j < length es \<Longrightarrow> joins target (es ! j) (ns ! j) (ns ! Suc j)"
proof (induction target ns es arbitrary: j rule: joined.induct)
  case (1 target n m ns e es)
  then show ?case by (cases j) auto
qed simp_all

lemma joined_snoc: "joined target ns es \<Longrightarrow> joins target e (last ns) m \<Longrightarrow> joined target (ns @ [m]) (es @ [e])"
  by (induction target ns es rule: joined.induct) auto

text \<open>
  A node whose id starts as an entry's is one, a membership edge stands for a supplied row, a trustee
  edge points at an entry, and every edge joins two nodes its id names, a grant or a deny the directory.
\<close>

definition is_entry_node :: "explanation_node \<Rightarrow> bool" where
  "is_entry_node n \<longleftrightarrow> xn_layer n \<noteq> None \<and> xn_position n \<noteq> None"

definition points_at_entry :: "builder \<Rightarrow> string \<Rightarrow> bool" where
  "points_at_entry b t \<longleftrightarrow> (\<exists>n \<in> set (bd_nodes b). xn_node_id n = t \<and> is_entry_node n)"

definition edge_fits :: "explain_input \<Rightarrow> builder \<Rightarrow> explanation_edge \<Rightarrow> bool" where
  "edge_fits i b e \<longleftrightarrow> (xe_kind e = EDGE_MEMBERSHIP \<longrightarrow> xe_membership_edge_key e \<in> Some ` ge_edge_key ` set (xi_subgraph i))
     \<and> (xe_kind e = EDGE_TRUSTEE \<longrightarrow> points_at_entry b (xe_target e))
     \<and> {xe_source e, xe_target e} \<subseteq> known_nodes b \<and> xe_edge_id e = edge_name (xe_kind e) (xe_source e) (xe_target e)
     \<and> (xe_kind e \<in> {EDGE_GRANT, EDGE_DENY} \<longrightarrow> xe_target e = object_node_id i)"

definition sound_graph :: "explain_input \<Rightarrow> builder \<Rightarrow> bool" where
  "sound_graph i b \<longleftrightarrow> ids_distinct b \<and> (\<forall>n \<in> set (bd_nodes b). hd (xn_node_id n) \<in> set ''ns'' \<longrightarrow> is_entry_node n)
     \<and> (\<forall>e \<in> set (bd_edges b). edge_fits i b e)"

text \<open>Nodes and edges may have been added, and nothing else has changed.\<close>

definition extends :: "explain_input \<Rightarrow> builder \<Rightarrow> builder \<Rightarrow> bool" where
  "extends i b b' \<longleftrightarrow> set (bd_nodes b) \<subseteq> set (bd_nodes b') \<and> set (bd_edges b) \<subseteq> set (bd_edges b') \<and> (sound_graph i b \<longrightarrow> sound_graph i b')
     \<and> bd_paths b' = bd_paths b \<and> bd_trunc b' = bd_trunc b \<and> bd_findings b' = bd_findings b \<and> bd_chains b' = bd_chains b"

lemma extends_trans: "extends i a b \<Longrightarrow> extends i b c \<Longrightarrow> extends i a c"
  by (auto simp: extends_def)

lemma extends_known: "extends i b b' \<Longrightarrow> known_nodes b \<subseteq> known_nodes b' \<and> known_edges b \<subseteq> known_edges b'"
  by (auto simp: extends_def known_nodes_def known_edges_def)

lemma edge_fits_mono: "edge_fits i b e \<Longrightarrow> set (bd_nodes b) \<subseteq> set (bd_nodes b') \<Longrightarrow> edge_fits i b' e"
  unfolding edge_fits_def points_at_entry_def known_nodes_def by blast

lemma points_mono: "points_at_entry b t \<Longrightarrow> extends i b b' \<Longrightarrow> points_at_entry b' t"
  unfolding points_at_entry_def extends_def by blast

lemma find_none_notin: "find (\<lambda>m. f m = k) xs = None \<Longrightarrow> k \<notin> f ` set xs"
  by (auto simp: find_None_iff)

lemma find_some_in: "find (\<lambda>m. f m = k) xs = Some x \<Longrightarrow> x \<in> set xs \<and> f x = k \<and> k \<in> f ` set xs"
  by (auto simp: find_Some_iff)

lemma add_node_spec:
  assumes "add_node n b = (m, b')" "hd (xn_node_id n) \<in> set ''ns'' \<longrightarrow> is_entry_node n"
  shows "extends i b b'" "xn_node_id m = xn_node_id n" "m \<in> set (bd_nodes b')" "bd_edges b' = bd_edges b"
proof -
  have "extends i b b' \<and> xn_node_id m = xn_node_id n \<and> m \<in> set (bd_nodes b') \<and> bd_edges b' = bd_edges b"
  proof (cases "find (\<lambda>m. xn_node_id m = xn_node_id n) (bd_nodes b)")
    case None
    then have new: "xn_node_id n \<notin> xn_node_id ` set (bd_nodes b)" "m = n" "b' = b\<lparr>bd_nodes := bd_nodes b @ [n]\<rparr>"
      using assms(1) find_none_notin [OF None] by (auto simp: add_node_def)
    moreover have "sound_graph i b'" if "sound_graph i b"
      using that new assms(2) edge_fits_mono [where i = i and b = b and b' = b']
      by (auto simp: sound_graph_def ids_distinct_def)
    ultimately show ?thesis by (auto simp: extends_def)
  next
    case (Some x)
    then show ?thesis using assms(1) find_some_in [OF Some] by (auto simp: add_node_def extends_def)
  qed
  then show "extends i b b'" "xn_node_id m = xn_node_id n" "m \<in> set (bd_nodes b')" "bd_edges b' = bd_edges b" by blast+
qed

lemma add_edge_spec:
  assumes "add_edge e b = (f, b')" "sound_graph i b \<longrightarrow> edge_fits i b e"
  shows "extends i b b'" "xe_edge_id f = xe_edge_id e" "f \<in> set (bd_edges b')" "bd_nodes b' = bd_nodes b"
proof -
  have "extends i b b' \<and> xe_edge_id f = xe_edge_id e \<and> f \<in> set (bd_edges b') \<and> bd_nodes b' = bd_nodes b"
  proof (cases "find (\<lambda>f. xe_edge_id f = xe_edge_id e) (bd_edges b)")
    case None
    then have new: "xe_edge_id e \<notin> xe_edge_id ` set (bd_edges b)" "f = e" "b' = b\<lparr>bd_edges := bd_edges b @ [e]\<rparr>"
      using assms(1) find_none_notin [OF None] by (auto simp: add_edge_def)
    moreover have "sound_graph i b'" if "sound_graph i b"
      using that new assms(2) edge_fits_mono [where i = i and b = b and b' = b']
      by (auto simp: sound_graph_def ids_distinct_def)
    ultimately show ?thesis by (auto simp: extends_def)
  next
    case (Some x)
    then show ?thesis using assms(1) find_some_in [OF Some] by (auto simp: add_edge_def extends_def)
  qed
  then show "extends i b b'" "xe_edge_id f = xe_edge_id e" "f \<in> set (bd_edges b')" "bd_nodes b' = bd_nodes b" by blast+
qed

lemma plain_node_ids:
  "hd (xn_node_id (principal_node k s)) = CHR ''p''" "hd (xn_node_id (object_node i)) = CHR ''r''"
  "hd (xn_node_id (membership_node token k)) \<in> {CHR ''a'', CHR ''g''}"
  "hd (xn_node_id (ace_node i a layer)) \<in> {CHR ''n'', CHR ''s''}" "is_entry_node (ace_node i a layer)"
  by (simp_all add: principal_node_def object_node_def object_node_id_def membership_node_def ace_node_def is_entry_node_def Let_def)

lemma climb_spec:
  assumes "climb token prev ks hops b = (ns, es, b')" "set hops \<subseteq> set (xi_subgraph i)" "prev \<in> known_nodes b"
  shows "extends i b b' \<and> joined (object_node_id i) (prev # ns) es \<and> set ns \<subseteq> known_nodes b' \<and> set es \<subseteq> known_edges b'"
  using assms
proof (induction ks arbitrary: prev hops b ns es)
  case Nil
  then show ?case by (simp add: extends_def)
next
  case (Cons k ks)
  let ?hop = "case hops of [] \<Rightarrow> None | h # _ \<Rightarrow> Some h"
  obtain n b1 where n: "add_node (membership_node token k) b = (n, b1)" by fastforce
  obtain e b2 where e: "add_edge (membership_edge prev (xn_node_id n) ?hop) b1 = (e, b2)" by fastforce
  obtain ns' es' where c: "climb token (xn_node_id n) ks (tl hops) b2 = (ns', es', b')" and ns: "ns = xn_node_id n # ns'" "es = xe_edge_id e # es'"
    using Cons.prems n e by (auto split: prod.splits)
  have plain: "hd (xn_node_id (membership_node token k)) \<in> set ''ns'' \<longrightarrow> is_entry_node (membership_node token k)"
    using plain_node_ids(3) [of token k] by auto
  have b01: "extends i b b1" and nb: "n \<in> set (bd_nodes b1)"
    using add_node_spec [OF n plain] by blast+
  have nk: "xn_node_id n \<in> known_nodes b1" "prev \<in> known_nodes b1"
    using nb Cons.prems(3) extends_known [OF b01] by (auto simp: known_nodes_def)
  have fits: "edge_fits i b1 (membership_edge prev (xn_node_id n) ?hop)"
    using Cons.prems(2) nk by (auto simp: edge_fits_def membership_edge_def edge_name_def split: list.splits)
  have named: "joins (object_node_id i) (xe_edge_id e) prev (xn_node_id n)"
    using add_edge_spec(2) [OF e] fits by (auto simp: edge_fits_def membership_edge_def Let_def joins_def split: option.splits)
  have b12: "extends i b1 b2" and eb: "e \<in> set (bd_edges b2)" using add_edge_spec [OF e] fits by blast+
  have "set (tl hops) \<subseteq> set (xi_subgraph i)" "xn_node_id n \<in> known_nodes b2"
    using Cons.prems(2) nk(1) extends_known [OF b12] by (cases hops; auto)+
  note IH = Cons.IH [OF c this]
  have b23: "extends i b2 b'" using IH by blast
  have "extends i b b'" by (rule extends_trans [OF b01 extends_trans [OF b12 b23]])
  moreover have "xn_node_id n \<in> known_nodes b'" "xe_edge_id e \<in> known_edges b'"
    using nb eb b12 b23 by (auto simp: extends_def known_nodes_def known_edges_def)
  ultimately show ?case using IH ns named by simp
qed


text \<open>What a path says an entry, or the subject's ownership, is worth.\<close>

definition delivers :: "explain_input \<Rightarrow> rights_layer \<Rightarrow> 32 word \<Rightarrow> causal_path \<Rightarrow> bool" where
  "delivers i layer novel p \<longleftrightarrow> cp_layer p = layer \<and> cp_layer_rights p = rmask novel layer
     \<and> (cp_effective_rights p, cp_constrained_rights p) = path_crossing (xi_access i) novel layer
     \<and> cp_effect p = path_effect_of novel (cp_effective_rights p) (cp_constrained_rights p)"

definition explains_entry :: "explain_input \<Rightarrow> rights_layer \<Rightarrow> (nat \<rightharpoonup> 32 word) \<Rightarrow> applied_ace \<Rightarrow> causal_path \<Rightarrow> bool" where
  "explains_entry i layer novel_at a p \<longleftrightarrow> delivers i layer (case novel_at (aa_position a) of None \<Rightarrow> 0 | Some v \<Rightarrow> v) p
     \<and> cp_ace_position p = int (aa_position a) \<and> cp_relation p = (if aa_is_allow a then PR_GRANT else PR_DENY)
     \<and> cp_trustee_key p = ae_trustee_key (aa_entry a)"

definition explains_ownership :: "explain_input \<Rightarrow> rights_layer \<Rightarrow> acl_evaluation \<Rightarrow> causal_path \<Rightarrow> bool" where
  "explains_ownership i layer ev p \<longleftrightarrow> cp_relation p = PR_GRANT \<and> cp_ace_position p = OWNERSHIP_POSITION
     \<and> (\<exists>m. ev_owner_rights ev = Some m \<and> delivers i layer (mask_value (expand_generics m)) p)"

text \<open>A path starts at the subject, ends at the directory, and runs over nodes and edges of the graph.\<close>

definition route_ok :: "explain_input \<Rightarrow> builder \<Rightarrow> causal_path \<Rightarrow> bool" where
  "route_ok i b p \<longleftrightarrow> cp_chain p \<noteq> [] \<and> hd (cp_chain p) = subj_key (xi_subject i)
     \<and> set (cp_node_ids p) \<subseteq> known_nodes b \<and> set (cp_edge_ids p) \<subseteq> known_edges b
     \<and> joined (object_node_id i) (cp_node_ids p) (cp_edge_ids p)
     \<and> hd (cp_node_ids p) = ''principal:'' @ subj_key (xi_subject i) \<and> last (cp_node_ids p) = object_node_id i"

definition adds :: "explain_input \<Rightarrow> (causal_path \<Rightarrow> bool) \<Rightarrow> builder \<Rightarrow> builder \<Rightarrow> bool" where
  "adds i Q b b' \<longleftrightarrow> set (bd_nodes b) \<subseteq> set (bd_nodes b') \<and> set (bd_edges b) \<subseteq> set (bd_edges b') \<and> (sound_graph i b \<longrightarrow> sound_graph i b')
     \<and> bd_trunc b \<subseteq> bd_trunc b' \<and> (\<exists>new. bd_paths b' = bd_paths b @ new \<and> (\<forall>p \<in> set new. route_ok i b' p \<and> Q p))"

definition chains_ok :: "explain_input \<Rightarrow> builder \<Rightarrow> bool" where
  "chains_ok i b \<longleftrightarrow> (\<forall>k cs. bd_chains b k = Some cs \<longrightarrow> cs \<noteq> []
     \<and> (\<forall>c \<in> set cs. mp_nodes c \<noteq> [] \<and> hd (mp_nodes c) = subj_key (xi_subject i) \<and> set (mp_edges c) \<subseteq> set (xi_subgraph i)))"

lemma route_ok_mono:
  "route_ok i b p \<Longrightarrow> set (bd_nodes b) \<subseteq> set (bd_nodes b') \<Longrightarrow> set (bd_edges b) \<subseteq> set (bd_edges b') \<Longrightarrow> route_ok i b' p"
  by (auto simp: route_ok_def known_nodes_def known_edges_def) blast+

lemma adds_trans:
  assumes "adds i Q a b" "adds i Q b c"
  shows "adds i Q a c"
proof -
  obtain m n where "bd_paths b = bd_paths a @ m" "\<forall>p \<in> set m. route_ok i b p \<and> Q p"
      "bd_paths c = bd_paths b @ n" "\<forall>p \<in> set n. route_ok i c p \<and> Q p"
    using assms unfolding adds_def by blast
  then have "bd_paths c = bd_paths a @ m @ n" "\<forall>p \<in> set (m @ n). route_ok i c p \<and> Q p"
    using assms(2) route_ok_mono unfolding adds_def by auto
  then show ?thesis using assms unfolding adds_def by blast
qed

lemma adds_mono: "adds i Q b b' \<Longrightarrow> (\<And>p. Q p \<Longrightarrow> R p) \<Longrightarrow> adds i R b b'"
  unfolding adds_def by blast

lemma extends_adds: "extends i b b' \<Longrightarrow> adds i Q b b'"
  by (auto simp: extends_def adds_def)

lemma adds_refl [simp]: "adds i Q b b" by (simp add: adds_def)

lemma adds_note [simp]: "adds i Q b (note_truncation r b)"
  by (auto simp: adds_def note_truncation_def sound_graph_def ids_distinct_def edge_fits_def points_at_entry_def known_nodes_def)

lemma sound_graph_cong:
  "bd_nodes b' = bd_nodes b \<Longrightarrow> bd_edges b' = bd_edges b \<Longrightarrow> sound_graph i b' \<longleftrightarrow> sound_graph i b"
  by (simp add: sound_graph_def ids_distinct_def edge_fits_def points_at_entry_def known_nodes_def)

lemma known_simps [simp]:
  "known_nodes (b\<lparr>bd_paths := ps\<rparr>) = known_nodes b" "known_edges (b\<lparr>bd_paths := ps\<rparr>) = known_edges b"
  "sound_graph i (b\<lparr>bd_paths := ps\<rparr>) = sound_graph i b" "points_at_entry (b\<lparr>bd_paths := ps\<rparr>) = points_at_entry b"
  "known_nodes (b\<lparr>bd_chains := cs\<rparr>) = known_nodes b" "known_edges (b\<lparr>bd_chains := cs\<rparr>) = known_edges b"
  "sound_graph i (b\<lparr>bd_chains := cs\<rparr>) = sound_graph i b"
  "route_ok i (b\<lparr>bd_paths := ps\<rparr>) = route_ok i b"
  by (simp_all add: known_nodes_def known_edges_def route_ok_def fun_eq_iff sound_graph_def ids_distinct_def edge_fits_def points_at_entry_def)

lemma append_path_spec:
  assumes "mp_nodes c \<noteq> []" "hd (mp_nodes c) = subj_key (xi_subject i)" "set (mp_edges c) \<subseteq> set (xi_subgraph i)"
    and "points_at_entry b ace_id" "oe \<in> known_edges b" "object_node_id i \<in> known_nodes b"
    and object: "joins (object_node_id i) oe ace_id (object_node_id i)"
  shows "\<exists>b1 p. append_path i nv a layer ace_id oe c b = b1\<lparr>bd_paths := bd_paths b @ [p]\<rparr> \<and> extends i b b1
    \<and> route_ok i b1 p \<and> explains_entry i layer nv a p"
proof -
  obtain ks where nodes: "mp_nodes c = subj_key (xi_subject i) # ks" using assms(1,2) by (cases "mp_nodes c") auto
  let ?pn = "principal_node (subj_key (xi_subject i)) (xi_subject i)"
  obtain st b1 where st: "add_node ?pn b = (st, b1)" by fastforce
  obtain ns es b2 where c: "climb (xi_token i) (xn_node_id st) ks (mp_edges c) b1 = (ns, es, b2)" by (metis prod_cases3)
  let ?te = "trustee_edge a (last (xn_node_id st # ns)) ace_id"
  obtain te b3 where te: "add_edge ?te b2 = (te, b3)" by fastforce
  obtain dl cn where cr: "path_crossing (xi_access i) (case nv (aa_position a) of None \<Rightarrow> 0 | Some v \<Rightarrow> v) layer = (dl, cn)" by fastforce
  have "hd (xn_node_id ?pn) \<in> set ''ns'' \<longrightarrow> is_entry_node ?pn" by (simp add: plain_node_ids)
  note n = add_node_spec [OF st this]
  have "xn_node_id st \<in> known_nodes b1" using n(3) by (simp add: known_nodes_def)
  note k = climb_spec [OF c assms(3) this]
  have e12: "extends i b1 b2" and e02: "extends i b b2" using n(1) k extends_trans by blast+
  have "set (xn_node_id st # ns) \<subseteq> known_nodes b2"
    using k \<open>xn_node_id st \<in> known_nodes b1\<close> extends_known [OF e12] by auto
  then have top: "last (xn_node_id st # ns) \<in> known_nodes b2" using last_in_set [of "xn_node_id st # ns"] by blast
  have ace: "ace_id \<in> known_nodes b2" using points_mono [OF assms(4) e02] by (auto simp: points_at_entry_def known_nodes_def)
  have "edge_fits i b2 ?te" using points_mono [OF assms(4) e02] top ace by (simp add: edge_fits_def trustee_edge_def edge_name_def del: last.simps)
  then have "sound_graph i b2 \<longrightarrow> edge_fits i b2 ?te" ..
  note t = add_edge_spec [OF te this]
  have ext: "extends i b b3" by (rule extends_trans [OF e02 t(1)])
  have e13: "extends i b1 b3" by (rule extends_trans [OF e12 t(1)])
  have paths: "bd_paths b3 = bd_paths b" using ext by (simp add: extends_def)
  let ?p = "\<lparr>cp_path_id = path_name (length (bd_paths b3)), cp_layer = layer,
              cp_relation = (if aa_is_allow a then PR_GRANT else PR_DENY),
              cp_effect = path_effect_of (case nv (aa_position a) of None \<Rightarrow> 0 | Some v \<Rightarrow> v) dl cn,
              cp_chain = subj_key (xi_subject i) # ks,
              cp_node_ids = (xn_node_id st # ns) @ [ace_id, object_node_id i],
              cp_edge_ids = es @ [xe_edge_id te, oe], cp_trustee_key = ae_trustee_key (aa_entry a),
              cp_ace_position = int (aa_position a), cp_ace_key = ae_ace_key (aa_entry a), cp_ace_rights = aa_considered a,
              cp_layer_rights = rmask (case nv (aa_position a) of None \<Rightarrow> 0 | Some v \<Rightarrow> v) layer, cp_effective_rights = dl,
              cp_constrained_rights = cn, cp_assumed = tok_is_assumed (aa_matched a), cp_via_group = aa_via_group a,
              cp_inherited = ae_is_inherited (aa_entry a)\<rparr>"
  have run: "append_path i nv a layer ace_id oe c b = b3\<lparr>bd_paths := bd_paths b @ [?p]\<rparr>"
    using paths te by (simp add: append_path_def nodes st c cr Let_def del: last.simps)
  have "xn_node_id st \<in> known_nodes b3" "ace_id \<in> known_nodes b3" "object_node_id i \<in> known_nodes b3" "set ns \<subseteq> known_nodes b3"
    using n(3) e13 ext assms(4,6) k extends_known [OF t(1)] extends_known [OF ext]
    by (auto simp: extends_def known_nodes_def points_at_entry_def)
  moreover have "xe_edge_id te \<in> known_edges b3" "oe \<in> known_edges b3" "set es \<subseteq> known_edges b3"
    using t(3) assms(5) k extends_known [OF t(1)] extends_known [OF ext] by (auto simp: known_edges_def)
  moreover have "joined (object_node_id i) ((xn_node_id st # ns) @ [ace_id, object_node_id i]) (es @ [xe_edge_id te, oe])"
  proof -
    have "xe_edge_id te = edge_name EDGE_TRUSTEE (last (xn_node_id st # ns)) ace_id"
      using t(2) by (simp add: trustee_edge_def edge_name_def del: last.simps)
    then have "joins (object_node_id i) (xe_edge_id te) (last (xn_node_id st # ns)) ace_id" by (auto simp: joins_def)
    then have "joined (object_node_id i) ((xn_node_id st # ns) @ [ace_id]) (es @ [xe_edge_id te])" using joined_snoc k by blast
    from joined_snoc [OF this, of oe "object_node_id i"] show ?thesis by (simp add: object)
  qed
  ultimately have "route_ok i b3 ?p" using n(2) by (auto simp: route_ok_def principal_node_def)
  moreover have "explains_entry i layer nv a ?p" by (simp add: explains_entry_def delivers_def cr)
  ultimately show ?thesis using ext run by blast
qed

definition good_chain :: "explain_input \<Rightarrow> membership_path \<Rightarrow> bool" where
  "good_chain i c \<longleftrightarrow> mp_nodes c \<noteq> [] \<and> hd (mp_nodes c) = subj_key (xi_subject i) \<and> set (mp_edges c) \<subseteq> set (xi_subgraph i)"

lemma append_chains_spec:
  assumes "\<forall>c \<in> set cs. good_chain i c" "points_at_entry b ace_id" "oe \<in> known_edges b" "object_node_id i \<in> known_nodes b"
    and object: "joins (object_node_id i) oe ace_id (object_node_id i)"
  shows "adds i (explains_entry i layer nv a) b (append_chains i nv a layer ace_id oe cs b)
    \<and> bd_chains (append_chains i nv a layer ace_id oe cs b) = bd_chains b
    \<and> (cs \<noteq> [] \<longrightarrow> PT_MAX_PATHS \<in> bd_trunc (append_chains i nv a layer ace_id oe cs b)
        \<or> (\<exists>p \<in> set (bd_paths (append_chains i nv a layer ace_id oe cs b)). explains_entry i layer nv a p))
    \<and> length (bd_paths (append_chains i nv a layer ace_id oe cs b)) \<le> max (length (bd_paths b)) (xl_max_paths (xi_limits i))"
  using assms
proof (induction cs arbitrary: b)
  case (Cons c cs)
  show ?case
  proof (cases "xl_max_paths (xi_limits i) \<le> length (bd_paths b)")
    case True
    then show ?thesis by (auto simp: note_truncation_def) (metis adds_note note_truncation_def)
  next
    case False
    obtain b1 p where p: "append_path i nv a layer ace_id oe c b = b1\<lparr>bd_paths := bd_paths b @ [p]\<rparr>" "extends i b b1"
      "route_ok i b1 p" "explains_entry i layer nv a p"
      using append_path_spec [of c i b ace_id oe nv a layer] Cons.prems by (auto simp: good_chain_def)
    let ?b = "b1\<lparr>bd_paths := bd_paths b @ [p]\<rparr>"
    have step: "adds i (explains_entry i layer nv a) b ?b" using p by (auto simp: adds_def extends_def)
    have "points_at_entry ?b ace_id" "oe \<in> known_edges ?b" "object_node_id i \<in> known_nodes ?b"
      using points_mono [OF Cons.prems(2) p(2)] extends_known [OF p(2)] Cons.prems by auto
    then have IH: "adds i (explains_entry i layer nv a) ?b (append_chains i nv a layer ace_id oe cs ?b)
        \<and> bd_chains (append_chains i nv a layer ace_id oe cs ?b) = bd_chains ?b
        \<and> length (bd_paths (append_chains i nv a layer ace_id oe cs ?b)) \<le> max (length (bd_paths ?b)) (xl_max_paths (xi_limits i))"
      using Cons.IH [of ?b] Cons.prems by simp
    have run: "append_chains i nv a layer ace_id oe (c # cs) b = append_chains i nv a layer ace_id oe cs ?b" using False p(1) by simp
    have "p \<in> set (bd_paths (append_chains i nv a layer ace_id oe cs ?b))" using IH by (auto simp: adds_def)
    moreover have "bd_chains ?b = bd_chains b" using p(2) by (simp add: extends_def)
    moreover have "length (bd_paths ?b) \<le> xl_max_paths (xi_limits i)" using False by simp
    ultimately show ?thesis unfolding run using IH adds_trans [OF step] p(4) by auto
  qed
qed simp

lemma simple_paths_heads:
  assumes "simple_paths es member target lim = Inr r" "p \<in> set (pe_paths r)"
  shows "mp_nodes p \<noteq> [] \<and> hd (mp_nodes p) = member \<and> set (mp_edges p) \<subseteq> set es"
proof -
  let ?w = "paths_loop (outgoing es) member target lim (paths_start member)"
  have "(pw_found ?w, pw_trunc ?w) = keep_events member (tl_max_paths lim)
      (path_events (outgoing es) member target (tl_max_depth lim) [] (outgoing es member)) [] {}"
    using paths_loop_events [of member "paths_start member"] by (simp add: paths_start_def frame_events_def)
  from keep_events_result [OF this [symmetric]] obtain k where
    found: "pw_found ?w = map (path_of member) (take k (found_paths (path_events (outgoing es) member target (tl_max_depth lim) [] (outgoing es member))))"
    by auto
  have inside: "\<forall>q \<in> set (found_paths (path_events (outgoing es) member target (tl_max_depth lim) [] (outgoing es member))). set q \<subseteq> set es"
    using path_events_sound [of _ es member target "tl_max_depth lim" "[]" "outgoing es member"]
    by (auto simp: set_found_paths walk_end_def simple_chain_def)
  have "\<exists>q. p = path_of member q \<and> set q \<subseteq> set es"
  proof (cases "member = target")
    case True
    then have "p = \<lparr>mp_nodes = [member], mp_edges = []\<rparr>" using assms by (auto simp: simple_paths_def split: if_splits)
    then show ?thesis by (intro exI [of _ "[]"]) (simp add: path_of_def)
  next
    case False
    then have "p \<in> set (pw_found ?w)" using assms by (auto simp: simple_paths_def Let_def split: if_splits)
    then show ?thesis using inside unfolding found by (auto dest!: in_set_takeD)
  qed
  then show ?thesis by (auto simp: path_of_def)
qed

lemma recorded_chain_head: "mp_nodes (recorded_chain s m) \<noteq> [] \<and> hd (mp_nodes (recorded_chain s m)) = s"
proof -
  have head: "dict_fromkeys xs \<noteq> [] \<and> hd (dict_fromkeys xs) = hd xs" if "xs \<noteq> []" for xs :: "string list"
    using that by (cases xs) auto
  let ?r = "if tok_path m \<noteq> [] then tok_path m else [s, tok_key m]"
  let ?h = "if hd ?r \<noteq> s then s # ?r else ?r"
  let ?c = "if last ?h \<noteq> tok_key m then ?h @ [tok_key m] else ?h"
  have "?c \<noteq> []" "hd ?c = s" by auto
  then show ?thesis using head [of ?c] by (simp add: recorded_chain_def Let_def)
qed

lemma enumerate_chains_spec:
  assumes "enumerate_chains i m b = Inr (cs, b')"
  shows "cs \<noteq> []" "\<forall>c \<in> set cs. good_chain i c" "adds i Q b b'" "bd_chains b' = bd_chains b" "bd_paths b' = bd_paths b"
    and "bd_nodes b' = bd_nodes b" "bd_edges b' = bd_edges b"
proof -
  have same: "bd_nodes b' = bd_nodes b \<and> bd_edges b' = bd_edges b \<and> bd_chains b' = bd_chains b \<and> bd_paths b' = bd_paths b
      \<and> bd_trunc b \<subseteq> bd_trunc b' \<and> cs \<noteq> []"
    using assms by (auto simp: enumerate_chains_def Let_def result_simps note_truncation_def split: if_splits)
  have rec: "good_chain i (recorded_chain (subj_key (xi_subject i)) m)"
    using recorded_chain_head [of "subj_key (xi_subject i)" m] by (simp add: good_chain_def recorded_chain_def Let_def)
  show "\<forall>c \<in> set cs. good_chain i c"
  proof -
    have "\<forall>c \<in> set (pe_paths r). good_chain i c" if "simple_paths (xi_subgraph i) (subj_key (xi_subject i)) (tok_key m) lim = Inr r" for r lim
      using simple_paths_heads [OF that] by (simp add: good_chain_def)
    moreover have "good_chain i \<lparr>mp_nodes = [subj_key (xi_subject i)], mp_edges = []\<rparr>"
      "good_chain i \<lparr>mp_nodes = [subj_key (xi_subject i), tok_key m], mp_edges = []\<rparr>" by (simp_all add: good_chain_def)
    ultimately show ?thesis using assms rec by (auto simp: enumerate_chains_def Let_def result_simps split: if_splits)
  qed
  show "adds i Q b b'" using same sound_graph_cong [of b' b i] by (simp add: adds_def)
  show "cs \<noteq> []" "bd_chains b' = bd_chains b" "bd_paths b' = bd_paths b" "bd_nodes b' = bd_nodes b" "bd_edges b' = bd_edges b"
    using same by blast+
qed

lemma chains_to_spec:
  assumes "chains_to i m b = Inr (cs, b')" "chains_ok i b"
  shows "cs \<noteq> []" "\<forall>c \<in> set cs. good_chain i c" "adds i Q b b'" "chains_ok i b'" "bd_paths b' = bd_paths b"
    and "bd_nodes b' = bd_nodes b" "bd_edges b' = bd_edges b"
proof -
  have "cs \<noteq> [] \<and> (\<forall>c \<in> set cs. good_chain i c) \<and> adds i Q b b' \<and> chains_ok i b' \<and> bd_paths b' = bd_paths b
    \<and> bd_nodes b' = bd_nodes b \<and> bd_edges b' = bd_edges b"
  proof (cases "bd_chains b (tok_key m)")
    case None
    obtain b1 where e: "enumerate_chains i m b = Inr (cs, b1)" and b': "b' = b1\<lparr>bd_chains := (bd_chains b1)(tok_key m \<mapsto> cs)\<rparr>"
      using assms(1) None by (auto simp: chains_to_def result_simps)
    note s = enumerate_chains_spec [OF e]
    have "adds i Q b1 b'" by (simp add: b' adds_def)
    with s(3) [of Q] have "adds i Q b b'" by (rule adds_trans)
    moreover have "chains_ok i b'" using s assms(2) by (auto simp: b' chains_ok_def good_chain_def)
    ultimately show ?thesis using s by (simp add: b')
  next
    case (Some cs0)
    then show ?thesis using assms by (auto simp: chains_to_def chains_ok_def good_chain_def)
  qed
  then show "cs \<noteq> []" "\<forall>c \<in> set cs. good_chain i c" "adds i Q b b'" "chains_ok i b'" "bd_paths b' = bd_paths b"
    and "bd_nodes b' = bd_nodes b" "bd_edges b' = bd_edges b" by blast+
qed

text \<open>What the steps have done: every entry is explained unless the path limit was hit.\<close>

definition covered :: "builder \<Rightarrow> (causal_path \<Rightarrow> bool) \<Rightarrow> bool" where
  "covered b Q \<longleftrightarrow> PT_MAX_PATHS \<in> bd_trunc b \<or> (\<exists>p \<in> set (bd_paths b). Q p)"

lemma covered_mono: "covered b Q \<Longrightarrow> adds i R b b' \<Longrightarrow> covered b' Q"
  by (auto simp: covered_def adds_def)

lemma paths_for_spec:
  assumes "paths_for i nv layer a b = Inr b'" "chains_ok i b" "object_node_id i \<in> known_nodes b" "sound_graph i b"
  shows "adds i (explains_entry i layer nv a) b b' \<and> chains_ok i b' \<and> covered b' (explains_entry i layer nv a)
    \<and> length (bd_paths b') \<le> max (length (bd_paths b)) (xl_max_paths (xi_limits i))"
proof -
  let ?Q = "explains_entry i layer nv a"
  obtain n b1 where n: "add_node (ace_node i a layer) b = (n, b1)" by fastforce
  obtain e b2 where e: "add_edge (object_edge i a (xn_node_id n)) b1 = (e, b2)" by fastforce
  obtain cs b3 where c: "chains_to i (aa_matched a) b2 = Inr (cs, b3)"
    and b': "b' = append_chains i nv a layer (xn_node_id n) (xe_edge_id e) cs b3"
    using assms(1) n e by (auto simp: paths_for_def Let_def result_simps)
  have "hd (xn_node_id (ace_node i a layer)) \<in> set ''ns'' \<longrightarrow> is_entry_node (ace_node i a layer)" by (simp add: plain_node_ids)
  note sn = add_node_spec [OF n this]
  have "xn_node_id n \<in> known_nodes b1" "object_node_id i \<in> known_nodes b1"
    using sn(3) assms(3) extends_known [OF sn(1)] by (auto simp: known_nodes_def)
  then have "sound_graph i b1 \<longrightarrow> edge_fits i b1 (object_edge i a (xn_node_id n))"
    by (simp add: edge_fits_def object_edge_def Let_def edge_name_def)
  note se = add_edge_spec [OF e this]
  have oe: "joins (object_node_id i) (xe_edge_id e) (xn_node_id n) (object_node_id i)"
    using se(2) by (auto simp: object_edge_def Let_def edge_name_def joins_def)
  have ext: "extends i b b2" by (rule extends_trans [OF sn(1) se(1)])
  have "sound_graph i b1" using sn(1) assms(4) by (simp add: extends_def)
  then have "is_entry_node n" using sn(2,3) plain_node_ids(4) [of i a layer] by (auto simp: sound_graph_def)
  then have "points_at_entry b2 (xn_node_id n)" using sn(3) se(4) by (auto simp: points_at_entry_def)
  moreover have "chains_ok i b2" using assms(2) ext by (simp add: chains_ok_def extends_def)
  note sc = chains_to_spec [OF c this]
  ultimately have "points_at_entry b3 (xn_node_id n)" by (simp add: points_at_entry_def sc(6))
  moreover have "xe_edge_id e \<in> known_edges b3" using se(3) by (simp add: known_edges_def sc(7))
  moreover have "object_node_id i \<in> known_nodes b3" using assms(3) extends_known [OF ext] by (auto simp: known_nodes_def sc(6))
  ultimately have run: "adds i ?Q b3 b'" "bd_chains b' = bd_chains b3" "covered b' ?Q"
    "length (bd_paths b') \<le> max (length (bd_paths b3)) (xl_max_paths (xi_limits i))"
    using append_chains_spec [OF sc(2), of b3 "xn_node_id n" "xe_edge_id e" layer nv a, OF _ _ _ oe] sc(1) by (simp_all add: b' covered_def)
  have "adds i ?Q b b'" by (rule adds_trans [OF extends_adds [OF ext] adds_trans [OF sc(3) run(1)]])
  moreover have "chains_ok i b'" using sc(4) run(2) by (simp add: chains_ok_def)
  moreover have "bd_paths b3 = bd_paths b" using sc(5) ext by (simp add: extends_def)
  ultimately show ?thesis using run(3,4) by simp
qed

lemma adds_keeps: "adds i Q b b' \<Longrightarrow> object_node_id i \<in> known_nodes b \<Longrightarrow> sound_graph i b \<Longrightarrow> object_node_id i \<in> known_nodes b' \<and> sound_graph i b'"
  by (auto simp: adds_def known_nodes_def)

lemma all_paths_for_spec:
  assumes "all_paths_for i nv layer as b = Inr b'" "chains_ok i b" "object_node_id i \<in> known_nodes b" "sound_graph i b"
  shows "adds i (\<lambda>p. \<exists>a \<in> set as. explains_entry i layer nv a p) b b' \<and> chains_ok i b'
    \<and> (\<forall>a \<in> set as. covered b' (explains_entry i layer nv a))
    \<and> length (bd_paths b') \<le> max (length (bd_paths b)) (xl_max_paths (xi_limits i))"
  using assms
proof (induction as arbitrary: b)
  case (Cons a as)
  obtain b1 where b1: "paths_for i nv layer a b = Inr b1" and rest: "all_paths_for i nv layer as b1 = Inr b'"
    using Cons.prems by (auto simp: result_simps)
  note one = paths_for_spec [OF b1 Cons.prems(2-4)]
  note keep = adds_keeps [OF conjunct1 [OF one] Cons.prems(3,4)]
  note IH = Cons.IH [OF rest conjunct1 [OF conjunct2 [OF one]] conjunct1 [OF keep] conjunct2 [OF keep]]
  let ?Q = "\<lambda>p. \<exists>x \<in> set (a # as). explains_entry i layer nv x p"
  have "adds i ?Q b b1" by (rule adds_mono [OF conjunct1 [OF one]]) simp
  moreover have "adds i ?Q b1 b'" by (rule adds_mono [OF conjunct1 [OF IH]]) auto
  ultimately have "adds i ?Q b b'" by (rule adds_trans)
  moreover have "covered b' (explains_entry i layer nv a)" using one IH covered_mono by blast
  ultimately show ?case using IH one by auto
qed simp

lemma ownership_path_spec:
  assumes "object_node_id i \<in> known_nodes b"
  shows "adds i (explains_ownership i layer ev) b (ownership_path i layer ev b)"
    and "bd_chains (ownership_path i layer ev b) = bd_chains b"
    and "ev_owner_rights ev = Some m \<Longrightarrow> mask_value (expand_generics m) \<noteq> 0
      \<Longrightarrow> \<exists>p \<in> set (bd_paths (ownership_path i layer ev b)). explains_ownership i layer ev p"
    and "length (bd_paths (ownership_path i layer ev b)) \<le> (if ev_owner_rights ev = None then length (bd_paths b) else Suc (length (bd_paths b)))"
proof -
  have "adds i (explains_ownership i layer ev) b (ownership_path i layer ev b) \<and> bd_chains (ownership_path i layer ev b) = bd_chains b
    \<and> (\<forall>m. ev_owner_rights ev = Some m \<longrightarrow> mask_value (expand_generics m) \<noteq> 0
        \<longrightarrow> (\<exists>p \<in> set (bd_paths (ownership_path i layer ev b)). explains_ownership i layer ev p))
    \<and> length (bd_paths (ownership_path i layer ev b)) \<le> (if ev_owner_rights ev = None then length (bd_paths b) else Suc (length (bd_paths b)))"
  proof (cases "\<exists>m. ev_owner_rights ev = Some m \<and> mask_value (expand_generics m) \<noteq> 0")
    case False
    then show ?thesis by (auto simp: ownership_path_def Let_def split: option.split)
  next
    case True
    then obtain m where m: "ev_owner_rights ev = Some m" "mask_value (expand_generics m) \<noteq> 0" by blast
    let ?s = "xi_subject i" and ?v = "mask_value (expand_generics m)"
    obtain pn b1 where n: "add_node (principal_node (subj_key ?s) ?s) b = (pn, b1)" by fastforce
    let ?e = "\<lparr>xe_edge_id = ''ownership:'' @ xn_node_id pn @ ''->'' @ object_node_id i,
                    xe_kind = EDGE_OWNERSHIP, xe_source = xn_node_id pn, xe_target = object_node_id i,
                    xe_membership_edge_key = None, xe_ace_key = None\<rparr>"
    obtain e b2 where e: "add_edge ?e b1 = (e, b2)" by fastforce
    obtain dl cn where cr: "path_crossing (xi_access i) ?v layer = (dl, cn)" by fastforce
    have "hd (xn_node_id (principal_node (subj_key ?s) ?s)) \<in> set ''ns'' \<longrightarrow> is_entry_node (principal_node (subj_key ?s) ?s)"
      by (simp add: plain_node_ids)
    note sn = add_node_spec [OF n this]
    have "xn_node_id pn \<in> known_nodes b1" "object_node_id i \<in> known_nodes b1"
      using sn(3) assms extends_known [OF sn(1)] by (auto simp: known_nodes_def)
    then have "sound_graph i b1 \<longrightarrow> edge_fits i b1 ?e" by (simp add: edge_fits_def edge_name_def)
    note se = add_edge_spec [OF e this]
    have ext: "extends i b b2" by (rule extends_trans [OF sn(1) se(1)])
    let ?p = "\<lparr>cp_path_id = path_name (length (bd_paths b2)), cp_layer = layer,
                   cp_relation = PR_GRANT, cp_effect = path_effect_of ?v dl cn,
                   cp_chain = [subj_key ?s], cp_node_ids = [xn_node_id pn, object_node_id i], cp_edge_ids = [xe_edge_id e],
                   cp_trustee_key = subj_key ?s, cp_ace_position = OWNERSHIP_POSITION, cp_ace_key = None,
                   cp_ace_rights = rmask ?v layer, cp_layer_rights = rmask ?v layer, cp_effective_rights = dl,
                   cp_constrained_rights = cn, cp_assumed = False, cp_via_group = False, cp_inherited = False\<rparr>"
    have run: "ownership_path i layer ev b = b2\<lparr>bd_paths := bd_paths b2 @ [?p]\<rparr>"
      using m e by (simp add: ownership_path_def Let_def n cr)
    have "xn_node_id pn \<in> known_nodes b2" "xe_edge_id e \<in> known_edges b2" "object_node_id i \<in> known_nodes b2"
      using sn(3) se(3,4) assms extends_known [OF ext] by (auto simp: known_nodes_def known_edges_def)
    moreover have "joins (object_node_id i) (xe_edge_id e) (xn_node_id pn) (object_node_id i)"
      using se(2) by (auto simp: edge_name_def joins_def intro!: exI [of _ EDGE_OWNERSHIP])
    ultimately have "route_ok i b2 ?p" using sn(2) by (auto simp: route_ok_def principal_node_def)
    moreover have "explains_ownership i layer ev ?p" using m by (simp add: explains_ownership_def delivers_def cr)
    ultimately show ?thesis using ext m unfolding run by (auto simp: adds_def extends_def)
  qed
  then show "adds i (explains_ownership i layer ev) b (ownership_path i layer ev b)"
    and "bd_chains (ownership_path i layer ev b) = bd_chains b"
    and "ev_owner_rights ev = Some m \<Longrightarrow> mask_value (expand_generics m) \<noteq> 0
      \<Longrightarrow> \<exists>p \<in> set (bd_paths (ownership_path i layer ev b)). explains_ownership i layer ev p"
    and "length (bd_paths (ownership_path i layer ev b)) \<le> (if ev_owner_rights ev = None then length (bd_paths b) else Suc (length (bd_paths b)))"
    by blast+
qed

text \<open>A path of one of the layers: the subject's ownership, or an entry that matched.\<close>

definition caused_in :: "explain_input \<Rightarrow> rights_layer \<Rightarrow> acl_evaluation \<Rightarrow> causal_path \<Rightarrow> bool" where
  "caused_in i layer ev p \<longleftrightarrow> explains_ownership i layer ev p
     \<or> (\<exists>a \<in> set (applied_entries ev). explains_entry i layer (novel_contributions ev) a p)"

definition layer_explained :: "explain_input \<Rightarrow> builder \<Rightarrow> rights_layer \<Rightarrow> acl_evaluation \<Rightarrow> bool" where
  "layer_explained i b layer ev \<longleftrightarrow> (\<forall>a \<in> set (applied_entries ev). covered b (explains_entry i layer (novel_contributions ev) a))
     \<and> (\<forall>m. ev_owner_rights ev = Some m \<longrightarrow> mask_value (expand_generics m) \<noteq> 0
         \<longrightarrow> (\<exists>p \<in> set (bd_paths b). explains_ownership i layer ev p))"

lemma layer_explained_mono: "layer_explained i b layer ev \<Longrightarrow> adds i R b b' \<Longrightarrow> layer_explained i b' layer ev"
  using covered_mono [of b _ i R b'] by (auto simp: layer_explained_def adds_def)

lemma build_layers_spec:
  assumes "build_layers i ls b = Inr b'" "chains_ok i b" "object_node_id i \<in> known_nodes b" "sound_graph i b"
  shows "adds i (\<lambda>p. \<exists>(layer, ev) \<in> set ls. caused_in i layer ev p) b b'
    \<and> (\<forall>(layer, ev) \<in> set ls. layer_explained i b' layer ev)"
  using assms
proof (induction ls arbitrary: b)
  case (Cons l ls)
  obtain layer ev where l: "l = (layer, ev)" by (cases l)
  let ?b0 = "ownership_path i layer ev b" and ?nv = "novel_contributions ev" and ?Q = "\<lambda>p. \<exists>(layer, ev) \<in> set (l # ls). caused_in i layer ev p"
  obtain b1 where b1: "all_paths_for i ?nv layer (applied_entries ev) ?b0 = Inr b1" and rest: "build_layers i ls b1 = Inr b'"
    using Cons.prems l by (auto simp: result_simps)
  note own = ownership_path_spec [where layer = layer and ev = ev, OF Cons.prems(3)]
  have ok0: "chains_ok i ?b0" using Cons.prems(2) own(2) by (simp add: chains_ok_def)
  note k0 = adds_keeps [OF own(1) Cons.prems(3,4)]
  note all = all_paths_for_spec [OF b1 ok0 conjunct1 [OF k0] conjunct2 [OF k0]]
  note k1 = adds_keeps [OF conjunct1 [OF all] conjunct1 [OF k0] conjunct2 [OF k0]]
  note IH = Cons.IH [OF rest conjunct1 [OF conjunct2 [OF all]] conjunct1 [OF k1] conjunct2 [OF k1]]
  have a0: "adds i ?Q b ?b0" by (rule adds_mono [OF own(1)]) (auto simp: l caused_in_def)
  have a1: "adds i ?Q ?b0 b1" by (rule adds_mono [OF conjunct1 [OF all]]) (auto simp: l caused_in_def)
  have a2: "adds i ?Q b1 b'" by (rule adds_mono [OF conjunct1 [OF IH]]) auto
  have "layer_explained i b1 layer ev"
    using all own(3) conjunct1 [OF all] by (force simp: layer_explained_def adds_def)
  from layer_explained_mono [OF this a2] have "layer_explained i b' layer ev" .
  then show ?case using adds_trans [OF a0 adds_trans [OF a1 a2]] IH by (auto simp: l)
qed simp

lemma build_layers_length:
  assumes "build_layers i ls b = Inr b'" "chains_ok i b" "object_node_id i \<in> known_nodes b" "sound_graph i b"
    and "\<forall>(layer, ev) \<in> set (tl ls). ev_owner_rights ev = None"
  shows "length (bd_paths b') \<le> max (Suc (length (bd_paths b))) (xl_max_paths (xi_limits i))"
proof -
  have unowned: "length (bd_paths b') \<le> max (length (bd_paths b)) (xl_max_paths (xi_limits i))"
    if "build_layers i ls b = Inr b'" "chains_ok i b" "object_node_id i \<in> known_nodes b" "sound_graph i b"
      "\<forall>(layer, ev) \<in> set ls. ev_owner_rights ev = None" for ls b
    using that
  proof (induction ls arbitrary: b)
    case (Cons l ls)
    obtain layer ev where l: "l = (layer, ev)" by (cases l)
    have own: "ownership_path i layer ev b = b" using Cons.prems(5) by (simp add: l ownership_path_def)
    obtain b1 where b1: "all_paths_for i (novel_contributions ev) layer (applied_entries ev) b = Inr b1"
      and rest: "build_layers i ls b1 = Inr b'"
      using Cons.prems l own by (auto simp: result_simps)
    note all = all_paths_for_spec [OF b1 Cons.prems(2-4)]
    note k = adds_keeps [OF conjunct1 [OF all] Cons.prems(3,4)]
    have "length (bd_paths b') \<le> max (length (bd_paths b1)) (xl_max_paths (xi_limits i))"
      using Cons.IH [OF rest _ _ _] all k Cons.prems(5) by simp
    moreover have "length (bd_paths b1) \<le> max (length (bd_paths b)) (xl_max_paths (xi_limits i))" using all by blast
    ultimately show ?case by linarith
  qed simp
  show ?thesis
  proof (cases ls)
    case Nil
    then show ?thesis using assms(1) by simp
  next
    case (Cons l rest)
    obtain layer ev where l: "l = (layer, ev)" by (cases l)
    let ?b0 = "ownership_path i layer ev b"
    obtain b1 where b1: "all_paths_for i (novel_contributions ev) layer (applied_entries ev) ?b0 = Inr b1"
      and rest: "build_layers i rest b1 = Inr b'"
      using assms(1) Cons l by (auto simp: result_simps)
    note own = ownership_path_spec [where layer = layer and ev = ev, OF assms(3)]
    have ok0: "chains_ok i ?b0" using assms(2) own(2) by (simp add: chains_ok_def)
    note k0 = adds_keeps [OF own(1) assms(3,4)]
    note all = all_paths_for_spec [OF b1 ok0 conjunct1 [OF k0] conjunct2 [OF k0]]
    note k1 = adds_keeps [OF conjunct1 [OF all] conjunct1 [OF k0] conjunct2 [OF k0]]
    have "length (bd_paths b') \<le> max (length (bd_paths b1)) (xl_max_paths (xi_limits i))"
      using unowned [OF rest conjunct1 [OF conjunct2 [OF all]] conjunct1 [OF k1] conjunct2 [OF k1]] assms(5) Cons by simp
    moreover have "length (bd_paths ?b0) \<le> Suc (length (bd_paths b))" using own(4) by (auto split: if_splits)
    moreover have "length (bd_paths b1) \<le> max (length (bd_paths ?b0)) (xl_max_paths (xi_limits i))" using all by blast
    ultimately show ?thesis by linarith
  qed
qed

text \<open>The whole of \<open>build\<close>: what the builder holds when the layers have been walked.\<close>

lemma build_explanation_spec:
  assumes "build_explanation i = Inr b"
  shows "sound_graph i b"
    and "p \<in> set (bd_paths b) \<Longrightarrow> route_ok i b p"
    and "p \<in> set (bd_paths b) \<Longrightarrow> \<exists>(layer, ev) \<in> set (explained_layers (xi_access i)). caused_in i layer ev p"
    and "(layer, ev) \<in> set (explained_layers (xi_access i)) \<Longrightarrow> layer_explained i b layer ev"
    and "\<forall>ev. ea_share (xi_access i) = Some ev \<longrightarrow> ev_owner_rights ev = None
      \<Longrightarrow> length (bd_paths b) \<le> max 1 (xl_max_paths (xi_limits i))"
proof -
  let ?b0 = "if st_membership_complete (xi_token i) then empty_builder else note_truncation PT_MEMBERSHIP_INCOMPLETE empty_builder"
  let ?pn = "principal_node (subj_key (xi_subject i)) (xi_subject i)"
  obtain o1 b1 where o1: "add_node (object_node i) ?b0 = (o1, b1)" by fastforce
  obtain p1 b2 where p1: "add_node ?pn b1 = (p1, b2)" by fastforce
  obtain b3 where b3: "build_layers i (explained_layers (xi_access i)) b2 = Inr b3"
    and b: "b = b3\<lparr>bd_paths := sort_key path_order (bd_paths b3)\<rparr>"
    using assms o1 p1 by (auto simp: build_explanation_def Let_def result_simps)
  have "hd (xn_node_id (object_node i)) \<in> set ''ns'' \<longrightarrow> is_entry_node (object_node i)" by (simp add: plain_node_ids)
  note s1 = add_node_spec [OF o1 this]
  have "hd (xn_node_id ?pn) \<in> set ''ns'' \<longrightarrow> is_entry_node ?pn" by (simp add: plain_node_ids)
  note s2 = add_node_spec [OF p1 this]
  have start: "bd_paths ?b0 = []" "bd_chains ?b0 = Map.empty" "sound_graph i ?b0"
    by (simp_all add: empty_builder_def note_truncation_def sound_graph_def ids_distinct_def)
  have ext: "extends i ?b0 b2" by (rule extends_trans [OF s1(1) s2(1)])
  have sound2: "sound_graph i b2" and paths2: "bd_paths b2 = []" and chains2: "chains_ok i b2"
    using ext start by (simp_all add: extends_def chains_ok_def)
  have "object_node_id i \<in> known_nodes b1" using s1(2,3) image_eqI [of _ xn_node_id o1] by (simp add: known_nodes_def object_node_def)
  then have known2: "object_node_id i \<in> known_nodes b2" using extends_known [OF s2(1)] by blast
  note spec = build_layers_spec [OF b3 chains2 known2 sound2]
  have new: "\<forall>q \<in> set (bd_paths b3). route_ok i b3 q \<and> (\<exists>(layer, ev) \<in> set (explained_layers (xi_access i)). caused_in i layer ev q)"
    using conjunct1 [OF spec] paths2 by (auto simp: adds_def)
  show "sound_graph i b" using conjunct1 [OF spec] sound2 by (simp add: b adds_def)
  show "route_ok i b p" if "p \<in> set (bd_paths b)" using that new by (simp add: b)
  show "\<exists>(layer, ev) \<in> set (explained_layers (xi_access i)). caused_in i layer ev p" if "p \<in> set (bd_paths b)"
    using that new by (simp add: b)
  show "layer_explained i b layer ev" if "(layer, ev) \<in> set (explained_layers (xi_access i))"
    using that conjunct2 [OF spec] by (auto simp: b layer_explained_def covered_def)
  show "length (bd_paths b) \<le> max 1 (xl_max_paths (xi_limits i))"
    if "\<forall>ev. ea_share (xi_access i) = Some ev \<longrightarrow> ev_owner_rights ev = None"
    using build_layers_length [OF b3 chains2 known2 sound2] that paths2
    by (auto simp: b explained_layers_def split: option.splits)
qed

end
