(* ===== verification/Adg_Explanation.thy ===== *)
theory Adg_Explanation
  imports Adg_Causality Adg_Access_Service
begin

unbundle bit_operations_syntax

section \<open>What an explanation is worth\<close>

text \<open>
  The properties of \<open>explain_access\<close>: the paths account for the rights bit by bit, the effect a
  path carries says what removing its entry would do, over a complete membership every removal is the
  answer of the same ACLs without the edge, and every path is a route over the graph.
\<close>

subsection \<open>The layers of an answer\<close>

lemma decided_first:
  "decided (rulings_for token owner es) n t \<longleftrightarrow> (\<exists>p. first_to_name token owner es p n \<and> ae_ace_type (es ! p) = t)"
proof (induction es)
  case Nil
  then show ?case by (simp add: rulings_for_def first_to_name_def)
next
  case (Cons e es)
  let ?here = "applicable token owner e \<and> bit (entry_bits e) n"
  have zero: "first_to_name token owner (e # es) 0 n \<longleftrightarrow> ?here" by (simp add: first_to_name_def)
  have suc: "first_to_name token owner (e # es) (Suc p) n \<longleftrightarrow> \<not> ?here \<and> first_to_name token owner es p n" for p
    by (auto simp: first_to_name_def less_Suc_eq_0_disj)
  have cases: "(\<exists>p. Q p) \<longleftrightarrow> Q 0 \<or> (\<exists>p. Q (Suc p))" for Q :: "nat \<Rightarrow> bool" by (metis not0_implies_Suc)
  have "decided (rulings_for token owner (e # es)) n t
      \<longleftrightarrow> ?here \<and> ae_ace_type e = t \<or> \<not> ?here \<and> decided (rulings_for token owner es) n t"
    by (auto simp: rulings_for_def)
  then show ?case unfolding cases [of "\<lambda>p. first_to_name token owner (e # es) p n \<and> _ p"] zero suc Cons.IH by auto
qed

lemma resolved_layer:
  assumes "resolve_access token resource share fs = Inr a" "(layer, ev) \<in> set (explained_layers a)"
  obtains es facts where "evaluate_acl es token layer facts = Inr ev" "layer = NTFS \<Longrightarrow> facts = rd_facts resource \<and> es = rd_entries resource"
    "layer \<noteq> NTFS \<Longrightarrow> facts = UNOWNED_PRESENT_DACL \<and> (\<exists>s. share = Some s \<and> es = sh_entries s \<and> sh_observed s)"
proof (rule resolve_access_parts [OF assms(1)])
  fix added
  assume ntfs: "evaluate_acl (rd_entries resource) token NTFS (rd_facts resource) = Inr (ea_ntfs a)"
    and cross: "cross_share token (ea_ntfs a) share = Inr (ea_share a, ea_crossed a, ea_rights a, ea_limiting_layer a, added)"
    and path: "st_access_path token = REMOTE_SMB \<longleftrightarrow> share \<noteq> None"
  consider "layer = NTFS" "ev = ea_ntfs a" | "layer = SMB_SHARE" "ea_share a = Some ev"
    using assms(2) by (auto simp: explained_layers_def split: option.splits)
  then show thesis
  proof cases
    case 1
    then show ?thesis using ntfs by (intro that [of "rd_entries resource" "rd_facts resource"]) auto
  next
    case 2
    have "\<exists>s. share = Some s \<and> sh_observed s \<and> evaluate_acl (sh_entries s) token SMB_SHARE UNOWNED_PRESENT_DACL = Inr ev"
      using cross 2 by (auto simp: cross_share_def result_simps Let_def split: option.splits if_splits)
    then show ?thesis using 2 that [of _ UNOWNED_PRESENT_DACL] by auto
  qed
qed

lemma resolved_rights:
  assumes "resolve_access token resource share fs = Inr a"
  shows "bit (mask_value (ea_rights a)) n \<longleftrightarrow> (\<forall>(layer, ev) \<in> set (explained_layers a). bit (mask_value (ev_rights ev)) n)"
    and "mask_layer (ea_rights a) = EFFECTIVE"
proof -
  obtain added where ntfs: "evaluate_acl (rd_entries resource) token NTFS (rd_facts resource) = Inr (ea_ntfs a)"
    and cross: "cross_share token (ea_ntfs a) share = Inr (ea_share a, ea_crossed a, ea_rights a, ea_limiting_layer a, added)"
    and path: "st_access_path token = REMOTE_SMB \<longleftrightarrow> share \<noteq> None"
    using assms by (rule resolve_access_parts)
  show "bit (mask_value (ea_rights a)) n \<longleftrightarrow> (\<forall>(layer, ev) \<in> set (explained_layers a). bit (mask_value (ev_rights ev)) n)"
  proof (cases share)
    case None
    then have "ea_rights a = rmask (mask_value (ev_rights (ea_ntfs a))) EFFECTIVE" "ea_share a = None"
      using cross cross_share_none [OF ntfs] path by (auto simp: path_cases)
    then show ?thesis by (simp add: explained_layers_def)
  next
    case (Some s)
    show ?thesis
    proof (cases "sh_observed s")
      case True
      obtain sv where sv: "evaluate_acl (sh_entries s) token SMB_SHARE UNOWNED_PRESENT_DACL = Inr sv"
        using cross Some True by (auto simp: cross_share_def result_simps Let_def split: if_splits)
      have "ea_rights a = rmask (mask_value (ev_rights sv) AND mask_value (ev_rights (ea_ntfs a))) EFFECTIVE" "ea_share a = Some sv"
        using cross cross_share_read [OF ntfs _ True sv] path Some by (auto simp: Let_def)
      then show ?thesis by (auto simp: explained_layers_def bit_and_iff)
    next
      case False
      have "ea_rights a = rmask (mask_value (ev_rights (ea_ntfs a))) EFFECTIVE" "ea_share a = None"
        using cross cross_share_unread [OF ntfs False] Some by auto
      then show ?thesis by (simp add: explained_layers_def)
    qed
  qed
  show "mask_layer (ea_rights a) = EFFECTIVE" by (rule cross_share_rights(1) [OF ntfs path cross])
qed

subsection \<open>What a layer grants, path by path\<close>

lemma owner_path_bits:
  assumes "evaluate_acl supplied token layer facts = Inr ev" "df_dacl_present facts" "ev_owner_rights ev = Some m"
  shows "bit (mask_value (expand_generics m)) n \<longleftrightarrow> bit (owner_bits token facts (take MAX_ACL_ENTRIES supplied)) n"
    and "owner_implicit token facts (take MAX_ACL_ENTRIES supplied)"
proof -
  have m: "owner_implicit token facts (take MAX_ACL_ENTRIES supplied)" "m = OWNER_IMPLICIT_RIGHTS"
    using evaluate_acl_present(6) [OF assms(1,2)] assms(3) by (auto split: if_splits)
  then show "owner_implicit token facts (take MAX_ACL_ENTRIES supplied)" by blast
  show "bit (mask_value (expand_generics m)) n \<longleftrightarrow> bit (owner_bits token facts (take MAX_ACL_ENTRIES supplied)) n"
    using owner_bits_concrete [of token facts "take MAX_ACL_ENTRIES supplied"] m
    by (simp add: owner_bits_def mask_value_expand OWNER_IMPLICIT_RIGHTS_def)
qed

lemma grant_path_granted:
  assumes "evaluate_acl supplied token layer facts = Inr ev" "df_dacl_present facts" "caused_in i layer ev p"
    and "cp_is_grant p" "bit (mask_value (cp_layer_rights p)) n"
  shows "layer_grants token facts supplied n"
  using assms(3) unfolding caused_in_def
proof
  assume "explains_ownership i layer ev p"
  then obtain m where m: "ev_owner_rights ev = Some m" "bit (mask_value (expand_generics m)) n"
    using assms(5) by (auto simp: explains_ownership_def delivers_def)
  then show ?thesis using owner_path_bits [OF assms(1,2) m(1)] assms(2) by (simp add: layer_grants_def owner_bits_def)
next
  assume "\<exists>a \<in> set (applied_entries ev). explains_entry i layer (novel_contributions ev) a p"
  then obtain a where a: "a \<in> set (applied_entries ev)" "explains_entry i layer (novel_contributions ev) a p" by blast
  note at = evaluation_replayed(3) [OF assms(1,2) a(1)]
  obtain v where v: "novel_contributions ev (aa_position a) = Some v" using at by blast
  have "bit v n" "aa_is_allow a" using a(2) v assms(4,5)
    by (auto simp: explains_entry_def delivers_def cp_is_grant_def split: if_splits)
  then have "first_to_name token (owner_token_sid_of token facts) (take MAX_ACL_ENTRIES supplied) (aa_position a) n"
    and "ae_ace_type (take MAX_ACL_ENTRIES supplied ! aa_position a) = ALLOW"
    using evaluation_replayed(2) [OF assms(1,2) v, of n] at by (auto simp: aa_is_allow_def ae_is_allow_def)
  then show ?thesis using assms(2) by (auto simp: layer_grants_def decided_first)
qed

lemma granted_has_path:
  assumes "evaluate_acl supplied token layer facts = Inr ev" "df_dacl_present facts"
    and "layer_explained i b layer ev" "PT_MAX_PATHS \<notin> bd_trunc b" "layer_grants token facts supplied n"
  shows "\<exists>p \<in> set (bd_paths b). caused_in i layer ev p \<and> cp_is_grant p \<and> bit (mask_value (cp_layer_rights p)) n"
proof (cases "bit (owner_bits token facts (take MAX_ACL_ENTRIES supplied)) n")
  case True
  then have "owner_implicit token facts (take MAX_ACL_ENTRIES supplied)" by (auto simp: owner_bits_def split: if_splits)
  then obtain m where m: "ev_owner_rights ev = Some m" using evaluate_acl_present(6) [OF assms(1,2)] by simp
  have bit: "bit (mask_value (expand_generics m)) n" using owner_path_bits(1) [OF assms(1,2) m] True by simp
  then have "mask_value (expand_generics m) \<noteq> 0" by auto
  then obtain p where "p \<in> set (bd_paths b)" "explains_ownership i layer ev p" using assms(3) m by (auto simp: layer_explained_def)
  then show ?thesis using bit m by (intro bexI [of _ p]) (auto simp: caused_in_def explains_ownership_def delivers_def cp_is_grant_def)
next
  case False
  let ?es = "take MAX_ACL_ENTRIES supplied" and ?owner = "owner_token_sid_of token facts"
  have "decided (rulings_for token ?owner ?es) n ALLOW" using assms(2,5) False by (auto simp: layer_grants_def owner_bits_def)
  then obtain q where q: "first_to_name token ?owner ?es q n" "ae_ace_type (?es ! q) = ALLOW" by (auto simp: decided_first)
  then have "novel_contributions ev q \<noteq> None" using evaluation_replayed(1) [OF assms(1,2)] by (auto simp: first_to_name_def)
  then obtain v a where v: "novel_contributions ev q = Some v" and a: "a \<in> set (applied_entries ev)" "aa_position a = q"
    using evaluation_replayed(4) [OF assms(1,2)] by blast
  have "bit v n" using evaluation_replayed(2) [OF assms(1,2) v, of n] q False by simp
  moreover have "aa_is_allow a" using evaluation_replayed(3) [OF assms(1,2) a(1)] a(2) q(2) by (simp add: aa_is_allow_def ae_is_allow_def)
  moreover obtain p where "p \<in> set (bd_paths b)" "explains_entry i layer (novel_contributions ev) a p"
    using assms(3,4) a(1) by (auto simp: layer_explained_def covered_def)
  moreover from this have "caused_in i layer ev p" using a(1) by (auto simp: caused_in_def)
  ultimately show ?thesis using a v by (intro bexI [of _ p]) (simp_all add: explains_entry_def delivers_def cp_is_grant_def)
qed


text \<open>What crosses: the bits of a path that the other layer also grants.\<close>

lemma delivered_bits:
  assumes "delivers i layer novel p"
  shows "bit (mask_value (cp_effective_rights p)) n \<longleftrightarrow> bit (mask_value (cp_layer_rights p)) n
      \<and> (\<forall>other. other_layer (xi_access i) layer = Some other \<longrightarrow> bit other n)"
    and "bit (mask_value (cp_effective_rights p)) n \<Longrightarrow> cp_matters p"
proof -
  show bits: "bit (mask_value (cp_effective_rights p)) n \<longleftrightarrow> bit (mask_value (cp_layer_rights p)) n
      \<and> (\<forall>other. other_layer (xi_access i) layer = Some other \<longrightarrow> bit other n)"
    using assms by (cases "other_layer (xi_access i) layer") (auto simp: delivers_def path_crossing_def bit_and_iff)
  assume b: "bit (mask_value (cp_effective_rights p)) n"
  then have "mask_value (cp_layer_rights p) \<noteq> 0" "\<not> mask_is_empty (cp_effective_rights p)"
    using bits by (auto simp: mask_is_empty_def)
  then show "cp_matters p" using assms by (auto simp: delivers_def path_effect_of_def cp_matters_def)
qed

lemma caused_delivers: "caused_in i layer ev p \<Longrightarrow> \<exists>novel. delivers i layer novel p"
  by (auto simp: caused_in_def explains_ownership_def explains_entry_def)

lemma explain_access_parts:
  assumes "explain_access a resource share edges limits = Inr x"
  obtains i b b' where "i = \<lparr>xi_access = a, xi_resource = resource, xi_share = share, xi_limits = limits, xi_subgraph = edges\<rparr>"
    "build_explanation i = Inr b" "removal_targets i b = Inr (xp_removal_targets x, b')" "xp_paths x = bd_paths b"
    "xp_truncation x = sorted_truncation (bd_trunc b')" "xp_graph x = builder_graph b" "bd_trunc b \<subseteq> bd_trunc b'"
    "rd_resource_key resource = ea_resource_key a" "map_option sh_share_key share = ea_share_key a"
proof -
  let ?i = "\<lparr>xi_access = a, xi_resource = resource, xi_share = share, xi_limits = limits, xi_subgraph = edges\<rparr>"
  obtain b ts b' where b: "build_explanation ?i = Inr b" and r: "removal_targets ?i b = Inr (ts, b')"
    and x: "xp_removal_targets x = ts" "xp_paths x = bd_paths b" "xp_truncation x = sorted_truncation (bd_trunc b')" "xp_graph x = builder_graph b"
    and ok: "rd_resource_key resource = ea_resource_key a" "map_option sh_share_key share = ea_share_key a"
    using assms by (auto simp: explain_access_def check_inputs_def result_simps Let_def split: if_splits)
  have "bd_trunc b \<subseteq> bd_trunc b'" using r by (auto simp: removal_targets_def result_simps note_truncation_def split: if_splits)
  then show thesis using that [OF refl b] r x ok by simp
qed

lemma in_sorted_truncation [simp]: "r \<in> set (sorted_truncation rs) \<longleftrightarrow> r \<in> rs"
  by (cases r) (auto simp: sorted_truncation_def)

lemma other_layer_bits:
  assumes "resolve_access token resource share fs = Inr a" "(layer, ev) \<in> set (explained_layers a)"
  shows "bit (mask_value (ea_rights a)) n \<longleftrightarrow> bit (mask_value (ev_rights ev)) n
    \<and> (\<forall>other. other_layer a layer = Some other \<longrightarrow> bit other n)"
proof -
  have plain: "expand_value (mask_value (ev_rights e)) = mask_value (ev_rights e)" if "(l, e) \<in> set (explained_layers a)" for l e
    using resolved_layer [OF assms(1) that] evaluation_expanded by metis
  show ?thesis
  proof (cases "ea_share a")
    case None
    then show ?thesis using assms(2) by (simp add: resolved_rights(1) [OF assms(1)] explained_layers_def other_layer_def)
  next
    case (Some s)
    then have "expand_value (mask_value (ev_rights s)) = mask_value (ev_rights s)"
      "expand_value (mask_value (ev_rights (ea_ntfs a))) = mask_value (ev_rights (ea_ntfs a))"
      using plain by (auto simp: explained_layers_def)
    then show ?thesis using assms(2) Some
      by (auto simp: resolved_rights(1) [OF assms(1)] explained_layers_def other_layer_def mask_value_expand)
  qed
qed

lemma layers_distinct: "(layer, ev) \<in> set (explained_layers a) \<Longrightarrow> (layer, ev') \<in> set (explained_layers a) \<Longrightarrow> ev = ev'"
  by (cases "ea_share a") (auto simp: explained_layers_def)

text \<open>
  C6. Nothing is uncaused. Where the descriptor has a list and the path limit was not hit, a right is
  in the answer exactly when, in each layer the answer read, a grant path that contributes delivers
  it: no right without a path to it, and no path that claims a right the answer lacks.
\<close>

theorem nothing_is_uncaused:
  assumes "resolve_access token resource share fs = Inr a"
    and "explain_access a resource share edges limits = Inr x"
    and "df_dacl_present (rd_facts resource)" "PT_MAX_PATHS \<notin> set (xp_truncation x)"
    and "(layer, ev) \<in> set (explained_layers a)"
  shows "bit (mask_value (ea_rights a)) n \<longleftrightarrow>
    (\<exists>p \<in> set (xp_paths x). cp_layer p = layer \<and> cp_is_grant p \<and> cp_matters p \<and> bit (mask_value (cp_effective_rights p)) n)"
proof (rule explain_access_parts [OF assms(2)], rule resolved_layer [OF assms(1,5)])
  fix i b b' es facts
  assume i: "i = \<lparr>xi_access = a, xi_resource = resource, xi_share = share, xi_limits = limits, xi_subgraph = edges\<rparr>"
    and b: "build_explanation i = Inr b" "xp_paths x = bd_paths b" "xp_truncation x = sorted_truncation (bd_trunc b')" "bd_trunc b \<subseteq> bd_trunc b'"
    and ev: "evaluate_acl es token layer facts = Inr ev" "layer = NTFS \<Longrightarrow> facts = rd_facts resource \<and> es = rd_entries resource"
      "layer \<noteq> NTFS \<Longrightarrow> facts = UNOWNED_PRESENT_DACL \<and> (\<exists>s. share = Some s \<and> es = sh_entries s \<and> sh_observed s)"
  have present: "df_dacl_present facts" using ev(2,3) assms(3) by (cases "layer = NTFS") auto
  have cut: "PT_MAX_PATHS \<notin> bd_trunc b" using assms(4) b(3,4) by auto
  have a: "xi_access i = a" by (simp add: i)
  note spec = build_explanation_spec [OF b(1), unfolded a]
  have caused: "caused_in i layer ev p" if "p \<in> set (xp_paths x)" "cp_layer p = layer" for p
    using spec(3) [of p] that layers_distinct [OF assms(5)] caused_delivers by (fastforce simp: b(2) delivers_def)
  have cross: "bit (mask_value (cp_effective_rights p)) n \<longleftrightarrow> bit (mask_value (cp_layer_rights p)) n
      \<and> (\<forall>other. other_layer a layer = Some other \<longrightarrow> bit other n)" if "caused_in i layer ev p" for p
    using caused_delivers [OF that] delivered_bits(1) by (metis a)
  note granted = evaluation_grants(2) [OF ev(1), of n] and whole = other_layer_bits [OF assms(1,5), of n]
  show "bit (mask_value (ea_rights a)) n \<longleftrightarrow>
    (\<exists>p \<in> set (xp_paths x). cp_layer p = layer \<and> cp_is_grant p \<and> cp_matters p \<and> bit (mask_value (cp_effective_rights p)) n)"
  proof
    assume r: "bit (mask_value (ea_rights a)) n"
    then obtain p where p: "p \<in> set (bd_paths b)" "caused_in i layer ev p" "cp_is_grant p" "bit (mask_value (cp_layer_rights p)) n"
      using granted_has_path [OF ev(1) present spec(4) [OF assms(5)] cut] granted whole by blast
    then have "bit (mask_value (cp_effective_rights p)) n" using cross whole r by blast
    moreover from this have "cp_matters p" "cp_layer p = layer"
      using caused_delivers [OF p(2)] delivered_bits(2) by (auto simp: delivers_def)
    ultimately show "\<exists>p \<in> set (xp_paths x). cp_layer p = layer \<and> cp_is_grant p \<and> cp_matters p \<and> bit (mask_value (cp_effective_rights p)) n"
      using p b(2) by auto
  next
    assume "\<exists>p \<in> set (xp_paths x). cp_layer p = layer \<and> cp_is_grant p \<and> cp_matters p \<and> bit (mask_value (cp_effective_rights p)) n"
    then obtain p where p: "p \<in> set (xp_paths x)" "cp_layer p = layer" "cp_is_grant p" "bit (mask_value (cp_effective_rights p)) n" by blast
    have c: "caused_in i layer ev p" by (rule caused [OF p(1,2)])
    then have "layer_grants token facts es n" using grant_path_granted [OF ev(1) present c p(3)] cross p(4) by blast
    then show "bit (mask_value (ea_rights a)) n" using granted whole cross [OF c] p(4) by blast
  qed
qed


subsection \<open>Taking an entry away\<close>

definition drop_entry :: "nat \<Rightarrow> acl_entry list \<Rightarrow> acl_entry list" where
  "drop_entry q es = nths es (- {q})"

lemma drop_entry_eq: "drop_entry q es = take q es @ drop (Suc q) es"
proof (induction es arbitrary: q)
  case (Cons e es)
  have "{j. Suc j \<in> - {q}} = (case q of 0 \<Rightarrow> UNIV | Suc k \<Rightarrow> - {k})" by (auto split: nat.split)
  then show ?case using Cons by (cases q) (simp_all add: drop_entry_def nths_Cons nths_all)
qed (simp add: drop_entry_def)

text \<open>Only what the entry was the first to name can change.\<close>

lemma decided_drop_entry:
  assumes "q < length es" "\<not> first_to_name token owner es q n"
  shows "decided (rulings_for token owner (drop_entry q es)) n t \<longleftrightarrow> decided (rulings_for token owner es) n t"
proof -
  let ?xs = "take q es" and ?ys = "drop (Suc q) es" and ?e = "es ! q"
  have es: "es = ?xs @ ?e # ?ys" using id_take_nth_drop [OF assms(1)] .
  have append: "rulings_for token owner (as @ bs) = rulings_for token owner as @ rulings_for token owner bs" for as bs
    by (simp add: rulings_for_def)
  have cons: "rulings_for token owner (?e # ?ys) = (if applicable token owner ?e then [(ae_ace_type ?e, entry_bits ?e)] else []) @ rulings_for token owner ?ys"
    by (simp add: rulings_for_def)
  have earlier: "(\<forall>r \<in> set (rulings_for token owner ?xs). \<not> bit (snd r) n) \<longleftrightarrow> (\<forall>k < q. applicable token owner (es ! k) \<longrightarrow> \<not> bit (entry_bits (es ! k)) n)"
    using assms(1) by (auto simp: rulings_for_def in_set_conv_nth)
  have "decided (rulings_for token owner es) n t \<longleftrightarrow> decided (rulings_for token owner ?xs @ rulings_for token owner (?e # ?ys)) n t"
    by (subst es) (simp only: append)
  also have "\<dots> \<longleftrightarrow> decided (rulings_for token owner ?xs @ rulings_for token owner ?ys) n t"
    using assms unfolding decided_append cons earlier by (auto simp: first_to_name_def)
  finally show ?thesis by (simp add: drop_entry_eq append)
qed

lemma owner_implicit_drop_entry:
  assumes "q < length es" "df_owner_sid facts = None \<or> \<not> ae_names_owner_rights (es ! q)"
  shows "owner_implicit token facts (drop_entry q es) \<longleftrightarrow> owner_implicit token facts es"
proof -
  have "set es = set (take q es @ es ! q # drop (Suc q) es)" using id_take_nth_drop [OF assms(1)] by simp
  then have "set es = insert (es ! q) (set (drop_entry q es))" by (simp add: drop_entry_eq)
  then show ?thesis using assms(2) by (auto simp: owner_implicit_def)
qed

lemma layer_grants_drop_entry:
  assumes ev: "evaluate_acl es token layer facts = Inr ev" and a: "a \<in> set (applied_entries ev)"
    and len: "length es \<le> MAX_ACL_ENTRIES" and plain: "df_owner_sid facts = None \<or> \<not> ae_names_owner_rights (es ! aa_position a)"
    and change: "layer_grants token facts (drop_entry (aa_position a) es) n \<noteq> layer_grants token facts es n"
  shows "\<exists>v. novel_contributions ev (aa_position a) = Some v \<and> bit v n"
proof -
  let ?q = "aa_position a" and ?owner = "owner_token_sid_of token facts"
  have present: "df_dacl_present facts" using evaluation_null_applied(1) [OF ev] a by fastforce
  have whole: "take MAX_ACL_ENTRIES es = es" "take MAX_ACL_ENTRIES (drop_entry ?q es) = drop_entry ?q es"
    using len by (simp, intro take_all) (simp add: drop_entry_eq)
  note at = evaluation_replayed(3) [OF ev present a, unfolded whole]
  obtain v where v: "novel_contributions ev ?q = Some v" using at by blast
  have owner: "owner_implicit token facts (drop_entry ?q es) \<longleftrightarrow> owner_implicit token facts es"
    by (rule owner_implicit_drop_entry) (use at plain in auto)
  have first: "first_to_name token ?owner es ?q n"
    using change present owner decided_drop_entry [of ?q es token ?owner n ALLOW] at by (auto simp: layer_grants_def whole)
  moreover have "ae_is_allow (es ! ?q) \<longrightarrow> \<not> bit (owner_bits token facts es) n"
    using change present owner by (auto simp: layer_grants_def whole owner_bits_def)
  ultimately have "bit v n" using evaluation_replayed(2) [OF ev present v, of n] by (simp add: whole)
  then show ?thesis using v by blast
qed

text \<open>The directory and the share without the entry an edge removal excludes.\<close>

definition entries_without :: "(rights_layer \<times> nat) option \<Rightarrow> rights_layer \<Rightarrow> acl_entry list \<Rightarrow> acl_entry list" where
  "entries_without excluded layer es = (case excluded of None \<Rightarrow> es | Some (l, q) \<Rightarrow> if l = layer then drop_entry q es else es)"

definition resource_without :: "(rights_layer \<times> nat) option \<Rightarrow> resource_dacl \<Rightarrow> resource_dacl" where
  "resource_without excluded r = r\<lparr>rd_entries := entries_without excluded NTFS (rd_entries r)\<rparr>"

definition share_without :: "(rights_layer \<times> nat) option \<Rightarrow> share_dacl option \<Rightarrow> share_dacl option" where
  "share_without excluded = map_option (\<lambda>s. s\<lparr>sh_entries := entries_without excluded SMB_SHARE (sh_entries s)\<rparr>)"

lemma without_entry_eq: "without_entry es excluded layer = entries_without excluded layer es"
  by (simp add: without_entry_def entries_without_def drop_entry_eq split: option.split)

lemma entries_without_some: "entries_without (Some (l, q)) layer es = (if l = layer then drop_entry q es else es)"
  by (simp add: entries_without_def)

lemma without_simps [simp]:
  "rd_facts (resource_without x r) = rd_facts r" "rd_entries (resource_without x r) = entries_without x NTFS (rd_entries r)"
  "entries_without None layer es = es" "resource_without None r = r" "share_without None share = share"
  by (cases share; simp add: resource_without_def rd_facts_def entries_without_def share_without_def)+

lemma without_entries_fit:
  "\<forall>e \<in> set es. ae_layer e = layer \<Longrightarrow> \<forall>e \<in> set (entries_without excluded layer es). ae_layer e = layer"
  by (auto simp: entries_without_def drop_entry_eq split: option.splits if_splits dest: in_set_takeD in_set_dropD)

lemma layers_fit_without:
  assumes "layers_fit token resource share" "st_access_path token' = st_access_path token"
  shows "layers_fit token' (resource_without x resource) (share_without x share)"
proof -
  have "\<forall>e \<in> set (entries_without x NTFS (rd_entries resource)). ae_layer e = NTFS"
    by (rule without_entries_fit) (use assms(1) in \<open>simp add: layers_fit_def\<close>)
  moreover have "\<forall>e \<in> set (entries_without x SMB_SHARE (sh_entries s)). ae_layer e = SMB_SHARE" if "share = Some s" "sh_observed s" for s
    by (rule without_entries_fit) (use assms(1) that in \<open>simp add: layers_fit_def\<close>)
  ultimately show ?thesis using assms by (cases share) (simp_all add: layers_fit_def share_without_def)
qed

text \<open>A right of the answer, layer by layer.\<close>

definition share_grants :: "subject_token \<Rightarrow> share_dacl option \<Rightarrow> nat \<Rightarrow> bool" where
  "share_grants token share n \<longleftrightarrow> (case share of None \<Rightarrow> True
     | Some s \<Rightarrow> sh_observed s \<longrightarrow> layer_grants token UNOWNED_PRESENT_DACL (sh_entries s) n)"

lemma resolved_grants:
  assumes "resolve_access token resource share fs = Inr a"
  shows "bit (mask_value (ea_rights a)) n \<longleftrightarrow> layer_grants token (rd_facts resource) (rd_entries resource) n \<and> share_grants token share n"
proof -
  obtain added where ntfs: "evaluate_acl (rd_entries resource) token NTFS (rd_facts resource) = Inr (ea_ntfs a)"
    and cross: "cross_share token (ea_ntfs a) share = Inr (ea_share a, ea_crossed a, ea_rights a, ea_limiting_layer a, added)"
    and path: "st_access_path token = REMOTE_SMB \<longleftrightarrow> share \<noteq> None"
    using assms by (rule resolve_access_parts)
  show ?thesis using cross_share_rights(2) [OF ntfs path cross] by (simp add: share_grants_def)
qed


lemma other_grants:
  assumes "resolve_access token resource share fs = Inr a" "(layer, ev) \<in> set (explained_layers a)"
  shows "(\<forall>other. other_layer a layer = Some other \<longrightarrow> bit other n) \<longleftrightarrow>
    (if layer = NTFS then share_grants token share n else layer_grants token (rd_facts resource) (rd_entries resource) n)"
proof -
  obtain added where ntfs: "evaluate_acl (rd_entries resource) token NTFS (rd_facts resource) = Inr (ea_ntfs a)"
    and cross: "cross_share token (ea_ntfs a) share = Inr (ea_share a, ea_crossed a, ea_rights a, ea_limiting_layer a, added)"
    and path: "st_access_path token = REMOTE_SMB \<longleftrightarrow> share \<noteq> None"
    using assms(1) by (rule resolve_access_parts)
  show ?thesis
  proof (cases "ea_share a")
    case None
    then have "layer = NTFS" using assms(2) by (simp add: explained_layers_def)
    moreover have "share_grants token share n"
      using cross None path cross_share_read [OF ntfs]
      by (cases share) (auto simp: share_grants_def cross_share_def result_simps Let_def split: if_splits)
    ultimately show ?thesis using None by (simp add: other_layer_def)
  next
    case (Some sev)
    have "(SMB_SHARE, sev) \<in> set (explained_layers a)" using Some by (simp add: explained_layers_def)
    then obtain s where s: "share = Some s" "sh_observed s" "evaluate_acl (sh_entries s) token SMB_SHARE UNOWNED_PRESENT_DACL = Inr sev"
      using resolved_layer [OF assms(1)] by (metis rights_layer.distinct(1))
    have "layer = NTFS \<or> layer = SMB_SHARE" using assms(2) Some by (auto simp: explained_layers_def)
    then show ?thesis using Some s evaluation_expanded [OF ntfs] evaluation_expanded [OF s(3)]
      by (auto simp: other_layer_def mask_value_expand share_grants_def evaluation_grants(2) [OF ntfs] evaluation_grants(2) [OF s(3)])
  qed
qed

text \<open>The path of an entry, with the evaluation the entry belongs to.\<close>

lemma entry_path:
  assumes res: "resolve_access token resource share fs = Inr a" and exp: "explain_access a resource share edges limits = Inr x"
    and p: "p \<in> set (xp_paths x)" "cp_ace_position p = int q"
  obtains ev e novel es facts where "(cp_layer p, ev) \<in> set (explained_layers a)" "e \<in> set (applied_entries ev)" "aa_position e = q"
    "novel = (case novel_contributions ev q of None \<Rightarrow> 0 | Some v \<Rightarrow> v)"
    "evaluate_acl es token (cp_layer p) facts = Inr ev"
    "bit (mask_value (cp_effective_rights p)) n \<longleftrightarrow> bit novel n \<and> (\<forall>other. other_layer a (cp_layer p) = Some other \<longrightarrow> bit other n)"
    "cp_effect p = path_effect_of novel (cp_effective_rights p) (cp_constrained_rights p)"
    "cp_layer p = NTFS \<Longrightarrow> facts = rd_facts resource \<and> es = rd_entries resource"
    "cp_layer p \<noteq> NTFS \<Longrightarrow> facts = UNOWNED_PRESENT_DACL \<and> (\<exists>s. share = Some s \<and> es = sh_entries s \<and> sh_observed s)"
proof (rule explain_access_parts [OF exp])
  fix i b
  assume i: "i = \<lparr>xi_access = a, xi_resource = resource, xi_share = share, xi_limits = limits, xi_subgraph = edges\<rparr>"
    and b: "build_explanation i = Inr b" "xp_paths x = bd_paths b"
  have a: "xi_access i = a" by (simp add: i)
  obtain layer ev where ev: "(layer, ev) \<in> set (explained_layers a)" "caused_in i layer ev p"
    using build_explanation_spec(3) [OF b(1), of p] p(1) b(2) a by auto
  then obtain e where e: "e \<in> set (applied_entries ev)" "explains_entry i layer (novel_contributions ev) e p"
    using p(2) by (auto simp: caused_in_def explains_ownership_def OWNERSHIP_POSITION_def)
  have pos: "aa_position e = q" and layer: "layer = cp_layer p" using e(2) p(2) by (auto simp: explains_entry_def delivers_def)
  let ?novel = "case novel_contributions ev q of None \<Rightarrow> 0 | Some v \<Rightarrow> v"
  have d: "delivers i (cp_layer p) ?novel p" using e(2) pos layer by (simp add: explains_entry_def)
  obtain es facts where "evaluate_acl es token (cp_layer p) facts = Inr ev" "cp_layer p = NTFS \<Longrightarrow> facts = rd_facts resource \<and> es = rd_entries resource"
    "cp_layer p \<noteq> NTFS \<Longrightarrow> facts = UNOWNED_PRESENT_DACL \<and> (\<exists>s. share = Some s \<and> es = sh_entries s \<and> sh_observed s)"
    using resolved_layer [OF res ev(1) [unfolded layer]] by blast
  moreover have "bit (mask_value (cp_effective_rights p)) n \<longleftrightarrow> bit ?novel n \<and> (\<forall>other. other_layer a (cp_layer p) = Some other \<longrightarrow> bit other n)"
    using delivered_bits(1) [OF d, of n] d by (simp add: a delivers_def)
  ultimately show thesis using that ev(1) e(1) pos layer d by (simp add: delivers_def)
qed

lemma removal_within:
  assumes res: "resolve_access token resource share fs = Inr a" and exp: "explain_access a resource share edges limits = Inr x"
    and p: "p \<in> set (xp_paths x)" "cp_ace_position p = int q"
    and len: "length (rd_entries resource) \<le> MAX_ACL_ENTRIES" "\<forall>s. share = Some s \<longrightarrow> length (sh_entries s) \<le> MAX_ACL_ENTRIES"
    and plain: "cp_layer p = NTFS \<longrightarrow> \<not> ae_names_owner_rights (rd_entries resource ! q)"
    and a': "resolve_access token (resource_without (Some (cp_layer p, q)) resource) (share_without (Some (cp_layer p, q)) share) fs = Inr a'"
    and change: "bit (mask_value (ea_rights a')) n \<noteq> bit (mask_value (ea_rights a)) n"
  shows "bit (mask_value (cp_effective_rights p)) n"
proof (rule entry_path [OF res exp p, where n = n])
  fix ev e novel es facts
  assume ev: "(cp_layer p, ev) \<in> set (explained_layers a)" and e: "e \<in> set (applied_entries ev)" "aa_position e = q"
    and novel: "novel = (case novel_contributions ev q of None \<Rightarrow> 0 | Some v \<Rightarrow> v)"
    and run: "evaluate_acl es token (cp_layer p) facts = Inr ev"
    and worth: "bit (mask_value (cp_effective_rights p)) n \<longleftrightarrow> bit novel n \<and> (\<forall>other. other_layer a (cp_layer p) = Some other \<longrightarrow> bit other n)"
    and ntfs: "cp_layer p = NTFS \<Longrightarrow> facts = rd_facts resource \<and> es = rd_entries resource"
    and smb: "cp_layer p \<noteq> NTFS \<Longrightarrow> facts = UNOWNED_PRESENT_DACL \<and> (\<exists>s. share = Some s \<and> es = sh_entries s \<and> sh_observed s)"
  have layer: "cp_layer p = NTFS \<or> cp_layer p = SMB_SHARE" using ev by (auto simp: explained_layers_def split: option.splits)
  have short: "length es \<le> MAX_ACL_ENTRIES" using ntfs smb len by (cases "cp_layer p = NTFS") auto
  have plain': "df_owner_sid facts = None \<or> \<not> ae_names_owner_rights (es ! aa_position e)"
    using ntfs smb plain e(2) by (cases "cp_layer p = NTFS") auto
  have changed: "bit novel n" if "layer_grants token facts (drop_entry q es) n \<noteq> layer_grants token facts es n"
  proof -
    have "\<exists>v. novel_contributions ev q = Some v \<and> bit v n"
      using layer_grants_drop_entry [OF run e(1) short plain', unfolded e(2)] that by blast
    then show ?thesis using novel by auto
  qed
  have "layer_grants token facts (drop_entry q es) n \<noteq> layer_grants token facts es n
    \<and> (\<forall>other. other_layer a (cp_layer p) = Some other \<longrightarrow> bit other n)"
  proof (cases "cp_layer p = NTFS")
    case True
    then have "share_without (Some (cp_layer p, q)) share = share" by (cases share) (simp_all add: share_without_def entries_without_some)
    then show ?thesis using change ntfs True other_grants [OF res ev, of n]
      by (auto simp: resolved_grants [OF res] resolved_grants [OF a'] entries_without_some)
  next
    case False
    then obtain s where s: "share = Some s" "es = sh_entries s" "sh_observed s" "facts = UNOWNED_PRESENT_DACL" using smb by blast
    then have "share_grants token (share_without (Some (cp_layer p, q)) share) n \<longleftrightarrow> layer_grants token facts (drop_entry q es) n"
      "share_grants token share n \<longleftrightarrow> layer_grants token facts es n"
      using False layer by (auto simp: share_grants_def share_without_def entries_without_some)
    then show ?thesis using change False other_grants [OF res ev, of n]
      by (auto simp: resolved_grants [OF res] resolved_grants [OF a'] entries_without_some)
  qed
  then show ?thesis using worth changed by blast
qed

text \<open>
  C14. Removing the entry a path ends at changes no right outside what the path delivers. The access
  check over the lists without that entry returns, and every bit in which its answer differs, up or
  down, is one of the path's effective rights; so where the path is redundant or constrained the
  answer does not change at all. The entry must not name OWNER RIGHTS and the lists must not be
  longer than what one evaluation reads.
\<close>

theorem only_contributing_entries_matter:
  assumes res: "resolve_access token resource share fs = Inr a" and exp: "explain_access a resource share edges limits = Inr x"
    and p: "p \<in> set (xp_paths x)" "cp_ace_position p = int q"
    and len: "length (rd_entries resource) \<le> MAX_ACL_ENTRIES" "\<forall>s. share = Some s \<longrightarrow> length (sh_entries s) \<le> MAX_ACL_ENTRIES"
    and plain: "cp_layer p = NTFS \<longrightarrow> \<not> ae_names_owner_rights (rd_entries resource ! q)"
  shows "\<exists>a'. resolve_access token (resource_without (Some (cp_layer p, q)) resource) (share_without (Some (cp_layer p, q)) share) fs = Inr a'
    \<and> (\<forall>n. bit (mask_value (ea_rights a')) n \<noteq> bit (mask_value (ea_rights a)) n \<longrightarrow> bit (mask_value (cp_effective_rights p)) n)
    \<and> (\<not> cp_matters p \<longrightarrow> ea_rights a' = ea_rights a)"
proof -
  obtain a' where a': "resolve_access token (resource_without (Some (cp_layer p, q)) resource) (share_without (Some (cp_layer p, q)) share) fs = Inr a'"
    using resolve_access_returns [OF layers_fit_without [OF resolve_access_fits [OF res] refl]] by metis
  note within = removal_within [OF res exp p len plain a']
  have "ea_rights a' = ea_rights a" if "\<not> cp_matters p"
  proof -
    have "\<not> bit (mask_value (cp_effective_rights p)) n" for n
    proof (rule entry_path [OF res exp p, where n = n])
      fix novel :: "32 word" and ev
      assume "cp_effect p = path_effect_of novel (cp_effective_rights p) (cp_constrained_rights p)"
        and "bit (mask_value (cp_effective_rights p)) n \<longleftrightarrow> bit novel n \<and> (\<forall>other. other_layer a (cp_layer p) = Some other \<longrightarrow> bit other n)"
      then show ?thesis using that by (auto simp: cp_matters_def path_effect_of_def mask_is_empty_def split: if_splits)
    qed
    then have "bit (mask_value (ea_rights a')) n \<longleftrightarrow> bit (mask_value (ea_rights a)) n" for n using within by blast
    then have "mask_value (ea_rights a') = mask_value (ea_rights a)" by (simp add: bit_eq_iff)
    then show ?thesis using resolved_rights(2) [OF res] resolved_rights(2) [OF a'] by (intro rights_mask.equality) simp_all
  qed
  then show ?thesis using a' within by blast
qed


subsection \<open>Removal measured\<close>

text \<open>The upward search finds what a chain of one or more memberships leads to.\<close>

definition member_of :: "graph_edge list \<Rightarrow> (string \<times> string) set" where
  "member_of es = (\<lambda>e. (ge_member_key e, ge_group_key e)) ` set es"

lemma groups_of_member: "g \<in> set (groups_of es k) \<longleftrightarrow> (k, g) \<in> member_of es"
  by (auto simp: groups_of_def member_of_def)

lemma reach_loop_spec:
  assumes "set seen \<subseteq> {g. (root, g) \<in> (member_of es)\<^sup>+}" "\<forall>n \<in> set stack. n = root \<or> n \<in> set seen"
    and "\<forall>n. n = root \<or> n \<in> set seen \<longrightarrow> n \<in> set stack \<or> set (groups_of es n) \<subseteq> set seen"
  shows "set (reach_loop es stack seen) = {g. (root, g) \<in> (member_of es)\<^sup>+}"
  using assms
proof (induction es stack seen rule: reach_loop.induct)
  case (1 es seen)
  have "g \<in> set seen" if "(root, g) \<in> (member_of es)\<^sup>+" for g
    using that
  proof (induction rule: trancl_induct)
    case (base y)
    then show ?case using 1(3) groups_of_member [of y es root] by auto
  next
    case (step y z)
    then show ?case using 1(3) groups_of_member [of z es y] by auto
  qed
  then show ?case using 1(1) by auto
next
  case (2 es n stack seen)
  obtain stack' seen' where p: "push_unseen (groups_of es n) stack seen = (stack', seen')" by fastforce
  obtain new where new: "stack' = new @ stack" "seen' = new @ seen" "set new = set (groups_of es n) - set seen"
    and all: "set seen' = set seen \<union> set (groups_of es n)"
    using push_unseen_spec [OF p] by blast
  have "(root, g) \<in> (member_of es)\<^sup>+" if "g \<in> set (groups_of es n)" for g
    using that 2(2,3) groups_of_member [of g es n] by (auto intro: trancl_into_trancl)
  then have "set seen' \<subseteq> {g. (root, g) \<in> (member_of es)\<^sup>+}" using 2(2) all by auto
  moreover have "\<forall>k \<in> set stack'. k = root \<or> k \<in> set seen'" using 2(3) new by auto
  moreover have "\<forall>k. k = root \<or> k \<in> set seen' \<longrightarrow> k \<in> set stack' \<or> set (groups_of es k) \<subseteq> set seen'"
    using 2(4) new all by auto
  ultimately show ?case using 2(1) [OF p [symmetric] refl] p by simp
qed

lemma reachable_upward_spec: "reachable_upward es root = {g. (root, g) \<in> (member_of es)\<^sup>+}"
  unfolding reachable_upward_def by (rule reach_loop_spec) auto

text \<open>A re-evaluation is a resolution of the reduced inputs.\<close>

lemma reevaluate_resolves:
  assumes fit: "layers_fit (xi_token i) (xi_resource i) (xi_share i)" and path: "ea_path (xi_access i) = st_access_path (xi_token i)"
    and tok: "restricted (xi_token i) keys = Inr token"
  shows "\<exists>a'. resolve_access token (resource_without excluded (xi_resource i)) (share_without excluded (xi_share i)) fs = Inr a'
    \<and> reevaluate i keys excluded = Inr (ea_rights a')"
proof -
  let ?r = "resource_without excluded (xi_resource i)" and ?s = "share_without excluded (xi_share i)"
  have p: "st_access_path token = st_access_path (xi_token i)"
    using tok by (auto simp: restricted_def mk_subject_token_def split: if_splits)
  obtain a' where a': "resolve_access token ?r ?s fs = Inr a'"
    using resolve_access_returns [OF layers_fit_without [OF fit p]] by metis
  obtain ntfs added where ntfs: "evaluate_acl (rd_entries ?r) token NTFS (rd_facts ?r) = Inr ntfs"
    and cross: "cross_share token ntfs ?s = Inr (ea_share a', ea_crossed a', ea_rights a', ea_limiting_layer a', added)"
    using resolve_access_parts [OF a'] by blast
  have "reevaluate i keys excluded = Inr (ea_rights a')"
  proof (cases "xi_share i")
    case None
    then have local: "st_access_path token = LOCAL" using fit p by (simp add: layers_fit_def path_cases)
    then show ?thesis using cross cross_share_none [OF ntfs(1)] None tok ntfs path p
      by (auto simp: reevaluate_def without_entry_eq share_without_def effective_rights_local evaluation_grants evaluation_expanded)
  next
    case (Some s)
    then have remote: "st_access_path token = REMOTE_SMB" using fit p by (simp add: layers_fit_def)
    have s: "?s = Some (s\<lparr>sh_entries := entries_without excluded SMB_SHARE (sh_entries s)\<rparr>)" by (simp add: share_without_def Some)
    show ?thesis
    proof (cases "sh_observed s")
      case False
      then show ?thesis using cross cross_share_unread [OF ntfs(1)] Some tok ntfs s
        by (auto simp: reevaluate_def without_entry_eq mask_value_expand evaluation_expanded)
    next
      case True
      obtain sev where sev: "evaluate_acl (entries_without excluded SMB_SHARE (sh_entries s)) token SMB_SHARE UNOWNED_PRESENT_DACL = Inr sev"
        using cross True s by (auto simp: cross_share_def result_simps Let_def split: if_splits)
      then have "ea_rights a' = rmask (mask_value (ev_rights sev) AND mask_value (ev_rights ntfs)) EFFECTIVE"
        using cross cross_share_read [OF ntfs(1) remote, of "s\<lparr>sh_entries := entries_without excluded SMB_SHARE (sh_entries s)\<rparr>" sev] True s
        by (auto simp: Let_def)
      then show ?thesis using True Some tok ntfs s sev remote path p
        by (simp add: reevaluate_def without_entry_eq Let_def effective_rights_remote evaluation_grants evaluation_expanded)
    qed
  qed
  then show ?thesis using a' by blast
qed


text \<open>The candidates, one by one.\<close>

lemma measure_all_spec:
  assumes "measure_all i b ks ts = Inr (ts', limited)"
  shows "length ts' \<le> max (length ts) (xl_max_removal_targets (xi_limits i))"
    and "t \<in> set ts' \<Longrightarrow> t \<in> set ts \<or> (\<exists>k \<in> set ks. measure_edge i b k = Inr (Some t))"
    and "set ts \<subseteq> set ts'"
proof -
  have "length ts' \<le> max (length ts) (xl_max_removal_targets (xi_limits i))
    \<and> (t \<in> set ts' \<longrightarrow> t \<in> set ts \<or> (\<exists>k \<in> set ks. measure_edge i b k = Inr (Some t))) \<and> set ts \<subseteq> set ts'"
    using assms
  proof (induction ks arbitrary: ts)
    case (Cons k ks)
    show ?case
    proof (cases "xl_max_removal_targets (xi_limits i) \<le> length ts")
      case True
      then show ?thesis using Cons.prems by simp
    next
      case False
      then obtain m where m: "measure_edge i b k = Inr m" "measure_all i b ks (case m of None \<Rightarrow> ts | Some y \<Rightarrow> ts @ [y]) = Inr (ts', limited)"
        using Cons.prems by (auto simp: result_simps)
      show ?thesis using Cons.IH [OF m(2)] m(1) False by (cases m) auto
    qed
  qed simp
  then show "length ts' \<le> max (length ts) (xl_max_removal_targets (xi_limits i))"
    and "t \<in> set ts' \<Longrightarrow> t \<in> set ts \<or> (\<exists>k \<in> set ks. measure_edge i b k = Inr (Some t))" and "set ts \<subseteq> set ts'" by blast+
qed

lemma find_sort_key:
  assumes "distinct (map f xs)"
  shows "find (\<lambda>x. f x = k) (sort_key g xs) = find (\<lambda>x. f x = k) xs"
proof (cases "find (\<lambda>x. f x = k) xs")
  case None
  then have "find (\<lambda>x. f x = k) (sort_key g xs) = None" by (simp add: find_None_iff)
  then show ?thesis using None by simp
next
  case (Some x)
  then have x: "x \<in> set xs" "f x = k" using find_some_in by fast+
  obtain y where y: "find (\<lambda>x. f x = k) (sort_key g xs) = Some y"
    using x by (cases "find (\<lambda>x. f x = k) (sort_key g xs)") (auto simp: find_None_iff)
  then have "y \<in> set xs" "f y = k" using find_some_in by fastforce+
  then show ?thesis using x y Some assms by (auto simp: distinct_map inj_on_def)
qed

text \<open>What a removal takes away: a membership, with every group it alone led to, or one entry of a list.\<close>

definition cut_by ::
  "subject_token \<Rightarrow> graph_edge list \<Rightarrow> explanation_graph \<Rightarrow> explanation_edge \<Rightarrow> subject_token \<Rightarrow> (rights_layer \<times> nat) option \<Rightarrow> bool" where
  "cut_by token edges g e token' excluded \<longleftrightarrow>
     xe_kind e = EDGE_MEMBERSHIP \<and> excluded = None
       \<and> (\<exists>key \<in> ge_edge_key ` set edges. xe_membership_edge_key e = Some key
            \<and> token' = token\<lparr>st_entries := filter (\<lambda>s. tok_origin s \<noteq> ORIGIN_GROUP_MEMBERSHIP
                \<or> (subj_key (st_subject token), tok_key s) \<in> (member_of (filter (\<lambda>h. ge_edge_key h \<noteq> key) edges))\<^sup>+) (st_entries token)\<rparr>)
     \<or> xe_kind e = EDGE_TRUSTEE \<and> token' = token
       \<and> (\<exists>n layer q. xg_node g (xe_target e) = Some n \<and> xn_layer n = Some layer \<and> xn_position n = Some q \<and> excluded = Some (layer, q))"

lemma restricted_eq:
  assumes "mk_subject_token token = Inr token" "restricted token (tok_key ` set (filter P (st_entries token))) = Inr token'"
  shows "token' = token\<lparr>st_entries := filter P (st_entries token)\<rparr>"
proof -
  have "card (set (map tok_key (st_entries token))) = length (map tok_key (st_entries token))"
    using assms(1) by (simp add: mk_subject_token_def split: if_splits)
  then have d: "inj_on tok_key (set (st_entries token))" using card_distinct distinct_map by blast
  have "filter (\<lambda>e. tok_key e \<in> tok_key ` set (filter P (st_entries token))) (st_entries token) = filter P (st_entries token)"
    by (rule filter_cong) (use d in \<open>auto simp: inj_on_def\<close>)
  then show ?thesis using assms(2) by (auto simp: restricted_def mk_subject_token_def split: if_splits)
qed

lemma surviving_membership:
  assumes "xe_kind e = EDGE_MEMBERSHIP" "xe_membership_edge_key e = Some key"
  shows "surviving_keys i e = tok_key ` set (filter (\<lambda>s. tok_origin s \<noteq> ORIGIN_GROUP_MEMBERSHIP
      \<or> (subj_key (xi_subject i), tok_key s) \<in> (member_of (filter (\<lambda>h. ge_edge_key h \<noteq> key) (xi_subgraph i)))\<^sup>+) (st_entries (xi_token i)))"
  using assms by (simp add: surviving_keys_def Let_def reachable_upward_spec)

lemma all_keys: "token_keys token = tok_key ` set (filter (\<lambda>_. True) (st_entries token))"
  by (simp add: token_keys_def)

lemma edge_cut:
  assumes sound: "sound_graph i b" and e: "find (\<lambda>e. xe_edge_id e = k) (bd_edges b) = Some e" "is_removable e"
    and tok: "mk_subject_token (xi_token i) = Inr (xi_token i)" "restricted (xi_token i) (surviving_keys i e) = Inr token'"
  shows "cut_by (xi_token i) (xi_subgraph i) (builder_graph b) e token' (ace_behind b e)"
proof -
  have nodes: "xg_node (builder_graph b) t = find (\<lambda>n. xn_node_id n = t) (bd_nodes b)" for t
    using find_sort_key [of xn_node_id "bd_nodes b" t xn_node_id] sound by (simp add: xg_node_def builder_graph_def sound_graph_def ids_distinct_def)
  have fits: "edge_fits i b e" using sound find_some_in [OF e(1)] by (simp add: sound_graph_def)
  consider "xe_kind e = EDGE_MEMBERSHIP" | "xe_kind e = EDGE_TRUSTEE" using e(2) by (auto simp: is_removable_def)
  then show ?thesis
  proof cases
    case 1
    then obtain key where key: "xe_membership_edge_key e = Some key" "key \<in> ge_edge_key ` set (xi_subgraph i)"
      using fits by (auto simp: edge_fits_def)
    show ?thesis using restricted_eq [OF tok(1) tok(2) [unfolded surviving_membership [OF 1 key(1)]]] 1 key
      by (auto simp: cut_by_def ace_behind_def xi_subject_def)
  next
    case 2
    then have "surviving_keys i e = token_keys (xi_token i)" by (simp add: surviving_keys_def)
    then have token: "token' = xi_token i" using restricted_eq [OF tok(1), of "\<lambda>_. True"] tok(2) all_keys by simp
    obtain n where n: "n \<in> set (bd_nodes b)" "xn_node_id n = xe_target e" "is_entry_node n"
      using fits 2 by (auto simp: edge_fits_def points_at_entry_def)
    then obtain m where m: "find (\<lambda>n. xn_node_id n = xe_target e) (bd_nodes b) = Some m"
      by (cases "find (\<lambda>n. xn_node_id n = xe_target e) (bd_nodes b)") (auto simp: find_None_iff)
    have "m = n" using find_some_in [OF m] n sound by (auto simp: sound_graph_def ids_distinct_def distinct_map inj_on_def)
    then show ?thesis using 2 n(3) m token by (auto simp: cut_by_def ace_behind_def nodes is_entry_node_def)
  qed
qed


lemma answer_expanded:
  assumes "resolve_access token resource share fs = Inr a"
  shows "mask_value (expand_generics (ea_rights a)) = mask_value (ea_rights a)"
proof -
  have "expand_value (mask_value (ea_rights a)) = mask_value (ea_rights a)"
    using layer_grants_no_generic by (intro expand_value_id) (simp add: no_generic_iff resolved_grants [OF assms])
  then show ?thesis by (simp add: mask_value_expand)
qed

text \<open>
  Every removal target of an explanation names an edge of its graph, and its rights are those of the
  resolution without that edge, the memberships being the ones that were supplied.
\<close>

lemma removal_measured:
  assumes res: "resolve_access token resource share fs = Inr a" and exp: "explain_access a resource share edges limits = Inr x"
    and tok: "mk_subject_token token = Inr token" and t: "t \<in> set (xp_removal_targets x)"
  shows "\<exists>e token' excluded a'. xg_edge (xp_graph x) (rt_edge_id t) = Some e \<and> cut_by token edges (xp_graph x) e token' excluded
    \<and> resolve_access token' (resource_without excluded resource) (share_without excluded share) fs = Inr a'
    \<and> rt_rights_after t = ea_rights a'
    \<and> mask_value (rt_rights_removed t) = mask_value (ea_rights a) AND NOT (mask_value (ea_rights a'))
    \<and> mask_value (rt_rights_added t) = mask_value (ea_rights a') AND NOT (mask_value (ea_rights a))
    \<and> (rt_revokes_all_access t \<longleftrightarrow> ea_has_access a \<and> \<not> ea_has_access a')"
proof (rule explain_access_parts [OF exp])
  fix i b b'
  assume i: "i = \<lparr>xi_access = a, xi_resource = resource, xi_share = share, xi_limits = limits, xi_subgraph = edges\<rparr>"
    and b: "build_explanation i = Inr b" "removal_targets i b = Inr (xp_removal_targets x, b')" and g: "xp_graph x = builder_graph b"
  have at: "ea_token a = token" "ea_path a = st_access_path token"
    using resolve_access_returns [OF resolve_access_fits [OF res], of fs] res by (metis Inr_inject)+
  then have token: "xi_token i = token" by (simp add: i xi_token_def)
  have fit: "layers_fit (xi_token i) (xi_resource i) (xi_share i)" using resolve_access_fits [OF res] token by (simp add: i)
  obtain limited where "measure_all i b (removal_candidates b) [] = Inr (xp_removal_targets x, limited)"
    using b(2) by (auto simp: removal_targets_def result_simps)
  from measure_all_spec(2) [OF this t] obtain k where k: "k \<in> set (removal_candidates b)" "measure_edge i b k = Inr (Some t)" by auto
  obtain e where e: "find (\<lambda>e. xe_edge_id e = k) (bd_edges b) = Some e" "is_removable e"
    using k(1) by (auto simp: removal_candidates_def split: option.splits)
  then obtain rights where r: "reevaluate i (surviving_keys i e) (ace_behind b e) = Inr rights"
    and tf: "rt_edge_id t = k" "rt_rights_after t = rights"
      "rt_rights_removed t = rmask (mask_value (ea_rights a) AND NOT (mask_value rights)) EFFECTIVE"
      "rt_rights_added t = rmask (mask_value rights AND NOT (mask_value (ea_rights a))) EFFECTIVE"
      "rt_revokes_all_access t \<longleftrightarrow> ea_has_access a \<and> mask_value rights = 0"
    using k(2) answer_expanded [OF res] by (auto simp: measure_edge_def result_simps Let_def i)
  obtain token' where token': "restricted (xi_token i) (surviving_keys i e) = Inr token'"
    using r by (auto simp: reevaluate_def without_entry_eq result_simps)
  obtain a' where a': "resolve_access token' (resource_without (ace_behind b e) resource) (share_without (ace_behind b e) share) fs = Inr a'"
    "rights = ea_rights a'"
    using reevaluate_resolves [OF fit _ token', of "ace_behind b e" fs] r at token by (auto simp: i)
  have sound: "sound_graph i b" by (rule build_explanation_spec(1) [OF b(1)])
  have "cut_by token edges (xp_graph x) e token' (ace_behind b e)"
    using edge_cut [OF sound e _ token'] tok token by (simp add: g i)
  moreover have "xg_edge (xp_graph x) k = Some e"
    using e(1) sound find_sort_key [of xe_edge_id "bd_edges b" k xe_edge_id] by (simp add: g xg_edge_def builder_graph_def sound_graph_def ids_distinct_def)
  ultimately show ?thesis using a' tf by (intro exI [of _ e] exI [of _ token'] exI [of _ "ace_behind b e"] exI [of _ a'])
      (simp add: ea_has_access_def mask_is_empty_def)
qed

subsection \<open>When an explanation is returned, and its shape\<close>

lemma limits_bounds:
  assumes "mk_explanation_limits p t d r = Inr limits"
  shows "1 \<le> xl_max_paths limits" "\<exists>lim. chain_limits limits = Inr lim"
  using assms by (auto simp: mk_explanation_limits_def check_limit_def chain_limits_def mk_traversal_limits_def result_simps
    MAX_EXPLANATION_PATHS_def MAX_PATHS_CEILING_def MAX_NODES_CEILING_def MAX_EDGES_CEILING_def DEFAULT_LIMITS_def split: if_splits)

lemma applied_match:
  assumes "evaluate_acl es token layer facts = Inr ev" "e \<in> set (applied_entries ev)"
  shows "match_entry (aa_entry e) token (owner_token_sid_of token facts) = Some (aa_matched e)"
proof -
  have present: "df_dacl_present facts" using evaluation_null_applied(1) [OF assms(1)] assms(2) by fastforce
  show ?thesis
    using walked_evidence [of token facts "take MAX_ACL_ENTRIES es" layer] assms(2) evaluate_acl_present(7-9) [OF assms(1) present]
    by (auto simp: applied_entries_def evidence_ok_def applied_ok_def)
qed

lemma applied_matched:
  assumes "evaluate_acl es token layer facts = Inr ev" "e \<in> set (applied_entries ev)"
  shows "aa_matched e \<in> set (st_entries token)"
proof -
  have entry: "m \<in> set (st_entries token)" if "token_entry token k = Some m" for k m
    using that by (auto simp: token_entry_def find_Some_iff split: option.splits if_splits)
  show ?thesis using applied_match [OF assms] entry by (auto simp: match_entry_def owner_token_sid_of_def split: if_splits option.splits)
qed


text \<open>Chains are found for every matched entry whose key is not the subject's own.\<close>

lemma chains_to_total:
  assumes "chain_limits (xi_limits i) = Inr lim"
    and "tok_origin m = ORIGIN_GROUP_MEMBERSHIP \<Longrightarrow> tok_key m \<noteq> subj_key (xi_subject i)"
  shows "\<exists>r. chains_to i m b = Inr r"
proof -
  have "\<exists>r. enumerate_chains i m b = Inr r"
    using assms by (cases "tok_origin m") (auto simp: enumerate_chains_def tok_is_assumed_def simple_paths_def Let_def)
  then show ?thesis by (cases "bd_chains b (tok_key m)") (auto simp: chains_to_def)
qed

lemma build_total:
  assumes lim: "chain_limits (xi_limits i) = Inr lim"
    and keys: "\<forall>(layer, ev) \<in> set ls. \<forall>a \<in> set (applied_entries ev). tok_origin (aa_matched a) = ORIGIN_GROUP_MEMBERSHIP
      \<longrightarrow> tok_key (aa_matched a) \<noteq> subj_key (xi_subject i)"
  shows "\<exists>b'. build_layers i ls b = Inr b'"
  using keys
proof (induction ls arbitrary: b)
  case (Cons l ls)
  obtain layer ev where l: "l = (layer, ev)" by (cases l)
  have all: "\<exists>b'. all_paths_for i nv layer as b = Inr b'"
    if "\<forall>a \<in> set as. tok_origin (aa_matched a) = ORIGIN_GROUP_MEMBERSHIP \<longrightarrow> tok_key (aa_matched a) \<noteq> subj_key (xi_subject i)" for nv as b
    using that
  proof (induction as arbitrary: b)
    case (Cons a as)
    obtain n b1 where n: "add_node (ace_node i a layer) b = (n, b1)" by fastforce
    obtain e b2 where e: "add_edge (object_edge i a (xn_node_id n)) b1 = (e, b2)" by fastforce
    obtain cs b3 where "chains_to i (aa_matched a) b2 = Inr (cs, b3)"
      using chains_to_total [OF lim, of "aa_matched a" b2] Cons.prems by auto
    then have "\<exists>b'. paths_for i nv layer a b = Inr b'" using n e by (simp add: paths_for_def)
    then show ?case using Cons by auto
  qed simp
  obtain b1 where "all_paths_for i (novel_contributions ev) layer (applied_entries ev) (ownership_path i layer ev b) = Inr b1"
    using all [of "applied_entries ev" "novel_contributions ev" "ownership_path i layer ev b"] Cons.prems l by auto
  then show ?case using Cons l by simp
qed simp

lemma restricted_total:
  assumes "mk_subject_token token = Inr token" "\<exists>e \<in> set (st_entries token). tok_key e \<in> keys"
  shows "\<exists>token'. restricted token keys = Inr token'"
proof -
  let ?es = "filter (\<lambda>e. tok_key e \<in> keys) (st_entries token)"
  have "card (set (map tok_key (st_entries token))) = length (map tok_key (st_entries token))"
    using assms(1) by (simp add: mk_subject_token_def split: if_splits)
  then have "distinct (map tok_key ?es)" using card_distinct distinct_map_filter by blast
  then have "card (tok_key ` set ?es) = length ?es" using distinct_card by fastforce
  moreover have "?es \<noteq> []" using assms(2) by (auto simp: filter_empty_conv)
  ultimately show ?thesis by (simp add: restricted_def mk_subject_token_def)
qed

lemma measure_total:
  assumes "\<forall>e. \<exists>r. reevaluate i (surviving_keys i e) (ace_behind b e) = Inr r"
  shows "\<exists>r. measure_all i b ks ts = Inr r"
proof (induction ks arbitrary: ts)
  case Nil
  show ?case by (intro exI) (rule measure_all.simps(1))
next
  case (Cons k ks)
  have "\<exists>m. measure_edge i b k = Inr m"
    using assms by (cases "find (\<lambda>e. xe_edge_id e = k) (bd_edges b)") (auto simp: measure_edge_def Let_def, metis res_bind.simps(2))
  then show ?case using Cons by auto
qed

lemma explain_total:
  assumes res: "resolve_access token resource share fs = Inr a" and tok: "mk_subject_token token = Inr token"
    and lim: "mk_explanation_limits p t d r = Inr limits"
    and own: "\<exists>e \<in> set (st_entries token). tok_origin e \<noteq> ORIGIN_GROUP_MEMBERSHIP"
    and groups: "\<forall>e \<in> set (st_entries token). tok_origin e = ORIGIN_GROUP_MEMBERSHIP \<longrightarrow> tok_key e \<noteq> subj_key (st_subject token)"
  shows "\<exists>x. explain_access a resource share edges limits = Inr x"
proof -
  let ?i = "\<lparr>xi_access = a, xi_resource = resource, xi_share = share, xi_limits = limits, xi_subgraph = edges\<rparr>"
  have keys: "ea_resource_key a = rd_resource_key resource" "ea_share_key a = map_option sh_share_key share"
      "ea_token a = token" "ea_path a = st_access_path token"
    using res by (auto simp: resolve_access_def result_simps Let_def split: if_splits)
  have token: "xi_token ?i = token" "xi_subject ?i = st_subject token" by (simp_all add: xi_token_def xi_subject_def keys)
  obtain l where l: "chain_limits (xi_limits ?i) = Inr l" using limits_bounds(2) [OF lim] by auto
  have matched: "\<forall>(layer, ev) \<in> set (explained_layers (xi_access ?i)). \<forall>e \<in> set (applied_entries ev). tok_origin (aa_matched e) = ORIGIN_GROUP_MEMBERSHIP
      \<longrightarrow> tok_key (aa_matched e) \<noteq> subj_key (xi_subject ?i)"
    using resolved_layer [OF res] applied_matched groups token(2) by (simp add: split_beta) (metis prod.collapse)
  obtain b where b: "build_explanation ?i = Inr b"
    unfolding build_explanation_def Let_def result_simps using build_total [OF l matched] by blast
  have re: "\<exists>rights. reevaluate ?i (surviving_keys ?i e) (ace_behind b e) = Inr rights" for e
  proof -
    have "\<exists>s \<in> set (st_entries token). tok_key s \<in> surviving_keys ?i e"
      using own by (auto simp: surviving_keys_def token token_keys_def Let_def split: edge_kind.split option.split)
    then obtain token' where "restricted (xi_token ?i) (surviving_keys ?i e) = Inr token'"
      using restricted_total [OF tok] token(1) by metis
    from reevaluate_resolves [OF _ _ this, of "ace_behind b e" fs] show ?thesis
      using resolve_access_fits [OF res] token(1) keys(4) by auto
  qed
  obtain ts limited where "measure_all ?i b (removal_candidates b) [] = Inr (ts, limited)"
    using measure_total [of ?i b "removal_candidates b" "[]"] re by (metis surj_pair)
  then have "\<exists>y. removal_targets ?i b = Inr y" by (simp add: removal_targets_def)
  then obtain ts' b' where "removal_targets ?i b = Inr (ts', b')" by (metis surj_pair)
  then show ?thesis using b keys by (simp add: explain_access_def check_inputs_def Let_def)
qed

text \<open>
  C17. An explanation of a well-formed answer is always returned, and one of the wrong answer never.
  With the inputs the answer was resolved from, limits the constructor accepts, and a token as the
  constructor leaves it (a distinct key per entry, an entry that is not a group's, no group under the
  subject's own key), \<open>explain_access\<close> returns for every set of supplied edges. With a directory or a
  share of another key it raises, naming the argument.
\<close>

theorem explain_access_returns:
  assumes res: "resolve_access token resource share fs = Inr a" and tok: "mk_subject_token token = Inr token"
    and lim: "mk_explanation_limits p t d r = Inr limits"
    and own: "\<exists>e \<in> set (st_entries token). tok_origin e \<noteq> ORIGIN_GROUP_MEMBERSHIP"
    and groups: "\<forall>e \<in> set (st_entries token). tok_origin e = ORIGIN_GROUP_MEMBERSHIP \<longrightarrow> tok_key e \<noteq> subj_key (st_subject token)"
  shows "(\<exists>x. explain_access a resource share edges limits = Inr x)
    \<and> (rd_resource_key resource' \<noteq> rd_resource_key resource \<longrightarrow>
        explain_access a resource' share' edges limits = Inl (DomainValidationError ''resource''))
    \<and> (map_option sh_share_key share' \<noteq> map_option sh_share_key share \<longrightarrow>
        explain_access a resource share' edges limits = Inl (DomainValidationError ''share''))"
proof -
  have "ea_resource_key a = rd_resource_key resource" "ea_share_key a = map_option sh_share_key share"
    using res by (auto simp: resolve_access_def result_simps Let_def split: if_splits)
  then show ?thesis using explain_total [OF res tok lim own groups] by (auto simp: explain_access_def check_inputs_def)
qed

subsection \<open>The service's answer with its explanation\<close>

record resolved_explanation =
  rx_explanation :: access_explanation
  rx_subject :: "principal_record option"
  rx_resource :: "ntfs_resource_record option"
  rx_share :: "share_record option"
  rx_principals :: "string \<rightharpoonup> principal_record"

definition service_explain_access ::
  "'c::linorder world \<Rightarrow> string \<Rightarrow> string \<Rightarrow> access_path \<Rightarrow> traversal_limits \<Rightarrow> explanation_limits \<Rightarrow> token_assumption option \<Rightarrow> nat
   \<Rightarrow> (resolved_explanation \<times> nat) result" where
  "service_explain_access w subject identifier path lim limits assumption fetched =
     res_bind (resolve_one w subject identifier path lim assumption fetched) (\<lambda>(r, fetched').
     res_bind (explain_access (rs_access r) (rs_dacl r) (rs_share_acl r) (rs_edges r) limits) (\<lambda>x.
       Inr (\<lparr>rx_explanation = x, rx_subject = rs_subject r, rx_resource = rs_resource r, rx_share = rs_share r,
              rx_principals = rs_principals r\<rparr>, fetched')))"

lemma built_token_explains:
  assumes "build_token s groups path assumption complete fs = Inr t"
  shows "mk_subject_token t = Inr t" "\<exists>e \<in> set (st_entries t). tok_origin e \<noteq> ORIGIN_GROUP_MEMBERSHIP"
    and "\<forall>e \<in> set (st_entries t). tok_origin e = ORIGIN_GROUP_MEMBERSHIP \<longrightarrow> tok_key e \<noteq> subj_key (st_subject t)"
proof -
  have key: "subj_key s \<noteq> []" using assms build_token_no_key by force
  obtain rest extra where en: "st_entries t = own_entry s # rest @ extra" and di: "distinct (map tok_key (st_entries t))"
    and su: "st_subject t = s"
    using build_token_facts [OF key, of groups path assumption complete fs] assms by (metis Inr_inject)
  show "mk_subject_token t = Inr t" using di en by (intro mk_subject_token_distinct) simp_all
  show "\<exists>e \<in> set (st_entries t). tok_origin e \<noteq> ORIGIN_GROUP_MEMBERSHIP" using en by simp
  show "\<forall>e \<in> set (st_entries t). tok_origin e = ORIGIN_GROUP_MEMBERSHIP \<longrightarrow> tok_key e \<noteq> subj_key (st_subject t)"
    using di en su by (auto simp: image_iff)
qed

text \<open>
  C15. Every answer the service gives can be explained. Over any store, \<open>explain_access\<close> fails exactly
  when \<open>effective_access\<close> fails and with the same error; where that returns, it returns the explanation
  of that very answer, with the same rows and labels, whatever the membership rows it supplies.
\<close>

theorem every_answer_is_explained:
  assumes "mk_explanation_limits p t d r = Inr limits"
  shows "case service_effective_access w subject identifier path lim assumption fetched of
      Inl e \<Rightarrow> service_explain_access w subject identifier path lim limits assumption fetched = Inl e
    | Inr (answer, fetched') \<Rightarrow> (\<exists>x. service_explain_access w subject identifier path lim limits assumption fetched = Inr (x, fetched')
        \<and> xp_access (rx_explanation x) = ra_access answer \<and> rx_resource x = ra_resource answer \<and> rx_principals x = ra_principals answer)"
proof (cases "resolve_one w subject identifier path lim assumption fetched")
  case (Inl e)
  then show ?thesis by (simp add: service_effective_access_def service_explain_access_def)
next
  case (Inr rf)
  then obtain res f where run: "resolve_one w subject identifier path lim assumption fetched = Inr (res, f)" by (cases rf) auto
  have "\<exists>token. resolve_access token (rs_dacl res) (rs_share_acl res) (coverage_findings w token (rs_dacl res) (rs_share_acl res)) = Inr (rs_access res)
    \<and> (\<exists>s groups complete fs. build_token s groups path assumption complete fs = Inr token)"
    using run by (auto simp: resolve_one_def build_subject_token_def Let_def result_simps split: prod.splits) blast
  then obtain token s groups complete fs where
    tok: "resolve_access token (rs_dacl res) (rs_share_acl res) (coverage_findings w token (rs_dacl res) (rs_share_acl res)) = Inr (rs_access res)"
    and built: "build_token s groups path assumption complete fs = Inr token" by blast
  obtain x where x: "explain_access (rs_access res) (rs_dacl res) (rs_share_acl res) (rs_edges res) limits = Inr x"
    using explain_total [OF tok _ assms] built_token_explains [OF built] by blast
  have "xp_access x = rs_access res" using x by (auto simp: explain_access_def Let_def result_simps split: prod.splits)
  then show ?thesis using run x by (simp add: service_effective_access_def service_explain_access_def)
qed

text \<open>
  Over a complete membership that did not use up its rows, the edges an explanation is given are the
  stored ones that lead up from the subject, so cutting one of them leaves the same groups in both.
\<close>

lemma kept_among_stored:
  assumes sub: "set edges = {e \<in> set stored. reaches UP (edges_out stored UP) root (ge_member_key e)}"
  shows "(root, k) \<in> (member_of (filter P edges))\<^sup>+ \<longleftrightarrow> (root, k) \<in> (member_of (filter P stored))\<^sup>+"
proof
  assume "(root, k) \<in> (member_of (filter P edges))\<^sup>+"
  moreover have "member_of (filter P edges) \<subseteq> member_of (filter P stored)" using sub by (auto simp: member_of_def)
  ultimately show "(root, k) \<in> (member_of (filter P stored))\<^sup>+" by (rule trancl_mono)
next
  have next_reached: "reaches UP (edges_out stored UP) root z \<and> (y, z) \<in> member_of (filter P edges)"
    if at: "reaches UP (edges_out stored UP) root y" and step: "(y, z) \<in> member_of (filter P stored)" for y z
  proof -
    obtain e where e: "e \<in> set stored" "P e" "ge_member_key e = y" "ge_group_key e = z" using step by (auto simp: member_of_def)
    then have "e \<in> edges_out stored UP y" "ge_endpoint UP e = z" by (simp_all add: edges_out_def ge_origin_def ge_endpoint_def)
    then have "reaches UP (edges_out stored UP) root z" using reaches_step at by metis
    moreover have "e \<in> set (filter P edges)" using e at sub by auto
    ultimately show ?thesis using e by (auto simp: member_of_def)
  qed
  assume "(root, k) \<in> (member_of (filter P stored))\<^sup>+"
  then have "reaches UP (edges_out stored UP) root k \<and> (root, k) \<in> (member_of (filter P edges))\<^sup>+"
  proof (induction rule: trancl_induct)
    case (base z)
    then show ?case using next_reached [OF reaches_root] by auto
  next
    case (step y z)
    then show ?case using next_reached [of y z] by (meson trancl_into_trancl)
  qed
  then show "(root, k) \<in> (member_of (filter P edges))\<^sup>+" by simp
qed

lemma cut_among_stored:
  assumes sub: "set edges = {e \<in> set stored. reaches UP (edges_out stored UP) (subj_key (st_subject token)) (ge_member_key e)}"
    and cut: "cut_by token edges g e token' excluded"
  shows "cut_by token stored g e token' excluded"
proof -
  have "ge_edge_key ` set edges \<subseteq> ge_edge_key ` set stored" using sub by auto
  then show ?thesis using cut unfolding cut_by_def kept_among_stored [OF sub] by blast
qed

lemma token_edges:
  fixes w :: "'c::linorder world"
  assumes rows: "edges_of (w_db w) = edge_rows tb"
    and built: "build_subject_token w key r path lim assumption s = Inr (t, labels, edges, s')"
    and unspent: "s' < w_edge_fetch_limit w" and complete: "st_membership_complete t"
  shows "subj_key (st_subject t) = key \<and> mk_subject_token t = Inr t
    \<and> set edges = {e \<in> set (edges_of (w_db w)). reaches UP (edges_out (edges_of (w_db w)) UP) key (ge_member_key e)}"
proof -
  obtain facts m gs where facts: "subject_facts_of w key r = Inr facts"
    and m: "effective_groups w key lim s = Inr (m, s')" and edges: "edges = em_edges m"
    and t: "build_token facts gs path assumption (em_complete m) (map cycle_finding (em_cycles m)) = Inr t"
    using built by (auto simp: build_subject_token_def result_simps Let_def)
  have parts: "st_subject t = facts" "st_membership_complete t = em_complete m"
    using build_token_facts [OF build_token_keyed [OF t], of gs path assumption "em_complete m" "map cycle_finding (em_cycles m)"] t
    by (metis Inr_inject)+
  have "subj_key facts = key" using facts by (auto simp: subject_facts_of_def mk_subject_facts_def result_simps split: option.splits if_splits)
  then show ?thesis
    using unspent_members(2) [OF rows m [unfolded effective_groups_def] unspent] parts complete built_token_explains(1) [OF t]
    by (simp add: edges ge_origin_def)
qed

text \<open>
  C7. A removal is measured, not inferred. In an explanation the service gives over a complete
  membership, by a request that did not use up its repository's rows, every removal target names an
  edge of the graph, and its rights are those a resolution of the same ACLs returns without that
  edge. For a membership it is made with the token from which every entry held through a group is
  gone that no chain of the remaining stored memberships leads to, the removed row being one of the
  stored ones; for a trustee edge, with the entry it points at taken out of its list and every other
  entry left in place. What it removes and adds is the difference of the two answers, and it claims
  to revoke all access exactly when there was access and none is left.
\<close>

theorem removal_is_measured:
  fixes w :: "'c::linorder world"
  assumes exp: "service_explain_access w subject identifier path lim limits assumption f0 = Inr (rx, f1)"
    and rows: "edges_of (w_db w) = edge_rows tb" and unspent: "f1 < w_edge_fetch_limit w"
    and complete: "st_membership_complete (ea_token (xp_access (rx_explanation rx)))"
    and t: "t \<in> set (xp_removal_targets (rx_explanation rx))"
  shows "\<exists>token dacl share fs a e token' excluded a'.
      resource_dacl_for w identifier = Inr (rx_resource rx, dacl) \<and> share_side w identifier path (rx_resource rx) = Inr (rx_share rx, share)
    \<and> xp_access (rx_explanation rx) = a \<and> ea_token a = token \<and> subj_key (st_subject token) = subject
    \<and> resolve_access token dacl share fs = Inr a
    \<and> xg_edge (xp_graph (rx_explanation rx)) (rt_edge_id t) = Some e
    \<and> cut_by token (edges_of (w_db w)) (xp_graph (rx_explanation rx)) e token' excluded
    \<and> resolve_access token' (resource_without excluded dacl) (share_without excluded share) fs = Inr a'
    \<and> rt_rights_after t = ea_rights a'
    \<and> mask_value (rt_rights_removed t) = mask_value (ea_rights a) AND NOT (mask_value (ea_rights a'))
    \<and> mask_value (rt_rights_added t) = mask_value (ea_rights a') AND NOT (mask_value (ea_rights a))
    \<and> (rt_revokes_all_access t \<longleftrightarrow> ea_has_access a \<and> \<not> ea_has_access a')"
proof -
  obtain r x where run: "resolve_one w subject identifier path lim assumption f0 = Inr (r, f1)"
    and x: "explain_access (rs_access r) (rs_dacl r) (rs_share_acl r) (rs_edges r) limits = Inr x"
    and rx: "rx_explanation rx = x" "rx_resource rx = rs_resource r" "rx_share rx = rs_share r"
    using exp by (auto simp: service_explain_access_def result_simps split: prod.splits)
  obtain token labels where
      built: "build_subject_token w subject (get_principal (w_db w) subject) path lim assumption f0 = Inr (token, labels, rs_edges r, f1)"
    and dacl: "resource_dacl_for w identifier = Inr (rs_resource r, rs_dacl r)"
    and share: "share_side w identifier path (rs_resource r) = Inr (rs_share r, rs_share_acl r)"
    and access: "resolve_access token (rs_dacl r) (rs_share_acl r) (coverage_findings w token (rs_dacl r) (rs_share_acl r)) = Inr (rs_access r)"
    using run by (auto simp: resolve_one_def Let_def result_simps split: prod.splits)
  have same: "xp_access x = rs_access r" using x by (auto simp: explain_access_def Let_def result_simps split: prod.splits)
  have tok: "ea_token (rs_access r) = token" using resolve_access_parts [OF access] by metis
  note edges = token_edges [OF rows built unspent complete [unfolded rx same tok]]
  then have sub: "set (rs_edges r) = {e \<in> set (edges_of (w_db w)).
      reaches UP (edges_out (edges_of (w_db w)) UP) (subj_key (st_subject token)) (ge_member_key e)}" by simp
  show ?thesis
    using removal_measured [OF access x _ t [unfolded rx]] cut_among_stored [OF sub] edges dacl share access tok
    unfolding rx same by blast
qed

text \<open>Where no node id holds the arrow's head, an edge id names one pair of nodes.\<close>

lemma joins_edge:
  assumes sound: "sound_graph i b" and plain: "\<forall>n \<in> known_nodes b. CHR ''>'' \<notin> set n"
    and at: "joins (object_node_id i) eid n m" "eid \<in> known_edges b" "n \<in> known_nodes b"
  shows "\<exists>e. xg_edge (builder_graph b) eid = Some e \<and> xe_source e = n \<and> xe_target e = m"
proof -
  obtain k where k: "eid = edge_name k n m" "k \<in> {EDGE_GRANT, EDGE_DENY} \<longrightarrow> m = object_node_id i" using at(1) by (auto simp: joins_def)
  obtain e where e: "find (\<lambda>e. xe_edge_id e = eid) (bd_edges b) = Some e"
    using at(2) by (cases "find (\<lambda>e. xe_edge_id e = eid) (bd_edges b)") (auto simp: find_None_iff known_edges_def)
  have fits: "edge_fits i b e" and eid: "xe_edge_id e = eid" using sound find_some_in [OF e] by (simp_all add: sound_graph_def)
  have "edge_name (xe_kind e) (xe_source e) (xe_target e) = edge_name k n m" using fits eid k(1) by (simp add: edge_fits_def)
  moreover have "CHR ''>'' \<notin> set (xe_source e)" "CHR ''>'' \<notin> set n" using fits plain at(3) by (simp_all add: edge_fits_def)
  ultimately have "xe_kind e = k" "xe_source e = n" "k \<notin> {EDGE_GRANT, EDGE_DENY} \<Longrightarrow> xe_target e = m"
    using edge_name_inject by metis+
  moreover have "k \<in> {EDGE_GRANT, EDGE_DENY} \<Longrightarrow> xe_target e = m" using fits k(2) \<open>xe_kind e = k\<close> by (auto simp: edge_fits_def)
  ultimately show ?thesis
    using e sound find_sort_key [of xe_edge_id "bd_edges b" eid xe_edge_id]
    by (simp add: xg_edge_def builder_graph_def sound_graph_def ids_distinct_def) blast
qed

text \<open>
  C16. The shape of an explanation. Its node and edge ids are unique and every edge joins two of its
  nodes. Every path starts at the subject, ends at the directory and is a route over the graph: its
  edge ids are edges of the graph, one between two nodes, and the \<open>k\<close>-th is spelled from node \<open>k\<close>
  and node \<open>k + 1\<close>; where no node id holds a \<open>>\<close>, which no SID and no Windows name does, the edge of
  that id runs from node \<open>k\<close> to node \<open>k + 1\<close>. There are never more paths than the path limit nor
  more removal targets than theirs.
\<close>

theorem explanation_well_formed:
  assumes res: "resolve_access token resource share fs = Inr a" and exp: "explain_access a resource share edges limits = Inr x"
    and lim: "mk_explanation_limits mp mt md mr = Inr limits"
  shows "distinct (map xn_node_id (xg_nodes (xp_graph x))) \<and> distinct (map xe_edge_id (xg_edges (xp_graph x)))
    \<and> (\<forall>e \<in> set (xg_edges (xp_graph x)). {xe_source e, xe_target e} \<subseteq> xn_node_id ` set (xg_nodes (xp_graph x)))
    \<and> (\<forall>p \<in> set (xp_paths x). hd (cp_chain p) = subj_key (st_subject token)
        \<and> hd (cp_node_ids p) = ''principal:'' @ subj_key (st_subject token)
        \<and> last (cp_node_ids p) = ''resource:'' @ rd_resource_key resource
        \<and> set (cp_node_ids p) \<subseteq> xn_node_id ` set (xg_nodes (xp_graph x))
        \<and> set (cp_edge_ids p) \<subseteq> xe_edge_id ` set (xg_edges (xp_graph x))
        \<and> length (cp_node_ids p) = Suc (length (cp_edge_ids p))
        \<and> (\<forall>k < length (cp_edge_ids p). joins (''resource:'' @ rd_resource_key resource)
              (cp_edge_ids p ! k) (cp_node_ids p ! k) (cp_node_ids p ! Suc k))
        \<and> ((\<forall>n \<in> set (xg_nodes (xp_graph x)). CHR ''>'' \<notin> set (xn_node_id n)) \<longrightarrow>
            (\<forall>k < length (cp_edge_ids p). \<exists>e. xg_edge (xp_graph x) (cp_edge_ids p ! k) = Some e
              \<and> xe_source e = cp_node_ids p ! k \<and> xe_target e = cp_node_ids p ! Suc k)))
    \<and> length (xp_paths x) \<le> xl_max_paths limits \<and> length (xp_removal_targets x) \<le> xl_max_removal_targets limits"
proof (rule explain_access_parts [OF exp])
  fix i b b'
  assume i: "i = \<lparr>xi_access = a, xi_resource = resource, xi_share = share, xi_limits = limits, xi_subgraph = edges\<rparr>"
    and b: "build_explanation i = Inr b" "removal_targets i b = Inr (xp_removal_targets x, b')" "xp_paths x = bd_paths b"
    and g: "xp_graph x = builder_graph b" and key: "rd_resource_key resource = ea_resource_key a"
  note spec = build_explanation_spec [OF b(1)]
  have "ea_token a = token" using resolve_access_parts [OF res] by blast
  then have s: "xi_subject i = st_subject token" by (simp add: i xi_subject_def xi_token_def)
  have o: "object_node_id i = ''resource:'' @ rd_resource_key resource" by (simp add: object_node_id_def i key)
  have ids: "distinct (map xn_node_id (xg_nodes (xp_graph x)))" "distinct (map xe_edge_id (xg_edges (xp_graph x)))"
    using spec(1) by (simp_all add: g builder_graph_def sound_graph_def ids_distinct_def distinct_map)
  have "ev_owner_rights ev = None" if "ea_share (xi_access i) = Some ev" for ev
  proof -
    have "(SMB_SHARE, ev) \<in> set (explained_layers a)" using that by (simp add: i explained_layers_def)
    then obtain es where "evaluate_acl es token SMB_SHARE UNOWNED_PRESENT_DACL = Inr ev"
      using resolved_layer [OF res] by (metis rights_layer.distinct(1))
    then show ?thesis using evaluate_acl_present(6) by fastforce
  qed
  then have "length (bd_paths b) \<le> xl_max_paths limits" using spec(5) limits_bounds(1) [OF lim] by (simp add: i)
  moreover obtain limited where "measure_all i b (removal_candidates b) [] = Inr (xp_removal_targets x, limited)"
    using b(2) by (auto simp: removal_targets_def result_simps)
  from measure_all_spec(1) [OF this] have "length (xp_removal_targets x) \<le> xl_max_removal_targets limits" by (simp add: i)
  moreover have graph: "known_nodes b = xn_node_id ` set (xg_nodes (xp_graph x))" "known_edges b = xe_edge_id ` set (xg_edges (xp_graph x))"
    by (simp_all add: g builder_graph_def known_nodes_def known_edges_def)
  have "{xe_source e, xe_target e} \<subseteq> known_nodes b" if "e \<in> set (xg_edges (xp_graph x))" for e
    using that spec(1) by (auto simp: g builder_graph_def sound_graph_def edge_fits_def)
  moreover have "\<forall>p \<in> set (xp_paths x). hd (cp_chain p) = subj_key (st_subject token)
        \<and> hd (cp_node_ids p) = ''principal:'' @ subj_key (st_subject token) \<and> last (cp_node_ids p) = ''resource:'' @ rd_resource_key resource
        \<and> set (cp_node_ids p) \<subseteq> known_nodes b \<and> set (cp_edge_ids p) \<subseteq> known_edges b
        \<and> length (cp_node_ids p) = Suc (length (cp_edge_ids p))
        \<and> (\<forall>k < length (cp_edge_ids p). joins (''resource:'' @ rd_resource_key resource)
              (cp_edge_ids p ! k) (cp_node_ids p ! k) (cp_node_ids p ! Suc k))
        \<and> ((\<forall>n \<in> known_nodes b. CHR ''>'' \<notin> set n) \<longrightarrow>
            (\<forall>k < length (cp_edge_ids p). \<exists>e. xg_edge (xp_graph x) (cp_edge_ids p ! k) = Some e
              \<and> xe_source e = cp_node_ids p ! k \<and> xe_target e = cp_node_ids p ! Suc k))"
  proof
    fix p
    assume "p \<in> set (xp_paths x)"
    then have route: "route_ok i b p" using spec(2) by (simp add: b(3))
    then have j: "joined (object_node_id i) (cp_node_ids p) (cp_edge_ids p)" by (simp add: route_ok_def)
    have step: "cp_node_ids p ! k \<in> known_nodes b" "cp_edge_ids p ! k \<in> known_edges b" if "k < length (cp_edge_ids p)" for k
      using route joined_length [OF j] nth_mem [of k "cp_node_ids p"] nth_mem [of k "cp_edge_ids p"] that by (auto simp: route_ok_def)
    show "hd (cp_chain p) = subj_key (st_subject token)
        \<and> hd (cp_node_ids p) = ''principal:'' @ subj_key (st_subject token) \<and> last (cp_node_ids p) = ''resource:'' @ rd_resource_key resource
        \<and> set (cp_node_ids p) \<subseteq> known_nodes b \<and> set (cp_edge_ids p) \<subseteq> known_edges b
        \<and> length (cp_node_ids p) = Suc (length (cp_edge_ids p))
        \<and> (\<forall>k < length (cp_edge_ids p). joins (''resource:'' @ rd_resource_key resource)
              (cp_edge_ids p ! k) (cp_node_ids p ! k) (cp_node_ids p ! Suc k))
        \<and> ((\<forall>n \<in> known_nodes b. CHR ''>'' \<notin> set n) \<longrightarrow>
            (\<forall>k < length (cp_edge_ids p). \<exists>e. xg_edge (xp_graph x) (cp_edge_ids p ! k) = Some e
              \<and> xe_source e = cp_node_ids p ! k \<and> xe_target e = cp_node_ids p ! Suc k))"
      using route joined_length [OF j] joined_nth [OF j] joins_edge [OF spec(1)] step by (simp add: route_ok_def s o g)
  qed
  ultimately show ?thesis using ids by (simp add: graph b(3))
qed


subsection \<open>A sample\<close>

lemma sample_unblocked: "\<not> ae_names_owner_rights (sample_entry k s v l)" "length [sample_entry k s v l] \<le> MAX_ACL_ENTRIES"
  by (simp_all add: sample_entry_def ae_names_owner_rights_def OWNER_RIGHTS_SID_def MAX_ACL_ENTRIES_def)

lemma sample_token_ok: "mk_subject_token (sample_token LOCAL) = Inr (sample_token LOCAL)"
  by (simp add: mk_subject_token_def sample_token_def)

lemma default_limits_ok: "mk_explanation_limits 200 25 32 64 = Inr DEFAULT_EXPLANATION_LIMITS"
  by (simp add: mk_explanation_limits_def check_limit_def MAX_EXPLANATION_PATHS_def MAX_DEPTH_CEILING_def
    MAX_REMOVAL_TARGETS_CEILING_def DEFAULT_EXPLANATION_LIMITS_def)

text \<open>A directory whose one entry names the subject: one path, and its trustee edge is a removal target.\<close>

lemma direct_entry_explained:
  assumes res: "resolve_access t r None fs = Inr a" and entries: "rd_entries r = [e]" and key: "rd_resource_key r = ea_resource_key a"
    and facts: "df_dacl_present (rd_facts r)" "df_owner_key (rd_facts r) = None" "df_owner_sid (rd_facts r) = None"
    and app: "applicable t None e" "\<not> ae_names_owner_rights e" "ae_trustee_key e = subj_key (st_subject t)"
    and tok: "mk_subject_token t = Inr t" "token_entry t (subj_key (st_subject t)) = Some m" "tok_origin m = ORIGIN_SUBJECT"
      "st_membership_complete t"
      "\<forall>e \<in> set (st_entries t). tok_origin e = ORIGIN_GROUP_MEMBERSHIP \<longrightarrow> tok_key e \<noteq> subj_key (st_subject t)"
  obtains x p where "explain_access a r None edges DEFAULT_EXPLANATION_LIMITS = Inr x"
    "PT_MAX_PATHS \<notin> set (xp_truncation x)" "p \<in> set (xp_paths x)" "cp_ace_position p = int 0" "cp_layer p = NTFS"
    "xp_removal_targets x \<noteq> []"
proof -
  let ?i = "\<lparr>xi_access = a, xi_resource = r, xi_share = None, xi_limits = DEFAULT_EXPLANATION_LIMITS, xi_subgraph = edges\<rparr>"
  let ?f = "rd_facts r"
  have ev: "evaluate_acl [e] t NTFS ?f = Inr (ea_ntfs a)" using resolve_access_parts [OF res] entries by metis
  have share: "ea_share a = None" "ea_token a = t"
    using res by (auto simp: resolve_access_def cross_share_def result_simps Let_def split: if_splits)
  have unowned: "owner_token_sid_of t ?f = None" "\<not> owner_implicit t ?f es" for es
    using facts by (simp_all add: owner_token_sid_of_def owner_implicit_def)
  have own: "ev_owner_rights (ea_ntfs a) = None" using evaluate_acl_present(6) [OF ev facts(1)] unowned by simp
  have "walked t NTFS ?f [e] = apply_entry e 0 t None (start_walk t NTFS ?f [e])"
    using walk_entries_snoc [of "[]" e] by (simp add: walked_def walk_entries_def unowned)
  moreover have "trail (start_walk t NTFS ?f [e]) = []" by (simp add: trail_def)
  ultimately obtain ap where "trail (walked t NTFS ?f [e]) = [ap]" "aa_position ap = 0" "aa_entry ap = e"
    using trail_step(2) [of "start_walk t NTFS ?f [e]" 0 t None e] app(1) by auto
  then have ap: "applied_entries (ea_ntfs a) = [ap]" "aa_position ap = 0" "aa_entry ap = e"
    using evaluate_acl_present(7-9) [OF ev facts(1)] by (simp_all add: applied_entries_def trail_def MAX_ACL_ENTRIES_def)
  have "match_entry (aa_entry ap) t (owner_token_sid_of t ?f) = Some (aa_matched ap)" using applied_match [OF ev] ap(1) by simp
  then have m: "tok_origin (aa_matched ap) = ORIGIN_SUBJECT" using tok(2,3) app(2,3) by (simp add: match_entry_def ap(3))
  have "\<exists>b p k. build_explanation ?i = Inr b \<and> bd_trunc b = {} \<and> bd_paths b = [p] \<and> cp_ace_position p = 0 \<and> cp_layer p = NTFS
    \<and> k \<in> set (removal_candidates b)"
    using ap m share own tok(4)
    by (simp add: build_explanation_def Let_def explained_layers_def ownership_path_def paths_for_def chains_to_def enumerate_chains_def
      append_path_def xi_token_def xi_subject_def empty_builder_def add_node_def add_edge_def
      object_node_def object_node_id_def principal_node_def ace_node_def ace_target_def object_edge_def trustee_edge_def
      DEFAULT_EXPLANATION_LIMITS_def removal_candidates_def is_removable_def split: prod.split)
  then obtain b p k where b: "build_explanation ?i = Inr b" "bd_trunc b = {}" "bd_paths b = [p]" "cp_ace_position p = 0" "cp_layer p = NTFS"
    "k \<in> set (removal_candidates b)" by blast
  have "\<exists>e \<in> set (st_entries t). tok_origin e \<noteq> ORIGIN_GROUP_MEMBERSHIP"
  proof -
    have "m \<in> set (st_entries t)" using tok(2) by (auto simp: token_entry_def find_Some_iff split: option.splits if_splits)
    then show ?thesis using tok(3) by (intro bexI [of _ m]) simp_all
  qed
  then obtain x where x: "explain_access a r None edges DEFAULT_EXPLANATION_LIMITS = Inr x"
    using explain_total [OF res tok(1) default_limits_ok] tok(5) by blast
  obtain b' where parts: "removal_targets ?i b = Inr (xp_removal_targets x, b')" "xp_paths x = bd_paths b"
    "xp_truncation x = sorted_truncation (bd_trunc b')"
    using explain_access_parts [OF x] b(1) by (metis Inr_inject)
  obtain limited where run: "measure_all ?i b (removal_candidates b) [] = Inr (xp_removal_targets x, limited)"
    and b': "b' = (if limited then note_truncation PT_MAX_REMOVAL_TARGETS b else b)"
    using parts(1) by (auto simp: removal_targets_def result_simps)
  obtain k1 ks where ks: "removal_candidates b = k1 # ks" using b(6) by (cases "removal_candidates b") auto
  then have "k1 \<in> set (removal_candidates b)" by simp
  then obtain e1 where "find (\<lambda>e. xe_edge_id e = k1) (bd_edges b) = Some e1"
    by (auto simp: removal_candidates_def split: option.splits)
  then obtain rt where "measure_all ?i b ks [rt] = Inr (xp_removal_targets x, limited)"
    using run by (auto simp: ks result_simps measure_edge_def Let_def DEFAULT_EXPLANATION_LIMITS_def)
  from measure_all_spec(3) [OF this] have "xp_removal_targets x \<noteq> []" by auto
  moreover have "PT_MAX_PATHS \<notin> set (xp_truncation x)" using b(2) by (simp add: parts(3) b' note_truncation_def)
  ultimately show thesis using that [OF x _ _ _ b(5)] b(3,4) parts(2) by simp
qed

lemma sample_explained:
  obtains a x p where "resolve_access (sample_token LOCAL) (sample_resource 1 OBSERVED) None [] = Inr a"
    "explain_access a (sample_resource 1 OBSERVED) None [] DEFAULT_EXPLANATION_LIMITS = Inr x"
    "PT_MAX_PATHS \<notin> set (xp_truncation x)" "p \<in> set (xp_paths x)" "cp_ace_position p = int 0" "cp_layer p = NTFS"
    "xp_removal_targets x \<noteq> []"
proof -
  let ?t = "sample_token LOCAL" and ?r = "sample_resource 1 OBSERVED" and ?e = "sample_entry ALLOW EXPLICIT 1 NTFS"
  have "layers_fit ?t ?r None" by (simp add: layers_fit_def sample_entry_def ae_layer_def)
  then obtain a where a: "resolve_access ?t ?r None [] = Inr a" using resolve_access_returns by metis
  have key: "rd_resource_key ?r = ea_resource_key a"
    using a by (auto simp: resolve_access_def cross_share_def result_simps Let_def split: if_splits)
  show thesis
    by (rule direct_entry_explained [OF a _ key _ _ _ sample_applicable sample_unblocked(1) _ sample_token_ok, where edges = "[]"])
      (auto intro: that [OF a] simp: sample_resource_def rd_facts_def mk_dacl_facts_def sample_entry_def sample_token_def sample_subject_def
        token_entry_def)
qed

lemma nothing_is_uncaused_witness:
  "\<exists>a x. resolve_access (sample_token LOCAL) (sample_resource 1 OBSERVED) None [] = Inr a
    \<and> explain_access a (sample_resource 1 OBSERVED) None [] DEFAULT_EXPLANATION_LIMITS = Inr x
    \<and> (bit (mask_value (ea_rights a)) 0 \<longleftrightarrow> (\<exists>p \<in> set (xp_paths x). cp_layer p = NTFS \<and> cp_is_grant p \<and> cp_matters p
        \<and> bit (mask_value (cp_effective_rights p)) 0))"
proof (rule sample_explained)
  fix a x
  assume r: "resolve_access (sample_token LOCAL) (sample_resource 1 OBSERVED) None [] = Inr a"
    "explain_access a (sample_resource 1 OBSERVED) None [] DEFAULT_EXPLANATION_LIMITS = Inr x" "PT_MAX_PATHS \<notin> set (xp_truncation x)"
  show ?thesis using r nothing_is_uncaused [OF r(1,2) _ r(3), of NTFS "ea_ntfs a" 0] by (auto simp: explained_layers_def)
qed

lemma only_contributing_entries_matter_witness:
  "\<exists>a x p a'. resolve_access (sample_token LOCAL) (sample_resource 1 OBSERVED) None [] = Inr a
    \<and> explain_access a (sample_resource 1 OBSERVED) None [] DEFAULT_EXPLANATION_LIMITS = Inr x \<and> p \<in> set (xp_paths x)
    \<and> resolve_access (sample_token LOCAL) (resource_without (Some (NTFS, 0)) (sample_resource 1 OBSERVED)) None [] = Inr a'
    \<and> (bit (mask_value (ea_rights a')) 0 \<noteq> bit (mask_value (ea_rights a)) 0 \<longrightarrow> bit (mask_value (cp_effective_rights p)) 0)"
proof (rule sample_explained)
  fix a x p
  assume r: "resolve_access (sample_token LOCAL) (sample_resource 1 OBSERVED) None [] = Inr a"
    "explain_access a (sample_resource 1 OBSERVED) None [] DEFAULT_EXPLANATION_LIMITS = Inr x"
    and p: "p \<in> set (xp_paths x)" "cp_ace_position p = int 0" "cp_layer p = NTFS"
  from only_contributing_entries_matter [OF r p(1,2)] p(3) sample_unblocked
  show ?thesis using r p by (fastforce simp: share_without_def)
qed

definition own_world :: "nat world" where
  "own_world = small_world\<lparr>w_db := (w_db small_world)\<lparr>st_ntfs_aces :=
     [(sample_ace ''1'' ''S-1-5-21-7'' ALLOW 1 (Some 0))\<lparr>nar_resource_key := share_path\<rparr>]\<rparr>\<rparr>"

definition own_dacl :: resource_dacl where
  "own_dacl = (case resource_dacl_for own_world share_path of Inr (_, d) \<Rightarrow> d | Inl _ \<Rightarrow> unread_dacl [])"

definition own_permission :: acl_entry where
  "own_permission = \<lparr>ae_trustee_key = ''S-1-5-21-7'', ae_trustee_sid = ''S-1-5-21-7'', ae_ace_type = ALLOW,
     ae_mask = rmask 1 NTFS, ae_flags = 0, ae_source = EXPLICIT, ae_order_index = Some 0,
     ae_ace_key = Some ''1'', ae_inherited_from = None, ae_trustee_name = None\<rparr>"

lemma own_inputs:
  "case resource_dacl_for own_world share_path of Inl _ \<Rightarrow> False
   | Inr (r, d) \<Rightarrow> rd_owner_sid d = None \<and> rd_owner_key d = None \<and> rd_dacl_present d"
  "rd_entries own_dacl = [own_permission]"
  "case effective_groups own_world ''S-1-5-21-7'' search_limits 0 of Inl _ \<Rightarrow> False
   | Inr (m, s) \<Rightarrow> s = 1 \<and> em_complete m \<and> map ren_key (em_nodes m) = [''G'']"
  "get_principal (w_db own_world) ''S-1-5-21-7'' = None"
  by code_simp+

lemma own_facts: "\<exists>f. subject_facts_of own_world ''S-1-5-21-7'' None = Inr f \<and> subj_key f = ''S-1-5-21-7'' \<and> subj_sid f = ''S-1-5-21-7''"
  by (simp add: subject_facts_of_def mk_subject_facts_def sid_of_def small_split sample_sid_parses)

lemma own_permission_applies:
  assumes "token_entry t ''S-1-5-21-7'' \<noteq> None"
  shows "applicable t owner own_permission" "\<not> ae_names_owner_rights own_permission"
  using assms
  by (simp_all add: applicable_def own_permission_def ae_applies_to_this_object_def ae_names_substitution_placeholder_def
      ae_names_owner_rights_def SUBSTITUTION_PLACEHOLDERS_def sid_constant_defs match_entry_def has_flag_def ace_flag_defs)

lemma removal_is_measured_witness:
  "\<exists>rx t token dacl share fs e token' excluded a'.
      service_explain_access own_world ''S-1-5-21-7'' share_path LOCAL search_limits DEFAULT_EXPLANATION_LIMITS None 0 = Inr (rx, 1)
    \<and> t \<in> set (xp_removal_targets (rx_explanation rx))
    \<and> cut_by token (edges_of (w_db own_world)) (xp_graph (rx_explanation rx)) e token' excluded
    \<and> resolve_access token' (resource_without excluded dacl) (share_without excluded share) fs = Inr a'
    \<and> rt_rights_after t = ea_rights a'"
proof -
  obtain row where row: "resource_dacl_for own_world share_path = Inr (row, own_dacl)" and bare: "rd_owner_sid own_dacl = None"
      "rd_owner_key own_dacl = None" "rd_dacl_present own_dacl"
    using own_inputs(1) by (auto simp: own_dacl_def split: sum.splits)
  obtain m n where m: "effective_groups own_world ''S-1-5-21-7'' search_limits 0 = Inr (m, 1)" "em_complete m" "em_nodes m = [n]" "ren_key n = ''G''"
    using own_inputs(3) by (auto split: sum.splits)
  obtain g where g: "group_token_sid n = Inr g" using m(4) by (auto simp: group_token_sid_def mk_token_sid_def)
  obtain f where f: "subject_facts_of own_world ''S-1-5-21-7'' None = Inr f" "subj_key f = ''S-1-5-21-7''" "subj_sid f = ''S-1-5-21-7''"
    using own_facts by blast
  obtain t where t: "build_token f [g] LOCAL None True (map cycle_finding (em_cycles m)) = Inr t" using small_token [OF f(2)] by blast
  have parts: "st_subject t = f" "st_subject_presented t = presents_subject f LOCAL" "\<exists>rest. st_entries t = own_entry f # rest"
    using build_token_facts [OF build_token_keyed [OF t], of "[g]" LOCAL None True "map cycle_finding (em_cycles m)"] t by (metis Inr_inject)+
  have entry: "token_entry t ''S-1-5-21-7'' = Some (own_entry f)"
    using parts f(2,3) by (auto simp: token_entry_def presents_subject_def)
  obtain ea where ea: "resolve_access t own_dacl None (coverage_findings own_world t own_dacl None) = Inr ea" "ea_token ea = t" "st_membership_complete t"
    using small_access [OF t, of own_dacl "coverage_findings own_world t own_dacl None"]
    by (auto simp: own_inputs(2) own_permission_def ae_layer_def)
  have key: "rd_resource_key own_dacl = ea_resource_key ea"
    using ea(1) by (auto simp: resolve_access_def cross_share_def result_simps Let_def split: if_splits)
  have bare_facts: "df_dacl_present (rd_facts own_dacl)" "df_owner_key (rd_facts own_dacl) = None" "df_owner_sid (rd_facts own_dacl) = None"
    using bare by (simp_all add: rd_facts_def mk_dacl_facts_def)
  have applies: "applicable t None own_permission" "\<not> ae_names_owner_rights own_permission"
    using own_permission_applies [of t] by (simp_all add: entry)
  have subject: "ae_trustee_key own_permission = subj_key (st_subject t)" "token_entry t (subj_key (st_subject t)) = Some (own_entry f)"
    "tok_origin (own_entry f) = ORIGIN_SUBJECT"
    using entry by (simp_all add: own_permission_def parts(1) f(2))
  obtain x where x: "explain_access ea own_dacl None (em_edges m) DEFAULT_EXPLANATION_LIMITS = Inr x" "xp_removal_targets x \<noteq> []"
    by (rule direct_entry_explained [OF ea(1) own_inputs(2) key bare_facts applies subject(1) built_token_explains(1) [OF t] subject(2,3) ea(3)
      built_token_explains(3) [OF t], where edges = "em_edges m"]) blast
  have same: "xp_access x = ea" using x(1) by (auto simp: explain_access_def Let_def result_simps split: prod.splits)
  obtain rx where rx: "service_explain_access own_world ''S-1-5-21-7'' share_path LOCAL search_limits DEFAULT_EXPLANATION_LIMITS None 0 = Inr (rx, 1)"
      "rx_explanation rx = x"
    using row m g f t ea x own_inputs(4)
    by (simp add: service_explain_access_def resolve_one_def share_side_def build_subject_token_def Let_def)
  have rows: "edges_of (w_db own_world) = edge_rows small_edges" "(1::nat) < w_edge_fetch_limit own_world"
    by (simp_all add: small_rows edges_of_def own_world_def small_world_def)
  obtain rt where "rt \<in> set (xp_removal_targets (rx_explanation rx))" using x(2) rx(2) by (cases "xp_removal_targets x") auto
  with removal_is_measured [OF rx(1) rows _ this] rx same ea(2,3) show ?thesis by blast
qed

lemma explain_access_returns_witness:
  "\<exists>a x. resolve_access (sample_token LOCAL) (sample_resource 1 OBSERVED) None [] = Inr a
    \<and> explain_access a (sample_resource 1 OBSERVED) None [] DEFAULT_EXPLANATION_LIMITS = Inr x"
proof (rule sample_explained)
  fix a
  assume r: "resolve_access (sample_token LOCAL) (sample_resource 1 OBSERVED) None [] = Inr a"
  have "\<exists>e \<in> set (st_entries (sample_token LOCAL)). tok_origin e \<noteq> ORIGIN_GROUP_MEMBERSHIP"
    "\<forall>e \<in> set (st_entries (sample_token LOCAL)). tok_origin e = ORIGIN_GROUP_MEMBERSHIP \<longrightarrow> tok_key e \<noteq> subj_key (st_subject (sample_token LOCAL))"
    by (simp_all add: sample_token_def)
  from explain_access_returns [OF r sample_token_ok default_limits_ok this] r show ?thesis by blast
qed

lemma explanation_well_formed_witness:
  "\<exists>a x. resolve_access (sample_token LOCAL) (sample_resource 1 OBSERVED) None [] = Inr a
    \<and> explain_access a (sample_resource 1 OBSERVED) None [] DEFAULT_EXPLANATION_LIMITS = Inr x \<and> length (xp_paths x) \<le> 200"
proof (rule sample_explained)
  fix a x
  assume r: "resolve_access (sample_token LOCAL) (sample_resource 1 OBSERVED) None [] = Inr a"
    "explain_access a (sample_resource 1 OBSERVED) None [] DEFAULT_EXPLANATION_LIMITS = Inr x"
  have "length (xp_paths x) \<le> xl_max_paths DEFAULT_EXPLANATION_LIMITS" using explanation_well_formed [OF r default_limits_ok] by blast
  with r show ?thesis by (auto simp: DEFAULT_EXPLANATION_LIMITS_def)
qed

lemma every_answer_is_explained_witness:
  "case service_effective_access small_world ''S-1-5-21-7'' share_path LOCAL search_limits None 0 of
      Inl e \<Rightarrow> service_explain_access small_world ''S-1-5-21-7'' share_path LOCAL search_limits DEFAULT_EXPLANATION_LIMITS None 0 = Inl e
    | Inr (answer, fetched') \<Rightarrow> (\<exists>x. service_explain_access small_world ''S-1-5-21-7'' share_path LOCAL search_limits
          DEFAULT_EXPLANATION_LIMITS None 0 = Inr (x, fetched')
        \<and> xp_access (rx_explanation x) = ra_access answer \<and> rx_resource x = ra_resource answer \<and> rx_principals x = ra_principals answer)"
  by (rule every_answer_is_explained [OF default_limits_ok])

end
