(* ===== verification/Spec2Isabelle.thy ===== *)
theory Spec2Isabelle
  imports Adg_Access_Service Adg_Plan_Service Adg_Simulated_Reads Adg_Explanation
begin

text \<open>
  A verification development for ADG (Access Dependency Graph), the auditing server under
  \<open>src/backend/app\<close>. ADG collects what a Windows estate says about access (memberships, share and
  NTFS permissions), answers who can do what with which certainty, and turns the answers into reviewed
  and signed change plans. It never changes the estate itself.

  \<^bold>\<open>How the parts interact.\<close> The domain types (\<open>domain/\<close>) are the facts. The access engine
  (\<open>access_engine/\<close>) takes a token (the principals a subject presents, from the membership graph) and
  the ACLs of a share and a directory, walks both, crosses the layers and classifies the result. The
  inheritance module predicts a child's DACL from its parent's, over normalized documents that are
  compared by digest. Governance appends every decision to hash chains. Remediation freezes what was
  observed in a change plan, has it simulated, approved and exported, re-checks it against the estate at
  every gate, and writes its own chain. Simulation answers the engine's questions about an estate nobody has
  changed yet: an overlay of proposed changes stands between the repositories and the engine.

  \<^bold>\<open>Which theory models what.\<close>
  \<^item> \<open>Adg_Prelude\<close>: errors as values, the result monad, text functions; shared lemmas.
  \<^item> \<open>Adg_Identity\<close> (\<open>domain/errors.py\<close>, \<open>domain/identity.py\<close>): SIDs; a canonical SID is the rendering
    of its components, parsing is idempotent, and what a domain SID is.
  \<^item> \<open>Adg_Access\<close> (\<open>domain/access.py\<close>): ACE types, flags, rights, record types and their checks.
  \<^item> \<open>Adg_Rights\<close> (\<open>access_engine/rights.py\<close>): masks per layer as 32-bit words, generic rights, folds
    (the locale \<open>layered_combine\<close>), canonical resolution, layer crossing, summaries.
  \<^item> \<open>Adg_Conditions\<close>, \<open>Adg_Subjects\<close> (\<open>conditions.py\<close>, \<open>subjects.py\<close>): the closed vocabulary of findings;
    building a token, and the two ways a mapped SYSTEM account is presented.
  \<^item> \<open>Adg_Evaluation\<close> (\<open>evaluation.py\<close>): the walk over a DACL with its evidence; refines the first-match
    rule (locale \<open>first_match_walk\<close>), agrees with the canonical model on ordered DACLs.
  \<^item> \<open>Adg_Resolver\<close>, \<open>Adg_Verdict\<close> (\<open>resolver.py\<close>, \<open>verdict.py\<close>): both ACL sides, certainty as a
    semilattice, limiting layer, outcome; a conclusive negative is earned.
  \<^item> \<open>Adg_Graph\<close> (\<open>domain/graph.py\<close>, \<open>repositories/membership.py\<close>): breadth-first expansion over a
    provider (locale \<open>budgeted_provider\<close>, interpreted on the repository's row-limited query):
    termination, path and bound invariants, completeness against shortest distance.
  \<^item> \<open>Adg_Acl_Hash\<close>, \<open>Adg_Inheritance\<close> (\<open>domain/acl_hash.py\<close>, \<open>domain/inheritance.py\<close>): the document of a
    DACL determines it; projection onto children, its fixed point, the boundary verdict.
  \<^item> \<open>Adg_Json\<close>: JSON values and the one serialization digests are taken over; it is injective up to
    the order of keys. \<open>Adg_Audit\<close> (\<open>governance/audit.py\<close>, the chain operations of
    \<open>governance/repository.py\<close> and \<open>governance/service.py\<close>): appended chains verify, equal heads mean
    equal digested content.
  \<^item> \<open>Adg_Change_Plan\<close> (\<open>remediation/model.py\<close>, \<open>preconditions.py\<close>, \<open>domain/remediation.py\<close>): changes and
    plans with their checks, digests and preconditions. \<open>Adg_Plan_Store\<close> (\<open>remediation/repository.py\<close>):
    their rows and reading them back. \<open>Adg_Plan_Service\<close> (\<open>remediation/service.py\<close>, signing in
    \<open>export.py\<close>): every mutating operation as a function on the tables, refined against the
    workflow \<open>workflow_step\<close>, with invariants over every reachable state.
  \<^item> \<open>Adg_Paths\<close> (\<open>domain/paths.py\<close>, share identifiers of \<open>domain/resources.py\<close>): canonical paths.
  \<^item> \<open>Adg_Cycles\<close>, \<open>Adg_Membership_Paths\<close> (\<open>domain/graph.py\<close>): the iterative Tarjan search and its
    report of cycles; the enumeration of simple membership chains, refined against a reference definition.
  \<^item> \<open>Adg_Resources\<close> (\<open>domain/resources.py\<close>, the records of \<open>repositories/resources.py\<close>): servers, shares,
    directories, stored rows, the digest and the boundary verdict the server recomputes.
  \<^item> \<open>Adg_Store\<close> (\<open>repositories/resources.py\<close>, \<open>repositories/membership.py\<close>): the read queries as functions
    over tables; bulk reads agree with single ones, pages cover (locale \<open>keyset_source\<close>).
  \<^item> \<open>Adg_Graph_Service\<close>, \<open>Adg_Access_Service\<close> (\<open>services/graph.py\<close>, \<open>services/access.py\<close>): stored rows become
    the engine's inputs; the two ways to ask about access agree, and a certain answer rests on what was read, the
    token being the whole stored membership where the request did not use up its rows.

  \<^item> \<open>Adg_Overlay\<close> (\<open>simulation/overlay.py\<close>): proposed changes with their checks, the overlay, its digest and
    its document, which reads back where the folded keys fold to themselves. \<open>Adg_Simulation\<close> (\<open>simulation/application.py\<close>): the overlay applied to
    edges, a directory's ACL and row, and a share's ACL (locale \<open>numbered_rows\<close>). \<open>Adg_Simulated_Reads\<close>
    (\<open>simulation/repositories.py\<close>): the repositories a simulation reads through; a simulated walk is the
    walk over the edited estate (locale \<open>provider_view\<close>), bulk reads and pages agree with the edited tables.
  \<^item> \<open>Adg_Causality\<close> (\<open>access_engine/causality.py\<close>): the explanation of an answer; its builder as a record
    the steps take and return, what each step adds to it, and the replay of the walk entry by entry.
    \<open>Adg_Explanation\<close> (with \<open>explain_access\<close> of \<open>services/access.py\<close>): the paths account for the rights
    bit by bit, an entry whose path does not contribute can go, over a complete membership every removal is the
    answer of the same ACLs without the edge, every path is a route of the graph, and every answer the service gives is explained.

  \<^bold>\<open>Correspondence.\<close> A class is a record of the same fields, its \<open>__post_init__\<close> the function
  \<open>mk_...\<close> returning the object or the error; an enumeration is a datatype; an exception is \<open>Inl\<close> of
  \<open>adg_error\<close>. Access masks are \<open>32 word\<close> where the code checks the range on construction and \<open>int\<close> where it
  does not. A service operation takes the tables and returns the tables its transaction leaves with
  the result or the exception.

  \<^bold>\<open>Bounds.\<close> The walk evaluates at most 4096 entries, a traversal at most its depth, node and edge
  limits (its recursion is on the remaining depth), positions sort as numbers below \<open>10 ^ 10\<close>, a plan
  has at most 100 changes, a page of a chain 1000 events, a page of who can reach a directory expands
  128 trustees. Loops are structural or have measures (a multiset order for the enumeration of chains);
  the Tarjan search runs on fuel, twice the number of keys plus one, which is proved to be enough.

  \<^bold>\<open>Parameters.\<close> SHA-256, HMAC, Unicode case folding, the database's collation, the rendering and
  reading of moments, and, per call of the plan service, what its surroundings supply: the moment,
  fresh identifiers, the collection basis, the observed state of a plan's targets, the simulation's
  report, the export document and the signing key.

  \<^bold>\<open>Not modelled.\<close> SQL queries other than the ones named above, HTTP routes and pydantic contracts
  (framework glue), sentences of errors and reports, characters beyond 255 (the digits of other scripts
  that a regular expression would accept in a SID), and the reads a simulation refuses. Not reached: the runbook's text, running a simulation and its impact report, access reviews, collection
  lifecycle, risk rules, change detection, alerts, history closure, roles, the questions of an investigation.
\<close>

end
